(* ===== verification/Prelude.thy ===== *)
theory Prelude
  imports Main
begin

text \<open>
  Shared vocabulary of the development: the errors the code throws, the result type that
  carries them, the sequencing combinator that stops at the first throw, and the generic
  facts about consecutive integer lists that every tick container uses.

  A TypeScript function that may throw is a HOL function into \<open>js_error + 'a\<close>: \<open>Inl\<close>
  is the throw, \<open>Inr\<close> the value returned. Error messages are not modelled; the class
  and the numbers an error object carries are, with a tag naming which check refused.
\<close>

named_theorems js_exact
  \<open>equations that replace rounded arithmetic by exact integer arithmetic inside the safe range\<close>

named_theorems guard_simps
  \<open>characteristic equations of the validation guards\<close>

section \<open>Errors and results\<close>

datatype js_error =
    RangeError string
  | TypeError string
  | InvalidStreamLabel string
  | ProductionStreamFromTestKeyring
  | NotSettleable string
  | UnknownSequence int int
  | Evicted int int
  | Contiguity int int
  | LeaseHolderErr
  | StaleFence int "int option"
  | RecordFork int
  | SeamErr string
  | RetentionErr string
  | CorruptRecord string
  | ReplicationGap int int
  | CommitmentErr string
  | PublishingKeyErr string
  | RotationErr string
  | AnchorErr string
  | StoreErr string
  | HistoryErr string
  | ClockWentBackwards int int
  | CatchUpTooLarge int

type_synonym 'a result = "js_error + 'a"

text \<open>Sequencing: the continuation runs only when the first computation did not throw.\<close>

fun andThen :: "'a result \<Rightarrow> ('a \<Rightarrow> 'b result) \<Rightarrow> 'b result" where
  "andThen (Inl e) f = Inl e"
| "andThen (Inr a) f = f a"

text \<open>A guard of the form \<^verbatim>\<open>if (!p) throw e\<close>.\<close>

definition require :: "bool \<Rightarrow> js_error \<Rightarrow> unit result" where
  "require p e = (if p then Inr () else Inl e)"

lemma andThen_Inr_iff: "andThen r f = Inr b \<longleftrightarrow> (\<exists>a. r = Inr a \<and> f a = Inr b)"
  by (cases r) auto

lemma andThen_Inl_iff:
  "andThen r f = Inl e \<longleftrightarrow> r = Inl e \<or> (\<exists>a. r = Inr a \<and> f a = Inl e)"
  by (cases r) auto

lemma andThen_assoc: "andThen (andThen r f) g = andThen r (\<lambda>a. andThen (f a) g)"
  by (cases r) auto

lemma require_Inr [simp]: "require p e = Inr u \<longleftrightarrow> p"
  by (simp add: require_def)

lemma require_Inl [simp]: "require p e = Inl e' \<longleftrightarrow> \<not> p \<and> e' = e"
  by (auto simp add: require_def)

lemma require_True [simp]: "p \<Longrightarrow> require p e = Inr ()"
  by (simp add: require_def)

lemma require_False [simp]: "\<not> p \<Longrightarrow> require p e = Inl e"
  by (simp add: require_def)

text \<open>A loop that stops at the first throw.\<close>

fun foldE :: "('a \<Rightarrow> 's \<Rightarrow> 's result) \<Rightarrow> 'a list \<Rightarrow> 's \<Rightarrow> 's result" where
  "foldE f [] s = Inr s"
| "foldE f (x # xs) s = andThen (f x s) (foldE f xs)"

lemma foldE_append: "foldE f (xs @ ys) s = andThen (foldE f xs s) (foldE f ys)"
proof (induction xs arbitrary: s)
  case (Cons x xs)
  then show ?case by (cases "f x s") auto
qed simp

lemma foldE_invariant:
  assumes "foldE f xs s = Inr s'" "P s"
    and "\<And>x s s'. x \<in> set xs \<Longrightarrow> P s \<Longrightarrow> f x s = Inr s' \<Longrightarrow> P s'"
  shows "P s'"
  using assms by (induction xs arbitrary: s) (auto simp: andThen_Inr_iff)

section \<open>Runs of consecutive integers\<close>

text \<open>
  Sequences are consecutive when each is its predecessor plus one: the gapless order every
  container of ticks promises.
\<close>

fun consecutive :: "int list \<Rightarrow> bool" where
  "consecutive [] = True"
| "consecutive [x] = True"
| "consecutive (x # y # zs) = (y = x + 1 \<and> consecutive (y # zs))"

lemma consecutive_Cons:
  "consecutive (x # ys) \<longleftrightarrow> (ys = [] \<or> hd ys = x + 1) \<and> consecutive ys"
  by (cases ys) auto

lemma consecutive_append:
  "consecutive (xs @ ys) \<longleftrightarrow>
     consecutive xs \<and> consecutive ys \<and> (xs = [] \<or> ys = [] \<or> hd ys = last xs + 1)"
proof (induction xs rule: consecutive.induct)
  case 1
  then show ?case by simp
next
  case (2 x)
  then show ?case by (cases ys) auto
next
  case (3 x y zs)
  then show ?case by auto
qed

lemma consecutive_take: "consecutive xs \<Longrightarrow> consecutive (take n xs)"
  by (metis append_take_drop_id consecutive_append)

lemma consecutive_drop: "consecutive xs \<Longrightarrow> consecutive (drop n xs)"
  by (metis append_take_drop_id consecutive_append)

lemma consecutive_nth:
  "consecutive xs \<Longrightarrow> i < length xs \<Longrightarrow> xs ! i = hd xs + int i"
proof (induction xs arbitrary: i rule: consecutive.induct)
  case (3 x y zs)
  then show ?case by (cases i) auto
qed auto

lemma consecutive_last: "consecutive xs \<Longrightarrow> xs \<noteq> [] \<Longrightarrow> last xs = hd xs + int (length xs) - 1"
  using consecutive_nth [of xs "length xs - 1"]
  by (simp add: last_conv_nth of_nat_diff Suc_le_eq)

lemma consecutive_eq_upto:
  "consecutive xs \<longleftrightarrow> (\<exists>a. xs = map (\<lambda>i. a + int i) [0..<length xs])"
proof
  assume c: "consecutive xs"
  have "xs = map (\<lambda>i. hd xs + int i) [0..<length xs]"
    by (rule nth_equalityI) (auto simp: consecutive_nth [OF c])
  then show "\<exists>a. xs = map (\<lambda>i. a + int i) [0..<length xs]" by blast
next
  assume "\<exists>a. xs = map (\<lambda>i. a + int i) [0..<length xs]"
  then obtain a where "xs = map (\<lambda>i. a + int i) [0..<length xs]" by blast
  moreover have "consecutive (map (\<lambda>i. a + int i) [k..<n])" for k n
    by (induction "n - k" arbitrary: k) (auto simp: upt_rec consecutive_Cons)
  ultimately show "consecutive xs" by metis
qed

lemma consecutive_sorted: "consecutive xs \<Longrightarrow> sorted_wrt (<) xs"
  by (auto simp: sorted_wrt_iff_nth_less consecutive_nth)

lemma consecutive_distinct: "consecutive xs \<Longrightarrow> distinct xs"
  by (metis consecutive_sorted strict_sorted_iff)

lemma consecutive_memI:
  assumes "consecutive xs" "xs \<noteq> []" "hd xs \<le> v" "v \<le> last xs"
  shows "v = xs ! nat (v - hd xs)" "nat (v - hd xs) < length xs"
proof -
  show l: "nat (v - hd xs) < length xs"
    using assms consecutive_last [OF assms(1,2)] by linarith
  show "v = xs ! nat (v - hd xs)"
    using consecutive_nth [OF assms(1) l] assms(3) by simp
qed

end
