(* ===== verification/JsNumber.thy ===== *)
theory JsNumber
  imports Complex_Main "HOL-Library.Log_Nat" Prelude
begin

text \<open>
  The ECMAScript Number type as the code uses it: IEEE-754 binary64 without the sign of
  zero, which no modelled operation observes. A finite number is the rational it denotes; an
  arithmetic operation computes exactly and rounds once, to nearest with ties to even
  (\<open>fl\<close>), with gradual underflow and overflow to an infinity.

  The theory ends with the facts that make integer code exact: rounding is the identity on
  integers up to \<open>2 ^ 53\<close> and never brings a larger one back inside the safe range, so a
  guard on the rounded value decides the exact one.
\<close>

datatype jsnum = NaN | PosInf | NegInf | Fin rat

definition num :: "int \<Rightarrow> jsnum" where
  "num n = Fin (of_int n)"

section \<open>Rounding\<close>

definition rne :: "rat \<Rightarrow> int" where
  "rne x = (let f = \<lfloor>x\<rfloor>; d = x - of_int f in
     if d < 1/2 then f else if 1/2 < d then f + 1 else if even f then f else f + 1)"

definition pow2 :: "int \<Rightarrow> rat" where
  "pow2 e = (if 0 \<le> e then 2 ^ nat e else 1 / 2 ^ nat (- e))"

text \<open>The binary exponent of a positive rational: \<open>pow2 k \<le> x < pow2 (k + 1)\<close>.\<close>

definition mag_exp :: "rat \<Rightarrow> int" where
  "mag_exp x = (if 1 \<le> x then int (floorlog 2 (nat \<lfloor>x\<rfloor>)) - 1
     else - int (floorlog 2 (nat (\<lceil>1 / x\<rceil> - 1))))"

definition ulp_exp :: "rat \<Rightarrow> int" where
  "ulp_exp x = max (mag_exp \<bar>x\<bar> - 52) (-1074)"

definition fl :: "rat \<Rightarrow> rat" where
  "fl x = (if x = 0 then 0 else of_int (rne (x / pow2 (ulp_exp x))) * pow2 (ulp_exp x))"

definition js_of_rat :: "rat \<Rightarrow> jsnum" where
  "js_of_rat x = (let y = fl x in
     if 2 ^ 1024 \<le> y then PosInf else if y \<le> - (2 ^ 1024) then NegInf else Fin y)"

section \<open>Operations\<close>

fun js_neg :: "jsnum \<Rightarrow> jsnum" where
  "js_neg NaN = NaN" | "js_neg PosInf = NegInf" | "js_neg NegInf = PosInf"
| "js_neg (Fin x) = Fin (- x)"

fun js_add :: "jsnum \<Rightarrow> jsnum \<Rightarrow> jsnum" where
  "js_add (Fin x) (Fin y) = js_of_rat (x + y)"
| "js_add NaN _ = NaN"
| "js_add _ NaN = NaN"
| "js_add PosInf NegInf = NaN"
| "js_add NegInf PosInf = NaN"
| "js_add PosInf _ = PosInf"
| "js_add _ PosInf = PosInf"
| "js_add NegInf _ = NegInf"
| "js_add _ NegInf = NegInf"

definition js_sub :: "jsnum \<Rightarrow> jsnum \<Rightarrow> jsnum" where
  "js_sub x y = js_add x (js_neg y)"

definition js_signed_inf :: "rat \<Rightarrow> jsnum" where
  "js_signed_inf s = (if 0 < s then PosInf else if s < 0 then NegInf else NaN)"

fun js_mul :: "jsnum \<Rightarrow> jsnum \<Rightarrow> jsnum" where
  "js_mul (Fin x) (Fin y) = js_of_rat (x * y)"
| "js_mul NaN _ = NaN"
| "js_mul _ NaN = NaN"
| "js_mul (Fin x) PosInf = js_signed_inf x"
| "js_mul (Fin x) NegInf = js_signed_inf (- x)"
| "js_mul PosInf (Fin x) = js_signed_inf x"
| "js_mul NegInf (Fin x) = js_signed_inf (- x)"
| "js_mul PosInf PosInf = PosInf"
| "js_mul PosInf NegInf = NegInf"
| "js_mul NegInf PosInf = NegInf"
| "js_mul NegInf NegInf = PosInf"

text \<open>Division is used by the code with finite divisors only; the remaining cases follow
  the standard, a zero divisor read as \<open>+0\<close>.\<close>

fun js_div :: "jsnum \<Rightarrow> jsnum \<Rightarrow> jsnum" where
  "js_div (Fin x) (Fin y) = (if y = 0 then js_signed_inf x else js_of_rat (x / y))"
| "js_div NaN _ = NaN"
| "js_div _ NaN = NaN"
| "js_div (Fin x) _ = Fin 0"
| "js_div PosInf (Fin y) = (if 0 \<le> y then PosInf else NegInf)"
| "js_div NegInf (Fin y) = (if 0 \<le> y then NegInf else PosInf)"
| "js_div _ _ = NaN"

fun js_abs :: "jsnum \<Rightarrow> jsnum" where
  "js_abs NaN = NaN" | "js_abs PosInf = PosInf" | "js_abs NegInf = PosInf"
| "js_abs (Fin x) = Fin \<bar>x\<bar>"

text \<open>\<^verbatim>\<open>Math.floor\<close> and \<^verbatim>\<open>Math.round\<close> (ties towards plus infinity), both exact.\<close>

fun js_floor :: "jsnum \<Rightarrow> jsnum" where
  "js_floor (Fin x) = num \<lfloor>x\<rfloor>"
| "js_floor v = v"

fun js_round :: "jsnum \<Rightarrow> jsnum" where
  "js_round (Fin x) = num \<lfloor>x + 1/2\<rfloor>"
| "js_round v = v"

text \<open>Comparisons are false as soon as one side is \<^verbatim>\<open>NaN\<close>.\<close>

fun js_lt :: "jsnum \<Rightarrow> jsnum \<Rightarrow> bool" where
  "js_lt (Fin x) (Fin y) = (x < y)"
| "js_lt NaN _ = False"
| "js_lt _ NaN = False"
| "js_lt PosInf _ = False"
| "js_lt _ NegInf = False"
| "js_lt _ _ = True"

definition js_eq :: "jsnum \<Rightarrow> jsnum \<Rightarrow> bool" where
  "js_eq x y \<longleftrightarrow> x \<noteq> NaN \<and> x = y"

definition js_le :: "jsnum \<Rightarrow> jsnum \<Rightarrow> bool" where
  "js_le x y \<longleftrightarrow> js_lt x y \<or> js_eq x y"

fun isFinite :: "jsnum \<Rightarrow> bool" where
  "isFinite (Fin _) = True" | "isFinite _ = False"

fun isInteger :: "jsnum \<Rightarrow> bool" where
  "isInteger (Fin x) = (of_int \<lfloor>x\<rfloor> = x)" | "isInteger _ = False"

abbreviation MAX_SAFE :: int where
  "MAX_SAFE \<equiv> 9007199254740991"

fun isSafeInteger :: "jsnum \<Rightarrow> bool" where
  "isSafeInteger (Fin x) = (of_int \<lfloor>x\<rfloor> = x \<and> \<bar>\<lfloor>x\<rfloor>\<bar> \<le> MAX_SAFE)"
| "isSafeInteger _ = False"

text \<open>The integer a number denotes, where the code has just checked that it is one.\<close>

fun int_of :: "jsnum \<Rightarrow> int" where
  "int_of (Fin x) = \<lfloor>x\<rfloor>" | "int_of _ = 0"

section \<open>Integers are exact\<close>

lemma pow2_pos [simp]: "0 < pow2 e"
  by (simp add: pow2_def)

lemma pow2_nonzero [simp]: "pow2 e \<noteq> 0"
  using pow2_pos [of e] by linarith

lemma pow2_add: "pow2 (a + b) = pow2 a * pow2 b"
proof (cases "0 \<le> a"; cases "0 \<le> b")
  assume "0 \<le> a" "0 \<le> b"
  then show ?thesis by (simp add: pow2_def nat_add_distrib power_add)
next
  assume ab: "0 \<le> a" "\<not> 0 \<le> b"
  then show ?thesis
  proof (cases "0 \<le> a + b")
    case True
    then have "nat a = nat (a + b) + nat (- b)" using ab by linarith
    then show ?thesis using ab True by (simp add: pow2_def power_add)
  next
    case False
    then have "nat (- b) = nat (- (a + b)) + nat a" using ab by linarith
    then show ?thesis using ab False by (simp add: pow2_def power_add)
  qed
next
  assume ab: "\<not> 0 \<le> a" "0 \<le> b"
  then show ?thesis
  proof (cases "0 \<le> a + b")
    case True
    then have "nat b = nat (a + b) + nat (- a)" using ab by linarith
    then show ?thesis using ab True by (simp add: pow2_def power_add)
  next
    case False
    then have "nat (- a) = nat (- (a + b)) + nat b" using ab by linarith
    then show ?thesis using ab False by (simp add: pow2_def power_add)
  qed
next
  assume ab: "\<not> 0 \<le> a" "\<not> 0 \<le> b"
  then have "nat (- (a + b)) = nat (- a) + nat (- b)" by linarith
  then show ?thesis using ab by (simp add: pow2_def power_add)
qed

lemma pow2_mono: "a \<le> b \<Longrightarrow> pow2 a \<le> pow2 b"
proof -
  assume "a \<le> b"
  then have "pow2 b = pow2 a * 2 ^ nat (b - a)"
    using pow2_add [of a "b - a"] by (simp add: pow2_def [of "b - a"])
  moreover have "(1::rat) \<le> 2 ^ nat (b - a)" by simp
  ultimately show ?thesis
    using mult_left_mono [of 1 "2 ^ nat (b - a)" "pow2 a"] pow2_pos [of a] by simp
qed

lemma pow2_less_imp: "pow2 a < pow2 b \<Longrightarrow> a < b"
  using pow2_mono [of b a] by linarith

lemma floorlog2_bounds:
  assumes "0 < n"
  shows "2 ^ (floorlog 2 n - 1) \<le> n" "n < 2 ^ floorlog 2 n"
  using floorlog_bounds [of n 2] assms by auto

text \<open>The exponent is the one its description promises.\<close>

lemma mag_exp_bounds:
  assumes "0 < x"
  shows "pow2 (mag_exp x) \<le> x \<and> x < pow2 (mag_exp x + 1)"
proof (cases "1 \<le> x")
  case True
  let ?n = "nat \<lfloor>x\<rfloor>"
  let ?k = "floorlog 2 ?n"
  have fl1: "1 \<le> \<lfloor>x\<rfloor>" using True by simp
  then have n: "0 < ?n" by linarith
  then have k: "0 < ?k" using floorlog2_bounds [OF n] by (cases ?k) auto
  have "of_nat (2 ^ (?k - 1)) \<le> (of_nat ?n :: rat)" "of_nat ?n < (of_nat (2 ^ ?k) :: rat)"
    using floorlog2_bounds [OF n] by (simp_all only: of_nat_le_iff of_nat_less_iff)
  moreover have "of_nat ?n = (of_int \<lfloor>x\<rfloor> :: rat)" using fl1 by (simp add: of_nat_nat)
  ultimately have b: "2 ^ (?k - 1) \<le> (of_int \<lfloor>x\<rfloor> :: rat)" "(of_int \<lfloor>x\<rfloor> :: rat) < 2 ^ ?k"
    by simp_all
  from b(2) have "\<lfloor>x\<rfloor> < 2 ^ ?k" by (metis of_int_less_iff of_int_numeral of_int_power)
  then have "x < 2 ^ ?k" by (metis floor_less_iff of_int_numeral of_int_power)
  moreover have "2 ^ (?k - 1) \<le> x" using b(1) of_int_floor_le [of x] by linarith
  moreover have "nat (int ?k - 1) = ?k - 1" by simp
  ultimately show ?thesis using True k by (simp add: mag_exp_def pow2_def)
next
  case False
  let ?y = "1 / x"
  let ?n = "nat (\<lceil>?y\<rceil> - 1)"
  let ?k = "floorlog 2 ?n"
  have y: "1 < ?y" using False assms by simp
  then have c: "2 \<le> \<lceil>?y\<rceil>" by linarith
  then have n: "0 < ?n" by linarith
  have k: "0 < ?k" using floorlog2_bounds [OF n] n by (cases ?k) auto
  have nn: "int ?n = \<lceil>?y\<rceil> - 1" using c by linarith
  have "int (2 ^ (?k - 1)) \<le> int ?n" "int ?n < int (2 ^ ?k)"
    using floorlog2_bounds [OF n] by (simp_all only: of_nat_le_iff of_nat_less_iff)
  then have "2 ^ (?k - 1) < \<lceil>?y\<rceil>" "\<lceil>?y\<rceil> \<le> 2 ^ ?k"
    unfolding nn by simp_all
  then have y2: "2 ^ (?k - 1) < ?y" and y1: "?y \<le> 2 ^ ?k"
    by (metis of_int_numeral of_int_power less_ceiling_iff,
        metis ceiling_le_iff of_int_numeral of_int_power)
  have m: "mag_exp x = - int ?k" using False by (simp add: mag_exp_def)
  have "1 / 2 ^ ?k \<le> x" using y1 assms by (simp add: field_simps)
  moreover have "x < 1 / 2 ^ (?k - 1)" using y2 assms by (simp add: field_simps)
  moreover have "nat (int ?k - 1) = ?k - 1" by simp
  moreover have "pow2 (- int ?k + 1) = 1 / 2 ^ (?k - 1)"
    using k by (cases "?k = 1") (simp_all add: pow2_def)
  ultimately show ?thesis using k by (simp add: m pow2_def [of "- int ?k"])
qed

lemma mag_exp_ge: "0 < x \<Longrightarrow> pow2 k \<le> x \<Longrightarrow> k \<le> mag_exp x"
  using mag_exp_bounds [of x] pow2_less_imp [of k "mag_exp x + 1"] by linarith

lemma mag_exp_less: "0 < x \<Longrightarrow> x < pow2 k \<Longrightarrow> mag_exp x < k"
  using mag_exp_bounds [of x] pow2_less_imp [of "mag_exp x" k] by linarith

lemma rne_of_int [simp]: "rne (of_int n) = n"
  by (simp add: rne_def)

lemma rne_error: "\<bar>of_int (rne x) - x\<bar> \<le> 1 / 2"
  unfolding rne_def Let_def by (auto simp: abs_if) linarith+

lemma rne_ge: "of_int n \<le> x \<Longrightarrow> n \<le> rne x"
proof -
  assume "of_int n \<le> x"
  then have "n \<le> \<lfloor>x\<rfloor>" by (simp add: le_floor_iff)
  then show ?thesis by (auto simp: rne_def Let_def)
qed

lemma fl_0 [simp]: "fl 0 = 0"
  by (simp add: fl_def)

text \<open>A multiple of the unit in the last place is representable.\<close>

lemma fl_exact:
  assumes "x = of_int m * pow2 (ulp_exp x)"
  shows "fl x = x"
proof (cases "x = 0")
  case False
  have "x / pow2 (ulp_exp x) = of_int m" using assms by (simp add: field_simps)
  then show ?thesis using False assms by (simp add: fl_def)
qed simp

lemma fl_of_int [js_exact]:
  assumes "\<bar>n\<bar> \<le> 2 ^ 53"
  shows "fl (of_int n) = of_int n"
proof (cases "\<bar>n\<bar> = 2 ^ 53")
  case False
  let ?x = "of_int n :: rat"
  show ?thesis
  proof (cases "n = 0")
    case n0: False
    have "\<bar>n\<bar> < 2 ^ 53" using assms False by linarith
    then have "(of_int \<bar>n\<bar> :: rat) < of_int (2 ^ 53)" by (simp only: of_int_less_iff)
    then have "\<bar>?x\<bar> < pow2 53" by (simp add: pow2_def)
    then have "mag_exp \<bar>?x\<bar> < 53" using mag_exp_less n0 by simp
    then have u: "ulp_exp ?x \<le> 0" by (simp add: ulp_exp_def)
    then have "pow2 (ulp_exp ?x) * 2 ^ nat (- ulp_exp ?x) = 1"
      using pow2_add [of "ulp_exp ?x" "- ulp_exp ?x"]
      by (simp add: pow2_def [of "- ulp_exp ?x"] pow2_def [of 0])
    then have "?x = of_int (n * 2 ^ nat (- ulp_exp ?x)) * pow2 (ulp_exp ?x)"
      by (simp add: mult.commute mult.left_commute)
    then show ?thesis by (rule fl_exact)
  qed simp
next
  case True
  let ?x = "of_int n :: rat"
  have "of_int \<bar>n\<bar> = (of_int (2 ^ 53) :: rat)" using True by simp
  then have a: "\<bar>?x\<bar> = pow2 53" by (simp add: pow2_def)
  have "mag_exp \<bar>?x\<bar> = 53"
    using mag_exp_ge [of "\<bar>?x\<bar>" 53] mag_exp_less [of "\<bar>?x\<bar>" 54] a
    by (simp add: pow2_def)
  then have "pow2 (ulp_exp ?x) = 2" by (simp add: ulp_exp_def pow2_def)
  moreover have "n = (n div 2) * 2"
  proof -
    have "n = 2 ^ 53 \<or> n = - (2 ^ 53)" using True by linarith
    then show ?thesis by auto
  qed
  ultimately have "?x = of_int (n div 2) * pow2 (ulp_exp ?x)"
    by (metis of_int_mult of_int_numeral)
  then show ?thesis by (rule fl_exact)
qed

text \<open>Rounding moves a value by at most half a unit in the last place.\<close>

lemma fl_error: "\<bar>fl x - x\<bar> \<le> pow2 (ulp_exp x) / 2"
proof (cases "x = 0")
  case False
  let ?u = "pow2 (ulp_exp x)"
  have "fl x - x = (of_int (rne (x / ?u)) - x / ?u) * ?u"
    using False by (simp add: fl_def algebra_simps)
  then have "\<bar>fl x - x\<bar> = \<bar>of_int (rne (x / ?u)) - x / ?u\<bar> * ?u"
    by (simp add: abs_mult abs_of_pos)
  also have "\<dots> \<le> 1 / 2 * ?u"
    by (rule mult_right_mono [OF rne_error]) (simp add: less_imp_le)
  finally show ?thesis by simp
qed (simp add: less_imp_le)

text \<open>A value at or past \<open>2 ^ 53\<close> is never rounded back below it.\<close>

lemma fl_big:
  assumes "2 ^ 53 \<le> x"
  shows "2 ^ 53 \<le> fl x"
proof -
  let ?u = "pow2 (ulp_exp x)"
  have x0: "0 < x" using assms by (rule less_le_trans [rotated]) simp
  have "53 \<le> mag_exp x" using mag_exp_ge [OF x0, of 53] assms by (simp add: pow2_def)
  then have u: "ulp_exp x = mag_exp x - 52" using x0 by (simp add: ulp_exp_def)
  have "pow2 52 * ?u = pow2 (mag_exp x)" using pow2_add [of 52 "mag_exp x - 52"] u by simp
  then have "pow2 52 \<le> x / ?u"
    using mag_exp_bounds [OF x0] by (simp add: le_divide_eq)
  then have "of_int (2 ^ 52) \<le> x / ?u" by (simp add: pow2_def)
  then have "2 ^ 52 \<le> rne (x / ?u)" by (rule rne_ge)
  then have "(of_int (2 ^ 52) :: rat) \<le> of_int (rne (x / ?u))" by (simp only: of_int_le_iff)
  then have "2 ^ 52 * ?u \<le> fl x"
    using x0 by (simp add: fl_def less_imp_le mult_right_mono)
  moreover have "pow2 1 \<le> ?u" using \<open>53 \<le> mag_exp x\<close> u by (intro pow2_mono) simp
  ultimately show ?thesis by (simp add: pow2_def [of 1])
qed

section \<open>Arithmetic on integers in the safe range\<close>

lemma fl_of_int_bound: "\<bar>n\<bar> \<le> 2 ^ 53 \<Longrightarrow> js_of_rat (of_int n) = num n"
proof -
  assume n: "\<bar>n\<bar> \<le> 2 ^ 53"
  then have "(of_int \<bar>n\<bar> :: rat) \<le> of_int (2 ^ 53)" by (simp only: of_int_le_iff)
  then have "\<bar>of_int n :: rat\<bar> < 2 ^ 1024" by simp
  then have "\<not> 2 ^ 1024 \<le> (of_int n :: rat)" "\<not> (of_int n :: rat) \<le> - (2 ^ 1024)"
    by linarith+
  then show ?thesis by (simp add: js_of_rat_def num_def fl_of_int [OF n])
qed

lemma js_add_num [js_exact]:
  "\<bar>a + b\<bar> \<le> 2 ^ 53 \<Longrightarrow> js_add (num a) (num b) = num (a + b)"
  using fl_of_int_bound [of "a + b"] by (simp add: num_def)

lemma js_neg_num [simp]: "js_neg (num a) = num (- a)"
  by (simp add: num_def)

lemma js_sub_num [js_exact]:
  "\<bar>a - b\<bar> \<le> 2 ^ 53 \<Longrightarrow> js_sub (num a) (num b) = num (a - b)"
  by (simp add: js_sub_def js_add_num)

lemma js_mul_num [js_exact]:
  "\<bar>a * b\<bar> \<le> 2 ^ 53 \<Longrightarrow> js_mul (num a) (num b) = num (a * b)"
  using fl_of_int_bound [of "a * b"] by (simp add: num_def)

lemma num_simps [simp]:
  "num a = num b \<longleftrightarrow> a = b"
  "num a \<noteq> NaN" "NaN \<noteq> num a"
  "num a \<noteq> PosInf" "PosInf \<noteq> num a" "num a \<noteq> NegInf" "NegInf \<noteq> num a"
  "js_lt (num a) (num b) \<longleftrightarrow> a < b"
  "js_eq (num a) (num b) \<longleftrightarrow> a = b"
  "js_le (num a) (num b) \<longleftrightarrow> a \<le> b"
  "js_abs (num a) = num \<bar>a\<bar>"
  "isFinite (num a)" "isInteger (num a)"
  "isSafeInteger (num a) \<longleftrightarrow> \<bar>a\<bar> \<le> MAX_SAFE"
  "int_of (num a) = a"
  "js_floor (num a) = num a"
  by (auto simp: num_def js_eq_def js_le_def)

lemma js_round_num [simp]: "js_round (num a) = num a"
  by (simp add: num_def) linarith

lemma isInteger_num: "isInteger x \<Longrightarrow> x = num (int_of x)"
  by (cases x) (auto simp: num_def)

lemma isSafeInteger_num: "isSafeInteger x \<Longrightarrow> x = num (int_of x) \<and> \<bar>int_of x\<bar> \<le> MAX_SAFE"
  by (cases x) (auto simp: num_def)

text \<open>A nonnegative integer result is out of the exact range iff its rounded value is.\<close>

lemma js_of_rat_big:
  assumes "2 ^ 53 \<le> x"
  shows "\<not> isSafeInteger (js_of_rat x)" "js_le (num (2 ^ 53)) (js_of_rat x)"
proof -
  have b: "of_int (2 ^ 53) \<le> fl x" using fl_big [OF assms] by simp
  then have f: "2 ^ 53 \<le> \<lfloor>fl x\<rfloor>" by (simp only: le_floor_iff)
  have n: "\<not> fl x \<le> - (2 ^ 1024)"
  proof -
    have "- (2 ^ 1024) < (0::rat)" by simp
    moreover have "0 < fl x" using b by (rule less_le_trans [rotated]) simp
    ultimately show ?thesis by linarith
  qed
  show "\<not> isSafeInteger (js_of_rat x)" using f n by (simp add: js_of_rat_def Let_def)
  show "js_le (num (2 ^ 53)) (js_of_rat x)"
    using b n by (auto simp: js_of_rat_def Let_def js_le_def js_eq_def num_def)
qed

section \<open>Truncating division by a small constant\<close>

text \<open>
  \<^verbatim>\<open>Math.floor(p / d)\<close> divides in binary64 and truncates. The rounded quotient can
  only differ from the exact truncation if rounding carries a non-integer quotient onto the
  next integer, which needs an error of \<open>1 / d\<close>. For a safe \<open>p\<close> the quotient lies below
  \<open>2 ^ 53 / d\<close>, so the error is bounded by \<open>2 ^ k / 2 ^ 53\<close> with
  \<open>2 ^ 53 / d \<le> 2 ^ k\<close>.
\<close>

lemma floor_fl_div:
  fixes p d :: int
  assumes p: "0 \<le> p" "p \<le> MAX_SAFE" and d: "0 < d"
    and k: "0 \<le> k" "MAX_SAFE div d < 2 ^ nat k" and small: "of_int d * pow2 (k - 53) < 2"
    and k': "k \<le> 52"
  shows "\<lfloor>fl (of_int p / of_int d)\<rfloor> = p div d"
proof -
  let ?q = "of_int p / of_int d :: rat"
  have fq: "\<lfloor>?q\<rfloor> = p div d" by (rule floor_divide_of_int_eq)
  show ?thesis
  proof (cases "p mod d = 0")
    case True
    then have "?q = of_int (p div d)"
      using d by (metis dvd_div_mult_self mod_eq_0_iff_dvd nonzero_mult_div_cancel_right
          of_int_eq_0_iff of_int_mult order_less_irrefl)
    moreover have "\<bar>p div d\<bar> \<le> 2 ^ 53"
      using zdiv_mono2 [of p 1 d] pos_imp_zdiv_nonneg_iff [of d p] p d by simp
    ultimately show ?thesis by (simp add: fl_of_int)
  next
    case False
    then have p0: "0 < p" using p by (cases "p = 0") auto
    have q0: "0 < ?q" using p0 d by simp
    have "p div d \<le> MAX_SAFE div d" using p d by (simp add: zdiv_mono1)
    then have "\<lfloor>?q\<rfloor> < 2 ^ nat k" using k fq by linarith
    then have "?q < of_int (2 ^ nat k)" by (simp only: floor_less_iff)
    then have "?q < pow2 k" using k by (simp add: pow2_def)
    then have "mag_exp ?q < k" by (rule mag_exp_less [OF q0])
    then have u: "ulp_exp ?q \<le> k - 53" using q0 k k' p0 d by (simp add: ulp_exp_def abs_of_pos)
    have "\<bar>fl ?q - ?q\<bar> \<le> pow2 (k - 53) / 2"
      using fl_error [of ?q] pow2_mono [OF u] by linarith
    moreover have "pow2 (k - 53) / 2 < 1 / of_int d"
      using small d by (simp add: field_simps)
    ultimately have err: "\<bar>fl ?q - ?q\<bar> < 1 / of_int d" by linarith
    have r: "?q = of_int (p div d) + of_int (p mod d) / of_int d"
    proof -
      have "(of_int p :: rat) = of_int (p div d * d + p mod d)" by simp
      then have "(of_int p :: rat) = of_int (p div d) * of_int d + of_int (p mod d)"
        by (simp only: of_int_add of_int_mult)
      then show ?thesis using d by (simp add: field_simps)
    qed
    have m: "1 \<le> p mod d" "p mod d \<le> d - 1" using d False pos_mod_bound [OF d, of p]
      pos_mod_sign [OF d, of p] by linarith+
    have lo: "1 / of_int d \<le> (of_int (p mod d) / of_int d :: rat)"
      using m d by (simp add: divide_right_mono)
    have "(of_int (p mod d) / of_int d :: rat) \<le> of_int (d - 1) / of_int d"
    proof (rule divide_right_mono)
      show "(of_int (p mod d) :: rat) \<le> of_int (d - 1)" using m by (simp only: of_int_le_iff)
    qed (use d in simp)
    also have "\<dots> = 1 - 1 / of_int d" using d by (simp add: field_simps)
    finally have hi: "(of_int (p mod d) / of_int d :: rat) \<le> 1 - 1 / of_int d" .
    have "of_int (p div d) \<le> fl ?q" "fl ?q < of_int (p div d) + 1"
      using err r lo hi by linarith+
    then show ?thesis by (simp add: floor_eq_iff)
  qed
qed

lemma js_floor_div_10000:
  assumes "0 \<le> p" "p \<le> MAX_SAFE"
  shows "js_floor (js_div (num p) (num 10000)) = num (p div 10000)"
proof -
  have f: "\<lfloor>fl (of_int p / of_int 10000)\<rfloor> = p div 10000"
    using assms by (intro floor_fl_div [where k = 40]) (simp_all add: pow2_def)
  have "p div 10000 \<le> 900719925474" using assms by simp
  then have "fl (of_int p / of_int 10000) < of_int (900719925475)"
    using f by (simp only: floor_less_iff [symmetric])
  then have u: "\<not> 2 ^ 1024 \<le> fl (of_int p / of_int 10000)" by simp
  have "0 \<le> p div 10000" using assms by simp
  then have "of_int 0 \<le> fl (of_int p / of_int 10000)" using f by (simp only: le_floor_iff [symmetric])
  then have "\<not> fl (of_int p / of_int 10000) \<le> - (2 ^ 1024)" by simp
  with u f show ?thesis by (simp add: num_def js_of_rat_def Let_def)
qed

end
