(* ===== verification/TimeCore.thy ===== *)
theory TimeCore
  imports JsNumber
begin

text \<open>
  Canonical time: packages/core/src/time (instant.ts, timeframe.ts, clock.ts). An instant is a
  whole number of milliseconds in \<open>[0, MAX_EPOCH_MILLIS]\<close>, a duration a positive one; the
  narrowing functions take any Number and throw on everything else. Timeframe buckets are
  aligned to the epoch and nest exactly, which is what makes a coarse candle the union of the
  fine ones inside it.
\<close>

section \<open>Instants and durations\<close>

definition MAX_EPOCH_MILLIS :: int where
  "MAX_EPOCH_MILLIS = 8640000000000000"

definition isValidEpochMillis :: "jsnum \<Rightarrow> bool" where
  "isValidEpochMillis v \<longleftrightarrow> isInteger v \<and> js_le (num 0) v \<and> js_le v (num MAX_EPOCH_MILLIS)"

definition epochMillis :: "jsnum \<Rightarrow> int result" where
  "epochMillis v = (if \<not> isValidEpochMillis v then Inl (RangeError ''epochMillis'')
     else Inr (int_of v))"

definition isValidDurationMillis :: "jsnum \<Rightarrow> bool" where
  "isValidDurationMillis v \<longleftrightarrow> isInteger v \<and> js_lt (num 0) v \<and> js_le v (num MAX_EPOCH_MILLIS)"

definition durationMillis :: "jsnum \<Rightarrow> int result" where
  "durationMillis v = (if \<not> isValidDurationMillis v then Inl (RangeError ''durationMillis'')
     else Inr (int_of v))"

definition addMillis :: "int \<Rightarrow> int \<Rightarrow> int result" where
  "addMillis instant duration = epochMillis (js_add (num instant) (num duration))"

definition differenceMillis :: "int \<Rightarrow> int \<Rightarrow> jsnum" where
  "differenceMillis later earlier = js_sub (num later) (num earlier)"

text \<open>The two branded types, as predicates on the integers that inhabit them.\<close>

definition valid_instant :: "int \<Rightarrow> bool" where
  "valid_instant t \<longleftrightarrow> 0 \<le> t \<and> t \<le> MAX_EPOCH_MILLIS"

definition valid_duration :: "int \<Rightarrow> bool" where
  "valid_duration d \<longleftrightarrow> 0 < d \<and> d \<le> MAX_EPOCH_MILLIS"

lemma epochMillis_num [guard_simps]:
  "epochMillis (num n) = (if valid_instant n then Inr n else Inl (RangeError ''epochMillis''))"
  by (auto simp: epochMillis_def isValidEpochMillis_def valid_instant_def)

lemma epochMillis_Inr_iff: "epochMillis v = Inr n \<longleftrightarrow> v = num n \<and> valid_instant n"
proof
  assume h: "epochMillis v = Inr n"
  then have "isInteger v" by (auto simp: epochMillis_def isValidEpochMillis_def split: if_splits)
  then have v: "v = num (int_of v)" by (rule isInteger_num)
  have "int_of v = n" using h by (simp add: epochMillis_def split: if_splits)
  with v have v': "v = num n" by simp
  with h show "v = num n \<and> valid_instant n" by (simp add: epochMillis_num split: if_splits)
qed (simp add: epochMillis_num)

lemma durationMillis_Inr_iff: "durationMillis v = Inr n \<longleftrightarrow> v = num n \<and> valid_duration n"
proof
  assume h: "durationMillis v = Inr n"
  then have i: "isInteger v"
    by (auto simp: durationMillis_def isValidDurationMillis_def split: if_splits)
  then have v: "v = num (int_of v)" by (rule isInteger_num)
  have n: "int_of v = n" using h by (simp add: durationMillis_def split: if_splits)
  with v h show "v = num n \<and> valid_duration n"
    by (auto simp: durationMillis_def isValidDurationMillis_def valid_duration_def split: if_splits)
qed (simp add: durationMillis_def isValidDurationMillis_def valid_duration_def)

text \<open>
  The sum of two instants can pass \<open>2 ^ 53\<close> and be rounded, but a rounded sum is still past
  the maximum, so the guard decides on the exact one.
\<close>

lemma epochMillis_sum:
  assumes "0 \<le> a" "0 \<le> b"
  shows "epochMillis (js_add (num a) (num b)) =
    (if a + b \<le> MAX_EPOCH_MILLIS then Inr (a + b) else Inl (RangeError ''epochMillis''))"
proof (cases "a + b \<le> 2 ^ 53")
  case True
  then have "js_add (num a) (num b) = num (a + b)" using assms by (intro js_add_num) simp
  then show ?thesis using assms by (simp add: epochMillis_num valid_instant_def)
next
  case False
  then have "(of_int (2 ^ 53) :: rat) \<le> of_int (a + b)" by (simp only: of_int_le_iff)
  then have b: "2 ^ 53 \<le> (of_int a + of_int b :: rat)" by simp
  have "js_le (num (2 ^ 53)) (js_add (num a) (num b))"
    using js_of_rat_big(2) [OF b] by (simp add: num_def)
  then have "\<not> js_le (js_add (num a) (num b)) (num MAX_EPOCH_MILLIS)"
    by (cases "js_add (num a) (num b)")
       (auto simp: js_le_def js_eq_def num_def MAX_EPOCH_MILLIS_def)
  then show ?thesis
    using False by (simp add: epochMillis_def isValidEpochMillis_def MAX_EPOCH_MILLIS_def)
qed

lemma addMillis_eq [guard_simps]:
  "0 \<le> t \<Longrightarrow> 0 \<le> d \<Longrightarrow> addMillis t d =
     (if t + d \<le> MAX_EPOCH_MILLIS then Inr (t + d) else Inl (RangeError ''epochMillis''))"
  by (simp add: addMillis_def epochMillis_sum)

lemma differenceMillis_eq [guard_simps]:
  "valid_instant a \<Longrightarrow> valid_instant b \<Longrightarrow> differenceMillis a b = num (a - b)"
  by (auto simp: differenceMillis_def valid_instant_def MAX_EPOCH_MILLIS_def abs_if
      intro!: js_sub_num)

section \<open>Timeframes\<close>

datatype timeframe_id =
  TF_1s | TF_5s | TF_15s | TF_30s | TF_1m | TF_5m | TF_15m | TF_30m | TF_1h | TF_4h | TF_1d

definition TIMEFRAME_IDS :: "timeframe_id list" where
  "TIMEFRAME_IDS =
     [TF_1s, TF_5s, TF_15s, TF_30s, TF_1m, TF_5m, TF_15m, TF_30m, TF_1h, TF_4h, TF_1d]"

fun timeframe_name :: "timeframe_id \<Rightarrow> string" where
  "timeframe_name TF_1s = ''1s''"
| "timeframe_name TF_5s = ''5s''"
| "timeframe_name TF_15s = ''15s''"
| "timeframe_name TF_30s = ''30s''"
| "timeframe_name TF_1m = ''1m''"
| "timeframe_name TF_5m = ''5m''"
| "timeframe_name TF_15m = ''15m''"
| "timeframe_name TF_30m = ''30m''"
| "timeframe_name TF_1h = ''1h''"
| "timeframe_name TF_4h = ''4h''"
| "timeframe_name TF_1d = ''1d''"

fun DURATIONS_MS :: "timeframe_id \<Rightarrow> int" where
  "DURATIONS_MS TF_1s = 1000"
| "DURATIONS_MS TF_5s = 5000"
| "DURATIONS_MS TF_15s = 15000"
| "DURATIONS_MS TF_30s = 30000"
| "DURATIONS_MS TF_1m = 60000"
| "DURATIONS_MS TF_5m = 300000"
| "DURATIONS_MS TF_15m = 900000"
| "DURATIONS_MS TF_30m = 1800000"
| "DURATIONS_MS TF_1h = 3600000"
| "DURATIONS_MS TF_4h = 14400000"
| "DURATIONS_MS TF_1d = 86400000"

record timeframe =
  tf_id :: timeframe_id
  durationMs :: int

definition timeframe :: "timeframe_id \<Rightarrow> timeframe" where
  "timeframe i = \<lparr>tf_id = i, durationMs = DURATIONS_MS i\<rparr>"

definition allTimeframes :: "timeframe list" where
  "allTimeframes = map timeframe TIMEFRAME_IDS"

definition isTimeframeId :: "string \<Rightarrow> bool" where
  "isTimeframeId v \<longleftrightarrow> v \<in> set (map timeframe_name TIMEFRAME_IDS)"

text \<open>\<^verbatim>\<open>%\<close> takes the sign of the dividend; instants are never negative.\<close>

definition js_rem :: "int \<Rightarrow> int \<Rightarrow> int" where
  "js_rem a b = sgn a * (\<bar>a\<bar> mod \<bar>b\<bar>)"

definition bucketStart :: "int \<Rightarrow> timeframe \<Rightarrow> int result" where
  "bucketStart instant tf =
     epochMillis (js_sub (num instant) (num (js_rem instant (durationMs tf))))"

definition bucketEnd :: "int \<Rightarrow> timeframe \<Rightarrow> int result" where
  "bucketEnd instant tf = andThen (bucketStart instant tf)
     (\<lambda>start. epochMillis (js_add (num start) (num (durationMs tf))))"

definition bucketIndex :: "int \<Rightarrow> timeframe \<Rightarrow> jsnum" where
  "bucketIndex instant tf =
     js_div (js_sub (num instant) (num (js_rem instant (durationMs tf)))) (num (durationMs tf))"

definition isCoarserOrEqual :: "timeframe \<Rightarrow> timeframe \<Rightarrow> bool" where
  "isCoarserOrEqual a b \<longleftrightarrow> durationMs b \<le> durationMs a"

definition nests :: "timeframe \<Rightarrow> timeframe \<Rightarrow> bool" where
  "nests fine coarse \<longleftrightarrow> js_rem (durationMs coarse) (durationMs fine) = 0"

definition nestingFactor :: "timeframe \<Rightarrow> timeframe \<Rightarrow> jsnum result" where
  "nestingFactor fine coarse = (if \<not> nests fine coarse then Inl (RangeError ''nestingFactor'')
     else Inr (js_div (num (durationMs coarse)) (num (durationMs fine))))"

section \<open>Clocks\<close>

text \<open>
  The three clocks of clock.ts: the system clock reads an ambient instant (here an argument),
  a fixed clock never moves, a steppable clock moves only when told to.
\<close>

datatype clock = FixedClock int | SteppableClock int

fun clock_now :: "clock \<Rightarrow> int" where
  "clock_now (FixedClock i) = i"
| "clock_now (SteppableClock i) = i"

definition system_now :: "jsnum \<Rightarrow> int result" where
  "system_now dateNow = epochMillis dateNow"

fun clock_advance :: "clock \<Rightarrow> int \<Rightarrow> (clock \<times> int) result" where
  "clock_advance (SteppableClock i) d =
     andThen (epochMillis (js_add (num i) (num d))) (\<lambda>t. Inr (SteppableClock t, t))"
| "clock_advance (FixedClock i) d = Inl (TypeError ''advance'')"

fun clock_set :: "clock \<Rightarrow> int \<Rightarrow> clock result" where
  "clock_set (SteppableClock i) t = Inr (SteppableClock t)"
| "clock_set (FixedClock i) t = Inl (TypeError ''set'')"

section \<open>Buckets\<close>

text \<open>The exact bucket of an instant, without the narrowing call.\<close>

definition bucket :: "int \<Rightarrow> int \<Rightarrow> int" where
  "bucket d t = t - t mod d"

lemma bucket_dvd: "d dvd bucket d t"
  by (simp add: bucket_def dvd_minus_mod)

lemma bucket_le: "0 < d \<Longrightarrow> bucket d t \<le> t"
  by (simp add: bucket_def)

lemma bucket_gt: "0 < d \<Longrightarrow> t < bucket d t + d"
  using pos_mod_bound [of d t] by (simp add: bucket_def)

lemma bucket_nonneg: "0 < d \<Longrightarrow> 0 \<le> t \<Longrightarrow> 0 \<le> bucket d t"
  by (simp add: bucket_def zmod_le_nonneg_dividend)

lemma bucket_eq_div: "bucket d t = d * (t div d)"
  by (simp add: bucket_def minus_mod_eq_mult_div)

lemma bucket_unique:
  assumes "0 < d" "d dvd s" "s \<le> t" "t < s + d"
  shows "bucket d t = s"
proof -
  obtain k where k: "s = d * k" using assms(2) by blast
  have "t div d = k"
    using assms k by (intro int_div_pos_eq [where r = "t - s"]) auto
  then show ?thesis by (simp add: bucket_eq_div k)
qed

lemma bucket_mono: "0 < d \<Longrightarrow> t \<le> t' \<Longrightarrow> bucket d t \<le> bucket d t'"
  by (simp add: bucket_eq_div zdiv_mono1)

lemma bucket_of_dvd: "d dvd s \<Longrightarrow> bucket d s = s"
  by (simp add: bucket_def mod_eq_0_iff_dvd)

lemma bucket_nested:
  assumes "0 < d" "0 < e" "d dvd e"
  shows "bucket e (bucket d t) = bucket e t"
proof (rule bucket_unique [OF assms(2) bucket_dvd])
  have "d dvd bucket e t" using assms(3) bucket_dvd by (rule dvd_trans)
  then have "bucket d (bucket e t) = bucket e t" by (rule bucket_of_dvd)
  then show "bucket e t \<le> bucket d t"
    using bucket_mono [OF assms(1) bucket_le [OF assms(2), of t]] by simp
  show "bucket d t < bucket e t + e"
    using bucket_le [OF assms(1), of t] bucket_gt [OF assms(2), of t] by linarith
qed

lemma js_rem_nonneg [simp]: "0 \<le> a \<Longrightarrow> 0 < b \<Longrightarrow> js_rem a b = a mod b"
  by (cases "a = 0") (simp_all add: js_rem_def)

lemma bucketStart_eq [guard_simps]:
  assumes "valid_instant t" "0 < durationMs tf"
  shows "bucketStart t tf = Inr (bucket (durationMs tf) t)"
proof -
  let ?d = "durationMs tf"
  have t: "0 \<le> t" using assms by (simp add: valid_instant_def)
  have b: "0 \<le> bucket ?d t" "bucket ?d t \<le> t"
    using assms t by (simp_all add: bucket_nonneg bucket_le)
  then have "\<bar>bucket ?d t\<bar> \<le> 2 ^ 53"
    using assms by (simp add: valid_instant_def MAX_EPOCH_MILLIS_def)
  then have "js_sub (num t) (num (t mod ?d)) = num (bucket ?d t)"
    using js_sub_num [of t "t mod ?d"] by (simp add: bucket_def)
  then show ?thesis
    using assms b t by (simp add: bucketStart_def epochMillis_num valid_instant_def)
qed

lemma js_div_exact:
  assumes "0 < d" "\<bar>q\<bar> \<le> 2 ^ 53"
  shows "js_div (num (d * q)) (num d) = num q"
  using fl_of_int_bound [OF assms(2)] assms(1) by (simp add: num_def)

lemma div_bound: "0 \<le> t \<Longrightarrow> t \<le> MAX_EPOCH_MILLIS \<Longrightarrow> 0 < d \<Longrightarrow> \<bar>t div d\<bar> \<le> (2::int) ^ 53"
  using zdiv_mono2 [of t 1 d] pos_imp_zdiv_nonneg_iff [of d t]
  by (simp add: MAX_EPOCH_MILLIS_def)

lemma bucketIndex_eq:
  assumes "valid_instant t" "0 < durationMs tf"
  shows "bucketIndex t tf = num (t div durationMs tf)"
proof -
  let ?d = "durationMs tf"
  have t: "0 \<le> t" "t \<le> MAX_EPOCH_MILLIS" using assms by (simp_all add: valid_instant_def)
  have "0 \<le> bucket ?d t" "bucket ?d t \<le> t" using assms t by (simp_all add: bucket_nonneg bucket_le)
  then have "\<bar>t - t mod ?d\<bar> \<le> 2 ^ 53"
    using t by (simp add: bucket_def MAX_EPOCH_MILLIS_def)
  then have "js_sub (num t) (num (t mod ?d)) = num (?d * (t div ?d))"
    by (simp add: js_sub_num minus_mod_eq_mult_div)
  then show ?thesis
    using assms t js_div_exact [OF assms(2) div_bound [OF t assms(2)]]
    by (simp add: bucketIndex_def)
qed

lemma duration_pos [simp]: "0 < DURATIONS_MS i" "0 < durationMs (timeframe i)"
  by (cases i; simp add: timeframe_def)+

lemma timeframe_sel [simp]:
  "durationMs (timeframe i) = DURATIONS_MS i" "tf_id (timeframe i) = i"
  by (simp_all add: timeframe_def)

lemma duration_valid: "valid_duration (DURATIONS_MS i)"
  by (cases i) (simp_all add: valid_duration_def MAX_EPOCH_MILLIS_def)

lemma nests_dvd: "nests (timeframe f) (timeframe c) \<longleftrightarrow> DURATIONS_MS f dvd DURATIONS_MS c"
proof -
  have "0 \<le> DURATIONS_MS c" "0 < DURATIONS_MS f"
    using duration_pos(1) [of c] by (simp_all add: less_imp_le)
  then show ?thesis by (simp add: nests_def mod_eq_0_iff_dvd)
qed

text \<open>Of two timeframes of the table, buckets of the coarser one are exact unions of
  buckets of the finer one: the table is a divisibility chain.\<close>

theorem timeframes_nest:
  "isCoarserOrEqual (timeframe c) (timeframe f) \<longleftrightarrow> nests (timeframe f) (timeframe c)"
  unfolding nests_dvd isCoarserOrEqual_def timeframe_sel
  by (cases c; cases f) simp_all

end
