(* ===== verification/Market.thy ===== *)
theory Market
  imports TimeCore
begin

text \<open>
  The market record: packages/core/src/market (instrument.ts, tick.ts, query.ts). A canonical
  price is an integer count of log units; a tick carries it with its instant and its sequence;
  the price in force at an instant is the last tick at or before it.
\<close>

section \<open>Canonical prices\<close>

definition logPrice :: "jsnum \<Rightarrow> int result" where
  "logPrice v = (if \<not> isSafeInteger v then Inl (RangeError ''logPrice'') else Inr (int_of v))"

definition INT32_PRICE_BOUND :: int where
  "INT32_PRICE_BOUND = 2147483647"

definition assertInt32Price :: "jsnum \<Rightarrow> int result" where
  "assertInt32Price v =
     (if \<not> isSafeInteger v \<or> js_lt (num INT32_PRICE_BOUND) v
         \<or> js_lt v (js_sub (js_neg (num INT32_PRICE_BOUND)) (num 1))
      then Inl (RangeError ''assertInt32Price'') else Inr (int_of v))"

definition shift :: "int \<Rightarrow> jsnum \<Rightarrow> int result" where
  "shift price steps =
     (if \<not> isSafeInteger steps then Inl (RangeError ''shift'')
      else logPrice (js_add (num price) steps))"

definition compare :: "int \<Rightarrow> int \<Rightarrow> int" where
  "compare a b = (if a < b then -1 else if b < a then 1 else 0)"

definition stepsBetween :: "int \<Rightarrow> int \<Rightarrow> jsnum" where
  "stepsBetween from to = js_sub (num to) (num from)"

definition valid_price :: "int \<Rightarrow> bool" where
  "valid_price p \<longleftrightarrow> \<bar>p\<bar> \<le> MAX_SAFE"

lemma logPrice_num [guard_simps]:
  "logPrice (num n) = (if valid_price n then Inr n else Inl (RangeError ''logPrice''))"
  by (simp add: logPrice_def valid_price_def)

lemma logPrice_Inr_iff: "logPrice v = Inr n \<longleftrightarrow> v = num n \<and> valid_price n"
  using isSafeInteger_num [of v] by (auto simp: logPrice_def valid_price_def)

lemma assertInt32Price_num [guard_simps]:
  "assertInt32Price (num n) =
     (if -2147483648 \<le> n \<and> n \<le> 2147483647 then Inr n
      else Inl (RangeError ''assertInt32Price''))"
proof -
  have "js_sub (js_neg (num INT32_PRICE_BOUND)) (num 1) = num (-2147483648)"
    by (simp add: INT32_PRICE_BOUND_def js_sub_num)
  then show ?thesis by (auto simp: assertInt32Price_def INT32_PRICE_BOUND_def)
qed

text \<open>The narrowing guard passes a price unchanged exactly when a 32-bit array cell can
  hold it, for every Number including the non-integers and the infinities, so a price that
  would wrap silently in an \<^verbatim>\<open>Int32Array\<close> is always refused.\<close>

theorem assertInt32Price_iff:
  "assertInt32Price v = Inr n \<longleftrightarrow> v = num n \<and> - (2 ^ 31) \<le> n \<and> n < 2 ^ 31"
proof
  assume h: "assertInt32Price v = Inr n"
  then have "isSafeInteger v" by (auto simp: assertInt32Price_def split: if_splits)
  then have v: "v = num (int_of v)" using isSafeInteger_num by blast
  have "int_of v = n" using h by (auto simp: assertInt32Price_def split: if_splits)
  with v have n: "v = num n" by simp
  with h have "assertInt32Price (num n) = Inr n" by simp
  then have "-2147483648 \<le> n \<and> n \<le> 2147483647"
    by (simp add: assertInt32Price_num split: if_splits)
  with n show "v = num n \<and> - (2 ^ 31) \<le> n \<and> n < 2 ^ 31" by simp
next
  assume "v = num n \<and> - (2 ^ 31) \<le> n \<and> n < 2 ^ 31"
  then show "assertInt32Price v = Inr n" by (simp add: assertInt32Price_num)
qed

section \<open>Ticks\<close>

record tick =
  instant :: int
  sequence :: int
  price :: int

definition assertTickOrder :: "tick option \<Rightarrow> tick \<Rightarrow> unit result" where
  "assertTickOrder previous nxt = (case previous of
     None \<Rightarrow> Inr ()
   | Some p \<Rightarrow>
       if sequence nxt \<le> sequence p then Inl (RangeError ''tick sequence'')
       else if instant nxt < instant p then Inl (RangeError ''tick instant'')
       else Inr ())"

text \<open>A tick as the constructors of its fields guarantee it.\<close>

definition valid_tick :: "tick \<Rightarrow> bool" where
  "valid_tick t \<longleftrightarrow> valid_instant (instant t) \<and> valid_price (price t)"

section \<open>The price in force at an instant\<close>

text \<open>
  The two binary searches of query.ts over the typed arrays of instants and prices. The
  middle is taken with \<^verbatim>\<open>>>> 1\<close>, an unsigned 32-bit halving, exact for the indices of an
  array below \<open>2 ^ 31\<close> cells.
\<close>

function search_last :: "int list \<Rightarrow> int \<Rightarrow> nat \<Rightarrow> nat \<Rightarrow> nat" where
  "search_last instants t low high =
     (if low < high then
        let middle = (low + high + 1) div 2 in
        if instants ! middle \<le> t then search_last instants t middle high
        else search_last instants t low (middle - 1)
      else low)"
  by pat_completeness auto
termination
  by (relation "measure (\<lambda>(xs, t, low, high). high - low)") auto

function search_first :: "int list \<Rightarrow> int \<Rightarrow> nat \<Rightarrow> nat \<Rightarrow> nat" where
  "search_first instants t low high =
     (if low < high then
        let middle = (low + high) div 2 in
        if t \<le> instants ! middle then search_first instants t low middle
        else search_first instants t (middle + 1) high
      else low)"
  by pat_completeness auto
termination
  by (relation "measure (\<lambda>(xs, t, low, high). high - low)") auto

declare search_last.simps [simp del] search_first.simps [simp del]

record price_in_force =
  pf_price :: int
  pf_index :: nat

definition priceAtOrBefore :: "int list \<Rightarrow> int list \<Rightarrow> int \<Rightarrow> price_in_force option result" where
  "priceAtOrBefore instants prices t =
     (let len = min (length instants) (length prices) in
      if len = 0 \<or> t < instants ! 0 then Inr None
      else let low = search_last instants t 0 (len - 1) in
        andThen (logPrice (num (prices ! low)))
          (\<lambda>p. Inr (Some \<lparr>pf_price = p, pf_index = low\<rparr>)))"

definition indexAtOrAfter :: "int list \<Rightarrow> int \<Rightarrow> nat option" where
  "indexAtOrAfter instants t =
     (if length instants = 0 \<or> instants ! (length instants - 1) < t then None
      else Some (search_first instants t 0 (length instants - 1)))"

text \<open>The search keeps the target between its bounds, so it ends on the last instant at or
  before it.\<close>

lemma search_last_correct:
  assumes "sorted instants" "low \<le> high" "high < length instants" "instants ! low \<le> t"
    and "\<forall>j. high < j \<and> j < n \<longrightarrow> t < instants ! j" and "high < n" "n \<le> length instants"
  shows "search_last instants t low high \<le> high \<and> low \<le> search_last instants t low high \<and>
    instants ! search_last instants t low high \<le> t \<and>
    (\<forall>j. search_last instants t low high < j \<and> j < n \<longrightarrow> t < instants ! j)"
  using assms
proof (induction instants t low high rule: search_last.induct)
  case (1 instants t low high)
  let ?m = "(low + high + 1) div 2"
  show ?case
  proof (cases "low < high")
    case True
    then have m: "low < ?m" "?m \<le> high" by auto
    show ?thesis
    proof (cases "instants ! ?m \<le> t")
      case le: True
      have "search_last instants t low high = search_last instants t ?m high"
        using True le by (simp add: search_last.simps [of instants t low high] Let_def)
      with "1.IH"(1) [OF True refl le] "1.prems" m le show ?thesis by auto
    next
      case gt: False
      have eq: "search_last instants t low high = search_last instants t low (?m - 1)"
        using True gt by (simp add: search_last.simps [of instants t low high] Let_def)
      have above: "\<forall>j. ?m - 1 < j \<and> j < n \<longrightarrow> t < instants ! j"
      proof (intro allI impI)
        fix j assume j: "?m - 1 < j \<and> j < n"
        then have "instants ! ?m \<le> instants ! j"
          using "1.prems" m by (intro sorted_nth_mono) auto
        with gt show "t < instants ! j" by linarith
      qed
      have "low \<le> ?m - 1" "?m - 1 < length instants" "?m - 1 < n" "?m - 1 \<le> high"
        using m "1.prems" by linarith+
      with "1.IH"(2) [OF True refl gt] "1.prems" above eq show ?thesis by auto
    qed
  next
    case False
    then have "low = high" using "1.prems" by simp
    with "1.prems" show ?thesis by (simp add: search_last.simps)
  qed
qed

lemma search_first_correct:
  assumes "sorted instants" "low \<le> high" "high < length instants" "t \<le> instants ! high"
    and "\<forall>j<low. instants ! j < t"
  shows "search_first instants t low high \<le> high \<and>
    t \<le> instants ! search_first instants t low high \<and>
    (\<forall>j<search_first instants t low high. instants ! j < t)"
  using assms
proof (induction instants t low high rule: search_first.induct)
  case (1 instants t low high)
  let ?m = "(low + high) div 2"
  show ?case
  proof (cases "low < high")
    case True
    then have m: "low \<le> ?m" "?m < high" by auto
    show ?thesis
    proof (cases "t \<le> instants ! ?m")
      case le: True
      have "search_first instants t low high = search_first instants t low ?m"
        using True le by (simp add: search_first.simps [of instants t low high] Let_def)
      with "1.IH"(1) [OF True refl le] "1.prems" m le show ?thesis by auto
    next
      case gt: False
      have eq: "search_first instants t low high = search_first instants t (?m + 1) high"
        using True gt by (simp add: search_first.simps [of instants t low high] Let_def)
      have below: "\<forall>j<?m + 1. instants ! j < t"
      proof (intro allI impI)
        fix j assume "j < ?m + 1"
        then have "instants ! j \<le> instants ! ?m"
          using "1.prems" m by (intro sorted_nth_mono) auto
        with gt show "instants ! j < t" by linarith
      qed
      from "1.IH"(2) [OF True refl gt] "1.prems" m below eq show ?thesis by auto
    qed
  next
    case False
    then have "low = high" using "1.prems" by simp
    with "1.prems" show ?thesis by (simp add: search_first.simps)
  qed
qed

lemma filter_upt_prefix:
  assumes "k \<le> n" "\<And>j. j < k \<Longrightarrow> P j" "\<And>j. k \<le> j \<Longrightarrow> j < n \<Longrightarrow> \<not> P j"
  shows "filter P [0..<n] = [0..<k]"
proof -
  have "[0..<n] = [0..<k] @ [k..<n]" using assms(1) by (metis le_add_diff_inverse upt_add_eq_append zero_le)
  moreover have "filter P [0..<k] = [0..<k]" using assms(2) by (simp add: filter_id_conv)
  moreover have "filter P [k..<n] = []" using assms(3) by (simp add: filter_empty_conv)
  ultimately show ?thesis by simp
qed

text \<open>The specification both searches implement: the indices of the ticks at or before the
  instant, read off the record one by one.\<close>

definition ticks_at_or_before :: "int list \<Rightarrow> nat \<Rightarrow> int \<Rightarrow> nat list" where
  "ticks_at_or_before instants len t = filter (\<lambda>k. instants ! k \<le> t) [0..<len]"

lemma search_last_prefix:
  assumes "sorted instants" "len \<le> length instants" "0 < len" "instants ! 0 \<le> t"
  shows "ticks_at_or_before instants len t = [0..<Suc (search_last instants t 0 (len - 1))]"
    "search_last instants t 0 (len - 1) < len"
proof -
  let ?k = "search_last instants t 0 (len - 1)"
  have c: "?k \<le> len - 1 \<and> 0 \<le> ?k \<and> instants ! ?k \<le> t \<and>
      (\<forall>j. ?k < j \<and> j < len \<longrightarrow> t < instants ! j)"
    using assms by (intro search_last_correct) auto
  then show k: "?k < len" using assms(3) by linarith
  show "ticks_at_or_before instants len t = [0..<Suc ?k]"
    unfolding ticks_at_or_before_def
  proof (rule filter_upt_prefix)
    fix j assume "j < Suc ?k"
    then have "instants ! j \<le> instants ! ?k" using assms k by (intro sorted_nth_mono) auto
    then show "instants ! j \<le> t" using c by linarith
  next
    fix j assume "Suc ?k \<le> j" "j < len"
    then show "\<not> instants ! j \<le> t" using c by (simp add: not_le)
  qed (use k in simp)
qed

lemma ticks_before_first:
  assumes "sorted instants" "len \<le> length instants" "len = 0 \<or> t < instants ! 0"
  shows "ticks_at_or_before instants len t = []"
proof -
  have "\<not> instants ! j \<le> t" if "j < len" for j
  proof -
    have "instants ! 0 \<le> instants ! j" using assms that by (intro sorted_nth_mono) auto
    then show ?thesis using assms that by linarith
  qed
  then show ?thesis by (simp add: ticks_at_or_before_def filter_empty_conv)
qed

text \<open>The shape the clients of the search rest on.\<close>

lemma priceAtOrBefore_eq:
  assumes "sorted instants" "\<forall>p\<in>set prices. valid_price p"
  shows "priceAtOrBefore instants prices t =
    (let ks = ticks_at_or_before instants (min (length instants) (length prices)) t in
     Inr (if ks = [] then None else Some \<lparr>pf_price = prices ! last ks, pf_index = last ks\<rparr>))"
proof -
  let ?len = "min (length instants) (length prices)"
  show ?thesis
  proof (cases "?len = 0 \<or> t < instants ! 0")
    case True
    then have "ticks_at_or_before instants ?len t = []"
      using assms by (intro ticks_before_first) auto
    with True show ?thesis by (auto simp: priceAtOrBefore_def Let_def)
  next
    case False
    let ?k = "search_last instants t 0 (?len - 1)"
    have k: "ticks_at_or_before instants ?len t = [0..<Suc ?k]" "?k < ?len"
      using search_last_prefix [OF assms(1), of ?len t] False by (auto simp del: upt_Suc)
    then have "valid_price (prices ! ?k)" using assms by simp
    moreover have "instants \<noteq> []" "prices \<noteq> []" using False by auto
    ultimately show ?thesis
      using False k by (simp add: priceAtOrBefore_def Let_def logPrice_num)
  qed
qed

text \<open> on a record ordered by instant, the binary search returns exactly the last tick at or
  before the instant asked for, with its index and its price, and nothing when every tick is
  later; it never throws on prices an \<^verbatim>\<open>Int32Array\<close> can hold.\<close>

theorem priceAtOrBefore_correct:
  assumes "sorted instants" "\<forall>p\<in>set prices. \<bar>p\<bar> \<le> 2 ^ 31"
  shows "priceAtOrBefore instants prices t =
    Inr (case filter (\<lambda>k. instants ! k \<le> t) [0..<min (length instants) (length prices)] of
           [] \<Rightarrow> None
         | ks \<Rightarrow> Some \<lparr>pf_price = prices ! last ks, pf_index = last ks\<rparr>)"
proof -
  have "\<forall>p\<in>set prices. valid_price p" using assms(2) by (auto simp: valid_price_def)
  from priceAtOrBefore_eq [OF assms(1) this] show ?thesis
    by (simp add: Let_def ticks_at_or_before_def split: list.split)
qed

theorem priceAtOrBefore_correct_witness:
  "sorted [10, 20, 20, 35 :: int] \<and>
   priceAtOrBefore [10, 20, 20, 35] [5, 6, 7, 8] 34 = Inr (Some \<lparr>pf_price = 7, pf_index = 2\<rparr>)"
proof -
  have h: "sorted [10, 20, 20, 35 :: int]" "\<forall>p\<in>set [5, 6, 7, 8 :: int]. \<bar>p\<bar> \<le> 2 ^ 31"
    by simp_all
  show ?thesis using h priceAtOrBefore_correct [OF h, of 34] by (simp add: upt_rec)
qed

text \<open>The entry search returns the first index whose tick is at or after the instant, and
  nothing exactly when the record ends before it.\<close>

theorem indexAtOrAfter_correct:
  assumes "sorted instants"
  shows "indexAtOrAfter instants t = find (\<lambda>k. t \<le> instants ! k) [0..<length instants]"
proof (cases "instants = [] \<or> last instants < t")
  case True
  have "\<not> t \<le> instants ! k" if "k < length instants" for k
  proof -
    have "instants ! k \<le> instants ! (length instants - 1)"
      using assms that by (intro sorted_nth_mono) auto
    moreover have "instants \<noteq> []" using that by auto
    ultimately have "instants ! k \<le> last instants" by (simp add: last_conv_nth)
    then show ?thesis using True that by auto
  qed
  then have "find (\<lambda>k. t \<le> instants ! k) [0..<length instants] = None" by (simp add: find_None_iff)
  with True show ?thesis
    by (cases "instants = []") (simp_all add: indexAtOrAfter_def last_conv_nth)
next
  case False
  let ?k = "search_first instants t 0 (length instants - 1)"
  have l: "0 < length instants" "t \<le> instants ! (length instants - 1)"
    using False by (auto simp: last_conv_nth)
  then have c: "?k \<le> length instants - 1 \<and> t \<le> instants ! ?k \<and> (\<forall>j<?k. instants ! j < t)"
    using assms by (intro search_first_correct) auto
  then have "find (\<lambda>k. t \<le> instants ! k) [0..<length instants] = Some ?k"
  proof -
    have k: "?k < length instants" using c l by linarith
    with c show ?thesis by (auto simp: find_Some_iff not_le intro!: exI [of _ ?k])
  qed
  with l show ?thesis by (simp add: indexAtOrAfter_def)
qed

theorem indexAtOrAfter_correct_witness:
  "sorted [10, 20, 20, 35 :: int] \<and> indexAtOrAfter [10, 20, 20, 35] 11 = Some 1"
proof -
  have h: "sorted [10, 20, 20, 35 :: int]" by simp
  show ?thesis using h indexAtOrAfter_correct [OF h, of 11] by (simp add: upt_rec)
qed

end
