(* ===== verification/Candle.thy ===== *)
theory Candle
  imports Market
begin

text \<open>
  The tick-to-candle fold: packages/core/src/market/candle.ts. An aggregator holds the candle of
  the bucket it is in and the tick it saw last; a tick in another bucket closes that candle. The
  theory shows the four facts the code is written for: every candle is made of exactly the ticks
  of its bucket, its extremes were visited, no candle stands for an empty bucket, and folding
  fine candles gives the same coarse candles as folding the ticks.
\<close>

section \<open>State and operations\<close>

record mutable_candle =
  mc_openInstant :: int
  mc_open :: int
  mc_high :: int
  mc_low :: int
  mc_close :: int
  mc_tickCount :: int
  mc_firstSequence :: int
  mc_lastSequence :: int

record candle =
  c_openInstant :: int
  c_timeframe :: timeframe_id
  c_open :: int
  c_high :: int
  c_low :: int
  c_close :: int
  c_tickCount :: int
  c_firstSequence :: int
  c_lastSequence :: int

definition freeze :: "mutable_candle \<Rightarrow> timeframe_id \<Rightarrow> candle" where
  "freeze c i = \<lparr>c_openInstant = mc_openInstant c, c_timeframe = i, c_open = mc_open c,
     c_high = mc_high c, c_low = mc_low c, c_close = mc_close c, c_tickCount = mc_tickCount c,
     c_firstSequence = mc_firstSequence c, c_lastSequence = mc_lastSequence c\<rparr>"

record aggregator =
  ag_timeframe :: timeframe
  ag_open :: "mutable_candle option"
  ag_previousTick :: "tick option"

definition new_aggregator :: "timeframe \<Rightarrow> aggregator" where
  "new_aggregator tf = \<lparr>ag_timeframe = tf, ag_open = None, ag_previousTick = None\<rparr>"

text \<open>The candle a tick opens, and what a further tick of the bucket does to it.\<close>

definition open_candle :: "int \<Rightarrow> tick \<Rightarrow> mutable_candle" where
  "open_candle start t = \<lparr>mc_openInstant = start, mc_open = price t, mc_high = price t,
     mc_low = price t, mc_close = price t, mc_tickCount = 1,
     mc_firstSequence = sequence t, mc_lastSequence = sequence t\<rparr>"

definition extend_candle :: "mutable_candle \<Rightarrow> tick \<Rightarrow> mutable_candle" where
  "extend_candle c t = c\<lparr>
     mc_high := (if mc_high c < price t then price t else mc_high c),
     mc_low := (if price t < mc_low c then price t else mc_low c),
     mc_close := price t,
     mc_tickCount := mc_tickCount c + 1,
     mc_lastSequence := sequence t\<rparr>"

definition accept :: "aggregator \<Rightarrow> tick \<Rightarrow> (aggregator \<times> candle option) result" where
  "accept a t = andThen (assertTickOrder (ag_previousTick a) t) (\<lambda>_.
     andThen (bucketStart (instant t) (ag_timeframe a)) (\<lambda>start.
       let a1 = a\<lparr>ag_previousTick := Some t\<rparr> in
       case ag_open a of
         None \<Rightarrow> Inr (a1\<lparr>ag_open := Some (open_candle start t)\<rparr>, None)
       | Some c \<Rightarrow>
           if mc_openInstant c \<noteq> start
           then Inr (a1\<lparr>ag_open := Some (open_candle start t)\<rparr>,
                     Some (freeze c (tf_id (ag_timeframe a))))
           else Inr (a1\<lparr>ag_open := Some (extend_candle c t)\<rparr>, None)))"

definition current :: "aggregator \<Rightarrow> candle option" where
  "current a = map_option (\<lambda>c. freeze c (tf_id (ag_timeframe a))) (ag_open a)"

definition option_list :: "'a option \<Rightarrow> 'a list" where
  "option_list x = (case x of None \<Rightarrow> [] | Some a \<Rightarrow> [a])"

definition fold_step :: "tick \<Rightarrow> aggregator \<times> candle list \<Rightarrow> (aggregator \<times> candle list) result"
where
  "fold_step t s = (case s of (a, out) \<Rightarrow> andThen (accept a t)
     (\<lambda>(a', closed). Inr (a', out @ option_list closed)))"

definition foldTicks :: "timeframe \<Rightarrow> tick list \<Rightarrow> candle list result" where
  "foldTicks tf ticks = andThen (foldE fold_step ticks (new_aggregator tf, []))
     (\<lambda>(a, out). Inr (out @ option_list (current a)))"

section \<open>Re-aggregation\<close>

definition from_candle :: "int \<Rightarrow> candle \<Rightarrow> mutable_candle" where
  "from_candle start c = \<lparr>mc_openInstant = start, mc_open = c_open c, mc_high = c_high c,
     mc_low = c_low c, mc_close = c_close c, mc_tickCount = c_tickCount c,
     mc_firstSequence = c_firstSequence c, mc_lastSequence = c_lastSequence c\<rparr>"

definition merge_candle :: "mutable_candle \<Rightarrow> candle \<Rightarrow> mutable_candle" where
  "merge_candle m c = m\<lparr>
     mc_high := (if mc_high m < c_high c then c_high c else mc_high m),
     mc_low := (if c_low c < mc_low m then c_low c else mc_low m),
     mc_close := c_close c,
     mc_tickCount := mc_tickCount m + c_tickCount c,
     mc_lastSequence := c_lastSequence c\<rparr>"

record refold =
  rf_previous :: "candle option"
  rf_open :: "mutable_candle option"
  rf_out :: "candle list"

definition refold_step :: "timeframe \<Rightarrow> candle \<Rightarrow> refold \<Rightarrow> refold result" where
  "refold_step target c s = andThen
     (case rf_previous s of
        None \<Rightarrow> Inr ()
      | Some p \<Rightarrow> require (\<not> c_openInstant c \<le> c_openInstant p) (RangeError ''candle order''))
     (\<lambda>_. andThen (bucketStart (c_openInstant c) target) (\<lambda>start.
       let s1 = s\<lparr>rf_previous := Some c\<rparr> in
       case rf_open s of
         None \<Rightarrow> Inr (s1\<lparr>rf_open := Some (from_candle start c)\<rparr>)
       | Some m \<Rightarrow>
           if mc_openInstant m \<noteq> start
           then Inr (s1\<lparr>rf_open := Some (from_candle start c),
                        rf_out := rf_out s @ [freeze m (tf_id target)]\<rparr>)
           else Inr (s1\<lparr>rf_open := Some (merge_candle m c)\<rparr>)))"

definition foldCandles :: "timeframe \<Rightarrow> candle list \<Rightarrow> candle list result" where
  "foldCandles target source = (case source of
     [] \<Rightarrow> Inr []
   | c0 # _ \<Rightarrow>
       andThen (require (list_all (\<lambda>c. c_timeframe c = c_timeframe c0) source)
                  (RangeError ''single source timeframe'')) (\<lambda>_.
       let sourceTimeframe = timeframe (c_timeframe c0) in
       andThen (require (nests sourceTimeframe target) (RangeError ''nests'')) (\<lambda>_.
       andThen (nestingFactor sourceTimeframe target) (\<lambda>_.
       andThen (foldE (refold_step target) source
                  \<lparr>rf_previous = None, rf_open = None, rf_out = []\<rparr>)
         (\<lambda>s. Inr (rf_out s @
            option_list (map_option (\<lambda>m. freeze m (tf_id target)) (rf_open s))))))))"

section \<open>The folds without their guards\<close>

type_synonym fold_state = "candle list \<times> mutable_candle option"

definition tick_step :: "timeframe \<Rightarrow> tick \<Rightarrow> fold_state \<Rightarrow> fold_state" where
  "tick_step tf t s = (case s of (out, op) \<Rightarrow>
     let start = bucket (durationMs tf) (instant t) in
     case op of
       None \<Rightarrow> (out, Some (open_candle start t))
     | Some c \<Rightarrow> if mc_openInstant c \<noteq> start
         then (out @ [freeze c (tf_id tf)], Some (open_candle start t))
         else (out, Some (extend_candle c t)))"

definition candle_step :: "timeframe \<Rightarrow> candle \<Rightarrow> fold_state \<Rightarrow> fold_state" where
  "candle_step tf c s = (case s of (out, op) \<Rightarrow>
     let start = bucket (durationMs tf) (c_openInstant c) in
     case op of
       None \<Rightarrow> (out, Some (from_candle start c))
     | Some m \<Rightarrow> if mc_openInstant m \<noteq> start
         then (out @ [freeze m (tf_id tf)], Some (from_candle start c))
         else (out, Some (merge_candle m c)))"

definition finished :: "timeframe \<Rightarrow> fold_state \<Rightarrow> candle list" where
  "finished tf s = fst s @ option_list (map_option (\<lambda>c. freeze c (tf_id tf)) (snd s))"

lemma tick_step_simps:
  "tick_step tf t (out, None) = (out, Some (open_candle (bucket (durationMs tf) (instant t)) t))"
  "mc_openInstant c \<noteq> bucket (durationMs tf) (instant t) \<Longrightarrow> tick_step tf t (out, Some c) =
     (out @ [freeze c (tf_id tf)], Some (open_candle (bucket (durationMs tf) (instant t)) t))"
  "mc_openInstant c = bucket (durationMs tf) (instant t) \<Longrightarrow>
     tick_step tf t (out, Some c) = (out, Some (extend_candle c t))"
  by (simp_all add: tick_step_def Let_def)

lemma option_list_simps [simp]: "option_list None = []" "option_list (Some x) = [x]"
  by (simp_all add: option_list_def)

text \<open>Tick order as the aggregator checks it, one tick after another.\<close>

fun ordered_from :: "tick option \<Rightarrow> tick list \<Rightarrow> bool" where
  "ordered_from p [] = True"
| "ordered_from p (t # ts) = (assertTickOrder p t = Inr () \<and> ordered_from (Some t) ts)"

abbreviation ticks_ordered :: "tick list \<Rightarrow> bool" where
  "ticks_ordered \<equiv> ordered_from None"

lemma assertTickOrder_Some [guard_simps]:
  "assertTickOrder (Some p) t = Inr u \<longleftrightarrow> sequence p < sequence t \<and> instant p \<le> instant t"
  by (auto simp: assertTickOrder_def)

lemma assertTickOrder_None [simp]: "assertTickOrder None t = Inr ()"
  by (simp add: assertTickOrder_def)

lemma ordered_from_sorted:
  "ordered_from p ts \<Longrightarrow>
    sorted_wrt (\<lambda>a b. sequence a < sequence b \<and> instant a \<le> instant b) (option_list p @ ts)"
proof (induction p ts rule: ordered_from.induct)
  case (1 p)
  then show ?case by (cases p) simp_all
next
  case (2 p t ts)
  then show ?case by (cases p) (auto simp: assertTickOrder_Some dest: order.strict_trans order.trans)
qed

lemma fold_step_pure:
  assumes "valid_instant (instant t)" "0 < durationMs (ag_timeframe a)"
    and "assertTickOrder (ag_previousTick a) t = Inr ()"
  shows "fold_step t (a, out) =
    (case tick_step (ag_timeframe a) t (out, ag_open a) of (out', op') \<Rightarrow>
       Inr (a\<lparr>ag_previousTick := Some t, ag_open := op'\<rparr>, out'))"
  using assms
  by (auto simp: fold_step_def accept_def tick_step_def bucketStart_eq Let_def split: option.splits)

lemma foldE_ticks_pure:
  assumes "\<forall>t\<in>set ts. valid_instant (instant t)" "0 < durationMs (ag_timeframe a)"
    and "ordered_from (ag_previousTick a) ts"
  shows "\<exists>a'. foldE fold_step ts (a, out) = Inr (a', fst (fold (tick_step (ag_timeframe a)) ts (out, ag_open a)))
    \<and> ag_open a' = snd (fold (tick_step (ag_timeframe a)) ts (out, ag_open a))
    \<and> ag_timeframe a' = ag_timeframe a"
  using assms
proof (induction ts arbitrary: a out)
  case (Cons t ts)
  obtain out' op' where st: "tick_step (ag_timeframe a) t (out, ag_open a) = (out', op')"
    by (cases "tick_step (ag_timeframe a) t (out, ag_open a)")
  let ?a = "a\<lparr>ag_previousTick := Some t, ag_open := op'\<rparr>"
  have "fold_step t (a, out) = Inr (?a, out')"
    using Cons.prems by (simp add: fold_step_pure st)
  moreover have "ordered_from (ag_previousTick ?a) ts" using Cons.prems by simp
  ultimately show ?case using Cons.IH [of ?a out'] Cons.prems by (simp add: st)
qed simp

lemma foldTicks_pure:
  assumes "\<forall>t\<in>set ts. valid_instant (instant t)" "0 < durationMs tf" "ticks_ordered ts"
  shows "foldTicks tf ts = Inr (finished tf (fold (tick_step tf) ts ([], None)))"
  using foldE_ticks_pure [of ts "new_aggregator tf" "[]"] assms
  by (auto simp: foldTicks_def new_aggregator_def finished_def current_def)

text \<open>The first tick out of order stops the fold: nothing is drawn across it.\<close>

lemma foldE_ticks_refused:
  assumes "\<forall>t\<in>set ts. valid_instant (instant t)" "0 < durationMs (ag_timeframe a)"
    and "\<not> ordered_from (ag_previousTick a) ts"
  shows "\<exists>e. foldE fold_step ts (a, out) = Inl (RangeError e)"
  using assms
proof (induction ts arbitrary: a out)
  case (Cons t ts)
  show ?case
  proof (cases "assertTickOrder (ag_previousTick a) t = Inr ()")
    case True
    obtain out' op' where st: "tick_step (ag_timeframe a) t (out, ag_open a) = (out', op')"
      by (cases "tick_step (ag_timeframe a) t (out, ag_open a)")
    let ?a = "a\<lparr>ag_previousTick := Some t, ag_open := op'\<rparr>"
    have "fold_step t (a, out) = Inr (?a, out')" using Cons.prems True by (simp add: fold_step_pure st)
    moreover have "\<exists>e. foldE fold_step ts (?a, out') = Inl (RangeError e)"
      using Cons.prems True by (intro Cons.IH) simp_all
    ultimately show ?thesis by simp
  next
    case False
    then obtain e where "assertTickOrder (ag_previousTick a) t = Inl (RangeError e)"
      by (auto simp: assertTickOrder_def split: option.splits if_splits)
    then show ?thesis by (simp add: fold_step_def accept_def)
  qed
qed simp

section \<open>Re-aggregation agrees with the fold over ticks\<close>

lemma from_open_candle: "from_candle start (freeze (open_candle s t) i) = open_candle start t"
  by (simp add: from_candle_def freeze_def open_candle_def)

lemma merge_open_candle: "merge_candle m (freeze (open_candle s t) i) = extend_candle m t"
  by (simp add: merge_candle_def freeze_def open_candle_def extend_candle_def)

lemma from_extend_candle:
  "from_candle start (freeze (extend_candle c t) i) = extend_candle (from_candle start (freeze c i)) t"
  by (simp add: from_candle_def freeze_def extend_candle_def)

lemma merge_extend_candle:
  "merge_candle m (freeze (extend_candle c t) i) = extend_candle (merge_candle m (freeze c i)) t"
  by (auto simp: merge_candle_def freeze_def extend_candle_def)

lemmas refold_simps = from_open_candle merge_open_candle from_extend_candle merge_extend_candle

lemma openInstant_simps [simp]:
  "mc_openInstant (open_candle s t) = s" "mc_openInstant (extend_candle c t) = mc_openInstant c"
  "mc_openInstant (from_candle s c') = s" "mc_openInstant (merge_candle c c') = mc_openInstant c"
  "c_openInstant (freeze c i) = mc_openInstant c" "c_timeframe (freeze c i) = i"
  by (simp_all add: open_candle_def extend_candle_def from_candle_def merge_candle_def freeze_def)

lemma candle_step_opened:
  assumes "0 < durationMs fine" "0 < durationMs coarse" "durationMs fine dvd durationMs coarse"
  shows "candle_step coarse (freeze (open_candle (bucket (durationMs fine) (instant t)) t) i) s =
    tick_step coarse t s"
  by (cases s) (auto simp: candle_step_def tick_step_def Let_def bucket_nested [OF assms] refold_simps
      split: option.splits)

lemma candle_step_extended:
  assumes "0 < durationMs fine" "0 < durationMs coarse" "durationMs fine dvd durationMs coarse"
    and "mc_openInstant c = bucket (durationMs fine) (instant t)"
  shows "candle_step coarse (freeze (extend_candle c t) i) s =
    tick_step coarse t (candle_step coarse (freeze c i) s)"
  by (cases s) (auto simp: candle_step_def tick_step_def Let_def assms(4) bucket_nested [OF assms(1-3)]
      refold_simps split: option.splits)

lemma refold_agrees:
  assumes "0 < durationMs fine" "0 < durationMs coarse" "durationMs fine dvd durationMs coarse"
  shows "fold (candle_step coarse) (finished fine (fold (tick_step fine) ts ([], None))) ([], None) =
    fold (tick_step coarse) ts ([], None)"
proof (induction ts rule: rev_induct)
  case Nil
  show ?case by (simp add: finished_def)
next
  case (snoc t ts)
  let ?b = "bucket (durationMs fine) (instant t)"
  obtain out op where st: "fold (tick_step fine) ts ([], None) = (out, op)"
    by (cases "fold (tick_step fine) ts ([], None)")
  show ?case
  proof (cases op)
    case None
    with snoc st show ?thesis
      by (simp add: finished_def tick_step_simps candle_step_opened [OF assms])
  next
    case (Some c)
    show ?thesis
    proof (cases "mc_openInstant c = ?b")
      case True
      with snoc st Some show ?thesis
        by (simp add: finished_def tick_step_simps
            candle_step_extended [OF assms True])
    next
      case False
      with snoc st Some show ?thesis
        by (simp add: finished_def tick_step_simps candle_step_opened [OF assms])
    qed
  qed
qed

section \<open>What the fold computes\<close>

text \<open>
  The specification of a candle list: one candle per bucket that holds a tick, in time order,
  each the open, high, low, close, count and sequence range of the ticks of its bucket.
\<close>

definition bucket_ticks :: "timeframe \<Rightarrow> tick list \<Rightarrow> int \<Rightarrow> tick list" where
  "bucket_ticks tf ts s = filter (\<lambda>t. bucket (durationMs tf) (instant t) = s) ts"

definition bucket_candle :: "timeframe \<Rightarrow> tick list \<Rightarrow> int \<Rightarrow> candle" where
  "bucket_candle tf ts s = (let g = bucket_ticks tf ts s in
     \<lparr>c_openInstant = s, c_timeframe = tf_id tf, c_open = price (hd g),
      c_high = Max (price ` set g), c_low = Min (price ` set g), c_close = price (last g),
      c_tickCount = int (length g), c_firstSequence = sequence (hd g),
      c_lastSequence = sequence (last g)\<rparr>)"

definition bucket_starts :: "timeframe \<Rightarrow> tick list \<Rightarrow> int list" where
  "bucket_starts tf ts = remdups_adj (map (\<lambda>t. bucket (durationMs tf) (instant t)) ts)"

definition group_candle :: "int \<Rightarrow> tick list \<Rightarrow> mutable_candle" where
  "group_candle s g = \<lparr>mc_openInstant = s, mc_open = price (hd g), mc_high = Max (price ` set g),
     mc_low = Min (price ` set g), mc_close = price (last g), mc_tickCount = int (length g),
     mc_firstSequence = sequence (hd g), mc_lastSequence = sequence (last g)\<rparr>"

lemma group_candle_open: "group_candle s [t] = open_candle s t"
  by (simp add: group_candle_def open_candle_def)

lemma group_candle_extend:
  assumes "g \<noteq> []"
  shows "group_candle s (g @ [t]) = extend_candle (group_candle s g) t"
proof -
  obtain M m where M: "Max (price ` set g) = M" and m: "Min (price ` set g) = m" by blast
  have "Max (price ` set (g @ [t])) = max (price t) M" "Min (price ` set (g @ [t])) = min (price t) m"
    using assms M m by simp_all
  then show ?thesis
    using assms by (simp add: group_candle_def extend_candle_def max_def min_def M m)
qed

lemma freeze_group: "freeze (group_candle s (bucket_ticks tf ts s)) (tf_id tf) = bucket_candle tf ts s"
  by (simp add: freeze_def group_candle_def bucket_candle_def Let_def)

lemma group_openInstant [simp]: "mc_openInstant (group_candle s g) = s"
  by (simp add: group_candle_def)

lemma sorted_bucket_starts:
  assumes "0 < durationMs tf" "sorted (map instant ts)"
  shows "sorted (map (\<lambda>t. bucket (durationMs tf) (instant t)) ts)"
  using assms by (induction ts) (auto intro: bucket_mono)

lemma strict_remdups_adj: "sorted xs \<Longrightarrow> sorted_wrt (<) (remdups_adj (xs :: int list))"
proof (induction xs rule: remdups_adj.induct)
  case (3 x y xs)
  then show ?case by (cases "x = y") (auto simp: less_le)
qed auto

lemma strict_bucket_starts:
  assumes "0 < durationMs tf" "sorted (map instant ts)"
  shows "sorted_wrt (<) (bucket_starts tf ts)"
  unfolding bucket_starts_def by (rule strict_remdups_adj [OF sorted_bucket_starts [OF assms]])

lemma set_bucket_starts: "set (bucket_starts tf ts) = (\<lambda>t. bucket (durationMs tf) (instant t)) ` set ts"
  by (simp add: bucket_starts_def)

lemma bucket_starts_snoc:
  assumes "ts \<noteq> []"
  shows "bucket_starts tf (ts @ [t]) =
    (if bucket (durationMs tf) (instant t) = last (bucket_starts tf ts) then bucket_starts tf ts
     else bucket_starts tf ts @ [bucket (durationMs tf) (instant t)])"
proof -
  let ?b = "\<lambda>t. bucket (durationMs tf) (instant t)"
  obtain us u where ts: "ts = us @ [u]" using assms by (cases ts rule: rev_cases) auto
  show ?thesis
    by (simp add: bucket_starts_def ts remdups_adj_append_two)
qed

lemma bucket_starts_Nil [simp]: "bucket_starts tf ts = [] \<longleftrightarrow> ts = []"
  by (simp add: bucket_starts_def)

lemma bucket_ticks_snoc:
  "bucket_ticks tf (ts @ [t]) s = bucket_ticks tf ts s @ (if bucket (durationMs tf) (instant t) = s then [t] else [])"
  by (simp add: bucket_ticks_def)

lemma bucket_candle_snoc:
  "bucket (durationMs tf) (instant t) \<noteq> s \<Longrightarrow> bucket_candle tf (ts @ [t]) s = bucket_candle tf ts s"
  by (simp add: bucket_candle_def bucket_ticks_snoc)

lemma bucket_ticks_empty: "bucket_ticks tf ts s = [] \<longleftrightarrow> s \<notin> set (bucket_starts tf ts)"
  by (auto simp: bucket_ticks_def set_bucket_starts filter_empty_conv)

lemma sorted_snoc_instants: "sorted (map instant (ts @ [t])) \<Longrightarrow> sorted (map instant ts)"
  by (simp add: sorted_append)

text \<open>After any prefix the fold has closed the candle of every bucket but the last one, and
  holds that one open.\<close>

lemma fold_ticks_state:
  assumes "0 < durationMs tf" "sorted (map instant ts)" "ts \<noteq> []"
  shows "fold (tick_step tf) ts ([], None) =
    (map (bucket_candle tf ts) (butlast (bucket_starts tf ts)),
     Some (group_candle (last (bucket_starts tf ts)) (bucket_ticks tf ts (last (bucket_starts tf ts)))))"
  using assms
proof (induction ts rule: rev_induct)
  case (snoc t ts)
  let ?b = "bucket (durationMs tf) (instant t)"
  let ?S = "bucket_starts tf ts"
  show ?case
  proof (cases "ts = []")
    case True
    then show ?thesis
      by (simp add: tick_step_simps bucket_starts_def bucket_ticks_def group_candle_open)
  next
    case False
    have IH: "fold (tick_step tf) ts ([], None) = (map (bucket_candle tf ts) (butlast ?S),
        Some (group_candle (last ?S) (bucket_ticks tf ts (last ?S))))"
      using snoc.IH snoc.prems sorted_snoc_instants False by blast
    have S: "?S \<noteq> []" using False by simp
    have dist: "distinct (bucket_starts tf (ts @ [t]))"
      using strict_bucket_starts [OF snoc.prems(1,2)] strict_sorted_iff by blast
    show ?thesis
    proof (cases "?b = last ?S")
      case True
      then have S': "bucket_starts tf (ts @ [t]) = ?S" using False by (simp add: bucket_starts_snoc)
      have "?b \<notin> set (butlast ?S)"
        using dist S' S True by (metis append_butlast_last_id distinct_butlast not_distinct_conv_prefix)
      then have "map (bucket_candle tf (ts @ [t])) (butlast ?S) = map (bucket_candle tf ts) (butlast ?S)"
        by (intro map_cong refl bucket_candle_snoc) blast
      moreover have "bucket_ticks tf ts (last ?S) \<noteq> []" using S by (simp add: bucket_ticks_empty)
      ultimately show ?thesis
        using True S' by (simp add: IH tick_step_simps bucket_ticks_snoc group_candle_extend)
    next
      case ne: False
      then have S': "bucket_starts tf (ts @ [t]) = ?S @ [?b]" using False by (simp add: bucket_starts_snoc)
      then have new: "?b \<notin> set ?S" using dist by simp
      then have "map (bucket_candle tf (ts @ [t])) ?S = map (bucket_candle tf ts) ?S"
        by (intro map_cong refl bucket_candle_snoc) blast
      also have "\<dots> = map (bucket_candle tf ts) (butlast ?S) @ [bucket_candle tf ts (last ?S)]"
        using S by (metis append_butlast_last_id list.simps(8,9) map_append)
      finally show ?thesis
        using ne S' new by (simp add: IH tick_step_simps bucket_ticks_snoc bucket_ticks_empty
            group_candle_open freeze_group bucket_ticks_empty [THEN iffD2])
    qed
  qed
qed simp

lemma finished_fold_ticks:
  assumes "0 < durationMs tf" "sorted (map instant ts)"
  shows "finished tf (fold (tick_step tf) ts ([], None)) = map (bucket_candle tf ts) (bucket_starts tf ts)"
proof (cases "ts = []")
  case False
  then have "bucket_starts tf ts \<noteq> []" by simp
  then have "map (bucket_candle tf ts) (bucket_starts tf ts) =
      map (bucket_candle tf ts) (butlast (bucket_starts tf ts)) @ [bucket_candle tf ts (last (bucket_starts tf ts))]"
    by (metis append_butlast_last_id list.simps(8,9) map_append)
  then show ?thesis
    by (simp add: fold_ticks_state [OF assms False] finished_def freeze_group)
qed (simp add: finished_def bucket_starts_def)

abbreviation tick_before :: "tick \<Rightarrow> tick \<Rightarrow> bool" where
  "tick_before a b \<equiv> sequence a < sequence b \<and> instant a \<le> instant b"

lemma ordered_from_iff: "ordered_from p ts \<longleftrightarrow> sorted_wrt tick_before (option_list p @ ts)"
proof
  show "ordered_from p ts \<Longrightarrow> sorted_wrt tick_before (option_list p @ ts)" by (rule ordered_from_sorted)
next
  show "sorted_wrt tick_before (option_list p @ ts) \<Longrightarrow> ordered_from p ts"
  proof (induction p ts rule: ordered_from.induct)
    case (2 p t ts)
    then show ?case by (cases p) (auto simp: assertTickOrder_Some)
  qed simp
qed

lemma ticks_ordered_iff:
  "ticks_ordered ts \<longleftrightarrow> sorted_wrt (<) (map sequence ts) \<and> sorted (map instant ts)"
  by (auto simp: ordered_from_iff sorted_wrt_iff_nth_less sorted_iff_nth_mono_less)

lemma ticks_ordered_instants: "ticks_ordered ts \<Longrightarrow> sorted (map instant ts)"
  by (simp add: ticks_ordered_iff)

section \<open>The properties of the fold\<close>

text \<open>C12: on ticks in order the fold answers one candle per bucket holding a tick, in time
  order, each with the first price, the extremes, the last price, the count and the sequence
  range of exactly the ticks of its bucket; on ticks out of order it throws a RangeError.\<close>

theorem foldTicks_correct:
  assumes "\<forall>t\<in>set ts. valid_instant (instant t)"
  shows "if sorted_wrt (<) (map sequence ts) \<and> sorted (map instant ts)
    then foldTicks (timeframe i) ts =
      Inr (map (bucket_candle (timeframe i) ts) (bucket_starts (timeframe i) ts))
    else \<exists>e. foldTicks (timeframe i) ts = Inl (RangeError e)"
proof (cases "ticks_ordered ts")
  case True
  then show ?thesis
    using foldTicks_pure [OF assms duration_pos(2) True, of i]
      finished_fold_ticks [OF duration_pos(2) ticks_ordered_instants [OF True]]
    by (simp add: ticks_ordered_iff)
next
  case False
  then obtain e where "foldE fold_step ts (new_aggregator (timeframe i), []) = Inl (RangeError e)"
    using foldE_ticks_refused [OF assms, of "new_aggregator (timeframe i)" "[]"]
    by (auto simp: new_aggregator_def)
  with False show ?thesis by (auto simp: foldTicks_def ticks_ordered_iff)
qed

abbreviation demo_ticks :: "tick list" where
  "demo_ticks \<equiv> [\<lparr>instant = 1000, sequence = 1, price = 7\<rparr>, \<lparr>instant = 1400, sequence = 2, price = 9\<rparr>,
     \<lparr>instant = 1400, sequence = 3, price = 4\<rparr>, \<lparr>instant = 6100, sequence = 5, price = 5\<rparr>]"

lemma demo_ticks_valid: "\<forall>t\<in>set demo_ticks. valid_instant (instant t)"
  by (simp add: valid_instant_def MAX_EPOCH_MILLIS_def)

theorem foldTicks_correct_witness:
  "foldTicks (timeframe TF_5s) demo_ticks = Inr
    [\<lparr>c_openInstant = 0, c_timeframe = TF_5s, c_open = 7, c_high = 9, c_low = 4, c_close = 4,
      c_tickCount = 3, c_firstSequence = 1, c_lastSequence = 3\<rparr>,
     \<lparr>c_openInstant = 5000, c_timeframe = TF_5s, c_open = 5, c_high = 5, c_low = 5, c_close = 5,
      c_tickCount = 1, c_firstSequence = 5, c_lastSequence = 5\<rparr>]"
  using foldTicks_correct [OF demo_ticks_valid, of TF_5s]
  by (simp add: bucket_starts_def bucket_candle_def bucket_ticks_def bucket_def)

lemma foldTicks_Inr_ordered:
  assumes "\<forall>t\<in>set ts. valid_instant (instant t)" "foldTicks (timeframe i) ts = Inr cs"
  shows "ticks_ordered ts"
proof (rule ccontr)
  assume "\<not> ticks_ordered ts"
  with assms(1) obtain e where "foldE fold_step ts (new_aggregator (timeframe i), []) = Inl (RangeError e)"
    using foldE_ticks_refused [of ts "new_aggregator (timeframe i)" "[]"]
    by (auto simp: new_aggregator_def)
  with assms(2) show False by (simp add: foldTicks_def)
qed

lemma foldTicks_Inr:
  assumes "\<forall>t\<in>set ts. valid_instant (instant t)" "foldTicks (timeframe i) ts = Inr cs"
  shows "cs = finished (timeframe i) (fold (tick_step (timeframe i)) ts ([], None))"
    "cs = map (bucket_candle (timeframe i) ts) (bucket_starts (timeframe i) ts)"
    "ticks_ordered ts"
proof -
  show o: "ticks_ordered ts" by (rule foldTicks_Inr_ordered [OF assms])
  show "cs = finished (timeframe i) (fold (tick_step (timeframe i)) ts ([], None))"
    using foldTicks_pure [OF assms(1) duration_pos(2) o] assms(2) by simp
  then show "cs = map (bucket_candle (timeframe i) ts) (bucket_starts (timeframe i) ts)"
    using finished_fold_ticks [OF duration_pos(2) ticks_ordered_instants [OF o]] by simp
qed

lemma bucket_candle_sel [simp]:
  "c_openInstant (bucket_candle tf ts s) = s" "c_timeframe (bucket_candle tf ts s) = tf_id tf"
  by (simp_all add: bucket_candle_def Let_def)

lemma bucket_starts_valid:
  assumes "\<forall>t\<in>set ts. valid_instant (instant t)" "0 < durationMs tf" "s \<in> set (bucket_starts tf ts)"
  shows "valid_instant s"
  using assms by (auto simp: set_bucket_starts valid_instant_def intro: bucket_nonneg bucket_le order_trans)

text \<open>The guarded loop of \<^verbatim>\<open>foldCandles\<close> on candles in strictly increasing order.\<close>

lemma foldE_refold_pure:
  assumes "\<forall>c\<in>set cs. valid_instant (c_openInstant c)" "0 < durationMs tf"
    and "sorted_wrt (<) (map c_openInstant (option_list (rf_previous s) @ cs))"
  shows "\<exists>s'. foldE (refold_step tf) cs s = Inr s' \<and>
    (rf_out s', rf_open s') = fold (candle_step tf) cs (rf_out s, rf_open s)"
  using assms
proof (induction cs arbitrary: s)
  case (Cons c cs)
  obtain out' op' where st: "candle_step tf c (rf_out s, rf_open s) = (out', op')"
    by (cases "candle_step tf c (rf_out s, rf_open s)")
  let ?s = "s\<lparr>rf_previous := Some c, rf_open := op', rf_out := out'\<rparr>"
  have "refold_step tf c s = Inr ?s"
    using Cons.prems st
    by (cases "rf_previous s"; cases "rf_open s")
       (auto simp: refold_step_def candle_step_def bucketStart_eq Let_def split: if_splits)
  moreover have "sorted_wrt (<) (map c_openInstant (option_list (rf_previous ?s) @ cs))"
    using Cons.prems(3) by (auto simp: sorted_wrt_append)
  ultimately show ?case using Cons.IH [of ?s] Cons.prems(1,2) by (simp add: st)
qed simp

lemma foldE_refold_refused:
  assumes "\<forall>c\<in>set cs. valid_instant (c_openInstant c)" "0 < durationMs tf"
    and "\<not> sorted_wrt (<) (map c_openInstant (option_list (rf_previous s) @ cs))"
  shows "\<exists>e. foldE (refold_step tf) cs s = Inl (RangeError e)"
  using assms
proof (induction cs arbitrary: s)
  case Nil
  then show ?case by (cases "rf_previous s") simp_all
next
  case (Cons c cs)
  show ?case
  proof (cases "refold_step tf c s")
    case (Inl e)
    then show ?thesis using Cons.prems(1,2)
      by (auto simp: refold_step_def andThen_Inl_iff bucketStart_eq Let_def
          split: option.splits if_splits)
  next
    case (Inr s')
    then have p: "rf_previous s' = Some c"
      and lt: "\<And>p. rf_previous s = Some p \<Longrightarrow> c_openInstant p < c_openInstant c"
      by (auto simp: refold_step_def andThen_Inr_iff Let_def split: option.splits if_splits)
    have "\<not> sorted_wrt (<) (map c_openInstant (option_list (rf_previous s') @ cs))"
      using Cons.prems(3) lt by (cases "rf_previous s") (auto simp: p intro: less_trans)
    with Cons.IH [of s'] Cons.prems(1,2) Inr show ?thesis by simp
  qed
qed

lemma nestingFactor_Inr: "nests f c \<Longrightarrow> \<exists>n. nestingFactor f c = Inr n"
  by (simp add: nestingFactor_def)

lemma foldCandles_pure:
  assumes "\<forall>c\<in>set cs. valid_instant (c_openInstant c) \<and> c_timeframe c = f"
    and "nests (timeframe f) target" "0 < durationMs target"
    and "sorted_wrt (<) (map c_openInstant cs)"
  shows "foldCandles target cs = Inr (finished target (fold (candle_step target) cs ([], None)))"
proof (cases cs)
  case Nil
  then show ?thesis by (simp add: foldCandles_def finished_def)
next
  case (Cons c0 rest)
  let ?s0 = "\<lparr>rf_previous = None, rf_open = None, rf_out = []\<rparr>"
  obtain s' where s': "foldE (refold_step target) cs ?s0 = Inr s'"
    "(rf_out s', rf_open s') = fold (candle_step target) cs ([], None)"
    using foldE_refold_pure [of cs target ?s0] assms by auto
  have "list_all (\<lambda>c. c_timeframe c = c_timeframe c0) cs" "c_timeframe c0 = f"
    using assms(1) Cons by (auto simp: list_all_iff)
  moreover have "finished target (fold (candle_step target) cs ([], None)) =
      rf_out s' @ option_list (map_option (\<lambda>m. freeze m (tf_id target)) (rf_open s'))"
    by (simp add: finished_def flip: s'(2))
  ultimately show ?thesis
    using assms(2) s'(1) nestingFactor_Inr [OF assms(2)] Cons
    by (auto simp: foldCandles_def)
qed

text \<open>C1: folding the candles of a finer timeframe gives the same candles as folding the ticks
  at the coarser one, for every pair of timeframes that nests: both timeframes of one chart
  tell the same history.\<close>

theorem foldCandles_agrees:
  assumes "\<forall>t\<in>set ts. valid_instant (instant t)" "nests (timeframe f) (timeframe c)"
    and "foldTicks (timeframe f) ts = Inr fine"
  shows "foldCandles (timeframe c) fine = foldTicks (timeframe c) ts"
proof -
  note F = foldTicks_Inr [OF assms(1,3)]
  have opens: "map c_openInstant fine = bucket_starts (timeframe f) ts"
    unfolding F(2) by (simp add: o_def)
  have 1: "\<forall>d\<in>set fine. valid_instant (c_openInstant d) \<and> c_timeframe d = f"
    unfolding F(2) using bucket_starts_valid [OF assms(1) duration_pos(2)] by auto
  have 2: "sorted_wrt (<) (map c_openInstant fine)"
    unfolding opens by (rule strict_bucket_starts [OF duration_pos(2) ticks_ordered_instants [OF F(3)]])
  have "durationMs (timeframe f) dvd durationMs (timeframe c)" using assms(2) by (simp add: nests_dvd)
  note R = refold_agrees [OF duration_pos(2) duration_pos(2) this, of ts]
  show ?thesis
    unfolding foldCandles_pure [OF 1 assms(2) duration_pos(2) 2]
      foldTicks_pure [OF assms(1) duration_pos(2) F(3)]
    using R by (simp add: F(1))
qed

theorem foldCandles_agrees_witness:
  "\<exists>fine. foldTicks (timeframe TF_1s) demo_ticks = Inr fine \<and> length fine = 2 \<and>
     foldCandles (timeframe TF_5s) fine = foldTicks (timeframe TF_5s) demo_ticks"
proof -
  let ?fine = "map (bucket_candle (timeframe TF_1s) demo_ticks) (bucket_starts (timeframe TF_1s) demo_ticks)"
  have ord: "ticks_ordered demo_ticks" by (simp add: assertTickOrder_Some)
  have 1: "foldTicks (timeframe TF_1s) demo_ticks = Inr ?fine"
    using foldTicks_pure [OF demo_ticks_valid duration_pos(2) ord]
      finished_fold_ticks [OF duration_pos(2) ticks_ordered_instants [OF ord]] by simp
  have "foldCandles (timeframe TF_5s) ?fine = foldTicks (timeframe TF_5s) demo_ticks"
    by (rule foldCandles_agrees [OF demo_ticks_valid _ 1]) (simp add: nests_dvd)
  moreover have "length ?fine = 2" by (simp add: bucket_starts_def bucket_def)
  ultimately show ?thesis using 1 by blast
qed

text \<open>Re-aggregation refuses rather than guesses: it answers candles exactly when the source
  is of one timeframe, that timeframe nests in the target, and the candles are in strictly
  increasing order.\<close>

theorem foldCandles_accepts_iff:
  assumes "\<forall>d\<in>set cs. valid_instant (c_openInstant d)" "cs \<noteq> []"
  shows "(\<exists>out. foldCandles (timeframe c) cs = Inr out) \<longleftrightarrow>
    (\<exists>f. (\<forall>d\<in>set cs. c_timeframe d = f) \<and> nests (timeframe f) (timeframe c)) \<and>
    sorted_wrt (<) (map c_openInstant cs)"
proof
  assume "(\<exists>f. (\<forall>d\<in>set cs. c_timeframe d = f) \<and> nests (timeframe f) (timeframe c)) \<and>
    sorted_wrt (<) (map c_openInstant cs)"
  then obtain f where "\<forall>d\<in>set cs. c_timeframe d = f" "nests (timeframe f) (timeframe c)"
    "sorted_wrt (<) (map c_openInstant cs)" by blast
  then show "\<exists>out. foldCandles (timeframe c) cs = Inr out"
    using foldCandles_pure [of cs f "timeframe c"] assms(1) by auto
next
  let ?s0 = "\<lparr>rf_previous = None, rf_open = None, rf_out = []\<rparr>"
  assume "\<exists>out. foldCandles (timeframe c) cs = Inr out"
  then obtain s where f: "list_all (\<lambda>d. c_timeframe d = c_timeframe (hd cs)) cs"
    and n: "nests (timeframe (c_timeframe (hd cs))) (timeframe c)"
    and s: "foldE (refold_step (timeframe c)) cs ?s0 = Inr s"
    using assms(2) by (cases cs) (auto simp: foldCandles_def andThen_Inr_iff Let_def)
  have "sorted_wrt (<) (map c_openInstant cs)"
  proof (rule ccontr)
    assume "\<not> sorted_wrt (<) (map c_openInstant cs)"
    then show False
      using foldE_refold_refused [of cs "timeframe c" ?s0] assms(1) s by simp
  qed
  with f n show "(\<exists>f. (\<forall>d\<in>set cs. c_timeframe d = f) \<and> nests (timeframe f) (timeframe c)) \<and>
    sorted_wrt (<) (map c_openInstant cs)"
    by (auto simp: list_all_iff)
qed

theorem foldCandles_accepts_iff_witness:
  "\<exists>d. c_timeframe d = TF_5m \<and> (\<exists>out. foldCandles (timeframe TF_15m) [d] = Inr out) \<and>
     \<not> (\<exists>out. foldCandles (timeframe TF_1m) [d] = Inr out)"
proof -
  let ?d = "\<lparr>c_openInstant = 300000, c_timeframe = TF_5m, c_open = 1, c_high = 2, c_low = 1,
    c_close = 2, c_tickCount = 4, c_firstSequence = 10, c_lastSequence = 13\<rparr>"
  have v: "\<forall>d\<in>set [?d]. valid_instant (c_openInstant d)"
    by (simp add: valid_instant_def MAX_EPOCH_MILLIS_def)
  have "(\<exists>out. foldCandles (timeframe TF_15m) [?d] = Inr out)"
    "\<not> (\<exists>out. foldCandles (timeframe TF_1m) [?d] = Inr out)"
    using foldCandles_accepts_iff [OF v, of TF_15m] foldCandles_accepts_iff [OF v, of TF_1m]
    by (simp_all add: nests_dvd)
  then show ?thesis by (intro exI [of _ ?d]) simp
qed

lemma sum_group_lengths:
  assumes "finite A" "f ` set ts \<subseteq> A"
  shows "(\<Sum>s\<in>A. length (filter (\<lambda>t. f t = s) ts)) = length ts"
  using assms(2)
proof (induction ts)
  case (Cons a ts)
  have "length (filter (\<lambda>t. f t = s) (a # ts)) =
      (if f a = s then 1 else 0) + length (filter (\<lambda>t. f t = s) ts)" for s by simp
  then have "(\<Sum>s\<in>A. length (filter (\<lambda>t. f t = s) (a # ts))) =
      (\<Sum>s\<in>A. if f a = s then 1 else 0) + (\<Sum>s\<in>A. length (filter (\<lambda>t. f t = s) ts))"
    by (simp only: sum.distrib)
  with Cons assms(1) show ?case by simp
qed simp

text \<open> no tick is lost or counted twice: the tick counts of the candles add up to the
  number of ticks, and every candle counts at least one and keeps its prices inside its
  extremes.\<close>

theorem candles_conserve_ticks:
  assumes "\<forall>t\<in>set ts. valid_instant (instant t)" "foldTicks (timeframe i) ts = Inr cs"
  shows "sum_list (map c_tickCount cs) = int (length ts) \<and>
    (\<forall>c\<in>set cs. 1 \<le> c_tickCount c \<and> c_low c \<le> c_open c \<and> c_open c \<le> c_high c \<and>
      c_low c \<le> c_close c \<and> c_close c \<le> c_high c \<and> c_firstSequence c \<le> c_lastSequence c)"
proof
  let ?tf = "timeframe i"
  let ?b = "\<lambda>t. bucket (durationMs ?tf) (instant t)"
  let ?S = "bucket_starts ?tf ts"
  note F = foldTicks_Inr [OF assms]
  have d: "distinct ?S"
    using strict_bucket_starts [OF duration_pos(2) ticks_ordered_instants [OF F(3)]] strict_sorted_iff
    by blast
  have "sum_list (map c_tickCount cs) = int (\<Sum>s\<in>set ?S. length (bucket_ticks ?tf ts s))"
    unfolding F(2) by (simp add: sum_list_distinct_conv_sum_set d bucket_candle_def Let_def o_def)
  also have "(\<Sum>s\<in>set ?S. length (bucket_ticks ?tf ts s)) = length ts"
    unfolding bucket_ticks_def by (rule sum_group_lengths) (simp_all add: set_bucket_starts)
  finally show "sum_list (map c_tickCount cs) = int (length ts)" .
next
  let ?tf = "timeframe i"
  note F = foldTicks_Inr [OF assms]
  show "\<forall>c\<in>set cs. 1 \<le> c_tickCount c \<and> c_low c \<le> c_open c \<and> c_open c \<le> c_high c \<and>
      c_low c \<le> c_close c \<and> c_close c \<le> c_high c \<and> c_firstSequence c \<le> c_lastSequence c"
  proof
    fix c assume "c \<in> set cs"
    then obtain s where c: "c = bucket_candle ?tf ts s" and "s \<in> set (bucket_starts ?tf ts)"
      unfolding F(2) by auto
    then have g: "bucket_ticks ?tf ts s \<noteq> []" by (simp add: bucket_ticks_empty)
    let ?g = "bucket_ticks ?tf ts s"
    have so: "sorted_wrt tick_before ?g"
      using ordered_from_sorted [OF F(3)] by (simp add: bucket_ticks_def sorted_wrt_filter)
    have "sequence (hd ?g) \<le> sequence (last ?g)"
      using so g by (cases ?g) (auto simp: less_imp_le split: if_splits)
    moreover have "1 \<le> length ?g" using g by (cases ?g) auto
    ultimately show "1 \<le> c_tickCount c \<and> c_low c \<le> c_open c \<and> c_open c \<le> c_high c \<and>
      c_low c \<le> c_close c \<and> c_close c \<le> c_high c \<and> c_firstSequence c \<le> c_lastSequence c"
      using g by (simp add: c bucket_candle_def Let_def)
  qed
qed

theorem candles_conserve_ticks_witness:
  "\<exists>cs. foldTicks (timeframe TF_5s) demo_ticks = Inr cs \<and> sum_list (map c_tickCount cs) = 4"
proof -
  have ord: "ticks_ordered demo_ticks" by (simp add: assertTickOrder_Some)
  from foldTicks_pure [OF demo_ticks_valid duration_pos(2) ord]
  obtain cs where cs: "foldTicks (timeframe TF_5s) demo_ticks = Inr cs" by blast
  with candles_conserve_ticks [OF demo_ticks_valid cs] show ?thesis by auto
qed

end
