(* ===== verification/Replay.thy ===== *)
theory Replay
  imports Market
begin

text \<open>
  Replayable history: packages/core/src/market/replay.ts. A segment is a snapshot plus the list
  of cursor advances recorded at restarts; \<open>cursorsAt\<close> answers where every stream of the
  snapshot stood at a sequence. Sequences of advances are plain Numbers in the source (only the
  snapshot's is checked to be an integer), so they are \<open>jsnum\<close> here.
\<close>

section \<open>The model\<close>

record 'm stream_snapshot =
  ss_instrumentId :: string
  ss_keyId :: string
  ss_takenAt :: int
  ss_sequence :: jsnum
  ss_price :: int
  ss_cursors :: "string \<rightharpoonup> string"
  ss_modelState :: 'm

record cursor_advance =
  ca_instrumentId :: string
  ca_purpose :: string
  ca_atSequence :: jsnum
  ca_from :: string
  ca_to :: string

record 'm replay_segment =
  rs_snapshot :: "'m stream_snapshot"
  rs_advances :: "cursor_advance list"

record replay_check =
  rc_previous :: jsnum
  rc_lastFor :: "string \<rightharpoonup> jsnum"

definition check_advance ::
  "'m stream_snapshot \<Rightarrow> cursor_advance \<Rightarrow> replay_check \<Rightarrow> replay_check result" where
  "check_advance snapshot a s =
     andThen (require (ca_instrumentId a = ss_instrumentId snapshot) (RangeError ''instrument'')) (\<lambda>_.
     andThen (require (\<not> js_lt (ca_atSequence a) (ss_sequence snapshot)) (RangeError ''precedes'')) (\<lambda>_.
     andThen (require (\<not> js_lt (ca_atSequence a) (rc_previous s)) (RangeError ''ordered'')) (\<lambda>_.
     andThen (case rc_lastFor s (ca_purpose a) of
                None \<Rightarrow> Inr ()
              | Some l \<Rightarrow> require (\<not> js_le (ca_atSequence a) l) (RangeError ''advances twice'')) (\<lambda>_.
     let s' = s\<lparr>rc_lastFor := (rc_lastFor s)(ca_purpose a \<mapsto> ca_atSequence a),
                rc_previous := ca_atSequence a\<rparr> in
     andThen (require (ss_cursors snapshot (ca_purpose a) \<noteq> None) (RangeError ''purpose'')) (\<lambda>_.
     Inr s')))))"

definition assertReplaySegment :: "'m replay_segment \<Rightarrow> unit result" where
  "assertReplaySegment segment = (let snapshot = rs_snapshot segment in
     andThen (require (isSafeInteger (ss_sequence snapshot) \<and> \<not> js_lt (ss_sequence snapshot) (num 0))
                (RangeError ''snapshot sequence'')) (\<lambda>_.
     andThen (require (length (ss_keyId snapshot) \<noteq> 0) (RangeError ''keyId'')) (\<lambda>_.
     andThen (foldE (check_advance snapshot) (rs_advances segment)
                \<lparr>rc_previous = num (-1), rc_lastFor = Map.empty\<rparr>) (\<lambda>_.
     Inr ()))))"

text \<open>The loop that applies the advances, leaving at the first one past the sequence.\<close>

fun apply_advances :: "cursor_advance list \<Rightarrow> jsnum \<Rightarrow> (string \<rightharpoonup> string) \<Rightarrow> (string \<rightharpoonup> string)" where
  "apply_advances [] n cursors = cursors"
| "apply_advances (a # as) n cursors =
     (if js_lt n (ca_atSequence a) then cursors
      else apply_advances as n (cursors(ca_purpose a \<mapsto> ca_to a)))"

definition cursorsAt :: "'m replay_segment \<Rightarrow> jsnum \<Rightarrow> (string \<rightharpoonup> string) result" where
  "cursorsAt segment n =
     andThen (assertReplaySegment segment) (\<lambda>_.
     andThen (require (\<not> js_lt n (ss_sequence (rs_snapshot segment))) (RangeError ''begins at'')) (\<lambda>_.
     Inr (apply_advances (rs_advances segment) n (ss_cursors (rs_snapshot segment)))))"

section \<open>What an accepted segment promises\<close>

definition integral_advances :: "cursor_advance list \<Rightarrow> bool" where
  "integral_advances as \<longleftrightarrow> (\<forall>a\<in>set as. isInteger (ca_atSequence a))"

abbreviation seq_of :: "cursor_advance \<Rightarrow> int" where
  "seq_of a \<equiv> int_of (ca_atSequence a)"

lemma integral_num: "isInteger (ca_atSequence a) \<Longrightarrow> ca_atSequence a = num (seq_of a)"
  by (rule isInteger_num)

lemma js_lt_integral [simp]:
  "isInteger x \<Longrightarrow> isInteger y \<Longrightarrow> js_lt x y \<longleftrightarrow> int_of x < int_of y"
  "isInteger x \<Longrightarrow> isInteger y \<Longrightarrow> js_le x y \<longleftrightarrow> int_of x \<le> int_of y"
  by (metis isInteger_num num_simps(8), metis isInteger_num num_simps(10))

text \<open>The order an accepted list is in: never decreasing, and strictly increasing for one
  purpose; each advance belongs to the instrument and to a stream of the snapshot.\<close>

abbreviation advance_before :: "cursor_advance \<Rightarrow> cursor_advance \<Rightarrow> bool" where
  "advance_before a b \<equiv> seq_of a \<le> seq_of b \<and> (ca_purpose a = ca_purpose b \<longrightarrow> seq_of a < seq_of b)"

definition advance_of :: "'m stream_snapshot \<Rightarrow> cursor_advance \<Rightarrow> bool" where
  "advance_of snapshot a \<longleftrightarrow> ca_instrumentId a = ss_instrumentId snapshot \<and>
     int_of (ss_sequence snapshot) \<le> seq_of a \<and> ss_cursors snapshot (ca_purpose a) \<noteq> None"

text \<open>What the loop remembers of the advances it has passed: the last sequence, and the last
  one of each purpose.\<close>

definition last_for :: "cursor_advance list \<Rightarrow> string \<Rightarrow> cursor_advance option" where
  "last_for past p = (let as = filter (\<lambda>a. ca_purpose a = p) past in
     if as = [] then None else Some (last as))"

definition remember :: "cursor_advance list \<Rightarrow> replay_check" where
  "remember past = \<lparr>rc_previous = (if past = [] then num (-1) else ca_atSequence (last past)),
     rc_lastFor = (\<lambda>p. map_option ca_atSequence (last_for past p))\<rparr>"

lemma remember_Nil: "\<lparr>rc_previous = num (-1), rc_lastFor = Map.empty\<rparr> = remember []"
  by (simp add: remember_def last_for_def fun_eq_iff)

lemma remember_snoc:
  "(remember past)\<lparr>rc_lastFor := (rc_lastFor (remember past))(ca_purpose a \<mapsto> ca_atSequence a),
     rc_previous := ca_atSequence a\<rparr> = remember (past @ [a])"
  by (auto simp: remember_def last_for_def fun_eq_iff)

lemma sorted_advances_last:
  "sorted_wrt advance_before xs \<Longrightarrow> b \<in> set xs \<Longrightarrow> seq_of b \<le> seq_of (last xs)"
  by (cases xs rule: rev_cases) (auto simp: sorted_wrt_append)

lemma last_for_Some:
  assumes "last_for past p = Some l"
  shows "l \<in> set past" "ca_purpose l = p"
    and "sorted_wrt advance_before past \<Longrightarrow> b \<in> set past \<Longrightarrow> ca_purpose b = p \<Longrightarrow> seq_of b \<le> seq_of l"
proof -
  let ?as = "filter (\<lambda>a. ca_purpose a = p) past"
  have l: "?as \<noteq> []" "l = last ?as" using assms by (auto simp: last_for_def Let_def split: if_splits)
  have "l \<in> set ?as" using last_in_set [OF l(1)] l(2) by (simp only:)
  then show "l \<in> set past" "ca_purpose l = p" by simp_all
  show "sorted_wrt advance_before past \<Longrightarrow> b \<in> set past \<Longrightarrow> ca_purpose b = p \<Longrightarrow> seq_of b \<le> seq_of l"
    using sorted_advances_last [of ?as b] l by (simp add: sorted_wrt_filter)
qed

lemma last_for_None: "last_for past p = None \<longleftrightarrow> (\<forall>b\<in>set past. ca_purpose b \<noteq> p)"
  by (simp add: last_for_def Let_def filter_empty_conv)

text \<open>Comparing with what the loop remembers is comparing with everything passed.\<close>

lemma after_all_iff:
  assumes "sorted_wrt advance_before past"
  shows "(\<forall>b\<in>set past. advance_before b a) \<longleftrightarrow>
    (past \<noteq> [] \<longrightarrow> seq_of (last past) \<le> seq_of a) \<and>
    (\<forall>l. last_for past (ca_purpose a) = Some l \<longrightarrow> seq_of l < seq_of a)"
proof (intro iffI conjI impI allI ballI)
  fix b assume h: "(past \<noteq> [] \<longrightarrow> seq_of (last past) \<le> seq_of a) \<and>
    (\<forall>l. last_for past (ca_purpose a) = Some l \<longrightarrow> seq_of l < seq_of a)" and b: "b \<in> set past"
  then have "past \<noteq> []" by auto
  with h sorted_advances_last [OF assms b] show "seq_of b \<le> seq_of a" by linarith
  assume p: "ca_purpose b = ca_purpose a"
  with b obtain l where l: "last_for past (ca_purpose a) = Some l"
    by (cases "last_for past (ca_purpose a)") (auto simp: last_for_None)
  with h last_for_Some(3) [OF l assms b p] show "seq_of b < seq_of a" by fastforce
qed (auto dest: last_for_Some(1,2))

lemma check_advance_iff:
  assumes "integral_advances (past @ [a])" "isInteger (ss_sequence snapshot)"
    and "0 \<le> int_of (ss_sequence snapshot)" "sorted_wrt advance_before past"
  shows "(\<exists>s'. check_advance snapshot a (remember past) = Inr s') \<longleftrightarrow>
    advance_of snapshot a \<and> (\<forall>b\<in>set past. advance_before b a)"
proof -
  have i: "isInteger (ca_atSequence a)" "past \<noteq> [] \<longrightarrow> isInteger (ca_atSequence (last past))"
    "last_for past p = Some l \<longrightarrow> isInteger (ca_atSequence l)" for p l
    using assms(1) last_for_Some(1) [of past p l] by (auto simp: integral_advances_def)
  have n: "isInteger (num (-1))" by simp
  show ?thesis
    unfolding after_all_iff [OF assms(4)] advance_of_def
    using assms(2,3) i
    by (cases "last_for past (ca_purpose a)"; cases "past = []")
       (auto simp: check_advance_def remember_def andThen_Inr_iff Let_def n)
qed

lemma check_advance_remember:
  "check_advance snapshot a (remember past) = Inr s' \<Longrightarrow> s' = remember (past @ [a])"
  unfolding remember_snoc [symmetric] by (auto simp: check_advance_def andThen_Inr_iff Let_def)

lemma foldE_check_iff:
  assumes "integral_advances (past @ as)" "isInteger (ss_sequence snapshot)"
    and "0 \<le> int_of (ss_sequence snapshot)" "sorted_wrt advance_before past"
  shows "(\<exists>s'. foldE (check_advance snapshot) as (remember past) = Inr s') \<longleftrightarrow>
    (\<forall>a\<in>set as. advance_of snapshot a) \<and> sorted_wrt advance_before (past @ as)"
  using assms
proof (induction as arbitrary: past)
  case (Cons a as)
  have "integral_advances (past @ [a])" using Cons.prems(1) by (simp add: integral_advances_def)
  note C = check_advance_iff [OF this Cons.prems(2-4)]
  show ?case
  proof (cases "check_advance snapshot a (remember past)")
    case (Inl e)
    then have "\<not> (advance_of snapshot a \<and> (\<forall>b\<in>set past. advance_before b a))" using C by simp
    then have "\<not> (advance_of snapshot a \<and> sorted_wrt advance_before (past @ a # as))"
      by (auto simp: sorted_wrt_append)
    with Inl show ?thesis by auto
  next
    case (Inr s')
    then have "advance_of snapshot a" "sorted_wrt advance_before (past @ [a])"
      using C Cons.prems(4) by (auto simp: sorted_wrt_append)
    with Inr Cons.IH [of "past @ [a]"] Cons.prems check_advance_remember [OF Inr]
    show ?thesis by simp
  qed
qed simp

section \<open>The properties\<close>

lemma safe_nonneg_iff:
  "isSafeInteger s \<and> \<not> js_lt s (num 0) \<longleftrightarrow> (\<exists>n. s = num n \<and> 0 \<le> n \<and> n \<le> MAX_SAFE)"
proof
  assume h: "isSafeInteger s \<and> \<not> js_lt s (num 0)"
  then obtain n where "s = num n" "\<bar>n\<bar> \<le> MAX_SAFE" using isSafeInteger_num by blast
  with h show "\<exists>n. s = num n \<and> 0 \<le> n \<and> n \<le> MAX_SAFE" by auto
qed auto

lemma accepted_advances:
  assumes "integral_advances (rs_advances g)" "ss_sequence (rs_snapshot g) = num n" "0 \<le> n"
  shows "(\<exists>s'. foldE (check_advance (rs_snapshot g)) (rs_advances g) (remember []) = Inr s') \<longleftrightarrow>
      (\<forall>a\<in>set (rs_advances g). advance_of (rs_snapshot g) a) \<and> sorted_wrt advance_before (rs_advances g)"
  using foldE_check_iff [of "[]" "rs_advances g" "rs_snapshot g"] assms by simp

lemma accepted_fold:
  "assertReplaySegment g = Inr () \<longleftrightarrow> (\<exists>n. ss_sequence (rs_snapshot g) = num n \<and> 0 \<le> n \<and> n \<le> MAX_SAFE) \<and>
    ss_keyId (rs_snapshot g) \<noteq> [] \<and>
    (\<exists>s'. foldE (check_advance (rs_snapshot g)) (rs_advances g) (remember []) = Inr s')"
  unfolding safe_nonneg_iff [symmetric]
  by (auto simp: assertReplaySegment_def Let_def andThen_Inr_iff remember_Nil)

text \<open> a segment is accepted exactly when its snapshot has a nonnegative safe sequence and a
  key, every advance belongs to the instrument and to a stream of the snapshot and does not
  precede it, and the advances never go back, nor move one stream twice at one sequence.\<close>

theorem assertReplaySegment_iff:
  assumes "integral_advances (rs_advances g)"
  shows "assertReplaySegment g = Inr () \<longleftrightarrow>
    (\<exists>n. ss_sequence (rs_snapshot g) = num n \<and> 0 \<le> n \<and> n \<le> MAX_SAFE) \<and>
    ss_keyId (rs_snapshot g) \<noteq> [] \<and>
    (\<forall>a\<in>set (rs_advances g). advance_of (rs_snapshot g) a) \<and>
    sorted_wrt advance_before (rs_advances g)"
  unfolding accepted_fold using accepted_advances [OF assms] by blast

abbreviation demo_snapshot :: "unit stream_snapshot" where
  "demo_snapshot \<equiv> \<lparr>ss_instrumentId = ''eurusd-otc'', ss_keyId = ''k1'', ss_takenAt = 0,
     ss_sequence = num 10, ss_price = 0,
     ss_cursors = [''sign'' \<mapsto> ''0:0'', ''arrival'' \<mapsto> ''4:8''], ss_modelState = ()\<rparr>"

abbreviation demo_advance :: "string \<Rightarrow> int \<Rightarrow> string \<Rightarrow> cursor_advance" where
  "demo_advance p n t \<equiv> \<lparr>ca_instrumentId = ''eurusd-otc'', ca_purpose = p, ca_atSequence = num n,
     ca_from = ''0:0'', ca_to = t\<rparr>"

text \<open>One restart moves both streams at one sequence, and the segment is accepted.\<close>

abbreviation demo_segment :: "unit replay_segment" where
  "demo_segment \<equiv> \<lparr>rs_snapshot = demo_snapshot, rs_advances =
     [demo_advance ''sign'' 12 ''64:0'', demo_advance ''arrival'' 12 ''70:0'',
      demo_advance ''sign'' 15 ''128:0'']\<rparr>"

theorem assertReplaySegment_iff_witness:
  "integral_advances (rs_advances demo_segment) \<and> assertReplaySegment demo_segment = Inr () \<and>
   \<not> sorted_wrt (\<lambda>a b. seq_of a < seq_of b) (rs_advances demo_segment)"
proof -
  have i: "integral_advances (rs_advances demo_segment)" by (simp add: integral_advances_def)
  show ?thesis using i assertReplaySegment_iff [OF i] by (simp add: advance_of_def)
qed

lemma apply_advances_filter:
  assumes "sorted_wrt advance_before as" "integral_advances as"
  shows "apply_advances as (num n) m =
    apply_advances (filter (\<lambda>a. seq_of a \<le> n) as) (num n) m"
  using assms
proof (induction as arbitrary: m)
  case (Cons a as)
  have i: "isInteger (ca_atSequence a)" "integral_advances as"
    using Cons.prems by (simp_all add: integral_advances_def)
  have lt: "js_lt (num n) (ca_atSequence a) \<longleftrightarrow> n < seq_of a"
    using js_lt_integral(1) [of "num n"] i(1) by simp
  show ?case
  proof (cases "seq_of a \<le> n")
    case True
    with Cons i lt show ?thesis by simp
  next
    case False
    then have "filter (\<lambda>b. seq_of b \<le> n) (a # as) = []"
      using Cons.prems(1) by (auto simp: filter_empty_conv)
    with False lt show ?thesis by simp
  qed
qed simp

lemma apply_advances_all:
  assumes "\<forall>a\<in>set as. isInteger (ca_atSequence a) \<and> seq_of a \<le> n"
  shows "apply_advances as (num n) m p = (case last_for as p of None \<Rightarrow> m p | Some a \<Rightarrow> Some (ca_to a))"
  using assms
proof (induction as arbitrary: m)
  case (Cons a as)
  have "\<not> js_lt (num n) (ca_atSequence a)"
    using js_lt_integral(1) [of "num n" "ca_atSequence a"] Cons.prems by simp
  with Cons show ?case by (auto simp: last_for_def Let_def)
qed (simp add: last_for_def)

text \<open> on an accepted segment the cursor of every stream at a sequence is where its last
  advance at or before that sequence moved it, and where the snapshot has it when there is
  none; a sequence before the snapshot is refused.\<close>

theorem cursorsAt_correct:
  assumes "integral_advances (rs_advances g)" "assertReplaySegment g = Inr ()"
  shows "cursorsAt g (num n) =
    (if js_lt (num n) (ss_sequence (rs_snapshot g)) then Inl (RangeError ''begins at'')
     else Inr (\<lambda>p. case rev (filter (\<lambda>a. seq_of a \<le> n \<and> ca_purpose a = p) (rs_advances g)) of
       [] \<Rightarrow> ss_cursors (rs_snapshot g) p | a # _ \<Rightarrow> Some (ca_to a)))"
proof -
  let ?as = "rs_advances g"
  have so: "sorted_wrt advance_before ?as"
    using assms(2) accepted_advances [OF assms(1)] unfolding accepted_fold by blast
  have spec: "(case last_for (filter (\<lambda>a. seq_of a \<le> n) ?as) p of None \<Rightarrow> d | Some a \<Rightarrow> Some (ca_to a)) =
      (case rev (filter (\<lambda>a. seq_of a \<le> n \<and> ca_purpose a = p) ?as) of [] \<Rightarrow> d | a # _ \<Rightarrow> Some (ca_to a))"
    for p d
  proof -
    let ?f = "filter (\<lambda>a. seq_of a \<le> n \<and> ca_purpose a = p) ?as"
    have "filter (\<lambda>a. ca_purpose a = p) (filter (\<lambda>a. seq_of a \<le> n) ?as) = ?f"
      by (simp add: conj_commute)
    then show ?thesis by (cases ?f rule: rev_cases) (simp_all add: last_for_def)
  qed
  have "apply_advances ?as (num n) m = (\<lambda>p. case last_for (filter (\<lambda>a. seq_of a \<le> n) ?as) p of
      None \<Rightarrow> m p | Some a \<Rightarrow> Some (ca_to a))" for m
    unfolding apply_advances_filter [OF so assms(1)]
    using assms(1) by (intro ext apply_advances_all) (auto simp: integral_advances_def)
  then show ?thesis by (simp add: cursorsAt_def assms(2) spec)
qed

theorem cursorsAt_correct_witness:
  "\<exists>c. cursorsAt demo_segment (num 14) = Inr c \<and> c ''sign'' = Some ''64:0'' \<and>
     c ''arrival'' = Some ''70:0''"
proof -
  have i: "integral_advances (rs_advances demo_segment)" by (simp add: integral_advances_def)
  have "assertReplaySegment demo_segment = Inr ()"
    by (simp add: assertReplaySegment_def Let_def check_advance_def)
  from cursorsAt_correct [OF i this, of 14] show ?thesis by simp
qed

end
