(* ===== verification/Chacha.thy ===== *)
theory Chacha
  imports "HOL-Library.Word" Prelude
begin

unbundle bit_operations_syntax

text \<open>
  The ChaCha20 block function: packages/core/src/entropy/chacha20.ts. The sixteen local
  variables \<^verbatim>\<open>x0 .. x15\<close> are the cells of a list of 32-bit words, and the eight runs of
  twelve statements inlined in the loop body are eight calls of one quarter round on the four
  variables each run touches. \<^verbatim>\<open>(a + b) | 0\<close> wraps as word addition does, and
  \<^verbatim>\<open>>>> 0\<close> is the reduction of an integer to a word.
\<close>

type_synonym byte = "8 word"

section \<open>Little-endian words\<close>

definition getUint32 :: "byte list \<Rightarrow> nat \<Rightarrow> 32 word" where
  "getUint32 bs i = ucast (bs ! i) OR push_bit 8 (ucast (bs ! (i + 1))) OR
     push_bit 16 (ucast (bs ! (i + 2))) OR push_bit 24 (ucast (bs ! (i + 3)))"

definition setUint32 :: "32 word \<Rightarrow> byte list" where
  "setUint32 w = [ucast w, ucast (drop_bit 8 w), ucast (drop_bit 16 w), ucast (drop_bit 24 w)]"

section \<open>Key and nonce\<close>

abbreviation CHACHA20_KEY_BYTES :: nat where "CHACHA20_KEY_BYTES \<equiv> 32"
abbreviation CHACHA20_NONCE_BYTES :: nat where "CHACHA20_NONCE_BYTES \<equiv> 12"
abbreviation CHACHA20_BLOCK_BYTES :: nat where "CHACHA20_BLOCK_BYTES \<equiv> 64"
abbreviation CHACHA20_ROUNDS :: nat where "CHACHA20_ROUNDS \<equiv> 20"

definition expandKey :: "byte list \<Rightarrow> (32 word list) result" where
  "expandKey key = (if length key \<noteq> CHACHA20_KEY_BYTES then Inl (RangeError ''ChaCha20 key'')
     else Inr (map (\<lambda>i. getUint32 key (i * 4)) [0..<8]))"

definition expandNonce :: "byte list \<Rightarrow> (32 word list) result" where
  "expandNonce nonce = (if length nonce \<noteq> CHACHA20_NONCE_BYTES then Inl (RangeError ''ChaCha20 nonce'')
     else Inr (map (\<lambda>i. getUint32 nonce (i * 4)) [0..<3]))"

section \<open>The block function\<close>

definition C0 :: "32 word" where "C0 = 0x61707865"
definition C1 :: "32 word" where "C1 = 0x3320646e"
definition C2 :: "32 word" where "C2 = 0x79622d32"
definition C3 :: "32 word" where "C3 = 0x6b206574"

definition rotl :: "nat \<Rightarrow> 32 word \<Rightarrow> 32 word" where
  "rotl n x = push_bit n x OR drop_bit (32 - n) x"

definition quarter ::
  "32 word \<Rightarrow> 32 word \<Rightarrow> 32 word \<Rightarrow> 32 word \<Rightarrow> 32 word \<times> 32 word \<times> 32 word \<times> 32 word" where
  "quarter a b c d =
     (let a = a + b; d = d XOR a; d = rotl 16 d;
          c = c + d; b = b XOR c; b = rotl 12 b;
          a = a + b; d = d XOR a; d = rotl 8 d;
          c = c + d; b = b XOR c; b = rotl 7 b
      in (a, b, c, d))"

definition quarter_at :: "nat \<Rightarrow> nat \<Rightarrow> nat \<Rightarrow> nat \<Rightarrow> 32 word list \<Rightarrow> 32 word list" where
  "quarter_at i j k l x = (case quarter (x ! i) (x ! j) (x ! k) (x ! l) of
     (a, b, c, d) \<Rightarrow> x[i := a, j := b, k := c, l := d])"

definition double_round :: "32 word list \<Rightarrow> 32 word list" where
  "double_round x =
     (let x = quarter_at 0 4 8 12 x; x = quarter_at 1 5 9 13 x;
          x = quarter_at 2 6 10 14 x; x = quarter_at 3 7 11 15 x;
          x = quarter_at 0 5 10 15 x; x = quarter_at 1 6 11 12 x;
          x = quarter_at 2 7 8 13 x; x = quarter_at 3 4 9 14 x
      in x)"

fun rounds_from :: "nat \<Rightarrow> 32 word list \<Rightarrow> 32 word list" where
  "rounds_from 0 x = x"
| "rounds_from (Suc n) x = rounds_from n (double_round x)"

definition chacha_input :: "32 word list \<Rightarrow> int \<Rightarrow> int \<Rightarrow> int \<Rightarrow> int \<Rightarrow> 32 word list" where
  "chacha_input k n0 n1 n2 counter =
     [C0, C1, C2, C3, k ! 0, k ! 1, k ! 2, k ! 3, k ! 4, k ! 5, k ! 6, k ! 7,
      word_of_int counter, word_of_int n0, word_of_int n1, word_of_int n2]"

definition chacha20Block :: "32 word list \<Rightarrow> int \<Rightarrow> int \<Rightarrow> int \<Rightarrow> int \<Rightarrow> byte list" where
  "chacha20Block k n0 n1 n2 counter =
     (let s = chacha_input k n0 n1 n2 counter;
          x = rounds_from (CHACHA20_ROUNDS div 2) s
      in concat (map2 (\<lambda>v w. setUint32 (v + w)) x s))"

lemma C_simps: "C0 = 0x61707865" "C1 = 0x3320646e" "C2 = 0x79622d32" "C3 = 0x6b206574"
  by (simp_all add: C0_def C1_def C2_def C3_def)

section \<open>Bytes and words\<close>

lemma length_setUint32 [simp]: "length (setUint32 w) = 4"
  by (simp add: setUint32_def)

lemma getUint32_setUint32: "getUint32 (setUint32 w) 0 = w"
proof (rule bit_word_eqI)
  fix n assume "n < LENGTH(32)"
  then show "bit (getUint32 (setUint32 w) 0) n = bit w n"
    by (cases "n < 8"; cases "n < 16"; cases "n < 24")
       (auto simp: getUint32_def setUint32_def bit_simps)
qed

lemma setUint32_getUint32: "setUint32 (getUint32 [a, b, c, d] 0) = [a, b, c, d]"
proof -
  let ?w = "getUint32 [a, b, c, d] 0"
  have "ucast ?w = a" "ucast (drop_bit 8 ?w) = b" "ucast (drop_bit 16 ?w) = c"
    "ucast (drop_bit 24 ?w) = d"
    by (rule bit_word_eqI; auto simp: getUint32_def bit_simps dest: bit_imp_le_length)+
  then show ?thesis by (simp add: setUint32_def)
qed

lemma getUint32_at: "getUint32 (xs @ ys) (length xs + i) = getUint32 ys i"
  by (simp add: getUint32_def nth_append)

lemma getUint32_prefix: "i + 4 \<le> length xs \<Longrightarrow> getUint32 (xs @ ys) i = getUint32 xs i"
  by (simp add: getUint32_def nth_append)

lemma getUint32_slice: "i + 4 \<le> length bs \<Longrightarrow> getUint32 bs i = getUint32 (take 4 (drop i bs)) 0"
  by (simp add: getUint32_def)

text \<open>Reading the words of a serialised list gives the list back, wherever it starts.\<close>

lemma length_concat_words [simp]: "length (concat (map setUint32 ws)) = 4 * length ws"
  by (induction ws) simp_all

lemma getUint32_concat:
  "i < length ws \<Longrightarrow> getUint32 (concat (map setUint32 ws)) (i * 4) = ws ! i"
proof (induction ws arbitrary: i)
  case (Cons w ws)
  show ?case
  proof (cases i)
    case 0
    then show ?thesis using getUint32_prefix [of 0 "setUint32 w"] by (simp add: getUint32_setUint32)
  next
    case (Suc j)
    then show ?thesis
      using Cons getUint32_at [of "setUint32 w" "concat (map setUint32 ws)" "j * 4"] by simp
  qed
qed simp

section \<open>The rounds are a permutation\<close>

lemma rotl_inverse: "0 < n \<Longrightarrow> n < 32 \<Longrightarrow> rotl (32 - n) (rotl n x) = x"
  by (rule bit_word_eqI) (auto simp: rotl_def bit_simps)

lemmas rotl_undo = rotl_inverse [of 16, simplified] rotl_inverse [of 12, simplified]
  rotl_inverse [of 8, simplified] rotl_inverse [of 7, simplified]

lemma xor_cancel: "(x XOR y) XOR y = (x :: 32 word)"
  by (simp add: xor.assoc)

definition unquarter ::
  "32 word \<Rightarrow> 32 word \<Rightarrow> 32 word \<Rightarrow> 32 word \<Rightarrow> 32 word \<times> 32 word \<times> 32 word \<times> 32 word" where
  "unquarter a b c d =
     (let b = rotl 25 b XOR c; c = c - d; d = rotl 24 d XOR a; a = a - b;
          b = rotl 20 b XOR c; c = c - d; d = rotl 16 d XOR a; a = a - b
      in (a, b, c, d))"

lemma unquarter_quarter:
  "(case quarter a b c d of (a', b', c', d') \<Rightarrow> unquarter a' b' c' d') = (a, b, c, d)"
  by (simp add: quarter_def unquarter_def Let_def rotl_undo xor_cancel)

definition unquarter_at :: "nat \<Rightarrow> nat \<Rightarrow> nat \<Rightarrow> nat \<Rightarrow> 32 word list \<Rightarrow> 32 word list" where
  "unquarter_at i j k l x = (case unquarter (x ! i) (x ! j) (x ! k) (x ! l) of
     (a, b, c, d) \<Rightarrow> x[i := a, j := b, k := c, l := d])"

lemma length_quarter_at [simp]: "length (quarter_at i j k l x) = length x"
  by (simp add: quarter_at_def split: prod.split)

lemma unquarter_at_quarter_at:
  assumes "distinct [i, j, k, l]" "i < length x" "j < length x" "k < length x" "l < length x"
  shows "unquarter_at i j k l (quarter_at i j k l x) = x"
proof -
  obtain a b c d where q: "quarter (x ! i) (x ! j) (x ! k) (x ! l) = (a, b, c, d)"
    by (metis prod_cases4)
  then have u: "unquarter a b c d = (x ! i, x ! j, x ! k, x ! l)"
    using unquarter_quarter [of "x ! i" "x ! j" "x ! k" "x ! l"] by simp
  show ?thesis
    using assms by (intro nth_equalityI) (auto simp: quarter_at_def unquarter_at_def q u nth_list_update)
qed

definition undouble_round :: "32 word list \<Rightarrow> 32 word list" where
  "undouble_round x =
     (let x = unquarter_at 3 4 9 14 x; x = unquarter_at 2 7 8 13 x;
          x = unquarter_at 1 6 11 12 x; x = unquarter_at 0 5 10 15 x;
          x = unquarter_at 3 7 11 15 x; x = unquarter_at 2 6 10 14 x;
          x = unquarter_at 1 5 9 13 x; x = unquarter_at 0 4 8 12 x
      in x)"

lemma undouble_double: "length x = 16 \<Longrightarrow> undouble_round (double_round x) = x"
  by (simp add: undouble_round_def double_round_def Let_def unquarter_at_quarter_at)

lemma length_double_round [simp]: "length (double_round x) = length x"
  by (simp add: double_round_def Let_def)

lemma length_rounds [simp]: "length (rounds_from n x) = length x"
  by (induction n arbitrary: x) simp_all

lemma rounds_inject:
  "length x = 16 \<Longrightarrow> length y = 16 \<Longrightarrow> rounds_from n x = rounds_from n y \<longleftrightarrow> x = y"
proof (induction n arbitrary: x y)
  case (Suc n)
  have "double_round x = double_round y \<longleftrightarrow> x = y"
    using Suc.prems undouble_double by metis
  with Suc show ?case by simp
qed simp

lemma length_chacha_input [simp]: "length (chacha_input k n0 n1 n2 counter) = 16"
  by (simp add: chacha_input_def)

text \<open>The block as the serialisation of the mixed words.\<close>

lemma chacha20Block_words:
  "chacha20Block k n0 n1 n2 counter = concat (map setUint32
     (map2 (+) (rounds_from (CHACHA20_ROUNDS div 2) (chacha_input k n0 n1 n2 counter))
        (chacha_input k n0 n1 n2 counter)))"
proof -
  have "map2 (\<lambda>v w. setUint32 (v + w)) xs ys = map setUint32 (map2 (+) xs ys)" for xs ys
    by (simp add: comp_def case_prod_beta)
  then show ?thesis by (simp only: chacha20Block_def Let_def)
qed

lemma length_chacha20Block: "length (chacha20Block k n0 n1 n2 counter) = CHACHA20_BLOCK_BYTES"
  by (simp add: chacha20Block_words del: map_map)

section \<open>The published test vector\<close>

text \<open>The state of RFC 8439, section 2.3.2, after each of the ten double rounds.\<close>

lemma rfc_round_1: "double_round
    [0x61707865, 0x3320646e, 0x79622d32, 0x6b206574, 0x03020100, 0x07060504, 0x0b0a0908, 0x0f0e0d0c,
     0x13121110, 0x17161514, 0x1b1a1918, 0x1f1e1d1c, 0x00000001, 0x09000000, 0x4a000000, 0x00000000] =
    [0xcd52e917, 0x85ab03b4, 0xb3457395, 0xf96de7dd, 0xc4b7cd22, 0x5c2e187a, 0xc95eb461, 0x316c801a,
     0x7bf7d740, 0x7eddd644, 0xf1a1bdf5, 0x761246ca, 0x6b0d58a3, 0x6798471a, 0xd737f167, 0xf173888d]"
  by code_simp

lemma rfc_round_2: "double_round
    [0xcd52e917, 0x85ab03b4, 0xb3457395, 0xf96de7dd, 0xc4b7cd22, 0x5c2e187a, 0xc95eb461, 0x316c801a,
     0x7bf7d740, 0x7eddd644, 0xf1a1bdf5, 0x761246ca, 0x6b0d58a3, 0x6798471a, 0xd737f167, 0xf173888d] =
    [0xcf1a7584, 0x048927ec, 0x54051fda, 0xc244ff28, 0x901d2f40, 0x7974b81c, 0x378dcfb4, 0xcd47fd0e,
     0x2dafb216, 0x27c89cd6, 0xcd3c9aa0, 0x79fc89c7, 0x10aef18d, 0x16218765, 0x68f76705, 0x04d6ee22]"
  by code_simp

lemma rfc_round_3: "double_round
    [0xcf1a7584, 0x048927ec, 0x54051fda, 0xc244ff28, 0x901d2f40, 0x7974b81c, 0x378dcfb4, 0xcd47fd0e,
     0x2dafb216, 0x27c89cd6, 0xcd3c9aa0, 0x79fc89c7, 0x10aef18d, 0x16218765, 0x68f76705, 0x04d6ee22] =
    [0x03a14032, 0x66b15927, 0x9d6b6b42, 0xb84c4109, 0xa7143ae0, 0xa09b33dd, 0xa5daaf88, 0x2fd91a73,
     0xc90c6b18, 0x5a202413, 0xc20e01b6, 0x72cd6b74, 0xba35d777, 0xb360f1bf, 0x8178315b, 0x2cd11b1a]"
  by code_simp

lemma rfc_round_4: "double_round
    [0x03a14032, 0x66b15927, 0x9d6b6b42, 0xb84c4109, 0xa7143ae0, 0xa09b33dd, 0xa5daaf88, 0x2fd91a73,
     0xc90c6b18, 0x5a202413, 0xc20e01b6, 0x72cd6b74, 0xba35d777, 0xb360f1bf, 0x8178315b, 0x2cd11b1a] =
    [0x9a2d3589, 0x0b23fc4e, 0x40af3b6b, 0xceea8144, 0x0a1bffc6, 0x5e5993f7, 0x9904c2e7, 0x0d334718,
     0xe46c6354, 0xc9503229, 0x04fef5aa, 0xf8933f72, 0x2687d476, 0x54e65231, 0x3594ffc5, 0x2b3bb2ca]"
  by code_simp

lemma rfc_round_5: "double_round
    [0x9a2d3589, 0x0b23fc4e, 0x40af3b6b, 0xceea8144, 0x0a1bffc6, 0x5e5993f7, 0x9904c2e7, 0x0d334718,
     0xe46c6354, 0xc9503229, 0x04fef5aa, 0xf8933f72, 0x2687d476, 0x54e65231, 0x3594ffc5, 0x2b3bb2ca] =
    [0xc53318c5, 0xca325d96, 0x7e7d11cb, 0x3404e2ca, 0x26d7cf73, 0x6088d379, 0xc0f0e9bd, 0xe310cdb9,
     0xae2ca8db, 0x42f67c72, 0x71669aca, 0x975c171d, 0x9e5ec228, 0x7d85a9f3, 0x201d0756, 0x63fa6953]"
  by code_simp

lemma rfc_round_6: "double_round
    [0xc53318c5, 0xca325d96, 0x7e7d11cb, 0x3404e2ca, 0x26d7cf73, 0x6088d379, 0xc0f0e9bd, 0xe310cdb9,
     0xae2ca8db, 0x42f67c72, 0x71669aca, 0x975c171d, 0x9e5ec228, 0x7d85a9f3, 0x201d0756, 0x63fa6953] =
    [0x04a3131a, 0x66176309, 0x0415bab1, 0x61b880a2, 0x36cc86c7, 0xbf8a4465, 0xf77dd720, 0xfc0bdc90,
     0x07d13aca, 0xeb0be9af, 0x61599491, 0x918512dc, 0x33b6686d, 0x795cc671, 0xc0049972, 0xa0a81bde]"
  by code_simp

lemma rfc_round_7: "double_round
    [0x04a3131a, 0x66176309, 0x0415bab1, 0x61b880a2, 0x36cc86c7, 0xbf8a4465, 0xf77dd720, 0xfc0bdc90,
     0x07d13aca, 0xeb0be9af, 0x61599491, 0x918512dc, 0x33b6686d, 0x795cc671, 0xc0049972, 0xa0a81bde] =
    [0x9b70f51f, 0x7ea8ac11, 0x21e54da9, 0xca393b2f, 0x93b08686, 0x6a4c50ae, 0x19212a5a, 0x9b032958,
     0xd839165e, 0x4c06e28a, 0xd3fde99e, 0x26acc13d, 0xa609f555, 0x2c246549, 0x95151853, 0x2c847a0d]"
  by code_simp

lemma rfc_round_8: "double_round
    [0x9b70f51f, 0x7ea8ac11, 0x21e54da9, 0xca393b2f, 0x93b08686, 0x6a4c50ae, 0x19212a5a, 0x9b032958,
     0xd839165e, 0x4c06e28a, 0xd3fde99e, 0x26acc13d, 0xa609f555, 0x2c246549, 0x95151853, 0x2c847a0d] =
    [0xca5c85dd, 0x93a4f90e, 0xd9f0df58, 0x26dd82dd, 0x982563f8, 0x712aa9ff, 0x279a61e8, 0x970f72bd,
     0x1c25931a, 0x5180bb10, 0x779c27e7, 0x54077e08, 0xa9b751fb, 0x382f3ce2, 0x8db1757d, 0xcc38080b]"
  by code_simp

lemma rfc_round_9: "double_round
    [0xca5c85dd, 0x93a4f90e, 0xd9f0df58, 0x26dd82dd, 0x982563f8, 0x712aa9ff, 0x279a61e8, 0x970f72bd,
     0x1c25931a, 0x5180bb10, 0x779c27e7, 0x54077e08, 0xa9b751fb, 0x382f3ce2, 0x8db1757d, 0xcc38080b] =
    [0xb6b87de6, 0x9a016148, 0x93859815, 0x4915e6cc, 0xdc33c122, 0x98e18fa3, 0x5ffbe8fc, 0xf7154b8b,
     0x28c1fcb3, 0xc4b38f9d, 0x83e2f5d7, 0x7d24b98b, 0x21078b22, 0xb193e7a3, 0xb2f49389, 0x6cde6026]"
  by code_simp

lemma rfc_round_10: "double_round
    [0xb6b87de6, 0x9a016148, 0x93859815, 0x4915e6cc, 0xdc33c122, 0x98e18fa3, 0x5ffbe8fc, 0xf7154b8b,
     0x28c1fcb3, 0xc4b38f9d, 0x83e2f5d7, 0x7d24b98b, 0x21078b22, 0xb193e7a3, 0xb2f49389, 0x6cde6026] =
    [0x837778ab, 0xe238d763, 0xa67ae21e, 0x5950bb2f, 0xc4f2d0c7, 0xfc62bb2f, 0x8fa018fc, 0x3f5ec7b7,
     0x335271c2, 0xf29489f3, 0xeabda8fc, 0x82e46ebd, 0xd19c12b4, 0xb04e16de, 0x9e83d0cb, 0x4e3c50a2]"
  by code_simp

lemmas rfc_rounds = rfc_round_1 rfc_round_2 rfc_round_3 rfc_round_4 rfc_round_5
  rfc_round_6 rfc_round_7 rfc_round_8 rfc_round_9 rfc_round_10

lemma rfc_key: "expandKey (map of_nat [0..<32]) = Inr
    [0x03020100, 0x07060504, 0x0b0a0908, 0x0f0e0d0c, 0x13121110, 0x17161514, 0x1b1a1918, 0x1f1e1d1c]"
  by code_simp

text \<open> the block function computes the keystream block of RFC 8439 section 2.3.2, byte for
  byte, from the key and the nonce of the standard.\<close>

theorem chacha20Block_rfc8439:
  "andThen (expandKey (map of_nat [0..<32])) (\<lambda>k. Inr (chacha20Block k 0x09000000 0x4a000000 0 1)) = Inr
   [0x10, 0xf1, 0xe7, 0xe4, 0xd1, 0x3b, 0x59, 0x15, 0x50, 0x0f, 0xdd, 0x1f, 0xa3, 0x20, 0x71, 0xc4,
    0xc7, 0xd1, 0xf4, 0xc7, 0x33, 0xc0, 0x68, 0x03, 0x04, 0x22, 0xaa, 0x9a, 0xc3, 0xd4, 0x6c, 0x4e,
    0xd2, 0x82, 0x64, 0x46, 0x07, 0x9f, 0xaa, 0x09, 0x14, 0xc2, 0xd7, 0x05, 0xd9, 0x8b, 0x02, 0xa2,
    0xb5, 0x12, 0x9c, 0xd1, 0xde, 0x16, 0x4e, 0xb9, 0xcb, 0xd0, 0x83, 0xe8, 0xa2, 0x50, 0x3c, 0x4e]"
proof -
  have i: "chacha_input [0x03020100, 0x07060504, 0x0b0a0908, 0x0f0e0d0c, 0x13121110, 0x17161514,
      0x1b1a1918, 0x1f1e1d1c] 0x09000000 0x4a000000 0 1 =
    [0x61707865, 0x3320646e, 0x79622d32, 0x6b206574, 0x03020100, 0x07060504, 0x0b0a0908, 0x0f0e0d0c,
     0x13121110, 0x17161514, 0x1b1a1918, 0x1f1e1d1c, 0x00000001, 0x09000000, 0x4a000000, 0x00000000]"
    by code_simp
  have t: "CHACHA20_ROUNDS div 2 = Suc (Suc (Suc (Suc (Suc (Suc (Suc (Suc (Suc (Suc 0)))))))))"
    by simp
  show ?thesis
    unfolding rfc_key andThen.simps chacha20Block_def i Let_def t rounds_from.simps rfc_rounds
    by code_simp
qed

text \<open>The twenty rounds lose nothing: two inputs reach the same state only if they are the
  same key and the same nonce and counter words, so the state added back at the end is the
  only step that makes a block one-way.\<close>

theorem chacha_rounds_injective:
  assumes "length k = 8" "length k' = 8"
  shows "rounds_from (CHACHA20_ROUNDS div 2) (chacha_input k n0 n1 n2 c) =
      rounds_from (CHACHA20_ROUNDS div 2) (chacha_input k' m0 m1 m2 c') \<longleftrightarrow>
    k = k' \<and> n0 mod 2 ^ 32 = m0 mod 2 ^ 32 \<and> n1 mod 2 ^ 32 = m1 mod 2 ^ 32 \<and>
    n2 mod 2 ^ 32 = m2 mod 2 ^ 32 \<and> c mod 2 ^ 32 = c' mod 2 ^ 32"
proof -
  have w: "(word_of_int a :: 32 word) = word_of_int b \<longleftrightarrow> a mod 2 ^ 32 = b mod 2 ^ 32" for a b
    by (simp add: word_of_int_eq_iff take_bit_eq_mod)
  have k: "k = k' \<longleftrightarrow> (\<forall>i<8. k ! i = k' ! i)"
    using assms by (auto intro: nth_equalityI)
  have a: "(\<forall>i<8. P i) \<longleftrightarrow> P 0 \<and> P 1 \<and> P 2 \<and> P 3 \<and> P 4 \<and> P 5 \<and> P 6 \<and> P (7::nat)" for P
  proof
    assume h: "P 0 \<and> P 1 \<and> P 2 \<and> P 3 \<and> P 4 \<and> P 5 \<and> P 6 \<and> P (7::nat)"
    have "i \<in> {0, 1, 2, 3, 4, 5, 6, 7}" if "i < 8" for i :: nat using that by auto
    with h show "\<forall>i<8. P i" by blast
  qed simp
  show ?thesis
    unfolding k a rounds_inject [OF length_chacha_input length_chacha_input]
    by (simp only: chacha_input_def list.inject w) blast
qed

theorem chacha_rounds_injective_witness:
  "length (replicate 8 (1::32 word)) = 8 \<and>
   rounds_from (CHACHA20_ROUNDS div 2) (chacha_input (replicate 8 1) 0 0 0 7) \<noteq>
   rounds_from (CHACHA20_ROUNDS div 2) (chacha_input (replicate 8 1) 0 0 1 7)"
  using chacha_rounds_injective [of "replicate 8 1" "replicate 8 1" 0 0 0 7 0 0 1 7] by simp

text \<open>Key expansion reads back exactly the words a little-endian writer stored, and it
  refuses a key of any length but 32 bytes.\<close>

theorem expandKey_roundtrip:
  "length ws = 8 \<Longrightarrow> expandKey (concat (map setUint32 ws)) = Inr ws \<and>
   (length key \<noteq> 32 \<longrightarrow> expandKey key = Inl (RangeError ''ChaCha20 key''))"
  by (auto simp: expandKey_def getUint32_concat intro: nth_equalityI)

theorem expandKey_roundtrip_witness:
  "length [1, 2, 3, 4, 5, 6, 7, 0xfffefdfc :: 32 word] = 8 \<and>
   expandKey (concat (map setUint32 [1, 2, 3, 4, 5, 6, 7, 0xfffefdfc])) =
     Inr [1, 2, 3, 4, 5, 6, 7, 0xfffefdfc] \<and>
   expandKey [] = Inl (RangeError ''ChaCha20 key'')"
  using expandKey_roundtrip [of "[1, 2, 3, 4, 5, 6, 7, 0xfffefdfc]" "[]"] by simp

end
