(* ===== verification/Stream.thy ===== *)
theory Stream
  imports JsNumber Chacha
begin

unbundle bit_operations_syntax

text \<open>
  The seekable random stream: packages/core/src/entropy/stream.ts. A cursor is a 64-byte block
  index and a byte offset inside it; a stream is a key, a cursor and the block it last computed,
  kept with the index it belongs to. The interface the stream needs of its cipher is a function
  from block indices to blocks of 64 bytes (locale \<open>keystream\<close>), which the ChaCha20 block
  function provides; the theory shows that every draw reads the next bytes of that one
  keystream, however the draws are cut.

  A throw ends the run of the model: the position a stream is left at after a throw is not
  modelled, and nor is the engine's limit on the length of an array.
\<close>

section \<open>Cursors\<close>

record stream_cursor =
  cu_blockIndex :: int
  cu_byteOffset :: int

definition MAX_BLOCK_INDEX :: int where
  "MAX_BLOCK_INDEX = 2 ^ 64 - 1"

definition assertCursor :: "int \<Rightarrow> jsnum \<Rightarrow> unit result" where
  "assertCursor blockIndex byteOffset =
     (if blockIndex < 0 \<or> MAX_BLOCK_INDEX < blockIndex then Inl (RangeError ''Block index'')
      else if \<not> isInteger byteOffset \<or> js_lt byteOffset (num 0) \<or>
        js_le (num (int CHACHA20_BLOCK_BYTES)) byteOffset then Inl (RangeError ''Byte offset'')
      else Inr ())"

definition cursor :: "int \<Rightarrow> jsnum \<Rightarrow> stream_cursor result" where
  "cursor blockIndex byteOffset = andThen (assertCursor blockIndex byteOffset)
     (\<lambda>_. Inr \<lparr>cu_blockIndex = blockIndex, cu_byteOffset = int_of byteOffset\<rparr>)"

text \<open>Decimal notation, as \<^verbatim>\<open>toString(10)\<close> writes it and the two conversions read it.\<close>

definition digit :: "nat \<Rightarrow> char" where
  "digit n = char_of (48 + n)"

definition is_digit :: "char \<Rightarrow> bool" where
  "is_digit c \<longleftrightarrow> 48 \<le> (of_char c :: nat) \<and> (of_char c :: nat) \<le> 57"

fun dec_nat :: "nat \<Rightarrow> string" where
  "dec_nat n = (if n < 10 then [digit n] else dec_nat (n div 10) @ [digit (n mod 10)])"

declare dec_nat.simps [simp del]

definition dec_int :: "int \<Rightarrow> string" where
  "dec_int n = (if n < 0 then CHR ''-'' # dec_nat (nat (- n)) else dec_nat (nat n))"

definition dec_value :: "string \<Rightarrow> nat" where
  "dec_value ds = foldl (\<lambda>n c. 10 * n + (of_char c - 48)) 0 ds"

definition formatCursor :: "stream_cursor \<Rightarrow> string" where
  "formatCursor c = dec_int (cu_blockIndex c) @ '':'' @ dec_int (cu_byteOffset c)"

definition parseCursor :: "string \<Rightarrow> stream_cursor result" where
  "parseCursor text =
     (let a = takeWhile is_digit text in
      case dropWhile is_digit text of
        [] \<Rightarrow> Inl (RangeError ''Malformed cursor'')
      | c # b \<Rightarrow>
          if a \<noteq> [] \<and> c = CHR '':'' \<and> b \<noteq> [] \<and> list_all is_digit b
          then cursor (int (dec_value a)) (js_of_rat (of_nat (dec_value b)))
          else Inl (RangeError ''Malformed cursor''))"

section \<open>The stream\<close>

record random_stream =
  st_keyWords :: "32 word list"
  st_label :: string
  st_buffer :: "byte list"
  st_blockIndex :: int
  st_byteOffset :: int
  st_bufferedBlock :: "int option"
  st_blocksGenerated :: int

definition new_RandomStream :: "byte list \<Rightarrow> string \<Rightarrow> stream_cursor \<Rightarrow> random_stream result" where
  "new_RandomStream key label start = andThen (expandKey key) (\<lambda>k.
     andThen (assertCursor (cu_blockIndex start) (num (cu_byteOffset start))) (\<lambda>_.
     Inr \<lparr>st_keyWords = k, st_label = label, st_buffer = replicate CHACHA20_BLOCK_BYTES 0,
       st_blockIndex = cu_blockIndex start, st_byteOffset = cu_byteOffset start,
       st_bufferedBlock = None, st_blocksGenerated = 0\<rparr>))"

definition position :: "random_stream \<Rightarrow> stream_cursor" where
  "position s = \<lparr>cu_blockIndex = st_blockIndex s, cu_byteOffset = st_byteOffset s\<rparr>"

definition seek :: "random_stream \<Rightarrow> stream_cursor \<Rightarrow> random_stream result" where
  "seek s target = andThen (assertCursor (cu_blockIndex target) (num (cu_byteOffset target))) (\<lambda>_.
     Inr (s\<lparr>st_blockIndex := cu_blockIndex target, st_byteOffset := cu_byteOffset target\<rparr>))"

definition fill :: "random_stream \<Rightarrow> random_stream result" where
  "fill s =
     (if st_bufferedBlock s = Some (st_blockIndex s) then Inr s
      else if MAX_BLOCK_INDEX < st_blockIndex s then Inl (RangeError ''exhausted'')
      else let counter = st_blockIndex s AND 0xffffffff; high = drop_bit 32 (st_blockIndex s) in
        Inr (s\<lparr>st_buffer := chacha20Block (st_keyWords s) 0 0 high counter,
               st_bufferedBlock := Some (st_blockIndex s),
               st_blocksGenerated := st_blocksGenerated s + 1\<rparr>))"

function carry :: "random_stream \<Rightarrow> random_stream" where
  "carry s = (if int CHACHA20_BLOCK_BYTES \<le> st_byteOffset s
     then carry (s\<lparr>st_byteOffset := st_byteOffset s - int CHACHA20_BLOCK_BYTES,
                   st_blockIndex := st_blockIndex s + 1\<rparr>)
     else s)"
  by pat_completeness auto
termination
  by (relation "measure (\<lambda>s. nat (st_byteOffset s))") auto

declare carry.simps [simp del]

definition advance :: "random_stream \<Rightarrow> int \<Rightarrow> random_stream" where
  "advance s bytes = carry (s\<lparr>st_byteOffset := st_byteOffset s + bytes\<rparr>)"

partial_function (option) next_bytes_loop ::
  "random_stream \<Rightarrow> int \<Rightarrow> int \<Rightarrow> byte list \<Rightarrow> (random_stream \<times> byte list) result option" where
  "next_bytes_loop s count written out =
     (if written < count then
        (case fill s of
           Inl e \<Rightarrow> Some (Inl e)
         | Inr s1 \<Rightarrow>
             let available = int CHACHA20_BLOCK_BYTES - st_byteOffset s1;
                 tk = min available (count - written) in
             next_bytes_loop (advance s1 tk) count (written + tk)
               (out @ take (nat tk) (drop (nat (st_byteOffset s1)) (st_buffer s1))))
      else Some (Inr (s, out)))"

definition nextBytes :: "random_stream \<Rightarrow> jsnum \<Rightarrow> (random_stream \<times> byte list) result option" where
  "nextBytes s count = (if \<not> isInteger count \<or> js_lt count (num 0) then Some (Inl (RangeError ''Byte count''))
     else next_bytes_loop s (int_of count) 0 [])"

text \<open>Sequencing computations that may throw and may not return.\<close>

fun bindO :: "'a result option \<Rightarrow> ('a \<Rightarrow> 'b result option) \<Rightarrow> 'b result option" where
  "bindO None f = None"
| "bindO (Some (Inl e)) f = Some (Inl e)"
| "bindO (Some (Inr a)) f = f a"

definition nextUint32 :: "random_stream \<Rightarrow> (random_stream \<times> int) result option" where
  "nextUint32 s0 = bindO (Some (fill s0)) (\<lambda>s.
     if st_byteOffset s + 4 \<le> int CHACHA20_BLOCK_BYTES
     then Some (Inr (advance s 4, uint (getUint32 (st_buffer s) (nat (st_byteOffset s)))))
     else bindO (nextBytes s (num 4)) (\<lambda>(s', bs).
       Some (Inr (s', uint ((ucast (bs ! 0) :: 32 word) OR push_bit 8 (ucast (bs ! 1)) OR
         push_bit 16 (ucast (bs ! 2)) OR push_bit 24 (ucast (bs ! 3)))))))"

definition nextUint64 :: "random_stream \<Rightarrow> (random_stream \<times> int) result option" where
  "nextUint64 s0 = bindO (nextUint32 s0) (\<lambda>(s1, lo). bindO (nextUint32 s1) (\<lambda>(s2, hi).
     Some (Inr (s2, push_bit 32 hi OR lo))))"

definition nextFloat64 :: "random_stream \<Rightarrow> (random_stream \<times> jsnum) result option" where
  "nextFloat64 s0 = bindO (nextUint32 s0) (\<lambda>(s1, u). let a = drop_bit 5 u in
     bindO (nextUint32 s1) (\<lambda>(s2, v). let b = drop_bit 6 v in
     Some (Inr (s2, js_div (js_add (js_mul (num a) (num (2 ^ 26))) (num b)) (num (2 ^ 53))))))"

definition nextBoolean :: "random_stream \<Rightarrow> (random_stream \<times> bool) result option" where
  "nextBoolean s0 = bindO (nextUint32 s0) (\<lambda>(s1, u). Some (Inr (s1, u AND 1 = 1)))"

partial_function (option) bounded_loop ::
  "random_stream \<Rightarrow> int \<Rightarrow> int \<Rightarrow> (random_stream \<times> int) result option" where
  "bounded_loop s limit bound =
     (case nextUint32 s of
        None \<Rightarrow> None
      | Some (Inl e) \<Rightarrow> Some (Inl e)
      | Some (Inr (s', draw)) \<Rightarrow>
          if draw < limit then Some (Inr (s', draw mod bound)) else bounded_loop s' limit bound)"

definition nextBoundedUint32 :: "random_stream \<Rightarrow> jsnum \<Rightarrow> (random_stream \<times> int) result option" where
  "nextBoundedUint32 s bound =
     (if \<not> isInteger bound \<or> js_le bound (num 0) \<or> js_lt (num (2 ^ 32)) bound
      then Some (Inl (RangeError ''Bound''))
      else if js_eq bound (num (2 ^ 32)) then nextUint32 s
      else let b = int_of bound; limit = 2 ^ 32 - 2 ^ 32 mod b in bounded_loop s limit b)"

section \<open>The keystream interface\<close>

text \<open>The bytes of a keystream from a position, read one by one.\<close>

definition ks_bytes :: "(int \<Rightarrow> byte list) \<Rightarrow> int \<Rightarrow> nat \<Rightarrow> byte list" where
  "ks_bytes blk p n = map (\<lambda>i. blk ((p + int i) div 64) ! nat ((p + int i) mod 64)) [0..<n]"

locale keystream =
  fixes blk :: "int \<Rightarrow> byte list"
  assumes block_length: "length (blk b) = CHACHA20_BLOCK_BYTES"
begin

lemma length_ks_bytes: "length (ks_bytes blk p n) = n"
  by (simp add: ks_bytes_def)

text \<open>Reading in two pieces is reading once.\<close>

lemma ks_append: "ks_bytes blk p m @ ks_bytes blk (p + int m) n = ks_bytes blk p (m + n)"
  by (rule nth_equalityI) (auto simp: ks_bytes_def nth_append add.assoc)

text \<open>A slice of one block is a piece of the keystream.\<close>

lemma slice_block:
  assumes "0 \<le> off" "off + int n \<le> 64"
  shows "take n (drop (nat off) (blk b)) = ks_bytes blk (64 * b + off) n"
proof (rule nth_equalityI)
  show "length (take n (drop (nat off) (blk b))) = length (ks_bytes blk (64 * b + off) n)"
    using assms by (simp add: ks_bytes_def block_length)
  fix i assume "i < length (take n (drop (nat off) (blk b)))"
  then have i: "i < n" by simp
  have "(64 * b + off + int i) div 64 = b" "(64 * b + off + int i) mod 64 = off + int i"
    using assms i by (simp_all add: add.assoc)
  then show "take n (drop (nat off) (blk b)) ! i = ks_bytes blk (64 * b + off) n ! i"
    using assms i by (simp add: ks_bytes_def block_length nat_add_distrib)
qed

end

definition stream_block :: "32 word list \<Rightarrow> int \<Rightarrow> byte list" where
  "stream_block k b = chacha20Block k 0 0 (drop_bit 32 b) (b AND 0xffffffff)"

interpretation chacha: keystream "stream_block k" for k
  by unfold_locales (simp add: stream_block_def length_chacha20Block)

section \<open>What a stream holds\<close>

definition stream_pos :: "random_stream \<Rightarrow> int" where
  "stream_pos s = 64 * st_blockIndex s + st_byteOffset s"

abbreviation STREAM_END :: int where
  "STREAM_END \<equiv> 64 * 2 ^ 64"

definition stream_ok :: "random_stream \<Rightarrow> bool" where
  "stream_ok s \<longleftrightarrow> 0 \<le> st_blockIndex s \<and> 0 \<le> st_byteOffset s \<and> st_byteOffset s < 64 \<and>
     stream_pos s \<le> STREAM_END \<and>
     (\<forall>b. st_bufferedBlock s = Some b \<longrightarrow>
        b \<le> MAX_BLOCK_INDEX \<and> st_buffer s = stream_block (st_keyWords s) b)"

text \<open>\<open>s'\<close> is \<open>s\<close> moved on by \<open>n\<close> bytes.\<close>

definition moved :: "random_stream \<Rightarrow> int \<Rightarrow> random_stream \<Rightarrow> bool" where
  "moved s n s' \<longleftrightarrow> stream_ok s' \<and> st_keyWords s' = st_keyWords s \<and> st_label s' = st_label s \<and>
     stream_pos s' = stream_pos s + n"

abbreviation bytes_at :: "random_stream \<Rightarrow> nat \<Rightarrow> byte list" where
  "bytes_at s n \<equiv> ks_bytes (stream_block (st_keyWords s)) (stream_pos s) n"

lemma moved_trans: "moved s m s1 \<Longrightarrow> moved s1 n s2 \<Longrightarrow> moved s (m + n) s2"
  by (simp add: moved_def)

lemma bytes_at_moved: "moved s (int m) s1 \<Longrightarrow> bytes_at s m @ bytes_at s1 n = bytes_at s (m + n)"
  by (simp add: moved_def chacha.ks_append)

lemma stream_ok_pos:
  assumes "stream_ok s"
  shows "st_blockIndex s = stream_pos s div 64" "st_byteOffset s = stream_pos s mod 64"
    "0 \<le> stream_pos s"
  using assms by (simp_all add: stream_ok_def stream_pos_def)

lemma carry_simp: "st_byteOffset s < 64 \<Longrightarrow> carry s = s"
  by (simp add: carry.simps)

lemma advance_moved:
  assumes "stream_ok s" "0 \<le> n" "st_byteOffset s + n \<le> 64" "st_blockIndex s \<le> MAX_BLOCK_INDEX"
  shows "moved s n (advance s n)"
proof (cases "st_byteOffset s + n = 64")
  case True
  then show ?thesis using assms
    by (simp add: advance_def carry.simps [of "s\<lparr>st_byteOffset := 64\<rparr>"] carry_simp moved_def
        stream_ok_def stream_pos_def MAX_BLOCK_INDEX_def)
next
  case False
  then have "st_byteOffset s + n < 64" using assms by simp
  then show ?thesis using assms
    by (simp add: advance_def carry_simp moved_def stream_ok_def stream_pos_def MAX_BLOCK_INDEX_def)
qed

lemma fill_fails:
  assumes "stream_ok s" "stream_pos s = STREAM_END"
  shows "fill s = Inl (RangeError ''exhausted'')"
  using assms by (auto simp: fill_def stream_ok_def stream_pos_def MAX_BLOCK_INDEX_def)

lemma fill_ok:
  assumes "stream_ok s" "stream_pos s < STREAM_END"
  obtains s' where "fill s = Inr s'" "moved s 0 s'"
    "st_buffer s' = stream_block (st_keyWords s) (st_blockIndex s)"
    "st_blockIndex s' = st_blockIndex s" "st_byteOffset s' = st_byteOffset s"
    "st_blockIndex s \<le> MAX_BLOCK_INDEX"
proof -
  have m: "st_blockIndex s \<le> MAX_BLOCK_INDEX"
    using assms by (auto simp: stream_ok_def stream_pos_def MAX_BLOCK_INDEX_def)
  have "\<exists>s'. fill s = Inr s' \<and> moved s 0 s' \<and>
      st_buffer s' = stream_block (st_keyWords s) (st_blockIndex s) \<and>
      st_blockIndex s' = st_blockIndex s \<and> st_byteOffset s' = st_byteOffset s"
    using assms m by (auto simp: fill_def Let_def moved_def stream_ok_def stream_pos_def stream_block_def)
  with m show thesis using that by blast
qed

section \<open>Every draw reads the keystream\<close>

lemma next_bytes_loop_ok:
  assumes "stream_ok s" "written \<le> count"
  shows "if stream_pos s + (count - written) \<le> STREAM_END
    then \<exists>s'. next_bytes_loop s count written out = Some (Inr (s', out @ bytes_at s (nat (count - written)))) \<and>
      moved s (count - written) s'
    else next_bytes_loop s count written out = Some (Inl (RangeError ''exhausted''))"
  using assms
proof (induction "nat (count - written)" arbitrary: s written out rule: less_induct)
  case less
  show ?case
  proof (cases "written < count")
    case False
    with less.prems show ?thesis
      by (simp add: next_bytes_loop.simps moved_def ks_bytes_def stream_ok_def)
  next
    case True
    show ?thesis
    proof (cases "stream_pos s < STREAM_END")
      case False
      then have e: "stream_pos s = STREAM_END" using less.prems by (simp add: stream_ok_def)
      show ?thesis using True fill_fails [OF less.prems(1) e] e
        by (simp add: next_bytes_loop.simps [of s])
    next
      case inside: True
      obtain s1 where s1: "fill s = Inr s1" "moved s 0 s1"
        "st_buffer s1 = stream_block (st_keyWords s) (st_blockIndex s)"
        "st_blockIndex s1 = st_blockIndex s" "st_byteOffset s1 = st_byteOffset s"
        "st_blockIndex s \<le> MAX_BLOCK_INDEX"
        by (rule fill_ok [OF less.prems(1) inside])
      define tk where "tk = min (64 - st_byteOffset s1) (count - written)"
      define s2 where "s2 = advance s1 tk"
      have off: "0 \<le> st_byteOffset s" "st_byteOffset s < 64"
        using less.prems by (simp_all add: stream_ok_def)
      then have tk: "0 < tk" "tk \<le> count - written" "st_byteOffset s + tk \<le> 64"
        using True s1(5) by (auto simp: tk_def)
      have "moved s1 tk s2" unfolding s2_def
        using s1 tk by (intro advance_moved) (auto simp: moved_def)
      then have m2: "moved s tk s2" using moved_trans [OF s1(2)] by fastforce
      have sl: "take (nat tk) (drop (nat (st_byteOffset s1)) (st_buffer s1)) = bytes_at s (nat tk)"
        using chacha.slice_block [OF off(1), of "nat tk" "st_keyWords s" "st_blockIndex s"] tk s1
        by (simp add: stream_pos_def)
      have step: "next_bytes_loop s count written out =
          next_bytes_loop s2 count (written + tk) (out @ bytes_at s (nat tk))"
        using True s1(1) sl by (simp add: next_bytes_loop.simps [of s] s2_def tk_def Let_def)
      have IH: "if stream_pos s2 + (count - (written + tk)) \<le> STREAM_END
        then \<exists>s'. next_bytes_loop s2 count (written + tk) (out @ bytes_at s (nat tk)) =
            Some (Inr (s', (out @ bytes_at s (nat tk)) @ bytes_at s2 (nat (count - (written + tk))))) \<and>
          moved s2 (count - (written + tk)) s'
        else next_bytes_loop s2 count (written + tk) (out @ bytes_at s (nat tk)) =
          Some (Inl (RangeError ''exhausted''))"
        using tk m2 by (intro less.hyps) (auto simp: moved_def)
      have "bytes_at s (nat tk) @ bytes_at s2 (nat (count - (written + tk))) = bytes_at s (nat (count - written))"
        using bytes_at_moved [of s "nat tk" s2 "nat (count - (written + tk))"] m2 tk
        by (simp add: nat_add_distrib [symmetric])
      moreover have "stream_pos s2 = stream_pos s + tk" using m2 by (simp add: moved_def)
      moreover have "moved s (count - written) s'" if "moved s2 (count - (written + tk)) s'" for s'
        using moved_trans [OF m2 that] by simp
      ultimately show ?thesis using IH unfolding step by auto
    qed
  qed
qed

lemma nextBytes_ok:
  assumes "stream_ok s" "stream_pos s + int n \<le> STREAM_END"
  obtains s' where "nextBytes s (num (int n)) = Some (Inr (s', bytes_at s n))" "moved s (int n) s'"
  using next_bytes_loop_ok [OF assms(1), of 0 "int n" "[]"] assms(2) that
  by (auto simp: nextBytes_def)

lemma nextBytes_exhausted:
  assumes "stream_ok s" "STREAM_END < stream_pos s + int n"
  shows "nextBytes s (num (int n)) = Some (Inl (RangeError ''exhausted''))"
  using next_bytes_loop_ok [OF assms(1), of 0 "int n" "[]"] assms(2)
  by (auto simp: nextBytes_def)

text \<open>The 32-bit value at the position of a stream.\<close>

definition word_at :: "random_stream \<Rightarrow> int" where
  "word_at s = uint (getUint32 (bytes_at s 4) 0)"

lemma nextUint32_cases:
  assumes "stream_ok s"
  shows "if stream_pos s + 4 \<le> STREAM_END
    then \<exists>s'. nextUint32 s = Some (Inr (s', word_at s)) \<and> moved s 4 s'
    else nextUint32 s = Some (Inl (RangeError ''exhausted''))"
proof (cases "stream_pos s < STREAM_END")
  case False
  then have e: "stream_pos s = STREAM_END" using assms by (simp add: stream_ok_def)
  then show ?thesis using fill_fails [OF assms e] by (simp add: nextUint32_def)
next
  case inside: True
  obtain s1 where s1: "fill s = Inr s1" "moved s 0 s1"
    "st_buffer s1 = stream_block (st_keyWords s) (st_blockIndex s)"
    "st_blockIndex s1 = st_blockIndex s" "st_byteOffset s1 = st_byteOffset s"
    "st_blockIndex s \<le> MAX_BLOCK_INDEX"
    by (rule fill_ok [OF assms inside])
  have ok1: "stream_ok s1" and at1: "bytes_at s1 n = bytes_at s n" "stream_pos s1 = stream_pos s"
    "st_keyWords s1 = st_keyWords s" for n
    using s1(2) by (simp_all add: moved_def)
  have off: "0 \<le> st_byteOffset s" "st_byteOffset s < 64"
    using assms by (simp_all add: stream_ok_def)
  show ?thesis
  proof (cases "st_byteOffset s + 4 \<le> 64")
    case True
    let ?o = "nat (st_byteOffset s)"
    have "getUint32 (st_buffer s1) ?o = getUint32 (take 4 (drop ?o (st_buffer s1))) 0"
      using True off s1(3) by (intro getUint32_slice) (simp add: chacha.block_length)
    also have "take 4 (drop ?o (st_buffer s1)) = bytes_at s 4"
      using chacha.slice_block [OF off(1), of 4 "st_keyWords s" "st_blockIndex s"] True s1(3)
      by (simp add: stream_pos_def)
    finally have v: "uint (getUint32 (st_buffer s1) ?o) = word_at s" by (simp add: word_at_def)
    have m: "moved s1 4 (advance s1 4)"
      using True s1 ok1 by (intro advance_moved) auto
    then have "moved s 4 (advance s1 4)" using moved_trans [OF s1(2)] by fastforce
    moreover have "stream_pos s + 4 \<le> STREAM_END"
      using m at1 by (auto simp: moved_def stream_ok_def)
    ultimately show ?thesis using True s1 v by (simp add: nextUint32_def)
  next
    case False
    have n4: "num 4 = num (int 4)" by simp
    show ?thesis
    proof (cases "stream_pos s + 4 \<le> STREAM_END")
      case True
      then have "stream_pos s1 + int 4 \<le> STREAM_END" using at1 by simp
      then obtain s2 where s2: "nextBytes s1 (num (int 4)) = Some (Inr (s2, bytes_at s1 4))" "moved s1 (int 4) s2"
        by (rule nextBytes_ok [OF ok1])
      have "moved s 4 s2" using moved_trans [OF s1(2) s2(2)] by simp
      moreover have "nextUint32 s = Some (Inr (s2, word_at s))"
        using False s1(1,5) s2(1) unfolding nextUint32_def n4
        by (simp add: word_at_def getUint32_def at1 numeral_2_eq_2)
      ultimately show ?thesis using True by simp
    next
      case ex: False
      then have "STREAM_END < stream_pos s1 + int 4" using at1 by simp
      from nextBytes_exhausted [OF ok1 this] show ?thesis
        using False ex s1(1,5) unfolding nextUint32_def n4 by simp
    qed
  qed
qed

lemma nextUint32_ok:
  assumes "stream_ok s" "stream_pos s + 4 \<le> STREAM_END"
  obtains s' where "nextUint32 s = Some (Inr (s', word_at s))" "moved s 4 s'"
  using nextUint32_cases [OF assms(1)] assms(2) by auto

lemma word_at_bounds: "0 \<le> word_at s" "word_at s < 2 ^ 32"
  using uint_lt2p [of "getUint32 (bytes_at s 4) 0"] by (simp_all add: word_at_def)

lemma word_at_eq: "stream_pos s' = p \<Longrightarrow> st_keyWords s' = k \<Longrightarrow>
    word_at s' = uint (getUint32 (ks_bytes (stream_block k) p 4) 0)"
  by (simp add: word_at_def)

section \<open>Rejection sampling\<close>

text \<open>What one draw yields for a bound: a value, or another draw.\<close>

definition bounded_outcome :: "int \<Rightarrow> int \<Rightarrow> int option" where
  "bounded_outcome bound draw = (if draw < 2 ^ 32 - 2 ^ 32 mod bound then Some (draw mod bound) else None)"

text \<open>The \<open>k\<close>-th 32-bit value from a position.\<close>

definition draw_at :: "random_stream \<Rightarrow> nat \<Rightarrow> int" where
  "draw_at s k = uint (getUint32 (ks_bytes (stream_block (st_keyWords s)) (stream_pos s + 4 * int k) 4) 0)"

lemma draw_at_0: "draw_at s 0 = word_at s"
  by (simp add: draw_at_def word_at_def)

lemma draw_at_moved: "moved s 4 s' \<Longrightarrow> draw_at s' k = draw_at s (Suc k)"
  by (simp add: draw_at_def moved_def algebra_simps)

lemma bounded_loop_ok:
  assumes "stream_ok s" "0 < bound"
  shows "(\<exists>k s' v. bounded_loop s (2 ^ 32 - 2 ^ 32 mod bound) bound = Some (Inr (s', v)) \<and>
      bounded_outcome bound (draw_at s k) = Some v \<and> (\<forall>j<k. bounded_outcome bound (draw_at s j) = None) \<and>
      moved s (4 * int (Suc k)) s') \<or>
    bounded_loop s (2 ^ 32 - 2 ^ 32 mod bound) bound = Some (Inl (RangeError ''exhausted''))"
    (is "?found s \<or> ?out s")
  using assms(1)
proof (induction "nat (STREAM_END - stream_pos s)" arbitrary: s rule: less_induct)
  case less
  show ?case
  proof (cases "stream_pos s + 4 \<le> STREAM_END")
    case False
    then have "nextUint32 s = Some (Inl (RangeError ''exhausted''))"
      using nextUint32_cases [OF less.prems] by simp
    then show ?thesis by (simp add: bounded_loop.simps [of s])
  next
    case True
    obtain s1 where s1: "nextUint32 s = Some (Inr (s1, word_at s))" "moved s 4 s1"
      by (rule nextUint32_ok [OF less.prems True])
    show ?thesis
    proof (cases "word_at s < 2 ^ 32 - 2 ^ 32 mod bound")
      case acc: True
      then have "bounded_loop s (2 ^ 32 - 2 ^ 32 mod bound) bound = Some (Inr (s1, word_at s mod bound))"
        using s1(1) by (simp add: bounded_loop.simps [of s])
      moreover have "bounded_outcome bound (draw_at s 0) = Some (word_at s mod bound)"
        using acc by (simp add: bounded_outcome_def draw_at_0)
      ultimately have "?found s" using s1(2) by (intro exI [of _ 0]) auto
      then show ?thesis by blast
    next
      case rej: False
      then have eq: "bounded_loop s (2 ^ 32 - 2 ^ 32 mod bound) bound =
          bounded_loop s1 (2 ^ 32 - 2 ^ 32 mod bound) bound"
        using s1(1) by (simp add: bounded_loop.simps [of s])
      have none: "bounded_outcome bound (draw_at s 0) = None"
        using rej by (simp add: bounded_outcome_def draw_at_0)
      have "?found s1 \<or> ?out s1"
        using s1(2) True by (intro less.hyps) (auto simp: moved_def)
      then show ?thesis
      proof
        assume "?found s1"
        then obtain k s' v where k: "bounded_loop s1 (2 ^ 32 - 2 ^ 32 mod bound) bound = Some (Inr (s', v))"
          "bounded_outcome bound (draw_at s (Suc k)) = Some v"
          "\<forall>j<k. bounded_outcome bound (draw_at s (Suc j)) = None"
          "moved s1 (4 * int (Suc k)) s'"
          using draw_at_moved [OF s1(2)] by auto
        have "\<forall>j<Suc k. bounded_outcome bound (draw_at s j) = None"
          using k(3) none by (metis less_Suc_eq_0_disj)
        moreover have "moved s (4 * int (Suc (Suc k))) s'"
          using moved_trans [OF s1(2) k(4)] by (simp add: algebra_simps)
        ultimately have "?found s" using k(1,2) eq by (intro exI [of _ "Suc k"]) auto
        then show ?thesis by blast
      next
        assume "?out s1"
        then show ?thesis unfolding eq by blast
      qed
    qed
  qed
qed

lemma outcome_card:
  assumes "0 < bound" "0 \<le> v" "v < bound"
  shows "card {d. 0 \<le> d \<and> d < 2 ^ 32 \<and> bounded_outcome bound d = Some v} = nat (2 ^ 32 div bound)"
proof -
  let ?q = "(2::int) ^ 32 div bound"
  have L: "2 ^ 32 - 2 ^ 32 mod bound = bound * ?q" by (simp only: minus_mod_eq_mult_div)
  have out: "bounded_outcome bound d = (if d < bound * ?q then Some (d mod bound) else None)" for d
    by (simp only: bounded_outcome_def L)
  have Lle: "bound * ?q \<le> 2 ^ 32" using assms(1) by (simp only: L [symmetric]) simp
  have "{d. 0 \<le> d \<and> d < 2 ^ 32 \<and> bounded_outcome bound d = Some v} = (\<lambda>i. v + bound * i) ` {0..<?q}"
  proof (intro equalityI subsetI)
    fix d assume "d \<in> {d. 0 \<le> d \<and> d < 2 ^ 32 \<and> bounded_outcome bound d = Some v}"
    then have d: "0 \<le> d" "d < bound * ?q" "d mod bound = v"
      by (auto simp: out split: if_splits)
    then have "d = v + bound * (d div bound)" by (metis add.commute mult_div_mod_eq)
    moreover have "d div bound < ?q"
    proof (rule ccontr)
      assume "\<not> d div bound < ?q"
      then have "bound * ?q \<le> bound * (d div bound)" using assms(1) by (intro mult_left_mono) auto
      also have "\<dots> \<le> d" using assms(1) pos_mod_sign [of bound d] by (simp add: minus_mod_eq_mult_div [symmetric])
      finally show False using d(2) by simp
    qed
    moreover have "0 \<le> d div bound" using d(1) assms(1) by (simp add: pos_imp_zdiv_nonneg_iff)
    ultimately show "d \<in> (\<lambda>i. v + bound * i) ` {0..<?q}" by auto
  next
    fix d assume "d \<in> (\<lambda>i. v + bound * i) ` {0..<?q}"
    then obtain i where "d = v + bound * i" "i \<in> {0..<?q}" by blast
    then have i: "d = v + bound * i" "0 \<le> i" "i < ?q" by simp_all
    then have "bound * (i + 1) \<le> bound * ?q" using assms(1) by (intro mult_left_mono) auto
    then have "d < bound * ?q" using i assms by (simp add: algebra_simps)
    moreover have "0 \<le> d" using i assms by simp
    moreover have "d mod bound = v" using i assms by simp
    ultimately show "d \<in> {d. 0 \<le> d \<and> d < 2 ^ 32 \<and> bounded_outcome bound d = Some v}"
      using Lle by (simp add: out)
  qed
  moreover have "inj_on (\<lambda>i. v + bound * i) {0..<?q}" using assms(1) by (intro inj_onI) simp
  ultimately show ?thesis by (simp add: card_image)
qed

section \<open>Exact binary fractions\<close>

lemma fl_dyadic:
  assumes "0 \<le> k" "k < 2 ^ 53"
  shows "fl (of_int k / 2 ^ 53) = of_int k / 2 ^ 53"
proof (cases "k = 0")
  case False
  let ?x = "of_int k / 2 ^ 53 :: rat"
  have x: "0 < ?x" using assms False by simp
  have "(of_int k :: rat) < of_int (2 ^ 53)" using assms(2) by (simp only: of_int_less_iff)
  then have "?x < pow2 0" by (simp add: pow2_def)
  then have "mag_exp ?x < 0" by (rule mag_exp_less [OF x])
  then have u: "ulp_exp ?x \<le> -53" using x by (simp add: ulp_exp_def abs_of_pos)
  have "?x = of_int k * pow2 (-53)" by (simp add: pow2_def)
  also have "pow2 (-53) = pow2 (-53 - ulp_exp ?x) * pow2 (ulp_exp ?x)"
    using pow2_add [of "-53 - ulp_exp ?x" "ulp_exp ?x"] by simp
  also have "pow2 (-53 - ulp_exp ?x) = 2 ^ nat (-53 - ulp_exp ?x)" using u by (simp add: pow2_def)
  finally have "?x = of_int (k * 2 ^ nat (-53 - ulp_exp ?x)) * pow2 (ulp_exp ?x)" by simp
  then show ?thesis by (rule fl_exact)
qed simp

lemma float_exact:
  assumes "0 \<le> a" "a < 2 ^ 27" "0 \<le> b" "b < 2 ^ 26"
  shows "js_div (js_add (js_mul (num a) (num (2 ^ 26))) (num b)) (num (2 ^ 53)) =
    Fin (of_int (a * 2 ^ 26 + b) / 2 ^ 53)"
proof -
  let ?k = "a * 2 ^ 26 + b"
  have k: "0 \<le> ?k" "?k < 2 ^ 53" using assms by simp_all
  have "js_mul (num a) (num (2 ^ 26)) = num (a * 2 ^ 26)" using assms by (intro js_mul_num) simp
  moreover have "js_add (num (a * 2 ^ 26)) (num b) = num ?k" using assms by (intro js_add_num) simp
  ultimately have e: "js_add (js_mul (num a) (num (2 ^ 26))) (num b) = num ?k" by simp
  have f: "fl (of_int ?k / 2 ^ 53) = of_int ?k / 2 ^ 53" by (rule fl_dyadic [OF k])
  have lt: "(of_int ?k :: rat) < of_int (2 ^ 53)" using k(2) by (simp only: of_int_less_iff)
  have ge: "(0::rat) \<le> of_int ?k" using k(1) by (simp only: of_int_0_le_iff)
  have "of_int ?k / 2 ^ 53 < (1::rat)" "0 \<le> (of_int ?k / 2 ^ 53 :: rat)" using lt ge by simp_all
  then have "\<not> 2 ^ 1024 \<le> (of_int ?k / 2 ^ 53 :: rat)" "\<not> (of_int ?k / 2 ^ 53 :: rat) \<le> - (2 ^ 1024)"
    by (linarith | simp)+
  then show ?thesis unfolding e
    using f by (simp add: num_def js_of_rat_def Let_def)
qed

section \<open>Decimal notation\<close>

lemma of_digit: "n < 10 \<Longrightarrow> of_char (digit n) = 48 + n"
  by (simp add: digit_def)

lemma is_digit_digit: "n < 10 \<Longrightarrow> is_digit (digit n)"
  by (simp add: is_digit_def of_digit)

lemma dec_value_snoc: "dec_value (ds @ [c]) = 10 * dec_value ds + (of_char c - 48)"
  by (simp add: dec_value_def)

lemma dec_nat_ok: "dec_value (dec_nat n) = n \<and> dec_nat n \<noteq> [] \<and> list_all is_digit (dec_nat n)"
proof (induction n rule: dec_nat.induct)
  case (1 n)
  show ?case
  proof (cases "n < 10")
    case True
    then show ?thesis by (simp add: dec_nat.simps [of n] of_digit is_digit_digit) (simp add: dec_value_def of_digit)
  next
    case False
    with 1 show ?thesis
      by (simp add: dec_nat.simps [of n] dec_value_snoc of_digit is_digit_digit)
  qed
qed

definition valid_cursor :: "stream_cursor \<Rightarrow> bool" where
  "valid_cursor c \<longleftrightarrow> 0 \<le> cu_blockIndex c \<and> cu_blockIndex c < 2 ^ 64 \<and>
     0 \<le> cu_byteOffset c \<and> cu_byteOffset c < 64"

lemma assertCursor_num:
  "assertCursor b (num n) = Inr () \<longleftrightarrow> 0 \<le> b \<and> b < 2 ^ 64 \<and> 0 \<le> n \<and> n < 64"
  by (auto simp: assertCursor_def MAX_BLOCK_INDEX_def)

lemma cursor_Inr: "cursor b n = Inr c \<Longrightarrow> valid_cursor c"
proof -
  assume h: "cursor b n = Inr c"
  then have "isInteger n" by (auto simp: cursor_def assertCursor_def andThen_Inr_iff split: if_splits)
  then obtain k where "n = num k" using isInteger_num by blast
  with h show "valid_cursor c"
    by (auto simp: cursor_def andThen_Inr_iff assertCursor_num valid_cursor_def)
qed

lemma parseCursor_Inr: "parseCursor t = Inr c \<Longrightarrow> valid_cursor c"
  by (auto simp: parseCursor_def Let_def split: list.splits if_splits dest: cursor_Inr)

lemma parse_decimal:
  assumes "b < 64"
  shows "parseCursor (formatCursor \<lparr>cu_blockIndex = int a, cu_byteOffset = int b\<rparr>) = cursor (int a) (num (int b))"
proof -
  have d: "\<And>x. x \<in> set (dec_nat a) \<Longrightarrow> is_digit x" using dec_nat_ok [of a] by (simp add: list_all_iff)
  have colon: "\<not> is_digit CHR '':''" by (simp add: is_digit_def)
  have tw: "takeWhile is_digit (dec_nat a @ CHR '':'' # dec_nat b) = dec_nat a"
    and dw: "dropWhile is_digit (dec_nat a @ CHR '':'' # dec_nat b) = CHR '':'' # dec_nat b"
    using d colon by (simp_all add: takeWhile_append2 dropWhile_append2)
  have "js_of_rat (of_nat b) = num (int b)"
    using fl_of_int_bound [of "int b"] assms by simp
  then show ?thesis
    using dec_nat_ok [of a] dec_nat_ok [of b]
    by (simp add: parseCursor_def formatCursor_def dec_int_def tw dw Let_def)
qed

lemma parse_formatted:
  assumes "valid_cursor c"
  shows "parseCursor (formatCursor c) = Inr c"
proof -
  obtain a b where c: "c = \<lparr>cu_blockIndex = int a, cu_byteOffset = int b\<rparr>"
    using assms by (cases c) (metis valid_cursor_def nonneg_int_cases stream_cursor.select_convs)
  have ab: "int a < 2 ^ 64" "b < 64" using assms c by (simp_all add: valid_cursor_def)
  have "assertCursor (int a) (num (int b)) = Inr ()" using ab by (simp add: assertCursor_num)
  then show ?thesis using parse_decimal [OF ab(2), of a] by (simp add: cursor_def c)
qed

section \<open>The properties\<close>

text \<open>C11: reading bytes answers exactly the next bytes of the keystream, across any number of
  block boundaries, and leaves the cursor right after them; past the last of the \<open>2 ^ 64\<close>
  blocks it throws. It always returns.\<close>

theorem nextBytes_reads_keystream:
  assumes "stream_ok s"
  shows "if stream_pos s + int n \<le> STREAM_END
    then \<exists>s'. nextBytes s (num (int n)) = Some (Inr (s', bytes_at s n)) \<and> moved s (int n) s'
    else nextBytes s (num (int n)) = Some (Inl (RangeError ''exhausted''))"
  using nextBytes_ok [OF assms, of n] nextBytes_exhausted [OF assms, of n] by (auto simp: not_le)

lemma new_stream_ok:
  assumes "new_RandomStream key label start = Inr s"
  shows "stream_ok s" "position s = start"
proof -
  have "valid_cursor start"
    using assms by (auto simp: new_RandomStream_def andThen_Inr_iff assertCursor_num valid_cursor_def)
  then have "64 * cu_blockIndex start + cu_byteOffset start \<le> STREAM_END"
    by (simp add: valid_cursor_def)
  with assms \<open>valid_cursor start\<close> show "stream_ok s"
    by (auto simp: new_RandomStream_def andThen_Inr_iff stream_ok_def stream_pos_def valid_cursor_def)
  show "position s = start"
    using assms by (auto simp: new_RandomStream_def andThen_Inr_iff position_def)
qed

abbreviation demo_start :: stream_cursor where
  "demo_start \<equiv> \<lparr>cu_blockIndex = 3, cu_byteOffset = 60\<rparr>"

lemma demo_stream: "\<exists>s. new_RandomStream (replicate 32 0) ''test'' demo_start = Inr s \<and> stream_ok s \<and>
    stream_pos s = 252"
proof -
  obtain s where s: "new_RandomStream (replicate 32 0) ''test'' demo_start = Inr s"
    by (simp add: new_RandomStream_def expandKey_def andThen_Inr_iff assertCursor_def MAX_BLOCK_INDEX_def)
  then have "position s = demo_start" by (rule new_stream_ok(2))
  then have "stream_pos s = 252" by (auto simp: position_def stream_pos_def)
  with s new_stream_ok(1) [OF s] show ?thesis by blast
qed

theorem nextBytes_reads_keystream_witness:
  "\<exists>s s'. stream_ok s \<and> nextBytes s (num 70) = Some (Inr (s', bytes_at s 70)) \<and> stream_pos s' = 322"
proof -
  obtain s where s: "stream_ok s" "stream_pos s = 252" using demo_stream by blast
  with nextBytes_reads_keystream [OF s(1), of 70] show ?thesis by (auto simp: moved_def)
qed

text \<open> a 32-bit draw is the little-endian value of the next four bytes of the keystream,
  whether they lie in one block or straddle two, and uses up exactly those four.\<close>

theorem nextUint32_reads_keystream:
  assumes "stream_ok s"
  shows "if stream_pos s + 4 \<le> STREAM_END
    then \<exists>s'. nextUint32 s = Some (Inr (s', uint (getUint32 (bytes_at s 4) 0))) \<and> moved s 4 s'
    else nextUint32 s = Some (Inl (RangeError ''exhausted''))"
  using nextUint32_cases [OF assms] unfolding word_at_def .

theorem nextUint32_reads_keystream_witness:
  "\<exists>s s'. stream_ok s \<and> nextUint32 s = Some (Inr (s', uint (getUint32 (bytes_at s 4) 0))) \<and>
     stream_pos s' = 256"
proof -
  obtain s where s: "stream_ok s" "stream_pos s = 252" using demo_stream by blast
  with nextUint32_reads_keystream [OF s(1)] show ?thesis by (auto simp: moved_def)
qed

text \<open> history replays: a stream of the same key, wherever it was and whatever it holds
  buffered, draws after a seek to a recorded position the same values as were drawn there.\<close>

theorem seek_replays:
  assumes "stream_ok s" "stream_ok t" "st_keyWords t = st_keyWords s" "stream_pos s + int n \<le> STREAM_END"
    and "0 < n"
  shows "\<exists>s' t1 t'. nextBytes s (num (int n)) = Some (Inr (s', bytes_at s n)) \<and>
    seek t (position s) = Inr t1 \<and> nextBytes t1 (num (int n)) = Some (Inr (t', bytes_at s n)) \<and>
    position t' = position s'"
proof -
  obtain s' where s': "nextBytes s (num (int n)) = Some (Inr (s', bytes_at s n))" "moved s (int n) s'"
    by (rule nextBytes_ok [OF assms(1,4)])
  have b: "st_blockIndex s < 2 ^ 64"
    using assms(1,4,5) by (auto simp: stream_ok_def stream_pos_def)
  then have "assertCursor (st_blockIndex s) (num (st_byteOffset s)) = Inr ()"
    using assms(1) by (simp add: assertCursor_num stream_ok_def)
  then obtain t1 where t1: "seek t (position s) = Inr t1"
    "t1 = t\<lparr>st_blockIndex := st_blockIndex s, st_byteOffset := st_byteOffset s\<rparr>"
    by (simp add: seek_def position_def)
  then have ok: "stream_ok t1" "st_keyWords t1 = st_keyWords s" "stream_pos t1 = stream_pos s"
    using assms by (auto simp: stream_ok_def stream_pos_def)
  then have "stream_pos t1 + int n \<le> STREAM_END" using assms(4) by simp
  then obtain t' where t': "nextBytes t1 (num (int n)) = Some (Inr (t', bytes_at t1 n))" "moved t1 (int n) t'"
    by (rule nextBytes_ok [OF ok(1)])
  have "position t' = position s'"
    using t'(2) s'(2) ok stream_ok_pos [of t'] stream_ok_pos [of s'] by (simp add: moved_def position_def)
  with s' t1 t' ok show ?thesis by auto
qed

theorem seek_replays_witness:
  "\<exists>s t s' t1 t'. stream_ok s \<and> stream_pos t \<noteq> stream_pos s \<and>
     nextBytes s (num (int 9)) = Some (Inr (s', bytes_at s 9)) \<and> seek t (position s) = Inr t1 \<and>
     nextBytes t1 (num (int 9)) = Some (Inr (t', bytes_at s 9))"
proof -
  obtain s where s: "stream_ok s" "stream_pos s = 252" using demo_stream by blast
  then have "stream_pos s + int 100 \<le> STREAM_END" by simp
  then obtain t where t: "moved s (int 100) t" by (rule nextBytes_ok [OF s(1)])
  then have "stream_ok t" "st_keyWords t = st_keyWords s" "stream_pos t \<noteq> stream_pos s"
    by (simp_all add: moved_def)
  with seek_replays [OF s(1), of t 9] s obtain s' t1 t' where
    "nextBytes s (num (int 9)) = Some (Inr (s', bytes_at s 9))" "seek t (position s) = Inr t1"
    "nextBytes t1 (num (int 9)) = Some (Inr (t', bytes_at s 9))"
    by (auto simp del: of_nat_numeral)
  with s(1) \<open>stream_pos t \<noteq> stream_pos s\<close> show ?thesis by blast
qed

text \<open>C13: a bounded draw always returns: with the first 32-bit draw below the rejection limit,
  reduced, or by exhausting the stream; and every value below the bound is the outcome of the
  same number of 32-bit draws, so none is favoured.\<close>

theorem nextBoundedUint32_unbiased:
  assumes "stream_ok s" "0 < bound" "bound < 2 ^ 32"
  shows "((\<exists>k s' v. nextBoundedUint32 s (num bound) = Some (Inr (s', v)) \<and> 0 \<le> v \<and> v < bound \<and>
        bounded_outcome bound (draw_at s k) = Some v \<and>
        (\<forall>j<k. bounded_outcome bound (draw_at s j) = None) \<and> moved s (4 * int (Suc k)) s') \<or>
      nextBoundedUint32 s (num bound) = Some (Inl (RangeError ''exhausted''))) \<and>
    (\<forall>v. 0 \<le> v \<and> v < bound \<longrightarrow>
      card {d. 0 \<le> d \<and> d < 2 ^ 32 \<and> bounded_outcome bound d = Some v} = nat (2 ^ 32 div bound))"
proof
  have "nextBoundedUint32 s (num bound) = bounded_loop s (2 ^ 32 - 2 ^ 32 mod bound) bound"
    using assms by (simp add: nextBoundedUint32_def Let_def)
  moreover have "0 \<le> v \<and> v < bound" if "bounded_outcome bound d = Some v" for d v
    using that assms(2) by (auto simp: bounded_outcome_def split: if_splits)
  ultimately show "(\<exists>k s' v. nextBoundedUint32 s (num bound) = Some (Inr (s', v)) \<and> 0 \<le> v \<and> v < bound \<and>
        bounded_outcome bound (draw_at s k) = Some v \<and>
        (\<forall>j<k. bounded_outcome bound (draw_at s j) = None) \<and> moved s (4 * int (Suc k)) s') \<or>
      nextBoundedUint32 s (num bound) = Some (Inl (RangeError ''exhausted''))"
    using bounded_loop_ok [OF assms(1,2)] by metis
qed (use outcome_card [OF assms(2)] in blast)

theorem nextBoundedUint32_unbiased_witness:
  "(\<exists>s. stream_ok s \<and> nextBoundedUint32 s (num 6) \<noteq> None) \<and>
   card {d. 0 \<le> d \<and> d < 2 ^ 32 \<and> bounded_outcome 6 d = Some 5} = 715827882"
proof -
  obtain s where s: "stream_ok s" using demo_stream by blast
  have b: "0 < (6::int)" "(6::int) < 2 ^ 32" by simp_all
  from nextBoundedUint32_unbiased [OF s b] have "nextBoundedUint32 s (num 6) \<noteq> None"
    "card {d. 0 \<le> d \<and> d < 2 ^ 32 \<and> bounded_outcome 6 d = Some 5} = nat (2 ^ 32 div 6)" by auto
  with s show ?thesis by auto
qed

text \<open>The double is exactly the 53-bit fraction made of the top 27 and 26 bits of two
  draws, computed without rounding, and lies in \<open>[0, 1)\<close>.\<close>

theorem nextFloat64_exact:
  assumes "stream_ok s" "stream_pos s + 8 \<le> STREAM_END"
  shows "\<exists>s' k. nextFloat64 s = Some (Inr (s', Fin (of_int k / 2 ^ 53))) \<and> moved s 8 s' \<and>
    k = draw_at s 0 div 2 ^ 5 * 2 ^ 26 + draw_at s 1 div 2 ^ 6 \<and> 0 \<le> k \<and> k < 2 ^ 53"
proof -
  have "stream_pos s + 4 \<le> STREAM_END" using assms(2) by simp
  then obtain s1 where s1: "nextUint32 s = Some (Inr (s1, word_at s))" "moved s 4 s1"
    by (rule nextUint32_ok [OF assms(1)])
  have "stream_ok s1" "stream_pos s1 + 4 \<le> STREAM_END" using s1(2) assms(2) by (simp_all add: moved_def)
  then obtain s2 where s2: "nextUint32 s1 = Some (Inr (s2, word_at s1))" "moved s1 4 s2"
    by (rule nextUint32_ok)
  let ?a = "word_at s div 2 ^ 5" and ?b = "word_at s1 div 2 ^ 6"
  have ab: "0 \<le> ?a" "?a < 2 ^ 27" "0 \<le> ?b" "?b < 2 ^ 26"
    using word_at_bounds [of s] word_at_bounds [of s1] by simp_all
  have d: "word_at s = draw_at s 0" "word_at s1 = draw_at s 1"
    using draw_at_0 draw_at_moved [OF s1(2)] by (metis One_nat_def)+
  have "nextFloat64 s = Some (Inr (s2, Fin (of_int (?a * 2 ^ 26 + ?b) / 2 ^ 53)))"
    using float_exact [OF ab] by (simp add: nextFloat64_def s1(1) s2(1) drop_bit_eq_div Let_def)
  moreover have "moved s 8 s2" using moved_trans [OF s1(2) s2(2)] by simp
  moreover have "0 \<le> ?a * 2 ^ 26 + ?b" "?a * 2 ^ 26 + ?b < 2 ^ 53" using ab by simp_all
  ultimately show ?thesis unfolding d by blast
qed

theorem nextFloat64_exact_witness:
  "\<exists>s s' k. stream_ok s \<and> nextFloat64 s = Some (Inr (s', Fin (of_int k / 2 ^ 53))) \<and> stream_pos s' = 260"
proof -
  obtain s where s: "stream_ok s" "stream_pos s = 252" using demo_stream by blast
  with nextFloat64_exact [OF s(1)] show ?thesis by (fastforce simp: moved_def)
qed

text \<open> a stored cursor is read back as itself, and nothing outside the \<open>2 ^ 64\<close> blocks of
  64 bytes is ever read as a cursor.\<close>

theorem parseCursor_formatCursor:
  "(parseCursor (formatCursor c) = Inr c \<longleftrightarrow> valid_cursor c) \<and>
   (parseCursor t \<in> Inl ` range RangeError \<union> Inr ` Collect valid_cursor)"
proof
  show "parseCursor (formatCursor c) = Inr c \<longleftrightarrow> valid_cursor c"
    using parseCursor_Inr parse_formatted by blast
  have "\<exists>m. e = RangeError m" if "parseCursor t = Inl e" for e
    using that by (auto simp: parseCursor_def cursor_def assertCursor_def andThen_Inl_iff Let_def
        split: list.splits if_splits)
  then show "parseCursor t \<in> Inl ` range RangeError \<union> Inr ` Collect valid_cursor"
    using parseCursor_Inr by (cases "parseCursor t") auto
qed

section \<open>Every draw returns\<close>

lemma nextUint32_total:
  assumes "stream_ok s"
  shows "(\<exists>s' v. nextUint32 s = Some (Inr (s', v)) \<and> stream_ok s') \<or> (\<exists>e. nextUint32 s = Some (Inl e))"
  using nextUint32_cases [OF assms] nextUint32_ok [OF assms] by (fastforce simp: moved_def)

lemma bounded_total:
  assumes "stream_ok s"
  shows "nextBoundedUint32 s x \<noteq> None"
proof (cases "isInteger x \<and> \<not> js_le x (num 0)")
  case True
  then have b: "x = num (int_of x)" "0 < int_of x"
    using isInteger_num [of x] num_simps(10) [of "int_of x" 0] by (metis not_less)+
  show ?thesis using bounded_loop_ok [OF assms b(2)] nextUint32_total [OF assms]
    by (fastforce simp: nextBoundedUint32_def Let_def)
qed (auto simp: nextBoundedUint32_def)

text \<open> every draw returns. From a well-formed stream, for every Number handed in as a count or a bound,
  each draw answers a value or throws: neither the byte loop nor the rejection loop can run for ever,
  since the position only moves forward and the keystream has an end.\<close>

theorem draws_return:
  assumes "stream_ok s"
  shows "nextBytes s x \<noteq> None \<and> nextBoundedUint32 s x \<noteq> None \<and> nextUint32 s \<noteq> None \<and>
    nextUint64 s \<noteq> None \<and> nextFloat64 s \<noteq> None \<and> nextBoolean s \<noteq> None"
proof -
  have bytes: "nextBytes s x \<noteq> None"
  proof (cases "isInteger x \<and> \<not> js_lt x (num 0)")
    case True
    then obtain n where "x = num (int n)" using isInteger_num [of x] num_simps(8) [of "int_of x" 0]
      by (metis nonneg_int_cases not_less)
    then show ?thesis
      using nextBytes_ok [OF assms, of n] nextBytes_exhausted [OF assms, of n] by (metis not_less option.distinct(1))
  qed (auto simp: nextBytes_def)
  have u: "nextUint32 s \<noteq> None" using nextUint32_total [OF assms] by auto
  have bounded: "nextBoundedUint32 s x \<noteq> None" by (rule bounded_total [OF assms])
  from nextUint32_total [OF assms] show ?thesis
  proof
    assume "\<exists>e. nextUint32 s = Some (Inl e)"
    then show ?thesis using bytes bounded u by (auto simp: nextUint64_def nextFloat64_def nextBoolean_def)
  next
    assume "\<exists>s' v. nextUint32 s = Some (Inr (s', v)) \<and> stream_ok s'"
    then obtain s' v where s: "nextUint32 s = Some (Inr (s', v))" "stream_ok s'" by blast
    from nextUint32_total [OF s(2)] show ?thesis
      using bytes bounded u s(1) by (auto simp: nextUint64_def nextFloat64_def nextBoolean_def Let_def)
  qed
qed

theorem draws_return_witness:
  "\<exists>s. new_RandomStream (replicate 32 0) ''test'' demo_start = Inr s \<and> nextBytes s (num 300) \<noteq> None \<and>
    nextBoundedUint32 s (num 6) \<noteq> None"
  using demo_stream draws_return by blast

end
