(* ===== verification/CursorLease.thy ===== *)
theory CursorLease
  imports Stream
begin

text \<open>
  The cursor lease: packages/core/src/entropy/lease.ts. Blocks of a keystream are reserved, and
  the reservation persisted, before they are consumed, so that a process that crashed and came
  back never draws a block its predecessor may have used. The class is a pure state machine; the
  theory adds the protocol its documentation prescribes (persist what \<open>ensure\<close> proposes, confirm,
  consume, with a crash possible between any two steps) as a step relation, and shows that no
  block is consumed twice in any of its runs.
\<close>

section \<open>The class\<close>

record cursor_lease =
  cl_startAt :: int
  cl_confirmedTo :: int
  cl_leaseBlocks :: int

definition resume :: "int option \<Rightarrow> int \<Rightarrow> cursor_lease result" where
  "resume persistedHighWater leaseBlocks =
     (if leaseBlocks \<le> 0 then Inl (RangeError ''Lease size'')
      else let start = (case persistedHighWater of None \<Rightarrow> 0 | Some h \<Rightarrow> h) in
        if start < 0 \<or> MAX_BLOCK_INDEX < start then Inl (RangeError ''Persisted high-water mark'')
        else Inr \<lparr>cl_startAt = start, cl_confirmedTo = start, cl_leaseBlocks = leaseBlocks\<rparr>)"

definition canConsume :: "cursor_lease \<Rightarrow> int \<Rightarrow> bool" where
  "canConsume l blockIndex \<longleftrightarrow> cl_startAt l \<le> blockIndex \<and> blockIndex < cl_confirmedTo l"

definition ensure :: "cursor_lease \<Rightarrow> int \<Rightarrow> int option result" where
  "ensure l blockIndex =
     (if blockIndex < cl_startAt l then Inl (RangeError ''precedes this lease'')
      else if blockIndex < cl_confirmedTo l then Inr None
      else let grown = cl_confirmedTo l + cl_leaseBlocks l; needed = blockIndex + 1;
               proposed = (if needed < grown then grown else needed) in
        if MAX_BLOCK_INDEX < proposed then Inl (RangeError ''exhausted'')
        else Inr (Some proposed))"

definition confirm :: "cursor_lease \<Rightarrow> int \<Rightarrow> cursor_lease result" where
  "confirm l highWater =
     (if highWater < cl_confirmedTo l then Inl (RangeError ''backwards'')
      else if MAX_BLOCK_INDEX < highWater then Inl (RangeError ''Lease high-water mark'')
      else Inr (l\<lparr>cl_confirmedTo := highWater\<rparr>))"

section \<open>The protocol around it\<close>

record lease_process =
  lp_lease :: cursor_lease
  lp_pending :: "int option"
  lp_next :: int

record lease_world =
  lw_durable :: "int option"
  lw_process :: "lease_process option"
  lw_consumed :: "int list"

definition lease_init :: lease_world where
  "lease_init = \<lparr>lw_durable = None, lw_process = None, lw_consumed = []\<rparr>"

text \<open>A process reads its streams forwards: the next block it may consume is past every block it
  has consumed.\<close>

inductive lease_step :: "lease_world \<Rightarrow> lease_world \<Rightarrow> bool" where
  boot: "lw_process w = None \<Longrightarrow> resume (lw_durable w) n = Inr l \<Longrightarrow>
    lease_step w (w\<lparr>lw_process := Some \<lparr>lp_lease = l, lp_pending = None, lp_next = cl_startAt l\<rparr>\<rparr>)"
| persist: "lw_process w = Some p \<Longrightarrow> lp_next p \<le> b \<Longrightarrow> ensure (lp_lease p) b = Inr (Some hw) \<Longrightarrow>
    lease_step w (w\<lparr>lw_durable := Some hw, lw_process := Some (p\<lparr>lp_pending := Some hw\<rparr>)\<rparr>)"
| confirmed: "lw_process w = Some p \<Longrightarrow> lp_pending p = Some hw \<Longrightarrow> confirm (lp_lease p) hw = Inr l \<Longrightarrow>
    lease_step w (w\<lparr>lw_process := Some (p\<lparr>lp_lease := l, lp_pending := None\<rparr>)\<rparr>)"
| consume: "lw_process w = Some p \<Longrightarrow> lp_next p \<le> b \<Longrightarrow> canConsume (lp_lease p) b \<Longrightarrow>
    lease_step w (w\<lparr>lw_process := Some (p\<lparr>lp_next := b + 1\<rparr>), lw_consumed := lw_consumed w @ [b]\<rparr>)"
| crash: "lease_step w (w\<lparr>lw_process := None\<rparr>)"

definition mark :: "lease_world \<Rightarrow> int" where
  "mark w = (case lw_durable w of None \<Rightarrow> 0 | Some h \<Rightarrow> h)"

text \<open>What holds between any two steps.\<close>

definition lease_inv :: "lease_world \<Rightarrow> bool" where
  "lease_inv w \<longleftrightarrow> sorted_wrt (<) (lw_consumed w) \<and> (\<forall>b\<in>set (lw_consumed w). 0 \<le> b \<and> b < mark w) \<and>
     0 \<le> mark w \<and> mark w \<le> MAX_BLOCK_INDEX \<and>
     (\<forall>p. lw_process w = Some p \<longrightarrow>
        0 \<le> cl_startAt (lp_lease p) \<and> cl_startAt (lp_lease p) \<le> lp_next p \<and>
        cl_startAt (lp_lease p) \<le> cl_confirmedTo (lp_lease p) \<and>
        0 < cl_leaseBlocks (lp_lease p) \<and> cl_confirmedTo (lp_lease p) \<le> mark w \<and>
        (\<forall>h. lp_pending p = Some h \<longrightarrow> h = mark w) \<and>
        (\<forall>b\<in>set (lw_consumed w). b < lp_next p \<and> b < cl_confirmedTo (lp_lease p)))"

lemma resume_Inr:
  "resume h n = Inr l \<longleftrightarrow> 0 < n \<and> 0 \<le> (case h of None \<Rightarrow> 0 | Some x \<Rightarrow> x) \<and>
     (case h of None \<Rightarrow> 0 | Some x \<Rightarrow> x) \<le> MAX_BLOCK_INDEX \<and>
     l = \<lparr>cl_startAt = (case h of None \<Rightarrow> 0 | Some x \<Rightarrow> x),
          cl_confirmedTo = (case h of None \<Rightarrow> 0 | Some x \<Rightarrow> x), cl_leaseBlocks = n\<rparr>"
  by (auto simp: resume_def Let_def)

lemma ensure_Some:
  "ensure l b = Inr (Some hw) \<longleftrightarrow> cl_startAt l \<le> b \<and> cl_confirmedTo l \<le> b \<and>
     hw = max (cl_confirmedTo l + cl_leaseBlocks l) (b + 1) \<and> hw \<le> MAX_BLOCK_INDEX"
  by (auto simp: ensure_def Let_def)

lemma lease_inv_init: "lease_inv lease_init"
  by (simp add: lease_inv_def lease_init_def mark_def MAX_BLOCK_INDEX_def)

lemma lease_inv_step:
  assumes "lease_step w w'" "lease_inv w"
  shows "lease_inv w'"
  using assms(1)
proof cases
  case (boot n l)
  with assms(2) show ?thesis
    by (auto simp: lease_inv_def mark_def resume_Inr split: option.splits)
next
  case (persist p b hw)
  with assms(2) have "\<forall>c\<in>set (lw_consumed w). c < cl_confirmedTo (lp_lease p)" "0 \<le> cl_confirmedTo (lp_lease p)"
    "0 < cl_leaseBlocks (lp_lease p)"
    by (auto simp: lease_inv_def)
  with persist assms(2) show ?thesis
    by (fastforce simp: lease_inv_def mark_def ensure_Some)
next
  case (confirmed p hw l)
  with assms(2) show ?thesis
    by (fastforce simp: lease_inv_def mark_def confirm_def split: if_splits)
next
  case (consume p b)
  then have "b < mark w" "0 \<le> b" using assms(2) by (auto simp: lease_inv_def canConsume_def)
  with consume assms(2) show ?thesis
    by (fastforce simp: lease_inv_def mark_def canConsume_def sorted_wrt_append)
next
  case crash
  with assms(2) show ?thesis by (simp add: lease_inv_def mark_def)
qed

section \<open>The properties\<close>

text \<open>C10: in every run of the protocol, whatever its crashes and restarts, the blocks consumed
  are strictly increasing, so none is ever consumed twice, and each lies below the durable
  high-water mark from which the next process starts.\<close>

theorem lease_never_reuses:
  assumes "lease_step\<^sup>*\<^sup>* lease_init w"
  shows "sorted_wrt (<) (lw_consumed w) \<and> distinct (lw_consumed w) \<and>
    (\<forall>b\<in>set (lw_consumed w). b < (case lw_durable w of None \<Rightarrow> 0 | Some h \<Rightarrow> h))"
proof -
  have "lease_inv w"
    using assms by (induction rule: rtranclp_induct) (auto intro: lease_inv_init lease_inv_step)
  then show ?thesis by (auto simp: lease_inv_def mark_def strict_sorted_iff)
qed

abbreviation demo_lease :: "int \<Rightarrow> int \<Rightarrow> cursor_lease" where
  "demo_lease s c \<equiv> \<lparr>cl_startAt = s, cl_confirmedTo = c, cl_leaseBlocks = 4\<rparr>"

text \<open>A run with a crash after the reservation was persisted and one block consumed.\<close>

lemma demo_lease_run:
  "lease_step\<^sup>*\<^sup>* lease_init \<lparr>lw_durable = Some 8, lw_process =
     Some \<lparr>lp_lease = demo_lease 4 8, lp_pending = None, lp_next = 5\<rparr>, lw_consumed = [0, 4]\<rparr>"
proof -
  let ?w = "\<lambda>d p c. \<lparr>lw_durable = d, lw_process = p, lw_consumed = c\<rparr>"
  let ?p = "\<lambda>s c q n. Some \<lparr>lp_lease = demo_lease s c, lp_pending = q, lp_next = n\<rparr>"
  have "lease_step (?w None None []) (?w None (?p 0 0 None 0) [])"
    using boot [of "?w None None []" 4] by (simp add: resume_def MAX_BLOCK_INDEX_def)
  moreover have "lease_step (?w None (?p 0 0 None 0) []) (?w (Some 4) (?p 0 0 (Some 4) 0) [])"
    using persist [of "?w None (?p 0 0 None 0) []" _ 0 4] by (simp add: ensure_def MAX_BLOCK_INDEX_def)
  moreover have "lease_step (?w (Some 4) (?p 0 0 (Some 4) 0) []) (?w (Some 4) (?p 0 4 None 0) [])"
    using confirmed [of "?w (Some 4) (?p 0 0 (Some 4) 0) []" _ 4 "demo_lease 0 4"] by (simp add: confirm_def MAX_BLOCK_INDEX_def)
  moreover have "lease_step (?w (Some 4) (?p 0 4 None 0) []) (?w (Some 4) (?p 0 4 None 1) [0])"
    using consume [of "?w (Some 4) (?p 0 4 None 0) []" _ 0] by (simp add: canConsume_def)
  moreover have "lease_step (?w (Some 4) (?p 0 4 None 1) [0]) (?w (Some 4) None [0])"
    using crash [of "?w (Some 4) (?p 0 4 None 1) [0]"] by simp
  moreover have "lease_step (?w (Some 4) None [0]) (?w (Some 4) (?p 4 4 None 4) [0])"
    using boot [of "?w (Some 4) None [0]" 4] by (simp add: resume_def MAX_BLOCK_INDEX_def)
  moreover have "lease_step (?w (Some 4) (?p 4 4 None 4) [0]) (?w (Some 8) (?p 4 4 (Some 8) 4) [0])"
    using persist [of "?w (Some 4) (?p 4 4 None 4) [0]" _ 4 8] by (simp add: ensure_def MAX_BLOCK_INDEX_def)
  moreover have "lease_step (?w (Some 8) (?p 4 4 (Some 8) 4) [0]) (?w (Some 8) (?p 4 8 None 4) [0])"
    using confirmed [of "?w (Some 8) (?p 4 4 (Some 8) 4) [0]" _ 8 "demo_lease 4 8"] by (simp add: confirm_def MAX_BLOCK_INDEX_def)
  moreover have "lease_step (?w (Some 8) (?p 4 8 None 4) [0]) (?w (Some 8) (?p 4 8 None 5) [0, 4])"
    using consume [of "?w (Some 8) (?p 4 8 None 4) [0]" _ 4] by (simp add: canConsume_def)
  ultimately show ?thesis
    unfolding lease_init_def by (meson rtranclp.rtrancl_into_rtrancl rtranclp.rtrancl_refl)
qed

theorem lease_never_reuses_witness:
  "\<exists>w. lease_step\<^sup>*\<^sup>* lease_init w \<and> lw_consumed w = [0, 4] \<and> distinct (lw_consumed w)"
  using demo_lease_run lease_never_reuses [OF demo_lease_run] by (intro exI conjI) auto

text \<open>A reservation that is persisted and confirmed is always enough: after it the block it
  was made for may be consumed, and a block that needs none may be consumed at once; the only
  refusals are a block before the lease and the end of the keystream.\<close>

theorem ensure_then_consume:
  assumes "0 < cl_leaseBlocks l"
  shows "case ensure l b of
      Inl e \<Rightarrow> b < cl_startAt l \<or> MAX_BLOCK_INDEX < max (cl_confirmedTo l + cl_leaseBlocks l) (b + 1)
    | Inr None \<Rightarrow> canConsume l b
    | Inr (Some hw) \<Rightarrow> \<not> canConsume l b \<and> cl_confirmedTo l < hw \<and>
        (\<exists>l'. confirm l hw = Inr l' \<and> canConsume l' b \<and> cl_startAt l' = cl_startAt l)"
  using assms by (auto simp: ensure_def confirm_def canConsume_def Let_def)

theorem ensure_then_consume_witness:
  "0 < cl_leaseBlocks (demo_lease 4 8) \<and> ensure (demo_lease 4 8) 9 = Inr (Some 12) \<and>
   (\<exists>l'. confirm (demo_lease 4 8) 12 = Inr l' \<and> canConsume l' 9)"
proof -
  have p: "0 < cl_leaseBlocks (demo_lease 4 8)" by simp
  have e: "ensure (demo_lease 4 8) 9 = Inr (Some 12)" by (simp add: ensure_def MAX_BLOCK_INDEX_def)
  show ?thesis using ensure_then_consume [OF p, of 9] e by auto
qed

end
