(* ===== verification/Label.thy ===== *)
theory Label
  imports CursorLease
begin

text \<open>
  Stream labels and key derivation: packages/core/src/entropy (label.ts, keyring.ts). A label
  names the stream a keystream is for; its canonical form is the information fed to the key
  derivation function. HKDF is the platform's (\<^verbatim>\<open>node:crypto\<close>), so it is an argument here,
  \<open>hkdf secret salt info length\<close>; the only fact asked of it is the length of its output.
\<close>

section \<open>Labels\<close>

definition ENVIRONMENTS :: "string list" where
  "ENVIRONMENTS = [''production'', ''staging'', ''simulation'', ''test'']"

record stream_label =
  sl_env :: string
  sl_asset :: string
  sl_purpose :: string
  sl_keyEpoch :: jsnum

text \<open>\<^verbatim>\<open>/^[a-z0-9][a-z0-9._-]{0,63}$/\<close>, by the codes of its characters.\<close>

definition component_head :: "char \<Rightarrow> bool" where
  "component_head c \<longleftrightarrow> (let n = of_char c :: nat in (97 \<le> n \<and> n \<le> 122) \<or> (48 \<le> n \<and> n \<le> 57))"

definition component_char :: "char \<Rightarrow> bool" where
  "component_char c \<longleftrightarrow> component_head c \<or> c = CHR ''.'' \<or> c = CHR ''_'' \<or> c = CHR ''-''"

definition COMPONENT_PATTERN :: "string \<Rightarrow> bool" where
  "COMPONENT_PATTERN v = (case v of [] \<Rightarrow> False
     | c # cs \<Rightarrow> component_head c \<and> list_all component_char cs \<and> length cs \<le> 63)"

definition LABEL_VERSION :: string where
  "LABEL_VERSION = ''otc1''"

definition assertComponent :: "string \<Rightarrow> string \<Rightarrow> unit result" where
  "assertComponent name v = require (COMPONENT_PATTERN v) (InvalidStreamLabel name)"

definition assertValidStreamLabel :: "stream_label \<Rightarrow> unit result" where
  "assertValidStreamLabel l =
     andThen (require (sl_env l \<in> set ENVIRONMENTS) (InvalidStreamLabel ''environment'')) (\<lambda>_.
     andThen (assertComponent ''asset'' (sl_asset l)) (\<lambda>_.
     andThen (assertComponent ''purpose'' (sl_purpose l)) (\<lambda>_.
     require (isSafeInteger (sl_keyEpoch l) \<and> \<not> js_lt (sl_keyEpoch l) (num 0))
       (InvalidStreamLabel ''keyEpoch''))))"

text \<open>The epoch printed is a checked safe integer, written in decimal.\<close>

definition canonicalLabel :: "stream_label \<Rightarrow> string result" where
  "canonicalLabel l = andThen (assertValidStreamLabel l) (\<lambda>_.
     Inr (LABEL_VERSION @ ''|env='' @ sl_env l @ ''|asset='' @ sl_asset l @ ''|purpose='' @
       sl_purpose l @ ''|epoch='' @ dec_int (int_of (sl_keyEpoch l))))"

section \<open>The keyring\<close>

text \<open>\<^verbatim>\<open>TextEncoder\<close> on the characters of a string, in UTF-8.\<close>

definition encode_char :: "char \<Rightarrow> byte list" where
  "encode_char c = (let n = of_char c :: nat in
     if n < 128 then [of_nat n] else [of_nat (192 + n div 64), of_nat (128 + n mod 64)])"

definition encode :: "string \<Rightarrow> byte list" where
  "encode s = concat (map encode_char s)"

definition HKDF_SALT :: "byte list" where
  "HKDF_SALT = encode ''otc-engine/entropy/v1''"

abbreviation MIN_SECRET_BYTES :: nat where "MIN_SECRET_BYTES \<equiv> 32"

type_synonym hkdf = "byte list \<Rightarrow> byte list \<Rightarrow> byte list \<Rightarrow> nat \<Rightarrow> byte list"

record master_keyring =
  mk_keyId :: string
  mk_secret :: "byte list"
  mk_productionAllowed :: bool

definition fromSecret :: "string \<Rightarrow> byte list \<Rightarrow> master_keyring result" where
  "fromSecret keyId secret =
     (if length secret < MIN_SECRET_BYTES then Inl (TypeError ''Master secret'')
      else Inr \<lparr>mk_keyId = keyId, mk_secret = secret, mk_productionAllowed = True\<rparr>)"

definition forTesting :: "hkdf \<Rightarrow> string \<Rightarrow> master_keyring" where
  "forTesting hkdf tag = (let secret = hkdf (encode (''otc-engine/test-keyring/'' @ tag)) HKDF_SALT
       (encode ''test-master-secret'') MIN_SECRET_BYTES in
     \<lparr>mk_keyId = ''test:'' @ tag, mk_secret = secret, mk_productionAllowed = False\<rparr>)"

definition deriveKey :: "hkdf \<Rightarrow> master_keyring \<Rightarrow> stream_label \<Rightarrow> byte list result" where
  "deriveKey hkdf k l =
     (if sl_env l = ''production'' \<and> \<not> mk_productionAllowed k
      then Inl (ProductionStreamFromTestKeyring)
      else andThen (canonicalLabel l) (\<lambda>s. let info = encode s in
        Inr (hkdf (mk_secret k) HKDF_SALT info CHACHA20_KEY_BYTES)))"

definition derive :: "hkdf \<Rightarrow> master_keyring \<Rightarrow> stream_label \<Rightarrow> stream_cursor option \<Rightarrow> random_stream result" where
  "derive hkdf k l start = andThen (deriveKey hkdf k l) (\<lambda>key.
     andThen (canonicalLabel l) (\<lambda>name.
     new_RandomStream key name
       (case start of None \<Rightarrow> \<lparr>cu_blockIndex = 0, cu_byteOffset = 0\<rparr> | Some c \<Rightarrow> c)))"

section \<open>Separators\<close>

lemma component_no_bar: "component_char c \<Longrightarrow> c \<noteq> CHR ''|''"
  by (auto simp: component_char_def component_head_def Let_def)

lemma COMPONENT_PATTERN_no_bar: "COMPONENT_PATTERN v \<Longrightarrow> CHR ''|'' \<notin> set v"
  using component_no_bar by (cases v) (auto simp: COMPONENT_PATTERN_def list_all_iff component_char_def)

lemma environment_no_bar: "v \<in> set ENVIRONMENTS \<Longrightarrow> CHR ''|'' \<notin> set v"
  by (auto simp: ENVIRONMENTS_def)

lemma split_at_bar:
  assumes "CHR ''|'' \<notin> set xs" "CHR ''|'' \<notin> set ys"
  shows "xs @ CHR ''|'' # r = ys @ CHR ''|'' # r' \<longleftrightarrow> xs = ys \<and> r = r'"
proof
  assume e: "xs @ CHR ''|'' # r = ys @ CHR ''|'' # r'"
  have t: "takeWhile (\<lambda>c. c \<noteq> CHR ''|'') (zs @ CHR ''|'' # q) = zs" if "CHR ''|'' \<notin> set zs" for zs q
    using that by (induction zs) auto
  from t [OF assms(1), of r] t [OF assms(2), of r'] e have "xs = ys" by metis
  with e show "xs = ys \<and> r = r'" by simp
qed simp

lemma dec_nat_inject: "dec_nat a = dec_nat b \<longleftrightarrow> a = b"
  using dec_nat_ok [of a] dec_nat_ok [of b] by metis

lemma dec_int_inject: "0 \<le> a \<Longrightarrow> 0 \<le> b \<Longrightarrow> dec_int a = dec_int b \<longleftrightarrow> a = b"
  by (simp add: dec_int_def dec_nat_inject eq_nat_nat_iff)

lemma valid_label:
  "assertValidStreamLabel l = Inr () \<longleftrightarrow> sl_env l \<in> set ENVIRONMENTS \<and> COMPONENT_PATTERN (sl_asset l) \<and>
     COMPONENT_PATTERN (sl_purpose l) \<and> (\<exists>n. sl_keyEpoch l = num n \<and> 0 \<le> n \<and> n \<le> MAX_SAFE)"
proof -
  have "isSafeInteger x \<and> \<not> js_lt x (num 0) \<longleftrightarrow> (\<exists>n. x = num n \<and> 0 \<le> n \<and> n \<le> MAX_SAFE)" for x
  proof
    assume h: "isSafeInteger x \<and> \<not> js_lt x (num 0)"
    then obtain n where "x = num n" "\<bar>n\<bar> \<le> MAX_SAFE" using isSafeInteger_num by blast
    with h show "\<exists>n. x = num n \<and> 0 \<le> n \<and> n \<le> MAX_SAFE" by auto
  qed auto
  then show ?thesis
    by (simp add: assertValidStreamLabel_def assertComponent_def andThen_Inr_iff)
qed

lemma canonicalLabel_Inr:
  "canonicalLabel l = Inr s \<longleftrightarrow> assertValidStreamLabel l = Inr () \<and>
     s = LABEL_VERSION @ ''|env='' @ sl_env l @ ''|asset='' @ sl_asset l @ ''|purpose='' @
       sl_purpose l @ ''|epoch='' @ dec_int (int_of (sl_keyEpoch l))"
  by (auto simp: canonicalLabel_def andThen_Inr_iff)

lemma canonicalLabel_inject:
  assumes "canonicalLabel l = Inr s" "canonicalLabel l' = Inr s"
  shows "l = l'"
proof -
  note V = assms [unfolded canonicalLabel_Inr valid_label]
  obtain n n' where n: "sl_keyEpoch l = num n" "0 \<le> n" "sl_keyEpoch l' = num n'" "0 \<le> n'"
    using V by blast
  have nb: "CHR ''|'' \<notin> set (sl_env l)" "CHR ''|'' \<notin> set (sl_env l')"
    "CHR ''|'' \<notin> set (sl_asset l)" "CHR ''|'' \<notin> set (sl_asset l')"
    "CHR ''|'' \<notin> set (sl_purpose l)" "CHR ''|'' \<notin> set (sl_purpose l')"
    using V environment_no_bar COMPONENT_PATTERN_no_bar by blast+
  have e: "sl_env l @ CHR ''|'' # ''asset='' @ sl_asset l @ CHR ''|'' # ''purpose='' @
       sl_purpose l @ CHR ''|'' # ''epoch='' @ dec_int n =
     sl_env l' @ CHR ''|'' # ''asset='' @ sl_asset l' @ CHR ''|'' # ''purpose='' @
       sl_purpose l' @ CHR ''|'' # ''epoch='' @ dec_int n'"
    using V n by simp
  from e have "sl_env l = sl_env l'" "sl_asset l = sl_asset l'" "sl_purpose l = sl_purpose l'"
    "dec_int n = dec_int n'"
    unfolding split_at_bar [OF nb(1,2)] by (auto simp: split_at_bar [OF nb(3,4)] split_at_bar [OF nb(5,6)])
  then show ?thesis using n dec_int_inject [of n n'] by (cases l; cases l') auto
qed

text \<open>Encoding is injective on the characters a canonical label holds.\<close>

definition ascii :: "string \<Rightarrow> bool" where
  "ascii s \<longleftrightarrow> (\<forall>c\<in>set s. (of_char c :: nat) < 128)"

lemma encode_ascii: "ascii s \<Longrightarrow> encode s = map (\<lambda>c. of_nat (of_char c)) s"
  by (induction s) (auto simp: encode_def encode_char_def ascii_def Let_def)

lemma encode_inject:
  assumes "ascii s" "ascii s'" "encode s = encode s'"
  shows "s = s'"
proof -
  have i: "inj_on (\<lambda>c. of_nat (of_char c :: nat) :: byte) {c. (of_char c :: nat) < 128}"
  proof (rule inj_onI)
    fix c d assume h: "c \<in> {c. (of_char c :: nat) < 128}" "d \<in> {c. (of_char c :: nat) < 128}"
      "(of_nat (of_char c) :: byte) = of_nat (of_char d)"
    then have "unat (of_nat (of_char c) :: byte) = unat (of_nat (of_char d) :: byte)" by simp
    then have "(of_char c :: nat) = of_char d" using h(1,2) by (simp add: unat_of_nat)
    then show "c = d" by simp
  qed
  have "map (\<lambda>c. of_nat (of_char c :: nat) :: byte) s = map (\<lambda>c. of_nat (of_char c)) s'"
    using assms by (simp add: encode_ascii)
  moreover have "set s \<union> set s' \<subseteq> {c. (of_char c :: nat) < 128}"
    using assms by (auto simp: ascii_def)
  ultimately show ?thesis using map_inj_on [of _ s s'] inj_on_subset [OF i] by blast
qed

lemma ascii_append [simp]: "ascii (s @ t) \<longleftrightarrow> ascii s \<and> ascii t"
  by (auto simp: ascii_def)

lemma ascii_Cons [simp]: "ascii (c # s) \<longleftrightarrow> (of_char c :: nat) < 128 \<and> ascii s"
  by (auto simp: ascii_def)

lemma ascii_Nil [simp]: "ascii []"
  by (simp add: ascii_def)

lemma ascii_component: "COMPONENT_PATTERN v \<Longrightarrow> ascii v"
proof -
  have c: "component_char c \<Longrightarrow> (of_char c :: nat) < 128" for c
    by (auto simp: component_char_def component_head_def Let_def)
  then show "COMPONENT_PATTERN v \<Longrightarrow> ascii v"
    by (cases v) (auto simp: COMPONENT_PATTERN_def list_all_iff component_char_def ascii_def)
qed

lemma ascii_canonical:
  assumes "canonicalLabel l = Inr s"
  shows "ascii s"
proof -
  note V = assms [unfolded canonicalLabel_Inr valid_label]
  obtain n where n: "sl_keyEpoch l = num n" "0 \<le> n" using V by blast
  have "\<forall>c\<in>set (dec_nat m). (of_char c :: nat) < 128" for m
    using dec_nat_ok [of m] by (auto simp: list_all_iff is_digit_def)
  then have "ascii (dec_int n)" using n(2) by (simp add: dec_int_def ascii_def)
  moreover have "ascii (sl_env l)" using V by (auto simp: ENVIRONMENTS_def)
  moreover have "ascii (sl_asset l)" "ascii (sl_purpose l)" using V ascii_component by blast+
  ultimately show ?thesis using V n by (simp add: LABEL_VERSION_def)
qed

section \<open>The properties\<close>

text \<open> two distinct labels never share a key by accident: a label is refused, or its canonical
  form, and the bytes derivation is fed, determine its environment, asset, purpose and epoch.\<close>

theorem canonicalLabel_injective:
  assumes "canonicalLabel l = Inr s" "canonicalLabel l' = Inr s'"
  shows "(s = s' \<longleftrightarrow> l = l') \<and> (encode s = encode s' \<longleftrightarrow> l = l')"
  using assms canonicalLabel_inject encode_inject ascii_canonical by (metis sum.inject(2))

abbreviation demo_label :: "string \<Rightarrow> string \<Rightarrow> stream_label" where
  "demo_label env purpose \<equiv> \<lparr>sl_env = env, sl_asset = ''eurusd-otc'', sl_purpose = purpose,
     sl_keyEpoch = num 17\<rparr>"

lemma demo_labels:
  "canonicalLabel (demo_label ''simulation'' ''sign'') =
     Inr ''otc1|env=simulation|asset=eurusd-otc|purpose=sign|epoch=17''"
  "canonicalLabel (demo_label ''test'' ''arrival'') =
     Inr ''otc1|env=test|asset=eurusd-otc|purpose=arrival|epoch=17''"
  by (code_simp, code_simp)

theorem canonicalLabel_injective_witness:
  "encode ''otc1|env=simulation|asset=eurusd-otc|purpose=sign|epoch=17'' \<noteq>
   encode ''otc1|env=test|asset=eurusd-otc|purpose=arrival|epoch=17''"
  using canonicalLabel_injective [OF demo_labels] by simp

text \<open>A keyring made for tests never yields a production stream, for any label and any key
  derivation function, and a master secret shorter than 32 bytes makes no keyring at all.\<close>

theorem test_keyring_refuses_production:
  "\<exists>e. derive hkdf (forTesting hkdf tag) (l\<lparr>sl_env := ''production''\<rparr>) start = Inl e \<and>
     deriveKey hkdf (forTesting hkdf tag) (l\<lparr>sl_env := ''production''\<rparr>) = Inl e \<and>
     (fromSecret keyId secret = Inl (TypeError ''Master secret'')) = (length secret < 32)"
  by (auto simp: derive_def deriveKey_def forTesting_def fromSecret_def Let_def)

text \<open>A derived stream is ready to draw from the cursor it was asked for, whenever the label
  and the cursor are valid and the derivation function answers the bytes it was asked for.\<close>

theorem derive_positions:
  assumes "\<And>secret salt info n. length (hkdf secret salt info n) = n"
    and "assertValidStreamLabel l = Inr ()" "valid_cursor c"
    and "mk_productionAllowed k \<or> sl_env l \<noteq> ''production''"
  shows "\<exists>s. derive hkdf k l (Some c) = Inr s \<and> stream_ok s \<and> position s = c"
proof -
  obtain name where n: "canonicalLabel l = Inr name" using assms(2) by (simp add: canonicalLabel_def)
  obtain key where key: "deriveKey hkdf k l = Inr key" "length key = 32"
    using n assms(1,4) by (auto simp: deriveKey_def Let_def)
  have "assertCursor (cu_blockIndex c) (num (cu_byteOffset c)) = Inr ()"
    using assms(3) by (simp add: assertCursor_num valid_cursor_def)
  then obtain s where s: "new_RandomStream key name c = Inr s"
    using key(2) by (auto simp: new_RandomStream_def expandKey_def)
  with n key(1) have "derive hkdf k l (Some c) = Inr s" by (simp add: derive_def)
  with new_stream_ok [OF s] show ?thesis by blast
qed

theorem derive_positions_witness:
  "\<exists>s. derive (\<lambda>secret salt info n. replicate n 7) (forTesting (\<lambda>secret salt info n. replicate n 7) ''t'')
     (demo_label ''test'' ''sign'') (Some demo_start) = Inr s \<and> position s = demo_start"
proof -
  let ?h = "\<lambda>secret salt info n. replicate n (7 :: byte)"
  have 1: "\<And>secret salt info n. length (?h secret salt info n) = n" by simp
  have 2: "assertValidStreamLabel (demo_label ''test'' ''sign'') = Inr ()" by code_simp
  have 3: "valid_cursor demo_start" by (simp add: valid_cursor_def)
  show ?thesis using derive_positions [OF 1 2 3, of "forTesting ?h ''t''"] by auto
qed

end
