(* ===== verification/Contract.thy ===== *)
theory Contract
  imports Market
begin

text \<open>
  Contracts and payouts: packages/trading/src/contract.ts. Stakes are integers in the broker's
  minor unit and ratios decimals of at most four places, both carried as Numbers, so the payout
  is computed in binary64; the theory shows that it is nevertheless the exact truncated
  product for every ratio a broker can advertise.
\<close>

section \<open>Data\<close>

datatype AtMoneyPolicy = AM_refund | AM_loss | AM_win

definition DEFAULT_AT_MONEY_POLICY :: AtMoneyPolicy where
  "DEFAULT_AT_MONEY_POLICY = AM_refund"

datatype Outcome = Win | Loss | Refund

text \<open>\<^verbatim>\<open>direction\<close> is checked at run time against its two values, so it is a string here.\<close>

record contract =
  ct_id :: string
  ct_assetId :: string
  ct_direction :: string
  ct_stake :: jsnum
  ct_entryInstant :: int
  ct_horizonMs :: jsnum
  ct_payoutRatio :: jsnum

record settlement =
  se_contractId :: string
  se_outcome :: Outcome
  se_entryPrice :: int
  se_expiryPrice :: int
  se_entryIndex :: nat
  se_expiryIndex :: nat
  se_expiryInstant :: int
  se_returned :: jsnum
  se_net :: jsnum
  se_seamsCrossed :: nat

definition PAYOUT_RATIO_SCALE :: int where
  "PAYOUT_RATIO_SCALE = 10000"

definition scaledRatio :: "jsnum \<Rightarrow> jsnum" where
  "scaledRatio payoutRatio = js_round (js_mul payoutRatio (num PAYOUT_RATIO_SCALE))"

definition payoutMinor :: "jsnum \<Rightarrow> jsnum \<Rightarrow> jsnum result" where
  "payoutMinor stake payoutRatio =
     (let scaled = scaledRatio payoutRatio; product = js_mul stake scaled in
      if \<not> isSafeInteger product then Inl (RangeError ''exact integer range'')
      else Inr (js_floor (js_div product (num PAYOUT_RATIO_SCALE))))"

definition RATIO_TOLERANCE :: jsnum where
  "RATIO_TOLERANCE = js_of_rat (1 / 1000000)"

definition assertContract :: "contract \<Rightarrow> unit result" where
  "assertContract c =
     andThen (require (isSafeInteger (ct_stake c) \<and> \<not> js_le (ct_stake c) (num 0)) (RangeError ''Stake'')) (\<lambda>_.
     andThen (require (js_lt (num 0) (ct_payoutRatio c) \<and> isFinite (ct_payoutRatio c))
                (RangeError ''Payout ratio'')) (\<lambda>_.
     let scaled = js_mul (ct_payoutRatio c) (num PAYOUT_RATIO_SCALE) in
     andThen (require (\<not> js_lt RATIO_TOLERANCE (js_abs (js_sub scaled (js_round scaled))))
                (RangeError ''four decimal places'')) (\<lambda>_.
     andThen (require (isInteger (ct_horizonMs c) \<and> \<not> js_le (ct_horizonMs c) (num 0))
                (RangeError ''Horizon'')) (\<lambda>_.
     require (ct_direction c = ''up'' \<or> ct_direction c = ''down'') (RangeError ''direction'')))))"

section \<open>The payout is exact\<close>

lemma payoutMinor_num:
  assumes "0 \<le> s" "0 \<le> k" "scaledRatio r = num k"
  shows "payoutMinor (num s) r =
    (if s * k \<le> MAX_SAFE then Inr (num (s * k div PAYOUT_RATIO_SCALE))
     else Inl (RangeError ''exact integer range''))"
proof (cases "s * k \<le> MAX_SAFE")
  case True
  have "0 \<le> s * k" using assms by simp
  with True have "js_mul (num s) (num k) = num (s * k)" by (intro js_mul_num) simp
  with True \<open>0 \<le> s * k\<close> show ?thesis
    by (simp add: payoutMinor_def assms(3) Let_def js_floor_div_10000 PAYOUT_RATIO_SCALE_def)
next
  case False
  then have "2 ^ 53 \<le> s * k" by simp
  then have "(of_int (2 ^ 53) :: rat) \<le> of_int (s * k)" by (simp only: of_int_le_iff)
  then have "2 ^ 53 \<le> (of_int s * of_int k :: rat)" by simp
  then have "\<not> isSafeInteger (js_mul (num s) (num k))"
    using js_of_rat_big(1) by (simp add: num_def)
  with False show ?thesis by (simp add: payoutMinor_def assms(3) Let_def)
qed

text \<open>Rounding a value below \<open>pow2 e\<close> moves it by at most half the unit of that binade.\<close>

lemma fl_close:
  assumes "\<bar>x\<bar> < pow2 e" "-1000 \<le> e"
  shows "\<bar>fl x - x\<bar> \<le> pow2 (e - 53) / 2"
proof (cases "x = 0")
  case False
  then have "mag_exp \<bar>x\<bar> < e" using assms by (intro mag_exp_less) auto
  then have "ulp_exp x \<le> e - 53" using assms(2) by (simp add: ulp_exp_def)
  then have "pow2 (ulp_exp x) \<le> pow2 (e - 53)" by (rule pow2_mono)
  with fl_error [of x] show ?thesis by linarith
qed (simp add: less_imp_le)

lemma js_of_rat_small:
  assumes "\<bar>x\<bar> < pow2 e" "-1000 \<le> e" "e \<le> 100"
  shows "js_of_rat x = Fin (fl x)"
proof -
  have "pow2 (e - 53) \<le> pow2 e" by (rule pow2_mono) simp
  then have "\<bar>fl x\<bar> < pow2 e + pow2 e" using fl_close [OF assms(1,2)] assms(1) pow2_pos [of e] by linarith
  also have "pow2 e \<le> pow2 100" using assms(3) by (rule pow2_mono)
  finally have "\<bar>fl x\<bar> < pow2 100 + pow2 100"
    using \<open>pow2 e \<le> pow2 100\<close> by linarith
  moreover have "pow2 100 + pow2 100 < 2 ^ 1024" by (simp add: pow2_def)
  ultimately have "\<not> 2 ^ 1024 \<le> fl x" "\<not> fl x \<le> - (2 ^ 1024)" by linarith+
  then show ?thesis by (simp add: js_of_rat_def Let_def)
qed

text \<open>A decimal of four places up to 10000, as the nearest Number.\<close>

definition decimal_ratio :: "int \<Rightarrow> jsnum" where
  "decimal_ratio k = js_of_rat (of_int k / 10000)"

lemma decimal_scaled:
  assumes "0 < k" "k \<le> 100000000"
  obtains y where "js_mul (decimal_ratio k) (num PAYOUT_RATIO_SCALE) = Fin y"
    "\<bar>y - of_int k\<bar> \<le> pow2 (-25)" "\<exists>r. decimal_ratio k = Fin r \<and> 0 < r"
proof -
  let ?x = "of_int k / 10000 :: rat"
  have kr: "(1::rat) \<le> of_int k" "(of_int k :: rat) \<le> 100000000"
    using assms by (simp_all only: of_int_1_le_iff of_int_le_numeral_iff)
  have x: "\<bar>?x\<bar> < pow2 14" using kr by (simp add: pow2_def abs_if)
  let ?r = "fl ?x"
  have r: "decimal_ratio k = Fin ?r"
    unfolding decimal_ratio_def using x by (rule js_of_rat_small) simp_all
  have er: "\<bar>?r - ?x\<bar> \<le> pow2 (-39) / 2" using fl_close [OF x] by simp
  let ?y = "?r * 10000"
  have ey: "\<bar>?y - of_int k\<bar> \<le> 10000 * (pow2 (-39) / 2)"
  proof -
    have "?y - of_int k = (?r - ?x) * 10000" by (simp add: algebra_simps)
    then have "\<bar>?y - of_int k\<bar> = \<bar>?r - ?x\<bar> * 10000" by (simp only: abs_mult abs_numeral)
    then show ?thesis using er by linarith
  qed
  then have y: "\<bar>?y\<bar> < pow2 27" using kr by (simp add: pow2_def abs_if split: if_splits)
  have "js_mul (decimal_ratio k) (num PAYOUT_RATIO_SCALE) = Fin (fl ?y)"
    using js_of_rat_small [OF y] by (simp add: r num_def PAYOUT_RATIO_SCALE_def)
  moreover have "\<bar>fl ?y - of_int k\<bar> \<le> pow2 (-25)"
    using fl_close [OF y] ey by (simp add: pow2_def abs_if split: if_splits)
  moreover have "0 < ?r"
    using er kr by (simp add: pow2_def abs_if split: if_splits)
  ultimately show thesis using that r by blast
qed

lemma decimal_round:
  assumes "0 < k" "k \<le> 100000000"
  shows "scaledRatio (decimal_ratio k) = num k"
proof -
  obtain y where y: "js_mul (decimal_ratio k) (num PAYOUT_RATIO_SCALE) = Fin y"
    "\<bar>y - of_int k\<bar> \<le> pow2 (-25)"
    by (rule decimal_scaled [OF assms])
  then have "of_int k \<le> y + 1/2" "y + 1/2 < of_int k + 1"
    by (simp_all add: pow2_def abs_if split: if_splits)
  then have "\<lfloor>y + 1/2\<rfloor> = k" by (simp add: floor_eq_iff)
  with y(1) show ?thesis by (simp add: scaledRatio_def)
qed

text \<open>Every such decimal is within the tolerance of the contract check.\<close>

lemma decimal_tolerated:
  assumes "0 < k" "k \<le> 100000000"
  shows "js_lt (num 0) (decimal_ratio k)" "isFinite (decimal_ratio k)"
    "let scaled = js_mul (decimal_ratio k) (num PAYOUT_RATIO_SCALE) in
     \<not> js_lt RATIO_TOLERANCE (js_abs (js_sub scaled (js_round scaled)))"
proof -
  obtain y where y: "js_mul (decimal_ratio k) (num PAYOUT_RATIO_SCALE) = Fin y"
    "\<bar>y - of_int k\<bar> \<le> pow2 (-25)" "\<exists>r. decimal_ratio k = Fin r \<and> 0 < r"
    by (rule decimal_scaled [OF assms])
  then show "js_lt (num 0) (decimal_ratio k)" "isFinite (decimal_ratio k)" by (auto simp: num_def)
  have r: "js_round (Fin y) = num k"
    using decimal_round [OF assms] y(1) by (simp add: scaledRatio_def)
  let ?d = "y - of_int k"
  have d: "\<bar>?d\<bar> < pow2 (-24)" using y(2) by (simp add: pow2_def)
  have "js_sub (Fin y) (num k) = Fin (fl ?d)"
    using js_of_rat_small [OF d] by (simp add: js_sub_def num_def)
  moreover have "\<bar>fl ?d\<bar> \<le> 1 / 2000000"
    using fl_close [OF d] y(2) by (simp add: pow2_def abs_if split: if_splits)
  moreover obtain t where t: "RATIO_TOLERANCE = Fin t" "1 / 2000000 \<le> t"
  proof -
    have x: "\<bar>1 / 1000000 :: rat\<bar> < pow2 (-19)" by (simp add: pow2_def)
    have "1 / 2000000 \<le> fl (1 / 1000000)"
      using fl_close [OF x] by (simp add: pow2_def abs_if split: if_splits)
    with that js_of_rat_small [OF x] show thesis by (simp add: RATIO_TOLERANCE_def)
  qed
  moreover from calculation t have "\<not> t < \<bar>fl ?d\<bar>" by linarith
  ultimately show "let scaled = js_mul (decimal_ratio k) (num PAYOUT_RATIO_SCALE) in
     \<not> js_lt RATIO_TOLERANCE (js_abs (js_sub scaled (js_round scaled)))"
    unfolding y(1) Let_def r t(1) by simp
qed

lemma assertContract_fields:
  assumes "assertContract c = Inr ()"
  obtains s h where "ct_stake c = num s" "0 < s" "s \<le> MAX_SAFE" "ct_horizonMs c = num h" "0 < h"
    "ct_direction c = ''up'' \<or> ct_direction c = ''down''"
proof -
  have s: "isSafeInteger (ct_stake c)" "\<not> js_le (ct_stake c) (num 0)"
    and h: "isInteger (ct_horizonMs c)" "\<not> js_le (ct_horizonMs c) (num 0)"
    and d: "ct_direction c = ''up'' \<or> ct_direction c = ''down''"
    using assms by (auto simp: assertContract_def andThen_Inr_iff Let_def)
  obtain x where x: "ct_stake c = num x" "\<bar>x\<bar> \<le> MAX_SAFE" using isSafeInteger_num [OF s(1)] by blast
  obtain y where y: "ct_horizonMs c = num y" using isInteger_num [OF h(1)] by blast
  show thesis using that [of x y] x y s(2) h(2) d by simp
qed

section \<open>The properties\<close>

text \<open>C14: for every positive payout ratio of up to four decimals up to 10000, carried as the nearest
  Number, and every positive stake, the payout is the exact product truncated to the minor unit; when the exact
  product leaves the safe range the computation refuses instead of rounding.\<close>

theorem payoutMinor_exact:
  assumes "0 < s" "0 < k" "k \<le> 100000000"
  shows "payoutMinor (num s) (decimal_ratio k) =
    (if s * k \<le> MAX_SAFE then Inr (num (s * k div 10000)) else Inl (RangeError ''exact integer range''))"
  using payoutMinor_num [OF _ _ decimal_round [OF assms(2,3)], of s] assms
  by (simp add: PAYOUT_RATIO_SCALE_def)

theorem payoutMinor_exact_witness:
  "payoutMinor (num 10001) (decimal_ratio 8500) = Inr (num 8500) \<and>
   payoutMinor (num 9007199254740991) (decimal_ratio 8500) = Inl (RangeError ''exact integer range'')"
  using payoutMinor_exact [of 10001 8500] payoutMinor_exact [of 9007199254740991 8500] by simp

text \<open>A contract whose ratio is a decimal of up to four places is accepted exactly when its
  stake is a positive safe integer, its horizon a positive integer and its direction one of
  the two: binary rounding of the ratio never refuses it.\<close>

theorem assertContract_decimal:
  assumes "0 < k" "k \<le> 100000000"
  shows "assertContract (c\<lparr>ct_payoutRatio := decimal_ratio k\<rparr>) = Inr () \<longleftrightarrow>
    (\<exists>s h. ct_stake c = num s \<and> 0 < s \<and> s \<le> MAX_SAFE \<and> ct_horizonMs c = num h \<and> 0 < h) \<and>
    ct_direction c \<in> {''up'', ''down''}"
proof
  assume "assertContract (c\<lparr>ct_payoutRatio := decimal_ratio k\<rparr>) = Inr ()"
  then show "(\<exists>s h. ct_stake c = num s \<and> 0 < s \<and> s \<le> MAX_SAFE \<and> ct_horizonMs c = num h \<and> 0 < h) \<and>
    ct_direction c \<in> {''up'', ''down''}"
    by (rule assertContract_fields) auto
next
  assume "(\<exists>s h. ct_stake c = num s \<and> 0 < s \<and> s \<le> MAX_SAFE \<and> ct_horizonMs c = num h \<and> 0 < h) \<and>
    ct_direction c \<in> {''up'', ''down''}"
  then show "assertContract (c\<lparr>ct_payoutRatio := decimal_ratio k\<rparr>) = Inr ()"
    using decimal_tolerated [OF assms] by (auto simp: assertContract_def Let_def)
qed

abbreviation demo_contract :: "string \<Rightarrow> int \<Rightarrow> contract" where
  "demo_contract direction stake \<equiv> \<lparr>ct_id = ''c1'', ct_assetId = ''eurusd-otc'', ct_direction = direction,
     ct_stake = num stake, ct_entryInstant = 1000, ct_horizonMs = num 3000,
     ct_payoutRatio = decimal_ratio 8500\<rparr>"

theorem assertContract_decimal_witness:
  "assertContract (demo_contract ''up'' 100) = Inr () \<and> assertContract (demo_contract ''flat'' 100) \<noteq> Inr ()"
  using assertContract_decimal [of 8500 "demo_contract ''up'' 100"]
    assertContract_decimal [of 8500 "demo_contract ''flat'' 100"] by simp

end
