(* ===== verification/Exposure.thy ===== *)
theory Exposure
  imports Contract Stream "HOL-Library.AList"
begin

text \<open>
  What the operator stands to lose: packages/trading/src/exposure.ts. Contracts that settle on
  the same comparison share one event; within an event opposite sides net. The grouping
  \<^verbatim>\<open>Map\<close> of the source is an association list in insertion order, and its keys are the
  same strings. Instants and horizons are integers by their branded types, so the decimal
  notation of integers is all the key needs; the resolver of entries is the caller's and is an
  argument.
\<close>

section \<open>Events\<close>

type_synonym entry_resolver = "string \<Rightarrow> int \<Rightarrow> int"

record settlement_event =
  ev_assetId :: string
  ev_entryInstant :: int
  ev_expiryInstant :: int

record exposure_group =
  xg_event :: settlement_event
  xg_call :: jsnum
  xg_put :: jsnum
  xg_onRise :: jsnum
  xg_onFall :: jsnum

record event_exposure =
  ee_key :: string
  ee_event :: settlement_event
  ee_callStake :: jsnum
  ee_putStake :: jsnum
  ee_netExposure :: jsnum
  ee_adverseDirection :: "string option"
  ee_onRise :: jsnum
  ee_onFall :: jsnum

definition contract_expiry :: "contract \<Rightarrow> int" where
  "contract_expiry c = int_of (js_add (num (ct_entryInstant c)) (ct_horizonMs c))"

definition resolved :: "entry_resolver option \<Rightarrow> string \<Rightarrow> int \<Rightarrow> int" where
  "resolved r assetId t = (case r of None \<Rightarrow> t | Some f \<Rightarrow> f assetId t)"

definition eventKey :: "contract \<Rightarrow> entry_resolver option \<Rightarrow> string" where
  "eventKey c r = (let entry = resolved r (ct_assetId c) (ct_entryInstant c);
       expiry = resolved r (ct_assetId c) (contract_expiry c) in
     ct_assetId c @ ''|'' @ dec_int entry @ ''|'' @ dec_int expiry)"

definition contract_event :: "contract \<Rightarrow> settlement_event" where
  "contract_event c = \<lparr>ev_assetId = ct_assetId c, ev_entryInstant = ct_entryInstant c,
     ev_expiryInstant = contract_expiry c\<rparr>"

definition exposure_step ::
  "entry_resolver option \<Rightarrow> contract \<Rightarrow> (string \<times> exposure_group) list \<Rightarrow> (string \<times> exposure_group) list result"
where
  "exposure_step r c groups =
     andThen (require (js_lt (num 0) (ct_stake c) \<and> isFinite (ct_stake c)) (RangeError ''Stake'')) (\<lambda>_.
     let key = eventKey c r;
         existing = (case map_of groups key of Some g \<Rightarrow> g
           | None \<Rightarrow> \<lparr>xg_event = contract_event c, xg_call = num 0, xg_put = num 0,
               xg_onRise = num 0, xg_onFall = num 0\<rparr>) in
     andThen (payoutMinor (ct_stake c) (ct_payoutRatio c)) (\<lambda>obligation.
     let g1 = (if ct_direction c = ''up'' then existing\<lparr>xg_call := js_add (xg_call existing) obligation\<rparr>
               else existing\<lparr>xg_put := js_add (xg_put existing) obligation\<rparr>);
         g2 = (if ct_direction c = ''up''
               then g1\<lparr>xg_onRise := js_sub (xg_onRise g1) obligation,
                       xg_onFall := js_add (xg_onFall g1) (ct_stake c)\<rparr>
               else g1\<lparr>xg_onRise := js_add (xg_onRise g1) (ct_stake c),
                       xg_onFall := js_sub (xg_onFall g1) obligation\<rparr>) in
     Inr (AList.update key g2 groups)))"

definition net_exposure :: "jsnum \<Rightarrow> jsnum \<Rightarrow> jsnum" where
  "net_exposure call put = js_abs (js_sub call put)"

definition event_of_group :: "string \<times> exposure_group \<Rightarrow> event_exposure" where
  "event_of_group p = (case p of (key, g) \<Rightarrow>
     \<lparr>ee_key = key, ee_event = xg_event g, ee_callStake = xg_call g, ee_putStake = xg_put g,
      ee_netExposure = net_exposure (xg_call g) (xg_put g),
      ee_adverseDirection = (if js_eq (xg_call g) (xg_put g) then None
        else if js_lt (xg_put g) (xg_call g) then Some ''up'' else Some ''down''),
      ee_onRise = xg_onRise g, ee_onFall = xg_onFall g\<rparr>)"

definition exposureByEvent :: "contract list \<Rightarrow> entry_resolver option \<Rightarrow> event_exposure list result" where
  "exposureByEvent contracts r = andThen (foldE (exposure_step r) contracts [])
     (\<lambda>groups. Inr (map event_of_group groups))"

section \<open>The risk of a book\<close>

text \<open>\<^verbatim>\<open>Math.sqrt\<close> is approximated by the platform, so it is an argument.\<close>

record book_risk =
  br_contracts :: nat
  br_events :: nat
  br_totalStaked :: jsnum
  br_expectedProfit :: jsnum
  br_standardDeviation :: jsnum
  br_effectiveBets :: jsnum
  br_worstCase :: jsnum
  br_overlappingEvents :: nat

definition by_asset :: "event_exposure list \<Rightarrow> (string \<times> settlement_event list) list" where
  "by_asset events = fold (\<lambda>e m. let ev = ee_event e; a = ev_assetId ev in
     AList.update a ((case map_of m a of None \<Rightarrow> [] | Some l \<Rightarrow> l) @ [ev]) m) events []"

definition collides :: "settlement_event list \<Rightarrow> nat \<Rightarrow> bool" where
  "collides l i = list_ex (\<lambda>j. j \<noteq> i \<and> ev_entryInstant (l ! i) < ev_expiryInstant (l ! j) \<and>
     ev_entryInstant (l ! j) < ev_expiryInstant (l ! i)) [0..<length l]"

definition countOverlaps :: "event_exposure list \<Rightarrow> nat" where
  "countOverlaps events = sum_list (map (\<lambda>(a, l). length (filter (collides l) [0..<length l])) (by_asset events))"

definition js_sum :: "('a \<Rightarrow> jsnum) \<Rightarrow> 'a list \<Rightarrow> jsnum" where
  "js_sum f xs = fold (\<lambda>x s. js_add s (f x)) xs (num 0)"

definition assessBookRisk ::
  "(jsnum \<Rightarrow> jsnum) \<Rightarrow> contract list \<Rightarrow> entry_resolver option \<Rightarrow> book_risk result" where
  "assessBookRisk js_sqrt contracts r = andThen (exposureByEvent contracts r) (\<lambda>events.
     let totalStaked = js_sum ct_stake contracts;
         expectedProfit = js_sum (\<lambda>e. js_div (js_add (ee_onRise e) (ee_onFall e)) (num 2)) events;
         variance = js_sum (\<lambda>e. let half = js_div (js_sub (ee_onRise e) (ee_onFall e)) (num 2) in
           js_mul half half) events;
         absoluteSum = js_sum ee_netExposure events;
         squareSum = js_sum (\<lambda>e. js_mul (ee_netExposure e) (ee_netExposure e)) events in
     Inr \<lparr>br_contracts = length contracts, br_events = length events, br_totalStaked = totalStaked,
       br_expectedProfit = expectedProfit, br_standardDeviation = js_sqrt variance,
       br_effectiveBets = (if js_eq squareSum (num 0) then num 0
         else js_div (js_mul absoluteSum absoluteSum) squareSum),
       br_worstCase = js_sum ee_netExposure events, br_overlappingEvents = countOverlaps events\<rparr>)"

section \<open>Exact sums\<close>

text \<open>A contract as \<open>assertContract\<close> and the payout leave it: an integer stake and an integer
  obligation.\<close>

definition stake_of :: "contract \<Rightarrow> int" where
  "stake_of c = int_of (ct_stake c)"

definition obligation_of :: "contract \<Rightarrow> int" where
  "obligation_of c = (case payoutMinor (ct_stake c) (ct_payoutRatio c) of Inr v \<Rightarrow> int_of v | Inl _ \<Rightarrow> 0)"

definition sound_contract :: "contract \<Rightarrow> bool" where
  "sound_contract c \<longleftrightarrow> ct_stake c = num (stake_of c) \<and> 0 < stake_of c \<and>
     payoutMinor (ct_stake c) (ct_payoutRatio c) = Inr (num (obligation_of c)) \<and> 0 \<le> obligation_of c"

definition side_sum :: "(contract \<Rightarrow> int) \<Rightarrow> (contract \<Rightarrow> bool) \<Rightarrow> contract list \<Rightarrow> int" where
  "side_sum f P cs = sum_list (map f (filter P cs))"

abbreviation is_up :: "entry_resolver option \<Rightarrow> string \<Rightarrow> contract \<Rightarrow> bool" where
  "is_up r k c \<equiv> eventKey c r = k \<and> ct_direction c = ''up''"

abbreviation is_down :: "entry_resolver option \<Rightarrow> string \<Rightarrow> contract \<Rightarrow> bool" where
  "is_down r k c \<equiv> eventKey c r = k \<and> ct_direction c \<noteq> ''up''"

definition book_total :: "contract list \<Rightarrow> int" where
  "book_total cs = sum_list (map (\<lambda>c. stake_of c + obligation_of c) cs)"

text \<open>The group an event accumulates, in exact sums.\<close>

definition group_spec :: "entry_resolver option \<Rightarrow> contract list \<Rightarrow> string \<Rightarrow> exposure_group option" where
  "group_spec r cs k = (let upO = side_sum obligation_of (is_up r k) cs;
       downO = side_sum obligation_of (is_down r k) cs;
       upS = side_sum stake_of (is_up r k) cs; downS = side_sum stake_of (is_down r k) cs in
     map_option (\<lambda>c. \<lparr>xg_event = contract_event c, xg_call = num upO, xg_put = num downO,
       xg_onRise = num (downS - upO), xg_onFall = num (upS - downO)\<rparr>)
     (find (\<lambda>c. eventKey c r = k) cs))"

lemma side_sum_snoc: "side_sum f P (cs @ [c]) = side_sum f P cs + (if P c then f c else 0)"
  by (simp add: side_sum_def)

lemma find_snoc: "find P (xs @ [x]) = (case find P xs of None \<Rightarrow> if P x then Some x else None | Some y \<Rightarrow> Some y)"
  by (induction xs) simp_all

lemma soundD: "sound_contract c \<Longrightarrow> 0 < stake_of c \<and> 0 \<le> obligation_of c"
  by (simp add: sound_contract_def)

lemma sound_nonneg:
  assumes "\<forall>c\<in>set cs. sound_contract c"
  shows "0 \<le> side_sum stake_of P cs" "0 \<le> side_sum obligation_of P cs"
  using assms soundD by (fastforce simp: side_sum_def intro!: sum_list_nonneg)+

lemma side_sum_le_total:
  assumes "\<forall>c\<in>set cs. sound_contract c"
  shows "side_sum stake_of P cs + side_sum obligation_of Q cs \<le> book_total cs"
  using assms
proof (induction cs)
  case (Cons c cs)
  have "0 < stake_of c" "0 \<le> obligation_of c" using Cons.prems soundD by auto
  with Cons show ?case by (auto simp: side_sum_def book_total_def)
qed (simp add: side_sum_def book_total_def)

lemma exposure_fold:
  assumes "\<forall>c\<in>set cs. sound_contract c" "book_total cs \<le> 2 ^ 53"
  shows "\<exists>gs. foldE (exposure_step r) cs [] = Inr gs \<and> distinct (map fst gs) \<and>
    set (map fst gs) = (\<lambda>c. eventKey c r) ` set cs \<and> map_of gs = group_spec r cs"
  using assms
proof (induction cs rule: rev_induct)
  case Nil
  show ?case by (simp add: group_spec_def fun_eq_iff Let_def)
next
  case (snoc c cs)
  have cs: "\<forall>c\<in>set cs. sound_contract c" and c: "sound_contract c" using snoc.prems(1) by simp_all
  have tot: "book_total (cs @ [c]) = book_total cs + stake_of c + obligation_of c"
    by (simp add: book_total_def)
  have "book_total cs \<le> 2 ^ 53" using tot snoc.prems(2) c by (simp add: sound_contract_def)
  then obtain gs where gs: "foldE (exposure_step r) cs [] = Inr gs" "distinct (map fst gs)"
    "set (map fst gs) = (\<lambda>c. eventKey c r) ` set cs" "map_of gs = group_spec r cs"
    using snoc.IH cs by blast
  let ?k = "eventKey c r"
  let ?g = "the (group_spec r (cs @ [c]) ?k)"
  have bound: "side_sum stake_of P cs + stake_of c + (side_sum obligation_of Q cs + obligation_of c) \<le> 2 ^ 53" for P Q
    using side_sum_le_total [OF cs, of P Q] tot snoc.prems(2) by linarith
  have c0: "0 < stake_of c" "0 \<le> obligation_of c" using soundD [OF c] by simp_all
  have n: "0 \<le> side_sum stake_of P cs" "0 \<le> side_sum obligation_of P cs" for P
    using sound_nonneg [OF cs] by simp_all
  have add: "js_add (num (side_sum obligation_of P cs)) (num (obligation_of c)) =
      num (side_sum obligation_of P cs + obligation_of c)" for P
    using bound [of P P] n [of P] c0 by (intro js_add_num) simp
  have rise: "js_sub (num (side_sum stake_of P cs - side_sum obligation_of Q cs)) (num (obligation_of c)) =
      num (side_sum stake_of P cs - (side_sum obligation_of Q cs + obligation_of c))" for P Q
    using bound [of P Q] n [of P] n [of Q] c0 by (subst js_sub_num) (auto simp: algebra_simps)
  have fall: "js_add (num (side_sum stake_of P cs - side_sum obligation_of Q cs)) (num (stake_of c)) =
      num (side_sum stake_of P cs + stake_of c - side_sum obligation_of Q cs)" for P Q
    using bound [of P Q] n [of P] n [of Q] c0 by (subst js_add_num) (auto simp: algebra_simps)
  have "stake_of c \<le> 2 ^ 53" "obligation_of c \<le> 2 ^ 53"
    using bound [of "\<lambda>_. True" "\<lambda>_. True"] n [of "\<lambda>_. True"] c0 by linarith+
  then have fresh: "js_add (num 0) (num (obligation_of c)) = num (obligation_of c)"
    "js_add (num 0) (num (stake_of c)) = num (stake_of c)"
    "js_sub (num 0) (num (obligation_of c)) = num (- obligation_of c)"
    using c0 by (simp_all add: js_add_num js_sub_num)
  have zero: "find (\<lambda>c. eventKey c r = ?k) cs = None \<Longrightarrow> side_sum f (\<lambda>c. eventKey c r = ?k \<and> Q c) cs = 0" for f Q
    by (auto simp: find_None_iff side_sum_def filter_empty_conv)
  have step: "exposure_step r c gs = Inr (AList.update ?k ?g gs)"
    using c gs(4) zero
    by (cases "find (\<lambda>c. eventKey c r = ?k) cs")
       (auto simp: exposure_step_def sound_contract_def group_spec_def side_sum_snoc find_snoc Let_def
          add rise fall fresh)
  have upd: "map_of (AList.update ?k ?g gs) = group_spec r (cs @ [c])"
  proof
    fix k
    show "map_of (AList.update ?k ?g gs) k = group_spec r (cs @ [c]) k"
    proof (cases "k = ?k")
      case True
      have "find (\<lambda>c. eventKey c r = ?k) (cs @ [c]) \<noteq> None" by (auto simp: find_None_iff)
      then show ?thesis using True by (auto simp: update_conv' group_spec_def Let_def)
    next
      case False
      then show ?thesis
        by (auto simp: update_conv' gs(4) group_spec_def side_sum_snoc find_snoc Let_def split: option.split)
    qed
  qed
  have "distinct (map fst (AList.update ?k ?g gs))" using gs(2) by (simp add: distinct_update)
  moreover have "set (map fst (AList.update ?k ?g gs)) = (\<lambda>c. eventKey c r) ` set (cs @ [c])"
    using gs(3) by (simp add: dom_update)
  ultimately show ?case using gs(1) step upd by (auto simp: foldE_append)
qed

lemma event_of_group_sel [simp]:
  "ee_key (event_of_group p) = fst p" "ee_callStake (event_of_group p) = xg_call (snd p)"
  "ee_putStake (event_of_group p) = xg_put (snd p)"
  "ee_netExposure (event_of_group p) = net_exposure (xg_call (snd p)) (xg_put (snd p))"
  "ee_onRise (event_of_group p) = xg_onRise (snd p)" "ee_onFall (event_of_group p) = xg_onFall (snd p)"
  "ee_event (event_of_group p) = xg_event (snd p)"
  by (simp_all add: event_of_group_def split: prod.split)

lemma keys_of_events: "map ee_key (map event_of_group gs) = map fst gs"
  by simp

lemma exposure_event:
  assumes "\<forall>c\<in>set cs. sound_contract c" "book_total cs \<le> 2 ^ 53"
    and "exposureByEvent cs r = Inr es" "e \<in> set es"
  shows "ee_callStake e = num (side_sum obligation_of (is_up r (ee_key e)) cs)"
    "ee_putStake e = num (side_sum obligation_of (is_down r (ee_key e)) cs)"
    "ee_netExposure e = num \<bar>side_sum obligation_of (is_up r (ee_key e)) cs -
       side_sum obligation_of (is_down r (ee_key e)) cs\<bar>"
    "ee_onRise e = num (side_sum stake_of (is_down r (ee_key e)) cs - side_sum obligation_of (is_up r (ee_key e)) cs)"
    "ee_onFall e = num (side_sum stake_of (is_up r (ee_key e)) cs - side_sum obligation_of (is_down r (ee_key e)) cs)"
proof -
  obtain gs where gs: "foldE (exposure_step r) cs [] = Inr gs" "distinct (map fst gs)" "map_of gs = group_spec r cs"
    using exposure_fold [OF assms(1,2)] by blast
  then have "es = map event_of_group gs" using assms(3) by (simp add: exposureByEvent_def)
  then obtain p where p: "e = event_of_group p" "p \<in> set gs" using assms(4) by auto
  obtain k g where kg: "p = (k, g)" by (cases p)
  then have "group_spec r cs k = Some g" using gs(2,3) p(2) by (metis map_of_is_SomeI)
  then have g: "xg_call g = num (side_sum obligation_of (is_up r k) cs)"
      "xg_put g = num (side_sum obligation_of (is_down r k) cs)"
      "xg_onRise g = num (side_sum stake_of (is_down r k) cs - side_sum obligation_of (is_up r k) cs)"
      "xg_onFall g = num (side_sum stake_of (is_up r k) cs - side_sum obligation_of (is_down r k) cs)"
    by (auto simp: group_spec_def Let_def)
  have n: "0 \<le> side_sum obligation_of P cs" "side_sum obligation_of P cs \<le> 2 ^ 53" for P
    using sound_nonneg [OF assms(1), of P] side_sum_le_total [OF assms(1), of P P] assms(2) by linarith+
  have "js_sub (xg_call g) (xg_put g) =
      num (side_sum obligation_of (is_up r k) cs - side_sum obligation_of (is_down r k) cs)"
    unfolding g using n [of "is_up r k"] n [of "is_down r k"] by (intro js_sub_num) linarith
  then show "ee_callStake e = num (side_sum obligation_of (is_up r (ee_key e)) cs)"
    "ee_putStake e = num (side_sum obligation_of (is_down r (ee_key e)) cs)"
    "ee_netExposure e = num \<bar>side_sum obligation_of (is_up r (ee_key e)) cs -
       side_sum obligation_of (is_down r (ee_key e)) cs\<bar>"
    "ee_onRise e = num (side_sum stake_of (is_down r (ee_key e)) cs - side_sum obligation_of (is_up r (ee_key e)) cs)"
    "ee_onFall e = num (side_sum stake_of (is_up r (ee_key e)) cs - side_sum obligation_of (is_down r (ee_key e)) cs)"
    by (simp_all add: p(1) kg g net_exposure_def)
qed

lemma exposureByEvent_Inr:
  assumes "\<forall>c\<in>set cs. sound_contract c" "book_total cs \<le> 2 ^ 53"
  obtains es where "exposureByEvent cs r = Inr es" "distinct (map ee_key es)"
    "set (map ee_key es) = (\<lambda>c. eventKey c r) ` set cs"
proof -
  obtain gs where gs: "foldE (exposure_step r) cs [] = Inr gs" "distinct (map fst gs)"
    "set (map fst gs) = (\<lambda>c. eventKey c r) ` set cs"
    using exposure_fold [OF assms] by blast
  then show thesis
    using that [of "map event_of_group gs"] unfolding keys_of_events by (simp add: exposureByEvent_def)
qed

section \<open>The properties\<close>

text \<open> grouping nets exactly: a book of integer stakes within the exact range gives one event
  per settlement comparison, whose two sides are the exact sums of the obligations of its
  contracts, whose net exposure is their distance, and whose two resolutions are the
  operator's exact profit either way.\<close>

theorem exposureByEvent_exact:
  assumes "\<forall>c\<in>set cs. sound_contract c" "book_total cs \<le> 2 ^ 53"
  shows "\<exists>es. exposureByEvent cs r = Inr es \<and> distinct (map ee_key es) \<and>
    set (map ee_key es) = (\<lambda>c. eventKey c r) ` set cs \<and>
    (\<forall>e\<in>set es. let k = ee_key e; upO = side_sum obligation_of (is_up r k) cs;
        downO = side_sum obligation_of (is_down r k) cs in
      ee_callStake e = num upO \<and> ee_putStake e = num downO \<and> ee_netExposure e = num \<bar>upO - downO\<bar> \<and>
      ee_onRise e = num (side_sum stake_of (is_down r k) cs - upO) \<and>
      ee_onFall e = num (side_sum stake_of (is_up r k) cs - downO))"
proof -
  obtain es where es: "exposureByEvent cs r = Inr es" "distinct (map ee_key es)"
    "set (map ee_key es) = (\<lambda>c. eventKey c r) ` set cs"
    by (rule exposureByEvent_Inr [OF assms])
  then show ?thesis
    using exposure_event [OF assms es(1)] by (intro exI [of _ es]) (simp add: Let_def)
qed

abbreviation demo_book :: "contract list" where
  "demo_book \<equiv> [demo_contract ''up'' 1000, demo_contract ''down'' 400, demo_contract ''up'' 200]"

lemma demo_payout:
  "0 < s \<Longrightarrow> s * 8500 \<le> MAX_SAFE \<Longrightarrow> payoutMinor (num s) (decimal_ratio 8500) = Inr (num (s * 8500 div 10000))"
  using payoutMinor_num [OF _ _ decimal_round [of 8500], of s] by (simp add: PAYOUT_RATIO_SCALE_def)

lemma demo_sound:
  assumes "0 < s" "s * 8500 \<le> MAX_SAFE"
  shows "sound_contract (demo_contract d s)" "stake_of (demo_contract d s) = s"
    "obligation_of (demo_contract d s) = s * 8500 div 10000"
  using assms demo_payout [OF assms]
  by (auto simp: sound_contract_def stake_of_def obligation_of_def pos_imp_zdiv_nonneg_iff)

lemma demo_book_sound: "\<forall>c\<in>set demo_book. sound_contract c" "book_total demo_book \<le> 2 ^ 53"
  by (simp_all add: demo_sound book_total_def)

theorem exposureByEvent_exact_witness:
  "\<exists>es. exposureByEvent demo_book None = Inr es \<and> length es = 1 \<and> ee_netExposure (hd es) = num 680"
proof -
  have k: "eventKey (demo_contract d s) None = eventKey (demo_contract ''up'' 1000) None" for d s
    by (simp add: eventKey_def contract_expiry_def)
  obtain es where es: "exposureByEvent demo_book None = Inr es" "distinct (map ee_key es)"
    "set (map ee_key es) = {eventKey (demo_contract ''up'' 1000) None}"
    "\<forall>e\<in>set es. ee_netExposure e = num \<bar>side_sum obligation_of (is_up None (ee_key e)) demo_book -
       side_sum obligation_of (is_down None (ee_key e)) demo_book\<bar>"
    using exposureByEvent_exact [OF demo_book_sound, of None] k by (auto simp: Let_def)
  have "card (set (map ee_key es)) = 1" unfolding es(3) by simp
  then have l: "length es = 1" using distinct_card [OF es(2)] by simp
  then obtain e where e: "es = [e]" by (auto simp: length_Suc_conv)
  then have "ee_key e = eventKey (demo_contract ''up'' 1000) None" using es(3) by simp
  then have "ee_netExposure e = num 680"
    using es(4) e k by (simp add: side_sum_def demo_sound)
  with es(1) l e show ?thesis by simp
qed

text \<open> when no payout exceeds its stake, the net exposure of an event is at least what the
  operator loses on it, whichever way it resolves, and at most what one side alone would cost.\<close>

theorem exposure_covers_loss:
  assumes "\<forall>c\<in>set cs. sound_contract c \<and> obligation_of c \<le> stake_of c" "book_total cs \<le> 2 ^ 53"
    and "exposureByEvent cs r = Inr es" "e \<in> set es"
  shows "js_le (js_neg (ee_onRise e)) (ee_netExposure e) \<and> js_le (js_neg (ee_onFall e)) (ee_netExposure e) \<and>
    (js_le (ee_netExposure e) (ee_callStake e) \<or> js_le (ee_netExposure e) (ee_putStake e))"
proof -
  let ?u = "is_up r (ee_key e)" and ?d = "is_down r (ee_key e)"
  have s: "\<forall>c\<in>set cs. sound_contract c" using assms(1) by blast
  have le: "side_sum obligation_of P cs \<le> side_sum stake_of P cs" for P
    unfolding side_sum_def using assms(1) by (intro sum_list_mono) auto
  show ?thesis
    using le [of ?u] le [of ?d] sound_nonneg(2) [OF s, of ?u] sound_nonneg(2) [OF s, of ?d]
    by (simp add: exposure_event [OF s assms(2-4)]) linarith
qed

theorem exposure_covers_loss_witness:
  "\<exists>es e. exposureByEvent demo_book None = Inr es \<and> e \<in> set es \<and>
     js_le (js_neg (ee_onRise e)) (ee_netExposure e)"
proof -
  obtain es where es: "exposureByEvent demo_book None = Inr es"
    "set (map ee_key es) = (\<lambda>c. eventKey c None) ` set demo_book"
    by (rule exposureByEvent_Inr [OF demo_book_sound])
  then obtain e where e: "e \<in> set es" by auto
  have s: "\<forall>c\<in>set demo_book. sound_contract c \<and> obligation_of c \<le> stake_of c"
    by (simp add: demo_sound)
  from exposure_covers_loss [OF s demo_book_sound(2) es(1) e] es(1) e show ?thesis by blast
qed

text \<open>Above a ratio of one the bound fails: a hedged pair nets to nothing and still costs the
  operator whichever way it resolves.\<close>

lemma ratio_above_one_not_covered:
  "\<exists>es e. exposureByEvent (map (\<lambda>d. (demo_contract d 100)\<lparr>ct_payoutRatio := decimal_ratio 15000\<rparr>) [''up'', ''down''])
       None = Inr es \<and> e \<in> set es \<and> ee_netExposure e = num 0 \<and> ee_onRise e = num (-50) \<and> ee_onFall e = num (-50)"
proof -
  let ?c = "\<lambda>d. (demo_contract d 100)\<lparr>ct_payoutRatio := decimal_ratio 15000\<rparr>"
  let ?b = "map ?c [''up'', ''down'']"
  have pay: "payoutMinor (num 100) (decimal_ratio 15000) = Inr (num 150)"
    using payoutMinor_num [OF _ _ decimal_round [of 15000], of 100] by (simp add: PAYOUT_RATIO_SCALE_def)
  then have s: "sound_contract (?c d)" "stake_of (?c d) = 100" "obligation_of (?c d) = 150" for d
    by (simp_all add: sound_contract_def stake_of_def obligation_of_def)
  then have b: "\<forall>c\<in>set ?b. sound_contract c" "book_total ?b \<le> 2 ^ 53" by (simp_all add: book_total_def)
  have k: "eventKey (?c d) None = eventKey (?c ''up'') None" for d by (simp add: eventKey_def contract_expiry_def)
  obtain es where es: "exposureByEvent ?b None = Inr es" "set (map ee_key es) = (\<lambda>c. eventKey c None) ` set ?b"
    by (rule exposureByEvent_Inr [OF b])
  then have "eventKey (?c ''up'') None \<in> ee_key ` set es" by simp
  then obtain e where e: "e \<in> set es" "ee_key e = eventKey (?c ''up'') None" by (rule imageE) simp
  have "ee_netExposure e = num 0" "ee_onRise e = num (-50)" "ee_onFall e = num (-50)"
    using exposure_event [OF b es(1) e(1)] e(2) k [of "''down''"] s by (simp_all add: side_sum_def)
  with es(1) e(1) show ?thesis by blast
qed

end

