(* ===== verification/Limiter.thy ===== *)
theory Limiter
  imports Exposure
begin

text \<open>
  The exposure limiter: packages/trading/src/limiter.ts. The stateless \<open>admit\<close> re-groups the
  whole book for every contract; the running venue keeps an \<open>exposure_book\<close> of the two sides of
  every event instead. Both are stated over arbitrary Numbers, and the theory shows that they
  decide alike and that a book only admitted contracts join never passes its limit.
\<close>

section \<open>The stateless functions\<close>

datatype admission = Accepted | Declined settlement_event jsnum jsnum

definition admit ::
  "contract list \<Rightarrow> contract \<Rightarrow> jsnum \<Rightarrow> entry_resolver option \<Rightarrow> admission result" where
  "admit opened incoming limit r =
     andThen (require (js_lt (num 0) limit) (RangeError ''maxEventExposure'')) (\<lambda>_.
     andThen (exposureByEvent opened r) (\<lambda>before.
     andThen (exposureByEvent (opened @ [incoming]) r) (\<lambda>after.
     let key = eventKey incoming r in
     case find (\<lambda>e. ee_key e = key) after of
       None \<Rightarrow> Inr Accepted
     | Some target \<Rightarrow>
         if js_le (ee_netExposure target) limit then Inr Accepted
         else (case find (\<lambda>e. ee_key e = ee_key target) before of
             Some previous \<Rightarrow>
               if js_lt (ee_netExposure target) (ee_netExposure previous) then Inr Accepted
               else Inr (Declined (ee_event target) (ee_netExposure target) limit)
           | None \<Rightarrow> Inr (Declined (ee_event target) (ee_netExposure target) limit)))))"

definition breaches ::
  "contract list \<Rightarrow> jsnum \<Rightarrow> entry_resolver option \<Rightarrow> event_exposure list result" where
  "breaches opened limit r = andThen (exposureByEvent opened r)
     (\<lambda>es. Inr (filter (\<lambda>e. js_lt limit (ee_netExposure e)) es))"

section \<open>The running book\<close>

record exposure_book =
  eb_resolve :: "entry_resolver option"
  eb_call :: "(string \<times> jsnum) list"
  eb_put :: "(string \<times> jsnum) list"
  eb_contracts :: int

definition new_book :: "entry_resolver option \<Rightarrow> exposure_book" where
  "new_book r = \<lparr>eb_resolve = r, eb_call = [], eb_put = [], eb_contracts = 0\<rparr>"

definition keyOf :: "contract \<Rightarrow> entry_resolver option \<Rightarrow> string" where
  "keyOf c r = (let entry = resolved r (ct_assetId c) (ct_entryInstant c);
       expiry = resolved r (ct_assetId c) (contract_expiry c) in
     ct_assetId c @ ''|'' @ dec_int entry @ ''|'' @ dec_int expiry)"

definition get0 :: "(string \<times> jsnum) list \<Rightarrow> string \<Rightarrow> jsnum" where
  "get0 m k = (case map_of m k of None \<Rightarrow> num 0 | Some v \<Rightarrow> v)"

definition netExposureFor :: "exposure_book \<Rightarrow> contract \<Rightarrow> jsnum" where
  "netExposureFor b c = (let key = keyOf c (eb_resolve b) in
     js_abs (js_sub (get0 (eb_call b) key) (get0 (eb_put b) key)))"

definition book_admit :: "exposure_book \<Rightarrow> contract \<Rightarrow> jsnum \<Rightarrow> admission result" where
  "book_admit b c limit =
     andThen (require (js_lt (num 0) limit) (RangeError ''maxEventExposure'')) (\<lambda>_.
     andThen (require (js_lt (num 0) (ct_stake c) \<and> isFinite (ct_stake c)) (RangeError ''Stake'')) (\<lambda>_.
     let key = keyOf c (eb_resolve b); call = get0 (eb_call b) key; put = get0 (eb_put b) key in
     andThen (payoutMinor (ct_stake c) (ct_payoutRatio c)) (\<lambda>obligation.
     let before = js_abs (js_sub call put);
         after = (if ct_direction c = ''up'' then js_abs (js_sub (js_add call obligation) put)
                  else js_abs (js_sub call (js_add put obligation))) in
     if js_le after limit \<or> js_lt after before then Inr Accepted
     else Inr (Declined (contract_event c) after limit))))"

definition book_add :: "exposure_book \<Rightarrow> contract \<Rightarrow> exposure_book result" where
  "book_add b c = (let key = keyOf c (eb_resolve b) in
     andThen (payoutMinor (ct_stake c) (ct_payoutRatio c)) (\<lambda>obligation.
     Inr ((if ct_direction c = ''up''
           then b\<lparr>eb_call := AList.update key (js_add (get0 (eb_call b) key) obligation) (eb_call b)\<rparr>
           else b\<lparr>eb_put := AList.update key (js_add (get0 (eb_put b) key) obligation) (eb_put b)\<rparr>)
          \<lparr>eb_contracts := eb_contracts b + 1\<rparr>)))"

definition peakExposure :: "exposure_book \<Rightarrow> jsnum" where
  "peakExposure b = fold (\<lambda>key peak.
       let net = js_abs (js_sub (get0 (eb_call b) key) (get0 (eb_put b) key)) in
       if js_lt peak net then net else peak)
     (remdups (map fst (eb_call b) @ map fst (eb_put b))) (num 0)"

section \<open>Order on Numbers\<close>

lemma js_le_trans: "js_le a b \<Longrightarrow> js_le b c \<Longrightarrow> js_le a c"
  by (cases a; cases b; cases c) (auto simp: js_le_def js_eq_def)

lemma js_lt_le_trans: "js_lt a b \<Longrightarrow> js_le b c \<Longrightarrow> js_le a c"
  using js_le_trans js_le_def by blast

lemma js_le_refl: "a \<noteq> NaN \<Longrightarrow> js_le a a"
  by (simp add: js_le_def js_eq_def)

lemma js_abs_not_neg: "\<not> js_lt (js_abs x) (num 0)"
  by (cases x) (simp_all add: num_def)

lemma js_le_not_lt: "js_le a b \<Longrightarrow> \<not> js_lt b a"
  by (cases a; cases b) (auto simp: js_le_def js_eq_def)

lemma js_lt_imp_le: "js_lt a b \<Longrightarrow> js_le a b"
  by (simp add: js_le_def)

section \<open>The book refines the grouping\<close>

lemma keyOf_eventKey: "keyOf c r = eventKey c r"
  by (simp add: keyOf_def eventKey_def)

lemma get0_update: "get0 (AList.update k v m) k' = (if k' = k then v else get0 m k')"
  by (simp add: get0_def update_conv')

text \<open>The book holds, for every event, the two sides its group accumulates, computed by the same
  operations in the same order; an event with no contract is zero on both.\<close>

definition book_matches :: "exposure_book \<Rightarrow> (string \<times> exposure_group) list \<Rightarrow> bool" where
  "book_matches b groups \<longleftrightarrow> distinct (map fst groups) \<and> (\<forall>k. case map_of groups k of
      None \<Rightarrow> get0 (eb_call b) k = num 0 \<and> get0 (eb_put b) k = num 0
    | Some g \<Rightarrow> xg_call g = get0 (eb_call b) k \<and> xg_put g = get0 (eb_put b) k)"

abbreviation add_all :: "contract list \<Rightarrow> exposure_book \<Rightarrow> exposure_book result" where
  "add_all cs \<equiv> foldE (\<lambda>c b. book_add b c) cs"

abbreviation stakes_ok :: "contract list \<Rightarrow> bool" where
  "stakes_ok cs \<equiv> \<forall>c\<in>set cs. js_lt (num 0) (ct_stake c) \<and> isFinite (ct_stake c)"

lemma book_matches_new: "book_matches (new_book r) []"
  by (simp add: book_matches_def new_book_def get0_def)

lemma map_of_update [simp]: "map_of (AList.update k v m) k' = (if k' = k then Some v else map_of m k')"
  by (simp add: update_conv')

text \<open>One contract on both sides of the refinement.\<close>

lemma book_step:
  assumes "book_matches b groups" "js_lt (num 0) (ct_stake c) \<and> isFinite (ct_stake c)"
  shows "case book_add b c of
      Inl e \<Rightarrow> exposure_step (eb_resolve b) c groups = Inl e
    | Inr b' \<Rightarrow> \<exists>groups'. exposure_step (eb_resolve b) c groups = Inr groups' \<and>
        book_matches b' groups' \<and> eb_resolve b' = eb_resolve b \<and>
        eventKey c (eb_resolve b) \<in> set (map fst groups')"
proof (cases "payoutMinor (ct_stake c) (ct_payoutRatio c)")
  case (Inl e)
  with assms(2) show ?thesis by (simp add: book_add_def exposure_step_def Let_def)
next
  case (Inr ob)
  let ?k = "eventKey c (eb_resolve b)"
  have d: "distinct (map fst (AList.update k v groups))" for k v
    using assms(1) by (simp add: book_matches_def distinct_update)
  have i: "?k \<in> fst ` set (AList.update ?k v groups)" for v by (simp add: dom_update)
  obtain b' where b': "book_add b c = Inr b'" using Inr by (simp add: book_add_def Let_def)
  obtain groups' where g': "exposure_step (eb_resolve b) c groups = Inr groups'"
    using Inr assms(2) by (simp add: exposure_step_def Let_def)
  have "case map_of groups' k of
      None \<Rightarrow> get0 (eb_call b') k = num 0 \<and> get0 (eb_put b') k = num 0
    | Some g \<Rightarrow> xg_call g = get0 (eb_call b') k \<and> xg_put g = get0 (eb_put b') k" for k
  proof -
    have m: "case map_of groups k of
        None \<Rightarrow> get0 (eb_call b) k = num 0 \<and> get0 (eb_put b) k = num 0
      | Some g \<Rightarrow> xg_call g = get0 (eb_call b) k \<and> xg_put g = get0 (eb_put b) k"
      using assms(1) unfolding book_matches_def by blast
    show ?thesis
    proof (cases "k = ?k")
      case True
      with m b' g' Inr assms(2) show ?thesis
        by (auto simp: book_add_def exposure_step_def Let_def keyOf_eventKey get0_update split: option.splits)
    next
      case False
      with m b' g' Inr assms(2) show ?thesis
        by (auto simp: book_add_def exposure_step_def Let_def keyOf_eventKey get0_update split: option.splits)
    qed
  qed
  moreover have "distinct (map fst groups')" "?k \<in> set (map fst groups')"
    using g' Inr assms(2) d i by (auto simp: exposure_step_def Let_def)
  moreover have "eb_resolve b' = eb_resolve b" using b' Inr by (auto simp: book_add_def Let_def)
  ultimately show ?thesis using b' g' by (auto simp: book_matches_def)
qed

lemma book_matches_all:
  assumes "book_matches b groups" "stakes_ok cs"
  shows "case add_all cs b of
      Inl e \<Rightarrow> foldE (exposure_step (eb_resolve b)) cs groups = Inl e
    | Inr b' \<Rightarrow> \<exists>groups'. foldE (exposure_step (eb_resolve b)) cs groups = Inr groups' \<and>
        book_matches b' groups' \<and> eb_resolve b' = eb_resolve b"
  using assms
proof (induction cs arbitrary: b groups)
  case (Cons c cs)
  have s: "js_lt (num 0) (ct_stake c) \<and> isFinite (ct_stake c)" using Cons.prems(2) by simp
  note B = book_step [OF Cons.prems(1) s]
  show ?case
  proof (cases "book_add b c")
    case (Inl e)
    with B show ?thesis by simp
  next
    case (Inr b1)
    with B obtain g1 where g1: "exposure_step (eb_resolve b) c groups = Inr g1" "book_matches b1 g1"
      "eb_resolve b1 = eb_resolve b" by auto
    with Inr Cons.IH [OF g1(2)] Cons.prems(2) show ?thesis by (auto simp: g1 split: sum.splits)
  qed
qed simp

lemma find_event:
  assumes "distinct (map fst gs)"
  shows "find (\<lambda>e. ee_key e = k) (map event_of_group gs) = map_option (\<lambda>g. event_of_group (k, g)) (map_of gs k)"
  using assms by (induction gs) auto

section \<open>The properties\<close>

text \<open>C16: the running book decides exactly as the stateless limiter does over the contracts that
  joined it: the same acceptances, the same exposures in the refusals, the same errors, for
  all Numbers and any resolver.\<close>

theorem book_admit_refines:
  assumes "stakes_ok cs" "add_all cs (new_book r) = Inr b"
  shows "case book_admit b c limit of
      Inl e \<Rightarrow> admit cs c limit r = Inl e
    | Inr Accepted \<Rightarrow> admit cs c limit r = Inr Accepted
    | Inr (Declined _ w l) \<Rightarrow> (\<exists>ev. admit cs c limit r = Inr (Declined ev w l))"
proof -
  have nr: "eb_resolve (new_book r) = r" by (simp add: new_book_def)
  obtain gs where gs: "foldE (exposure_step r) cs [] = Inr gs" "book_matches b gs" "eb_resolve b = r"
    using book_matches_all [OF book_matches_new assms(1), of r] assms(2) by (auto simp: nr)
  let ?k = "eventKey c r"
  have d: "distinct (map fst gs)" using gs(2) by (simp add: book_matches_def)
  have m: "case map_of gs ?k of
      None \<Rightarrow> get0 (eb_call b) ?k = num 0 \<and> get0 (eb_put b) ?k = num 0
    | Some g \<Rightarrow> xg_call g = get0 (eb_call b) ?k \<and> xg_put g = get0 (eb_put b) ?k"
    using gs(2) unfolding book_matches_def by blast
  have before: "exposureByEvent cs r = Inr (map event_of_group gs)"
    using gs(1) by (simp add: exposureByEvent_def)
  have after: "exposureByEvent (cs @ [c]) r = andThen (exposure_step r c gs) (\<lambda>g. Inr (map event_of_group g))"
    using gs(1) by (cases "exposure_step r c gs") (simp_all add: exposureByEvent_def foldE_append)
  have zero: "js_abs (js_sub (num 0) (num 0)) = num 0" by (simp add: js_sub_num)
  note defs = admit_def book_admit_def before after gs(3) keyOf_eventKey Let_def
  show ?thesis
  proof (cases "js_lt (num 0) limit \<and> js_lt (num 0) (ct_stake c) \<and> isFinite (ct_stake c)")
    case False
    then show ?thesis by (auto simp: defs exposure_step_def require_def)
  next
    case True
    show ?thesis
    proof (cases "payoutMinor (ct_stake c) (ct_payoutRatio c)")
      case (Inl e)
      with True show ?thesis by (simp add: defs exposure_step_def)
    next
      case (Inr ob)
      obtain g where step: "exposure_step r c gs = Inr (AList.update ?k g gs)"
        and net: "net_exposure (xg_call g) (xg_put g) =
          (if ct_direction c = ''up'' then js_abs (js_sub (js_add (get0 (eb_call b) ?k) ob) (get0 (eb_put b) ?k))
           else js_abs (js_sub (get0 (eb_call b) ?k) (js_add (get0 (eb_put b) ?k) ob)))"
        using True Inr m
        by (cases "map_of gs ?k") (auto simp: exposure_step_def net_exposure_def Let_def)
      let ?g2 = "AList.update ?k g gs"
      have f: "find (\<lambda>e. ee_key e = ?k) (map event_of_group ?g2) = Some (event_of_group (?k, g))"
        using find_event [of ?g2 ?k] d by (simp add: distinct_update)
      have p: "find (\<lambda>e. ee_key e = ?k) (map event_of_group gs) = map_option (\<lambda>g. event_of_group (?k, g)) (map_of gs ?k)"
        by (rule find_event [OF d])
      let ?after = "net_exposure (xg_call g) (xg_put g)"
      let ?before = "js_abs (js_sub (get0 (eb_call b) ?k) (get0 (eb_put b) ?k))"
      have A: "admit cs c limit r = (if js_le ?after limit \<or> js_lt ?after ?before then Inr Accepted
          else Inr (Declined (xg_event g) ?after limit))"
        using True m js_abs_not_neg
        by (cases "map_of gs ?k") (auto simp: admit_def before after step f p Let_def zero net_exposure_def)
      have B: "book_admit b c limit = (if js_le ?after limit \<or> js_lt ?after ?before then Inr Accepted
          else Inr (Declined (contract_event c) ?after limit))"
        using True Inr net by (simp add: book_admit_def gs(3) keyOf_eventKey Let_def)
      show ?thesis unfolding A B by simp
    qed
  qed
qed

lemma demo_admit:
  assumes "0 < s" "s * 8500 \<le> MAX_SAFE" "js_lt (num 0) limit"
  shows "book_admit (new_book r) (demo_contract ''up'' s) limit =
    (if js_le (num (s * 8500 div 10000)) limit then Inr Accepted
     else Inr (Declined (contract_event (demo_contract ''up'' s)) (num (s * 8500 div 10000)) limit))"
proof -
  let ?ob = "s * 8500 div 10000"
  have o: "0 \<le> ?ob" "?ob \<le> 2 ^ 53" using assms(1,2) by (simp_all add: pos_imp_zdiv_nonneg_iff)
  then have "js_abs (js_sub (js_add (num 0) (num ?ob)) (num 0)) = num ?ob"
    by (simp add: js_add_num js_sub_num)
  moreover have "js_abs (js_sub (num 0) (num 0)) = num 0" by (simp add: js_sub_num)
  moreover have "isFinite (num s)" by simp
  ultimately show ?thesis
    using assms(1,3) demo_payout [OF assms(1,2)] o
    by (simp add: book_admit_def new_book_def get0_def Let_def)
qed

theorem book_admit_refines_witness:
  "\<exists>ev. admit [] (demo_contract ''up'' 1000) (num 500) None = Inr (Declined ev (num 850) (num 500)) \<and>
     admit [] (demo_contract ''up'' 500) (num 500) None = Inr Accepted"
proof -
  have a: "add_all [] (new_book None) = Inr (new_book None)" by simp
  show ?thesis
    using book_admit_refines [OF _ a, of "demo_contract ''up'' 1000" "num 500"] demo_admit [of 1000 "num 500" None]
      book_admit_refines [OF _ a, of "demo_contract ''up'' 500" "num 500"] demo_admit [of 500 "num 500" None]
    by simp
qed

text \<open>The books a venue reaches when only admitted contracts join, with the contracts that joined.\<close>

inductive book_reaches :: "jsnum \<Rightarrow> contract list \<Rightarrow> exposure_book \<Rightarrow> bool" for limit where
  empty: "book_reaches limit [] (new_book r)"
| joined: "book_reaches limit cs b \<Longrightarrow> book_admit b c limit = Inr Accepted \<Longrightarrow> book_add b c = Inr b' \<Longrightarrow>
    book_reaches limit (cs @ [c]) b'"

lemma book_resolve_kept: "book_add b c = Inr b' \<Longrightarrow> eb_resolve b' = eb_resolve b"
  by (auto simp: book_add_def Let_def andThen_Inr_iff)

lemma reached_all: "book_reaches limit cs b \<Longrightarrow> stakes_ok cs \<and> add_all cs (new_book (eb_resolve b)) = Inr b"
proof (induction rule: book_reaches.induct)
  case (joined cs b c b')
  then have "js_lt (num 0) (ct_stake c) \<and> isFinite (ct_stake c)"
    by (auto simp: book_admit_def andThen_Inr_iff require_def split: if_splits)
  with joined show ?case using book_resolve_kept [OF joined(3)] by (auto simp: foldE_append)
qed (simp add: new_book_def)

definition within_limit :: "jsnum \<Rightarrow> exposure_book \<Rightarrow> bool" where
  "within_limit limit b \<longleftrightarrow> (\<forall>k. js_le (js_abs (js_sub (get0 (eb_call b) k) (get0 (eb_put b) k))) limit)"

lemma within_limit_add:
  assumes "within_limit limit b" "book_admit b c limit = Inr Accepted" "book_add b c = Inr b'"
  shows "within_limit limit b'"
proof -
  let ?k = "keyOf c (eb_resolve b)"
  obtain ob where ob: "payoutMinor (ct_stake c) (ct_payoutRatio c) = Inr ob"
    using assms(3) by (auto simp: book_add_def Let_def andThen_Inr_iff)
  let ?after = "if ct_direction c = ''up''
    then js_abs (js_sub (js_add (get0 (eb_call b) ?k) ob) (get0 (eb_put b) ?k))
    else js_abs (js_sub (get0 (eb_call b) ?k) (js_add (get0 (eb_put b) ?k) ob))"
  have "js_le ?after limit \<or> js_lt ?after (js_abs (js_sub (get0 (eb_call b) ?k) (get0 (eb_put b) ?k)))"
    using assms(2) ob by (auto simp: book_admit_def andThen_Inr_iff Let_def split: if_splits)
  then have a: "js_le ?after limit"
    using assms(1) js_lt_le_trans unfolding within_limit_def by blast
  show ?thesis
    unfolding within_limit_def
  proof
    fix k
    show "js_le (js_abs (js_sub (get0 (eb_call b') k) (get0 (eb_put b') k))) limit"
      using assms(1,3) ob a by (cases "k = ?k") (auto simp: book_add_def Let_def get0_update within_limit_def)
  qed
qed

lemma peak_within:
  assumes "within_limit limit b" "js_lt (num 0) limit"
  shows "js_le (peakExposure b) limit"
proof -
  have "js_le (fold (\<lambda>key peak. let net = js_abs (js_sub (get0 (eb_call b) key) (get0 (eb_put b) key)) in
       if js_lt peak net then net else peak) ks p) limit" if "js_le p limit" for ks p
    using that assms(1) by (induction ks arbitrary: p) (auto simp: within_limit_def Let_def)
  moreover have "js_le (num 0) limit" using assms(2) by (rule js_lt_imp_le)
  ultimately show ?thesis by (simp add: peakExposure_def)
qed

text \<open>A book within its limit is one whose contracts, grouped anew, breach nothing.\<close>

lemma within_limit_breaches:
  assumes "within_limit limit b" "stakes_ok cs" "add_all cs (new_book (eb_resolve b)) = Inr b"
  shows "breaches cs limit (eb_resolve b) = Inr []"
proof -
  have "eb_resolve (new_book (eb_resolve b)) = eb_resolve b" by (simp add: new_book_def)
  then obtain gs where gs: "foldE (exposure_step (eb_resolve b)) cs [] = Inr gs" "book_matches b gs"
    using book_matches_all [OF book_matches_new assms(2), of "eb_resolve b"] assms(3) by auto
  have "\<not> js_lt limit (ee_netExposure (event_of_group (k, g)))" if "(k, g) \<in> set gs" for k g
  proof -
    have "map_of gs k = Some g" using gs(2) that by (simp add: book_matches_def)
    then have "xg_call g = get0 (eb_call b) k" "xg_put g = get0 (eb_put b) k"
      using gs(2) unfolding book_matches_def by (auto dest: spec [of _ k] split: option.splits)
    then have "js_le (ee_netExposure (event_of_group (k, g))) limit"
      using assms(1) by (simp add: within_limit_def net_exposure_def)
    then show ?thesis by (rule js_le_not_lt)
  qed
  then show ?thesis using gs(1) by (auto simp: breaches_def exposureByEvent_def filter_empty_conv)
qed

text \<open>C17: a book that only admitted contracts join never carries more than its limit on any event,
  whatever the order of the contracts, for all Numbers, rounding included: neither by its own sums
  nor by the stateless grouping of the contracts that joined, of which \<open>breaches\<close> reports none.\<close>

theorem limiter_holds_limit:
  assumes "book_reaches limit cs b" "js_lt (num 0) limit"
  shows "js_le (netExposureFor b c) limit \<and> js_le (peakExposure b) limit \<and>
    breaches cs limit (eb_resolve b) = Inr []"
proof -
  have w: "within_limit limit b"
    using assms(1)
  proof (induction rule: book_reaches.induct)
    case (empty r)
    have "js_abs (js_sub (num 0) (num 0)) = num 0" by (simp add: js_sub_num)
    with assms(2) show ?case by (simp add: within_limit_def new_book_def get0_def js_lt_imp_le)
  qed (rule within_limit_add)
  moreover have "breaches cs limit (eb_resolve b) = Inr []"
    using within_limit_breaches [OF w] reached_all [OF assms(1)] by blast
  ultimately show ?thesis using peak_within [OF _ assms(2)] by (simp add: within_limit_def netExposureFor_def Let_def)
qed

theorem limiter_holds_limit_witness:
  "\<exists>b. book_reaches (num 500) [demo_contract ''up'' 500] b \<and> eb_contracts b = 1 \<and> js_le (peakExposure b) (num 500) \<and>
     breaches [demo_contract ''up'' 500] (num 500) (eb_resolve b) = Inr []"
proof -
  obtain b where b: "book_add (new_book None) (demo_contract ''up'' 500) = Inr b" "eb_contracts b = 1"
    using demo_payout [of 500] by (simp add: book_add_def new_book_def Let_def)
  have "book_admit (new_book None) (demo_contract ''up'' 500) (num 500) = Inr Accepted"
    using demo_admit [of 500 "num 500" None] by simp
  then have r: "book_reaches (num 500) ([] @ [demo_contract ''up'' 500]) b"
    using b(1) by (intro joined [OF empty [of "num 500" None]])
  with limiter_holds_limit [OF r] b(2) show ?thesis by auto
qed

end
