(* ===== verification/TickLog.thy ===== *)
theory TickLog
  imports Market
begin

text \<open>
  The contract every holder of ticks keeps: the distribution feed, the browser's window and the
  runtime's record all accept a batch only when it continues what they hold without a gap, and
  drop ticks only from the oldest end. The locale states the contract once; each holder
  interprets it on its own operations.
\<close>

definition sequences :: "tick list \<Rightarrow> int list" where
  "sequences ts = map sequence ts"

text \<open>A batch that continues a list of ticks.\<close>

definition continues :: "tick list \<Rightarrow> tick list \<Rightarrow> bool" where
  "continues held batch \<longleftrightarrow> consecutive (sequences batch) \<and>
     (held = [] \<or> batch = [] \<or> sequence (hd batch) = sequence (last held) + 1)"

lemma sequences_simps [simp]:
  "sequences [] = []" "sequences (t # ts) = sequence t # sequences ts"
  "sequences (ts @ us) = sequences ts @ sequences us" "length (sequences ts) = length ts"
  "sequences (drop k ts) = drop k (sequences ts)" "sequences (take k ts) = take k (sequences ts)"
  "sequences ts = [] \<longleftrightarrow> ts = []"
  by (simp_all add: sequences_def drop_map take_map)

lemma hd_sequences: "ts \<noteq> [] \<Longrightarrow> hd (sequences ts) = sequence (hd ts)"
  by (simp add: sequences_def hd_map)

lemma last_sequences: "ts \<noteq> [] \<Longrightarrow> last (sequences ts) = sequence (last ts)"
  by (simp add: sequences_def last_map)

lemma continues_append:
  assumes "consecutive (sequences held)"
  shows "continues held batch \<longleftrightarrow> consecutive (sequences (held @ batch))"
  using assms
  by (cases "batch = []"; cases "held = []")
     (auto simp: continues_def consecutive_append hd_sequences last_sequences)

text \<open>Picking by sequence is picking by position.\<close>

lemma filter_from:
  assumes "consecutive (sequences ts)" "ts \<noteq> []" "sequence (hd ts) \<le> n"
  shows "filter (\<lambda>t. n \<le> sequence t) ts = drop (nat (n - sequence (hd ts))) ts"
proof -
  let ?k = "nat (n - sequence (hd ts))"
  have nth: "sequence (ts ! i) = sequence (hd ts) + int i" if "i < length ts" for i
    using consecutive_nth [OF assms(1), of i] that assms(2) by (simp add: sequences_def hd_map)
  have "filter (\<lambda>t. n \<le> sequence t) (take ?k ts) = []"
    using nth by (fastforce simp: filter_empty_conv in_set_conv_nth)
  moreover have "filter (\<lambda>t. n \<le> sequence t) (drop ?k ts) = drop ?k ts"
    using nth assms(3) by (fastforce simp: filter_id_conv in_set_conv_nth)
  ultimately show ?thesis by (metis append_Nil append_take_drop_id filter_append)
qed

lemma newest_oldest:
  assumes "consecutive (sequences ts)" "ts \<noteq> []"
  shows "sequence (last ts) = sequence (hd ts) + int (length ts) - 1"
  using consecutive_last [OF assms(1)] assms(2) by (simp add: hd_sequences last_sequences)

lemma consecutive_sequences:
  "consecutive (sequence t # sequences ts) \<longleftrightarrow>
     (ts = [] \<or> sequence (hd ts) = sequence t + 1) \<and> consecutive (sequences ts)"
  by (cases ts) auto

locale tick_log =
  fixes ok :: "'s \<Rightarrow> bool"
    and contents :: "'s \<Rightarrow> tick list"
    and append :: "'s \<Rightarrow> tick list \<Rightarrow> 's option"
  assumes append_accepts: "ok s \<Longrightarrow> append s batch \<noteq> None \<longleftrightarrow> batch = [] \<or> continues (contents s) batch"
    and append_contents: "ok s \<Longrightarrow> append s batch = Some s' \<Longrightarrow>
      \<exists>k. contents s' = drop k (contents s @ batch) \<and> (contents s @ batch \<noteq> [] \<longrightarrow> k < length (contents s @ batch))"
    and append_ok: "ok s \<Longrightarrow> append s batch = Some s' \<Longrightarrow> ok s'"
begin

text \<open>A holder that is gapless stays gapless, whatever it is given.\<close>

lemma gapless_append:
  assumes "ok s" "append s batch = Some s'" "consecutive (sequences (contents s))"
  shows "consecutive (sequences (contents s'))"
proof -
  obtain k where k: "contents s' = drop k (contents s @ batch)" using append_contents [OF assms(1,2)] by blast
  have "batch = [] \<or> continues (contents s) batch" using append_accepts [OF assms(1), of batch] assms(2) by simp
  then have "consecutive (sequences (contents s @ batch))"
    using assms(3) continues_append by auto
  then show ?thesis unfolding k by (simp only: sequences_simps(5) consecutive_drop)
qed

lemma newest_append:
  assumes "ok s" "append s batch = Some s'" "batch \<noteq> []"
  shows "contents s' \<noteq> [] \<and> last (contents s') = last batch"
proof -
  obtain k where k: "contents s' = drop k (contents s @ batch)" "k < length (contents s @ batch)"
    using append_contents [OF assms(1,2)] assms(3) by blast
  then show ?thesis using assms(3) by (metis drop_eq_Nil last_appendR last_drop not_le)
qed

text \<open>A batch that starts where the newest tick ends is never refused.\<close>

lemma resumes:
  assumes "ok s" "consecutive (sequences batch)" "contents s \<noteq> []" "batch \<noteq> []"
    "sequence (hd batch) = sequence (last (contents s)) + 1"
  shows "append s batch \<noteq> None"
  using assms append_accepts [OF assms(1), of batch] by (simp add: continues_def)

text \<open>Feeding a holder batch by batch keeps its contract.\<close>

fun append_all :: "'s \<Rightarrow> tick list list \<Rightarrow> 's option" where
  "append_all s [] = Some s"
| "append_all s (b # bs) = (case append s b of None \<Rightarrow> None | Some s' \<Rightarrow> append_all s' bs)"

lemma gapless_all:
  "append_all s bs = Some s' \<Longrightarrow> ok s \<Longrightarrow> consecutive (sequences (contents s)) \<Longrightarrow>
    ok s' \<and> consecutive (sequences (contents s'))"
  by (induction bs arbitrary: s) (auto split: option.splits intro: gapless_append append_ok)

end

end
