(* ===== verification/Feed.thy ===== *)
theory Feed
  imports TickLog JsNumber "HOL-Library.Sublist"
begin

text \<open>
  The distribution feed: packages/distribution/src/feed.ts. A feed keeps a bounded, gapless
  window of ticks per asset, declared seams for markets that have published nothing yet, and
  the live subscriptions. A sink is the caller's: its answer to a delivery is an argument,
  \<open>accepts id held batch\<close>, which may depend on everything it has been delivered; what it was
  delivered and why it was closed are kept in its subscription. Sinks that call back into the
  feed while it delivers are not modelled.

  Operations that throw return the state they leave behind beside the error.
\<close>

section \<open>State\<close>

record feed_seam =
  fs_publishedThrough :: int
  fs_resumesAt :: int

record subscription =
  sb_id :: nat
  sb_assetId :: string
  sb_deliveredThrough :: "int option"
  sb_active :: bool
  sb_received :: "tick list"
  sb_closed :: "string option"

record feed =
  fd_retainTicks :: nat
  fd_history :: "string \<rightharpoonup> tick list"
  fd_subscriptions :: "string \<Rightarrow> subscription list"
  fd_seams :: "string \<rightharpoonup> feed_seam"

type_synonym sink = "nat \<Rightarrow> tick list \<Rightarrow> tick list \<Rightarrow> bool"

definition DEFAULT_RETAIN_TICKS :: int where "DEFAULT_RETAIN_TICKS = 50000"

definition FIRST_SEQUENCE :: int where "FIRST_SEQUENCE = 1"

definition new_feed :: "jsnum option \<Rightarrow> feed result" where
  "new_feed retainTicks =
     (let n = (case retainTicks of None \<Rightarrow> num DEFAULT_RETAIN_TICKS | Some v \<Rightarrow> v) in
      if \<not> isInteger n \<or> js_lt n (num 1) then Inl (RangeError ''retainTicks'')
      else Inr \<lparr>fd_retainTicks = nat (int_of n), fd_history = Map.empty,
        fd_subscriptions = (\<lambda>_. []), fd_seams = Map.empty\<rparr>)"

definition history_of :: "feed \<Rightarrow> string \<Rightarrow> tick list" where
  "history_of f a = (case fd_history f a of None \<Rightarrow> [] | Some h \<Rightarrow> h)"

definition declaredSeam :: "feed \<Rightarrow> string \<Rightarrow> feed_seam option" where
  "declaredSeam f a = fd_seams f a"

definition retained :: "feed \<Rightarrow> string \<Rightarrow> (int \<times> int) option" where
  "retained f a = (case fd_history f a of None \<Rightarrow> None
     | Some h \<Rightarrow> if length h = 0 then None else Some (sequence (h ! 0), sequence (h ! (length h - 1))))"

definition declare_seam :: "string \<Rightarrow> jsnum \<Rightarrow> jsnum \<Rightarrow> feed \<Rightarrow> feed \<times> unit result" where
  "declare_seam a publishedThrough resumesAt f =
     (if \<not> isSafeInteger resumesAt \<or> js_lt resumesAt (num FIRST_SEQUENCE)
      then (f, Inl (RangeError ''resumesAt''))
      else if \<not> isSafeInteger publishedThrough \<or> js_le resumesAt publishedThrough
      then (f, Inl (RangeError ''publishedThrough''))
      else (f\<lparr>fd_seams := (fd_seams f)(a \<mapsto> \<lparr>fs_publishedThrough = int_of publishedThrough,
              fs_resumesAt = int_of resumesAt\<rparr>)\<rparr>, Inr ()))"

section \<open>Subscriptions\<close>

definition sub_cancel :: "string \<Rightarrow> subscription \<Rightarrow> subscription" where
  "sub_cancel reason s = (if \<not> sb_active s then s else s\<lparr>sb_active := False, sb_closed := Some reason\<rparr>)"

definition sub_push :: "sink \<Rightarrow> tick list \<Rightarrow> subscription \<Rightarrow> subscription" where
  "sub_push accepts ticks s =
     (if \<not> sb_active s then s
      else if \<not> accepts (sb_id s) (sb_received s) ticks then sub_cancel ''backpressure'' s
      else s\<lparr>sb_received := sb_received s @ ticks,
             sb_deliveredThrough := Some (sequence (last ticks))\<rparr>)"

section \<open>Publication\<close>

fun check_gapless :: "int option \<Rightarrow> tick list \<Rightarrow> unit result" where
  "check_gapless previous [] = Inr ()"
| "check_gapless previous (t # ts) =
     (if previous \<noteq> None \<and> sequence t \<noteq> the previous + 1 then Inl (RangeError ''gap'')
      else check_gapless (Some (sequence t)) ts)"

text \<open>The subscriptions that refuse the batch are detached as they are cancelled, so the set kept
  holds the active ones only; the second component is the ones that were closed.\<close>

definition publish ::
  "sink \<Rightarrow> string \<Rightarrow> tick list \<Rightarrow> feed \<Rightarrow> feed \<times> subscription list \<times> unit result" where
  "publish accepts a ticks f =
     (if ticks = [] then (f, [], Inr ())
      else let history = history_of f a;
               previous = (if history = [] then None else Some (sequence (last history))) in
      case check_gapless previous ticks of
        Inl e \<Rightarrow> (f, [], Inl e)
      | Inr _ \<Rightarrow>
          let pushed = history @ ticks;
              kept = (if fd_retainTicks f < length pushed
                then drop (length pushed - fd_retainTicks f) pushed else pushed);
              subs = map (sub_push accepts ticks) (fd_subscriptions f a) in
          (f\<lparr>fd_seams := (fd_seams f)(a := None), fd_history := (fd_history f)(a \<mapsto> kept),
             fd_subscriptions := (fd_subscriptions f)(a := filter sb_active subs)\<rparr>,
           filter (\<lambda>s. \<not> sb_active s) subs, Inr ()))"

definition forget :: "string \<Rightarrow> string \<Rightarrow> feed \<Rightarrow> feed \<times> subscription list" where
  "forget a reason f =
     (f\<lparr>fd_subscriptions := (fd_subscriptions f)(a := []), fd_history := (fd_history f)(a := None),
        fd_seams := (fd_seams f)(a := None)\<rparr>,
      map (sub_cancel reason) (fd_subscriptions f a))"

definition since :: "feed \<Rightarrow> string \<Rightarrow> jsnum \<Rightarrow> tick list result" where
  "since f a fromSequence =
     (if \<not> isSafeInteger fromSequence \<or> js_lt fromSequence (num 0)
      then Inl (UnknownSequence (int_of fromSequence) (FIRST_SEQUENCE - 1))
      else let from = int_of fromSequence; history = history_of f a in
      if length history = 0 then
        (case fd_seams f a of
           Some seam \<Rightarrow>
             if from < fs_resumesAt seam then Inl (Evicted from (fs_resumesAt seam))
             else if fs_resumesAt seam < from then Inl (UnknownSequence from (fs_publishedThrough seam))
             else Inr []
         | None \<Rightarrow>
             if from \<noteq> FIRST_SEQUENCE then Inl (UnknownSequence from (FIRST_SEQUENCE - 1)) else Inr [])
      else let oldest = sequence (history ! 0); newest = sequence (history ! (length history - 1)) in
        if from < oldest then Inl (Evicted from oldest)
        else if newest + 1 < from then Inl (UnknownSequence from newest)
        else let offset = from - oldest in Inr (drop (nat (max 0 offset)) history))"

definition new_subscription :: "nat \<Rightarrow> string \<Rightarrow> subscription" where
  "new_subscription i a = \<lparr>sb_id = i, sb_assetId = a, sb_deliveredThrough = None, sb_active = True,
     sb_received = [], sb_closed = None\<rparr>"

definition subscribe ::
  "sink \<Rightarrow> nat \<Rightarrow> string \<Rightarrow> jsnum option \<Rightarrow> feed \<Rightarrow> (feed \<times> subscription) result" where
  "subscribe accepts i a fromSequence f =
     andThen (case fromSequence of None \<Rightarrow> Inr (new_subscription i a)
       | Some from \<Rightarrow> andThen (since f a from) (\<lambda>backlog.
           Inr (if 0 < length backlog then sub_push accepts backlog (new_subscription i a)
                else new_subscription i a))) (\<lambda>s.
     Inr (if sb_active s
          then f\<lparr>fd_subscriptions := (fd_subscriptions f)(a := fd_subscriptions f a @ [s])\<rparr> else f, s))"

text \<open>A subscriber cancelling itself leaves the set.\<close>

definition unsubscribe :: "nat \<Rightarrow> string \<Rightarrow> feed \<Rightarrow> feed" where
  "unsubscribe i a f = f\<lparr>fd_subscriptions := (fd_subscriptions f)(a :=
     filter (\<lambda>s. sb_id s \<noteq> i) (fd_subscriptions f a))\<rparr>"

definition subscriberCount :: "feed \<Rightarrow> string \<Rightarrow> nat" where
  "subscriberCount f a = length (fd_subscriptions f a)"

section \<open>The feed is a tick log\<close>

lemma check_gapless_iff:
  "check_gapless previous ts = Inr u \<longleftrightarrow> consecutive (sequences ts) \<and>
     (previous = None \<or> ts = [] \<or> sequence (hd ts) = the previous + 1)"
  by (induction previous ts rule: check_gapless.induct) (auto simp: consecutive_sequences)

lemma check_gapless_error: "check_gapless previous ts = Inl e \<Longrightarrow> e = RangeError ''gap''"
  by (induction previous ts rule: check_gapless.induct) (auto split: if_splits)

definition feed_append :: "string \<Rightarrow> feed \<Rightarrow> tick list \<Rightarrow> feed option" where
  "feed_append a f batch = (case publish (\<lambda>_ _ _. True) a batch f of
     (f', _, Inr _) \<Rightarrow> Some f' | (_, _, Inl _) \<Rightarrow> None)"

lemma history_upd [simp]:
  "history_of (f\<lparr>fd_history := (fd_history f)(a \<mapsto> h)\<rparr>) a = h"
  "history_of (f\<lparr>fd_seams := x\<rparr>) a = history_of f a"
  "history_of (f\<lparr>fd_subscriptions := y\<rparr>) a = history_of f a"
  by (simp_all add: history_of_def)

lemma publish_iff:
  "snd (snd (publish accepts a ticks f)) = Inr () \<longleftrightarrow> ticks = [] \<or> continues (history_of f a) ticks"
proof (cases "ticks = []")
  case False
  let ?p = "if history_of f a = [] then None else Some (sequence (last (history_of f a)))"
  have "check_gapless ?p ticks = Inr () \<longleftrightarrow> continues (history_of f a) ticks"
    using False by (auto simp: check_gapless_iff continues_def)
  with False show ?thesis by (cases "check_gapless ?p ticks") (auto simp: publish_def Let_def)
qed (simp add: publish_def)

lemma publish_cases:
  obtains (refused) e where "publish accepts a ticks f = (f, [], Inl e)" "\<not> (ticks = [] \<or> continues (history_of f a) ticks)"
  | (nothing) "ticks = []" "publish accepts a ticks f = (f, [], Inr ())"
  | (applied) f' closed where "ticks \<noteq> []" "continues (history_of f a) ticks"
      "publish accepts a ticks f = (f', closed, Inr ())"
      "fd_retainTicks f' = fd_retainTicks f" "fd_seams f' = (fd_seams f)(a := None)"
      "fd_history f' = (fd_history f)(a \<mapsto> drop (length (history_of f a @ ticks) - fd_retainTicks f) (history_of f a @ ticks))"
      "fd_subscriptions f' = (fd_subscriptions f)(a := filter sb_active (map (sub_push accepts ticks) (fd_subscriptions f a)))"
      "closed = filter (\<lambda>s. \<not> sb_active s) (map (sub_push accepts ticks) (fd_subscriptions f a))"
proof (cases "ticks = []")
  case True
  then have "publish accepts a ticks f = (f, [], Inr ())" by (simp add: publish_def)
  with True show thesis by (rule nothing)
next
  case ne: False
  let ?p = "if history_of f a = [] then None else Some (sequence (last (history_of f a)))"
  show thesis
  proof (cases "check_gapless ?p ticks")
    case (Inl e)
    then have p: "publish accepts a ticks f = (f, [], Inl e)" using ne by (simp add: publish_def Let_def)
    then have "\<not> (ticks = [] \<or> continues (history_of f a) ticks)"
      using publish_iff [of accepts a ticks f] by simp
    with p show thesis by (rule refused)
  next
    case (Inr u)
    let ?pushed = "history_of f a @ ticks"
    have drop0: "(if fd_retainTicks f < length ?pushed then drop (length ?pushed - fd_retainTicks f) ?pushed
        else ?pushed) = drop (length ?pushed - fd_retainTicks f) ?pushed" by simp
    have "continues (history_of f a) ticks"
      using Inr ne publish_iff [of accepts a ticks f] by (simp add: publish_def Let_def)
    then show thesis
      using ne Inr
      by (intro applied [of "fst (publish accepts a ticks f)" "fst (snd (publish accepts a ticks f))"])
         (simp_all add: publish_def Let_def drop0)
  qed
qed

definition feed_ok :: "feed \<Rightarrow> bool" where
  "feed_ok f \<longleftrightarrow> 0 < fd_retainTicks f"

interpretation feed_log: tick_log feed_ok "\<lambda>f. history_of f a" "feed_append a" for a
proof
  fix s batch assume "feed_ok s"
  show "feed_append a s batch \<noteq> None \<longleftrightarrow> batch = [] \<or> continues (history_of s a) batch"
    by (rule publish_cases [of "\<lambda>_ _ _. True" a batch s]) (simp_all add: feed_append_def)
next
  fix s batch s' assume ok: "feed_ok s" and s': "feed_append a s batch = Some s'"
  show "\<exists>k. history_of s' a = drop k (history_of s a @ batch) \<and>
      (history_of s a @ batch \<noteq> [] \<longrightarrow> k < length (history_of s a @ batch))"
  proof (rule publish_cases [of "\<lambda>_ _ _. True" a batch s])
    assume "batch = []" "publish (\<lambda>_ _ _. True) a batch s = (s, [], Inr ())"
    then show ?thesis using s' by (intro exI [of _ 0]) (simp add: feed_append_def)
  next
    fix f' closed assume h: "batch \<noteq> []" "publish (\<lambda>_ _ _. True) a batch s = (f', closed, Inr ())"
      "fd_history f' = (fd_history s)(a \<mapsto> drop (length (history_of s a @ batch) - fd_retainTicks s) (history_of s a @ batch))"
    then have "s' = f'" using s' by (simp add: feed_append_def)
    then have "history_of s' a = drop (length (history_of s a @ batch) - fd_retainTicks s) (history_of s a @ batch)"
      using h(3) by (simp add: history_of_def)
    moreover have "length (history_of s a @ batch) - fd_retainTicks s < length (history_of s a @ batch)"
      using ok h(1) by (simp add: feed_ok_def)
    ultimately show ?thesis by blast
  qed (use s' in \<open>simp add: feed_append_def\<close>)
next
  fix s batch s' assume ok: "feed_ok s" and s': "feed_append a s batch = Some s'"
  show "feed_ok s'"
    by (rule publish_cases [of "\<lambda>_ _ _. True" a batch s])
       (use ok s' in \<open>auto simp: feed_append_def feed_ok_def\<close>)
qed

section \<open>Reading back\<close>

lemma since_num:
  assumes "0 \<le> n" "n \<le> MAX_SAFE" "history_of f a \<noteq> []"
  shows "since f a (num n) =
     (if n < sequence (hd (history_of f a)) then Inl (Evicted n (sequence (hd (history_of f a))))
      else if sequence (last (history_of f a)) + 1 < n then Inl (UnknownSequence n (sequence (last (history_of f a))))
      else Inr (drop (nat (n - sequence (hd (history_of f a)))) (history_of f a)))"
proof -
  have "history_of f a ! 0 = hd (history_of f a)"
    "history_of f a ! (length (history_of f a) - Suc 0) = last (history_of f a)"
    using assms(3) by (simp_all add: hd_conv_nth last_conv_nth)
  with assms show ?thesis by (auto simp: since_def Let_def max_def)
qed

lemma since_unsafe:
  "\<not> (\<exists>n. x = num n \<and> 0 \<le> n \<and> n \<le> MAX_SAFE) \<Longrightarrow> since f a x = Inl (UnknownSequence (int_of x) 0)"
proof -
  assume "\<not> (\<exists>n. x = num n \<and> 0 \<le> n \<and> n \<le> MAX_SAFE)"
  then have "\<not> isSafeInteger x \<or> js_lt x (num 0)"
  proof (rule contrapos_np)
    assume "\<not> (\<not> isSafeInteger x \<or> js_lt x (num 0))"
    then show "\<exists>n. x = num n \<and> 0 \<le> n \<and> n \<le> MAX_SAFE"
      using isSafeInteger_num [of x] num_simps(8) [of "int_of x" 0] by (metis abs_le_iff linorder_not_less)
  qed
  then show ?thesis by (simp add: since_def FIRST_SEQUENCE_def)
qed

section \<open>Runs of a feed\<close>

text \<open>
  Every state a feed reaches, with the ticks published for each asset since it was last
  forgotten: the record an observer is measured against. The sinks are arbitrary at every step.
\<close>

text \<open>
  Beside it, what each live subscriber is due, said without the feed: at its start the published
  ticks from the sequence it asked for, then every batch published, whole; a subscriber is out when
  its sink refuses a batch, when it cancels or when the asset is forgotten.
\<close>

type_synonym dues = "(nat \<times> tick list) list"

definition asked :: "tick list \<Rightarrow> jsnum option \<Rightarrow> tick list" where
  "asked lg from = (case from of None \<Rightarrow> [] | Some x \<Rightarrow> filter (\<lambda>t. int_of x \<le> sequence t) lg)"

definition due_subscribe :: "sink \<Rightarrow> nat \<Rightarrow> tick list \<Rightarrow> dues \<Rightarrow> dues" where
  "due_subscribe accepts i backlog ds = (if backlog = [] \<or> accepts i [] backlog then ds @ [(i, backlog)] else ds)"

definition due_publish :: "sink \<Rightarrow> tick list \<Rightarrow> dues \<Rightarrow> dues" where
  "due_publish accepts ticks ds = (if ticks = [] then ds
     else map (\<lambda>(i, w). (i, w @ ticks)) (filter (\<lambda>(i, w). accepts i w ticks) ds))"

inductive feed_deliveries :: "feed \<Rightarrow> (string \<Rightarrow> tick list) \<Rightarrow> (string \<Rightarrow> dues) \<Rightarrow> bool" where
  fresh: "new_feed r = Inr f \<Longrightarrow> feed_deliveries f (\<lambda>_. []) (\<lambda>_. [])"
| published: "feed_deliveries f lg due \<Longrightarrow> publish accepts a ticks f = (f', dropped, Inr ()) \<Longrightarrow>
    feed_deliveries f' (lg(a := lg a @ ticks)) (due(a := due_publish accepts ticks (due a)))"
| refused: "feed_deliveries f lg due \<Longrightarrow> publish accepts a ticks f = (f', dropped, Inl e) \<Longrightarrow> feed_deliveries f' lg due"
| seamed: "feed_deliveries f lg due \<Longrightarrow> declare_seam a p r f = (f', res) \<Longrightarrow> feed_deliveries f' lg due"
| subscribed: "feed_deliveries f lg due \<Longrightarrow> subscribe accepts i a from f = Inr (f', s) \<Longrightarrow>
    feed_deliveries f' lg (due(a := due_subscribe accepts i (asked (lg a) from) (due a)))"
| unsubscribed: "feed_deliveries f lg due \<Longrightarrow>
    feed_deliveries (unsubscribe i a f) lg (due(a := filter (\<lambda>d. fst d \<noteq> i) (due a)))"
| forgotten: "feed_deliveries f lg due \<Longrightarrow> forget a reason f = (f', dropped) \<Longrightarrow>
    feed_deliveries f' (lg(a := [])) (due(a := []))"

definition feed_run :: "feed \<Rightarrow> (string \<Rightarrow> tick list) \<Rightarrow> bool" where
  "feed_run f lg \<longleftrightarrow> (\<exists>due. feed_deliveries f lg due)"

text \<open>What a live subscription holds: a stretch of the log that ends where the log ends.\<close>

definition current_sub :: "tick list \<Rightarrow> subscription \<Rightarrow> bool" where
  "current_sub lg s \<longleftrightarrow> sb_active s \<and> suffix (sb_received s) lg \<and>
     sb_deliveredThrough s = (if sb_received s = [] then None else Some (sequence (last (sb_received s))))"

definition feed_inv :: "feed \<Rightarrow> (string \<Rightarrow> tick list) \<Rightarrow> bool" where
  "feed_inv f lg \<longleftrightarrow> feed_ok f \<and> (\<forall>a. consecutive (sequences (lg a)) \<and>
     history_of f a = drop (length (lg a) - fd_retainTicks f) (lg a) \<and>
     (\<forall>s \<in> set (fd_subscriptions f a). current_sub (lg a) s))"

lemma history_of_cong: "fd_history f' = fd_history f \<Longrightarrow> history_of f' a = history_of f a"
  by (simp add: history_of_def)

lemma new_feed_inv: "new_feed r = Inr f \<Longrightarrow> feed_inv f (\<lambda>_. [])"
proof -
  assume h: "new_feed r = Inr f"
  let ?n = "case r of None \<Rightarrow> num DEFAULT_RETAIN_TICKS | Some v \<Rightarrow> v"
  have n: "isInteger ?n" "\<not> js_lt ?n (num 1)"
    and f: "f = \<lparr>fd_retainTicks = nat (int_of ?n), fd_history = Map.empty,
      fd_subscriptions = (\<lambda>_. []), fd_seams = Map.empty\<rparr>"
    using h by (auto simp: new_feed_def Let_def split: if_splits)
  obtain m where m: "?n = num m" using isInteger_num [OF n(1)] by blast
  have "1 \<le> int_of ?n" using n(2) unfolding m by simp
  then show ?thesis by (simp add: f feed_inv_def feed_ok_def history_of_def)
qed

lemma current_sub_push:
  assumes "current_sub lg s" "ts \<noteq> []" "sb_active (sub_push accepts ts s)"
  shows "current_sub (lg @ ts) (sub_push accepts ts s)"
proof -
  have "sub_push accepts ts s = s\<lparr>sb_received := sb_received s @ ts, sb_deliveredThrough := Some (sequence (last ts))\<rparr>"
    using assms(1,3) by (auto simp: current_sub_def sub_push_def sub_cancel_def split: if_splits)
  then show ?thesis using assms(1,2) by (simp add: current_sub_def)
qed

lemma window_ne: "0 < r \<Longrightarrow> xs \<noteq> [] \<Longrightarrow> length xs - r < length xs \<and> drop (length xs - r) xs \<noteq> []"
  by (cases xs) auto

lemma feed_inv_same_history:
  assumes "feed_inv f lg" "fd_history f' = fd_history f" "fd_retainTicks f' = fd_retainTicks f"
    "\<And>b s. s \<in> set (fd_subscriptions f' b) \<Longrightarrow> s \<in> set (fd_subscriptions f b) \<or> current_sub (lg b) s"
  shows "feed_inv f' lg"
  using assms(1,4) history_of_cong [OF assms(2)] assms(3) unfolding feed_inv_def feed_ok_def by metis

lemma publish_inv:
  assumes "feed_inv f lg" "publish accepts a ticks f = (f', dropped, Inr ())"
  shows "feed_inv f' (lg(a := lg a @ ticks))"
proof (rule publish_cases [of accepts a ticks f])
  fix g c assume p: "ticks \<noteq> []" "continues (history_of f a) ticks"
    "publish accepts a ticks f = (g, c, Inr ())" "fd_retainTicks g = fd_retainTicks f"
    and h: "fd_history g = (fd_history f)(a \<mapsto> drop (length (history_of f a @ ticks) - fd_retainTicks f) (history_of f a @ ticks))"
    and s: "fd_subscriptions g = (fd_subscriptions f)(a := filter sb_active (map (sub_push accepts ticks) (fd_subscriptions f a)))"
  let ?r = "fd_retainTicks f"
  have inv: "0 < ?r" "\<And>b. consecutive (sequences (lg b))" "\<And>b. history_of f b = drop (length (lg b) - ?r) (lg b)"
    "\<And>b s. s \<in> set (fd_subscriptions f b) \<Longrightarrow> current_sub (lg b) s"
    using assms(1) by (auto simp: feed_inv_def feed_ok_def)
  have g: "f' = g" using assms(2) p(3) by simp
  have other: "history_of g b = history_of f b" if "b \<noteq> a" for b using that by (simp add: history_of_def h)
  have same: "history_of g a = drop (length (lg a @ ticks) - ?r) (lg a @ ticks)"
  proof -
    have "history_of g a = drop (length (history_of f a @ ticks) - ?r) (history_of f a @ ticks)"
      by (simp add: history_of_def h)
    also have "\<dots> = drop (length (lg a @ ticks) - ?r) (lg a @ ticks)"
      by (cases "?r \<le> length (lg a)") (auto simp: inv(3) add.commute)
    finally show ?thesis .
  qed
  have "consecutive (sequences (lg a @ ticks))"
  proof -
    have "consecutive (sequences (history_of f a @ ticks))"
      using p(2) continues_append inv(2,3) by (metis consecutive_drop sequences_simps(5))
    moreover have "lg a \<noteq> [] \<Longrightarrow> history_of f a \<noteq> [] \<and> last (history_of f a) = last (lg a)"
      using window_ne [OF inv(1)] by (metis inv(3) last_drop)
    ultimately have "continues (lg a) ticks"
      using p(2) by (auto simp: continues_def)
    then show ?thesis using continues_append [OF inv(2)] by blast
  qed
  then show ?thesis
    unfolding g feed_inv_def feed_ok_def using inv p(1,4) other same
    by (auto simp: s intro: current_sub_push)
next
  assume "ticks = []" "publish accepts a ticks f = (f, [], Inr ())"
  then show ?thesis using assms by simp
qed (use assms(2) in auto)

lemma since_suffix:
  assumes "since f a x = Inr backlog"
  shows "suffix backlog (history_of f a)"
  using assms by (auto simp: since_def Let_def suffix_drop split: if_splits option.splits)

lemma subscribe_inv:
  assumes "feed_inv f lg" "subscribe accepts i a from f = Inr (f', s)"
  shows "feed_inv f' lg"
proof -
  have h: "suffix (history_of f a) (lg a)" using assms(1) by (metis feed_inv_def suffix_drop)
  have new: "current_sub (lg a) (new_subscription i a)" by (simp add: current_sub_def new_subscription_def)
  have "current_sub (lg a) (sub_push accepts b (new_subscription i a))"
    if "suffix b (history_of f a)" "b \<noteq> []" "sb_active (sub_push accepts b (new_subscription i a))" for b
    using that h by (auto simp: current_sub_def sub_push_def sub_cancel_def new_subscription_def
      intro: suffix_order.trans split: if_splits)
  then have "sb_active s \<Longrightarrow> current_sub (lg a) s"
    using assms(2) new by (auto simp: subscribe_def andThen_Inr_iff dest!: since_suffix split: option.splits if_splits)
  moreover have "f' = (if sb_active s
      then f\<lparr>fd_subscriptions := (fd_subscriptions f)(a := fd_subscriptions f a @ [s])\<rparr> else f)"
    using assms(2) by (auto simp: subscribe_def andThen_Inr_iff)
  ultimately show ?thesis
    using assms(1) by (auto intro!: feed_inv_same_history [OF assms(1)] split: if_splits)
qed

lemma deliveries_inv: "feed_deliveries f lg due \<Longrightarrow> feed_inv f lg"
proof (induction rule: feed_deliveries.induct)
  case (fresh r f)
  then show ?case by (rule new_feed_inv)
next
  case (published f lg due accepts a ticks f' dropped)
  then show ?case using publish_inv by blast
next
  case (refused f lg due accepts a ticks f' dropped e)
  then show ?case by (metis Inl_Inr_False prod.inject publish_cases)
next
  case (seamed f lg due a p r f' res)
  then have "fd_history f' = fd_history f" "fd_retainTicks f' = fd_retainTicks f" "fd_subscriptions f' = fd_subscriptions f"
    by (auto simp: declare_seam_def split: if_splits)
  with seamed show ?case by (auto intro: feed_inv_same_history)
next
  case (subscribed f lg due accepts i a "from" f' s)
  then show ?case using subscribe_inv by blast
next
  case (unsubscribed f lg due i a)
  then show ?case by (auto intro!: feed_inv_same_history [OF unsubscribed(2)] simp: unsubscribe_def split: if_splits)
next
  case (forgotten f lg due a reason f' dropped)
  then show ?case by (auto simp: forget_def feed_inv_def feed_ok_def history_of_def)
qed

lemma feed_run_inv: "feed_run f lg \<Longrightarrow> feed_inv f lg"
  using deliveries_inv unfolding feed_run_def by blast

text \<open>A backlog is the published ticks from the sequence asked for.\<close>

lemma since_asked:
  assumes "feed_inv f lg" "since f a x = Inr backlog"
  shows "backlog = asked (lg a) (Some x)"
proof -
  let ?r = "fd_retainTicks f" and ?h = "history_of f a"
  have inv: "0 < ?r" "consecutive (sequences (lg a))" "?h = drop (length (lg a) - ?r) (lg a)"
    using assms(1) by (auto simp: feed_inv_def feed_ok_def)
  obtain n where n: "x = num n" "0 \<le> n" "n \<le> MAX_SAFE" using since_unsafe assms(2) by fastforce
  show ?thesis
  proof (cases "lg a = []")
    case True
    then have "?h = []" by (simp add: inv(3))
    then have "backlog = []" using assms(2) by (auto simp: since_def Let_def split: if_splits option.splits)
    with True show ?thesis by (simp add: asked_def)
  next
    case False
    have ne: "?h \<noteq> []" using window_ne [OF inv(1) False] by (simp add: inv(3))
    have s: "sequence (hd ?h) \<le> n" "backlog = drop (nat (n - sequence (hd ?h))) ?h"
      using assms(2) since_num [OF n(2,3) ne] n(1) by (auto split: if_splits)
    have "length (lg a) - ?r < length (lg a)" using window_ne [OF inv(1) False] by simp
    then have hd: "sequence (hd ?h) = sequence (hd (lg a)) + int (length (lg a) - ?r)"
      using consecutive_nth [OF inv(2), of "length (lg a) - ?r"] False
      by (simp add: inv(3) hd_drop_conv_nth sequences_def hd_map)
    then have "nat (n - sequence (hd ?h)) + (length (lg a) - ?r) = nat (n - sequence (hd (lg a)))"
      using s(1) by simp
    then show ?thesis using filter_from [OF inv(2) False, of n] s hd by (simp add: asked_def n(1) inv(3))
  qed
qed

text \<open>The subscriptions of an asset hold what is due, in the order they subscribed.\<close>

definition received_by :: "subscription list \<Rightarrow> dues" where
  "received_by ss = map (\<lambda>s. (sb_id s, sb_received s)) ss"

lemma received_publish:
  "\<forall>s\<in>set ss. sb_active s \<Longrightarrow> ticks \<noteq> [] \<Longrightarrow>
    received_by (filter sb_active (map (sub_push accepts ticks) ss)) = due_publish accepts ticks (received_by ss)"
  by (induction ss) (auto simp: received_by_def due_publish_def sub_push_def sub_cancel_def)

lemma received_subscribe:
  assumes "feed_inv f lg" "subscribe accepts i a from f = Inr (f', s)"
  shows "received_by (fd_subscriptions f' b) = (if b = a then due_subscribe accepts i (asked (lg a) from) (received_by (fd_subscriptions f a))
    else received_by (fd_subscriptions f b))"
proof (cases "from")
  case None
  then show ?thesis using assms(2)
    by (auto simp: subscribe_def asked_def due_subscribe_def received_by_def new_subscription_def)
next
  case (Some x)
  then obtain backlog where b: "since f a x = Inr backlog" "s = (if 0 < length backlog
      then sub_push accepts backlog (new_subscription i a) else new_subscription i a)"
    "f' = (if sb_active s then f\<lparr>fd_subscriptions := (fd_subscriptions f)(a := fd_subscriptions f a @ [s])\<rparr> else f)"
    using assms(2) by (auto simp: subscribe_def andThen_Inr_iff)
  with since_asked [OF assms(1) b(1)] Some show ?thesis
    by (auto simp: due_subscribe_def received_by_def new_subscription_def sub_push_def sub_cancel_def)
qed

lemma received_due: "feed_deliveries f lg due \<Longrightarrow> received_by (fd_subscriptions f b) = due b"
proof (induction arbitrary: b rule: feed_deliveries.induct)
  case (fresh r f)
  then show ?case by (auto simp: new_feed_def received_by_def Let_def split: if_splits)
next
  case (published f lg due accepts a ticks f' dropped)
  have act: "\<forall>s\<in>set (fd_subscriptions f a). sb_active s"
    using deliveries_inv [OF published(1)] by (simp add: feed_inv_def current_sub_def)
  show ?case
    by (rule publish_cases [of accepts a ticks f])
      (use published(2) published.IH act in \<open>auto simp: received_publish due_publish_def\<close>)
next
  case (refused f lg due accepts a ticks f' dropped e)
  then show ?case by (metis Inl_Inr_False prod.inject publish_cases)
next
  case (seamed f lg due a p r f' res)
  then show ?case by (auto simp: declare_seam_def split: if_splits)
next
  case (subscribed f lg due accepts i a "from" f' s)
  then show ?case using received_subscribe [OF deliveries_inv [OF subscribed(1)] subscribed(2)] by simp
next
  case (unsubscribed f lg due i a)
  then show ?case by (auto simp: unsubscribe_def received_by_def filter_map comp_def simp flip: unsubscribed.IH)
next
  case (forgotten f lg due a reason f' dropped)
  then show ?case by (auto simp: forget_def received_by_def)
qed

section \<open>What the feed promises\<close>

text \<open> the feed forwards a batch whole or refuses it whole. A batch that does not continue
  the asset's window leaves the feed, its window and its subscribers as they were; any other is
  kept, the window being its newest \<open>retainTicks\<close> ticks, and every live subscriber of the asset
  has either been delivered exactly the batch or been closed with nothing further delivered.\<close>

theorem publish_whole:
  "\<exists>f' gone. publish accepts a ticks f = (f', gone,
      if ticks = [] \<or> continues (history_of f a) ticks then Inr () else Inl (RangeError ''gap'')) \<and>
    (\<not> continues (history_of f a) ticks \<or> ticks = [] \<longrightarrow> f' = f \<and> gone = []) \<and>
    (ticks \<noteq> [] \<and> continues (history_of f a) ticks \<longrightarrow>
      history_of f' a = drop (length (history_of f a @ ticks) - fd_retainTicks f) (history_of f a @ ticks) \<and>
      (\<forall>b. b \<noteq> a \<longrightarrow> history_of f' b = history_of f b \<and> fd_subscriptions f' b = fd_subscriptions f b) \<and>
      fd_subscriptions f' a = map (\<lambda>s. s\<lparr>sb_received := sb_received s @ ticks, sb_deliveredThrough := Some (sequence (last ticks))\<rparr>)
        (filter (\<lambda>s. sb_active s \<and> accepts (sb_id s) (sb_received s) ticks) (fd_subscriptions f a)) \<and>
      (\<forall>s \<in> set gone. \<not> sb_active s \<and> (\<exists>s0 \<in> set (fd_subscriptions f a). sb_received s = sb_received s0)))"
proof -
  have sub: "filter sb_active (map (sub_push accepts ticks) ss) =
      map (\<lambda>s. s\<lparr>sb_received := sb_received s @ ticks, sb_deliveredThrough := Some (sequence (last ticks))\<rparr>)
        (filter (\<lambda>s. sb_active s \<and> accepts (sb_id s) (sb_received s) ticks) ss)" for ss
    by (induction ss) (auto simp: sub_push_def sub_cancel_def)
  have gone: "sb_received (sub_push accepts ticks s) = sb_received s" if "\<not> sb_active (sub_push accepts ticks s)" for s
    using that by (auto simp: sub_push_def sub_cancel_def split: if_splits)
  show ?thesis
  proof (rule publish_cases [of accepts a ticks f])
    fix e assume h: "publish accepts a ticks f = (f, [], Inl e)" "\<not> (ticks = [] \<or> continues (history_of f a) ticks)"
    then have "e = RangeError ''gap''" using check_gapless_error by (auto simp: publish_def Let_def split: sum.splits)
    with h show ?thesis by simp
  next
    fix f' dropped assume h: "ticks \<noteq> []" "continues (history_of f a) ticks"
      "publish accepts a ticks f = (f', dropped, Inr ())"
      "fd_history f' = (fd_history f)(a \<mapsto> drop (length (history_of f a @ ticks) - fd_retainTicks f) (history_of f a @ ticks))"
      "fd_subscriptions f' = (fd_subscriptions f)(a := filter sb_active (map (sub_push accepts ticks) (fd_subscriptions f a)))"
      "dropped = filter (\<lambda>s. \<not> sb_active s) (map (sub_push accepts ticks) (fd_subscriptions f a))"
    have "history_of f' a = drop (length (history_of f a @ ticks) - fd_retainTicks f) (history_of f a @ ticks)"
      "b \<noteq> a \<Longrightarrow> history_of f' b = history_of f b" for b
      by (simp_all add: history_of_def h(4))
    with h(1,2,3,5,6) show ?thesis by (auto simp: sub gone intro!: exI [of _ f'] exI [of _ dropped])
  qed simp
qed

text \<open>C18: in every run of a feed, whatever the sinks answer, each asset's window is exactly the
  newest \<open>retainTicks\<close> ticks published, without a gap, and its live subscribers are exactly the ones
  due, in order, each having been delivered exactly what it is due: the published ticks from the
  sequence it asked for, then every batch published since, once and in order. So what it has is an
  unbroken stretch that ends at the newest tick, and nobody connected is ever missing one.\<close>

theorem feed_never_skips:
  assumes "feed_deliveries f lg due"
  shows "consecutive (sequences (lg a)) \<and> history_of f a = drop (length (lg a) - fd_retainTicks f) (lg a) \<and>
    map (\<lambda>s. (sb_id s, sb_received s)) (fd_subscriptions f a) = due a \<and>
    list_all (\<lambda>s. sb_active s \<and> suffix (sb_received s) (lg a) \<and>
      sb_deliveredThrough s = (if sb_received s = [] then None else Some (sequence (last (lg a)))))
      (fd_subscriptions f a)"
proof -
  have "last r = last l" if "suffix r l" "r \<noteq> []" for r l :: "tick list"
    using that by (auto simp: suffix_def)
  then show ?thesis
    using deliveries_inv [OF assms] received_due [OF assms, of a]
    unfolding feed_inv_def current_sub_def list_all_iff received_by_def by metis
qed

text \<open>Resuming is exact. A client that was given a stretch of what was published and asks for
  the sequence after its last tick is given precisely the ticks it has not had, in order, when at
  most \<open>retainTicks\<close> of them are outstanding, and otherwise is told the oldest sequence kept.\<close>

lemma resume_exact:
  assumes "feed_run f lg" "lg a = before @ got @ rest" "got \<noteq> []"
    "0 \<le> sequence (last got)" "sequence (last got) < MAX_SAFE"
  shows "since f a (num (sequence (last got) + 1)) =
    (if length rest \<le> fd_retainTicks f then Inr rest
     else Inl (Evicted (sequence (last got) + 1) (sequence (rest ! (length rest - fd_retainTicks f)))))"
proof -
  let ?r = "fd_retainTicks f"
  have inv: "0 < ?r" "consecutive (sequences (lg a))" "history_of f a = drop (length (lg a) - ?r) (lg a)"
    using feed_run_inv [OF assms(1)] by (auto simp: feed_inv_def feed_ok_def)
  let ?h = "history_of f a"
  have ne: "?h \<noteq> []" using window_ne [OF inv(1), of "lg a"] assms(2,3) by (simp add: inv(3))
  have hd: "?h ! 0 = lg a ! (length (lg a) - ?r)" using ne by (simp add: inv(3))
  have lgn: "lg a \<noteq> []" using assms by simp
  have nth: "sequence (lg a ! i) = sequence (hd (lg a)) + int i" if "i < length (lg a)" for i
    using consecutive_nth [OF inv(2), of i] that lgn by (simp add: sequences_def hd_map)
  have pos: "sequence (last got) = sequence (hd (lg a)) + int (length before + length got - 1)"
  proof -
    have "lg a ! (length before + length got - 1) = last got"
      using assms(3) by (cases got rule: rev_cases) (simp_all add: assms(2) nth_append)
    then show ?thesis using nth [of "length before + length got - 1"] assms(2,3) by (cases got) simp_all
  qed
  have newest: "sequence (last ?h) = sequence (hd (lg a)) + int (length (lg a) - 1)"
    using ne lgn inv(1) nth [of "length (lg a) - 1"] by (simp add: inv(3) last_conv_nth)
  have oldest: "sequence (hd ?h) = sequence (hd (lg a)) + int (length (lg a) - ?r)"
    using ne hd nth [of "length (lg a) - ?r"] lgn inv(1) by (simp add: hd_conv_nth)
  have len: "length (lg a) = length before + length got + length rest" by (simp add: assms(2))
  have g1: "1 \<le> length got" using assms(3) by (cases got) auto
  show ?thesis
  proof (cases "length rest \<le> ?r")
    case True
    then have "\<not> sequence (last got) + 1 < sequence (hd ?h)" "\<not> sequence (last ?h) + 1 < sequence (last got) + 1"
      using pos newest oldest len g1 by auto
    moreover have "drop (nat (sequence (last got) + 1 - sequence (hd ?h))) ?h = rest"
    proof -
      have "drop (length (lg a) - length rest) (lg a) = rest" by (simp add: assms(2))
      moreover have "nat (sequence (last got) + 1 - sequence (hd ?h)) + (length (lg a) - ?r) = length (lg a) - length rest"
        using pos oldest len g1 True by (simp add: nat_diff_distrib)
      ultimately show ?thesis by (simp add: inv(3) add.commute)
    qed
    ultimately show ?thesis using True assms(4,5) since_num [OF _ _ ne] by simp
  next
    case False
    then have "sequence (last got) + 1 < sequence (hd ?h)" using pos oldest len g1 by auto
    moreover have "hd ?h = rest ! (length rest - ?r)"
      using False hd ne by (simp add: hd_conv_nth assms(2) nth_append)
    ultimately show ?thesis using False assms(4,5) since_num [OF _ _ ne] by simp
  qed
qed

text \<open>A feed that keeps two ticks, was subscribed to before the first and has published three.\<close>

definition demo_tick :: "int \<Rightarrow> tick" where
  "demo_tick n = \<lparr>instant = 1000 * n, sequence = n, price = n mod 7\<rparr>"

definition demo_empty :: feed where
  "demo_empty = \<lparr>fd_retainTicks = 2, fd_history = Map.empty, fd_subscriptions = (\<lambda>_. []), fd_seams = Map.empty\<rparr>"

definition demo_subscribed :: feed where
  "demo_subscribed = demo_empty\<lparr>fd_subscriptions := (\<lambda>_. [])(''A'' := [new_subscription 7 ''A''])\<rparr>"

definition demo_feed :: feed where
  "demo_feed = fst (publish (\<lambda>_ _ _. True) ''A'' [demo_tick 1, demo_tick 2, demo_tick 3] demo_subscribed)"

lemma demo_deliveries: "feed_deliveries demo_feed ((\<lambda>_. [])(''A'' := [demo_tick 1, demo_tick 2, demo_tick 3]))
    ((\<lambda>_. [])(''A'' := [(7, [demo_tick 1, demo_tick 2, demo_tick 3])]))"
proof -
  have e: "feed_deliveries demo_empty (\<lambda>_. []) (\<lambda>_. [])"
    by (rule feed_deliveries.fresh [of "Some (num 2)"]) (simp add: new_feed_def demo_empty_def)
  have "subscribe (\<lambda>_ _ _. True) 7 ''A'' None demo_empty = Inr (demo_subscribed, new_subscription 7 ''A'')"
    by (simp add: subscribe_def new_subscription_def demo_empty_def demo_subscribed_def)
  from feed_deliveries.subscribed [OF e this]
  have s: "feed_deliveries demo_subscribed (\<lambda>_. []) ((\<lambda>_. [])(''A'' := [(7, [])]))"
    by (simp add: due_subscribe_def asked_def)
  have "publish (\<lambda>_ _ _. True) ''A'' [demo_tick 1, demo_tick 2, demo_tick 3] demo_subscribed = (demo_feed, [], Inr ())"
    by (simp add: demo_feed_def publish_def history_of_def demo_subscribed_def demo_empty_def Let_def
      demo_tick_def sub_push_def new_subscription_def)
  from feed_deliveries.published [OF s this] show ?thesis by (simp add: due_publish_def)
qed

lemma demo_feed_run: "feed_run demo_feed ((\<lambda>_. [])(''A'' := [demo_tick 1, demo_tick 2, demo_tick 3]))"
  using demo_deliveries unfolding feed_run_def by blast

theorem feed_never_skips_witness:
  "history_of demo_feed ''A'' = [demo_tick 2, demo_tick 3] \<and>
   map (\<lambda>s. (sb_id s, sb_received s)) (fd_subscriptions demo_feed ''A'') = [(7, [demo_tick 1, demo_tick 2, demo_tick 3])]"
proof -
  have "fd_retainTicks demo_feed = 2"
    by (simp add: demo_feed_def publish_def history_of_def demo_subscribed_def demo_empty_def Let_def
      demo_tick_def sub_push_def new_subscription_def)
  with feed_never_skips [OF demo_deliveries, of "''A''"] show ?thesis by simp
qed

lemma resume_exact_demo:
  "since demo_feed ''A'' (num 3) = Inr [demo_tick 3] \<and> since demo_feed ''A'' (num (0 + 1)) = Inl (Evicted 1 2)"
proof -
  have "since demo_feed ''A'' (num 3) = Inr [demo_tick 3]"
    using resume_exact [OF demo_feed_run, of "''A''" "[]" "[demo_tick 1, demo_tick 2]" "[demo_tick 3]"]
    by (simp add: demo_tick_def demo_feed_def publish_def history_of_def demo_subscribed_def demo_empty_def Let_def)
  moreover have "since demo_feed ''A'' (num 1) = Inl (Evicted 1 2)"
    by (simp add: demo_tick_def demo_feed_def publish_def history_of_def demo_subscribed_def demo_empty_def
      Let_def since_def)
  ultimately show ?thesis by simp
qed

theorem publish_whole_witness:
  "\<exists>f' gone. publish (\<lambda>_ _ _. True) ''A'' [demo_tick 1, demo_tick 2, demo_tick 3] demo_subscribed = (f', gone, Inr ()) \<and>
    history_of f' ''A'' = [demo_tick 2, demo_tick 3] \<and>
    map sb_received (fd_subscriptions f' ''A'') = [[demo_tick 1, demo_tick 2, demo_tick 3]]"
proof -
  let ?ts = "[demo_tick 1, demo_tick 2, demo_tick 3]"
  have d: "history_of demo_subscribed ''A'' = []" "fd_retainTicks demo_subscribed = 2"
      "map sb_received (filter sb_active (fd_subscriptions demo_subscribed ''A'')) = [[]]"
    by (simp_all add: history_of_def demo_subscribed_def demo_empty_def new_subscription_def)
  then have "continues (history_of demo_subscribed ''A'') ?ts" by (simp add: continues_def demo_tick_def)
  with publish_whole [of "\<lambda>_ _ _. True" "''A''" ?ts demo_subscribed] d show ?thesis
    by (auto simp: comp_def numeral_2_eq_2)
qed

end
