(* ===== verification/TickWindow.thy ===== *)
theory TickWindow
  imports TickLog "HOL-Library.Word"
begin

text \<open>
  The browser's view of a market: packages/chart/src/window.ts, the bounded contiguous window
  of ticks, and packages/chart/src/reduce.ts, its reduction to drawable columns. Typed arrays
  keep their element types: instants are Numbers, prices 32-bit words read as signed. The
  reduction is stated for every Number, so nothing is assumed of the rounding in the column
  index.
\<close>

section \<open>The window\<close>

record tick_window =
  tw_capacity :: nat
  tw_ticks :: "tick list"
  tw_evictedThrough :: "int option"

definition DEFAULT_WINDOW_CAPACITY :: int where "DEFAULT_WINDOW_CAPACITY = 200000"

definition new_TickWindow :: "jsnum option \<Rightarrow> tick_window result" where
  "new_TickWindow capacity =
     (let n = (case capacity of None \<Rightarrow> num DEFAULT_WINDOW_CAPACITY | Some v \<Rightarrow> v) in
      if \<not> isInteger n \<or> js_lt n (num 1) then Inl (RangeError ''capacity'')
      else Inr \<lparr>tw_capacity = nat (int_of n), tw_ticks = [], tw_evictedThrough = None\<rparr>)"

definition window_range :: "tick_window \<Rightarrow> (int \<times> int) option" where
  "window_range w = (if length (tw_ticks w) = 0 then None
     else Some (sequence (tw_ticks w ! 0), sequence (tw_ticks w ! (length (tw_ticks w) - 1))))"

definition resumeFrom :: "tick_window \<Rightarrow> int option" where
  "resumeFrom w = (case window_range w of
     Some (oldest, newest) \<Rightarrow> Some (newest + 1)
   | None \<Rightarrow> (case tw_evictedThrough w of None \<Rightarrow> None | Some e \<Rightarrow> Some (e + 1)))"

fun check_run :: "tick list \<Rightarrow> unit result" where
  "check_run (t # u # ts) =
     (if sequence u \<noteq> sequence t + 1 then Inl (Contiguity (sequence t + 1) (sequence u))
      else check_run (u # ts))"
| "check_run ts = Inr ()"

definition evict :: "tick_window \<Rightarrow> tick_window" where
  "evict w =
     (if tw_capacity w < length (tw_ticks w)
      then let dropping = length (tw_ticks w) - tw_capacity w in
        w\<lparr>tw_evictedThrough := Some (sequence (tw_ticks w ! (dropping - 1))),
          tw_ticks := drop dropping (tw_ticks w)\<rparr>
      else w)"

definition window_append :: "tick list \<Rightarrow> tick_window \<Rightarrow> tick_window result" where
  "window_append ticks w =
     (if length ticks = 0 then Inr w
      else andThen (check_run ticks) (\<lambda>_.
        case window_range w of
          Some (oldest, newest) \<Rightarrow>
            if sequence (ticks ! 0) \<noteq> newest + 1 then Inl (Contiguity (newest + 1) (sequence (ticks ! 0)))
            else Inr (evict (w\<lparr>tw_ticks := tw_ticks w @ ticks\<rparr>))
        | None \<Rightarrow> Inr (evict (w\<lparr>tw_ticks := tw_ticks w @ ticks\<rparr>))))"

fun series_loop :: "tick list \<Rightarrow> (jsnum list \<times> 32 word list) result" where
  "series_loop [] = Inr ([], [])"
| "series_loop (t # ts) = andThen (assertInt32Price (num (price t))) (\<lambda>p.
     andThen (series_loop ts) (\<lambda>(instants, prices).
     Inr (num (instant t) # instants, word_of_int p # prices)))"

definition series :: "tick_window \<Rightarrow> (jsnum list \<times> 32 word list) result" where
  "series w = series_loop (tw_ticks w)"

definition latest :: "tick_window \<Rightarrow> tick option" where
  "latest w = (if length (tw_ticks w) = 0 then None else Some (tw_ticks w ! (length (tw_ticks w) - 1)))"

definition span :: "tick_window \<Rightarrow> (int \<times> int) option" where
  "span w = (if length (tw_ticks w) = 0 then None
     else Some (instant (tw_ticks w ! 0), instant (tw_ticks w ! (length (tw_ticks w) - 1))))"

section \<open>The window is a tick log\<close>

lemma check_run_iff: "check_run ts = Inr u \<longleftrightarrow> consecutive (sequences ts)"
  by (induction ts rule: check_run.induct) auto

definition window_ok :: "tick_window \<Rightarrow> bool" where
  "window_ok w \<longleftrightarrow> 0 < tw_capacity w"

lemma window_range_eq:
  "window_range w = (if tw_ticks w = [] then None
     else Some (sequence (hd (tw_ticks w)), sequence (last (tw_ticks w))))"
  by (simp add: window_range_def hd_conv_nth last_conv_nth)

lemma evict_simps [simp]:
  "tw_capacity (evict w) = tw_capacity w"
  "tw_ticks (evict w) = drop (length (tw_ticks w) - tw_capacity w) (tw_ticks w)"
  by (simp_all add: evict_def Let_def)

lemma window_append_iff:
  "window_append ticks w = Inr w' \<longleftrightarrow>
     (if ticks = [] then w' = w
      else continues (tw_ticks w) ticks \<and> w' = evict (w\<lparr>tw_ticks := tw_ticks w @ ticks\<rparr>))"
proof (cases "check_run ticks")
  case (Inl e)
  then have "\<not> consecutive (sequences ticks)" using check_run_iff [of ticks "()"] by simp
  with Inl show ?thesis by (auto simp: window_append_def continues_def)
next
  case (Inr u)
  then have "consecutive (sequences ticks)" by (simp add: check_run_iff)
  with Inr show ?thesis
    by (auto simp: window_append_def continues_def window_range_eq hd_conv_nth split: if_splits)
qed

lemma window_append_ok: "continues (tw_ticks w) ticks \<Longrightarrow> \<exists>w'. window_append ticks w = Inr w'"
  by (cases "ticks = []") (auto simp: window_append_iff)

lemma window_append_error:
  assumes "window_append ticks w = Inl e"
  shows "\<not> continues (tw_ticks w) ticks \<and> ticks \<noteq> []"
  using assms window_append_iff [of ticks w "if ticks = [] then w else evict (w\<lparr>tw_ticks := tw_ticks w @ ticks\<rparr>)"]
  by (auto split: if_splits)

definition window_append_opt :: "tick_window \<Rightarrow> tick list \<Rightarrow> tick_window option" where
  "window_append_opt w ticks = (case window_append ticks w of Inl _ \<Rightarrow> None | Inr w' \<Rightarrow> Some w')"

lemma window_append_opt_Some: "window_append_opt w ticks = Some w' \<longleftrightarrow> window_append ticks w = Inr w'"
  by (simp add: window_append_opt_def split: sum.splits)

interpretation window_log: tick_log window_ok tw_ticks window_append_opt
proof
  fix s batch assume "window_ok s"
  show "window_append_opt s batch \<noteq> None \<longleftrightarrow> batch = [] \<or> continues (tw_ticks s) batch"
    using window_append_iff [of batch s] by (auto simp: window_append_opt_Some split: if_splits)
next
  fix s batch s' assume h: "window_ok s" "window_append_opt s batch = Some s'"
  show "\<exists>k. tw_ticks s' = drop k (tw_ticks s @ batch) \<and>
      (tw_ticks s @ batch \<noteq> [] \<longrightarrow> k < length (tw_ticks s @ batch))"
  proof (cases "batch = []")
    case True
    with h show ?thesis by (intro exI [of _ 0]) (simp add: window_append_opt_Some window_append_iff)
  next
    case False
    with h show ?thesis
      by (intro exI [of _ "length (tw_ticks s @ batch) - tw_capacity s"])
         (auto simp: window_append_opt_Some window_append_iff window_ok_def)
  qed
next
  fix s batch s' assume "window_ok s" "window_append_opt s batch = Some s'"
  then show "window_ok s'" by (auto simp: window_append_opt_Some window_append_iff window_ok_def split: if_splits)
qed

section \<open>Runs of a window\<close>

text \<open>Every window reached, with the ticks it has accepted since it was made.\<close>

inductive window_run :: "tick_window \<Rightarrow> tick list \<Rightarrow> bool" where
  fresh: "new_TickWindow c = Inr w \<Longrightarrow> window_run w []"
| appended: "window_run w lg \<Longrightarrow> window_append ticks w = Inr w' \<Longrightarrow> window_run w' (lg @ ticks)"

inductive_cases window_run_Nil: "window_run w []"

definition window_inv :: "tick_window \<Rightarrow> tick list \<Rightarrow> bool" where
  "window_inv w lg \<longleftrightarrow> window_ok w \<and> consecutive (sequences lg) \<and>
     tw_ticks w = drop (length lg - tw_capacity w) lg \<and>
     tw_evictedThrough w = (if tw_capacity w < length lg
       then Some (sequence (lg ! (length lg - tw_capacity w - 1))) else None)"

lemma new_window_inv: "new_TickWindow c = Inr w \<Longrightarrow> window_inv w []"
proof -
  assume h: "new_TickWindow c = Inr w"
  let ?n = "case c of None \<Rightarrow> num DEFAULT_WINDOW_CAPACITY | Some v \<Rightarrow> v"
  have n: "isInteger ?n" "\<not> js_lt ?n (num 1)"
    and w: "w = \<lparr>tw_capacity = nat (int_of ?n), tw_ticks = [], tw_evictedThrough = None\<rparr>"
    using h by (auto simp: new_TickWindow_def Let_def split: if_splits)
  obtain m where m: "?n = num m" using isInteger_num [OF n(1)] by blast
  have "1 \<le> int_of ?n" using n(2) unfolding m by simp
  then show ?thesis by (simp add: w window_inv_def window_ok_def)
qed

lemma append_inv:
  assumes "window_inv w lg" "window_append ticks w = Inr w'"
  shows "window_inv w' (lg @ ticks)"
proof (cases "ticks = []")
  case True
  with assms show ?thesis by (simp add: window_append_iff)
next
  case False
  let ?c = "tw_capacity w"
  have inv: "0 < ?c" "consecutive (sequences lg)" "tw_ticks w = drop (length lg - ?c) lg"
    using assms(1) by (auto simp: window_inv_def window_ok_def)
  from False assms(2) have w': "w' = evict (w\<lparr>tw_ticks := tw_ticks w @ ticks\<rparr>)" and c: "continues (tw_ticks w) ticks"
    by (auto simp: window_append_iff)
  have "lg \<noteq> [] \<Longrightarrow> tw_ticks w \<noteq> [] \<and> last (tw_ticks w) = last lg"
    using inv(1,3) by (cases lg) (auto simp: last_drop)
  with c have "continues lg ticks" by (auto simp: continues_def)
  then have cons: "consecutive (sequences (lg @ ticks))" using continues_append [OF inv(2)] by blast
  let ?t = "drop (length lg - ?c) lg @ ticks"
  have t: "drop (length ?t - ?c) ?t = drop (length (lg @ ticks) - ?c) (lg @ ticks)"
    by (cases "?c \<le> length lg") (auto simp: add.commute)
  have e: "?c < length ?t \<Longrightarrow> ?t ! (length ?t - ?c - 1) = (lg @ ticks) ! (length (lg @ ticks) - ?c - 1)"
  proof (cases "?c \<le> length lg")
    case True
    let ?A = "take (length lg - ?c) lg" and ?B = "drop (length lg - ?c) lg"
    have l: "length ?A = length lg - ?c" "length ?B = ?c" using True by simp_all
    have "lg @ ticks = ?A @ ?B @ ticks" by simp
    then have "(lg @ ticks) ! (length ?A + (length ticks - 1)) = (?B @ ticks) ! (length ticks - 1)"
      by (metis nth_append_length_plus)
    moreover have "length (lg @ ticks) - ?c - 1 = length ?A + (length ticks - 1)"
      "length ?t - ?c - 1 = length ticks - 1"
      using True False by (cases ticks; simp)+
    ultimately show ?thesis by simp
  qed simp
  have "?c < length ?t \<longleftrightarrow> ?c < length (lg @ ticks)" if "?c \<ge> length lg" using that by simp
  have "tw_evictedThrough w' = (if ?c < length (lg @ ticks)
      then Some (sequence ((lg @ ticks) ! (length (lg @ ticks) - ?c - 1))) else None)"
    using e assms(1) False
    by (cases "?c \<le> length lg"; cases ticks) (auto simp: w' evict_def Let_def inv(3) window_inv_def)
  then show ?thesis
    using inv cons t by (simp add: window_inv_def window_ok_def w')
qed

lemma window_run_inv: "window_run w lg \<Longrightarrow> window_inv w lg"
  by (induction rule: window_run.induct) (auto intro: new_window_inv append_inv)

lemma resumeFrom_run:
  assumes "window_run w lg"
  shows "resumeFrom w = (if lg = [] then None else Some (sequence (last lg) + 1))"
proof (cases "lg = []")
  case True
  with window_run_inv [OF assms] show ?thesis by (simp add: window_inv_def resumeFrom_def window_range_eq)
next
  case False
  with window_run_inv [OF assms] have "tw_ticks w \<noteq> [] \<and> last (tw_ticks w) = last lg"
    by (cases lg) (auto simp: window_inv_def window_ok_def last_drop)
  with False show ?thesis by (simp add: resumeFrom_def window_range_eq)
qed

text \<open>C19: after any sequence of accepted batches the window is exactly the newest \<open>capacity\<close> ticks
  of what it was given, gapless, with the sequence just before it recorded as evicted; and the
  sequence it resumes from is the one after the newest tick it was ever given, and \<open>undefined\<close>
  only when it was never given one.\<close>

theorem window_is_suffix:
  assumes "window_run w lg"
  shows "consecutive (sequences lg) \<and> tw_ticks w = drop (length lg - tw_capacity w) lg \<and>
    tw_evictedThrough w = (if tw_capacity w < length lg
       then Some (sequence (lg ! (length lg - tw_capacity w - 1))) else None) \<and>
    resumeFrom w = (if lg = [] then None else Some (sequence (last lg) + 1))"
  using window_run_inv [OF assms] resumeFrom_run [OF assms] by (simp add: window_inv_def)

theorem window_is_suffix_witness:
  "\<exists>w. new_TickWindow (Some (num 2)) = Inr w \<and> (\<exists>w'.
    window_append [\<lparr>instant = 5, sequence = 1, price = 3\<rparr>, \<lparr>instant = 6, sequence = 2, price = 4\<rparr>,
      \<lparr>instant = 7, sequence = 3, price = -9\<rparr>] w = Inr w' \<and> resumeFrom w' = Some 4 \<and>
    tw_evictedThrough w' = Some 1 \<and>
    tw_ticks w' = [\<lparr>instant = 6, sequence = 2, price = 4\<rparr>, \<lparr>instant = 7, sequence = 3, price = -9\<rparr>])"
proof -
  let ?ts = "[\<lparr>instant = 5, sequence = 1, price = 3\<rparr>, \<lparr>instant = 6, sequence = 2, price = 4\<rparr>,
      \<lparr>instant = 7, sequence = 3, price = -9\<rparr>]"
  obtain w where w: "new_TickWindow (Some (num 2)) = Inr w" "tw_capacity w = 2"
    by (simp add: new_TickWindow_def)
  obtain w' where w': "window_append ?ts w = Inr w'" "tw_capacity w' = 2"
    using w by (auto simp: window_append_def new_TickWindow_def window_range_def evict_def Let_def)
  have "window_run w' ([] @ ?ts)" using w(1) w'(1) by (blast intro: window_run.intros)
  from window_is_suffix [OF this] w'(2) have "resumeFrom w' = Some 4 \<and> tw_evictedThrough w' = Some 1 \<and>
    tw_ticks w' = drop 1 ?ts" by simp
  then show ?thesis using w(1) w'(1) by auto
qed

text \<open>The typed arrays hold the ticks exactly: a price that a 32-bit cell would change is refused.\<close>

lemma series_loop_iff:
  "series_loop ts = Inr (xs, ps) \<longleftrightarrow> list_all (\<lambda>t. - (2 ^ 31) \<le> price t \<and> price t < 2 ^ 31) ts \<and>
     xs = map (num \<circ> instant) ts \<and> ps = map (word_of_int \<circ> price) ts"
  by (induction ts arbitrary: xs ps) (auto simp: andThen_Inr_iff assertInt32Price_num split: if_splits)

lemma series_exact:
  assumes "series w = Inr (xs, ps)"
  shows "xs = map (num \<circ> instant) (tw_ticks w)" "map sint ps = map price (tw_ticks w)"
proof -
  have "list_all (\<lambda>t. - (2 ^ 31) \<le> price t \<and> price t < 2 ^ 31) (tw_ticks w)"
    and p: "ps = map (word_of_int \<circ> price) (tw_ticks w)"
    using assms by (auto simp: series_def series_loop_iff)
  then show "map sint ps = map price (tw_ticks w)"
    by (auto simp: list_all_iff sint_sbintrunc' signed_take_bit_int_eq_self)
qed (use assms in \<open>simp add: series_def series_loop_iff\<close>)

section \<open>Reduction to columns\<close>

record chart_column =
  cl_fromInstant :: jsnum
  cl_toInstant :: jsnum
  cl_open :: int
  cl_high :: int
  cl_low :: int
  cl_close :: int
  cl_tickCount :: nat

record reducer =
  rd_open :: int
  rd_high :: int
  rd_low :: int
  rd_close :: int
  rd_count :: nat
  rd_current :: jsnum
  rd_out :: "chart_column list"

definition js_min :: "jsnum \<Rightarrow> jsnum \<Rightarrow> jsnum" where
  "js_min x y = (if x = NaN \<or> y = NaN then NaN else if js_lt y x then y else x)"

definition column_edge :: "jsnum \<Rightarrow> jsnum \<Rightarrow> jsnum \<Rightarrow> jsnum \<Rightarrow> jsnum" where
  "column_edge from to columns k = js_add from (js_div (js_mul (js_sub to from) k) columns)"

definition flush :: "jsnum \<Rightarrow> jsnum \<Rightarrow> jsnum \<Rightarrow> reducer \<Rightarrow> reducer result" where
  "flush from to columns r =
     (if rd_count r = 0 then Inr r
      else andThen (logPrice (num (rd_open r))) (\<lambda>open.
        andThen (logPrice (num (rd_high r))) (\<lambda>high.
        andThen (logPrice (num (rd_low r))) (\<lambda>low.
        andThen (logPrice (num (rd_close r))) (\<lambda>close.
        Inr (r\<lparr>rd_out := rd_out r @ [\<lparr>cl_fromInstant = column_edge from to columns (rd_current r),
            cl_toInstant = column_edge from to columns (js_add (rd_current r) (num 1)),
            cl_open = open, cl_high = high, cl_low = low, cl_close = close, cl_tickCount = rd_count r\<rparr>],
          rd_count := 0\<rparr>))))))"

definition column_of :: "jsnum \<Rightarrow> jsnum \<Rightarrow> jsnum \<Rightarrow> jsnum \<Rightarrow> jsnum" where
  "column_of from to columns x = js_min (js_sub columns (num 1))
     (js_floor (js_div (js_mul (js_sub x from) columns) (js_sub to from)))"

definition add_price :: "int \<Rightarrow> reducer \<Rightarrow> reducer" where
  "add_price p r =
     (let r1 = (if rd_count r = 0 then r\<lparr>rd_open := p, rd_high := p, rd_low := p\<rparr>
        else r\<lparr>rd_high := (if rd_high r < p then p else rd_high r),
               rd_low := (if p < rd_low r then p else rd_low r)\<rparr>) in
      r1\<lparr>rd_close := p, rd_count := rd_count r1 + 1\<rparr>)"

definition reduce_step ::
  "jsnum \<Rightarrow> jsnum \<Rightarrow> jsnum \<Rightarrow> jsnum \<times> 32 word \<Rightarrow> reducer \<Rightarrow> reducer result" where
  "reduce_step from to columns = (\<lambda>(x, p) r.
     if js_lt x from \<or> js_le to x then Inr r
     else let k = column_of from to columns x in
       andThen (if \<not> js_eq k (rd_current r)
         then andThen (flush from to columns r) (\<lambda>r1. Inr (r1\<lparr>rd_current := k\<rparr>)) else Inr r) (\<lambda>r1.
       Inr (add_price (sint p) r1)))"

definition reduceToColumns ::
  "jsnum list \<Rightarrow> 32 word list \<Rightarrow> jsnum \<Rightarrow> jsnum \<Rightarrow> jsnum \<Rightarrow> chart_column list result" where
  "reduceToColumns instants prices from to columns =
     (if \<not> isInteger columns \<or> js_lt columns (num 1) then Inl (RangeError ''columns'')
      else if \<not> js_lt from to then Inl (RangeError ''Window must be non-empty'')
      else andThen (foldE (reduce_step from to columns) (zip instants prices)
          \<lparr>rd_open = 0, rd_high = 0, rd_low = 0, rd_close = 0, rd_count = 0, rd_current = num (-1), rd_out = []\<rparr>) (\<lambda>r.
        andThen (flush from to columns r) (\<lambda>r1. Inr (rd_out r1))))"

definition extremes_step ::
  "jsnum \<Rightarrow> jsnum \<Rightarrow> jsnum \<times> 32 word \<Rightarrow> jsnum \<times> jsnum \<times> nat \<Rightarrow> jsnum \<times> jsnum \<times> nat" where
  "extremes_step from to = (\<lambda>(x, p) (high, low, count).
     if js_lt x from \<or> js_le to x then (high, low, count)
     else (if js_lt high (num (sint p)) then num (sint p) else high,
           if js_lt (num (sint p)) low then num (sint p) else low, count + 1))"

definition windowExtremes ::
  "jsnum list \<Rightarrow> 32 word list \<Rightarrow> jsnum \<Rightarrow> jsnum \<Rightarrow> (int \<times> int \<times> nat) option result" where
  "windowExtremes instants prices from to =
     (case fold (extremes_step from to) (zip instants prices) (NegInf, PosInf, 0) of
       (high, low, count) \<Rightarrow>
         if count = 0 then Inr None
         else andThen (logPrice high) (\<lambda>h. andThen (logPrice low) (\<lambda>l. Inr (Some (h, l, count)))))"

section \<open>What the columns are\<close>

text \<open>The ticks drawn, each with the column it falls in, and the column a run of them makes.\<close>

definition drawn :: "jsnum \<Rightarrow> jsnum \<Rightarrow> jsnum \<Rightarrow> (jsnum \<times> 32 word) list \<Rightarrow> (jsnum \<times> int) list" where
  "drawn from to columns xs = map (\<lambda>(x, p). (column_of from to columns x, sint p))
     (filter (\<lambda>(x, p). \<not> (js_lt x from \<or> js_le to x)) xs)"

definition column_of_run :: "jsnum \<Rightarrow> jsnum \<Rightarrow> jsnum \<Rightarrow> (jsnum \<times> int) list \<Rightarrow> chart_column" where
  "column_of_run from to columns g = \<lparr>cl_fromInstant = column_edge from to columns (fst (hd g)),
     cl_toInstant = column_edge from to columns (js_add (fst (hd g)) (num 1)),
     cl_open = snd (hd g), cl_high = Max (snd ` set g), cl_low = Min (snd ` set g),
     cl_close = snd (last g), cl_tickCount = length g\<rparr>"

definition red_inv :: "jsnum \<Rightarrow> jsnum \<Rightarrow> jsnum \<Rightarrow> (jsnum \<times> int) list \<Rightarrow>
    (jsnum \<times> int) list list \<Rightarrow> (jsnum \<times> int) list \<Rightarrow> reducer \<Rightarrow> bool" where
  "red_inv from to columns vs gs g r \<longleftrightarrow>
     concat gs @ g = vs \<and> list_all (\<lambda>h. h \<noteq> [] \<and> list_all (\<lambda>v. fst v = fst (hd h)) h) gs \<and>
     list_all (\<lambda>v. fst v = rd_current r) g \<and>
     rd_out r = map (column_of_run from to columns) gs \<and> rd_count r = length g \<and>
     (g = [] \<or> rd_open r = snd (hd g) \<and> rd_high r = Max (snd ` set g) \<and> rd_low r = Min (snd ` set g) \<and>
       rd_close r = snd (last g))"

lemma sint32_valid: "valid_price (sint (p :: 32 word))"
  using sint_ge [of p] sint_lt [of p] by (simp add: valid_price_def)

lemma valid_Max: "finite A \<Longrightarrow> A \<noteq> {} \<Longrightarrow> (\<forall>x \<in> A. valid_price x) \<Longrightarrow> valid_price (Max A) \<and> valid_price (Min A)"
  by simp

lemma flush_inv:
  assumes "red_inv from to columns vs gs g r" "list_all (\<lambda>v. valid_price (snd v)) vs"
  obtains r1 where "flush from to columns r = Inr r1" "rd_current r1 = rd_current r"
    "red_inv from to columns vs (if g = [] then gs else gs @ [g]) [] r1"
proof (cases "g = []")
  case True
  then show ?thesis using assms that [of r] by (simp add: red_inv_def flush_def)
next
  case False
  have set_g: "set g \<subseteq> set vs" using assms(1) by (auto simp: red_inv_def)
  then have v: "\<forall>x \<in> snd ` set g. valid_price x" using assms(2) by (auto simp: list_all_iff)
  then have "valid_price (Max (snd ` set g)) \<and> valid_price (Min (snd ` set g))"
    using False by (intro valid_Max) auto
  moreover have "valid_price (snd (hd g))" "valid_price (snd (last g))" using v False by auto
  moreover have "fst (hd g) = rd_current r" using assms(1) False by (cases g) (auto simp: red_inv_def)
  ultimately have "flush from to columns r =
      Inr (r\<lparr>rd_out := rd_out r @ [column_of_run from to columns g], rd_count := 0\<rparr>)"
    using assms(1) False by (auto simp: red_inv_def flush_def logPrice_num column_of_run_def)
  moreover have "list_all (\<lambda>v. fst v = fst (hd g)) g"
    using assms(1) \<open>fst (hd g) = _\<close> by (simp add: red_inv_def)
  ultimately show ?thesis using assms(1) False
    by (intro that [of "r\<lparr>rd_out := rd_out r @ [column_of_run from to columns g], rd_count := 0\<rparr>"])
       (simp_all add: red_inv_def)
qed

lemma Max_snoc: "finite A \<Longrightarrow> A \<noteq> {} \<Longrightarrow> Max (insert x A) = (if Max A < x then x else Max (A :: int set))"
  using Max_insert [of A x] by (simp del: Max_insert add: max_def not_le [symmetric])

lemma Min_snoc: "finite A \<Longrightarrow> A \<noteq> {} \<Longrightarrow> Min (insert x A) = (if x < Min A then x else Min (A :: int set))"
proof -
  assume h: "finite A" "A \<noteq> {}"
  have "min x m = (if x < m then x else m)" for m by auto
  then show ?thesis using Min_insert [OF h, of x] by (simp only:)
qed

lemma add_price_inv:
  assumes "red_inv from to columns vs gs g r" "rd_current r = k"
  shows "red_inv from to columns (vs @ [(k, p)]) gs (g @ [(k, p)]) (add_price p r)"
proof (cases "g = []")
  case True
  with assms show ?thesis by (simp add: red_inv_def add_price_def Let_def)
next
  case False
  then have "finite (snd ` set g)" "snd ` set g \<noteq> {}" by auto
  note mm = Max_snoc [OF this, of p] Min_snoc [OF this, of p]
  from assms False show ?thesis
    by (auto simp: red_inv_def add_price_def Let_def mm simp del: Max_insert Min_insert)
qed

lemma reduce_step_inv:
  assumes "red_inv from to columns vs gs g r" "list_all (\<lambda>v. valid_price (snd v)) vs"
  obtains gs' g' r' where "reduce_step from to columns xp r = Inr r'"
    "red_inv from to columns (vs @ drawn from to columns [xp]) gs' g' r'"
proof (cases xp)
  case xp: (Pair x p)
  let ?k = "column_of from to columns x"
  show ?thesis
  proof (cases "js_lt x from \<or> js_le to x")
    case True
    with assms(1) show ?thesis by (intro that [of r gs g]) (auto simp: xp reduce_step_def drawn_def)
  next
    case inside: False
    then have d: "drawn from to columns [xp] = [(?k, sint p)]" by (simp add: xp drawn_def)
    show ?thesis
    proof (cases "js_eq ?k (rd_current r)")
      case True
      then have "rd_current r = ?k" by (simp add: js_eq_def)
      with add_price_inv [OF assms(1) this, of "sint p"] inside True show ?thesis
        by (intro that [of "add_price (sint p) r" gs "g @ [(?k, sint p)]"]) (auto simp: xp reduce_step_def d [unfolded xp])
    next
      case False
      obtain r1 where r1: "flush from to columns r = Inr r1"
          "red_inv from to columns vs (if g = [] then gs else gs @ [g]) [] r1"
        using flush_inv [OF assms] by metis
      let ?r = "r1\<lparr>rd_current := ?k\<rparr>"
      have "red_inv from to columns vs (if g = [] then gs else gs @ [g]) [] ?r"
        using r1(2) by (auto simp: red_inv_def)
      from add_price_inv [OF this, of ?k "sint p"] inside False r1(1) show ?thesis
        by (intro that [of "add_price (sint p) ?r" "if g = [] then gs else gs @ [g]" "[] @ [(?k, sint p)]"])
           (auto simp: xp reduce_step_def d [unfolded xp])
    qed
  qed
qed

lemma drawn_append: "drawn from to columns (xs @ ys) = drawn from to columns xs @ drawn from to columns ys"
  by (simp add: drawn_def)

lemma drawn_valid: "list_all (\<lambda>v. valid_price (snd v)) (drawn from to columns xs)"
  by (auto simp: drawn_def list_all_iff sint32_valid)

lemma foldE_reduce:
  assumes "red_inv from to columns (drawn from to columns done0) gs g r"
  shows "\<exists>gs' g' r'. foldE (reduce_step from to columns) xs r = Inr r' \<and>
    red_inv from to columns (drawn from to columns (done0 @ xs)) gs' g' r'"
  using assms
proof (induction xs arbitrary: done0 gs g r)
  case (Cons xp xs)
  obtain gs' g' r' where s: "reduce_step from to columns xp r = Inr r'"
      "red_inv from to columns (drawn from to columns (done0 @ [xp])) gs' g' r'"
    using reduce_step_inv [OF Cons.prems drawn_valid] by (metis drawn_append)
  from Cons.IH [OF s(2)] s(1) show ?case by simp
qed auto

lemma reduce_runs:
  assumes "isInteger columns" "\<not> js_lt columns (num 1)" "js_lt from to"
  shows "\<exists>gs. reduceToColumns instants prices from to columns = Inr (map (column_of_run from to columns) gs) \<and>
    concat gs = drawn from to columns (zip instants prices) \<and>
    list_all (\<lambda>g. g \<noteq> [] \<and> list_all (\<lambda>v. fst v = fst (hd g)) g) gs"
proof -
  let ?r0 = "\<lparr>rd_open = 0, rd_high = 0, rd_low = 0, rd_close = 0, rd_count = 0, rd_current = num (-1), rd_out = []\<rparr>"
  have "red_inv from to columns (drawn from to columns []) [] [] ?r0"
    by (simp add: red_inv_def drawn_def)
  from foldE_reduce [OF this, of "zip instants prices"] obtain gs g r where
    r: "foldE (reduce_step from to columns) (zip instants prices) ?r0 = Inr r"
       "red_inv from to columns (drawn from to columns (zip instants prices)) gs g r" by auto
  obtain r1 where r1: "flush from to columns r = Inr r1"
      "red_inv from to columns (drawn from to columns (zip instants prices)) (if g = [] then gs else gs @ [g]) [] r1"
    using flush_inv [OF r(2) drawn_valid] by metis
  have "reduceToColumns instants prices from to columns = Inr (rd_out r1)"
    using assms r(1) r1(1) by (simp add: reduceToColumns_def)
  then show ?thesis
    using r1(2) unfolding red_inv_def by (intro exI [of _ "if g = [] then gs else gs @ [g]"]) auto
qed

text \<open> the reduction refuses exactly a column count that is not a positive integer and an
  empty span; otherwise it cuts the ticks inside the span, in order and each once, into runs that
  fall in one column, and draws each run as its first, highest, lowest and last price and its
  count. So every price drawn was observed, and a slice with no ticks has no column.\<close>

theorem reduceToColumns_runs:
  "if isInteger columns \<and> \<not> js_lt columns (num 1) \<and> js_lt from to
   then \<exists>gs. reduceToColumns instants prices from to columns = Inr (map (column_of_run from to columns) gs) \<and>
      concat gs = drawn from to columns (zip instants prices) \<and>
      list_all (\<lambda>g. g \<noteq> [] \<and> list_all (\<lambda>v. fst v = fst (hd g)) g) gs
   else \<exists>e. reduceToColumns instants prices from to columns = Inl e"
  using reduce_runs [of columns "from" to instants prices] by (auto simp: reduceToColumns_def)

section \<open>Extremes survive\<close>

definition extremes_of :: "int list \<Rightarrow> jsnum \<times> jsnum \<times> nat" where
  "extremes_of ps = (if ps = [] then (NegInf, PosInf, 0)
     else (num (Max (set ps)), num (Min (set ps)), length ps))"

lemma extremes_snoc:
  "extremes_of (ps @ [p]) = (case extremes_of ps of (high, low, count) \<Rightarrow>
     (if js_lt high (num p) then num p else high, if js_lt (num p) low then num p else low, count + 1))"
proof (cases "ps = []")
  case True
  then show ?thesis by (simp add: extremes_of_def num_def)
next
  case False
  then have "finite (set ps)" "set ps \<noteq> {}" by auto
  note mm = Max_snoc [OF this, of p] Min_snoc [OF this, of p]
  from False show ?thesis by (simp add: extremes_of_def mm del: Max_insert Min_insert)
qed

lemma fold_extremes:
  "fold (extremes_step from to) xs (extremes_of ps) =
     extremes_of (ps @ map snd (drawn from to columns xs))"
proof (induction xs arbitrary: ps)
  case Nil
  then show ?case by (simp add: drawn_def)
next
  case (Cons xp xs)
  obtain x p where xp: "xp = (x, p)" by (cases xp)
  show ?case
  proof (cases "js_lt x from \<or> js_le to x")
    case True
    then have "extremes_step from to xp (extremes_of ps) = extremes_of ps"
      by (auto simp: extremes_step_def xp split: prod.splits)
    with Cons.IH [of ps] True show ?thesis by (auto simp: xp drawn_def)
  next
    case False
    then have "extremes_step from to xp (extremes_of ps) = extremes_of (ps @ [sint p])"
      by (simp add: extremes_snoc extremes_step_def xp split: prod.splits)
    with Cons.IH [of "ps @ [sint p]"] False show ?thesis by (simp add: xp drawn_def)
  qed
qed

lemma windowExtremes_eq:
  fixes columns :: jsnum
  defines "ps from to instants prices \<equiv> map snd (drawn from to columns (zip instants prices))"
  shows "windowExtremes instants prices from to = Inr (if ps from to instants prices = [] then None
    else Some (Max (set (ps from to instants prices)), Min (set (ps from to instants prices)), length (ps from to instants prices)))"
proof -
  let ?ps = "ps from to instants prices"
  have f: "fold (extremes_step from to) (zip instants prices) (NegInf, PosInf, 0) = extremes_of ?ps"
    using fold_extremes [of "from" to "zip instants prices" "[]" columns] by (simp add: ps_def extremes_of_def)
  have "\<forall>x \<in> set ?ps. valid_price x"
    using drawn_valid [of "from" to columns "zip instants prices"] by (auto simp: ps_def list_all_iff)
  then have "?ps \<noteq> [] \<Longrightarrow> valid_price (Max (set ?ps)) \<and> valid_price (Min (set ?ps))"
    by (intro valid_Max) auto
  then show ?thesis
    unfolding windowExtremes_def f by (simp add: extremes_of_def logPrice_num)
qed

lemma Max_concat:
  assumes "gs \<noteq> []" "list_all (\<lambda>g. g \<noteq> []) gs"
  shows "Max ((\<lambda>g. Max (f ` set g)) ` set gs) = (Max (f ` set (concat gs)) :: int)"
  using assms
proof (induction gs)
  case (Cons g gs)
  show ?case
  proof (cases "gs = []")
    case False
    have "set (concat gs) \<noteq> {}" using False Cons.prems(2) by (cases gs) auto
    then have "Max (f ` set g \<union> f ` set (concat gs)) = max (Max (f ` set g)) (Max (f ` set (concat gs)))"
      using Cons.prems(2) by (intro Max_Un) auto
    then show ?thesis using Cons False by (simp add: image_Un)
  qed simp
qed simp

lemma Min_concat:
  assumes "gs \<noteq> []" "list_all (\<lambda>g. g \<noteq> []) gs"
  shows "Min ((\<lambda>g. Min (f ` set g)) ` set gs) = (Min (f ` set (concat gs)) :: int)"
  using assms
proof (induction gs)
  case (Cons g gs)
  show ?case
  proof (cases "gs = []")
    case False
    have "set (concat gs) \<noteq> {}" using False Cons.prems(2) by (cases gs) auto
    then have "Min (f ` set g \<union> f ` set (concat gs)) = min (Min (f ` set g)) (Min (f ` set (concat gs)))"
      using Cons.prems(2) by (intro Min_Un) auto
    then show ?thesis using Cons False by (simp add: image_Un)
  qed simp
qed simp

text \<open> the reduction is honest at any zoom: the highest high and the lowest low of the columns
  are the extremes of the window computed directly from the record, and the columns' counts add
  up to the ticks in it; no columns exactly when the window has no ticks.\<close>

theorem extremes_survive:
  assumes "reduceToColumns instants prices from to columns = Inr cols"
  shows "windowExtremes instants prices from to = Inr (if cols = [] then None
    else Some (Max (cl_high ` set cols), Min (cl_low ` set cols), sum_list (map cl_tickCount cols)))"
proof -
  have "isInteger columns" "\<not> js_lt columns (num 1)" "js_lt from to"
    using assms by (auto simp: reduceToColumns_def split: if_splits)
  from reduce_runs [OF this, of instants prices] obtain gs where
    cols: "cols = map (column_of_run from to columns) gs"
    and gs: "concat gs = drawn from to columns (zip instants prices)" "list_all (\<lambda>g. g \<noteq> []) gs"
    using assms by (auto simp: list_all_iff)
  let ?ps = "map snd (drawn from to columns (zip instants prices))"
  have e: "gs = [] \<longleftrightarrow> ?ps = []" using gs by (cases gs) (auto simp: gs(1) [symmetric])
  have high: "cl_high ` set cols = (\<lambda>g. Max (snd ` set g)) ` set gs"
    and low: "cl_low ` set cols = (\<lambda>g. Min (snd ` set g)) ` set gs"
    and count: "map cl_tickCount cols = map length gs"
    by (auto simp: cols column_of_run_def image_image)
  have ps: "set ?ps = snd ` set (concat gs)" by (simp add: gs(1))
  have len: "length ?ps = sum_list (map length gs)" using gs(1) by (metis length_concat length_map)
  show ?thesis
  proof (cases "gs = []")
    case True
    with e show ?thesis by (simp add: windowExtremes_eq [of _ _ _ _ columns] cols)
  next
    case False
    with e have "?ps \<noteq> []" by blast
    then show ?thesis
      unfolding windowExtremes_eq [of _ _ _ _ columns] high low count len ps
      using Max_concat [OF False gs(2), of snd] Min_concat [OF False gs(2), of snd] False by (simp add: cols)
  qed
qed

lemma js_div_num:
  assumes "b \<noteq> 0" "\<bar>c\<bar> \<le> 2 ^ 53"
  shows "js_div (num (c * b)) (num b) = num c"
  using assms fl_of_int_bound [OF assms(2)] by (simp add: num_def)

lemma demo_columns:
  "column_of (num 0) (num 2) (num 2) (num 0) = num 0" "column_of (num 0) (num 2) (num 2) (num 1) = num 1"
  "column_edge (num 0) (num 2) (num 2) (num 0) = num 0" "column_edge (num 0) (num 2) (num 2) (num 1) = num 1"
  "column_edge (num 0) (num 2) (num 2) (num 2) = num 2" "js_add (num 0) (num 1) = num 1" "js_add (num 1) (num 1) = num 2"
  using js_div_num [of 2 0] js_div_num [of 2 1] js_div_num [of 2 2]
  by (simp_all add: column_of_def column_edge_def js_sub_num js_mul_num js_add_num js_min_def)

theorem extremes_survive_witness:
  "windowExtremes [num 0, num 0, num 1] [5, 9, 3] (num 0) (num 2) = Inr (Some (9, 3, 3)) \<and>
   reduceToColumns [num 0, num 0, num 1] [5, 9, 3] (num 0) (num 2) (num 2) =
    Inr [\<lparr>cl_fromInstant = num 0, cl_toInstant = num 1, cl_open = 5, cl_high = 9, cl_low = 5, cl_close = 9, cl_tickCount = 2\<rparr>,
         \<lparr>cl_fromInstant = num 1, cl_toInstant = num 2, cl_open = 3, cl_high = 3, cl_low = 3, cl_close = 3, cl_tickCount = 1\<rparr>]"
proof -
  have r: "reduceToColumns [num 0, num 0, num 1] [5, 9, 3] (num 0) (num 2) (num 2) =
    Inr [\<lparr>cl_fromInstant = num 0, cl_toInstant = num 1, cl_open = 5, cl_high = 9, cl_low = 5, cl_close = 9, cl_tickCount = 2\<rparr>,
         \<lparr>cl_fromInstant = num 1, cl_toInstant = num 2, cl_open = 3, cl_high = 3, cl_low = 3, cl_close = 3, cl_tickCount = 1\<rparr>]"
    by (simp add: reduceToColumns_def reduce_step_def flush_def add_price_def demo_columns logPrice_num
      valid_price_def Let_def)
  from extremes_survive [OF this] r show ?thesis by simp
qed

end
