(* ===== verification/RecordLog.thy ===== *)
theory RecordLog
  imports Market "HOL-Library.Sublist"
begin

text \<open>
  The replicated record of one asset: packages/runtime/src/replication.ts, and the part of
  packages/runtime/src/lease.ts that writes and reads it once the fence has let a caller
  through. A record is a list of entries, almost always ticks and occasionally a seam, with an
  index from tick sequences to positions and the sequence the next tick must carry. Sequences
  are integers; the promise-returning methods are functions, a rejection being \<open>Inl\<close>.
\<close>

section \<open>Entries\<close>

record seam_marker =
  sm_assetId :: string
  sm_lastSequence :: "int option"
  sm_lastInstant :: "int option"
  sm_resumesAtSequence :: jsnum
  sm_resumesAtInstant :: int
  sm_reason :: string

datatype record_entry = TickE tick | SeamE seam_marker

definition entrySequence :: "record_entry \<Rightarrow> int" where
  "entrySequence e = (case e of TickE t \<Rightarrow> sequence t
     | SeamE s \<Rightarrow> (case sm_lastSequence s of None \<Rightarrow> 0 | Some n \<Rightarrow> n) + 1)"

fun malformedBatch :: "tick list \<Rightarrow> js_error option" where
  "malformedBatch (t # u # ts) =
     (if sequence u \<le> sequence t then Some (RangeError ''not strictly ordered'') else malformedBatch (u # ts))"
| "malformedBatch _ = None"

fun malformedPass_loop :: "string list \<Rightarrow> string set \<Rightarrow> js_error option" where
  "malformedPass_loop [] seen = None"
| "malformedPass_loop (a # batches) seen =
     (if a \<in> seen then Some (RangeError ''names twice'') else malformedPass_loop batches (insert a seen))"

definition malformedPass :: "string list \<Rightarrow> js_error option" where
  "malformedPass assetIds = malformedPass_loop assetIds {}"

definition sameTick :: "tick \<Rightarrow> tick \<Rightarrow> bool" where
  "sameTick a b \<longleftrightarrow> sequence a = sequence b \<and> instant a = instant b \<and> price a = price b"

function lower_search :: "record_entry list \<Rightarrow> int \<Rightarrow> nat \<Rightarrow> nat \<Rightarrow> nat" where
  "lower_search entries s low high =
     (if low < high then
        let middle = (low + high) div 2 in
        if entrySequence (entries ! middle) < s then lower_search entries s (middle + 1) high
        else lower_search entries s low middle
      else low)"
  by pat_completeness auto
termination
  by (relation "measure (\<lambda>(es, s, low, high). high - low)") auto

declare lower_search.simps [simp del]

definition lowerBound :: "record_entry list \<Rightarrow> int \<Rightarrow> nat" where
  "lowerBound entries s = lower_search entries s 0 (length entries)"

section \<open>The record of an asset\<close>

record record_state =
  rc_entries :: "record_entry list"
  rc_index :: "int \<rightharpoonup> nat"
  rc_head :: "int option"
  rc_expectNext :: "int option"

definition empty_record :: record_state where
  "empty_record = \<lparr>rc_entries = [], rc_index = Map.empty, rc_head = None, rc_expectNext = None\<rparr>"

text \<open>The validation loop: the ticks still to be written, the head and what comes next.\<close>

fun append_check ::
  "record_state \<Rightarrow> tick list \<Rightarrow> tick list \<Rightarrow> int option \<Rightarrow> int option \<Rightarrow>
     (tick list \<times> int option \<times> int option) result" where
  "append_check state [] pending head expectNext = Inr (pending, head, expectNext)"
| "append_check state (tick # ticks) pending head expectNext =
     (if head \<noteq> None \<and> sequence tick \<le> the head then
        (case rc_index state (sequence tick) of
           None \<Rightarrow> Inl (RangeError ''no tick there to compare against'')
         | Some index \<Rightarrow>
             (case rc_entries state ! index of
                TickE recorded \<Rightarrow>
                  if \<not> sameTick recorded tick then Inl (RecordFork (sequence tick))
                  else append_check state ticks pending head expectNext
              | SeamE _ \<Rightarrow> Inl (RecordFork (sequence tick))))
      else let expected = (case expectNext of None \<Rightarrow> sequence tick | Some n \<Rightarrow> n) in
        if sequence tick \<noteq> expected then Inl (RangeError ''a gap in the record'')
        else append_check state ticks (pending @ [tick]) (Some (sequence tick)) (Some (sequence tick + 1)))"

definition push_tick :: "tick \<Rightarrow> record_state \<Rightarrow> record_state" where
  "push_tick t state = state\<lparr>rc_index := (rc_index state)(sequence t \<mapsto> length (rc_entries state)),
     rc_entries := rc_entries state @ [TickE t]\<rparr>"

definition append_record :: "tick list \<Rightarrow> record_state \<Rightarrow> record_state result" where
  "append_record ticks state =
     (case malformedBatch ticks of
        Some e \<Rightarrow> Inl e
      | None \<Rightarrow> andThen (append_check state ticks [] (rc_head state) (rc_expectNext state))
          (\<lambda>(pending, head, expectNext).
            Inr ((fold push_tick pending state)\<lparr>rc_head := head, rc_expectNext := expectNext\<rparr>)))"

definition seam_record :: "string \<Rightarrow> seam_marker \<Rightarrow> record_state \<Rightarrow> record_state result" where
  "seam_record a seam state =
     (if sm_assetId seam \<noteq> a then Inl (SeamErr ''it names asset'')
      else if sm_lastSequence seam \<noteq> rc_head state then Inl (SeamErr ''it continues from'')
      else if \<not> isInteger (sm_resumesAtSequence seam) \<or> js_lt (sm_resumesAtSequence seam) (num 1)
      then Inl (SeamErr ''it resumes at sequence'')
      else if rc_head state \<noteq> None \<and> js_le (sm_resumesAtSequence seam) (num (the (rc_head state)))
      then Inl (SeamErr ''at or before the head'')
      else Inr (state\<lparr>rc_entries := rc_entries state @ [SeamE seam],
        rc_expectNext := Some (int_of (sm_resumesAtSequence seam))\<rparr>))"

definition read_entries :: "record_state option \<Rightarrow> jsnum \<Rightarrow> jsnum \<Rightarrow> record_entry list result" where
  "read_entries state fromSequence limit =
     (if \<not> isInteger fromSequence \<or> js_lt fromSequence (num 1) then Inl (RangeError ''positive integer'')
      else if \<not> isInteger limit \<or> js_lt limit (num 1) then Inl (RangeError ''read limit'')
      else case state of
        None \<Rightarrow> Inr []
      | Some s \<Rightarrow>
          if length (rc_entries s) = 0 then Inr []
          else if int_of fromSequence < entrySequence (rc_entries s ! 0)
          then Inl (RangeError ''precedes the retained record'')
          else Inr (take (nat (int_of limit)) (drop (lowerBound (rc_entries s) (int_of fromSequence)) (rc_entries s))))"

definition seams_of :: "record_entry list \<Rightarrow> seam_marker list" where
  "seams_of es = map (\<lambda>e. case e of SeamE s \<Rightarrow> s) (filter (\<lambda>e. case e of SeamE _ \<Rightarrow> True | TickE _ \<Rightarrow> False) es)"

definition ticks_of :: "record_entry list \<Rightarrow> tick list" where
  "ticks_of es = map (\<lambda>e. case e of TickE t \<Rightarrow> t) (filter (\<lambda>e. case e of TickE _ \<Rightarrow> True | SeamE _ \<Rightarrow> False) es)"

section \<open>Well-formed records\<close>

text \<open>
  Reading a record forward: the head is the last tick's sequence and the next tick must carry
  its successor, or the sequence the seam in between resumes at. An entry that does not fit
  stops the walk.
\<close>

fun walk :: "record_entry list \<Rightarrow> int option \<times> int option \<Rightarrow> (int option \<times> int option) option" where
  "walk [] he = Some he"
| "walk (TickE t # es) (h, e) =
     (if (case h of None \<Rightarrow> True | Some n \<Rightarrow> n < sequence t) \<and> (e = None \<or> e = Some (sequence t))
      then walk es (Some (sequence t), Some (sequence t + 1)) else None)"
| "walk (SeamE s # es) (h, e) =
     (if sm_lastSequence s = h \<and> (\<exists>r. sm_resumesAtSequence s = num r \<and> 1 \<le> r \<and> (case h of None \<Rightarrow> True | Some n \<Rightarrow> n < r))
      then walk es (h, Some (int_of (sm_resumesAtSequence s))) else None)"

definition record_ok :: "record_state \<Rightarrow> bool" where
  "record_ok state \<longleftrightarrow> walk (rc_entries state) (None, None) = Some (rc_head state, rc_expectNext state) \<and>
     (\<forall>n i. rc_index state n = Some i \<longleftrightarrow>
       i < length (rc_entries state) \<and> (\<exists>t. rc_entries state ! i = TickE t \<and> sequence t = n))"

lemma walk_append:
  "walk (es @ fs) he = (case walk es he of None \<Rightarrow> None | Some he' \<Rightarrow> walk fs he')"
  by (induction es he rule: walk.induct) auto

lemma empty_record_ok: "record_ok empty_record"
  by (simp add: record_ok_def empty_record_def)

lemma sameTick_eq: "sameTick a b \<longleftrightarrow> a = b"
  by (cases a; cases b) (auto simp: sameTick_def)

lemma malformedBatch_iff: "malformedBatch ts = None \<longleftrightarrow> sorted_wrt (<) (map sequence ts)"
proof (induction ts rule: malformedBatch.induct)
  case (1 t u ts)
  then show ?case by (fastforce split: if_splits)
qed auto

lemma entrySequence_simps [simp]:
  "entrySequence (TickE t) = sequence t"
  "entrySequence (SeamE s) = (case sm_lastSequence s of None \<Rightarrow> 0 | Some n \<Rightarrow> n) + 1"
  by (simp_all add: entrySequence_def)

lemma ticks_of_simps [simp]:
  "ticks_of [] = []" "ticks_of (TickE t # es) = t # ticks_of es" "ticks_of (SeamE s # es) = ticks_of es"
  "ticks_of (es @ fs) = ticks_of es @ ticks_of fs"
  by (simp_all add: ticks_of_def)

lemma ticks_of_TickE [simp]: "ticks_of (map TickE ts) = ts"
  by (induction ts) auto

lemma set_ticks_of: "t \<in> set (ticks_of es) \<longleftrightarrow> TickE t \<in> set es"
proof (induction es)
  case (Cons e es)
  then show ?case by (cases e) auto
qed simp

text \<open>The entries of a well-formed record are in sequence order and its ticks strictly so.\<close>

definition after :: "int option \<times> int option \<Rightarrow> int \<Rightarrow> bool" where
  "after he n \<longleftrightarrow> (case fst he of Some m \<Rightarrow> m < n | None \<Rightarrow> snd he = None \<or> 1 \<le> n)"

definition walk_state :: "int option \<times> int option \<Rightarrow> bool" where
  "walk_state he \<longleftrightarrow> (case fst he of Some m \<Rightarrow> (\<exists>e. snd he = Some e \<and> m < e) | None \<Rightarrow>
     (case snd he of None \<Rightarrow> True | Some e \<Rightarrow> 1 \<le> e))"

lemma walk_sorted:
  "walk es he = Some he' \<Longrightarrow> walk_state he \<Longrightarrow>
     sorted (map entrySequence es) \<and> (\<forall>x \<in> set es. after he (entrySequence x)) \<and> walk_state he'"
proof (induction es he rule: walk.induct)
  case (2 t es h e)
  then have w: "walk es (Some (sequence t), Some (sequence t + 1)) = Some he'"
    and h: "case h of None \<Rightarrow> True | Some n \<Rightarrow> n < sequence t" "e = None \<or> e = Some (sequence t)"
    by (auto split: if_splits)
  have "after (h, e) (sequence t)" using h "2.prems"(2) by (auto simp: after_def walk_state_def split: option.splits)
  with "2.IH" w h show ?case by (fastforce simp: after_def walk_state_def split: option.splits)
next
  case (3 s es h e)
  then obtain r where w: "walk es (h, Some r) = Some he'" "sm_lastSequence s = h"
    and r: "1 \<le> r" "case h of None \<Rightarrow> True | Some n \<Rightarrow> n < r" "sm_resumesAtSequence s = num r"
    by (auto split: if_splits)
  then have "sorted (map entrySequence es) \<and> (\<forall>x \<in> set es. after (h, Some r) (entrySequence x)) \<and> walk_state he'"
    using "3.IH" "3.prems"(1) by (auto simp: walk_state_def split: option.splits if_splits)
  with w(2) show ?case by (cases h) (auto simp: after_def)
qed auto

lemma walk_ticks:
  "walk es (h, e) = Some (h', e') \<Longrightarrow> sorted_wrt (<) (map sequence (ticks_of es)) \<and>
     (\<forall>t \<in> set (ticks_of es). case h of None \<Rightarrow> True | Some n \<Rightarrow> n < sequence t) \<and>
     h' = (if ticks_of es = [] then h else Some (sequence (last (ticks_of es))))"
proof (induction es "(h, e)" arbitrary: h e rule: walk.induct)
  case (2 t es h e)
  then show ?case by (fastforce split: if_splits option.splits)
next
  case (3 s es h e)
  then show ?case by (auto split: if_splits)
qed auto

lemma walk_start: "walk_state (None, None)"
  by (simp add: walk_state_def)

lemma record_sorted:
  assumes "record_ok st"
  shows "sorted (map entrySequence (rc_entries st))" "sorted_wrt (<) (map sequence (ticks_of (rc_entries st)))"
    "rc_head st = (if ticks_of (rc_entries st) = [] then None else Some (sequence (last (ticks_of (rc_entries st)))))"
    "walk_state (rc_head st, rc_expectNext st)"
  using assms walk_sorted [OF _ walk_start] walk_ticks [of "rc_entries st" None None] unfolding record_ok_def by auto

lemma record_tick_le_head:
  assumes "record_ok st" "TickE t \<in> set (rc_entries st)"
  shows "\<exists>n. rc_head st = Some n \<and> sequence t \<le> n"
proof -
  let ?ts = "ticks_of (rc_entries st)"
  have t: "t \<in> set ?ts" using assms(2) by (simp add: set_ticks_of)
  then have ne: "?ts \<noteq> []" by auto
  then obtain us u where u: "?ts = us @ [u]" by (cases ?ts rule: rev_cases) auto
  have "sorted_wrt (<) (map sequence (us @ [u]))" using record_sorted(2) [OF assms(1)] u by simp
  then have "t = u \<or> sequence t < sequence u" using t u by (auto simp: sorted_wrt_append)
  then show ?thesis using record_sorted(3) [OF assms(1)] u by auto
qed

text \<open>Two ticks of a record with one sequence are one tick: the index finds it.\<close>

lemma index_lookup:
  assumes "record_ok st"
  shows "(case rc_index st n of None \<Rightarrow> None | Some i \<Rightarrow> Some (rc_entries st ! i)) = Some (TickE t) \<longleftrightarrow>
    TickE t \<in> set (rc_entries st) \<and> sequence t = n"
proof -
  have inv: "rc_index st n = Some i \<longleftrightarrow> i < length (rc_entries st) \<and> (\<exists>t. rc_entries st ! i = TickE t \<and> sequence t = n)" for i
    using assms by (simp add: record_ok_def)
  show ?thesis
  proof
    assume "(case rc_index st n of None \<Rightarrow> None | Some i \<Rightarrow> Some (rc_entries st ! i)) = Some (TickE t)"
    then obtain i where "rc_index st n = Some i" "rc_entries st ! i = TickE t" by (auto split: option.splits)
    then show "TickE t \<in> set (rc_entries st) \<and> sequence t = n" using inv [of i] by (auto simp: in_set_conv_nth)
  next
    assume h: "TickE t \<in> set (rc_entries st) \<and> sequence t = n"
    then obtain i where "i < length (rc_entries st)" "rc_entries st ! i = TickE t" by (auto simp: in_set_conv_nth)
    with h inv [of i] show "(case rc_index st n of None \<Rightarrow> None | Some i \<Rightarrow> Some (rc_entries st ! i)) = Some (TickE t)"
      by auto
  qed
qed

text \<open>The binary search answers the first entry at or past the sequence.\<close>

lemma lower_search_correct:
  assumes "sorted (map entrySequence es)" "low \<le> high" "high \<le> length es"
    "\<forall>j<low. entrySequence (es ! j) < s" "\<forall>j. high \<le> j \<and> j < length es \<longrightarrow> s \<le> entrySequence (es ! j)"
  shows "lower_search es s low high \<le> length es \<and> (\<forall>j<lower_search es s low high. entrySequence (es ! j) < s) \<and>
    (\<forall>j. lower_search es s low high \<le> j \<and> j < length es \<longrightarrow> s \<le> entrySequence (es ! j))"
  using assms
proof (induction es s low high rule: lower_search.induct)
  case (1 es s low high)
  let ?m = "(low + high) div 2"
  have mono: "i \<le> j \<Longrightarrow> j < length es \<Longrightarrow> entrySequence (es ! i) \<le> entrySequence (es ! j)" for i j
    using sorted_nth_mono [OF "1.prems"(1), of i j] by simp
  show ?case
  proof (cases "low < high")
    case True
    then have m: "low \<le> ?m" "?m < high" by auto
    show ?thesis
    proof (cases "entrySequence (es ! ?m) < s")
      case lt: True
      have eq: "lower_search es s low high = lower_search es s (?m + 1) high"
        using True lt by (simp add: lower_search.simps [of es s low high] Let_def)
      have "\<forall>j<?m + 1. entrySequence (es ! j) < s"
      proof (intro allI impI)
        fix j assume "j < ?m + 1"
        then have "entrySequence (es ! j) \<le> entrySequence (es ! ?m)" using mono [of j ?m] m "1.prems"(3) by simp
        with lt show "entrySequence (es ! j) < s" by linarith
      qed
      with "1.IH"(1) [OF True refl lt] "1.prems" m eq show ?thesis by auto
    next
      case ge: False
      have eq: "lower_search es s low high = lower_search es s low ?m"
        using True ge by (simp add: lower_search.simps [of es s low high] Let_def)
      have "\<forall>j. ?m \<le> j \<and> j < length es \<longrightarrow> s \<le> entrySequence (es ! j)"
        using mono [of ?m] ge by (meson not_le order_trans)
      with "1.IH"(2) [OF True refl ge] "1.prems" m eq show ?thesis by auto
    qed
  next
    case False
    then have "low = high" using "1.prems" by simp
    with "1.prems" show ?thesis by (simp add: lower_search.simps)
  qed
qed

lemma lowerBound_filter:
  assumes "sorted (map entrySequence es)"
  shows "drop (lowerBound es s) es = filter (\<lambda>e. s \<le> entrySequence e) es"
proof -
  let ?k = "lowerBound es s"
  have k: "?k \<le> length es" "\<forall>j<?k. entrySequence (es ! j) < s"
      "\<forall>j. ?k \<le> j \<and> j < length es \<longrightarrow> s \<le> entrySequence (es ! j)"
    using lower_search_correct [OF assms, of 0 "length es" s] by (auto simp: lowerBound_def)
  have "filter (\<lambda>e. s \<le> entrySequence e) (take ?k es) = []"
    using k(2) by (fastforce simp: filter_empty_conv in_set_conv_nth)
  moreover have "filter (\<lambda>e. s \<le> entrySequence e) (drop ?k es) = drop ?k es"
    using k(3) by (fastforce simp: filter_id_conv in_set_conv_nth)
  ultimately show ?thesis by (metis append_Nil append_take_drop_id filter_append)
qed

section \<open>Appending\<close>

definition late :: "int option \<Rightarrow> tick \<Rightarrow> bool" where
  "late h t \<longleftrightarrow> (case h of None \<Rightarrow> True | Some n \<Rightarrow> n < sequence t)"

lemma append_check_late:
  assumes "sorted_wrt (<) (map sequence ts)" "\<forall>t \<in> set ts. late h t"
  shows "append_check st ts p h e = (case walk (map TickE ts) (h, e) of
      None \<Rightarrow> Inl (RangeError ''a gap in the record'')
    | Some (h', e') \<Rightarrow> Inr (p @ ts, h', e'))"
  using assms
proof (induction ts arbitrary: p h e)
  case (Cons t ts)
  from Cons.prems have l: "late h t" and rest: "\<forall>u \<in> set ts. late (Some (sequence t)) u"
    by (auto simp: late_def)
  have n: "\<not> (h \<noteq> None \<and> sequence t \<le> the h)" using l by (cases h) (auto simp: late_def)
  have step: "append_check st (t # ts) p h e = (if e = None \<or> e = Some (sequence t)
      then append_check st ts (p @ [t]) (Some (sequence t)) (Some (sequence t + 1))
      else Inl (RangeError ''a gap in the record''))"
    unfolding append_check.simps if_not_P [OF n] Let_def by (auto split: option.splits)
  have w: "walk (map TickE (t # ts)) (h, e) = (if e = None \<or> e = Some (sequence t)
      then walk (map TickE ts) (Some (sequence t), Some (sequence t + 1)) else None)"
    using l by (simp add: late_def)
  show ?case
    unfolding step w using Cons.IH [OF _ rest] Cons.prems(1) by (simp split: option.splits)
qed simp

lemma append_check_eq:
  assumes "record_ok st" "sorted_wrt (<) (map sequence ts)"
  shows "(\<exists>r. append_check st ts [] (rc_head st) (rc_expectNext st) = Inr r) \<longleftrightarrow>
      (\<forall>t \<in> set ts. late (rc_head st) t \<or> TickE t \<in> set (rc_entries st)) \<and>
      walk (map TickE (filter (late (rc_head st)) ts)) (rc_head st, rc_expectNext st) \<noteq> None"
    (is "?ok ts \<longleftrightarrow> ?cond ts") and "append_check st ts [] (rc_head st) (rc_expectNext st) = Inr (p, h, e) \<Longrightarrow>
      p = filter (late (rc_head st)) ts \<and>
      walk (map TickE (filter (late (rc_head st)) ts)) (rc_head st, rc_expectNext st) = Some (h, e)"
proof -
  have "(\<exists>r. append_check st ts [] (rc_head st) (rc_expectNext st) = Inr r) = ?cond ts \<and>
    (\<forall>p h e. append_check st ts [] (rc_head st) (rc_expectNext st) = Inr (p, h, e) \<longrightarrow>
      p = filter (late (rc_head st)) ts \<and>
      walk (map TickE (filter (late (rc_head st)) ts)) (rc_head st, rc_expectNext st) = Some (h, e))"
    using assms(2)
  proof (induction ts)
    case (Cons t ts)
    show ?case
    proof (cases "late (rc_head st) t")
      case True
      then have all: "\<forall>u \<in> set (t # ts). late (rc_head st) u"
        using Cons.prems by (fastforce simp: late_def split: option.splits)
      then have "filter (late (rc_head st)) (t # ts) = t # ts" by (simp add: filter_id_conv)
      with append_check_late [OF Cons.prems all] all show ?thesis
        by (auto split: option.splits)
    next
      case False
      then have h: "rc_head st \<noteq> None \<and> sequence t \<le> the (rc_head st)"
        by (auto simp: late_def split: option.splits)
      have same: "append_check st (t # ts) [] (rc_head st) (rc_expectNext st) =
          append_check st ts [] (rc_head st) (rc_expectNext st)" if held: "TickE t \<in> set (rc_entries st)"
        using index_lookup [OF assms(1), of "sequence t" t] held h by (auto simp: sameTick_eq split: option.splits)
      have fork: "\<exists>x. append_check st (t # ts) [] (rc_head st) (rc_expectNext st) = Inl x"
        if not: "TickE t \<notin> set (rc_entries st)"
      proof (cases "rc_index st (sequence t)")
        case (Some i)
        with index_lookup [OF assms(1), of "sequence t"] not h show ?thesis
          by (cases "rc_entries st ! i") (auto simp: sameTick_eq)
      qed (use h in simp)
      show ?thesis
      proof (cases "TickE t \<in> set (rc_entries st)")
        case True
        have "filter (late (rc_head st)) (t # ts) = filter (late (rc_head st)) ts" using False by simp
        with Cons True show ?thesis unfolding same [OF True] by (auto simp del: append_check.simps)
      next
        case no: False
        then obtain x where "append_check st (t # ts) [] (rc_head st) (rc_expectNext st) = Inl x" using fork by blast
        with no False show ?thesis by (simp del: append_check.simps)
      qed
    qed
  qed simp
  then show "?ok ts \<longleftrightarrow> ?cond ts" "append_check st ts [] (rc_head st) (rc_expectNext st) = Inr (p, h, e) \<Longrightarrow>
      p = filter (late (rc_head st)) ts \<and>
      walk (map TickE (filter (late (rc_head st)) ts)) (rc_head st, rc_expectNext st) = Some (h, e)" by blast+
qed

lemma fold_push_tick:
  "rc_entries (fold push_tick ts st) = rc_entries st @ map TickE ts"
  "rc_head (fold push_tick ts st) = rc_head st" "rc_expectNext (fold push_tick ts st) = rc_expectNext st"
  by (induction ts arbitrary: st) (simp_all add: push_tick_def)

definition index_ok :: "record_state \<Rightarrow> bool" where
  "index_ok st \<longleftrightarrow> (\<forall>n i. rc_index st n = Some i \<longleftrightarrow>
     i < length (rc_entries st) \<and> (\<exists>t. rc_entries st ! i = TickE t \<and> sequence t = n))"

lemma index_ok_push:
  assumes "index_ok st" "\<forall>u \<in> set (ticks_of (rc_entries st)). sequence u \<noteq> sequence t"
  shows "index_ok (push_tick t st)"
proof -
  have "rc_index st (sequence t) = None"
  proof (cases "rc_index st (sequence t)")
    case (Some i)
    then obtain u where "i < length (rc_entries st)" "rc_entries st ! i = TickE u" "sequence u = sequence t"
      using assms(1) unfolding index_ok_def by blast
    then show ?thesis using assms(2) by (metis nth_mem set_ticks_of)
  qed
  moreover have "sequence u \<noteq> sequence t" if "i < length (rc_entries st)" "rc_entries st ! i = TickE u" for i u
    using assms(2) that by (metis nth_mem set_ticks_of)
  ultimately show ?thesis
    using assms(1) unfolding index_ok_def push_tick_def
    by (auto simp: nth_append less_Suc_eq split: if_splits)
qed

lemma index_ok_fold:
  assumes "index_ok st" "sorted_wrt (<) (map sequence (ticks_of (rc_entries st) @ ts))"
  shows "index_ok (fold push_tick ts st)"
  using assms
proof (induction ts arbitrary: st)
  case (Cons t ts)
  have "\<forall>u \<in> set (ticks_of (rc_entries st)). sequence u \<noteq> sequence t"
    using Cons.prems(2) by (fastforce simp: sorted_wrt_append)
  with Cons.prems(1) have "index_ok (push_tick t st)" by (rule index_ok_push)
  moreover have "ticks_of (rc_entries (push_tick t st)) @ ts = ticks_of (rc_entries st) @ t # ts"
    by (simp add: push_tick_def)
  ultimately show ?case using Cons.IH [of "push_tick t st"] Cons.prems(2) by simp
qed simp

lemma index_ok_cong: "rc_entries st' = rc_entries st \<Longrightarrow> rc_index st' = rc_index st \<Longrightarrow> index_ok st' = index_ok st"
  by (simp add: index_ok_def)

lemma record_ok_alt: "record_ok st \<longleftrightarrow>
    walk (rc_entries st) (None, None) = Some (rc_head st, rc_expectNext st) \<and> index_ok st"
  by (simp add: record_ok_def index_ok_def)

lemma append_record_ok:
  assumes "record_ok st" "append_record ts st = Inr st'"
  shows "record_ok st'" "rc_entries st' = rc_entries st @ map TickE (filter (late (rc_head st)) ts)"
    "\<forall>t \<in> set ts. TickE t \<in> set (rc_entries st')"
proof -
  let ?new = "filter (late (rc_head st)) ts"
  obtain p h e where m: "malformedBatch ts = None"
    and c: "append_check st ts [] (rc_head st) (rc_expectNext st) = Inr (p, h, e)"
    and st': "st' = (fold push_tick p st)\<lparr>rc_head := h, rc_expectNext := e\<rparr>"
    using assms(2) by (auto simp: append_record_def andThen_Inr_iff split: option.splits)
  have s: "sorted_wrt (<) (map sequence ts)" using m by (simp add: malformedBatch_iff)
  note pc = append_check_eq(2) [OF assms(1) s c]
  then show e: "rc_entries st' = rc_entries st @ map TickE ?new" by (simp add: st' fold_push_tick)
  have w: "walk (rc_entries st') (None, None) = Some (h, e)"
    using assms(1) pc by (simp add: e walk_append record_ok_def)
  from walk_ticks [OF w] have "sorted_wrt (<) (map sequence (ticks_of (rc_entries st) @ ?new))"
    by (simp add: e)
  then have "index_ok (fold push_tick p st)"
    using assms(1) pc by (intro index_ok_fold) (auto simp: record_ok_alt)
  then have "index_ok st'" by (simp add: index_ok_def st')
  with w show "record_ok st'" by (simp add: record_ok_alt st')
  show "\<forall>t \<in> set ts. TickE t \<in> set (rc_entries st')"
    using append_check_eq(1) [OF assms(1) s] c by (auto simp: e)
qed

lemma append_record_iff:
  assumes "record_ok st"
  shows "(\<exists>st'. append_record ts st = Inr st') \<longleftrightarrow>
    malformedBatch ts = None \<and> (\<forall>t \<in> set ts. late (rc_head st) t \<or> TickE t \<in> set (rc_entries st)) \<and>
    walk (rc_entries st @ map TickE (filter (late (rc_head st)) ts)) (None, None) \<noteq> None"
proof (cases "malformedBatch ts = None")
  case True
  then have s: "sorted_wrt (<) (map sequence ts)" by (simp add: malformedBatch_iff)
  show ?thesis
    using append_check_eq(1) [OF assms s] assms True
    by (auto simp: append_record_def andThen_Inr_iff walk_append record_ok_def)
qed (auto simp: append_record_def)

lemma append_record_replay:
  assumes "record_ok st" "malformedBatch ts = None" "\<forall>t \<in> set ts. TickE t \<in> set (rc_entries st)"
  shows "append_record ts st = Inr st"
proof -
  have s: "sorted_wrt (<) (map sequence ts)" using assms(2) by (simp add: malformedBatch_iff)
  have none: "filter (late (rc_head st)) ts = []"
    using record_tick_le_head [OF assms(1)] assms(3) by (fastforce simp: filter_empty_conv late_def)
  then have "\<exists>r. append_check st ts [] (rc_head st) (rc_expectNext st) = Inr r"
    using append_check_eq(1) [OF assms(1) s] assms(3) by simp
  then obtain p h e where c: "append_check st ts [] (rc_head st) (rc_expectNext st) = Inr (p, h, e)" by auto
  from append_check_eq(2) [OF assms(1) s this] none have "p = []" "h = rc_head st" "e = rc_expectNext st" by auto
  with c assms(2) show ?thesis by (simp add: append_record_def)
qed

lemma seam_record_ok:
  assumes "record_ok st" "seam_record a seam st = Inr st'"
  shows "record_ok st'" "rc_entries st' = rc_entries st @ [SeamE seam]" "rc_head st' = rc_head st"
    "\<exists>r. sm_resumesAtSequence seam = num r \<and> rc_expectNext st' = Some r"
proof -
  have i: "isInteger (sm_resumesAtSequence seam)" "\<not> js_lt (sm_resumesAtSequence seam) (num 1)"
    and l: "sm_lastSequence seam = rc_head st"
    and h: "\<not> (rc_head st \<noteq> None \<and> js_le (sm_resumesAtSequence seam) (num (the (rc_head st))))"
    and st': "st' = st\<lparr>rc_entries := rc_entries st @ [SeamE seam],
        rc_expectNext := Some (int_of (sm_resumesAtSequence seam))\<rparr>"
    using assms(2) by (auto simp: seam_record_def split: if_splits)
  obtain r where r: "sm_resumesAtSequence seam = num r" using isInteger_num [OF i(1)] by blast
  have "1 \<le> r" "case rc_head st of None \<Rightarrow> True | Some n \<Rightarrow> n < r"
    using i(2) h by (auto simp: r split: option.splits)
  then have w: "walk (rc_entries st') (None, None) = Some (rc_head st', rc_expectNext st')"
    using assms(1) l by (simp add: st' walk_append record_ok_def r)
  have "index_ok st'"
    using assms(1) unfolding record_ok_alt index_ok_def st' by (auto simp: nth_append less_Suc_eq)
  with w show "record_ok st'" by (simp add: record_ok_alt)
  show "rc_entries st' = rc_entries st @ [SeamE seam]" "rc_head st' = rc_head st"
    "\<exists>r. sm_resumesAtSequence seam = num r \<and> rc_expectNext st' = Some r"
    by (simp_all add: st' r)
qed

section \<open>Reading\<close>

lemma read_entries_eq:
  assumes "record_ok st" "rc_entries st \<noteq> []" "1 \<le> n" "entrySequence (hd (rc_entries st)) \<le> n" "1 \<le> k"
  shows "read_entries (Some st) (num n) (num k) =
    Inr (take (nat k) (filter (\<lambda>e. n \<le> entrySequence e) (rc_entries st)))"
  using assms lowerBound_filter [OF record_sorted(1) [OF assms(1)], of n]
  by (simp add: read_entries_def hd_conv_nth)

lemma walk_seams: "seams_of (es @ fs) = seams_of es @ seams_of fs"
  by (simp add: seams_of_def)

end
