(* ===== verification/LeaseStore.thy ===== *)
theory LeaseStore
  imports RecordLog "HOL-Library.AList" "HOL-Library.List_Lexorder" "HOL-Library.Char_ord"
begin

text \<open>
  Leases, fences and the coordinated store: packages/runtime/src/lease.ts and fence.ts. The
  store grants leadership of an asset under a token that only grows, and lets a write through
  only under the token of the grant in force. Every critical section of the source contains no
  \<^verbatim>\<open>await\<close>, so an operation is one step; the reading of the store's clock is the argument
  \<open>now\<close> of the step, and nothing is assumed of successive readings. An operation returns the
  store it leaves behind beside its outcome, a rejected promise being \<open>Inl\<close>.

  Market-state records are JSON values; what is stored is their text, modelled as the value
  that text parses to.
\<close>

section \<open>State\<close>

datatype json = JNull | JBool bool | JNum jsnum | JStr string | JArr "json list" | JObj "(string \<times> json) list"

text \<open>The value that parsing the text of a value gives: a Number JSON cannot write becomes null.\<close>

fun json_image :: "json \<Rightarrow> json" where
  "json_image (JNum x) = (if isFinite x then JNum x else JNull)"
| "json_image (JArr vs) = JArr (map json_image vs)"
| "json_image (JObj fs) = JObj (map (\<lambda>(k, v). (k, json_image v)) fs)"
| "json_image v = v"

record lease_grant =
  lg_assetId :: string
  lg_holder :: string
  lg_token :: int
  lg_grantedAt :: int
  lg_expiresAt :: int

datatype acquire_outcome = Granted lease_grant | Held lease_grant
datatype renew_outcome = Renewed lease_grant | Lost "lease_grant option"

record stored_grant =
  sg_holder :: string
  sg_token :: int
  sg_grantedAt :: int
  sg_expiresAt :: int

record coordinated_store =
  cs_grants :: "string \<rightharpoonup> stored_grant"
  cs_record :: "string \<rightharpoonup> record_state"
  cs_highWater :: "string \<rightharpoonup> int"
  cs_records :: "(string \<times> json) list"
  cs_termMs :: jsnum

definition DEFAULT_LEASE_TERM_MS :: int where "DEFAULT_LEASE_TERM_MS = 15000"
definition DEFAULT_LEASE_RENEWAL_MS :: int where "DEFAULT_LEASE_RENEWAL_MS = 5000"

definition new_store :: "jsnum option \<Rightarrow> coordinated_store result" where
  "new_store term = (let t = (case term of None \<Rightarrow> num DEFAULT_LEASE_TERM_MS | Some v \<Rightarrow> v) in
     if \<not> isFinite t \<or> js_le t (num 0) then Inl (RangeError ''Lease term'')
     else Inr \<lparr>cs_grants = Map.empty, cs_record = Map.empty, cs_highWater = Map.empty, cs_records = [],
       cs_termMs = t\<rparr>)"

section \<open>Leases\<close>

definition isUsableHolder :: "string \<Rightarrow> bool" where
  "isUsableHolder holder \<longleftrightarrow> 1 \<le> length holder \<and> length holder \<le> 128 \<and>
     list_all (\<lambda>c. 33 \<le> (of_char c :: nat) \<and> (of_char c :: nat) \<le> 126) holder"

definition assertHolder :: "string \<Rightarrow> unit result" where
  "assertHolder holder = (if isUsableHolder holder then Inr () else Inl LeaseHolderErr)"

definition live :: "string \<Rightarrow> int \<Rightarrow> coordinated_store \<Rightarrow> coordinated_store \<times> stored_grant option" where
  "live a now s = (case cs_grants s a of
     None \<Rightarrow> (s, None)
   | Some g \<Rightarrow> if sg_expiresAt g \<le> now then (s\<lparr>cs_grants := (cs_grants s)(a := None)\<rparr>, None)
       else (s, Some g))"

definition toGrant :: "string \<Rightarrow> stored_grant \<Rightarrow> lease_grant" where
  "toGrant a g = \<lparr>lg_assetId = a, lg_holder = sg_holder g, lg_token = sg_token g,
     lg_grantedAt = sg_grantedAt g, lg_expiresAt = sg_expiresAt g\<rparr>"

definition acquire ::
  "string \<Rightarrow> string \<Rightarrow> int \<Rightarrow> coordinated_store \<Rightarrow> coordinated_store \<times> acquire_outcome result" where
  "acquire a holder now s0 =
     (if \<not> isUsableHolder holder then (s0, Inl LeaseHolderErr)
      else case live a now s0 of
        (s, Some held) \<Rightarrow> (s, Inr (Held (toGrant a held)))
      | (s, None) \<Rightarrow>
          let token = (case cs_highWater s a of None \<Rightarrow> 0 | Some t \<Rightarrow> t) + 1;
              s1 = s\<lparr>cs_highWater := (cs_highWater s)(a \<mapsto> token)\<rparr> in
          case epochMillis (js_add (num now) (cs_termMs s)) of
            Inl e \<Rightarrow> (s1, Inl e)
          | Inr expiresAt \<Rightarrow>
              let stored = \<lparr>sg_holder = holder, sg_token = token, sg_grantedAt = now, sg_expiresAt = expiresAt\<rparr> in
              (s1\<lparr>cs_grants := (cs_grants s1)(a \<mapsto> stored)\<rparr>, Inr (Granted (toGrant a stored))))"

definition renew ::
  "lease_grant \<Rightarrow> int \<Rightarrow> coordinated_store \<Rightarrow> coordinated_store \<times> renew_outcome result" where
  "renew g now s0 = (let a = lg_assetId g in
     case live a now s0 of
       (s, None) \<Rightarrow> (s, Inr (Lost None))
     | (s, Some held) \<Rightarrow>
         if sg_token held \<noteq> lg_token g \<or> sg_holder held \<noteq> lg_holder g
         then (s, Inr (Lost (Some (toGrant a held))))
         else (case epochMillis (js_add (num now) (cs_termMs s)) of
             Inl e \<Rightarrow> (s, Inl e)
           | Inr expiresAt \<Rightarrow>
               let stored = held\<lparr>sg_expiresAt := expiresAt\<rparr> in
               (s\<lparr>cs_grants := (cs_grants s)(a \<mapsto> stored)\<rparr>, Inr (Renewed (toGrant a stored)))))"

definition release :: "lease_grant \<Rightarrow> int \<Rightarrow> coordinated_store \<Rightarrow> coordinated_store" where
  "release g now s0 = (case live (lg_assetId g) now s0 of
     (s, Some held) \<Rightarrow> if sg_token held = lg_token g \<and> sg_holder held = lg_holder g
         then s\<lparr>cs_grants := (cs_grants s)(lg_assetId g := None)\<rparr> else s
   | (s, None) \<Rightarrow> s)"

definition inspect :: "string \<Rightarrow> int \<Rightarrow> coordinated_store \<Rightarrow> coordinated_store \<times> lease_grant option" where
  "inspect a now s0 = (case live a now s0 of (s, held) \<Rightarrow> (s, map_option (toGrant a) held))"

section \<open>Fenced writes\<close>

definition fenceRefusal ::
  "string \<Rightarrow> int \<Rightarrow> int \<Rightarrow> coordinated_store \<Rightarrow> coordinated_store \<times> js_error option" where
  "fenceRefusal a token now s = (case cs_grants s a of
     None \<Rightarrow> (s, Some (StaleFence token None))
   | Some g \<Rightarrow>
       if sg_expiresAt g \<le> now
       then (s\<lparr>cs_grants := (cs_grants s)(a := None)\<rparr>, Some (StaleFence token (Some (sg_token g))))
       else if sg_token g \<noteq> token then (s, Some (StaleFence token (Some (sg_token g))))
       else (s, None))"

definition recordFor :: "string \<Rightarrow> coordinated_store \<Rightarrow> record_state" where
  "recordFor a s = (case cs_record s a of None \<Rightarrow> empty_record | Some st \<Rightarrow> st)"

definition saveFenced ::
  "string \<Rightarrow> json \<Rightarrow> int \<Rightarrow> int \<Rightarrow> coordinated_store \<Rightarrow> coordinated_store \<times> unit result" where
  "saveFenced a record token now s0 = (case fenceRefusal a token now s0 of
     (s, Some e) \<Rightarrow> (s, Inl e)
   | (s, None) \<Rightarrow> (s\<lparr>cs_records := AList.update a (json_image record) (cs_records s)\<rparr>, Inr ()))"

text \<open>Both writers put the asset's record in the table before they check what they were given.\<close>

definition appendTicks ::
  "string \<Rightarrow> int \<Rightarrow> tick list \<Rightarrow> int \<Rightarrow> coordinated_store \<Rightarrow> coordinated_store \<times> unit result" where
  "appendTicks a token ticks now s0 = (case fenceRefusal a token now s0 of
     (s, Some e) \<Rightarrow> (s, Inl e)
   | (s, None) \<Rightarrow>
       if length ticks = 0 then (s, Inr ())
       else case malformedBatch ticks of
         Some e \<Rightarrow> (s, Inl e)
       | None \<Rightarrow>
           (case append_record ticks (recordFor a s) of
              Inl e \<Rightarrow> (s\<lparr>cs_record := (cs_record s)(a \<mapsto> recordFor a s)\<rparr>, Inl e)
            | Inr state \<Rightarrow> (s\<lparr>cs_record := (cs_record s)(a \<mapsto> state)\<rparr>, Inr ())))"

definition recordSeam ::
  "string \<Rightarrow> int \<Rightarrow> seam_marker \<Rightarrow> int \<Rightarrow> coordinated_store \<Rightarrow> coordinated_store \<times> unit result" where
  "recordSeam a token seam now s0 = (case fenceRefusal a token now s0 of
     (s, Some e) \<Rightarrow> (s, Inl e)
   | (s, None) \<Rightarrow>
       (case seam_record a seam (recordFor a s) of
          Inl e \<Rightarrow> (s\<lparr>cs_record := (cs_record s)(a \<mapsto> recordFor a s)\<rparr>, Inl e)
        | Inr state \<Rightarrow> (s\<lparr>cs_record := (cs_record s)(a \<mapsto> state)\<rparr>, Inr ())))"

definition readRecord :: "string \<Rightarrow> jsnum \<Rightarrow> jsnum \<Rightarrow> coordinated_store \<Rightarrow> record_entry list result" where
  "readRecord a fromSequence limit s = read_entries (cs_record s a) fromSequence limit"

definition recordHead :: "string \<Rightarrow> coordinated_store \<Rightarrow> int option" where
  "recordHead a s = (case cs_record s a of None \<Rightarrow> None | Some st \<Rightarrow> rc_head st)"

definition record_seams :: "string \<Rightarrow> coordinated_store \<Rightarrow> seam_marker list" where
  "record_seams a s = (case cs_record s a of None \<Rightarrow> [] | Some st \<Rightarrow> seams_of (rc_entries st))"

section \<open>Unfenced state\<close>

definition save :: "string \<Rightarrow> json \<Rightarrow> coordinated_store \<Rightarrow> coordinated_store" where
  "save a record s = s\<lparr>cs_records := AList.update a (json_image record) (cs_records s)\<rparr>"

definition load :: "string \<Rightarrow> coordinated_store \<Rightarrow> json option result" where
  "load a s = (case map_of (cs_records s) a of
     None \<Rightarrow> Inr None
   | Some (JObj fs) \<Rightarrow> Inr (Some (JObj fs))
   | Some _ \<Rightarrow> Inl (CorruptRecord a))"

definition list_assets :: "coordinated_store \<Rightarrow> string list" where
  "list_assets s = sort (map fst (cs_records s))"

section \<open>The holder's handle\<close>

text \<open>\<^verbatim>\<open>AssetLease\<close> over any store: the store's operations are arguments.\<close>

record asset_lease =
  al_grant :: lease_grant
  al_lost :: bool

definition lease_acquire ::
  "('s \<Rightarrow> 's \<times> acquire_outcome result) \<Rightarrow> 's \<Rightarrow> 's \<times> (lease_grant + asset_lease) result" where
  "lease_acquire store_acquire s0 = (case store_acquire s0 of
     (s, Inl e) \<Rightarrow> (s, Inl e)
   | (s, Inr (Held by)) \<Rightarrow> (s, Inr (Inl by))
   | (s, Inr (Granted g)) \<Rightarrow> (s, Inr (Inr \<lparr>al_grant = g, al_lost = False\<rparr>)))"

definition lease_renew ::
  "(lease_grant \<Rightarrow> 's \<Rightarrow> 's \<times> renew_outcome result) \<Rightarrow> asset_lease \<Rightarrow> 's \<Rightarrow> 's \<times> asset_lease \<times> bool result" where
  "lease_renew store_renew l s0 =
     (if al_lost l then (s0, l, Inr False)
      else case store_renew (al_grant l) s0 of
        (s, Inl e) \<Rightarrow> (s, l, Inl e)
      | (s, Inr (Lost _)) \<Rightarrow> (s, l\<lparr>al_lost := True\<rparr>, Inr False)
      | (s, Inr (Renewed g)) \<Rightarrow> (s, l\<lparr>al_grant := g\<rparr>, Inr True))"

definition lease_release :: "(lease_grant \<Rightarrow> 's \<Rightarrow> 's) \<Rightarrow> asset_lease \<Rightarrow> 's \<Rightarrow> 's \<times> asset_lease" where
  "lease_release store_release l s =
     (if al_lost l then (s, l) else (store_release (al_grant l) s, l\<lparr>al_lost := True\<rparr>))"

section \<open>Steps of the store\<close>

text \<open>Any operation by anyone, at any reading of the clock.\<close>

inductive store_step :: "coordinated_store \<Rightarrow> coordinated_store \<Rightarrow> bool" where
  "store_step s (fst (acquire a holder now s))"
| "store_step s (fst (renew g now s))"
| "store_step s (release g now s)"
| "store_step s (fst (inspect a now s))"
| "store_step s (fst (saveFenced a r token now s))"
| "store_step s (fst (appendTicks a token ticks now s))"
| "store_step s (fst (recordSeam a token seam now s))"
| "store_step s (save a r s)"

abbreviation store_steps :: "coordinated_store \<Rightarrow> coordinated_store \<Rightarrow> bool" where
  "store_steps \<equiv> store_step\<^sup>*\<^sup>*"

definition high :: "coordinated_store \<Rightarrow> string \<Rightarrow> int" where
  "high s a = (case cs_highWater s a of None \<Rightarrow> 0 | Some t \<Rightarrow> t)"

definition store_ok :: "coordinated_store \<Rightarrow> bool" where
  "store_ok s \<longleftrightarrow> (\<forall>a g. cs_grants s a = Some g \<longrightarrow> cs_highWater s a = Some (sg_token g)) \<and>
     (\<forall>a st. cs_record s a = Some st \<longrightarrow> record_ok st)"

text \<open>What an operation may do to grants, tokens and records.\<close>

definition forward :: "coordinated_store \<Rightarrow> coordinated_store \<Rightarrow> bool" where
  "forward s s' \<longleftrightarrow> (store_ok s \<longrightarrow> store_ok s') \<and> (\<forall>a. high s a \<le> high s' a) \<and>
     (store_ok s \<longrightarrow> (\<forall>a. prefix (rc_entries (recordFor a s)) (rc_entries (recordFor a s'))))"

lemma forward_refl [simp]: "forward s s"
  by (simp add: forward_def)

lemma forward_trans: "forward s t \<Longrightarrow> forward t u \<Longrightarrow> forward s u"
  unfolding forward_def by (meson order_trans prefix_order.order_trans)

lemma recordFor_ok: "store_ok s \<Longrightarrow> record_ok (recordFor a s)"
  by (auto simp: recordFor_def store_ok_def empty_record_ok split: option.splits)

lemma forward_drop: "forward s (s\<lparr>cs_grants := (cs_grants s)(a := None)\<rparr>)"
  by (auto simp: forward_def store_ok_def high_def recordFor_def)

lemma forward_records: "forward s (s\<lparr>cs_records := r\<rparr>)"
  by (auto simp: forward_def store_ok_def high_def recordFor_def)

lemma forward_live: "forward s (fst (live a now s))"
  by (auto simp: live_def forward_drop split: option.splits)

lemma forward_fence: "forward s (fst (fenceRefusal a token now s))"
  by (auto simp: fenceRefusal_def forward_drop split: option.splits)

lemma live_result:
  assumes "live a now s0 = (s, g)"
  shows "forward s0 s" "cs_highWater s = cs_highWater s0" "cs_grants s a = g" "cs_record s = cs_record s0"
    "g = None \<or> cs_grants s0 a = g" "case g of None \<Rightarrow> True | Some h \<Rightarrow> now < sg_expiresAt h"
  using assms forward_live [of s0 a now] by (auto simp: live_def split: option.splits if_splits)

lemma forward_acquire: "forward s0 (fst (acquire a holder now s0))"
proof (cases "live a now s0")
  case (Pair s g)
  note l = live_result [OF Pair]
  show ?thesis
  proof (cases "\<not> isUsableHolder holder \<or> g \<noteq> None")
    case True
    with l(1) show ?thesis by (auto simp: acquire_def Pair)
  next
    case False
    let ?t = "(case cs_highWater s a of None \<Rightarrow> 0 | Some t \<Rightarrow> t) + 1"
    let ?s1 = "s\<lparr>cs_highWater := (cs_highWater s)(a \<mapsto> ?t)\<rparr>"
    have n: "cs_grants s a = None" using l(3) False by simp
    then have 1: "forward s ?s1"
      by (auto simp: forward_def store_ok_def high_def recordFor_def split: option.splits)
    moreover have "sg_token g' = ?t \<Longrightarrow> forward s (?s1\<lparr>cs_grants := (cs_grants ?s1)(a \<mapsto> g')\<rparr>)" for g'
      using n by (auto simp: forward_def store_ok_def high_def recordFor_def split: option.splits)
    ultimately have "forward s (fst (acquire a holder now s0))"
      using False by (auto simp: acquire_def Pair Let_def split: sum.splits)
    with l(1) show ?thesis by (rule forward_trans)
  qed
qed

lemma forward_renew: "forward s0 (fst (renew g now s0))"
proof (cases "live (lg_assetId g) now s0")
  case (Pair s held)
  note l = live_result [OF Pair]
  have "forward s (s\<lparr>cs_grants := (cs_grants s)(lg_assetId g \<mapsto> h\<lparr>sg_expiresAt := x\<rparr>)\<rparr>)" if "held = Some h" for h x
    using l(3) that by (auto simp: forward_def store_ok_def high_def recordFor_def split: option.splits)
  then have "forward s (fst (renew g now s0))"
    by (auto simp: renew_def Pair Let_def split: option.splits sum.splits)
  with l(1) show ?thesis by (rule forward_trans)
qed

lemma forward_release: "forward s0 (release g now s0)"
proof (cases "live (lg_assetId g) now s0")
  case (Pair s held)
  then have "forward s (release g now s0)" by (auto simp: release_def forward_drop split: option.splits)
  with live_result(1) [OF Pair] show ?thesis by (rule forward_trans)
qed

lemma forward_put:
  assumes "store_ok s \<Longrightarrow> record_ok st \<and> prefix (rc_entries (recordFor a s)) (rc_entries st)"
  shows "forward s (s\<lparr>cs_record := (cs_record s)(a \<mapsto> st)\<rparr>)"
  using assms by (auto simp: forward_def store_ok_def high_def recordFor_def)

lemma forward_append: "forward s0 (fst (appendTicks a token ticks now s0))"
proof (cases "fenceRefusal a token now s0")
  case (Pair s e)
  have "forward s (fst (appendTicks a token ticks now s0))"
  proof (cases "append_record ticks (recordFor a s)")
    case (Inl e')
    then show ?thesis
      by (auto simp: appendTicks_def Pair recordFor_ok intro!: forward_put split: option.splits)
  next
    case (Inr st)
    have "store_ok s \<Longrightarrow> record_ok st \<and> prefix (rc_entries (recordFor a s)) (rc_entries st)"
      using append_record_ok [OF recordFor_ok Inr] by auto
    with Inr show ?thesis by (auto simp: appendTicks_def Pair intro!: forward_put split: option.splits)
  qed
  with forward_fence [of s0 a token now] Pair show ?thesis using forward_trans by auto
qed

lemma forward_seam: "forward s0 (fst (recordSeam a token seam now s0))"
proof (cases "fenceRefusal a token now s0")
  case (Pair s e)
  have "forward s (fst (recordSeam a token seam now s0))"
  proof (cases "seam_record a seam (recordFor a s)")
    case (Inl e')
    then show ?thesis
      by (auto simp: recordSeam_def Pair recordFor_ok intro!: forward_put split: option.splits)
  next
    case (Inr st)
    have "store_ok s \<Longrightarrow> record_ok st \<and> prefix (rc_entries (recordFor a s)) (rc_entries st)"
      using seam_record_ok [OF recordFor_ok Inr] by auto
    with Inr show ?thesis by (auto simp: recordSeam_def Pair intro!: forward_put split: option.splits)
  qed
  with forward_fence [of s0 a token now] Pair show ?thesis using forward_trans by auto
qed

lemma store_step_forward: "store_step s s' \<Longrightarrow> forward s s'"
proof (induction rule: store_step.induct)
  case (5 s a r token now)
  then show ?case using forward_fence [of s a token now]
    by (auto simp: saveFenced_def split: option.splits prod.splits intro: forward_trans forward_records)
qed (auto simp: forward_acquire forward_renew forward_release forward_append forward_seam inspect_def save_def
  forward_records split: prod.splits intro: live_result(1))

lemma store_steps_forward: "store_steps s s' \<Longrightarrow> forward s s'"
  by (induction rule: rtranclp_induct) (auto intro: forward_trans store_step_forward)

lemma new_store_ok: "new_store term = Inr s \<Longrightarrow> store_ok s"
  by (auto simp: new_store_def store_ok_def Let_def split: if_splits)

section \<open>Fencing\<close>

text \<open>What a store of leases promises its clients: tokens only grow, an acquisition takes the
  next one, and a write passes only under the newest.\<close>

locale fencing =
  fixes ok :: "'s \<Rightarrow> bool"
    and step :: "'s \<Rightarrow> 's \<Rightarrow> bool"
    and newest :: "'s \<Rightarrow> 'a \<Rightarrow> int"
    and grants :: "'s \<Rightarrow> 'a \<Rightarrow> int \<Rightarrow> 's \<Rightarrow> bool"
    and writes :: "'s \<Rightarrow> 'a \<Rightarrow> int \<Rightarrow> bool"
  assumes step_ok: "ok s \<Longrightarrow> step s s' \<Longrightarrow> ok s' \<and> newest s a \<le> newest s' a"
    and grants_next: "ok s \<Longrightarrow> grants s a t s' \<Longrightarrow> step s s' \<and> newest s a < t \<and> newest s' a = t"
    and writes_newest: "ok s \<Longrightarrow> writes s a t \<Longrightarrow> t = newest s a"
begin

lemma steps_ok: "step\<^sup>*\<^sup>* s s' \<Longrightarrow> ok s \<Longrightarrow> ok s' \<and> newest s a \<le> newest s' a"
  by (induction rule: rtranclp_induct) (auto dest: step_ok intro: order_trans)

lemma grant_ok: "ok s \<Longrightarrow> grants s a t s' \<Longrightarrow> ok s' \<and> newest s' a = t"
  using step_ok grants_next by blast

lemma tokens_increase:
  assumes "ok s" "grants s a t s1" "step\<^sup>*\<^sup>* s1 s2" "grants s2 a t' s3"
  shows "t < t'"
  using grant_ok [OF assms(1,2)] steps_ok [OF assms(3), of a] grants_next [OF _ assms(4)] by force

lemma superseded:
  assumes "ok s" "grants s a t s1" "step\<^sup>*\<^sup>* s1 s2" "grants s2 a t' s3" "step\<^sup>*\<^sup>* s3 s4"
  shows "\<not> writes s4 a t"
proof
  assume w: "writes s4 a t"
  have s2: "ok s2" using grant_ok [OF assms(1,2)] steps_ok [OF assms(3)] by blast
  then have "ok s3" "newest s3 a = t'" using grant_ok [OF s2 assms(4)] by auto
  then have "ok s4" "t' \<le> newest s4 a" using steps_ok [OF assms(5), of a] by auto
  then have "t' \<le> t" using writes_newest [OF _ w] by simp
  with tokens_increase [OF assms(1-4)] show False by simp
qed

end

definition granted :: "coordinated_store \<Rightarrow> string \<Rightarrow> int \<Rightarrow> coordinated_store \<Rightarrow> bool" where
  "granted s a t s' \<longleftrightarrow> (\<exists>holder now g. acquire a holder now s = (s', Inr (Granted g)) \<and> lg_token g = t)"

definition admitted :: "coordinated_store \<Rightarrow> string \<Rightarrow> int \<Rightarrow> bool" where
  "admitted s a t \<longleftrightarrow> (\<exists>now. snd (fenceRefusal a t now s) = None)"

lemma admitted_grant:
  "fenceRefusal a t now s = (s', None) \<longleftrightarrow> s' = s \<and> (\<exists>g. cs_grants s a = Some g \<and> sg_token g = t \<and> now < sg_expiresAt g)"
  by (auto simp: fenceRefusal_def split: option.splits)

lemma acquire_granted:
  assumes "acquire a holder now s0 = (s', Inr (Granted g))"
  shows "lg_token g = high s0 a + 1" "high s' a = lg_token g"
    "cs_grants s' a = Some \<lparr>sg_holder = holder, sg_token = lg_token g, sg_grantedAt = now, sg_expiresAt = lg_expiresAt g\<rparr>"
proof -
  have l: "live a now s0 = (fst (live a now s0), snd (live a now s0))" by simp
  note r = live_result [OF l]
  from assms show "lg_token g = high s0 a + 1" "high s' a = lg_token g"
    "cs_grants s' a = Some \<lparr>sg_holder = holder, sg_token = lg_token g, sg_grantedAt = now, sg_expiresAt = lg_expiresAt g\<rparr>"
    using r(2) by (auto simp: acquire_def toGrant_def Let_def high_def split: if_splits prod.splits option.splits sum.splits)
qed

interpretation memory_store: fencing store_ok store_step high granted admitted
proof
  fix s s' a assume "store_ok s" "store_step s s'"
  then show "store_ok s' \<and> high s a \<le> high s' a"
    using store_step_forward [of s s'] by (simp add: forward_def)
next
  fix s a t s' assume "store_ok s" "granted s a t s'"
  then obtain holder now g where g: "acquire a holder now s = (s', Inr (Granted g))" "lg_token g = t"
    by (auto simp: granted_def)
  then have "store_step s s'" using store_step.intros(1) [of s a holder now] by simp
  with acquire_granted [OF g(1)] g(2) show "store_step s s' \<and> high s a < t \<and> high s' a = t" by simp
next
  fix s a t assume "store_ok s" "admitted s a t"
  then obtain now where "snd (fenceRefusal a t now s) = None" by (auto simp: admitted_def)
  then obtain s' where "fenceRefusal a t now s = (s', None)" by (cases "fenceRefusal a t now s") auto
  with \<open>store_ok s\<close> show "t = high s a" by (auto simp: admitted_grant store_ok_def high_def)
qed

section \<open>What the store promises\<close>

lemma refused_write:
  assumes "\<not> admitted s a t"
  shows "\<exists>e. snd (appendTicks a t ticks now s) = Inl e" "\<exists>e. snd (recordSeam a t seam now s) = Inl e"
    "\<exists>e. snd (saveFenced a r t now s) = Inl e"
    "cs_record (fst (appendTicks a t ticks now s)) = cs_record s"
    "cs_record (fst (recordSeam a t seam now s)) = cs_record s"
    "cs_records (fst (saveFenced a r t now s)) = cs_records s"
proof -
  obtain s' e where f: "fenceRefusal a t now s = (s', Some e)"
    using assms unfolding admitted_def by (metis not_None_eq prod.collapse)
  then have "cs_record s' = cs_record s" "cs_records s' = cs_records s"
    by (auto simp: fenceRefusal_def split: option.splits if_splits)
  with f show "\<exists>e. snd (appendTicks a t ticks now s) = Inl e" "\<exists>e. snd (recordSeam a t seam now s) = Inl e"
    "\<exists>e. snd (saveFenced a r t now s) = Inl e"
    "cs_record (fst (appendTicks a t ticks now s)) = cs_record s"
    "cs_record (fst (recordSeam a t seam now s)) = cs_record s"
    "cs_records (fst (saveFenced a r t now s)) = cs_records s"
    by (simp_all add: appendTicks_def recordSeam_def saveFenced_def)
qed

text \<open>C20: a leader that has been replaced can never write again. Once a second grant of an asset
  has been made, by whatever holder and however the clock reads, every append, seam and save under
  the first grant's token is refused and leaves the record and the saved state as they were.\<close>

theorem superseded_leader_never_writes:
  assumes "new_store term = Inr s0" "store_steps s0 s"
    and "acquire a holder t1 s = (s1, Inr (Granted g))" "store_steps s1 s2"
    and "acquire a holder' t2 s2 = (s3, Inr (Granted g'))" "store_steps s3 s4"
  shows "lg_token g < lg_token g' \<and>
    (\<exists>s5 e. appendTicks a (lg_token g) ticks now s4 = (s5, Inl e) \<and> cs_record s5 = cs_record s4) \<and>
    (\<exists>s5 e. recordSeam a (lg_token g) seam now s4 = (s5, Inl e) \<and> cs_record s5 = cs_record s4) \<and>
    (\<exists>s5 e. saveFenced a r (lg_token g) now s4 = (s5, Inl e) \<and> cs_records s5 = cs_records s4)"
proof -
  have ok: "store_ok s" using new_store_ok [OF assms(1)] store_steps_forward [OF assms(2)] by (simp add: forward_def)
  have g: "granted s a (lg_token g) s1" "granted s2 a (lg_token g') s3"
    using assms(3,5) by (auto simp: granted_def)
  note n = memory_store.superseded [OF ok g(1) assms(4) g(2) assms(6)]
  from refused_write(1,4) [OF n, of ticks now] refused_write(2,5) [OF n, of seam now] refused_write(3,6) [OF n, of r now]
    memory_store.tokens_increase [OF ok g(1) assms(4) g(2)]
  show ?thesis by (metis prod.collapse)
qed

text \<open>C21: the record is only ever extended. From any state of the store to any later one, each
  asset's entries are a prefix of the later entries, and two ticks recorded at one sequence, at
  whatever times, are the same tick: no interleaving of leaders, restarts and replays forks it.\<close>

theorem record_never_forks:
  assumes "new_store term = Inr s0" "store_steps s0 s" "store_steps s s'"
  shows "prefix (rc_entries (recordFor a s)) (rc_entries (recordFor a s')) \<and>
    sorted_wrt (<) (map sequence (ticks_of (rc_entries (recordFor a s')))) \<and>
    (\<nexists>t u. TickE t \<in> set (rc_entries (recordFor a s)) \<and> TickE u \<in> set (rc_entries (recordFor a s')) \<and>
      sequence t = sequence u \<and> t \<noteq> u)"
proof -
  have ok: "store_ok s" "store_ok s'" and p: "prefix (rc_entries (recordFor a s)) (rc_entries (recordFor a s'))"
    using new_store_ok [OF assms(1)] store_steps_forward [OF assms(2)] store_steps_forward [OF assms(3)]
    by (auto simp: forward_def)
  let ?ts = "ticks_of (rc_entries (recordFor a s'))"
  have s: "sorted_wrt (<) (map sequence ?ts)" using record_sorted(2) [OF recordFor_ok [OF ok(2)]] .
  then have "inj_on sequence (set ?ts)"
    by (metis distinct_map strict_sorted_iff)
  moreover have "set (rc_entries (recordFor a s)) \<subseteq> set (rc_entries (recordFor a s'))"
    using p by (rule set_mono_prefix)
  ultimately show ?thesis using p s by (auto simp: inj_on_def set_ticks_of)
qed

text \<open> replaying is safe. Once a batch has been appended, whoever leads later may append it again,
  as the resume path does: it is accepted and changes nothing.\<close>

theorem appendTicks_replay:
  assumes "new_store term = Inr s0" "store_steps s0 s"
    and "appendTicks a token ticks now s = (s1, Inr ())" "store_steps s1 s2"
    and "cs_grants s2 a = Some g" "now' < sg_expiresAt g"
  shows "appendTicks a (sg_token g) ticks now' s2 = (s2, Inr ())"
proof (cases "ticks = []")
  case True
  with assms(5,6) show ?thesis by (simp add: appendTicks_def fenceRefusal_def)
next
  case False
  obtain s' where f: "fenceRefusal a token now s = (s', None)"
    using assms(3) by (cases "fenceRefusal a token now s"; cases "snd (fenceRefusal a token now s)")
      (auto simp: appendTicks_def)
  then have s': "s' = s" by (simp add: admitted_grant)
  obtain st where st: "append_record ticks (recordFor a s) = Inr st" "s1 = s\<lparr>cs_record := (cs_record s)(a \<mapsto> st)\<rparr>"
    using assms(3) False by (auto simp: appendTicks_def f s' split: option.splits sum.splits)
  have ok: "store_ok s" "store_ok s2" and p: "prefix (rc_entries (recordFor a s1)) (rc_entries (recordFor a s2))"
    using new_store_ok [OF assms(1)] store_steps_forward [OF assms(2)] store_steps_forward [OF assms(4)]
      store_step_forward [OF store_step.intros(6) [of s a token ticks now]] assms(3)
    by (auto simp: forward_def)
  have "\<forall>t \<in> set ticks. TickE t \<in> set (rc_entries (recordFor a s2))"
    using append_record_ok(3) [OF recordFor_ok [OF ok(1)] st(1)] set_mono_prefix [OF p]
    by (auto simp: st(2) recordFor_def)
  moreover have m: "malformedBatch ticks = None"
    using st(1) by (auto simp: append_record_def split: option.splits)
  ultimately have r: "append_record ticks (recordFor a s2) = Inr (recordFor a s2)"
    using append_record_replay [OF recordFor_ok [OF ok(2)]] by blast
  have "rc_entries (recordFor a s2) \<noteq> []"
    using \<open>\<forall>t \<in> set ticks. _\<close> False by (cases ticks) auto
  then have "cs_record s2 a = Some (recordFor a s2)"
    by (auto simp: recordFor_def empty_record_def split: option.splits)
  then have "s2\<lparr>cs_record := (cs_record s2)(a \<mapsto> recordFor a s2)\<rparr> = s2"
    by (simp add: fun_upd_idem)
  with assms(5,6) r m False show ?thesis by (simp add: appendTicks_def fenceRefusal_def)
qed

text \<open> one leader at a time. A write passes exactly under the token of a grant the store still
  holds unexpired at its own clock; at such a reading every acquisition, the holder's included, is
  answered with the grant that stands, and nobody else's token writes.\<close>

theorem one_leader:
  assumes "new_store term = Inr s0" "store_steps s0 s" "ticks \<noteq> []"
    and "appendTicks a token ticks now s = (s1, Inr ())"
  shows "\<exists>g. cs_grants s a = Some g \<and> sg_token g = token \<and> now < sg_expiresAt g \<and>
    (isUsableHolder holder \<longrightarrow> acquire a holder now s = (s, Inr (Held (toGrant a g)))) \<and>
    (token' \<noteq> token \<longrightarrow> appendTicks a token' batch now s = (s, Inl (StaleFence token' (Some token))))"
proof -
  obtain s' where "fenceRefusal a token now s = (s', None)"
    using assms(4) by (cases "fenceRefusal a token now s"; cases "snd (fenceRefusal a token now s)")
      (auto simp: appendTicks_def)
  then obtain g where "cs_grants s a = Some g" "sg_token g = token" "now < sg_expiresAt g"
    by (auto simp: admitted_grant)
  then show ?thesis
    by (auto simp: acquire_def live_def appendTicks_def fenceRefusal_def)
qed

section \<open>Two leaders on one asset\<close>

text \<open>A store, a leader, and the one that takes over when its term has run out.\<close>

definition demo_store :: coordinated_store where
  "demo_store = \<lparr>cs_grants = Map.empty, cs_record = Map.empty, cs_highWater = Map.empty, cs_records = [],
       cs_termMs = num 15000\<rparr>"

definition demo_batch :: "tick list" where
  "demo_batch = [\<lparr>instant = 10, sequence = 1, price = 7\<rparr>, \<lparr>instant = 12, sequence = 2, price = 8\<rparr>]"

definition demo_led :: coordinated_store where "demo_led = fst (acquire ''A'' ''n1'' 0 demo_store)"
definition demo_written :: coordinated_store where "demo_written = fst (appendTicks ''A'' 1 demo_batch 5 demo_led)"
definition demo_taken :: coordinated_store where "demo_taken = fst (acquire ''A'' ''n2'' 15000 demo_written)"

lemma demo_new: "new_store None = Inr demo_store"
  by (simp add: new_store_def demo_store_def DEFAULT_LEASE_TERM_MS_def)

lemma demo_expiry: "epochMillis (js_add (num 0) (num 15000)) = Inr 15000"
  "epochMillis (js_add (num 15000) (num 15000)) = Inr 30000"
  by (simp_all add: js_add_num epochMillis_num valid_instant_def MAX_EPOCH_MILLIS_def)

lemma demo_led_eq: "demo_led = demo_store\<lparr>cs_grants := [''A'' \<mapsto> \<lparr>sg_holder = ''n1'', sg_token = 1, sg_grantedAt = 0, sg_expiresAt = 15000\<rparr>],
    cs_highWater := [''A'' \<mapsto> 1]\<rparr>"
  "acquire ''A'' ''n1'' 0 demo_store = (demo_led, Inr (Granted \<lparr>lg_assetId = ''A'', lg_holder = ''n1'', lg_token = 1, lg_grantedAt = 0, lg_expiresAt = 15000\<rparr>))"
  by (simp_all add: demo_led_def acquire_def demo_store_def isUsableHolder_def live_def Let_def demo_expiry toGrant_def)

lemma demo_written_eq:
  "appendTicks ''A'' 1 demo_batch 5 demo_led = (demo_written, Inr ())"
  "cs_grants demo_written = cs_grants demo_led" "cs_highWater demo_written = [''A'' \<mapsto> 1]"
  "cs_termMs demo_written = num 15000" "rc_entries (recordFor ''A'' demo_written) = map TickE demo_batch"
  "rc_head (recordFor ''A'' demo_written) = Some 2"
  by (simp_all add: demo_written_def appendTicks_def demo_led_eq demo_store_def fenceRefusal_def demo_batch_def
    append_record_def recordFor_def empty_record_def push_tick_def)

lemma demo_taken_eq:
  "acquire ''A'' ''n2'' 15000 demo_written = (demo_taken, Inr (Granted \<lparr>lg_assetId = ''A'', lg_holder = ''n2'', lg_token = 2, lg_grantedAt = 15000, lg_expiresAt = 30000\<rparr>))"
  "cs_grants demo_taken ''A'' = Some \<lparr>sg_holder = ''n2'', sg_token = 2, sg_grantedAt = 15000, sg_expiresAt = 30000\<rparr>"
  by (simp_all add: demo_taken_def acquire_def isUsableHolder_def live_def Let_def demo_expiry toGrant_def
    demo_written_eq demo_led_eq)

lemma demo_steps: "store_steps demo_store demo_led" "store_steps demo_led demo_written" "store_steps demo_written demo_taken"
  using store_step.intros(1) [of demo_store "''A''" "''n1''" 0] store_step.intros(1) [of demo_written "''A''" "''n2''" 15000]
    store_step.intros(6) [of demo_led "''A''" 1 demo_batch 5]
  by (auto simp: demo_led_def demo_written_def demo_taken_def)

theorem superseded_leader_never_writes_witness:
  "\<exists>s5 e. appendTicks ''A'' 1 demo_batch 15001 demo_taken = (s5, Inl e) \<and> cs_record s5 = cs_record demo_taken"
  using superseded_leader_never_writes [OF demo_new rtranclp.rtrancl_refl demo_led_eq(2) demo_steps(2) demo_taken_eq(1)
    rtranclp.rtrancl_refl] by auto

theorem record_never_forks_witness:
  "prefix (map TickE demo_batch) (rc_entries (recordFor ''A'' demo_taken))"
  using record_never_forks [OF demo_new rtranclp_trans [OF demo_steps(1,2)] demo_steps(3), of "''A''"]
  by (simp add: demo_written_eq)

theorem appendTicks_replay_witness:
  "appendTicks ''A'' 2 demo_batch 15001 demo_taken = (demo_taken, Inr ())"
  using appendTicks_replay [OF demo_new demo_steps(1) demo_written_eq(1) demo_steps(3) demo_taken_eq(2), of 15001] by simp

theorem one_leader_witness:
  "acquire ''A'' ''n2'' 5 demo_led = (demo_led, Inr (Held (toGrant ''A''
     \<lparr>sg_holder = ''n1'', sg_token = 1, sg_grantedAt = 0, sg_expiresAt = 15000\<rparr>)))"
proof -
  have "demo_batch \<noteq> []" "isUsableHolder ''n2''" by (simp_all add: demo_batch_def isUsableHolder_def)
  with one_leader [OF demo_new demo_steps(1) _ demo_written_eq(1), of "''n2''" 1 "[]"] show ?thesis
    by (auto simp: demo_led_eq(1))
qed

section \<open>A term that is not a whole number\<close>

text \<open>The constructor accepts any positive finite term, but every acquisition under one that is not
  a whole number of milliseconds throws out of the method that promises to reject, after the next
  token has been taken: the asset can never be led and its tokens are spent.\<close>

lemma fractional_term_never_leads:
  assumes "\<not> isInteger (js_add (num now) term)" "isUsableHolder holder" "isFinite term" "js_lt (num 0) term"
  shows "\<exists>s s'. new_store (Some term) = Inr s \<and> acquire a holder now s = (s', Inl (RangeError ''epochMillis'')) \<and>
    high s' a = 1"
proof -
  have "epochMillis (js_add (num now) term) = Inl (RangeError ''epochMillis'')"
    using assms(1) by (simp add: epochMillis_def isValidEpochMillis_def)
  moreover have "\<not> js_le term (num 0)" using assms(4) by (cases "term") (auto simp: num_def js_le_def js_eq_def)
  ultimately show ?thesis
    using assms by (simp add: new_store_def acquire_def live_def Let_def high_def)
qed

end
