(* ===== verification/Follower.thy ===== *)
theory Follower
  imports LeaseStore
begin

text \<open>
  A node's view of an asset it does not lead: packages/runtime/src/follower.ts. A follower pulls
  the record forward through the replication log alone, keeps a bounded tail of it and answers
  clients from that. The log is an argument; the theory ties it to the coordinated store.
\<close>

section \<open>State and operations\<close>

datatype serve_result =
    Entries "record_entry list"
  | Lagging "int option" int
  | Unknown int "int option"
  | ServeEvicted int int

record follower =
  fo_assetId :: string
  fo_retainTicks :: nat
  fo_entries :: "record_entry list"
  fo_history :: "tick list"
  fo_head :: "int option"
  fo_expectNext :: "jsnum option"
  fo_seams :: "seam_marker list"

definition DEFAULT_FOLLOWER_RETAIN_TICKS :: int where "DEFAULT_FOLLOWER_RETAIN_TICKS = 50000"

definition new_follower :: "string \<Rightarrow> jsnum option \<Rightarrow> follower result" where
  "new_follower a retainTicks =
     (let n = (case retainTicks of None \<Rightarrow> num DEFAULT_FOLLOWER_RETAIN_TICKS | Some v \<Rightarrow> v) in
      if \<not> isInteger n \<or> js_lt n (num 1) then Inl (RangeError ''retainTicks'')
      else Inr \<lparr>fo_assetId = a, fo_retainTicks = nat (int_of n), fo_entries = [], fo_history = [],
        fo_head = None, fo_expectNext = None, fo_seams = []\<rparr>)"

definition oldestRetained :: "follower \<Rightarrow> int option" where
  "oldestRetained f = (if length (fo_history f) = 0 then None else Some (sequence (fo_history f ! 0)))"

definition spansSeam :: "follower \<Rightarrow> int \<Rightarrow> int \<Rightarrow> bool" where
  "spansSeam f from to = list_ex (\<lambda>seam. case sm_lastInstant seam of None \<Rightarrow> False
     | Some l \<Rightarrow> from < sm_resumesAtInstant seam \<and> l < to) (fo_seams f)"

definition apply_seam :: "seam_marker \<Rightarrow> follower \<Rightarrow> follower result" where
  "apply_seam seam f =
     (if sm_lastSequence seam \<noteq> fo_head f
      then Inl (ReplicationGap (case fo_head f of None \<Rightarrow> 0 | Some h \<Rightarrow> h)
        (case sm_lastSequence seam of None \<Rightarrow> 0 | Some l \<Rightarrow> l))
      else Inr (f\<lparr>fo_seams := fo_seams f @ [seam], fo_entries := fo_entries f @ [SeamE seam],
        fo_expectNext := Some (sm_resumesAtSequence seam)\<rparr>))"

definition apply_tick :: "tick \<Rightarrow> follower \<Rightarrow> follower result" where
  "apply_tick tick f = (let expected = (case fo_expectNext f of None \<Rightarrow> num (sequence tick) | Some e \<Rightarrow> e) in
     if \<not> js_eq (num (sequence tick)) expected then Inl (ReplicationGap (int_of expected) (sequence tick))
     else Inr (f\<lparr>fo_entries := fo_entries f @ [TickE tick], fo_history := fo_history f @ [tick],
       fo_head := Some (sequence tick), fo_expectNext := Some (num (sequence tick + 1))\<rparr>))"

text \<open>A refusal leaves what was applied before it in place.\<close>

fun apply_loop :: "record_entry list \<Rightarrow> follower \<Rightarrow> follower \<times> unit result" where
  "apply_loop [] f = (f, Inr ())"
| "apply_loop (SeamE s # es) f = (case apply_seam s f of Inl e \<Rightarrow> (f, Inl e) | Inr f' \<Rightarrow> apply_loop es f')"
| "apply_loop (TickE t # es) f = (case apply_tick t f of Inl e \<Rightarrow> (f, Inl e) | Inr f' \<Rightarrow> apply_loop es f')"

definition kept_from :: "int \<Rightarrow> record_entry \<Rightarrow> bool" where
  "kept_from oldest e = (case e of TickE t \<Rightarrow> oldest \<le> sequence t
     | SeamE s \<Rightarrow> js_le (num oldest) (sm_resumesAtSequence s))"

definition evict_ticks :: "follower \<Rightarrow> follower" where
  "evict_ticks f =
     (if length (fo_history f) \<le> fo_retainTicks f then f
      else let history = drop (length (fo_history f) - fo_retainTicks f) (fo_history f);
               oldest = sequence (history ! 0) in
        f\<lparr>fo_history := history, fo_entries := dropWhile (\<lambda>e. \<not> kept_from oldest e) (fo_entries f)\<rparr>)"

definition apply_entries :: "record_entry list \<Rightarrow> follower \<Rightarrow> follower \<times> unit result" where
  "apply_entries entries f =
     (if length entries = 0 then (f, Inr ())
      else case apply_loop entries f of
        (f', Inl e) \<Rightarrow> (f', Inl e)
      | (f', Inr _) \<Rightarrow> (evict_ticks f', Inr ()))"

definition pull :: "(string \<Rightarrow> jsnum \<Rightarrow> jsnum \<Rightarrow> record_entry list result) \<Rightarrow> jsnum \<Rightarrow> follower \<Rightarrow> follower \<times> nat result" where
  "pull log_readRecord limit f =
     (case log_readRecord (fo_assetId f) (case fo_expectNext f of None \<Rightarrow> num 1 | Some e \<Rightarrow> e) limit of
        Inl e \<Rightarrow> (f, Inl e)
      | Inr entries \<Rightarrow>
          (case apply_entries entries f of
             (f', Inl e) \<Rightarrow> (f', Inl e)
           | (f', Inr _) \<Rightarrow> (f', Inr (length entries))))"

definition serve :: "jsnum \<Rightarrow> int option \<Rightarrow> follower \<Rightarrow> serve_result result" where
  "serve fromSequence record_head f =
     (if \<not> isInteger fromSequence \<or> js_lt fromSequence (num 1) then Inl (RangeError ''positive integer'')
      else let from = int_of fromSequence in
        case record_head of
          None \<Rightarrow> Inr (if from = 1 then Entries [] else Unknown from None)
        | Some rh \<Rightarrow>
            if rh + 1 < from then Inr (Unknown from (Some rh))
            else case fo_head f of
              None \<Rightarrow> Inr (Lagging None rh)
            | Some h \<Rightarrow>
                if h + 1 < from then Inr (Lagging (Some h) rh)
                else (case oldestRetained f of
                    Some oldest \<Rightarrow> if from < oldest then Inr (ServeEvicted from oldest)
                      else Inr (Entries (drop (lowerBound (fo_entries f) from) (fo_entries f)))
                  | None \<Rightarrow> Inr (Entries (drop (lowerBound (fo_entries f) from) (fo_entries f)))))"

fun price_walk :: "int \<Rightarrow> tick list \<Rightarrow> int option \<Rightarrow> int option" where
  "price_walk i [] answer = answer"
| "price_walk i (t # ts) answer = (if i < instant t then answer else price_walk i ts (Some (price t)))"

definition priceAt :: "follower \<Rightarrow> int \<Rightarrow> int option" where
  "priceAt f i =
     (if list_ex (\<lambda>seam. case sm_lastInstant seam of None \<Rightarrow> False
          | Some l \<Rightarrow> l < i \<and> i < sm_resumesAtInstant seam) (fo_seams f) then None
      else price_walk i (fo_history f) None)"

section \<open>The follower mirrors the record\<close>

text \<open>What a follower that keeps \<open>r\<close> ticks keeps of the entries it was given: all of them up to \<open>r\<close>
  ticks, and then those from the first one on that is a tick of the newest \<open>r\<close> or a seam that resumes
  at the oldest of these or later.\<close>

definition kept_entries :: "nat \<Rightarrow> record_entry list \<Rightarrow> record_entry list" where
  "kept_entries r es = (let ts = ticks_of es in
     if length ts \<le> r then es else dropWhile (\<lambda>e. \<not> kept_from (sequence (ts ! (length ts - r))) e) es)"

text \<open>The entries applied so far, and what the follower keeps of them.\<close>

definition follows :: "record_entry list \<Rightarrow> follower \<Rightarrow> bool" where
  "follows ap f \<longleftrightarrow> 0 < fo_retainTicks f \<and>
     (\<exists>e. walk ap (None, None) = Some (fo_head f, e) \<and> fo_expectNext f = map_option num e) \<and>
     fo_history f = drop (length (ticks_of ap) - fo_retainTicks f) (ticks_of ap) \<and>
     fo_seams f = seams_of ap \<and>
     (\<exists>k. fo_entries f = drop k ap \<and>
       (\<forall>x \<in> set (take k ap). \<exists>m. oldestRetained f = Some m \<and> entrySequence x < m)) \<and>
     fo_entries f = kept_entries (fo_retainTicks f) ap"

lemma seams_of_simps [simp]:
  "seams_of [] = []" "seams_of (TickE t # es) = seams_of es" "seams_of (SeamE s # es) = s # seams_of es"
  by (simp_all add: seams_of_def)

lemma new_follower_follows: "new_follower a r = Inr f \<Longrightarrow> follows [] f \<and> fo_assetId f = a"
proof -
  assume h: "new_follower a r = Inr f"
  let ?n = "case r of None \<Rightarrow> num DEFAULT_FOLLOWER_RETAIN_TICKS | Some v \<Rightarrow> v"
  have n: "isInteger ?n" "\<not> js_lt ?n (num 1)"
    and f: "f = \<lparr>fo_assetId = a, fo_retainTicks = nat (int_of ?n), fo_entries = [], fo_history = [],
        fo_head = None, fo_expectNext = None, fo_seams = []\<rparr>"
    using h by (auto simp: new_follower_def Let_def split: if_splits)
  obtain m where m: "?n = num m" using isInteger_num [OF n(1)] by blast
  have "1 \<le> int_of ?n" using n(2) unfolding m by simp
  then show ?thesis by (simp add: f follows_def kept_entries_def)
qed

lemma apply_loop_walk:
  assumes "walk es (fo_head f, e) = Some (h', e')" "fo_expectNext f = map_option num e"
  shows "\<exists>f'. apply_loop es f = (f', Inr ()) \<and> fo_head f' = h' \<and> fo_expectNext f' = map_option num e' \<and>
    fo_history f' = fo_history f @ ticks_of es \<and> fo_entries f' = fo_entries f @ es \<and>
    fo_seams f' = fo_seams f @ seams_of es \<and> fo_retainTicks f' = fo_retainTicks f \<and> fo_assetId f' = fo_assetId f"
  using assms
proof (induction es arbitrary: f e)
  case (Cons x es)
  show ?case
  proof (cases x)
    case (TickE t)
    let ?f = "f\<lparr>fo_entries := fo_entries f @ [TickE t], fo_history := fo_history f @ [t],
       fo_head := Some (sequence t), fo_expectNext := Some (num (sequence t + 1))\<rparr>"
    have w: "walk es (Some (sequence t), Some (sequence t + 1)) = Some (h', e')" "e = None \<or> e = Some (sequence t)"
      using Cons.prems(1) by (auto simp: TickE split: if_splits)
    then have "apply_tick t f = Inr ?f" using Cons.prems(2) by (auto simp: apply_tick_def)
    with Cons.IH [of ?f "Some (sequence t + 1)"] w(1) show ?thesis by (auto simp: TickE)
  next
    case (SeamE s)
    let ?f = "f\<lparr>fo_seams := fo_seams f @ [s], fo_entries := fo_entries f @ [SeamE s],
        fo_expectNext := Some (sm_resumesAtSequence s)\<rparr>"
    obtain r where w: "walk es (fo_head f, Some r) = Some (h', e')" "sm_lastSequence s = fo_head f"
        "sm_resumesAtSequence s = num r"
      using Cons.prems(1) by (auto simp: SeamE split: if_splits)
    then have "apply_seam s f = Inr ?f" by (simp add: apply_seam_def)
    with Cons.IH [of ?f "Some r"] w show ?thesis by (auto simp: SeamE)
  qed
qed simp

text \<open>Eviction drops a prefix of entries, all before the oldest tick kept, and no tick of the tail.\<close>

lemma dropWhile_drop: "\<exists>k. dropWhile P xs = drop k xs \<and> (\<forall>x \<in> set (take k xs). P x)"
proof -
  have "dropWhile P xs = drop (length (takeWhile P xs)) xs" by (simp add: dropWhile_eq_drop)
  moreover have "take (length (takeWhile P xs)) xs = takeWhile P xs"
    by (metis append_eq_conv_conj takeWhile_dropWhile_id)
  ultimately show ?thesis by (metis set_takeWhileD)
qed

lemma not_kept:
  assumes "\<not> kept_from m x" "walk es he = Some he'" "x \<in> set es"
  shows "entrySequence x < m"
  using assms(2,3,1)
proof (induction es he rule: walk.induct)
  case (2 t es h e)
  then show ?case by (auto simp: kept_from_def split: if_splits)
next
  case (3 s es h e)
  then show ?case by (cases h) (auto simp: kept_from_def split: if_splits)
qed simp

lemma dropWhile_twice:
  "\<forall>x\<in>set xs. P x \<longrightarrow> Q x \<Longrightarrow> dropWhile Q (dropWhile P xs @ ys) = dropWhile Q (xs @ ys)"
  by (induction xs) auto

lemma kept_from_mono: "m \<le> n \<Longrightarrow> kept_from n x \<Longrightarrow> kept_from m x"
  by (cases x; cases "case x of SeamE s \<Rightarrow> sm_resumesAtSequence s")
    (auto simp: kept_from_def js_le_def js_eq_def num_def)

lemma evict_kept:
  assumes w: "walk (ap @ es) (None, None) = Some he" and r: "0 < fo_retainTicks f"
    and h: "fo_history f = drop (length (ticks_of ap) - fo_retainTicks f) (ticks_of (ap @ es))"
    and e: "fo_entries f = kept_entries (fo_retainTicks f) ap @ es"
  shows "fo_entries (evict_ticks f) = kept_entries (fo_retainTicks f) (ap @ es)"
proof -
  let ?r = "fo_retainTicks f" and ?ts = "ticks_of ap" and ?us = "ticks_of (ap @ es)"
  have us: "?us = ?ts @ ticks_of es" by simp
  show ?thesis
  proof (cases "length ?ts \<le> ?r")
    case True
    then have "fo_history f = ?us" "fo_entries f = ap @ es" using h e by (simp_all add: kept_entries_def)
    moreover have "length ?us - ?r + 0 \<le> length ?us" by simp
    then have "drop (length ?us - ?r) ?us ! 0 = ?us ! (length ?us - ?r)" by (simp only: nth_drop) simp
    ultimately show ?thesis by (simp add: evict_ticks_def kept_entries_def Let_def)
  next
    case False
    let ?m = "\<lambda>ts. sequence (ts ! (length ts - ?r))"
    have ne: "length ?ts - ?r < length ?ts" using False r by simp
    have kept: "kept_entries ?r ap = dropWhile (\<lambda>e. \<not> kept_from (?m ?ts) e) ap" using False by (simp add: kept_entries_def Let_def)
    show ?thesis
    proof (cases "ticks_of es = []")
      case True
      have "TickE (?ts ! (length ?ts - ?r)) \<in> set ap" using ne set_ticks_of nth_mem by blast
      then have "dropWhile (\<lambda>e. \<not> kept_from (?m ?ts) e) (ap @ es) = dropWhile (\<lambda>e. \<not> kept_from (?m ?ts) e) ap @ es"
        by (rule dropWhile_append1) (simp add: kept_from_def)
      moreover have "evict_ticks f = f" using h True False by (simp add: evict_ticks_def)
      ultimately show ?thesis using e kept True False by (simp add: kept_entries_def Let_def)
    next
      case more: False
      obtain h' e' where "walk (ap @ es) (None, None) = Some (h', e')" using w by (cases he) simp
      from walk_ticks [OF this] have "sorted_wrt (<) (map sequence ?us)" by blast
      then have "sequence (?us ! i) < sequence (?us ! j)" if "i < j" "j < length ?us" for i j
        using that sorted_wrt_nth_less [of "(<)" "map sequence ?us" i j]
        by (simp only: length_map nth_map less_trans [of i j "length ?us"])
      moreover have "length ?ts - ?r < length ?us - ?r" "length ?us - ?r < length ?us"
        using more False r by (cases "ticks_of es"; simp)+
      ultimately have "sequence (?us ! (length ?ts - ?r)) < ?m ?us" by blast
      then have le: "?m ?ts \<le> ?m ?us" using ne by (simp add: nth_append)
      have hist: "fo_history f = drop (length ?ts - ?r) ?us" by (rule h)
      have "\<not> length (fo_history f) \<le> ?r" using more False unfolding hist by (cases "ticks_of es") simp_all
      moreover have "drop (length (fo_history f) - ?r) (fo_history f) = drop (length ?us - ?r) ?us"
        using False unfolding hist by (simp only: drop_drop length_drop) (rule arg_cong [where f = "\<lambda>n. drop n ?us"], simp add: us)
      moreover have "drop (length ?us - ?r) ?us ! 0 = ?us ! (length ?us - ?r)" by (simp only: nth_drop diff_le_self add_0_right)
      ultimately have "fo_entries (evict_ticks f) = dropWhile (\<lambda>e. \<not> kept_from (?m ?us) e) (fo_entries f)"
        by (simp add: evict_ticks_def Let_def)
      also have "\<dots> = dropWhile (\<lambda>e. \<not> kept_from (?m ?us) e) (ap @ es)"
        unfolding e kept by (rule dropWhile_twice) (use kept_from_mono [OF le] in blast)
      finally show ?thesis using False by (simp add: kept_entries_def Let_def us)
    qed
  qed
qed

lemma evict_follows:
  assumes w: "walk ap (None, None) = Some (fo_head f, e)" "fo_expectNext f = map_option num e" "0 < fo_retainTicks f"
    and h: "fo_history f = drop (n - fo_retainTicks f) (ticks_of ap)" "n \<le> length (ticks_of ap)"
    and s: "fo_seams f = seams_of ap"
    and k: "fo_entries f = drop k ap" "\<forall>x \<in> set (take k ap). \<exists>m. oldestRetained f = Some m \<and> entrySequence x < m"
    and kept: "fo_entries (evict_ticks f) = kept_entries (fo_retainTicks f) ap"
  shows "follows ap (evict_ticks f) \<and> fo_assetId (evict_ticks f) = fo_assetId f"
proof (cases "length (fo_history f) \<le> fo_retainTicks f")
  case True
  have "drop (n - fo_retainTicks f) (ticks_of ap) = drop (length (ticks_of ap) - fo_retainTicks f) (ticks_of ap)"
  proof -
    have "n - fo_retainTicks f = length (ticks_of ap) - fo_retainTicks f" using True h by simp
    then show ?thesis by simp
  qed
  with h have hist: "fo_history f = drop (length (ticks_of ap) - fo_retainTicks f) (ticks_of ap)" by simp
  have ev: "evict_ticks f = f" using True by (simp add: evict_ticks_def)
  have "\<exists>k. fo_entries f = drop k ap \<and> (\<forall>x \<in> set (take k ap). \<exists>m. oldestRetained f = Some m \<and> entrySequence x < m)"
    using k by blast
  with w s hist kept show ?thesis unfolding ev follows_def by blast
next
  case False
  let ?r = "fo_retainTicks f" and ?ts = "ticks_of ap"
  let ?hist = "drop (length ?ts - ?r) ?ts"
  have hist: "drop (length (fo_history f) - ?r) (fo_history f) = ?hist"
    using False h by (simp add: add.commute)
  have len: "?r < length ?ts" using False h by simp
  then have ne: "?hist \<noteq> []" using w(3) by simp
  let ?m = "sequence (?hist ! 0)"
  obtain j where j: "dropWhile (\<lambda>e. \<not> kept_from ?m e) (fo_entries f) = drop j (fo_entries f)"
      "\<forall>x \<in> set (take j (fo_entries f)). \<not> kept_from ?m x"
    using dropWhile_drop [of "\<lambda>e. \<not> kept_from ?m e" "fo_entries f"] by blast
  have ev: "evict_ticks f = f\<lparr>fo_history := ?hist, fo_entries := drop j (fo_entries f)\<rparr>"
    using False j(1) hist by (simp add: evict_ticks_def Let_def)
  have old: "oldestRetained (evict_ticks f) = Some ?m" using ne by (simp add: ev oldestRetained_def)
  have "entrySequence x < ?m" if x: "x \<in> set (take (j + k) ap)" for x
  proof -
    have "take (j + k) ap = take k ap @ take j (drop k ap)" by (metis add.commute take_add)
    with x consider "x \<in> set (take k ap)" | "x \<in> set (take j (fo_entries f))" by (auto simp: k(1))
    then show ?thesis
    proof cases
      case 1
      then obtain m where m: "oldestRetained f = Some m" "entrySequence x < m" using k(2) by blast
      have sorted: "sorted_wrt (<) (map sequence ?ts)" using walk_ticks [OF w(1)] by simp
      have "n - ?r \<le> length ?ts - ?r" "length ?ts - ?r < length ?ts" using h(2) len w(3) by auto
      then have "sequence (?ts ! (n - ?r)) \<le> sequence (?ts ! (length ?ts - ?r))"
        using sorted by (cases "n - ?r = length ?ts - ?r") (simp_all add: sorted_wrt_iff_nth_less less_imp_le)
      moreover have "m = sequence (?ts ! (n - ?r))"
        using m(1) h by (auto simp: oldestRetained_def split: if_splits)
      ultimately show ?thesis using m(2) len by simp
    next
      case 2
      then have "x \<in> set ap" using k(1) by (metis in_set_dropD in_set_takeD)
      with 2 j(2) not_kept [OF _ w(1)] show ?thesis by blast
    qed
  qed
  moreover have "fo_entries (evict_ticks f) = kept_entries (fo_retainTicks (evict_ticks f)) ap" using kept by (simp add: ev)
  ultimately show ?thesis
    using w s old by (auto simp: follows_def ev k(1) intro!: exI [of _ "j + k"])
qed


section \<open>Pulling\<close>

text \<open>The records a follower can mirror entry by entry: they start at the first sequence, no seam
  directly follows another, and no seam resumes at the very sequence it stands at.\<close>

fun separated :: "record_entry list \<Rightarrow> bool" where
  "separated (SeamE s # TickE t # es) =
     (sm_resumesAtSequence s \<noteq> num (entrySequence (SeamE s)) \<and> separated (TickE t # es))"
| "separated (SeamE s # SeamE u # es) = False"
| "separated [SeamE s] = (sm_resumesAtSequence s \<noteq> num (entrySequence (SeamE s)))"
| "separated (TickE t # es) = separated es"
| "separated [] = True"

definition mirrorable :: "record_entry list \<Rightarrow> bool" where
  "mirrorable es \<longleftrightarrow> (es \<noteq> [] \<longrightarrow> entrySequence (hd es) = 1) \<and> separated es"

lemma separated_drop: "separated (xs @ ys) \<Longrightarrow> separated ys"
proof (induction xs)
  case (Cons x xs)
  then show ?case by (cases x; cases "xs @ ys") (auto elim: separated.elims)
qed simp

text \<open>What the record holds past what has been applied is what the next pull asks for.\<close>

lemma rest_from:
  assumes E: "E = ap @ rest" and w: "walk E (None, None) = Some he" "walk ap (None, None) = Some (h, e)"
    and m: "mirrorable E" "E \<noteq> []"
  shows "filter (\<lambda>x. (case e of None \<Rightarrow> 1 | Some n \<Rightarrow> n) \<le> entrySequence x) E = rest"
    and "1 \<le> (case e of None \<Rightarrow> 1 | Some n \<Rightarrow> n)"
proof -
  have so: "sorted (map entrySequence E)" using walk_sorted [OF w(1) walk_start] by blast
  have hd1: "entrySequence (hd E) = 1" and sep: "separated E" using m by (auto simp: mirrorable_def)
  have ge1: "1 \<le> entrySequence x" if "x \<in> set E" for x
    using so hd1 that by (cases E) auto
  have "(\<forall>x \<in> set ap. entrySequence x < (case e of None \<Rightarrow> 1 | Some n \<Rightarrow> n)) \<and>
      (\<forall>x \<in> set rest. (case e of None \<Rightarrow> 1 | Some n \<Rightarrow> n) \<le> entrySequence x) \<and>
      1 \<le> (case e of None \<Rightarrow> 1 | Some n \<Rightarrow> n)"
  proof (cases ap rule: rev_cases)
    case Nil
    with w(2) have "e = None" by simp
    with Nil E ge1 show ?thesis by simp
  next
    case (snoc as x)
    then obtain h0 e0 where as: "walk as (None, None) = Some (h0, e0)" "walk [x] (h0, e0) = Some (h, e)"
      using w(2) by (auto simp: walk_append split: option.splits)
    have so_ap: "\<forall>y \<in> set as. entrySequence y \<le> entrySequence x" "\<forall>y \<in> set rest. entrySequence x \<le> entrySequence y"
      using so by (auto simp: E snoc sorted_append)
    have rest: "\<exists>he'. walk rest (h, e) = Some he'" using w by (auto simp: E walk_append)
    show ?thesis
    proof (cases x)
      case (TickE t)
      then have he: "h = Some (sequence t)" "e = Some (sequence t + 1)" using as(2) by (auto split: if_splits)
      then have ws: "walk_state (h, e)" by (simp add: walk_state_def)
      from rest obtain he' where "walk rest (h, e) = Some he'" by blast
      from walk_sorted [OF this ws] have "\<forall>y \<in> set rest. after (h, e) (entrySequence y)" by blast
      then have "\<forall>y \<in> set rest. sequence t + 1 \<le> entrySequence y" by (auto simp: he after_def)
      moreover have "1 \<le> sequence t" using ge1 [of x] by (simp add: E snoc TickE)
      ultimately show ?thesis using so_ap(1) by (auto simp: he snoc TickE)
    next
      case (SeamE s)
      then obtain r where r: "sm_resumesAtSequence s = num r" "e = Some r" "sm_lastSequence s = h0" "1 \<le> r"
          "case h0 of None \<Rightarrow> True | Some n \<Rightarrow> n < r" "h = h0"
        using as(2) by (auto split: if_splits)
      have sx: "separated (x # rest)" using separated_drop [of as "x # rest"] sep by (simp add: E snoc)
      then have "sm_resumesAtSequence s \<noteq> num (entrySequence (SeamE s))" unfolding SeamE by (cases "SeamE s # rest" rule: separated.cases) auto
      then have lt: "entrySequence x < r" using r by (cases h0) (auto simp: SeamE)
      have "\<forall>y \<in> set rest. r \<le> entrySequence y"
      proof (cases rest)
        case (Cons y ys)
        then obtain t where y: "y = TickE t" using sx by (cases y) (auto simp: SeamE)
        then have "entrySequence y = r" using rest r by (auto simp: Cons split: if_splits)
        moreover have "sorted (map entrySequence (y # ys))" using so by (auto simp: E Cons sorted_append)
        ultimately show ?thesis by (auto simp: Cons)
      qed simp
      with so_ap(1) lt r show ?thesis by (auto simp: snoc)
    qed
  qed
  then have "\<forall>x \<in> set ap. \<not> (case e of None \<Rightarrow> 1 | Some n \<Rightarrow> n) \<le> entrySequence x"
    and r: "\<forall>x \<in> set rest. (case e of None \<Rightarrow> 1 | Some n \<Rightarrow> n) \<le> entrySequence x"
    and one: "1 \<le> (case e of None \<Rightarrow> 1 | Some n \<Rightarrow> n)" by (auto simp: not_le)
  then have "filter (\<lambda>x. (case e of None \<Rightarrow> 1 | Some n \<Rightarrow> n) \<le> entrySequence x) ap = []"
    by (simp add: filter_empty_conv)
  then show "filter (\<lambda>x. (case e of None \<Rightarrow> 1 | Some n \<Rightarrow> n) \<le> entrySequence x) E = rest"
    using r by (simp add: E filter_id_conv)
  show "1 \<le> (case e of None \<Rightarrow> 1 | Some n \<Rightarrow> n)" by (rule one)
qed


lemma read_mirrored:
  assumes "record_ok st" "mirrorable (rc_entries st)" "follows ap f" "prefix ap (rc_entries st)" "1 \<le> k"
  shows "read_entries (Some st) (case fo_expectNext f of None \<Rightarrow> num 1 | Some e \<Rightarrow> e) (num k) =
    Inr (take (nat k) (drop (length ap) (rc_entries st)))"
proof -
  obtain rest where E: "rc_entries st = ap @ rest" using assms(4) by (auto simp: prefix_def)
  obtain e where e: "walk ap (None, None) = Some (fo_head f, e)" "fo_expectNext f = map_option num e"
    using assms(3) by (auto simp: follows_def)
  have from_eq: "(case fo_expectNext f of None \<Rightarrow> num 1 | Some e \<Rightarrow> e) = num (case e of None \<Rightarrow> 1 | Some n \<Rightarrow> n)"
    using e(2) by (cases e) auto
  show ?thesis
  proof (cases "rc_entries st = []")
    case True
    have "1 \<le> (case e of None \<Rightarrow> 1 | Some n \<Rightarrow> n)" using e(1) True E by simp
    with True assms(5) show ?thesis by (simp add: from_eq read_entries_def)
  next
    case False
    have w: "walk (rc_entries st) (None, None) = Some (rc_head st, rc_expectNext st)"
      using assms(1) by (simp add: record_ok_def)
    note r = rest_from [OF E w e(1) assms(2) False]
    have "entrySequence (hd (rc_entries st)) \<le> (case e of None \<Rightarrow> 1 | Some n \<Rightarrow> n)"
      using r(2) assms(2) False by (simp add: mirrorable_def)
    from read_entries_eq [OF assms(1) False r(2) this assms(5)] show ?thesis
      unfolding from_eq r(1) by (simp add: E)
  qed
qed

lemma apply_follows:
  assumes "follows ap f" "walk (ap @ es) (None, None) = Some (h, e)"
  shows "\<exists>f'. apply_entries es f = (f', Inr ()) \<and> follows (ap @ es) f' \<and> fo_assetId f' = fo_assetId f"
proof (cases "es = []")
  case True
  with assms show ?thesis by (simp add: apply_entries_def)
next
  case False
  obtain e0 where e0: "walk ap (None, None) = Some (fo_head f, e0)" "fo_expectNext f = map_option num e0"
    using assms(1) by (auto simp: follows_def)
  with assms(2) have "walk es (fo_head f, e0) = Some (h, e)" by (simp add: walk_append)
  from apply_loop_walk [OF this e0(2)] obtain g where g: "apply_loop es f = (g, Inr ())" "fo_head g = h"
      "fo_expectNext g = map_option num e" "fo_history g = fo_history f @ ticks_of es"
      "fo_entries g = fo_entries f @ es" "fo_seams g = fo_seams f @ seams_of es"
      "fo_retainTicks g = fo_retainTicks f" "fo_assetId g = fo_assetId f" by blast
  obtain k where k: "fo_entries f = drop k ap" "\<forall>x \<in> set (take k ap). \<exists>m. oldestRetained f = Some m \<and> entrySequence x < m"
    and h: "fo_history f = drop (length (ticks_of ap) - fo_retainTicks f) (ticks_of ap)"
    and r: "0 < fo_retainTicks f" "fo_seams f = seams_of ap"
    using assms(1) unfolding follows_def by blast
  let ?k = "min k (length ap)"
  have k': "fo_entries g = drop ?k (ap @ es)" by (simp add: g(5) k(1) min_def)
  have old: "oldestRetained f = Some m \<Longrightarrow> oldestRetained g = Some m" for m
    by (auto simp: oldestRetained_def g(4) nth_append split: if_splits)
  have take: "\<forall>x \<in> set (take ?k (ap @ es)). \<exists>m. oldestRetained g = Some m \<and> entrySequence x < m"
  proof -
    have "take ?k (ap @ es) = take k ap" by (simp add: min_def)
    with k(2) old show ?thesis by metis
  qed
  have hist: "fo_history g = drop (length (ticks_of ap) - fo_retainTicks g) (ticks_of (ap @ es))"
    by (simp add: g(4,7) h)
  have w: "walk (ap @ es) (None, None) = Some (fo_head g, e)" using assms(2) g(2) by simp
  have "fo_entries f = kept_entries (fo_retainTicks f) ap" using assms(1) by (simp add: follows_def)
  then have kept: "fo_entries (evict_ticks g) = kept_entries (fo_retainTicks g) (ap @ es)"
    using evict_kept [OF assms(2) _ hist] r(1) g(5,7) by simp
  have "follows (ap @ es) (evict_ticks g) \<and> fo_assetId (evict_ticks g) = fo_assetId g"
    by (rule evict_follows [OF w g(3) _ hist _ _ k' take kept]) (use r g in \<open>simp_all add: walk_seams\<close>)
  with g(1,8) False show ?thesis by (simp add: apply_entries_def)
qed

abbreviation pull_from :: "coordinated_store \<Rightarrow> jsnum \<Rightarrow> follower \<Rightarrow> follower \<times> nat result" where
  "pull_from s \<equiv> pull (\<lambda>a n limit. readRecord a n limit s)"

lemma read_None: "read_entries None n k = read_entries (Some empty_record) n k"
  by (simp add: read_entries_def empty_record_def)

lemma readRecord_eq: "readRecord a n k s = read_entries (Some (recordFor a s)) n k"
  by (simp add: readRecord_def recordFor_def read_None split: option.splits)

lemma pull_follows:
  assumes "store_ok s" "fo_assetId f = a" "mirrorable (rc_entries (recordFor a s))" "follows ap f"
    "prefix ap (rc_entries (recordFor a s))" "1 \<le> k"
  defines "chunk \<equiv> take (nat k) (drop (length ap) (rc_entries (recordFor a s)))"
  shows "\<exists>f'. pull_from s (num k) f = (f', Inr (length chunk)) \<and> follows (ap @ chunk) f' \<and> fo_assetId f' = a \<and>
    prefix (ap @ chunk) (rc_entries (recordFor a s))"
proof -
  let ?E = "rc_entries (recordFor a s)"
  have ok: "record_ok (recordFor a s)" using assms(1) by (rule recordFor_ok)
  obtain rest where E: "?E = ap @ rest" using assms(5) by (auto simp: prefix_def)
  have c: "?E = (ap @ chunk) @ drop (nat k) rest" by (simp add: chunk_def E)
  then obtain h e where "walk (ap @ chunk) (None, None) = Some (h, e)"
    using ok unfolding record_ok_def by (metis option.exhaust option.simps(4) prod.exhaust walk_append option.distinct(1))
  from apply_follows [OF assms(4) this] obtain f' where
    f': "apply_entries chunk f = (f', Inr ())" "follows (ap @ chunk) f'" "fo_assetId f' = fo_assetId f" by blast
  have "readRecord a (case fo_expectNext f of None \<Rightarrow> num 1 | Some e \<Rightarrow> e) (num k) s = Inr chunk"
    using read_mirrored [OF ok assms(3-6)] by (simp only: readRecord_eq chunk_def)
  with f' assms(2) c show ?thesis by (simp add: pull_def)
qed


section \<open>Runs\<close>

text \<open>A follower started at any time, pulling at any times with any limits, while the store moves on.\<close>

inductive follower_run :: "string \<Rightarrow> coordinated_store \<Rightarrow> follower \<Rightarrow> bool" for a where
  start: "new_store tm = Inr s0 \<Longrightarrow> store_steps s0 s \<Longrightarrow> new_follower a r = Inr f \<Longrightarrow> follower_run a s f"
| stored: "follower_run a s f \<Longrightarrow> store_step s s' \<Longrightarrow> follower_run a s' f"
| pulled: "follower_run a s f \<Longrightarrow> follower_run a s (fst (pull_from s limit f))"

lemma separated_prefix: "separated (xs @ ys) \<Longrightarrow> separated xs"
proof (induction xs rule: separated.induct)
  case (3 s)
  then show ?case by (cases "SeamE s # ys" rule: separated.cases) auto
qed auto

lemma mirrorable_prefix: "mirrorable es \<Longrightarrow> prefix ds es \<Longrightarrow> mirrorable ds"
  unfolding mirrorable_def prefix_def using separated_prefix by (metis hd_append2 append_is_Nil_conv)

lemma pull_any:
  assumes "store_ok s" "fo_assetId f = a" "mirrorable (rc_entries (recordFor a s))" "follows ap f"
    "prefix ap (rc_entries (recordFor a s))"
  shows "\<exists>ap'. follows ap' (fst (pull_from s limit f)) \<and> prefix ap' (rc_entries (recordFor a s)) \<and>
    fo_assetId (fst (pull_from s limit f)) = a"
proof (cases "\<exists>k. limit = num k \<and> 1 \<le> k")
  case True
  then obtain k where k: "limit = num k" "1 \<le> k" by blast
  from pull_follows [OF assms k(2)] obtain c f' where
    "pull_from s limit f = (f', Inr (length c))" "follows (ap @ c) f'" "fo_assetId f' = a"
    "prefix (ap @ c) (rc_entries (recordFor a s))" unfolding k(1) by blast
  then show ?thesis by (intro exI [of _ "ap @ c"]) simp
next
  case False
  have "\<not> isInteger limit \<or> js_lt limit (num 1)"
    using False isInteger_num [of limit] by (metis num_simps(8) not_le)
  then have "\<exists>e. readRecord (fo_assetId f) n limit s = Inl e" for n
    by (auto simp: readRecord_def read_entries_def)
  then have "fst (pull_from s limit f) = f"
    unfolding pull_def by (metis fst_conv old.sum.simps(5))
  with assms show ?thesis by auto
qed

lemma evict_assetId: "fo_assetId (evict_ticks f) = fo_assetId f"
  by (simp add: evict_ticks_def Let_def)

lemma apply_loop_assetId: "fo_assetId (fst (apply_loop es f)) = fo_assetId f"
  by (induction es f rule: apply_loop.induct)
     (auto simp: apply_seam_def apply_tick_def Let_def split: sum.splits if_splits)

lemma pull_assetId: "fo_assetId (fst (pull lg limit f)) = fo_assetId f"
proof -
  have "fo_assetId (fst (apply_entries es f)) = fo_assetId f" for es
    using apply_loop_assetId [of es f] by (auto simp: apply_entries_def evict_assetId split: prod.splits sum.splits)
  then show ?thesis unfolding pull_def by (auto split: prod.splits sum.splits) (metis fst_conv)+
qed

lemma follower_run_inv:
  "follower_run a s f \<Longrightarrow> store_ok s \<and> fo_assetId f = a \<and> (mirrorable (rc_entries (recordFor a s)) \<longrightarrow>
     (\<exists>ap. follows ap f \<and> prefix ap (rc_entries (recordFor a s))))"
proof (induction rule: follower_run.induct)
  case (start tm s0 s r f)
  then show ?case
    using new_store_ok [OF start(1)] store_steps_forward [OF start(2)] new_follower_follows [OF start(3)]
    by (auto simp: forward_def intro: exI [of _ "[]"])
next
  case (stored s f s')
  have "forward s s'" using stored(2) by (rule store_step_forward)
  then have p: "prefix (rc_entries (recordFor a s)) (rc_entries (recordFor a s'))" "store_ok s'"
    using stored.IH by (auto simp: forward_def)
  show ?case
  proof (intro conjI impI)
    assume "mirrorable (rc_entries (recordFor a s'))"
    then have "mirrorable (rc_entries (recordFor a s))" using p(1) by (rule mirrorable_prefix)
    with stored.IH p(1) show "\<exists>ap. follows ap f \<and> prefix ap (rc_entries (recordFor a s'))"
      using prefix_order.order_trans by blast
  qed (use p stored.IH in auto)
next
  case (pulled s f limit)
  have "fo_assetId (fst (pull_from s limit f)) = a"
    using pulled.IH pull_assetId by metis
  with pulled.IH pull_any show ?case by blast
qed

text \<open>C22: a follower of a \<open>mirrorable\<close> record never diverges. As long as the record starts at sequence one
  and no seam follows another directly or resumes at the sequence it stands at, whenever the follower was
  started and however its pulls interleave with the leaders' writes, it has applied a prefix of the
  record's entries; its head is the last of their ticks, its history exactly the newest \<open>retainTicks\<close> of
  them, its seams all of theirs, and the entries it serves from exactly those the eviction rule keeps. The
  store accepts records outside the condition, where \<open>second_seam_strands\<close> and \<open>second_seam_skips\<close> show
  a follower stuck or silently skipping.\<close>

theorem follower_mirrors:
  assumes "follower_run a s f" "mirrorable (rc_entries (recordFor a s))"
  shows "\<exists>ap. prefix ap (rc_entries (recordFor a s)) \<and>
    fo_head f = (if ticks_of ap = [] then None else Some (sequence (last (ticks_of ap)))) \<and>
    fo_history f = drop (length (ticks_of ap) - fo_retainTicks f) (ticks_of ap) \<and>
    fo_seams f = seams_of ap \<and> fo_entries f = kept_entries (fo_retainTicks f) ap \<and> suffix (fo_entries f) ap"
proof -
  obtain ap where ap: "follows ap f" "prefix ap (rc_entries (recordFor a s))"
    using follower_run_inv [OF assms(1)] assms(2) by blast
  then obtain e where "walk ap (None, None) = Some (fo_head f, e)" by (auto simp: follows_def)
  from walk_ticks [OF this] have "fo_head f = (if ticks_of ap = [] then None else Some (sequence (last (ticks_of ap))))"
    by blast
  moreover have "suffix (fo_entries f) ap" using ap(1) unfolding follows_def by (metis suffix_drop)
  ultimately show ?thesis using ap by (auto simp: follows_def intro!: exI [of _ ap])
qed

fun pulls :: "nat \<Rightarrow> coordinated_store \<Rightarrow> int \<Rightarrow> follower \<Rightarrow> follower" where
  "pulls 0 s k f = f"
| "pulls (Suc n) s k f = pulls n s k (fst (pull_from s (num k) f))"

lemma pulls_follow:
  assumes "store_ok s" "fo_assetId f = a" "mirrorable (rc_entries (recordFor a s))" "follows ap f"
    "prefix ap (rc_entries (recordFor a s))" "1 \<le> k" "length (rc_entries (recordFor a s)) \<le> length ap + n * nat k"
  shows "follows (rc_entries (recordFor a s)) (pulls n s k f) \<and> fo_assetId (pulls n s k f) = a"
  using assms(2,4,5,7)
proof (induction n arbitrary: f ap)
  case 0
  then have "ap = rc_entries (recordFor a s)" by (auto simp: prefix_def)
  with 0 show ?case by simp
next
  case (Suc n)
  let ?E = "rc_entries (recordFor a s)"
  let ?chunk = "take (nat k) (drop (length ap) ?E)"
  from pull_follows [OF assms(1) Suc.prems(1) assms(3) Suc.prems(2,3) assms(6)] obtain f' where
    f': "pull_from s (num k) f = (f', Inr (length ?chunk))" "follows (ap @ ?chunk) f'" "fo_assetId f' = a"
      "prefix (ap @ ?chunk) ?E" by blast
  have "length ?E \<le> length (ap @ ?chunk) + n * nat k"
  proof (cases "length ?E \<le> length ap + nat k")
    case False
    with Suc.prems(4) show ?thesis by simp
  qed simp
  from Suc.IH [OF f'(3,2,4) this] f'(1) show ?case by simp
qed

text \<open>C23: a follower of a \<open>mirrorable\<close> record catches up. Against a record that stands still, starts at
  sequence one, and has no seam directly after another nor one that resumes where it stands, pulls of \<open>k\<close> entries reach its end
  after finitely many, with the record's head and seams and its newest ticks, and from there a pull
  applies nothing and never fails.\<close>

theorem follower_catches_up:
  assumes "follower_run a s f" "mirrorable (rc_entries (recordFor a s))" "1 \<le> k"
    "length (rc_entries (recordFor a s)) \<le> n * nat k"
  shows "fo_head (pulls n s k f) = recordHead a s \<and> fo_seams (pulls n s k f) = record_seams a s \<and>
    fo_history (pulls n s k f) = drop (length (ticks_of (rc_entries (recordFor a s))) - fo_retainTicks (pulls n s k f))
      (ticks_of (rc_entries (recordFor a s))) \<and>
    pull_from s (num k) (pulls n s k f) = (pulls n s k f, Inr 0)"
proof -
  let ?E = "rc_entries (recordFor a s)"
  obtain ap where ap: "follows ap f" "prefix ap ?E" and ok: "store_ok s" "fo_assetId f = a"
    using follower_run_inv [OF assms(1)] assms(2) by blast
  have f: "follows ?E (pulls n s k f)" "fo_assetId (pulls n s k f) = a"
    using pulls_follow [OF ok assms(2) ap assms(3) trans_le_add2 [OF assms(4)]] by auto
  have "walk ?E (None, None) = Some (rc_head (recordFor a s), rc_expectNext (recordFor a s))"
    using recordFor_ok [OF ok(1)] by (simp add: record_ok_def)
  then have "fo_head (pulls n s k f) = recordHead a s"
    using f(1) by (auto simp: follows_def recordHead_def recordFor_def empty_record_def split: option.splits)
  moreover have "fo_seams (pulls n s k f) = record_seams a s"
    using f(1) by (auto simp: follows_def record_seams_def recordFor_def empty_record_def split: option.splits)
  moreover have "pull_from s (num k) (pulls n s k f) = (pulls n s k f, Inr 0)"
  proof -
    have "readRecord a (case fo_expectNext (pulls n s k f) of None \<Rightarrow> num 1 | Some e \<Rightarrow> e) (num k) s = Inr []"
      using read_mirrored [OF recordFor_ok [OF ok(1)] assms(2) f(1) prefix_order.order_refl assms(3)]
      by (simp add: readRecord_eq)
    then show ?thesis using f(2) by (simp add: pull_def apply_entries_def)
  qed
  ultimately show ?thesis using f(1) by (simp add: follows_def)
qed


section \<open>A follower of the store of two leaders\<close>

definition demo_follower :: follower where
  "demo_follower = \<lparr>fo_assetId = ''A'', fo_retainTicks = 1, fo_entries = [], fo_history = [], fo_head = None,
     fo_expectNext = None, fo_seams = []\<rparr>"

lemma demo_follower_run: "follower_run ''A'' demo_taken demo_follower"
proof (rule follower_run.start)
  show "new_store None = Inr demo_store" by (rule demo_new)
  show "store_steps demo_store demo_taken" using demo_steps by simp
  show "new_follower ''A'' (Some (num 1)) = Inr demo_follower" by (simp add: new_follower_def demo_follower_def)
qed

lemma demo_record: "rc_entries (recordFor ''A'' demo_taken) = map TickE demo_batch" "recordHead ''A'' demo_taken = Some 2"
  by (simp_all add: demo_taken_def acquire_def isUsableHolder_def live_def Let_def demo_expiry demo_written_def
    appendTicks_def demo_led_eq(1) demo_store_def fenceRefusal_def demo_batch_def append_record_def recordFor_def
    empty_record_def push_tick_def recordHead_def)

lemma demo_mirrorable: "mirrorable (rc_entries (recordFor ''A'' demo_taken))"
  by (simp add: demo_record demo_batch_def mirrorable_def)

theorem follower_mirrors_witness:
  "\<exists>ap. prefix ap (map TickE demo_batch) \<and> fo_seams demo_follower = seams_of ap"
  using follower_mirrors [OF demo_follower_run demo_mirrorable] by (auto simp: demo_record)

theorem follower_catches_up_witness:
  "fo_head (pulls 2 demo_taken 1 demo_follower) = Some 2 \<and>
   pull_from demo_taken (num 1) (pulls 2 demo_taken 1 demo_follower) = (pulls 2 demo_taken 1 demo_follower, Inr 0)"
  using follower_catches_up [OF demo_follower_run demo_mirrorable, of 1 2]
  by (simp add: demo_record demo_batch_def)

section \<open>Two seams in a row\<close>

text \<open>The store accepts a second seam before any tick has followed the first: a leader that seamed and
  stopped, then another that seams further on. Both stand at one sequence, and a follower that pulled
  between them asks past it. It is never given the second seam, and then either refuses every later
  pull, or, when the second seam resumes earlier than the first, skips ticks of the record silently.\<close>

definition seam_at :: "int \<Rightarrow> int \<Rightarrow> seam_marker" where
  "seam_at newest resumes = \<lparr>sm_assetId = ''A'', sm_lastSequence = Some newest, sm_lastInstant = Some 12,
     sm_resumesAtSequence = num resumes, sm_resumesAtInstant = 900, sm_reason = ''restart''\<rparr>"

definition tick_at :: "int \<Rightarrow> tick" where
  "tick_at n = \<lparr>instant = 1000 + n, sequence = n, price = 3\<rparr>"

definition seamed_once :: record_state where
  "seamed_once = \<lparr>rc_entries = map TickE demo_batch @ [SeamE (seam_at 2 100)], rc_index = [1 \<mapsto> 0, 2 \<mapsto> 1],
     rc_head = Some 2, rc_expectNext = Some 100\<rparr>"

definition seamed_twice :: "int \<Rightarrow> record_state" where
  "seamed_twice r = seamed_once\<lparr>rc_entries := rc_entries seamed_once @ [SeamE (seam_at 2 r)], rc_expectNext := Some r\<rparr>"

definition seen_one_seam :: follower where
  "seen_one_seam = fst (pull (\<lambda>_. read_entries (Some seamed_once)) (num 10) (demo_follower\<lparr>fo_retainTicks := 9\<rparr>))"

lemma seamed_reached:
  "andThen (append_record demo_batch empty_record) (seam_record ''A'' (seam_at 2 100)) = Inr seamed_once"
  "2 < r \<Longrightarrow> seam_record ''A'' (seam_at 2 r) seamed_once = Inr (seamed_twice r)"
  by (simp_all add: append_record_def demo_batch_def empty_record_def push_tick_def seam_record_def seam_at_def
    seamed_once_def seamed_twice_def)

lemma seen_one_seam_eq:
  "pull (\<lambda>_. read_entries (Some seamed_once)) (num 10) (demo_follower\<lparr>fo_retainTicks := 9\<rparr>) = (seen_one_seam, Inr 3)"
  "seen_one_seam = \<lparr>fo_assetId = ''A'', fo_retainTicks = 9, fo_entries = rc_entries seamed_once, fo_history = demo_batch,
     fo_head = Some 2, fo_expectNext = Some (num 100), fo_seams = [seam_at 2 100]\<rparr>"
  by (simp_all add: seen_one_seam_def pull_def read_entries_def seamed_once_def demo_batch_def seam_at_def lowerBound_def
    lower_search.simps apply_entries_def apply_seam_def apply_tick_def evict_ticks_def demo_follower_def js_eq_def)


lemma seamed_twice_appended:
  assumes "2 < r"
  shows "append_record (map tick_at [r..r + 1]) (seamed_twice r) =
    Inr \<lparr>rc_entries = rc_entries (seamed_twice r) @ map (TickE \<circ> tick_at) [r..r + 1],
      rc_index = (rc_index seamed_once)(r \<mapsto> 4, r + 1 \<mapsto> 5), rc_head = Some (r + 1), rc_expectNext = Some (r + 2)\<rparr>"
proof -
  have "[r..r + 1] = [r, r + 1]" by (simp add: upto.simps)
  then show ?thesis using assms
    by (simp add: append_record_def seamed_twice_def seamed_once_def push_tick_def tick_at_def demo_batch_def
      eval_nat_numeral)
qed

text \<open>The second seam resumes further on: every later pull is refused.\<close>

lemma second_seam_strands:
  "\<exists>st. append_record (map tick_at [200..201]) (seamed_twice 200) = Inr st \<and>
    pull (\<lambda>_. read_entries (Some st)) (num 10) seen_one_seam = (seen_one_seam, Inl (ReplicationGap 100 200))"
  using seamed_twice_appended [of 200]
  by (simp add: seen_one_seam_eq(2) pull_def read_entries_def lowerBound_def lower_search.simps apply_entries_def
    apply_tick_def seamed_twice_def seamed_once_def demo_batch_def tick_at_def seam_at_def js_eq_def upto.simps)

text \<open>The second seam resumes earlier: the follower takes up at the first seam's sequence and serves a
  head whose ticks from 99 on it does not have, and one seam of the two.\<close>

lemma second_seam_skips:
  "\<exists>st f. append_record (map tick_at [99..100]) (seamed_twice 99) = Inr st \<and>
    pull (\<lambda>_. read_entries (Some st)) (num 10) seen_one_seam = (f, Inr 1) \<and>
    TickE (tick_at 99) \<in> set (rc_entries st) \<and> fo_head f = rc_head st \<and>
    TickE (tick_at 99) \<notin> set (fo_entries f) \<and> fo_seams f = [seam_at 2 100]"
  using seamed_twice_appended [of 99]
  by (simp add: seen_one_seam_eq(2) pull_def read_entries_def lowerBound_def lower_search.simps apply_entries_def
    apply_tick_def seamed_twice_def seamed_once_def demo_batch_def tick_at_def seam_at_def js_eq_def upto.simps
    evict_ticks_def Let_def)

section \<open>Serving\<close>

text \<open>A client that asks within what is kept is given every entry of the record from there to the
  follower's head, seams included.\<close>

lemma filter_drop_before:
  "\<forall>x \<in> set (take k xs). \<not> P x \<Longrightarrow> filter P (drop k xs) = filter P xs"
proof -
  assume "\<forall>x \<in> set (take k xs). \<not> P x"
  then have "filter P (take k xs) = []" by (simp add: filter_empty_conv)
  then show ?thesis by (metis append_Nil append_take_drop_id filter_append)
qed

lemma serve_entries:
  assumes "follows ap f" "1 \<le> n" "fo_head f = Some h" "n \<le> h + 1" "h \<le> rh"
  shows "serve (num n) (Some rh) f = Inr (case oldestRetained f of
      Some m \<Rightarrow> if n < m then ServeEvicted n m else Entries (filter (\<lambda>e. n \<le> entrySequence e) ap)
    | None \<Rightarrow> Entries (filter (\<lambda>e. n \<le> entrySequence e) ap))"
proof -
  obtain k where k: "fo_entries f = drop k ap" "\<forall>x \<in> set (take k ap). \<exists>m. oldestRetained f = Some m \<and> entrySequence x < m"
    using assms(1) unfolding follows_def by blast
  obtain e where w: "walk ap (None, None) = Some (fo_head f, e)" using assms(1) by (auto simp: follows_def)
  then have "sorted (map entrySequence ap)" using walk_sorted [OF _ walk_start] by blast
  then have so: "sorted (map entrySequence (fo_entries f))" by (simp add: k(1) drop_map [symmetric] sorted_wrt_drop)
  have f: "filter (\<lambda>e. n \<le> entrySequence e) (fo_entries f) = filter (\<lambda>e. n \<le> entrySequence e) ap"
    if "\<And>m. oldestRetained f = Some m \<Longrightarrow> m \<le> n"
    unfolding k(1) using k(2) that by (intro filter_drop_before) fastforce
  show ?thesis
    using assms(2-5) f lowerBound_filter [OF so, of n] by (cases "oldestRetained f") (auto simp: serve_def Let_def)
qed

text \<open> what a follower answers a client who asks the sequence after the last it was given. Whenever the
  request is within the record's reach it is one of four answers and each is true: the entries of the
  record from there up to the follower's head; that the follower is behind, only when it does not yet
  hold what is asked; that the sequence was evicted, only when it is older than the oldest tick kept;
  and that it was never published, only when it is past the record's own head.\<close>

theorem serve_truthful:
  assumes "follower_run a s f" "mirrorable (rc_entries (recordFor a s))" "1 \<le> n"
  shows "\<exists>ap answer. prefix ap (rc_entries (recordFor a s)) \<and> serve (num n) (recordHead a s) f = Inr answer \<and>
    (case answer of
       Entries es \<Rightarrow> es = filter (\<lambda>e. n \<le> entrySequence e) ap
     | Lagging h rh \<Rightarrow> fo_head f = h \<and> recordHead a s = Some rh \<and> n \<le> rh + 1 \<and> (case h of None \<Rightarrow> True | Some m \<Rightarrow> m + 1 < n)
     | Unknown m rh \<Rightarrow> m = n \<and> recordHead a s = rh \<and> (case rh of None \<Rightarrow> n \<noteq> 1 | Some r \<Rightarrow> r + 1 < n)
     | ServeEvicted m oldest \<Rightarrow> m = n \<and> oldestRetained f = Some oldest \<and> n < oldest)"
proof -
  obtain ap where ap: "follows ap f" "prefix ap (rc_entries (recordFor a s))" and ok: "store_ok s"
    using follower_run_inv [OF assms(1)] assms(2) by blast
  obtain e where w: "walk ap (None, None) = Some (fo_head f, e)" using ap(1) by (auto simp: follows_def)
  have rh: "recordHead a s = rc_head (recordFor a s)"
    by (simp add: recordHead_def recordFor_def empty_record_def split: option.splits)
  show ?thesis
  proof (cases "recordHead a s")
    case None
    have "ticks_of (rc_entries (recordFor a s)) = []"
      using record_sorted(3) [OF recordFor_ok [OF ok], of a] None rh by (auto split: if_splits)
    with assms(3) None show ?thesis by (auto simp: serve_def intro!: exI [of _ "[]"])
  next
    case (Some r)
    show ?thesis
    proof (cases "fo_head f")
      case None
      with Some assms(3) ap(2) show ?thesis by (auto simp: serve_def)
    next
      case h: (Some h)
      have "h \<le> r"
      proof -
        have "ticks_of ap \<noteq> []" "h = sequence (last (ticks_of ap))" using walk_ticks [OF w] h by (auto split: if_splits)
        then have "TickE (last (ticks_of ap)) \<in> set (rc_entries (recordFor a s))"
          using ap(2) by (metis last_in_set set_mono_prefix set_ticks_of subsetD)
        with record_tick_le_head [OF recordFor_ok [OF ok]] rh Some \<open>h = _\<close> show ?thesis by fastforce
      qed
      show ?thesis
      proof (cases "h + 1 < n")
        case True
        with Some h assms(3) ap(2) show ?thesis by (auto simp: serve_def)
      next
        case False
        then have "n \<le> h + 1" by simp
        from serve_entries [OF ap(1) assms(3) h this \<open>h \<le> r\<close>] Some ap(2) show ?thesis
          by (cases "oldestRetained f") auto
      qed
    qed
  qed
qed

theorem serve_truthful_witness:
  "\<exists>ap answer. prefix ap (map TickE demo_batch) \<and> serve (num 2) (Some 2) demo_follower = Inr answer"
  using serve_truthful [OF demo_follower_run demo_mirrorable, of 2] by (auto simp: demo_record)

text \<open>An instant inside a seam, where no price is answered, is one whose window spans the seam.\<close>

lemma priceAt_seam: "spansSeam f i i \<Longrightarrow> priceAt f i = None"
  by (auto simp: spansSeam_def priceAt_def list_ex_iff split: option.splits)

lemma price_walk_last:
  "price_walk i ts answer = (case takeWhile (\<lambda>t. instant t \<le> i) ts of [] \<Rightarrow> answer | us \<Rightarrow> Some (price (last us)))"
  by (induction i ts answer rule: price_walk.induct) (auto split: list.splits)

end
