(* ===== verification/Settle.thy ===== *)
theory Settle
  imports Contract
begin

text \<open>
  Settlement: packages/trading/src/settle.ts. A contract is settled against the published record
  alone, at its final millisecond, by the price in force there and at its entry; only a change
  of lattice inside its window, an unstated discontinuity, or a record that does not reach both
  ends refuses it.
\<close>

section \<open>The model\<close>

text \<open>\<^verbatim>\<open>reframes\<close> is \<open>None\<close> where a caller without types left it out.\<close>

record record_seam =
  sm_lastInstant :: int
  sm_resumesAtInstant :: int
  sm_reframes :: "bool option"

record tick_record =
  tr_instants :: "int list"
  tr_prices :: "int list"
  tr_seams :: "record_seam list option"

definition resolve :: "string \<Rightarrow> int \<Rightarrow> int \<Rightarrow> AtMoneyPolicy \<Rightarrow> Outcome" where
  "resolve direction entryPrice expiryPrice policy =
     (if expiryPrice = entryPrice
      then (case policy of AM_refund \<Rightarrow> Refund | AM_loss \<Rightarrow> Loss | AM_win \<Rightarrow> Win)
      else let moved = (if entryPrice < expiryPrice then ''up'' else ''down'') in
        if moved = direction then Win else Loss)"

definition expiryOf :: "contract \<Rightarrow> int result" where
  "expiryOf c = epochMillis (js_add (num (ct_entryInstant c)) (ct_horizonMs c))"

definition crossedSeams :: "record_seam list \<Rightarrow> int \<Rightarrow> int \<Rightarrow> record_seam list" where
  "crossedSeams seams entryInstant expiryInstant =
     filter (\<lambda>s. entryInstant < sm_resumesAtInstant s \<and> sm_lastInstant s < expiryInstant) seams"

fun checkSeams :: "record_seam list \<Rightarrow> unit result" where
  "checkSeams [] = Inr ()"
| "checkSeams (s # ss) = (case sm_reframes s of
     None \<Rightarrow> Inl (NotSettleable ''seam does not say'')
   | Some r \<Rightarrow> if r then Inl (NotSettleable ''change of lattice'') else checkSeams ss)"

definition settle :: "contract \<Rightarrow> tick_record \<Rightarrow> AtMoneyPolicy \<Rightarrow> settlement result" where
  "settle c rec policy =
     andThen (assertContract c) (\<lambda>_.
     case tr_seams rec of None \<Rightarrow> Inl (NotSettleable ''discontinuities not stated'')
     | Some seams \<Rightarrow>
     andThen (epochMillis (js_add (num (ct_entryInstant c)) (ct_horizonMs c))) (\<lambda>expiryInstant.
     andThen (priceAtOrBefore (tr_instants rec) (tr_prices rec) (ct_entryInstant c)) (\<lambda>entryOpt.
     case entryOpt of None \<Rightarrow> Inl (NotSettleable ''record starts after the entry'')
     | Some entry \<Rightarrow>
     let len = min (length (tr_instants rec)) (length (tr_prices rec)) in
     if len = 0 \<or> tr_instants rec ! (len - 1) < expiryInstant
     then Inl (NotSettleable ''beyond the record'')
     else let crossed = crossedSeams seams (ct_entryInstant c) expiryInstant in
     andThen (checkSeams crossed) (\<lambda>_.
     andThen (priceAtOrBefore (tr_instants rec) (tr_prices rec) expiryInstant) (\<lambda>expiryOpt.
     case expiryOpt of None \<Rightarrow> Inl (NotSettleable ''no price in force'')
     | Some expiry \<Rightarrow>
     let outcome = resolve (ct_direction c) (pf_price entry) (pf_price expiry) policy in
     andThen (case outcome of
         Win \<Rightarrow> andThen (payoutMinor (ct_stake c) (ct_payoutRatio c)) (\<lambda>p. Inr (js_add (ct_stake c) p))
       | Refund \<Rightarrow> Inr (ct_stake c)
       | Loss \<Rightarrow> Inr (num 0)) (\<lambda>returned.
     Inr \<lparr>se_contractId = ct_id c, se_outcome = outcome, se_entryPrice = pf_price entry,
       se_expiryPrice = pf_price expiry, se_entryIndex = pf_index entry,
       se_expiryIndex = pf_index expiry, se_expiryInstant = expiryInstant,
       se_returned = returned, se_net = js_sub returned (ct_stake c),
       se_seamsCrossed = length crossed\<rparr>))))))"

section \<open>Aggregate economics\<close>

record ledger =
  lg_contracts :: nat
  lg_wins :: nat
  lg_losses :: nat
  lg_refunds :: nat
  lg_staked :: jsnum
  lg_returned :: jsnum
  lg_operatorMargin :: jsnum
  lg_winRateOfDecided :: jsnum

record tally_state =
  ts_wins :: nat
  ts_losses :: nat
  ts_refunds :: nat
  ts_staked :: jsnum
  ts_returned :: jsnum

definition tally_step :: "settlement \<times> jsnum \<Rightarrow> tally_state \<Rightarrow> tally_state" where
  "tally_step p s = (case p of (settlement, stake) \<Rightarrow>
     let s1 = (case se_outcome settlement of
         Win \<Rightarrow> s\<lparr>ts_wins := ts_wins s + 1\<rparr>
       | Loss \<Rightarrow> s\<lparr>ts_losses := ts_losses s + 1\<rparr>
       | Refund \<Rightarrow> s\<lparr>ts_refunds := ts_refunds s + 1\<rparr>) in
     s1\<lparr>ts_staked := js_add (ts_staked s1) stake,
        ts_returned := js_add (ts_returned s1) (se_returned settlement)\<rparr>)"

definition tally :: "settlement list \<Rightarrow> jsnum list \<Rightarrow> ledger result" where
  "tally settlements stakes =
     (if length settlements \<noteq> length stakes then Inl (RangeError ''one stake per settlement'')
      else let s = fold tally_step (zip settlements stakes)
             \<lparr>ts_wins = 0, ts_losses = 0, ts_refunds = 0, ts_staked = num 0, ts_returned = num 0\<rparr>;
           decided = ts_wins s + ts_losses s in
        Inr \<lparr>lg_contracts = length settlements, lg_wins = ts_wins s, lg_losses = ts_losses s,
          lg_refunds = ts_refunds s, lg_staked = ts_staked s, lg_returned = ts_returned s,
          lg_operatorMargin = (if js_eq (ts_staked s) (num 0) then num 0
            else js_div (js_sub (ts_staked s) (ts_returned s)) (ts_staked s)),
          lg_winRateOfDecided = (if decided = 0 then num 0
            else js_div (num (int (ts_wins s))) (num (int decided)))\<rparr>)"

section \<open>The rule in force\<close>

text \<open>A record as the runtime keeps it: instants in order, prices an \<^verbatim>\<open>Int32Array\<close> can hold.\<close>

definition record_ok :: "tick_record \<Rightarrow> bool" where
  "record_ok rec \<longleftrightarrow> sorted (tr_instants rec) \<and> (\<forall>p\<in>set (tr_prices rec). valid_price p) \<and>
     length (tr_prices rec) = length (tr_instants rec)"

text \<open>The index of the tick in force at an instant, read off the record.\<close>

definition in_force :: "tick_record \<Rightarrow> int \<Rightarrow> nat option" where
  "in_force rec t = (let ks = ticks_at_or_before (tr_instants rec) (length (tr_instants rec)) t in
     if ks = [] then None else Some (last ks))"

lemma priceAtOrBefore_in_force:
  assumes "record_ok rec"
  shows "priceAtOrBefore (tr_instants rec) (tr_prices rec) t =
    Inr (map_option (\<lambda>k. \<lparr>pf_price = tr_prices rec ! k, pf_index = k\<rparr>) (in_force rec t))"
  using assms priceAtOrBefore_eq [of "tr_instants rec" "tr_prices rec" t]
  by (simp add: record_ok_def in_force_def Let_def)

lemma in_force_None: "in_force rec t = None \<longleftrightarrow> (\<forall>k<length (tr_instants rec). t < tr_instants rec ! k)"
  by (auto simp: in_force_def ticks_at_or_before_def Let_def filter_empty_conv not_le)

lemma in_force_later: "in_force rec u \<noteq> None \<Longrightarrow> u \<le> t \<Longrightarrow> in_force rec t \<noteq> None"
  by (auto simp: in_force_None dest: order.strict_trans1)

lemma in_force_nonempty: "in_force rec t = Some i \<Longrightarrow> tr_instants rec \<noteq> []"
  by (auto simp: in_force_def ticks_at_or_before_def Let_def split: if_splits)

lemma checkSeams_iff: "checkSeams ss = Inr () \<longleftrightarrow> (\<forall>s\<in>set ss. sm_reframes s = Some False)"
  by (induction ss) (auto split: option.splits)

lemma checkSeams_error:
  "checkSeams ss \<noteq> Inr () \<Longrightarrow> \<exists>m. checkSeams ss = Inl (NotSettleable m)"
  by (induction ss) (auto split: option.splits)

section \<open>Settlement as a rule\<close>

text \<open>What a settled contract returns, in the minor unit, when no product overflows.\<close>

definition returned_for :: "Outcome \<Rightarrow> int \<Rightarrow> int \<Rightarrow> int" where
  "returned_for outcome s k = (case outcome of Win \<Rightarrow> s + s * k div 10000 | Refund \<Rightarrow> s | Loss \<Rightarrow> 0)"

text \<open>The record of a settlement between the ticks \<open>i\<close> and \<open>j\<close>.\<close>

definition settlement_of ::
  "contract \<Rightarrow> tick_record \<Rightarrow> AtMoneyPolicy \<Rightarrow> int \<Rightarrow> nat \<Rightarrow> nat \<Rightarrow> nat \<Rightarrow> jsnum \<Rightarrow> settlement" where
  "settlement_of c rec policy E i j n returned =
     \<lparr>se_contractId = ct_id c,
      se_outcome = resolve (ct_direction c) (tr_prices rec ! i) (tr_prices rec ! j) policy,
      se_entryPrice = tr_prices rec ! i, se_expiryPrice = tr_prices rec ! j,
      se_entryIndex = i, se_expiryIndex = j, se_expiryInstant = E,
      se_returned = returned, se_net = js_sub returned (ct_stake c), se_seamsCrossed = n\<rparr>"

definition pay :: "contract \<Rightarrow> Outcome \<Rightarrow> jsnum result" where
  "pay c outcome = (case outcome of
      Win \<Rightarrow> andThen (payoutMinor (ct_stake c) (ct_payoutRatio c)) (\<lambda>p. Inr (js_add (ct_stake c) p))
    | Refund \<Rightarrow> Inr (ct_stake c)
    | Loss \<Rightarrow> Inr (num 0))"

lemma settle_eq:
  assumes "record_ok rec" "tr_seams rec = Some ss" "assertContract c = Inr ()"
    and "ct_horizonMs c = num h" "0 \<le> ct_entryInstant c"
  shows "settle c rec policy =
    (let E = ct_entryInstant c + h; crossed = crossedSeams ss (ct_entryInstant c) E in
     if MAX_EPOCH_MILLIS < E then Inl (RangeError ''epochMillis'')
     else case in_force rec (ct_entryInstant c) of
       None \<Rightarrow> Inl (NotSettleable ''record starts after the entry'')
     | Some i \<Rightarrow>
         if last (tr_instants rec) < E then Inl (NotSettleable ''beyond the record'')
         else andThen (checkSeams crossed) (\<lambda>_.
           let j = the (in_force rec E);
               outcome = resolve (ct_direction c) (tr_prices rec ! i) (tr_prices rec ! j) policy in
           andThen (pay c outcome) (\<lambda>returned.
             Inr (settlement_of c rec policy E i j (length crossed) returned))))"
proof -
  let ?E = "ct_entryInstant c + h"
  have h: "0 < h" using assms(3,4) by (auto elim: assertContract_fields)
  then have E: "epochMillis (js_add (num (ct_entryInstant c)) (ct_horizonMs c)) =
      (if ?E \<le> MAX_EPOCH_MILLIS then Inr ?E else Inl (RangeError ''epochMillis''))"
    using assms(4,5) by (simp add: epochMillis_sum)
  have len: "min (length (tr_instants rec)) (length (tr_prices rec)) = length (tr_instants rec)"
    using assms(1) by (simp add: record_ok_def)
  note P = priceAtOrBefore_in_force [OF assms(1)]
  show ?thesis
  proof (cases "in_force rec (ct_entryInstant c)")
    case None
    show ?thesis
      unfolding settle_def assms(2,3) E P len Let_def None by simp
  next
    case (Some i)
    then have "in_force rec ?E \<noteq> None" using h in_force_later [of rec "ct_entryInstant c" ?E] by simp
    then obtain j where j: "in_force rec ?E = Some j" by blast
    have ne: "tr_instants rec \<noteq> []" using Some by (rule in_force_nonempty)
    have l: "(length (tr_instants rec) = 0 \<or> tr_instants rec ! (length (tr_instants rec) - 1) < ?E) =
        (last (tr_instants rec) < ?E)"
      using ne by (simp add: last_conv_nth)
    show ?thesis
      unfolding settle_def assms(2,3) E P len Let_def l Some pay_def settlement_of_def
      by (simp add: j ne last_conv_nth)
  qed
qed

lemma pay_exact:
  assumes "ct_stake c = num s" "scaledRatio (ct_payoutRatio c) = num k" "0 \<le> s" "0 \<le> k"
    and "s * k \<le> MAX_SAFE" "s + s * k div 10000 \<le> 2 ^ 53"
  shows "pay c outcome = Inr (num (returned_for outcome s k))"
proof -
  have "0 \<le> s * k div 10000" using assms(3,4) by (simp add: pos_imp_zdiv_nonneg_iff)
  then have "js_add (num s) (num (s * k div 10000)) = num (s + s * k div 10000)"
    using assms(3,6) by (intro js_add_num) simp
  moreover have "payoutMinor (num s) (ct_payoutRatio c) = Inr (num (s * k div 10000))"
    using payoutMinor_num [OF assms(3,4,2)] assms(5) by (simp add: PAYOUT_RATIO_SCALE_def)
  ultimately show ?thesis
    by (cases outcome) (simp_all add: pay_def returned_for_def assms(1))
qed

section \<open>The properties\<close>

text \<open>C2: settlement is the rule in force, for a contract whose stake times ratio in ten-thousandths is at
  most \<open>2 ^ 53 - 1\<close> and whose stake with its payout is at most \<open>2 ^ 53\<close>: the entry and the expiry are the last ticks at or
  before the two ends of the window, the outcome is their exact comparison, what is returned
  is exact, and the only refusals are a window past the last representable instant, a record
  that starts after the entry or ends before the expiry, and a seam inside the window that
  changes the lattice or does not say whether it does.\<close>

theorem settle_rule:
  assumes "record_ok rec" "tr_seams rec = Some ss" "assertContract c = Inr ()"
    and "0 \<le> ct_entryInstant c" "ct_stake c = num s" "ct_horizonMs c = num h"
    and "scaledRatio (ct_payoutRatio c) = num k" "0 \<le> k" "s * k \<le> MAX_SAFE"
    and "s + s * k div 10000 \<le> 2 ^ 53"
  shows "let E = ct_entryInstant c + h; crossed = crossedSeams ss (ct_entryInstant c) E in
    if MAX_EPOCH_MILLIS < E then settle c rec policy = Inl (RangeError ''epochMillis'')
    else if in_force rec (ct_entryInstant c) = None \<or> last (tr_instants rec) < E \<or>
      (\<exists>seam\<in>set crossed. sm_reframes seam \<noteq> Some False)
    then \<exists>m. settle c rec policy = Inl (NotSettleable m)
    else \<exists>i j. in_force rec (ct_entryInstant c) = Some i \<and> in_force rec E = Some j \<and>
      (let returned = returned_for (resolve (ct_direction c) (tr_prices rec ! i) (tr_prices rec ! j) policy) s k
       in settle c rec policy =
         Inr ((settlement_of c rec policy E i j (length crossed) (num returned))\<lparr>se_net := num (returned - s)\<rparr>))"
proof -
  let ?E = "ct_entryInstant c + h"
  let ?crossed = "crossedSeams ss (ct_entryInstant c) ?E"
  note S = settle_eq [OF assms(1-3,6,4), of policy]
  have s: "0 < s" "s \<le> MAX_SAFE" "0 < h" using assms(3,5,6) by (auto elim: assertContract_fields)
  show ?thesis
  proof (cases "MAX_EPOCH_MILLIS < ?E")
    case True
    then show ?thesis using S by (simp add: Let_def)
  next
    case ok: False
    show ?thesis
    proof (cases "in_force rec (ct_entryInstant c) = None \<or> last (tr_instants rec) < ?E \<or>
        checkSeams ?crossed \<noteq> Inr ()")
      case True
      then have "\<exists>m. settle c rec policy = Inl (NotSettleable m)"
        using S ok checkSeams_error [of ?crossed]
        by (cases "in_force rec (ct_entryInstant c)") (auto simp: Let_def)
      with True ok checkSeams_iff [of ?crossed] show ?thesis by (simp add: Let_def)
    next
      case False
      then obtain i where i: "in_force rec (ct_entryInstant c) = Some i" by auto
      then have "in_force rec ?E \<noteq> None"
        using s(3) in_force_later [of rec "ct_entryInstant c" ?E] by simp
      then obtain j where j: "in_force rec ?E = Some j" by blast
      let ?o = "resolve (ct_direction c) (tr_prices rec ! i) (tr_prices rec ! j) policy"
      have sk: "0 \<le> s * k div 10000" using s assms(8) by (simp add: pos_imp_zdiv_nonneg_iff)
      have net: "js_sub (num (returned_for ?o s k)) (num s) = num (returned_for ?o s k - s)"
        using s sk assms(10) by (intro js_sub_num) (auto simp: returned_for_def split: Outcome.split)
      have "settle c rec policy =
          Inr ((settlement_of c rec policy ?E i j (length ?crossed) (num (returned_for ?o s k)))
            \<lparr>se_net := num (returned_for ?o s k - s)\<rparr>)"
        using S ok False i j pay_exact [OF assms(5,7) _ assms(8,9,10), of ?o] s net
        by (simp add: Let_def settlement_of_def assms(5))
      then show ?thesis using ok False i j checkSeams_iff [of ?crossed] by (auto simp: Let_def)
    qed
  qed
qed

abbreviation demo_record :: tick_record where
  "demo_record \<equiv> \<lparr>tr_instants = [500, 1200, 2600, 4000, 5200], tr_prices = [10, 12, 9, 15, 14],
     tr_seams = Some [\<lparr>sm_lastInstant = 1200, sm_resumesAtInstant = 2600, sm_reframes = Some False\<rparr>]\<rparr>"

lemma demo_record_ok: "record_ok demo_record"
  by (simp add: record_ok_def valid_price_def)

lemma demo_contract_ok:
  "0 < s \<Longrightarrow> s \<le> MAX_SAFE \<Longrightarrow> d = ''up'' \<or> d = ''down'' \<Longrightarrow> assertContract (demo_contract d s) = Inr ()"
  using decimal_tolerated [of 8500] by (auto simp: assertContract_def Let_def)

lemma demo_in_force:
  "in_force demo_record 1000 = Some 0" "in_force demo_record 4000 = Some 3"
  by (simp_all add: in_force_def ticks_at_or_before_def upt_rec)

lemma demo_crossed: "length (crossedSeams [\<lparr>sm_lastInstant = 1200, sm_resumesAtInstant = 2600,
    sm_reframes = Some False\<rparr>] 1000 4000) = 1"
  "\<forall>s\<in>set (crossedSeams [\<lparr>sm_lastInstant = 1200, sm_resumesAtInstant = 2600,
    sm_reframes = Some False\<rparr>] 1000 4000). sm_reframes s = Some False"
  by (simp_all add: crossedSeams_def)

theorem settle_rule_witness:
  "\<exists>x. settle (demo_contract ''up'' 100) demo_record AM_refund = Inr x \<and> se_outcome x = Win \<and>
     se_returned x = num 185 \<and> se_net x = num 85 \<and> se_seamsCrossed x = 1"
proof -
  have a: "0 \<le> ct_entryInstant (demo_contract ''up'' 100)" "ct_stake (demo_contract ''up'' 100) = num 100"
    "ct_horizonMs (demo_contract ''up'' 100) = num 3000"
    "scaledRatio (ct_payoutRatio (demo_contract ''up'' 100)) = num 8500" "(0::int) \<le> 8500"
    "100 * 8500 \<le> MAX_SAFE" "100 + 100 * 8500 div 10000 \<le> (2::int) ^ 53"
    using decimal_round [of 8500] by simp_all
  have s: "tr_seams demo_record = Some [\<lparr>sm_lastInstant = 1200, sm_resumesAtInstant = 2600,
      sm_reframes = Some False\<rparr>]" by simp
  have c: "assertContract (demo_contract ''up'' 100) = Inr ()" by (rule demo_contract_ok) simp_all
  from settle_rule [OF demo_record_ok s c a, of AM_refund]
  show ?thesis
    using demo_in_force demo_crossed
    by (auto simp: Let_def MAX_EPOCH_MILLIS_def resolve_def returned_for_def settlement_of_def)
qed

lemma settle_Inr:
  assumes "settle c rec policy = Inr x"
  shows "assertContract c = Inr ()" "\<exists>ss. tr_seams rec = Some ss" "\<exists>h. ct_horizonMs c = num h \<and> 0 < h"
proof -
  show a: "assertContract c = Inr ()" using assms by (auto simp: settle_def andThen_Inr_iff)
  show "\<exists>ss. tr_seams rec = Some ss"
    using assms by (cases "tr_seams rec") (auto simp: settle_def andThen_Inr_iff)
  show "\<exists>h. ct_horizonMs c = num h \<and> 0 < h" by (rule assertContract_fields [OF a]) blast
qed

lemma in_force_extend:
  assumes "tr_instants rec' = tr_instants rec @ ys" "\<forall>y\<in>set ys. t < y"
  shows "in_force rec' t = in_force rec t"
proof -
  let ?xs = "tr_instants rec"
  have u: "[0..<length (?xs @ ys)] = [0..<length ?xs] @ map (\<lambda>k. k + length ?xs) [0..<length ys]"
    using upt_add_eq_append [of 0 "length ?xs" "length ys"]
    by (simp add: map_add_upt add.commute [of "length ys"])
  have "filter (\<lambda>k. (?xs @ ys) ! k \<le> t) (map (\<lambda>k. k + length ?xs) [0..<length ys]) = []"
    using assms(2) by (auto simp: filter_empty_conv nth_append not_le)
  moreover have "filter (\<lambda>k. (?xs @ ys) ! k \<le> t) [0..<length ?xs] = filter (\<lambda>k. ?xs ! k \<le> t) [0..<length ?xs]"
    by (intro filter_cong) (auto simp: nth_append)
  ultimately have "ticks_at_or_before (tr_instants rec') (length (tr_instants rec')) t =
      ticks_at_or_before ?xs (length ?xs) t"
    unfolding ticks_at_or_before_def assms(1) u filter_append by simp
  then show ?thesis by (simp add: in_force_def)
qed

lemma in_force_bound:
  assumes "in_force rec t = Some i"
  shows "i < length (tr_instants rec)"
proof -
  let ?ks = "ticks_at_or_before (tr_instants rec) (length (tr_instants rec)) t"
  have "?ks \<noteq> []" "i = last ?ks" using assms by (auto simp: in_force_def Let_def split: if_splits)
  then have "i \<in> set ?ks" using last_in_set by blast
  then show ?thesis by (simp add: ticks_at_or_before_def)
qed

text \<open>The shape of every successful settlement, and the way back.\<close>

lemma settle_shape:
  assumes "record_ok rec" "0 \<le> ct_entryInstant c" "tr_seams rec = Some ss" "ct_horizonMs c = num h"
    and "settle c rec policy = Inr x"
  obtains i j r where "in_force rec (ct_entryInstant c) = Some i"
    "in_force rec (ct_entryInstant c + h) = Some j" "\<not> last (tr_instants rec) < ct_entryInstant c + h"
    "ct_entryInstant c + h \<le> MAX_EPOCH_MILLIS"
    "checkSeams (crossedSeams ss (ct_entryInstant c) (ct_entryInstant c + h)) = Inr ()"
    "pay c (resolve (ct_direction c) (tr_prices rec ! i) (tr_prices rec ! j) policy) = Inr r"
    "x = settlement_of c rec policy (ct_entryInstant c + h) i j
       (length (crossedSeams ss (ct_entryInstant c) (ct_entryInstant c + h))) r"
proof -
  let ?e = "ct_entryInstant c" and ?E = "ct_entryInstant c + h"
  note S = settle_eq [OF assms(1,3) settle_Inr(1) [OF assms(5)] assms(4,2), of policy]
  have h: "0 < h" using settle_Inr(3) [OF assms(5)] assms(4) by simp
  have E: "\<not> MAX_EPOCH_MILLIS < ?E" using S assms(5) by (auto simp: Let_def)
  obtain i where i: "in_force rec ?e = Some i" "\<not> last (tr_instants rec) < ?E"
    using S assms(5) E by (cases "in_force rec ?e") (auto simp: Let_def split: if_splits)
  then obtain j where j: "in_force rec ?E = Some j"
    using h in_force_later [of rec ?e ?E] by auto
  have "andThen (checkSeams (crossedSeams ss ?e ?E)) (\<lambda>_.
      andThen (pay c (resolve (ct_direction c) (tr_prices rec ! i) (tr_prices rec ! j) policy)) (\<lambda>r.
        Inr (settlement_of c rec policy ?E i j (length (crossedSeams ss ?e ?E)) r))) = Inr x"
    using S assms(5) E i j by (simp add: Let_def)
  with that [OF i(1) j i(2)] E show thesis by (auto simp: andThen_Inr_iff)
qed

lemma settle_intro:
  assumes "record_ok rec" "0 \<le> ct_entryInstant c" "tr_seams rec = Some ss" "ct_horizonMs c = num h"
    and "assertContract c = Inr ()" "in_force rec (ct_entryInstant c) = Some i"
    "in_force rec (ct_entryInstant c + h) = Some j" "\<not> last (tr_instants rec) < ct_entryInstant c + h"
    "ct_entryInstant c + h \<le> MAX_EPOCH_MILLIS"
    "checkSeams (crossedSeams ss (ct_entryInstant c) (ct_entryInstant c + h)) = Inr ()"
  shows "settle c rec policy =
    andThen (pay c (resolve (ct_direction c) (tr_prices rec ! i) (tr_prices rec ! j) policy)) (\<lambda>r.
      Inr (settlement_of c rec policy (ct_entryInstant c + h) i j
        (length (crossedSeams ss (ct_entryInstant c) (ct_entryInstant c + h))) r))"
  using settle_eq [OF assms(1,3,5,4,2), of policy] assms(6-) by (simp add: Let_def)

lemma in_force_latest:
  assumes "in_force rec t = Some j" "k < length (tr_instants rec)" "tr_instants rec ! k \<le> t"
  shows "k \<le> j"
proof -
  let ?ks = "ticks_at_or_before (tr_instants rec) (length (tr_instants rec)) t"
  have "k \<in> set ?ks" "sorted ?ks" using assms(2,3) by (simp_all add: ticks_at_or_before_def sorted_wrt_filter)
  then obtain n where n: "n < length ?ks" "k = ?ks ! n" by (auto simp: in_set_conv_nth)
  have "j = last ?ks" using assms(1) by (auto simp: in_force_def Let_def split: if_splits)
  then have "j = ?ks ! (length ?ks - 1)" using n(1) by (cases "?ks = []") (simp_all add: last_conv_nth)
  with n show ?thesis using sorted_nth_mono [OF \<open>sorted ?ks\<close>, of n "length ?ks - 1"] by simp
qed

text \<open>C9: a settlement is final exactly when no tick published afterwards carries the expiry instant
  itself. Whatever ticks a record gains, in order, and whatever seams open at its end or later,
  settling the same contract again gives the identical statement if and only if every added tick lies
  after the expiry. The record a contract settles over need only reach its expiry, not past it, and
  two ticks may share a millisecond: a contract settled on a record that ends at its expiry is
  settled by another tick once one more arrives in that millisecond.\<close>

theorem settle_final:
  assumes "record_ok rec" "record_ok rec'" "0 \<le> ct_entryInstant c" "settle c rec policy = Inr x"
    and "tr_instants rec' = tr_instants rec @ ys" "tr_prices rec' = tr_prices rec @ ps"
    and "tr_seams rec = Some ss" "tr_seams rec' = Some (ss @ later)"
    and "\<forall>s\<in>set later. last (tr_instants rec) \<le> sm_lastInstant s"
  shows "settle c rec' policy = Inr x \<longleftrightarrow> (\<forall>y\<in>set ys. se_expiryInstant x < y)"
proof -
  obtain h where h: "ct_horizonMs c = num h" "0 < h" using settle_Inr(3) [OF assms(4)] by blast
  let ?e = "ct_entryInstant c" and ?E = "ct_entryInstant c + h"
  obtain i j r where i: "in_force rec ?e = Some i" and j: "in_force rec ?E = Some j"
    and l: "\<not> last (tr_instants rec) < ?E" and m: "?E \<le> MAX_EPOCH_MILLIS"
    and s: "checkSeams (crossedSeams ss ?e ?E) = Inr ()"
    and p: "pay c (resolve (ct_direction c) (tr_prices rec ! i) (tr_prices rec ! j) policy) = Inr r"
    and x: "x = settlement_of c rec policy ?E i j (length (crossedSeams ss ?e ?E)) r"
    by (rule settle_shape [OF assms(1,3,7) h(1) assms(4)])
  have E: "se_expiryInstant x = ?E" "se_expiryIndex x = j" by (simp_all add: x settlement_of_def)
  have cr: "crossedSeams (ss @ later) ?e ?E = crossedSeams ss ?e ?E"
    using assms(9) l by (auto simp: crossedSeams_def filter_empty_conv)
  have b: "i < length (tr_instants rec)" "j < length (tr_instants rec)" by (rule in_force_bound [OF i], rule in_force_bound [OF j])
  show ?thesis
  proof
    assume fut: "\<forall>y\<in>set ys. se_expiryInstant x < y"
    then have "\<forall>y\<in>set ys. ?e < y" "\<forall>y\<in>set ys. ?E < y" using E(1) h(2) by auto
    then have i': "in_force rec' ?e = Some i" "in_force rec' ?E = Some j"
      using in_force_extend [OF assms(5)] i j by simp_all
    have l': "\<not> last (tr_instants rec') < ?E"
      using l fut E(1) in_force_nonempty [OF i] assms(5) by (cases ys rule: rev_cases) auto
    have q: "tr_prices rec' ! i = tr_prices rec ! i" "tr_prices rec' ! j = tr_prices rec ! j"
      using assms(1,6) b by (simp_all add: record_ok_def nth_append)
    have "checkSeams (crossedSeams (ss @ later) ?e ?E) = Inr ()" using s cr by simp
    from settle_intro [OF assms(2,3,8) h(1) settle_Inr(1) [OF assms(4)] i' l' m this, of policy]
    show "settle c rec' policy = Inr x" by (simp add: q p x cr settlement_of_def)
  next
    assume again: "settle c rec' policy = Inr x"
    obtain i' j' r' where "in_force rec' ?E = Some j'"
      "x = settlement_of c rec' policy ?E i' j' (length (crossedSeams (ss @ later) ?e ?E)) r'"
      by (rule settle_shape [OF assms(2,3,8) h(1) again])
    then have j': "in_force rec' ?E = Some j" using E(2) by (simp add: settlement_of_def)
    show "\<forall>y\<in>set ys. se_expiryInstant x < y"
    proof (rule ballI, rule ccontr)
      fix y assume "y \<in> set ys" "\<not> se_expiryInstant x < y"
      then obtain k where "k < length ys" "ys ! k \<le> ?E" using E(1) by (auto simp: in_set_conv_nth)
      then have "length (tr_instants rec) + k \<le> j" using in_force_latest [OF j'] assms(5) by simp
      with b(2) show False by simp
    qed
  qed
qed

lemma demo_settled:
  "settle (demo_contract ''up'' 100) demo_record AM_refund =
     Inr (settlement_of (demo_contract ''up'' 100) demo_record AM_refund 4000 0 3 1 (num 185))"
proof -
  let ?c = "demo_contract ''up'' 100"
  have c: "assertContract ?c = Inr ()" by (rule demo_contract_ok) simp_all
  have "settle ?c demo_record AM_refund = andThen (pay ?c Win) (\<lambda>r.
      Inr (settlement_of ?c demo_record AM_refund 4000 0 3 1 r))"
    using settle_intro [OF demo_record_ok _ _ _ c, of _ 3000 0 3 AM_refund] demo_in_force demo_crossed
    by (simp add: MAX_EPOCH_MILLIS_def checkSeams_iff resolve_def)
  moreover have "pay ?c Win = Inr (num 185)"
    using pay_exact [of ?c 100 8500 Win] decimal_round [of 8500] by (simp add: returned_for_def)
  ultimately show ?thesis by simp
qed

text \<open>The same record cut at the expiry instant of the contract settles it alike.\<close>

abbreviation short_record :: "int list \<Rightarrow> int list \<Rightarrow> tick_record" where
  "short_record ys ps \<equiv> \<lparr>tr_instants = [500, 1200, 2600, 4000] @ ys, tr_prices = [10, 12, 9, 15] @ ps,
     tr_seams = Some [\<lparr>sm_lastInstant = 1200, sm_resumesAtInstant = 2600, sm_reframes = Some False\<rparr>]\<rparr>"

lemma short_settled:
  "settle (demo_contract ''up'' 100) (short_record [] []) AM_refund =
     Inr (settlement_of (demo_contract ''up'' 100) (short_record [] []) AM_refund 4000 0 3 1 (num 185))"
proof -
  let ?c = "demo_contract ''up'' 100" and ?r = "short_record [] []"
  have c: "assertContract ?c = Inr ()" by (rule demo_contract_ok) simp_all
  have "record_ok ?r" "in_force ?r 1000 = Some 0" "in_force ?r 4000 = Some 3"
    by (simp_all add: record_ok_def valid_price_def in_force_def ticks_at_or_before_def upt_rec)
  then have "settle ?c ?r AM_refund = andThen (pay ?c Win) (\<lambda>r. Inr (settlement_of ?c ?r AM_refund 4000 0 3 1 r))"
    using settle_intro [OF _ _ _ _ c, of ?r _ 3000 0 3 AM_refund] demo_crossed
    by (simp add: MAX_EPOCH_MILLIS_def checkSeams_iff resolve_def)
  moreover have "pay ?c Win = Inr (num 185)"
    using pay_exact [of ?c 100 8500 Win] decimal_round [of 8500] by (simp add: returned_for_def)
  ultimately show ?thesis by simp
qed

theorem settle_final_witness:
  "settle (demo_contract ''up'' 100) (short_record [6000] [-7]) AM_refund =
     settle (demo_contract ''up'' 100) (short_record [] []) AM_refund \<and>
   settle (demo_contract ''up'' 100) (short_record [4000] [-7]) AM_refund \<noteq>
     settle (demo_contract ''up'' 100) (short_record [] []) AM_refund"
proof -
  have ok: "record_ok (short_record [] [])" "record_ok (short_record [6000] [-7])" "record_ok (short_record [4000] [-7])"
    by (simp_all add: record_ok_def valid_price_def)
  note final = settle_final [OF ok(1) _ _ short_settled, where later = "[]"]
  show ?thesis
    using final [of "short_record [6000] [-7]" "[6000]" "[-7]"] final [of "short_record [4000] [-7]" "[4000]" "[-7]"] ok(2,3)
    unfolding short_settled by (simp add: settlement_of_def)
qed

text \<open> settlement is blind to the side: an up and a down contract on the same window are
  settled by the same two ticks, to the opposite outcome when the price moved and to the same
  one when it did not; so neither side can be favoured.\<close>

theorem settle_opposite:
  assumes "record_ok rec" "0 \<le> ct_entryInstant c"
    and "settle (c\<lparr>ct_direction := ''up''\<rparr>) rec policy = Inr a"
    and "settle (c\<lparr>ct_direction := ''down''\<rparr>) rec policy = Inr b"
  shows "se_entryIndex a = se_entryIndex b \<and> se_expiryIndex a = se_expiryIndex b \<and>
    (if se_expiryPrice a = se_entryPrice a then se_outcome a = se_outcome b
     else {se_outcome a, se_outcome b} = {Win, Loss} \<and>
       (se_outcome a = Win \<longleftrightarrow> se_entryPrice a < se_expiryPrice a))"
proof -
  let ?u = "c\<lparr>ct_direction := ''up''\<rparr>" and ?d = "c\<lparr>ct_direction := ''down''\<rparr>"
  obtain h where h: "ct_horizonMs c = num h" using settle_Inr(3) [OF assms(3)] by auto
  obtain ss where ss: "tr_seams rec = Some ss" using settle_Inr(2) [OF assms(3)] by blast
  have f: "ct_horizonMs ?u = num h" "0 \<le> ct_entryInstant ?u" "ct_horizonMs ?d = num h" "0 \<le> ct_entryInstant ?d"
    using h assms(2) by simp_all
  obtain i j r where a: "in_force rec (ct_entryInstant ?u) = Some i"
    "in_force rec (ct_entryInstant ?u + h) = Some j"
    "a = settlement_of ?u rec policy (ct_entryInstant ?u + h) i j
       (length (crossedSeams ss (ct_entryInstant ?u) (ct_entryInstant ?u + h))) r"
    by (rule settle_shape [OF assms(1) f(2) ss f(1) assms(3)])
  obtain i' j' r' where b: "in_force rec (ct_entryInstant ?d) = Some i'"
    "in_force rec (ct_entryInstant ?d + h) = Some j'"
    "b = settlement_of ?d rec policy (ct_entryInstant ?d + h) i' j'
       (length (crossedSeams ss (ct_entryInstant ?d) (ct_entryInstant ?d + h))) r'"
    by (rule settle_shape [OF assms(1) f(4) ss f(3) assms(4)])
  have "i = i'" "j = j'" using a(1,2) b(1,2) by simp_all
  then show ?thesis unfolding a(3) b(3) by (auto simp: settlement_of_def resolve_def Let_def)
qed

lemma demo_settled_down:
  assumes "0 < s" "s \<le> MAX_SAFE"
  shows "settle (demo_contract ''down'' s) demo_record AM_refund =
     Inr (settlement_of (demo_contract ''down'' s) demo_record AM_refund 4000 0 3 1 (num 0))"
proof -
  have c: "assertContract (demo_contract ''down'' s) = Inr ()" using assms by (intro demo_contract_ok) simp_all
  show ?thesis
    using settle_intro [OF demo_record_ok _ _ _ c, of _ 3000 0 3 AM_refund] demo_in_force demo_crossed
    by (simp add: MAX_EPOCH_MILLIS_def checkSeams_iff resolve_def pay_def)
qed

theorem settle_opposite_witness:
  "\<exists>a b. settle (demo_contract ''up'' 100) demo_record AM_refund = Inr a \<and>
     settle (demo_contract ''down'' 100) demo_record AM_refund = Inr b \<and>
     {se_outcome a, se_outcome b} = {Win, Loss}"
proof -
  obtain a where a: "settle (demo_contract ''up'' 100) demo_record AM_refund = Inr a"
    "se_expiryPrice a \<noteq> se_entryPrice a"
    using demo_settled by (auto simp: settlement_of_def)
  obtain b where b: "settle (demo_contract ''down'' 100) demo_record AM_refund = Inr b"
    using demo_settled_down [of 100] by auto
  have "{se_outcome a, se_outcome b} = {Win, Loss}"
    using settle_opposite [OF demo_record_ok, of "demo_contract ''up'' 100" AM_refund a b] a b by simp
  with a b show ?thesis by blast
qed

text \<open>C15: money is exact or refused, but the refusal is on one side only: a contract whose stake
  times ratio leaves the exact integer range settles as a loss or a refund, and throws
  exactly when it wins.\<close>

theorem settle_overflow:
  assumes "record_ok rec" "0 \<le> ct_entryInstant c" "tr_seams rec = Some []" "ct_horizonMs c = num h"
    and "assertContract c = Inr ()" "in_force rec (ct_entryInstant c) = Some i"
    and "in_force rec (ct_entryInstant c + h) = Some j" "ct_entryInstant c + h \<le> last (tr_instants rec)"
    and "ct_entryInstant c + h \<le> MAX_EPOCH_MILLIS"
    and "ct_stake c = num s" "scaledRatio (ct_payoutRatio c) = num k" "0 \<le> k" "MAX_SAFE < s * k"
  shows "if resolve (ct_direction c) (tr_prices rec ! i) (tr_prices rec ! j) policy = Win
    then settle c rec policy = Inl (RangeError ''exact integer range'')
    else \<exists>x. settle c rec policy = Inr x \<and> se_returned x \<in> {num 0, num s}"
proof -
  have s: "0 < s" by (rule assertContract_fields [OF assms(5)]) (use assms(10) in simp)
  have p: "payoutMinor (num s) (ct_payoutRatio c) = Inl (RangeError ''exact integer range'')"
    using payoutMinor_num [of s k] s assms(11-) by simp
  have "\<not> last (tr_instants rec) < ct_entryInstant c + h" using assms(8) by simp
  note S = settle_intro [OF assms(1-7) this assms(9), of policy]
  show ?thesis
    using S p assms(10)
    by (cases "resolve (ct_direction c) (tr_prices rec ! i) (tr_prices rec ! j) policy")
       (simp_all add: crossedSeams_def pay_def settlement_of_def)
qed

theorem settle_overflow_witness:
  "\<exists>x. settle (demo_contract ''up'' MAX_SAFE) (demo_record\<lparr>tr_seams := Some []\<rparr>) AM_refund =
      Inl (RangeError ''exact integer range'') \<and>
    settle (demo_contract ''down'' MAX_SAFE) (demo_record\<lparr>tr_seams := Some []\<rparr>) AM_refund = Inr x"
proof -
  let ?r = "demo_record\<lparr>tr_seams := Some []\<rparr>"
  have r: "record_ok ?r" "tr_seams ?r = Some []" using demo_record_ok by (simp_all add: record_ok_def)
  have f: "in_force ?r (1000 + 3000) = Some 3" "in_force ?r 1000 = Some 0"
    using demo_in_force by (simp_all add: in_force_def)
  have sr: "scaledRatio (decimal_ratio 8500) = num 8500" by (rule decimal_round) simp_all
  have c: "assertContract (demo_contract d MAX_SAFE) = Inr ()" if "d = ''up'' \<or> d = ''down''" for d
    using that by (intro demo_contract_ok) simp_all
  have "settle (demo_contract ''up'' MAX_SAFE) ?r AM_refund = Inl (RangeError ''exact integer range'')"
    using settle_overflow [of ?r "demo_contract ''up'' MAX_SAFE" 3000 0 3 MAX_SAFE 8500 AM_refund] r f sr
      c [of "''up''"] by (simp add: MAX_EPOCH_MILLIS_def resolve_def)
  moreover have "\<exists>x. settle (demo_contract ''down'' MAX_SAFE) ?r AM_refund = Inr x"
    using settle_overflow [of ?r "demo_contract ''down'' MAX_SAFE" 3000 0 3 MAX_SAFE 8500 AM_refund] r f sr
      c [of "''down''"] by (auto simp: MAX_EPOCH_MILLIS_def resolve_def)
  ultimately show ?thesis by blast
qed

lemma tally_fold:
  assumes "length xs = length ns" "map se_returned xs = map num rs" "\<forall>n\<in>set ns. 0 \<le> n" "\<forall>r\<in>set rs. 0 \<le> r"
    and "ts_staked s = num a" "ts_returned s = num b" "0 \<le> a" "0 \<le> b"
    and "a + sum_list ns \<le> 2 ^ 53" "b + sum_list rs \<le> 2 ^ 53"
  shows "fold tally_step (zip xs (map num ns)) s =
    \<lparr>ts_wins = ts_wins s + length (filter (\<lambda>x. se_outcome x = Win) xs),
     ts_losses = ts_losses s + length (filter (\<lambda>x. se_outcome x = Loss) xs),
     ts_refunds = ts_refunds s + length (filter (\<lambda>x. se_outcome x = Refund) xs),
     ts_staked = num (a + sum_list ns), ts_returned = num (b + sum_list rs)\<rparr>"
  using assms
proof (induction xs arbitrary: ns rs s a b)
  case Nil
  then show ?case by (cases s) simp
next
  case (Cons x xs)
  obtain n ns' where n: "ns = n # ns'" using Cons.prems(1) by (cases ns) auto
  obtain r rs' where r: "rs = r # rs'" using Cons.prems(2) by (cases rs) auto
  have s: "0 \<le> sum_list ns'" "0 \<le> sum_list rs'"
    using Cons.prems(3,4) n r by (simp_all add: sum_list_nonneg)
  then have an: "js_add (num a) (num n) = num (a + n)" and br: "js_add (num b) (num r) = num (b + r)"
    using Cons.prems n r by (auto intro!: js_add_num)
  let ?s = "tally_step (x, num n) s"
  have t: "ts_staked ?s = num (a + n)" "ts_returned ?s = num (b + r)"
    using Cons.prems an br r by (simp_all add: tally_step_def Let_def split: Outcome.split)
  have w: "ts_wins ?s = ts_wins s + (if se_outcome x = Win then 1 else 0)"
    "ts_losses ?s = ts_losses s + (if se_outcome x = Loss then 1 else 0)"
    "ts_refunds ?s = ts_refunds s + (if se_outcome x = Refund then 1 else 0)"
    by (simp_all add: tally_step_def Let_def split: Outcome.split)
  have "fold tally_step (zip xs (map num ns')) ?s =
    \<lparr>ts_wins = ts_wins ?s + length (filter (\<lambda>x. se_outcome x = Win) xs),
     ts_losses = ts_losses ?s + length (filter (\<lambda>x. se_outcome x = Loss) xs),
     ts_refunds = ts_refunds ?s + length (filter (\<lambda>x. se_outcome x = Refund) xs),
     ts_staked = num (a + n + sum_list ns'), ts_returned = num (b + r + sum_list rs')\<rparr>"
    using Cons.prems n r t by (intro Cons.IH) (simp_all add: add.assoc)
  then show ?case by (simp add: n r w add.assoc)
qed

text \<open>The tally of a book loses no contract and no unit of money: the wins, losses and
  refunds add up to the settlements, and the staked and returned totals are the exact sums.\<close>

theorem tally_conserves:
  assumes "length xs = length ns" "map se_returned xs = map num rs" "\<forall>n\<in>set ns. 0 \<le> n" "\<forall>r\<in>set rs. 0 \<le> r"
    and "sum_list ns \<le> 2 ^ 53" "sum_list rs \<le> 2 ^ 53"
  shows "\<exists>l. tally xs (map num ns) = Inr l \<and> lg_contracts l = length xs \<and>
    lg_wins l + lg_losses l + lg_refunds l = length xs \<and>
    lg_wins l = length (filter (\<lambda>x. se_outcome x = Win) xs) \<and>
    lg_staked l = num (sum_list ns) \<and> lg_returned l = num (sum_list rs)"
proof -
  let ?s = "\<lparr>ts_wins = 0, ts_losses = 0, ts_refunds = 0, ts_staked = num 0, ts_returned = num 0\<rparr>"
  have c: "length (filter (\<lambda>x. se_outcome x = Win) xs) + length (filter (\<lambda>x. se_outcome x = Loss) xs) +
      length (filter (\<lambda>x. se_outcome x = Refund) xs) = length xs"
  proof (induction xs)
    case (Cons x xs)
    then show ?case by (cases "se_outcome x") simp_all
  qed simp
  have "fold tally_step (zip xs (map num ns)) ?s =
    \<lparr>ts_wins = length (filter (\<lambda>x. se_outcome x = Win) xs),
     ts_losses = length (filter (\<lambda>x. se_outcome x = Loss) xs),
     ts_refunds = length (filter (\<lambda>x. se_outcome x = Refund) xs),
     ts_staked = num (sum_list ns), ts_returned = num (sum_list rs)\<rparr>"
    using tally_fold [of xs ns rs ?s 0 0] assms by simp
  with assms(1) c show ?thesis by (simp add: tally_def Let_def)
qed

theorem tally_conserves_witness:
  "\<exists>l. tally [settlement_of (demo_contract ''up'' 100) demo_record AM_refund 4000 0 3 1 (num 185),
      settlement_of (demo_contract ''down'' 100) demo_record AM_refund 4000 0 3 1 (num 0)]
     (map num [100, 100]) = Inr l \<and> lg_staked l = num 200 \<and> lg_returned l = num 185"
  using tally_conserves [of "[settlement_of (demo_contract ''up'' 100) demo_record AM_refund 4000 0 3 1 (num 185),
      settlement_of (demo_contract ''down'' 100) demo_record AM_refund 4000 0 3 1 (num 0)]" "[100, 100]" "[185, 0]"]
  by (auto simp: settlement_of_def)

end
