(* ===== verification/Retention.thy ===== *)
theory Retention
  imports Settle
begin

text \<open>
  Retention of the published record: packages/distribution/src/retention.ts. A journal window may be
  discarded once its newest tick is older than the dispute window and the longest contract horizon
  together; a commitment never may. All readings are Numbers.
\<close>

definition DEFAULT_DISPUTE_WINDOW_MS :: int where
  "DEFAULT_DISPUTE_WINDOW_MS = 90 * 24 * 60 * 60 * 1000"

definition LONGEST_HORIZON_MS :: int where
  "LONGEST_HORIZON_MS = 15 * 60 * 1000"

record retention_policy =
  rp_disputeWindowMs :: jsnum
  rp_longestHorizonMs :: "jsnum option"

definition DEFAULT_RETENTION :: retention_policy where
  "DEFAULT_RETENTION = \<lparr>rp_disputeWindowMs = num DEFAULT_DISPUTE_WINDOW_MS,
     rp_longestHorizonMs = Some (num LONGEST_HORIZON_MS)\<rparr>"

record journal_window =
  jw_assetId :: string
  jw_fromSequence :: int
  jw_toSequence :: int
  jw_newestInstant :: jsnum

definition horizon_of :: "retention_policy \<Rightarrow> jsnum" where
  "horizon_of policy = (case rp_longestHorizonMs policy of None \<Rightarrow> num LONGEST_HORIZON_MS | Some h \<Rightarrow> h)"

definition assertPolicy :: "retention_policy \<Rightarrow> unit result" where
  "assertPolicy policy =
     (if \<not> isFinite (rp_disputeWindowMs policy) \<or> js_le (rp_disputeWindowMs policy) (num 0)
      then Inl (RetentionErr ''dispute window'')
      else if \<not> isFinite (horizon_of policy) \<or> js_lt (horizon_of policy) (num 0)
      then Inl (RetentionErr ''longest horizon'')
      else Inr ())"

definition retentionReachMs :: "retention_policy \<Rightarrow> jsnum" where
  "retentionReachMs policy = js_add (rp_disputeWindowMs policy) (horizon_of policy)"

definition journalIsPruneable :: "journal_window \<Rightarrow> jsnum \<Rightarrow> retention_policy \<Rightarrow> bool result" where
  "journalIsPruneable w now policy =
     andThen (assertPolicy policy) (\<lambda>_.
     if \<not> isFinite (jw_newestInstant w) then Inl (RetentionErr ''newest instant'')
     else if \<not> isFinite now then Inl (RetentionErr ''clock reading'')
     else Inr (js_lt (retentionReachMs policy) (js_sub now (jw_newestInstant w))))"

definition commitmentIsPruneable :: "'commitment \<Rightarrow> jsnum \<Rightarrow> retention_policy \<Rightarrow> bool" where
  "commitmentIsPruneable c now policy = False"

fun partition_loop ::
  "journal_window list \<Rightarrow> jsnum \<Rightarrow> retention_policy \<Rightarrow> journal_window list \<Rightarrow> journal_window list \<Rightarrow>
     (journal_window list \<times> journal_window list) result" where
  "partition_loop [] now policy pruneable retained = Inr (pruneable, retained)"
| "partition_loop (w # ws) now policy pruneable retained =
     andThen (journalIsPruneable w now policy) (\<lambda>p.
       if p then partition_loop ws now policy (pruneable @ [w]) retained
       else partition_loop ws now policy pruneable (retained @ [w]))"

definition partitionForRetention ::
  "journal_window list \<Rightarrow> jsnum \<Rightarrow> retention_policy \<Rightarrow> (journal_window list \<times> journal_window list) result" where
  "partitionForRetention windows now policy =
     andThen (assertPolicy policy) (\<lambda>_.
     if \<not> isFinite now then Inl (RetentionErr ''clock reading'')
     else partition_loop windows now policy [] [])"

section \<open>What is kept\<close>

lemma partition_loop_spec:
  "partition_loop ws now policy ps rs = Inr (ps', rs') \<Longrightarrow>
     ps' = ps @ filter (\<lambda>w. journalIsPruneable w now policy = Inr True) ws \<and>
     rs' = rs @ filter (\<lambda>w. journalIsPruneable w now policy = Inr False) ws \<and>
     (\<forall>w \<in> set ws. journalIsPruneable w now policy \<in> {Inr True, Inr False})"
proof (induction ws arbitrary: ps rs)
  case (Cons w ws)
  then obtain p where "journalIsPruneable w now policy = Inr p" by (auto simp: andThen_Inr_iff)
  with Cons.IH [of "ps @ [w]" rs] Cons.IH [of ps "rs @ [w]"] Cons.prems show ?case by (cases p) auto
qed simp

text \<open> nothing is discarded on a guess and nothing disputable through its entry is. A partition that is
  answered puts every window in exactly one list, in order, and never discards a window that holds a
  tick at or after the entry of a contract of at most the longest horizon whose expiry is still
  inside the dispute window; an unusable policy, clock or age refuses the whole partition.\<close>

theorem retention_keeps_disputable:
  assumes "partitionForRetention windows (num now) policy = Inr (pruneable, retained)"
    and "rp_disputeWindowMs policy = num d" "horizon_of policy = num h"
    and "\<bar>now\<bar> \<le> 2 ^ 51" "d + h \<le> 2 ^ 53"
    and "w \<in> set windows" "jw_newestInstant w = num newest" "\<bar>newest\<bar> \<le> 2 ^ 51"
    and "expiry - entry \<le> h" "now - expiry \<le> d" "entry \<le> newest"
  shows "w \<notin> set pruneable \<and> w \<in> set retained \<and> length pruneable + length retained = length windows"
proof -
  have a: "assertPolicy policy = Inr ()" and l: "partition_loop windows (num now) policy [] [] = Inr (pruneable, retained)"
    using assms(1) by (auto simp: partitionForRetention_def andThen_Inr_iff split: if_splits)
  have dh: "0 < d" "0 \<le> h" using a assms(2,3) by (auto simp: assertPolicy_def split: if_splits)
  have "js_sub (num now) (num newest) = num (now - newest)"
    using assms(4,8) by (intro js_sub_num) simp
  moreover have "retentionReachMs policy = num (d + h)"
    using assms(2,3,5) dh by (simp add: retentionReachMs_def js_add_num)
  ultimately have "journalIsPruneable w (num now) policy = Inr False"
    using a assms(7,9-11) by (simp add: journalIsPruneable_def)
  moreover have "length (filter (\<lambda>w. journalIsPruneable w (num now) policy = Inr True) windows) +
      length (filter (\<lambda>w. journalIsPruneable w (num now) policy = Inr False) windows) = length windows"
  proof -
    have "\<forall>w \<in> set windows. (journalIsPruneable w (num now) policy = Inr False) = (journalIsPruneable w (num now) policy \<noteq> Inr True)"
      using partition_loop_spec [OF l] by auto
    then have "filter (\<lambda>w. journalIsPruneable w (num now) policy = Inr False) windows =
        filter (\<lambda>w. journalIsPruneable w (num now) policy \<noteq> Inr True) windows" by (intro filter_cong) auto
    then show ?thesis by (simp add: sum_length_filter_compl)
  qed
  ultimately show ?thesis using partition_loop_spec [OF l] assms(6) by auto
qed

theorem retention_keeps_disputable_witness:
  "\<exists>p r. partitionForRetention [\<lparr>jw_assetId = ''A'', jw_fromSequence = 1, jw_toSequence = 9, jw_newestInstant = num 500\<rparr>]
     (num 1000) DEFAULT_RETENTION = Inr (p, r) \<and>
     \<lparr>jw_assetId = ''A'', jw_fromSequence = 1, jw_toSequence = 9, jw_newestInstant = num 500\<rparr> \<in> set r"
proof -
  let ?w = "\<lparr>jw_assetId = ''A'', jw_fromSequence = 1, jw_toSequence = 9, jw_newestInstant = num 500\<rparr>"
  have "\<exists>p r. partitionForRetention [?w] (num 1000) DEFAULT_RETENTION = Inr (p, r)"
    by (simp add: partitionForRetention_def assertPolicy_def DEFAULT_RETENTION_def horizon_of_def
      DEFAULT_DISPUTE_WINDOW_MS_def LONGEST_HORIZON_MS_def journalIsPruneable_def retentionReachMs_def js_add_num js_sub_num)
  then obtain p r where pr: "partitionForRetention [?w] (num 1000) DEFAULT_RETENTION = Inr (p, r)" by blast
  from retention_keeps_disputable [OF pr, of DEFAULT_DISPUTE_WINDOW_MS LONGEST_HORIZON_MS ?w 500 900 400]
  have "?w \<in> set r"
    by (simp add: DEFAULT_RETENTION_def horizon_of_def DEFAULT_DISPUTE_WINDOW_MS_def LONGEST_HORIZON_MS_def)
  with pr show ?thesis by blast
qed

section \<open>The tick before the entry\<close>

text \<open>A settlement is decided by the last tick at or before its entry, which may be older than the entry.
  The reach counts the horizon back from the expiry and not the wait since that tick, so in the last
  moments of the dispute window the journal that holds the entry price may already be discarded.\<close>

lemma entry_tick_may_be_pruned:
  "\<exists>w entry expiry now. now - expiry \<le> DEFAULT_DISPUTE_WINDOW_MS \<and> expiry - entry \<le> LONGEST_HORIZON_MS \<and>
     priceAtOrBefore [1000, 900000] [5, 6] entry = Inr (Some \<lparr>pf_price = 5, pf_index = 0\<rparr>) \<and>
     jw_newestInstant w = num 1000 \<and> journalIsPruneable w (num now) DEFAULT_RETENTION = Inr True"
proof -
  let ?w = "\<lparr>jw_assetId = ''A'', jw_fromSequence = 1, jw_toSequence = 1, jw_newestInstant = num 1000\<rparr>"
  have "priceAtOrBefore [1000, 900000] [5, 6] 6000 = Inr (Some \<lparr>pf_price = 5, pf_index = 0\<rparr>)"
    by (simp add: priceAtOrBefore_def search_last.simps logPrice_num valid_price_def)
  moreover have "journalIsPruneable ?w (num (906000 + DEFAULT_DISPUTE_WINDOW_MS)) DEFAULT_RETENTION = Inr True"
    by (simp add: assertPolicy_def DEFAULT_RETENTION_def horizon_of_def
      DEFAULT_DISPUTE_WINDOW_MS_def LONGEST_HORIZON_MS_def journalIsPruneable_def retentionReachMs_def js_add_num js_sub_num)
  ultimately show ?thesis
    by (intro exI [of _ ?w] exI [of _ "6000 :: int"] exI [of _ "906000 :: int"] exI [of _ "906000 + DEFAULT_DISPUTE_WINDOW_MS"])
       (simp add: LONGEST_HORIZON_MS_def)
qed

end
