(* ===== verification/Commitment.thy ===== *)
theory Commitment
  imports TickLog "HOL-Library.Word"
begin

text \<open>
  Commitments over the published record: packages/distribution/src/commitment.ts. A window of ticks
  is hashed into a Merkle tree whose root, with the asset, the range, the count and the previous
  root, is the window's commitment; a proof of inclusion is a path of siblings; a chain of
  commitments binds each window to its predecessor.

  SHA-256 (node:crypto) is the argument \<open>sha\<close>, a function from bytes to bytes. A string is the
  list of the bytes of its UTF-8 encoding. Fields of commitments and proofs that a verifier reads
  are Numbers, since they arrive as JSON; a call that throws inside \<^verbatim>\<open>verifyInclusion\<close> makes it
  false.
\<close>

section \<open>Bytes\<close>

type_synonym bytes = "8 word list"

definition LEAF_TAG :: "8 word" where "LEAF_TAG = 0"
definition NODE_TAG :: "8 word" where "NODE_TAG = 1"
definition ROOT_TAG :: "8 word" where "ROOT_TAG = 2"
definition RESUME_ROOT_TAG :: "8 word" where "RESUME_ROOT_TAG = 3"

text \<open>Big-endian bytes of a natural number, and its reader.\<close>

fun be :: "nat \<Rightarrow> nat \<Rightarrow> bytes" where
  "be 0 n = []"
| "be (Suc k) n = be k (n div 256) @ [word_of_nat (n mod 256)]"

definition un_be :: "bytes \<Rightarrow> nat" where
  "un_be bs = fold (\<lambda>b n. n * 256 + unat b) bs 0"

definition hex_digit :: "nat \<Rightarrow> char" where
  "hex_digit n = ''0123456789abcdef'' ! n"

definition hex_value :: "char \<Rightarrow> nat option" where
  "hex_value c = (let n = (of_char c :: nat) in
     if 48 \<le> n \<and> n \<le> 57 then Some (n - 48)
     else if 97 \<le> n \<and> n \<le> 102 then Some (n - 87)
     else if 65 \<le> n \<and> n \<le> 70 then Some (n - 55)
     else None)"

definition to_hex :: "bytes \<Rightarrow> string" where
  "to_hex bs = concat (map (\<lambda>b. [hex_digit (unat b div 16), hex_digit (unat b mod 16)]) bs)"

text \<open>\<^verbatim>\<open>Buffer.from(s, 'hex')\<close> stops at the first pair that is not two hexadecimal digits.\<close>

fun from_hex :: "string \<Rightarrow> bytes" where
  "from_hex (c # d # cs) = (case (hex_value c, hex_value d) of
     (Some a, Some b) \<Rightarrow> word_of_nat (16 * a + b) # from_hex cs
   | _ \<Rightarrow> [])"
| "from_hex _ = []"

definition utf8 :: "string \<Rightarrow> bytes" where
  "utf8 s = map (\<lambda>c. word_of_nat (of_char c)) s"

section \<open>Commitments\<close>

record commitment =
  cm_assetId :: string
  cm_fromSequence :: jsnum
  cm_toSequence :: jsnum
  cm_count :: jsnum
  cm_previousRoot :: string
  cm_resumesAfter :: "jsnum option"
  cm_root :: string

record inclusion_proof =
  ip_sequence :: jsnum
  ip_instant :: jsnum
  ip_price :: jsnum
  ip_index :: jsnum
  ip_path :: "string list"

definition framed :: "bytes \<Rightarrow> bytes result" where
  "framed value = (if 2 ^ 32 \<le> length value then Inl (RangeError ''writeUInt32BE'')
     else Inr (be 4 (length value) @ value))"

definition ASSET_ID_PATTERN :: "string \<Rightarrow> bool" where
  "ASSET_ID_PATTERN s = (case s of [] \<Rightarrow> False
     | c # cs \<Rightarrow> c \<in> set ''abcdefghijklmnopqrstuvwxyz0123456789'' \<and> length cs \<le> 63 \<and>
         list_all (\<lambda>d. d \<in> set ''abcdefghijklmnopqrstuvwxyz0123456789._-'') cs)"

definition assertAssetId :: "string \<Rightarrow> unit result" where
  "assertAssetId a = (if \<not> ASSET_ID_PATTERN a then Inl (CommitmentErr ''Asset id'') else Inr ())"

definition is_digest :: "string \<Rightarrow> bool" where
  "is_digest s \<longleftrightarrow> length s = 64 \<and> list_all (\<lambda>c. hex_value c \<noteq> None) s"

definition assertPreviousRoot :: "string \<Rightarrow> unit result" where
  "assertPreviousRoot p = (if p \<noteq> [] \<and> \<not> is_digest p then Inl (CommitmentErr ''previousRoot'') else Inr ())"

text \<open>\<^verbatim>\<open>BigInt(value)\<close> throws on a Number that is not an integer, the writer on one out of range.\<close>

definition u64 :: "jsnum \<Rightarrow> bytes result" where
  "u64 v = (if \<not> isInteger v \<or> int_of v < 0 \<or> 2 ^ 64 \<le> int_of v then Inl (RangeError ''writeBigUInt64BE'')
     else Inr (be 8 (nat (int_of v))))"

definition i64 :: "jsnum \<Rightarrow> bytes result" where
  "i64 v = (if \<not> isInteger v \<or> int_of v < - (2 ^ 63) \<or> 2 ^ 63 \<le> int_of v then Inl (RangeError ''writeBigInt64BE'')
     else Inr (be 8 (nat (int_of v mod 2 ^ 64))))"

definition leaf_input :: "jsnum \<Rightarrow> jsnum \<Rightarrow> jsnum \<Rightarrow> bytes result" where
  "leaf_input s i p = andThen (u64 s) (\<lambda>a. andThen (u64 i) (\<lambda>b. andThen (i64 p) (\<lambda>c. Inr (LEAF_TAG # a @ b @ c))))"

definition leafHash :: "(bytes \<Rightarrow> bytes) \<Rightarrow> jsnum \<Rightarrow> jsnum \<Rightarrow> jsnum \<Rightarrow> bytes result" where
  "leafHash sha s i p = andThen (leaf_input s i p) (\<lambda>x. Inr (sha x))"

definition node_input :: "bytes \<Rightarrow> bytes \<Rightarrow> bytes" where
  "node_input left right = NODE_TAG # left @ right"

definition nodeHash :: "(bytes \<Rightarrow> bytes) \<Rightarrow> bytes \<Rightarrow> bytes \<Rightarrow> bytes" where
  "nodeHash sha left right = sha (node_input left right)"

fun foldLevel :: "(bytes \<Rightarrow> bytes) \<Rightarrow> bytes list \<Rightarrow> bytes list" where
  "foldLevel sha (a # b # level) = nodeHash sha a b # foldLevel sha level"
| "foldLevel sha [a] = [a]"
| "foldLevel sha [] = []"

definition root_input :: "commitment \<Rightarrow> bytes \<Rightarrow> bytes result" where
  "root_input c merkle =
     andThen (framed (utf8 (cm_assetId c))) (\<lambda>a.
     andThen (u64 (cm_fromSequence c)) (\<lambda>f.
     andThen (u64 (cm_toSequence c)) (\<lambda>t.
     andThen (u64 (cm_count c)) (\<lambda>n.
     andThen (framed (from_hex (cm_previousRoot c))) (\<lambda>p.
     case cm_resumesAfter c of
       None \<Rightarrow> Inr (ROOT_TAG # a @ f @ t @ n @ p @ merkle)
     | Some r \<Rightarrow> andThen (u64 r) (\<lambda>x. Inr (RESUME_ROOT_TAG # a @ f @ t @ n @ p @ x @ merkle)))))))"

definition rootOf :: "(bytes \<Rightarrow> bytes) \<Rightarrow> commitment \<Rightarrow> bytes \<Rightarrow> bytes result" where
  "rootOf sha c merkle = andThen (root_input c merkle) (\<lambda>x. Inr (sha x))"

lemma length_foldLevel: "length (foldLevel sha level) = (length level + 1) div 2"
  by (induction sha level rule: foldLevel.induct) auto

function merkleRoot :: "(bytes \<Rightarrow> bytes) \<Rightarrow> bytes list \<Rightarrow> bytes" where
  "merkleRoot sha level = (if 1 < length level then merkleRoot sha (foldLevel sha level) else level ! 0)"
  by pat_completeness auto
termination
  by (relation "measure (\<lambda>(sha, level). length level)") (auto simp: length_foldLevel)

declare merkleRoot.simps [simp del]

fun check_contiguous :: "tick list \<Rightarrow> unit result" where
  "check_contiguous (t # u # ts) =
     (if sequence u \<noteq> sequence t + 1 then Inl (CommitmentErr ''contiguous'') else check_contiguous (u # ts))"
| "check_contiguous _ = Inr ()"

definition assertRange :: "tick list \<Rightarrow> unit result" where
  "assertRange ticks = (if length ticks = 0 then Inl (CommitmentErr ''at least one tick'') else check_contiguous ticks)"

fun leaves_of :: "(bytes \<Rightarrow> bytes) \<Rightarrow> tick list \<Rightarrow> bytes list result" where
  "leaves_of sha [] = Inr []"
| "leaves_of sha (t # ts) = andThen (leafHash sha (num (sequence t)) (num (instant t)) (num (price t))) (\<lambda>h.
     andThen (leaves_of sha ts) (\<lambda>hs. Inr (h # hs)))"

definition check_resume :: "tick list \<Rightarrow> string \<Rightarrow> jsnum option \<Rightarrow> unit result" where
  "check_resume ticks previousRoot resumesAfter = (case resumesAfter of
     None \<Rightarrow> Inr ()
   | Some r \<Rightarrow>
       if previousRoot = [] then Inl (CommitmentErr ''genesis link'')
       else if \<not> isSafeInteger r \<or> js_lt r (num 0) then Inl (CommitmentErr ''resumesAfter'')
       else if js_le (num (sequence (ticks ! 0))) (js_add r (num 1)) then Inl (CommitmentErr ''nothing between'')
       else Inr ())"

definition fields_of :: "string \<Rightarrow> tick list \<Rightarrow> string \<Rightarrow> jsnum option \<Rightarrow> commitment" where
  "fields_of a ticks previousRoot resumesAfter = \<lparr>cm_assetId = a, cm_fromSequence = num (sequence (ticks ! 0)),
     cm_toSequence = num (sequence (ticks ! (length ticks - 1))), cm_count = num (int (length ticks)),
     cm_previousRoot = previousRoot, cm_resumesAfter = resumesAfter, cm_root = []\<rparr>"

definition commit ::
  "(bytes \<Rightarrow> bytes) \<Rightarrow> string \<Rightarrow> tick list \<Rightarrow> string \<Rightarrow> jsnum option \<Rightarrow> commitment result" where
  "commit sha a ticks previousRoot resumesAfter =
     andThen (assertAssetId a) (\<lambda>_.
     andThen (assertPreviousRoot previousRoot) (\<lambda>_.
     andThen (assertRange ticks) (\<lambda>_.
     andThen (check_resume ticks previousRoot resumesAfter) (\<lambda>_.
     andThen (leaves_of sha ticks) (\<lambda>leaves.
     let fields = fields_of a ticks previousRoot resumesAfter in
     andThen (rootOf sha fields (merkleRoot sha leaves)) (\<lambda>root.
     Inr (fields\<lparr>cm_root := to_hex root\<rparr>)))))))"

section \<open>Proofs of inclusion\<close>

text \<open>\<^verbatim>\<open>cursor >>= 1\<close> is a shift of a signed 32-bit integer.\<close>

definition shift_right_1 :: "int \<Rightarrow> int" where
  "shift_right_1 n = signed_take_bit 31 n div 2"

function prove_loop :: "(bytes \<Rightarrow> bytes) \<Rightarrow> bytes list \<Rightarrow> int \<Rightarrow> string list \<Rightarrow> string list" where
  "prove_loop sha level cursor path =
     (if 1 < length level then
        let promoted = cursor = int (length level) - 1 \<and> odd (length level);
            sibling = (if even cursor then cursor + 1 else cursor - 1) in
        prove_loop sha (foldLevel sha level) (shift_right_1 cursor)
          (if promoted then path else path @ [to_hex (level ! nat sibling)])
      else path)"
  by pat_completeness auto
termination
  by (relation "measure (\<lambda>(sha, level, c, p). length level)") (auto simp: length_foldLevel)

declare prove_loop.simps [simp del]

definition proveInclusion :: "(bytes \<Rightarrow> bytes) \<Rightarrow> tick list \<Rightarrow> int \<Rightarrow> inclusion_proof result" where
  "proveInclusion sha ticks s =
     andThen (assertRange ticks) (\<lambda>_.
     let index = s - sequence (ticks ! 0) in
     if index < 0 \<or> int (length ticks) \<le> index then Inl (CommitmentErr ''outside the committed range'')
     else andThen (leaves_of sha ticks) (\<lambda>level.
       let tick = ticks ! nat index in
       Inr \<lparr>ip_sequence = num s, ip_instant = num (instant tick), ip_price = num (price tick),
         ip_index = num index, ip_path = prove_loop sha level index []\<rparr>))"

function verify_loop ::
  "(bytes \<Rightarrow> bytes) \<Rightarrow> bytes \<Rightarrow> int \<Rightarrow> int \<Rightarrow> string list \<Rightarrow> (bytes \<times> string list) option" where
  "verify_loop sha hash cursor width path =
     (if 1 < width then
        if cursor = width - 1 \<and> odd width
        then verify_loop sha hash (shift_right_1 cursor) ((width + 1) div 2) path
        else (case path of
            [] \<Rightarrow> None
          | sibling # rest \<Rightarrow>
              let siblingHash = from_hex sibling in
              if length siblingHash \<noteq> 32 then None
              else verify_loop sha
                (if even cursor then nodeHash sha hash siblingHash else nodeHash sha siblingHash hash)
                (shift_right_1 cursor) ((width + 1) div 2) rest)
      else Some (hash, path))"
  by pat_completeness auto
termination
  by (relation "measure (\<lambda>(sha, h, c, w, p). nat w)") (simp_all, presburger?)

declare verify_loop.simps [simp del]

definition verifyInclusionOrThrow :: "(bytes \<Rightarrow> bytes) \<Rightarrow> commitment \<Rightarrow> inclusion_proof \<Rightarrow> bool result" where
  "verifyInclusionOrThrow sha c p =
     (if \<not> isSafeInteger (cm_count c) \<or> js_lt (cm_count c) (num 1) then Inr False
      else if \<not> isSafeInteger (cm_fromSequence c) then Inr False
      else if (case cm_resumesAfter c of None \<Rightarrow> False | Some r \<Rightarrow> \<not> isSafeInteger r \<or> js_lt r (num 0)) then Inr False
      else if \<not> isSafeInteger (ip_index p) \<or> \<not> isSafeInteger (ip_sequence p) then Inr False
      else if \<not> isSafeInteger (ip_instant p) \<or> \<not> isSafeInteger (ip_price p) then Inr False
      else if js_lt (ip_index p) (num 0) \<or> js_le (cm_count c) (ip_index p) then Inr False
      else if \<not> js_eq (ip_sequence p) (js_add (cm_fromSequence c) (ip_index p)) then Inr False
      else andThen (leafHash sha (ip_sequence p) (ip_instant p) (ip_price p)) (\<lambda>hash.
        case verify_loop sha hash (int_of (ip_index p)) (int_of (cm_count c)) (ip_path p) of
          None \<Rightarrow> Inr False
        | Some (hash', unread) \<Rightarrow>
            if unread \<noteq> [] then Inr False
            else andThen (rootOf sha c hash') (\<lambda>root. Inr (to_hex root = cm_root c))))"

definition verifyInclusion :: "(bytes \<Rightarrow> bytes) \<Rightarrow> commitment \<Rightarrow> inclusion_proof \<Rightarrow> bool" where
  "verifyInclusion sha c p = (case verifyInclusionOrThrow sha c p of Inl _ \<Rightarrow> False | Inr b \<Rightarrow> b)"

section \<open>Chains\<close>

definition check_first :: "commitment \<Rightarrow> string option" where
  "check_first link =
     (if cm_previousRoot link \<noteq> [] \<and> \<not> is_digest (cm_previousRoot link)
      then Some ''neither empty nor a digest''
      else if cm_previousRoot link = [] \<and> cm_resumesAfter link \<noteq> None then Some ''a genesis link that resumes''
      else None)"

definition check_link :: "commitment \<Rightarrow> commitment \<Rightarrow> string option" where
  "check_link previous link =
     (if \<not> is_digest (cm_previousRoot link) then Some ''not a digest''
      else if cm_assetId link \<noteq> cm_assetId previous then Some ''another asset''
      else if cm_previousRoot link \<noteq> cm_root previous then Some ''the chain is broken''
      else if \<not> isSafeInteger (cm_toSequence link) \<or> \<not> isSafeInteger (cm_fromSequence link)
      then Some ''outside the safe integer range''
      else case cm_resumesAfter link of
        Some r \<Rightarrow>
          if \<not> isSafeInteger r then Some ''resumesAfter outside the safe integer range''
          else if \<not> js_eq r (cm_toSequence previous) then Some ''not the record this link was signed over''
          else if js_le (js_sub (cm_fromSequence link) (cm_toSequence previous)) (num 1) then Some ''nothing between''
          else None
      | None \<Rightarrow>
          if \<not> js_eq (js_sub (cm_fromSequence link) (cm_toSequence previous)) (num 1) then Some ''must tile'' else None)"

definition check_count :: "commitment \<Rightarrow> string option" where
  "check_count link =
     (if \<not> js_eq (js_add (js_sub (cm_toSequence link) (cm_fromSequence link)) (num 1)) (cm_count link)
      then Some ''claims leaves'' else None)"

fun chain_from :: "commitment \<Rightarrow> commitment list \<Rightarrow> string option" where
  "chain_from previous [] = None"
| "chain_from previous (link # links) = (case check_count link of
     Some e \<Rightarrow> Some e
   | None \<Rightarrow> (case check_link previous link of Some e \<Rightarrow> Some e | None \<Rightarrow> chain_from link links))"

definition verifyChain :: "commitment list \<Rightarrow> string option" where
  "verifyChain commitments = (case commitments of
     [] \<Rightarrow> Some ''The chain is empty''
   | link # links \<Rightarrow> (case check_count link of
       Some e \<Rightarrow> Some e
     | None \<Rightarrow> (case check_first link of Some e \<Rightarrow> Some e | None \<Rightarrow> chain_from link links)))"

section \<open>Encodings are injective\<close>

lemma length_be [simp]: "length (be k n) = k"
  by (induction k n rule: be.induct) auto

lemma un_be_snoc: "un_be (bs @ [b]) = un_be bs * 256 + unat b"
  by (simp add: un_be_def)

lemma un_be_be: "n < 256 ^ k \<Longrightarrow> un_be (be k n) = n"
proof (induction k n rule: be.induct)
  case (2 k n)
  have "n div 256 < 256 ^ k" using "2.prems" by (simp add: less_mult_imp_div_less mult.commute)
  moreover have "unat (word_of_nat (n mod 256) :: 8 word) = n mod 256"
    by (simp add: unat_of_nat take_bit_eq_mod)
  ultimately show ?case using "2.IH" by (simp add: un_be_snoc)
qed (simp add: un_be_def)

lemma be_inj: "be k m = be k n \<Longrightarrow> m < 256 ^ k \<Longrightarrow> n < 256 ^ k \<Longrightarrow> m = n"
  by (metis un_be_be)

lemma hex_value_digit: "n < 16 \<Longrightarrow> hex_value (hex_digit n) = Some n"
proof -
  have "\<forall>n < 16. hex_value (hex_digit n) = Some n"
    by (simp add: hex_digit_def hex_value_def numeral_eq_Suc All_less_Suc)
  then show "n < 16 \<Longrightarrow> hex_value (hex_digit n) = Some n" by blast
qed

lemma from_to_hex [simp]: "from_hex (to_hex bs) = bs"
proof (induction bs)
  case (Cons b bs)
  have "unat b < 256" using unsigned_less [of b, where ?'a = nat] by simp
  then have "unat b div 16 < 16" by simp
  with Cons show ?case by (simp add: to_hex_def hex_value_digit)
qed (simp add: to_hex_def)

lemma to_hex_inj: "to_hex a = to_hex b \<longleftrightarrow> a = b"
  by (metis from_to_hex)

lemma length_to_hex [simp]: "length (to_hex bs) = 2 * length bs"
  by (induction bs) (simp_all add: to_hex_def)

lemma to_hex_digest: "length bs = 32 \<Longrightarrow> is_digest (to_hex bs)"
proof -
  assume l: "length bs = 32"
  have "list_all (\<lambda>c. hex_value c \<noteq> None) (to_hex bs)"
  proof (induction bs)
    case (Cons b bs)
    have "unat b < 256" using unsigned_less [of b, where ?'a = nat] by simp
    then have "unat b div 16 < 16" by simp
    with Cons show ?case by (simp add: to_hex_def hex_value_digit)
  qed (simp add: to_hex_def)
  with l show ?thesis by (simp add: is_digest_def)
qed

lemma utf8_inj: "utf8 a = utf8 b \<longleftrightarrow> a = b"
proof
  have inj: "c = d" if "(word_of_nat (of_char c) :: 8 word) = word_of_nat (of_char d)" for c d :: char
  proof -
    have "unat (word_of_nat (of_char x) :: 8 word) = of_char x" for x :: char
      using nat_of_char_less_256 [of x] by (simp del: nat_of_char_less_256 add: unat_of_nat take_bit_eq_mod)
    then have "(of_char c :: nat) = of_char d" using that by metis
    then show ?thesis by (metis char_of_char)
  qed
  then have i: "inj (\<lambda>c :: char. word_of_nat (of_char c) :: 8 word)" by (rule injI)
  show "utf8 a = utf8 b \<Longrightarrow> a = b"
    using inj_map_eq_map [OF i] by (simp only: utf8_def)
qed simp

lemma u64_Inr: "u64 v = Inr bs \<longleftrightarrow> (\<exists>n. v = num n \<and> 0 \<le> n \<and> n < 2 ^ 64 \<and> bs = be 8 (nat n))"
  using isInteger_num [of v] by (auto simp: u64_def)

lemma i64_Inr: "i64 v = Inr bs \<longleftrightarrow> (\<exists>n. v = num n \<and> - (2 ^ 63) \<le> n \<and> n < 2 ^ 63 \<and> bs = be 8 (nat (n mod 2 ^ 64)))"
  using isInteger_num [of v] by (auto simp: i64_def)

lemma u64_inj: "u64 v = Inr a \<Longrightarrow> u64 w = Inr a \<Longrightarrow> v = w"
proof -
  assume "u64 v = Inr a" "u64 w = Inr a"
  then obtain m n where "v = num m" "0 \<le> m" "m < 2 ^ 64" "w = num n" "0 \<le> n" "n < 2 ^ 64" "be 8 (nat m) = be 8 (nat n)"
    unfolding u64_Inr by auto
  moreover from this have "nat m = nat n" by (intro be_inj) auto
  ultimately show "v = w" by simp
qed

lemma i64_inj: "i64 v = Inr a \<Longrightarrow> i64 w = Inr a \<Longrightarrow> v = w"
proof -
  assume "i64 v = Inr a" "i64 w = Inr a"
  then obtain m n where h: "v = num m" "- (2 ^ 63) \<le> m" "m < 2 ^ 63" "w = num n" "- (2 ^ 63) \<le> n" "n < 2 ^ 63"
      "be 8 (nat (m mod 2 ^ 64)) = be 8 (nat (n mod 2 ^ 64))"
    unfolding i64_Inr by auto
  have "nat (m mod 2 ^ 64) < 256 ^ 8" "nat (n mod 2 ^ 64) < 256 ^ 8" by (simp_all add: nat_less_iff)
  with h(7) have "nat (m mod 2 ^ 64) = nat (n mod 2 ^ 64)" by (rule be_inj)
  then have "m mod 2 ^ 64 = n mod 2 ^ 64" by (simp add: eq_nat_nat_iff)
  moreover have "x mod 2 ^ 64 = (if x < 0 then x + 2 ^ 64 else x)" if "- (2 ^ 63) \<le> x" "x < 2 ^ 63" for x :: int
    using that mod_add_self2 [of x "2 ^ 64"] by (auto simp: mod_pos_pos_trivial simp del: mod_add_self2)
  ultimately have "m = n" using h(2,3,5,6) by (auto split: if_splits)
  with h show "v = w" by simp
qed

lemma length_u64: "u64 v = Inr a \<Longrightarrow> length a = 8" and length_i64: "i64 v = Inr a \<Longrightarrow> length a = 8"
  by (auto simp: u64_Inr i64_Inr)

lemma framed_Inr: "framed x = Inr a \<longleftrightarrow> length x < 2 ^ 32 \<and> a = be 4 (length x) @ x"
  by (auto simp: framed_def not_le)

lemma framed_append_inj:
  assumes "framed x = Inr a" "framed y = Inr b" "a @ r = b @ s"
  shows "x = y \<and> r = s"
proof -
  have h: "length x < 2 ^ 32" "length y < 2 ^ 32" "be 4 (length x) @ x @ r = be 4 (length y) @ y @ s"
    using assms by (auto simp: framed_Inr)
  then have "be 4 (length x) = be 4 (length y)" "x @ r = y @ s" by (simp_all add: append_eq_append_conv)
  moreover from this(1) have "length x = length y" using h(1,2) by (intro be_inj [of 4]) auto
  ultimately show ?thesis by simp
qed

section \<open>The tree\<close>

text \<open>A digest is 32 bytes.\<close>

abbreviation digest :: "(bytes \<Rightarrow> bytes) \<Rightarrow> bool" where
  "digest sha \<equiv> \<forall>x. length (sha x) = 32"

lemma foldLevel_nth:
  "k < (length level + 1) div 2 \<Longrightarrow> foldLevel sha level ! k =
     (if 2 * k + 1 < length level then nodeHash sha (level ! (2 * k)) (level ! (2 * k + 1)) else level ! (2 * k))"
proof (induction sha level arbitrary: k rule: foldLevel.induct)
  case (1 sha a b level)
  then show ?case by (cases k) auto
qed auto

lemma foldLevel_digests:
  "digest sha \<Longrightarrow> list_all (\<lambda>d. length d = 32) level \<Longrightarrow> list_all (\<lambda>d. length d = 32) (foldLevel sha level)"
  by (induction sha level rule: foldLevel.induct) (auto simp: nodeHash_def)

text \<open>Every node preimage hashed on the way to the root, and on the way a verifier takes.\<close>

fun level_inputs :: "bytes list \<Rightarrow> bytes list" where
  "level_inputs (a # b # level) = node_input a b # level_inputs level"
| "level_inputs level = []"

function tree_inputs :: "(bytes \<Rightarrow> bytes) \<Rightarrow> bytes list \<Rightarrow> bytes list" where
  "tree_inputs sha level = (if 1 < length level
     then level_inputs level @ tree_inputs sha (foldLevel sha level) else [])"
  by pat_completeness auto
termination
  by (relation "measure (\<lambda>(sha, level). length level)") (auto simp: length_foldLevel)

declare tree_inputs.simps [simp del]

function path_inputs :: "(bytes \<Rightarrow> bytes) \<Rightarrow> bytes \<Rightarrow> int \<Rightarrow> int \<Rightarrow> string list \<Rightarrow> bytes list" where
  "path_inputs sha hash cursor width path =
     (if 1 < width then
        if cursor = width - 1 \<and> odd width
        then path_inputs sha hash (shift_right_1 cursor) ((width + 1) div 2) path
        else (case path of [] \<Rightarrow> []
          | sibling # rest \<Rightarrow>
              let x = (if even cursor then node_input hash (from_hex sibling) else node_input (from_hex sibling) hash) in
              x # path_inputs sha (sha x) (shift_right_1 cursor) ((width + 1) div 2) rest)
      else [])"
  by pat_completeness auto
termination
  by (relation "measure (\<lambda>(sha, h, c, w, p). nat w)") (simp_all, presburger?)

declare path_inputs.simps [simp del]

lemma level_inputs_nth:
  "2 * k + 1 < length level \<Longrightarrow> node_input (level ! (2 * k)) (level ! (2 * k + 1)) \<in> set (level_inputs level)"
proof (induction level arbitrary: k rule: level_inputs.induct)
  case (1 a b level)
  then show ?case by (cases k) auto
qed auto

lemma shift_right_1_nat: "0 \<le> c \<Longrightarrow> c < 2 ^ 31 \<Longrightarrow> shift_right_1 c = c div 2"
  by (simp add: shift_right_1_def signed_take_bit_int_eq_self)

lemma node_input_inj:
  "length a = length c \<Longrightarrow> node_input a b = node_input c d \<longleftrightarrow> a = c \<and> b = d"
  by (simp add: node_input_def append_eq_append_conv)

lemma half: "0 < w \<Longrightarrow> c < w \<Longrightarrow> c div 2 < (w + 1) div 2" for c w :: nat
  by simp

text \<open>Completeness: the path the prover reads off the tree leads a verifier to the root.\<close>

lemma prove_loop_step:
  assumes "1 < length level"
  shows "prove_loop sha level cursor path = prove_loop sha (foldLevel sha level) (shift_right_1 cursor)
    (path @ (if cursor = int (length level) - 1 \<and> odd (length level) then []
      else [to_hex (level ! nat (if even cursor then cursor + 1 else cursor - 1))]))"
  using assms by (subst prove_loop.simps) (simp add: Let_def)

lemma prove_loop_acc: "prove_loop sha level cursor path = path @ prove_loop sha level cursor []"
proof (induction "length level" arbitrary: level cursor path rule: less_induct)
  case less
  show ?case
  proof (cases "1 < length level")
    case True
    then have "length (foldLevel sha level) < length level" by (simp add: length_foldLevel)
    from less [OF this] show ?thesis
      unfolding prove_loop_step [OF True] by (metis append.assoc append_Nil)
  qed (simp add: prove_loop.simps)
qed

lemma prove_verify:
  assumes "digest sha" "list_all (\<lambda>d. length d = 32) level" "i < length level" "length level \<le> 2 ^ 31"
  shows "verify_loop sha (level ! i) (int i) (int (length level)) (prove_loop sha level (int i) []) =
    Some (merkleRoot sha level, [])"
  using assms(2-4)
proof (induction "length level" arbitrary: level i rule: less_induct)
  case less
  show ?case
  proof (cases "1 < length level")
    case False
    with less.prems(2) have "i = 0" by simp
    with False show ?thesis by (simp add: verify_loop.simps prove_loop.simps merkleRoot.simps)
  next
    case True
    let ?L = "foldLevel sha level"
    have l: "length ?L < length level" "length ?L = (length level + 1) div 2" "length ?L \<le> 2 ^ 31"
      using True less.prems(3) by (simp_all add: length_foldLevel)
    have w: "(int (length level) + 1) div 2 = int (length ?L)" by (simp add: l(2))
    have i2: "i div 2 < length ?L" using less.prems(2) by (simp add: l(2))
    have c: "shift_right_1 (int i) = int (i div 2)" using less.prems by (simp add: shift_right_1_nat)
    note IH = less.hyps [OF l(1) foldLevel_digests [OF assms(1) less.prems(1)] i2 l(3)]
    have root: "merkleRoot sha level = merkleRoot sha ?L" using True by (simp add: merkleRoot.simps [of sha level])
    show ?thesis
    proof (cases "int i = int (length level) - 1 \<and> odd (length level)")
      case promoted: True
      then have "Suc i = length level" "odd (length level)" by linarith+
      then have i: "2 * (i div 2) = i" "\<not> 2 * (i div 2) + 1 < length level" by presburger+
      then have "?L ! (i div 2) = level ! i"
        using i2 unfolding l(2) by (simp add: foldLevel_nth)
      moreover have "shift_right_1 (int (length level) - 1) = int (i div 2)" using c promoted by simp
      ultimately show ?thesis using IH promoted True
        by (subst verify_loop.simps) (simp add: prove_loop_step [OF True] w root)
    next
      case False
      define j where "j = (if even i then i + 1 else i - 1)"
      have j: "j < length level" using False less.prems(2) unfolding j_def by (auto elim!: evenE oddE)
      have sib: "nat (if even (int i) then int i + 1 else int i - 1) = j" by (auto simp: j_def)
      have n: "?L ! (i div 2) = (if even i then nodeHash sha (level ! i) (level ! j) else nodeHash sha (level ! j) (level ! i))"
        using i2 j less.prems(2) unfolding j_def l(2) by (auto simp: foldLevel_nth elim!: evenE oddE)
      have dl: "length (level ! j) = 32" using less.prems(1) j by (simp add: list_all_length)
      have "prove_loop sha level (int i) [] = to_hex (level ! j) # prove_loop sha ?L (int (i div 2)) []"
        using False by (simp add: prove_loop_step [OF True] sib [simplified] c) (subst prove_loop_acc, simp)
      with IH False True dl n show ?thesis
        by (subst verify_loop.simps) (auto simp: c w root)
    qed
  qed
qed

text \<open>Soundness: with no collision among what is hashed, only the leaf at that position reaches the root.\<close>

lemma pair_of:
  assumes "i < length level" "\<not> (int i = int (length level) - 1 \<and> odd (length level))"
  defines "j \<equiv> if even i then i + 1 else i - 1"
  shows "j < length level"
    "foldLevel sha level ! (i div 2) = sha (if even i then node_input (level ! i) (level ! j) else node_input (level ! j) (level ! i))"
    "(if even i then node_input (level ! i) (level ! j) else node_input (level ! j) (level ! i)) \<in> set (level_inputs level)"
proof -
  show j: "j < length level" using assms(1,2) unfolding j_def by (auto elim!: evenE oddE)
  have i: "i = 2 * (i div 2) \<or> i = 2 * (i div 2) + 1" by presburger
  have k: "2 * (i div 2) + 1 < length level"
    using j assms(1) i unfolding j_def by (cases "even i") auto
  then have "i div 2 < (length level + 1) div 2" by simp
  then show "foldLevel sha level ! (i div 2) = sha (if even i then node_input (level ! i) (level ! j) else node_input (level ! j) (level ! i))"
    using k unfolding j_def by (auto simp: foldLevel_nth nodeHash_def elim!: evenE oddE)
  show "(if even i then node_input (level ! i) (level ! j) else node_input (level ! j) (level ! i)) \<in> set (level_inputs level)"
    using level_inputs_nth [OF k] unfolding j_def by (auto elim!: evenE oddE)
qed

lemma verify_sound:
  assumes "digest sha" "list_all (\<lambda>d. length d = 32) level" "i < length level" "length level \<le> 2 ^ 31"
    "verify_loop sha h (int i) (int (length level)) path = Some (merkleRoot sha level, rest)" "length h = 32"
    "inj_on sha (set (tree_inputs sha level) \<union> set (path_inputs sha h (int i) (int (length level)) path))"
  shows "h = level ! i"
  using assms(2-7)
proof (induction "length level" arbitrary: level i h path rule: less_induct)
  case less
  show ?case
  proof (cases "1 < length level")
    case False
    with less.prems(2) have "i = 0" by simp
    with False less.prems(4) show ?thesis by (simp add: verify_loop.simps merkleRoot.simps)
  next
    case True
    let ?L = "foldLevel sha level"
    have l: "length ?L < length level" "length ?L = (length level + 1) div 2" "length ?L \<le> 2 ^ 31"
      using True less.prems(3) by (simp_all add: length_foldLevel)
    have w: "(int (length level) + 1) div 2 = int (length ?L)" by (simp add: l(2))
    have i2: "i div 2 < length ?L" using less.prems(2) by (simp add: l(2))
    have c: "shift_right_1 (int i) = int (i div 2)" using less.prems by (simp add: shift_right_1_nat)
    have root: "merkleRoot sha level = merkleRoot sha ?L" using True by (simp add: merkleRoot.simps [of sha level])
    have t: "tree_inputs sha level = level_inputs level @ tree_inputs sha ?L"
      using True by (subst tree_inputs.simps) simp
    note IH = less.hyps [OF l(1) foldLevel_digests [OF assms(1) less.prems(1)] i2 l(3)]
    show ?thesis
    proof (cases "int i = int (length level) - 1 \<and> odd (length level)")
      case promoted: True
      have v: "verify_loop sha h (int i) (int (length level)) path = verify_loop sha h (int (i div 2)) (int (length ?L)) path"
        unfolding w [symmetric] c [symmetric] by (subst verify_loop.simps) (use True promoted in simp)
      have p: "path_inputs sha h (int i) (int (length level)) path = path_inputs sha h (int (i div 2)) (int (length ?L)) path"
        unfolding w [symmetric] c [symmetric] by (subst path_inputs.simps) (use True promoted in simp)
      have "Suc i = length level" "odd (length level)" using promoted by linarith+
      then have i: "2 * (i div 2) = i" "\<not> 2 * (i div 2) + 1 < length level" by presburger+
      then have "?L ! (i div 2) = level ! i" using i2 unfolding l(2) by (simp add: foldLevel_nth)
      moreover have "h = ?L ! (i div 2)"
        using less.prems(4-6) by (intro IH) (auto simp: v p root t intro: inj_on_subset)
      ultimately show ?thesis by simp
    next
      case False
      have one: "1 < int (length level)" using True by simp
      have mid: "\<not> (int i = int (length level) - 1 \<and> odd (int (length level)))" using False by simp
      define j where "j = (if even i then i + 1 else i - 1)"
      note pj = pair_of [OF less.prems(2) False, folded j_def]
      obtain sib rest' where path: "path = sib # rest'" "length (from_hex sib) = 32"
        using less.prems(4) False True
        by (subst (asm) verify_loop.simps) (auto simp: Let_def split: list.splits if_splits)
      define x where "x = (if even i then node_input h (from_hex sib) else node_input (from_hex sib) h)"
      have v: "verify_loop sha h (int i) (int (length level)) path = verify_loop sha (sha x) (int (i div 2)) (int (length ?L)) rest'"
        unfolding verify_loop.simps [of sha h "int i" "int (length level)" path] if_P [OF one] if_not_P [OF mid] w c
        by (simp add: path x_def nodeHash_def Let_def)
      have p: "path_inputs sha h (int i) (int (length level)) path = x # path_inputs sha (sha x) (int (i div 2)) (int (length ?L)) rest'"
        unfolding path_inputs.simps [of sha h "int i" "int (length level)" path] if_P [OF one] if_not_P [OF mid] w c
        by (simp add: path x_def Let_def)
      have "sha x = ?L ! (i div 2)"
        using less.prems(4-6) assms(1) by (intro IH) (auto simp: v p root t intro: inj_on_subset)
      then have "sha x = sha (if even i then node_input (level ! i) (level ! j) else node_input (level ! j) (level ! i))"
        using pj(2) by simp
      moreover have "x \<in> set (tree_inputs sha level) \<union> set (path_inputs sha h (int i) (int (length level)) path)"
        "(if even i then node_input (level ! i) (level ! j) else node_input (level ! j) (level ! i))
          \<in> set (tree_inputs sha level) \<union> set (path_inputs sha h (int i) (int (length level)) path)"
        using pj(3) unfolding p t by simp_all
      ultimately have "x = (if even i then node_input (level ! i) (level ! j) else node_input (level ! j) (level ! i))"
        by (rule inj_onD [OF less.prems(6)])
      moreover have "length (level ! i) = 32" "length (level ! j) = 32"
        using less.prems(1,2) pj(1) by (simp_all add: list_all_length)
      ultimately show ?thesis
        using path(2) less.prems(5) by (auto simp: x_def node_input_inj split: if_splits)
    qed
  qed
qed

lemma merkle_inj:
  assumes "digest sha" "list_all (\<lambda>d. length d = 32) xs" "list_all (\<lambda>d. length d = 32) ys"
    "length xs = length ys" "xs \<noteq> []" "merkleRoot sha xs = merkleRoot sha ys"
    "inj_on sha (set (tree_inputs sha xs) \<union> set (tree_inputs sha ys))"
  shows "xs = ys"
  using assms(2-7)
proof (induction "length xs" arbitrary: xs ys rule: less_induct)
  case less
  show ?case
  proof (cases "1 < length xs")
    case False
    then obtain x where "xs = [x]" using less.prems(4) by (cases xs) auto
    moreover from this less.prems(3) obtain y where "ys = [y]" by (cases ys) auto
    ultimately show ?thesis using less.prems(5) by (simp add: merkleRoot.simps)
  next
    case True
    let ?X = "foldLevel sha xs" and ?Y = "foldLevel sha ys"
    have t: "tree_inputs sha xs = level_inputs xs @ tree_inputs sha ?X" "tree_inputs sha ys = level_inputs ys @ tree_inputs sha ?Y"
      using True less.prems(3) by (subst tree_inputs.simps; simp)+
    have "?X = ?Y"
    proof (rule less.hyps)
      show "length ?X < length xs" "length ?X = length ?Y" "?X \<noteq> []" "merkleRoot sha ?X = merkleRoot sha ?Y"
        using True less.prems(3,5) by (auto simp: length_foldLevel merkleRoot.simps [of sha xs] merkleRoot.simps [of sha ys]
          simp flip: length_greater_0_conv)
      show "inj_on sha (set (tree_inputs sha ?X) \<union> set (tree_inputs sha ?Y))"
        using less.prems(6) unfolding t by (rule inj_on_subset) auto
    qed (use less.prems assms(1) in \<open>auto intro: foldLevel_digests\<close>)
    show ?thesis
    proof (rule nth_equalityI)
      fix i assume i: "i < length xs"
      show "xs ! i = ys ! i"
      proof (cases "int i = int (length xs) - 1 \<and> odd (length xs)")
        case True
        then have "Suc i = length xs" "odd (length xs)" by linarith+
        then have k: "2 * (i div 2) = i" "\<not> 2 * (i div 2) + 1 < length xs" "i div 2 < (length xs + 1) div 2" by presburger+
        then have "?X ! (i div 2) = xs ! i" "?Y ! (i div 2) = ys ! i"
          using less.prems(3) by (simp_all add: foldLevel_nth)
        with \<open>?X = ?Y\<close> show ?thesis by simp
      next
        case False
        define j where "j = (if even i then i + 1 else i - 1)"
        note px = pair_of [OF i False, folded j_def]
        have "i < length ys" "\<not> (int i = int (length ys) - 1 \<and> odd (length ys))" using i False less.prems(3) by auto
        note py = pair_of [OF this, folded j_def]
        let ?a = "if even i then node_input (xs ! i) (xs ! j) else node_input (xs ! j) (xs ! i)"
        let ?b = "if even i then node_input (ys ! i) (ys ! j) else node_input (ys ! j) (ys ! i)"
        have "sha ?a = sha ?b" using px(2) [of sha] py(2) [of sha] \<open>?X = ?Y\<close> by simp
        moreover have "?a \<in> set (tree_inputs sha xs) \<union> set (tree_inputs sha ys)"
          "?b \<in> set (tree_inputs sha xs) \<union> set (tree_inputs sha ys)"
          using px(3) py(3) unfolding t by (simp_all only: set_append Un_iff simp_thms)
        ultimately have "?a = ?b" by (rule inj_onD [OF less.prems(6)])
        moreover have "length (xs ! i) = length (ys ! i)" "length (xs ! j) = length (ys ! j)"
          using less.prems(1,2,3) i px(1) by (simp_all add: list_all_length)
        ultimately show ?thesis by (auto simp: node_input_inj split: if_splits)
      qed
    qed (rule less.prems(3))
  qed
qed

section \<open>What a root binds\<close>

definition ok_list :: "'a result \<Rightarrow> 'a list" where
  "ok_list r = (case r of Inl _ \<Rightarrow> [] | Inr x \<Rightarrow> [x])"

abbreviation tick_input :: "tick \<Rightarrow> bytes result" where
  "tick_input t \<equiv> leaf_input (num (sequence t)) (num (instant t)) (num (price t))"

text \<open>Everything hashed when a window is committed, and when a proof is checked.\<close>

definition commit_inputs ::
  "(bytes \<Rightarrow> bytes) \<Rightarrow> string \<Rightarrow> tick list \<Rightarrow> string \<Rightarrow> jsnum option \<Rightarrow> bytes list" where
  "commit_inputs sha a ticks p r = concat (map (\<lambda>t. ok_list (tick_input t)) ticks) @
     (case leaves_of sha ticks of Inl _ \<Rightarrow> []
      | Inr leaves \<Rightarrow> tree_inputs sha leaves @ ok_list (root_input (fields_of a ticks p r) (merkleRoot sha leaves)))"

definition verify_inputs :: "(bytes \<Rightarrow> bytes) \<Rightarrow> commitment \<Rightarrow> inclusion_proof \<Rightarrow> bytes list" where
  "verify_inputs sha c p = (case leaf_input (ip_sequence p) (ip_instant p) (ip_price p) of
     Inl _ \<Rightarrow> []
   | Inr x \<Rightarrow> x # path_inputs sha (sha x) (int_of (ip_index p)) (int_of (cm_count c)) (ip_path p) @
       (case verify_loop sha (sha x) (int_of (ip_index p)) (int_of (cm_count c)) (ip_path p) of
          None \<Rightarrow> [] | Some (h, _) \<Rightarrow> ok_list (root_input c h)))"

lemma leaf_input_inj:
  assumes "leaf_input s i p = Inr x" "leaf_input s' i' p' = Inr x"
  shows "s = s' \<and> i = i' \<and> p = p'"
proof -
  obtain a b c where x: "u64 s = Inr a" "u64 i = Inr b" "i64 p = Inr c" "x = LEAF_TAG # a @ b @ c"
    using assms(1) by (auto simp: leaf_input_def andThen_Inr_iff)
  obtain a' b' c' where x': "u64 s' = Inr a'" "u64 i' = Inr b'" "i64 p' = Inr c'" "x = LEAF_TAG # a' @ b' @ c'"
    using assms(2) by (auto simp: leaf_input_def andThen_Inr_iff)
  have "a = a' \<and> b = b' \<and> c = c'"
    using x(4) x'(4) length_u64 [OF x(1)] length_u64 [OF x'(1)] length_u64 [OF x(2)] length_u64 [OF x'(2)]
    by (simp add: append_eq_append_conv)
  with x x' show ?thesis using u64_inj i64_inj by blast
qed

lemma root_input_inj:
  assumes "root_input c m = Inr x" "root_input c' m' = Inr x" "length m = length m'"
  shows "cm_assetId c = cm_assetId c' \<and> cm_fromSequence c = cm_fromSequence c' \<and> cm_toSequence c = cm_toSequence c' \<and>
    cm_count c = cm_count c' \<and> from_hex (cm_previousRoot c) = from_hex (cm_previousRoot c') \<and>
    cm_resumesAfter c = cm_resumesAfter c' \<and> m = m'"
proof -
  obtain a f t n p where h: "framed (utf8 (cm_assetId c)) = Inr a" "u64 (cm_fromSequence c) = Inr f"
      "u64 (cm_toSequence c) = Inr t" "u64 (cm_count c) = Inr n" "framed (from_hex (cm_previousRoot c)) = Inr p"
    using assms(1) by (auto simp: root_input_def andThen_Inr_iff)
  obtain a' f' t' n' p' where h': "framed (utf8 (cm_assetId c')) = Inr a'" "u64 (cm_fromSequence c') = Inr f'"
      "u64 (cm_toSequence c') = Inr t'" "u64 (cm_count c') = Inr n'" "framed (from_hex (cm_previousRoot c')) = Inr p'"
    using assms(2) by (auto simp: root_input_def andThen_Inr_iff)
  define r where "r = (case cm_resumesAfter c of None \<Rightarrow> Inr [] | Some v \<Rightarrow> u64 v)"
  define r' where "r' = (case cm_resumesAfter c' of None \<Rightarrow> Inr [] | Some v \<Rightarrow> u64 v)"
  define tag where "tag = (\<lambda>c :: commitment. case cm_resumesAfter c of None \<Rightarrow> ROOT_TAG | Some _ \<Rightarrow> RESUME_ROOT_TAG)"
  obtain y where y: "r = Inr y" "x = tag c # a @ f @ t @ n @ p @ y @ m"
    using assms(1) h by (auto simp: root_input_def andThen_Inr_iff r_def tag_def split: option.splits)
  obtain y' where y': "r' = Inr y'" "x = tag c' # a' @ f' @ t' @ n' @ p' @ y' @ m'"
    using assms(2) h' by (auto simp: root_input_def andThen_Inr_iff r'_def tag_def split: option.splits)
  have e: "tag c = tag c'" "a @ f @ t @ n @ p @ y @ m = a' @ f' @ t' @ n' @ p' @ y' @ m'" using y(2) y'(2) by auto
  have a: "utf8 (cm_assetId c) = utf8 (cm_assetId c')" "f @ t @ n @ p @ y @ m = f' @ t' @ n' @ p' @ y' @ m'"
    using framed_append_inj [OF h(1) h'(1) e(2)] by auto
  then have ftn: "f = f'" "t = t'" "n = n'" "p @ y @ m = p' @ y' @ m'"
    using h h' by (simp_all add: append_eq_append_conv length_u64)
  then have p: "from_hex (cm_previousRoot c) = from_hex (cm_previousRoot c')" "y @ m = y' @ m'"
    using framed_append_inj [OF h(5) h'(5) ftn(4)] by auto
  then have ym: "y = y'" "m = m'" using assms(3) by auto
  have "cm_resumesAfter c = cm_resumesAfter c'"
    using e(1) y(1) y'(1) ym(1) u64_inj
    by (auto simp: r_def r'_def tag_def ROOT_TAG_def RESUME_ROOT_TAG_def split: option.splits)
  with a(1) ftn p(1) ym(2) h h' show ?thesis using u64_inj by (auto simp: utf8_inj)
qed

lemma leaves_of_Inr:
  "leaves_of sha ts = Inr ls \<Longrightarrow> length ls = length ts \<and>
     (\<forall>i < length ts. \<exists>x. tick_input (ts ! i) = Inr x \<and> ls ! i = sha x)"
proof (induction ts arbitrary: ls)
  case (Cons t ts)
  then obtain x ls' where "tick_input t = Inr x" "leaves_of sha ts = Inr ls'" "ls = sha x # ls'"
    by (auto simp: andThen_Inr_iff leafHash_def)
  with Cons.IH [of ls'] show ?case by (auto simp: nth_Cons split: nat.splits)
qed simp

lemma tick_input_mem: "i < length ts \<Longrightarrow> tick_input (ts ! i) = Inr x \<Longrightarrow> x \<in> set (concat (map (\<lambda>t. ok_list (tick_input t)) ts))"
  by (force simp: ok_list_def in_set_conv_nth)

lemma commit_Inr:
  assumes "commit sha a ticks p r = Inr c"
  obtains leaves x where "ticks \<noteq> []" "leaves_of sha ticks = Inr leaves" "length leaves = length ticks"
    "root_input (fields_of a ticks p r) (merkleRoot sha leaves) = Inr x"
    "c = (fields_of a ticks p r)\<lparr>cm_root := to_hex (sha x)\<rparr>"
    "x \<in> set (commit_inputs sha a ticks p r)" "set (tree_inputs sha leaves) \<subseteq> set (commit_inputs sha a ticks p r)"
    "assertPreviousRoot p = Inr ()" "check_resume ticks p r = Inr ()" "check_contiguous ticks = Inr ()"
proof -
  from assms obtain leaves x where "ticks \<noteq> []" and l: "leaves_of sha ticks = Inr leaves"
    and "root_input (fields_of a ticks p r) (merkleRoot sha leaves) = Inr x"
    and "c = (fields_of a ticks p r)\<lparr>cm_root := to_hex (sha x)\<rparr>" "assertPreviousRoot p = Inr ()" "check_resume ticks p r = Inr ()"
      "check_contiguous ticks = Inr ()"
    by (auto simp: commit_def andThen_Inr_iff rootOf_def Let_def assertRange_def split: if_splits)
  moreover from this leaves_of_Inr [OF l] have "length leaves = length ticks"
    "x \<in> set (commit_inputs sha a ticks p r)" "set (tree_inputs sha leaves) \<subseteq> set (commit_inputs sha a ticks p r)"
    by (auto simp: commit_inputs_def ok_list_def)
  ultimately show thesis by (intro that)
qed

lemma leaves_digests: "digest sha \<Longrightarrow> leaves_of sha ts = Inr ls \<Longrightarrow> list_all (\<lambda>d. length d = 32) ls"
  using leaves_of_Inr [of sha ts ls] by (auto simp: list_all_length)

lemma merkle_digest:
  "digest sha \<Longrightarrow> list_all (\<lambda>d. length d = 32) ls \<Longrightarrow> ls \<noteq> [] \<Longrightarrow> length (merkleRoot sha ls) = 32"
proof (induction sha ls rule: merkleRoot.induct)
  case (1 sha ls)
  show ?case
  proof (cases "1 < length ls")
    case True
    then have "foldLevel sha ls \<noteq> []" by (simp add: length_foldLevel flip: length_greater_0_conv)
    with 1 True foldLevel_digests show ?thesis by (simp add: merkleRoot.simps [of sha ls])
  next
    case False
    with "1.prems" show ?thesis by (cases ls) (simp_all add: merkleRoot.simps)
  qed
qed

lemma verify_loop_digest:
  "digest sha \<Longrightarrow> length h = 32 \<Longrightarrow> verify_loop sha h c w path = Some (h', rest) \<Longrightarrow> length h' = 32"
proof (induction sha h c w path rule: verify_loop.induct)
  case (1 sha h c w path)
  show ?case
  proof (cases "1 < w")
    case w: True
    show ?thesis
    proof (cases "c = w - 1 \<and> odd w")
      case True
      from "1.prems"(3) have "verify_loop sha h (shift_right_1 c) ((w + 1) div 2) path = Some (h', rest)"
        unfolding verify_loop.simps [of sha h c w path] if_P [OF w] if_P [OF True] .
      from "1.IH"(1) [OF w True "1.prems"(1,2) this] show ?thesis .
    next
      case False
      obtain sib rest' where path: "path = sib # rest'" "length (from_hex sib) = 32"
          "verify_loop sha (if even c then nodeHash sha h (from_hex sib) else nodeHash sha (from_hex sib) h)
            (shift_right_1 c) ((w + 1) div 2) rest' = Some (h', rest)"
        using "1.prems"(3) unfolding verify_loop.simps [of sha h c w path] if_P [OF w] if_not_P [OF False]
        by (auto simp: Let_def split: list.splits if_splits)
      from "1.IH"(2) [OF w False path(1) refl _ "1.prems"(1) _ path(3)] path(2) "1.prems"(1) show ?thesis
        by (simp add: nodeHash_def)
    qed
  next
    case False
    with "1.prems" show ?thesis by (simp add: verify_loop.simps [of sha h c w])
  qed
qed

section \<open>What a verifier may conclude\<close>

lemma honest_proof_verifies:
  assumes "digest sha" "commit sha a ticks p r = Inr c" "proveInclusion sha ticks s = Inr pf"
    and "length ticks \<le> 2 ^ 31"
    and "list_all (\<lambda>t. \<bar>sequence t\<bar> \<le> MAX_SAFE \<and> \<bar>instant t\<bar> \<le> MAX_SAFE \<and> \<bar>price t\<bar> \<le> MAX_SAFE) ticks"
  shows "verifyInclusion sha c pf"
proof -
  obtain leaves x where ne: "ticks \<noteq> []" and l: "leaves_of sha ticks = Inr leaves" and len: "length leaves = length ticks"
    and x: "root_input (fields_of a ticks p r) (merkleRoot sha leaves) = Inr x"
    and c: "c = (fields_of a ticks p r)\<lparr>cm_root := to_hex (sha x)\<rparr>" and res: "check_resume ticks p r = Inr ()"
    and cont: "check_contiguous ticks = Inr ()"
    using commit_Inr [OF assms(2)] by metis
  define i where "i = nat (s - sequence (ticks ! 0))"
  have i: "i < length ticks" "s = sequence (ticks ! 0) + int i"
    and pf: "pf = \<lparr>ip_sequence = num s, ip_instant = num (instant (ticks ! i)), ip_price = num (price (ticks ! i)),
         ip_index = num (int i), ip_path = prove_loop sha leaves (int i) []\<rparr>"
    using assms(3) l by (auto simp: proveInclusion_def andThen_Inr_iff Let_def i_def split: if_splits)
  have "consecutive (sequences ticks)"
    using cont by (induction ticks rule: check_contiguous.induct) (auto split: if_splits)
  then have seq: "sequence (ticks ! i) = s"
    using consecutive_nth [of "sequences ticks" i] i ne by (simp add: sequences_def hd_map hd_conv_nth)
  obtain y where y: "tick_input (ticks ! i) = Inr y" "leaves ! i = sha y" using leaves_of_Inr [OF l] i(1) by blast
  have safe: "\<bar>s\<bar> \<le> MAX_SAFE" "\<bar>instant (ticks ! i)\<bar> \<le> MAX_SAFE" "\<bar>price (ticks ! i)\<bar> \<le> MAX_SAFE"
      "\<bar>sequence (ticks ! 0)\<bar> \<le> MAX_SAFE"
    using assms(5) i(1) ne seq by (auto simp: list_all_length)
  have count: "int (length ticks) \<le> MAX_SAFE" "1 \<le> int (length ticks)" using assms(4) ne by (cases ticks; simp)+
  have v: "verify_loop sha (sha y) (int i) (int (length ticks)) (prove_loop sha leaves (int i) []) = Some (merkleRoot sha leaves, [])"
    using prove_verify [OF assms(1) leaves_digests [OF assms(1) l], of i] i(1) assms(4) by (simp add: len y(2))
  have "js_add (num (sequence (ticks ! 0))) (num (int i)) = num s"
    using safe i(2) by (subst js_add_num) simp_all
  moreover have "case r of None \<Rightarrow> True | Some v \<Rightarrow> isSafeInteger v \<and> \<not> js_lt v (num 0)"
    using res by (auto simp: check_resume_def split: option.splits if_splits)
  moreover have "root_input c (merkleRoot sha leaves) = Inr x" using x by (simp add: c root_input_def)
  ultimately show ?thesis
    using safe count i y(1) v seq
    by (auto simp: verifyInclusion_def verifyInclusionOrThrow_def pf c fields_of_def leafHash_def rootOf_def split: option.splits)
qed

text \<open> an honest proof always verifies. Whatever the window's size and the tick's place in it, the
  proof drawn for a committed tick verifies against the window's commitment, resume link or not.\<close>

theorem inclusion_complete:
  assumes "digest sha" "commit sha a ticks p r = Inr c" "proveInclusion sha ticks s = Inr pf"
    and "length ticks \<le> 2 ^ 31"
    and "list_all (\<lambda>t. \<bar>sequence t\<bar> \<le> MAX_SAFE \<and> \<bar>instant t\<bar> \<le> MAX_SAFE \<and> \<bar>price t\<bar> \<le> MAX_SAFE) ticks"
  shows "verifyInclusion sha c pf"
  using assms by (rule honest_proof_verifies)

text \<open>C24: a proof verifies only for what was committed. Against any commitment that carries the root a
  window was published under, whoever wrote its other fields and the proof, a proof that verifies is
  about that asset, range and count and about the very tick committed at its index, unless two of the
  inputs hashed collide.\<close>

theorem inclusion_sound:
  assumes "digest sha" "commit sha a ticks p r = Inr c" "length ticks \<le> 2 ^ 31"
    and "cm_root c' = cm_root c" "verifyInclusion sha c' pf"
    and "inj_on sha (set (commit_inputs sha a ticks p r) \<union> set (verify_inputs sha c' pf))"
  shows "\<exists>i < length ticks. ip_index pf = num (int i) \<and> ip_sequence pf = num (sequence (ticks ! i)) \<and>
    ip_instant pf = num (instant (ticks ! i)) \<and> ip_price pf = num (price (ticks ! i)) \<and> cm_assetId c' = a \<and>
    cm_fromSequence c' = cm_fromSequence c \<and> cm_toSequence c' = cm_toSequence c \<and> cm_count c' = cm_count c"
proof -
  obtain leaves x where ne: "ticks \<noteq> []" and l: "leaves_of sha ticks = Inr leaves" and len: "length leaves = length ticks"
    and x: "root_input (fields_of a ticks p r) (merkleRoot sha leaves) = Inr x"
    and c: "c = (fields_of a ticks p r)\<lparr>cm_root := to_hex (sha x)\<rparr>" and xi: "x \<in> set (commit_inputs sha a ticks p r)"
    and ti: "set (tree_inputs sha leaves) \<subseteq> set (commit_inputs sha a ticks p r)"
    using commit_Inr [OF assms(2)] by metis
  have dl: "list_all (\<lambda>d. length d = 32) leaves" using assms(1) l by (rule leaves_digests)
  obtain y h z where y: "leaf_input (ip_sequence pf) (ip_instant pf) (ip_price pf) = Inr y"
    and v: "verify_loop sha (sha y) (int_of (ip_index pf)) (int_of (cm_count c')) (ip_path pf) = Some (h, [])"
    and z: "root_input c' h = Inr z" "to_hex (sha z) = cm_root c'"
    and idx: "isSafeInteger (ip_index pf)" "\<not> js_lt (ip_index pf) (num 0)" "\<not> js_le (cm_count c') (ip_index pf)"
    using assms(5) unfolding verifyInclusion_def verifyInclusionOrThrow_def
    by (auto simp: leafHash_def rootOf_def andThen_Inr_iff split: sum.splits if_splits option.splits)
  have zi: "z \<in> set (verify_inputs sha c' pf)" "y \<in> set (verify_inputs sha c' pf)"
      "set (path_inputs sha (sha y) (int_of (ip_index pf)) (int_of (cm_count c')) (ip_path pf)) \<subseteq> set (verify_inputs sha c' pf)"
    using y v z(1) by (auto simp: verify_inputs_def ok_list_def)
  have "sha z = sha x" using z(2) assms(4) by (simp add: c to_hex_inj)
  then have zx: "z = x" using assms(6) zi(1) xi by (auto dest: inj_onD)
  have lh: "length h = 32" using verify_loop_digest [OF assms(1) _ v] assms(1) by simp
  have lm: "length (merkleRoot sha leaves) = 32" using assms(1) dl ne len by (intro merkle_digest) auto
  from root_input_inj [OF z(1) [unfolded zx] x] lh lm
  have f: "cm_assetId c' = a" "cm_fromSequence c' = num (sequence (ticks ! 0))"
      "cm_toSequence c' = num (sequence (ticks ! (length ticks - 1)))" "cm_count c' = num (int (length ticks))"
      "h = merkleRoot sha leaves" by (auto simp: fields_of_def)
  obtain i where i: "ip_index pf = num (int i)" "i < length ticks"
  proof -
    obtain n where n: "ip_index pf = num n" using idx(1) isSafeInteger_num by blast
    then have "0 \<le> n" "n < int (length ticks)" using idx(2,3) f(4) by auto
    then show thesis using that [of "nat n"] n by simp
  qed
  have "sha y = leaves ! i"
  proof (rule verify_sound [OF assms(1) dl])
    show "verify_loop sha (sha y) (int i) (int (length leaves)) (ip_path pf) = Some (merkleRoot sha leaves, [])"
      using v i(1) f(4,5) by (simp add: len)
    show "inj_on sha (set (tree_inputs sha leaves) \<union> set (path_inputs sha (sha y) (int i) (int (length leaves)) (ip_path pf)))"
      using assms(6) by (rule inj_on_subset) (use ti zi(3) i(1) f(4) in \<open>auto simp: len\<close>)
  qed (use assms(1,3) i len in auto)
  moreover obtain w where w: "tick_input (ticks ! i) = Inr w" "leaves ! i = sha w" using leaves_of_Inr [OF l] i(2) by blast
  moreover have "w \<in> set (commit_inputs sha a ticks p r)" using tick_input_mem [OF i(2) w(1)] by (simp add: commit_inputs_def)
  ultimately have "y = w" using assms(6) zi(2) by (auto dest: inj_onD)
  with leaf_input_inj [OF y w(1) [folded this]] i f show ?thesis by (auto simp: c fields_of_def)
qed

text \<open>A root identifies one record. Two windows published under the same root are for the same asset,
  the same ticks and the same predecessor, unless two of the inputs hashed collide: no split of the
  bytes between neighbouring fields, no other tree and no other kind of link gives the same root.\<close>

lemma commit_same_root:
  assumes "digest sha" "commit sha a ticks p r = Inr c" "commit sha a' ticks' p' r' = Inr c'" "cm_root c = cm_root c'"
    and "inj_on sha (set (commit_inputs sha a ticks p r) \<union> set (commit_inputs sha a' ticks' p' r'))"
  shows "a = a' \<and> ticks = ticks' \<and> from_hex p = from_hex p' \<and> r = r'"
proof -
  obtain leaves x where ne: "ticks \<noteq> []" and l: "leaves_of sha ticks = Inr leaves" and len: "length leaves = length ticks"
    and x: "root_input (fields_of a ticks p r) (merkleRoot sha leaves) = Inr x"
    and c: "c = (fields_of a ticks p r)\<lparr>cm_root := to_hex (sha x)\<rparr>" and xi: "x \<in> set (commit_inputs sha a ticks p r)"
    and ti: "set (tree_inputs sha leaves) \<subseteq> set (commit_inputs sha a ticks p r)"
    using commit_Inr [OF assms(2)] by metis
  obtain leaves' x' where ne': "ticks' \<noteq> []" and l': "leaves_of sha ticks' = Inr leaves'" and len': "length leaves' = length ticks'"
    and x': "root_input (fields_of a' ticks' p' r') (merkleRoot sha leaves') = Inr x'"
    and c': "c' = (fields_of a' ticks' p' r')\<lparr>cm_root := to_hex (sha x')\<rparr>" and xi': "x' \<in> set (commit_inputs sha a' ticks' p' r')"
    and ti': "set (tree_inputs sha leaves') \<subseteq> set (commit_inputs sha a' ticks' p' r')"
    using commit_Inr [OF assms(3)] by metis
  have d: "list_all (\<lambda>d. length d = 32) leaves" "list_all (\<lambda>d. length d = 32) leaves'"
    using assms(1) l l' by (auto intro: leaves_digests)
  have "sha x = sha x'" using assms(4) by (simp add: c c' to_hex_inj)
  then have xx: "x' = x" using assms(5) xi xi' by (auto dest: inj_onD)
  have "length (merkleRoot sha leaves) = length (merkleRoot sha leaves')"
    using merkle_digest [OF assms(1) d(1)] merkle_digest [OF assms(1) d(2)] ne ne' len len' by fastforce
  from root_input_inj [OF x x' [unfolded xx] this]
  have f: "a = a'" "length ticks = length ticks'" "from_hex p = from_hex p'" "r = r'"
      "merkleRoot sha leaves = merkleRoot sha leaves'" by (auto simp: fields_of_def)
  have lv: "leaves = leaves'"
    using assms(5) f(2,5) ne len len' ti ti'
    by (intro merkle_inj [OF assms(1) d]) (auto intro: inj_on_subset)
  have "ticks ! i = ticks' ! i" if i: "i < length ticks" for i
  proof -
    obtain w w' where w: "tick_input (ticks ! i) = Inr w" "leaves ! i = sha w"
        "tick_input (ticks' ! i) = Inr w'" "leaves' ! i = sha w'"
      using leaves_of_Inr [OF l] leaves_of_Inr [OF l'] i f(2) by metis
    have "w \<in> set (commit_inputs sha a ticks p r)" "w' \<in> set (commit_inputs sha a' ticks' p' r')"
      using tick_input_mem [OF i w(1)] tick_input_mem [of i ticks', OF _ w(3)] i f(2) by (auto simp: commit_inputs_def)
    then have "w = w'" using assms(5) w lv by (auto dest: inj_onD)
    from leaf_input_inj [OF w(1) w(3) [folded this]] show ?thesis by (simp add: tick.equality)
  qed
  with f(1-4) show ?thesis by (simp add: nth_equalityI)
qed

section \<open>Chains of published windows\<close>

record window =
  wd_asset :: string
  wd_ticks :: "tick list"
  wd_previous :: string
  wd_resumes :: "jsnum option"

abbreviation commit_window :: "(bytes \<Rightarrow> bytes) \<Rightarrow> window \<Rightarrow> commitment result" where
  "commit_window sha w \<equiv> commit sha (wd_asset w) (wd_ticks w) (wd_previous w) (wd_resumes w)"

definition publishes :: "(bytes \<Rightarrow> bytes) \<Rightarrow> window list \<Rightarrow> commitment list \<Rightarrow> bool" where
  "publishes sha ws cs \<longleftrightarrow> map (commit_window sha) ws = map Inr cs"

definition chain_inputs :: "(bytes \<Rightarrow> bytes) \<Rightarrow> window list \<Rightarrow> bytes list" where
  "chain_inputs sha ws = concat (map (\<lambda>w. commit_inputs sha (wd_asset w) (wd_ticks w) (wd_previous w) (wd_resumes w)) ws)"

lemma chain_from_snoc:
  "chain_from prev (xs @ [y]) = None \<longleftrightarrow> chain_from prev xs = None \<and> check_count y = None \<and>
     check_link (last (prev # xs)) y = None"
  by (induction prev xs rule: chain_from.induct) (auto split: option.splits)

lemma verifyChain_snoc:
  "xs \<noteq> [] \<Longrightarrow> verifyChain (xs @ [y]) = None \<longleftrightarrow> verifyChain xs = None \<and> check_count y = None \<and>
     check_link (last xs) y = None"
  by (cases xs) (auto simp: verifyChain_def chain_from_snoc split: option.splits)

lemma commit_window_fields:
  assumes "commit_window sha w = Inr c"
  shows "cm_previousRoot c = wd_previous w" "cm_assetId c = wd_asset w" "\<exists>x. cm_root c = to_hex (sha x)"
    "cm_resumesAfter c = wd_resumes w"
  using commit_Inr [OF assms] by (metis (no_types, lifting) commitment.select_convs commitment.surjective
    commitment.update_convs(7) fields_of_def)+

lemma publishes_snoc:
  "publishes sha (ws @ [w]) (cs @ [c]) \<longleftrightarrow> publishes sha ws cs \<and> commit_window sha w = Inr c"
  by (simp add: publishes_def)

lemma publishes_Nil: "publishes sha ws [] \<longleftrightarrow> ws = []" "publishes sha [] cs \<longleftrightarrow> cs = []"
  by (simp_all add: publishes_def)

lemma link_root:
  assumes "check_link prev c = None" "commit_window sha w = Inr prev" "digest sha"
  shows "\<exists>x. cm_previousRoot c = to_hex (sha x) \<and> cm_root prev = to_hex (sha x) \<and> from_hex (cm_previousRoot c) \<noteq> []"
proof -
  obtain x where "cm_root prev = to_hex (sha x)" using commit_window_fields(3) [OF assms(2)] by blast
  moreover have "cm_previousRoot c = cm_root prev"
    using assms(1) by (auto simp: check_link_def split: if_splits)
  moreover have "sha x \<noteq> []" using assms(3) by (metis length_0_conv zero_neq_numeral)
  ultimately show ?thesis by auto
qed

lemma chains_with_one_root:
  assumes "digest sha" "publishes sha ws cs" "publishes sha ws' cs'"
    and "verifyChain cs = None" "verifyChain cs' = None"
    and "cm_previousRoot (hd cs) = []" "cm_previousRoot (hd cs') = []"
    and "cm_root (last cs) = cm_root (last cs')"
    and "inj_on sha (set (chain_inputs sha ws) \<union> set (chain_inputs sha ws'))"
  shows "ws = ws' \<and> cs = cs'"
  using assms(2-9)
proof (induction cs arbitrary: ws ws' cs' rule: rev_induct)
  case Nil
  then show ?case by (simp add: verifyChain_def)
next
  case (snoc c xs)
  obtain xs' c' where cs': "cs' = xs' @ [c']"
    using snoc.prems(4) by (cases cs' rule: rev_cases) (auto simp: verifyChain_def)
  obtain vs w where ws: "ws = vs @ [w]" using snoc.prems(1) by (cases ws rule: rev_cases) (auto simp: publishes_def)
  obtain vs' w' where ws': "ws' = vs' @ [w']" using snoc.prems(2) cs' by (cases ws' rule: rev_cases) (auto simp: publishes_def)
  have p: "publishes sha vs xs" "commit_window sha w = Inr c" "publishes sha vs' xs'" "commit_window sha w' = Inr c'"
    using snoc.prems(1,2) by (auto simp: ws ws' cs' publishes_snoc)
  have root: "cm_root c = cm_root c'" using snoc.prems(7) by (simp add: cs')
  have inj: "inj_on sha (set (commit_inputs sha (wd_asset w) (wd_ticks w) (wd_previous w) (wd_resumes w)) \<union>
      set (commit_inputs sha (wd_asset w') (wd_ticks w') (wd_previous w') (wd_resumes w')))"
    using snoc.prems(8) by (rule inj_on_subset) (auto simp: chain_inputs_def ws ws')
  from commit_same_root [OF assms(1) p(2,4) root inj]
  have w: "wd_asset w = wd_asset w'" "wd_ticks w = wd_ticks w'" "from_hex (wd_previous w) = from_hex (wd_previous w')"
      "wd_resumes w = wd_resumes w'" by auto
  have prev: "cm_previousRoot c = wd_previous w" "cm_previousRoot c' = wd_previous w'"
    using commit_window_fields(1) p(2,4) by blast+
  have linked: "\<exists>x. wd_previous v = to_hex (sha x) \<and> cm_root (last ys) = to_hex (sha x) \<and> from_hex (wd_previous v) \<noteq> []"
    if "ys \<noteq> []" "publishes sha us ys" "verifyChain (ys @ [d]) = None" "commit_window sha v = Inr d" for ys us d v
  proof -
    have ne: "ys \<noteq> []" and pub: "publishes sha us ys" by fact+
    obtain ys0 y where ys: "ys = ys0 @ [y]" using ne by (cases ys rule: rev_exhaust) auto
    then obtain us0 u where us: "us = us0 @ [u]" using pub by (cases us rule: rev_cases) (auto simp: publishes_def)
    have "check_link y d = None" using that(1,3) by (simp add: verifyChain_snoc ys del: append_assoc)
    from link_root [OF this _ assms(1)] that(2) ys us commit_window_fields(1) [OF that(4)] show ?thesis
      by (auto simp: publishes_snoc)
  qed
  show ?case
  proof (cases "xs = []")
    case True
    then have "from_hex (wd_previous w) = []" using snoc.prems(5) prev by simp
    then have "xs' = []" using linked [OF _ p(3) _ p(4)] snoc.prems(4) w(3) by (auto simp: cs')
    with True have "wd_previous w = wd_previous w'" using snoc.prems(5,6) prev by (simp add: cs')
    with w have "w = w'" by (simp add: window.equality)
    with True \<open>xs' = []\<close> p show ?thesis by (simp add: ws ws' cs' publishes_Nil)
  next
    case False
    obtain x where x: "wd_previous w = to_hex (sha x)" "cm_root (last xs) = to_hex (sha x)" "from_hex (wd_previous w) \<noteq> []"
      using linked [OF False p(1) snoc.prems(3) p(2)] by blast
    have ne': "xs' \<noteq> []"
    proof
      assume "xs' = []"
      then have "from_hex (wd_previous w') = []" using snoc.prems(6) prev by (simp add: cs')
      with x(3) w(3) show False by simp
    qed
    obtain x' where x': "wd_previous w' = to_hex (sha x')" "cm_root (last xs') = to_hex (sha x')"
      using linked [OF ne' p(3) snoc.prems(4) [unfolded cs'] p(4)] by blast
    have same: "wd_previous w = wd_previous w'" using w(3) x(1) x'(1) by simp
    have "vs = vs' \<and> xs = xs'"
    proof (rule snoc.IH [OF p(1,3)])
      show "verifyChain xs = None" "verifyChain xs' = None"
        using snoc.prems(3,4) False ne' by (auto simp: cs' verifyChain_snoc)
      show "cm_previousRoot (hd xs) = []" "cm_previousRoot (hd xs') = []"
        using snoc.prems(5,6) False ne' by (auto simp: cs')
      show "cm_root (last xs) = cm_root (last xs')" using x x' same by simp
      show "inj_on sha (set (chain_inputs sha vs) \<union> set (chain_inputs sha vs'))"
        using snoc.prems(8) by (rule inj_on_subset) (auto simp: chain_inputs_def ws ws')
    qed
    moreover have "w = w'" using w same by (simp add: window.equality)
    ultimately show ?thesis using p by (simp add: ws ws' cs')
  qed
qed

text \<open>C25: the newest root fixes the whole history. Two published chains that verify, that start at a
  genesis link and whose newest commitments carry the same root are the same chain over the same
  windows, however long each is, unless two of the inputs hashed collide: a record cannot be restated,
  shortened or extended behind a root that has been given out.\<close>

theorem newest_root_fixes_history:
  assumes "digest sha" "publishes sha ws cs" "publishes sha ws' cs'"
    and "verifyChain cs = None" "verifyChain cs' = None"
    and "cm_previousRoot (hd cs) = []" "cm_previousRoot (hd cs') = []"
    and "cm_root (last cs) = cm_root (last cs')"
    and "inj_on sha (set (chain_inputs sha ws) \<union> set (chain_inputs sha ws'))"
  shows "ws = ws' \<and> cs = cs'"
  using assms by (rule chains_with_one_root)

section \<open>A published window\<close>

text \<open>A digest for the examples: the length of the input and its last bytes.\<close>

definition demo_sha :: "bytes \<Rightarrow> bytes" where
  "demo_sha x = take 32 (word_of_nat (length x) # rev x @ replicate 32 0)"

definition demo_window :: window where
  "demo_window = \<lparr>wd_asset = ''a'', wd_ticks = [\<lparr>instant = 10, sequence = 1, price = -3\<rparr>, \<lparr>instant = 12, sequence = 2, price = 4\<rparr>],
     wd_previous = [], wd_resumes = None\<rparr>"

lemma demo_digest: "digest demo_sha"
  by (auto simp: demo_sha_def min_def)

lemma be_numeral: "be (numeral k) n = be (pred_numeral k) (n div 256) @ [word_of_nat (n mod 256)]"
  by (simp only: numeral_eq_Suc [of k] be.simps)

definition demo_leaf :: "nat \<Rightarrow> nat \<Rightarrow> nat \<Rightarrow> bytes" where
  "demo_leaf s i p = LEAF_TAG # be 8 s @ be 8 i @ be 8 p"

lemma demo_inputs:
  "tick_input \<lparr>instant = 10, sequence = 1, price = -3\<rparr> = Inr (demo_leaf 1 10 (2 ^ 64 - 3))"
  "tick_input \<lparr>instant = 12, sequence = 2, price = 4\<rparr> = Inr (demo_leaf 2 12 4)"
  by (simp_all add: leaf_input_def u64_def i64_def demo_leaf_def)

lemma demo_bytes:
  "demo_leaf 1 10 (2 ^ 64 - 3) = [0, 0, 0, 0, 0, 0, 0, 0, 1, 0, 0, 0, 0, 0, 0, 0, 10, 255, 255, 255, 255, 255, 255, 255, 253]"
  "demo_leaf 2 12 4 = [0, 0, 0, 0, 0, 0, 0, 0, 2, 0, 0, 0, 0, 0, 0, 0, 12, 0, 0, 0, 0, 0, 0, 0, 4]"
  by (simp_all add: demo_leaf_def be_numeral LEAF_TAG_def)

abbreviation demo_h1 :: bytes where
  "demo_h1 \<equiv> [25, 253, 255, 255, 255, 255, 255, 255, 255, 10, 0, 0, 0, 0, 0, 0, 0, 1, 0, 0, 0, 0, 0, 0, 0, 0, 0, 0, 0, 0, 0, 0]"

abbreviation demo_h2 :: bytes where
  "demo_h2 \<equiv> [25, 4, 0, 0, 0, 0, 0, 0, 0, 12, 0, 0, 0, 0, 0, 0, 0, 2, 0, 0, 0, 0, 0, 0, 0, 0, 0, 0, 0, 0, 0, 0]"

abbreviation demo_h :: bytes where
  "demo_h \<equiv> 65 # replicate 14 0 @ 2 # replicate 7 0 @ 12 # replicate 7 0 @ [4]"

lemma replicate_num: "replicate (numeral k) x = x # replicate (pred_numeral k) x"
  by (simp only: numeral_eq_Suc [of k] replicate.simps)

lemma demo_hashes:
  "demo_sha (demo_leaf 1 10 (2 ^ 64 - 3)) = demo_h1" "demo_sha (demo_leaf 2 12 4) = demo_h2"
  "demo_sha (node_input demo_h1 demo_h2) = demo_h"
  by (simp_all add: demo_bytes [simplified] demo_sha_def node_input_def NODE_TAG_def replicate_num)

definition demo_root :: bytes where
  "demo_root = ROOT_TAG # be 4 1 @ [97] @ be 8 1 @ be 8 2 @ be 8 2 @ be 4 0 @ demo_h"

lemma demo_root_input: "root_input (fields_of ''a'' (wd_ticks demo_window) [] None) demo_h = Inr demo_root"
  by (simp add: root_input_def fields_of_def demo_window_def u64_def framed_def demo_root_def utf8_def)

lemma demo_root_bytes:
  "demo_root = [2, 0, 0, 0, 1, 97, 0, 0, 0, 0, 0, 0, 0, 1, 0, 0, 0, 0, 0, 0, 0, 2, 0, 0, 0, 0, 0, 0, 0, 2, 0, 0, 0, 0] @ demo_h"
  by (simp add: demo_root_def be_numeral ROOT_TAG_def)

lemma demo_leaves: "leaves_of demo_sha (wd_ticks demo_window) = Inr [demo_h1, demo_h2]"
  using demo_hashes by (simp add: demo_window_def leafHash_def demo_inputs [simplified])

lemma demo_merkle: "merkleRoot demo_sha [demo_h1, demo_h2] = demo_h"
  by (simp add: merkleRoot.simps nodeHash_def demo_hashes)

lemma demo_chain_inputs: "chain_inputs demo_sha [demo_window] =
    [demo_leaf 1 10 (2 ^ 64 - 3), demo_leaf 2 12 4, node_input demo_h1 demo_h2, demo_root]"
proof -
  have "wd_asset demo_window = ''a''" "wd_previous demo_window = []" "wd_resumes demo_window = None"
    by (simp_all add: demo_window_def)
  moreover have "concat (map (\<lambda>t. ok_list (tick_input t)) (wd_ticks demo_window)) = [demo_leaf 1 10 (2 ^ 64 - 3), demo_leaf 2 12 4]"
    by (simp add: demo_window_def demo_inputs [simplified] ok_list_def)
  moreover have "tree_inputs demo_sha [demo_h1, demo_h2] = [node_input demo_h1 demo_h2]"
    by (simp add: tree_inputs.simps)
  ultimately show ?thesis
    by (simp add: chain_inputs_def commit_inputs_def demo_leaves demo_merkle demo_root_input ok_list_def)
qed

lemma demo_distinct: "distinct (map demo_sha (chain_inputs demo_sha [demo_window]))"
proof -
  have "demo_sha demo_root = 66 # take 31 (rev demo_root)"
    by (simp add: demo_sha_def demo_root_bytes)
  then show ?thesis by (simp add: demo_chain_inputs demo_hashes [simplified])
qed

lemma demo_commit: "commit_window demo_sha demo_window =
    Inr (fields_of ''a'' (wd_ticks demo_window) [] None\<lparr>cm_root := to_hex (demo_sha demo_root)\<rparr>)"
  using demo_leaves demo_root_input
  by (simp add: commit_def demo_window_def assertAssetId_def ASSET_ID_PATTERN_def assertPreviousRoot_def assertRange_def
      check_resume_def rootOf_def demo_merkle)

definition demo_published :: commitment where
  "demo_published = fields_of ''a'' (wd_ticks demo_window) [] None\<lparr>cm_root := to_hex (demo_sha demo_root)\<rparr>"

lemma demo_published:
  "publishes demo_sha [demo_window] [demo_published]" "verifyChain [demo_published] = None" "cm_previousRoot demo_published = []"
  "inj_on demo_sha (set (chain_inputs demo_sha [demo_window]) \<union> set (chain_inputs demo_sha [demo_window]))"
proof -
  show "publishes demo_sha [demo_window] [demo_published]" using demo_commit by (simp add: publishes_def demo_published_def)
  show "verifyChain [demo_published] = None" "cm_previousRoot demo_published = []"
    by (simp_all add: demo_published_def verifyChain_def check_count_def check_first_def fields_of_def demo_window_def js_add_num js_sub_num)
  show "inj_on demo_sha (set (chain_inputs demo_sha [demo_window]) \<union> set (chain_inputs demo_sha [demo_window]))"
    using demo_distinct by (simp add: distinct_map)
qed

theorem newest_root_fixes_history_witness:
  "publishes demo_sha [demo_window] [demo_published] \<and> verifyChain [demo_published] = None \<and>
   [demo_window] = [demo_window] \<and> [demo_published] = [demo_published]"
  using newest_root_fixes_history [OF demo_digest demo_published(1,1,2,2) _ _ refl demo_published(4)] demo_published by simp

text \<open>The proof of the window's second tick.\<close>

definition demo_proof :: inclusion_proof where
  "demo_proof = \<lparr>ip_sequence = num 2, ip_instant = num 12, ip_price = num 4, ip_index = num 1, ip_path = [to_hex demo_h1]\<rparr>"

lemma demo_prove: "proveInclusion demo_sha (wd_ticks demo_window) 2 = Inr demo_proof"
proof -
  have "prove_loop demo_sha [demo_h1, demo_h2] 1 [] = [to_hex demo_h1]"
    by (subst prove_loop.simps) (simp add: prove_loop.simps nodeHash_def)
  moreover have "assertRange (wd_ticks demo_window) = Inr ()" "sequence (wd_ticks demo_window ! 0) = 1"
    "length (wd_ticks demo_window) = 2" "wd_ticks demo_window ! 1 = \<lparr>instant = 12, sequence = 2, price = 4\<rparr>"
    by (simp_all add: assertRange_def demo_window_def)
  ultimately show ?thesis by (simp add: proveInclusion_def demo_leaves demo_proof_def)
qed

lemma demo_commit': "\<exists>c. commit demo_sha ''a'' (wd_ticks demo_window) [] None = Inr c"
  using demo_commit by (simp add: demo_window_def)

theorem inclusion_complete_witness:
  "\<exists>c. commit demo_sha ''a'' (wd_ticks demo_window) [] None = Inr c \<and> verifyInclusion demo_sha c demo_proof"
proof -
  obtain c where c: "commit demo_sha ''a'' (wd_ticks demo_window) [] None = Inr c" using demo_commit' by blast
  have "verifyInclusion demo_sha c demo_proof"
    by (rule inclusion_complete [OF demo_digest c demo_prove]) (simp_all add: demo_window_def)
  with c show ?thesis by blast
qed

lemma demo_verify_loop: "verify_loop demo_sha demo_h2 1 2 [to_hex demo_h1] = Some (demo_h, [])"
  by (subst verify_loop.simps) (simp add: verify_loop.simps nodeHash_def demo_hashes)

lemma demo_leaf_input: "leaf_input (num 2) (num 12) (num 4) = Inr (demo_leaf 2 12 4)"
  using demo_inputs(2) by simp

lemma demo_verify:
  assumes "commit demo_sha ''a'' (wd_ticks demo_window) [] None = Inr c"
  shows "verifyInclusion demo_sha c demo_proof"
    "set (verify_inputs demo_sha c demo_proof) \<subseteq> set (chain_inputs demo_sha [demo_window])"
proof -
  have "c = fields_of ''a'' (wd_ticks demo_window) [] None\<lparr>cm_root := to_hex (demo_sha demo_root)\<rparr>"
    using assms demo_commit by (simp add: demo_window_def)
  then have c: "root_input c demo_h = Inr demo_root" "cm_root c = to_hex (demo_sha demo_root)" "cm_count c = num 2"
      "cm_fromSequence c = num 1" "cm_resumesAfter c = None"
    using demo_root_input by (simp_all add: root_input_def fields_of_def demo_window_def)
  have "demo_sha (demo_leaf 2 12 4) = demo_h2" by (rule demo_hashes)
  then show "verifyInclusion demo_sha c demo_proof"
    by (simp add: verifyInclusion_def verifyInclusionOrThrow_def demo_proof_def c leafHash_def demo_leaf_input
        demo_verify_loop rootOf_def js_add_num)
  have "path_inputs demo_sha demo_h2 1 2 [to_hex demo_h1] = [node_input demo_h1 demo_h2]"
    by (subst path_inputs.simps) (simp add: path_inputs.simps)
  with \<open>demo_sha (demo_leaf 2 12 4) = demo_h2\<close>
  show "set (verify_inputs demo_sha c demo_proof) \<subseteq> set (chain_inputs demo_sha [demo_window])"
    by (simp add: verify_inputs_def demo_proof_def c demo_leaf_input demo_verify_loop ok_list_def demo_chain_inputs)
qed

theorem inclusion_sound_witness:
  "\<exists>c. commit demo_sha ''a'' (wd_ticks demo_window) [] None = Inr c \<and> verifyInclusion demo_sha c demo_proof \<and>
    (\<exists>i < length (wd_ticks demo_window). ip_index demo_proof = num (int i) \<and>
      ip_price demo_proof = num (price (wd_ticks demo_window ! i)))"
proof -
  obtain c where c: "commit demo_sha ''a'' (wd_ticks demo_window) [] None = Inr c" using demo_commit' by blast
  have "commit_inputs demo_sha ''a'' (wd_ticks demo_window) [] None = chain_inputs demo_sha [demo_window]"
    by (simp add: chain_inputs_def demo_window_def)
  then have "inj_on demo_sha (set (commit_inputs demo_sha ''a'' (wd_ticks demo_window) [] None) \<union>
      set (verify_inputs demo_sha c demo_proof))"
    using demo_distinct demo_verify(2) [OF c] by (simp add: distinct_map Un_absorb2)
  moreover have "length (wd_ticks demo_window) \<le> 2 ^ 31" by (simp add: demo_window_def)
  ultimately show ?thesis
    using inclusion_sound [OF demo_digest c _ refl demo_verify(1) [OF c]] c demo_verify(1) [OF c] by blast
qed

end
