(* ===== verification/Signing.thy ===== *)
theory Signing
  imports Commitment
begin

text \<open>
  Signing a commitment: packages/distribution/src/signing.ts, apart from the chain check, which
  needs the rotation log and stands in the theory of the rotations.

  Ed25519 and the key formats (node:crypto) are the argument \<open>cr\<close>: signing and verifying
  a message, the public key of a private one, and reading and writing keys in DER. An import that
  throws is \<open>None\<close>. What the theorems rely on is \<open>ed25519\<close>: a signature verifies under
  the key that made it, and a key is written as bytes it is read back from.
\<close>

section \<open>Keys\<close>

record ('sk, 'pk) crypto =
  cr_sign :: "bytes \<Rightarrow> 'sk \<Rightarrow> bytes"
  cr_verify :: "bytes \<Rightarrow> 'pk \<Rightarrow> bytes \<Rightarrow> bool"
  cr_public :: "'sk \<Rightarrow> 'pk"
  cr_import :: "bytes \<Rightarrow> 'pk option"
  cr_export :: "'pk \<Rightarrow> bytes"
  cr_private :: "bytes \<Rightarrow> 'sk option"

definition ed25519 :: "('sk, 'pk) crypto \<Rightarrow> bool" where
  "ed25519 cr \<longleftrightarrow> (\<forall>m sk. cr_verify cr m (cr_public cr sk) (cr_sign cr m sk)) \<and>
     (\<forall>pk. cr_import cr (cr_export cr pk) = Some pk \<and> cr_export cr pk \<noteq> [])"

text \<open>The PKCS\#8 wrapper of a raw seed.\<close>

definition PKCS8_PREFIX :: bytes where
  "PKCS8_PREFIX = from_hex ''302e020100300506032b657004220420''"

definition publishingKeyFromSeed :: "('sk, 'pk) crypto \<Rightarrow> string \<Rightarrow> 'sk result" where
  "publishingKeyFromSeed cr seedHex =
     (if \<not> is_digest seedHex then Inl (PublishingKeyErr ''64 hex characters'')
      else case cr_private cr (PKCS8_PREFIX @ from_hex seedHex) of
        None \<Rightarrow> Inl (TypeError ''createPrivateKey'')
      | Some sk \<Rightarrow> Inr sk)"

definition publicKeyHex :: "('sk, 'pk) crypto \<Rightarrow> 'sk \<Rightarrow> string" where
  "publicKeyHex cr sk = to_hex (cr_export cr (cr_public cr sk))"

definition toLowerCase :: "string \<Rightarrow> string" where
  "toLowerCase s = map (\<lambda>c. let n = (of_char c :: nat) in
     if 65 \<le> n \<and> n \<le> 90 then char_of (n + 32) else c) s"

definition publishingKeyFromEnvironment :: "('sk, 'pk) crypto \<Rightarrow> (string \<rightharpoonup> string) \<Rightarrow> 'sk result" where
  "publishingKeyFromEnvironment cr env = (case env ''OTC_PUBLISHING_KEY'' of
     None \<Rightarrow> Inl (PublishingKeyErr ''not set'')
   | Some seed \<Rightarrow>
       if length seed = 0 then Inl (PublishingKeyErr ''not set'')
       else (case env ''OTC_MASTER_SECRET'' of
           None \<Rightarrow> publishingKeyFromSeed cr seed
         | Some master \<Rightarrow>
             if 0 < length master \<and> toLowerCase master = toLowerCase seed
             then Inl (PublishingKeyErr ''equal to OTC_MASTER_SECRET'')
             else publishingKeyFromSeed cr seed))"

section \<open>Signed commitments\<close>

record signed_commitment =
  sc_commitment :: commitment
  sc_signature :: string
  sc_publicKey :: string

definition canonicalEncoding :: "commitment \<Rightarrow> bytes result" where
  "canonicalEncoding c =
     andThen (framed (utf8 ''otc-commitment-v2'')) (\<lambda>v.
     andThen (framed (utf8 (cm_assetId c))) (\<lambda>a.
     andThen (u64 (cm_fromSequence c)) (\<lambda>f.
     andThen (u64 (cm_toSequence c)) (\<lambda>t.
     andThen (u64 (cm_count c)) (\<lambda>n.
     andThen (framed (utf8 (cm_previousRoot c))) (\<lambda>p.
     andThen (framed (utf8 (cm_root c))) (\<lambda>r.
     andThen (case cm_resumesAfter c of None \<Rightarrow> Inr [] | Some x \<Rightarrow> u64 x) (\<lambda>x.
     Inr (v @ a @ f @ t @ n @ p @ r @ x)))))))))"

definition signCommitment :: "('sk, 'pk) crypto \<Rightarrow> commitment \<Rightarrow> 'sk \<Rightarrow> signed_commitment result" where
  "signCommitment cr c sk = andThen (canonicalEncoding c) (\<lambda>m.
     Inr \<lparr>sc_commitment = c, sc_signature = to_hex (cr_sign cr m sk), sc_publicKey = publicKeyHex cr sk\<rparr>)"

definition verifyCommitment :: "('sk, 'pk) crypto \<Rightarrow> signed_commitment \<Rightarrow> string option \<Rightarrow> bool" where
  "verifyCommitment cr s publicKeyHexValue =
     (let expected = (case publicKeyHexValue of None \<Rightarrow> sc_publicKey s | Some k \<Rightarrow> k) in
      if expected \<noteq> sc_publicKey s then False
      else case cr_import cr (from_hex expected) of
        None \<Rightarrow> False
      | Some key \<Rightarrow> (case canonicalEncoding (sc_commitment s) of
          Inl _ \<Rightarrow> False
        | Inr m \<Rightarrow> cr_verify cr m key (from_hex (sc_signature s))))"

section \<open>What is signed can be read one way\<close>

lemma length_utf8 [simp]: "length (utf8 s) = length s"
  by (simp add: utf8_def)

lemma framed_prefix:
  assumes "andThen (framed x) f = Inr z"
  obtains a where "framed x = Inr a" "f a = Inr z"
  using assms by (auto simp: andThen_Inr_iff)

lemma optional_u64:
  assumes "(case x of None \<Rightarrow> Inr [] | Some v \<Rightarrow> u64 v) = Inr a" "(case y of None \<Rightarrow> Inr [] | Some v \<Rightarrow> u64 v) = Inr a"
  shows "x = y"
proof (cases x)
  case None
  then show ?thesis using assms length_u64 [of _ "[]"] by (auto split: option.splits)
next
  case (Some v)
  then obtain w where "y = Some w" using assms length_u64 [of _ "[]"] by (auto split: option.splits)
  then show ?thesis using assms Some u64_inj by simp
qed

text \<open> a signature is over one commitment. Two commitments of which any field differs, however the
  bytes are moved between neighbouring fields, are never encoded as the same message.\<close>

theorem canonicalEncoding_unambiguous:
  assumes "canonicalEncoding c = Inr m" "canonicalEncoding d = Inr m"
  shows "c = d"
proof -
  obtain v a f t n p r x where h: "framed (utf8 ''otc-commitment-v2'') = Inr v" "framed (utf8 (cm_assetId c)) = Inr a"
      "u64 (cm_fromSequence c) = Inr f" "u64 (cm_toSequence c) = Inr t" "u64 (cm_count c) = Inr n"
      "framed (utf8 (cm_previousRoot c)) = Inr p" "framed (utf8 (cm_root c)) = Inr r"
      "(case cm_resumesAfter c of None \<Rightarrow> Inr [] | Some x \<Rightarrow> u64 x) = Inr x" "m = v @ a @ f @ t @ n @ p @ r @ x"
    using assms(1) by (auto simp: canonicalEncoding_def andThen_Inr_iff)
  obtain v' a' f' t' n' p' r' x' where h': "framed (utf8 ''otc-commitment-v2'') = Inr v'" "framed (utf8 (cm_assetId d)) = Inr a'"
      "u64 (cm_fromSequence d) = Inr f'" "u64 (cm_toSequence d) = Inr t'" "u64 (cm_count d) = Inr n'"
      "framed (utf8 (cm_previousRoot d)) = Inr p'" "framed (utf8 (cm_root d)) = Inr r'"
      "(case cm_resumesAfter d of None \<Rightarrow> Inr [] | Some x \<Rightarrow> u64 x) = Inr x'" "m = v' @ a' @ f' @ t' @ n' @ p' @ r' @ x'"
    using assms(2) by (auto simp: canonicalEncoding_def andThen_Inr_iff)
  have "v = v'" using h(1) h'(1) by simp
  then have "a @ f @ t @ n @ p @ r @ x = a' @ f' @ t' @ n' @ p' @ r' @ x'" using h(9) h'(9) by simp
  from framed_append_inj [OF h(2) h'(2) this]
  have a: "cm_assetId c = cm_assetId d" and e: "f @ t @ n @ p @ r @ x = f' @ t' @ n' @ p' @ r' @ x'" by (simp_all add: utf8_inj)
  have "length f = 8" "length f' = 8" "length t = 8" "length t' = 8" "length n = 8" "length n' = 8"
    using h(3-5) h'(3-5) by (auto dest: length_u64)
  with e have ftn: "f = f'" "t = t'" "n = n'" and "p @ r @ x = p' @ r' @ x'" by (simp_all add: append_eq_append_conv)
  from framed_append_inj [OF h(6) h'(6) this(4)]
  have p: "cm_previousRoot c = cm_previousRoot d" and "r @ x = r' @ x'" by (simp_all add: utf8_inj)
  from framed_append_inj [OF h(7) h'(7) this(2)]
  have r: "cm_root c = cm_root d" and "x = x'" by (simp_all add: utf8_inj)
  with optional_u64 [OF h(8)] h'(8) have "cm_resumesAfter c = cm_resumesAfter d" by simp
  moreover have "cm_fromSequence c = cm_fromSequence d" "cm_toSequence c = cm_toSequence d" "cm_count c = cm_count d"
    using u64_inj h(3-5) h'(3-5) ftn by metis+
  ultimately show ?thesis using a p r by (simp add: commitment.equality)
qed

text \<open> what is signed verifies. A commitment that is signed is accepted under the publishing key that
  signed it, named by the verifier or read from the record, and under no other name.\<close>

theorem signed_then_verified:
  assumes "ed25519 cr" "signCommitment cr c sk = Inr s"
  shows "sc_commitment s = c \<and> verifyCommitment cr s None \<and>
    (verifyCommitment cr s (Some k) \<longleftrightarrow> k = publicKeyHex cr sk)"
  using assms by (auto simp: signCommitment_def andThen_Inr_iff verifyCommitment_def Let_def publicKeyHex_def ed25519_def)


section \<open>A toy signature\<close>

text \<open>For the examples only: the signature shows the key and the message.\<close>

definition demo_crypto :: "(8 word, 8 word) crypto" where
  "demo_crypto = \<lparr>cr_sign = (\<lambda>m sk. sk # m), cr_verify = (\<lambda>m pk s. s = pk # m), cr_public = (\<lambda>sk. sk),
     cr_import = (\<lambda>bs. if length bs = 1 then Some (hd bs) else None), cr_export = (\<lambda>pk. [pk]),
     cr_private = (\<lambda>bs. if bs = [] then None else Some (last bs))\<rparr>"

lemma demo_ed25519: "ed25519 demo_crypto"
  by (simp add: ed25519_def demo_crypto_def)

definition demo_commitment :: commitment where
  "demo_commitment = \<lparr>cm_assetId = ''a'', cm_fromSequence = num 1, cm_toSequence = num 2, cm_count = num 2,
     cm_previousRoot = [], cm_resumesAfter = None, cm_root = ''00''\<rparr>"

lemma demo_encodes: "\<exists>m. canonicalEncoding demo_commitment = Inr m"
  by (simp add: canonicalEncoding_def demo_commitment_def framed_def u64_def)

theorem canonicalEncoding_unambiguous_witness:
  "\<exists>m. canonicalEncoding demo_commitment = Inr m \<and> canonicalEncoding (demo_commitment\<lparr>cm_assetId := ''b''\<rparr>) \<noteq> Inr m"
proof -
  obtain m where m: "canonicalEncoding demo_commitment = Inr m" using demo_encodes by blast
  have "demo_commitment \<noteq> demo_commitment\<lparr>cm_assetId := ''b''\<rparr>" by (simp add: demo_commitment_def)
  with canonicalEncoding_unambiguous [OF m] m show ?thesis by blast
qed

theorem signed_then_verified_witness:
  "\<exists>s. signCommitment demo_crypto demo_commitment 7 = Inr s \<and> verifyCommitment demo_crypto s (Some ''07'') \<and>
    \<not> verifyCommitment demo_crypto s (Some ''08'')"
proof -
  obtain s where s: "signCommitment demo_crypto demo_commitment 7 = Inr s"
    using demo_encodes by (auto simp: signCommitment_def)
  moreover have "publicKeyHex demo_crypto 7 = ''07''"
    by (simp add: publicKeyHex_def demo_crypto_def to_hex_def hex_digit_def)
  ultimately show ?thesis using signed_then_verified [OF demo_ed25519 s] by simp
qed

section \<open>The publishing key\<close>

text \<open>The key is never invented and never the generation secret: a process starts with a publishing key
  only when its seed is set, is 64 hexadecimal digits and is not the master secret in either case.\<close>

lemma publishingKey_accepts:
  assumes "publishingKeyFromEnvironment cr env = Inr sk"
  obtains seed where "env ''OTC_PUBLISHING_KEY'' = Some seed" "is_digest seed"
    "cr_private cr (PKCS8_PREFIX @ from_hex seed) = Some sk"
    "\<And>master. env ''OTC_MASTER_SECRET'' = Some master \<Longrightarrow> toLowerCase master \<noteq> toLowerCase seed"
proof -
  obtain seed where s: "env ''OTC_PUBLISHING_KEY'' = Some seed" "seed \<noteq> []" "publishingKeyFromSeed cr seed = Inr sk"
    and m: "\<And>master. env ''OTC_MASTER_SECRET'' = Some master \<Longrightarrow> master = [] \<or> toLowerCase master \<noteq> toLowerCase seed"
    using assms by (auto simp: publishingKeyFromEnvironment_def split: option.splits if_splits)
  then have "is_digest seed" "cr_private cr (PKCS8_PREFIX @ from_hex seed) = Some sk"
    by (auto simp: publishingKeyFromSeed_def split: if_splits option.splits)
  moreover have "toLowerCase master \<noteq> toLowerCase seed" if "env ''OTC_MASTER_SECRET'' = Some master" for master
    using m [OF that] s(2) by (auto simp: toLowerCase_def)
  ultimately show thesis using that s(1) by blast
qed

end
