(* ===== verification/Rotation.thy ===== *)
theory Rotation
  imports Signing "HOL-Library.Sorting_Algorithms"
begin

text \<open>
  Rotating a publishing key, packages/distribution/src/rotation.ts, and the check of a signed chain
  that spans rotations, \<^verbatim>\<open>verifySignedChain\<close> of packages/distribution/src/signing.ts.

  The free strings of a rotation are lists of UTF-16 code units, as JavaScript has them, so that an
  unpaired surrogate exists; keys and signatures are strings as in the commitments.
  \<^verbatim>\<open>localeCompare\<close> is the comparator \<open>lc\<close>.
\<close>

section \<open>JavaScript strings and UTF-8\<close>

type_synonym units = "16 word list"

abbreviation high_surrogate :: "16 word \<Rightarrow> bool" where
  "high_surrogate c \<equiv> 0xd800 \<le> unat c \<and> unat c \<le> 0xdbff"

abbreviation low_surrogate :: "16 word \<Rightarrow> bool" where
  "low_surrogate c \<equiv> 0xdc00 \<le> unat c \<and> unat c \<le> 0xdfff"

fun wellFormed :: "units \<Rightarrow> bool" where
  "wellFormed [] = True"
| "wellFormed [c] = (\<not> high_surrogate c \<and> \<not> low_surrogate c)"
| "wellFormed (c # d # cs) =
     (if high_surrogate c then low_surrogate d \<and> wellFormed cs
      else if low_surrogate c then False else wellFormed (d # cs))"

text \<open>\<^verbatim>\<open>Buffer.from(s, 'utf8')\<close>: an unpaired surrogate is written as U+FFFD.\<close>

fun code_points :: "units \<Rightarrow> nat list" where
  "code_points [] = []"
| "code_points [c] = [if high_surrogate c \<or> low_surrogate c then 0xfffd else unat c]"
| "code_points (c # d # cs) =
     (if high_surrogate c \<and> low_surrogate d
      then (0x10000 + (unat c - 0xd800) * 0x400 + (unat d - 0xdc00)) # code_points cs
      else (if high_surrogate c \<or> low_surrogate c then 0xfffd else unat c) # code_points (d # cs))"

definition utf8_char :: "nat \<Rightarrow> bytes" where
  "utf8_char n =
     (if n < 0x80 then map word_of_nat [n]
      else if n < 0x800 then map word_of_nat [0xc0 + n div 64, 0x80 + n mod 64]
      else if n < 0x10000 then map word_of_nat [0xe0 + n div 4096, 0x80 + n div 64 mod 64, 0x80 + n mod 64]
      else map word_of_nat [0xf0 + n div 262144, 0x80 + n div 4096 mod 64, 0x80 + n div 64 mod 64, 0x80 + n mod 64])"

definition utf8_units :: "units \<Rightarrow> bytes" where
  "utf8_units s = concat (map utf8_char (code_points s))"

definition assertWellFormed :: "units \<Rightarrow> unit result" where
  "assertWellFormed s = require (wellFormed s) (RotationErr ''unpaired surrogate'')"

text \<open>Comparing such a string with one that is given by its bytes.\<close>

definition same_string :: "units \<Rightarrow> string \<Rightarrow> bool" where
  "same_string u s \<longleftrightarrow> wellFormed u \<and> utf8_units u = utf8 s"

section \<open>Rotations\<close>

record rotation_head =
  rh_assetId :: units
  rh_root :: units

record key_rotation =
  kr_epoch :: jsnum
  kr_fromPublicKey :: string
  kr_toPublicKey :: string
  kr_heads :: "rotation_head list"
  kr_reason :: units

record signed_rotation =
  sr_rotation :: key_rotation
  sr_signature :: string

definition lower_hex :: "char \<Rightarrow> bool" where
  "lower_hex c \<longleftrightarrow> c \<in> set ''0123456789abcdef''"

definition assertCanonicalPublicKey :: "('sk, 'pk) crypto \<Rightarrow> string \<Rightarrow> unit result" where
  "assertCanonicalPublicKey cr hex =
     (if hex = [] \<or> \<not> list_all lower_hex hex \<or> length hex mod 2 \<noteq> 0 then Inl (RotationErr ''canonical lower-case hex'')
      else case cr_import cr (from_hex hex) of
        None \<Rightarrow> Inl (RotationErr ''readable SPKI'')
      | Some pk \<Rightarrow> require (to_hex (cr_export cr pk) = hex) (RotationErr ''canonical encoding''))"

fun framed_heads :: "rotation_head list \<Rightarrow> bytes result" where
  "framed_heads [] = Inr []"
| "framed_heads (h # hs) = andThen (framed (utf8_units (rh_assetId h))) (\<lambda>a.
     andThen (framed (utf8_units (rh_root h))) (\<lambda>r. andThen (framed_heads hs) (\<lambda>rest. Inr (a @ r @ rest))))"

definition canonicalRotation :: "key_rotation \<Rightarrow> bytes result" where
  "canonicalRotation k =
     andThen (u64 (kr_epoch k)) (\<lambda>e.
     andThen (u64 (num (int (length (kr_heads k))))) (\<lambda>n.
     andThen (framed (utf8 ''otc-key-rotation-v2'')) (\<lambda>v.
     andThen (framed (utf8 (kr_fromPublicKey k))) (\<lambda>f.
     andThen (framed (utf8 (kr_toPublicKey k))) (\<lambda>t.
     andThen (framed_heads (kr_heads k)) (\<lambda>hs.
     andThen (framed (utf8_units (kr_reason k))) (\<lambda>r.
     Inr (v @ e @ f @ t @ n @ hs @ r))))))))"

record rotation_request =
  rr_toPublicKey :: string
  rr_epoch :: jsnum
  rr_reason :: units
  rr_heads :: "rotation_head list option"

definition is_head_root :: "units \<Rightarrow> bool" where
  "is_head_root r \<longleftrightarrow> length r = 64 \<and> list_all (\<lambda>u. \<exists>c \<in> set ''0123456789abcdef''. u = word_of_nat (of_char c)) r"

fun check_heads :: "rotation_head list \<Rightarrow> unit result" where
  "check_heads [] = Inr ()"
| "check_heads (h # hs) = andThen (assertWellFormed (rh_assetId h)) (\<lambda>_.
     if \<not> is_head_root (rh_root h) then Inl (RotationErr ''head root'') else check_heads hs)"

definition signRotation ::
  "('sk, 'pk) crypto \<Rightarrow> units comparator \<Rightarrow> rotation_request \<Rightarrow> 'sk \<Rightarrow> signed_rotation result" where
  "signRotation cr lc nxt outgoing =
     (if \<not> isInteger (rr_epoch nxt) \<or> js_lt (rr_epoch nxt) (num 1) then Inl (RotationErr ''epoch'')
      else andThen (assertCanonicalPublicKey cr (rr_toPublicKey nxt)) (\<lambda>_.
        andThen (assertWellFormed (rr_reason nxt)) (\<lambda>_.
        let heads = sort (key rh_assetId lc) (case rr_heads nxt of None \<Rightarrow> [] | Some hs \<Rightarrow> hs) in
        andThen (check_heads heads) (\<lambda>_.
        if \<not> distinct (map rh_assetId heads) then Inl (RotationErr ''names one asset twice'')
        else let k = \<lparr>kr_epoch = rr_epoch nxt, kr_fromPublicKey = publicKeyHex cr outgoing,
               kr_toPublicKey = rr_toPublicKey nxt, kr_heads = heads, kr_reason = rr_reason nxt\<rparr> in
          if kr_fromPublicKey k = kr_toPublicKey k then Inl (RotationErr ''same key'')
          else andThen (canonicalRotation k) (\<lambda>m.
            Inr \<lparr>sr_rotation = k, sr_signature = to_hex (cr_sign cr m outgoing)\<rparr>)))))"

definition verifyRotation :: "('sk, 'pk) crypto \<Rightarrow> signed_rotation \<Rightarrow> bool" where
  "verifyRotation cr s = (case cr_import cr (from_hex (kr_fromPublicKey (sr_rotation s))) of
     None \<Rightarrow> False
   | Some pk \<Rightarrow> (case canonicalRotation (sr_rotation s) of
       Inl _ \<Rightarrow> False
     | Inr m \<Rightarrow> cr_verify cr m pk (from_hex (sr_signature s))))"

fun authorise :: "('sk, 'pk) crypto \<Rightarrow> nat \<Rightarrow> string list \<Rightarrow> signed_rotation list \<Rightarrow> string list result" where
  "authorise cr index keys [] = Inr keys"
| "authorise cr index keys (s # ss) =
     (let k = sr_rotation s in
      andThen (assertCanonicalPublicKey cr (kr_fromPublicKey k)) (\<lambda>_.
      andThen (assertCanonicalPublicKey cr (kr_toPublicKey k)) (\<lambda>_.
      if \<not> js_eq (kr_epoch k) (num (int index + 1)) then Inl (RotationErr ''declares epoch'')
      else if kr_fromPublicKey k \<noteq> last keys then Inl (RotationErr ''not the current one'')
      else if kr_toPublicKey k \<in> set keys then Inl (RotationErr ''reinstates'')
      else if \<not> verifyRotation cr s then Inl (RotationErr ''not signed by the key'')
      else authorise cr (index + 1) (keys @ [kr_toPublicKey k]) ss)))"

definition authorisedKeys :: "('sk, 'pk) crypto \<Rightarrow> string \<Rightarrow> signed_rotation list \<Rightarrow> string list result" where
  "authorisedKeys cr genesisPublicKey rotations =
     andThen (assertCanonicalPublicKey cr genesisPublicKey) (\<lambda>_. authorise cr 0 [genesisPublicKey] rotations)"

section \<open>A signed chain\<close>

text \<open>The index a JavaScript map built from the entries in order would hold: the last one.\<close>

definition last_index :: "('a \<Rightarrow> bool) \<Rightarrow> 'a list \<Rightarrow> nat option" where
  "last_index p xs = find (\<lambda>i. p (xs ! i)) (rev [0..<length xs])"

fun message :: "js_error \<Rightarrow> string" where
  "message (RotationErr s) = s"
| "message _ = ''error''"

text \<open>For each rotation the epoch it creates and the index its successor key is required from.\<close>

fun required_from ::
  "signed_commitment list \<Rightarrow> string \<Rightarrow> nat \<Rightarrow> signed_rotation list \<Rightarrow> (nat \<times> nat) list result" where
  "required_from chain a index [] = Inr []"
| "required_from chain a index (s # ss) =
     andThen (case find (\<lambda>h. same_string (rh_assetId h) a) (kr_heads (sr_rotation s)) of
         None \<Rightarrow> Inr 0
       | Some h \<Rightarrow> (case last_index (\<lambda>l. same_string (rh_root h) (cm_root (sc_commitment l))) chain of
           None \<Rightarrow> Inl (RotationErr ''a head root this chain does not contain'')
         | Some i \<Rightarrow> Inr (i + 1)))
       (\<lambda>from. andThen (required_from chain a (index + 1) ss) (\<lambda>rest. Inr ((index + 1, from) # rest)))"

fun check_links ::
  "('sk, 'pk) crypto \<Rightarrow> string list \<Rightarrow> (nat \<times> nat) list \<Rightarrow> nat \<Rightarrow> nat \<Rightarrow> signed_commitment list \<Rightarrow> string option" where
  "check_links cr keys req i epoch [] = None"
| "check_links cr keys req i epoch (link # links) = (case last_index (\<lambda>k. k = sc_publicKey link) keys of
     None \<Rightarrow> Some ''never authorised''
   | Some e \<Rightarrow>
       if e < epoch then Some ''after the chain had reached a later epoch''
       else if list_ex (\<lambda>(t, from). from \<le> i \<and> e < t) req then Some ''it follows the head named by a rotation''
       else if \<not> verifyCommitment cr link (Some (sc_publicKey link)) then Some ''not signed by the key it names''
       else check_links cr keys req (i + 1) e links)"

definition verifySignedChain ::
  "('sk, 'pk) crypto \<Rightarrow> signed_commitment list \<Rightarrow> string \<Rightarrow> signed_rotation list \<Rightarrow> string option" where
  "verifySignedChain cr chain genesisKey rotations =
     (if length chain = 0 then Some ''The chain is empty''
      else case verifyChain (map sc_commitment chain) of
        Some e \<Rightarrow> Some e
      | None \<Rightarrow> (case authorisedKeys cr genesisKey rotations of
          Inl e \<Rightarrow> Some (message e)
        | Inr keys \<Rightarrow> (case required_from chain (cm_assetId (sc_commitment (chain ! 0))) 0 rotations of
            Inl e \<Rightarrow> Some (message e)
          | Inr req \<Rightarrow> check_links cr keys req 0 0 chain)))"

section \<open>UTF-8 is injective on well-formed strings\<close>

lemma byte_eq: "a < 256 \<Longrightarrow> b < 256 \<Longrightarrow> (word_of_nat a :: 8 word) = word_of_nat b \<longleftrightarrow> a = b"
  by (simp add: word_of_nat_eq_iff take_bit_eq_mod)

lemma unat_byte: "a < 256 \<Longrightarrow> unat (word_of_nat a :: 8 word) = a"
  by (simp add: unat_of_nat take_bit_eq_mod)

definition utf8_length :: "nat \<Rightarrow> nat" where
  "utf8_length b = (if b < 0x80 then 1 else if b < 0xe0 then 2 else if b < 0xf0 then 3 else 4)"

lemma length_utf8_char:
  assumes "n < 0x110000"
  shows "length (utf8_char n) = utf8_length (unat (hd (utf8_char n)))"
proof -
  have "n < 0x80 \<or> 0x80 \<le> n \<and> n < 0x800 \<or> 0x800 \<le> n \<and> n < 0x10000 \<or> 0x10000 \<le> n" by auto
  then show ?thesis
  proof (elim disjE conjE)
    assume h: "0x800 \<le> n" "n < 0x10000"
    then have "n div 4096 < 16" by auto
    with h show ?thesis by (simp add: utf8_char_def utf8_length_def unat_byte del: of_nat_add)
  next
    assume h: "0x80 \<le> n" "n < 0x800"
    then have "n div 64 < 32" by auto
    with h show ?thesis by (simp add: utf8_char_def utf8_length_def unat_byte del: of_nat_add)
  next
    assume h: "0x10000 \<le> n"
    then have "n div 262144 < 5" using assms by auto
    with h show ?thesis by (simp add: utf8_char_def utf8_length_def unat_byte del: of_nat_add)
  qed (simp add: utf8_char_def utf8_length_def unat_byte)
qed

lemma div_mod_cancel: "m div k = n div k \<Longrightarrow> m mod k = n mod k \<Longrightarrow> m = n" for m n k :: nat
  by (metis div_mult_mod_eq)

lemma utf8_char_inj:
  assumes "utf8_char a = utf8_char b" "a < 0x110000" "b < 0x110000"
  shows "a = b"
proof -
  define cls where "cls = (\<lambda>n :: nat. if n < 0x80 then 1 else if n < 0x800 then 2 else if n < 0x10000 then 3 else 4 :: nat)"
  have cls: "length (utf8_char n) = cls n" for n by (simp add: utf8_char_def cls_def)
  then have c: "cls a = cls b" using assms(1) by metis
  consider "a < 0x80" "b < 0x80" | "0x80 \<le> a" "a < 0x800" "0x80 \<le> b" "b < 0x800"
    | "0x800 \<le> a" "a < 0x10000" "0x800 \<le> b" "b < 0x10000" | "0x10000 \<le> a" "0x10000 \<le> b"
    using c by (auto simp: cls_def split: if_splits)
  then show ?thesis
  proof cases
    case 1
    with assms show ?thesis by (simp add: utf8_char_def byte_eq)
  next
    case 2
    then have "a div 64 < 32" "b div 64 < 32" by auto
    with 2 assms have "a div 64 = b div 64" "a mod 64 = b mod 64" by (simp_all add: utf8_char_def byte_eq)
    then show ?thesis by (rule div_mod_cancel)
  next
    case 3
    then have "a div 4096 < 16" "b div 4096 < 16" by auto
    with 3 assms have "a div 64 div 64 = b div 64 div 64" "a div 64 mod 64 = b div 64 mod 64" "a mod 64 = b mod 64"
      by (simp_all add: utf8_char_def byte_eq flip: div_mult2_eq)
    then show ?thesis by (metis div_mod_cancel)
  next
    case 4
    then have "a div 262144 < 5" "b div 262144 < 5" using assms by auto
    with 4 assms have "a div 64 div 64 div 64 = b div 64 div 64 div 64" "a div 64 div 64 mod 64 = b div 64 div 64 mod 64"
        "a div 64 mod 64 = b div 64 mod 64" "a mod 64 = b mod 64"
      by (simp_all add: utf8_char_def byte_eq flip: div_mult2_eq)
    then show ?thesis by (metis div_mod_cancel)
  qed
qed

text \<open>A code point is read back from the front of any bytes.\<close>

lemma utf8_char_prefix:
  assumes "utf8_char a @ x = utf8_char b @ y" "a < 0x110000" "b < 0x110000"
  shows "a = b \<and> x = y"
proof -
  have "utf8_char a \<noteq> []" "utf8_char b \<noteq> []" by (simp_all add: utf8_char_def)
  with assms(1) have "hd (utf8_char a) = hd (utf8_char b)" by (metis hd_append2)
  then have "length (utf8_char a) = length (utf8_char b)" using length_utf8_char assms(2,3) by metis
  with assms show ?thesis using utf8_char_inj by (simp add: append_eq_append_conv)
qed

lemma code_point_bound: "list_all (\<lambda>n. n < 0x110000) (code_points s)"
proof (induction s rule: code_points.induct)
  case (2 c)
  have "unat c < 2 ^ 16" using unsigned_less [of c, where ?'a = nat] by simp
  then show ?case by simp
next
  case (3 c d cs)
  have "unat c < 2 ^ 16" using unsigned_less [of c, where ?'a = nat] by simp
  with 3 show ?case by auto
qed simp

lemma utf8_points_inj:
  "concat (map utf8_char ms) = concat (map utf8_char ns) \<Longrightarrow> list_all (\<lambda>n. n < 0x110000) ms \<Longrightarrow>
     list_all (\<lambda>n. n < 0x110000) ns \<Longrightarrow> ms = ns"
proof (induction ms arbitrary: ns)
  case Nil
  then show ?case by (cases ns) (auto simp: utf8_char_def split: if_splits)
next
  case (Cons m ms)
  then obtain n ns' where ns: "ns = n # ns'" by (cases ns) (auto simp: utf8_char_def split: if_splits)
  with Cons.prems have "m = n \<and> concat (map utf8_char ms) = concat (map utf8_char ns')"
    by (intro utf8_char_prefix) auto
  with Cons ns show ?case by simp
qed

text \<open>The code units a code point is written with.\<close>

definition units_of :: "nat \<Rightarrow> units" where
  "units_of n = (if n < 0x10000 then [word_of_nat n]
     else [word_of_nat (0xd800 + (n - 0x10000) div 0x400), word_of_nat (0xdc00 + (n - 0x10000) mod 0x400)])"

lemma units_of_pair:
  assumes "high_surrogate c" "low_surrogate d"
  shows "units_of (0x10000 + (unat c - 0xd800) * 0x400 + (unat d - 0xdc00)) = [c, d]"
proof -
  define p where "p = unat c - 0xd800"
  define q where "q = unat d - 0xdc00"
  have u: "unat c = 0xd800 + p" "unat d = 0xdc00 + q" "q < 0x400" using assms unfolding p_def q_def by arith+
  have "c = word_of_nat (0xd800 + p)" "d = word_of_nat (0xdc00 + q)" 
    using arg_cong [OF u(1), of "word_of_nat :: nat \<Rightarrow> 16 word"] arg_cong [OF u(2), of "word_of_nat :: nat \<Rightarrow> 16 word"]
    by (simp_all del: of_nat_add)
  moreover have "(0x10000 + p * 0x400 + q - 0x10000) div 0x400 = p" "(0x10000 + p * 0x400 + q - 0x10000) mod 0x400 = q"
    using u(3) by auto
  ultimately have "units_of (0x10000 + p * 0x400 + q) = [c, d]"
    by (simp add: units_of_def del: of_nat_add)
  then show ?thesis by (simp only: p_def q_def)
qed

lemma wellFormed_units: "wellFormed s \<Longrightarrow> concat (map units_of (code_points s)) = s"
proof (induction s rule: code_points.induct)
  case (2 c)
  have "unat c < 2 ^ 16" using unsigned_less [of c, where ?'a = nat] by simp
  with 2 show ?case by (auto simp: units_of_def)
next
  case (3 c d cs)
  have c: "unat c < 2 ^ 16" using unsigned_less [of c, where ?'a = nat] by simp
  show ?case
  proof (cases "high_surrogate c")
    case True
    with 3 have "low_surrogate d" "wellFormed cs" by auto
    with 3 True units_of_pair [of c d] show ?thesis by simp
  next
    case False
    with 3 c show ?thesis by (auto simp: units_of_def)
  qed
qed simp

text \<open> a well-formed string is the only one with its bytes. Two strings that pass
  \<^verbatim>\<open>assertWellFormed\<close> are signed as the same bytes only if they are the same string.\<close>

theorem wellFormed_utf8_injective:
  assumes "assertWellFormed s = Inr ()" "assertWellFormed t = Inr ()" "utf8_units s = utf8_units t"
  shows "s = t"
proof -
  have "code_points s = code_points t"
    using assms(3) code_point_bound by (intro utf8_points_inj) (auto simp: utf8_units_def)
  moreover have "wellFormed s" "wellFormed t" using assms(1,2) by (simp_all add: assertWellFormed_def)
  ultimately show ?thesis using wellFormed_units by metis
qed

text \<open>Without the check an unpaired surrogate and U+FFFD are signed alike.\<close>

lemma unpaired_surrogate_collides:
  "utf8_units [0xd800] = utf8_units [0xfffd] \<and> \<not> wellFormed [0xd800] \<and> wellFormed [0xfffd]"
proof -
  have u: "unat (0xd800 :: 16 word) = 0xd800" "unat (0xfffd :: 16 word) = 0xfffd" by simp_all
  have "code_points [0xd800] = [0xfffd]" "code_points [0xfffd] = [0xfffd]" by (simp_all only: code_points.simps u) simp_all
  moreover have "\<not> wellFormed [0xd800]" "wellFormed [0xfffd]" by (simp_all only: wellFormed.simps u) simp_all
  ultimately show ?thesis by (simp only: utf8_units_def) simp
qed

section \<open>One signature, one successor\<close>

definition rotation_wellFormed :: "key_rotation \<Rightarrow> bool" where
  "rotation_wellFormed k \<longleftrightarrow> wellFormed (kr_reason k) \<and>
     list_all (\<lambda>h. wellFormed (rh_assetId h) \<and> wellFormed (rh_root h)) (kr_heads k)"

lemma utf8_units_inj:
  assumes "wellFormed s" "wellFormed t" "utf8_units s = utf8_units t"
  shows "s = t"
proof -
  have "code_points s = code_points t"
    using assms(3) code_point_bound by (intro utf8_points_inj) (auto simp: utf8_units_def)
  with assms(1,2) show ?thesis using wellFormed_units by metis
qed

lemma framed_heads_inj:
  "framed_heads hs = Inr a \<Longrightarrow> framed_heads gs = Inr b \<Longrightarrow> a @ x = b @ y \<Longrightarrow> length hs = length gs \<Longrightarrow>
     list_all (\<lambda>h. wellFormed (rh_assetId h) \<and> wellFormed (rh_root h)) (hs @ gs) \<Longrightarrow> hs = gs \<and> x = y"
proof (induction hs arbitrary: gs a b)
  case (Cons h hs)
  from Cons.prems(4) obtain g gs' where gs: "gs = g # gs'" by (cases gs) auto
  obtain p q r where h: "framed (utf8_units (rh_assetId h)) = Inr p" "framed (utf8_units (rh_root h)) = Inr q"
      "framed_heads hs = Inr r" "a = p @ q @ r"
    using Cons.prems(1) by (auto simp: andThen_Inr_iff)
  obtain p' q' r' where g: "framed (utf8_units (rh_assetId g)) = Inr p'" "framed (utf8_units (rh_root g)) = Inr q'"
      "framed_heads gs' = Inr r'" "b = p' @ q' @ r'"
    using Cons.prems(2) gs by (auto simp: andThen_Inr_iff)
  have e: "p @ q @ r @ x = p' @ q' @ r' @ y" using Cons.prems(3) h(4) g(4) by simp
  from framed_append_inj [OF h(1) g(1) e] have "rh_assetId h = rh_assetId g" and e: "q @ r @ x = q' @ r' @ y"
    using Cons.prems(5) gs by (auto intro: utf8_units_inj)
  moreover from framed_append_inj [OF h(2) g(2) e] have "rh_root h = rh_root g" and "r @ x = r' @ y"
    using Cons.prems(5) gs by (auto intro: utf8_units_inj)
  ultimately show ?case using Cons.IH [OF h(3) g(3)] Cons.prems(4,5) gs by (simp add: rotation_head.equality)
qed simp

text \<open> a rotation signature names one successor. Two rotations whose strings are well formed and that
  are signed as the same message are the same rotation: neither the successor, the epoch, the heads
  nor the reason can be read another way.\<close>

theorem canonicalRotation_unambiguous:
  assumes "canonicalRotation k = Inr m" "canonicalRotation l = Inr m" "rotation_wellFormed k" "rotation_wellFormed l"
  shows "k = l"
proof -
  obtain v e f t n hs r where k: "framed (utf8 ''otc-key-rotation-v2'') = Inr v" "u64 (kr_epoch k) = Inr e"
      "framed (utf8 (kr_fromPublicKey k)) = Inr f" "framed (utf8 (kr_toPublicKey k)) = Inr t"
      "u64 (num (int (length (kr_heads k)))) = Inr n" "framed_heads (kr_heads k) = Inr hs"
      "framed (utf8_units (kr_reason k)) = Inr r" "m = v @ e @ f @ t @ n @ hs @ r"
    using assms(1) by (auto simp: canonicalRotation_def andThen_Inr_iff)
  obtain v' e' f' t' n' hs' r' where l: "framed (utf8 ''otc-key-rotation-v2'') = Inr v'" "u64 (kr_epoch l) = Inr e'"
      "framed (utf8 (kr_fromPublicKey l)) = Inr f'" "framed (utf8 (kr_toPublicKey l)) = Inr t'"
      "u64 (num (int (length (kr_heads l)))) = Inr n'" "framed_heads (kr_heads l) = Inr hs'"
      "framed (utf8_units (kr_reason l)) = Inr r'" "m = v' @ e' @ f' @ t' @ n' @ hs' @ r'"
    using assms(2) by (auto simp: canonicalRotation_def andThen_Inr_iff)
  have "v = v'" using k(1) l(1) by simp
  moreover have "length e = length e'" using length_u64 [OF k(2)] length_u64 [OF l(2)] by simp
  ultimately have e: "e = e'" and x: "f @ t @ n @ hs @ r = f' @ t' @ n' @ hs' @ r'" using k(8) l(8) by simp_all
  from framed_append_inj [OF k(3) l(3) x] have f: "kr_fromPublicKey k = kr_fromPublicKey l"
    and x: "t @ n @ hs @ r = t' @ n' @ hs' @ r'" by (simp_all add: utf8_inj)
  from framed_append_inj [OF k(4) l(4) x] have t: "kr_toPublicKey k = kr_toPublicKey l"
    and x: "n @ hs @ r = n' @ hs' @ r'" by (simp_all add: utf8_inj)
  have "length n = length n'" using length_u64 [OF k(5)] length_u64 [OF l(5)] by simp
  with x have n: "n = n'" and x: "hs @ r = hs' @ r'" by simp_all
  have "length (kr_heads k) = length (kr_heads l)" using u64_inj [OF k(5), of "num (int (length (kr_heads l)))"] l(5) n by simp
  from framed_heads_inj [OF k(6) l(6) x this] assms(3,4) have h: "kr_heads k = kr_heads l" and "r = r'"
    by (simp_all add: rotation_wellFormed_def)
  then have "utf8_units (kr_reason k) = utf8_units (kr_reason l)"
    using framed_append_inj [OF k(7) l(7), of "[]" "[]"] by simp
  with assms(3,4) have "kr_reason k = kr_reason l" by (auto simp: rotation_wellFormed_def intro: utf8_units_inj)
  moreover have "kr_epoch k = kr_epoch l" using u64_inj [OF k(2)] l(2) e by simp
  ultimately show ?thesis using f t h by (simp add: key_rotation.equality)
qed

text \<open>The verifier does not repeat the check, so of a rotation whose reason holds U+FFFD an edited copy
  that holds an unpaired surrogate instead verifies as well.\<close>

lemma edited_reason_verifies:
  "verifyRotation cr \<lparr>sr_rotation = k\<lparr>kr_reason := [0xd800]\<rparr>, sr_signature = s\<rparr> =
   verifyRotation cr \<lparr>sr_rotation = k\<lparr>kr_reason := [0xfffd]\<rparr>, sr_signature = s\<rparr>"
proof -
  have "canonicalRotation (k\<lparr>kr_reason := [0xd800]\<rparr>) = canonicalRotation (k\<lparr>kr_reason := [0xfffd]\<rparr>)"
    using unpaired_surrogate_collides by (simp add: canonicalRotation_def)
  then show ?thesis by (auto simp: verifyRotation_def split: option.splits sum.splits)
qed

section \<open>The keys in force\<close>

lemma last_index_Some:
  "last_index p xs = Some i \<longleftrightarrow> i < length xs \<and> p (xs ! i) \<and> (\<forall>j. i < j \<and> j < length xs \<longrightarrow> \<not> p (xs ! j))"
proof -
  have "find q (rev [0..<n]) = Some i \<longleftrightarrow> i < n \<and> q i \<and> (\<forall>j. i < j \<and> j < n \<longrightarrow> \<not> q j)" for q :: "nat \<Rightarrow> bool" and n
  proof (induction n)
    case (Suc n)
    then show ?case by (cases "i = n") (auto simp: less_Suc_eq)
  qed simp
  then show ?thesis by (simp add: last_index_def)
qed

lemma last_index_unique:
  "distinct xs \<Longrightarrow> i < length xs \<Longrightarrow> last_index (\<lambda>x. x = xs ! i) xs = Some i"
  by (auto simp: last_index_Some nth_eq_iff_index_eq)

lemma authorise_spec:
  "authorise cr i keys ss = Inr ks \<Longrightarrow> keys \<noteq> [] \<Longrightarrow> distinct keys \<Longrightarrow>
     ks = keys @ map (kr_toPublicKey \<circ> sr_rotation) ss \<and> distinct ks \<and>
     (\<forall>j < length ss. kr_fromPublicKey (sr_rotation (ss ! j)) = ks ! (length keys + j - 1) \<and>
        js_eq (kr_epoch (sr_rotation (ss ! j))) (num (int (i + j) + 1)) \<and> verifyRotation cr (ss ! j))"
proof (induction ss arbitrary: i keys)
  case (Cons s ss)
  let ?k = "sr_rotation s"
  have h: "js_eq (kr_epoch ?k) (num (int i + 1))" "kr_fromPublicKey ?k = last keys" "kr_toPublicKey ?k \<notin> set keys"
      "verifyRotation cr s" "authorise cr (i + 1) (keys @ [kr_toPublicKey ?k]) ss = Inr ks"
    using Cons.prems(1) by (auto simp: Let_def andThen_Inr_iff split: if_splits)
  have IH: "ks = (keys @ [kr_toPublicKey ?k]) @ map (kr_toPublicKey \<circ> sr_rotation) ss \<and> distinct ks \<and>
     (\<forall>j < length ss. kr_fromPublicKey (sr_rotation (ss ! j)) = ks ! (length (keys @ [kr_toPublicKey ?k]) + j - 1) \<and>
        js_eq (kr_epoch (sr_rotation (ss ! j))) (num (int (i + 1 + j) + 1)) \<and> verifyRotation cr (ss ! j))"
    using Cons.prems(2,3) h(3) by (intro Cons.IH [OF h(5)]) auto
  have "ks ! (length keys - 1) = last keys" using IH Cons.prems(2) by (simp add: nth_append last_conv_nth)
  then have "kr_fromPublicKey (sr_rotation ((s # ss) ! j)) = ks ! (length keys + j - 1) \<and>
      js_eq (kr_epoch (sr_rotation ((s # ss) ! j))) (num (int (i + j) + 1)) \<and> verifyRotation cr ((s # ss) ! j)"
    if "j < length (s # ss)" for j
    using that IH h by (cases j) (auto simp: algebra_simps)
  with IH show ?case by (metis append_Cons append_assoc append_Nil comp_apply list.map(2))
qed simp

text \<open> the keys in force are attested from the genesis key. The list answered is the genesis key and
  each rotation's successor, without a repeat, and the rotation into epoch \<open>n\<close> carries that epoch, names
  the key in force before it and verifies under that key.\<close>

theorem authorisedKeys_attested:
  assumes "authorisedKeys cr genesis rotations = Inr keys"
  shows "keys = genesis # map (kr_toPublicKey \<circ> sr_rotation) rotations \<and> distinct keys \<and>
    (\<forall>j < length rotations. kr_fromPublicKey (sr_rotation (rotations ! j)) = keys ! j \<and>
       js_eq (kr_epoch (sr_rotation (rotations ! j))) (num (int j + 1)) \<and> verifyRotation cr (rotations ! j))"
  using assms authorise_spec [of cr 0 "[genesis]" rotations keys]
  by (auto simp: authorisedKeys_def andThen_Inr_iff)

section \<open>A retired key cannot extend the record\<close>

lemma check_links_spec:
  "check_links cr keys req i e links = None \<Longrightarrow> j < length links \<Longrightarrow>
     \<exists>ep < length keys. keys ! ep = sc_publicKey (links ! j) \<and> e \<le> ep \<and>
       verifyCommitment cr (links ! j) (Some (sc_publicKey (links ! j))) \<and>
       (\<forall>(t, from) \<in> set req. from \<le> i + j \<longrightarrow> t \<le> ep) \<and>
       (\<forall>j' \<le> j. \<exists>ep' \<le> ep. keys ! ep' = sc_publicKey (links ! j'))"
proof (induction links arbitrary: i e j)
  case (Cons link links)
  obtain e1 where e1: "last_index (\<lambda>k. k = sc_publicKey link) keys = Some e1" "e \<le> e1"
      "\<not> list_ex (\<lambda>(t, from). from \<le> i \<and> e1 < t) req" "verifyCommitment cr link (Some (sc_publicKey link))"
      "check_links cr keys req (i + 1) e1 links = None"
    using Cons.prems(1) by (auto split: option.splits if_splits)
  have k: "e1 < length keys" "keys ! e1 = sc_publicKey link" using e1(1) by (auto simp: last_index_Some)
  have r: "t \<le> e1" if "(t, from) \<in> set req" "from \<le> i" for t "from"
    using e1(3) that by (force simp: list_ex_iff)
  show ?case
  proof (cases j)
    case 0
    with k r e1 show ?thesis by auto
  next
    case (Suc n)
    with Cons.prems(2) Cons.IH [OF e1(5), of n] obtain ep where ep: "ep < length keys" "keys ! ep = sc_publicKey (links ! n)"
        "e1 \<le> ep" "verifyCommitment cr (links ! n) (Some (sc_publicKey (links ! n)))"
        "\<forall>(t, from) \<in> set req. from \<le> i + 1 + n \<longrightarrow> t \<le> ep" "\<forall>j' \<le> n. \<exists>ep' \<le> ep. keys ! ep' = sc_publicKey (links ! j')"
      by auto
    have "\<exists>ep' \<le> ep. keys ! ep' = sc_publicKey ((link # links) ! j')" if "j' \<le> j" for j'
      using that Suc ep(3,6) k(2) by (cases j') auto
    with ep e1(2) Suc show ?thesis by (intro exI [of _ ep]) auto
  qed
qed simp

text \<open>Link \<open>i\<close> comes after the head a rotation names for the asset: neither it nor a later link has that
  head's root. A rotation that names no head for the asset precedes every link.\<close>

definition after_head :: "signed_commitment list \<Rightarrow> signed_rotation \<Rightarrow> nat \<Rightarrow> bool" where
  "after_head chain s i = (case find (\<lambda>h. same_string (rh_assetId h) (cm_assetId (sc_commitment (chain ! 0)))) (kr_heads (sr_rotation s)) of
     None \<Rightarrow> True
   | Some h \<Rightarrow> \<not> list_ex (\<lambda>l. same_string (rh_root h) (cm_root (sc_commitment l))) (drop i chain))"

lemma required_from_spec:
  "required_from chain (cm_assetId (sc_commitment (chain ! 0))) i ss = Inr req \<Longrightarrow> j < length ss \<Longrightarrow> after_head chain (ss ! j) n \<Longrightarrow>
     n < length chain \<Longrightarrow> \<exists>from \<le> n. (i + j + 1, from) \<in> set req"
proof (induction ss arbitrary: i j req)
  case (Cons s ss)
  let ?h = "find (\<lambda>h. same_string (rh_assetId h) (cm_assetId (sc_commitment (chain ! 0)))) (kr_heads (sr_rotation s))"
  obtain "from" rest where r: "required_from chain (cm_assetId (sc_commitment (chain ! 0))) (i + 1) ss = Inr rest"
      "req = (i + 1, from) # rest"
    and f: "(case ?h of None \<Rightarrow> Inr 0
       | Some h \<Rightarrow> (case last_index (\<lambda>l. same_string (rh_root h) (cm_root (sc_commitment l))) chain of
           None \<Rightarrow> Inl (RotationErr ''a head root this chain does not contain'') | Some i \<Rightarrow> Inr (i + 1))) = Inr from"
    using Cons.prems(1) by (auto simp: andThen_Inr_iff)
  show ?case
  proof (cases j)
    case 0
    have "from \<le> n"
    proof (cases ?h)
      case None
      with f show ?thesis by simp
    next
      case (Some h)
      with f obtain p where p: "last_index (\<lambda>l. same_string (rh_root h) (cm_root (sc_commitment l))) chain = Some p" "from = p + 1"
        by (auto split: option.splits)
      have "\<not> n \<le> p"
      proof
        assume "n \<le> p"
        then have "chain ! p = drop n chain ! (p - n)" "p - n < length (drop n chain)" using p(1) by (auto simp: last_index_Some)
        then have "chain ! p \<in> set (drop n chain)" by (metis nth_mem)
        moreover have "\<not> list_ex (\<lambda>l. same_string (rh_root h) (cm_root (sc_commitment l))) (drop n chain)"
          using Cons.prems(3) 0 Some by (simp add: after_head_def)
        ultimately show False using p(1) by (auto simp: last_index_Some list_ex_iff)
      qed
      with p(2) show ?thesis by simp
    qed
    with 0 r(2) show ?thesis by auto
  next
    case (Suc m)
    with Cons.IH [OF r(1), of m] Cons.prems(2-4) r(2) show ?thesis by auto
  qed
qed simp

text \<open>C30: a retired key signs no more. In a chain that verifies from the genesis key, every link that comes
  after the head a rotation named is signed by a key that took over in that rotation or a later one,
  never by one retired before it, whoever assembled the chain, and no link is signed by an earlier key
  than a link before it.\<close>

theorem retired_key_signs_no_more:
  assumes "verifySignedChain cr chain genesis rotations = None" "authorisedKeys cr genesis rotations = Inr keys"
    and "k < length rotations" "i < length chain" "after_head chain (rotations ! k) i"
  shows "sc_publicKey (chain ! i) \<notin> set (take (k + 1) keys) \<and>
    (\<exists>e < length keys. k < e \<and> keys ! e = sc_publicKey (chain ! i) \<and>
      verifyCommitment cr (chain ! i) (Some (keys ! e)) \<and> (\<forall>j \<le> i. \<exists>e' \<le> e. keys ! e' = sc_publicKey (chain ! j)))"
proof -
  obtain req where req: "required_from chain (cm_assetId (sc_commitment (chain ! 0))) 0 rotations = Inr req"
      "check_links cr keys req 0 0 chain = None"
    using assms(1,2) by (auto simp: verifySignedChain_def split: if_splits option.splits sum.splits)
  obtain "from" where f: "from \<le> i" "(k + 1, from) \<in> set req"
    using required_from_spec [OF req(1) assms(3,5,4)] by auto
  obtain e where e: "e < length keys" "keys ! e = sc_publicKey (chain ! i)"
      "verifyCommitment cr (chain ! i) (Some (sc_publicKey (chain ! i)))" "\<forall>(t, from) \<in> set req. from \<le> i \<longrightarrow> t \<le> e"
      "\<forall>j \<le> i. \<exists>e' \<le> e. keys ! e' = sc_publicKey (chain ! j)"
    using check_links_spec [OF req(2) assms(4)] by auto
  have ke: "k < e" using e(4) f by auto
  have "distinct keys" using authorise_spec [of cr 0 "[genesis]" rotations keys] assms(2)
    by (auto simp: authorisedKeys_def andThen_Inr_iff)
  then have "keys ! e \<notin> set (take (k + 1) keys)"
    using ke e(1) by (auto simp: in_set_conv_nth nth_eq_iff_index_eq)
  with e ke show ?thesis by auto
qed

section \<open>A chain that spans a rotation\<close>

text \<open>An ASCII string as JavaScript holds it.\<close>

definition ascii :: "string \<Rightarrow> units" where
  "ascii s = map (\<lambda>c. word_of_nat (of_char c)) s"

lemma ascii_same: "list_all (\<lambda>c. (of_char c :: nat) < 128) s \<Longrightarrow> same_string (ascii s) s"
proof -
  assume a: "list_all (\<lambda>c. (of_char c :: nat) < 128) s"
  have u: "unat (word_of_nat (of_char c) :: 16 word) = of_char c" for c :: char
    using nat_of_char_less_256 [of c] by (simp del: nat_of_char_less_256 add: unat_of_nat take_bit_eq_mod)
  have "wellFormed (ascii s) \<and> code_points (ascii s) = map of_char s"
    using a
  proof (induction s)
    case (Cons c s)
    then show ?case by (cases s) (auto simp: ascii_def u)
  qed (simp add: ascii_def)
  moreover have "concat (map utf8_char (map of_char s)) = utf8 s"
    using a by (induction s) (simp_all add: utf8_def utf8_char_def)
  ultimately show ?thesis by (simp add: same_string_def utf8_units_def)
qed

definition demo_root1 :: string where "demo_root1 = replicate 64 CHR ''0''"
definition demo_root2 :: string where "demo_root2 = replicate 64 CHR ''1''"

definition demo_link1 :: commitment where
  "demo_link1 = \<lparr>cm_assetId = ''a'', cm_fromSequence = num 1, cm_toSequence = num 2, cm_count = num 2,
     cm_previousRoot = [], cm_resumesAfter = None, cm_root = demo_root1\<rparr>"

definition demo_link2 :: commitment where
  "demo_link2 = \<lparr>cm_assetId = ''a'', cm_fromSequence = num 3, cm_toSequence = num 3, cm_count = num 1,
     cm_previousRoot = demo_root1, cm_resumesAfter = None, cm_root = demo_root2\<rparr>"

definition demo_rotation :: key_rotation where
  "demo_rotation = \<lparr>kr_epoch = num 1, kr_fromPublicKey = ''01'', kr_toPublicKey = ''02'',
     kr_heads = [\<lparr>rh_assetId = ascii ''a'', rh_root = ascii demo_root1\<rparr>], kr_reason = ascii ''lost''\<rparr>"

text \<open>A message signed by the toy signature under the key of one byte.\<close>

definition demo_signed :: "8 word \<Rightarrow> commitment \<Rightarrow> signed_commitment" where
  "demo_signed k c = (case signCommitment demo_crypto c k of Inr s \<Rightarrow> s
     | Inl _ \<Rightarrow> \<lparr>sc_commitment = c, sc_signature = [], sc_publicKey = []\<rparr>)"

lemma demo_signed:
  "canonicalEncoding c = Inr m \<Longrightarrow> sc_commitment (demo_signed k c) = c \<and> sc_publicKey (demo_signed k c) = to_hex [k] \<and>
     verifyCommitment demo_crypto (demo_signed k c) (Some (to_hex [k]))"
  by (simp add: demo_signed_def signCommitment_def verifyCommitment_def publicKeyHex_def demo_crypto_def)

lemma demo_roots:
  "is_digest demo_root1" "is_digest demo_root2" "list_all (\<lambda>c. (of_char c :: nat) < 128) demo_root1"
  "length demo_root1 = 64" "length demo_root2 = 64" "demo_root1 \<noteq> demo_root2" "demo_root1 \<noteq> []"
  by (simp_all add: demo_root1_def demo_root2_def is_digest_def list_all_iff hex_value_def replicate_num)

lemma demo_links:
  "\<exists>m. canonicalEncoding demo_link1 = Inr m" "\<exists>m. canonicalEncoding demo_link2 = Inr m"
  "verifyChain [demo_link1, demo_link2] = None"
  by (simp_all add: canonicalEncoding_def demo_link1_def demo_link2_def demo_roots framed_def u64_def
      verifyChain_def check_count_def check_first_def check_link_def js_add_num js_sub_num)

lemma demo_rotation_encodes: "\<exists>m. canonicalRotation demo_rotation = Inr m"
proof -
  have l: "length (utf8_units (ascii s)) = length s" if "list_all (\<lambda>c. (of_char c :: nat) < 128) s" for s
    using ascii_same [OF that] by (simp add: same_string_def)
  have "length (utf8_units (ascii ''a'')) = 1" "length (utf8_units (ascii demo_root1)) = 64" "length (utf8_units (ascii ''lost'')) = 4"
    by (simp_all add: l demo_roots)
  then show ?thesis by (simp add: canonicalRotation_def demo_rotation_def framed_def u64_def)
qed

definition demo_rotations :: "signed_rotation list" where
  "demo_rotations = [\<lparr>sr_rotation = demo_rotation,
     sr_signature = to_hex (case canonicalRotation demo_rotation of Inr m \<Rightarrow> 1 # m | Inl _ \<Rightarrow> [])\<rparr>]"

lemma demo_keys: "authorisedKeys demo_crypto ''01'' demo_rotations = Inr [''01'', ''02'']"
proof -
  obtain m where m: "canonicalRotation demo_rotation = Inr m" using demo_rotation_encodes by blast
  have x: "from_hex ''01'' = [1]" "from_hex ''02'' = [2]" "to_hex [1] = ''01''" "to_hex [2] = ''02''"
    by (simp_all add: hex_value_def to_hex_def hex_digit_def)
  have f: "kr_fromPublicKey demo_rotation = ''01''" "kr_toPublicKey demo_rotation = ''02''" "kr_epoch demo_rotation = num 1"
    by (simp_all add: demo_rotation_def)
  have k: "assertCanonicalPublicKey demo_crypto ''01'' = Inr ()" "assertCanonicalPublicKey demo_crypto ''02'' = Inr ()"
    unfolding assertCanonicalPublicKey_def x by (simp_all add: demo_crypto_def lower_hex_def x)
  have "verifyRotation demo_crypto (hd demo_rotations)"
    unfolding verifyRotation_def demo_rotations_def list.sel signed_rotation.simps f x m
    by (simp add: demo_crypto_def)
  then show ?thesis by (simp add: authorisedKeys_def k demo_rotations_def f Let_def)
qed

text \<open>Two windows of one market, the second signed by the successor.\<close>

definition demo_chain :: "signed_commitment list" where
  "demo_chain = [demo_signed 1 demo_link1, demo_signed 2 demo_link2]"

lemma demo_chain_fields:
  "map sc_commitment demo_chain = [demo_link1, demo_link2]" "map sc_publicKey demo_chain = [''01'', ''02'']"
  "list_all (\<lambda>l. verifyCommitment demo_crypto l (Some (sc_publicKey l))) demo_chain"
proof -
  have "to_hex [1] = ''01''" "to_hex [2] = ''02''" by (simp_all add: to_hex_def hex_digit_def)
  then show "map sc_commitment demo_chain = [demo_link1, demo_link2]" "map sc_publicKey demo_chain = [''01'', ''02'']"
      "list_all (\<lambda>l. verifyCommitment demo_crypto l (Some (sc_publicKey l))) demo_chain"
    using demo_links(1,2) demo_signed [of demo_link1 _ 1] demo_signed [of demo_link2 _ 2] by (auto simp: demo_chain_def)
qed

lemma demo_same_root: "same_string (ascii demo_root1) demo_root1" "\<not> same_string (ascii demo_root1) demo_root2"
proof -
  show "same_string (ascii demo_root1) demo_root1" by (simp add: ascii_same demo_roots)
  then show "\<not> same_string (ascii demo_root1) demo_root2"
    using demo_roots(6) utf8_inj by (auto simp: same_string_def)
qed

lemma demo_chain_verifies: "verifySignedChain demo_crypto demo_chain ''01'' demo_rotations = None"
proof -
  obtain l1 l2 where c: "demo_chain = [l1, l2]" by (simp add: demo_chain_def)
  have f: "sc_commitment l1 = demo_link1" "sc_commitment l2 = demo_link2" "sc_publicKey l1 = ''01''" "sc_publicKey l2 = ''02''"
      "verifyCommitment demo_crypto l1 (Some ''01'')" "verifyCommitment demo_crypto l2 (Some ''02'')"
    using demo_chain_fields by (simp_all add: c)
  have r: "cm_root demo_link1 = demo_root1" "cm_root demo_link2 = demo_root2" "cm_assetId demo_link1 = ''a''"
    by (simp_all add: demo_link1_def demo_link2_def)
  have h: "kr_heads demo_rotation = [\<lparr>rh_assetId = ascii ''a'', rh_root = ascii demo_root1\<rparr>]" by (simp add: demo_rotation_def)
  have "last_index (\<lambda>l. same_string (ascii demo_root1) (cm_root (sc_commitment l))) [l1, l2] = Some 0"
    by (auto simp: last_index_Some f r demo_same_root less_Suc_eq)
  then have "required_from [l1, l2] ''a'' 0 demo_rotations = Inr [(1, 1)]"
    by (simp add: demo_rotations_def h ascii_same)
  moreover have "last_index (\<lambda>k. k = ''01'') [''01'', ''02''] = Some 0" "last_index (\<lambda>k. k = ''02'') [''01'', ''02''] = Some 1"
    by (auto simp: last_index_Some less_Suc_eq)
  ultimately show ?thesis
    by (simp add: verifySignedChain_def c f r demo_keys demo_links(3))
qed

theorem retired_key_signs_no_more_witness:
  "sc_publicKey (demo_chain ! 1) \<notin> set (take (0 + 1) [''01'', ''02''])"
proof -
  have "cm_root demo_link2 = demo_root2" "cm_assetId demo_link1 = ''a''" by (simp_all add: demo_link1_def demo_link2_def)
  moreover have "sc_commitment (demo_chain ! 0) = demo_link1" "drop 1 demo_chain = [demo_chain ! 1]"
      "sc_commitment (demo_chain ! 1) = demo_link2" "length demo_chain = 2"
    using demo_chain_fields(1) by (auto simp: demo_chain_def)
  moreover have "kr_heads demo_rotation = [\<lparr>rh_assetId = ascii ''a'', rh_root = ascii demo_root1\<rparr>]" by (simp add: demo_rotation_def)
  ultimately have "after_head demo_chain (demo_rotations ! 0) 1"
    by (simp add: after_head_def demo_rotations_def ascii_same demo_same_root)
  with retired_key_signs_no_more [OF demo_chain_verifies demo_keys, of 0 1] \<open>length demo_chain = 2\<close> show ?thesis
    by (simp add: demo_rotations_def)
qed

theorem authorisedKeys_attested_witness:
  "verifyRotation demo_crypto (demo_rotations ! 0) \<and>
   [''01'', ''02''] = ''01'' # map (kr_toPublicKey \<circ> sr_rotation) demo_rotations"
  using authorisedKeys_attested [OF demo_keys] by (simp add: demo_rotations_def)

theorem canonicalRotation_unambiguous_witness:
  "\<exists>m. canonicalRotation demo_rotation = Inr m \<and> canonicalRotation (demo_rotation\<lparr>kr_toPublicKey := ''03''\<rparr>) \<noteq> Inr m"
proof -
  obtain m where m: "canonicalRotation demo_rotation = Inr m" using demo_rotation_encodes by blast
  have "wellFormed (ascii ''a'')" "wellFormed (ascii ''lost'')" "wellFormed (ascii demo_root1)"
    using ascii_same [of "''a''"] ascii_same [of "''lost''"] demo_same_root(1) by (auto simp: same_string_def)
  then have w: "rotation_wellFormed demo_rotation" "rotation_wellFormed (demo_rotation\<lparr>kr_toPublicKey := ''03''\<rparr>)"
    by (auto simp: rotation_wellFormed_def demo_rotation_def)
  have "demo_rotation \<noteq> demo_rotation\<lparr>kr_toPublicKey := ''03''\<rparr>" by (simp add: demo_rotation_def)
  with canonicalRotation_unambiguous [OF m _ w] m show ?thesis by blast
qed

theorem wellFormed_utf8_injective_witness:
  "assertWellFormed [0x61] = Inr () \<and> utf8_units [0x61] \<noteq> utf8_units [0x62]"
proof -
  have "unat (0x61 :: 16 word) = 0x61" "unat (0x62 :: 16 word) = 0x62" by simp_all
  then have w: "assertWellFormed [0x61] = Inr ()" "assertWellFormed [0x62] = Inr ()"
    by (simp_all add: assertWellFormed_def)
  from wellFormed_utf8_injective [OF w] w(1) show ?thesis by auto
qed

end
