(* ===== verification/Publisher.thy ===== *)
theory Publisher
  imports Rotation
begin

text \<open>
  The commitment publisher: packages/distribution/src/publisher.ts. It consumes a market's ticks in
  order, closes a window every \<open>windowTicks\<close> of them, and commits and signs each closed window over
  the root of the window before it.

  A method that throws leaves what it had already assigned, so \<open>observe\<close> answers the state beside
  its result. Sequences of ticks are integers; the sequence a publisher is told to continue from
  is a Number, as the caller gives it.
\<close>

section \<open>State\<close>

record publisher_options =
  po_assetId :: string
  po_windowTicks :: jsnum
  po_previousRoot :: "string option"
  po_nextSequence :: "jsnum option"
  po_resumesAfter :: "jsnum option"

record closed_window =
  cw_signed :: signed_commitment
  cw_ticks :: "tick list"

record publisher =
  pb_assetId :: string
  pb_windowTicks :: nat
  pb_open :: "tick list"
  pb_previousRoot :: string
  pb_nextSequence :: "jsnum option"
  pb_tipSequence :: "jsnum option"
  pb_resumesAfter :: "jsnum option"

definition new_publisher :: "publisher_options \<Rightarrow> publisher result" where
  "new_publisher o' =
     (if \<not> isInteger (po_windowTicks o') \<or> js_lt (po_windowTicks o') (num 1)
      then Inl (CommitmentErr ''Window size'')
      else andThen (assertAssetId (po_assetId o')) (\<lambda>_.
        andThen (case po_previousRoot o' of None \<Rightarrow> Inr () | Some p \<Rightarrow> assertPreviousRoot p) (\<lambda>_.
        if po_previousRoot o' \<noteq> None \<and> po_nextSequence o' = None \<and> po_resumesAfter o' = None
        then Inl (CommitmentErr ''must be told the sequence'')
        else if po_resumesAfter o' \<noteq> None \<and> (po_previousRoot o' = None \<or> po_previousRoot o' = Some [])
        then Inl (CommitmentErr ''must be told the root'')
        else if po_resumesAfter o' \<noteq> None \<and> po_nextSequence o' \<noteq> None
        then Inl (CommitmentErr ''cannot both resume'')
        else Inr \<lparr>pb_assetId = po_assetId o', pb_windowTicks = nat (int_of (po_windowTicks o')), pb_open = [],
          pb_previousRoot = (case po_previousRoot o' of None \<Rightarrow> [] | Some p \<Rightarrow> p),
          pb_nextSequence = po_nextSequence o',
          pb_tipSequence = (case po_nextSequence o' of Some n \<Rightarrow> Some (js_sub n (num 1)) | None \<Rightarrow> po_resumesAfter o'),
          pb_resumesAfter = po_resumesAfter o'\<rparr>)))"

definition pendingTicks :: "publisher \<Rightarrow> nat" where
  "pendingTicks p = length (pb_open p)"

section \<open>Closing a window\<close>

text \<open>\<^verbatim>\<open>#close\<close>: what throws, throws before the chain advances.\<close>

definition close_window ::
  "(bytes \<Rightarrow> bytes) \<Rightarrow> ('sk, 'pk) crypto \<Rightarrow> 'sk \<Rightarrow> tick list \<Rightarrow> publisher \<Rightarrow> (publisher \<times> closed_window) result" where
  "close_window sha cr sk w p =
     andThen (commit sha (pb_assetId p) w (pb_previousRoot p) (pb_resumesAfter p)) (\<lambda>c.
     andThen (signCommitment cr c sk) (\<lambda>s.
     Inr (p\<lparr>pb_previousRoot := cm_root c, pb_nextSequence := Some (js_add (cm_toSequence c) (num 1)),
            pb_tipSequence := Some (cm_toSequence c), pb_resumesAfter := None\<rparr>,
          \<lparr>cw_signed = s, cw_ticks = w\<rparr>)))"

definition sealChain ::
  "(bytes \<Rightarrow> bytes) \<Rightarrow> ('sk, 'pk) crypto \<Rightarrow> 'sk \<Rightarrow> publisher \<Rightarrow> publisher \<times> closed_window option result" where
  "sealChain sha cr sk p =
     (if length (pb_open p) = 0 then (p, Inr None)
      else let spliced = p\<lparr>pb_open := []\<rparr> in
        case close_window sha cr sk (pb_open p) spliced of
          Inl e \<Rightarrow> (spliced, Inl e)
        | Inr (p', c) \<Rightarrow> (p', Inr (Some c)))"

section \<open>Observing ticks\<close>

definition expectedSequence :: "publisher \<Rightarrow> jsnum option" where
  "expectedSequence p = (if 0 < length (pb_open p)
     then Some (js_add (num (sequence (pb_open p ! (length (pb_open p) - 1)))) (num 1))
     else pb_nextSequence p)"

text \<open>The first tick after a resume decides which kind of link is written.\<close>

definition decide_resume :: "tick \<Rightarrow> publisher \<Rightarrow> publisher" where
  "decide_resume t p = (case pb_resumesAfter p of
     None \<Rightarrow> p
   | Some r \<Rightarrow>
       if pb_nextSequence p \<noteq> None then p
       else if js_le (num (sequence t)) r
       then p\<lparr>pb_previousRoot := [], pb_resumesAfter := None, pb_tipSequence := None\<rparr>
       else if js_eq (num (sequence t)) (js_add r (num 1)) then p\<lparr>pb_resumesAfter := None\<rparr>
       else p)"

definition observe_tick :: "tick \<Rightarrow> publisher \<Rightarrow> publisher result" where
  "observe_tick t p =
     (if (case expectedSequence p of None \<Rightarrow> False | Some e \<Rightarrow> \<not> js_eq (num (sequence t)) e)
      then Inl (CommitmentErr ''expected sequence'')
      else let p1 = decide_resume t p; p2 = p1\<lparr>pb_open := pb_open p1 @ [t]\<rparr> in
        Inr (if pb_nextSequence p2 = None then p2\<lparr>pb_nextSequence := Some (num (sequence t))\<rparr> else p2))"

fun observe_ticks :: "tick list \<Rightarrow> publisher \<Rightarrow> publisher \<times> unit result" where
  "observe_ticks [] p = (p, Inr ())"
| "observe_ticks (t # ts) p = (case observe_tick t p of
     Inl e \<Rightarrow> (p, Inl e)
   | Inr p' \<Rightarrow> observe_ticks ts p')"

text \<open>\<open>windowTicks\<close> is positive in every publisher the constructor answers, so each round shortens
  what is open.\<close>

function close_full ::
  "(bytes \<Rightarrow> bytes) \<Rightarrow> ('sk, 'pk) crypto \<Rightarrow> 'sk \<Rightarrow> closed_window list \<Rightarrow> publisher \<Rightarrow>
     publisher \<times> closed_window list result" where
  "close_full sha cr sk acc p =
     (if 0 < pb_windowTicks p \<and> pb_windowTicks p \<le> length (pb_open p) then
        let spliced = p\<lparr>pb_open := drop (pb_windowTicks p) (pb_open p)\<rparr> in
        case close_window sha cr sk (take (pb_windowTicks p) (pb_open p)) spliced of
          Inl e \<Rightarrow> (spliced, Inl e)
        | Inr (p', c) \<Rightarrow> close_full sha cr sk (acc @ [c]) p'
      else (p, Inr acc))"
  by pat_completeness auto
termination
  by (relation "measure (\<lambda>(sha, cr, sk, closed, p). length (pb_open p))")
    (auto simp: close_window_def andThen_Inr_iff)

declare close_full.simps [simp del]

definition observe ::
  "(bytes \<Rightarrow> bytes) \<Rightarrow> ('sk, 'pk) crypto \<Rightarrow> 'sk \<Rightarrow> tick list \<Rightarrow> publisher \<Rightarrow> publisher \<times> closed_window list result" where
  "observe sha cr sk ticks p = (case observe_ticks ticks p of
     (p', Inl e) \<Rightarrow> (p', Inl e)
   | (p', Inr _) \<Rightarrow> close_full sha cr sk [] p')"

section \<open>Runs of a publisher\<close>

abbreviation commitment_of :: "closed_window \<Rightarrow> commitment" where
  "commitment_of w \<equiv> sc_commitment (cw_signed w)"

text \<open>The ticks of a batch that are taken before one is refused.\<close>

fun accepted :: "tick list \<Rightarrow> publisher \<Rightarrow> tick list" where
  "accepted [] p = []"
| "accepted (t # ts) p = (case observe_tick t p of Inl _ \<Rightarrow> [] | Inr p' \<Rightarrow> t # accepted ts p')"

text \<open>
  Any sequence of batches, refused batches and seals, with every tick taken and every window closed
  so far.
\<close>

inductive publisher_run ::
  "(bytes \<Rightarrow> bytes) \<Rightarrow> ('sk, 'pk) crypto \<Rightarrow> 'sk \<Rightarrow> publisher_options \<Rightarrow> publisher \<Rightarrow> tick list \<Rightarrow> closed_window list \<Rightarrow> bool"
  for sha cr sk o' where
  started: "new_publisher o' = Inr p \<Longrightarrow> publisher_run sha cr sk o' p [] []"
| observed: "publisher_run sha cr sk o' p seen ws \<Longrightarrow> observe sha cr sk ts p = (p', Inr cs) \<Longrightarrow>
    publisher_run sha cr sk o' p' (seen @ ts) (ws @ cs)"
| refused: "publisher_run sha cr sk o' p seen ws \<Longrightarrow> observe_ticks ts p = (p', Inl e) \<Longrightarrow>
    publisher_run sha cr sk o' p' (seen @ accepted ts p) ws"
| closed_short: "publisher_run sha cr sk o' p seen ws \<Longrightarrow> sealChain sha cr sk p = (p', Inr (Some c)) \<Longrightarrow>
    publisher_run sha cr sk o' p' seen (ws @ [c])"

text \<open>Windows each committed over the root of the one before and signed.\<close>

fun linked ::
  "(bytes \<Rightarrow> bytes) \<Rightarrow> ('sk, 'pk) crypto \<Rightarrow> 'sk \<Rightarrow> string \<Rightarrow> string \<times> jsnum option \<Rightarrow> closed_window list \<Rightarrow> bool" where
  "linked sha cr sk a link [] = True"
| "linked sha cr sk a link (w # ws) = (cw_ticks w \<noteq> [] \<and> commit sha a (cw_ticks w) (fst link) (snd link) = Inr (commitment_of w) \<and>
     signCommitment cr (commitment_of w) sk = Inr (cw_signed w) \<and> linked sha cr sk a (cm_root (commitment_of w), None) ws)"

lemma linked_snoc:
  "linked sha cr sk a link (ws @ [w]) \<longleftrightarrow> linked sha cr sk a link ws \<and>
     linked sha cr sk a (if ws = [] then link else (cm_root (commitment_of (last ws)), None)) [w]"
  by (induction ws arbitrary: link) auto

text \<open>The link the first window is committed under, decided by the first tick.\<close>

definition first_link :: "publisher_options \<Rightarrow> tick \<Rightarrow> string \<times> jsnum option" where
  "first_link o' t = (let previous = (case po_previousRoot o' of None \<Rightarrow> [] | Some p \<Rightarrow> p) in
     case po_resumesAfter o' of
       None \<Rightarrow> (previous, None)
     | Some r \<Rightarrow> if js_le (num (sequence t)) r then ([], None)
         else if js_eq (num (sequence t)) (js_add r (num 1)) then (previous, None)
         else (previous, Some r))"

text \<open>Ticks as the market produces them.\<close>

definition market_tick :: "tick \<Rightarrow> bool" where
  "market_tick t \<longleftrightarrow> 0 \<le> sequence t \<and> sequence t < MAX_SAFE \<and> 0 \<le> instant t \<and> instant t \<le> MAX_SAFE \<and> \<bar>price t\<bar> \<le> MAX_SAFE"

text \<open>What holds in every run.\<close>

definition publisher_inv ::
  "(bytes \<Rightarrow> bytes) \<Rightarrow> ('sk, 'pk) crypto \<Rightarrow> 'sk \<Rightarrow> publisher_options \<Rightarrow> publisher \<Rightarrow> tick list \<Rightarrow> closed_window list \<Rightarrow> bool"
where
  "publisher_inv sha cr sk o' p seen ws \<longleftrightarrow>
     0 < pb_windowTicks p \<and> pb_assetId p = po_assetId o' \<and> assertAssetId (po_assetId o') = Inr () \<and>
     (\<forall>r. po_previousRoot o' = Some r \<longrightarrow> assertPreviousRoot r = Inr ()) \<and>
     (po_resumesAfter o' \<noteq> None \<longrightarrow> po_nextSequence o' = None \<and> (\<exists>r. po_previousRoot o' = Some r \<and> r \<noteq> [])) \<and>
     concat (map cw_ticks ws) @ pb_open p = seen \<and> consecutive (sequences seen) \<and>
     (ws \<noteq> [] \<longrightarrow> linked sha cr sk (po_assetId o') (first_link o' (hd seen)) ws) \<and>
     pb_nextSequence p = (if ws \<noteq> [] then Some (num (sequence (last (cw_ticks (last ws))) + 1))
       else if seen \<noteq> [] then Some (num (sequence (hd seen))) else po_nextSequence o') \<and>
     (seen \<noteq> [] \<longrightarrow> po_nextSequence o' = None \<or> po_nextSequence o' = Some (num (sequence (hd seen)))) \<and>
     (ws \<noteq> [] \<longrightarrow> pb_tipSequence p = Some (num (sequence (last (cw_ticks (last ws)))))) \<and>
     (pb_previousRoot p, pb_resumesAfter p) =
       (if ws \<noteq> [] then (cm_root (commitment_of (last ws)), None)
        else if seen \<noteq> [] then first_link o' (hd seen)
        else (case po_previousRoot o' of None \<Rightarrow> [] | Some r \<Rightarrow> r, po_resumesAfter o'))"

lemma started_inv:
  assumes "new_publisher o' = Inr p"
  shows "publisher_inv sha cr sk o' p [] []"
proof -
  have w: "isInteger (po_windowTicks o')" "\<not> js_lt (po_windowTicks o') (num 1)"
    using assms by (auto simp: new_publisher_def split: if_splits)
  then obtain n where "po_windowTicks o' = num n" using isInteger_num by blast
  then show ?thesis using assms w
    by (auto simp: new_publisher_def publisher_inv_def andThen_Inr_iff split: if_splits option.splits)
qed

lemma js_eq_num_left: "js_eq (num a) x \<longleftrightarrow> x = num a"
  by (auto simp: js_eq_def)

lemma seen_eq: "publisher_inv sha cr sk o' p seen ws \<Longrightarrow> seen = concat (map cw_ticks ws) @ pb_open p"
  by (simp add: publisher_inv_def)

lemma nothing_seen: "publisher_inv sha cr sk o' p seen ws \<Longrightarrow> seen = [] \<Longrightarrow> ws = [] \<and> pb_open p = []"
  by (cases ws) (auto simp: publisher_inv_def)

lemma last_closed:
  assumes "publisher_inv sha cr sk o' p seen ws" "ws \<noteq> []" "pb_open p = []"
  shows "seen \<noteq> [] \<and> last seen = last (cw_ticks (last ws))"
proof -
  obtain vs w where ws: "ws = vs @ [w]" using assms(2) by (cases ws rule: rev_cases) auto
  have "cw_ticks w \<noteq> []" using assms(1) ws by (auto simp: publisher_inv_def linked_snoc)
  with assms(1,3) ws show ?thesis by (auto simp: publisher_inv_def)
qed

text \<open>Once a tick has been seen only its successor is expected and nothing is left to decide.\<close>

lemma expected_after:
  assumes "publisher_inv sha cr sk o' p seen ws" "seen \<noteq> []" "market_tick (last seen)"
  shows "expectedSequence p = Some (num (sequence (last seen) + 1)) \<and> (pb_nextSequence p \<noteq> None) \<and> decide_resume t p = p"
proof -
  have n: "pb_nextSequence p \<noteq> None" using assms(1,2) by (auto simp: publisher_inv_def split: if_splits)
  then have d: "decide_resume t p = p" by (auto simp: decide_resume_def split: option.splits)
  show ?thesis
  proof (cases "pb_open p = []")
    case True
    then have "ws \<noteq> []" using assms(1,2) by (auto simp: publisher_inv_def)
    with last_closed [OF assms(1) this True] assms(1) True n d show ?thesis
      by (auto simp: publisher_inv_def expectedSequence_def)
  next
    case False
    then have "pb_open p ! (length (pb_open p) - 1) = last seen" using seen_eq [OF assms(1)] by (metis last_append last_conv_nth)
    moreover have "js_add (num (sequence (last seen))) (num 1) = num (sequence (last seen) + 1)"
      using assms(3) by (intro js_add_num) (auto simp: market_tick_def)
    ultimately show ?thesis using False n d by (simp add: expectedSequence_def)
  qed
qed

lemma observe_tick_inv:
  assumes "publisher_inv sha cr sk o' p seen ws" "observe_tick t p = Inr p'" "list_all market_tick seen"
  shows "publisher_inv sha cr sk o' p' (seen @ [t]) ws"
proof (cases "seen = []")
  case False
  then have "market_tick (last seen)" using assms(3) by (simp add: list_all_iff)
  from expected_after [OF assms(1) False this, of t] assms(2)
  have p': "p' = p\<lparr>pb_open := pb_open p @ [t]\<rparr>" and t: "sequence t = sequence (last seen) + 1"
    by (auto simp: observe_tick_def Let_def js_eq_num_left split: if_splits)
  have "consecutive (sequences (seen @ [t]))"
    using assms(1) False t by (simp add: publisher_inv_def consecutive_append last_sequences)
  with assms(1) False p' show ?thesis by (auto simp: publisher_inv_def)
next
  case True
  then have ws: "ws = []" "pb_open p = []" using nothing_seen [OF assms(1)] by auto
  have st: "pb_nextSequence p = po_nextSequence o'" "pb_previousRoot p = (case po_previousRoot o' of None \<Rightarrow> [] | Some r \<Rightarrow> r)"
      "pb_resumesAfter p = po_resumesAfter o'"
    using assms(1) True ws by (auto simp: publisher_inv_def)
  have e: "po_nextSequence o' = None \<or> po_nextSequence o' = Some (num (sequence t))"
    using assms(2) ws(2) st(1) by (auto simp: observe_tick_def expectedSequence_def js_eq_num_left split: if_splits option.splits)
  have d: "(pb_previousRoot (decide_resume t p), pb_resumesAfter (decide_resume t p)) = first_link o' t"
    using assms(1) st by (auto simp: decide_resume_def first_link_def publisher_inv_def Let_def split: option.splits)
  have f: "pb_nextSequence (decide_resume t p) = po_nextSequence o'" "pb_open (decide_resume t p) = []"
      "pb_windowTicks (decide_resume t p) = pb_windowTicks p" "pb_assetId (decide_resume t p) = pb_assetId p"
    using st ws by (auto simp: decide_resume_def split: option.splits)
  have "p' = (decide_resume t p)\<lparr>pb_open := [t], pb_nextSequence := Some (num (sequence t))\<rparr>"
    using assms(2) e f by (auto simp: observe_tick_def Let_def split: if_splits)
  with assms(1) True ws d e f show ?thesis by (auto simp: publisher_inv_def)
qed

text \<open>Closing a front part of the open window, what both full and short closings do.\<close>

lemma close_window_inv:
  assumes inv: "publisher_inv sha cr sk o' p seen ws" and valid: "list_all market_tick seen"
    and open_eq: "pb_open p = w @ rest" "w \<noteq> []"
    and cl: "close_window sha cr sk w (p\<lparr>pb_open := rest\<rparr>) = Inr (p', c)"
  shows "publisher_inv sha cr sk o' p' seen (ws @ [c]) \<and> cw_ticks c = w \<and> pb_open p' = rest \<and> pb_windowTicks p' = pb_windowTicks p"
proof -
  have seen: "seen = concat (map cw_ticks ws) @ w @ rest" "seen \<noteq> []" using seen_eq [OF inv] open_eq by auto
  obtain cm sg where cm: "commit sha (pb_assetId p) w (pb_previousRoot p) (pb_resumesAfter p) = Inr cm"
      "signCommitment cr cm sk = Inr sg"
    and p': "p' = p\<lparr>pb_open := rest, pb_previousRoot := cm_root cm, pb_nextSequence := Some (js_add (cm_toSequence cm) (num 1)),
      pb_tipSequence := Some (cm_toSequence cm), pb_resumesAfter := None\<rparr>"
    and c: "c = \<lparr>cw_signed = sg, cw_ticks = w\<rparr>"
    using cl by (auto simp: close_window_def andThen_Inr_iff)
  have sg: "commitment_of c = cm" using cm(2) by (auto simp: c signCommitment_def andThen_Inr_iff)
  have "last w \<in> set seen" using open_eq(2) by (simp add: seen(1))
  then have v: "market_tick (last w)" using valid by (simp add: list_all_iff)
  obtain x where "cm = (fields_of (pb_assetId p) w (pb_previousRoot p) (pb_resumesAfter p))\<lparr>cm_root := to_hex (sha x)\<rparr>"
    using commit_Inr [OF cm(1)] by blast
  then have to: "cm_toSequence cm = num (sequence (last w))" using open_eq(2) by (simp add: fields_of_def last_conv_nth)
  have nxt: "js_add (cm_toSequence cm) (num 1) = num (sequence (last w) + 1)"
    using v by (simp add: to js_add_num market_tick_def)
  have le: "(if ws = [] then first_link o' (hd seen) else (cm_root (commitment_of (last ws)), None)) = (pb_previousRoot p, pb_resumesAfter p)"
    and a: "pb_assetId p = po_assetId o'"
    using inv seen(2) by (simp_all add: publisher_inv_def)
  have "linked sha cr sk (po_assetId o') (if ws = [] then first_link o' (hd seen) else (cm_root (commitment_of (last ws)), None)) [c]"
    unfolding le using cm sg open_eq(2) a by (simp add: c)
  then have "linked sha cr sk (po_assetId o') (first_link o' (hd seen)) (ws @ [c])"
    using inv by (auto simp: publisher_inv_def linked_snoc)
  with inv to nxt sg seen show ?thesis
    by (auto simp: publisher_inv_def p' c)
qed

lemma close_full_inv:
  "publisher_inv sha cr sk o' p seen ws \<Longrightarrow> list_all market_tick seen \<Longrightarrow> close_full sha cr sk acc p = (p', Inr cs) \<Longrightarrow>
     \<exists>new. cs = acc @ new \<and> publisher_inv sha cr sk o' p' seen (ws @ new) \<and>
       list_all (\<lambda>c. length (cw_ticks c) = pb_windowTicks p) new \<and> length (pb_open p') < pb_windowTicks p' \<and>
       pb_windowTicks p' = pb_windowTicks p"
proof (induction sha cr sk acc p arbitrary: ws rule: close_full.induct)
  case (1 sha cr sk acc p)
  show ?case
  proof (cases "0 < pb_windowTicks p \<and> pb_windowTicks p \<le> length (pb_open p)")
    case True
    let ?w = "take (pb_windowTicks p) (pb_open p)" and ?rest = "drop (pb_windowTicks p) (pb_open p)"
    obtain p1 c where cl: "close_window sha cr sk ?w (p\<lparr>pb_open := ?rest\<rparr>) = Inr (p1, c)"
      and r: "close_full sha cr sk (acc @ [c]) p1 = (p', Inr cs)"
      using "1.prems"(3) True unfolding close_full.simps [of sha cr sk acc p]
      by (auto simp: Let_def split: sum.splits)
    have w: "?w \<noteq> []" using True by auto
    from close_window_inv [OF "1.prems"(1,2) _ w cl]
    have i: "publisher_inv sha cr sk o' p1 seen (ws @ [c])" "cw_ticks c = ?w" "pb_windowTicks p1 = pb_windowTicks p" by auto
    from "1.IH" [OF True refl cl refl i(1) "1.prems"(2) r] i(2,3) True show ?thesis by auto
  next
    case False
    with "1.prems" show ?thesis
      by (auto simp: close_full.simps [of sha cr sk acc p] publisher_inv_def)
  qed
qed

lemma observe_ticks_inv:
  "publisher_inv sha cr sk o' p seen ws \<Longrightarrow> list_all market_tick (seen @ accepted ts p) \<Longrightarrow> observe_ticks ts p = (p', r) \<Longrightarrow>
     publisher_inv sha cr sk o' p' (seen @ accepted ts p) ws \<and> (r = Inr () \<longrightarrow> accepted ts p = ts)"
proof (induction ts arbitrary: p seen)
  case (Cons t ts)
  show ?case
  proof (cases "observe_tick t p")
    case (Inl e)
    with Cons.prems show ?thesis by auto
  next
    case (Inr p1)
    have "publisher_inv sha cr sk o' p1 (seen @ [t]) ws"
      using Cons.prems Inr by (intro observe_tick_inv) auto
    with Cons.IH [of p1 "seen @ [t]"] Cons.prems Inr show ?thesis by auto
  qed
qed simp

section \<open>Everything is committed once, and the chain verifies\<close>

lemma publisher_run_inv:
  "publisher_run sha cr sk o' p seen ws \<Longrightarrow> list_all market_tick seen \<Longrightarrow> publisher_inv sha cr sk o' p seen ws"
proof (induction rule: publisher_run.induct)
  case (started p)
  show ?case using started.hyps by (rule started_inv)
next
  case (observed p seen ws ts p' cs)
  obtain p1 where p1: "observe_ticks ts p = (p1, Inr ())" "close_full sha cr sk [] p1 = (p', Inr cs)"
    using observed.hyps(2) by (auto simp: observe_def split: prod.splits sum.splits)
  have acc: "accepted ts p = ts" using p1(1)
  proof (induction ts arbitrary: p)
    case (Cons t ts)
    then show ?case by (auto split: sum.splits)
  qed simp
  have "publisher_inv sha cr sk o' p1 (seen @ ts) ws"
    using observe_ticks_inv [OF observed.IH _ p1(1)] observed.prems by (simp add: acc)
  with close_full_inv [OF this observed.prems p1(2)] show ?case by auto
next
  case (refused p seen ws ts p' e)
  then show ?case using observe_ticks_inv [OF refused.IH _ refused.hyps(2)] by simp
next
  case (closed_short p seen ws p' c)
  then have o: "pb_open p \<noteq> []" and c: "close_window sha cr sk (pb_open p) (p\<lparr>pb_open := []\<rparr>) = Inr (p', c)"
    by (auto simp: sealChain_def Let_def split: if_splits sum.splits)
  show ?case using close_window_inv [OF closed_short.IH [OF closed_short.prems] closed_short.prems _ o c] by simp
qed

lemma commit_fields:
  assumes "commit sha a w prev res = Inr c" "digest sha"
  shows "w \<noteq> [] \<and> cm_assetId c = a \<and> cm_fromSequence c = num (sequence (hd w)) \<and> cm_toSequence c = num (sequence (last w)) \<and>
    cm_count c = num (int (length w)) \<and> cm_previousRoot c = prev \<and> cm_resumesAfter c = res \<and> is_digest (cm_root c) \<and>
    assertPreviousRoot prev = Inr () \<and> (prev = [] \<longrightarrow> res = None)"
proof -
  obtain x where x: "w \<noteq> []" "c = (fields_of a w prev res)\<lparr>cm_root := to_hex (sha x)\<rparr>"
      "assertPreviousRoot prev = Inr ()" "check_resume w prev res = Inr ()"
    using commit_Inr [OF assms(1)] by metis
  then show ?thesis using assms(2)
    by (auto simp: fields_of_def hd_conv_nth last_conv_nth to_hex_digest check_resume_def split: option.splits if_splits)
qed

lemma count_ok:
  assumes "cm_fromSequence c = num (sequence (hd w))" "cm_toSequence c = num (sequence (last w))" "cm_count c = num (int (length w))"
    and "w \<noteq> []" "consecutive (sequences w)" "list_all market_tick w"
  shows "check_count c = None"
proof -
  have b: "market_tick (hd w)" "market_tick (last w)" using assms(4,6) by (simp_all add: list_all_iff)
  have l: "sequence (last w) = sequence (hd w) + int (length w) - 1"
    using consecutive_last [OF assms(5)] assms(4) by (simp add: hd_sequences last_sequences flip: length_greater_0_conv)
  have "js_sub (num (sequence (last w))) (num (sequence (hd w))) = num (sequence (last w) - sequence (hd w))"
    using b by (intro js_sub_num) (auto simp: market_tick_def)
  moreover have "js_add (num (sequence (last w) - sequence (hd w))) (num 1) = num (sequence (last w) - sequence (hd w) + 1)"
    using b by (intro js_add_num) (auto simp: market_tick_def)
  ultimately show ?thesis using l by (simp add: check_count_def assms)
qed

lemma linked_chain:
  "linked sha cr sk a (cm_root pc, None) ws \<Longrightarrow> digest sha \<Longrightarrow> is_digest (cm_root pc) \<Longrightarrow> cm_assetId pc = a \<Longrightarrow>
     cm_toSequence pc = num s \<Longrightarrow> 0 \<le> s \<Longrightarrow> s < MAX_SAFE \<Longrightarrow> consecutive (s # sequences (concat (map cw_ticks ws))) \<Longrightarrow>
     list_all market_tick (concat (map cw_ticks ws)) \<Longrightarrow> chain_from pc (map commitment_of ws) = None"
proof (induction ws arbitrary: pc s)
  case (Cons w ws)
  let ?c = "commitment_of w"
  have cm: "commit sha a (cw_ticks w) (cm_root pc) None = Inr ?c" and l: "linked sha cr sk a (cm_root ?c, None) ws"
    using Cons.prems(1) by auto
  have f: "cw_ticks w \<noteq> []" "cm_assetId ?c = a" "cm_fromSequence ?c = num (sequence (hd (cw_ticks w)))"
      "cm_toSequence ?c = num (sequence (last (cw_ticks w)))" "cm_count ?c = num (int (length (cw_ticks w)))"
      "cm_previousRoot ?c = cm_root pc" "cm_resumesAfter ?c = None" "is_digest (cm_root ?c)"
    using commit_fields [OF cm Cons.prems(2)] by auto
  have v: "list_all market_tick (cw_ticks w)" "list_all market_tick (concat (map cw_ticks ws))" using Cons.prems(9) by auto
  have con: "consecutive (sequences (cw_ticks w))" "sequence (hd (cw_ticks w)) = s + 1"
      "consecutive (sequence (last (cw_ticks w)) # sequences (concat (map cw_ticks ws)))"
    using Cons.prems(8) f(1) by (auto simp: consecutive_Cons consecutive_append hd_append hd_sequences last_sequences)
  have vt: "market_tick (hd (cw_ticks w))" "market_tick (last (cw_ticks w))" using v(1) f(1) by (simp_all add: list_all_iff)
  have "js_sub (num (sequence (hd (cw_ticks w)))) (num s) = num 1"
    using con(2) by (simp add: js_sub_num)
  then have "check_link pc ?c = None"
    using f vt Cons.prems(3-5) by (auto simp: check_link_def market_tick_def)
  moreover have "check_count ?c = None" using f(1,3,4,5) con(1) v(1) by (intro count_ok) auto
  moreover have "chain_from ?c (map commitment_of ws) = None"
    using vt(2) by (intro Cons.IH [OF l Cons.prems(2) f(8,2,4) _ _ con(3) v(2)]) (auto simp: market_tick_def)
  ultimately show ?case by simp
qed simp

lemma windows_verify:
  assumes "linked sha cr sk a link ws" "ws \<noteq> []" "digest sha" "consecutive (sequences (concat (map cw_ticks ws)))"
    and "list_all market_tick (concat (map cw_ticks ws))"
  shows "verifyChain (map commitment_of ws) = None"
proof -
  obtain w ws' where ws: "ws = w # ws'" using assms(2) by (cases ws) auto
  let ?c = "commitment_of w"
  have cm: "commit sha a (cw_ticks w) (fst link) (snd link) = Inr ?c" and l: "linked sha cr sk a (cm_root ?c, None) ws'"
    using assms(1) by (auto simp: ws)
  have f: "cw_ticks w \<noteq> []" "cm_assetId ?c = a" "cm_fromSequence ?c = num (sequence (hd (cw_ticks w)))"
      "cm_toSequence ?c = num (sequence (last (cw_ticks w)))" "cm_count ?c = num (int (length (cw_ticks w)))"
      "cm_previousRoot ?c = fst link" "cm_resumesAfter ?c = snd link" "is_digest (cm_root ?c)"
      "assertPreviousRoot (fst link) = Inr ()" "fst link = [] \<longrightarrow> snd link = None"
    using commit_fields [OF cm assms(3)] by auto
  have v: "list_all market_tick (cw_ticks w)" "list_all market_tick (concat (map cw_ticks ws'))" using assms(5) by (auto simp: ws)
  have con: "consecutive (sequences (cw_ticks w))" "consecutive (sequence (last (cw_ticks w)) # sequences (concat (map cw_ticks ws')))"
    using assms(4) f(1) by (auto simp: ws consecutive_Cons consecutive_append hd_sequences last_sequences)
  have vt: "market_tick (last (cw_ticks w))" using v(1) f(1) by (simp add: list_all_iff)
  have "chain_from ?c (map commitment_of ws') = None"
    using vt by (intro linked_chain [OF l assms(3) f(8,2,4) _ _ con(2) v(2)]) (auto simp: market_tick_def)
  moreover have "check_count ?c = None" using f(1,3,4,5) con(1) v(1) by (intro count_ok) auto
  moreover have "check_first ?c = None"
    using f(6,7,9,10) by (auto simp: check_first_def assertPreviousRoot_def split: if_splits)
  ultimately show ?thesis by (simp add: ws verifyChain_def)
qed

text \<open>C27: the publisher commits every tick once. In any run of batches, refused batches and seals, the
  ticks taken are gapless and are exactly the ticks of the closed windows, in order, followed by
  those still open; each closed window is committed and signed over the root of the one before it.\<close>

theorem publisher_commits_once:
  assumes "publisher_run sha cr sk o' p seen ws" "list_all market_tick seen"
  shows "concat (map cw_ticks ws) @ pb_open p = seen \<and> consecutive (sequences seen) \<and>
    (seen \<noteq> [] \<longrightarrow> linked sha cr sk (po_assetId o') (first_link o' (hd seen)) ws) \<and>
    (ws \<noteq> [] \<longrightarrow> pb_previousRoot p = cm_root (commitment_of (last ws)))"
  using publisher_run_inv [OF assms] by (cases "ws = []") (auto simp: publisher_inv_def)

lemma publicKey_canonical:
  assumes "ed25519 cr"
  shows "assertCanonicalPublicKey cr (publicKeyHex cr sk) = Inr ()"
proof -
  have hex: "list_all lower_hex (to_hex bs)" for bs
  proof (induction bs)
    case (Cons b bs)
    have d: "lower_hex (hex_digit n)" if "n < 16" for n
      unfolding lower_hex_def hex_digit_def using that by (intro nth_mem) simp
    have "unat b < 256" using unsigned_less [of b, where ?'a = nat] by simp
    with Cons show ?case by (simp add: to_hex_def d)
  qed (simp add: to_hex_def)
  have "cr_export cr (cr_public cr sk) \<noteq> []" "cr_import cr (cr_export cr (cr_public cr sk)) = Some (cr_public cr sk)"
    using assms by (simp_all add: ed25519_def)
  moreover from this(1) have "to_hex (cr_export cr (cr_public cr sk)) \<noteq> []"
    using length_to_hex by (metis length_0_conv mult_eq_0_iff zero_neq_numeral)
  ultimately show ?thesis using hex by (simp add: assertCanonicalPublicKey_def publicKeyHex_def)
qed

lemma linked_signed:
  "linked sha cr sk a link ws \<Longrightarrow> ed25519 cr \<Longrightarrow>
     list_all (\<lambda>w. sc_publicKey (cw_signed w) = publicKeyHex cr sk \<and>
       verifyCommitment cr (cw_signed w) (Some (publicKeyHex cr sk))) ws"
proof (induction ws arbitrary: link)
  case (Cons w ws)
  then have s: "signCommitment cr (commitment_of w) sk = Inr (cw_signed w)" by simp
  then obtain m where m: "canonicalEncoding (commitment_of w) = Inr m"
      "cw_signed w = \<lparr>sc_commitment = commitment_of w, sc_signature = to_hex (cr_sign cr m sk), sc_publicKey = publicKeyHex cr sk\<rparr>"
    by (auto simp: signCommitment_def andThen_Inr_iff)
  then have "sc_publicKey (cw_signed w) = publicKeyHex cr sk" "sc_signature (cw_signed w) = to_hex (cr_sign cr m sk)"
    by (metis signed_commitment.select_convs)+
  moreover from this m(1) Cons.prems(2) have "verifyCommitment cr (cw_signed w) (Some (publicKeyHex cr sk))"
    by (simp add: verifyCommitment_def publicKeyHex_def ed25519_def)
  ultimately show ?case using Cons.IH [of "(cm_root (commitment_of w), None)"] Cons.prems by simp
qed simp

lemma signed_by_one_key:
  "list_all (\<lambda>l. sc_publicKey l = k \<and> verifyCommitment cr l (Some k)) ls \<Longrightarrow> check_links cr [k] [] i 0 ls = None"
proof (induction ls arbitrary: i)
  case (Cons l ls)
  have "last_index (\<lambda>x. x = k) [k] = Some 0" by (auto simp: last_index_Some)
  with Cons show ?case by simp
qed simp

text \<open>C28: what the publisher publishes verifies. Whatever its batches and seals were, the windows it has
  closed form a chain that the verifier accepts from its public key alone.\<close>

theorem published_chain_verifies:
  assumes "digest sha" "ed25519 cr" "publisher_run sha cr sk o' p seen ws" "list_all market_tick seen" "ws \<noteq> []"
  shows "verifySignedChain cr (map cw_signed ws) (publicKeyHex cr sk) [] = None"
proof -
  have inv: "publisher_inv sha cr sk o' p seen ws" using assms(3,4) by (rule publisher_run_inv)
  then have l: "linked sha cr sk (po_assetId o') (first_link o' (hd seen)) ws"
    and c: "consecutive (sequences (concat (map cw_ticks ws)))" "list_all market_tick (concat (map cw_ticks ws))"
    using assms(4,5) by (auto simp: publisher_inv_def consecutive_append)
  have "list_all (\<lambda>l. sc_publicKey l = publicKeyHex cr sk \<and> verifyCommitment cr l (Some (publicKeyHex cr sk))) (map cw_signed ws)"
    using linked_signed [OF l assms(2)] by (simp add: list_all_iff)
  then have "check_links cr [publicKeyHex cr sk] [] 0 0 (map cw_signed ws) = None" by (rule signed_by_one_key)
  moreover have "verifyChain (map commitment_of ws) = None" using windows_verify [OF l assms(5,1) c] .
  ultimately show ?thesis using assms(5) publicKey_canonical [OF assms(2)]
    by (simp add: verifySignedChain_def authorisedKeys_def comp_def)
qed

section \<open>Closing never fails\<close>

lemma check_contiguous_iff: "check_contiguous ts = Inr () \<longleftrightarrow> consecutive (sequences ts)"
  by (induction ts rule: check_contiguous.induct) auto

lemma u64_num: "0 \<le> n \<Longrightarrow> n \<le> MAX_SAFE \<Longrightarrow> \<exists>b. u64 (num n) = Inr b"
  by (simp add: u64_def)

lemma leaves_ok: "list_all market_tick ts \<Longrightarrow> \<exists>ls. leaves_of sha ts = Inr ls"
proof (induction ts)
  case (Cons t ts)
  then have t: "market_tick t" by simp
  obtain a where a: "u64 (num (sequence t)) = Inr a" using t u64_num [of "sequence t"] by (auto simp: market_tick_def)
  obtain b where b: "u64 (num (instant t)) = Inr b" using t u64_num [of "instant t"] by (auto simp: market_tick_def)
  have "- (2 ^ 63) \<le> price t" "price t < 2 ^ 63" using t by (auto simp: market_tick_def abs_le_iff)
  then obtain c where c: "i64 (num (price t)) = Inr c" using i64_Inr [of "num (price t)"] by auto
  from Cons a b c show ?case by (auto simp: leafHash_def leaf_input_def)
qed simp

lemma length_from_hex: "length (from_hex s) \<le> length s"
  by (induction s rule: from_hex.induct) (fastforce split: option.splits)+

lemma framed_ok: "length x < 2 ^ 32 \<Longrightarrow> \<exists>a. framed x = Inr a"
  by (simp add: framed_def)

lemma asset_id_length: "assertAssetId a = Inr () \<Longrightarrow> length a \<le> 64"
  by (auto simp: assertAssetId_def ASSET_ID_PATTERN_def split: if_splits list.splits)

lemma previous_root_length: "assertPreviousRoot r = Inr () \<Longrightarrow> length r \<le> 64"
  by (auto simp: assertPreviousRoot_def is_digest_def split: if_splits)

lemma window_length:
  assumes "consecutive (sequences w)" "list_all market_tick w" "w \<noteq> []"
  shows "int (length w) \<le> MAX_SAFE"
proof -
  have "sequence (last w) = sequence (hd w) + int (length w) - 1"
    using consecutive_last [OF assms(1)] assms(3) by (simp add: hd_sequences last_sequences flip: length_greater_0_conv)
  moreover have "market_tick (hd w)" "market_tick (last w)" using assms(2,3) by (simp_all add: list_all_iff)
  ultimately show ?thesis by (simp add: market_tick_def)
qed

text \<open>What a link may declare before a window that starts at a sequence.\<close>

definition link_ok :: "string \<times> jsnum option \<Rightarrow> int \<Rightarrow> bool" where
  "link_ok link s \<longleftrightarrow> assertPreviousRoot (fst link) = Inr () \<and>
     (case snd link of None \<Rightarrow> True
      | Some r \<Rightarrow> fst link \<noteq> [] \<and> (\<exists>n. r = num n \<and> 0 \<le> n \<and> n \<le> MAX_SAFE \<and> n + 1 < s))"

lemma commit_ok:
  assumes "assertAssetId a = Inr ()" "link_ok link (sequence (hd w))" "w \<noteq> []" "consecutive (sequences w)" "list_all market_tick w"
  shows "\<exists>c. commit sha a w (fst link) (snd link) = Inr c"
proof -
  have vt: "market_tick (hd w)" "market_tick (last w)" using assms(3,5) by (simp_all add: list_all_iff)
  have resume: "check_resume w (fst link) (snd link) = Inr ()"
  proof (cases "snd link")
    case (Some r)
    then obtain n where n: "r = num n" "0 \<le> n" "n \<le> MAX_SAFE" "n + 1 < sequence (hd w)" "fst link \<noteq> []"
      using assms(2) by (auto simp: link_ok_def)
    then have "js_add r (num 1) = num (n + 1)" by (simp add: js_add_num)
    with n Some assms(3) show ?thesis by (simp add: check_resume_def hd_conv_nth)
  qed (simp add: check_resume_def)
  obtain ls where ls: "leaves_of sha w = Inr ls" using leaves_ok assms(5) by blast
  obtain x1 where x1: "framed (utf8 a) = Inr x1" using framed_ok [of "utf8 a"] asset_id_length [OF assms(1)] by auto
  have "length (from_hex (fst link)) \<le> 64"
    using length_from_hex [of "fst link"] assms(2) previous_root_length [of "fst link"] by (auto simp: link_ok_def)
  then obtain x2 where x2: "framed (from_hex (fst link)) = Inr x2" using framed_ok [of "from_hex (fst link)"] by auto
  obtain x3 where x3: "u64 (num (sequence (hd w))) = Inr x3" using u64_num vt(1) by (force simp: market_tick_def)
  obtain x4 where x4: "u64 (num (sequence (last w))) = Inr x4" using u64_num vt(2) by (force simp: market_tick_def)
  obtain x5 where x5: "u64 (num (int (length w))) = Inr x5" using u64_num window_length [OF assms(4,5,3)] by force
  have "\<exists>x6. (case snd link of None \<Rightarrow> Inr [] | Some r \<Rightarrow> u64 r) = Inr x6"
    using assms(2) u64_num by (auto simp: link_ok_def split: option.splits)
  with x1 x2 x3 x4 x5 assms(3) have "\<exists>x. root_input (fields_of a w (fst link) (snd link)) (merkleRoot sha ls) = Inr x"
    by (auto simp: root_input_def fields_of_def hd_conv_nth last_conv_nth split: option.splits)
  then show ?thesis
    using assms(1-4) resume ls check_contiguous_iff [of w] by (auto simp: commit_def assertRange_def rootOf_def link_ok_def)
qed

lemma sign_ok:
  assumes "commit sha a w (fst link) (snd link) = Inr c" "digest sha" "assertAssetId a = Inr ()"
  shows "\<exists>s. signCommitment cr c sk = Inr s"
proof -
  obtain leaves x where x: "root_input (fields_of a w (fst link) (snd link)) (merkleRoot sha leaves) = Inr x"
      "c = (fields_of a w (fst link) (snd link))\<lparr>cm_root := to_hex (sha x)\<rparr>" "assertPreviousRoot (fst link) = Inr ()"
    using commit_Inr [OF assms(1)] by metis
  obtain f t n where ftn: "u64 (cm_fromSequence c) = Inr f" "u64 (cm_toSequence c) = Inr t" "u64 (cm_count c) = Inr n"
    using x(1,2) by (auto simp: root_input_def andThen_Inr_iff)
  have "\<exists>y. (case cm_resumesAfter c of None \<Rightarrow> Inr [] | Some r \<Rightarrow> u64 r) = Inr y"
    using x(1,2) by (auto simp: root_input_def andThen_Inr_iff split: option.splits)
  moreover have "length (cm_assetId c) \<le> 64" "length (cm_previousRoot c) \<le> 64" "length (cm_root c) = 64"
    using x(2) asset_id_length [OF assms(3)] previous_root_length [OF x(3)] assms(2) by (simp_all add: fields_of_def)
  ultimately show ?thesis using ftn
    by (auto simp: signCommitment_def canonicalEncoding_def framed_def)
qed

definition resume_ok :: "publisher_options \<Rightarrow> bool" where
  "resume_ok o' \<longleftrightarrow> (case po_resumesAfter o' of None \<Rightarrow> True | Some r \<Rightarrow> isSafeInteger r \<and> \<not> js_lt r (num 0))"

lemma linked_last:
  "linked sha cr sk a link ws \<Longrightarrow> ws \<noteq> [] \<Longrightarrow> digest sha \<Longrightarrow> is_digest (cm_root (commitment_of (last ws)))"
proof (induction ws arbitrary: link)
  case (Cons w ws)
  then show ?case using commit_fields [of sha a "cw_ticks w" "fst link" "snd link"] by auto
qed simp

lemma next_link_ok:
  assumes inv: "publisher_inv sha cr sk o' p seen ws" and "digest sha" "resume_ok o'" "pb_open p \<noteq> []"
  shows "link_ok (pb_previousRoot p, pb_resumesAfter p) (sequence (hd (pb_open p)))"
proof (cases "ws = []")
  case False
  then have "linked sha cr sk (po_assetId o') (first_link o' (hd seen)) ws" using inv by (simp add: publisher_inv_def)
  then have "is_digest (cm_root (commitment_of (last ws)))" using False assms(2) by (rule linked_last)
  moreover have "(pb_previousRoot p, pb_resumesAfter p) = (cm_root (commitment_of (last ws)), None)"
    using inv False by (simp add: publisher_inv_def)
  ultimately show ?thesis by (simp add: link_ok_def assertPreviousRoot_def)
next
  case True
  let ?t = "hd (pb_open p)"
  have seen: "seen = pb_open p" using seen_eq [OF inv] True by simp
  have l: "(pb_previousRoot p, pb_resumesAfter p) = first_link o' ?t"
    using inv True assms(4) unfolding publisher_inv_def seen by simp
  have prev: "assertPreviousRoot (case po_previousRoot o' of None \<Rightarrow> [] | Some r \<Rightarrow> r) = Inr ()"
    using inv by (auto simp: publisher_inv_def assertPreviousRoot_def split: option.splits)
  show ?thesis
  proof (cases "po_resumesAfter o'")
    case None
    with prev show ?thesis unfolding l by (simp add: first_link_def link_ok_def)
  next
    case (Some r)
    then have r: "isSafeInteger r" "\<not> js_lt r (num 0)" using assms(3) by (simp_all add: resume_ok_def)
    then obtain n where n: "r = num n" "\<bar>n\<bar> \<le> MAX_SAFE" using isSafeInteger_num by blast
    with r(2) have n: "r = num n" "0 \<le> n" "n \<le> MAX_SAFE" by auto
    then have "js_add r (num 1) = num (n + 1)" by (simp add: js_add_num)
    moreover obtain r' where "po_previousRoot o' = Some r'" "r' \<noteq> []" using inv Some by (auto simp: publisher_inv_def)
    ultimately show ?thesis unfolding l using prev n Some
      by (auto simp: first_link_def link_ok_def Let_def assertPreviousRoot_def split: if_splits)
  qed
qed

lemma close_window_ok:
  assumes inv: "publisher_inv sha cr sk o' p seen ws" and "list_all market_tick seen" "digest sha" "resume_ok o'"
    and w: "pb_open p = w @ rest" "w \<noteq> []"
  shows "\<exists>p' c. close_window sha cr sk w (p\<lparr>pb_open := rest\<rparr>) = Inr (p', c)"
proof -
  have "seen = concat (map cw_ticks ws) @ w @ rest" using seen_eq [OF inv] w by simp
  then have "list_all market_tick w" "consecutive (sequences w)"
    using assms(2) inv by (auto simp: publisher_inv_def consecutive_append)
  moreover have "link_ok (pb_previousRoot p, pb_resumesAfter p) (sequence (hd w))"
    using next_link_ok [OF inv assms(3,4)] w by simp
  moreover have a: "assertAssetId (pb_assetId p) = Inr ()" using inv by (simp add: publisher_inv_def)
  ultimately obtain c where c: "commit sha (pb_assetId p) w (pb_previousRoot p) (pb_resumesAfter p) = Inr c"
    using commit_ok [of "pb_assetId p" "(pb_previousRoot p, pb_resumesAfter p)" w sha] w(2) by auto
  obtain s where "signCommitment cr c sk = Inr s"
    using sign_ok [of sha "pb_assetId p" w "(pb_previousRoot p, pb_resumesAfter p)" c cr sk] c assms(3) a by auto
  with c show ?thesis by (simp add: close_window_def)
qed

lemma close_full_ok:
  "publisher_inv sha cr sk o' p seen ws \<Longrightarrow> list_all market_tick seen \<Longrightarrow> digest sha \<Longrightarrow> resume_ok o' \<Longrightarrow>
     \<exists>p' cs. close_full sha cr sk acc p = (p', Inr cs)"
proof (induction sha cr sk acc p arbitrary: ws rule: close_full.induct)
  case (1 sha cr sk acc p)
  show ?case
  proof (cases "0 < pb_windowTicks p \<and> pb_windowTicks p \<le> length (pb_open p)")
    case True
    let ?w = "take (pb_windowTicks p) (pb_open p)" and ?rest = "drop (pb_windowTicks p) (pb_open p)"
    have w: "pb_open p = ?w @ ?rest" "?w \<noteq> []" using True by auto
    obtain p1 c where cl: "close_window sha cr sk ?w (p\<lparr>pb_open := ?rest\<rparr>) = Inr (p1, c)"
      using close_window_ok [OF "1.prems"(1,2,3,4) w] by blast
    from close_window_inv [OF "1.prems"(1,2) w cl] have "publisher_inv sha cr sk o' p1 seen (ws @ [c])" by simp
    from "1.IH" [OF True refl cl refl this "1.prems"(2-4)] cl True show ?thesis
      unfolding close_full.simps [of sha cr sk acc p] by (simp add: Let_def)
  next
    case False
    then show ?thesis by (auto simp: close_full.simps [of sha cr sk acc p])
  qed
qed

lemma observe_ticks_error: "observe_ticks ts p = (p', Inl e) \<Longrightarrow> e = CommitmentErr ''expected sequence''"
  by (induction ts arbitrary: p) (auto simp: observe_tick_def Let_def split: sum.splits if_splits)

text \<open>The ticks a publisher takes: gapless, from the sequence it was told to start at if it was told one.\<close>

definition fits :: "publisher_options \<Rightarrow> tick list \<Rightarrow> bool" where
  "fits o' ts \<longleftrightarrow> consecutive (sequences ts) \<and> (case po_nextSequence o' of None \<Rightarrow> True
     | Some n \<Rightarrow> ts = [] \<or> n = num (sequence (hd ts)))"

lemma observe_tick_fits:
  assumes "publisher_inv sha cr sk o' p seen ws" "list_all market_tick seen"
  shows "(\<exists>p'. observe_tick t p = Inr p') \<longleftrightarrow> fits o' (seen @ [t])"
proof (cases "seen = []")
  case True
  then have "pb_open p = []" "pb_nextSequence p = po_nextSequence o'"
    using nothing_seen [OF assms(1)] assms(1) by (auto simp: publisher_inv_def)
  with True show ?thesis
    by (auto simp: observe_tick_def fits_def expectedSequence_def js_eq_num_left Let_def split: option.splits)
next
  case False
  then have "market_tick (last seen)" using assms(2) by (simp add: list_all_iff)
  from expected_after [OF assms(1) False this, of t] False assms(1) show ?thesis
    by (auto simp: observe_tick_def fits_def js_eq_num_left Let_def publisher_inv_def consecutive_append last_sequences
        split: option.splits)
qed

lemma accepted_fits:
  "publisher_inv sha cr sk o' p seen ws \<Longrightarrow> list_all market_tick (seen @ ts) \<Longrightarrow> fits o' seen \<Longrightarrow>
     (case observe_ticks ts p of (p', Inr _) \<Rightarrow> fits o' (seen @ ts) | (p', Inl _) \<Rightarrow> \<not> fits o' (seen @ ts))"
proof (induction ts arbitrary: p seen)
  case (Cons t ts)
  have v: "list_all market_tick seen" using Cons.prems(2) by simp
  show ?case
  proof (cases "observe_tick t p")
    case (Inl e)
    then have "\<not> fits o' (seen @ [t])" using observe_tick_fits [OF Cons.prems(1) v, of t] by simp
    then have "\<not> fits o' (seen @ t # ts)"
      by (auto simp: fits_def consecutive_append consecutive_Cons hd_append split: option.splits if_splits)
    with Inl show ?thesis by simp
  next
    case (Inr p1)
    then have "fits o' (seen @ [t])" using observe_tick_fits [OF Cons.prems(1) v, of t] by simp
    with Cons.IH [OF observe_tick_inv [OF Cons.prems(1) Inr v]] Cons.prems(2) Inr show ?thesis by simp
  qed
qed simp

lemma observe_ticks_open: "observe_ticks ts p = (p', Inl e) \<Longrightarrow> pb_open p' = pb_open p @ accepted ts p"
proof (induction ts arbitrary: p)
  case (Cons t ts)
  have "pb_open p1 = pb_open p @ [t]" if "observe_tick t p = Inr p1" for p1
    using that by (auto simp: observe_tick_def Let_def decide_resume_def split: if_splits option.splits)
  with Cons show ?case by (auto split: sum.splits)
qed simp

lemma accepted_prefix: "\<exists>rest. ts = accepted ts p @ rest"
  by (induction ts arbitrary: p) (auto split: sum.splits)

lemma observe_ticks_window: "observe_ticks ts p = (p', r) \<Longrightarrow> pb_windowTicks p' = pb_windowTicks p"
proof (induction ts arbitrary: p)
  case (Cons t ts)
  have "pb_windowTicks p1 = pb_windowTicks p" if "observe_tick t p = Inr p1" for p1
    using that by (auto simp: observe_tick_def Let_def decide_resume_def split: if_splits option.splits)
  with Cons show ?case by (auto split: sum.splits)
qed simp

lemma observe_accepts:
  assumes "digest sha" "publisher_run sha cr sk o' p seen ws" "resume_ok o'" "list_all market_tick (seen @ ts)" "fits o' seen"
    and "fits o' (seen @ ts)"
  shows "\<exists>p' cs. observe sha cr sk ts p = (p', Inr cs) \<and> publisher_run sha cr sk o' p' (seen @ ts) (ws @ cs) \<and>
    list_all (\<lambda>c. length (cw_ticks c) = pb_windowTicks p) cs \<and> pendingTicks p' < pb_windowTicks p' \<and>
    pb_windowTicks p' = pb_windowTicks p"
proof -
  have inv: "publisher_inv sha cr sk o' p seen ws" using assms(2,4) by (intro publisher_run_inv) auto
  obtain p1 where o: "observe_ticks ts p = (p1, Inr ())"
    using accepted_fits [OF inv assms(4,5)] assms(6) by (cases "observe_ticks ts p") (auto split: sum.splits)
  have v: "list_all market_tick (seen @ accepted ts p)" using assms(4) accepted_prefix [of ts p]
    by (metis append_assoc list_all_append)
  have i: "publisher_inv sha cr sk o' p1 (seen @ ts) ws" using observe_ticks_inv [OF inv v o] by metis
  obtain p' cs where c: "close_full sha cr sk [] p1 = (p', Inr cs)"
    using close_full_ok [OF i assms(4,1,3)] by blast
  then have ob: "observe sha cr sk ts p = (p', Inr cs)" using o by (simp add: observe_def)
  have "pb_windowTicks p1 = pb_windowTicks p" using observe_ticks_window [OF o] .
  with close_full_inv [OF i assms(4) c] publisher_run.observed [OF assms(2) ob] ob show ?thesis
    by (auto simp: pendingTicks_def)
qed

text \<open> observing never fails half-way. For ticks as a market produces them a batch that continues
  what was taken is taken whole: every full window is closed at exactly the window size and less than a
  window stays open. Any other is refused at its first tick that does not continue, no window being
  closed or lost.\<close>

theorem observe_all_or_gap:
  assumes "digest sha" "publisher_run sha cr sk o' p seen ws" "resume_ok o'" "list_all market_tick (seen @ ts)" "fits o' seen"
  shows "if fits o' (seen @ ts)
    then \<exists>p' cs. observe sha cr sk ts p = (p', Inr cs) \<and> publisher_run sha cr sk o' p' (seen @ ts) (ws @ cs) \<and>
      list_all (\<lambda>c. length (cw_ticks c) = pb_windowTicks p) cs \<and> pendingTicks p' < pb_windowTicks p'
    else \<exists>p'. observe sha cr sk ts p = (p', Inl (CommitmentErr ''expected sequence'')) \<and>
      publisher_run sha cr sk o' p' (seen @ accepted ts p) ws \<and> pb_open p' = pb_open p @ accepted ts p"
proof -
  have inv: "publisher_inv sha cr sk o' p seen ws" using assms(2,4) by (intro publisher_run_inv) auto
  obtain p1 r where o: "observe_ticks ts p = (p1, r)" by fastforce
  show ?thesis
  proof (cases r)
    case (Inl e)
    with accepted_fits [OF inv assms(4,5)] o have "\<not> fits o' (seen @ ts)" by simp
    moreover have "observe sha cr sk ts p = (p1, Inl (CommitmentErr ''expected sequence''))"
      using o Inl observe_ticks_error [of ts p p1 e] by (simp add: observe_def)
    ultimately show ?thesis using publisher_run.refused [OF assms(2), of ts p1 e] observe_ticks_open [of ts p p1 e] o Inl by auto
  next
    case (Inr u)
    with accepted_fits [OF inv assms(4,5)] o have f: "fits o' (seen @ ts)" by simp
    from observe_accepts [OF assms this] f show ?thesis by auto
qed
qed

section \<open>Across a restart\<close>

lemma chain_from_append: "chain_from p (xs @ [q]) = None \<Longrightarrow> chain_from q ys = None \<Longrightarrow> chain_from p (xs @ q # ys) = None"
  by (induction xs arbitrary: p) (auto split: option.splits)

lemma verifyChain_append: "verifyChain (xs @ [q]) = None \<Longrightarrow> chain_from q ys = None \<Longrightarrow> verifyChain (xs @ q # ys) = None"
  by (cases xs) (auto simp: verifyChain_def chain_from_append split: option.splits)

text \<open>C29: a restart extends the chain. When a publisher has sealed its chain, one that is started with its
  tip and its next sequence, or with its tip and the sequence it resumes after and a record that goes
  on beyond it, publishes windows that verify as one chain with those before it: the gap, if there is
  one, is declared by a link and nothing is restated.\<close>

theorem restart_extends_chain:
  assumes "digest sha" "publisher_run sha cr sk o1 p1 seen1 ws1" "publisher_run sha cr sk' o2 p2 seen2 ws2"
    and "list_all market_tick (seen1 @ seen2)" "ws1 \<noteq> []" "pb_open p1 = []" "ws2 \<noteq> []"
    and "po_assetId o2 = po_assetId o1" "po_previousRoot o2 = Some (pb_previousRoot p1)"
    and "if po_resumesAfter o2 = None then po_nextSequence o2 = pb_nextSequence p1
      else po_resumesAfter o2 = pb_tipSequence p1 \<and> sequence (last seen1) < sequence (hd seen2)"
  shows "verifyChain (map commitment_of (ws1 @ ws2)) = None"
proof -
  have inv1: "publisher_inv sha cr sk o1 p1 seen1 ws1" using assms(2,4) by (intro publisher_run_inv) auto
  have inv2: "publisher_inv sha cr sk' o2 p2 seen2 ws2" using assms(3,4) by (intro publisher_run_inv) auto
  have l1: "linked sha cr sk (po_assetId o1) (first_link o1 (hd seen1)) ws1"
    and l2: "linked sha cr sk' (po_assetId o2) (first_link o2 (hd seen2)) ws2"
    using inv1 inv2 assms(5,7) by (simp_all add: publisher_inv_def)
  obtain vs w where ws1: "ws1 = vs @ [w]" using assms(5) by (cases ws1 rule: rev_cases) auto
  obtain v us where ws2: "ws2 = v # us" using assms(7) by (cases ws2) auto
  have s1: "seen1 = concat (map cw_ticks ws1)" "last (cw_ticks w) = last seen1"
    using seen_eq [OF inv1] last_closed [OF inv1 assms(5,6)] assms(6) ws1 by simp_all
  have ne: "cw_ticks v \<noteq> []" and cv: "commit sha (po_assetId o2) (cw_ticks v) (fst (first_link o2 (hd seen2)))
      (snd (first_link o2 (hd seen2))) = Inr (commitment_of v)"
    using l2 by (simp_all add: ws2)
  have s2: "hd (cw_ticks v) = hd seen2" "seen2 \<noteq> []" using seen_eq [OF inv2] ne by (simp_all add: ws2)
  have "linked sha cr sk (po_assetId o1) (if vs = [] then first_link o1 (hd seen1) else (cm_root (commitment_of (last vs)), None)) [w]"
    using l1 by (simp add: ws1 linked_snoc)
  then obtain pr re where cw: "commit sha (po_assetId o1) (cw_ticks w) pr re = Inr (commitment_of w)" by auto
  have fw: "cw_ticks w \<noteq> []" "cm_assetId (commitment_of w) = po_assetId o1" "cm_toSequence (commitment_of w) = num (sequence (last seen1))"
      "is_digest (cm_root (commitment_of w))"
    using commit_fields [OF cw assms(1)] s1(2) by auto
  have fv: "cm_assetId (commitment_of v) = po_assetId o2" "cm_fromSequence (commitment_of v) = num (sequence (hd seen2))"
      "cm_toSequence (commitment_of v) = num (sequence (last (cw_ticks v)))"
      "(cm_previousRoot (commitment_of v), cm_resumesAfter (commitment_of v)) = first_link o2 (hd seen2)"
    using commit_fields [OF cv assms(1)] s2(1) by auto
  have mt: "market_tick (last seen1)" "market_tick (hd seen2)" "market_tick (last (cw_ticks v))"
    using assms(4) s1 s2 fw(1) ne seen_eq [OF inv2] by (auto simp: list_all_iff ws1 ws2)
  have p1: "pb_previousRoot p1 = cm_root (commitment_of w)" "pb_tipSequence p1 = Some (num (sequence (last seen1)))"
      "pb_nextSequence p1 = Some (num (sequence (last seen1) + 1))"
    using inv1 assms(5) s1(2) by (auto simp: publisher_inv_def ws1)
  have sub: "js_sub (num (sequence (hd seen2))) (num (sequence (last seen1))) = num (sequence (hd seen2) - sequence (last seen1))"
    using mt by (intro js_sub_num) (auto simp: market_tick_def)
  have add: "js_add (num (sequence (last seen1))) (num 1) = num (sequence (last seen1) + 1)"
    using mt by (intro js_add_num) (auto simp: market_tick_def)
  have link: "first_link o2 (hd seen2) = (cm_root (commitment_of w), if po_resumesAfter o2 = None \<or>
      sequence (hd seen2) = sequence (last seen1) + 1 then None else pb_tipSequence p1)"
    using assms(9,10) p1 add by (auto simp: first_link_def Let_def split: if_splits option.splits)
  have "po_resumesAfter o2 = None \<Longrightarrow> sequence (hd seen2) = sequence (last seen1) + 1"
    using assms(10) p1(3) inv2 s2(2) by (auto simp: publisher_inv_def)
  then have "check_link (commitment_of w) (commitment_of v) = None"
    using fw fv link sub mt assms(8,10) p1(2) by (auto simp: check_link_def market_tick_def split: if_splits)
  moreover have v2: "verifyChain (map commitment_of ws2) = None"
    using seen_eq [OF inv2] inv2 assms(4) by (intro windows_verify [OF l2 assms(7,1)]) (auto simp: publisher_inv_def consecutive_append)
  moreover have v1: "verifyChain (map commitment_of ws1) = None"
    using s1(1) inv1 assms(4) by (intro windows_verify [OF l1 assms(5,1)]) (auto simp: publisher_inv_def consecutive_append)
  ultimately have "chain_from (commitment_of w) (map commitment_of ws2) = None"
    by (auto simp: verifyChain_def ws2 split: option.splits)
  with v1 verifyChain_append [of "map commitment_of vs" "commitment_of w" "map commitment_of ws2"] show ?thesis
    by (simp add: ws1)
qed

lemma linked_member:
  "linked sha cr sk a link ws \<Longrightarrow> w \<in> set ws \<Longrightarrow> \<exists>prev res. commit sha a (cw_ticks w) prev res = Inr (commitment_of w)"
  by (induction ws arbitrary: link) auto

text \<open> a committed tick can be proven. From the ticks of a closed window a proof can be drawn for every
  one of them, it verifies against the window's commitment, and it states the tick.\<close>

theorem committed_tick_provable:
  assumes "digest sha" "publisher_run sha cr sk o' p seen ws" "list_all market_tick seen" "w \<in> set ws" "t \<in> set (cw_ticks w)"
    and "length (cw_ticks w) \<le> 2 ^ 31"
  shows "\<exists>pf. proveInclusion sha (cw_ticks w) (sequence t) = Inr pf \<and> verifyInclusion sha (commitment_of w) pf \<and>
    ip_sequence pf = num (sequence t) \<and> ip_instant pf = num (instant t) \<and> ip_price pf = num (price t)"
proof -
  let ?w = "cw_ticks w"
  have inv: "publisher_inv sha cr sk o' p seen ws" using assms(2,3) by (rule publisher_run_inv)
  then have l: "linked sha cr sk (po_assetId o') (first_link o' (hd seen)) ws" using assms(4) by (auto simp: publisher_inv_def)
  obtain prev res where c: "commit sha (po_assetId o') ?w prev res = Inr (commitment_of w)"
    using linked_member [OF l assms(4)] by auto
  obtain as bs where "ws = as @ w # bs" using assms(4) by (meson split_list)
  then have v: "list_all market_tick ?w" "consecutive (sequences ?w)"
    using seen_eq [OF inv] inv assms(3) by (auto simp: publisher_inv_def consecutive_append)
  obtain i where i: "i < length ?w" "?w ! i = t" using assms(5) by (auto simp: in_set_conv_nth)
  then have ne: "?w \<noteq> []" by auto
  have s: "sequence t = sequence (?w ! 0) + int i"
    using consecutive_nth [OF v(2), of i] i ne by (simp add: sequences_def hd_map hd_conv_nth)
  obtain ls where "leaves_of sha ?w = Inr ls" using leaves_ok v(1) by blast
  then obtain pf where pf: "proveInclusion sha ?w (sequence t) = Inr pf"
      "ip_sequence pf = num (sequence t)" "ip_instant pf = num (instant t)" "ip_price pf = num (price t)"
    using v(2) ne s i by (simp add: proveInclusion_def assertRange_def check_contiguous_iff [THEN iffD2] Let_def)
  have "list_all (\<lambda>t. \<bar>sequence t\<bar> \<le> MAX_SAFE \<and> \<bar>instant t\<bar> \<le> MAX_SAFE \<and> \<bar>price t\<bar> \<le> MAX_SAFE) ?w"
    using v(1) by (auto simp: list_all_iff market_tick_def)
  from honest_proof_verifies [OF assms(1) c pf(1) assms(6) this] pf show ?thesis by blast
qed

section \<open>A publisher restarted past a gap\<close>

definition demo_options :: publisher_options where
  "demo_options = \<lparr>po_assetId = ''a'', po_windowTicks = num 2, po_previousRoot = None, po_nextSequence = None, po_resumesAfter = None\<rparr>"

definition demo_ticks :: "int \<Rightarrow> tick list" where
  "demo_ticks n = [\<lparr>instant = 10 * n, sequence = n, price = 3\<rparr>, \<lparr>instant = 10 * n + 5, sequence = n + 1, price = -4\<rparr>]"

lemma demo_market: "0 \<le> n \<Longrightarrow> n \<le> 100 \<Longrightarrow> list_all market_tick (demo_ticks n)"
  by (simp add: demo_ticks_def market_tick_def)

text \<open>One batch of two ticks fills one window.\<close>

lemma two_ticks_one_window:
  assumes "digest sha" "new_publisher o' = Inr p" "po_windowTicks o' = num 2" "resume_ok o'" "po_nextSequence o' = None" "0 \<le> n" "n \<le> 100"
  shows "\<exists>p' c. observe sha cr sk (demo_ticks n) p = (p', Inr [c]) \<and> publisher_run sha cr sk o' p' (demo_ticks n) [c] \<and>
    cw_ticks c = demo_ticks n \<and> pb_open p' = []"
proof -
  have run: "publisher_run sha cr sk o' p [] []" using assms(2) by (rule publisher_run.started)
  have w: "pb_windowTicks p = 2" using assms(2,3) by (auto simp: new_publisher_def andThen_Inr_iff split: if_splits)
  have "fits o' []" "fits o' (demo_ticks n)" using assms(5) by (simp_all add: fits_def demo_ticks_def)
  with observe_accepts [OF assms(1) run assms(4), of "demo_ticks n"] demo_market [OF assms(6,7)] w
  obtain p' cs where r: "observe sha cr sk (demo_ticks n) p = (p', Inr cs)" "publisher_run sha cr sk o' p' (demo_ticks n) cs"
      "list_all (\<lambda>c. length (cw_ticks c) = 2) cs" "pendingTicks p' < 2"
    by auto
  have e: "concat (map cw_ticks cs) @ pb_open p' = demo_ticks n"
    using publisher_run_inv [OF r(2) demo_market [OF assms(6,7)]] by (simp add: publisher_inv_def)
  have "length (concat (map cw_ticks cs)) = 2 * length cs" using r(3) by (induction cs) simp_all
  with arg_cong [OF e, of length] have k: "2 * length cs + length (pb_open p') = 2" by (simp add: demo_ticks_def)
  moreover have "length (pb_open p') < 2" using r(4) by (simp add: pendingTicks_def)
  ultimately have "length (pb_open p') = 0" "length cs = 1" by presburger+
  then have l: "length cs = 1" "pb_open p' = []" by simp_all
  then obtain c where "cs = [c]" by (cases cs) auto
  with r e l(2) show ?thesis by auto
qed

lemma demo_run:
  "\<exists>p c. publisher_run demo_sha demo_crypto 7 demo_options p (demo_ticks 1) [c] \<and> cw_ticks c = demo_ticks 1 \<and> pb_open p = []"
proof -
  obtain p where p: "new_publisher demo_options = Inr p"
    by (simp add: new_publisher_def demo_options_def assertAssetId_def ASSET_ID_PATTERN_def)
  then show ?thesis
    using two_ticks_one_window [OF demo_digest p, of 1 demo_crypto 7] by (auto simp: demo_options_def resume_ok_def)
qed

theorem publisher_commits_once_witness:
  "\<exists>p c. publisher_run demo_sha demo_crypto 7 demo_options p (demo_ticks 1) [c] \<and> cw_ticks c @ pb_open p = demo_ticks 1"
proof -
  obtain p c where r: "publisher_run demo_sha demo_crypto 7 demo_options p (demo_ticks 1) [c]" using demo_run by blast
  with publisher_commits_once [OF r demo_market] show ?thesis by auto
qed

theorem published_chain_verifies_witness:
  "\<exists>p c. publisher_run demo_sha demo_crypto 7 demo_options p (demo_ticks 1) [c] \<and>
    verifySignedChain demo_crypto [cw_signed c] (publicKeyHex demo_crypto 7) [] = None"
proof -
  obtain p c where r: "publisher_run demo_sha demo_crypto 7 demo_options p (demo_ticks 1) [c]" using demo_run by blast
  with published_chain_verifies [OF demo_digest demo_ed25519 r demo_market] show ?thesis by auto
qed

theorem observe_all_or_gap_witness:
  "\<exists>p c. publisher_run demo_sha demo_crypto 7 demo_options p (demo_ticks 1) [c] \<and>
    snd (observe demo_sha demo_crypto 7 (demo_ticks 4) p) = Inl (CommitmentErr ''expected sequence'')"
proof -
  obtain p c where r: "publisher_run demo_sha demo_crypto 7 demo_options p (demo_ticks 1) [c]" using demo_run by blast
  have o: "resume_ok demo_options" "fits demo_options (demo_ticks 1)" "\<not> fits demo_options (demo_ticks 1 @ demo_ticks 4)"
    by (simp_all add: resume_ok_def fits_def demo_options_def demo_ticks_def)
  have "list_all market_tick (demo_ticks 1 @ demo_ticks 4)" using demo_market by simp
  from observe_all_or_gap [OF demo_digest r o(1) this o(2)] o(3) r show ?thesis by auto
qed

theorem committed_tick_provable_witness:
  "\<exists>p c pf. publisher_run demo_sha demo_crypto 7 demo_options p (demo_ticks 1) [c] \<and>
    proveInclusion demo_sha (cw_ticks c) 2 = Inr pf \<and> verifyInclusion demo_sha (commitment_of c) pf \<and> ip_price pf = num (-4)"
proof -
  obtain p c where r: "publisher_run demo_sha demo_crypto 7 demo_options p (demo_ticks 1) [c]" "cw_ticks c = demo_ticks 1"
    using demo_run by blast
  have t: "\<lparr>instant = 15, sequence = 2, price = -4\<rparr> \<in> set (cw_ticks c)" "length (cw_ticks c) \<le> 2 ^ 31"
    using r(2) by (simp_all add: demo_ticks_def)
  obtain pf where "proveInclusion demo_sha (cw_ticks c) 2 = Inr pf" "verifyInclusion demo_sha (commitment_of c) pf"
      "ip_price pf = num (-4)"
    using committed_tick_provable [OF demo_digest r(1) demo_market _ t] by auto
  with r(1) show ?thesis by blast
qed

text \<open>Restarted from the sealed chain of the first, past a gap of two ticks.\<close>

theorem restart_extends_chain_witness:
  "\<exists>p1 c1 p2 c2 o2. publisher_run demo_sha demo_crypto 7 demo_options p1 (demo_ticks 1) [c1] \<and>
    publisher_run demo_sha demo_crypto 7 o2 p2 (demo_ticks 5) [c2] \<and> po_resumesAfter o2 = pb_tipSequence p1 \<and>
    verifyChain [commitment_of c1, commitment_of c2] = None"
proof -
  obtain p1 c1 where r1: "publisher_run demo_sha demo_crypto 7 demo_options p1 (demo_ticks 1) [c1]" "cw_ticks c1 = demo_ticks 1"
      "pb_open p1 = []"
    using demo_run by blast
  let ?o2 = "\<lparr>po_assetId = ''a'', po_windowTicks = num 2, po_previousRoot = Some (pb_previousRoot p1), po_nextSequence = None,
    po_resumesAfter = Some (num 2)\<rparr>"
  have i: "publisher_inv demo_sha demo_crypto 7 demo_options p1 (demo_ticks 1) [c1]"
    using r1(1) demo_market by (intro publisher_run_inv) simp_all
  then have t: "pb_tipSequence p1 = Some (num 2)" "pb_previousRoot p1 = cm_root (commitment_of c1)"
    using r1(2) by (simp_all add: publisher_inv_def demo_ticks_def)
  have "linked demo_sha demo_crypto 7 ''a'' (first_link demo_options (hd (demo_ticks 1))) [c1]"
    using i by (simp add: publisher_inv_def demo_options_def)
  then have "is_digest (pb_previousRoot p1)" unfolding t(2) using linked_last [OF _ _ demo_digest] by (metis last.simps list.distinct(1))
  then have "\<exists>p. new_publisher ?o2 = Inr p"
    by (auto simp: new_publisher_def assertAssetId_def ASSET_ID_PATTERN_def assertPreviousRoot_def is_digest_def)
  then obtain p where p: "new_publisher ?o2 = Inr p" by blast
  obtain p2 c2 where r2: "publisher_run demo_sha demo_crypto 7 ?o2 p2 (demo_ticks 5) [c2]"
    using two_ticks_one_window [OF demo_digest p, of 5 demo_crypto 7] by (auto simp: resume_ok_def)
  have m: "list_all market_tick (demo_ticks 1 @ demo_ticks 5)" using demo_market by simp
  have "verifyChain (map commitment_of ([c1] @ [c2])) = None"
    using t r1(3) by (intro restart_extends_chain [OF demo_digest r1(1) r2 m]) (auto simp: demo_options_def demo_ticks_def)
  with r1 r2 t show ?thesis by (intro exI [of _ p1] exI [of _ c1] exI [of _ p2] exI [of _ c2] exI [of _ ?o2]) simp
qed

end
