(* ===== verification/Anchor.thy ===== *)
theory Anchor
  imports Rotation "HOL-Library.AList"
begin

text \<open>
  The external anchor of the commitment chains: packages/distribution/src/anchor.ts. An anchor
  summarises each asset's published chain; a reader keeps one and checks that a later one extends it.

  The anchors and chains a verifier reads are someone else's files, so every number in them is a
  Number and the breaks of an entry may be absent. \<^verbatim>\<open>localeCompare\<close> is the comparator \<open>lc\<close>.
\<close>

section \<open>Anchors\<close>

record anchor_break =
  ab_afterSequence :: jsnum
  ab_fromSequence :: jsnum
  ab_bound :: bool

record anchor_entry =
  ae_assetId :: string
  ae_fromSequence :: jsnum
  ae_toSequence :: jsnum
  ae_commitments :: jsnum
  ae_breaks :: "anchor_break list option"
  ae_headRoot :: string
  ae_publicKey :: string

record anchor =
  an_version :: jsnum
  an_at :: jsnum
  an_entries :: "anchor_entry list"

section \<open>Summarising a chain\<close>

abbreviation link_at :: "signed_commitment list \<Rightarrow> nat \<Rightarrow> commitment" where
  "link_at chain i \<equiv> sc_commitment (chain ! i)"

function summarise_loop ::
  "signed_commitment list \<Rightarrow> nat \<Rightarrow> nat \<Rightarrow> anchor_break list \<Rightarrow> anchor_break list result" where
  "summarise_loop chain i segmentStart breaks =
     (let structural = verifyChain (map sc_commitment (take (i - segmentStart) (drop segmentStart chain))) in
      if i < length chain then
        let link = link_at chain i;
            breaks1 = (case cm_resumesAfter link of
                None \<Rightarrow> breaks
              | Some r \<Rightarrow> if segmentStart < i
                  then breaks @ [\<lparr>ab_afterSequence = r, ab_fromSequence = cm_fromSequence link, ab_bound = True\<rparr>]
                  else breaks) in
        if i = 0 \<or> cm_previousRoot link \<noteq> [] then summarise_loop chain (i + 1) segmentStart breaks1
        else if structural \<noteq> None then Inl (AnchorErr ''not a chain'')
        else if cm_assetId link \<noteq> cm_assetId (link_at chain 0) then Inl (AnchorErr ''not one asset'')
        else if js_le (cm_fromSequence link) (cm_toSequence (link_at chain (i - 1))) then Inl (AnchorErr ''not one record'')
        else summarise_loop chain (i + 1) i (breaks1 @ [\<lparr>ab_afterSequence = cm_toSequence (link_at chain (i - 1)),
               ab_fromSequence = cm_fromSequence link, ab_bound = False\<rparr>])
      else if structural \<noteq> None then Inl (AnchorErr ''not a chain'')
      else Inr breaks)"
  by pat_completeness auto
termination
  by (relation "measure (\<lambda>(chain, i, s, b). length chain - i)") auto

declare summarise_loop.simps [simp del]

definition summarise :: "signed_commitment list \<Rightarrow> anchor_entry result" where
  "summarise chain =
     (if length chain = 0 then Inl (AnchorErr ''empty chain'')
      else andThen (summarise_loop chain 0 0 []) (\<lambda>breaks.
        let first = link_at chain 0; newest = chain ! (length chain - 1) in
        Inr \<lparr>ae_assetId = cm_assetId first, ae_fromSequence = cm_fromSequence first,
          ae_toSequence = cm_toSequence (sc_commitment newest), ae_commitments = num (int (length chain)),
          ae_breaks = Some breaks, ae_headRoot = cm_root (sc_commitment newest), ae_publicKey = sc_publicKey newest\<rparr>))"

fun summarise_all :: "signed_commitment list list \<Rightarrow> anchor_entry list result" where
  "summarise_all [] = Inr []"
| "summarise_all (c # cs) = andThen (summarise c) (\<lambda>e. andThen (summarise_all cs) (\<lambda>es. Inr (e # es)))"

definition buildAnchor :: "string comparator \<Rightarrow> signed_commitment list list \<Rightarrow> jsnum \<Rightarrow> anchor result" where
  "buildAnchor lc signedChains when = andThen (summarise_all signedChains) (\<lambda>entries.
     if \<not> distinct (map ae_assetId entries) then Inl (AnchorErr ''appears twice'')
     else Inr \<lparr>an_version = num 1, an_at = when, an_entries = sort (key ae_assetId lc) entries\<rparr>)"

section \<open>Checking an anchor\<close>

fun break_differs :: "anchor_break list \<Rightarrow> anchor_break list \<Rightarrow> string option" where
  "break_differs (said # claimed) (entry # actual) =
     (if \<not> js_eq (ab_afterSequence said) (ab_afterSequence entry) \<or> \<not> js_eq (ab_fromSequence said) (ab_fromSequence entry) \<or>
         ab_bound said \<noteq> ab_bound entry
      then Some ''the interval'' else break_differs claimed actual)"
| "break_differs _ _ = None"

definition breaksDiffer :: "anchor_break list \<Rightarrow> anchor_break list \<Rightarrow> string option" where
  "breaksDiffer claimed actual = (if length claimed \<noteq> length actual then Some ''how many intervals''
     else break_differs claimed actual)"

abbreviation breaks_of :: "anchor_entry \<Rightarrow> anchor_break list" where
  "breaks_of e \<equiv> (case ae_breaks e of None \<Rightarrow> [] | Some bs \<Rightarrow> bs)"

fun entries_by_asset :: "anchor_entry list \<Rightarrow> (string \<times> anchor_entry) list \<Rightarrow> (string \<times> anchor_entry) list" where
  "entries_by_asset [] m = m"
| "entries_by_asset (e # es) m = entries_by_asset es (AList.update (ae_assetId e) e m)"

definition chain_of :: "string \<Rightarrow> signed_commitment list list \<Rightarrow> signed_commitment list option" where
  "chain_of a signedChains = find (\<lambda>c. 0 < length c \<and> cm_assetId (link_at c 0) = a) (rev signedChains)"

definition extend_entry :: "anchor \<Rightarrow> signed_commitment list list \<Rightarrow> anchor_entry \<Rightarrow> string option" where
  "extend_entry later laterChains before = (case map_of (entries_by_asset (an_entries later) []) (ae_assetId before) of
     None \<Rightarrow> Some ''has disappeared''
   | Some after \<Rightarrow>
       if \<not> js_eq (ae_fromSequence after) (ae_fromSequence before) then Some ''no longer starts where it did''
       else if js_lt (ae_toSequence after) (ae_toSequence before) then Some ''gone backwards''
       else if length (breaks_of after) < length (breaks_of before) \<or>
           breaksDiffer (breaks_of before) (take (length (breaks_of before)) (breaks_of after)) \<noteq> None
       then Some ''no longer the ones the earlier anchor recorded''
       else if js_lt (ae_commitments after) (ae_commitments before) then Some ''commitments have been removed''
       else case chain_of (ae_assetId before) laterChains of
         None \<Rightarrow> Some ''no chain was given''
       | Some chain \<Rightarrow> (case find (\<lambda>l. js_eq (cm_toSequence (sc_commitment l)) (ae_toSequence before)) chain of
           None \<Rightarrow> Some ''no longer contains a commitment ending there''
         | Some l \<Rightarrow> if cm_root (sc_commitment l) \<noteq> ae_headRoot before then Some ''the record was rewritten'' else None))"

fun first_problem :: "('a \<Rightarrow> string option) \<Rightarrow> 'a list \<Rightarrow> string option" where
  "first_problem f [] = None"
| "first_problem f (x # xs) = (case f x of Some e \<Rightarrow> Some e | None \<Rightarrow> first_problem f xs)"

definition extendsAnchor :: "anchor \<Rightarrow> anchor \<Rightarrow> signed_commitment list list \<Rightarrow> string option" where
  "extendsAnchor earlier later laterChains =
     (if \<not> js_eq (an_version earlier) (num 1) then Some ''Unknown earlier anchor version''
      else if \<not> js_eq (an_version later) (num 1) then Some ''Unknown later anchor version''
      else if js_lt (an_at later) (an_at earlier) then Some ''dated before''
      else first_problem (extend_entry later laterChains) (an_entries earlier))"

text \<open>Each chain is checked against its entry, which is struck off.\<close>

fun check_chains :: "(string \<times> anchor_entry) list \<Rightarrow> signed_commitment list list \<Rightarrow> string option" where
  "check_chains byAsset [] = (if 0 < length byAsset then Some ''for which no chain was given'' else None)"
| "check_chains byAsset (chain # signedChains) = (case summarise chain of
     Inl e \<Rightarrow> Some (message e)
   | Inr actual \<Rightarrow> (case map_of byAsset (ae_assetId actual) of
       None \<Rightarrow> Some ''does not mention''
     | Some claimed \<Rightarrow>
         if ae_headRoot claimed \<noteq> ae_headRoot actual then Some ''head root''
         else if \<not> js_eq (ae_commitments claimed) (ae_commitments actual) then Some ''commitments''
         else if \<not> js_eq (ae_fromSequence claimed) (ae_fromSequence actual) \<or>
             \<not> js_eq (ae_toSequence claimed) (ae_toSequence actual) then Some ''sequence range''
         else if breaksDiffer (breaks_of claimed) (breaks_of actual) \<noteq> None then Some ''disagree about''
         else if ae_publicKey claimed \<noteq> ae_publicKey actual then Some ''signing key''
         else check_chains (AList.delete (ae_assetId actual) byAsset) signedChains))"

record anchor_check =
  ac_genesisPublicKey :: "string option"
  ac_rotations :: "signed_rotation list option"
  ac_previous :: "anchor option"

definition verifyAnchor ::
  "('sk, 'pk) crypto \<Rightarrow> anchor \<Rightarrow> signed_commitment list list \<Rightarrow> anchor_check \<Rightarrow> string option" where
  "verifyAnchor cr a signedChains check =
     (if \<not> js_eq (an_version a) (num 1) then Some ''Unknown anchor version''
      else let byAsset = entries_by_asset (an_entries a) [] in
      if length byAsset \<noteq> length (an_entries a) then Some ''more than once''
      else case check_chains byAsset signedChains of
        Some e \<Rightarrow> Some e
      | None \<Rightarrow> (case (case ac_genesisPublicKey check of
            None \<Rightarrow> None
          | Some k \<Rightarrow> first_problem
              (\<lambda>c. verifySignedChain cr c k (case ac_rotations check of None \<Rightarrow> [] | Some rs \<Rightarrow> rs)) signedChains) of
          Some e \<Rightarrow> Some e
        | None \<Rightarrow> (case ac_previous check of None \<Rightarrow> None | Some p \<Rightarrow> extendsAnchor p a signedChains)))"

section \<open>An entry hides no gap\<close>

lemma verifyChain_link:
  assumes "verifyChain cs = None" "Suc k < length cs"
  shows "check_link (cs ! k) (cs ! Suc k) = None"
proof -
  have step: "check_link (xs ! k) (xs ! Suc k) = None" if "chain_from p ys = None" "xs = p # ys" "Suc k < length xs" for p xs ys k
    using that
  proof (induction ys arbitrary: p xs k)
    case (Cons y ys)
    then show ?case by (cases k) (auto split: option.splits)
  qed simp
  obtain c cs' where "cs = c # cs'" "chain_from c cs' = None"
    using assms(1) by (cases cs) (auto simp: verifyChain_def split: option.splits)
  from step [OF this(2,1) assms(2)] show ?thesis .
qed

text \<open>Link \<open>j\<close> goes on from the link before it, or the interval between them is in the list.\<close>

definition accounted :: "signed_commitment list \<Rightarrow> anchor_break list \<Rightarrow> nat \<Rightarrow> bool" where
  "accounted chain breaks j \<longleftrightarrow>
     (cm_assetId (link_at chain j) = cm_assetId (link_at chain (j - 1)) \<or> cm_assetId (link_at chain j) = cm_assetId (link_at chain 0)) \<and>
     (js_eq (js_sub (cm_fromSequence (link_at chain j)) (cm_toSequence (link_at chain (j - 1)))) (num 1) \<or>
      \<lparr>ab_afterSequence = cm_toSequence (link_at chain (j - 1)), ab_fromSequence = cm_fromSequence (link_at chain j),
        ab_bound = (cm_previousRoot (link_at chain j) \<noteq> [])\<rparr> \<in> set breaks)"

lemma segment_accounted:
  assumes "verifyChain (map sc_commitment (take (i - seg) (drop seg chain))) = None" "seg < j" "j < i" "i \<le> length chain"
    and "\<And>r. cm_resumesAfter (link_at chain j) = Some r \<Longrightarrow>
      \<lparr>ab_afterSequence = r, ab_fromSequence = cm_fromSequence (link_at chain j), ab_bound = True\<rparr> \<in> set breaks"
  shows "accounted chain breaks j"
proof -
  let ?cs = "map sc_commitment (take (i - seg) (drop seg chain))"
  have l: "Suc (j - 1 - seg) < length ?cs" using assms(2-4) by simp
  have "?cs ! (j - 1 - seg) = link_at chain (j - 1)" "?cs ! Suc (j - 1 - seg) = link_at chain j"
    using assms(2-4) by (simp_all add: Suc_diff_Suc)
  with verifyChain_link [OF assms(1) l] have c: "check_link (link_at chain (j - 1)) (link_at chain j) = None"
    by (simp only:)
  then have "cm_previousRoot (link_at chain j) \<noteq> []" by (auto simp: check_link_def is_digest_def split: if_splits)
  with c assms(5) show ?thesis
    by (cases "cm_resumesAfter (link_at chain j)") (auto simp: check_link_def accounted_def js_eq_def split: if_splits)
qed

lemma summarise_loop_accounts:
  "summarise_loop chain i seg breaks = Inr out \<Longrightarrow> seg < i \<or> i = 0 \<and> seg = 0 \<Longrightarrow> i \<le> length chain \<Longrightarrow>
     (\<forall>j r. seg < j \<and> j < i \<and> cm_resumesAfter (link_at chain j) = Some r \<longrightarrow>
        \<lparr>ab_afterSequence = r, ab_fromSequence = cm_fromSequence (link_at chain j), ab_bound = True\<rparr> \<in> set breaks) \<Longrightarrow>
     set breaks \<subseteq> set out \<and> (\<forall>j. seg < j \<and> j < length chain \<longrightarrow> accounted chain out j)"
proof (induction chain i seg breaks rule: summarise_loop.induct)
  case (1 chain i seg breaks)
  let ?structural = "verifyChain (map sc_commitment (take (i - seg) (drop seg chain)))"
  let ?link = "link_at chain i"
  define breaks1 where "breaks1 = (case cm_resumesAfter ?link of None \<Rightarrow> breaks
    | Some r \<Rightarrow> if seg < i then breaks @ [\<lparr>ab_afterSequence = r, ab_fromSequence = cm_fromSequence ?link, ab_bound = True\<rparr>] else breaks)"
  have sub: "set breaks \<subseteq> set breaks1" by (auto simp: breaks1_def split: option.splits)
  note unf = summarise_loop.simps [of chain i seg breaks, unfolded Let_def, folded breaks1_def]
  show ?case
  proof (cases "i < length chain")
    case il: True
    show ?thesis
    proof (cases "i = 0 \<or> cm_previousRoot ?link \<noteq> []")
      case True
      then have r: "summarise_loop chain (i + 1) seg breaks1 = Inr out"
        using "1.prems"(1) il unfolding unf by simp
      have "\<forall>j r. seg < j \<and> j < i + 1 \<and> cm_resumesAfter (link_at chain j) = Some r \<longrightarrow>
          \<lparr>ab_afterSequence = r, ab_fromSequence = cm_fromSequence (link_at chain j), ab_bound = True\<rparr> \<in> set breaks1"
        using "1.prems"(4) sub by (auto simp: less_Suc_eq breaks1_def)
      moreover have "seg < i + 1 \<or> i + 1 = 0 \<and> seg = 0" "i + 1 \<le> length chain" using "1.prems"(2) il by auto
      ultimately show ?thesis using "1.IH"(1) [OF refl il refl breaks1_def True r] sub by blast
    next
      case False
      let ?b = "\<lparr>ab_afterSequence = cm_toSequence (link_at chain (i - 1)), ab_fromSequence = cm_fromSequence ?link, ab_bound = False\<rparr>"
      have st: "?structural = None" "cm_assetId ?link = cm_assetId (link_at chain 0)"
        and r: "summarise_loop chain (i + 1) i (breaks1 @ [?b]) = Inr out"
        using "1.prems"(1) il False unfolding unf by (auto split: if_splits)
      have le: "\<not> js_le (cm_fromSequence ?link) (cm_toSequence (link_at chain (i - 1)))"
        using "1.prems"(1) il False unfolding unf by (auto split: if_splits)
      have IH: "set (breaks1 @ [?b]) \<subseteq> set out \<and> (\<forall>j. i < j \<and> j < length chain \<longrightarrow> accounted chain out j)"
        using il by (intro "1.IH"(2) [OF refl il refl breaks1_def False _ _ _ r]) (use st le in auto)
      have "accounted chain out j" if "seg < j" "j < i" for j
        using that "1.prems"(3,4) IH sub by (intro segment_accounted [OF st(1)]) auto
      moreover have "accounted chain out i" using IH st(2) False by (auto simp: accounted_def)
      ultimately have "accounted chain out j" if "seg < j" "j < length chain" for j
        using that IH by (cases "j < i"; cases "j = i") auto
      with IH sub show ?thesis by auto
    qed
  next
    case False
    with "1.prems"(1) have "?structural = None" "out = breaks" unfolding unf by (auto split: if_splits)
    moreover have "i = length chain" using False "1.prems"(3) by simp
    ultimately show ?thesis using "1.prems"(4) segment_accounted [of i seg chain] by auto
  qed
qed

lemma summarise_fields:
  assumes "summarise chain = Inr e"
  shows "ae_assetId e = cm_assetId (link_at chain 0)" "ae_headRoot e = cm_root (sc_commitment (last chain))" "chain \<noteq> []"
    "ae_toSequence e = cm_toSequence (sc_commitment (last chain))"
    and "0 < j \<Longrightarrow> j < length chain \<Longrightarrow> accounted chain (breaks_of e) j"
proof -
  obtain out where o: "summarise_loop chain 0 0 [] = Inr out" and ne: "chain \<noteq> []"
    and e: "e = \<lparr>ae_assetId = cm_assetId (link_at chain 0), ae_fromSequence = cm_fromSequence (link_at chain 0),
      ae_toSequence = cm_toSequence (sc_commitment (last chain)), ae_commitments = num (int (length chain)),
      ae_breaks = Some out, ae_headRoot = cm_root (sc_commitment (last chain)), ae_publicKey = sc_publicKey (last chain)\<rparr>"
    using assms by (auto simp: summarise_def andThen_Inr_iff Let_def last_conv_nth split: if_splits)
  show "ae_assetId e = cm_assetId (link_at chain 0)" "ae_headRoot e = cm_root (sc_commitment (last chain))" "chain \<noteq> []"
    "ae_toSequence e = cm_toSequence (sc_commitment (last chain))"
    by (simp_all add: e ne)
  have "\<forall>j. 0 < j \<and> j < length chain \<longrightarrow> accounted chain out j"
    using summarise_loop_accounts [OF o] by simp
  then show "0 < j \<Longrightarrow> j < length chain \<Longrightarrow> accounted chain (breaks_of e) j" by (simp add: e)
qed

text \<open> an entry hides no gap. Whatever array of signed links is summarised, if an entry is answered the
  links are all of its asset, and each link after the first goes on from the one before it by exactly
  one sequence or the interval between the two is among the entry's breaks, with the two ends and
  whether the later link binds a predecessor.\<close>

theorem anchor_hides_no_gap:
  assumes "summarise chain = Inr e" "0 < j" "j < length chain"
  shows "cm_assetId (link_at chain j) = ae_assetId e \<and>
    (js_eq (js_sub (cm_fromSequence (link_at chain j)) (cm_toSequence (link_at chain (j - 1)))) (num 1) \<or>
     \<lparr>ab_afterSequence = cm_toSequence (link_at chain (j - 1)), ab_fromSequence = cm_fromSequence (link_at chain j),
        ab_bound = (cm_previousRoot (link_at chain j) \<noteq> [])\<rparr> \<in> set (breaks_of e))"
proof -
  note f = summarise_fields [OF assms(1)]
  have "cm_assetId (link_at chain k) = cm_assetId (link_at chain 0)" if "k < length chain" for k
    using that
  proof (induction k)
    case (Suc k)
    with f(5) [of "Suc k"] show ?case by (auto simp: accounted_def)
  qed simp
  with f(5) [OF assms(2,3)] f(1) assms(3) show ?thesis by (simp add: accounted_def)
qed

section \<open>What a kept anchor pins\<close>

lemma first_problem_None: "first_problem f xs = None \<longleftrightarrow> list_all (\<lambda>x. f x = None) xs"
  by (induction xs) (auto split: option.splits)

lemma verifyChain_take: "verifyChain cs = None \<Longrightarrow> 0 < n \<Longrightarrow> verifyChain (take n cs) = None"
proof -
  have step: "chain_from p xs = None \<Longrightarrow> chain_from p (take n xs) = None" for p xs n
  proof (induction xs arbitrary: p n)
    case (Cons x xs)
    then show ?case by (cases n) (auto split: option.splits)
  qed simp
  assume "verifyChain cs = None" "0 < n"
  then show ?thesis
    by (cases cs; cases n) (auto simp: verifyChain_def step split: option.splits)
qed

text \<open>C31: a kept anchor pins the history. A reader keeps an anchor of a published chain; if a later anchor
  over a published chain of the asset is accepted as extending it, the later chain starts with the
  very commitments, over the very windows, that were anchored, unless two of the inputs hashed
  collide. Both chains are published ones: every root is the hash of its window and its predecessor.\<close>

theorem anchor_pins_history:
  assumes "digest sha" "publishes sha ws (map sc_commitment chain)" "publishes sha ws' (map sc_commitment chain')"
    and "verifyChain (map sc_commitment chain) = None" "verifyChain (map sc_commitment chain') = None"
    and "cm_previousRoot (link_at chain 0) = []" "cm_previousRoot (link_at chain' 0) = []"
    and "summarise chain = Inr e" "e \<in> set (an_entries earlier)" "chain_of (ae_assetId e) signedChains = Some chain'"
    and "extendsAnchor earlier later signedChains = None"
    and "inj_on sha (set (chain_inputs sha ws) \<union> set (chain_inputs sha ws'))"
  shows "\<exists>rest wrest. map sc_commitment chain' = map sc_commitment chain @ rest \<and> ws' = ws @ wrest"
proof -
  have "extend_entry later signedChains e = None"
    using assms(9,11) by (auto simp: extendsAnchor_def first_problem_None list_all_iff split: if_splits)
  then obtain l where l: "find (\<lambda>l. js_eq (cm_toSequence (sc_commitment l)) (ae_toSequence e)) chain' = Some l"
      "cm_root (sc_commitment l) = ae_headRoot e"
    using assms(10) by (auto simp: extend_entry_def split: option.splits if_splits)
  then obtain k where k: "k < length chain'" "chain' ! k = l" by (auto simp: find_Some_iff)
  let ?n = "Suc k"
  have ne: "chain \<noteq> []" and head: "ae_headRoot e = cm_root (sc_commitment (last chain))" using summarise_fields [OF assms(8)] by auto
  have lastk: "last (take ?n (map sc_commitment chain')) = sc_commitment l"
    using k by (simp add: take_Suc_conv_app_nth)
  have len: "length ws' = length chain'" using assms(3) by (auto simp: publishes_def dest: map_eq_imp_length_eq)
  have pub: "publishes sha (take ?n ws') (take ?n (map sc_commitment chain'))"
    using arg_cong [OF assms(3) [unfolded publishes_def], of "take ?n"] by (simp add: publishes_def take_map)
  have sub: "set (chain_inputs sha (take ?n ws')) \<subseteq> set (chain_inputs sha ws')"
    by (auto simp: chain_inputs_def dest: in_set_takeD)
  have "ws = take ?n ws' \<and> map sc_commitment chain = take ?n (map sc_commitment chain')"
  proof (rule chains_with_one_root [OF assms(1,2) pub assms(4)])
    show "verifyChain (take ?n (map sc_commitment chain')) = None" using assms(5) by (rule verifyChain_take) simp
    show "cm_previousRoot (hd (map sc_commitment chain)) = []" using assms(6) ne by (simp add: hd_map hd_conv_nth)
    show "cm_previousRoot (hd (take ?n (map sc_commitment chain'))) = []" using assms(7) k by (cases chain') simp_all
    show "cm_root (last (map sc_commitment chain)) = cm_root (last (take ?n (map sc_commitment chain')))"
      using lastk l(2) head ne by (simp add: last_map)
    show "inj_on sha (set (chain_inputs sha ws) \<union> set (chain_inputs sha (take ?n ws')))"
      using assms(12) sub by (rule_tac inj_on_subset) auto
  qed
  then show ?thesis by (metis append_take_drop_id)
qed

section \<open>Two chains with one head\<close>

text \<open>The chain of the examples, and a chain whose first window is another one: its second link names
  the other root as its predecessor and keeps its own root, which no check here recomputes.\<close>

definition honest_chain :: "signed_commitment list" where
  "honest_chain = [demo_signed 1 demo_link1, demo_signed 1 demo_link2]"

definition other_root :: string where "other_root = replicate 64 CHR ''2''"

definition other_link1 :: commitment where "other_link1 = demo_link1\<lparr>cm_root := other_root\<rparr>"
definition other_link2 :: commitment where "other_link2 = demo_link2\<lparr>cm_previousRoot := other_root\<rparr>"

definition rewritten_chain :: "signed_commitment list" where
  "rewritten_chain = [demo_signed 1 other_link1, demo_signed 1 other_link2]"

definition demo_entry :: anchor_entry where
  "demo_entry = \<lparr>ae_assetId = ''a'', ae_fromSequence = num 1, ae_toSequence = num 3, ae_commitments = num 2,
     ae_breaks = Some [], ae_headRoot = demo_root2, ae_publicKey = ''01''\<rparr>"

definition demo_anchor :: anchor where
  "demo_anchor = \<lparr>an_version = num 1, an_at = num 5, an_entries = [demo_entry]\<rparr>"

lemma other_root: "is_digest other_root" "length other_root = 64" "other_root \<noteq> []" "other_root \<noteq> demo_root1"
  by (simp_all add: other_root_def demo_root1_def is_digest_def list_all_iff hex_value_def replicate_num)

lemma other_links:
  "\<exists>m. canonicalEncoding other_link1 = Inr m" "\<exists>m. canonicalEncoding other_link2 = Inr m"
  "verifyChain [other_link1, other_link2] = None"
  by (simp_all add: canonicalEncoding_def other_link1_def other_link2_def demo_link1_def demo_link2_def demo_roots other_root
      framed_def u64_def verifyChain_def check_count_def check_first_def check_link_def js_add_num js_sub_num)

lemma signed_pair:
  assumes "\<exists>m. canonicalEncoding c = Inr m" "\<exists>m. canonicalEncoding d = Inr m" "verifyChain [c, d] = None"
    and "chain = [demo_signed 1 c, demo_signed 1 d]"
  shows "verifySignedChain demo_crypto chain ''01'' [] = None" "map sc_commitment chain = [c, d]" "map sc_publicKey chain = [''01'', ''01'']"
proof -
  have x: "to_hex [1] = ''01''" "from_hex ''01'' = [1]" by (simp_all add: to_hex_def hex_digit_def hex_value_def)
  have f: "sc_commitment (demo_signed 1 c) = c" "sc_publicKey (demo_signed 1 c) = ''01''" "sc_commitment (demo_signed 1 d) = d"
      "sc_publicKey (demo_signed 1 d) = ''01''" "verifyCommitment demo_crypto (demo_signed 1 c) (Some ''01'')"
      "verifyCommitment demo_crypto (demo_signed 1 d) (Some ''01'')"
    using assms(1,2) demo_signed [of c _ 1] demo_signed [of d _ 1] x(1) by auto
  then show "map sc_commitment chain = [c, d]" "map sc_publicKey chain = [''01'', ''01'']" by (simp_all add: assms(4))
  have "assertCanonicalPublicKey demo_crypto ''01'' = Inr ()"
    unfolding assertCanonicalPublicKey_def x by (simp add: demo_crypto_def lower_hex_def x)
  moreover have "last_index (\<lambda>k. k = ''01'') [''01''] = Some 0" by (auto simp: last_index_Some)
  ultimately show "verifySignedChain demo_crypto chain ''01'' [] = None"
    by (simp add: verifySignedChain_def assms(3,4) f authorisedKeys_def)
qed

lemmas honest_pair = signed_pair [OF demo_links honest_chain_def]
lemmas rewritten_pair = signed_pair [OF other_links rewritten_chain_def]

lemma summarise_pair:
  assumes "map sc_commitment chain = [c, d]" "map sc_publicKey chain = [''01'', ''01'']" "verifyChain [c, d] = None"
    and "cm_assetId c = ''a''" "cm_fromSequence c = num 1" "cm_toSequence d = num 3" "cm_root d = demo_root2"
    and "cm_resumesAfter c = None" "cm_resumesAfter d = None" "cm_previousRoot d \<noteq> []"
  shows "summarise chain = Inr demo_entry"
proof -
  obtain l m where c: "chain = [l, m]" "sc_commitment l = c" "sc_commitment m = d" "sc_publicKey m = ''01''"
    using assms(1,2) by auto
  have "summarise_loop chain 0 0 [] = Inr []"
    by (simp add: summarise_loop.simps c assms(3,8,9,10) numeral_2_eq_2)
  with assms(4-7) c show ?thesis by (simp add: summarise_def demo_entry_def)
qed

text \<open>What \<open>extendsAnchor\<close> sees of a chain: the assets and last sequences of its links, and the roots of
  the links that end where an entry of the earlier anchor ends.\<close>

definition same_where_anchored :: "anchor \<Rightarrow> signed_commitment \<Rightarrow> signed_commitment \<Rightarrow> bool" where
  "same_where_anchored earlier l l' \<longleftrightarrow>
     cm_assetId (sc_commitment l') = cm_assetId (sc_commitment l) \<and>
     cm_toSequence (sc_commitment l') = cm_toSequence (sc_commitment l) \<and>
     (\<forall>e \<in> set (an_entries earlier). js_eq (cm_toSequence (sc_commitment l)) (ae_toSequence e) \<longrightarrow>
        cm_root (sc_commitment l') = cm_root (sc_commitment l))"

lemma find_related:
  "list_all2 R xs ys \<Longrightarrow> (\<And>x y. R x y \<Longrightarrow> P x = P y) \<Longrightarrow> rel_option (\<lambda>x y. R x y \<and> P x) (find P xs) (find P ys)"
  by (induction rule: list_all2_induct) auto

lemma chain_of_related:
  assumes "list_all2 (list_all2 (same_where_anchored earlier)) given given'"
  shows "rel_option (list_all2 (same_where_anchored earlier)) (chain_of a given) (chain_of a given')"
proof -
  have same: "(0 < length c \<and> cm_assetId (link_at c 0) = a) = (0 < length c' \<and> cm_assetId (link_at c' 0) = a)"
    if "list_all2 (same_where_anchored earlier) c c'" for c c'
    using that by (cases c; cases c') (auto simp: same_where_anchored_def)
  have "rel_option (\<lambda>c c'. list_all2 (same_where_anchored earlier) c c' \<and> (0 < length c \<and> cm_assetId (link_at c 0) = a))
      (chain_of a given) (chain_of a given')"
    unfolding chain_of_def by (rule find_related) (use assms same in \<open>simp_all add: list_all2_rev1\<close>)
  then show ?thesis by (rule option.rel_mono_strong) simp
qed

lemma extend_entry_related:
  assumes "list_all2 (list_all2 (same_where_anchored earlier)) given given'" "before \<in> set (an_entries earlier)"
  shows "extend_entry later given' before = extend_entry later given before"
  using chain_of_related [OF assms(1), of "ae_assetId before"]
proof (cases rule: option.rel_cases)
  case None
  then show ?thesis by (simp add: extend_entry_def split: option.split)
next
  case (Some c c')
  let ?P = "\<lambda>l. js_eq (cm_toSequence (sc_commitment l)) (ae_toSequence before)"
  have "rel_option (\<lambda>l l'. same_where_anchored earlier l l' \<and> ?P l) (find ?P c) (find ?P c')"
    by (rule find_related [OF Some(3)]) (simp add: same_where_anchored_def)
  then have "rel_option (\<lambda>l l'. cm_root (sc_commitment l') = cm_root (sc_commitment l)) (find ?P c) (find ?P c')"
    by (rule option.rel_mono_strong) (use assms(2) in \<open>auto simp: same_where_anchored_def\<close>)
  then have "(case find ?P c' of None \<Rightarrow> Some ''no longer contains a commitment ending there''
      | Some l \<Rightarrow> if cm_root (sc_commitment l) \<noteq> ae_headRoot before then Some ''the record was rewritten'' else None) =
    (case find ?P c of None \<Rightarrow> Some ''no longer contains a commitment ending there''
      | Some l \<Rightarrow> if cm_root (sc_commitment l) \<noteq> ae_headRoot before then Some ''the record was rewritten'' else None)"
    by (cases rule: option.rel_cases) simp_all
  then show ?thesis using Some(1,2) by (simp add: extend_entry_def split: option.split)
qed

text \<open>C32: whether one anchor extends another is decided without the history behind the heads. Take any two
  anchors and any chains, and replace any of their links, roots, previous roots, windows, keys and
  signatures included, keeping only the assets, the last sequences and the roots of the links that end
  where the earlier anchor's entries end: \<open>extendsAnchor\<close> answers the same. So the match of the head root
  does not certify the links before it; a reader needs the published windows, as \<open>anchor_pins_history\<close> has
  them. In the example the anchor of a verified chain is extended by a chain whose first window was
  replaced, all signatures checked.\<close>

theorem rewritten_history_extends:
  assumes "list_all2 (list_all2 (same_where_anchored earlier)) given given'"
  shows "extendsAnchor earlier later given' = extendsAnchor earlier later given"
proof -
  have "first_problem (extend_entry later given') es = first_problem (extend_entry later given) es"
    if "set es \<subseteq> set (an_entries earlier)" for es
    using that extend_entry_related [OF assms] by (induction es) (auto split: option.split)
  then show ?thesis by (simp add: extendsAnchor_def)
qed

theorem rewritten_history_extends_witness:
  "verifySignedChain demo_crypto honest_chain ''01'' [] = None \<and> summarise honest_chain = Inr demo_entry \<and>
   extendsAnchor demo_anchor demo_anchor [rewritten_chain] = extendsAnchor demo_anchor demo_anchor [honest_chain] \<and>
   verifyAnchor demo_crypto demo_anchor [rewritten_chain]
     \<lparr>ac_genesisPublicKey = Some ''01'', ac_rotations = None, ac_previous = Some demo_anchor\<rparr> = None \<and>
   cm_root (link_at rewritten_chain 0) \<noteq> cm_root (link_at honest_chain 0)"
proof -
  have h: "summarise honest_chain = Inr demo_entry"
    by (rule summarise_pair [OF honest_pair(2,3) demo_links(3)]) (simp_all add: demo_link1_def demo_link2_def demo_roots)
  have r: "summarise rewritten_chain = Inr demo_entry"
    by (rule summarise_pair [OF rewritten_pair(2,3) other_links(3)])
      (simp_all add: other_link1_def other_link2_def demo_link1_def demo_link2_def other_root)
  obtain l m where c: "rewritten_chain = [l, m]" "sc_commitment l = other_link1" "sc_commitment m = other_link2"
    using rewritten_pair(2) by (auto simp: rewritten_chain_def)
  obtain k n where d: "honest_chain = [k, n]" "sc_commitment k = demo_link1" "sc_commitment n = demo_link2"
    using honest_pair(2) by (auto simp: honest_chain_def)
  have fields: "cm_assetId other_link1 = ''a''" "cm_toSequence other_link1 = num 2" "cm_toSequence other_link2 = num 3"
      "cm_root other_link2 = demo_root2" "cm_root other_link1 = other_root" "cm_root demo_link1 = demo_root1"
    by (simp_all add: other_link1_def other_link2_def demo_link1_def demo_link2_def)
  have "same_where_anchored demo_anchor k l" "same_where_anchored demo_anchor n m"
    by (simp_all add: same_where_anchored_def c d demo_anchor_def demo_entry_def other_link1_def other_link2_def
      demo_link1_def demo_link2_def)
  then have same: "extendsAnchor demo_anchor demo_anchor [rewritten_chain] = extendsAnchor demo_anchor demo_anchor [honest_chain]"
    by (intro rewritten_history_extends) (simp add: c d)
  have "extendsAnchor demo_anchor demo_anchor [rewritten_chain] = None"
    by (simp add: extendsAnchor_def demo_anchor_def extend_entry_def demo_entry_def breaksDiffer_def chain_of_def c fields)
  moreover have "check_chains [(''a'', demo_entry)] [rewritten_chain] = None"
    by (simp add: r) (simp add: demo_entry_def breaksDiffer_def)
  moreover have "entries_by_asset (an_entries demo_anchor) [] = [(''a'', demo_entry)]"
    by (simp add: demo_anchor_def demo_entry_def)
  ultimately have v: "verifyAnchor demo_crypto demo_anchor [rewritten_chain]
     \<lparr>ac_genesisPublicKey = Some ''01'', ac_rotations = None, ac_previous = Some demo_anchor\<rparr> = None"
    using rewritten_pair(1) by (simp add: verifyAnchor_def) (simp add: demo_anchor_def)
  have "cm_root (link_at rewritten_chain 0) \<noteq> cm_root (link_at honest_chain 0)" using fields other_root(4) by (simp add: c d)
  with h honest_pair(1) same v show ?thesis by blast
qed

theorem anchor_hides_no_gap_witness:
  "cm_assetId (link_at honest_chain 1) = ''a'' \<and>
   js_eq (js_sub (cm_fromSequence (link_at honest_chain 1)) (cm_toSequence (link_at honest_chain (1 - 1)))) (num 1)"
proof -
  have h: "summarise honest_chain = Inr demo_entry"
    by (rule summarise_pair [OF honest_pair(2,3) demo_links(3)]) (simp_all add: demo_link1_def demo_link2_def demo_roots)
  from anchor_hides_no_gap [OF h, of 1] show ?thesis by (simp add: demo_entry_def honest_chain_def)
qed

text \<open>The published window of the examples, anchored and found again.\<close>

theorem anchor_pins_history_witness:
  "\<exists>l e. summarise [l] = Inr e \<and> sc_commitment l = demo_published \<and>
    extendsAnchor \<lparr>an_version = num 1, an_at = num 5, an_entries = [e]\<rparr> \<lparr>an_version = num 1, an_at = num 5, an_entries = [e]\<rparr> [[l]] = None \<and>
    (\<exists>rest. [demo_published] = [demo_published] @ rest)"
proof -
  let ?l = "\<lparr>sc_commitment = demo_published, sc_signature = [], sc_publicKey = []\<rparr>"
  have "summarise_loop [?l] 0 0 [] = Inr []"
    using demo_published(2) by (simp add: summarise_loop.simps demo_published_def fields_of_def demo_window_def)
  then obtain e where e: "summarise [?l] = Inr e" "ae_assetId e = cm_assetId demo_published" "ae_breaks e = Some []"
      "ae_toSequence e = cm_toSequence demo_published" "ae_headRoot e = cm_root demo_published"
      "ae_fromSequence e = num 1" "ae_commitments e = num 1"
    by (simp add: summarise_def demo_published_def fields_of_def demo_window_def)
  let ?a = "\<lparr>an_version = num 1, an_at = num 5, an_entries = [e]\<rparr>"
  have t: "cm_toSequence demo_published = num 2" by (simp add: demo_published_def fields_of_def demo_window_def)
  have x: "extendsAnchor ?a ?a [[?l]] = None"
    using e t by (simp add: extendsAnchor_def extend_entry_def breaksDiffer_def chain_of_def)
  have c: "chain_of (ae_assetId e) [[?l]] = Some [?l]" by (simp add: chain_of_def e(2))
  have p: "publishes demo_sha [demo_window] (map sc_commitment [?l])" "verifyChain (map sc_commitment [?l]) = None"
      "cm_previousRoot (link_at [?l] 0) = []" "e \<in> set (an_entries ?a)"
    using demo_published by simp_all
  from anchor_pins_history [OF demo_digest p(1,1,2,2,3,3) e(1) p(4) c x demo_published(4)] e(1) x show ?thesis
    by (intro exI [of _ ?l] exI [of _ e]) simp
qed

end
