(* ===== verification/PriceFrame.thy ===== *)
theory PriceFrame
  imports Market
begin

text \<open>
  What a stored price counts in: packages/runtime/src/priceFrame.ts. A published price is an
  integer; a frame is the three Numbers that turn it into a displayed one. The record keeps a log
  of epochs, each a frame in force from a sequence onward. Sequences of epochs are Numbers, since a
  declaration may hand in any; the lemmas speak of the integers they are once checked.
\<close>

section \<open>Frames and epochs\<close>

record price_frame =
  fr_logQuantum :: jsnum
  fr_referencePrice :: jsnum
  fr_displayPrecision :: jsnum

record lattice_epoch = price_frame +
  ep_assetId :: string
  ep_fromSequence :: jsnum
  ep_fromInstant :: int

definition sameFrame :: "'a price_frame_scheme \<Rightarrow> 'b price_frame_scheme \<Rightarrow> bool" where
  "sameFrame a b \<longleftrightarrow> js_eq (fr_logQuantum a) (fr_logQuantum b) \<and>
     js_eq (fr_referencePrice a) (fr_referencePrice b) \<and>
     js_eq (fr_displayPrecision a) (fr_displayPrecision b)"

definition malformedFrame :: "'a price_frame_scheme \<Rightarrow> js_error option" where
  "malformedFrame frame =
     (if \<not> isFinite (fr_logQuantum frame) \<or> js_le (fr_logQuantum frame) (num 0)
      then Some (RangeError ''a log quantum'')
      else if \<not> isFinite (fr_referencePrice frame) \<or> js_le (fr_referencePrice frame) (num 0)
      then Some (RangeError ''a reference price'')
      else if \<not> isSafeInteger (fr_displayPrecision frame) \<or> js_lt (fr_displayPrecision frame) (num 0)
      then Some (RangeError ''a display precision'')
      else None)"

section \<open>The frame in force\<close>

fun frame_loop :: "lattice_epoch list \<Rightarrow> jsnum \<Rightarrow> lattice_epoch option \<Rightarrow> lattice_epoch option" where
  "frame_loop [] s found = found"
| "frame_loop (epoch # epochs) s found =
     (if js_lt s (ep_fromSequence epoch) then found else frame_loop epochs s (Some epoch))"

definition frameAtOrBefore :: "lattice_epoch list \<Rightarrow> jsnum \<Rightarrow> lattice_epoch option" where
  "frameAtOrBefore epochs s = frame_loop epochs s None"

text \<open>Two frames count in one unit when they differ at most in the decimals shown.\<close>

definition same_unit :: "'a price_frame_scheme \<Rightarrow> 'b price_frame_scheme \<Rightarrow> bool" where
  "same_unit a b \<longleftrightarrow> js_eq (fr_logQuantum a) (fr_logQuantum b) \<and>
     js_eq (fr_referencePrice a) (fr_referencePrice b)"

fun span_broken :: "lattice_epoch list \<Rightarrow> jsnum \<Rightarrow> jsnum \<Rightarrow> lattice_epoch option \<Rightarrow> bool" where
  "span_broken [] first_s last_s start = False"
| "span_broken (epoch # epochs) first_s last_s start =
     (if js_le (ep_fromSequence epoch) first_s \<or> js_lt last_s (ep_fromSequence epoch)
      then span_broken epochs first_s last_s start
      else if (case start of None \<Rightarrow> True | Some f \<Rightarrow> \<not> same_unit epoch f) then True
      else span_broken epochs first_s last_s start)"

definition frameOfSpan ::
  "lattice_epoch list \<Rightarrow> jsnum \<Rightarrow> jsnum \<Rightarrow> price_frame option \<Rightarrow> price_frame option" where
  "frameOfSpan epochs first_s last_s fallback =
     (if epochs = [] then fallback
      else if span_broken epochs first_s last_s (frameAtOrBefore epochs first_s) then None
      else map_option price_frame.truncate (frameAtOrBefore epochs last_s))"

section \<open>Changes of lattice\<close>

fun reframedSequences :: "lattice_epoch list \<Rightarrow> jsnum set" where
  "reframedSequences (before # after # epochs) =
     (let rest = reframedSequences (after # epochs) in
      if \<not> same_unit before after then insert (ep_fromSequence after) rest else rest)"
| "reframedSequences _ = {}"

definition crossesAChange :: "jsnum set \<Rightarrow> int \<Rightarrow> int \<Rightarrow> bool" where
  "crossesAChange changes lastSequence resumesAtSequence \<longleftrightarrow>
     (\<exists>s \<in> changes. js_lt (num lastSequence) s \<and> js_le s (num resumesAtSequence))"

definition reframesAt :: "lattice_epoch list \<Rightarrow> int \<Rightarrow> int \<Rightarrow> bool" where
  "reframesAt epochs lastSequence resumesAtSequence =
     crossesAChange (reframedSequences epochs) lastSequence resumesAtSequence"

section \<open>Ordered logs\<close>

definition epoch_from :: "lattice_epoch \<Rightarrow> int" where
  "epoch_from e = int_of (ep_fromSequence e)"

definition epochs_ok :: "lattice_epoch list \<Rightarrow> bool" where
  "epochs_ok epochs \<longleftrightarrow> sorted_wrt (<) (map epoch_from epochs) \<and>
     list_all (\<lambda>e. ep_fromSequence e = num (epoch_from e) \<and> malformedFrame e = None) epochs"

text \<open>What the log says at a sequence: the newest epoch that has begun.\<close>

definition frame_in_force :: "lattice_epoch list \<Rightarrow> int \<Rightarrow> lattice_epoch option" where
  "frame_in_force epochs s = (case filter (\<lambda>e. epoch_from e \<le> s) epochs of [] \<Rightarrow> None | es \<Rightarrow> Some (last es))"

lemma epochs_ok_Nil [simp]: "epochs_ok []"
  by (simp add: epochs_ok_def)

lemma epochs_ok_Cons:
  "epochs_ok (e # es) \<longleftrightarrow> epochs_ok es \<and> (\<forall>f \<in> set es. epoch_from e < epoch_from f) \<and>
     ep_fromSequence e = num (epoch_from e) \<and> malformedFrame e = None"
  by (auto simp: epochs_ok_def)

lemma epochs_ok_snoc:
  "epochs_ok (es @ [e]) \<longleftrightarrow> epochs_ok es \<and> (\<forall>f \<in> set es. epoch_from f < epoch_from e) \<and>
     ep_fromSequence e = num (epoch_from e) \<and> malformedFrame e = None"
  by (auto simp: epochs_ok_def sorted_wrt_append)

lemma frame_in_force_simps [simp]:
  "frame_in_force [] s = None"
  "frame_in_force (e # es) s = (case frame_in_force es s of
     Some f \<Rightarrow> Some f | None \<Rightarrow> if epoch_from e \<le> s then Some e else None)"
  by (auto simp: frame_in_force_def split: list.splits)

lemma frame_in_force_None: "frame_in_force es s = None \<longleftrightarrow> (\<forall>e \<in> set es. s < epoch_from e)"
  by (induction es) (auto split: option.splits)

lemma frame_in_force_Some:
  assumes "epochs_ok es"
  shows "frame_in_force es s = Some e \<longleftrightarrow>
    e \<in> set es \<and> epoch_from e \<le> s \<and> (\<forall>f \<in> set es. epoch_from f \<le> s \<longrightarrow> epoch_from f \<le> epoch_from e)"
  using assms
proof (induction es arbitrary: e)
  case (Cons x es)
  then have ok: "epochs_ok es" and lt: "\<And>f. f \<in> set es \<Longrightarrow> epoch_from x < epoch_from f" by (auto simp: epochs_ok_Cons)
  show ?case
  proof (cases "frame_in_force es s")
    case None
    then have late: "f \<in> set es \<Longrightarrow> \<not> epoch_from f \<le> s" for f by (simp add: frame_in_force_None not_le)
    have "(e \<in> set (x # es) \<and> epoch_from e \<le> s) = (e = x \<and> epoch_from x \<le> s)"
      using late by auto
    then show ?thesis using None late by auto
  next
    case (Some f)
    then have f: "f \<in> set es" "epoch_from f \<le> s" "\<forall>g \<in> set es. epoch_from g \<le> s \<longrightarrow> epoch_from g \<le> epoch_from f"
      using Cons.IH [OF ok, of f] Some by simp_all
    have "e \<noteq> x \<or> \<not> epoch_from f \<le> epoch_from e" using lt [OF f(1)] by force
    moreover have "epoch_from x \<le> epoch_from e" if "e \<in> set es" using lt [OF that] by simp
    moreover have "f = e \<longleftrightarrow> e \<in> set es \<and> epoch_from e \<le> s \<and> (\<forall>g \<in> set es. epoch_from g \<le> s \<longrightarrow> epoch_from g \<le> epoch_from e)"
      using Cons.IH [OF ok, of e] Some by simp
    ultimately show ?thesis using Some f(1,2) by auto
  qed
qed simp

lemma frame_loop_in_force:
  "epochs_ok es \<Longrightarrow> frame_loop es (num s) found = (case frame_in_force es s of None \<Rightarrow> found | Some e \<Rightarrow> Some e)"
proof (induction es arbitrary: found)
  case (Cons e es)
  have "js_lt (num s) (ep_fromSequence e) \<longleftrightarrow> s < epoch_from e"
    using Cons.prems by (metis epochs_ok_Cons num_simps(8))
  moreover have "s < epoch_from e \<Longrightarrow> frame_in_force es s = None"
    using Cons.prems by (auto simp: frame_in_force_None epochs_ok_Cons)
  ultimately show ?case using Cons by (auto simp: epochs_ok_Cons split: option.splits)
qed simp

lemma frameAtOrBefore_in_force: "epochs_ok es \<Longrightarrow> frameAtOrBefore es (num s) = frame_in_force es s"
  by (simp add: frameAtOrBefore_def frame_loop_in_force split: option.splits)

section \<open>Spans in one unit\<close>

lemma well_formed_frame:
  "malformedFrame f = None \<Longrightarrow> same_unit f f \<and> sameFrame f f"
  by (auto simp: malformedFrame_def same_unit_def sameFrame_def js_eq_def split: if_splits)

lemma same_unit_sym: "same_unit a b \<Longrightarrow> same_unit b a"
  by (auto simp: same_unit_def js_eq_def)

lemma same_unit_trans: "same_unit a b \<Longrightarrow> same_unit b c \<Longrightarrow> same_unit a c"
  by (auto simp: same_unit_def js_eq_def)

lemma sameFrame_unit: "sameFrame a b \<Longrightarrow> same_unit a b"
  by (simp add: same_unit_def sameFrame_def)

lemma span_broken_iff:
  "epochs_ok es \<Longrightarrow> span_broken es (num a) (num b) start \<longleftrightarrow>
     (\<exists>e \<in> set es. a < epoch_from e \<and> epoch_from e \<le> b \<and>
       (case start of None \<Rightarrow> True | Some f \<Rightarrow> \<not> same_unit e f))"
proof (induction es)
  case (Cons e es)
  have "js_le (ep_fromSequence e) (num a) = (epoch_from e \<le> a)" "js_lt (num b) (ep_fromSequence e) = (b < epoch_from e)"
    using Cons.prems num_simps(8) [of b "epoch_from e"] num_simps(10) [of "epoch_from e" a] by (auto simp: epochs_ok_Cons)
  with Cons show ?case by (auto simp: epochs_ok_Cons)
qed simp

lemma frame_in_force_start:
  assumes "epochs_ok es" "e \<in> set es"
  shows "frame_in_force es (epoch_from e) = Some e"
proof -
  have "epoch_from f \<le> epoch_from e \<Longrightarrow> epoch_from f \<le> epoch_from e" for f by simp
  then show ?thesis using assms by (simp add: frame_in_force_Some)
qed

text \<open> a span is rendered in one unit. For an ordered, well-formed log the frame answered for a span of
  sequences is the one in force at its end, and it is answered exactly when every sequence of the
  span, not just its two ends, has a declared frame counting in the same quantum from the same
  reference.\<close>

theorem frameOfSpan_one_unit:
  assumes "epochs_ok es" "es \<noteq> []" "a \<le> b"
  shows "frameOfSpan es (num a) (num b) fallback = Some p \<longleftrightarrow>
    (\<exists>e. frame_in_force es b = Some e \<and> p = price_frame.truncate e \<and>
      (\<forall>n. a \<le> n \<and> n \<le> b \<longrightarrow> (\<exists>f. frame_in_force es n = Some f \<and> same_unit f e)))"
proof -
  note force = frame_in_force_Some [OF assms(1)] and start = frame_in_force_start [OF assms(1)]
  have eq: "frameOfSpan es (num a) (num b) fallback = Some p \<longleftrightarrow>
      \<not> span_broken es (num a) (num b) (frame_in_force es a) \<and> (\<exists>e. frame_in_force es b = Some e \<and> p = price_frame.truncate e)"
    using assms(2) by (auto simp: frameOfSpan_def frameAtOrBefore_in_force [OF assms(1)])
  have unbroken: "\<not> span_broken es (num a) (num b) (frame_in_force es a) \<longleftrightarrow>
      (\<forall>n. a \<le> n \<and> n \<le> b \<longrightarrow> (\<exists>f. frame_in_force es n = Some f \<and> same_unit f e))" (is "?l \<longleftrightarrow> ?r")
    if e: "frame_in_force es b = Some e" for e
  proof
    assume l: ?l
    have eb: "e \<in> set es" "epoch_from e \<le> b" using e by (auto simp: force)
    then obtain g where g: "frame_in_force es a = Some g"
      using l span_broken_iff [OF assms(1)] by (cases "frame_in_force es a") (auto simp: frame_in_force_None)
    have unit: "same_unit f g" if "f \<in> set es" "epoch_from f \<le> b" "frame_in_force es n = Some f" "a \<le> n" for f n
    proof (cases "epoch_from f \<le> a")
      case True
      then have "frame_in_force es a = Some f" using that(3,4) by (auto simp: force)
      then show ?thesis using g that(1) assms(1) by (auto simp: epochs_ok_def list_all_iff well_formed_frame)
    next
      case False
      then show ?thesis using l g that(1,2) by (auto simp: span_broken_iff [OF assms(1)])
    qed
    show ?r
    proof (intro allI impI)
      fix n assume n: "a \<le> n \<and> n \<le> b"
      have "g \<in> set es" "epoch_from g \<le> n" using g n by (auto simp: force)
      then have "frame_in_force es n \<noteq> None" by (auto simp: frame_in_force_None not_less)
      then obtain f where f: "frame_in_force es n = Some f" by auto
      then have "same_unit f g" using unit n by (force simp: force)
      moreover have "same_unit e g" using unit [OF eb e assms(3)] .
      ultimately show "\<exists>f. frame_in_force es n = Some f \<and> same_unit f e"
        using f same_unit_sym same_unit_trans by blast
    qed
  next
    assume r: ?r
    then obtain g where g: "frame_in_force es a = Some g" "same_unit g e" using assms(3) by auto
    have "same_unit f g" if "f \<in> set es" "a < epoch_from f" "epoch_from f \<le> b" for f
    proof -
      have "same_unit f e" using r [rule_format, of "epoch_from f"] start [OF that(1)] that(2,3) by simp
      then show ?thesis using same_unit_sym [OF g(2)] by (rule same_unit_trans)
    qed
    then show ?l using g by (auto simp: span_broken_iff [OF assms(1)])
  qed
  show ?thesis using eq unbroken by blast
qed

lemma demo_epochs_ok:
  assumes "m < n"
  shows "epochs_ok [\<lparr>fr_logQuantum = num 1, fr_referencePrice = num 1, fr_displayPrecision = num 2,
      ep_assetId = a, ep_fromSequence = num m, ep_fromInstant = i\<rparr>,
    \<lparr>fr_logQuantum = num q, fr_referencePrice = num 1, fr_displayPrecision = num 3,
      ep_assetId = a, ep_fromSequence = num n, ep_fromInstant = j\<rparr>] \<longleftrightarrow> 0 < q"
  using assms by (auto simp: epochs_ok_Cons malformedFrame_def epoch_from_def)

definition demo_epochs :: "lattice_epoch list" where
  "demo_epochs = [\<lparr>fr_logQuantum = num 1, fr_referencePrice = num 1, fr_displayPrecision = num 2,
      ep_assetId = ''A'', ep_fromSequence = num 1, ep_fromInstant = 0\<rparr>,
    \<lparr>fr_logQuantum = num 2, fr_referencePrice = num 1, fr_displayPrecision = num 3,
      ep_assetId = ''A'', ep_fromSequence = num 5, ep_fromInstant = 10\<rparr>]"

theorem frameOfSpan_one_unit_witness:
  "frameOfSpan demo_epochs (num 2) (num 4) None =
     Some \<lparr>fr_logQuantum = num 1, fr_referencePrice = num 1, fr_displayPrecision = num 2\<rparr> \<and>
   frameOfSpan demo_epochs (num 4) (num 6) None = None"
proof -
  have ok: "epochs_ok demo_epochs" by (simp add: demo_epochs_def demo_epochs_ok)
  have f: "frame_in_force demo_epochs n = Some (demo_epochs ! (if n < 5 then 0 else 1))" if "1 \<le> n" for n
    using that by (simp add: demo_epochs_def epoch_from_def)
  have "frameOfSpan demo_epochs (num 2) (num 4) None = Some (price_frame.truncate (demo_epochs ! 0))"
    using frameOfSpan_one_unit [OF ok, of 2 4 None "price_frame.truncate (demo_epochs ! 0)"] f
    by (simp add: demo_epochs_def same_unit_def)
  moreover have "\<not> same_unit (demo_epochs ! 0) (demo_epochs ! 1)" by (simp add: demo_epochs_def same_unit_def)
  then have "frameOfSpan demo_epochs (num 4) (num 6) None \<noteq> Some p" for p
    using frameOfSpan_one_unit [OF ok, of 4 6 None p] f [of 4] f [of 6] by (auto simp: demo_epochs_def)
  then have "frameOfSpan demo_epochs (num 4) (num 6) None = None" by (meson option.exhaust)
  ultimately show ?thesis by (simp add: demo_epochs_def price_frame.truncate_def)
qed

section \<open>Where the unit changes\<close>

lemma reframedSequences_iff:
  "epochs_ok es \<Longrightarrow> x \<in> reframedSequences es \<longleftrightarrow>
     (\<exists>s e f. x = num s \<and> frame_in_force es (s - 1) = Some e \<and> frame_in_force es s = Some f \<and> \<not> same_unit e f)"
proof (induction es rule: reframedSequences.induct)
  case (1 b a es)
  then have ok: "epochs_ok (a # es)" "epoch_from b < epoch_from a" "ep_fromSequence a = num (epoch_from a)"
      "same_unit b b"
    by (auto simp: epochs_ok_Cons well_formed_frame)
  let ?as = "a # es"
  have a: "frame_in_force ?as s = None \<longleftrightarrow> s < epoch_from a" for s
    using ok(1) unfolding frame_in_force_None by (auto simp: epochs_ok_Cons intro: less_trans)
  have first: "frame_in_force ?as (epoch_from a) = Some a" using frame_in_force_start [OF ok(1)] by simp
  have step: "frame_in_force (b # ?as) s = (if s < epoch_from a then if epoch_from b \<le> s then Some b else None
      else frame_in_force ?as s)" for s
    using a [of s] by (auto split: option.splits)
  have at_a: "s = epoch_from a" if "s - 1 < epoch_from a" "\<not> s < epoch_from a" for s using that by simp
  show ?case
  proof
    assume "x \<in> reframedSequences (b # ?as)"
    then consider "\<not> same_unit b a" "x = num (epoch_from a)" | "x \<in> reframedSequences ?as"
      using ok(3) by (auto simp: Let_def split: if_splits)
    then show "\<exists>s e f. x = num s \<and> frame_in_force (b # ?as) (s - 1) = Some e \<and> frame_in_force (b # ?as) s = Some f \<and> \<not> same_unit e f"
    proof cases
      case 1
      then show ?thesis using step [of "epoch_from a"] step [of "epoch_from a - 1"] first ok(2) by auto
    next
      case 2
      then obtain s e f where s: "x = num s" "frame_in_force ?as (s - 1) = Some e" "frame_in_force ?as s = Some f" "\<not> same_unit e f"
        using "1.IH" ok(1) by blast
      then have "\<not> s - 1 < epoch_from a" using a [of "s - 1"] by simp
      then show ?thesis using s step [of s] step [of "s - 1"] by auto
    qed
  next
    assume "\<exists>s e f. x = num s \<and> frame_in_force (b # ?as) (s - 1) = Some e \<and> frame_in_force (b # ?as) s = Some f \<and> \<not> same_unit e f"
    then obtain s e f where s: "x = num s" "frame_in_force (b # ?as) (s - 1) = Some e" "frame_in_force (b # ?as) s = Some f" "\<not> same_unit e f"
      by blast
    consider "s < epoch_from a" | "s = epoch_from a" | "epoch_from a \<le> s - 1" by linarith
    then show "x \<in> reframedSequences (b # ?as)"
    proof cases
      case 1
      then have "e = b" "f = b" using s(2,3) step [of s] step [of "s - 1"] by (auto split: if_splits)
      then show ?thesis using s(4) ok(4) by simp
    next
      case 2
      then have "e = b" "f = a" using s(2,3) step [of s] step [of "s - 1"] first by (auto split: if_splits)
      then show ?thesis using s(1,4) 2 ok(3) by (simp add: Let_def)
    next
      case 3
      then have "frame_in_force ?as (s - 1) = Some e" "frame_in_force ?as s = Some f"
        using s(2,3) step [of s] step [of "s - 1"] by auto
      then have "x \<in> reframedSequences ?as" using "1.IH" ok(1) s(1,4) by blast
      then show ?thesis by (simp add: Let_def)
    qed
  qed
qed (auto simp: epochs_ok_Cons well_formed_frame split: if_splits)

lemma frame_in_force_later: "frame_in_force es m = Some e \<Longrightarrow> m \<le> n \<Longrightarrow> \<exists>f. frame_in_force es n = Some f"
  using frame_in_force_None [of es m] frame_in_force_None [of es n] by (cases "frame_in_force es n") fastforce+

text \<open> a seam is said to reframe exactly when the lattice changes across it. For an ordered, well-formed
  log with a frame declared where the gap begins, the answer is yes if and only if some sequence up to
  the one the record resumes at counts in another quantum or from another reference, wherever in the
  gap the change was logged; a change of the decimals shown is not one.\<close>

theorem reframesAt_correct:
  assumes "epochs_ok es" "frame_in_force es l = Some e"
  shows "reframesAt es l r \<longleftrightarrow> (\<exists>n f. l \<le> n \<and> n \<le> r \<and> frame_in_force es n = Some f \<and> \<not> same_unit f e)"
proof
  assume "reframesAt es l r"
  then obtain s g f where s: "l < s" "s \<le> r" "frame_in_force es (s - 1) = Some g" "frame_in_force es s = Some f" "\<not> same_unit g f"
    using reframedSequences_iff [OF assms(1)] by (auto simp: reframesAt_def crossesAChange_def)
  then have "\<not> same_unit g e \<or> \<not> same_unit f e" using same_unit_sym same_unit_trans by blast
  then show "\<exists>n f. l \<le> n \<and> n \<le> r \<and> frame_in_force es n = Some f \<and> \<not> same_unit f e"
  proof
    assume "\<not> same_unit g e"
    with s show ?thesis by (intro exI [of _ "s - 1"]) auto
  next
    assume "\<not> same_unit f e"
    with s show ?thesis by (intro exI [of _ s]) auto
  qed
next
  assume "\<exists>n f. l \<le> n \<and> n \<le> r \<and> frame_in_force es n = Some f \<and> \<not> same_unit f e"
  then obtain n f where n: "l \<le> n" "n \<le> r" "frame_in_force es n = Some f" "\<not> same_unit f e" by blast
  from n(1,2,3,4) show "reframesAt es l r"
  proof (induction n arbitrary: f rule: int_ge_induct)
    case base
    then have "f = e" "e \<in> set es" using assms by (auto simp: frame_in_force_Some)
    then show ?case using base assms(1) by (auto simp: epochs_ok_def list_all_iff well_formed_frame)
  next
    case (step n)
    obtain g where g: "frame_in_force es n = Some g" using frame_in_force_later [OF assms(2) step.hyps] by blast
    show ?case
    proof (cases "same_unit g e")
      case True
      then have "\<not> same_unit g f" using step.prems(3) same_unit_sym same_unit_trans by blast
      then have "num (n + 1) \<in> reframedSequences es"
        using reframedSequences_iff [OF assms(1)] g step.prems(2) by (auto intro!: exI [of _ "n + 1"])
      then show ?thesis using step by (force simp: reframesAt_def crossesAChange_def)
    next
      case False
      then show ?thesis using step g by auto
    qed
  qed
qed

theorem reframesAt_correct_witness: "reframesAt demo_epochs 3 7 \<and> \<not> reframesAt demo_epochs 1 4"
proof -
  have ok: "epochs_ok demo_epochs" by (simp add: demo_epochs_def demo_epochs_ok)
  have f: "frame_in_force demo_epochs n = Some (demo_epochs ! (if n < 5 then 0 else 1))" if "1 \<le> n" for n
    using that by (simp add: demo_epochs_def epoch_from_def)
  have u: "\<not> same_unit (demo_epochs ! 1) (demo_epochs ! 0)" "same_unit (demo_epochs ! 0) (demo_epochs ! 0)"
    by (simp_all add: demo_epochs_def same_unit_def)
  have "reframesAt demo_epochs 3 7"
    using reframesAt_correct [OF ok f, of 3 7] f [of 7] u by (auto intro!: exI [of _ 7])
  moreover have "\<not> reframesAt demo_epochs 1 4"
    using reframesAt_correct [OF ok f, of 1 4] f u by auto
  ultimately show ?thesis ..
qed

end
