(* ===== verification/TickRecord.thy ===== *)
theory TickRecord
  imports RecordLog PriceFrame "HOL-Library.AList" "HOL-Library.List_Lexorder" "HOL-Library.Char_ord"
begin

text \<open>
  The published record of the venue: packages/runtime/src/tickRecord.ts. Its interface has two
  implementations in the code, one in memory and one in SQLite; both append a pass of batches all
  or nothing, keep a row for every discontinuity and an epoch for every change of frame. This theory
  has what the two share, an abstract specification of the interface (each asset a log of ticks,
  seams and epochs), the interface as a locale, and the implementation in memory.
\<close>

section \<open>Seams, batches and the shared checks\<close>

record recorded_seam =
  rs_assetId :: string
  rs_lastSequence :: int
  rs_lastInstant :: int
  rs_resumesAtSequence :: int
  rs_resumesAtInstant :: int

record asset_batch =
  ab_assetId :: string
  ab_ticks :: "tick list"
  ab_frame :: price_frame

definition seamBetween :: "string \<Rightarrow> tick \<Rightarrow> tick \<Rightarrow> recorded_seam option" where
  "seamBetween assetId previous nxt =
     (if sequence nxt = sequence previous + 1 then None
      else Some \<lparr>rs_assetId = assetId, rs_lastSequence = sequence previous, rs_lastInstant = instant previous,
        rs_resumesAtSequence = sequence nxt, rs_resumesAtInstant = instant nxt\<rparr>)"

definition epoch_at :: "string \<Rightarrow> tick \<Rightarrow> price_frame \<Rightarrow> lattice_epoch" where
  "epoch_at assetId t frame = \<lparr>fr_logQuantum = fr_logQuantum frame, fr_referencePrice = fr_referencePrice frame,
     fr_displayPrecision = fr_displayPrecision frame, ep_assetId = assetId,
     ep_fromSequence = num (sequence t), ep_fromInstant = instant t\<rparr>"

definition badLimit :: "jsnum \<Rightarrow> js_error option" where
  "badLimit limit = (if \<not> isInteger limit \<or> js_lt limit (num 1) then Some (RangeError ''A record limit'') else None)"

definition badSequence :: "jsnum \<Rightarrow> js_error option" where
  "badSequence s = (if \<not> isInteger s \<or> js_lt s (num 1) then Some (RangeError ''A sequence'') else None)"

definition badInstant :: "jsnum \<Rightarrow> js_error option" where
  "badInstant i = (if \<not> isSafeInteger i then Some (RangeError ''An instant'') else None)"

text \<open>The run is kept oldest first, so that its last pushed tick is at the head.\<close>

fun tail_run :: "tick list \<Rightarrow> tick list \<Rightarrow> tick list" where
  "tail_run [] run = run"
| "tail_run (t # newestFirst) run =
     (if run \<noteq> [] \<and> sequence t \<noteq> sequence (hd run) - 1 then run else tail_run newestFirst (t # run))"

definition contiguousTail :: "tick list \<Rightarrow> tick list" where
  "contiguousTail newestFirst = tail_run newestFirst []"

fun declaration_loop :: "string \<Rightarrow> lattice_epoch list \<Rightarrow> jsnum \<Rightarrow> js_error option" where
  "declaration_loop assetId [] previous = None"
| "declaration_loop assetId (epoch # epochs) previous =
     (if ep_assetId epoch \<noteq> assetId then Some (RangeError ''carries a frame for'')
      else case malformedFrame epoch of Some e \<Rightarrow> Some e
      | None \<Rightarrow>
          if \<not> isSafeInteger (ep_fromSequence epoch) \<or> js_lt (ep_fromSequence epoch) (num 0)
          then Some (RangeError ''which is not a sequence'')
          else if js_le (ep_fromSequence epoch) previous then Some (RangeError ''is not ordered'')
          else declaration_loop assetId epochs (ep_fromSequence epoch))"

definition malformedDeclaration :: "string \<Rightarrow> lattice_epoch list \<Rightarrow> js_error option" where
  "malformedDeclaration assetId epochs =
     (if epochs = [] then Some (RangeError ''at least one frame'') else declaration_loop assetId epochs NegInf)"

text \<open>A check that answers an error or nothing, in front of what follows it.\<close>

fun unless :: "js_error option \<Rightarrow> 'a result \<Rightarrow> 'a result" where
  "unless (Some e) r = Inl e"
| "unless None r = r"

abbreviation opens :: "lattice_epoch option \<Rightarrow> price_frame \<Rightarrow> bool" where
  "opens inForce frame \<equiv> (case inForce of None \<Rightarrow> True | Some e \<Rightarrow> \<not> sameFrame e frame)"

abbreviation seam_after :: "string \<Rightarrow> tick option \<Rightarrow> tick \<Rightarrow> recorded_seam option" where
  "seam_after a previous t \<equiv> (case previous of None \<Rightarrow> None | Some p \<Rightarrow> seamBetween a p t)"

definition last_option :: "'a list \<Rightarrow> 'a option" where
  "last_option xs = (if xs = [] then None else Some (last xs))"

section \<open>The record in memory\<close>

record memory_record =
  mt_ticks :: "(string \<times> tick list) list"
  mt_seams :: "(string \<times> recorded_seam list) list"
  mt_frames :: "(string \<times> lattice_epoch list) list"

definition empty_memory :: memory_record where
  "empty_memory = \<lparr>mt_ticks = [], mt_seams = [], mt_frames = []\<rparr>"

definition held :: "(string \<times> 'a list) list \<Rightarrow> string \<Rightarrow> 'a list" where
  "held m a = (case map_of m a of None \<Rightarrow> [] | Some xs \<Rightarrow> xs)"

record staged =
  sg_asset :: string
  sg_added :: "tick list"
  sg_seams :: "recorded_seam list"
  sg_epochs :: "lattice_epoch list"

fun memory_ticks ::
  "string \<Rightarrow> price_frame \<Rightarrow> tick list \<Rightarrow> tick list \<Rightarrow> lattice_epoch option \<Rightarrow> tick option \<Rightarrow> staged \<Rightarrow> staged result" where
  "memory_ticks a frame hs [] inForce previous g = Inr g"
| "memory_ticks a frame hs (t # ts) inForce previous g =
     (if hs \<noteq> [] \<and> sequence t \<le> sequence (last hs) then
        (case find (\<lambda>entry. sequence entry = sequence t) hs of
           None \<Rightarrow> Inl (RangeError ''no tick there to compare against'')
         | Some recorded \<Rightarrow>
             if \<not> sameTick recorded t then Inl (RecordFork (sequence t))
             else memory_ticks a frame hs ts inForce previous g)
      else
        let epoch = epoch_at a t frame;
            g1 = (if opens inForce frame then g\<lparr>sg_epochs := sg_epochs g @ [epoch]\<rparr> else g);
            g2 = (case seam_after a previous t of None \<Rightarrow> g1 | Some seam \<Rightarrow> g1\<lparr>sg_seams := sg_seams g1 @ [seam]\<rparr>) in
        memory_ticks a frame hs ts (if opens inForce frame then Some epoch else inForce) (Some t)
          (g2\<lparr>sg_added := sg_added g2 @ [t]\<rparr>))"

definition memory_stage :: "memory_record \<Rightarrow> asset_batch \<Rightarrow> staged result" where
  "memory_stage m b =
     (let a = ab_assetId b; hs = held (mt_ticks m) a in
      unless (malformedFrame (ab_frame b)) (unless (malformedBatch (ab_ticks b))
        (memory_ticks a (ab_frame b) hs (ab_ticks b) (last_option (held (mt_frames m) a)) (last_option hs)
          \<lparr>sg_asset = a, sg_added = [], sg_seams = [], sg_epochs = []\<rparr>)))"

fun memory_stages :: "memory_record \<Rightarrow> asset_batch list \<Rightarrow> staged list result" where
  "memory_stages m [] = Inr []"
| "memory_stages m (b # bs) = andThen (memory_stage m b) (\<lambda>g. andThen (memory_stages m bs) (\<lambda>gs. Inr (g # gs)))"

fun put_seam :: "recorded_seam \<Rightarrow> recorded_seam list \<Rightarrow> recorded_seam list" where
  "put_seam seam [] = [seam]"
| "put_seam seam (one # hs) =
     (if rs_resumesAtSequence one = rs_resumesAtSequence seam then seam # hs else one # put_seam seam hs)"

definition memory_apply :: "staged \<Rightarrow> memory_record \<Rightarrow> memory_record" where
  "memory_apply g m =
     m\<lparr>mt_ticks := AList.update (sg_asset g) (held (mt_ticks m) (sg_asset g) @ sg_added g) (mt_ticks m),
       mt_frames := (if sg_epochs g = [] then mt_frames m
         else AList.update (sg_asset g) (sort_key epoch_from (held (mt_frames m) (sg_asset g) @ sg_epochs g)) (mt_frames m)),
       mt_seams := (if sg_seams g = [] then mt_seams m
         else AList.update (sg_asset g)
           (sort_key rs_resumesAtSequence (fold put_seam (sg_seams g) (held (mt_seams m) (sg_asset g)))) (mt_seams m))\<rparr>"

definition memory_append ::
  "asset_batch list \<Rightarrow> memory_record \<Rightarrow> memory_record \<times> (string \<rightharpoonup> tick list) result" where
  "memory_append bs m =
     (case unless (malformedPass (map ab_assetId bs)) (memory_stages m bs) of
        Inl e \<Rightarrow> (m, Inl e)
      | Inr gs \<Rightarrow> (fold memory_apply gs m, Inr (map_of (map (\<lambda>g. (sg_asset g, sg_added g)) gs))))"

definition memory_trim :: "string \<Rightarrow> jsnum \<Rightarrow> memory_record \<Rightarrow> memory_record \<times> unit result" where
  "memory_trim a keep m =
     (case badLimit keep of Some e \<Rightarrow> (m, Inl e)
      | None \<Rightarrow> let hs = held (mt_ticks m) a; k = nat (int_of keep) in
          (if k < length hs then m\<lparr>mt_ticks := AList.update a (drop (length hs - k) hs) (mt_ticks m)\<rparr> else m, Inr ()))"

definition memory_declare ::
  "string \<Rightarrow> lattice_epoch list \<Rightarrow> bool \<Rightarrow> memory_record \<Rightarrow> memory_record \<times> unit result" where
  "memory_declare a epochs replace m =
     (case malformedDeclaration a epochs of Some e \<Rightarrow> (m, Inl e)
      | None \<Rightarrow>
          if held (mt_frames m) a \<noteq> [] \<and> \<not> replace then (m, Inl (RangeError ''declared already''))
          else (m\<lparr>mt_frames := AList.update a (sort_key epoch_from epochs) (mt_frames m)\<rparr>, Inr ()))"

definition memory_tail :: "memory_record \<Rightarrow> string \<Rightarrow> jsnum \<Rightarrow> tick list result" where
  "memory_tail m a limit = unless (badLimit limit)
     (let hs = held (mt_ticks m) a in Inr (contiguousTail (rev (drop (length hs - nat (int_of limit)) hs))))"

definition memory_since :: "memory_record \<Rightarrow> string \<Rightarrow> jsnum \<Rightarrow> jsnum \<Rightarrow> tick list result" where
  "memory_since m a fromSequence limit = unless (badLimit limit) (unless (badSequence fromSequence)
     (Inr (take (nat (int_of limit)) (filter (\<lambda>t. int_of fromSequence \<le> sequence t) (held (mt_ticks m) a)))))"

fun latest_until :: "int \<Rightarrow> tick list \<Rightarrow> tick option \<Rightarrow> tick option" where
  "latest_until i [] found = found"
| "latest_until i (t # ts) found = (if instant t \<le> i then latest_until i ts (Some t) else found)"

definition memory_atOrBefore :: "memory_record \<Rightarrow> string \<Rightarrow> jsnum \<Rightarrow> tick option result" where
  "memory_atOrBefore m a i = unless (badInstant i) (Inr (latest_until (int_of i) (held (mt_ticks m) a) None))"

definition memory_head :: "memory_record \<Rightarrow> string \<Rightarrow> int option" where
  "memory_head m a = map_option sequence (last_option (held (mt_ticks m) a))"

definition memory_oldest :: "memory_record \<Rightarrow> string \<Rightarrow> int option" where
  "memory_oldest m a = (let hs = held (mt_ticks m) a in if hs = [] then None else Some (sequence (hs ! 0)))"

definition memory_assets :: "memory_record \<Rightarrow> string list" where
  "memory_assets m = sort (filter (\<lambda>a. held (mt_ticks m) a \<noteq> []) (map fst (mt_ticks m)))"

definition memory_seamAt :: "memory_record \<Rightarrow> string \<Rightarrow> jsnum \<Rightarrow> recorded_seam option result" where
  "memory_seamAt m a i = unless (badInstant i) (Inr
     (find (\<lambda>seam. rs_lastInstant seam < int_of i \<and> int_of i < rs_resumesAtInstant seam) (held (mt_seams m) a)))"

definition memory_frameAt :: "memory_record \<Rightarrow> string \<Rightarrow> jsnum \<Rightarrow> lattice_epoch option result" where
  "memory_frameAt m a s = unless (badSequence s) (Inr (frameAtOrBefore (held (mt_frames m) a) s))"

fun replace_tick :: "int \<Rightarrow> tick \<Rightarrow> tick list \<Rightarrow> tick list" where
  "replace_tick s t [] = []"
| "replace_tick s t (u # ts) = (if sequence u = s then t # ts else u # replace_tick s t ts)"

definition memory_corrupt ::
  "string \<Rightarrow> int \<Rightarrow> jsnum option \<Rightarrow> jsnum option \<Rightarrow> memory_record \<Rightarrow> memory_record result" where
  "memory_corrupt a s newPrice newInstant m =
     (case find (\<lambda>t. sequence t = s) (held (mt_ticks m) a) of
        None \<Rightarrow> Inl (RangeError ''No tick to corrupt'')
      | Some t \<Rightarrow>
          if newPrice = None \<and> newInstant = None then Inl (RangeError ''Nothing to corrupt'')
          else andThen (case newPrice of None \<Rightarrow> Inr (price t) | Some p \<Rightarrow> logPrice p) (\<lambda>p.
            andThen (case newInstant of None \<Rightarrow> Inr (instant t) | Some i \<Rightarrow> epochMillis i) (\<lambda>i.
            Inr (m\<lparr>mt_ticks := AList.update a
              (replace_tick s (t\<lparr>price := p, instant := i\<rparr>) (held (mt_ticks m) a)) (mt_ticks m)\<rparr>))))"

section \<open>The interface\<close>

text \<open>
  Operations and queries as values, so that a run is a list of them and one law states what every
  implementation promises.
\<close>

datatype record_op =
    Append "asset_batch list"
  | Trim string jsnum
  | Declare string "lattice_epoch list" bool

datatype record_answer = Fresh "string \<rightharpoonup> tick list" | Done

datatype record_query =
    Tail string jsnum
  | Since string jsnum jsnum
  | AtOrBefore string jsnum
  | Head string
  | Oldest string
  | Assets
  | Seams string
  | SeamAt string jsnum
  | Frames string
  | FrameAt string jsnum

datatype record_reply =
    Ticks "tick list"
  | OneTick "tick option"
  | Sequence "int option"
  | Names "string list"
  | SeamRows "recorded_seam list"
  | OneSeam "recorded_seam option"
  | EpochRows "lattice_epoch list"
  | OneEpoch "lattice_epoch option"

definition map_answer :: "('a \<Rightarrow> 'b) \<Rightarrow> 'a result \<Rightarrow> 'b result" where
  "map_answer f r = andThen r (\<lambda>x. Inr (f x))"

fun memory_step :: "record_op \<Rightarrow> memory_record \<Rightarrow> memory_record \<times> record_answer result" where
  "memory_step (Append bs) m = map_prod id (map_answer Fresh) (memory_append bs m)"
| "memory_step (Trim a keep) m = map_prod id (map_answer (\<lambda>_. Done)) (memory_trim a keep m)"
| "memory_step (Declare a es r) m = map_prod id (map_answer (\<lambda>_. Done)) (memory_declare a es r m)"

fun memory_read :: "record_query \<Rightarrow> memory_record \<Rightarrow> record_reply result" where
  "memory_read (Tail a limit) m = map_answer Ticks (memory_tail m a limit)"
| "memory_read (Since a s limit) m = map_answer Ticks (memory_since m a s limit)"
| "memory_read (AtOrBefore a i) m = map_answer OneTick (memory_atOrBefore m a i)"
| "memory_read (Head a) m = Inr (Sequence (memory_head m a))"
| "memory_read (Oldest a) m = Inr (Sequence (memory_oldest m a))"
| "memory_read Assets m = Inr (Names (memory_assets m))"
| "memory_read (Seams a) m = Inr (SeamRows (held (mt_seams m) a))"
| "memory_read (SeamAt a i) m = map_answer OneSeam (memory_seamAt m a i)"
| "memory_read (Frames a) m = Inr (EpochRows (held (mt_frames m) a))"
| "memory_read (FrameAt a s) m = map_answer OneEpoch (memory_frameAt m a s)"

section \<open>The abstract record\<close>

text \<open>
  What the interface promises, without the implementation: every asset has a log. A tick beyond the
  head of the log is new, one at or below it must be held as it is; a jump is a seam; the frame of a
  batch opens an epoch when it is not the one in force.
\<close>

record asset_log =
  al_ticks :: "tick list"
  al_seams :: "recorded_seam list"
  al_frames :: "lattice_epoch list"

type_synonym record_logs = "string \<Rightarrow> asset_log"

definition no_log :: asset_log where
  "no_log = \<lparr>al_ticks = [], al_seams = [], al_frames = []\<rparr>"

definition reached :: "tick list \<Rightarrow> int \<Rightarrow> bool" where
  "reached hs n \<longleftrightarrow> hs \<noteq> [] \<and> n \<le> sequence (last hs)"

fun check_held :: "tick list \<Rightarrow> tick list \<Rightarrow> unit result" where
  "check_held hs [] = Inr ()"
| "check_held hs (t # ts) =
     (case find (\<lambda>entry. sequence entry = sequence t) hs of
        None \<Rightarrow> Inl (RangeError ''no tick there to compare against'')
      | Some recorded \<Rightarrow> if recorded = t then check_held hs ts else Inl (RecordFork (sequence t)))"

fun jumps :: "string \<Rightarrow> tick option \<Rightarrow> tick list \<Rightarrow> recorded_seam list" where
  "jumps a previous [] = []"
| "jumps a previous (t # ts) =
     (case seam_after a previous t of None \<Rightarrow> [] | Some seam \<Rightarrow> [seam]) @ jumps a (Some t) ts"

definition opened :: "string \<Rightarrow> price_frame \<Rightarrow> lattice_epoch option \<Rightarrow> tick list \<Rightarrow> lattice_epoch list" where
  "opened a frame inForce ts = (if ts \<noteq> [] \<and> opens inForce frame then [epoch_at a (hd ts) frame] else [])"

definition log_append :: "asset_batch \<Rightarrow> asset_log \<Rightarrow> (asset_log \<times> tick list) result" where
  "log_append b l = (let a = ab_assetId b; hs = al_ticks l; ts = filter (\<lambda>t. \<not> reached hs (sequence t)) (ab_ticks b) in
     unless (malformedFrame (ab_frame b)) (unless (malformedBatch (ab_ticks b))
       (andThen (check_held hs (filter (\<lambda>t. reached hs (sequence t)) (ab_ticks b))) (\<lambda>_.
        Inr (\<lparr>al_ticks = hs @ ts, al_seams = al_seams l @ jumps a (last_option hs) ts,
          al_frames = al_frames l @ opened a (ab_frame b) (last_option (al_frames l)) ts\<rparr>, ts)))))"

fun logs_append ::
  "asset_batch list \<Rightarrow> record_logs \<Rightarrow> (record_logs \<times> (string \<rightharpoonup> tick list)) result" where
  "logs_append [] L = Inr (L, Map.empty)"
| "logs_append (b # bs) L = andThen (log_append b (L (ab_assetId b))) (\<lambda>(l, ts).
     andThen (logs_append bs (L(ab_assetId b := l))) (\<lambda>(L', fresh).
     Inr (L', fresh(ab_assetId b \<mapsto> ts))))"

fun spec_step :: "record_op \<Rightarrow> record_logs \<Rightarrow> (record_logs \<times> record_answer) result" where
  "spec_step (Append bs) L = unless (malformedPass (map ab_assetId bs)) (map_answer (map_prod id Fresh) (logs_append bs L))"
| "spec_step (Trim a keep) L = unless (badLimit keep)
     (Inr (L(a := (L a)\<lparr>al_ticks := drop (length (al_ticks (L a)) - nat (int_of keep)) (al_ticks (L a))\<rparr>), Done))"
| "spec_step (Declare a es replace) L = unless (malformedDeclaration a es)
     (if al_frames (L a) \<noteq> [] \<and> \<not> replace then Inl (RangeError ''declared already'')
      else Inr (L(a := (L a)\<lparr>al_frames := es\<rparr>), Done))"

fun spec_read :: "record_query \<Rightarrow> record_logs \<Rightarrow> record_reply result" where
  "spec_read (Tail a limit) L = unless (badLimit limit) (let hs = al_ticks (L a) in
     Inr (Ticks (contiguousTail (rev (drop (length hs - nat (int_of limit)) hs)))))"
| "spec_read (Since a s limit) L = unless (badLimit limit) (unless (badSequence s)
     (Inr (Ticks (take (nat (int_of limit)) (filter (\<lambda>t. int_of s \<le> sequence t) (al_ticks (L a)))))))"
| "spec_read (AtOrBefore a i) L = unless (badInstant i)
     (Inr (OneTick (last_option (filter (\<lambda>t. instant t \<le> int_of i) (al_ticks (L a))))))"
| "spec_read (Head a) L = Inr (Sequence (map_option sequence (last_option (al_ticks (L a)))))"
| "spec_read (Oldest a) L = Inr (Sequence (case al_ticks (L a) of [] \<Rightarrow> None | t # _ \<Rightarrow> Some (sequence t)))"
| "spec_read Assets L = Inr (Names (sorted_list_of_set {a. al_ticks (L a) \<noteq> []}))"
| "spec_read (Seams a) L = Inr (SeamRows (al_seams (L a)))"
| "spec_read (SeamAt a i) L = unless (badInstant i) (Inr (OneSeam
     (find (\<lambda>seam. rs_lastInstant seam < int_of i \<and> int_of i < rs_resumesAtInstant seam) (al_seams (L a)))))"
| "spec_read (Frames a) L = Inr (EpochRows (al_frames (L a)))"
| "spec_read (FrameAt a s) L = unless (badSequence s) (Inr (OneEpoch (frame_in_force (al_frames (L a)) (int_of s))))"

section \<open>Well-formed logs\<close>

text \<open>Ticks, seams and epochs ascend by sequence, and none of a log's rows speaks of a sequence beyond its head.\<close>

definition log_ok :: "string \<Rightarrow> asset_log \<Rightarrow> bool" where
  "log_ok a l \<longleftrightarrow> sorted_wrt (<) (map sequence (al_ticks l)) \<and>
     sorted_wrt (<) (map rs_resumesAtSequence (al_seams l)) \<and> epochs_ok (al_frames l) \<and>
     (\<forall>s \<in> set (al_seams l). rs_assetId s = a \<and> reached (al_ticks l) (rs_resumesAtSequence s)) \<and>
     (\<forall>e \<in> set (al_frames l). ep_assetId e = a \<and> reached (al_ticks l) (epoch_from e))"

definition logs_ok :: "record_logs \<Rightarrow> bool" where
  "logs_ok L \<longleftrightarrow> (\<forall>a. log_ok a (L a))"

text \<open>A declaration says what a range already written counted in, so it starts no epoch beyond the head.\<close>

fun allowed :: "record_op \<Rightarrow> record_logs \<Rightarrow> bool" where
  "allowed (Declare a es replace) L \<longleftrightarrow>
     list_all (\<lambda>e. reached (al_ticks (L a)) (epoch_from e)) es"
| "allowed _ L \<longleftrightarrow> True"

text \<open>Time does not go back: asked by instant, a log answers as settlement expects only then.\<close>

definition log_timely :: "asset_log \<Rightarrow> bool" where
  "log_timely l \<longleftrightarrow> sorted (map instant (al_ticks l)) \<and>
     sorted (concat (map (\<lambda>s. [rs_lastInstant s, rs_resumesAtInstant s]) (al_seams l)))"

fun timely :: "record_query \<Rightarrow> record_logs \<Rightarrow> bool" where
  "timely (AtOrBefore a i) L \<longleftrightarrow> log_timely (L a)"
| "timely (SeamAt a i) L \<longleftrightarrow> log_timely (L a)"
| "timely _ L \<longleftrightarrow> True"

lemma last_option_simps [simp]:
  "last_option [] = None" "xs \<noteq> [] \<Longrightarrow> last_option xs = Some (last xs)"
  "last_option xs = None \<longleftrightarrow> xs = []" "last_option (xs @ [x]) = Some x"
  by (simp_all add: last_option_def)

lemma unless_Inr: "unless e r = Inr x \<longleftrightarrow> e = None \<and> r = Inr x"
  by (cases e) auto

lemma le_last: "sorted_wrt (<) (map f xs) \<Longrightarrow> x \<in> set xs \<Longrightarrow> f x \<le> (f (last xs) :: int)"
  by (induction xs rule: rev_induct) (auto simp: sorted_wrt_append)

lemma log_beyond:
  "log_ok a l \<Longrightarrow> \<not> reached (al_ticks l) n \<Longrightarrow> u \<in> set (al_ticks l) \<Longrightarrow> sequence u < n"
  using le_last [of sequence "al_ticks l" u] by (auto simp: log_ok_def reached_def)

lemma jumps_append: "jumps a p (xs @ ys) = jumps a p xs @ jumps a (if xs = [] then p else Some (last xs)) ys"
  by (induction xs arbitrary: p) auto

lemma jumps_rows:
  "s \<in> set (jumps a p ts) \<Longrightarrow> rs_assetId s = a \<and> rs_resumesAtSequence s \<in> sequence ` set ts"
  by (induction ts arbitrary: p) (auto simp: seamBetween_def split: option.splits if_splits)

lemma jumps_sorted:
  "sorted_wrt (<) (map sequence ts) \<Longrightarrow> sorted_wrt (<) (map rs_resumesAtSequence (jumps a p ts))"
proof (induction ts arbitrary: p)
  case (Cons t ts)
  have "rs_resumesAtSequence s > sequence t" if "s \<in> set (jumps a (Some t) ts)" for s
    using jumps_rows [OF that] Cons.prems by auto
  with Cons show ?case by (auto simp: seamBetween_def split: option.splits if_splits)
qed simp

lemma reached_append:
  "reached hs n \<Longrightarrow> sorted_wrt (<) (map sequence (hs @ ts)) \<Longrightarrow> reached (hs @ ts) n"
  using le_last [of sequence "hs @ ts" "last hs"] by (auto simp: reached_def simp del: last_append intro: order_trans)

lemma last_reached: "sorted_wrt (<) (map sequence hs) \<Longrightarrow> t \<in> set hs \<Longrightarrow> reached hs (sequence t)"
  using le_last [of sequence hs t] by (auto simp: reached_def)

lemma opened_rows:
  "e \<in> set (opened a frame inForce ts) \<Longrightarrow> e = epoch_at a (hd ts) frame \<and> ts \<noteq> []"
  by (auto simp: opened_def split: if_splits)

lemma epoch_at_simps [simp]:
  "ep_assetId (epoch_at a t frame) = a" "epoch_from (epoch_at a t frame) = sequence t"
  "ep_fromSequence (epoch_at a t frame) = num (sequence t)"
  "malformedFrame (epoch_at a t frame) = malformedFrame frame"
  "sameFrame (epoch_at a t frame) frame = sameFrame frame frame"
  by (simp_all add: epoch_at_def epoch_from_def malformedFrame_def sameFrame_def)

lemma epochs_ok_append:
  "epochs_ok (xs @ ys) \<longleftrightarrow> epochs_ok xs \<and> epochs_ok ys \<and> (\<forall>x \<in> set xs. \<forall>y \<in> set ys. epoch_from x < epoch_from y)"
  by (auto simp: epochs_ok_def sorted_wrt_append)

lemma opened_ok: "malformedFrame frame = None \<Longrightarrow> epochs_ok (opened a frame inForce ts)"
  by (auto simp: opened_def epochs_ok_Cons)

lemma log_append_cases:
  assumes "log_append b l = Inr (l', ts)"
  shows "malformedFrame (ab_frame b) = None" "malformedBatch (ab_ticks b) = None"
    "check_held (al_ticks l) (filter (\<lambda>t. reached (al_ticks l) (sequence t)) (ab_ticks b)) = Inr ()"
    "ts = filter (\<lambda>t. \<not> reached (al_ticks l) (sequence t)) (ab_ticks b)"
    "l' = \<lparr>al_ticks = al_ticks l @ ts, al_seams = al_seams l @ jumps (ab_assetId b) (last_option (al_ticks l)) ts,
       al_frames = al_frames l @ opened (ab_assetId b) (ab_frame b) (last_option (al_frames l)) ts\<rparr>"
  using assms by (auto simp: log_append_def Let_def unless_Inr andThen_Inr_iff)

lemma log_append_ok:
  assumes "log_ok a l" "ab_assetId b = a" "log_append b l = Inr (l', ts)"
  shows "log_ok a l'"
proof -
  note c = log_append_cases [OF assms(3)]
  have ts: "sorted_wrt (<) (map sequence ts)" "\<forall>t \<in> set ts. \<not> reached (al_ticks l) (sequence t)"
    using c(2,4) by (auto simp: malformedBatch_iff intro!: sorted_wrt_filter simp flip: filter_map)
       (simp add: sorted_wrt_map sorted_wrt_filter)
  have ticks: "sorted_wrt (<) (map sequence (al_ticks l @ ts))"
    using assms(1) ts log_beyond [OF assms(1)] by (auto simp: sorted_wrt_append log_ok_def)
  have later: "n < sequence t" if "reached (al_ticks l) n" "t \<in> set ts" for n t
    using that ts(2) by (auto simp: reached_def)
  have seam: "rs_resumesAtSequence s \<in> sequence ` set ts" if "s \<in> set (jumps a p ts)" for s p
    using jumps_rows [OF that] by blast
  have frame: "\<exists>t \<in> set ts. epoch_from e = sequence t" if "e \<in> set (opened a f p ts)" for e f p
    using opened_rows [OF that] by auto
  have old: "\<forall>s \<in> set (al_seams l). reached (al_ticks l) (rs_resumesAtSequence s)"
      "\<forall>e \<in> set (al_frames l). reached (al_ticks l) (epoch_from e)"
    using assms(1) by (auto simp: log_ok_def)
  have "sorted_wrt (<) (map rs_resumesAtSequence (al_seams l @ jumps a (last_option (al_ticks l)) ts))"
    using assms(1) jumps_sorted [OF ts(1)] old(1) later seam by (fastforce simp: sorted_wrt_append log_ok_def)
  moreover have "epochs_ok (al_frames l @ opened a (ab_frame b) (last_option (al_frames l)) ts)"
    using assms(1) opened_ok [OF c(1)] old(2) later frame by (fastforce simp: epochs_ok_append log_ok_def)
  moreover have "reached (al_ticks l @ ts) n" if "reached (al_ticks l) n \<or> n \<in> sequence ` set ts" for n
    using that reached_append [OF _ ticks] last_reached [OF ticks] by auto
  ultimately show ?thesis using assms(1,2) ticks old seam frame
    by (force simp: log_ok_def c(5) dest: jumps_rows opened_rows)
qed

lemma logs_append_ok:
  "logs_ok L \<Longrightarrow> logs_append bs L = Inr (L', fresh) \<Longrightarrow> logs_ok L'"
proof (induction bs arbitrary: L fresh)
  case (Cons b bs)
  then obtain l ts fresh' where l: "log_append b (L (ab_assetId b)) = Inr (l, ts)"
      "logs_append bs (L(ab_assetId b := l)) = Inr (L', fresh')"
    by (auto simp: andThen_Inr_iff)
  have "logs_ok (L(ab_assetId b := l))" using Cons.prems(1) log_append_ok [OF _ refl l(1)] by (simp add: logs_ok_def)
  then show ?case using Cons.IH l(2) by blast
qed simp

lemma declaration_ok:
  "declaration_loop a es previous = None \<Longrightarrow> epochs_ok es \<and> (\<forall>e \<in> set es. ep_assetId e = a \<and> \<not> js_le (ep_fromSequence e) previous)"
  if "previous = NegInf \<or> previous = num p" for p
  using that
proof (induction es arbitrary: previous p)
  case (Cons e es)
  then have e: "ep_assetId e = a" "malformedFrame e = None" "isSafeInteger (ep_fromSequence e)"
      "\<not> js_le (ep_fromSequence e) previous" "declaration_loop a es (ep_fromSequence e) = None"
    by (auto split: if_splits option.splits)
  then have n: "ep_fromSequence e = num (epoch_from e)" using isSafeInteger_num by (auto simp: epoch_from_def)
  then have rest: "epochs_ok es" "\<forall>f \<in> set es. ep_assetId f = a \<and> \<not> js_le (ep_fromSequence f) (num (epoch_from e))"
    using Cons.IH [of "ep_fromSequence e" "epoch_from e"] e(5) by auto
  have "epoch_from e < epoch_from f" if "f \<in> set es" for f
  proof -
    have "ep_fromSequence f = num (epoch_from f)" using rest(1) that by (auto simp: epochs_ok_def list_all_iff)
    then show ?thesis using rest(2) that by auto
  qed
  note less = this
  moreover have "\<not> js_le (ep_fromSequence f) previous" if "f \<in> set es" for f
  proof -
    have f: "ep_fromSequence f = num (epoch_from f)" using rest(1) that by (auto simp: epochs_ok_def list_all_iff)
    have "epoch_from e < epoch_from f" using that by (rule less)
    then show ?thesis using Cons.prems(2) e(4) f n by (auto simp: num_def js_le_def js_eq_def)
  qed
  ultimately show ?case using e n rest by (auto simp: epochs_ok_Cons)
qed simp

lemma malformedDeclaration_ok:
  "malformedDeclaration a es = None \<Longrightarrow> epochs_ok es \<and> (\<forall>e \<in> set es. ep_assetId e = a)"
  using declaration_ok [of NegInf 0 a es] by (auto simp: malformedDeclaration_def split: if_splits)

lemma badLimit_pos: "badLimit k = None \<longleftrightarrow> (\<exists>n. k = num n \<and> 1 \<le> n)"
proof
  assume b: "badLimit k = None"
  then have k: "k = num (int_of k)" by (intro isInteger_num) (simp add: badLimit_def split: if_splits)
  have "\<not> js_lt k (num 1)" using b by (simp add: badLimit_def split: if_splits)
  then have "1 \<le> int_of k" by (subst (asm) k) simp
  with k show "\<exists>n. k = num n \<and> 1 \<le> n" by blast
qed (auto simp: badLimit_def)

lemma reached_drop: "reached hs n \<Longrightarrow> k < length hs \<Longrightarrow> reached (drop k hs) n"
  by (auto simp: reached_def)

lemma spec_step_ok:
  assumes "logs_ok L" "allowed op L" "spec_step op L = Inr (L', ans)"
  shows "logs_ok L'"
proof (cases op)
  case (Append bs)
  then show ?thesis using assms(3) logs_append_ok [OF assms(1)]
    by (auto simp: unless_Inr map_answer_def andThen_Inr_iff)
next
  case (Trim a keep)
  then obtain n where n: "keep = num n" "1 \<le> n" using assms(3) by (auto simp: unless_Inr badLimit_pos)
  let ?hs = "al_ticks (L a)"
  have L': "L' = L(a := (L a)\<lparr>al_ticks := drop (length ?hs - nat n) ?hs\<rparr>)"
    using assms(3) Trim n(1) by (auto simp: unless_Inr)
  have "reached (drop (length ?hs - nat n) ?hs) k" if "reached ?hs k" for k
    using that n(2) by (intro reached_drop) (auto simp: reached_def)
  moreover have "log_ok a (L a)" using assms(1) by (simp add: logs_ok_def)
  ultimately have "log_ok a ((L a)\<lparr>al_ticks := drop (length ?hs - nat n) ?hs\<rparr>)"
    by (auto simp: log_ok_def sorted_wrt_drop simp flip: drop_map)
  then show ?thesis using assms(1) by (simp add: L' logs_ok_def)
next
  case (Declare a es replace)
  then have es: "epochs_ok es" "\<forall>e \<in> set es. ep_assetId e = a" "L' = L(a := (L a)\<lparr>al_frames := es\<rparr>)"
    using assms(3) malformedDeclaration_ok [of a es] by (auto simp: unless_Inr split: if_splits)
  then have "log_ok a ((L a)\<lparr>al_frames := es\<rparr>)"
    using assms(1,2) Declare by (auto simp: log_ok_def logs_ok_def list_all_iff)
  then show ?thesis using assms(1) es(3) by (simp add: logs_ok_def)
qed

section \<open>The interface as a contract\<close>

text \<open>
  A store is a step function and a read function over a hidden state. The contract: it represents
  the logs of the assets, steps as the abstract record steps, a refusal leaving the state as it was,
  and reads what the abstract record reads.
\<close>

locale record_store =
  fixes step :: "record_op \<Rightarrow> 's \<Rightarrow> 's \<times> record_answer result"
    and read :: "record_query \<Rightarrow> 's \<Rightarrow> record_reply result"
    and log_of :: "'s \<Rightarrow> record_logs" and ready :: "'s \<Rightarrow> bool"
  assumes refuses: "ready s \<Longrightarrow> logs_ok (log_of s) \<Longrightarrow> allowed op (log_of s) \<Longrightarrow>
      spec_step op (log_of s) = Inl e \<Longrightarrow> step op s = (s, Inl e)"
    and steps: "ready s \<Longrightarrow> logs_ok (log_of s) \<Longrightarrow> allowed op (log_of s) \<Longrightarrow>
      spec_step op (log_of s) = Inr (L, ans) \<Longrightarrow> \<exists>s'. step op s = (s', Inr ans) \<and> log_of s' = L \<and> ready s'"
    and reads: "ready s \<Longrightarrow> logs_ok (log_of s) \<Longrightarrow> timely q (log_of s) \<Longrightarrow> read q s = spec_read q (log_of s)"
begin

abbreviation sound :: "'s \<Rightarrow> bool" where
  "sound s \<equiv> ready s \<and> logs_ok (log_of s)"

lemma step_spec:
  assumes "sound s" "allowed op (log_of s)" "step op s = (s', r)"
  shows "sound s' \<and> (case r of Inl e \<Rightarrow> s' = s \<and> spec_step op (log_of s) = Inl e
    | Inr ans \<Rightarrow> spec_step op (log_of s) = Inr (log_of s', ans))"
proof (cases "spec_step op (log_of s)")
  case (Inl e)
  then show ?thesis using refuses assms by fastforce
next
  case (Inr La)
  obtain L ans where La: "La = (L, ans)" by fastforce
  with Inr obtain s'' where "step op s = (s'', Inr ans)" "log_of s'' = L" "ready s''" using steps assms(1,2) by blast
  moreover have "logs_ok L" using spec_step_ok assms(1,2) Inr La by blast
  ultimately show ?thesis using assms(3) Inr La by simp
qed

end

section \<open>The record in memory keeps the contract\<close>

definition memory_logs :: "memory_record \<Rightarrow> record_logs" where
  "memory_logs m a = \<lparr>al_ticks = held (mt_ticks m) a, al_seams = held (mt_seams m) a, al_frames = held (mt_frames m) a\<rparr>"

definition memory_ready :: "memory_record \<Rightarrow> bool" where
  "memory_ready m \<longleftrightarrow> distinct (map fst (mt_ticks m))"

lemma held_update [simp]: "held (AList.update a xs m) b = (if b = a then xs else held m b)"
  by (auto simp: held_def update_conv')

lemma memory_logs_sel [simp]:
  "al_ticks (memory_logs m a) = held (mt_ticks m) a" "al_seams (memory_logs m a) = held (mt_seams m) a"
  "al_frames (memory_logs m a) = held (mt_frames m) a"
  by (simp_all add: memory_logs_def)

lemma memory_ticks_eq:
  assumes "malformedFrame frame = None"
  shows "memory_ticks a frame hs ts inForce previous g =
    andThen (check_held hs (filter (\<lambda>t. reached hs (sequence t)) ts)) (\<lambda>_.
      let fs = filter (\<lambda>t. \<not> reached hs (sequence t)) ts in
      Inr (g\<lparr>sg_added := sg_added g @ fs, sg_seams := sg_seams g @ jumps a previous fs,
        sg_epochs := sg_epochs g @ opened a frame inForce fs\<rparr>))"
proof (induction ts arbitrary: inForce previous g)
  case (Cons t ts)
  have same: "sameFrame frame frame" using well_formed_frame [OF assms] by simp
  show ?case
  proof (cases "reached hs (sequence t)")
    case True
    then show ?thesis using Cons by (auto simp: reached_def sameTick_eq split: option.splits)
  next
    case False
    then have "memory_ticks a frame hs (t # ts) inForce previous g =
       memory_ticks a frame hs ts (if opens inForce frame then Some (epoch_at a t frame) else inForce) (Some t)
         (g\<lparr>sg_added := sg_added g @ [t], sg_seams := sg_seams g @ (case seam_after a previous t of None \<Rightarrow> [] | Some s \<Rightarrow> [s]),
           sg_epochs := sg_epochs g @ (if opens inForce frame then [epoch_at a t frame] else [])\<rparr>)"
      by (cases g) (auto simp: reached_def Let_def split: option.split)
    also have "\<dots> = andThen (check_held hs (filter (\<lambda>t. reached hs (sequence t)) ts)) (\<lambda>_.
      let fs = filter (\<lambda>t. \<not> reached hs (sequence t)) (t # ts) in
      Inr (g\<lparr>sg_added := sg_added g @ fs, sg_seams := sg_seams g @ jumps a previous fs,
        sg_epochs := sg_epochs g @ opened a frame inForce fs\<rparr>))"
      using False same by (cases g) (auto simp: Cons.IH Let_def opened_def split: option.split)
    finally show ?thesis using False by simp
  qed
qed (simp add: opened_def)

lemma put_seams:
  "sorted_wrt (<) (map rs_resumesAtSequence (hs @ ss)) \<Longrightarrow> fold put_seam ss hs = hs @ ss"
proof (induction ss arbitrary: hs)
  case (Cons s ss)
  have "put_seam s hs = hs @ [s]" if "\<forall>h \<in> set hs. rs_resumesAtSequence h < rs_resumesAtSequence s"
    using that by (induction hs) auto
  moreover have "\<forall>h \<in> set hs. rs_resumesAtSequence h < rs_resumesAtSequence s"
    using Cons.prems by (auto simp: sorted_wrt_append)
  ultimately show ?case using Cons.IH [of "hs @ [s]"] Cons.prems by simp
qed simp

lemma memory_apply_logs:
  assumes "log_append b (memory_logs m (ab_assetId b)) = Inr (l, ts)" "log_ok (ab_assetId b) l"
    and "g = \<lparr>sg_asset = ab_assetId b, sg_added = ts,
      sg_seams = jumps (ab_assetId b) (last_option (held (mt_ticks m) (ab_assetId b))) ts,
      sg_epochs = opened (ab_assetId b) (ab_frame b) (last_option (held (mt_frames m) (ab_assetId b))) ts\<rparr>"
  shows "memory_logs (memory_apply g m) = (memory_logs m)(ab_assetId b := l)"
    "memory_ready m \<Longrightarrow> memory_ready (memory_apply g m)"
proof -
  note l = log_append_cases(5) [OF assms(1), unfolded memory_logs_sel]
  have "sorted_wrt (<) (map rs_resumesAtSequence (al_seams l))" "epochs_ok (al_frames l)"
    using assms(2) by (simp_all add: log_ok_def)
  then have "fold put_seam (sg_seams g) (held (mt_seams m) (ab_assetId b)) = al_seams l"
    "sort_key rs_resumesAtSequence (al_seams l) = al_seams l" "sort_key epoch_from (al_frames l) = al_frames l"
    using put_seams [of "held (mt_seams m) (ab_assetId b)" "sg_seams g"]
    by (simp_all add: l assms(3) sort_key_id_if_sorted strict_sorted_imp_sorted epochs_ok_def)
  then show "memory_logs (memory_apply g m) = (memory_logs m)(ab_assetId b := l)"
    by (auto simp: memory_apply_def assms(3) l memory_logs_def fun_eq_iff)
  show "memory_ready m \<Longrightarrow> memory_ready (memory_apply g m)"
    by (simp add: memory_ready_def memory_apply_def distinct_update)
qed

lemma memory_stage_eq:
  "memory_stage m b = (case log_append b (memory_logs m (ab_assetId b)) of Inl e \<Rightarrow> Inl e
     | Inr (l, ts) \<Rightarrow> Inr \<lparr>sg_asset = ab_assetId b, sg_added = ts,
      sg_seams = jumps (ab_assetId b) (last_option (held (mt_ticks m) (ab_assetId b))) ts,
      sg_epochs = opened (ab_assetId b) (ab_frame b) (last_option (held (mt_frames m) (ab_assetId b))) ts\<rparr>)"
proof (cases "malformedFrame (ab_frame b)")
  case None
  then show ?thesis
    by (cases "malformedBatch (ab_ticks b)"; cases "check_held (held (mt_ticks m) (ab_assetId b))
        (filter (\<lambda>t. reached (held (mt_ticks m) (ab_assetId b)) (sequence t)) (ab_ticks b))")
      (simp_all add: memory_stage_def log_append_def Let_def memory_ticks_eq)
qed (simp add: memory_stage_def log_append_def Let_def)

lemma memory_stage_cong:
  assumes "memory_logs m a = memory_logs m' a" "ab_assetId b = a"
  shows "memory_stage m b = memory_stage m' b"
proof -
  have "held (mt_ticks m) a = held (mt_ticks m') a" "held (mt_frames m) a = held (mt_frames m') a"
    using assms(1) by (simp_all add: memory_logs_def)
  then show ?thesis by (simp add: memory_stage_def assms(2) Let_def)
qed

lemma memory_passes:
  assumes "distinct (map ab_assetId bs)" "memory_ready m'" "logs_ok (memory_logs m')"
    and "\<And>b. b \<in> set bs \<Longrightarrow> memory_logs m (ab_assetId b) = memory_logs m' (ab_assetId b)"
  shows "case logs_append bs (memory_logs m') of Inl e \<Rightarrow> memory_stages m bs = Inl e
    | Inr (L, fresh) \<Rightarrow> \<exists>gs. memory_stages m bs = Inr gs \<and> map_of (map (\<lambda>g. (sg_asset g, sg_added g)) gs) = fresh \<and>
        memory_logs (fold memory_apply gs m') = L \<and> memory_ready (fold memory_apply gs m')"
  using assms
proof (induction bs arbitrary: m')
  case (Cons b bs)
  let ?a = "ab_assetId b"
  have same: "memory_stage m b = memory_stage m' b" 
    by (rule memory_stage_cong [OF Cons.prems(4) refl]) simp
  show ?case
  proof (cases "log_append b (memory_logs m' ?a)")
    case (Inl e)
    then have "memory_stage m b = Inl e" unfolding same by (simp add: memory_stage_eq)
    then show ?thesis using Inl by simp
  next
    case (Inr lts)
    obtain l ts where lts: "lts = (l, ts)" by fastforce
    with Inr same obtain g where g: "memory_stage m b = Inr g" "sg_asset g = ?a" "sg_added g = ts"
        "memory_logs (memory_apply g m') = (memory_logs m')(?a := l)" "memory_ready (memory_apply g m')"
    proof -
      have append: "log_append b (memory_logs m' ?a) = Inr (l, ts)" using Inr lts by simp
      moreover have "log_ok ?a l" using Cons.prems(3) log_append_ok [OF _ refl append] by (simp add: logs_ok_def)
      ultimately show ?thesis using that memory_apply_logs [of b m' l ts] Cons.prems(2) same
        by (fastforce simp: memory_stage_eq [of m'])
    qed
    have d: "distinct (map ab_assetId bs)" using Cons.prems(1) by simp
    have lo: "logs_ok (memory_logs (memory_apply g m'))"
      using Cons.prems(3) Inr lts g(4) log_append_ok [of ?a "memory_logs m' ?a" b l ts] by (simp add: logs_ok_def)
    have ag: "memory_logs m (ab_assetId c) = memory_logs (memory_apply g m') (ab_assetId c)" if "c \<in> set bs" for c
    proof -
      have "ab_assetId c \<noteq> ?a" using Cons.prems(1) image_eqI [OF refl that, of ab_assetId] by auto
      then show ?thesis using Cons.prems(4) [of c] that g(4) by simp
    qed
    have "case logs_append bs ((memory_logs m')(?a := l)) of Inl e \<Rightarrow> memory_stages m bs = Inl e
      | Inr (L, fresh) \<Rightarrow> \<exists>gs. memory_stages m bs = Inr gs \<and> map_of (map (\<lambda>g. (sg_asset g, sg_added g)) gs) = fresh \<and>
          memory_logs (fold memory_apply gs (memory_apply g m')) = L \<and> memory_ready (fold memory_apply gs (memory_apply g m'))"
      using Cons.IH [OF d g(5) lo ag] unfolding g(4) .
    then show ?thesis
      by (cases "logs_append bs ((memory_logs m')(?a := l))") (auto simp: Inr lts g(1-3))
  qed
qed simp

lemma latest_until_sorted:
  "sorted (map instant ts) \<Longrightarrow> latest_until i ts found =
     (case last_option (filter (\<lambda>t. instant t \<le> i) ts) of None \<Rightarrow> found | Some t \<Rightarrow> Some t)"
proof (induction ts arbitrary: found)
  case (Cons t ts)
  have "filter (\<lambda>t. instant t \<le> i) ts = []" if "i < instant t"
    using that Cons.prems by (auto simp: filter_empty_conv)
  with Cons show ?case by (auto simp: last_option_def split: option.splits)
qed simp

lemma frameAt_eq:
  "epochs_ok es \<Longrightarrow> unless (badSequence s) (Inr (frameAtOrBefore es s)) =
     unless (badSequence s) (Inr (frame_in_force es (int_of s)))"
  using isInteger_num [of s] frameAtOrBefore_in_force [of es "int_of s"]
  by (cases "badSequence s") (auto simp: badSequence_def split: if_splits)

lemma map_answer_unless [simp]: "map_answer f (unless e r) = unless e (map_answer f r)"
  by (cases e) (simp_all add: map_answer_def)

lemma map_answer_Inr [simp]: "map_answer f (Inr x) = Inr (f x)"
  by (simp add: map_answer_def)

lemma map_answer_Inl [simp]: "map_answer f (Inl x) = Inl x"
  by (simp add: map_answer_def)

lemma memory_assets_eq:
  assumes "memory_ready m"
  shows "memory_assets m = sorted_list_of_set {a. held (mt_ticks m) a \<noteq> []}"
proof -
  have "distinct (filter (\<lambda>a. held (mt_ticks m) a \<noteq> []) (map fst (mt_ticks m)))"
    using assms by (simp add: memory_ready_def)
  moreover have "set (filter (\<lambda>a. held (mt_ticks m) a \<noteq> []) (map fst (mt_ticks m))) = {a. held (mt_ticks m) a \<noteq> []}"
    by (auto simp: held_def split: option.splits dest: map_of_SomeD) (force simp: map_of_eq_None_iff dest: map_of_SomeD)+
  ultimately show ?thesis
    by (metis memory_assets_def sorted_list_of_set_sort_remdups distinct_remdups_id)
qed

lemma memory_reads:
  assumes "memory_ready m" "logs_ok (memory_logs m)" "timely q (memory_logs m)"
  shows "memory_read q m = spec_read q (memory_logs m)"
proof -
  have ok: "epochs_ok (held (mt_frames m) a)" for a using assms(2) by (simp add: logs_ok_def log_ok_def)
  show ?thesis
  proof (cases q)
    case (AtOrBefore a i)
    then show ?thesis using assms(3) latest_until_sorted [of "held (mt_ticks m) a"]
      by (simp add: memory_atOrBefore_def log_timely_def last_option_def)
  next
    case (FrameAt a s)
    have "map_answer OneEpoch (unless (badSequence s) (Inr (frameAtOrBefore (held (mt_frames m) a) s))) =
        map_answer OneEpoch (unless (badSequence s) (Inr (frame_in_force (held (mt_frames m) a) (int_of s))))"
      by (simp only: frameAt_eq [OF ok])
    with FrameAt show ?thesis by (simp add: memory_frameAt_def)
  qed (auto simp: memory_tail_def memory_since_def memory_head_def memory_oldest_def memory_assets_eq [OF assms(1)]
      memory_seamAt_def Let_def split: list.splits)
qed

lemma malformedPass_distinct: "malformedPass as = None \<longleftrightarrow> distinct as"
proof -
  have "malformedPass_loop as seen = None \<longleftrightarrow> distinct as \<and> set as \<inter> seen = {}" for seen
    by (induction as arbitrary: seen) auto
  then show ?thesis by (simp add: malformedPass_def)
qed

lemma memory_steps:
  assumes "memory_ready m" "logs_ok (memory_logs m)"
  shows "case spec_step op (memory_logs m) of Inl e \<Rightarrow> memory_step op m = (m, Inl e)
    | Inr (L, ans) \<Rightarrow> \<exists>m'. memory_step op m = (m', Inr ans) \<and> memory_logs m' = L \<and> memory_ready m'"
proof (cases op)
  case (Append bs)
  show ?thesis
  proof (cases "malformedPass (map ab_assetId bs)")
    case None
    then have "distinct (map ab_assetId bs)" by (simp add: malformedPass_distinct)
    from memory_passes [OF this assms refl] show ?thesis using Append None
      by (cases "logs_append bs (memory_logs m)") (auto simp: memory_append_def)
  qed (simp add: Append memory_append_def)
next
  case (Trim a keep)
  show ?thesis
  proof (cases "badLimit keep")
    case None
    have "memory_logs (if nat (int_of keep) < length (held (mt_ticks m) a)
        then m\<lparr>mt_ticks := AList.update a (drop (length (held (mt_ticks m) a) - nat (int_of keep)) (held (mt_ticks m) a)) (mt_ticks m)\<rparr>
        else m) = (memory_logs m)(a := (memory_logs m a)\<lparr>al_ticks :=
          drop (length (held (mt_ticks m) a) - nat (int_of keep)) (held (mt_ticks m) a)\<rparr>)"
      by (auto simp: memory_logs_def fun_eq_iff)
    then show ?thesis using Trim None assms(1)
      by (auto simp: memory_trim_def Let_def memory_ready_def distinct_update)
  qed (simp add: Trim memory_trim_def)
next
  case (Declare a es replace)
  show ?thesis
  proof (cases "malformedDeclaration a es")
    case None
    then have "epochs_ok es" using malformedDeclaration_ok by blast
    then have "sort_key epoch_from es = es"
      by (simp add: epochs_ok_def sort_key_id_if_sorted strict_sorted_imp_sorted)
    then have "memory_logs (m\<lparr>mt_frames := AList.update a (sort_key epoch_from es) (mt_frames m)\<rparr>) =
        (memory_logs m)(a := (memory_logs m a)\<lparr>al_frames := es\<rparr>)"
      by (auto simp: memory_logs_def fun_eq_iff)
    then show ?thesis using Declare None assms(1) by (auto simp: memory_declare_def memory_ready_def)
  qed (simp add: Declare memory_declare_def)
qed

interpretation memory: record_store memory_step memory_read memory_logs memory_ready
proof
  fix m op e
  assume "memory_ready m" "logs_ok (memory_logs m)" "spec_step op (memory_logs m) = Inl e"
  then show "memory_step op m = (m, Inl e)" using memory_steps [of m op] by simp
next
  fix m op L ans
  assume "memory_ready m" "logs_ok (memory_logs m)" "spec_step op (memory_logs m) = Inr (L, ans)"
  then show "\<exists>m'. memory_step op m = (m', Inr ans) \<and> memory_logs m' = L \<and> memory_ready m'"
    using memory_steps [of m op] by simp
qed (rule memory_reads)

section \<open>The newest contiguous run\<close>

lemma tail_run_split:
  "consecutive (map sequence run) \<Longrightarrow> \<exists>older. rev newestFirst @ run = older @ tail_run newestFirst run \<and>
     consecutive (map sequence (tail_run newestFirst run)) \<and>
     (older \<noteq> [] \<longrightarrow> tail_run newestFirst run \<noteq> [] \<and>
       sequence (hd (tail_run newestFirst run)) \<noteq> sequence (last older) + 1)"
proof (induction newestFirst run rule: tail_run.induct)
  case (2 t newestFirst run)
  show ?case
  proof (cases "run \<noteq> [] \<and> sequence t \<noteq> sequence (hd run) - 1")
    case True
    then show ?thesis using 2(2) by (intro exI [of _ "rev newestFirst @ [t]"]) auto
  next
    case False
    then have "consecutive (map sequence (t # run))" using 2(2) by (cases run) auto
    moreover have eq: "tail_run (t # newestFirst) run = tail_run newestFirst (t # run)" using False by auto
    ultimately show ?thesis unfolding eq using 2(1) [OF False] by simp
  qed
qed auto

text \<open>The tail answered is the longest gapless end of the ticks read: the tick before it does not continue into it.\<close>

lemma contiguousTail_longest:
  obtains older where "ts = older @ contiguousTail (rev ts)" "consecutive (map sequence (contiguousTail (rev ts)))"
    "older \<noteq> [] \<Longrightarrow> sequence (hd (contiguousTail (rev ts))) \<noteq> sequence (last older) + 1"
  using tail_run_split [of "[]" "rev ts"] by (auto simp: contiguousTail_def)

end
