(* ===== verification/SqliteRecord.thy ===== *)
theory SqliteRecord
  imports TickRecord
begin

text \<open>
  The published record in SQLite: class \<open>SqliteTickRecord\<close> of packages/runtime/src/tickRecord.ts. A
  table is the list of its rows in no particular order; each prepared statement is the function its
  SQL text says, ordering and limits included, and a primary key refuses, ignores or replaces as the
  statement asks. A transaction that throws leaves the tables as they were. Rows hold values of the
  branded types the code writes, so the conversions of a row read back are identities. Limits are
  taken below the range in which SQLite binds a Number as an integer.
\<close>

section \<open>Tables and statements\<close>

record sqlite_record =
  db_readOnly :: bool
  db_version :: int
  db_tick :: "(string \<times> tick) list"
  db_seam :: "recorded_seam list option"
  db_lattice :: "lattice_epoch list option"

definition rows :: "sqlite_record \<Rightarrow> string \<Rightarrow> tick list" where
  "rows db a = map snd (filter (\<lambda>r. fst r = a) (db_tick db))"

definition rows_by_sequence :: "sqlite_record \<Rightarrow> string \<Rightarrow> tick list" where
  "rows_by_sequence db a = sort_key sequence (rows db a)"

definition insert_tick :: "string \<Rightarrow> tick \<Rightarrow> sqlite_record \<Rightarrow> sqlite_record result" where
  "insert_tick a t db =
     (if \<exists>u \<in> set (rows db a). sequence u = sequence t then Inl (StoreErr ''UNIQUE constraint'')
      else Inr (db\<lparr>db_tick := db_tick db @ [(a, t)]\<rparr>))"

definition read_at :: "sqlite_record \<Rightarrow> string \<Rightarrow> int \<Rightarrow> tick option" where
  "read_at db a s = find (\<lambda>t. sequence t = s) (rows db a)"

definition read_since :: "sqlite_record \<Rightarrow> string \<Rightarrow> int \<Rightarrow> nat \<Rightarrow> tick list" where
  "read_since db a s limit = take limit (filter (\<lambda>t. s \<le> sequence t) (rows_by_sequence db a))"

definition read_newest :: "sqlite_record \<Rightarrow> string \<Rightarrow> nat \<Rightarrow> tick list" where
  "read_newest db a limit = take limit (rev (rows_by_sequence db a))"

text \<open>\<^verbatim>\<open>ORDER BY instant DESC, sequence DESC LIMIT 1\<close>: a stable sort by the second key, then the first.\<close>

definition read_at_or_before :: "sqlite_record \<Rightarrow> string \<Rightarrow> int \<Rightarrow> tick option" where
  "read_at_or_before db a i =
     last_option (sort_key instant (sort_key sequence (filter (\<lambda>t. instant t \<le> i) (rows db a))))"

definition head_of :: "sqlite_record \<Rightarrow> string \<Rightarrow> int option" where
  "head_of db a = (if rows db a = [] then None else Some (Max (sequence ` set (rows db a))))"

definition oldest_of :: "sqlite_record \<Rightarrow> string \<Rightarrow> int option" where
  "oldest_of db a = (if rows db a = [] then None else Some (Min (sequence ` set (rows db a))))"

definition count_of :: "sqlite_record \<Rightarrow> string \<Rightarrow> nat" where
  "count_of db a = length (rows db a)"

definition nth_newest :: "sqlite_record \<Rightarrow> string \<Rightarrow> nat \<Rightarrow> int option" where
  "nth_newest db a n = (let ss = rev (sort (map sequence (rows db a))) in if n < length ss then Some (ss ! n) else None)"

definition delete_below :: "string \<Rightarrow> int \<Rightarrow> sqlite_record \<Rightarrow> sqlite_record" where
  "delete_below a s db = db\<lparr>db_tick := filter (\<lambda>(b, t). \<not> (b = a \<and> sequence t < s)) (db_tick db)\<rparr>"

definition read_assets :: "sqlite_record \<Rightarrow> string list" where
  "read_assets db = sort (remdups (map fst (db_tick db)))"

abbreviation seam_rows :: "sqlite_record \<Rightarrow> recorded_seam list" where
  "seam_rows db \<equiv> (case db_seam db of None \<Rightarrow> [] | Some ss \<Rightarrow> ss)"

abbreviation lattice_rows :: "sqlite_record \<Rightarrow> lattice_epoch list" where
  "lattice_rows db \<equiv> (case db_lattice db of None \<Rightarrow> [] | Some es \<Rightarrow> es)"

definition or_replace :: "recorded_seam \<Rightarrow> recorded_seam list \<Rightarrow> recorded_seam list" where
  "or_replace s ss = filter (\<lambda>r. \<not> (rs_assetId r = rs_assetId s \<and> rs_resumesAtSequence r = rs_resumesAtSequence s)) ss @ [s]"

definition insert_seam :: "recorded_seam \<Rightarrow> sqlite_record \<Rightarrow> sqlite_record" where
  "insert_seam s db = db\<lparr>db_seam := Some (or_replace s (seam_rows db))\<rparr>"

definition insert_lattice :: "lattice_epoch \<Rightarrow> sqlite_record \<Rightarrow> sqlite_record" where
  "insert_lattice e db = db\<lparr>db_lattice := Some (
     if \<exists>r \<in> set (lattice_rows db). ep_assetId r = ep_assetId e \<and> ep_fromSequence r = ep_fromSequence e
     then lattice_rows db else lattice_rows db @ [e])\<rparr>"

definition delete_lattice :: "string \<Rightarrow> sqlite_record \<Rightarrow> sqlite_record" where
  "delete_lattice a db = db\<lparr>db_lattice := Some (filter (\<lambda>r. ep_assetId r \<noteq> a) (lattice_rows db))\<rparr>"

definition read_seams :: "sqlite_record \<Rightarrow> string \<Rightarrow> recorded_seam list" where
  "read_seams db a = sort_key rs_resumesAtSequence (filter (\<lambda>r. rs_assetId r = a) (seam_rows db))"

definition read_seam_at :: "sqlite_record \<Rightarrow> string \<Rightarrow> int \<Rightarrow> recorded_seam option" where
  "read_seam_at db a i =
     find (\<lambda>r. rs_assetId r = a \<and> rs_lastInstant r < i \<and> i < rs_resumesAtInstant r) (seam_rows db)"

definition read_lattices :: "sqlite_record \<Rightarrow> string \<Rightarrow> lattice_epoch list" where
  "read_lattices db a = sort_key epoch_from (filter (\<lambda>r. ep_assetId r = a) (lattice_rows db))"

section \<open>Opening a file\<close>

text \<open>A file has a version and the tables a build of that version made.\<close>

record record_file =
  rf_version :: int
  rf_tick :: "(string \<times> tick) list option"
  rf_seam :: "recorded_seam list option"
  rf_lattice :: "lattice_epoch list option"

definition RECORD_SCHEMA_VERSION :: int where
  "RECORD_SCHEMA_VERSION = 3"

text \<open>The jumps between neighbouring rows of an asset, which \<^verbatim>\<open>LEAD\<close> reads out of the ordered table.\<close>

definition backfill :: "(string \<times> tick) list \<Rightarrow> recorded_seam list" where
  "backfill ticks = concat (map (\<lambda>a. jumps a None (sort_key sequence (map snd (filter (\<lambda>r. fst r = a) ticks))))
     (remdups (map fst ticks)))"

definition new_SqliteTickRecord :: "record_file \<Rightarrow> bool \<Rightarrow> sqlite_record result" where
  "new_SqliteTickRecord file readOnly =
     (if RECORD_SCHEMA_VERSION < rf_version file then Inl (StoreErr ''newer schema'')
      else if readOnly then
        (case rf_tick file of None \<Rightarrow> Inl (StoreErr ''no such table'')
         | Some ts \<Rightarrow> Inr \<lparr>db_readOnly = True, db_version = rf_version file, db_tick = ts,
             db_seam = rf_seam file, db_lattice = rf_lattice file\<rparr>)
      else
        let ts = (case rf_tick file of None \<Rightarrow> [] | Some ts \<Rightarrow> ts);
            ss = (case rf_seam file of None \<Rightarrow> [] | Some ss \<Rightarrow> ss) in
        Inr \<lparr>db_readOnly = False, db_version = RECORD_SCHEMA_VERSION, db_tick = ts,
          db_seam = Some (if rf_version file < RECORD_SCHEMA_VERSION then fold or_replace (backfill ts) ss else ss),
          db_lattice = Some (case rf_lattice file of None \<Rightarrow> [] | Some es \<Rightarrow> es)\<rparr>)"

definition fresh_file :: record_file where
  "fresh_file = \<lparr>rf_version = 0, rf_tick = None, rf_seam = None, rf_lattice = None\<rparr>"

section \<open>The operations\<close>

fun sqlite_ticks ::
  "string \<Rightarrow> price_frame \<Rightarrow> int option \<Rightarrow> tick list \<Rightarrow> lattice_epoch option \<Rightarrow> tick option \<Rightarrow>
     sqlite_record \<Rightarrow> tick list \<Rightarrow> (sqlite_record \<times> tick list) result" where
  "sqlite_ticks a frame head [] inForce previous db added = Inr (db, added)"
| "sqlite_ticks a frame head (t # ts) inForce previous db added =
     (if head \<noteq> None \<and> sequence t \<le> the head then
        (case read_at db a (sequence t) of
           None \<Rightarrow> Inl (RangeError ''no tick there to compare against'')
         | Some recorded \<Rightarrow>
             if \<not> sameTick recorded t then Inl (RecordFork (sequence t))
             else sqlite_ticks a frame head ts inForce previous db added)
      else
        andThen (insert_tick a t db) (\<lambda>db1.
        let db2 = (if opens inForce frame then insert_lattice (epoch_at a t frame) db1 else db1);
            db3 = (case seam_after a previous t of None \<Rightarrow> db2 | Some seam \<Rightarrow> insert_seam seam db2) in
        sqlite_ticks a frame head ts (if opens inForce frame then Some (epoch_at a t frame) else inForce) (Some t)
          db3 (added @ [t])))"

definition sqlite_frames :: "sqlite_record \<Rightarrow> string \<Rightarrow> lattice_epoch list" where
  "sqlite_frames db a = (if db_lattice db = None then [] else read_lattices db a)"

definition sqlite_batch ::
  "asset_batch \<Rightarrow> sqlite_record \<times> (string \<rightharpoonup> tick list) \<Rightarrow> (sqlite_record \<times> (string \<rightharpoonup> tick list)) result" where
  "sqlite_batch b s = (case s of (db, fresh) \<Rightarrow>
     unless (malformedFrame (ab_frame b))
       (if ab_ticks b = [] then Inr (db, fresh(ab_assetId b \<mapsto> []))
        else unless (malformedBatch (ab_ticks b))
          (let a = ab_assetId b; head = head_of db a in
           andThen (sqlite_ticks a (ab_frame b) head (ab_ticks b) (last_option (sqlite_frames db a))
               (case head of None \<Rightarrow> None | Some h \<Rightarrow> read_at db a h) db [])
             (\<lambda>(db', added). Inr (db', fresh(a \<mapsto> added))))))"

definition sqlite_append ::
  "asset_batch list \<Rightarrow> sqlite_record \<Rightarrow> sqlite_record \<times> (string \<rightharpoonup> tick list) result" where
  "sqlite_append bs db =
     (if db_readOnly db then (db, Inl (RangeError ''opened read-only''))
      else case unless (malformedPass (map ab_assetId bs)) (foldE sqlite_batch bs (db, Map.empty)) of
        Inl e \<Rightarrow> (db, Inl e)
      | Inr (db', fresh) \<Rightarrow> (db', Inr fresh))"

definition sqlite_trim :: "string \<Rightarrow> jsnum \<Rightarrow> sqlite_record \<Rightarrow> sqlite_record \<times> unit result" where
  "sqlite_trim a keep db =
     (case badLimit keep of Some e \<Rightarrow> (db, Inl e)
      | None \<Rightarrow>
          if count_of db a \<le> nat (int_of keep) then (db, Inr ())
          else case nth_newest db a (nat (int_of keep) - 1) of
            None \<Rightarrow> (db, Inr ())
          | Some s \<Rightarrow> (delete_below a s db, Inr ()))"

definition sqlite_declare ::
  "string \<Rightarrow> lattice_epoch list \<Rightarrow> bool \<Rightarrow> sqlite_record \<Rightarrow> sqlite_record \<times> unit result" where
  "sqlite_declare a epochs replace db =
     (if db_readOnly db then (db, Inl (RangeError ''opened read-only''))
      else case malformedDeclaration a epochs of Some e \<Rightarrow> (db, Inl e)
      | None \<Rightarrow>
          if sqlite_frames db a \<noteq> [] \<and> \<not> replace then (db, Inl (RangeError ''declared already''))
          else (fold insert_lattice epochs (if replace then delete_lattice a db else db), Inr ()))"

definition sqlite_tail :: "sqlite_record \<Rightarrow> string \<Rightarrow> jsnum \<Rightarrow> tick list result" where
  "sqlite_tail db a limit = unless (badLimit limit) (Inr (contiguousTail (read_newest db a (nat (int_of limit)))))"

definition sqlite_since :: "sqlite_record \<Rightarrow> string \<Rightarrow> jsnum \<Rightarrow> jsnum \<Rightarrow> tick list result" where
  "sqlite_since db a s limit = unless (badLimit limit) (unless (badSequence s)
     (Inr (read_since db a (int_of s) (nat (int_of limit)))))"

definition sqlite_atOrBefore :: "sqlite_record \<Rightarrow> string \<Rightarrow> jsnum \<Rightarrow> tick option result" where
  "sqlite_atOrBefore db a i = unless (badInstant i) (Inr (read_at_or_before db a (int_of i)))"

definition sqlite_seams :: "sqlite_record \<Rightarrow> string \<Rightarrow> recorded_seam list" where
  "sqlite_seams db a = (if db_seam db = None then [] else read_seams db a)"

text \<open>The statement is prepared only when the table is there: without it \<^verbatim>\<open>get\<close> is called on undefined.\<close>

definition sqlite_seamAt :: "sqlite_record \<Rightarrow> string \<Rightarrow> jsnum \<Rightarrow> recorded_seam option result" where
  "sqlite_seamAt db a i = unless (badInstant i)
     (if db_seam db = None then Inl (TypeError ''undefined'') else Inr (read_seam_at db a (int_of i)))"

definition sqlite_frameAt :: "sqlite_record \<Rightarrow> string \<Rightarrow> jsnum \<Rightarrow> lattice_epoch option result" where
  "sqlite_frameAt db a s = unless (badSequence s) (Inr (frameAtOrBefore (sqlite_frames db a) s))"

fun sqlite_step :: "record_op \<Rightarrow> sqlite_record \<Rightarrow> sqlite_record \<times> record_answer result" where
  "sqlite_step (Append bs) db = map_prod id (map_answer Fresh) (sqlite_append bs db)"
| "sqlite_step (Trim a keep) db = map_prod id (map_answer (\<lambda>_. Done)) (sqlite_trim a keep db)"
| "sqlite_step (Declare a es r) db = map_prod id (map_answer (\<lambda>_. Done)) (sqlite_declare a es r db)"

fun sqlite_read :: "record_query \<Rightarrow> sqlite_record \<Rightarrow> record_reply result" where
  "sqlite_read (Tail a limit) db = map_answer Ticks (sqlite_tail db a limit)"
| "sqlite_read (Since a s limit) db = map_answer Ticks (sqlite_since db a s limit)"
| "sqlite_read (AtOrBefore a i) db = map_answer OneTick (sqlite_atOrBefore db a i)"
| "sqlite_read (Head a) db = Inr (Sequence (head_of db a))"
| "sqlite_read (Oldest a) db = Inr (Sequence (oldest_of db a))"
| "sqlite_read Assets db = Inr (Names (read_assets db))"
| "sqlite_read (Seams a) db = Inr (SeamRows (sqlite_seams db a))"
| "sqlite_read (SeamAt a i) db = map_answer OneSeam (sqlite_seamAt db a i)"
| "sqlite_read (Frames a) db = Inr (EpochRows (sqlite_frames db a))"
| "sqlite_read (FrameAt a s) db = map_answer OneEpoch (sqlite_frameAt db a s)"

section \<open>What the statements do to the logs\<close>

definition sqlite_logs :: "sqlite_record \<Rightarrow> record_logs" where
  "sqlite_logs db a = \<lparr>al_ticks = rows_by_sequence db a, al_seams = read_seams db a, al_frames = read_lattices db a\<rparr>"

definition sqlite_ready :: "sqlite_record \<Rightarrow> bool" where
  "sqlite_ready db \<longleftrightarrow> \<not> db_readOnly db \<and> db_seam db \<noteq> None \<and> db_lattice db \<noteq> None"

lemma sqlite_logs_sel [simp]:
  "al_ticks (sqlite_logs db a) = rows_by_sequence db a" "al_seams (sqlite_logs db a) = read_seams db a"
  "al_frames (sqlite_logs db a) = read_lattices db a"
  by (simp_all add: sqlite_logs_def)

lemma insort_key_snoc: "f x \<le> f y \<Longrightarrow> insort_key f x (zs @ [y]) = insort_key f x zs @ [y]"
  by (induction zs) auto

lemma sort_key_snoc: "(\<And>x. x \<in> set xs \<Longrightarrow> f x \<le> f y) \<Longrightarrow> sort_key f (xs @ [y]) = sort_key f xs @ [y]"
  by (induction xs) (auto simp: insort_key_snoc)

lemma find_sort_key:
  assumes "distinct (map f xs)"
  shows "find (\<lambda>x. f x = k) (sort_key f xs) = find (\<lambda>x. f x = k) xs"
proof -
  have "find (\<lambda>x. f x = k) zs = (case filter (\<lambda>x. f x = k) zs of [] \<Rightarrow> None | z # _ \<Rightarrow> Some z)" for zs
    by (induction zs) auto
  then show ?thesis by (simp add: sort_key_stable)
qed

lemma find_key_append:
  "(\<And>x. x \<in> set ys \<Longrightarrow> f x \<noteq> k) \<Longrightarrow> find (\<lambda>x. f x = k) (xs @ ys) = find (\<lambda>x. f x = k) xs"
  by (induction xs) (auto simp: find_None_iff)

lemma set_rows [simp]: "set (rows_by_sequence db a) = set (rows db a)"
  by (simp add: rows_by_sequence_def)

lemma rows_empty: "rows_by_sequence db a = [] \<longleftrightarrow> rows db a = []"
  by (metis set_rows set_empty)

lemma insert_tick_logs:
  assumes "log_ok a (sqlite_logs db a)" "\<not> reached (rows_by_sequence db a) (sequence t)" "sqlite_ready db"
  obtains db' where "insert_tick a t db = Inr db'" "sqlite_ready db'"
    "sqlite_logs db' = (sqlite_logs db)(a := (sqlite_logs db a)\<lparr>al_ticks := rows_by_sequence db a @ [t]\<rparr>)"
proof
  have less: "sequence u < sequence t" if "u \<in> set (rows db a)" for u
    using log_beyond [OF assms(1)] assms(2) that by simp
  let ?db = "db\<lparr>db_tick := db_tick db @ [(a, t)]\<rparr>"
  have "rows_by_sequence ?db b = (if b = a then rows_by_sequence db a @ [t] else rows_by_sequence db b)" for b
    using less by (auto simp: rows_by_sequence_def rows_def intro!: sort_key_snoc less_imp_le)
  then show "sqlite_logs ?db = (sqlite_logs db)(a := (sqlite_logs db a)\<lparr>al_ticks := rows_by_sequence db a @ [t]\<rparr>)"
    by (auto simp: sqlite_logs_def fun_eq_iff read_seams_def read_lattices_def)
  show "insert_tick a t db = Inr ?db" using less by (fastforce simp: insert_tick_def)
  show "sqlite_ready ?db" using assms(3) by (simp add: sqlite_ready_def)
qed

lemma insert_lattice_logs:
  assumes "ep_assetId e = a" "ep_fromSequence e = num (epoch_from e)" "sqlite_ready db"
    and "\<And>r. r \<in> set (read_lattices db a) \<Longrightarrow> epoch_from r < epoch_from e"
  shows "sqlite_logs (insert_lattice e db) = (sqlite_logs db)(a := (sqlite_logs db a)\<lparr>al_frames := read_lattices db a @ [e]\<rparr>)"
    "sqlite_ready (insert_lattice e db)"
proof -
  have less: "epoch_from r < epoch_from e" if "r \<in> set (lattice_rows db)" "ep_assetId r = a" for r
    using assms(4) that by (simp add: read_lattices_def)
  then have new: "\<not> (\<exists>r \<in> set (lattice_rows db). ep_assetId r = ep_assetId e \<and> ep_fromSequence r = ep_fromSequence e)"
  proof -
    have "ep_fromSequence r \<noteq> ep_fromSequence e" if "r \<in> set (lattice_rows db)" "ep_assetId r = a" for r
      using less [OF that] by (auto simp: epoch_from_def)
    then show ?thesis using assms(1) by blast
  qed
  have "read_lattices (insert_lattice e db) b = (if b = a then read_lattices db a @ [e] else read_lattices db b)" for b
    using less assms(1) unfolding insert_lattice_def if_not_P [OF new]
    by (auto simp: read_lattices_def intro!: sort_key_snoc less_imp_le)
  then show "sqlite_logs (insert_lattice e db) =
      (sqlite_logs db)(a := (sqlite_logs db a)\<lparr>al_frames := read_lattices db a @ [e]\<rparr>)"
    by (auto simp: sqlite_logs_def fun_eq_iff read_seams_def rows_by_sequence_def rows_def insert_lattice_def)
  show "sqlite_ready (insert_lattice e db)" using assms(3) by (simp add: sqlite_ready_def insert_lattice_def)
qed

lemma insert_seam_logs:
  assumes "rs_assetId s = a" "sqlite_ready db"
    and "\<And>r. r \<in> set (read_seams db a) \<Longrightarrow> rs_resumesAtSequence r < rs_resumesAtSequence s"
  shows "sqlite_logs (insert_seam s db) = (sqlite_logs db)(a := (sqlite_logs db a)\<lparr>al_seams := read_seams db a @ [s]\<rparr>)"
    "sqlite_ready (insert_seam s db)"
proof -
  have less: "rs_resumesAtSequence r < rs_resumesAtSequence s" if "r \<in> set (seam_rows db)" "rs_assetId r = a" for r
    using assms(3) that by (simp add: read_seams_def)
  then have "filter (\<lambda>r. \<not> (rs_assetId r = rs_assetId s \<and> rs_resumesAtSequence r = rs_resumesAtSequence s)) (seam_rows db) = seam_rows db"
    using assms(1) by (intro filter_True) (metis order_less_irrefl)
  then have new: "or_replace s (seam_rows db) = seam_rows db @ [s]" by (simp add: or_replace_def)
  have "read_seams (insert_seam s db) b = (if b = a then read_seams db a @ [s] else read_seams db b)" for b
    using less assms(1) by (auto simp: insert_seam_def new read_seams_def intro!: sort_key_snoc less_imp_le)
  then show "sqlite_logs (insert_seam s db) = (sqlite_logs db)(a := (sqlite_logs db a)\<lparr>al_seams := read_seams db a @ [s]\<rparr>)"
    by (auto simp: sqlite_logs_def fun_eq_iff read_lattices_def rows_by_sequence_def rows_def insert_seam_def)
  show "sqlite_ready (insert_seam s db)" using assms(2) by (simp add: sqlite_ready_def insert_seam_def)
qed

lemma log_rows:
  assumes "log_ok a (sqlite_logs db a)"
  shows "distinct (map sequence (rows db a))" "sorted_wrt (<) (map sequence (rows_by_sequence db a))"
proof -
  show s: "sorted_wrt (<) (map sequence (rows_by_sequence db a))" using assms by (simp add: log_ok_def)
  then have "distinct (map sequence (rows_by_sequence db a))" by (simp add: strict_sorted_iff)
  then show "distinct (map sequence (rows db a))" by (simp add: distinct_map rows_by_sequence_def)
qed

lemma read_at_logs: "log_ok a (sqlite_logs db a) \<Longrightarrow> read_at db a s = find (\<lambda>t. sequence t = s) (rows_by_sequence db a)"
  using log_rows(1) by (simp add: read_at_def rows_by_sequence_def find_sort_key)

lemma head_of_logs: "log_ok a (sqlite_logs db a) \<Longrightarrow> head_of db a = map_option sequence (last_option (rows_by_sequence db a))"
  using le_last [OF log_rows(2)] rows_empty [of db a] last_in_set [of "rows_by_sequence db a"]
  by (auto simp: head_of_def last_option_def intro!: Max_eqI)

section \<open>The record in SQLite keeps the contract\<close>

text \<open>One new tick, with the epoch it opens and the seam it closes.\<close>

lemma fresh_tick_logs:
  assumes ok: "log_ok a (sqlite_logs db a)" and r: "sqlite_ready db" and f: "malformedFrame frame = None"
    and new: "\<not> reached (rows_by_sequence db a) (sequence t)"
    and inForce: "inForce = last_option (read_lattices db a)" and previous: "previous = last_option (rows_by_sequence db a)"
  obtains db1 db3 where "insert_tick a t db = Inr db1"
    "(let db2 = (if opens inForce frame then insert_lattice (epoch_at a t frame) db1 else db1) in
      case seam_after a previous t of None \<Rightarrow> db2 | Some seam \<Rightarrow> insert_seam seam db2) = db3"
    "sqlite_ready db3" "log_ok a (sqlite_logs db3 a)"
    "sqlite_logs db3 = (sqlite_logs db)(a := \<lparr>al_ticks = rows_by_sequence db a @ [t],
      al_seams = read_seams db a @ jumps a previous [t], al_frames = read_lattices db a @ opened a frame inForce [t]\<rparr>)"
proof -
  obtain db1 where db1: "insert_tick a t db = Inr db1" "sqlite_ready db1"
      "sqlite_logs db1 = (sqlite_logs db)(a := (sqlite_logs db a)\<lparr>al_ticks := rows_by_sequence db a @ [t]\<rparr>)"
    by (rule insert_tick_logs [OF ok new r])
  define db2 where "db2 = (if opens inForce frame then insert_lattice (epoch_at a t frame) db1 else db1)"
  have old: "rs_resumesAtSequence s < sequence t" if "s \<in> set (read_seams db a)" for s
    using ok new that by (auto simp: log_ok_def reached_def)
  have old': "epoch_from e < sequence t" if "e \<in> set (read_lattices db a)" for e
    using ok new that by (auto simp: log_ok_def reached_def)
  have l1: "read_lattices db1 a = read_lattices db a" "read_seams db1 a = read_seams db a"
    using fun_cong [OF db1(3), of a] by (simp_all add: sqlite_logs_def)
  have "sqlite_ready db2 \<and> sqlite_logs db2 = (sqlite_logs db)(a := \<lparr>al_ticks = rows_by_sequence db a @ [t],
      al_seams = read_seams db a, al_frames = read_lattices db a @ opened a frame inForce [t]\<rparr>)"
    using insert_lattice_logs [of "epoch_at a t frame" a db1] old' db1(2,3) l1
    by (auto simp: db2_def opened_def sqlite_logs_def)
  then have db2: "sqlite_ready db2" "sqlite_logs db2 = (sqlite_logs db)(a := \<lparr>al_ticks = rows_by_sequence db a @ [t],
      al_seams = read_seams db a, al_frames = read_lattices db a @ opened a frame inForce [t]\<rparr>)" by auto
  have l2: "read_seams db2 a = read_seams db a" using fun_cong [OF db2(2), of a] by (simp add: sqlite_logs_def)
  define db3 where "db3 = (case seam_after a previous t of None \<Rightarrow> db2 | Some seam \<Rightarrow> insert_seam seam db2)"
  have logs3: "sqlite_ready db3 \<and> sqlite_logs db3 = (sqlite_logs db)(a := \<lparr>al_ticks = rows_by_sequence db a @ [t],
      al_seams = read_seams db a @ jumps a previous [t], al_frames = read_lattices db a @ opened a frame inForce [t]\<rparr>)"
  proof (cases "seam_after a previous t")
    case None
    then show ?thesis using db2 by (simp add: db3_def)
  next
    case (Some seam)
    then have "rs_assetId seam = a" "rs_resumesAtSequence seam = sequence t"
      by (auto simp: seamBetween_def split: option.splits if_splits)
    then show ?thesis using insert_seam_logs [of seam a db2] Some db2 l2 old
      by (simp add: db3_def sqlite_logs_def)
  qed
  have "log_append \<lparr>ab_assetId = a, ab_ticks = [t], ab_frame = frame\<rparr> (sqlite_logs db a) = Inr (sqlite_logs db3 a, [t])"
    using f new logs3 inForce previous by (simp add: log_append_def Let_def)
  then have ok3: "log_ok a (sqlite_logs db3 a)" by (rule log_append_ok [OF ok, rotated]) simp
  have eq: "(let db2 = (if opens inForce frame then insert_lattice (epoch_at a t frame) db1 else db1) in
      case seam_after a previous t of None \<Rightarrow> db2 | Some seam \<Rightarrow> insert_seam seam db2) = db3"
    unfolding Let_def db3_def db2_def ..
  show ?thesis using that [OF db1(1) eq _ ok3] logs3 by blast
qed

declare sqlite_ticks.simps(2) [simp del]

lemma sqlite_ticks_eq:
  assumes "log_ok a (sqlite_logs db a)" "sqlite_ready db" "malformedFrame frame = None" "sorted_wrt (<) (map sequence ts)"
    and "rows_by_sequence db a = hs @ later" "\<forall>u \<in> set later. \<not> reached hs (sequence u)"
    and "\<forall>t \<in> set ts. reached hs (sequence t) \<or> \<not> reached (hs @ later) (sequence t)"
    and "head = map_option sequence (last_option hs)"
    and "inForce = last_option (read_lattices db a)" "previous = last_option (hs @ later)"
  shows "case check_held hs (filter (\<lambda>t. reached hs (sequence t)) ts) of
      Inl e \<Rightarrow> sqlite_ticks a frame head ts inForce previous db added = Inl e
    | Inr _ \<Rightarrow> let fs = filter (\<lambda>t. \<not> reached hs (sequence t)) ts in
        \<exists>db'. sqlite_ticks a frame head ts inForce previous db added = Inr (db', added @ fs) \<and> sqlite_ready db' \<and>
          sqlite_logs db' = (sqlite_logs db)(a := \<lparr>al_ticks = hs @ later @ fs, al_seams = read_seams db a @ jumps a previous fs,
            al_frames = read_lattices db a @ opened a frame inForce fs\<rparr>)"
  using assms
proof (induction ts arbitrary: db later inForce previous added)
  case Nil
  then have "sqlite_logs db = (sqlite_logs db)(a := \<lparr>al_ticks = hs @ later, al_seams = read_seams db a, al_frames = read_lattices db a\<rparr>)"
    by (simp add: sqlite_logs_def fun_eq_iff)
  then show ?case using Nil.prems(2) by (simp add: opened_def)
next
  case (Cons t ts)
  have head: "head \<noteq> None \<and> sequence t \<le> the head \<longleftrightarrow> reached hs (sequence t)"
    using Cons.prems(8) by (auto simp: reached_def last_option_def)
  show ?case
  proof (cases "reached hs (sequence t)")
    case True
    have "read_at db a (sequence t) = find (\<lambda>u. sequence u = sequence t) (hs @ later)"
      using read_at_logs [OF Cons.prems(1)] Cons.prems(5) by simp
    also have "\<dots> = find (\<lambda>u. sequence u = sequence t) hs"
      using Cons.prems(6) True by (intro find_key_append) metis
    finally have look: "read_at db a (sequence t) = find (\<lambda>u. sequence u = sequence t) hs" .
    have IH: "case check_held hs (filter (\<lambda>t. reached hs (sequence t)) ts) of
      Inl e \<Rightarrow> sqlite_ticks a frame head ts inForce previous db added = Inl e
    | Inr _ \<Rightarrow> let fs = filter (\<lambda>t. \<not> reached hs (sequence t)) ts in
        \<exists>db'. sqlite_ticks a frame head ts inForce previous db added = Inr (db', added @ fs) \<and> sqlite_ready db' \<and>
          sqlite_logs db' = (sqlite_logs db)(a := \<lparr>al_ticks = hs @ later @ fs, al_seams = read_seams db a @ jumps a previous fs,
            al_frames = read_lattices db a @ opened a frame inForce fs\<rparr>)"
      using Cons.prems by (intro Cons.IH) auto
    show ?thesis
    proof (cases "find (\<lambda>u. sequence u = sequence t) hs")
      case None
      then have "sqlite_ticks a frame head (t # ts) inForce previous db added = Inl (RangeError ''no tick there to compare against'')"
        unfolding sqlite_ticks.simps head using True look by simp
      then show ?thesis using None True by simp
    next
      case (Some u)
      then have "sqlite_ticks a frame head (t # ts) inForce previous db added =
          (if u = t then sqlite_ticks a frame head ts inForce previous db added else Inl (RecordFork (sequence t)))"
        unfolding sqlite_ticks.simps head using True look by (simp add: sameTick_eq)
      then show ?thesis using Some True IH
        by (cases "u = t"; cases "check_held hs (filter (\<lambda>t. reached hs (sequence t)) ts)") (simp_all add: Let_def)
    qed
  next
    case False
    then have new: "\<not> reached (rows_by_sequence db a) (sequence t)" using Cons.prems(5,7) by simp
    obtain db1 db3 where db: "insert_tick a t db = Inr db1"
        "(let db2 = (if opens inForce frame then insert_lattice (epoch_at a t frame) db1 else db1) in
          case seam_after a previous t of None \<Rightarrow> db2 | Some seam \<Rightarrow> insert_seam seam db2) = db3"
        "sqlite_ready db3" "log_ok a (sqlite_logs db3 a)"
        "sqlite_logs db3 = (sqlite_logs db)(a := \<lparr>al_ticks = rows_by_sequence db a @ [t],
          al_seams = read_seams db a @ jumps a previous [t], al_frames = read_lattices db a @ opened a frame inForce [t]\<rparr>)"
      by (rule fresh_tick_logs [OF Cons.prems(1-3) new Cons.prems(9)]) (use Cons.prems(5,10) in auto)
    let ?i = "if opens inForce frame then Some (epoch_at a t frame) else inForce"
    have rows3: "rows_by_sequence db3 a = hs @ (later @ [t])" "read_seams db3 a = read_seams db a @ jumps a previous [t]"
        "read_lattices db3 a = read_lattices db a @ opened a frame inForce [t]"
      using fun_cong [OF db(5), of a] Cons.prems(5) by (simp_all add: sqlite_logs_def)
    have step: "sqlite_ticks a frame head (t # ts) inForce previous db added = sqlite_ticks a frame head ts ?i (Some t) db3 (added @ [t])"
      unfolding sqlite_ticks.simps head using False db(1,2) by (simp add: Let_def)
    have i: "?i = last_option (read_lattices db3 a)" using Cons.prems(9) by (auto simp: rows3(3) opened_def last_option_def)
    have later: "\<forall>u \<in> set ts. reached hs (sequence u) \<or> \<not> reached (hs @ later @ [t]) (sequence u)"
      using Cons.prems(4) by (auto simp: reached_def)
    have IH: "case check_held hs (filter (\<lambda>t. reached hs (sequence t)) ts) of
      Inl e \<Rightarrow> sqlite_ticks a frame head ts ?i (Some t) db3 (added @ [t]) = Inl e
    | Inr _ \<Rightarrow> let fs = filter (\<lambda>t. \<not> reached hs (sequence t)) ts in
        \<exists>db'. sqlite_ticks a frame head ts ?i (Some t) db3 (added @ [t]) = Inr (db', (added @ [t]) @ fs) \<and> sqlite_ready db' \<and>
          sqlite_logs db' = (sqlite_logs db3)(a := \<lparr>al_ticks = hs @ (later @ [t]) @ fs,
            al_seams = read_seams db3 a @ jumps a (Some t) fs, al_frames = read_lattices db3 a @ opened a frame ?i fs\<rparr>)"
      by (rule Cons.IH [OF db(4,3) Cons.prems(3) _ rows3(1) _ _ Cons.prems(8) i]) (use Cons.prems(4,6) False later in auto)
    have o: "opened a frame inForce (t # fs) = opened a frame inForce [t] @ opened a frame ?i fs" for fs
      using well_formed_frame [OF Cons.prems(3)] by (auto simp: opened_def)
    have j: "jumps a previous (t # fs) = jumps a previous [t] @ jumps a (Some t) fs" for fs by simp
    show ?thesis
    proof (cases "check_held hs (filter (\<lambda>t. reached hs (sequence t)) ts)")
      case (Inl e)
      then show ?thesis using IH False step by simp
    next
      case (Inr u)
      define fs where "fs = filter (\<lambda>t. \<not> reached hs (sequence t)) ts"
      obtain db' where db': "sqlite_ticks a frame head ts ?i (Some t) db3 (added @ [t]) = Inr (db', (added @ [t]) @ fs)" "sqlite_ready db'"
          "sqlite_logs db' = (sqlite_logs db3)(a := \<lparr>al_ticks = hs @ (later @ [t]) @ fs,
            al_seams = read_seams db3 a @ jumps a (Some t) fs, al_frames = read_lattices db3 a @ opened a frame ?i fs\<rparr>)"
        using IH unfolding Inr sum.case Let_def fs_def [symmetric] by blast
      have "sqlite_logs db' = (sqlite_logs db)(a := \<lparr>al_ticks = hs @ later @ t # fs,
          al_seams = read_seams db a @ jumps a previous (t # fs), al_frames = read_lattices db a @ opened a frame inForce (t # fs)\<rparr>)"
        unfolding db'(3) db(5) rows3(2,3) o [of fs] j [of fs] by simp
      moreover have "sqlite_ticks a frame head (t # ts) inForce previous db added = Inr (db', added @ t # fs)"
        unfolding step db'(1) by simp
      ultimately show ?thesis using Inr False db'(2) by (simp add: fs_def)
    qed
  qed
qed

lemma read_head:
  assumes "log_ok a (sqlite_logs db a)"
  shows "(case head_of db a of None \<Rightarrow> None | Some h \<Rightarrow> read_at db a h) = last_option (rows_by_sequence db a)"
proof (cases "rows_by_sequence db a" rule: rev_cases)
  case (snoc hs t)
  have "sequence u \<noteq> sequence t" if "u \<in> set hs" for u
    using log_rows(2) [OF assms] that by (auto simp: snoc sorted_wrt_append)
  then have "find (\<lambda>u. sequence u = sequence t) hs = None" by (simp add: find_None_iff)
  then have "find (\<lambda>u. sequence u = sequence t) (hs @ [t]) = Some t"
    by (induction hs) (auto split: if_splits)
  then show ?thesis using assms by (simp add: head_of_logs read_at_logs snoc)
qed (simp add: head_of_logs [OF assms])

lemma sqlite_batch_eq:
  assumes "sqlite_ready db" "log_ok (ab_assetId b) (sqlite_logs db (ab_assetId b))"
  shows "case log_append b (sqlite_logs db (ab_assetId b)) of Inl e \<Rightarrow> sqlite_batch b (db, fresh) = Inl e
    | Inr (l, ts) \<Rightarrow> \<exists>db'. sqlite_batch b (db, fresh) = Inr (db', fresh(ab_assetId b \<mapsto> ts)) \<and> sqlite_ready db' \<and>
        sqlite_logs db' = (sqlite_logs db)(ab_assetId b := l)"
proof -
  let ?a = "ab_assetId b"
  let ?hs = "rows_by_sequence db ?a"
  consider "malformedFrame (ab_frame b) \<noteq> None" | "malformedFrame (ab_frame b) = None" "ab_ticks b = []"
    | "malformedFrame (ab_frame b) = None" "ab_ticks b \<noteq> []" "malformedBatch (ab_ticks b) \<noteq> None"
    | "malformedFrame (ab_frame b) = None" "ab_ticks b \<noteq> []" "malformedBatch (ab_ticks b) = None" by blast
  then show ?thesis
  proof cases
    case 2
    then have "log_append b (sqlite_logs db ?a) = Inr (sqlite_logs db ?a, [])"
      by (simp add: log_append_def Let_def opened_def sqlite_logs_def)
    then show ?thesis using 2 assms(1) by (simp add: sqlite_batch_def)
  next
    case 4
    let ?old = "filter (\<lambda>t. reached ?hs (sequence t)) (ab_ticks b)"
    let ?fs = "filter (\<lambda>t. \<not> reached ?hs (sequence t)) (ab_ticks b)"
    have frames: "sqlite_frames db ?a = read_lattices db ?a" using assms(1) by (auto simp: sqlite_ready_def sqlite_frames_def)
    let ?run = "sqlite_ticks ?a (ab_frame b) (head_of db ?a) (ab_ticks b) (last_option (sqlite_frames db ?a))
        (case head_of db ?a of None \<Rightarrow> None | Some h \<Rightarrow> read_at db ?a h) db []"
    have run: "case check_held ?hs ?old of Inl e \<Rightarrow> ?run = Inl e
      | Inr _ \<Rightarrow> let fs = ?fs in \<exists>db'. ?run = Inr (db', [] @ fs) \<and> sqlite_ready db' \<and>
          sqlite_logs db' = (sqlite_logs db)(?a := \<lparr>al_ticks = ?hs @ [] @ fs,
            al_seams = read_seams db ?a @ jumps ?a (last_option ?hs) fs,
            al_frames = read_lattices db ?a @ opened ?a (ab_frame b) (last_option (read_lattices db ?a)) fs\<rparr>)"
      unfolding read_head [OF assms(2)] frames
      by (rule sqlite_ticks_eq) (use assms 4 in \<open>auto simp: malformedBatch_iff head_of_logs\<close>)
    have b: "sqlite_batch b (db, fresh) = andThen ?run (\<lambda>(db', added). Inr (db', fresh(?a \<mapsto> added)))"
      using 4 by (simp add: sqlite_batch_def Let_def)
    show ?thesis
    proof (cases "check_held ?hs ?old")
      case (Inl e)
      then have "?run = Inl e" using run by simp
      then show ?thesis using Inl 4 unfolding b by (simp add: log_append_def Let_def)
    next
      case (Inr u)
      then show ?thesis using run 4 unfolding b by (auto simp: log_append_def Let_def)
    qed
  qed (auto simp: log_append_def sqlite_batch_def Let_def)
qed

lemma logs_append_dom: "logs_append bs L = Inr (L', fresh) \<Longrightarrow> dom fresh = ab_assetId ` set bs"
  by (induction bs arbitrary: L fresh) (fastforce simp: andThen_Inr_iff)+

lemma sqlite_passes:
  assumes "distinct (map ab_assetId bs)" "sqlite_ready db" "logs_ok (sqlite_logs db)"
  shows "case logs_append bs (sqlite_logs db) of Inl e \<Rightarrow> foldE sqlite_batch bs (db, fresh0) = Inl e
    | Inr (L, fresh) \<Rightarrow> \<exists>db'. foldE sqlite_batch bs (db, fresh0) = Inr (db', fresh0 ++ fresh) \<and> sqlite_ready db' \<and> sqlite_logs db' = L"
  using assms
proof (induction bs arbitrary: db fresh0)
  case (Cons b bs)
  let ?a = "ab_assetId b"
  have ok: "log_ok ?a (sqlite_logs db ?a)" using Cons.prems(3) by (simp add: logs_ok_def)
  note batch = sqlite_batch_eq [OF Cons.prems(2) ok, of fresh0]
  show ?case
  proof (cases "log_append b (sqlite_logs db ?a)")
    case (Inl e)
    then show ?thesis using batch by simp
  next
    case (Inr lts)
    obtain l ts where lts: "lts = (l, ts)" by fastforce
    with Inr batch obtain db1 where db1: "sqlite_batch b (db, fresh0) = Inr (db1, fresh0(?a \<mapsto> ts))" "sqlite_ready db1"
        "sqlite_logs db1 = (sqlite_logs db)(?a := l)" by auto
    have "log_append b (sqlite_logs db ?a) = Inr (l, ts)" using Inr lts by simp
    from log_append_ok [OF ok refl this] have lo: "logs_ok (sqlite_logs db1)"
      using Cons.prems(3) db1(3) by (simp add: logs_ok_def)
    have d: "distinct (map ab_assetId bs)" "?a \<notin> ab_assetId ` set bs" using Cons.prems(1) by simp_all
    note IH = Cons.IH [OF d(1) db1(2) lo, of "fresh0(?a \<mapsto> ts)", unfolded db1(3)]
    show ?thesis
    proof (cases "logs_append bs ((sqlite_logs db)(?a := l))")
      case (Inl e)
      have "foldE sqlite_batch bs (db1, fresh0(?a \<mapsto> ts)) = Inl e" using IH unfolding Inl by simp
      then show ?thesis using Inl db1(1) \<open>log_append b (sqlite_logs db ?a) = Inr (l, ts)\<close> by simp
    next
      case rest: (Inr Lf)
      obtain L fresh where Lf: "Lf = (L, fresh)" by fastforce
      then obtain db' where "foldE sqlite_batch bs (db1, fresh0(?a \<mapsto> ts)) = Inr (db', fresh0(?a \<mapsto> ts) ++ fresh)"
          "sqlite_ready db'" "sqlite_logs db' = L"
        using IH unfolding rest Lf by auto
      moreover have "?a \<notin> dom fresh" using logs_append_dom [of bs] rest Lf d(2) by auto
      then have "fresh0(?a \<mapsto> ts) ++ fresh = fresh0 ++ fresh(?a \<mapsto> ts)" by (auto simp: map_add_def fun_eq_iff split: option.splits)
      ultimately show ?thesis using rest Lf db1(1) \<open>log_append b (sqlite_logs db ?a) = Inr (l, ts)\<close> by simp
    qed
  qed
qed simp

lemma filter_from_nth:
  "sorted_wrt (<) (map f xs) \<Longrightarrow> i < length xs \<Longrightarrow> filter (\<lambda>x. \<not> f x < (f (xs ! i) :: int)) xs = drop i xs"
proof (induction xs arbitrary: i)
  case (Cons x xs)
  show ?case
  proof (cases i)
    case 0
    then show ?thesis using Cons.prems by (auto simp: filter_id_conv)
  next
    case (Suc k)
    then have "f x < f (xs ! k)" using Cons.prems by auto
    then show ?thesis using Cons Suc by simp
  qed
qed simp

lemma sort_map_key: "sort (map f xs) = map f (sort_key f xs)"
proof -
  have "insort (f x) (map f zs) = map f (insort_key f x zs)" for x zs by (induction zs) auto
  then show ?thesis by (induction xs) simp_all
qed

lemma delete_below_logs:
  "sqlite_logs (delete_below a s db) = (sqlite_logs db)(a := (sqlite_logs db a)\<lparr>al_ticks :=
     filter (\<lambda>t. \<not> sequence t < s) (rows_by_sequence db a)\<rparr>)"
proof -
  have "rows (delete_below a s db) b = (if b = a then filter (\<lambda>t. \<not> sequence t < s) (rows db a) else rows db b)" for b
  proof -
    have "map snd (filter (\<lambda>r. fst r = b) (filter (\<lambda>(b, t). \<not> (b = a \<and> sequence t < s)) xs)) =
      (if b = a then filter (\<lambda>t. \<not> sequence t < s) (map snd (filter (\<lambda>r. fst r = a) xs))
       else map snd (filter (\<lambda>r. fst r = b) xs))" for xs
      by (induction xs) auto
    from this [of "db_tick db"] show ?thesis by (simp add: rows_def delete_below_def del: filter_filter)
  qed
  then show ?thesis
    by (auto simp: sqlite_logs_def fun_eq_iff rows_by_sequence_def filter_sort read_seams_def read_lattices_def delete_below_def)
qed

lemma sqlite_trim_logs:
  assumes "sqlite_ready db" "logs_ok (sqlite_logs db)" "badLimit keep = None"
  obtains db' where "sqlite_trim a keep db = (db', Inr ())" "sqlite_ready db'"
    "sqlite_logs db' = (sqlite_logs db)(a := (sqlite_logs db a)\<lparr>al_ticks :=
       drop (length (rows_by_sequence db a) - nat (int_of keep)) (rows_by_sequence db a)\<rparr>)"
proof -
  let ?xs = "rows_by_sequence db a" and ?k = "nat (int_of keep)"
  have sorted: "sorted_wrt (<) (map sequence ?xs)" using assms(2) by (intro log_rows) (simp add: logs_ok_def)
  have count: "count_of db a = length ?xs" by (simp add: count_of_def rows_by_sequence_def)
  show ?thesis
  proof (cases "length ?xs \<le> ?k")
    case True
    then have "sqlite_trim a keep db = (db, Inr ())" using assms(3) by (simp add: sqlite_trim_def count)
    moreover have "sqlite_logs db = (sqlite_logs db)(a := (sqlite_logs db a)\<lparr>al_ticks := drop (length ?xs - ?k) ?xs\<rparr>)"
      using True by (simp add: sqlite_logs_def fun_eq_iff)
    ultimately show ?thesis using that assms(1) by blast
  next
    case False
    have "1 \<le> ?k" using assms(3) by (auto simp: badLimit_pos)
    then have i: "length ?xs - Suc (?k - 1) = length ?xs - ?k" "?k - 1 < length ?xs" using False by simp_all
    have "nth_newest db a (?k - 1) = Some (sequence (?xs ! (length ?xs - ?k)))"
      using i by (simp add: nth_newest_def Let_def sort_map_key rows_by_sequence_def [symmetric] rev_nth)
    then have "sqlite_trim a keep db = (delete_below a (sequence (?xs ! (length ?xs - ?k))) db, Inr ())"
      using False assms(3) by (simp add: sqlite_trim_def count)
    moreover have "sqlite_logs (delete_below a (sequence (?xs ! (length ?xs - ?k))) db) =
        (sqlite_logs db)(a := (sqlite_logs db a)\<lparr>al_ticks := drop (length ?xs - ?k) ?xs\<rparr>)"
      unfolding delete_below_logs using False \<open>1 \<le> ?k\<close> by (subst filter_from_nth [OF sorted]) auto
    ultimately show ?thesis using that assms(1) by (simp add: sqlite_ready_def delete_below_def)
  qed
qed

lemma insert_lattices_logs:
  assumes "epochs_ok (read_lattices db a @ es)" "\<forall>e \<in> set es. ep_assetId e = a" "sqlite_ready db"
  shows "sqlite_ready (fold insert_lattice es db) \<and>
    sqlite_logs (fold insert_lattice es db) = (sqlite_logs db)(a := (sqlite_logs db a)\<lparr>al_frames := read_lattices db a @ es\<rparr>)"
  using assms
proof (induction es arbitrary: db)
  case Nil
  then show ?case by (simp add: sqlite_logs_def fun_eq_iff)
next
  case (Cons e es)
  have e: "ep_assetId e = a" "ep_fromSequence e = num (epoch_from e)" "\<And>r. r \<in> set (read_lattices db a) \<Longrightarrow> epoch_from r < epoch_from e"
    using Cons.prems(1,2) by (auto simp: epochs_ok_append epochs_ok_Cons)
  note ins = insert_lattice_logs [OF e(1,2) Cons.prems(3) e(3)]
  have rl: "read_lattices (insert_lattice e db) a = read_lattices db a @ [e]"
    using fun_cong [OF ins(1), of a] by (simp add: sqlite_logs_def)
  then have "epochs_ok (read_lattices (insert_lattice e db) a @ es)" using Cons.prems(1) by simp
  from Cons.IH [OF this _ ins(2)] Cons.prems(2) show ?case by (simp add: ins(1) rl fun_eq_iff)
qed

lemma delete_lattice_logs:
  "sqlite_logs (delete_lattice a db) = (sqlite_logs db)(a := (sqlite_logs db a)\<lparr>al_frames := []\<rparr>)"
  "read_lattices (delete_lattice a db) a = []"
  "sqlite_ready db \<Longrightarrow> sqlite_ready (delete_lattice a db)"
proof -
  have "filter (\<lambda>r. ep_assetId r = b) (filter (\<lambda>r. ep_assetId r \<noteq> a) xs) = (if b = a then [] else filter (\<lambda>r. ep_assetId r = b) xs)"
    for b and xs :: "lattice_epoch list"
    by (induction xs) auto
  then have l: "read_lattices (delete_lattice a db) b = (if b = a then [] else read_lattices db b)" for b
    by (simp add: read_lattices_def delete_lattice_def del: filter_filter)
  then show "sqlite_logs (delete_lattice a db) = (sqlite_logs db)(a := (sqlite_logs db a)\<lparr>al_frames := []\<rparr>)"
    by (auto simp: sqlite_logs_def fun_eq_iff rows_by_sequence_def rows_def read_seams_def delete_lattice_def)
  show "read_lattices (delete_lattice a db) a = []" by (simp add: l)
qed (simp add: sqlite_ready_def delete_lattice_def)

lemma sqlite_steps:
  assumes "sqlite_ready db" "logs_ok (sqlite_logs db)"
  shows "case spec_step op (sqlite_logs db) of Inl e \<Rightarrow> sqlite_step op db = (db, Inl e)
    | Inr (L, ans) \<Rightarrow> \<exists>db'. sqlite_step op db = (db', Inr ans) \<and> sqlite_logs db' = L \<and> sqlite_ready db'"
proof (cases op)
  case (Append bs)
  have w: "\<not> db_readOnly db" using assms(1) by (simp add: sqlite_ready_def)
  show ?thesis
  proof (cases "malformedPass (map ab_assetId bs)")
    case None
    then have "distinct (map ab_assetId bs)" by (simp add: malformedPass_distinct)
    from sqlite_passes [OF this assms, of Map.empty] show ?thesis using Append None w
      by (cases "logs_append bs (sqlite_logs db)") (auto simp: sqlite_append_def)
  qed (simp add: Append sqlite_append_def w)
next
  case (Trim a keep)
  show ?thesis
  proof (cases "badLimit keep")
    case None
    obtain db' where "sqlite_trim a keep db = (db', Inr ())" "sqlite_ready db'"
      "sqlite_logs db' = (sqlite_logs db)(a := (sqlite_logs db a)\<lparr>al_ticks :=
         drop (length (rows_by_sequence db a) - nat (int_of keep)) (rows_by_sequence db a)\<rparr>)"
      by (rule sqlite_trim_logs [OF assms None])
    then show ?thesis using Trim None by simp
  qed (simp add: Trim sqlite_trim_def)
next
  case (Declare a es replace)
  have w: "\<not> db_readOnly db" "sqlite_frames db a = read_lattices db a"
    using assms(1) by (auto simp: sqlite_ready_def sqlite_frames_def)
  show ?thesis
  proof (cases "malformedDeclaration a es")
    case None
    then have es: "epochs_ok es" "\<forall>e \<in> set es. ep_assetId e = a" using malformedDeclaration_ok by blast+
    show ?thesis
    proof (cases "read_lattices db a \<noteq> [] \<and> \<not> replace")
      case True
      then show ?thesis using Declare None w by (simp add: sqlite_declare_def)
    next
      case False
      define db0 where "db0 = (if replace then delete_lattice a db else db)"
      have db0: "read_lattices db0 a = []" "sqlite_ready db0"
          "(sqlite_logs db0)(a := (sqlite_logs db0 a)\<lparr>al_frames := es\<rparr>) = (sqlite_logs db)(a := (sqlite_logs db a)\<lparr>al_frames := es\<rparr>)"
        using False assms(1) delete_lattice_logs [where a = a and db = db] by (auto simp: db0_def)
      have "sqlite_ready (fold insert_lattice es db0) \<and> sqlite_logs (fold insert_lattice es db0) =
          (sqlite_logs db)(a := (sqlite_logs db a)\<lparr>al_frames := es\<rparr>)"
        using insert_lattices_logs [where db = db0 and a = a and es = es] es db0 by simp
      moreover have "sqlite_declare a es replace db = (fold insert_lattice es db0, Inr ())"
        using False None w by (auto simp: sqlite_declare_def db0_def)
      ultimately show ?thesis using Declare None False by auto
    qed
  qed (simp add: Declare sqlite_declare_def w)
qed

lemma find_unique:
  assumes "set xs = set ys" "\<And>x y. x \<in> set xs \<Longrightarrow> y \<in> set xs \<Longrightarrow> P x \<Longrightarrow> P y \<Longrightarrow> x = y"
  shows "find P xs = find P ys"
proof (cases "find P xs")
  case None
  then show ?thesis using assms(1) by (metis find_None_iff)
next
  case (Some x)
  then have x: "x \<in> set xs" "P x" by (auto simp: find_Some_iff)
  then obtain y where "find P ys = Some y" using assms(1) by (metis find_None_iff not_Some_eq)
  moreover then have "y \<in> set xs" "P y" using assms(1) by (auto simp: find_Some_iff)
  ultimately show ?thesis using assms(2) x Some by metis
qed

lemma seams_disjoint:
  assumes "sorted (concat (map (\<lambda>s. [rs_lastInstant s, rs_resumesAtInstant s]) ss))"
    and "s \<in> set ss" "s' \<in> set ss" "rs_lastInstant s < i" "i < rs_resumesAtInstant s"
    "rs_lastInstant s' < i" "i < rs_resumesAtInstant s'"
  shows "s = s'"
  using assms
proof (induction ss)
  case (Cons t ss)
  have "rs_resumesAtInstant t \<le> rs_lastInstant u" if "u \<in> set ss" for u
    using Cons.prems(1) that by (fastforce simp: sorted_append)
  with Cons show ?case by force
qed simp

lemma sqlite_reads:
  assumes "sqlite_ready db" "logs_ok (sqlite_logs db)" "timely q (sqlite_logs db)"
  shows "sqlite_read q db = spec_read q (sqlite_logs db)"
proof -
  have ok: "log_ok a (sqlite_logs db a)" for a using assms(2) by (simp add: logs_ok_def)
  have tables: "sqlite_frames db a = read_lattices db a" "sqlite_seams db a = read_seams db a" for a
    using assms(1) by (auto simp: sqlite_ready_def sqlite_frames_def sqlite_seams_def)
  show ?thesis
  proof (cases q)
    case (AtOrBefore a i)
    then have "sorted (map instant (rows_by_sequence db a))" using assms(3) by (simp add: log_timely_def)
    then have "sorted (map instant (filter (\<lambda>t. instant t \<le> int_of i) (rows_by_sequence db a)))"
      by (rule sorted_filter)
    then have "read_at_or_before db a (int_of i) = last_option (filter (\<lambda>t. instant t \<le> int_of i) (rows_by_sequence db a))"
      by (simp add: read_at_or_before_def rows_by_sequence_def filter_sort sort_key_id_if_sorted)
    then show ?thesis using AtOrBefore by (simp add: sqlite_atOrBefore_def)
  next
    case (Oldest a)
    have "oldest_of db a = (case rows_by_sequence db a of [] \<Rightarrow> None | t # _ \<Rightarrow> Some (sequence t))"
    proof (cases "rows_by_sequence db a")
      case (Cons t ts)
      then have s: "set (rows db a) = insert t (set ts)" using set_rows [of db a] by simp
      have "Min (sequence ` set (rows db a)) = sequence t"
        using log_rows(2) [OF ok, of a] by (intro Min_eqI) (auto simp: Cons s intro: less_imp_le)
      then show ?thesis using Cons rows_empty [of db a] by (simp add: oldest_of_def)
    qed (use rows_empty [of db a] in \<open>simp add: oldest_of_def\<close>)
    then show ?thesis using Oldest by simp
  next
    case Assets
    have "{a. rows_by_sequence db a \<noteq> []} = set (map fst (db_tick db))"
      by (auto simp: rows_empty rows_def filter_empty_conv)
    then show ?thesis using Assets by (simp add: read_assets_def sorted_list_of_set_sort_remdups [symmetric])
  next
    case (SeamAt a i)
    let ?P = "\<lambda>r. rs_lastInstant r < int_of i \<and> int_of i < rs_resumesAtInstant r"
    have "find (\<lambda>r. rs_assetId r = a \<and> ?P r) xs = find ?P (filter (\<lambda>r. rs_assetId r = a) xs)"
      for xs :: "recorded_seam list"
      by (induction xs) auto
    also have "find ?P (filter (\<lambda>r. rs_assetId r = a) (seam_rows db)) = find ?P (read_seams db a)"
    proof (rule find_unique)
      show "s = t" if "s \<in> set (filter (\<lambda>r. rs_assetId r = a) (seam_rows db))" "t \<in> set (filter (\<lambda>r. rs_assetId r = a) (seam_rows db))"
          "?P s" "?P t" for s t
        using assms(3) SeamAt that seams_disjoint [of "read_seams db a" s t "int_of i"]
        by (auto simp: read_seams_def log_timely_def)
    qed (simp add: read_seams_def)
    finally show ?thesis using SeamAt assms(1)
      by (auto simp: sqlite_seamAt_def read_seam_at_def sqlite_ready_def)
  next
    case (FrameAt a s)
    have "epochs_ok (read_lattices db a)" using ok [of a] by (simp add: log_ok_def)
    from frameAt_eq [OF this, of s] FrameAt show ?thesis
      by (cases "badSequence s") (simp_all add: sqlite_frameAt_def tables)
  qed (simp_all add: sqlite_tail_def read_newest_def take_rev sqlite_since_def read_since_def Let_def
      head_of_logs [OF ok] tables)
qed

interpretation sqlite: record_store sqlite_step sqlite_read sqlite_logs sqlite_ready
proof
  fix db op e
  assume "sqlite_ready db" "logs_ok (sqlite_logs db)" "spec_step op (sqlite_logs db) = Inl e"
  then show "sqlite_step op db = (db, Inl e)" using sqlite_steps [of db op] by simp
next
  fix db op L ans
  assume "sqlite_ready db" "logs_ok (sqlite_logs db)" "spec_step op (sqlite_logs db) = Inr (L, ans)"
  then show "\<exists>db'. sqlite_step op db = (db', Inr ans) \<and> sqlite_logs db' = L \<and> sqlite_ready db'"
    using sqlite_steps [of db op] by simp
qed (rule sqlite_reads)

end
