(* ===== verification/RecordTables.thy ===== *)
theory RecordTables
  imports SqliteRecord
begin

text \<open>
  What the tables of class \<open>SqliteTickRecord\<close> (packages/runtime/src/tickRecord.ts) hold whatever is
  called: their primary keys, a row at or beyond the sequence of every seam, and usable frames. Unlike
  the contract of \<open>TickRecord\<close> the invariant asks nothing of the callers, so it also covers
  declarations of ranges not yet written.
\<close>

section \<open>The invariant\<close>

abbreviation seam_key :: "recorded_seam \<Rightarrow> string \<times> int" where
  "seam_key s \<equiv> (rs_assetId s, rs_resumesAtSequence s)"

abbreviation epoch_key :: "lattice_epoch \<Rightarrow> string \<times> jsnum" where
  "epoch_key e \<equiv> (ep_assetId e, ep_fromSequence e)"

definition tables_ok :: "sqlite_record \<Rightarrow> bool" where
  "tables_ok db \<longleftrightarrow> (\<forall>a. distinct (map sequence (rows db a))) \<and>
     distinct (map seam_key (seam_rows db)) \<and>
     (\<forall>s\<in>set (seam_rows db). \<exists>u\<in>set (rows db (rs_assetId s)). rs_resumesAtSequence s \<le> sequence u) \<and>
     distinct (map epoch_key (lattice_rows db)) \<and>
     (\<forall>e\<in>set (lattice_rows db). ep_fromSequence e = num (epoch_from e) \<and> malformedFrame e = None)"

lemma tables_ok_cong:
  "db_tick db' = db_tick db \<Longrightarrow> seam_rows db' = seam_rows db \<Longrightarrow> lattice_rows db' = lattice_rows db \<Longrightarrow>
    tables_ok db' = tables_ok db"
  by (simp add: tables_ok_def rows_def)

section \<open>Every statement keeps it\<close>

lemma untouched [simp]:
  "rows (insert_seam s db) a = rows db a" "lattice_rows (insert_seam s db) = lattice_rows db"
  "seam_rows (insert_seam s db) = or_replace s (seam_rows db)"
  "rows (insert_lattice e db) a = rows db a" "seam_rows (insert_lattice e db) = seam_rows db"
  by (simp_all add: insert_seam_def insert_lattice_def rows_def)

lemma insert_tick_rows:
  assumes "insert_tick a t db = Inr db'"
  shows "rows db' b = (if b = a then rows db a @ [t] else rows db b)"
    "seam_rows db' = seam_rows db" "lattice_rows db' = lattice_rows db"
    "\<forall>u\<in>set (rows db a). sequence u \<noteq> sequence t"
proof -
  have db': "db' = db\<lparr>db_tick := db_tick db @ [(a, t)]\<rparr>" and new: "\<forall>u\<in>set (rows db a). sequence u \<noteq> sequence t"
    using assms by (auto simp: insert_tick_def split: if_splits)
  show "\<forall>u\<in>set (rows db a). sequence u \<noteq> sequence t" by (rule new)
  show "rows db' b = (if b = a then rows db a @ [t] else rows db b)" "seam_rows db' = seam_rows db" "lattice_rows db' = lattice_rows db"
    by (simp_all add: db' rows_def)
qed

lemma insert_tick_tables: "insert_tick a t db = Inr db' \<Longrightarrow> tables_ok db \<Longrightarrow> tables_ok db'"
  using insert_tick_rows [of a t db db'] by (fastforce simp: tables_ok_def)

lemma lattice_rows_set: "lattice_rows (db\<lparr>db_lattice := Some es\<rparr>) = es"
  by simp

lemma insert_lattice_rows:
  "lattice_rows (insert_lattice e db) = (if epoch_key e \<in> epoch_key ` set (lattice_rows db)
     then lattice_rows db else lattice_rows db @ [e])"
proof -
  have "(\<exists>r \<in> S. ep_assetId r = ep_assetId e \<and> ep_fromSequence r = ep_fromSequence e) \<longleftrightarrow> epoch_key e \<in> epoch_key ` S"
    for S :: "lattice_epoch set" by (auto simp: image_iff) metis
  then show ?thesis unfolding insert_lattice_def lattice_rows_set by simp
qed

lemma insert_lattice_tables:
  assumes "tables_ok db" "ep_fromSequence e = num (epoch_from e)" "malformedFrame e = None"
  shows "tables_ok (insert_lattice e db)"
proof -
  have "distinct (map epoch_key (if epoch_key e \<in> epoch_key ` set L then L else L @ [e])) \<and>
      (\<forall>x\<in>set (if epoch_key e \<in> epoch_key ` set L then L else L @ [e]). P x)"
    if "distinct (map epoch_key L)" "\<forall>x\<in>set L. P x" "P e" for L P
    using that by simp
  then show ?thesis using assms unfolding tables_ok_def untouched insert_lattice_rows by blast
qed

lemma insert_seam_tables:
  assumes "tables_ok db" "u \<in> set (rows db (rs_assetId s))" "rs_resumesAtSequence s \<le> sequence u"
  shows "tables_ok (insert_seam s db)"
proof -
  have "distinct (map seam_key (or_replace s (seam_rows db)))"
    using assms(1) by (auto simp: tables_ok_def or_replace_def distinct_map inj_on_def)
  moreover have "r = s \<or> r \<in> set (seam_rows db)" if "r \<in> set (or_replace s (seam_rows db))" for r
    using that by (auto simp: or_replace_def)
  then have "\<forall>r\<in>set (or_replace s (seam_rows db)). \<exists>u\<in>set (rows db (rs_assetId r)). rs_resumesAtSequence r \<le> sequence u"
    using assms unfolding tables_ok_def by blast
  ultimately show ?thesis using assms(1) by (simp add: tables_ok_def)
qed

lemma seam_after_key: "seam_after a previous t = Some s \<Longrightarrow> rs_assetId s = a \<and> rs_resumesAtSequence s = sequence t"
  by (auto simp: seamBetween_def split: option.splits if_splits)

lemma sqlite_ticks_tables:
  "sqlite_ticks a frame head ts inForce previous db added = Inr (db', fresh) \<Longrightarrow> malformedFrame frame = None \<Longrightarrow>
    tables_ok db \<Longrightarrow> tables_ok db'"
proof (induction a frame head ts inForce previous db added rule: sqlite_ticks.induct)
  case (2 a frame head t ts inForce previous db added)
  show ?case
  proof (cases "head \<noteq> None \<and> sequence t \<le> the head")
    case True
    then obtain recorded where "read_at db a (sequence t) = Some recorded" "\<not> \<not> sameTick recorded t"
      "sqlite_ticks a frame head ts inForce previous db added = Inr (db', fresh)"
      using 2(3) by (auto simp: sqlite_ticks.simps split: option.splits if_splits)
    from 2(1) [OF True this 2(4,5)] show ?thesis .
  next
    case False
    let ?force = "if opens inForce frame then Some (epoch_at a t frame) else inForce"
    obtain db1 where db1: "insert_tick a t db = Inr db1" using 2(3) False by (auto simp: sqlite_ticks.simps andThen_Inr_iff)
    define db2 where "db2 = (if opens inForce frame then insert_lattice (epoch_at a t frame) db1 else db1)"
    define db3 where "db3 = (case seam_after a previous t of None \<Rightarrow> db2 | Some seam \<Rightarrow> insert_seam seam db2)"
    have run: "sqlite_ticks a frame head ts ?force (Some t) db3 (added @ [t]) = Inr (db', fresh)"
      using 2(3) False db1 unfolding db3_def db2_def by (auto simp: sqlite_ticks.simps Let_def)
    have "ep_fromSequence (epoch_at a t frame) = num (epoch_from (epoch_at a t frame))"
      by (simp add: epoch_at_def epoch_from_def)
    moreover have "malformedFrame (epoch_at a t frame) = malformedFrame frame"
      by (simp add: epoch_at_def malformedFrame_def)
    ultimately have "ep_fromSequence (epoch_at a t frame) = num (epoch_from (epoch_at a t frame))"
      "malformedFrame (epoch_at a t frame) = None" using 2(4) by simp_all
    then have ok2: "tables_ok db2"
      using insert_tick_tables [OF db1 2(5)] insert_lattice_tables by (simp add: db2_def)
    have "t \<in> set (rows db2 a)" using insert_tick_rows(1) [OF db1, of a] by (simp add: db2_def)
    then have ok3: "tables_ok db3"
      using ok2 insert_seam_tables [OF ok2] seam_after_key [where a = a and previous = previous and t = t] unfolding db3_def
      by (cases "seam_after a previous t") auto
    from 2(2) [OF False db2_def db3_def run 2(4) ok3] show ?thesis .
  qed
qed simp

lemma sqlite_batch_tables:
  "sqlite_batch b (db, fresh) = Inr (db', fresh') \<Longrightarrow> tables_ok db \<Longrightarrow> tables_ok db'"
  by (auto simp: sqlite_batch_def Let_def andThen_Inr_iff unless_Inr split: if_splits dest!: sqlite_ticks_tables)

lemma batches_tables:
  "foldE sqlite_batch bs (db, fresh) = Inr (db', fresh') \<Longrightarrow> tables_ok db \<Longrightarrow> tables_ok db'"
proof (induction bs arbitrary: db fresh)
  case (Cons b bs)
  then obtain d f where "sqlite_batch b (db, fresh) = Inr (d, f)" "foldE sqlite_batch bs (d, f) = Inr (db', fresh')"
    by (auto simp: andThen_Inr_iff)
  then show ?case using Cons sqlite_batch_tables by blast
qed simp

lemma sqlite_append_tables: "tables_ok db \<Longrightarrow> tables_ok (fst (sqlite_append bs db))"
  by (auto simp: sqlite_append_def unless_Inr split: sum.splits dest!: batches_tables)

lemma delete_below_tables:
  assumes "tables_ok db" "nth_newest db a n = Some k"
  shows "tables_ok (delete_below a k db)"
proof -
  have rows: "rows (delete_below a k db) b = (if b = a then filter (\<lambda>t. \<not> sequence t < k) (rows db a) else rows db b)" for b
  proof -
    have "map snd (filter (\<lambda>r. fst r = b) (filter (\<lambda>(b, t). \<not> (b = a \<and> sequence t < k)) xs)) =
      (if b = a then filter (\<lambda>t. \<not> sequence t < k) (map snd (filter (\<lambda>r. fst r = a) xs))
       else map snd (filter (\<lambda>r. fst r = b) xs))" for xs
      by (induction xs) auto
    from this [of "db_tick db"] show ?thesis by (simp add: rows_def delete_below_def del: filter_filter)
  qed
  have "k \<in> set (rev (sort (map sequence (rows db a))))"
    using assms(2) unfolding nth_newest_def Let_def by (metis nth_mem option.distinct(1) option.inject)
  then obtain v where v: "v \<in> set (rows db a)" "sequence v = k" by auto
  have "\<exists>w\<in>set (rows (delete_below a k db) b). n \<le> sequence w" if "\<exists>u\<in>set (rows db b). n \<le> sequence u" for b n
  proof -
    from that obtain u where "u \<in> set (rows db b)" "n \<le> sequence u" by blast
    with v show ?thesis by (cases "sequence u < k") (auto simp: rows)
  qed
  moreover have "distinct (map sequence (rows (delete_below a k db) b))" for b
    using assms(1) by (auto simp: rows tables_ok_def distinct_map inj_on_def)
  ultimately show ?thesis using assms(1) by (simp add: tables_ok_def delete_below_def)
qed

lemma sqlite_trim_tables: "tables_ok db \<Longrightarrow> tables_ok (fst (sqlite_trim a keep db))"
  using delete_below_tables by (auto simp: sqlite_trim_def split: option.splits)

lemma sqlite_declare_tables:
  assumes "tables_ok db"
  shows "tables_ok (fst (sqlite_declare a es replace db))"
proof -
  have fold: "tables_ok (fold insert_lattice es d)" if "epochs_ok es" "tables_ok d" for es d
    using that by (induction es arbitrary: d) (auto simp: epochs_ok_def intro!: insert_lattice_tables)
  have "tables_ok (delete_lattice a db)"
    using assms by (auto simp: tables_ok_def delete_lattice_def rows_def distinct_map inj_on_def)
  then show ?thesis using assms fold malformedDeclaration_ok
    by (auto simp: sqlite_declare_def split: option.splits)
qed

lemma sqlite_step_tables: "tables_ok db \<Longrightarrow> tables_ok (fst (sqlite_step op db))"
  using sqlite_append_tables sqlite_trim_tables sqlite_declare_tables by (cases op) simp_all

section \<open>What a read of such tables shows\<close>

lemma sorted_by_key: "distinct (map f xs) \<Longrightarrow> sorted_wrt (<) (map f (sort_key f xs))"
  by (simp add: strict_sorted_iff distinct_map)

lemma tables_rows: "tables_ok db \<Longrightarrow> sorted_wrt (<) (map sequence (rows_by_sequence db a))"
  by (simp add: rows_by_sequence_def tables_ok_def sorted_by_key)

lemma tables_reached:
  assumes "tables_ok db" "u \<in> set (rows db a)" "n \<le> sequence u"
  shows "reached (rows_by_sequence db a) n"
  using le_last [OF tables_rows [OF assms(1)], of u a] assms(2,3) by (auto simp: reached_def rows_empty)

lemma tables_seams:
  assumes "tables_ok db"
  shows "sorted_wrt (<) (map rs_resumesAtSequence (sqlite_seams db a))"
    "\<forall>s\<in>set (sqlite_seams db a). rs_assetId s = a \<and> reached (rows_by_sequence db a) (rs_resumesAtSequence s)"
proof -
  have eq: "sqlite_seams db a = read_seams db a" by (simp add: sqlite_seams_def read_seams_def)
  have "inj_on seam_key (set (seam_rows db))" "distinct (seam_rows db)" using assms by (simp_all add: tables_ok_def distinct_map)
  then have "distinct (map rs_resumesAtSequence (filter (\<lambda>r. rs_assetId r = a) (seam_rows db)))"
    by (auto simp: distinct_map inj_on_def)
  then show "sorted_wrt (<) (map rs_resumesAtSequence (sqlite_seams db a))" by (simp add: eq read_seams_def sorted_by_key)
  show "\<forall>s\<in>set (sqlite_seams db a). rs_assetId s = a \<and> reached (rows_by_sequence db a) (rs_resumesAtSequence s)"
    using assms tables_reached [OF assms] by (auto simp: eq read_seams_def tables_ok_def)
qed

lemma tables_epochs:
  assumes "tables_ok db"
  shows "sorted_wrt (<) (map epoch_from (sqlite_frames db a))"
    "\<forall>e\<in>set (sqlite_frames db a). ep_assetId e = a \<and> malformedFrame e = None"
proof -
  have eq: "sqlite_frames db a = read_lattices db a" by (simp add: sqlite_frames_def read_lattices_def)
  have key: "inj_on epoch_key (set (lattice_rows db))" "distinct (lattice_rows db)"
    and num: "\<And>e. e \<in> set (lattice_rows db) \<Longrightarrow> ep_fromSequence e = num (epoch_from e)"
    using assms by (simp_all add: tables_ok_def distinct_map)
  have "e = f" if "e \<in> set (lattice_rows db)" "f \<in> set (lattice_rows db)" "ep_assetId e = ep_assetId f" "epoch_from e = epoch_from f" for e f
    using inj_onD [OF key(1) _ that(1,2)] num that by simp
  then have "distinct (map epoch_from (filter (\<lambda>r. ep_assetId r = a) (lattice_rows db)))"
    using key(2) by (auto simp: distinct_map inj_on_def)
  then show "sorted_wrt (<) (map epoch_from (sqlite_frames db a))" by (simp add: eq read_lattices_def sorted_by_key)
  show "\<forall>e\<in>set (sqlite_frames db a). ep_assetId e = a \<and> malformedFrame e = None"
    using assms by (auto simp: eq read_lattices_def tables_ok_def)
qed

end
