(* ===== verification/RecordRuns.thy ===== *)
theory RecordRuns
  imports RecordTables
begin

text \<open>
  Runs of the published record: what holds of any store that keeps the contract of \<open>TickRecord\<close>
  after any sequence of appends, trims and declarations, proved once in the locale and read off for
  the record in SQLite; the two implementations answer alike; and the places where the code departs
  from what its comments promise, as evaluated examples.
\<close>

section \<open>Runs\<close>

fun run_ops :: "('op \<Rightarrow> 's \<Rightarrow> 's \<times> 'r) \<Rightarrow> 'op list \<Rightarrow> 's \<Rightarrow> 's \<times> 'r list" where
  "run_ops step [] s = (s, [])"
| "run_ops step (op # ops) s = (let (s1, r) = step op s; (s2, rs) = run_ops step ops s1 in (s2, r # rs))"

definition abstract_step :: "record_op \<Rightarrow> record_logs \<Rightarrow> record_logs \<times> record_answer result" where
  "abstract_step op L = (case spec_step op L of Inl e \<Rightarrow> (L, Inl e) | Inr (L', ans) \<Rightarrow> (L', Inr ans))"

fun run_allowed :: "record_op list \<Rightarrow> record_logs \<Rightarrow> bool" where
  "run_allowed [] L \<longleftrightarrow> True"
| "run_allowed (op # ops) L \<longleftrightarrow> allowed op L \<and> run_allowed ops (fst (abstract_step op L))"

context record_store
begin

lemma step_abstract:
  assumes "sound s" "allowed op (log_of s)"
  obtains s' where "step op s = (s', snd (abstract_step op (log_of s)))" "sound s'"
    "log_of s' = fst (abstract_step op (log_of s))"
proof (cases "spec_step op (log_of s)")
  case (Inl e)
  then have "step op s = (s, Inl e)" using refuses assms by blast
  then show ?thesis using that [of s] assms(1) Inl by (simp add: abstract_step_def)
next
  case (Inr La)
  obtain L ans where La: "La = (L, ans)" by fastforce
  with Inr obtain s' where s': "step op s = (s', Inr ans)" "log_of s' = L" "ready s'"
    using steps assms by blast
  have "logs_ok L" using spec_step_ok assms Inr La by blast
  then show ?thesis using that [of s'] s' Inr La by (simp add: abstract_step_def)
qed

lemma run_abstract:
  "sound s \<Longrightarrow> run_allowed ops (log_of s) \<Longrightarrow>
     \<exists>s'. run_ops step ops s = (s', snd (run_ops abstract_step ops (log_of s))) \<and> sound s' \<and>
       log_of s' = fst (run_ops abstract_step ops (log_of s))"
proof (induction ops arbitrary: s)
  case (Cons op ops)
  then obtain s1 where s1: "step op s = (s1, snd (abstract_step op (log_of s)))" "sound s1"
      "log_of s1 = fst (abstract_step op (log_of s))"
    using step_abstract [of s op] by auto
  from Cons.IH [OF s1(2)] Cons.prems(2) s1 show ?case
    by (auto simp: Let_def split: prod.splits)
qed auto

lemma run_reads:
  assumes "sound s" "run_allowed ops (log_of s)" "timely q (fst (run_ops abstract_step ops (log_of s)))"
  shows "read q (fst (run_ops step ops s)) = spec_read q (fst (run_ops abstract_step ops (log_of s)))"
  using run_abstract [OF assms(1,2)] assms(3) reads by fastforce

end

text \<open>Two stores of one contract.\<close>

locale two_stores = one: record_store step1 read1 log1 ready1 + two: record_store step2 read2 log2 ready2
  for step1 :: "record_op \<Rightarrow> 's \<Rightarrow> 's \<times> record_answer result" and read1 log1 ready1
    and step2 :: "record_op \<Rightarrow> 't \<Rightarrow> 't \<times> record_answer result" and read2 log2 ready2
begin

lemma agree:
  assumes "one.sound s" "two.sound t" "log1 s = log2 t" "run_allowed ops (log1 s)"
  shows "snd (run_ops step1 ops s) = snd (run_ops step2 ops t) \<and>
    log1 (fst (run_ops step1 ops s)) = log2 (fst (run_ops step2 ops t)) \<and>
    (timely q (log1 (fst (run_ops step1 ops s))) \<longrightarrow>
       read1 q (fst (run_ops step1 ops s)) = read2 q (fst (run_ops step2 ops t)))"
  using one.run_abstract [OF assms(1,4)] two.run_abstract [OF assms(2)] assms(3,4)
    one.reads two.reads by fastforce

end

interpretation stores: two_stores memory_step memory_read memory_logs memory_ready
  sqlite_step sqlite_read sqlite_logs sqlite_ready ..

definition fresh_sqlite :: sqlite_record where
  "fresh_sqlite = \<lparr>db_readOnly = False, db_version = 3, db_tick = [], db_seam = Some [], db_lattice = Some []\<rparr>"

lemma fresh_sqlite: "new_SqliteTickRecord fresh_file False = Inr fresh_sqlite"
  by (simp add: new_SqliteTickRecord_def fresh_file_def fresh_sqlite_def RECORD_SCHEMA_VERSION_def backfill_def)

lemma logs_ok_empty [simp]: "logs_ok (\<lambda>_. no_log)"
  by (simp add: logs_ok_def log_ok_def no_log_def)

lemma fresh_logs [simp]:
  "memory_logs empty_memory = (\<lambda>_. no_log)" "memory_ready empty_memory"
  "sqlite_logs fresh_sqlite = (\<lambda>_. no_log)" "sqlite_ready fresh_sqlite"
  by (auto simp: memory_logs_def empty_memory_def no_log_def held_def memory_ready_def sqlite_logs_def
    fresh_sqlite_def rows_by_sequence_def rows_def read_seams_def read_lattices_def sqlite_ready_def)

text \<open>C36: the two records are one, within two conditions. Started empty, after any run of appends, trims and
  declarations whose epochs start at sequences the record had reached (\<open>run_allowed\<close>), the record in
  memory and the record in SQLite have answered every call alike, refusals included, and answer every
  query alike, those by instant (\<open>atOrBefore\<close>, \<open>seamAt\<close>) when the asset's recorded instants and seams do
  not go back (\<open>timely\<close>). Outside the conditions they part: \<open>declared_ahead_misreads\<close>, \<open>time_back_disagrees\<close>.\<close>

theorem record_stores_agree:
  assumes "run_allowed ops (\<lambda>_. no_log)"
    and "run_ops memory_step ops empty_memory = (m, answers)"
  shows "\<exists>db. run_ops sqlite_step ops fresh_sqlite = (db, answers) \<and>
    (timely q (memory_logs m) \<longrightarrow> memory_read q m = sqlite_read q db)"
proof -
  obtain db answers' where db: "run_ops sqlite_step ops fresh_sqlite = (db, answers')" by fastforce
  show ?thesis using stores.agree [of empty_memory fresh_sqlite ops q] assms db by simp
qed

section \<open>Every jump is a seam\<close>

definition seamed :: "record_logs \<Rightarrow> bool" where
  "seamed L \<longleftrightarrow> (\<forall>a. set (jumps a None (al_ticks (L a))) \<subseteq> set (al_seams (L a)))"

lemma jumps_prev: "set (jumps a None ts) \<subseteq> set (jumps a p ts)"
  by (cases ts) auto

lemma jumps_drop: "set (jumps a None (drop k ts)) \<subseteq> set (jumps a None ts)"
  using jumps_append [of a None "take k ts" "drop k ts"] jumps_prev [of a "drop k ts"] by fastforce

lemma jumps_nth:
  "Suc i < length ts \<Longrightarrow> seamBetween a (ts ! i) (ts ! Suc i) = Some s \<Longrightarrow> s \<in> set (jumps a p ts)"
proof (induction ts arbitrary: i p)
  case (Cons t ts)
  show ?case
  proof (cases i)
    case 0
    then show ?thesis using Cons.prems by (cases ts) auto
  next
    case (Suc k)
    then have "s \<in> set (jumps a (Some t) ts)" using Cons by simp
    then show ?thesis by simp
  qed
qed simp

lemma log_append_seamed:
  assumes "log_append b l = Inr (l', ts)" "set (jumps (ab_assetId b) None (al_ticks l)) \<subseteq> set (al_seams l)"
  shows "set (jumps (ab_assetId b) None (al_ticks l')) \<subseteq> set (al_seams l')"
  using assms(2) log_append_cases(5) [OF assms(1)] by (auto simp: jumps_append last_option_def)

lemma logs_append_seamed: "logs_append bs L = Inr (L', fresh) \<Longrightarrow> seamed L \<Longrightarrow> seamed L'"
proof (induction bs arbitrary: L fresh)
  case (Cons b bs)
  then obtain l ts fresh' where l: "log_append b (L (ab_assetId b)) = Inr (l, ts)"
      "logs_append bs (L(ab_assetId b := l)) = Inr (L', fresh')"
    by (auto simp: andThen_Inr_iff)
  have "seamed (L(ab_assetId b := l))" using log_append_seamed [OF l(1)] Cons.prems(2) by (auto simp: seamed_def)
  then show ?case using Cons.IH l(2) by blast
qed simp

lemma abstract_step_seamed: "seamed L \<Longrightarrow> seamed (fst (abstract_step op L))"
proof (cases "spec_step op L")
  case (Inr La)
  assume s: "seamed L"
  obtain L' ans where La: "La = (L', ans)" by fastforce
  have "seamed L'"
  proof (cases op)
    case (Append bs)
    then show ?thesis using Inr La s logs_append_seamed [of bs L]
      by (auto simp: unless_Inr map_answer_def andThen_Inr_iff)
  next
    case (Trim a keep)
    then show ?thesis using Inr La s jumps_drop by (fastforce simp: unless_Inr seamed_def)
  next
    case (Declare a es replace)
    then have "al_ticks (L' b) = al_ticks (L b) \<and> al_seams (L' b) = al_seams (L b)" for b
      using Inr La by (auto simp: unless_Inr split: if_splits)
    then show ?thesis using s by (simp add: seamed_def)
  qed
  then show ?thesis using Inr La by (simp add: abstract_step_def)
qed (simp add: abstract_step_def)

lemma run_seamed: "seamed L \<Longrightarrow> seamed (fst (run_ops abstract_step ops L))"
proof (induction ops arbitrary: L)
  case (Cons op ops)
  have "seamed (fst (abstract_step op L))" using Cons.prems by (rule abstract_step_seamed)
  then show ?case using Cons.IH [of "fst (abstract_step op L)"] by (auto simp: Let_def split: prod.splits)
qed simp

lemma seamed_empty: "seamed (\<lambda>_. no_log)"
  by (simp add: seamed_def no_log_def)

lemma sqlite_run:
  assumes "run_allowed ops (\<lambda>_. no_log)" "run_ops sqlite_step ops fresh_sqlite = (db, answers)"
  shows "sqlite.sound db" "seamed (sqlite_logs db)"
  using sqlite.run_abstract [of fresh_sqlite ops] assms run_seamed [OF seamed_empty, of ops] by auto

text \<open>C37: no price inside a gap, as long as time does not go back. After any run of the record in SQLite whose
  declared epochs start at sequences it had reached (\<open>run_allowed\<close>), when the instants of the asset's ticks
  and of its seams do not go back (\<open>log_timely\<close>), an instant strictly between two neighbouring recorded
  ticks whose sequences jump is answered with the seam between exactly those two, whichever append or
  process met the jump.\<close>

theorem gap_has_its_seam:
  assumes "run_allowed ops (\<lambda>_. no_log)" "run_ops sqlite_step ops fresh_sqlite = (db, answers)"
    and "log_timely (sqlite_logs db a)" "Suc i < length (rows_by_sequence db a)"
    and "rows_by_sequence db a ! i = t" "rows_by_sequence db a ! Suc i = u" "sequence u \<noteq> sequence t + 1"
    and "instant t < x" "x < instant u" "\<bar>x\<bar> \<le> MAX_SAFE"
  shows "sqlite_seamAt db a (num x) = Inr (Some \<lparr>rs_assetId = a, rs_lastSequence = sequence t, rs_lastInstant = instant t,
    rs_resumesAtSequence = sequence u, rs_resumesAtInstant = instant u\<rparr>)"
proof -
  define s where "s = \<lparr>rs_assetId = a, rs_lastSequence = sequence t, rs_lastInstant = instant t,
    rs_resumesAtSequence = sequence u, rs_resumesAtInstant = instant u\<rparr>"
  have sound: "sqlite.sound db" "seamed (sqlite_logs db)" using sqlite_run [OF assms(1,2)] by blast+
  have "seamBetween a (rows_by_sequence db a ! i) (rows_by_sequence db a ! Suc i) = Some s"
    using assms(5-7) by (simp add: seamBetween_def s_def)
  then have s: "s \<in> set (read_seams db a)"
    using jumps_nth [OF assms(4), of a s None] sound(2) unfolding seamed_def by auto
  let ?P = "\<lambda>r. rs_lastInstant r < x \<and> x < rs_resumesAtInstant r"
  have "?P s" using assms(8,9) by (simp add: s_def)
  moreover have "r = s" if "r \<in> set (read_seams db a)" "?P r" for r
    using seams_disjoint [of "read_seams db a" r s x] assms(3) that s \<open>?P s\<close> by (simp add: log_timely_def)
  ultimately have "find ?P (read_seams db a) = Some s"
    using find_unique [of "filter ?P (read_seams db a)" "[s]" ?P] s
    by (cases "find ?P (read_seams db a)") (metis find_None_iff, metis find_Some_iff nth_mem)
  moreover have "sqlite_read (SeamAt a (num x)) db = spec_read (SeamAt a (num x)) (sqlite_logs db)"
    using sound(1) assms(3) by (intro sqlite.reads) auto
  ultimately have "map_answer OneSeam (sqlite_seamAt db a (num x)) = Inr (OneSeam (Some s))"
    using assms(10) by (simp add: badInstant_def)
  then show ?thesis by (auto simp: s_def map_answer_def andThen_Inr_iff)
qed

section \<open>Replay\<close>

lemma find_held: "distinct (map sequence hs) \<Longrightarrow> t \<in> set hs \<Longrightarrow> find (\<lambda>u. sequence u = sequence t) hs = Some t"
  by (induction hs) (auto simp: rev_image_eqI)

lemma check_held_all: "distinct (map sequence hs) \<Longrightarrow> set ts \<subseteq> set hs \<Longrightarrow> check_held hs ts = Inr ()"
  by (induction ts) (auto simp: find_held)

lemma check_held_set: "check_held hs ts = Inr () \<Longrightarrow> set ts \<subseteq> set hs"
  by (induction ts) (auto simp: find_Some_iff split: option.splits if_splits)

lemma log_append_replay:
  assumes "log_ok (ab_assetId b) l" "log_append b l = Inr (l', ts)"
  shows "log_append b l' = Inr (l', [])"
proof -
  note c = log_append_cases [OF assms(2)]
  have ok: "log_ok (ab_assetId b) l'" using log_append_ok [OF assms(1) refl assms(2)] .
  then have sorted: "sorted_wrt (<) (map sequence (al_ticks l'))" by (simp add: log_ok_def)
  have held: "set (ab_ticks b) \<subseteq> set (al_ticks l')"
    using check_held_set [OF c(3)] by (auto simp: c(4,5))
  then have "reached (al_ticks l') (sequence t)" if "t \<in> set (ab_ticks b)" for t
    using that last_reached [OF sorted] by blast
  then have "filter (\<lambda>t. reached (al_ticks l') (sequence t)) (ab_ticks b) = ab_ticks b"
      "filter (\<lambda>t. \<not> reached (al_ticks l') (sequence t)) (ab_ticks b) = []"
    by (auto simp: filter_id_conv filter_empty_conv)
  moreover have "check_held (al_ticks l') (ab_ticks b) = Inr ()"
    using sorted held by (intro check_held_all) (auto simp: strict_sorted_iff)
  ultimately show ?thesis using c(1,2) by (simp add: log_append_def Let_def opened_def)
qed

lemma logs_append_other: "logs_append bs L = Inr (L', fresh) \<Longrightarrow> a \<notin> ab_assetId ` set bs \<Longrightarrow> L' a = L a"
  by (induction bs arbitrary: L fresh) (fastforce simp: andThen_Inr_iff)+

lemma logs_append_replay:
  assumes "logs_append bs L = Inr (L', fresh)" "logs_ok L" "distinct (map ab_assetId bs)"
  shows "logs_append bs L' = Inr (L', map_option (\<lambda>_. []) \<circ> fresh)"
  using assms
proof (induction bs arbitrary: L fresh)
  case (Cons b bs)
  let ?a = "ab_assetId b"
  obtain l ts fresh' where l: "log_append b (L ?a) = Inr (l, ts)"
      "logs_append bs (L(?a := l)) = Inr (L', fresh')" "fresh = fresh'(?a \<mapsto> ts)"
    using Cons.prems(1) by (auto simp: andThen_Inr_iff)
  have ok: "log_ok ?a (L ?a)" using Cons.prems(2) by (simp add: logs_ok_def)
  have "logs_ok (L(?a := l))" using Cons.prems(2) log_append_ok [OF ok refl l(1)] by (simp add: logs_ok_def)
  moreover have "distinct (map ab_assetId bs)" using Cons.prems(3) by simp
  ultimately have IH: "logs_append bs L' = Inr (L', map_option (\<lambda>_. []) \<circ> fresh')" by (rule Cons.IH [OF l(2)])
  have la: "L' ?a = l" using logs_append_other [OF l(2), of ?a] Cons.prems(3) by simp
  then have "L'(?a := l) = L'" by auto
  then have "logs_append (b # bs) L' = Inr (L', (map_option (\<lambda>_. []) \<circ> fresh')(?a \<mapsto> []))"
    using IH log_append_replay [OF ok l(1)] la by simp
  moreover have "map_option (\<lambda>_. [] :: tick list) \<circ> fresh = (map_option (\<lambda>_. []) \<circ> fresh')(?a \<mapsto> [])"
    by (auto simp: l(3))
  ultimately show ?case by (simp only:)
qed auto

text \<open> a replayed pass publishes nothing twice. When the record has accepted a pass, the same pass offered
  again, as a market resumed from its checkpoint does, is accepted, answers no tick as new for any
  asset, and leaves every answer of the record as it was.\<close>

theorem replayed_pass_adds_nothing:
  assumes "run_allowed ops (\<lambda>_. no_log)" "run_ops sqlite_step ops fresh_sqlite = (db, answers)"
    and "sqlite_append bs db = (db', Inr fresh)"
  shows "\<exists>db''. sqlite_append bs db' = (db'', Inr (map_option (\<lambda>_. []) \<circ> fresh)) \<and>
    (timely q (sqlite_logs db') \<longrightarrow> sqlite_read q db'' = sqlite_read q db')"
proof -
  have sound: "sqlite.sound db" using sqlite_run [OF assms(1,2)] by blast
  have step: "sqlite_step (Append bs) db = (db', Inr (Fresh fresh))" using assms(3) by simp
  from sqlite.step_spec [OF sound _ step] have s': "sqlite.sound db'"
    "spec_step (Append bs) (sqlite_logs db) = Inr (sqlite_logs db', Fresh fresh)" by auto
  then have "logs_append bs (sqlite_logs db) = Inr (sqlite_logs db', fresh)" "malformedPass (map ab_assetId bs) = None"
    by (auto simp: unless_Inr map_answer_def andThen_Inr_iff)
  then have replay: "logs_append bs (sqlite_logs db') = Inr (sqlite_logs db', map_option (\<lambda>_. []) \<circ> fresh)"
    and pass: "malformedPass (map ab_assetId bs) = None"
    using logs_append_replay [of bs "sqlite_logs db"] sound by (simp_all add: malformedPass_distinct)
  then have again: "spec_step (Append bs) (sqlite_logs db') = Inr (sqlite_logs db', Fresh (map_option (\<lambda>_. []) \<circ> fresh))"
    by simp
  obtain db'' r where step': "sqlite_append bs db' = (db'', r)" by fastforce
  from sqlite.step_spec [OF s'(1), of "Append bs" db'' "map_answer Fresh r"] step' again
  have "sqlite.sound db''" "sqlite_logs db'' = sqlite_logs db'" "r = Inr (map_option (\<lambda>_. []) \<circ> fresh)"
    by (cases r; auto)+
  then show ?thesis using step' s'(1) sqlite.reads [of db'' q] sqlite.reads [of db' q] by auto
qed

section \<open>A recorded price keeps its unit\<close>

lemma sameFrame_sym: "sameFrame a b \<Longrightarrow> sameFrame b a"
  by (auto simp: sameFrame_def js_eq_def)

lemma in_force_append:
  "frame_in_force (es @ fs) n = (case frame_in_force fs n of Some e \<Rightarrow> Some e | None \<Rightarrow> frame_in_force es n)"
  by (induction es) (auto split: option.splits)

lemma in_force_last:
  assumes "epochs_ok es" "es \<noteq> []" "\<forall>e \<in> set es. epoch_from e \<le> n"
  shows "frame_in_force es n = Some (last es)"
proof -
  have "epoch_from e \<le> epoch_from (last es)" if "e \<in> set es" for e
    using assms(1) that by (auto simp: epochs_ok_def intro: le_last)
  then show ?thesis using assms by (auto simp: frame_in_force_Some)
qed

lemma log_append_frames:
  assumes "log_ok (ab_assetId b) l" "log_append b l = Inr (l', ts)"
  shows "t \<in> set ts \<Longrightarrow> \<exists>e. frame_in_force (al_frames l') (sequence t) = Some e \<and> sameFrame e (ab_frame b)"
    "reached (al_ticks l) n \<Longrightarrow> frame_in_force (al_frames l') n = frame_in_force (al_frames l) n"
proof -
  note c = log_append_cases [OF assms(2)]
  let ?op = "opened (ab_assetId b) (ab_frame b) (last_option (al_frames l)) ts"
  have sorted: "sorted_wrt (<) (map sequence ts)"
    using c(2,4) by (simp add: malformedBatch_iff sorted_wrt_map sorted_wrt_filter)
  have new: "\<not> reached (al_ticks l) (sequence t)" if "t \<in> set ts" for t using that c(4) by simp
  have frames: "al_frames l' = al_frames l @ ?op" by (simp add: c(5))
  have old: "epochs_ok (al_frames l)" "\<forall>e \<in> set (al_frames l). reached (al_ticks l) (epoch_from e)"
    using assms(1) by (auto simp: log_ok_def)
  show "frame_in_force (al_frames l') n = frame_in_force (al_frames l) n" if n: "reached (al_ticks l) n"
  proof -
    have "n < epoch_from e" if "e \<in> set ?op" for e
      using opened_rows [OF that] new [of "hd ts"] n by (auto simp: reached_def)
    then have "frame_in_force ?op n = None" by (simp add: frame_in_force_None)
    then show ?thesis by (simp add: frames in_force_append)
  qed
  show "\<exists>e. frame_in_force (al_frames l') (sequence t) = Some e \<and> sameFrame e (ab_frame b)" if t: "t \<in> set ts"
  proof (cases "opens (last_option (al_frames l)) (ab_frame b)")
    case True
    have first: "sequence (hd ts) \<le> sequence t" using sorted t by (cases ts) (auto intro: less_imp_le)
    have op: "?op = [epoch_at (ab_assetId b) (hd ts) (ab_frame b)]" using True t by (auto simp: opened_def)
    then have "frame_in_force ?op (sequence t) = Some (epoch_at (ab_assetId b) (hd ts) (ab_frame b))"
      using first by simp
    then show ?thesis using well_formed_frame [OF c(1)] by (simp add: frames in_force_append)
  next
    case False
    then have ne: "al_frames l \<noteq> []" "sameFrame (last (al_frames l)) (ab_frame b)" "?op = []"
      by (auto simp: opened_def last_option_def split: if_splits)
    have "\<forall>e \<in> set (al_frames l). epoch_from e \<le> sequence t" using old(2) new [OF t] by (auto simp: reached_def)
    then show ?thesis using in_force_last [OF old(1) ne(1)] ne(2,3) by (simp add: frames)
  qed
qed

lemma logs_append_one:
  assumes "logs_append bs L = Inr (L', fresh)" "distinct (map ab_assetId bs)" "b \<in> set bs"
  obtains ts where "log_append b (L (ab_assetId b)) = Inr (L' (ab_assetId b), ts)" "fresh (ab_assetId b) = Some ts"
  using assms
proof (induction bs arbitrary: L fresh thesis)
  case (Cons c bs)
  let ?c = "ab_assetId c"
  obtain l ts fresh' where l: "log_append c (L ?c) = Inr (l, ts)"
      "logs_append bs (L(?c := l)) = Inr (L', fresh')" "fresh = fresh'(?c \<mapsto> ts)"
    using Cons.prems(2) by (auto simp: andThen_Inr_iff)
  show ?case
  proof (cases "b = c")
    case True
    have "L' ?c = l" using logs_append_other [OF l(2), of ?c] Cons.prems(3) by simp
    then show ?thesis using Cons.prems(1) l(1,3) True by simp
  next
    case False
    then have b: "b \<in> set bs" "ab_assetId b \<noteq> ?c" using Cons.prems(3,4) by (auto simp: rev_image_eqI)
    have d: "distinct (map ab_assetId bs)" using Cons.prems(3) by simp
    obtain ts' where "log_append b ((L(?c := l)) (ab_assetId b)) = Inr (L' (ab_assetId b), ts')" "fresh' (ab_assetId b) = Some ts'"
      by (rule Cons.IH [OF _ l(2) d b(1)])
    then show ?thesis using Cons.prems(1) b(2) l(3) by simp
  qed
qed simp

lemma frameAt_answer:
  assumes "sqlite.sound db" "1 \<le> n"
  shows "sqlite_frameAt db a (num n) = Inr (frame_in_force (read_lattices db a) n)"
proof -
  have "sqlite_read (FrameAt a (num n)) db = spec_read (FrameAt a (num n)) (sqlite_logs db)"
    using assms(1) by (intro sqlite.reads) auto
  then show ?thesis using assms(2) by (auto simp: badSequence_def map_answer_def andThen_Inr_iff)
qed

text \<open>C38: a recorded price keeps its unit, as long as no epoch was declared ahead of the record. After any run
  whose declared epochs start at sequences the record had reached (\<open>run_allowed\<close>), when a pass is accepted,
  each tick it added reads back under the frame its batch was generated in, and every tick at or below the
  head of before reads back under the frame it read under before, so no release reinterprets the retained
  past. With an epoch declared ahead an added tick may read back in another frame (\<open>declared_ahead_misreads\<close>).\<close>

theorem recorded_price_keeps_frame:
  assumes "run_allowed ops (\<lambda>_. no_log)" "run_ops sqlite_step ops fresh_sqlite = (db, answers)"
    and "sqlite_append bs db = (db', Inr fresh)" "b \<in> set bs" "1 \<le> n"
  shows "(\<forall>t \<in> set (the (fresh (ab_assetId b))). 1 \<le> sequence t \<longrightarrow>
      (\<exists>e. sqlite_frameAt db' (ab_assetId b) (num (sequence t)) = Inr (Some e) \<and> sameFrame e (ab_frame b))) \<and>
    (reached (rows_by_sequence db (ab_assetId b)) n \<longrightarrow>
      sqlite_frameAt db' (ab_assetId b) (num n) = sqlite_frameAt db (ab_assetId b) (num n))"
proof -
  have sound: "sqlite.sound db" using sqlite_run [OF assms(1,2)] by blast
  have step: "sqlite_step (Append bs) db = (db', Inr (Fresh fresh))" using assms(3) by simp
  from sqlite.step_spec [OF sound _ step] have s': "sqlite.sound db'"
    "spec_step (Append bs) (sqlite_logs db) = Inr (sqlite_logs db', Fresh fresh)" by auto
  then have l: "logs_append bs (sqlite_logs db) = Inr (sqlite_logs db', fresh)" "distinct (map ab_assetId bs)"
    by (auto simp: unless_Inr map_answer_def andThen_Inr_iff malformedPass_distinct)
  obtain ts where ts: "log_append b (sqlite_logs db (ab_assetId b)) = Inr (sqlite_logs db' (ab_assetId b), ts)"
      "fresh (ab_assetId b) = Some ts"
    by (rule logs_append_one [OF l assms(4)])
  have ok: "log_ok (ab_assetId b) (sqlite_logs db (ab_assetId b))" using sound by (simp add: logs_ok_def)
  show ?thesis
    using log_append_frames [OF ok ts(1)] ts(2) frameAt_answer [OF s'(1)] frameAt_answer [OF sound assms(5)] assms(5)
    by auto
qed

section \<open>Upgrading a file\<close>

lemma or_replace_kept:
  assumes "s \<in> set ss \<or> s \<in> set bs"
    and "\<forall>r \<in> set bs. rs_assetId r = rs_assetId s \<and> rs_resumesAtSequence r = rs_resumesAtSequence s \<longrightarrow> r = s"
  shows "s \<in> set (fold or_replace bs ss)"
  using assms
proof (induction bs arbitrary: ss)
  case (Cons b bs)
  have "s \<in> set (or_replace b ss) \<or> s \<in> set bs" using Cons.prems by (auto simp: or_replace_def)
  with Cons show ?case by simp
qed simp

text \<open>A file of an older version is brought forward with the seams it already shows: after the upgrade every
  jump between two retained rows of an asset is a row of the seam table. The keys of the tick table are
  distinct, as its primary key keeps them.\<close>

theorem upgrade_backfills_seams:
  assumes "new_SqliteTickRecord file False = Inr db" "rf_version file < 3" "rf_tick file = Some ts"
    and "distinct (map (\<lambda>(a, t). (a, sequence t)) ts)"
  shows "set (jumps a None (rows_by_sequence db a)) \<subseteq> set (read_seams db a)"
proof
  fix s assume s: "s \<in> set (jumps a None (rows_by_sequence db a))"
  define rs where "rs b = sort_key sequence (map snd (filter (\<lambda>r. fst r = b) ts))" for b
  have db: "rows_by_sequence db b = rs b" "seam_rows db = fold or_replace (backfill ts) (case rf_seam file of None \<Rightarrow> [] | Some ss \<Rightarrow> ss)" for b
    using assms(1-3) by (auto simp: new_SqliteTickRecord_def RECORD_SCHEMA_VERSION_def rows_by_sequence_def rows_def rs_def Let_def)
  have sorted: "sorted_wrt (<) (map sequence (rs b))" for b
  proof -
    have "distinct (map (\<lambda>(a, t). (a, sequence t)) (filter (\<lambda>r. fst r = b) ts))"
      using assms(4) by (simp add: distinct_map_filter)
    then have "distinct (map sequence (map snd (filter (\<lambda>r. fst r = b) ts)))"
      by (auto simp: distinct_map inj_on_def)
    then have "inj_on sequence (snd ` {r \<in> set ts. fst r = b})" "distinct (map snd (filter (\<lambda>r. fst r = b) ts))"
      by (auto simp: distinct_map inj_on_def)
    then have "distinct (map sequence (rs b))" by (simp add: rs_def distinct_map)
    then show ?thesis by (simp add: strict_sorted_iff rs_def)
  qed
  have fill: "backfill ts = concat (map (\<lambda>b. jumps b None (rs b)) (remdups (map fst ts)))"
    by (simp add: backfill_def rs_def)
  have a: "rs_assetId s = a" using jumps_rows [OF s] by simp
  have "rs a \<noteq> []" using s by (auto simp: db)
  then have "filter (\<lambda>r. fst r = a) ts \<noteq> []" by (auto simp: rs_def)
  then have "a \<in> fst ` set ts" by (auto simp: filter_empty_conv)
  then have mem: "s \<in> set (backfill ts)" using s by (auto simp: fill db)
  have "r = s" if "r \<in> set (backfill ts)" "rs_assetId r = a" "rs_resumesAtSequence r = rs_resumesAtSequence s" for r
  proof -
    from that(1) obtain b where b: "r \<in> set (jumps b None (rs b))" by (auto simp: fill)
    then have "b = a" using jumps_rows that(2) by blast
    moreover have "inj_on rs_resumesAtSequence (set (jumps a None (rs a)))"
      using jumps_sorted [OF sorted, of a None a] by (simp add: strict_sorted_iff distinct_map)
    ultimately show ?thesis using b s that(3) by (auto simp: db inj_on_def)
  qed
  then have "s \<in> set (seam_rows db)" unfolding db(2) using mem a by (intro or_replace_kept) auto
  then show "s \<in> set (read_seams db a)" using a by (simp add: read_seams_def)
qed

section \<open>Where the code and its comments part\<close>

definition demo_frame :: price_frame where
  "demo_frame = \<lparr>fr_logQuantum = num 1, fr_referencePrice = num 1, fr_displayPrecision = num 2\<rparr>"

definition demo_finer :: price_frame where
  "demo_finer = demo_frame\<lparr>fr_logQuantum := num 2\<rparr>"

definition row :: "int \<Rightarrow> int \<Rightarrow> tick" where
  "row s i = \<lparr>instant = i, sequence = s, price = 0\<rparr>"

definition demo_batch :: "tick list \<Rightarrow> price_frame \<Rightarrow> asset_batch" where
  "demo_batch ts f = \<lparr>ab_assetId = ''A'', ab_ticks = ts, ab_frame = f\<rparr>"

lemmas demo_eval = demo_frame_def demo_finer_def row_def demo_batch_def malformedFrame_def js_le_def

text \<open>An opened-read-only record still deletes: \<^verbatim>\<open>trim\<close> is the one writer without the read-only guard.\<close>

lemma read_only_record_trims:
  "\<exists>db. new_SqliteTickRecord \<lparr>rf_version = 3, rf_tick = Some [(''A'', row 1 10), (''A'', row 2 20)], rf_seam = Some [], rf_lattice = Some []\<rparr> True = Inr db \<and>
     sqlite_declare ''A'' [] True db = (db, Inl (RangeError ''opened read-only'')) \<and>
     (case sqlite_trim ''A'' (num 1) db of (db', r) \<Rightarrow> r = Inr () \<and> db_tick db' = [(''A'', row 2 20)])"
  by (simp add: new_SqliteTickRecord_def RECORD_SCHEMA_VERSION_def sqlite_declare_def sqlite_trim_def badLimit_def
    count_of_def rows_def nth_newest_def Let_def delete_below_def row_def)

text \<open>A file from before the seam table, opened read-only, has its seams answered as none but throws when asked by instant.\<close>

lemma old_file_seamAt_throws:
  "\<exists>db. new_SqliteTickRecord \<lparr>rf_version = 1, rf_tick = Some [], rf_seam = None, rf_lattice = None\<rparr> True = Inr db \<and>
     sqlite_seams db ''A'' = [] \<and> sqlite_seamAt db ''A'' (num 5) = Inl (TypeError ''undefined'')"
  by (simp add: new_SqliteTickRecord_def RECORD_SCHEMA_VERSION_def sqlite_seams_def sqlite_seamAt_def badInstant_def)

definition demo_db :: sqlite_record where
  "demo_db = \<lparr>db_readOnly = False, db_version = 3, db_tick = [(''A'', row 1 10), (''A'', row 2 20), (''A'', row 5 50)],
     db_seam = Some [\<lparr>rs_assetId = ''A'', rs_lastSequence = 2, rs_lastInstant = 20, rs_resumesAtSequence = 5, rs_resumesAtInstant = 50\<rparr>],
     db_lattice = Some [epoch_at ''A'' (row 1 10) demo_frame]\<rparr>"

definition demo_pass :: "asset_batch list" where
  "demo_pass = [demo_batch [row 1 10, row 2 20, row 5 50] demo_frame]"

lemma row_simps [simp]: "sequence (row s i) = s" "instant (row s i) = i"
  by (simp_all add: row_def)

lemma demo_frame_ok [simp]: "malformedFrame demo_frame = None" "sameFrame demo_frame demo_frame" "\<not> sameFrame demo_frame demo_finer"
  "malformedFrame demo_finer = None"
  by (simp_all add: demo_frame_def demo_finer_def malformedFrame_def sameFrame_def)

lemma demo_append: "sqlite_append demo_pass fresh_sqlite = (demo_db, Inr [''A'' \<mapsto> [row 1 10, row 2 20, row 5 50]])"
  by (auto simp: sqlite_append_def demo_pass_def demo_batch_def fresh_sqlite_def malformedPass_def sqlite_batch_def
    Let_def head_of_def rows_def sqlite_frames_def read_lattices_def sqlite_ticks.simps insert_tick_def
    insert_lattice_def insert_seam_def or_replace_def seamBetween_def demo_db_def)

lemma demo_record_run: "run_ops sqlite_step [Append demo_pass] fresh_sqlite = (demo_db, [Inr (Fresh [''A'' \<mapsto> [row 1 10, row 2 20, row 5 50]])])"
  by (simp add: demo_append)

lemmas memory_eval = memory_append_def memory_stage_def memory_apply_def held_def malformedPass_def demo_batch_def
  Let_def last_option_def

lemmas sqlite_eval = sqlite_append_def sqlite_batch_def head_of_def rows_def sqlite_frames_def read_lattices_def
  sqlite_ticks.simps insert_tick_def insert_lattice_def read_at_def malformedPass_def demo_batch_def Let_def last_option_def

lemma memory_first:
  "memory_append [demo_batch [row 1 10] demo_frame] empty_memory =
     (\<lparr>mt_ticks = [(''A'', [row 1 10])], mt_seams = [], mt_frames = [(''A'', [epoch_at ''A'' (row 1 10) demo_frame])]\<rparr>,
      Inr [''A'' \<mapsto> [row 1 10]])"
  by (simp add: memory_eval empty_memory_def)

lemma sqlite_first:
  "sqlite_append [demo_batch [row 1 10] demo_frame] fresh_sqlite =
     (\<lparr>db_readOnly = False, db_version = 3, db_tick = [(''A'', row 1 10)], db_seam = Some [],
       db_lattice = Some [epoch_at ''A'' (row 1 10) demo_frame]\<rparr>, Inr [''A'' \<mapsto> [row 1 10]])"
  by (simp add: sqlite_eval fresh_sqlite_def)

text \<open>
  Instants may go back from one pass to the next, and then the two records answer the settlement query
  differently: the one in memory stops at the first later tick, the one in SQLite takes the newest instant.
\<close>

definition earlier_pass :: "asset_batch list" where
  "earlier_pass = [demo_batch [row 2 5] demo_frame]"

lemma memory_back:
  "fst (memory_append earlier_pass (fst (memory_append [demo_batch [row 1 10] demo_frame] empty_memory))) =
     \<lparr>mt_ticks = [(''A'', [row 1 10, row 2 5])], mt_seams = [], mt_frames = [(''A'', [epoch_at ''A'' (row 1 10) demo_frame])]\<rparr>"
  unfolding memory_first by (simp add: earlier_pass_def memory_eval seamBetween_def)

lemma sqlite_back:
  "fst (sqlite_append earlier_pass (fst (sqlite_append [demo_batch [row 1 10] demo_frame] fresh_sqlite))) =
     \<lparr>db_readOnly = False, db_version = 3, db_tick = [(''A'', row 1 10), (''A'', row 2 5)], db_seam = Some [],
       db_lattice = Some [epoch_at ''A'' (row 1 10) demo_frame]\<rparr>"
  unfolding sqlite_first by (auto simp: earlier_pass_def sqlite_eval seamBetween_def)

lemma time_back_disagrees:
  "memory_atOrBefore (fst (memory_append earlier_pass (fst (memory_append [demo_batch [row 1 10] demo_frame] empty_memory)))) ''A'' (num 7) = Inr None"
  "sqlite_atOrBefore (fst (sqlite_append earlier_pass (fst (sqlite_append [demo_batch [row 1 10] demo_frame] fresh_sqlite)))) ''A'' (num 7) = Inr (Some (row 2 5))"
  unfolding memory_back sqlite_back
  by (simp_all add: memory_atOrBefore_def sqlite_atOrBefore_def badInstant_def held_def read_at_or_before_def rows_def last_option_def)

text \<open>
  A declaration may start an epoch beyond the head, on an asset without a tick even, and then the
  comment that a tick is never written under a frame the log does not state fails: SQLite ignores the
  second epoch at that sequence and reads the tick back in the declared frame, not in its own, while
  the record in memory keeps both.
\<close>

definition ahead :: "lattice_epoch list" where
  "ahead = [epoch_at ''A'' (row 1 0) demo_finer]"

lemma ahead_ok: "malformedDeclaration ''A'' ahead = None" "\<not> sameFrame (epoch_at a t demo_finer) demo_frame"
proof -
  have "\<not> js_le (num 1) NegInf" by (simp add: js_le_def js_eq_def num_def)
  then show "malformedDeclaration ''A'' ahead = None" by (simp add: malformedDeclaration_def ahead_def)
qed (simp add: sameFrame_def epoch_at_def demo_finer_def demo_frame_def)

lemma declared_ahead_misreads:
  "memory_frameAt (fst (memory_append [demo_batch [row 1 10] demo_frame] (fst (memory_declare ''A'' ahead False empty_memory)))) ''A'' (num 1) =
     Inr (Some (epoch_at ''A'' (row 1 10) demo_frame))"
  "sqlite_frameAt (fst (sqlite_append [demo_batch [row 1 10] demo_frame] (fst (sqlite_declare ''A'' ahead False fresh_sqlite)))) ''A'' (num 1) =
     Inr (Some (epoch_at ''A'' (row 1 0) demo_finer))"
proof -
  have m: "fst (memory_declare ''A'' ahead False empty_memory) = \<lparr>mt_ticks = [], mt_seams = [], mt_frames = [(''A'', ahead)]\<rparr>"
    using ahead_ok by (simp add: memory_declare_def empty_memory_def held_def ahead_def)
  have "fst (memory_append [demo_batch [row 1 10] demo_frame] \<lparr>mt_ticks = [], mt_seams = [], mt_frames = [(''A'', ahead)]\<rparr>) =
      \<lparr>mt_ticks = [(''A'', [row 1 10])], mt_seams = [], mt_frames = [(''A'', ahead @ [epoch_at ''A'' (row 1 10) demo_frame])]\<rparr>"
    using ahead_ok(2) by (simp add: memory_eval ahead_def)
  then show "memory_frameAt (fst (memory_append [demo_batch [row 1 10] demo_frame] (fst (memory_declare ''A'' ahead False empty_memory)))) ''A'' (num 1) =
     Inr (Some (epoch_at ''A'' (row 1 10) demo_frame))"
    by (simp add: m memory_frameAt_def held_def badSequence_def frameAtOrBefore_def) (simp add: ahead_def)
  have d: "fst (sqlite_declare ''A'' ahead False fresh_sqlite) = fresh_sqlite\<lparr>db_lattice := Some ahead\<rparr>"
    using ahead_ok by (simp add: sqlite_declare_def fresh_sqlite_def sqlite_frames_def read_lattices_def ahead_def insert_lattice_def)
  have e: "fst (sqlite_append [demo_batch [row 1 10] demo_frame] (fresh_sqlite\<lparr>db_lattice := Some ahead\<rparr>)) =
      fresh_sqlite\<lparr>db_lattice := Some ahead, db_tick := [(''A'', row 1 10)]\<rparr>"
    using ahead_ok(2) by (simp add: sqlite_eval fresh_sqlite_def ahead_def)
  show "sqlite_frameAt (fst (sqlite_append [demo_batch [row 1 10] demo_frame] (fst (sqlite_declare ''A'' ahead False fresh_sqlite)))) ''A'' (num 1) =
     Inr (Some (epoch_at ''A'' (row 1 0) demo_finer))"
    unfolding d e by (simp add: sqlite_frameAt_def sqlite_frames_def read_lattices_def badSequence_def frameAtOrBefore_def ahead_def)
qed

section \<open>The claims at work\<close>

theorem record_stores_agree_witness:
  "\<exists>m db. run_ops memory_step [Append demo_pass] empty_memory = (m, [Inr (Fresh [''A'' \<mapsto> [row 1 10, row 2 20, row 5 50]])]) \<and>
     run_ops sqlite_step [Append demo_pass] fresh_sqlite = (db, [Inr (Fresh [''A'' \<mapsto> [row 1 10, row 2 20, row 5 50]])]) \<and>
     memory_read (Head ''A'') m = sqlite_read (Head ''A'') db"
proof -
  obtain m ans where m: "run_ops memory_step [Append demo_pass] empty_memory = (m, ans)" by fastforce
  from record_stores_agree [OF _ m, of "Head ''A''"] demo_record_run show ?thesis using m by auto
qed

theorem gap_has_its_seam_witness:
  "sqlite_seamAt demo_db ''A'' (num 30) = Inr (Some \<lparr>rs_assetId = ''A'', rs_lastSequence = 2, rs_lastInstant = 20,
     rs_resumesAtSequence = 5, rs_resumesAtInstant = 50\<rparr>)"
proof -
  have rows: "rows_by_sequence demo_db ''A'' = [row 1 10, row 2 20, row 5 50]"
    by (simp add: rows_by_sequence_def rows_def demo_db_def)
  moreover have "log_timely (sqlite_logs demo_db ''A'')"
    by (simp add: log_timely_def rows) (simp add: read_seams_def demo_db_def)
  ultimately show ?thesis
    using gap_has_its_seam [OF _ demo_record_run, of "''A''" 1 "row 2 20" "row 5 50" 30] by simp
qed

theorem replayed_pass_adds_nothing_witness:
  "\<exists>db. sqlite_append demo_pass demo_db = (db, Inr [''A'' \<mapsto> []]) \<and> sqlite_read (Head ''A'') db = sqlite_read (Head ''A'') demo_db"
proof -
  have "run_ops sqlite_step [] fresh_sqlite = (fresh_sqlite, [])" by simp
  from replayed_pass_adds_nothing [OF _ this demo_append, of "Head ''A''"]
  obtain db where db: "sqlite_append demo_pass demo_db = (db, Inr (map_option (\<lambda>_. []) \<circ> [''A'' \<mapsto> [row 1 10, row 2 20, row 5 50]]))"
      "sqlite_read (Head ''A'') db = sqlite_read (Head ''A'') demo_db" by auto
  have "map_option (\<lambda>_. [] :: tick list) \<circ> [''A'' \<mapsto> [row 1 10, row 2 20, row 5 50]] = [''A'' \<mapsto> []]" by auto
  with db show ?thesis by (intro exI [of _ db]) (simp only: simp_thms)
qed

theorem recorded_price_keeps_frame_witness:
  "\<exists>e. sqlite_frameAt demo_db ''A'' (num 5) = Inr (Some e) \<and> sameFrame e demo_frame"
proof -
  have "run_ops sqlite_step [] fresh_sqlite = (fresh_sqlite, [])" by simp
  from recorded_price_keeps_frame [OF _ this demo_append, of "demo_batch [row 1 10, row 2 20, row 5 50] demo_frame" 1]
  show ?thesis by (auto simp: demo_pass_def demo_batch_def)
qed

section \<open>What the tables always hold\<close>

lemma run_tables: "tables_ok db \<Longrightarrow> run_ops sqlite_step ops db = (db', answers) \<Longrightarrow> tables_ok db'"
proof (induction ops arbitrary: db answers)
  case (Cons op ops)
  obtain d r rs where d: "sqlite_step op db = (d, r)" "run_ops sqlite_step ops d = (db', rs)"
    using Cons.prems(2) by (auto simp: Let_def split: prod.splits)
  then show ?case using Cons.IH [OF _ d(2)] sqlite_step_tables [OF Cons.prems(1), of op] by simp
qed simp

lemma fresh_tables: "tables_ok fresh_sqlite"
  by (simp add: tables_ok_def fresh_sqlite_def rows_def)

text \<open>C39: the tables are always well formed. After any run of calls on a fresh record in SQLite, whatever is
  declared, no asset holds two rows at one sequence, its seams and its epochs ascend without a repeat and
  carry the asset they are filed under, no seam speaks of a sequence beyond the newest tick, and every
  stored frame is a usable one. When the epochs declared start only at sequences the record had reached
  (\<open>run_allowed\<close>), no epoch speaks of a sequence beyond the newest tick either; a declaration may start
  one ahead, and then it does.\<close>

theorem record_tables_well_formed:
  assumes "run_ops sqlite_step ops fresh_sqlite = (db, answers)"
  shows "sorted_wrt (<) (map sequence (rows_by_sequence db a)) \<and>
    sorted_wrt (<) (map rs_resumesAtSequence (sqlite_seams db a)) \<and> sorted_wrt (<) (map epoch_from (sqlite_frames db a)) \<and>
    (\<forall>s \<in> set (sqlite_seams db a). rs_assetId s = a \<and> reached (rows_by_sequence db a) (rs_resumesAtSequence s)) \<and>
    (\<forall>e \<in> set (sqlite_frames db a). ep_assetId e = a \<and> malformedFrame e = None) \<and>
    (run_allowed ops (\<lambda>_. no_log) \<longrightarrow> (\<forall>e \<in> set (sqlite_frames db a). reached (rows_by_sequence db a) (epoch_from e)))"
proof -
  have ok: "tables_ok db" by (rule run_tables [OF fresh_tables assms])
  have "\<forall>e \<in> set (sqlite_frames db a). reached (rows_by_sequence db a) (epoch_from e)" if "run_allowed ops (\<lambda>_. no_log)"
  proof -
    have "sqlite.sound db" using sqlite_run [OF that assms] by blast
    then have "log_ok a (sqlite_logs db a)" "sqlite_frames db a = read_lattices db a"
      by (auto simp: logs_ok_def sqlite_ready_def sqlite_frames_def)
    then show ?thesis by (simp add: log_ok_def)
  qed
  with tables_rows [OF ok] tables_seams [OF ok] tables_epochs [OF ok] show ?thesis by blast
qed

theorem record_tables_well_formed_witness:
  "sorted_wrt (<) (map sequence (rows_by_sequence demo_db ''A'')) \<and> sqlite_seams demo_db ''A'' \<noteq> [] \<and>
   list_all (\<lambda>e. reached (rows_by_sequence demo_db ''A'') (epoch_from e)) (sqlite_frames demo_db ''A'')"
proof -
  have "sqlite_seams demo_db ''A'' \<noteq> []" by (simp add: sqlite_seams_def read_seams_def demo_db_def)
  moreover have "run_allowed [Append demo_pass] (\<lambda>_. no_log)" by simp
  ultimately show ?thesis using record_tables_well_formed [OF demo_record_run, of "''A''"] unfolding list_all_iff by blast
qed

end
