(* ===== verification/HistoryStore.thy ===== *)
theory HistoryStore
  imports TickRecord Candle
begin

text \<open>
  The durable candle history: packages/runtime/src/history.ts, the interface \<open>CandleHistory\<close> and its
  reference implementation \<open>InMemoryCandleHistory\<close>. A history keeps closed minute and hour bars of each
  asset in time order, and a log of the frames they count in. The locale \<open>candle_history\<close> is what the
  readers of a history rely on; the implementation in memory is its first instance. A rejected promise
  is the \<open>Inl\<close> of the operation, beside the state it leaves.
\<close>

section \<open>The tiers\<close>

definition HISTORY_BASE_TIMEFRAME :: timeframe_id where
  "HISTORY_BASE_TIMEFRAME = TF_1m"

definition HISTORY_ROLLUP_TIMEFRAME :: timeframe_id where
  "HISTORY_ROLLUP_TIMEFRAME = TF_1h"

definition HISTORY_TIMEFRAMES :: "timeframe_id list" where
  "HISTORY_TIMEFRAMES = [HISTORY_BASE_TIMEFRAME, HISTORY_ROLLUP_TIMEFRAME]"

definition unstoredTimeframe :: "timeframe_id \<Rightarrow> js_error option" where
  "unstoredTimeframe tf = (if tf \<in> set HISTORY_TIMEFRAMES then None else Some (HistoryErr ''unstored timeframe''))"

record 's history_ops =
  h_append :: "'s \<Rightarrow> string \<Rightarrow> timeframe_id \<Rightarrow> candle list \<Rightarrow> price_frame option \<Rightarrow> 's \<times> unit result"
  h_frames :: "'s \<Rightarrow> string \<Rightarrow> lattice_epoch list"
  h_read :: "'s \<Rightarrow> string \<Rightarrow> timeframe_id \<Rightarrow> int \<Rightarrow> int \<Rightarrow> candle list result"
  h_head :: "'s \<Rightarrow> string \<Rightarrow> timeframe_id \<Rightarrow> int option result"

section \<open>In memory\<close>

record memory_history =
  mh_series :: "(string \<times> candle list) list"
  mh_frames :: "(string \<times> lattice_epoch list) list"

definition empty_history :: memory_history where
  "empty_history = \<lparr>mh_series = [], mh_frames = []\<rparr>"

definition history_key :: "string \<Rightarrow> timeframe_id \<Rightarrow> string" where
  "history_key a tf = a @ '' '' @ timeframe_name tf"

definition memoryHistory_frames :: "memory_history \<Rightarrow> string \<Rightarrow> lattice_epoch list" where
  "memoryHistory_frames m a = held (mh_frames m) a"

text \<open>The epoch pushed for the first bar of a batch when its frame is not the one in force. The push is
  on the array the map holds, so it stays whatever the checks after it decide.\<close>

definition candle_epoch :: "string \<Rightarrow> candle \<Rightarrow> price_frame \<Rightarrow> lattice_epoch" where
  "candle_epoch a c frame = \<lparr>fr_logQuantum = fr_logQuantum frame, fr_referencePrice = fr_referencePrice frame,
     fr_displayPrecision = fr_displayPrecision frame, ep_assetId = a,
     ep_fromSequence = num (c_firstSequence c), ep_fromInstant = c_openInstant c\<rparr>"

definition memory_note_frame ::
  "string \<Rightarrow> candle list \<Rightarrow> price_frame option \<Rightarrow> memory_history \<Rightarrow> memory_history result" where
  "memory_note_frame a candles frame m = (case (frame, candles) of
     (Some fr, c # _) \<Rightarrow>
       (let hs = held (mh_frames m) a in
        if opens (last_option hs) fr
        then andThen (epochMillis (num (c_openInstant c)))
          (\<lambda>_. Inr (m\<lparr>mh_frames := AList.update a (hs @ [candle_epoch a c fr]) (mh_frames m)\<rparr>))
        else Inr m)
   | _ \<Rightarrow> Inr m)"

fun append_loop ::
  "timeframe_id \<Rightarrow> candle list \<Rightarrow> candle list \<Rightarrow> candle option \<Rightarrow> candle list result" where
  "append_loop tf [] next previous = Inr next"
| "append_loop tf (c # cs) next previous =
     (if c_timeframe c \<noteq> tf then Inl (HistoryErr ''wrong timeframe'')
      else if (case previous of None \<Rightarrow> False | Some p \<Rightarrow> c_openInstant c \<le> c_openInstant p)
      then Inl (HistoryErr ''append-only and ordered'')
      else append_loop tf cs (next @ [c]) (Some c))"

definition memoryHistory_append ::
  "memory_history \<Rightarrow> string \<Rightarrow> timeframe_id \<Rightarrow> candle list \<Rightarrow> price_frame option \<Rightarrow> memory_history \<times> unit result" where
  "memoryHistory_append m a tf candles frame =
     (case memory_note_frame a candles frame m of Inl e \<Rightarrow> (m, Inl e)
      | Inr m1 \<Rightarrow>
          (case unstoredTimeframe tf of Some e \<Rightarrow> (m1, Inl e)
           | None \<Rightarrow>
               let key = history_key a tf; series = held (mh_series m1) key in
               (case append_loop tf candles series (last_option series) of
                  Inl e \<Rightarrow> (m1, Inl e)
                | Inr next \<Rightarrow> (m1\<lparr>mh_series := AList.update key next (mh_series m1)\<rparr>, Inr ()))))"

definition memoryHistory_read ::
  "memory_history \<Rightarrow> string \<Rightarrow> timeframe_id \<Rightarrow> int \<Rightarrow> int \<Rightarrow> candle list result" where
  "memoryHistory_read m a tf from to = unless (unstoredTimeframe tf)
     (Inr (filter (\<lambda>c. from \<le> c_openInstant c \<and> c_openInstant c < to) (held (mh_series m) (history_key a tf))))"

definition memoryHistory_head :: "memory_history \<Rightarrow> string \<Rightarrow> timeframe_id \<Rightarrow> int option result" where
  "memoryHistory_head m a tf = unless (unstoredTimeframe tf)
     (let series = held (mh_series m) (history_key a tf) in
      Inr (if series = [] then None else Some (c_openInstant (last series))))"

definition memory_history_ops :: "memory_history history_ops" where
  "memory_history_ops = \<lparr>h_append = memoryHistory_append, h_frames = memoryHistory_frames,
     h_read = memoryHistory_read, h_head = memoryHistory_head\<rparr>"

section \<open>The contract of a history\<close>

text \<open>A series as a history keeps it: bars of one timeframe at strictly increasing instants.\<close>

definition series_ok :: "timeframe_id \<Rightarrow> candle list \<Rightarrow> bool" where
  "series_ok tf cs \<longleftrightarrow> sorted_wrt (<) (map c_openInstant cs) \<and>
     (\<forall>c\<in>set cs. c_timeframe c = tf \<and> valid_instant (c_openInstant c))"

abbreviation in_window :: "int \<Rightarrow> int \<Rightarrow> candle list \<Rightarrow> candle list" where
  "in_window from to \<equiv> filter (\<lambda>c. from \<le> c_openInstant c \<and> c_openInstant c < to)"

definition head_instant :: "candle list \<Rightarrow> int option" where
  "head_instant cs = map_option c_openInstant (last_option cs)"

locale candle_history =
  fixes ops :: "'s history_ops" and bars :: "'s \<Rightarrow> string \<Rightarrow> timeframe_id \<Rightarrow> candle list"
    and ready :: "'s \<Rightarrow> bool"
  assumes series: "ready s \<Longrightarrow> tf \<in> set HISTORY_TIMEFRAMES \<Longrightarrow> series_ok tf (bars s a tf)"
    and reads: "ready s \<Longrightarrow> h_read ops s a tf from to = unless (unstoredTimeframe tf) (Inr (in_window from to (bars s a tf)))"
    and heads: "ready s \<Longrightarrow> h_head ops s a tf = unless (unstoredTimeframe tf) (Inr (head_instant (bars s a tf)))"
    and appends: "ready s \<Longrightarrow> tf \<in> set HISTORY_TIMEFRAMES \<Longrightarrow> series_ok tf (bars s a tf @ cs) \<Longrightarrow>
      \<exists>s'. h_append ops s a tf cs frame = (s', Inr ()) \<and> ready s' \<and>
        bars s' = (bars s)(a := (bars s a)(tf := bars s a tf @ cs))"
    and refuses: "ready s \<Longrightarrow> \<forall>c\<in>set cs. valid_instant (c_openInstant c) \<Longrightarrow>
      \<not> (tf \<in> set HISTORY_TIMEFRAMES \<and> series_ok tf (bars s a tf @ cs)) \<Longrightarrow>
      \<exists>s' e. h_append ops s a tf cs frame = (s', Inl e) \<and> ready s' \<and> bars s' = bars s"

section \<open>The history in memory keeps it\<close>

definition memory_bars :: "memory_history \<Rightarrow> string \<Rightarrow> timeframe_id \<Rightarrow> candle list" where
  "memory_bars m a tf = held (mh_series m) (history_key a tf)"

definition memory_history_ready :: "memory_history \<Rightarrow> bool" where
  "memory_history_ready m \<longleftrightarrow> (\<forall>a. \<forall>tf\<in>set HISTORY_TIMEFRAMES. series_ok tf (memory_bars m a tf))"

lemma unstoredTimeframe_None [simp]: "unstoredTimeframe tf = None \<longleftrightarrow> tf \<in> set HISTORY_TIMEFRAMES"
  by (simp add: unstoredTimeframe_def)

lemma stored_timeframes [simp]:
  "set HISTORY_TIMEFRAMES = {TF_1m, TF_1h}"
  by (simp add: HISTORY_TIMEFRAMES_def HISTORY_BASE_TIMEFRAME_def HISTORY_ROLLUP_TIMEFRAME_def)

text \<open>No asset name makes two series share a key.\<close>

lemma history_key_inject [simp]: "history_key a tf = history_key b tf' \<longleftrightarrow> a = b \<and> tf = tf'"
proof
  assume "history_key a tf = history_key b tf'"
  then have "rev (history_key a tf) = rev (history_key b tf')" by simp
  then show "a = b \<and> tf = tf'" by (cases tf; cases tf'; simp add: history_key_def)
qed simp

lemma head_instant_Nil [simp]: "head_instant [] = None"
  by (simp add: head_instant_def last_option_def)

lemma head_instant_None [simp]: "head_instant cs = None \<longleftrightarrow> cs = []"
  by (simp add: head_instant_def last_option_def)

lemma series_ok_Nil [simp]: "series_ok tf []"
  by (simp add: series_ok_def)

lemma series_ok_append:
  "series_ok tf (xs @ ys) \<longleftrightarrow> series_ok tf xs \<and> series_ok tf ys \<and>
     (\<forall>x\<in>set xs. \<forall>y\<in>set ys. c_openInstant x < c_openInstant y)"
  by (auto simp: series_ok_def sorted_wrt_append)

lemma series_ok_last:
  assumes "series_ok tf xs" "x \<in> set xs" "last_option xs = Some p"
  shows "c_openInstant x \<le> c_openInstant p"
  using le_last [of c_openInstant xs x] assms by (auto simp: series_ok_def last_option_def split: if_splits)

lemma series_ok_snoc:
  assumes "series_ok tf xs"
  shows "series_ok tf (xs @ [c]) \<longleftrightarrow> c_timeframe c = tf \<and> valid_instant (c_openInstant c) \<and>
    (case last_option xs of None \<Rightarrow> True | Some p \<Rightarrow> c_openInstant p < c_openInstant c)"
proof (cases "last_option xs")
  case None
  then have "xs = []" by (simp add: last_option_def split: if_splits)
  then show ?thesis by (auto simp: series_ok_def last_option_def)
next
  case (Some p)
  then have "p \<in> set xs" by (auto simp: last_option_def split: if_splits)
  then have "(\<forall>x\<in>set xs. c_openInstant x < c_openInstant c) \<longleftrightarrow> c_openInstant p < c_openInstant c"
    using series_ok_last [OF assms _ Some] by (auto intro: le_less_trans)
  then show ?thesis using assms Some by (auto simp: series_ok_append series_ok_def [of tf "[c]"])
qed

lemma append_loop_ok:
  assumes "series_ok tf next" "previous = last_option next" "\<forall>c\<in>set cs. valid_instant (c_openInstant c)"
  shows "if series_ok tf (next @ cs) then append_loop tf cs next previous = Inr (next @ cs)
    else \<exists>e. append_loop tf cs next previous = Inl e"
  using assms
proof (induction cs arbitrary: "next" previous)
  case (Cons c cs)
  show ?case
  proof (cases "series_ok tf (next @ [c])")
    case True
    have "append_loop tf (c # cs) next previous = append_loop tf cs (next @ [c]) (Some c)"
      using True Cons.prems by (auto simp: series_ok_snoc split: option.splits)
    moreover have "if series_ok tf ((next @ [c]) @ cs) then append_loop tf cs (next @ [c]) (Some c) = Inr ((next @ [c]) @ cs)
        else \<exists>e. append_loop tf cs (next @ [c]) (Some c) = Inl e"
      by (rule Cons.IH [OF True]) (use Cons.prems(3) in \<open>simp_all add: last_option_def\<close>)
    ultimately show ?thesis by (simp del: append_loop.simps)
  next
    case False
    then have "\<not> series_ok tf (next @ c # cs)"
      using series_ok_append [of tf "next @ [c]" cs] by auto
    moreover have "\<exists>e. append_loop tf (c # cs) next previous = Inl e"
      using False Cons.prems by (auto simp: series_ok_snoc split: option.splits)
    ultimately show ?thesis by auto
  qed
qed simp

lemma memory_note_frame_valid:
  assumes "\<forall>c\<in>set cs. valid_instant (c_openInstant c)"
  obtains m1 where "memory_note_frame a cs frame m = Inr m1" "mh_series m1 = mh_series m"
proof (cases "frame = None \<or> cs = []")
  case True
  then have "memory_note_frame a cs frame m = Inr m"
    by (cases frame; cases cs) (simp_all add: memory_note_frame_def)
  then show ?thesis using that by blast
next
  case False
  then obtain fr c cs' where e: "frame = Some fr" "cs = c # cs'" by (cases cs) auto
  then have "epochMillis (num (c_openInstant c)) = Inr (c_openInstant c)" using assms by (simp add: epochMillis_num)
  then show ?thesis using that
    by (cases "opens (last_option (held (mh_frames m) a)) fr") (simp_all add: memory_note_frame_def Let_def e)
qed

lemma memory_bars_update [simp]:
  "memory_bars (m\<lparr>mh_series := AList.update (history_key a tf) cs (mh_series m)\<rparr>) =
     (memory_bars m)(a := (memory_bars m a)(tf := cs))"
  by (auto simp: memory_bars_def fun_eq_iff)

lemma memory_bars_frames: "mh_series m1 = mh_series m \<Longrightarrow> memory_bars m1 = memory_bars m"
  by (simp add: memory_bars_def fun_eq_iff)

lemma memory_history_append:
  assumes "memory_history_ready m" "\<forall>c\<in>set cs. valid_instant (c_openInstant c)"
  shows "if tf \<in> set HISTORY_TIMEFRAMES \<and> series_ok tf (memory_bars m a tf @ cs)
    then \<exists>m'. memoryHistory_append m a tf cs frame = (m', Inr ()) \<and> memory_history_ready m' \<and>
      memory_bars m' = (memory_bars m)(a := (memory_bars m a)(tf := memory_bars m a tf @ cs))
    else \<exists>m' e. memoryHistory_append m a tf cs frame = (m', Inl e) \<and> memory_history_ready m' \<and> memory_bars m' = memory_bars m"
proof -
  obtain m1 where m1: "memory_note_frame a cs frame m = Inr m1" "mh_series m1 = mh_series m"
    using memory_note_frame_valid [OF assms(2)] .
  have b1: "memory_bars m1 = memory_bars m" by (rule memory_bars_frames [OF m1(2)])
  have r1: "memory_history_ready m1" using assms(1) b1 by (simp add: memory_history_ready_def)
  show ?thesis
  proof (cases "tf \<in> set HISTORY_TIMEFRAMES")
    case False
    then show ?thesis using m1(1) b1 r1 by (auto simp: memoryHistory_append_def unstoredTimeframe_def)
  next
    case True
    then have ok: "series_ok tf (memory_bars m a tf)" using assms(1) unfolding memory_history_ready_def by blast
    have app: "memoryHistory_append m a tf cs frame =
      (case append_loop tf cs (memory_bars m a tf) (last_option (memory_bars m a tf)) of Inl e \<Rightarrow> (m1, Inl e)
       | Inr next \<Rightarrow> (m1\<lparr>mh_series := AList.update (history_key a tf) next (mh_series m1)\<rparr>, Inr ()))"
      using True m1 by (simp add: memoryHistory_append_def unstoredTimeframe_def Let_def memory_bars_def)
    note L = append_loop_ok [OF ok refl assms(2)]
    show ?thesis
    proof (cases "series_ok tf (memory_bars m a tf @ cs)")
      case t: True
      let ?m = "m1\<lparr>mh_series := AList.update (history_key a tf) (memory_bars m a tf @ cs) (mh_series m1)\<rparr>"
      have "memory_bars ?m = (memory_bars m)(a := (memory_bars m a)(tf := memory_bars m a tf @ cs))" using b1 by simp
      moreover from this have "memory_history_ready ?m"
        using assms(1) t unfolding memory_history_ready_def by (auto simp del: stored_timeframes)
      ultimately show ?thesis using L t True app by auto
    next
      case False
      then show ?thesis using L True app b1 r1 by auto
    qed
  qed
qed

interpretation memory_hist: candle_history memory_history_ops memory_bars memory_history_ready
proof (unfold_locales, goal_cases)
  case (1 s tf a)
  then show ?case unfolding memory_history_ready_def by blast
next
  case (2 s a tf lo hi)
  then show ?case by (simp add: memory_history_ops_def memoryHistory_read_def memory_bars_def)
next
  case (3 s a tf)
  then show ?case
    by (simp add: memory_history_ops_def memoryHistory_head_def memory_bars_def head_instant_def last_option_def Let_def)
next
  case (4 s tf a cs frame)
  then have "\<forall>c\<in>set cs. valid_instant (c_openInstant c)" by (auto simp: series_ok_def)
  with memory_history_append [OF 4(1) this, of tf a frame] 4 show ?case by (simp add: memory_history_ops_def)
next
  case (5 s cs tf a frame)
  then show ?case using memory_history_append [OF 5(1,2), of tf a frame] by (auto simp: memory_history_ops_def)
qed

lemma empty_history_ready: "memory_history_ready empty_history"
  by (simp add: memory_history_ready_def memory_bars_def empty_history_def held_def)

end
