(* ===== verification/Merge.thy ===== *)
theory Merge
  imports HistoryStore
begin

text \<open>
  What \<open>foldCandles\<close> answers for a stored series, holes and all: one bar per bucket that holds a source
  bar, made of exactly the source bars of that bucket. The readers of a history fold series that need
  not come from one fold of ticks, so the statement is about candles alone; for minutes that do come
  from ticks it gives back the candles of the ticks.
\<close>

definition group_bars :: "timeframe \<Rightarrow> candle list \<Rightarrow> int \<Rightarrow> candle list" where
  "group_bars tf cs s = filter (\<lambda>c. bucket (durationMs tf) (c_openInstant c) = s) cs"

definition bar_starts :: "timeframe \<Rightarrow> candle list \<Rightarrow> int list" where
  "bar_starts tf cs = remdups_adj (map (\<lambda>c. bucket (durationMs tf) (c_openInstant c)) cs)"

definition merged :: "int \<Rightarrow> candle list \<Rightarrow> mutable_candle" where
  "merged s g = \<lparr>mc_openInstant = s, mc_open = c_open (hd g), mc_high = Max (c_high ` set g),
     mc_low = Min (c_low ` set g), mc_close = c_close (last g), mc_tickCount = sum_list (map c_tickCount g),
     mc_firstSequence = c_firstSequence (hd g), mc_lastSequence = c_lastSequence (last g)\<rparr>"

definition merged_bar :: "timeframe \<Rightarrow> candle list \<Rightarrow> int \<Rightarrow> candle" where
  "merged_bar tf cs s = freeze (merged s (group_bars tf cs s)) (tf_id tf)"

lemma merged_simps [simp]:
  "merged s [c] = from_candle s c"
  "g \<noteq> [] \<Longrightarrow> merged s (g @ [c]) = merge_candle (merged s g) c"
  "mc_openInstant (merged s g) = s"
proof -
  show "merged s [c] = from_candle s c" by (simp add: merged_def from_candle_def)
  show "mc_openInstant (merged s g) = s" by (simp add: merged_def)
  assume g: "g \<noteq> []"
  obtain M m where M: "Max (c_high ` set g) = M" and m: "Min (c_low ` set g) = m" by blast
  have "Max (c_high ` set (g @ [c])) = max (c_high c) M" "Min (c_low ` set (g @ [c])) = min (c_low c) m"
    using g M m by simp_all
  then show "merged s (g @ [c]) = merge_candle (merged s g) c"
    using g by (simp add: merged_def merge_candle_def max_def min_def M m)
qed

lemma merged_bar_sel [simp]:
  "c_openInstant (merged_bar tf cs s) = s" "c_timeframe (merged_bar tf cs s) = tf_id tf"
  by (simp_all add: merged_bar_def)

lemma map_butlast_last: "xs \<noteq> [] \<Longrightarrow> map f xs = map f (butlast xs) @ [f (last xs)]"
  by (cases xs rule: rev_cases) simp_all

text \<open>Folding a run of items into one accumulator per block of equal keys.\<close>

lemma fold_groups:
  fixes key :: "'a \<Rightarrow> int" and group :: "int \<Rightarrow> 'a list \<Rightarrow> 'm" and step :: "'a \<Rightarrow> 'b list \<times> 'm option \<Rightarrow> 'b list \<times> 'm option"
  assumes opened: "\<And>x out. step x (out, None) = (out, Some (group (key x) [x]))"
    and closed: "\<And>x out s g. s \<noteq> key x \<Longrightarrow> step x (out, Some (group s g)) = (out @ [fin (group s g)], Some (group (key x) [x]))"
    and extended: "\<And>x out g. g \<noteq> [] \<Longrightarrow> step x (out, Some (group (key x) g)) = (out, Some (group (key x) (g @ [x])))"
    and "sorted (map key xs)" "xs \<noteq> []"
  shows "fold step xs ([], None) =
    (map (\<lambda>s. fin (group s (filter (\<lambda>x. key x = s) xs))) (butlast (remdups_adj (map key xs))),
     Some (group (last (map key xs)) (filter (\<lambda>x. key x = last (map key xs)) xs)))"
  using assms(4,5)
proof (induction xs rule: rev_induct)
  case (snoc x xs)
  show ?case
  proof (cases "xs = []")
    case True
    then show ?thesis by (simp add: opened)
  next
    case False
    let ?S = "remdups_adj (map key xs)" and ?l = "last (map key xs)"
    have IH: "fold step xs ([], None) = (map (\<lambda>s. fin (group s (filter (\<lambda>x. key x = s) xs))) (butlast ?S),
        Some (group ?l (filter (\<lambda>x. key x = ?l) xs)))"
      using snoc.IH snoc.prems(1) False by (simp add: sorted_append)
    obtain us u where us: "xs = us @ [u]" using False by (cases xs rule: rev_cases) auto
    have lu: "?l = key u" by (simp add: us)
    have S: "remdups_adj (map key (xs @ [x])) = (if key x = ?l then ?S else ?S @ [key x])"
      unfolding lu us by (simp add: remdups_adj_append_two)
    have last_S: "last ?S = ?l" "?S \<noteq> []" using False by (simp_all add: last_remdups_adj)
    have dist: "distinct (remdups_adj (map key (xs @ [x])))"
      using strict_remdups_adj [OF snoc.prems(1)] strict_sorted_iff by blast
    have ne: "filter (\<lambda>x. key x = ?l) xs \<noteq> []" using lu us by (simp add: filter_empty_conv)
    show ?thesis
    proof (cases "key x = ?l")
      case True
      have "key x \<notin> set (butlast ?S)"
        using dist S True last_S by (metis append_butlast_last_id distinct_butlast not_distinct_conv_prefix)
      then have "map (\<lambda>s. fin (group s (filter (\<lambda>x. key x = s) (xs @ [x])))) (butlast ?S) =
          map (\<lambda>s. fin (group s (filter (\<lambda>x. key x = s) xs))) (butlast ?S)"
        by (intro map_cong refl) auto
      moreover have "step x (out, Some (group ?l (filter (\<lambda>x. key x = ?l) xs))) =
          (out, Some (group ?l (filter (\<lambda>x. key x = ?l) xs @ [x])))" for out
        using extended [OF ne, of x] True by simp
      ultimately show ?thesis using IH S True by simp
    next
      case nk: False
      then have new: "key x \<notin> set ?S" using dist S by simp
      then have f: "filter (\<lambda>y. key y = key x) xs = []"
        unfolding filter_empty_conv remdups_adj_set set_map by (metis imageI)
      have "map (\<lambda>s. fin (group s (filter (\<lambda>x. key x = s) (xs @ [x])))) ?S =
          map (\<lambda>s. fin (group s (filter (\<lambda>x. key x = s) xs))) ?S"
        using new by (intro map_cong refl) auto
      also have "\<dots> = map (\<lambda>s. fin (group s (filter (\<lambda>x. key x = s) xs))) (butlast ?S) @
          [fin (group ?l (filter (\<lambda>x. key x = ?l) xs))]"
        unfolding map_butlast_last [OF last_S(2)] last_S(1) ..
      finally have m: "map (\<lambda>s. fin (group s (filter (\<lambda>x. key x = s) (xs @ [x])))) ?S =
          map (\<lambda>s. fin (group s (filter (\<lambda>x. key x = s) xs))) (butlast ?S) @
          [fin (group ?l (filter (\<lambda>x. key x = ?l) xs))]" .
      have "step x (out, Some (group ?l g)) = (out @ [fin (group ?l g)], Some (group (key x) [x]))" for out g
        using nk by (intro closed) simp
      then have "fold step (xs @ [x]) ([], None) = (map (\<lambda>s. fin (group s (filter (\<lambda>x. key x = s) xs))) (butlast ?S) @
          [fin (group ?l (filter (\<lambda>x. key x = ?l) xs))], Some (group (key x) [x]))"
        by (simp add: IH)
      moreover have "last (map key (xs @ [x])) = key x" "filter (\<lambda>y. key y = key x) (xs @ [x]) = [x]"
        using f by simp_all
      moreover have "butlast (remdups_adj (map key (xs @ [x]))) = ?S" using S nk by simp
      ultimately show ?thesis by (simp only: m)
    qed
  qed
qed simp

lemma sorted_bar_starts:
  "0 < durationMs tf \<Longrightarrow> sorted_wrt (<) (map c_openInstant cs) \<Longrightarrow>
     sorted (map (\<lambda>c. bucket (durationMs tf) (c_openInstant c)) cs)"
  by (induction cs) (auto intro: bucket_mono less_imp_le)

lemma strict_bar_starts:
  "0 < durationMs tf \<Longrightarrow> sorted_wrt (<) (map c_openInstant cs) \<Longrightarrow> sorted_wrt (<) (bar_starts tf cs)"
  unfolding bar_starts_def by (intro strict_remdups_adj sorted_bar_starts)

lemma set_bar_starts: "set (bar_starts tf cs) = (\<lambda>c. bucket (durationMs tf) (c_openInstant c)) ` set cs"
  by (simp add: bar_starts_def)

lemma bar_starts_Nil [simp]: "bar_starts tf cs = [] \<longleftrightarrow> cs = []"
  by (simp add: bar_starts_def)

lemma finished_fold_bars:
  assumes "0 < durationMs tf" "sorted_wrt (<) (map c_openInstant cs)"
  shows "finished tf (fold (candle_step tf) cs ([], None)) = map (merged_bar tf cs) (bar_starts tf cs)"
proof (cases "cs = []")
  case True
  then show ?thesis by (simp add: finished_def bar_starts_def)
next
  case False
  let ?key = "\<lambda>c. bucket (durationMs tf) (c_openInstant c)"
  have "fold (candle_step tf) cs ([], None) =
    (map (\<lambda>s. freeze (merged s (filter (\<lambda>c. ?key c = s) cs)) (tf_id tf)) (butlast (remdups_adj (map ?key cs))),
     Some (merged (last (map ?key cs)) (filter (\<lambda>c. ?key c = last (map ?key cs)) cs)))"
    by (rule fold_groups [where fin = "\<lambda>m. freeze m (tf_id tf)"])
       (simp_all add: candle_step_def Let_def False sorted_bar_starts [OF assms])
  moreover have "map (merged_bar tf cs) (bar_starts tf cs) =
      map (merged_bar tf cs) (butlast (bar_starts tf cs)) @ [merged_bar tf cs (last (map ?key cs))]"
    using False map_butlast_last [of "bar_starts tf cs" "merged_bar tf cs"] by (simp add: bar_starts_def last_remdups_adj)
  ultimately show ?thesis
    by (simp add: finished_def merged_bar_def [abs_def] group_bars_def bar_starts_def)
qed

theorem foldCandles_series:
  assumes "series_ok f cs" "nests (timeframe f) (timeframe i)"
  shows "foldCandles (timeframe i) cs = Inr (map (merged_bar (timeframe i) cs) (bar_starts (timeframe i) cs))"
  using foldCandles_pure [of cs f "timeframe i"] finished_fold_bars [of "timeframe i" cs] assms
  by (simp add: series_ok_def)

text \<open>Bars of the minutes of a stream: merging the bars of a bucket gives the candle of its ticks.\<close>

definition stream_bars :: "timeframe_id \<Rightarrow> tick list \<Rightarrow> candle list" where
  "stream_bars f ts = map (bucket_candle (timeframe f) ts) (bucket_starts (timeframe f) ts)"

lemma stream_bars_series:
  assumes "\<forall>t\<in>set ts. valid_instant (instant t)" "ticks_ordered ts"
  shows "series_ok f (stream_bars f ts)"
proof -
  have "map c_openInstant (stream_bars f ts) = bucket_starts (timeframe f) ts"
    by (simp add: stream_bars_def o_def)
  then show ?thesis
    using strict_bucket_starts [OF duration_pos(2) ticks_ordered_instants [OF assms(2)]]
      bucket_starts_valid [OF assms(1) duration_pos(2)]
    by (auto simp: series_ok_def stream_bars_def)
qed

end
