(* ===== verification/HistoryRecorder.thy ===== *)
theory HistoryRecorder
  imports Merge
begin

text \<open>
  The writer of a history: class \<open>HistoryRecorder\<close> of packages/runtime/src/history.ts. It folds the ticks
  it is fed into minute bars and hands out the closed ones, and it never hands out a bar it did not see
  from its start: the first bucket counts as whole only when the first tick is the one right after the
  newest stored bar. The main theorem says which bars come out, however ticks, drains and the news of
  what is stored were interleaved.
\<close>

section \<open>State and operations\<close>

definition FIRST_SEQUENCE_history :: int where
  "FIRST_SEQUENCE_history = 1"

datatype joins = Continues "int option" | Unknown

datatype bucket_fate = Undecided | Whole | Withheld

text \<open>\<open>hr_continuesAfter\<close> is \<open>None\<close> while the field is undefined.\<close>

record recorder =
  hr_base :: aggregator
  hr_closed :: "candle list"
  hr_continuesAfter :: "int option option"
  hr_first :: "tick option"
  hr_firstBucketStart :: "int option"
  hr_firstFate :: bucket_fate
  hr_firstClosed :: "candle option"
  hr_withheld :: "candle option"

definition new_recorder :: "joins \<Rightarrow> recorder" where
  "new_recorder start = \<lparr>hr_base = new_aggregator (timeframe HISTORY_BASE_TIMEFRAME), hr_closed = [],
     hr_continuesAfter = (case start of Unknown \<Rightarrow> None | Continues k \<Rightarrow> Some k), hr_first = None,
     hr_firstBucketStart = None, hr_firstFate = Undecided, hr_firstClosed = None, hr_withheld = None\<rparr>"

definition started :: "recorder \<Rightarrow> bool" where
  "started r \<longleftrightarrow> hr_continuesAfter r \<noteq> None"

fun closeFirst :: "candle \<Rightarrow> recorder \<Rightarrow> recorder" where
  "closeFirst c r = (case hr_firstFate r of
     Undecided \<Rightarrow> r\<lparr>hr_firstClosed := Some c\<rparr>
   | Whole \<Rightarrow> r\<lparr>hr_closed := c # hr_closed r\<rparr>
   | Withheld \<Rightarrow> r\<lparr>hr_withheld := Some c\<rparr>)"

definition decideFirst :: "recorder \<Rightarrow> recorder \<times> unit result" where
  "decideFirst r = (case (hr_continuesAfter r, hr_first r) of
     (Some k, Some first) \<Rightarrow>
       if hr_firstFate r \<noteq> Undecided then (r, Inr ())
       else if (case k of None \<Rightarrow> False | Some n \<Rightarrow> sequence first \<le> n)
       then (r, Inl (HistoryErr ''restarted behind the stored head''))
       else
         let expected = (case k of None \<Rightarrow> FIRST_SEQUENCE_history - 1 | Some n \<Rightarrow> n) + 1;
             r1 = r\<lparr>hr_firstFate := (if sequence first = expected then Whole else Withheld)\<rparr> in
         (case hr_firstClosed r1 of
            None \<Rightarrow> (r1, Inr ())
          | Some c \<Rightarrow> ((closeFirst c r1)\<lparr>hr_firstClosed := None\<rparr>, Inr ()))
   | _ \<Rightarrow> (r, Inr ()))"

definition continueAfter :: "int option \<Rightarrow> recorder \<Rightarrow> recorder \<times> unit result" where
  "continueAfter lastStored r =
     (if hr_continuesAfter r \<noteq> None then (r, Inl (HistoryErr ''told twice''))
      else decideFirst (r\<lparr>hr_continuesAfter := Some lastStored\<rparr>))"

definition open_first :: "tick \<Rightarrow> recorder \<Rightarrow> recorder \<times> unit result" where
  "open_first t r = (if hr_first r \<noteq> None then (r, Inr ())
     else case bucketStart (instant t) (ag_timeframe (hr_base r)) of
       Inl e \<Rightarrow> (r\<lparr>hr_first := Some t\<rparr>, Inl e)
     | Inr start \<Rightarrow> decideFirst (r\<lparr>hr_first := Some t, hr_firstBucketStart := Some start\<rparr>))"

definition accept_tick :: "tick \<Rightarrow> recorder \<Rightarrow> recorder \<times> unit result" where
  "accept_tick t r = (case open_first t r of
     (r1, Inl e) \<Rightarrow> (r1, Inl e)
   | (r1, Inr _) \<Rightarrow>
       (case accept (hr_base r1) t of
          Inl e \<Rightarrow> (r1, Inl e)
        | Inr (base, bar) \<Rightarrow>
            let r2 = r1\<lparr>hr_base := base\<rparr> in
            (case bar of
               None \<Rightarrow> (r2, Inr ())
             | Some c \<Rightarrow>
                 if Some (c_openInstant c) = hr_firstBucketStart r2 then (closeFirst c r2, Inr ())
                 else (r2\<lparr>hr_closed := hr_closed r2 @ [c]\<rparr>, Inr ()))))"

fun recorder_accept :: "tick list \<Rightarrow> recorder \<Rightarrow> recorder \<times> unit result" where
  "recorder_accept [] r = (r, Inr ())"
| "recorder_accept (t # ts) r = (case accept_tick t r of
     (r1, Inl e) \<Rightarrow> (r1, Inl e)
   | (r1, Inr _) \<Rightarrow> recorder_accept ts r1)"

definition drain :: "recorder \<Rightarrow> recorder \<times> candle list result" where
  "drain r = (if hr_continuesAfter r = None then (r, Inl (HistoryErr ''drained before told''))
     else (r\<lparr>hr_closed := []\<rparr>, Inr (hr_closed r)))"

definition open_bar :: "recorder \<Rightarrow> candle option" where
  "open_bar r = (case current (hr_base r) of
     None \<Rightarrow> None
   | Some c \<Rightarrow> if Some (c_openInstant c) = hr_firstBucketStart r \<and> hr_firstFate r \<noteq> Whole then None else Some c)"

section \<open>Runs\<close>

text \<open>What a caller does to a recorder, and the bars its drains have handed out so far.\<close>

datatype recorder_event = Fed "tick list" | Told "int option" | Drained

fun recorder_step :: "recorder_event \<Rightarrow> recorder \<times> candle list \<Rightarrow> (recorder \<times> candle list) result" where
  "recorder_step (Fed ts) (r, out) = (case recorder_accept ts r of (r', a) \<Rightarrow> andThen a (\<lambda>_. Inr (r', out)))"
| "recorder_step (Told k) (r, out) = (case continueAfter k r of (r', a) \<Rightarrow> andThen a (\<lambda>_. Inr (r', out)))"
| "recorder_step Drained (r, out) = (case drain r of (r', a) \<Rightarrow> andThen a (\<lambda>cs. Inr (r', out @ cs)))"

definition recorder_run :: "joins \<Rightarrow> recorder_event list \<Rightarrow> (recorder \<times> candle list) result" where
  "recorder_run start evs = foldE recorder_step evs (new_recorder start, [])"

fun fed :: "recorder_event list \<Rightarrow> tick list" where
  "fed [] = []"
| "fed (Fed ts # evs) = ts @ fed evs"
| "fed (_ # evs) = fed evs"

fun told :: "recorder_event list \<Rightarrow> int option option" where
  "told [] = None"
| "told (Told k # evs) = Some k"
| "told (_ # evs) = told evs"

definition joined :: "joins \<Rightarrow> recorder_event list \<Rightarrow> int option option" where
  "joined start evs = (case start of Continues k \<Rightarrow> Some k | Unknown \<Rightarrow> told evs)"

text \<open>The minutes of the ticks that have closed, and whether the first of them was seen whole.\<close>

definition closed_minutes :: "tick list \<Rightarrow> candle list" where
  "closed_minutes ts = butlast (stream_bars HISTORY_BASE_TIMEFRAME ts)"

definition first_whole :: "int option \<Rightarrow> tick list \<Rightarrow> bool" where
  "first_whole k ts \<longleftrightarrow> ts \<noteq> [] \<and> sequence (hd ts) = (case k of None \<Rightarrow> FIRST_SEQUENCE_history | Some n \<Rightarrow> n + 1)"

definition whole_minutes :: "int option \<Rightarrow> tick list \<Rightarrow> candle list" where
  "whole_minutes k ts = (if first_whole k ts then closed_minutes ts else tl (closed_minutes ts))"

section \<open>The recorder after a run\<close>

abbreviation minute :: timeframe where
  "minute \<equiv> timeframe HISTORY_BASE_TIMEFRAME"

definition first_option :: "'a list \<Rightarrow> 'a option" where
  "first_option xs = (case xs of [] \<Rightarrow> None | x # _ \<Rightarrow> Some x)"

definition base_after :: "tick list \<Rightarrow> aggregator" where
  "base_after ts = \<lparr>ag_timeframe = minute, ag_open = snd (fold (tick_step minute) ts ([], None)),
     ag_previousTick = last_option ts\<rparr>"

fun fate_of :: "int option option \<Rightarrow> tick list \<Rightarrow> bucket_fate" where
  "fate_of (Some k) (t # ts) = (if first_whole k (t # ts) then Whole else Withheld)"
| "fate_of _ _ = Undecided"

definition recorder_at :: "int option option \<Rightarrow> tick list \<Rightarrow> candle list \<Rightarrow> recorder" where
  "recorder_at k ts out = \<lparr>hr_base = base_after ts, hr_closed = out, hr_continuesAfter = k,
     hr_first = first_option ts, hr_firstBucketStart = map_option (\<lambda>t. bucket (durationMs minute) (instant t)) (first_option ts),
     hr_firstFate = fate_of k ts,
     hr_firstClosed = (if fate_of k ts = Undecided then first_option (closed_minutes ts) else None),
     hr_withheld = (if fate_of k ts = Withheld then first_option (closed_minutes ts) else None)\<rparr>"

text \<open>The bars handed out or ready to be: all but the first while it is pending or withheld.\<close>

definition released :: "int option option \<Rightarrow> tick list \<Rightarrow> candle list" where
  "released k ts = (case k of None \<Rightarrow> tl (closed_minutes ts) | Some j \<Rightarrow> whole_minutes j ts)"

fun behind :: "int option option \<Rightarrow> tick list \<Rightarrow> bool" where
  "behind (Some (Some n)) (t # ts) = (sequence t \<le> n)"
| "behind _ _ = False"

lemma first_option_simps [simp]: "first_option [] = None" "first_option (x # xs) = Some x"
  by (simp_all add: first_option_def)

lemma closed_minutes_Nil [simp]: "closed_minutes [] = []"
  by (simp add: closed_minutes_def stream_bars_def bucket_starts_def)

lemma closed_minutes_fold:
  assumes "ticks_ordered ts"
  shows "fst (fold (tick_step minute) ts ([], None)) = closed_minutes ts"
proof (cases "ts = []")
  case False
  then show ?thesis using fold_ticks_state [of minute ts] ticks_ordered_instants [OF assms]
    by (simp add: closed_minutes_def stream_bars_def map_butlast)
qed simp

lemma ticks_ordered_snoc:
  "ticks_ordered (ts @ [t]) \<longleftrightarrow> ticks_ordered ts \<and> assertTickOrder (last_option ts) t = Inr ()"
proof (cases ts rule: rev_cases)
  case (snoc us u)
  have *: "x \<in> set us \<Longrightarrow> tick_before x u \<Longrightarrow> tick_before u t \<Longrightarrow> tick_before x t" for x
    by auto
  show ?thesis unfolding ordered_from_iff snoc
    by (auto simp: sorted_wrt_append last_option_def assertTickOrder_Some dest: *)
qed (simp add: last_option_def)

lemma accept_after:
  assumes "valid_instant (instant t)" "ticks_ordered (ts @ [t])"
  obtains bar where "accept (base_after ts) t = Inr (base_after (ts @ [t]), bar)"
    "closed_minutes (ts @ [t]) = closed_minutes ts @ option_list bar"
proof -
  have o: "ticks_ordered ts" "assertTickOrder (last_option ts) t = Inr ()"
    using assms(2) by (simp_all add: ticks_ordered_snoc)
  obtain out op where f: "fold (tick_step minute) ts ([], None) = (out, op)"
    by (cases "fold (tick_step minute) ts ([], None)")
  have out: "out = closed_minutes ts" using closed_minutes_fold [OF o(1)] f by simp
  obtain out' op' where f': "tick_step minute t (out, op) = (out', op')" by (cases "tick_step minute t (out, op)")
  then have out': "out' = closed_minutes (ts @ [t])" using closed_minutes_fold [OF assms(2)] f by simp
  have last: "last_option (ts @ [t]) = Some t" by (simp add: last_option_def)
  have "fold_step t (base_after ts, out) = Inr ((base_after ts)\<lparr>ag_previousTick := Some t, ag_open := op'\<rparr>, out')"
    using fold_step_pure [of t "base_after ts" out] assms(1) o(2) f' f by (simp add: base_after_def)
  moreover have "(base_after ts)\<lparr>ag_previousTick := Some t, ag_open := op'\<rparr> = base_after (ts @ [t])"
    using f f' by (simp add: base_after_def last)
  ultimately have "fold_step t (base_after ts, out) = Inr (base_after (ts @ [t]), out')" by simp
  then show ?thesis using that out out' by (auto simp: fold_step_def andThen_Inr_iff)
qed

lemma closed_minutes_opens:
  assumes "ticks_ordered ts"
  shows "map c_openInstant (closed_minutes ts) = butlast (bucket_starts minute ts)"
    "sorted_wrt (<) (bucket_starts minute ts)"
  using strict_bucket_starts [of minute ts] ticks_ordered_instants [OF assms]
  by (simp_all add: closed_minutes_def stream_bars_def o_def map_butlast)

lemma hd_bucket_starts: "ts \<noteq> [] \<Longrightarrow> hd (bucket_starts minute ts) = bucket (durationMs minute) (instant (hd ts))"
  by (simp add: bucket_starts_def hd_remdups_adj hd_map)

text \<open>A bar that closes is the first bucket's exactly when nothing had closed before it.\<close>

lemma closes_first:
  assumes "ticks_ordered (ts @ [t])" "closed_minutes (ts @ [t]) = closed_minutes ts @ [c]" "ts \<noteq> []"
  shows "c_openInstant c = bucket (durationMs minute) (instant (hd ts)) \<longleftrightarrow> closed_minutes ts = []"
proof -
  let ?S = "bucket_starts minute (ts @ [t])"
  have m: "map c_openInstant (closed_minutes ts @ [c]) = butlast ?S" and s: "sorted_wrt (<) ?S"
    using closed_minutes_opens [OF assms(1)] assms(2) by simp_all
  have "hd ?S = bucket (durationMs minute) (instant (hd ts))" using assms(3) hd_bucket_starts [of "ts @ [t]"] by simp
  moreover have "hd ?S = hd (butlast ?S)" using m by (cases ?S) (auto split: if_splits)
  moreover have "sorted_wrt (<) (butlast ?S)" using s by (metis butlast_conv_take sorted_wrt_take)
  ultimately show ?thesis unfolding m [symmetric] by (cases "closed_minutes ts") auto
qed

lemma closed_minutes_single [simp]: "closed_minutes [t] = []"
  by (simp add: closed_minutes_def stream_bars_def bucket_starts_def)

lemma first_option_snoc: "ts \<noteq> [] \<Longrightarrow> first_option (ts @ us) = first_option ts"
  by (cases ts) simp_all

lemma first_whole_snoc: "ts \<noteq> [] \<Longrightarrow> first_whole k (ts @ us) = first_whole k ts"
  by (cases ts) (simp_all add: first_whole_def)

lemma fate_of_snoc: "ts \<noteq> [] \<Longrightarrow> fate_of k (ts @ us) = fate_of k ts"
  using first_whole_snoc [of ts _ us] by (cases ts; cases k) simp_all

lemma behind_snoc: "ts \<noteq> [] \<Longrightarrow> behind k (ts @ us) = behind k ts"
  by (induction k ts rule: behind.induct) simp_all

lemma fate_of_Some: "ts \<noteq> [] \<Longrightarrow> fate_of (Some k) ts = (if first_whole k ts then Whole else Withheld)"
  by (cases ts) simp_all

lemma open_first_at:
  assumes "valid_instant (instant t)"
  shows "open_first t (recorder_at k ts out) =
    (if ts \<noteq> [] then (recorder_at k ts out, Inr ())
     else if behind k [t] then
       ((recorder_at k [] out)\<lparr>hr_first := Some t, hr_firstBucketStart := Some (bucket (durationMs minute) (instant t))\<rparr>,
        Inl (HistoryErr ''restarted behind the stored head''))
     else ((recorder_at k [t] out)\<lparr>hr_base := base_after []\<rparr>, Inr ()))"
proof (cases "ts = []")
  case True
  have b: "bucketStart (instant t) (ag_timeframe (base_after [])) = Inr (bucket (durationMs minute) (instant t))"
    using assms by (simp add: base_after_def bucketStart_eq)
  show ?thesis
  proof (cases k)
    case None
    then show ?thesis using True b by (simp add: open_first_def recorder_at_def decideFirst_def)
  next
    case (Some j)
    then show ?thesis using True b
      by (cases j) (simp_all add: open_first_def recorder_at_def decideFirst_def Let_def first_whole_def FIRST_SEQUENCE_history_def)
  qed
next
  case False
  then show ?thesis by (cases ts) (simp_all add: open_first_def recorder_at_def)
qed

lemma recorder_at_sel [simp]:
  "hr_base (recorder_at k ts cs) = base_after ts" "hr_closed (recorder_at k ts cs) = cs"
  "hr_continuesAfter (recorder_at k ts cs) = k" "hr_firstFate (recorder_at k ts cs) = fate_of k ts"
  "hr_firstBucketStart (recorder_at k ts cs) = map_option (\<lambda>t. bucket (durationMs minute) (instant t)) (first_option ts)"
  by (simp_all add: recorder_at_def)

text \<open>A tick in order extends what the recorder has seen, and what it may hand out grows as it should.\<close>

lemma accept_tick_at:
  assumes "valid_instant (instant t)" "ticks_ordered (ts @ [t])" "\<not> behind k (ts @ [t])"
    and "out @ cs = released k ts"
  obtains cs' where "accept_tick t (recorder_at k ts cs) = (recorder_at k (ts @ [t]) cs', Inr ())"
    "out @ cs' = released k (ts @ [t])"
proof -
  obtain bar where bar: "accept (base_after ts) t = Inr (base_after (ts @ [t]), bar)"
      "closed_minutes (ts @ [t]) = closed_minutes ts @ option_list bar"
    using accept_after [OF assms(1,2)] .
  show ?thesis
  proof (cases "ts = []")
    case True
    then have "bar = None" using bar(2) by (cases bar) simp_all
    moreover have "open_first t (recorder_at k ts cs) = ((recorder_at k [t] cs)\<lparr>hr_base := base_after []\<rparr>, Inr ())"
      using True assms(3) by (simp only: open_first_at [OF assms(1)]) simp
    ultimately have "accept_tick t (recorder_at k ts cs) = (recorder_at k (ts @ [t]) cs, Inr ())"
      using True bar(1) by (simp add: accept_tick_def)
    moreover have "out @ cs = released k (ts @ [t])"
      using True assms(4) by (cases k) (simp_all add: released_def whole_minutes_def)
    ultimately show ?thesis using that by blast
  next
    case False
    note snoc = first_option_snoc [OF False, of "[t]"] fate_of_snoc [OF False, of _ "[t]"] first_whole_snoc [OF False, of _ "[t]"]
    have first: "first_option ts = Some (hd ts)" using False by (cases ts) simp_all
    have opened: "open_first t (recorder_at k ts cs) = (recorder_at k ts cs, Inr ())"
      using False by (simp only: open_first_at [OF assms(1)]) simp
    show ?thesis
    proof (cases bar)
      case None
      then have "accept_tick t (recorder_at k ts cs) = (recorder_at k (ts @ [t]) cs, Inr ())"
        using bar snoc by (simp add: accept_tick_def opened) (simp add: recorder_at_def)
      moreover have "out @ cs = released k (ts @ [t])"
        using None bar(2) assms(4) snoc by (simp add: released_def whole_minutes_def split: option.splits)
      ultimately show ?thesis using that by blast
    next
      case (Some c)
      have iff: "c_openInstant c = bucket (durationMs minute) (instant (hd ts)) \<longleftrightarrow> closed_minutes ts = []"
        using closes_first [OF assms(2) _ False] bar(2) Some by simp
      have step: "accept_tick t (recorder_at k ts cs) =
        (let r = (recorder_at k ts cs)\<lparr>hr_base := base_after (ts @ [t])\<rparr> in
         if closed_minutes ts = [] then (closeFirst c r, Inr ()) else (r\<lparr>hr_closed := cs @ [c]\<rparr>, Inr ()))"
        using bar(1) iff first Some by (simp add: accept_tick_def opened Let_def del: closeFirst.simps)
      let ?cs = "if closed_minutes ts = [] then (if fate_of k ts = Whole then c # cs else cs) else cs @ [c]"
      have "accept_tick t (recorder_at k ts cs) = (recorder_at k (ts @ [t]) ?cs, Inr ())"
      proof (cases "closed_minutes ts")
        case Nil
        then show ?thesis using step bar(2) Some snoc
          by (cases "fate_of k ts") (simp_all add: recorder_at_def Let_def)
      next
        case (Cons d ds)
        then show ?thesis using step bar(2) Some snoc by (simp add: recorder_at_def Let_def)
      qed
      moreover have "out @ ?cs = released k (ts @ [t])"
      proof (cases "closed_minutes ts")
        case Nil
        then have "released k ts = []" by (simp add: released_def whole_minutes_def split: option.splits)
        then have "out = []" "cs = []" using assms(4) by simp_all
        then show ?thesis using Nil bar(2) Some snoc fate_of_Some [OF False]
          by (cases k) (simp_all add: released_def whole_minutes_def)
      next
        case (Cons d ds)
        have "released k (ts @ [t]) = released k ts @ [c]"
          using Cons bar(2) Some snoc by (simp add: released_def whole_minutes_def split: option.splits)
        also have "\<dots> = out @ cs @ [c]" using assms(4) by (metis append_assoc)
        finally show ?thesis using Cons by simp
      qed
      ultimately show ?thesis using that by blast
    qed
  qed
qed

text \<open>What was told stays told, and telling releases what was pending.\<close>

lemma continueAfter_at:
  assumes "\<not> behind (Some k) ts" "out @ cs = released None ts" "out = []"
  obtains cs' where "continueAfter k (recorder_at None ts cs) = (recorder_at (Some k) ts cs', Inr ())"
    "out @ cs' = released (Some k) ts"
proof (cases ts)
  case Nil
  then have "continueAfter k (recorder_at None ts cs) = (recorder_at (Some k) ts cs, Inr ())"
    by (simp add: continueAfter_def decideFirst_def recorder_at_def)
  then show ?thesis using that [of cs] assms Nil by (simp add: released_def whole_minutes_def)
next
  case (Cons t us)
  have exp: "sequence t = (case k of None \<Rightarrow> FIRST_SEQUENCE_history - 1 | Some n \<Rightarrow> n) + 1 \<longleftrightarrow> first_whole k ts"
    using Cons by (cases k) (simp_all add: first_whole_def)
  have nb: "\<not> (case k of None \<Rightarrow> False | Some n \<Rightarrow> sequence t \<le> n)" using assms(1) Cons by (cases k) simp_all
  have cs: "cs = tl (closed_minutes ts)" using assms(2,3) by (simp add: released_def)
  let ?cs = "if first_whole k ts then option_list (first_option (closed_minutes ts)) @ cs else cs"
  have "continueAfter k (recorder_at None ts cs) = (recorder_at (Some k) ts ?cs, Inr ())"
    using Cons exp nb
    by (cases "closed_minutes (t # us)")
       (simp_all add: continueAfter_def decideFirst_def recorder_at_def Let_def)
  moreover have "out @ ?cs = released (Some k) ts"
    using assms(3) cs by (cases "closed_minutes ts") (simp_all add: released_def whole_minutes_def)
  ultimately show ?thesis using that by blast
qed

text \<open>The run of a recorder, told at most once: the state it reaches and the bars it has handed out.\<close>

lemma recorder_accept_at:
  assumes "\<forall>t\<in>set us. valid_instant (instant t)" "out @ cs = released k ts"
    and "recorder_accept us (recorder_at k ts cs) = (r', Inr ())" "ticks_ordered ts" "\<not> behind k ts"
  shows "\<exists>cs'. r' = recorder_at k (ts @ us) cs' \<and> out @ cs' = released k (ts @ us) \<and>
    ticks_ordered (ts @ us) \<and> \<not> behind k (ts @ us)"
  using assms
proof (induction us arbitrary: ts cs)
  case (Cons t us)
  have v: "valid_instant (instant t)" using Cons.prems(1) by simp
  have ne: "snd (accept_tick t (recorder_at k ts cs)) = Inr ()"
    using Cons.prems(3) by (auto split: prod.splits sum.splits)
  have nb: "\<not> behind k (ts @ [t])"
  proof
    assume b: "behind k (ts @ [t])"
    show False
    proof (cases "ts = []")
      case True
      then show False using ne b
        unfolding accept_tick_def open_first_at [OF v] by simp
    next
      case False
      then show False using b Cons.prems(5) by (simp add: behind_snoc)
    qed
  qed
  have o: "ticks_ordered (ts @ [t])"
  proof (rule ccontr)
    assume "\<not> ticks_ordered (ts @ [t])"
    then have bad: "assertTickOrder (last_option ts) t \<noteq> Inr ()" using Cons.prems(4) by (simp add: ticks_ordered_snoc)
    then have "ts \<noteq> []" by (auto simp: last_option_def)
    then have "open_first t (recorder_at k ts cs) = (recorder_at k ts cs, Inr ())"
      by (simp only: open_first_at [OF v]) simp
    moreover obtain e where "accept (base_after ts) t = Inl e"
      using bad by (cases "assertTickOrder (last_option ts) t") (auto simp: accept_def base_after_def)
    ultimately show False using ne by (simp add: accept_tick_def)
  qed
  obtain cs1 where 1: "accept_tick t (recorder_at k ts cs) = (recorder_at k (ts @ [t]) cs1, Inr ())"
      "out @ cs1 = released k (ts @ [t])"
    using accept_tick_at [OF v o nb Cons.prems(2)] .
  have "recorder_accept us (recorder_at k (ts @ [t]) cs1) = (r', Inr ())" using Cons.prems(3) 1(1) by simp
  from Cons.IH [OF _ 1(2) this o nb] Cons.prems(1) show ?case by simp
qed auto

fun telling :: "int option option \<Rightarrow> recorder_event list \<Rightarrow> int option option" where
  "telling (Some k) evs = Some k"
| "telling None evs = told evs"

lemma telling_Nil [simp]: "telling k [] = k"
  by (cases k) simp_all

lemma recorder_run_at:
  assumes "\<forall>t\<in>set (fed evs). valid_instant (instant t)" "out @ cs = released k ts" "k = None \<Longrightarrow> out = []"
    and "foldE recorder_step evs (recorder_at k ts cs, out) = Inr (r', out')" "ticks_ordered ts" "\<not> behind k ts"
  shows "let k' = telling k evs; us = ts @ fed evs in
    (\<exists>cs'. r' = recorder_at k' us cs' \<and> out' @ cs' = released k' us) \<and> (k' = None \<longrightarrow> out' = []) \<and>
    ticks_ordered us \<and> \<not> behind k' us"
  using assms
proof (induction evs arbitrary: k ts cs out)
  case (Cons ev evs)
  show ?case
  proof (cases ev)
    case (Fed us)
    then obtain r1 where r1: "recorder_accept us (recorder_at k ts cs) = (r1, Inr ())"
        "foldE recorder_step evs (r1, out) = Inr (r', out')"
      using Cons.prems(4) by (auto simp: andThen_Inr_iff split: prod.splits)
    have v: "\<forall>t\<in>set us. valid_instant (instant t)" using Cons.prems(1) Fed by simp
    obtain cs1 where cs1: "r1 = recorder_at k (ts @ us) cs1" "out @ cs1 = released k (ts @ us)"
        "ticks_ordered (ts @ us)" "\<not> behind k (ts @ us)"
      using recorder_accept_at [OF v Cons.prems(2) r1(1) Cons.prems(5,6)] by blast
    have "telling k (ev # evs) = telling k evs" by (cases k) (simp_all add: Fed)
    then show ?thesis
      using Cons.IH [OF _ cs1(2) Cons.prems(3) r1(2) [unfolded cs1(1)] cs1(3,4)] Cons.prems(1) Fed by simp
  next
    case (Told j)
    have k: "k = None" using Cons.prems(4) Told by (cases k) (auto simp: continueAfter_def)
    then have out: "out = []" using Cons.prems(3) by simp
    have nb: "\<not> behind (Some j) ts"
    proof
      assume "behind (Some j) ts"
      then obtain n t us where "j = Some n" "ts = t # us" "sequence t \<le> n" by (cases j; cases ts) auto
      then show False using Cons.prems(4) Told k
        by (simp add: continueAfter_def decideFirst_def recorder_at_def)
    qed
    obtain cs1 where 1: "continueAfter j (recorder_at None ts cs) = (recorder_at (Some j) ts cs1, Inr ())"
        "out @ cs1 = released (Some j) ts"
      using continueAfter_at [OF nb] Cons.prems(2) k out by metis
    then have "foldE recorder_step evs (recorder_at (Some j) ts cs1, out) = Inr (r', out')"
      using Cons.prems(4) Told k by simp
    from Cons.IH [OF _ 1(2) _ this Cons.prems(5) nb] Cons.prems(1) show ?thesis by (simp add: Told k)
  next
    case Drained
    then obtain j where k: "k = Some j" using Cons.prems(4) by (cases k) (auto simp: drain_def)
    have "foldE recorder_step evs (recorder_at k ts [], out @ cs) = Inr (r', out')"
      using Cons.prems(4) by (simp add: Drained drain_def k) (simp add: recorder_at_def)
    from Cons.IH [OF _ _ _ this Cons.prems(5,6)] Cons.prems(1,2) show ?thesis by (simp add: Drained k)
  qed
qed (auto simp: Let_def)

lemma new_recorder_at: "new_recorder start = recorder_at (case start of Unknown \<Rightarrow> None | Continues k \<Rightarrow> Some k) [] []"
  by (cases start) (simp_all add: new_recorder_def recorder_at_def base_after_def new_aggregator_def last_option_def)

text \<open>C33: However feeds, drains and the news of the store interleave, a recorder that did not throw has handed
  out or holds ready exactly the closed minutes of the ticks it was fed, in order: the first of them only
  once it knows that its first tick follows the newest stored bar, or is the first there ever was.\<close>

theorem recorder_whole_minutes:
  assumes "\<forall>t\<in>set (fed evs). valid_instant (instant t)" "recorder_run start evs = Inr (r, out)"
  shows "out @ hr_closed r = (case joined start evs of
      None \<Rightarrow> tl (closed_minutes (fed evs)) | Some k \<Rightarrow> whole_minutes k (fed evs)) \<and>
    (joined start evs = None \<longrightarrow> out = [])"
proof -
  let ?k = "case start of Unknown \<Rightarrow> None | Continues k \<Rightarrow> Some k"
  have "[] @ [] = released ?k []" "\<not> behind ?k []" by (simp_all add: released_def whole_minutes_def split: joins.splits)
  from recorder_run_at [OF assms(1) this(1) _ assms(2) [unfolded recorder_run_def new_recorder_at] _ this(2)]
  have "\<exists>cs'. r = recorder_at (telling ?k evs) (fed evs) cs' \<and> out @ cs' = released (telling ?k evs) (fed evs)"
      "telling ?k evs = None \<longrightarrow> out = []" by (simp_all add: Let_def)
  moreover have "telling ?k evs = joined start evs" by (cases start) (simp_all add: joined_def)
  ultimately show ?thesis by (auto simp: released_def)
qed

abbreviation joining_ticks :: "tick list" where
  "joining_ticks \<equiv> [\<lparr>instant = 65000, sequence = 7, price = 10\<rparr>, \<lparr>instant = 119000, sequence = 8, price = 14\<rparr>,
     \<lparr>instant = 121000, sequence = 9, price = 9\<rparr>, \<lparr>instant = 181000, sequence = 10, price = 11\<rparr>]"

lemma joining_run:
  "\<exists>r. recorder_run Unknown [Fed (take 3 joining_ticks), Told k, Fed (drop 3 joining_ticks), Drained] = Inr (r,
     if k = Some 6
     then [\<lparr>c_openInstant = 60000, c_timeframe = TF_1m, c_open = 10, c_high = 14, c_low = 10, c_close = 14,
              c_tickCount = 2, c_firstSequence = 7, c_lastSequence = 8\<rparr>,
           \<lparr>c_openInstant = 120000, c_timeframe = TF_1m, c_open = 9, c_high = 9, c_low = 9, c_close = 9,
              c_tickCount = 1, c_firstSequence = 9, c_lastSequence = 9\<rparr>]
     else [\<lparr>c_openInstant = 120000, c_timeframe = TF_1m, c_open = 9, c_high = 9, c_low = 9, c_close = 9,
              c_tickCount = 1, c_firstSequence = 9, c_lastSequence = 9\<rparr>])" if "k = Some 6 \<or> k = Some 3"
  using that
  by (auto simp: recorder_run_def new_recorder_def new_aggregator_def accept_tick_def open_first_def accept_def
      bucketStart_eq valid_instant_def MAX_EPOCH_MILLIS_def bucket_def HISTORY_BASE_TIMEFRAME_def decideFirst_def
      continueAfter_def drain_def assertTickOrder_def open_candle_def extend_candle_def freeze_def Let_def)

theorem recorder_whole_minutes_witness:
  "\<exists>r out. recorder_run Unknown [Fed (take 3 joining_ticks), Told (Some 3), Fed (drop 3 joining_ticks), Drained] = Inr (r, out) \<and>
     out @ hr_closed r = whole_minutes (Some 3) joining_ticks \<and> \<not> first_whole (Some 3) joining_ticks"
proof -
  let ?evs = "[Fed (take 3 joining_ticks), Told (Some 3), Fed (drop 3 joining_ticks), Drained]"
  obtain r out where r: "recorder_run Unknown ?evs = Inr (r, out)" using joining_run [of "Some 3"] by blast
  have "\<forall>t\<in>set (fed ?evs). valid_instant (instant t)" by (simp add: valid_instant_def MAX_EPOCH_MILLIS_def)
  from recorder_whole_minutes [OF this r] show ?thesis using r by (simp add: joined_def first_whole_def)
qed

end
