(* ===== verification/HistoryRead.thy ===== *)
theory HistoryRead
  imports HistoryRecorder
begin

text \<open>
  The readers of a history: \<open>lastStoredSequence\<close>, \<open>refreshRollup\<close> and \<open>readTimeframe\<close> of
  packages/runtime/src/history.ts, over any implementation of \<open>CandleHistory\<close>. Hour bars are folded
  from stored minutes and coarser charts from whichever tier nests in them; a bucket with a jump of
  sequence inside is withheld. Sums and products of an instant with a duration stay below \<open>2 ^ 53\<close>
  and are written as exact integers; the quotient of two Numbers is rounded before it is floored.
\<close>

section \<open>The operations\<close>

abbreviation hour :: timeframe where
  "hour \<equiv> timeframe HISTORY_ROLLUP_TIMEFRAME"

definition lastStoredSequence :: "'s history_ops \<Rightarrow> 's \<Rightarrow> string \<Rightarrow> int option result" where
  "lastStoredSequence ops s a =
     andThen (h_head ops s a HISTORY_BASE_TIMEFRAME) (\<lambda>head. case head of
       None \<Rightarrow> Inr None
     | Some h \<Rightarrow>
         andThen (epochMillis (num (h + durationMs minute))) (\<lambda>to.
         andThen (h_read ops s a HISTORY_BASE_TIMEFRAME h to) (\<lambda>bars.
           case last_option bars of
             None \<Rightarrow> Inl (HistoryErr ''holds no bar there'')
           | Some bar \<Rightarrow> Inr (Some (c_lastSequence bar)))))"

text \<open>The buckets on either side of a jump of sequence between neighbouring bars.\<close>

fun hole_buckets :: "(candle \<Rightarrow> int result) \<Rightarrow> candle list \<Rightarrow> int set result" where
  "hole_buckets key (previous # c # cs) =
     (if c_firstSequence c \<noteq> c_lastSequence previous + 1
      then andThen (key previous) (\<lambda>k1. andThen (key c) (\<lambda>k2.
        andThen (hole_buckets key (c # cs)) (\<lambda>ks. Inr (insert k1 (insert k2 ks)))))
      else hole_buckets key (c # cs))"
| "hole_buckets key _ = Inr {}"

definition hourOf :: "int \<Rightarrow> int" where
  "hourOf t = int_of (js_floor (js_div (num t) (num (durationMs hour))))"

definition beginsWhole :: "candle \<Rightarrow> candle \<Rightarrow> bool" where
  "beginsWhole bar firstSource \<longleftrightarrow>
     c_openInstant firstSource = c_openInstant bar \<or> c_firstSequence firstSource = FIRST_SEQUENCE_history"

text \<open>The hours a refresh appends; no hours is the early return of zero.\<close>

definition rollup_hours :: "'s history_ops \<Rightarrow> 's \<Rightarrow> string \<Rightarrow> candle list result" where
  "rollup_hours ops s a =
     andThen (h_head ops s a HISTORY_BASE_TIMEFRAME) (\<lambda>baseHead. case baseHead of
       None \<Rightarrow> Inr []
     | Some bh \<Rightarrow>
         andThen (h_head ops s a HISTORY_ROLLUP_TIMEFRAME) (\<lambda>rollupHead.
         let lo = (case rollupHead of None \<Rightarrow> 0 | Some h \<Rightarrow> h + durationMs hour);
             openHourStart = hourOf bh * durationMs hour in
         if openHourStart \<le> lo then Inr []
         else andThen (epochMillis (num lo)) (\<lambda>from1. andThen (epochMillis (num openHourStart)) (\<lambda>to1.
           andThen (h_read ops s a HISTORY_BASE_TIMEFRAME from1 to1) (\<lambda>minutes.
           if minutes = [] then Inr []
           else andThen (hole_buckets (\<lambda>c. Inr (hourOf (c_openInstant c))) minutes) (\<lambda>withheld.
             let contiguous = filter (\<lambda>m. hourOf (c_openInstant m) \<notin> withheld) minutes in
             if contiguous = [] then Inr []
             else andThen (foldCandles hour contiguous) (\<lambda>hours. Inr (
               if rollupHead = None \<and> hours \<noteq> [] \<and> \<not> beginsWhole (hd hours) (hd contiguous)
               then tl hours else hours))))))))"

definition refreshRollup :: "'s history_ops \<Rightarrow> string \<Rightarrow> 's \<Rightarrow> 's \<times> nat result" where
  "refreshRollup ops a s = (case rollup_hours ops s a of
     Inl e \<Rightarrow> (s, Inl e)
   | Inr hours \<Rightarrow>
       if hours = [] then (s, Inr 0)
       else case h_append ops s a HISTORY_ROLLUP_TIMEFRAME hours None of
         (s', r) \<Rightarrow> (s', andThen r (\<lambda>_. Inr (length hours))))"

text \<open>Whether a folded bar is kept: its whole bucket covered, its open inside the window, no hole in it.\<close>

definition keeps_bar ::
  "timeframe \<Rightarrow> timeframe \<Rightarrow> int option \<Rightarrow> int \<Rightarrow> int \<Rightarrow> int set \<Rightarrow> candle \<Rightarrow> bool" where
  "keeps_bar wanted source head lo hi holes bar \<longleftrightarrow>
     (case head of None \<Rightarrow> False | Some h \<Rightarrow> c_openInstant bar + durationMs wanted \<le> h + durationMs source) \<and>
     lo \<le> c_openInstant bar \<and> c_openInstant bar < hi \<and> c_openInstant bar \<notin> holes"

text \<open>The leading bucket is kept only if the history did not begin inside it.\<close>

definition leading_checked ::
  "'s history_ops \<Rightarrow> 's \<Rightarrow> string \<Rightarrow> timeframe \<Rightarrow> timeframe \<Rightarrow> candle list \<Rightarrow> candle list \<Rightarrow> candle list result" where
  "leading_checked ops s a source wanted stored kept = (case kept of
     [] \<Rightarrow> Inr []
   | leading # rest \<Rightarrow>
       if beginsWhole leading (hd stored) then Inr kept
       else andThen (epochMillis (num (c_openInstant leading - durationMs wanted))) (\<lambda>lo.
         andThen (epochMillis (num (c_openInstant leading))) (\<lambda>hi.
         andThen (h_read ops s a (tf_id source) lo hi) (\<lambda>before.
         Inr (if before = [] then rest else kept)))))"

definition readTimeframe ::
  "'s history_ops \<Rightarrow> 's \<Rightarrow> string \<Rightarrow> timeframe_id \<Rightarrow> int \<Rightarrow> int \<Rightarrow> candle list result" where
  "readTimeframe ops s a target from1 to1 =
     (let wanted = timeframe target; base = minute in
      andThen (require (isCoarserOrEqual wanted base) (HistoryErr ''finer than the base'')) (\<lambda>_.
      let source = (if nests hour wanted then hour else base) in
      andThen (bucketStart from1 wanted) (\<lambda>alignedFrom.
      andThen (bucketStart to1 wanted) (\<lambda>lastBucket.
      andThen (epochMillis (num alignedFrom)) (\<lambda>lo.
      andThen (epochMillis (num (lastBucket + durationMs wanted))) (\<lambda>hi.
      andThen (h_read ops s a (tf_id source) lo hi) (\<lambda>stored.
      if stored = [] then Inr []
      else andThen (if tf_id source = target then Inr stored else foldCandles wanted stored) (\<lambda>folded.
        if folded = [] then Inr []
        else andThen (if tf_id source \<noteq> target
            then hole_buckets (\<lambda>c. bucketStart (c_openInstant c) wanted) stored else Inr {}) (\<lambda>holes.
          andThen (h_head ops s a (tf_id source)) (\<lambda>head.
          leading_checked ops s a source wanted stored
            (filter (keeps_bar wanted source head from1 to1 holes) folded)))))))))))"

section \<open>Buckets with holes\<close>

text \<open>Bars that touch in sequence: each begins right after the one before it ends.\<close>

fun touching :: "candle list \<Rightarrow> bool" where
  "touching (p # c # cs) \<longleftrightarrow> c_firstSequence c = c_lastSequence p + 1 \<and> touching (c # cs)"
| "touching _ \<longleftrightarrow> True"

fun hole_keys :: "(candle \<Rightarrow> int) \<Rightarrow> candle list \<Rightarrow> int set" where
  "hole_keys key (p # c # cs) = (if c_firstSequence c \<noteq> c_lastSequence p + 1
     then insert (key p) (insert (key c) (hole_keys key (c # cs))) else hole_keys key (c # cs))"
| "hole_keys key _ = {}"

lemma hole_buckets_eq:
  "(\<And>c. c \<in> set cs \<Longrightarrow> key c = Inr (k c)) \<Longrightarrow> hole_buckets key cs = Inr (hole_keys k cs)"
  by (induction key cs rule: hole_buckets.induct) simp_all

lemma touching_append:
  "touching (xs @ ys) \<longleftrightarrow> touching xs \<and> touching ys \<and>
     (xs = [] \<or> ys = [] \<or> c_firstSequence (hd ys) = c_lastSequence (last xs) + 1)"
proof (induction xs)
  case (Cons x xs)
  then show ?case by (cases xs; cases ys) auto
qed simp

text \<open>A run of neighbouring bars of one bucket that no hole touches is one run of sequences.\<close>

lemma hole_keys_append_subset:
  "hole_keys k xs \<subseteq> hole_keys k (xs @ ys)" "hole_keys k ys \<subseteq> hole_keys k (xs @ ys)"
proof -
  show "hole_keys k xs \<subseteq> hole_keys k (xs @ ys)"
    by (induction k xs rule: hole_keys.induct) auto
  show "hole_keys k ys \<subseteq> hole_keys k (xs @ ys)"
  proof (induction xs)
    case (Cons x xs)
    then show ?case by (cases "xs @ ys") auto
  qed simp
qed

lemma touching_of_hole_keys:
  "(\<And>c. c \<in> set cs \<Longrightarrow> k c = b) \<Longrightarrow> b \<notin> hole_keys k cs \<Longrightarrow> touching cs"
  by (induction k cs rule: hole_keys.induct) (auto split: if_splits)

lemma hole_keys_iff:
  "b \<in> hole_keys k cs \<longleftrightarrow> (\<exists>xs p c ys. cs = xs @ p # c # ys \<and>
     c_firstSequence c \<noteq> c_lastSequence p + 1 \<and> (k p = b \<or> k c = b))" (is "_ \<longleftrightarrow> ?R cs")
proof (induction cs)
  case (Cons p cs)
  show ?case
  proof (cases cs)
    case (Cons c ds)
    have "?R (p # cs) \<longleftrightarrow> (c_firstSequence c \<noteq> c_lastSequence p + 1 \<and> (k p = b \<or> k c = b)) \<or> ?R cs"
    proof
      assume "?R (p # cs)"
      then obtain xs q d ys where e: "p # cs = xs @ q # d # ys" "c_firstSequence d \<noteq> c_lastSequence q + 1" "k q = b \<or> k d = b"
        by blast
      then show "(c_firstSequence c \<noteq> c_lastSequence p + 1 \<and> (k p = b \<or> k c = b)) \<or> ?R cs"
        using Cons by (cases xs) auto
    next
      assume "(c_firstSequence c \<noteq> c_lastSequence p + 1 \<and> (k p = b \<or> k c = b)) \<or> ?R cs"
      then show "?R (p # cs)" unfolding Cons by (metis append_Cons append_Nil)
    qed
    then show ?thesis using Cons.IH Cons by auto
  qed simp
qed simp

lemma sorted_split:
  fixes k :: "'a \<Rightarrow> int"
  assumes "sorted (map k cs)"
  shows "cs = filter (\<lambda>c. k c < b) cs @ filter (\<lambda>c. k c = b) cs @ filter (\<lambda>c. b < k c) cs"
  using assms
proof (induction cs)
  case (Cons c cs)
  then have IH: "cs = filter (\<lambda>c. k c < b) cs @ filter (\<lambda>c. k c = b) cs @ filter (\<lambda>c. b < k c) cs"
    and le: "\<forall>d\<in>set cs. k c \<le> k d" by auto
  have lt: "b \<le> k c \<Longrightarrow> filter (\<lambda>c. k c < b) cs = []" "b < k c \<Longrightarrow> filter (\<lambda>c. k c = b) cs = []"
    using le by (force simp: filter_empty_conv)+
  show ?case
  proof (cases "k c" b rule: linorder_cases)
    case less
    then show ?thesis using IH by simp
  next
    case equal
    then show ?thesis using IH lt(1) by simp
  next
    case greater
    then show ?thesis using IH lt by simp
  qed
qed simp

lemma touching_group:
  assumes "sorted (map k cs)" "b \<notin> hole_keys k cs"
  shows "touching (filter (\<lambda>c. k c = b) cs)"
proof (rule touching_of_hole_keys)
  show "b \<notin> hole_keys k (filter (\<lambda>c. k c = b) cs)"
    using assms(2) sorted_split [OF assms(1), of b] hole_keys_append_subset
    by (metis (no_types, lifting) subset_iff)
qed simp

section \<open>The hours a refresh appends\<close>

lemma hourOf_eq:
  assumes "valid_instant t"
  shows "hourOf t = t div 3600000"
proof -
  have t: "0 \<le> t" "t \<le> MAX_SAFE" using assms by (simp_all add: valid_instant_def MAX_EPOCH_MILLIS_def)
  have f: "\<lfloor>fl (of_int t / of_int 3600000)\<rfloor> = t div 3600000"
    using t by (intro floor_fl_div [where k = 32]) (simp_all add: pow2_def)
  have "t div 3600000 \<le> 2501999792" using t by simp
  then have "fl (of_int t / of_int 3600000) < of_int 2501999793"
    using f by (simp only: floor_less_iff [symmetric])
  then have u: "\<not> 2 ^ 1024 \<le> fl (of_int t / of_int 3600000)" by simp
  have "0 \<le> t div 3600000" using t by simp
  then have "of_int 0 \<le> fl (of_int t / of_int 3600000)" using f by (simp only: le_floor_iff [symmetric])
  then have "\<not> fl (of_int t / of_int 3600000) \<le> - (2 ^ 1024)" by simp
  with u f show ?thesis
    by (simp add: hourOf_def num_def js_of_rat_def Let_def HISTORY_ROLLUP_TIMEFRAME_def)
qed

lemma hour_duration [simp]: "DURATIONS_MS HISTORY_ROLLUP_TIMEFRAME = 3600000" "DURATIONS_MS HISTORY_BASE_TIMEFRAME = 60000"
  by (simp_all add: HISTORY_ROLLUP_TIMEFRAME_def HISTORY_BASE_TIMEFRAME_def)

lemma hourOf_bucket:
  "valid_instant t \<Longrightarrow> hourOf t * durationMs hour = bucket (durationMs hour) t"
  by (simp add: hourOf_eq bucket_eq_div)

text \<open>The bucket a stored bar falls in, and the bars of a series whose bucket no jump touches.\<close>

abbreviation bar_bucket :: "timeframe \<Rightarrow> candle \<Rightarrow> int" where
  "bar_bucket tf c \<equiv> bucket (durationMs tf) (c_openInstant c)"

definition vouched :: "timeframe \<Rightarrow> candle list \<Rightarrow> candle list" where
  "vouched tf cs = filter (\<lambda>c. bar_bucket tf c \<notin> hole_keys (bar_bucket tf) cs) cs"

definition rollup_window :: "candle list \<Rightarrow> candle list \<Rightarrow> candle list" where
  "rollup_window ms hs = (case head_instant ms of None \<Rightarrow> []
     | Some t \<Rightarrow> in_window (case head_instant hs of None \<Rightarrow> 0 | Some h \<Rightarrow> h + durationMs hour) (bucket (durationMs hour) t) ms)"

definition rolled :: "candle list \<Rightarrow> candle list \<Rightarrow> candle list" where
  "rolled ms hs = (let V = vouched hour (rollup_window ms hs); new = map (merged_bar hour V) (bar_starts hour V) in
     if hs = [] \<and> new \<noteq> [] \<and> \<not> beginsWhole (hd new) (hd V) then tl new else new)"

lemma series_ok_filter: "series_ok tf cs \<Longrightarrow> series_ok tf (filter P cs)"
  unfolding series_ok_def by (metis filter_is_subset sorted_wrt_map sorted_wrt_filter subsetD)

lemma hole_keys_div:
  "\<forall>c\<in>set cs. k c = d * k' c \<Longrightarrow> 0 < d \<Longrightarrow> d * b \<in> hole_keys k cs \<longleftrightarrow> b \<in> hole_keys k' (cs :: candle list)" for d :: int
  by (induction k' cs rule: hole_keys.induct) auto

lemma vouched_Nil [simp]: "vouched tf [] = []"
  by (simp add: vouched_def)

lemma rolled_Nil: "vouched hour (rollup_window ms hs) = [] \<Longrightarrow> rolled ms hs = []"
  by (simp add: rolled_def bar_starts_def)

lemma head_instant_mem: "head_instant cs = Some t \<Longrightarrow> \<exists>c\<in>set cs. c_openInstant c = t"
  by (auto simp: head_instant_def last_option_def split: if_splits)

lemma head_instant_valid: "series_ok tf cs \<Longrightarrow> head_instant cs = Some t \<Longrightarrow> valid_instant t"
  using head_instant_mem by (fastforce simp: series_ok_def)

context candle_history
begin

lemma rollup_hours_eq:
  assumes "ready s"
  shows "rollup_hours ops s a = Inr (rolled (bars s a TF_1m) (bars s a TF_1h))"
proof -
  let ?M = "bars s a TF_1m" and ?H = "bars s a TF_1h"
  have oM: "series_ok TF_1m ?M" and oH: "series_ok TF_1h ?H" using series [OF assms] by simp_all
  have base: "h_head ops s a HISTORY_BASE_TIMEFRAME = Inr (head_instant ?M)"
    and roll: "h_head ops s a HISTORY_ROLLUP_TIMEFRAME = Inr (head_instant ?H)"
    and rd: "\<And>lo hi. h_read ops s a HISTORY_BASE_TIMEFRAME lo hi = Inr (in_window lo hi ?M)"
    using heads [OF assms] reads [OF assms]
    by (simp_all add: HISTORY_BASE_TIMEFRAME_def HISTORY_ROLLUP_TIMEFRAME_def unless_Inr)
  show ?thesis
  proof (cases "head_instant ?M")
    case None
    then have "rolled ?M ?H = []" by (intro rolled_Nil) (simp add: rollup_window_def)
    with None show ?thesis by (simp add: rollup_hours_def base)
  next
    case (Some t)
    define lo where "lo = (case head_instant ?H of None \<Rightarrow> 0 | Some h \<Rightarrow> h + durationMs hour)"
    have vt: "valid_instant t" using head_instant_valid [OF oM Some] .
    let ?hi = "bucket (durationMs hour) t"
    define W where "W = in_window lo ?hi ?M"
    have W: "rollup_window ?M ?H = W" by (simp add: rollup_window_def Some lo_def W_def)
    have rdW: "h_read ops s a HISTORY_BASE_TIMEFRAME lo ?hi = Inr W" by (simp add: rd W_def)
    have oW: "series_ok TF_1m W" by (simp add: W_def series_ok_filter oM)
    have lo0: "0 \<le> lo" using head_instant_valid [OF oH] by (auto simp: lo_def valid_instant_def split: option.splits)
    show ?thesis
    proof (cases "?hi \<le> lo")
      case True
      then have none: "W = []" by (auto simp: W_def filter_empty_conv)
      have "rolled ?M ?H = []" by (rule rolled_Nil) (simp only: W none vouched_Nil)
      with True Some show ?thesis
        by (simp add: rollup_hours_def base roll hourOf_bucket [OF vt, simplified] flip: lo_def)
    next
      case False
      have hi: "valid_instant ?hi"
        using vt bucket_le [of 3600000 t] bucket_nonneg [of 3600000 t] by (simp add: valid_instant_def)
      then have vlo: "valid_instant lo" using False lo0 by (simp add: valid_instant_def)
      have v: "\<And>c. c \<in> set W \<Longrightarrow> valid_instant (c_openInstant c)" using oW by (simp add: series_ok_def)
      have hb: "hole_buckets (\<lambda>c. Inr (hourOf (c_openInstant c))) W = Inr (hole_keys (\<lambda>c. hourOf (c_openInstant c)) W)"
        by (rule hole_buckets_eq) simp
      have keys: "hourOf (c_openInstant c) \<in> hole_keys (\<lambda>c. hourOf (c_openInstant c)) W \<longleftrightarrow>
          bar_bucket hour c \<in> hole_keys (bar_bucket hour) W" if "c \<in> set W" for c
        using hole_keys_div [of W "bar_bucket hour" 3600000 "\<lambda>c. hourOf (c_openInstant c)" "hourOf (c_openInstant c)"]
          v that by (simp add: hourOf_eq bucket_eq_div)
      have V: "filter (\<lambda>m. hourOf (c_openInstant m) \<notin> hole_keys (\<lambda>c. hourOf (c_openInstant c)) W) W = vouched hour W"
        unfolding vouched_def using keys by (intro filter_cong refl) simp
      have fold: "foldCandles hour (vouched hour W) = Inr (map (merged_bar hour (vouched hour W)) (bar_starts hour (vouched hour W)))"
        by (rule foldCandles_series [where f = TF_1m])
          (simp_all add: vouched_def series_ok_filter oW nests_dvd)
      have none: "head_instant ?H = None \<longleftrightarrow> ?H = []" by simp
      show ?thesis
      proof (cases "vouched hour W = []")
        case True
        then have "rolled ?M ?H = []" by (intro rolled_Nil) (simp only: W)
        then show ?thesis using False vlo hi Some True V
          by (simp add: rollup_hours_def base roll rdW [simplified] hourOf_bucket [OF vt, simplified] epochMillis_num hb Let_def flip: lo_def)
      next
        case ne: False
        then have "W \<noteq> []" by (auto simp: vouched_def)
        then show ?thesis using False vlo hi Some ne V fold
          by (simp add: rollup_hours_def base roll rdW [simplified] hourOf_bucket [OF vt, simplified] epochMillis_num hb Let_def
              rolled_def W flip: lo_def)
      qed
    qed
  qed
qed

end

lemma bucket_in_window:
  assumes "0 < d" "d dvd lo" "d dvd hi" "lo \<le> t" "t < hi"
  shows "lo \<le> bucket d t" "bucket d t + d \<le> hi"
proof -
  show "lo \<le> bucket d t" using bucket_mono [OF assms(1,4)] assms(2) by (simp add: bucket_of_dvd)
  obtain k where k: "hi = d * k" using assms(3) by blast
  have "bucket d t < d * k" using bucket_le [OF assms(1), of t] assms(5) k by linarith
  then have "t div d < k" using assms(1) by (simp add: bucket_eq_div)
  then have "d * (t div d + 1) \<le> d * k" using assms(1) by (intro mult_left_mono) simp_all
  then show "bucket d t + d \<le> hi" by (simp add: bucket_eq_div k distrib_left)
qed

lemma group_bars_window:
  assumes "0 < durationMs tf" "lo \<le> s" "s + durationMs tf \<le> hi"
  shows "group_bars tf (in_window lo hi cs) s = group_bars tf cs s"
proof -
  have "bar_bucket tf c = s \<Longrightarrow> lo \<le> c_openInstant c \<and> c_openInstant c < hi" for c
    using bucket_le [OF assms(1), of "c_openInstant c"] bucket_gt [OF assms(1), of "c_openInstant c"] assms(2,3) by auto
  then show ?thesis by (auto simp: group_bars_def intro: filter_cong)
qed

lemma group_bars_vouched:
  "s \<notin> hole_keys (bar_bucket tf) cs \<Longrightarrow> group_bars tf (vouched tf cs) s = group_bars tf cs s"
  by (auto simp: group_bars_def vouched_def intro: filter_cong)

lemma merged_bar_cong: "group_bars tf cs s = group_bars tf ds s \<Longrightarrow> merged_bar tf cs s = merged_bar tf ds s"
  by (simp add: merged_bar_def)

lemma bar_bucket_sorted: "0 < durationMs tf \<Longrightarrow> series_ok f cs \<Longrightarrow> sorted (map (bar_bucket tf) cs)"
  using sorted_bar_starts [of tf cs] by (simp add: series_ok_def)

text \<open>A bar of a coarser timeframe is whole over a stored series when it is made of all the stored bars of
  its bucket, and those follow one another in sequence.\<close>

definition whole_over :: "timeframe \<Rightarrow> candle list \<Rightarrow> candle \<Rightarrow> bool" where
  "whole_over tf cs b \<longleftrightarrow> durationMs tf dvd c_openInstant b \<and> group_bars tf cs (c_openInstant b) \<noteq> [] \<and>
     touching (group_bars tf cs (c_openInstant b)) \<and> b = merged_bar tf cs (c_openInstant b)"

lemma vouched_whole:
  assumes "series_ok f cs" "lo \<le> s" "s + durationMs (timeframe i) \<le> hi" "durationMs (timeframe i) dvd s"
    and "s \<in> set (bar_starts (timeframe i) W)" "s \<notin> hole_keys (bar_bucket (timeframe i)) W" "W = in_window lo hi cs"
  shows "whole_over (timeframe i) cs (merged_bar (timeframe i) cs s)"
proof -
  let ?tf = "timeframe i"
  have g: "group_bars ?tf W s = group_bars ?tf cs s"
    unfolding assms(7) by (rule group_bars_window [OF duration_pos(2) assms(2,3)])
  have "series_ok f W" by (simp add: assms(7) series_ok_filter [OF assms(1)])
  then have "touching (group_bars ?tf W s)" unfolding group_bars_def
    using touching_group [OF bar_bucket_sorted [OF duration_pos(2)] assms(6)] by blast
  moreover have "group_bars ?tf W s \<noteq> []"
    using assms(5) by (auto simp: set_bar_starts group_bars_def filter_empty_conv)
  ultimately show ?thesis using assms(4) by (simp add: whole_over_def g)
qed

lemma in_window_mem: "c \<in> set (in_window lo hi cs) \<longleftrightarrow> c \<in> set cs \<and> lo \<le> c_openInstant c \<and> c_openInstant c < hi"
  by auto

lemma set_bar_starts_vouched:
  "s \<in> set (bar_starts tf (vouched tf W)) \<longleftrightarrow> s \<in> set (bar_starts tf W) \<and> s \<notin> hole_keys (bar_bucket tf) W"
  by (auto simp: set_bar_starts vouched_def)

definition hours_aligned :: "candle list \<Rightarrow> bool" where
  "hours_aligned hs \<longleftrightarrow> (\<forall>h\<in>set hs. durationMs hour dvd c_openInstant h)"

lemma in_set_tl: "x \<in> set (tl xs) \<Longrightarrow> x \<in> set xs"
  by (cases xs) simp_all

lemma sorted_wrt_tl: "sorted_wrt P xs \<Longrightarrow> sorted_wrt P (tl xs)"
  by (cases xs) simp_all

lemma rolled_subset:
  assumes "b \<in> set (rolled ms hs)"
  obtains s where "s \<in> set (bar_starts hour (vouched hour (rollup_window ms hs)))"
    "b = merged_bar hour (vouched hour (rollup_window ms hs)) s"
proof -
  let ?V = "vouched hour (rollup_window ms hs)"
  have "b \<in> set (map (merged_bar hour ?V) (bar_starts hour ?V))"
    using assms by (auto simp: rolled_def Let_def simp del: set_map dest: in_set_tl split: if_splits)
  then show ?thesis using that by auto
qed

lemma rolled_whole:
  assumes "series_ok TF_1m ms" "series_ok TF_1h hs" "hours_aligned hs" "b \<in> set (rolled ms hs)"
  shows "whole_over hour ms b" "c_timeframe b = TF_1h" "valid_instant (c_openInstant b)"
    "\<exists>t. head_instant ms = Some t \<and> c_openInstant b + durationMs hour \<le> t"
    "\<forall>h\<in>set hs. c_openInstant h < c_openInstant b"
proof -
  let ?W = "rollup_window ms hs"
  obtain s where s: "s \<in> set (bar_starts hour (vouched hour ?W))" and b: "b = merged_bar hour (vouched hour ?W) s"
    using rolled_subset [OF assms(4)] .
  have W: "s \<in> set (bar_starts hour ?W)" "s \<notin> hole_keys (bar_bucket hour) ?W"
    using s unfolding set_bar_starts_vouched by simp_all
  then obtain t where t: "head_instant ms = Some t" by (cases "head_instant ms") (auto simp: rollup_window_def set_bar_starts)
  define lo where "lo = (case head_instant hs of None \<Rightarrow> 0 | Some h \<Rightarrow> h + durationMs hour)"
  let ?hi = "bucket (durationMs hour) t"
  have Weq: "?W = in_window lo ?hi ms" by (simp add: rollup_window_def t lo_def)
  obtain m where m: "m \<in> set ms" "lo \<le> c_openInstant m" "c_openInstant m < ?hi" "s = bar_bucket hour m"
    using W(1) unfolding Weq set_bar_starts by auto
  have dlo: "durationMs hour dvd lo"
    using assms(3) head_instant_mem [of hs] by (auto simp: lo_def hours_aligned_def split: option.splits)
  have range: "lo \<le> s" "s + durationMs hour \<le> ?hi"
    unfolding m(4) using bucket_in_window [OF _ dlo bucket_dvd m(2,3)] by simp_all
  have ds: "durationMs hour dvd s" unfolding m(4) by (rule bucket_dvd)
  have "merged_bar hour (vouched hour ?W) s = merged_bar hour ms s"
    by (rule merged_bar_cong)
       (rule trans [OF group_bars_vouched [OF W(2)] group_bars_window [OF duration_pos(2) range, of ms, folded Weq]])
  then have b': "b = merged_bar hour ms s" using b by simp
  show "whole_over hour ms b"
    unfolding b' using vouched_whole [OF assms(1) range ds W Weq] .
  show "c_timeframe b = TF_1h" by (simp add: b HISTORY_ROLLUP_TIMEFRAME_def)
  have lo0: "0 \<le> lo" using head_instant_valid [OF assms(2)] by (auto simp: lo_def valid_instant_def split: option.splits)
  show "valid_instant (c_openInstant b)"
    using m(1,3) assms(1) range(1) lo0 bucket_le [of "durationMs hour" "c_openInstant m"]
    unfolding b m(4) by (auto simp: series_ok_def valid_instant_def intro: order_trans)
  show "\<exists>t. head_instant ms = Some t \<and> c_openInstant b + durationMs hour \<le> t"
    using t range(2) bucket_le [of "durationMs hour" t] by (auto simp: b)
  show "\<forall>h\<in>set hs. c_openInstant h < c_openInstant b"
  proof
    fix h assume h: "h \<in> set hs"
    then obtain p where p: "last_option hs = Some p" by (cases hs) (auto simp: last_option_def)
    then have "c_openInstant h \<le> c_openInstant p" using series_ok_last [OF assms(2) h] by simp
    then show "c_openInstant h < c_openInstant b" using range(1) p by (simp add: b lo_def head_instant_def)
  qed
qed

lemma rolled_series:
  assumes "series_ok TF_1m ms" "series_ok TF_1h hs" "hours_aligned hs"
  shows "series_ok TF_1h (hs @ rolled ms hs)" "hours_aligned (hs @ rolled ms hs)"
proof -
  note R = rolled_whole [OF assms]
  let ?V = "vouched hour (rollup_window ms hs)"
  have "series_ok TF_1m ?V"
    using assms(1) by (auto simp: vouched_def rollup_window_def series_ok_filter split: option.splits)
  then have "sorted_wrt (<) (bar_starts hour ?V)" by (intro strict_bar_starts) (simp_all add: series_ok_def)
  moreover have "map c_openInstant (map (merged_bar hour ?V) (bar_starts hour ?V)) = bar_starts hour ?V" by (simp add: o_def)
  ultimately have "sorted_wrt (<) (map c_openInstant (map (merged_bar hour ?V) (bar_starts hour ?V)))" by simp
  then have "sorted_wrt (<) (map c_openInstant (rolled ms hs))"
    unfolding rolled_def Let_def by (auto simp: map_tl simp del: map_map intro: sorted_wrt_tl)
  then have "series_ok TF_1h (rolled ms hs)" using R by (simp add: series_ok_def)
  then show "series_ok TF_1h (hs @ rolled ms hs)" using assms(2) R(5) by (auto simp: series_ok_append)
  show "hours_aligned (hs @ rolled ms hs)"
    using assms(3) R(1) by (auto simp: hours_aligned_def whole_over_def)
qed

context candle_history
begin

text \<open>A refresh never throws; it appends the rolled hours and touches nothing else.\<close>

lemma refreshRollup_spec:
  assumes "ready s" "hours_aligned (bars s a TF_1h)"
  shows "\<exists>s'. refreshRollup ops a s = (s', Inr (length (rolled (bars s a TF_1m) (bars s a TF_1h)))) \<and> ready s' \<and>
    bars s' = (bars s)(a := (bars s a)(TF_1h := bars s a TF_1h @ rolled (bars s a TF_1m) (bars s a TF_1h)))"
proof -
  let ?new = "rolled (bars s a TF_1m) (bars s a TF_1h)"
  show ?thesis
  proof (cases "?new = []")
    case True
    then show ?thesis using rollup_hours_eq [OF assms(1)] assms(1) by (simp add: refreshRollup_def)
  next
    case False
    have "series_ok TF_1h (bars s a TF_1h @ ?new)"
      using rolled_series(1) [OF _ _ assms(2)] series [OF assms(1)] by simp
    then obtain s' where "h_append ops s a TF_1h ?new None = (s', Inr ())" "ready s'"
        "bars s' = (bars s)(a := (bars s a)(TF_1h := bars s a TF_1h @ ?new))"
      using appends [OF assms(1), of TF_1h a ?new None] by auto
    then show ?thesis using rollup_hours_eq [OF assms(1)] False
      by (simp add: refreshRollup_def HISTORY_ROLLUP_TIMEFRAME_def)
  qed
qed

end

section \<open>What a read answers\<close>

definition source_of :: "timeframe_id \<Rightarrow> timeframe_id" where
  "source_of target = (if nests hour (timeframe target) then TF_1h else TF_1m)"

definition read_window :: "timeframe_id \<Rightarrow> int \<Rightarrow> int \<Rightarrow> candle list \<Rightarrow> candle list" where
  "read_window target from1 to1 cs =
     in_window (bucket (DURATIONS_MS target) from1) (bucket (DURATIONS_MS target) to1 + DURATIONS_MS target) cs"

definition kept_bars :: "timeframe_id \<Rightarrow> int \<Rightarrow> int \<Rightarrow> candle list \<Rightarrow> candle list" where
  "kept_bars target from1 to1 cs = (let W = read_window target from1 to1 cs; wanted = timeframe target in
     filter (keeps_bar wanted (timeframe (source_of target)) (head_instant cs) from1 to1
       (if source_of target \<noteq> target then hole_keys (bar_bucket wanted) W else {}))
     (if source_of target = target then W else map (merged_bar wanted W) (bar_starts wanted W)))"

lemma source_nests: "isCoarserOrEqual (timeframe target) minute \<Longrightarrow> nests (timeframe (source_of target)) (timeframe target)"
  by (cases target) (simp_all add: source_of_def nests_dvd isCoarserOrEqual_def HISTORY_ROLLUP_TIMEFRAME_def
    HISTORY_BASE_TIMEFRAME_def)

lemma source_stored [simp]: "source_of target = TF_1m \<or> source_of target = TF_1h"
  by (simp add: source_of_def)

lemma unstored_source [simp]: "unstoredTimeframe (source_of target) = None"
  using source_stored [of target] by auto

text \<open>The bars of a read that the window, the head and the holes leave, whatever the leading edge does.\<close>

lemma kept_bars_whole:
  assumes "series_ok (source_of target) cs" "isCoarserOrEqual (timeframe target) minute" "b \<in> set (kept_bars target from1 to1 cs)"
  shows "from1 \<le> c_openInstant b" "c_openInstant b < to1" "c_timeframe b = target"
    "if source_of target = target then b \<in> set cs else whole_over (timeframe target) cs b"
    "\<exists>h. head_instant cs = Some h \<and> c_openInstant b + DURATIONS_MS target \<le> h + DURATIONS_MS (source_of target)"
proof -
  let ?W = "read_window target from1 to1 cs" and ?tf = "timeframe target"
  have mem: "b \<in> set (if source_of target = target then ?W else map (merged_bar ?tf ?W) (bar_starts ?tf ?W))"
    and keep: "keeps_bar ?tf (timeframe (source_of target)) (head_instant cs) from1 to1
      (if source_of target \<noteq> target then hole_keys (bar_bucket ?tf) ?W else {}) b"
    using assms(3) by (simp_all add: kept_bars_def Let_def)
  show "from1 \<le> c_openInstant b" "c_openInstant b < to1" using keep by (simp_all add: keeps_bar_def)
  show "\<exists>h. head_instant cs = Some h \<and> c_openInstant b + DURATIONS_MS target \<le> h + DURATIONS_MS (source_of target)"
    using keep by (simp add: keeps_bar_def split: option.splits)
  have "c_timeframe b = target \<and> (if source_of target = target then b \<in> set cs else whole_over ?tf cs b)"
  proof (cases "source_of target = target")
    case True
    then have "b \<in> set ?W" using mem by simp
    then show ?thesis using assms(1) True by (simp add: read_window_def series_ok_def)
  next
    case False
    then obtain s where s: "s \<in> set (bar_starts ?tf ?W)" "b = merged_bar ?tf ?W s" using mem by auto
    obtain m where m: "m \<in> set cs" "bucket (DURATIONS_MS target) from1 \<le> c_openInstant m"
        "c_openInstant m < bucket (DURATIONS_MS target) to1 + DURATIONS_MS target" "s = bar_bucket ?tf m"
      using s(1) unfolding read_window_def set_bar_starts by auto
    have "DURATIONS_MS target dvd bucket (DURATIONS_MS target) to1 + DURATIONS_MS target"
      using bucket_dvd by simp
    then have r: "bucket (DURATIONS_MS target) from1 \<le> s"
        "s + DURATIONS_MS target \<le> bucket (DURATIONS_MS target) to1 + DURATIONS_MS target"
      unfolding m(4) using bucket_in_window [OF _ bucket_dvd _ m(2,3)] by simp_all
    have ds: "durationMs ?tf dvd s" unfolding m(4) by (rule bucket_dvd)
    have nh: "s \<notin> hole_keys (bar_bucket ?tf) ?W" using keep False s(2) by (simp add: keeps_bar_def)
    have "merged_bar ?tf ?W s = merged_bar ?tf cs s"
      using r by (intro merged_bar_cong) (simp add: read_window_def group_bars_window)
    then have b: "b = merged_bar ?tf cs s" using s(2) by simp
    have "whole_over ?tf cs b"
      unfolding b by (rule vouched_whole [OF assms(1) _ _ ds s(1) nh]) (use r in \<open>simp_all add: read_window_def\<close>)
    then show ?thesis using False by (simp add: b)
  qed
  then show "c_timeframe b = target" "if source_of target = target then b \<in> set cs else whole_over ?tf cs b"
    by blast+
qed

lemma kept_bars_sorted:
  assumes "series_ok (source_of target) cs"
  shows "sorted_wrt (<) (map c_openInstant (kept_bars target from1 to1 cs))"
proof -
  let ?W = "read_window target from1 to1 cs" and ?tf = "timeframe target"
  have W: "sorted_wrt (<) (map c_openInstant ?W)"
    using series_ok_filter [OF assms] unfolding read_window_def series_ok_def by blast
  have "map c_openInstant (map (merged_bar ?tf ?W) (bar_starts ?tf ?W)) = bar_starts ?tf ?W" by (simp add: o_def)
  then have "sorted_wrt (<) (map c_openInstant (if source_of target = target then ?W
      else map (merged_bar ?tf ?W) (bar_starts ?tf ?W)))"
    using strict_bar_starts [OF _ W, of ?tf] W by (simp del: map_map)
  then show ?thesis unfolding kept_bars_def Let_def sorted_wrt_map by (rule sorted_wrt_filter)
qed

lemma leading_checked_eq:
  assumes "\<And>lo hi. h_read ops s a (tf_id source) lo hi = Inr (in_window lo hi cs)"
    "\<forall>b\<in>set kept. valid_instant (c_openInstant b)"
  shows "leading_checked ops s a source wanted stored kept = (case kept of [] \<Rightarrow> Inr []
    | b # rest \<Rightarrow> if beginsWhole b (hd stored) then Inr kept
        else if c_openInstant b < durationMs wanted \<or> MAX_EPOCH_MILLIS < c_openInstant b - durationMs wanted
        then Inl (RangeError ''epochMillis'')
        else Inr (if in_window (c_openInstant b - durationMs wanted) (c_openInstant b) cs = [] then rest else kept))"
  using assms by (cases kept) (auto simp: leading_checked_def epochMillis_num valid_instant_def)

context candle_history
begin

lemma readTimeframe_eq:
  assumes "ready s" "valid_instant from1" "valid_instant to1" "valid_instant (bucket (DURATIONS_MS target) to1 + DURATIONS_MS target)"
    and "isCoarserOrEqual (timeframe target) minute"
  shows "readTimeframe ops s a target from1 to1 =
    leading_checked ops s a (timeframe (source_of target)) (timeframe target)
      (read_window target from1 to1 (bars s a (source_of target))) (kept_bars target from1 to1 (bars s a (source_of target)))"
proof -
  let ?d = "DURATIONS_MS target" and ?S = "bars s a (source_of target)" and ?tf = "timeframe target"
  define W where "W = read_window target from1 to1 ?S"
  have src: "(if nests hour ?tf then hour else minute) = timeframe (source_of target)"
    by (simp add: source_of_def HISTORY_BASE_TIMEFRAME_def HISTORY_ROLLUP_TIMEFRAME_def)
  have rd: "h_read ops s a (source_of target) lo hi = Inr (in_window lo hi ?S)" for lo hi
    by (simp add: reads [OF assms(1)])
  have rdW: "h_read ops s a (source_of target) (bucket ?d from1) (bucket ?d to1 + ?d) = Inr W"
    by (simp add: rd W_def read_window_def)
  have hd: "h_head ops s a (source_of target) = Inr (head_instant ?S)"
    by (simp add: heads [OF assms(1)])
  have ok: "series_ok (source_of target) ?S" using series [OF assms(1)] source_stored by simp
  then have okW: "series_ok (source_of target) W" by (simp add: W_def read_window_def series_ok_filter)
  have v1: "valid_instant (bucket ?d from1)" "valid_instant (bucket ?d to1)"
    using assms(2,3) bucket_nonneg [of ?d] bucket_le [of ?d] by (auto simp: valid_instant_def intro: order_trans)
  have holes: "hole_buckets (\<lambda>c. bucketStart (c_openInstant c) ?tf) W = Inr (hole_keys (bar_bucket ?tf) W)"
    using okW by (intro hole_buckets_eq) (simp add: bucketStart_eq series_ok_def)
  have fold: "foldCandles ?tf W = Inr (map (merged_bar ?tf W) (bar_starts ?tf W))"
    by (rule foldCandles_series [OF okW source_nests [OF assms(5)]])
  have pre: "readTimeframe ops s a target from1 to1 = (if W = [] then Inr []
      else andThen (if source_of target = target then Inr W else foldCandles ?tf W) (\<lambda>folded.
        if folded = [] then Inr []
        else andThen (if source_of target \<noteq> target then hole_buckets (\<lambda>c. bucketStart (c_openInstant c) ?tf) W else Inr {}) (\<lambda>holes.
          leading_checked ops s a (timeframe (source_of target)) ?tf W
            (filter (keeps_bar ?tf (timeframe (source_of target)) (head_instant ?S) from1 to1 holes) folded))))"
    using assms(2-5) v1
    by (simp add: readTimeframe_def Let_def src bucketStart_eq epochMillis_num rdW hd cong: if_cong)
  show ?thesis
  proof (cases "W = []")
    case True
    then have "kept_bars target from1 to1 ?S = []"
      unfolding kept_bars_def Let_def W_def [symmetric] by (simp add: bar_starts_def)
    then show ?thesis unfolding pre using True by (simp add: leading_checked_def)
  next
    case False
    then have "bar_starts ?tf W \<noteq> []" by simp
    then show ?thesis unfolding pre kept_bars_def Let_def W_def [symmetric] using False holes fold by simp
  qed
qed

text \<open>Every bar a read answers is whole: all the stored source bars of its bucket, touching one another,
  the bucket covered by what is stored, its open inside the window that was asked for.\<close>

lemma readTimeframe_whole:
  assumes "ready s" "valid_instant from1" "valid_instant to1" "readTimeframe ops s a target from1 to1 = Inr out"
  shows "sorted_wrt (<) (map c_openInstant out) \<and> (\<forall>b\<in>set out.
    from1 \<le> c_openInstant b \<and> c_openInstant b < to1 \<and> c_timeframe b = target \<and>
    (if source_of target = target then b \<in> set (bars s a target) else whole_over (timeframe target) (bars s a (source_of target)) b) \<and>
    (\<exists>h. head_instant (bars s a (source_of target)) = Some h \<and> c_openInstant b + DURATIONS_MS target \<le> h + DURATIONS_MS (source_of target)))"
proof -
  let ?S = "bars s a (source_of target)" and ?d = "DURATIONS_MS target"
  let ?K = "kept_bars target from1 to1 ?S"
  have coarse: "isCoarserOrEqual (timeframe target) minute"
    using assms(4) by (auto simp: readTimeframe_def Let_def andThen_Inr_iff)
  have "bucketStart to1 (timeframe target) = Inr (bucket ?d to1)" using assms(3) by (simp add: bucketStart_eq)
  then have v: "valid_instant (bucket ?d to1 + ?d)"
    using assms(4) by (auto simp: readTimeframe_def Let_def andThen_Inr_iff epochMillis_Inr_iff)
  have ok: "series_ok (source_of target) ?S" using series [OF assms(1)] source_stored by simp
  have out: "out = ?K \<or> out = tl ?K"
    using assms(4) unfolding readTimeframe_eq [OF assms(1-3) v coarse]
    by (cases ?K) (auto simp: leading_checked_def andThen_Inr_iff split: if_splits)
  then have "set out \<subseteq> set ?K" by (auto dest: in_set_tl)
  moreover have "sorted_wrt (<) (map c_openInstant out)"
    using out kept_bars_sorted [OF ok, of from1 to1] by (auto simp: map_tl intro: sorted_wrt_tl)
  ultimately show ?thesis
    using kept_bars_whole [OF ok coarse, of _ from1 to1] by (auto simp: subset_iff split: if_splits)
qed

end

end
