(* ===== verification/HistoryService.thy ===== *)
theory HistoryService
  imports HistoryRead
begin

text \<open>
  The history as the venue keeps it: class \<open>HistoryService\<close> of apps/api/src/history.service.ts, which
  feeds published ticks to one recorder per asset, primes a recorder from the tick record after a
  restart, and flushes closed minutes and rolled-up hours into the history. The run of a venue is a
  relation: ticks of a fixed stream per asset, flushes that may fail, restarts at any point. Its theorem
  is the reason the recorder exists: every minute ever stored is a whole minute of the stream.
  Provisioning an asset's past and the resolution of frames by the record are arguments.
\<close>

section \<open>State and operations\<close>

record 's history_service =
  hs_history :: 's
  hs_recorders :: "(string \<times> recorder) list"
  hs_reported :: "string set"

definition new_HistoryService :: "'s \<Rightarrow> 's history_service" where
  "new_HistoryService history = \<lparr>hs_history = history, hs_recorders = [], hs_reported = {}\<rparr>"

definition PRIME_PAGE :: int where
  "PRIME_PAGE = 100000"

abbreviation set_recorder :: "string \<Rightarrow> recorder \<Rightarrow> 's history_service \<Rightarrow> 's history_service" where
  "set_recorder a r S \<equiv> S\<lparr>hs_recorders := AList.update a r (hs_recorders S)\<rparr>"

definition observe_ticks_of :: "string \<Rightarrow> tick list \<Rightarrow> 's history_service \<Rightarrow> 's history_service \<times> unit result" where
  "observe_ticks_of a ts S =
     (if ts = [] then (S, Inr ())
      else let r = (case map_of (hs_recorders S) a of None \<Rightarrow> new_recorder Unknown | Some r \<Rightarrow> r) in
        (case recorder_accept ts r of (r', res) \<Rightarrow> (set_recorder a r' S, res)))"

text \<open>The pages of the record past the newest stored minute; the record is any function of a first
  sequence and a limit.\<close>

partial_function (option) prime_pages ::
  "(jsnum \<Rightarrow> jsnum \<Rightarrow> tick list result) \<Rightarrow> int \<Rightarrow> int \<Rightarrow> recorder \<Rightarrow> (recorder \<times> int result) option" where
  "prime_pages since n folded r =
     (case since (num n) (num PRIME_PAGE) of
        Inl e \<Rightarrow> Some (r, Inl e)
      | Inr page \<Rightarrow>
          if page = [] then Some (r, Inr folded)
          else (case recorder_accept page r of
             (r1, Inl e) \<Rightarrow> Some (r1, Inl e)
           | (r1, Inr _) \<Rightarrow>
               if int (length page) < PRIME_PAGE then Some (r1, Inr (folded + int (length page)))
               else prime_pages since (sequence (last page) + 1) (folded + int (length page)) r1))"

definition prime ::
  "'s history_ops \<Rightarrow> (string \<Rightarrow> jsnum \<Rightarrow> jsnum \<Rightarrow> tick list result) \<Rightarrow> string \<Rightarrow> 's history_service \<Rightarrow>
     ('s history_service \<times> int result) option" where
  "prime ops since a S =
     (if map_of (hs_recorders S) a \<noteq> None then Some (S, Inr 0)
      else case lastStoredSequence ops (hs_history S) a of
        Inl e \<Rightarrow> Some (S, Inl e)
      | Inr lastStored \<Rightarrow>
          map_option (\<lambda>(r, res). (set_recorder a r S, res))
            (prime_pages (since a) ((case lastStored of None \<Rightarrow> 0 | Some n \<Rightarrow> n) + 1) 0 (new_recorder (Continues lastStored))))"

fun framesMatch :: "price_frame option \<Rightarrow> price_frame option \<Rightarrow> bool" where
  "framesMatch (Some a) (Some b) = sameFrame a b"
| "framesMatch a b = (a = None \<and> b = None)"

definition write_run ::
  "'s history_ops \<Rightarrow> string \<Rightarrow> candle list \<Rightarrow> price_frame option \<Rightarrow> 's \<Rightarrow> 's \<times> unit result" where
  "write_run ops a run frame s =
     (if run = [] then (s, Inr ()) else h_append ops s a (c_timeframe (hd run)) run frame)"

text \<open>One append per run of bars that share a frame.\<close>

fun write_runs ::
  "'s history_ops \<Rightarrow> (int \<Rightarrow> price_frame option result) \<Rightarrow> string \<Rightarrow> candle list \<Rightarrow> candle list \<Rightarrow>
     price_frame option \<Rightarrow> 's \<Rightarrow> 's \<times> unit result" where
  "write_runs ops frame_of a [] run runFrame s = write_run ops a run runFrame s"
| "write_runs ops frame_of a (bar # bars) run runFrame s =
     (case frame_of (c_lastSequence bar) of
        Inl e \<Rightarrow> (s, Inl e)
      | Inr frame \<Rightarrow>
          if run \<noteq> [] \<and> \<not> framesMatch runFrame frame then
            (case write_run ops a run runFrame s of
               (s1, Inl e) \<Rightarrow> (s1, Inl e)
             | (s1, Inr _) \<Rightarrow> write_runs ops frame_of a bars [bar] frame s1)
          else write_runs ops frame_of a bars (run @ [bar]) (if run = [] then frame else runFrame) s)"

definition told_recorder :: "'s history_ops \<Rightarrow> 's \<Rightarrow> string \<Rightarrow> recorder \<Rightarrow> recorder \<times> unit result" where
  "told_recorder ops s a r =
     (if started r then (r, Inr ())
      else case lastStoredSequence ops s a of Inl e \<Rightarrow> (r, Inl e) | Inr k \<Rightarrow> continueAfter k r)"

definition flush_asset ::
  "'s history_ops \<Rightarrow> (string \<Rightarrow> int \<Rightarrow> price_frame option result) \<Rightarrow> string \<Rightarrow> 's history_service \<Rightarrow>
     's history_service \<times> unit result" where
  "flush_asset ops frame_of a S =
     (let s = hs_history S; r = the (map_of (hs_recorders S) a) in
      case told_recorder ops s a r of
        (r1, Inl e) \<Rightarrow> (set_recorder a r1 S, Inl e)
      | (r1, Inr _) \<Rightarrow>
          (case drain r1 of
             (r2, Inl e) \<Rightarrow> (set_recorder a r2 S, Inl e)
           | (r2, Inr done_bars) \<Rightarrow>
               (case (if done_bars = [] then (s, Inr ()) else write_runs ops (frame_of a) a done_bars [] None s) of
                  (s1, Inl e) \<Rightarrow> ((set_recorder a r2 S)\<lparr>hs_history := s1\<rparr>, Inl e)
                | (s1, Inr _) \<Rightarrow>
                    let S1 = (set_recorder a r2 S)\<lparr>hs_history := s1,
                      hs_reported := (if hr_withheld r2 \<noteq> None then insert a (hs_reported S) else hs_reported S)\<rparr> in
                    (case refreshRollup ops a s1 of (s2, res) \<Rightarrow>
                       (S1\<lparr>hs_history := s2\<rparr>, andThen res (\<lambda>_. Inr ()))))))"

text \<open>The loop over the recorders stops at the first asset that throws.\<close>

fun flush_assets ::
  "'s history_ops \<Rightarrow> (string \<Rightarrow> int \<Rightarrow> price_frame option result) \<Rightarrow> string list \<Rightarrow> 's history_service \<Rightarrow>
     's history_service \<times> unit result" where
  "flush_assets ops frame_of [] S = (S, Inr ())"
| "flush_assets ops frame_of (a # as) S = (case flush_asset ops frame_of a S of
     (S1, Inl e) \<Rightarrow> (S1, Inl e)
   | (S1, Inr _) \<Rightarrow> flush_assets ops frame_of as S1)"

definition flush_history ::
  "'s history_ops \<Rightarrow> (string \<Rightarrow> int \<Rightarrow> price_frame option result) \<Rightarrow> 's history_service \<Rightarrow>
     's history_service \<times> unit result" where
  "flush_history ops frame_of S = flush_assets ops frame_of (map fst (hs_recorders S)) S"

section \<open>Whole minutes of a stream\<close>

text \<open>The whole stream of an asset, from its first tick on: in order, gapless, from sequence 1.\<close>

definition market_stream_ok :: "tick list \<Rightarrow> bool" where
  "market_stream_ok M \<longleftrightarrow> ticks_ordered M \<and> consecutive (map sequence M) \<and>
     (M \<noteq> [] \<longrightarrow> sequence (hd M) = FIRST_SEQUENCE_history) \<and> (\<forall>t\<in>set M. valid_instant (instant t))"

definition minutes_of :: "tick list \<Rightarrow> candle set" where
  "minutes_of M = set (stream_bars HISTORY_BASE_TIMEFRAME M)"

abbreviation minute_start :: "tick \<Rightarrow> int" where
  "minute_start t \<equiv> bucket (durationMs minute) (instant t)"

lemma minutes_of_iff: "b \<in> minutes_of M \<longleftrightarrow> (\<exists>t\<in>set M. b = bucket_candle minute M (minute_start t))"
  by (auto simp: minutes_of_def stream_bars_def set_bucket_starts)

lemma le_last_sorted: "sorted (map f xs) \<Longrightarrow> x \<in> set xs \<Longrightarrow> f x \<le> (f (last xs) :: int)"
  by (induction xs) (auto split: if_splits)

lemma slice_bucket:
  assumes "market_stream_ok M" "M = xs @ ts @ ys" "s \<in> set (butlast (bucket_starts minute ts))"
    and "s \<noteq> hd (bucket_starts minute ts) \<or> xs = [] \<or> minute_start (last xs) \<noteq> s"
  shows "bucket_candle minute ts s \<in> minutes_of M"
proof -
  let ?S = "bucket_starts minute ts"
  have ord: "sorted (map instant M)" using assms(1) by (simp add: market_stream_ok_def ticks_ordered_instants)
  then have so: "sorted (map instant ts)" and below: "x \<in> set xs \<Longrightarrow> t \<in> set ts \<Longrightarrow> instant x \<le> instant t"
    and above: "t \<in> set ts \<Longrightarrow> y \<in> set ys \<Longrightarrow> instant t \<le> instant y" and sx: "sorted (map instant xs)" for x t y
    by (auto simp: assms(2) sorted_append)
  have strict: "sorted_wrt (<) ?S" by (rule strict_bucket_starts [OF _ so]) simp
  have ne: "?S \<noteq> []" using assms(3) by (cases "?S = []") auto
  then have ne: "?S \<noteq> []" "ts \<noteq> []" by simp_all
  have hd: "hd ?S = minute_start (hd ts)" by (rule hd_bucket_starts [OF ne(2)])
  have last: "last ?S = minute_start (last ts)" using ne(2) by (simp add: bucket_starts_def last_remdups_adj last_map)
  have s: "s \<in> set ?S" using assms(3) by (rule in_set_butlastD)
  have s_hd: "hd ?S \<le> s" using strict s ne(1) by (cases ?S) auto
  have s_last: "s < last ?S"
    using strict assms(3) ne(1) by (metis append_butlast_last_id list.set_intros(1) sorted_wrt_append)
  have "minute_start x \<noteq> s" if x: "x \<in> set xs" for x
  proof
    assume e: "minute_start x = s"
    have "last xs \<in> set xs" using x by (intro last_in_set) auto
    then have "minute_start x \<le> minute_start (last xs)" "minute_start (last xs) \<le> minute_start (hd ts)"
      using x below [of "last xs" "hd ts"] ne(2) le_last_sorted [OF sx x] by (auto intro!: bucket_mono)
    then show False using e s_hd hd assms(4) x by auto
  qed
  moreover have "minute_start y \<noteq> s" if "y \<in> set ys" for y
    using bucket_mono [of "durationMs minute" "instant (last ts)" "instant y"] above [OF _ that] ne(2) s_last last by force
  ultimately have "bucket_ticks minute M s = bucket_ticks minute ts s"
    by (simp add: bucket_ticks_def assms(2) filter_empty_conv)
  then have "bucket_candle minute ts s = bucket_candle minute M s" by (simp add: bucket_candle_def)
  moreover obtain t where "t \<in> set M" "s = minute_start t" using s assms(2) by (auto simp: set_bucket_starts)
  ultimately show ?thesis unfolding minutes_of_iff by blast
qed

text \<open>A stored minute marks where a stream stood: the tick after its last one opens another minute.\<close>

definition anchored :: "tick list \<Rightarrow> int option \<Rightarrow> bool" where
  "anchored M k \<longleftrightarrow> (case k of None \<Rightarrow> True | Some n \<Rightarrow> \<exists>b\<in>minutes_of M. c_lastSequence b = n)"

lemma anchored_first:
  assumes "market_stream_ok M" "M = xs @ ts @ ys" "anchored M k" "first_whole k ts" "xs \<noteq> []"
  shows "minute_start (last xs) \<noteq> minute_start (hd ts)"
proof -
  have ne: "ts \<noteq> []" using assms(4) by (simp add: first_whole_def)
  then obtain t us where ts: "ts = t # us" by (cases ts) auto
  obtain ws w where xs: "xs = ws @ [w]" using assms(5) by (cases xs rule: rev_cases) auto
  have c: "consecutive (map sequence M)" and srt: "sorted_wrt (<) (map sequence M)" and ord: "sorted (map instant M)"
    using assms(1) by (simp_all add: market_stream_ok_def ticks_ordered_iff consecutive_sorted)
  then have tw: "sequence t = sequence w + 1"
    by (auto simp: assms(2) xs ts consecutive_append)
  have hd1: "sequence (hd M) = FIRST_SEQUENCE_history" using assms(1) ts by (auto simp: market_stream_ok_def assms(2))
  obtain n where k: "k = Some n"
  proof (cases k)
    case None
    then have "sequence t = FIRST_SEQUENCE_history" using assms(4) ts by (simp add: first_whole_def)
    moreover have "FIRST_SEQUENCE_history < sequence t"
      using srt hd1 by (cases ws) (auto simp: assms(2) xs ts)
    ultimately show ?thesis by simp
  qed
  have tn: "sequence t = n + 1" using assms(4) ts k by (simp add: first_whole_def)
  obtain v where v: "v \<in> set M" "c_lastSequence (bucket_candle minute M (minute_start v)) = n"
    using assms(3) k by (auto simp: anchored_def minutes_of_iff)
  let ?g = "bucket_ticks minute M (minute_start v)"
  have g: "?g \<noteq> []" "sequence (last ?g) = n"
    using v by (auto simp: bucket_ticks_def bucket_candle_def Let_def filter_empty_conv)
  then have lg: "last ?g \<in> set M" "minute_start (last ?g) = minute_start v"
    using last_in_set [OF g(1)] by (auto simp: bucket_ticks_def)
  have w: "w = last ?g"
  proof -
    have "distinct (map sequence M)" using c by (rule consecutive_distinct)
    moreover have "w \<in> set M" by (simp add: assms(2) xs)
    ultimately show ?thesis using lg(1) g(2) tn tw by (auto simp: distinct_map dest: inj_onD)
  qed
  have "minute_start t \<noteq> minute_start v"
  proof
    assume "minute_start t = minute_start v"
    then have "t \<in> set ?g" by (simp add: bucket_ticks_def assms(2) ts)
    moreover have "sorted_wrt (<) (map sequence ?g)"
      unfolding bucket_ticks_def sorted_wrt_map using srt by (intro sorted_wrt_filter) (simp add: sorted_wrt_map)
    ultimately have "sequence t \<le> sequence (last ?g)" by (intro le_last)
    then show False using g(2) tn by simp
  qed
  then show ?thesis using w lg(2) by (simp add: xs ts)
qed

lemma released_minutes:
  assumes "market_stream_ok M" "M = xs @ ts @ ys" "case k of None \<Rightarrow> True | Some j \<Rightarrow> anchored M j"
  shows "set (released k ts) \<subseteq> minutes_of M"
proof
  fix b assume b: "b \<in> set (released k ts)"
  let ?S = "bucket_starts minute ts"
  have cm: "closed_minutes ts = map (bucket_candle minute ts) (butlast ?S)"
    by (simp add: closed_minutes_def stream_bars_def map_butlast)
  have o: "ticks_ordered ts" using assms(1,2) by (auto simp: market_stream_ok_def ticks_ordered_iff sorted_append sorted_wrt_append)
  then have dist: "distinct (butlast ?S)"
    using closed_minutes_opens(2) strict_sorted_iff by (metis distinct_butlast)
  have "b \<in> set (closed_minutes ts)"
    using b by (auto simp: released_def whole_minutes_def dest: in_set_tl split: option.splits if_splits)
  then obtain s where s: "s \<in> set (butlast ?S)" "b = bucket_candle minute ts s" by (auto simp: cm)
  have "s \<noteq> hd ?S \<or> xs = [] \<or> minute_start (last xs) \<noteq> s"
  proof (cases "\<exists>j. k = Some j \<and> first_whole j ts")
    case True
    then obtain j where j: "k = Some j" "first_whole j ts" by blast
    then have "ts \<noteq> []" by (simp add: first_whole_def)
    then show ?thesis using anchored_first [OF assms(1,2) _ j(2)] assms(3) j(1) hd_bucket_starts by auto
  next
    case False
    then have "b \<in> set (tl (closed_minutes ts))"
      using b by (auto simp: released_def whole_minutes_def split: option.splits)
    then obtain s' where s': "s' \<in> set (tl (butlast ?S))" "b = bucket_candle minute ts s'" by (auto simp: cm map_tl [symmetric])
    have "c_openInstant b = s" "c_openInstant b = s'" unfolding s(2) by simp (simp only: s(2) [symmetric] s'(2) bucket_candle_sel)
    then have "s \<in> set (tl (butlast ?S))" using s' by simp
    then have "s \<noteq> hd (butlast ?S)" using dist by (cases "butlast ?S") auto
    moreover have "hd (butlast ?S) = hd ?S" using s(1) by (cases ?S) auto
    ultimately show ?thesis by simp
  qed
  then show "b \<in> minutes_of M" using slice_bucket [OF assms(1,2) s(1)] s(2) by simp
qed

section \<open>A recorder over part of a stream\<close>

definition recorder_over :: "tick list \<Rightarrow> tick list \<Rightarrow> tick list \<Rightarrow> tick list \<Rightarrow> recorder \<Rightarrow> bool" where
  "recorder_over M xs ts ys r \<longleftrightarrow> M = xs @ ts @ ys \<and> (\<exists>k x cs out. r = (recorder_at k ts cs)\<lparr>hr_continuesAfter := x\<rparr> \<and>
     (x = k \<or> k = None \<and> ts \<noteq> []) \<and> out @ cs = released k ts \<and> (x = None \<longrightarrow> out = []) \<and>
     (case k of None \<Rightarrow> True | Some j \<Rightarrow> anchored M j) \<and> \<not> behind k ts)"

text \<open>A recorder that refused its first tick: it holds no bar, and is fed no more.\<close>

definition recorder_dead :: "recorder \<Rightarrow> bool" where
  "recorder_dead r \<longleftrightarrow> hr_closed r = [] \<and> started r"

lemma recorder_at_cont [simp]: "(recorder_at k ts cs)\<lparr>hr_continuesAfter := k\<rparr> = recorder_at k ts cs"
  by (simp add: recorder_at_def)

lemma accept_tick_cont:
  assumes "hr_first r \<noteq> None"
  shows "accept_tick t (r\<lparr>hr_continuesAfter := x\<rparr>) = map_prod (\<lambda>r. r\<lparr>hr_continuesAfter := x\<rparr>) id (accept_tick t r) \<and>
    hr_first (fst (accept_tick t r)) \<noteq> None"
proof -
  have o: "open_first t r = (r, Inr ())" "open_first t (r\<lparr>hr_continuesAfter := x\<rparr>) = (r\<lparr>hr_continuesAfter := x\<rparr>, Inr ())"
    using assms by (simp_all add: open_first_def)
  show ?thesis
  proof (cases "accept (hr_base r) t")
    case (Inl e)
    then show ?thesis using assms by (simp add: accept_tick_def o)
  next
    case (Inr p)
    obtain base bar where p: "p = (base, bar)" by (cases p)
    show ?thesis
    proof (cases bar)
      case None
      then show ?thesis using assms Inr p by (simp add: accept_tick_def o)
    next
      case (Some c)
      have e: "accept_tick t r = (if Some (c_openInstant c) = hr_firstBucketStart r then (closeFirst c (r\<lparr>hr_base := base\<rparr>), Inr ())
          else (r\<lparr>hr_base := base, hr_closed := hr_closed r @ [c]\<rparr>, Inr ()))"
        "accept_tick t (r\<lparr>hr_continuesAfter := x\<rparr>) = (if Some (c_openInstant c) = hr_firstBucketStart r
          then (closeFirst c (r\<lparr>hr_continuesAfter := x, hr_base := base\<rparr>), Inr ())
          else (r\<lparr>hr_continuesAfter := x, hr_base := base, hr_closed := hr_closed r @ [c]\<rparr>, Inr ()))"
        using Inr p Some by (simp_all add: accept_tick_def o Let_def del: closeFirst.simps)
      show ?thesis unfolding e using assms by (cases r; cases "hr_firstFate r") simp_all
    qed
  qed
qed

lemma recorder_accept_cont:
  "hr_first r \<noteq> None \<Longrightarrow> recorder_accept us (r\<lparr>hr_continuesAfter := x\<rparr>) =
     map_prod (\<lambda>r. r\<lparr>hr_continuesAfter := x\<rparr>) id (recorder_accept us r)"
proof (induction us arbitrary: r)
  case (Cons t us)
  obtain r1 res where 1: "accept_tick t r = (r1, res)" by (cases "accept_tick t r")
  have "hr_first r1 \<noteq> None" "accept_tick t (r\<lparr>hr_continuesAfter := x\<rparr>) = (r1\<lparr>hr_continuesAfter := x\<rparr>, res)"
    using accept_tick_cont [OF Cons.prems, of t x] 1 by simp_all
  then show ?case using Cons.IH 1 by (cases res) simp_all
qed simp

lemma recorder_accept_feeds:
  assumes "\<forall>t\<in>set us. valid_instant (instant t)" "out @ cs = released k ts" "ticks_ordered (ts @ us)" "\<not> behind k (ts @ us)"
  shows "\<exists>cs'. recorder_accept us (recorder_at k ts cs) = (recorder_at k (ts @ us) cs', Inr ()) \<and> out @ cs' = released k (ts @ us)"
  using assms
proof (induction us arbitrary: ts cs)
  case (Cons t us)
  have o: "ticks_ordered (ts @ [t])" using Cons.prems(3) by (auto simp: ticks_ordered_iff sorted_wrt_append sorted_append)
  have "\<not> behind k (ts @ [t])" using Cons.prems(4) behind_snoc [of "ts @ [t]" k us] by auto
  then obtain cs1 where 1: "accept_tick t (recorder_at k ts cs) = (recorder_at k (ts @ [t]) cs1, Inr ())"
      "out @ cs1 = released k (ts @ [t])"
    using accept_tick_at [OF _ o _ Cons.prems(2)] Cons.prems(1) by auto
  then show ?case using Cons.IH [OF _ 1(2)] Cons.prems by simp
qed auto

lemma recorder_over_fed:
  assumes "market_stream_ok M" "recorder_over M xs ts (us @ ys) r" "recorder_accept us r = (r', res)"
  shows "recorder_over M xs (ts @ us) ys r' \<and> res = Inr () \<or> recorder_dead r' \<and> res \<noteq> Inr () \<and> ts = []"
proof -
  obtain k x cs out where M: "M = xs @ ts @ us @ ys" and r: "r = (recorder_at k ts cs)\<lparr>hr_continuesAfter := x\<rparr>"
      "x = k \<or> k = None \<and> ts \<noteq> []" "out @ cs = released k ts" "x = None \<longrightarrow> out = []" "case k of None \<Rightarrow> True | Some j \<Rightarrow> anchored M j" "\<not> behind k ts"
    using assms(2) unfolding recorder_over_def by blast
  have v: "\<forall>t\<in>set us. valid_instant (instant t)" and o: "ticks_ordered (ts @ us)"
    using assms(1) by (auto simp: market_stream_ok_def M ticks_ordered_iff sorted_append sorted_wrt_append)
  show ?thesis
  proof (cases "behind k (ts @ us)")
    case True
    then obtain n t us' where b: "ts = []" "k = Some (Some n)" "us = t # us'" "sequence t \<le> n"
    proof -
      have "ts = []" using True r(6) behind_snoc [of ts k us] by auto
      then show ?thesis using True that by (cases k; cases "the k"; cases us) auto
    qed
    have "released k ts = []" using b by (simp add: released_def whole_minutes_def)
    then have cs: "cs = []" using r(3) by simp
    have "open_first t r = ((recorder_at k [] [])\<lparr>hr_first := Some t, hr_firstBucketStart := Some (minute_start t)\<rparr>,
        Inl (HistoryErr ''restarted behind the stored head''))"
      using open_first_at [of t k "[]" "[]"] v b r(1,2) cs by simp
    then have "recorder_accept us r = ((recorder_at k [] [])\<lparr>hr_first := Some t, hr_firstBucketStart := Some (minute_start t)\<rparr>,
        Inl (HistoryErr ''restarted behind the stored head''))"
      by (simp add: b(3) accept_tick_def)
    then show ?thesis using assms(3) b by (auto simp: recorder_dead_def started_def)
  next
    case False
    obtain cs' where 1: "recorder_accept us (recorder_at k ts cs) = (recorder_at k (ts @ us) cs', Inr ())"
        "out @ cs' = released k (ts @ us)"
      using recorder_accept_feeds [OF v r(3) o False] by blast
    have "recorder_accept us r = ((recorder_at k (ts @ us) cs')\<lparr>hr_continuesAfter := x\<rparr>, Inr ())"
    proof (cases "ts = []")
      case True
      then show ?thesis using r(1,2) 1(1) by simp
    next
      case ne: False
      then have "hr_first (recorder_at k ts cs) \<noteq> None" by (cases ts) (simp_all add: recorder_at_def)
      from recorder_accept_cont [OF this, of us x] show ?thesis using r(1) 1(1) by simp
    qed
    then have "r' = (recorder_at k (ts @ us) cs')\<lparr>hr_continuesAfter := x\<rparr>" "res = Inr ()" using assms(3) by simp_all
    then show ?thesis using M r(2,4,5) 1(2) False unfolding recorder_over_def by auto
  qed
qed

lemma recorder_over_told:
  assumes "recorder_over M xs ts ys r" "\<not> started r" "anchored M k" "continueAfter k r = (r', res)"
  shows "recorder_over M xs ts ys r' \<and> started r'"
proof -
  obtain k' x cs out where M: "M = xs @ ts @ ys" and r: "r = (recorder_at k' ts cs)\<lparr>hr_continuesAfter := x\<rparr>"
      "x = k' \<or> k' = None \<and> ts \<noteq> []" "out @ cs = released k' ts" "x = None \<longrightarrow> out = []" "\<not> behind k' ts"
    using assms(1) unfolding recorder_over_def by blast
  have x: "x = None" using assms(2) r(1) by (simp add: started_def)
  then have k': "k' = None" "out = []" using r(2,4) by auto
  then have r0: "r = recorder_at None ts cs" and cs: "[] @ cs = released None ts" using r(1,3) x by simp_all
  show ?thesis
  proof (cases "behind (Some k) ts")
    case True
    then obtain n t us where b: "k = Some n" "ts = t # us" "sequence t \<le> n" by (cases k; cases ts) auto
    then have "continueAfter k r = (r\<lparr>hr_continuesAfter := Some k\<rparr>, Inl (HistoryErr ''restarted behind the stored head''))"
      by (simp add: r0 continueAfter_def decideFirst_def recorder_at_def)
    then have "r' = (recorder_at None ts cs)\<lparr>hr_continuesAfter := Some k\<rparr>" using assms(4) r0 by simp
    then show ?thesis using M cs b(2) unfolding recorder_over_def by (fastforce simp: started_def)
  next
    case False
    obtain cs' where 1: "continueAfter k (recorder_at None ts cs) = (recorder_at (Some k) ts cs', Inr ())"
        "[] @ cs' = released (Some k) ts"
      using continueAfter_at [OF False cs] by blast
    then have "r' = recorder_at (Some k) ts cs'" using assms(4) r0 by simp
    then have "r' = (recorder_at (Some k) ts cs')\<lparr>hr_continuesAfter := Some k\<rparr>" by (simp only: recorder_at_cont)
    then show ?thesis using M 1(2) assms(3) False unfolding recorder_over_def by (fastforce simp: started_def)
  qed
qed

lemma recorder_over_drained:
  assumes "recorder_over M xs ts ys r" "drain r = (r', Inr cs)" "market_stream_ok M"
  shows "recorder_over M xs ts ys r' \<and> set cs \<subseteq> minutes_of M"
proof -
  obtain k x ds out where M: "M = xs @ ts @ ys" and r: "r = (recorder_at k ts ds)\<lparr>hr_continuesAfter := x\<rparr>"
      "x = k \<or> k = None \<and> ts \<noteq> []" "out @ ds = released k ts" "x = None \<longrightarrow> out = []"
      "case k of None \<Rightarrow> True | Some j \<Rightarrow> anchored M j" "\<not> behind k ts"
    using assms(1) unfolding recorder_over_def by blast
  have x: "x \<noteq> None" "cs = ds" "r' = (recorder_at k ts [])\<lparr>hr_continuesAfter := x\<rparr>"
    using assms(2) r(1) by (auto simp: drain_def recorder_at_def split: if_splits)
  have "set cs \<subseteq> set (released k ts)" using r(3) x(2) by (metis Un_upper2 set_append)
  then have "set cs \<subseteq> minutes_of M" using released_minutes [OF assms(3) M r(5)] by blast
  moreover have "recorder_over M xs ts ys r'"
    unfolding recorder_over_def using M r(2,3,5,6) x by (metis append_Nil2)
  ultimately show ?thesis by blast
qed

lemma recorder_over_new:
  assumes "M = xs @ ys" "case start of Continues k \<Rightarrow> anchored M k | Unknown \<Rightarrow> True"
  shows "recorder_over M xs [] ys (new_recorder start)"
proof -
  let ?k = "case start of Unknown \<Rightarrow> None | Continues k \<Rightarrow> Some k"
  have "new_recorder start = (recorder_at ?k [] [])\<lparr>hr_continuesAfter := ?k\<rparr>" by (simp add: new_recorder_at)
  moreover have "[] @ [] = released ?k []" "\<not> behind ?k []"
    "case ?k of None \<Rightarrow> True | Some j \<Rightarrow> anchored M j"
    using assms(2) by (cases start; simp add: released_def whole_minutes_def)+
  ultimately show ?thesis unfolding recorder_over_def using assms(1) by (metis append_Nil)
qed

section \<open>Priming from the record\<close>

lemma memory_since_page:
  "1 \<le> n \<Longrightarrow> memory_since rm a (num n) (num PRIME_PAGE) = Inr (take 100000 (filter (\<lambda>t. n \<le> sequence t) (held (mt_ticks rm) a)))"
  by (simp add: memory_since_def badLimit_def badSequence_def PRIME_PAGE_def)

lemma filter_next_page:
  assumes "sorted_wrt (<) (map sequence rec)" "filter (\<lambda>t. n \<le> sequence t) rec = page @ rest" "page \<noteq> []"
  shows "filter (\<lambda>t. sequence (last page) + 1 \<le> sequence t) rec = rest" "n \<le> sequence (last page)"
proof -
  have p: "sorted_wrt (<) (map sequence (page @ rest))"
    unfolding assms(2) [symmetric] sorted_wrt_map using assms(1) by (intro sorted_wrt_filter) (simp add: sorted_wrt_map)
  have "last page \<in> set (filter (\<lambda>t. n \<le> sequence t) rec)" unfolding assms(2) using assms(3) by simp
  then show n: "n \<le> sequence (last page)" by simp
  have "filter (\<lambda>t. sequence (last page) + 1 \<le> sequence t) rec =
      filter (\<lambda>t. sequence (last page) + 1 \<le> sequence t) (filter (\<lambda>t. n \<le> sequence t) rec)"
    using n by (auto intro: filter_cong)
  also have "\<dots> = filter (\<lambda>t. sequence (last page) + 1 \<le> sequence t) page @ filter (\<lambda>t. sequence (last page) + 1 \<le> sequence t) rest"
    by (simp only: assms(2) filter_append)
  also have "filter (\<lambda>t. sequence (last page) + 1 \<le> sequence t) page = []"
    using le_last [of sequence page] p by (force simp: filter_empty_conv sorted_wrt_append)
  also have "filter (\<lambda>t. sequence (last page) + 1 \<le> sequence t) rest = rest"
    using p last_in_set [OF assms(3)] by (intro filter_True) (auto simp: sorted_wrt_append zless_imp_add1_zle)
  finally show "filter (\<lambda>t. sequence (last page) + 1 \<le> sequence t) rec = rest" by simp
qed

text \<open>Priming always returns, and feeds exactly what the record holds from the first sequence on.\<close>

lemma prime_pages_all:
  assumes "sorted_wrt (<) (map sequence (held (mt_ticks rm) a))" "market_stream_ok M" "1 \<le> n"
    and "filter (\<lambda>t. n \<le> sequence t) (held (mt_ticks rm) a) = rest" "recorder_over M xs ts (rest @ ys) r"
  shows "\<exists>r' res. prime_pages (memory_since rm a) n folded r = Some (r', res) \<and>
    (res = Inr (folded + int (length rest)) \<and> recorder_over M xs (ts @ rest) ys r' \<or> (\<exists>e. res = Inl e) \<and> recorder_dead r')"
  using assms(3-5)
proof (induction "length rest" arbitrary: n ts r rest folded rule: less_induct)
  case less
  let ?page = "take 100000 rest"
  have page: "memory_since rm a (num n) (num PRIME_PAGE) = Inr ?page"
    using memory_since_page [OF less.prems(1)] less.prems(2) by simp
  show ?case
  proof (cases "rest = []")
    case True
    then show ?thesis using page less.prems(3) by (simp add: prime_pages.simps)
  next
    case False
    then have ne: "?page \<noteq> []" by simp
    obtain r1 res where fed: "recorder_accept ?page r = (r1, res)" by (cases "recorder_accept ?page r")
    have over: "recorder_over M xs ts (?page @ drop 100000 rest @ ys) r"
      using less.prems(3) by (metis append_assoc append_take_drop_id)
    note F = recorder_over_fed [OF assms(2) over fed]
    show ?thesis
    proof (cases res)
      case (Inl e)
      then show ?thesis using F page ne fed by (simp add: prime_pages.simps)
    next
      case (Inr u)
      then have r1: "recorder_over M xs (ts @ ?page) (drop 100000 rest @ ys) r1" using F by simp
      show ?thesis
      proof (cases "length rest < 100000")
        case True
        then show ?thesis using r1 page ne fed Inr
          by (simp add: prime_pages.simps PRIME_PAGE_def)
      next
        case big: False
        note next_page = filter_next_page [OF assms(1), of n ?page "drop 100000 rest"]
        have n': "filter (\<lambda>t. sequence (last ?page) + 1 \<le> sequence t) (held (mt_ticks rm) a) = drop 100000 rest"
          "1 \<le> sequence (last ?page) + 1"
          using next_page less.prems(1,2) ne by simp_all
        have "length (drop 100000 rest) < length rest" using big by simp
        from less.hyps [OF this n'(2,1) r1, of "folded + int (length ?page)"]
        obtain r' res' where "prime_pages (memory_since rm a) (sequence (last ?page) + 1) (folded + int (length ?page)) r1 = Some (r', res')"
          "res' = Inr (folded + int (length ?page) + int (length (drop 100000 rest))) \<and>
             recorder_over M xs ((ts @ ?page) @ drop 100000 rest) ys r' \<or> (\<exists>e. res' = Inl e) \<and> recorder_dead r'" by blast
        moreover have "folded + int (length ?page) + int (length (drop 100000 rest)) = folded + int (length rest)"
          using big by simp
        ultimately show ?thesis using page ne fed Inr big
          by (simp add: prime_pages.simps [of _ n] PRIME_PAGE_def)
      qed
    qed
  qed
qed

section \<open>What a flush writes\<close>

definition hours_ok :: "candle list \<Rightarrow> candle list \<Rightarrow> bool" where
  "hours_ok ms hs \<longleftrightarrow> hours_aligned hs \<and> (\<forall>h\<in>set hs. whole_over hour ms h \<and>
     (\<exists>t. head_instant ms = Some t \<and> c_openInstant h + durationMs hour \<le> t))"

lemma whole_over_append:
  assumes "series_ok f (ms @ zs)" "whole_over (timeframe i) ms b" "head_instant ms = Some t" "c_openInstant b + DURATIONS_MS i \<le> t"
  shows "whole_over (timeframe i) (ms @ zs) b"
proof -
  let ?tf = "timeframe i"
  obtain p where p: "p \<in> set ms" "c_openInstant p = t" using head_instant_mem [OF assms(3)] by blast
  have "bar_bucket ?tf z \<noteq> c_openInstant b" if "z \<in> set zs" for z
  proof -
    have "t < c_openInstant z" using assms(1) p that by (auto simp: series_ok_append)
    moreover have "c_openInstant z < bar_bucket ?tf z + DURATIONS_MS i" using bucket_gt [of "durationMs ?tf"] by simp
    ultimately show ?thesis using assms(4) by auto
  qed
  then have "group_bars ?tf (ms @ zs) (c_openInstant b) = group_bars ?tf ms (c_openInstant b)"
    by (simp add: group_bars_def filter_empty_conv)
  then show ?thesis using assms(2) merged_bar_cong [of ?tf "ms @ zs" "c_openInstant b" ms] by (simp add: whole_over_def)
qed

lemma head_instant_append: "head_instant (xs @ ys) = (if ys = [] then head_instant xs else head_instant ys)"
  by (simp add: head_instant_def last_option_def)

lemma head_instant_grows:
  assumes "series_ok f (xs @ ys)" "head_instant xs = Some t"
  obtains t' where "head_instant (xs @ ys) = Some t'" "t \<le> t'"
proof (cases "ys = []")
  case True
  then show ?thesis using that assms(2) by simp
next
  case False
  then obtain p where p: "last_option (xs @ ys) = Some p" by (simp add: last_option_def)
  obtain q where q: "q \<in> set xs" "c_openInstant q = t" using head_instant_mem [OF assms(2)] by blast
  have "t \<le> c_openInstant p" using series_ok_last [OF assms(1) _ p, of q] q by simp
  then show ?thesis using that p by (simp add: head_instant_def)
qed

lemma hours_ok_minutes:
  assumes "series_ok TF_1m (ms @ zs)" "hours_ok ms hs"
  shows "hours_ok (ms @ zs) hs"
  unfolding hours_ok_def
proof (intro conjI ballI)
  show "hours_aligned hs" using assms(2) by (simp add: hours_ok_def)
  fix h assume "h \<in> set hs"
  then obtain t where t: "whole_over hour ms h" "head_instant ms = Some t" "c_openInstant h + durationMs hour \<le> t"
    using assms(2) by (auto simp: hours_ok_def)
  show "whole_over hour (ms @ zs) h" using whole_over_append [OF assms(1) t(1,2)] t(3) by simp
  show "\<exists>t. head_instant (ms @ zs) = Some t \<and> c_openInstant h + durationMs hour \<le> t"
    using head_instant_grows [OF assms(1) t(2)] t(3) by (metis order_trans)
qed

lemma hours_ok_rolled:
  assumes "series_ok TF_1m ms" "series_ok TF_1h hs" "hours_ok ms hs"
  shows "hours_ok ms (hs @ rolled ms hs)"
proof -
  have al: "hours_aligned hs" using assms(3) by (simp add: hours_ok_def)
  show ?thesis unfolding hours_ok_def
  proof (intro conjI ballI)
    show "hours_aligned (hs @ rolled ms hs)" using rolled_series(2) [OF assms(1,2) al] .
    fix h assume h: "h \<in> set (hs @ rolled ms hs)"
    show "whole_over hour ms h"
      using h rolled_whole(1) [OF assms(1,2) al] assms(3) by (auto simp: hours_ok_def)
    show "\<exists>t. head_instant ms = Some t \<and> c_openInstant h + durationMs hour \<le> t"
      using h rolled_whole(4) [OF assms(1,2) al] assms(3) by (fastforce simp: hours_ok_def)
  qed
qed

lemma minutes_of_bar: "b \<in> minutes_of M \<Longrightarrow> market_stream_ok M \<Longrightarrow> c_timeframe b = TF_1m \<and> valid_instant (c_openInstant b)"
  using stream_bars_series [of M HISTORY_BASE_TIMEFRAME]
  by (simp add: minutes_of_def market_stream_ok_def series_ok_def HISTORY_BASE_TIMEFRAME_def)

text \<open>The minutes stored are minutes of the streams, and the hours are whole over the minutes.\<close>

definition history_store_ok ::
  "('s \<Rightarrow> string \<Rightarrow> timeframe_id \<Rightarrow> candle list) \<Rightarrow> ('s \<Rightarrow> bool) \<Rightarrow> (string \<Rightarrow> tick list) \<Rightarrow> 's \<Rightarrow> bool" where
  "history_store_ok bars ready M s \<longleftrightarrow> ready s \<and>
     (\<forall>a. set (bars s a TF_1m) \<subseteq> minutes_of (M a) \<and> hours_ok (bars s a TF_1m) (bars s a TF_1h))"

context candle_history
begin

abbreviation store_ok :: "(string \<Rightarrow> tick list) \<Rightarrow> 's \<Rightarrow> bool" where
  "store_ok \<equiv> history_store_ok bars ready"

lemma lastStored_anchored:
  assumes "store_ok M s" "lastStoredSequence ops s a = Inr k"
  shows "anchored (M a) k"
proof (cases k)
  case (Some n)
  have r: "ready s" using assms(1) by (simp add: history_store_ok_def)
  obtain h to bars' bar where "h_read ops s a HISTORY_BASE_TIMEFRAME h to = Inr bars'"
      "last_option bars' = Some bar" "n = c_lastSequence bar"
    using assms(2) Some by (auto simp: lastStoredSequence_def andThen_Inr_iff split: option.splits)
  then have "bar \<in> set (bars s a TF_1m)"
    using reads [OF r] by (auto simp: HISTORY_BASE_TIMEFRAME_def unless_Inr last_option_def split: if_splits
        dest!: last_in_set)
  then show ?thesis using assms(1) Some \<open>n = c_lastSequence bar\<close> by (auto simp: anchored_def history_store_ok_def)
qed (simp add: anchored_def)

text \<open>An append of whole minutes keeps the store so, whether it is taken or refused.\<close>

lemma append_store_ok:
  assumes "store_ok M s" "\<forall>a. market_stream_ok (M a)" "set cs \<subseteq> minutes_of (M a)" "cs \<noteq> []"
    and "h_append ops s a (c_timeframe (hd cs)) cs frame = (s', res)"
  shows "store_ok M s'"
proof -
  have r: "ready s" using assms(1) by (simp add: history_store_ok_def)
  have b: "\<forall>c\<in>set cs. c_timeframe c = TF_1m \<and> valid_instant (c_openInstant c)"
    using minutes_of_bar assms(2,3) by blast
  then have tf: "c_timeframe (hd cs) = TF_1m" using assms(4) by simp
  show ?thesis
  proof (cases "series_ok TF_1m (bars s a TF_1m @ cs)")
    case True
    then have s': "ready s'" "bars s' = (bars s)(a := (bars s a)(TF_1m := bars s a TF_1m @ cs))"
      using appends [OF r, of TF_1m a cs frame] assms(5) tf by auto
    show ?thesis unfolding history_store_ok_def
    proof (intro conjI allI)
      fix a'
      show "set (bars s' a' TF_1m) \<subseteq> minutes_of (M a')" using assms(1,3) by (auto simp: s'(2) history_store_ok_def)
      show "hours_ok (bars s' a' TF_1m) (bars s' a' TF_1h)"
        using assms(1) hours_ok_minutes [OF True] by (auto simp: s'(2) history_store_ok_def)
    qed (rule s'(1))
  next
    case False
    then have "ready s'" "bars s' = bars s" using refuses [OF r, of cs TF_1m a frame] b assms(5) tf by auto
    then show ?thesis using assms(1) by (simp add: history_store_ok_def)
  qed
qed

lemma write_runs_ok:
  assumes "store_ok M s" "\<forall>a. market_stream_ok (M a)" "set run \<union> set cs \<subseteq> minutes_of (M a)"
    and "write_runs ops frame_of a cs run runFrame s = (s', res)"
  shows "store_ok M s'"
  using assms(1,3,4)
proof (induction cs arbitrary: run runFrame s)
  case Nil
  then show ?case using append_store_ok [OF _ assms(2)] by (auto simp: write_run_def split: if_splits)
next
  case (Cons bar cs)
  show ?case
  proof (cases "frame_of (c_lastSequence bar)")
    case (Inl e)
    then show ?thesis using Cons.prems by simp
  next
    case (Inr frame)
    show ?thesis
    proof (cases "run \<noteq> [] \<and> \<not> framesMatch runFrame frame")
      case True
      obtain s1 res1 where 1: "write_run ops a run runFrame s = (s1, res1)" by (cases "write_run ops a run runFrame s")
      then have ok1: "store_ok M s1"
        using append_store_ok [OF Cons.prems(1) assms(2), of run a runFrame s1 res1] Cons.prems(2) True
        by (simp add: write_run_def)
      show ?thesis
      proof (cases res1)
        case (Inl e)
        then show ?thesis using Cons.prems(3) \<open>frame_of (c_lastSequence bar) = Inr frame\<close> True 1 ok1 by simp
      next
        case (Inr u)
        then have "write_runs ops frame_of a cs [bar] frame s1 = (s', res)"
          using Cons.prems(3) \<open>frame_of (c_lastSequence bar) = Inr frame\<close> True 1 by simp
        then show ?thesis using Cons.IH [OF ok1, of "[bar]" frame] Cons.prems(2) by simp
      qed
    next
      case False
      then have "write_runs ops frame_of a cs (run @ [bar]) (if run = [] then frame else runFrame) s = (s', res)"
        using Cons.prems(3) by (simp only: write_runs.simps Inr sum.case if_not_P [OF False] False if_False)
      then show ?thesis using Cons.IH [OF Cons.prems(1), of "run @ [bar]"] Cons.prems(2) by simp
    qed
  qed
qed

lemma refresh_store_ok:
  assumes "store_ok M s" "refreshRollup ops a s = (s', res)"
  shows "store_ok M s'"
proof -
  have r: "ready s" using assms(1) by (simp add: history_store_ok_def)
  have h: "hours_ok (bars s a TF_1m) (bars s a TF_1h)" using assms(1) by (simp add: history_store_ok_def)
  then have al: "hours_aligned (bars s a TF_1h)" by (simp add: hours_ok_def)
  have "ready s'" "bars s' = (bars s)(a := (bars s a)(TF_1h := bars s a TF_1h @ rolled (bars s a TF_1m) (bars s a TF_1h)))"
    using refreshRollup_spec [OF r al] assms(2) by auto
  moreover have "hours_ok (bars s a TF_1m) (bars s a TF_1h @ rolled (bars s a TF_1m) (bars s a TF_1h))"
    by (rule hours_ok_rolled [OF _ _ h]) (simp_all add: series [OF r])
  ultimately show ?thesis using assms(1) by (auto simp: history_store_ok_def)
qed

end

section \<open>The life of a venue's history\<close>

text \<open>
  One process after another over fixed streams: an asset is observed from any tick on and then without
  a gap, or primed from a record that holds part of its stream and observed from the tick after it;
  flushes happen at any time and may throw half way; a process may end anywhere. The second argument
  is the next tick of each asset the process is due.
\<close>

inductive history_reach ::
  "'s history_ops \<Rightarrow> (string \<Rightarrow> int \<Rightarrow> price_frame option result) \<Rightarrow> (string \<Rightarrow> tick list) \<Rightarrow> 's \<Rightarrow>
     's history_service \<Rightarrow> (string \<Rightarrow> nat option) \<Rightarrow> bool"
  for ops frame_of M init where
  begun: "history_reach ops frame_of M init (new_HistoryService init) (\<lambda>_. None)"
| observed: "history_reach ops frame_of M init S pos \<Longrightarrow> (pos a = None \<or> pos a = Some i) \<Longrightarrow>
    ts = take n (drop i (M a)) \<Longrightarrow> ts \<noteq> [] \<Longrightarrow> observe_ticks_of a ts S = (S', res) \<Longrightarrow>
    history_reach ops frame_of M init S' (pos(a \<mapsto> if res = Inr () then i + n else length (M a)))"
| primed: "history_reach ops frame_of M init S pos \<Longrightarrow> pos a = None \<Longrightarrow>
    held (mt_ticks rm) a = take n (drop i (M a)) \<Longrightarrow> prime ops (memory_since rm) a S = Some (S', res) \<Longrightarrow>
    history_reach ops frame_of M init S' (if res = Inr 0 then pos else pos(a \<mapsto> if \<exists>k. res = Inr k then i + n else length (M a)))"
| flushed: "history_reach ops frame_of M init S pos \<Longrightarrow> flush_history ops frame_of S = (S', res) \<Longrightarrow>
    history_reach ops frame_of M init S' pos"
| restarted: "history_reach ops frame_of M init S pos \<Longrightarrow>
    history_reach ops frame_of M init (new_HistoryService (hs_history S)) (\<lambda>_. None)"

definition recorder_ok :: "tick list \<Rightarrow> nat option \<Rightarrow> recorder \<Rightarrow> bool" where
  "recorder_ok M p r \<longleftrightarrow> (case p of
     None \<Rightarrow> \<forall>i. recorder_over M (take i M) [] (drop i M) r
   | Some i \<Rightarrow> (\<exists>xs ts. recorder_over M xs ts (drop i M) r) \<or> recorder_dead r \<and> i = length M)"

definition recorders_ok :: "(string \<Rightarrow> tick list) \<Rightarrow> (string \<Rightarrow> nat option) \<Rightarrow> 's history_service \<Rightarrow> bool" where
  "recorders_ok M pos S \<longleftrightarrow> (\<forall>a r. map_of (hs_recorders S) a = Some r \<longrightarrow> recorder_ok (M a) (pos a) r)"

lemma recorders_ok_set:
  "recorders_ok M pos S \<Longrightarrow> recorder_ok (M a) p r \<Longrightarrow> recorders_ok M (pos(a := p)) (set_recorder a r S)"
  by (auto simp: recorders_ok_def update_conv')

lemma recorders_ok_keep:
  "recorders_ok M pos S \<Longrightarrow> recorder_ok (M a) (pos a) r \<Longrightarrow> recorders_ok M pos (set_recorder a r S)"
  using recorders_ok_set [of M pos S a "pos a" r] by simp

lemma recorders_ok_other [simp]:
  "recorders_ok M pos (S\<lparr>hs_history := s\<rparr>) = recorders_ok M pos S"
  "recorders_ok M pos (S\<lparr>hs_reported := x\<rparr>) = recorders_ok M pos S"
  by (simp_all add: recorders_ok_def)

lemma slice_split: "M = take i M @ take n (drop i M) @ drop (i + n) M"
  by (metis append_take_drop_id drop_drop add.commute)

lemma recorder_ok_fed:
  assumes "market_stream_ok M" "recorder_ok M p r" "p = None \<or> p = Some i" "take n (drop i M) \<noteq> []"
    and "recorder_accept (take n (drop i M)) r = (r', res)"
  shows "recorder_ok M (Some (if res = Inr () then i + n else length M)) r'"
proof -
  have "drop i M \<noteq> []" using assms(4) by auto
  then obtain xs ts where over: "recorder_over M xs ts (drop i M) r"
  proof (cases p)
    case None
    have "recorder_over M (take i M) [] (drop i M) r"
      using assms(2) None by (simp add: recorder_ok_def)
    then show ?thesis using that by blast
  next
    case (Some j)
    then show ?thesis using assms(2,3) that \<open>drop i M \<noteq> []\<close> by (auto simp: recorder_ok_def)
  qed
  have "drop i M = take n (drop i M) @ drop (i + n) M" by (metis append_take_drop_id drop_drop add.commute)
  then have "recorder_over M xs ts (take n (drop i M) @ drop (i + n) M) r" using over by simp
  from recorder_over_fed [OF assms(1) this assms(5)] show ?thesis by (auto simp: recorder_ok_def)
qed

lemma recorder_over_split: "recorder_over M xs [] ys r \<Longrightarrow> M = us @ vs \<Longrightarrow> recorder_over M us [] vs r"
  unfolding recorder_over_def by (metis append_Nil)

lemma stream_sequences: "market_stream_ok M \<Longrightarrow> t \<in> set M \<Longrightarrow> FIRST_SEQUENCE_history \<le> sequence t"
  using consecutive_sorted [of "map sequence M"] by (cases M) (auto simp: market_stream_ok_def intro: less_imp_le)

lemma anchored_next:
  assumes "market_stream_ok M" "anchored M k"
  shows "1 \<le> (case k of None \<Rightarrow> 0 | Some n \<Rightarrow> n) + 1"
proof (cases k)
  case (Some n)
  then obtain t where t: "t \<in> set M" "c_lastSequence (bucket_candle minute M (minute_start t)) = n"
    using assms(2) by (auto simp: anchored_def minutes_of_iff)
  let ?g = "bucket_ticks minute M (minute_start t)"
  have "?g \<noteq> []" using t(1) by (auto simp: bucket_ticks_def filter_empty_conv)
  then have "last ?g \<in> set M" using last_in_set [of ?g] by (auto simp: bucket_ticks_def)
  then have "1 \<le> sequence (last ?g)" using stream_sequences [OF assms(1)] by (simp add: FIRST_SEQUENCE_history_def)
  moreover have "n = sequence (last ?g)" using t(2) by (simp add: bucket_candle_def Let_def)
  ultimately show ?thesis using Some by simp
qed simp

lemma suffix_from:
  assumes "sorted_wrt (<) (map sequence xs)"
  obtains pre where "xs = pre @ filter (\<lambda>t. n \<le> sequence t) xs"
proof -
  have "xs = filter (\<lambda>t. \<not> n \<le> sequence t) xs @ filter (\<lambda>t. n \<le> sequence t) xs"
    using assms
  proof (induction xs)
    case (Cons x xs)
    have "n \<le> sequence x \<Longrightarrow> filter (\<lambda>t. \<not> n \<le> sequence t) xs = []" using Cons.prems by (auto simp: filter_empty_conv)
    then show ?case using Cons by (cases "n \<le> sequence x") simp_all
  qed simp
  then show ?thesis using that by blast
qed

lemma recorder_ok_told:
  assumes "recorder_ok M p r" "\<not> started r" "anchored M k" "continueAfter k r = (r', res)"
  shows "recorder_ok M p r'"
proof (cases p)
  case None
  then show ?thesis using assms recorder_over_told by (fastforce simp: recorder_ok_def)
next
  case (Some i)
  then obtain xs ts where "recorder_over M xs ts (drop i M) r"
    using assms(1,2) by (auto simp: recorder_ok_def recorder_dead_def)
  from recorder_over_told [OF this assms(2-4)] show ?thesis using Some by (auto simp: recorder_ok_def)
qed

lemma recorder_ok_drained:
  assumes "recorder_ok M p r" "drain r = (r', Inr cs)" "market_stream_ok M"
  shows "recorder_ok M p r' \<and> set cs \<subseteq> minutes_of M"
proof (cases p)
  case None
  then have o: "recorder_over M (take i M) [] (drop i M) r" for i using assms(1) by (simp add: recorder_ok_def)
  show ?thesis using recorder_over_drained [OF o assms(2,3)] None by (auto simp: recorder_ok_def)
next
  case (Some i)
  show ?thesis
  proof (cases "recorder_dead r \<and> i = length M")
    case True
    then show ?thesis using assms(2) Some
      by (auto simp: drain_def recorder_ok_def recorder_dead_def started_def split: if_splits)
  next
    case False
    then obtain xs ts where "recorder_over M xs ts (drop i M) r" using assms(1) Some by (auto simp: recorder_ok_def)
    from recorder_over_drained [OF this assms(2,3)] show ?thesis using Some by (auto simp: recorder_ok_def)
  qed
qed

context candle_history
begin

lemma flush_asset_ok:
  assumes "store_ok M (hs_history S)" "recorders_ok M pos S" "\<forall>a. market_stream_ok (M a)" "map_of (hs_recorders S) a = Some r"
    and "flush_asset ops frame_of a S = (S', res)"
  shows "store_ok M (hs_history S') \<and> recorders_ok M pos S'"
proof -
  let ?s = "hs_history S"
  have r: "recorder_ok (M a) (pos a) r" using assms(2,4) by (simp add: recorders_ok_def)
  obtain r1 res1 where 1: "told_recorder ops ?s a r = (r1, res1)" by (cases "told_recorder ops ?s a r")
  have r1: "recorder_ok (M a) (pos a) r1"
    using 1 r recorder_ok_told [OF r _ lastStored_anchored [OF assms(1)]]
    by (auto simp: told_recorder_def split: if_splits sum.splits)
  obtain r2 res2 where 2: "drain r1 = (r2, res2)" by (cases "drain r1")
  show ?thesis
  proof (cases res1)
    case (Inl e)
    then show ?thesis using assms(1,2,4,5) 1 r1 by (auto simp: flush_asset_def Let_def recorders_ok_keep)
  next
    case r1ok: (Inr u)
    show ?thesis
    proof (cases res2)
      case (Inl e)
      then have "r2 = r1" using 2 by (auto simp: drain_def split: if_splits)
      then show ?thesis using assms(1,2,4,5) 1 2 r1 r1ok Inl by (auto simp: flush_asset_def Let_def recorders_ok_keep)
    next
      case (Inr cs)
      have r2: "recorder_ok (M a) (pos a) r2" "set cs \<subseteq> minutes_of (M a)"
        using recorder_ok_drained [OF r1 _ spec [OF assms(3)]] 2 Inr by auto
      obtain s1 res3 where 3: "(if cs = [] then (?s, Inr ()) else write_runs ops (frame_of a) a cs [] None ?s) = (s1, res3)"
        by (cases "if cs = [] then (?s, Inr ()) else write_runs ops (frame_of a) a cs [] None ?s")
      have s1: "store_ok M s1"
        using 3 assms(1) write_runs_ok [OF assms(1,3), of "[]" cs a] r2(2) by (auto split: if_splits)
      obtain s2 res4 where 4: "refreshRollup ops a s1 = (s2, res4)" by (cases "refreshRollup ops a s1")
      have s2: "store_ok M s2" using refresh_store_ok [OF s1 4] .
      show ?thesis
      proof (cases res3)
        case (Inl e)
        then have "S' = (set_recorder a r2 S)\<lparr>hs_history := s1\<rparr>"
          using assms(4,5) 1 2 3 r1ok \<open>res2 = Inr cs\<close> by (simp add: flush_asset_def Let_def)
        then show ?thesis using s1 assms(2) r2(1) by (simp add: recorders_ok_keep)
      next
        case (Inr u')
        then have "S' = (set_recorder a r2 S)\<lparr>hs_reported := (if hr_withheld r2 \<noteq> None then insert a (hs_reported S) else hs_reported S),
            hs_history := s2\<rparr>"
          using assms(4,5) 1 2 3 4 r1ok \<open>res2 = Inr cs\<close> by (simp add: flush_asset_def Let_def)
        then show ?thesis using s2 assms(2) r2(1) by (simp add: recorders_ok_keep)
      qed
    qed
  qed
qed

lemma flush_asset_keys:
  "map_of (hs_recorders S) a \<noteq> None \<Longrightarrow> flush_asset ops frame_of a S = (S', res) \<Longrightarrow>
     dom (map_of (hs_recorders S')) = dom (map_of (hs_recorders S))"
  by (auto simp: flush_asset_def Let_def update_conv' split: prod.splits sum.splits if_splits)

lemma flush_assets_ok:
  assumes "store_ok M (hs_history S)" "recorders_ok M pos S" "\<forall>a. market_stream_ok (M a)"
    and "set as \<subseteq> dom (map_of (hs_recorders S))" "flush_assets ops frame_of as S = (S', res)"
  shows "store_ok M (hs_history S') \<and> recorders_ok M pos S'"
  using assms(1,2,4,5)
proof (induction as arbitrary: S)
  case (Cons a as)
  obtain S1 res1 where 1: "flush_asset ops frame_of a S = (S1, res1)" by (cases "flush_asset ops frame_of a S")
  obtain r where r: "map_of (hs_recorders S) a = Some r" using Cons.prems(3) by auto
  have ok: "store_ok M (hs_history S1)" "recorders_ok M pos S1"
    using flush_asset_ok [OF Cons.prems(1,2) assms(3) r 1] by simp_all
  show ?case
  proof (cases res1)
    case (Inl e)
    then show ?thesis using Cons.prems(4) 1 ok by simp
  next
    case (Inr u)
    have "set as \<subseteq> dom (map_of (hs_recorders S1))"
      using Cons.prems(3) flush_asset_keys [of S a frame_of S1 res1] r 1 by auto
    then show ?thesis using Cons.IH [OF ok] Cons.prems(4) 1 Inr by simp
  qed
qed simp

lemma history_reach_ok:
  assumes "history_reach ops frame_of M init S pos" "store_ok M init" "\<forall>a. market_stream_ok (M a)"
  shows "store_ok M (hs_history S) \<and> recorders_ok M pos S"
  using assms(1)
proof (induction rule: history_reach.induct)
  case begun
  then show ?case using assms(2) by (simp add: new_HistoryService_def recorders_ok_def)
next
  case (observed S pos a i ts n S' res)
  let ?r = "case map_of (hs_recorders S) a of None \<Rightarrow> new_recorder Unknown | Some r \<Rightarrow> r"
  obtain r' where 1: "recorder_accept ts ?r = (r', res)" "S' = set_recorder a r' S"
    using observed.hyps(4,5) by (auto simp: observe_ticks_of_def Let_def split: prod.splits)
  show ?case
  proof (cases "map_of (hs_recorders S) a")
    case None
    then have "recorder_ok (M a) None ?r" by (auto simp: recorder_ok_def intro!: recorder_over_new)
    from recorder_ok_fed [OF spec [OF assms(3)] this, of i n r' res] 1 observed.hyps(3,4)
    have "recorder_ok (M a) (Some (if res = Inr () then i + n else length (M a))) r'" by simp
    then have "recorders_ok M (pos(a \<mapsto> if res = Inr () then i + n else length (M a))) (set_recorder a r' S)"
      using observed.IH by (intro recorders_ok_set) simp_all
    moreover have "store_ok M (hs_history (set_recorder a r' S))" using observed.IH by simp
    ultimately show ?thesis unfolding 1(2) by blast
  next
    case (Some r)
    then have "recorder_ok (M a) (pos a) ?r" using observed.IH by (simp add: recorders_ok_def)
    from recorder_ok_fed [OF spec [OF assms(3)] this observed.hyps(2), of n r' res] 1 observed.hyps(3,4)
    have "recorder_ok (M a) (Some (if res = Inr () then i + n else length (M a))) r'" by simp
    then have "recorders_ok M (pos(a \<mapsto> if res = Inr () then i + n else length (M a))) (set_recorder a r' S)"
      using observed.IH by (intro recorders_ok_set) simp_all
    moreover have "store_ok M (hs_history (set_recorder a r' S))" using observed.IH by simp
    ultimately show ?thesis unfolding 1(2) by blast
  qed
next
  case (primed S pos a rm n i S' res)
  let ?pos = "if res = Inr 0 then pos else pos(a \<mapsto> if \<exists>k. res = Inr k then i + n else length (M a))"
  have ok: "store_ok M (hs_history S)" "recorders_ok M pos S" using primed.IH by simp_all
  show ?case
  proof (cases "map_of (hs_recorders S) a")
    case (Some r)
    then have "S' = S" "res = Inr 0" using primed.hyps(4) by (simp_all add: prime_def)
    then show ?thesis using ok by simp
  next
    case None
    show ?thesis
    proof (cases "lastStoredSequence ops (hs_history S) a")
      case (Inl e)
      then have "S' = S" "res = Inl e" using primed.hyps(4) None by (simp_all add: prime_def)
      moreover from this have "recorders_ok M ?pos S" using ok(2) None by (auto simp: recorders_ok_def)
      ultimately show ?thesis using ok(1) by blast
    next
      case (Inr k)
      let ?rec = "held (mt_ticks rm) a" and ?n = "(case k of None \<Rightarrow> 0 | Some n \<Rightarrow> n) + 1"
      let ?rest = "filter (\<lambda>t. ?n \<le> sequence t) ?rec"
      have anch: "anchored (M a) k" by (rule lastStored_anchored [OF ok(1) Inr])
      have st: "market_stream_ok (M a)" using assms(3) by blast
      have rec: "?rec = take n (drop i (M a))" by (rule primed.hyps(3))
      have "sorted_wrt (<) (map sequence (M a))" using st by (simp add: market_stream_ok_def ticks_ordered_iff)
      then have srt: "sorted_wrt (<) (map sequence ?rec)" unfolding rec
        by (metis drop_map take_map sorted_wrt_drop sorted_wrt_take)
      obtain pre where pre: "?rec = pre @ ?rest" using suffix_from [OF srt] .
      have M: "M a = (take i (M a) @ pre) @ ?rest @ drop (i + n) (M a)"
        using slice_split [of "M a" i n] pre rec by (metis append_assoc)
      have "recorder_over (M a) (take i (M a) @ pre) [] (?rest @ drop (i + n) (M a)) (new_recorder (Continues k))"
        using anch by (intro recorder_over_new [OF M]) simp
      from prime_pages_all [OF srt st anchored_next [OF st anch] refl this, of 0]
      obtain r' res' where p: "prime_pages (memory_since rm a) ?n 0 (new_recorder (Continues k)) = Some (r', res')"
        "res' = Inr (int (length ?rest)) \<and> recorder_over (M a) (take i (M a) @ pre) ?rest (drop (i + n) (M a)) r' \<or>
          (\<exists>e. res' = Inl e) \<and> recorder_dead r'" by auto
      have S': "S' = set_recorder a r' S" "res' = res"
        using primed.hyps(4) None Inr p(1) by (simp_all add: prime_def)
      show ?thesis
      proof (cases "res = Inr 0")
        case True
        then have "?rest = []" and over: "recorder_over (M a) (take i (M a) @ pre) ?rest (drop (i + n) (M a)) r'"
          using p(2) S'(2) by auto
        then have over: "recorder_over (M a) (take i (M a) @ pre) [] (drop (i + n) (M a)) r'" by simp
        have "recorder_ok (M a) (pos a) r'"
          using recorder_over_split [OF over append_take_drop_id [symmetric]] by (simp add: primed.hyps(2) recorder_ok_def)
        then show ?thesis using True ok S'(1) recorders_ok_keep by simp
      next
        case False
        then have "recorder_ok (M a) (Some (if \<exists>k. res = Inr k then i + n else length (M a))) r'"
          using p(2) S'(2) by (auto simp: recorder_ok_def)
        from recorders_ok_set [OF ok(2) this] show ?thesis using False ok(1) S'(1) by (simp only: if_False) simp
      qed
    qed
  qed
next
  case (flushed S pos S' res)
  then show ?case using flush_assets_ok [of M S pos "map fst (hs_recorders S)"] assms(3)
    by (auto simp: flush_history_def dom_map_of_conv_image_fst)
next
  case (restarted S pos)
  then show ?case by (simp add: new_HistoryService_def recorders_ok_def)
qed

end

end
