(* ===== verification/SqliteHistory.thy ===== *)
theory SqliteHistory
  imports SqliteRecord HistoryService
begin

text \<open>
  The candle history in SQLite: packages/runtime/src/sqliteHistory.ts. A table is the list of its rows
  in no particular order and a statement the function its SQL says, as for the record. The batch of an
  append is one transaction, but the frame it is filed under is written before the transaction begins.
\<close>

section \<open>Tables and statements\<close>

record sqlite_history =
  sh_readOnly :: bool
  sh_version :: int
  sh_candle :: "(string \<times> candle) list"
  sh_lattice :: "lattice_epoch list option"

definition candle_rows :: "sqlite_history \<Rightarrow> string \<Rightarrow> timeframe_id \<Rightarrow> candle list" where
  "candle_rows db a tf = map snd (filter (\<lambda>r. fst r = a \<and> c_timeframe (snd r) = tf) (sh_candle db))"

definition insert_candle :: "string \<Rightarrow> timeframe_id \<Rightarrow> candle \<Rightarrow> sqlite_history \<Rightarrow> sqlite_history result" where
  "insert_candle a tf c db =
     (if \<exists>d \<in> set (candle_rows db a tf). c_openInstant d = c_openInstant c then Inl (StoreErr ''UNIQUE constraint'')
      else Inr (db\<lparr>sh_candle := sh_candle db @ [(a, c\<lparr>c_timeframe := tf\<rparr>)]\<rparr>))"

definition read_candles :: "sqlite_history \<Rightarrow> string \<Rightarrow> timeframe_id \<Rightarrow> int \<Rightarrow> int \<Rightarrow> candle list" where
  "read_candles db a tf from1 to1 = sort_key c_openInstant (in_window from1 to1 (candle_rows db a tf))"

definition candle_head :: "sqlite_history \<Rightarrow> string \<Rightarrow> timeframe_id \<Rightarrow> int option" where
  "candle_head db a tf = (if candle_rows db a tf = [] then None
     else Some (Max (c_openInstant ` set (candle_rows db a tf))))"

abbreviation history_lattices :: "sqlite_history \<Rightarrow> lattice_epoch list" where
  "history_lattices db \<equiv> (case sh_lattice db of None \<Rightarrow> [] | Some es \<Rightarrow> es)"

definition insert_epoch :: "lattice_epoch \<Rightarrow> lattice_epoch list \<Rightarrow> lattice_epoch list" where
  "insert_epoch e es = (if \<exists>r \<in> set es. ep_assetId r = ep_assetId e \<and> ep_fromSequence r = ep_fromSequence e
     then es else es @ [e])"

definition read_epochs :: "sqlite_history \<Rightarrow> string \<Rightarrow> lattice_epoch list" where
  "read_epochs db a = sort_key epoch_from (filter (\<lambda>r. ep_assetId r = a) (history_lattices db))"

section \<open>Opening a file\<close>

record history_file =
  hf_version :: int
  hf_candle :: "(string \<times> candle) list option"
  hf_lattice :: "lattice_epoch list option"

definition HISTORY_SCHEMA_VERSION :: int where
  "HISTORY_SCHEMA_VERSION = 2"

definition new_SqliteCandleHistory :: "history_file \<Rightarrow> bool \<Rightarrow> sqlite_history result" where
  "new_SqliteCandleHistory file readOnly =
     (if HISTORY_SCHEMA_VERSION < hf_version file then Inl (StoreErr ''newer schema'')
      else if readOnly then
        (case hf_candle file of None \<Rightarrow> Inl (StoreErr ''no such table'')
         | Some cs \<Rightarrow> Inr \<lparr>sh_readOnly = True, sh_version = hf_version file, sh_candle = cs, sh_lattice = hf_lattice file\<rparr>)
      else Inr \<lparr>sh_readOnly = False, sh_version = HISTORY_SCHEMA_VERSION,
        sh_candle = (case hf_candle file of None \<Rightarrow> [] | Some cs \<Rightarrow> cs),
        sh_lattice = Some (case hf_lattice file of None \<Rightarrow> [] | Some es \<Rightarrow> es)\<rparr>)"

definition fresh_history_file :: history_file where
  "fresh_history_file = \<lparr>hf_version = 0, hf_candle = None, hf_lattice = None\<rparr>"

section \<open>The operations\<close>

definition sqliteHistory_declare ::
  "string \<Rightarrow> lattice_epoch list \<Rightarrow> bool \<Rightarrow> sqlite_history \<Rightarrow> sqlite_history \<times> unit result" where
  "sqliteHistory_declare a epochs replace db =
     (if sh_readOnly db then (db, Inl (HistoryErr ''opened read-only''))
      else case sh_lattice db of
        None \<Rightarrow> (db, Inl (HistoryErr ''no frame log''))
      | Some es \<Rightarrow>
          (db\<lparr>sh_lattice := Some (fold insert_epoch epochs
             (if replace then filter (\<lambda>r. ep_assetId r \<noteq> a) es else es))\<rparr>, Inr ()))"

definition sqliteHistory_frames :: "sqlite_history \<Rightarrow> string \<Rightarrow> lattice_epoch list" where
  "sqliteHistory_frames db a = (if sh_lattice db = None then [] else read_epochs db a)"

definition sqlite_note_frame ::
  "string \<Rightarrow> candle list \<Rightarrow> price_frame option \<Rightarrow> sqlite_history \<Rightarrow> sqlite_history" where
  "sqlite_note_frame a candles frame db =
     (if frame \<noteq> None \<and> sh_lattice db \<noteq> None \<and> opens (last_option (read_epochs db a)) (the frame)
      then db\<lparr>sh_lattice := Some (insert_epoch (candle_epoch a (hd candles) (the frame)) (history_lattices db))\<rparr>
      else db)"

fun insert_candles ::
  "string \<Rightarrow> timeframe_id \<Rightarrow> candle list \<Rightarrow> int option \<Rightarrow> sqlite_history \<Rightarrow> sqlite_history result" where
  "insert_candles a tf [] previous db = Inr db"
| "insert_candles a tf (c # cs) previous db =
     (if c_timeframe c \<noteq> tf then Inl (HistoryErr ''wrong timeframe'')
      else if (case previous of None \<Rightarrow> False | Some p \<Rightarrow> c_openInstant c \<le> p)
      then Inl (HistoryErr ''append-only and ordered'')
      else andThen (insert_candle a tf c db) (insert_candles a tf cs (Some (c_openInstant c))))"

definition sqliteHistory_append ::
  "sqlite_history \<Rightarrow> string \<Rightarrow> timeframe_id \<Rightarrow> candle list \<Rightarrow> price_frame option \<Rightarrow> sqlite_history \<times> unit result" where
  "sqliteHistory_append db a tf candles frame =
     (if sh_readOnly db then (db, Inl (HistoryErr ''opened read-only''))
      else case unstoredTimeframe tf of Some e \<Rightarrow> (db, Inl e)
      | None \<Rightarrow>
          if candles = [] then (db, Inr ())
          else let db1 = sqlite_note_frame a candles frame db in
            (case insert_candles a tf candles (candle_head db1 a tf) db1 of
               Inl e \<Rightarrow> (db1, Inl e)
             | Inr db2 \<Rightarrow> (db2, Inr ())))"

definition sqliteHistory_read ::
  "sqlite_history \<Rightarrow> string \<Rightarrow> timeframe_id \<Rightarrow> int \<Rightarrow> int \<Rightarrow> candle list result" where
  "sqliteHistory_read db a tf from1 to1 = unless (unstoredTimeframe tf) (Inr (read_candles db a tf from1 to1))"

definition sqliteHistory_head :: "sqlite_history \<Rightarrow> string \<Rightarrow> timeframe_id \<Rightarrow> int option result" where
  "sqliteHistory_head db a tf = unless (unstoredTimeframe tf) (Inr (candle_head db a tf))"

definition sqlite_history_ops :: "sqlite_history history_ops" where
  "sqlite_history_ops = \<lparr>h_append = sqliteHistory_append, h_frames = sqliteHistory_frames,
     h_read = sqliteHistory_read, h_head = sqliteHistory_head\<rparr>"

section \<open>The history in SQLite keeps the contract\<close>

definition sqlite_bars :: "sqlite_history \<Rightarrow> string \<Rightarrow> timeframe_id \<Rightarrow> candle list" where
  "sqlite_bars db a tf = sort_key c_openInstant (candle_rows db a tf)"

definition sqlite_history_ready :: "sqlite_history \<Rightarrow> bool" where
  "sqlite_history_ready db \<longleftrightarrow> \<not> sh_readOnly db \<and>
     (\<forall>a. \<forall>tf\<in>set HISTORY_TIMEFRAMES. series_ok tf (sqlite_bars db a tf))"

lemma set_sqlite_bars [simp]: "set (sqlite_bars db a tf) = set (candle_rows db a tf)"
  by (simp add: sqlite_bars_def)

lemma sqlite_bars_Nil: "sqlite_bars db a tf = [] \<longleftrightarrow> candle_rows db a tf = []"
  using set_sqlite_bars [of db a tf] by (metis set_empty)

lemma candle_head_eq:
  assumes "series_ok tf (sqlite_bars db a tf)"
  shows "candle_head db a tf = head_instant (sqlite_bars db a tf)"
proof (cases "candle_rows db a tf = []")
  case True
  then show ?thesis using sqlite_bars_Nil [of db a tf] by (simp add: candle_head_def)
next
  case False
  then have ne: "sqlite_bars db a tf \<noteq> []" by (simp add: sqlite_bars_Nil)
  have "Max (c_openInstant ` set (sqlite_bars db a tf)) = c_openInstant (last (sqlite_bars db a tf))"
    using ne le_last [of c_openInstant "sqlite_bars db a tf"] assms by (intro Max_eqI) (auto simp: series_ok_def simp del: set_sqlite_bars)
  then show ?thesis using False ne by (simp add: candle_head_def head_instant_def last_option_def)
qed

lemma in_window_sort: "sort_key c_openInstant (in_window lo hi cs) = in_window lo hi (sort_key c_openInstant cs)"
  by (simp add: filter_sort)

text \<open>Inserting after the head extends the series by the bar.\<close>

lemma insert_candle_bars:
  assumes "series_ok tf (sqlite_bars db a tf @ [c])"
  obtains db' where "insert_candle a tf c db = Inr db'" "sqlite_bars db' = (sqlite_bars db)(a := (sqlite_bars db a)(tf := sqlite_bars db a tf @ [c]))"
    "sh_readOnly db' = sh_readOnly db"
proof
  have less: "\<And>d. d \<in> set (candle_rows db a tf) \<Longrightarrow> c_openInstant d < c_openInstant c" and tf: "c_timeframe c = tf"
    using assms by (auto simp: series_ok_append series_ok_def [of tf "[c]"])
  then have c: "c\<lparr>c_timeframe := tf\<rparr> = c" by simp
  let ?db = "db\<lparr>sh_candle := sh_candle db @ [(a, c)]\<rparr>"
  show "insert_candle a tf c db = Inr ?db" using less by (force simp: insert_candle_def c)
  have "sqlite_bars ?db b tf' = (if b = a \<and> tf' = tf then sqlite_bars db a tf @ [c] else sqlite_bars db b tf')" for b tf'
    using less tf by (auto simp: sqlite_bars_def candle_rows_def intro!: sort_key_snoc less_imp_le)
  then show "sqlite_bars ?db = (sqlite_bars db)(a := (sqlite_bars db a)(tf := sqlite_bars db a tf @ [c]))"
    by (auto simp: fun_eq_iff)
qed simp

lemma insert_candles_bars:
  assumes "series_ok tf (sqlite_bars db a tf)" "previous = head_instant (sqlite_bars db a tf)"
    "\<forall>c\<in>set cs. valid_instant (c_openInstant c)"
  shows "if series_ok tf (sqlite_bars db a tf @ cs)
    then \<exists>db'. insert_candles a tf cs previous db = Inr db' \<and> sh_readOnly db' = sh_readOnly db \<and>
      sqlite_bars db' = (sqlite_bars db)(a := (sqlite_bars db a)(tf := sqlite_bars db a tf @ cs))
    else \<exists>e. insert_candles a tf cs previous db = Inl e"
  using assms
proof (induction cs arbitrary: db previous)
  case (Cons c cs)
  show ?case
  proof (cases "series_ok tf (sqlite_bars db a tf @ [c])")
    case True
    obtain db1 where 1: "insert_candle a tf c db = Inr db1" "sh_readOnly db1 = sh_readOnly db"
      "sqlite_bars db1 = (sqlite_bars db)(a := (sqlite_bars db a)(tf := sqlite_bars db a tf @ [c]))"
      using insert_candle_bars [OF True] by metis
    have b1: "sqlite_bars db1 a tf = sqlite_bars db a tf @ [c]" by (simp add: 1(3))
    have step: "insert_candles a tf (c # cs) previous db = insert_candles a tf cs (Some (c_openInstant c)) db1"
      using True Cons.prems(1,2) 1(1) by (auto simp: series_ok_snoc head_instant_def split: option.splits)
    have "if series_ok tf (sqlite_bars db1 a tf @ cs)
      then \<exists>db'. insert_candles a tf cs (Some (c_openInstant c)) db1 = Inr db' \<and> sh_readOnly db' = sh_readOnly db1 \<and>
        sqlite_bars db' = (sqlite_bars db1)(a := (sqlite_bars db1 a)(tf := sqlite_bars db1 a tf @ cs))
      else \<exists>e. insert_candles a tf cs (Some (c_openInstant c)) db1 = Inl e"
      using True Cons.prems(3) by (intro Cons.IH) (simp_all add: b1 head_instant_def last_option_def)
    moreover have "(sqlite_bars db1)(a := (sqlite_bars db1 a)(tf := sqlite_bars db1 a tf @ cs)) =
        (sqlite_bars db)(a := (sqlite_bars db a)(tf := sqlite_bars db a tf @ c # cs))"
      by (auto simp: 1(3) fun_eq_iff)
    ultimately show ?thesis unfolding step by (simp only: b1 1(2) append_assoc append_Cons append_Nil)
  next
    case False
    then have "\<not> series_ok tf (sqlite_bars db a tf @ c # cs)"
      using series_ok_append [of tf "sqlite_bars db a tf @ [c]" cs] by auto
    moreover have "\<exists>e. insert_candles a tf (c # cs) previous db = Inl e"
      using False Cons.prems by (auto simp: series_ok_snoc head_instant_def split: option.splits)
    ultimately show ?thesis by auto
  qed
qed (auto simp: fun_eq_iff)

lemma sqlite_note_frame_bars [simp]:
  "sqlite_bars (sqlite_note_frame a cs frame db) = sqlite_bars db"
  "sh_readOnly (sqlite_note_frame a cs frame db) = sh_readOnly db"
  by (simp_all add: sqlite_note_frame_def sqlite_bars_def candle_rows_def fun_eq_iff)

lemma sqlite_history_append:
  assumes "sqlite_history_ready db" "\<forall>c\<in>set cs. valid_instant (c_openInstant c)"
  shows "if tf \<in> set HISTORY_TIMEFRAMES \<and> series_ok tf (sqlite_bars db a tf @ cs)
    then \<exists>db'. sqliteHistory_append db a tf cs frame = (db', Inr ()) \<and> sqlite_history_ready db' \<and>
      sqlite_bars db' = (sqlite_bars db)(a := (sqlite_bars db a)(tf := sqlite_bars db a tf @ cs))
    else \<exists>db' e. sqliteHistory_append db a tf cs frame = (db', Inl e) \<and> sqlite_history_ready db' \<and> sqlite_bars db' = sqlite_bars db"
proof (cases "tf \<in> set HISTORY_TIMEFRAMES")
  case False
  then show ?thesis using assms(1) by (auto simp: sqliteHistory_append_def unstoredTimeframe_def sqlite_history_ready_def)
next
  case True
  let ?db = "sqlite_note_frame a cs frame db"
  have ro: "\<not> sh_readOnly db" and ok: "series_ok tf (sqlite_bars db a tf)"
    using assms(1) True unfolding sqlite_history_ready_def by blast+
  then have ok1: "series_ok tf (sqlite_bars ?db a tf)" by simp
  have r1: "sqlite_history_ready ?db" using assms(1) by (simp add: sqlite_history_ready_def)
  show ?thesis
  proof (cases "cs = []")
    case True
    then show ?thesis using assms(1) ok ro \<open>tf \<in> _\<close> by (auto simp: sqliteHistory_append_def unstoredTimeframe_def fun_eq_iff)
  next
    case ne: False
    have app: "sqliteHistory_append db a tf cs frame = (case insert_candles a tf cs (head_instant (sqlite_bars ?db a tf)) ?db of
        Inl e \<Rightarrow> (?db, Inl e) | Inr db2 \<Rightarrow> (db2, Inr ()))"
      using True ne ro candle_head_eq [OF ok1] by (simp add: sqliteHistory_append_def unstoredTimeframe_def Let_def)
    note I = insert_candles_bars [OF ok1 refl assms(2)]
    show ?thesis
    proof (cases "series_ok tf (sqlite_bars db a tf @ cs)")
      case t: True
      then obtain db' where 1: "insert_candles a tf cs (head_instant (sqlite_bars ?db a tf)) ?db = Inr db'" "\<not> sh_readOnly db'"
        "sqlite_bars db' = (sqlite_bars db)(a := (sqlite_bars db a)(tf := sqlite_bars db a tf @ cs))"
        using I ro by auto
      moreover have "sqlite_history_ready db'"
        using assms(1) t 1(2,3) unfolding sqlite_history_ready_def by (auto simp del: stored_timeframes)
      ultimately show ?thesis using t True app by auto
    next
      case False
      then show ?thesis using I True app r1 by auto
    qed
  qed
qed

interpretation sqlite_hist: candle_history sqlite_history_ops sqlite_bars sqlite_history_ready
proof (unfold_locales, goal_cases)
  case (1 s tf a)
  then show ?case unfolding sqlite_history_ready_def by blast
next
  case (2 s a tf lo hi)
  then show ?case by (simp add: sqlite_history_ops_def sqliteHistory_read_def read_candles_def sqlite_bars_def in_window_sort)
next
  case (3 s a tf)
  then have "tf \<in> set HISTORY_TIMEFRAMES \<Longrightarrow> candle_head s a tf = head_instant (sqlite_bars s a tf)"
    unfolding sqlite_history_ready_def by (intro candle_head_eq) blast
  then show ?case by (cases "tf \<in> set HISTORY_TIMEFRAMES")
      (auto simp: sqlite_history_ops_def sqliteHistory_head_def unstoredTimeframe_def)
next
  case (4 s tf a cs frame)
  then have "\<forall>c\<in>set cs. valid_instant (c_openInstant c)" by (auto simp: series_ok_def)
  with sqlite_history_append [OF 4(1) this, of tf a frame] 4 show ?case by (simp add: sqlite_history_ops_def)
next
  case (5 s cs tf a frame)
  then show ?case using sqlite_history_append [OF 5(1,2), of tf a frame] by (auto simp: sqlite_history_ops_def)
qed

lemma fresh_history_ready:
  "\<exists>db. new_SqliteCandleHistory fresh_history_file False = Inr db \<and> sqlite_history_ready db \<and> (\<forall>a tf. sqlite_bars db a tf = [])"
  by (auto simp: new_SqliteCandleHistory_def fresh_history_file_def HISTORY_SCHEMA_VERSION_def
      sqlite_history_ready_def sqlite_bars_def candle_rows_def)

end
