(* ===== verification/HistoryRuns.thy ===== *)
theory HistoryRuns
  imports SqliteHistory
begin

text \<open>
  What the history tells of the stream: a served bar names a range of sequences, and the theorems say
  that it is exactly the candle of the ticks in that range. Two facts about the edges of a read and of
  a refresh follow the theorems: the code looks for holes only inside the window it has read.
\<close>

section \<open>Bars and the ticks they name\<close>

definition named_ticks :: "tick list \<Rightarrow> int \<Rightarrow> int \<Rightarrow> tick list" where
  "named_ticks M lo hi = filter (\<lambda>t. lo \<le> sequence t \<and> sequence t \<le> hi) M"

definition tells :: "tick list \<Rightarrow> candle \<Rightarrow> bool" where
  "tells M b \<longleftrightarrow> (let g = named_ticks M (c_firstSequence b) (c_lastSequence b) in
     g \<noteq> [] \<and> sequence (hd g) = c_firstSequence b \<and> sequence (last g) = c_lastSequence b \<and>
     c_open b = price (hd g) \<and> c_high b = Max (price ` set g) \<and> c_low b = Min (price ` set g) \<and>
     c_close b = price (last g) \<and> c_tickCount b = int (length g) \<and>
     (\<forall>t\<in>set g. bucket (DURATIONS_MS (c_timeframe b)) (instant t) = c_openInstant b))"

text \<open>The same of an accumulator, whose bucket is known apart.\<close>

definition mtells :: "tick list \<Rightarrow> mutable_candle \<Rightarrow> bool" where
  "mtells M m \<longleftrightarrow> (let g = named_ticks M (mc_firstSequence m) (mc_lastSequence m) in
     g \<noteq> [] \<and> sequence (hd g) = mc_firstSequence m \<and> sequence (last g) = mc_lastSequence m \<and>
     mc_open m = price (hd g) \<and> mc_high m = Max (price ` set g) \<and> mc_low m = Min (price ` set g) \<and>
     mc_close m = price (last g) \<and> mc_tickCount m = int (length g))"

lemma tells_freeze:
  "tells M (freeze m i) \<longleftrightarrow> mtells M m \<and>
     (\<forall>t\<in>set (named_ticks M (mc_firstSequence m) (mc_lastSequence m)). bucket (DURATIONS_MS i) (instant t) = mc_openInstant m)"
  by (auto simp: tells_def mtells_def freeze_def Let_def)

lemma named_ticks_split:
  assumes "sorted_wrt (<) (map sequence M)" "lo \<le> mid" "mid < hi"
  shows "named_ticks M lo hi = named_ticks M lo mid @ named_ticks M (mid + 1) hi"
  using assms(1)
proof (induction M)
  case (Cons t M)
  have later: "mid < sequence t \<Longrightarrow> named_ticks M lo mid = []"
    using Cons.prems by (force simp: named_ticks_def filter_empty_conv)
  show ?case using Cons later assms(2,3) by (auto simp: named_ticks_def)
qed (simp add: named_ticks_def)

lemma mtells_merge:
  assumes "sorted_wrt (<) (map sequence M)" "mtells M m" "tells M c" "c_firstSequence c = mc_lastSequence m + 1"
  shows "mtells M (merge_candle m c)"
proof -
  let ?g = "named_ticks M (mc_firstSequence m) (mc_lastSequence m)"
  let ?h = "named_ticks M (mc_lastSequence m + 1) (c_lastSequence c)"
  have g: "?g \<noteq> []" "?h \<noteq> []" using assms(2-4) by (auto simp: mtells_def tells_def Let_def)
  have "hd ?g \<in> set ?g" "last ?h \<in> set ?h" using g by simp_all
  then have "mc_firstSequence m \<le> mc_lastSequence m" "mc_lastSequence m < c_lastSequence c"
    by (auto simp: named_ticks_def)
  then have split: "named_ticks M (mc_firstSequence m) (c_lastSequence c) = ?g @ ?h"
    by (rule named_ticks_split [OF assms(1)])
  let ?G = "named_ticks M (mc_firstSequence m) (c_lastSequence c)"
  have sel: "mc_firstSequence (merge_candle m c) = mc_firstSequence m" "mc_lastSequence (merge_candle m c) = c_lastSequence c"
    "mc_open (merge_candle m c) = mc_open m" "mc_close (merge_candle m c) = c_close c"
    "mc_tickCount (merge_candle m c) = mc_tickCount m + c_tickCount c"
    "mc_high (merge_candle m c) = max (mc_high m) (c_high c)" "mc_low (merge_candle m c) = min (mc_low m) (c_low c)"
    by (simp_all add: merge_candle_def max_def min_def)
  have m: "sequence (hd ?g) = mc_firstSequence m" "mc_open m = price (hd ?g)" "mc_high m = Max (price ` set ?g)"
    "mc_low m = Min (price ` set ?g)" "mc_tickCount m = int (length ?g)"
    using assms(2) by (simp_all add: mtells_def Let_def)
  have c: "sequence (last ?h) = c_lastSequence c" "c_close c = price (last ?h)" "c_high c = Max (price ` set ?h)"
    "c_low c = Min (price ` set ?h)" "c_tickCount c = int (length ?h)"
    using assms(3,4) by (simp_all add: tells_def Let_def)
  show ?thesis unfolding mtells_def Let_def sel split using g
    by (simp add: m(1,2) c(1,2)) (simp add: m(3-5) c(3-5) image_Un Max_Un Min_Un)
qed

lemma mtells_merged:
  assumes "sorted_wrt (<) (map sequence M)" "\<forall>c\<in>set g. tells M c" "touching g" "g \<noteq> []"
  shows "mtells M (merged s g)"
  using assms(2-4)
proof (induction g rule: rev_induct)
  case (snoc c g)
  show ?case
  proof (cases "g = []")
    case True
    then show ?thesis using snoc.prems(1) by (simp add: tells_def mtells_def from_candle_def Let_def)
  next
    case False
    have "mc_lastSequence (merged s g) = c_lastSequence (last g)" by (simp add: merged_def)
    then show ?thesis using snoc False mtells_merge [OF assms(1), of "merged s g" c]
      by (simp add: touching_append)
  qed
qed simp

text \<open>Every tick a touching group names is named by one of its bars.\<close>

lemma named_by_one:
  assumes "touching g" "g \<noteq> []" "c_firstSequence (hd g) \<le> n" "n \<le> c_lastSequence (last g)"
  obtains c where "c \<in> set g" "c_firstSequence c \<le> n" "n \<le> c_lastSequence c"
  using assms
proof (induction g arbitrary: thesis rule: rev_induct)
  case (snoc c g)
  show ?case
  proof (cases "g = [] \<or> c_lastSequence (last g) < n")
    case True
    then have "c_firstSequence c \<le> n" using snoc.prems by (auto simp: touching_append)
    then show ?thesis using snoc.prems by auto
  next
    case False
    then show ?thesis using snoc by (auto simp: touching_append)
  qed
qed simp

lemma tells_whole_over:
  assumes "sorted_wrt (<) (map sequence M)" "\<forall>c\<in>set cs. tells M c \<and> c_timeframe c = f"
    and "nests (timeframe f) (timeframe i)" "whole_over (timeframe i) cs b"
  shows "tells M b"
proof -
  let ?tf = "timeframe i" and ?s = "c_openInstant b"
  let ?g = "group_bars ?tf cs ?s"
  have g: "?g \<noteq> []" "touching ?g" and b: "b = merged_bar ?tf cs ?s" using assms(4) by (simp_all add: whole_over_def)
  have mem: "c \<in> set ?g \<Longrightarrow> c \<in> set cs \<and> bar_bucket ?tf c = ?s" for c by (simp add: group_bars_def)
  have "mtells M (merged ?s ?g)" using assms(2) mem g by (intro mtells_merged [OF assms(1)]) auto
  moreover have "bucket (DURATIONS_MS i) (instant t) = ?s"
    if "t \<in> set (named_ticks M (mc_firstSequence (merged ?s ?g)) (mc_lastSequence (merged ?s ?g)))" for t
  proof -
    have t: "t \<in> set M" "c_firstSequence (hd ?g) \<le> sequence t" "sequence t \<le> c_lastSequence (last ?g)"
      using that by (auto simp: named_ticks_def merged_def)
    obtain c where c: "c \<in> set ?g" "c_firstSequence c \<le> sequence t" "sequence t \<le> c_lastSequence c"
      using named_by_one [OF g(2,1) t(2,3)] by blast
    have "tells M c" "c_timeframe c = f" using mem [OF c(1)] assms(2) by blast+
    then have o: "bucket (DURATIONS_MS f) (instant t) = c_openInstant c"
      using t(1) c(2,3) by (auto simp: tells_def named_ticks_def Let_def)
    have "bucket (DURATIONS_MS i) (bucket (DURATIONS_MS f) (instant t)) = bucket (DURATIONS_MS i) (instant t)"
      using assms(3) by (intro bucket_nested) (simp_all add: nests_dvd)
    then show ?thesis using mem [OF c(1)] o by simp
  qed
  ultimately have "tells M (freeze (merged ?s ?g) i)" unfolding tells_freeze by simp
  then show ?thesis using b by (simp add: merged_bar_def)
qed

lemma ordered_instants:
  "sorted_wrt tick_before M \<Longrightarrow> x \<in> set M \<Longrightarrow> y \<in> set M \<Longrightarrow> sequence x \<le> sequence y \<Longrightarrow> instant x \<le> instant y"
  by (induction M) force+

lemma tells_minute:
  assumes "market_stream_ok M" "b \<in> minutes_of M"
  shows "tells M b"
proof -
  obtain t where t: "t \<in> set M" "b = bucket_candle minute M (minute_start t)"
    using assms(2) by (auto simp: minutes_of_iff)
  let ?g = "bucket_ticks minute M (minute_start t)"
  have ne: "?g \<noteq> []" using t(1) by (auto simp: bucket_ticks_def filter_empty_conv)
  have srt: "sorted_wrt (<) (map sequence M)" "sorted (map instant M)" and o: "sorted_wrt tick_before M"
    using assms(1) ordered_from_sorted [of None M] by (auto simp: market_stream_ok_def ticks_ordered_iff)
  have so: "sorted_wrt tick_before ?g" using o by (simp add: bucket_ticks_def sorted_wrt_filter)
  have mem: "hd ?g \<in> set M" "last ?g \<in> set M" "minute_start (hd ?g) = minute_start t" "minute_start (last ?g) = minute_start t"
    using hd_in_set [OF ne] last_in_set [OF ne] by (auto simp: bucket_ticks_def)
  have "minute_start u = minute_start t \<longleftrightarrow> sequence (hd ?g) \<le> sequence u \<and> sequence u \<le> sequence (last ?g)"
    if u: "u \<in> set M" for u
  proof
    assume "minute_start u = minute_start t"
    then have ug: "u \<in> set ?g" using u by (simp add: bucket_ticks_def)
    have sg: "sorted_wrt (<) (map sequence ?g)" 
      unfolding sorted_wrt_map using so by (rule sorted_wrt_mono_rel [rotated]) simp
    then have "sequence u \<le> sequence (last ?g)" using ug by (rule le_last)
    moreover have "sequence (hd ?g) \<le> sequence u" using sg ug by (cases ?g) auto
    ultimately show "sequence (hd ?g) \<le> sequence u \<and> sequence u \<le> sequence (last ?g)" by simp
  next
    assume r: "sequence (hd ?g) \<le> sequence u \<and> sequence u \<le> sequence (last ?g)"
    have "instant (hd ?g) \<le> instant u" "instant u \<le> instant (last ?g)"
      using ordered_instants [OF o] mem(1,2) u r by auto
    then have "minute_start (hd ?g) \<le> minute_start u" "minute_start u \<le> minute_start (last ?g)"
      by (auto intro!: bucket_mono)
    then show "minute_start u = minute_start t" using mem(3,4) by simp
  qed
  then have "named_ticks M (sequence (hd ?g)) (sequence (last ?g)) = filter (\<lambda>u. minute_start u = minute_start t) M"
    unfolding named_ticks_def by (intro filter_cong refl) blast
  then have named: "named_ticks M (sequence (hd ?g)) (sequence (last ?g)) = ?g" by (simp add: bucket_ticks_def)
  have sel: "c_firstSequence b = sequence (hd ?g)" "c_lastSequence b = sequence (last ?g)" "c_open b = price (hd ?g)"
    "c_high b = Max (price ` set ?g)" "c_low b = Min (price ` set ?g)" "c_close b = price (last ?g)"
    "c_tickCount b = int (length ?g)" "c_timeframe b = HISTORY_BASE_TIMEFRAME" "c_openInstant b = minute_start t"
    unfolding t(2) bucket_candle_def Let_def by simp_all
  have "\<forall>u\<in>set ?g. bucket (DURATIONS_MS HISTORY_BASE_TIMEFRAME) (instant u) = minute_start t"
    by (simp add: bucket_ticks_def)
  then show ?thesis unfolding tells_def Let_def sel named using ne by simp
qed

section \<open>What the venue's history stores and serves\<close>

lemma fresh_history_store:
  assumes "new_SqliteCandleHistory fresh_history_file False = Inr db"
  shows "history_store_ok sqlite_bars sqlite_history_ready M db"
proof -
  have "sqlite_history_ready db" "\<And>a tf. sqlite_bars db a tf = []" using fresh_history_ready assms by auto
  then show ?thesis by (simp add: history_store_ok_def hours_ok_def hours_aligned_def)
qed

lemma empty_history_store: "history_store_ok memory_bars memory_history_ready M empty_history"
proof -
  have "memory_bars empty_history a tf = []" for a tf by (simp add: memory_bars_def empty_history_def held_def)
  then show ?thesis using empty_history_ready by (simp add: history_store_ok_def hours_ok_def hours_aligned_def)
qed

text \<open>The minutes and hours of a store against the stream: every minute bar is a whole minute, the minutes
  ascend, and every hour is whole over them.\<close>

definition tiers_whole :: "tick list \<Rightarrow> candle list \<Rightarrow> candle list \<Rightarrow> bool" where
  "tiers_whole M minutes hours \<longleftrightarrow> (\<forall>b\<in>set minutes. b \<in> minutes_of M) \<and>
     sorted_wrt (<) (map c_openInstant minutes) \<and> (\<forall>h\<in>set hours. whole_over (timeframe TF_1h) minutes h)"

context candle_history
begin

lemma reached_tiers_whole:
  assumes "history_reach ops frame_of M init S pos" "store_ok M init" "\<forall>a. market_stream_ok (M a)"
  shows "tiers_whole (M a) (bars (hs_history S) a TF_1m) (bars (hs_history S) a TF_1h)"
proof -
  have ok: "store_ok M (hs_history S)" using history_reach_ok [OF assms] by simp
  then have "series_ok TF_1m (bars (hs_history S) a TF_1m)"
    using series [of "hs_history S" TF_1m a] by (simp add: history_store_ok_def)
  then show ?thesis using ok
    by (auto simp: tiers_whole_def history_store_ok_def hours_ok_def series_ok_def HISTORY_ROLLUP_TIMEFRAME_def)
qed

end

text \<open>C34: Over either store, from an empty history and over gapless streams, through any process lives, feeds,
  primings and flushes, failed ones included, every stored minute is a whole minute of the asset's stream,
  in order, and every stored hour is whole over the stored minutes: all of the hour's, touching in
  sequence, and behind the newest.\<close>

theorem stored_minutes_whole:
  assumes "\<forall>a. market_stream_ok (M a)"
  shows "(history_reach memory_history_ops frame_of M empty_history S pos \<longrightarrow>
      tiers_whole (M a) (memory_bars (hs_history S) a TF_1m) (memory_bars (hs_history S) a TF_1h)) \<and>
    (new_SqliteCandleHistory fresh_history_file False = Inr db \<and> history_reach sqlite_history_ops frame_of M db T pos' \<longrightarrow>
      tiers_whole (M a) (sqlite_bars (hs_history T) a TF_1m) (sqlite_bars (hs_history T) a TF_1h))"
  using memory_hist.reached_tiers_whole [OF _ empty_history_store assms]
    sqlite_hist.reached_tiers_whole [OF _ fresh_history_store assms] by blast

text \<open>C35: What a read of the venue's history answers, from a fresh SQLite file and over gapless streams, at any timeframe from the minute up: bars in time order,
  inside the window, their bucket behind the newest stored bar, each of them exactly the candle of the
  published ticks it names by its sequences.\<close>

theorem served_bars_tell_their_ticks:
  assumes "new_SqliteCandleHistory fresh_history_file False = Inr db" "\<forall>a. market_stream_ok (M a)"
    and "history_reach sqlite_history_ops frame_of M db S pos" "valid_instant from1" "valid_instant to1"
    and "readTimeframe sqlite_history_ops (hs_history S) a target from1 to1 = Inr out"
  shows "sorted_wrt (<) (map c_openInstant out) \<and> (\<forall>b\<in>set out.
    from1 \<le> c_openInstant b \<and> c_openInstant b < to1 \<and> c_timeframe b = target \<and> tells (M a) b \<and>
    (\<exists>h. head_instant (sqlite_bars (hs_history S) a (source_of target)) = Some h \<and>
       c_openInstant b + DURATIONS_MS target \<le> h + DURATIONS_MS (source_of target)))"
proof -
  let ?s = "hs_history S" and ?M = "M a"
  have ok: "history_store_ok sqlite_bars sqlite_history_ready M ?s"
    using sqlite_hist.history_reach_ok [OF assms(3) fresh_history_store [OF assms(1)] assms(2)] by simp
  then have r: "sqlite_history_ready ?s" and h: "hours_ok (sqlite_bars ?s a TF_1m) (sqlite_bars ?s a TF_1h)"
    and m: "set (sqlite_bars ?s a TF_1m) \<subseteq> minutes_of ?M" by (simp_all add: history_store_ok_def)
  have srt: "sorted_wrt (<) (map sequence ?M)" using assms(2) by (simp add: market_stream_ok_def ticks_ordered_iff)
  have tm: "\<forall>c\<in>set (sqlite_bars ?s a TF_1m). tells ?M c \<and> c_timeframe c = TF_1m"
    using m tells_minute minutes_of_bar assms(2) by blast
  have th: "\<forall>c\<in>set (sqlite_bars ?s a TF_1h). tells ?M c \<and> c_timeframe c = TF_1h"
    using h tells_whole_over [OF srt tm, of TF_1h] sqlite_hist.series [OF r, of TF_1h a]
    by (auto simp: hours_ok_def series_ok_def nests_dvd HISTORY_ROLLUP_TIMEFRAME_def)
  have src: "\<forall>c\<in>set (sqlite_bars ?s a (source_of target)). tells ?M c \<and> c_timeframe c = source_of target"
    by (rule disjE [OF source_stored [of target]]) (use tm th in simp_all)
  have coarse: "isCoarserOrEqual (timeframe target) minute"
    using assms(6) by (auto simp: readTimeframe_def Let_def andThen_Inr_iff)
  note R = sqlite_hist.readTimeframe_whole [OF r assms(4,5,6)]
  have "tells ?M b" if "b \<in> set out" for b
  proof (cases "source_of target = target")
    case True
    then show ?thesis using R that src by auto
  next
    case False
    then have "whole_over (timeframe target) (sqlite_bars ?s a (source_of target)) b" using R that by auto
    from tells_whole_over [OF srt src source_nests [OF coarse] this] show ?thesis .
  qed
  then show ?thesis using R by blast
qed

abbreviation demo_stream :: "string \<Rightarrow> tick list" where
  "demo_stream \<equiv> (\<lambda>a. if a = ''x'' then [\<lparr>instant = 5000, sequence = 1, price = 7\<rparr>,
     \<lparr>instant = 30000, sequence = 2, price = 9\<rparr>, \<lparr>instant = 65000, sequence = 3, price = 4\<rparr>] else [])"

abbreviation demo_minute :: candle where
  "demo_minute \<equiv> \<lparr>c_openInstant = 0, c_timeframe = TF_1m, c_open = 7, c_high = 9, c_low = 7, c_close = 9,
     c_tickCount = 2, c_firstSequence = 1, c_lastSequence = 2\<rparr>"

abbreviation demo_history :: sqlite_history where
  "demo_history \<equiv> \<lparr>sh_readOnly = False, sh_version = 2, sh_candle = [], sh_lattice = Some []\<rparr>"

lemma demo_stream_ok: "\<forall>a. market_stream_ok (demo_stream a)"
  by (simp add: market_stream_ok_def assertTickOrder_Some FIRST_SEQUENCE_history_def valid_instant_def MAX_EPOCH_MILLIS_def)

lemma demo_open: "new_SqliteCandleHistory fresh_history_file False = Inr demo_history"
  by (simp add: new_SqliteCandleHistory_def fresh_history_file_def HISTORY_SCHEMA_VERSION_def)

lemma demo_fed:
  "\<exists>r. observe_ticks_of ''x'' (demo_stream ''x'') (new_HistoryService demo_history) =
     (\<lparr>hs_history = demo_history, hs_recorders = [(''x'', r)], hs_reported = {}\<rparr>, Inr ()) \<and>
     \<not> started r \<and> (\<exists>r'. continueAfter None r = (r', Inr ()) \<and>
       (\<exists>r''. drain r' = (r'', Inr [demo_minute])))"
  by (simp add: observe_ticks_of_def new_HistoryService_def new_recorder_def new_aggregator_def accept_tick_def
      open_first_def accept_def bucketStart_eq valid_instant_def MAX_EPOCH_MILLIS_def bucket_def
      HISTORY_BASE_TIMEFRAME_def decideFirst_def continueAfter_def drain_def assertTickOrder_def open_candle_def
      extend_candle_def freeze_def Let_def started_def FIRST_SEQUENCE_history_def)

lemma demo_flushed:
  assumes "\<not> started r" "continueAfter None r = (r', Inr ())" "drain r' = (r'', Inr [demo_minute])"
  shows "\<exists>S. flush_history sqlite_history_ops (\<lambda>_ _. Inr None) \<lparr>hs_history = demo_history, hs_recorders = [(''x'', r)], hs_reported = {}\<rparr> = (S, Inr ()) \<and>
    hs_history S = demo_history\<lparr>sh_candle := [(''x'', demo_minute)]\<rparr>"
proof -
  have empty: "sqlite_history_ready demo_history" "\<And>a tf. sqlite_bars demo_history a tf = []"
    using fresh_history_ready demo_open by auto
  have lst: "lastStoredSequence sqlite_history_ops demo_history ''x'' = Inr None"
    by (simp add: lastStoredSequence_def sqlite_history_ops_def sqliteHistory_head_def candle_head_def candle_rows_def
        unstoredTimeframe_def HISTORY_BASE_TIMEFRAME_def)
  let ?db = "demo_history\<lparr>sh_candle := [(''x'', demo_minute)]\<rparr>"
  have w: "write_runs sqlite_history_ops (\<lambda>_. Inr None) ''x'' [demo_minute] [] None demo_history = (?db, Inr ())"
    by (simp add: write_run_def sqlite_history_ops_def sqliteHistory_append_def unstoredTimeframe_def Let_def
        sqlite_note_frame_def candle_head_def candle_rows_def insert_candle_def)
  have b: "sqlite_bars ?db ''x'' TF_1m = [demo_minute]" "sqlite_bars ?db ''x'' TF_1h = []"
    by (simp_all add: sqlite_bars_def candle_rows_def)
  have "sqlite_history_ready ?db"
    by (auto simp: sqlite_history_ready_def sqlite_bars_def candle_rows_def series_ok_def valid_instant_def MAX_EPOCH_MILLIS_def)
  then obtain s' where rr: "refreshRollup sqlite_history_ops ''x'' ?db = (?db, Inr 0)"
  proof -
    have "rolled [demo_minute] [] = []"
      by (rule rolled_Nil) (simp add: rollup_window_def head_instant_def last_option_def bucket_def)
    then have "rollup_hours sqlite_history_ops ?db ''x'' = Inr []"
      using sqlite_hist.rollup_hours_eq [OF \<open>sqlite_history_ready ?db\<close>, of "''x''"] b by simp
    then show ?thesis using that by (simp add: refreshRollup_def)
  qed
  show ?thesis using assms lst w rr
    by (simp add: flush_history_def flush_asset_def Let_def told_recorder_def)
qed

lemma demo_reached:
  "\<exists>S pos. history_reach sqlite_history_ops (\<lambda>_ _. Inr None) demo_stream demo_history S pos \<and>
     hs_history S = demo_history\<lparr>sh_candle := [(''x'', demo_minute)]\<rparr>"
proof -
  obtain r r' r'' where 1: "observe_ticks_of ''x'' (demo_stream ''x'') (new_HistoryService demo_history) =
     (\<lparr>hs_history = demo_history, hs_recorders = [(''x'', r)], hs_reported = {}\<rparr>, Inr ())"
    "\<not> started r" "continueAfter None r = (r', Inr ())" "drain r' = (r'', Inr [demo_minute])"
    using demo_fed by blast
  obtain S where S: "flush_history sqlite_history_ops (\<lambda>_ _. Inr None) \<lparr>hs_history = demo_history, hs_recorders = [(''x'', r)], hs_reported = {}\<rparr> = (S, Inr ())"
    "hs_history S = demo_history\<lparr>sh_candle := [(''x'', demo_minute)]\<rparr>"
    using demo_flushed [OF 1(2-4)] by blast
  have "history_reach sqlite_history_ops (\<lambda>_ _. Inr None) demo_stream demo_history
    \<lparr>hs_history = demo_history, hs_recorders = [(''x'', r)], hs_reported = {}\<rparr> (Map.empty(''x'' \<mapsto> if Inr () = (Inr () :: unit result) then 0 + 3 else length (demo_stream ''x'')))"
    by (rule history_reach.observed [OF history_reach.begun _ _ _ 1(1), where i = 0 and n = 3]) simp_all
  from history_reach.flushed [OF this S(1)] S(2) show ?thesis by blast
qed

theorem stored_minutes_whole_witness:
  "\<exists>S :: sqlite_history history_service. demo_minute \<in> set (sqlite_bars (hs_history S) ''x'' TF_1m) \<and>
    tiers_whole (demo_stream ''x'') (sqlite_bars (hs_history S) ''x'' TF_1m) (sqlite_bars (hs_history S) ''x'' TF_1h) \<and>
    tiers_whole (demo_stream ''x'') (memory_bars empty_history ''x'' TF_1m) (memory_bars empty_history ''x'' TF_1h)"
proof -
  obtain S pos where S: "history_reach sqlite_history_ops (\<lambda>_ _. Inr None) demo_stream demo_history S pos"
      "hs_history S = demo_history\<lparr>sh_candle := [(''x'', demo_minute)]\<rparr>" using demo_reached by blast
  have m: "demo_minute \<in> set (sqlite_bars (hs_history S) ''x'' TF_1m)" by (simp add: S(2) candle_rows_def)
  have b: "history_reach memory_history_ops (\<lambda>_ _. Inr None) demo_stream empty_history (new_HistoryService empty_history) (\<lambda>_. None)"
    by (rule history_reach.begun)
  have "tiers_whole (demo_stream ''x'') (sqlite_bars (hs_history S) ''x'' TF_1m) (sqlite_bars (hs_history S) ''x'' TF_1h) \<and>
    tiers_whole (demo_stream ''x'') (memory_bars empty_history ''x'' TF_1m) (memory_bars empty_history ''x'' TF_1h)"
    using stored_minutes_whole [OF demo_stream_ok, of "\<lambda>_ _. Inr None" "new_HistoryService empty_history" "\<lambda>_. None" "''x''"
        demo_history S pos] b S(1) demo_open by (simp add: new_HistoryService_def)
  with m show ?thesis by blast
qed

theorem served_bars_tell_their_ticks_witness:
  "\<exists>S :: sqlite_history history_service. readTimeframe sqlite_history_ops (hs_history S) ''x'' TF_1m 0 60000 = Inr [demo_minute] \<and> tells (demo_stream ''x'') demo_minute"
proof -
  obtain S pos where S: "history_reach sqlite_history_ops (\<lambda>_ _. Inr None) demo_stream demo_history S pos"
      "hs_history S = demo_history\<lparr>sh_candle := [(''x'', demo_minute)]\<rparr>" using demo_reached by blast
  have v: "valid_instant 0" "valid_instant 60000" by (simp_all add: valid_instant_def MAX_EPOCH_MILLIS_def)
  have "readTimeframe sqlite_history_ops (hs_history S) ''x'' TF_1m 0 60000 = Inr [demo_minute]"
    by (simp add: S(2) readTimeframe_def Let_def isCoarserOrEqual_def nests_dvd HISTORY_BASE_TIMEFRAME_def
        HISTORY_ROLLUP_TIMEFRAME_def bucketStart_eq valid_instant_def MAX_EPOCH_MILLIS_def epochMillis_num bucket_def
        sqlite_history_ops_def sqliteHistory_read_def sqliteHistory_head_def unstoredTimeframe_def read_candles_def
        candle_rows_def candle_head_def keeps_bar_def leading_checked_def beginsWhole_def)
  with served_bars_tell_their_ticks [OF demo_open demo_stream_ok S(1) v this] show ?thesis by auto
qed

section \<open>At the edges of what was read\<close>

text \<open>Three minutes of an asset: ticks 51 to 60 are missing between the first two, which lie in different hours.\<close>

abbreviation minute_bar :: "int \<Rightarrow> int \<Rightarrow> int \<Rightarrow> candle" where
  "minute_bar t n k \<equiv> \<lparr>c_openInstant = t, c_timeframe = TF_1m, c_open = 1, c_high = 1, c_low = 1, c_close = 1,
     c_tickCount = k - n + 1, c_firstSequence = n, c_lastSequence = k\<rparr>"

abbreviation memory_with :: "candle list \<Rightarrow> candle list \<Rightarrow> memory_history" where
  "memory_with ms hs \<equiv> \<lparr>mh_series = [(history_key ''x'' TF_1m, ms), (history_key ''x'' TF_1h, hs)], mh_frames = []\<rparr>"

abbreviation hour_of :: "candle \<Rightarrow> candle" where
  "hour_of m \<equiv> merged_bar hour [m] (bucket 3600000 (c_openInstant m))"

lemma memory_with_bars [simp]:
  "memory_bars (memory_with ms hs) ''x'' TF_1m = ms" "memory_bars (memory_with ms hs) ''x'' TF_1h = hs"
  by (simp_all add: memory_bars_def held_def)

lemma memory_with_ready:
  assumes "series_ok TF_1m ms" "series_ok TF_1h hs"
  shows "memory_history_ready (memory_with ms hs)"
  using assms by (auto simp: memory_history_ready_def memory_bars_def held_def)

lemma memory_with_refreshed:
  assumes "series_ok TF_1m ms" "series_ok TF_1h hs" "rolled ms hs = []"
  shows "refreshRollup memory_history_ops ''x'' (memory_with ms hs) = (memory_with ms hs, Inr 0)"
  using memory_hist.rollup_hours_eq [OF memory_with_ready [OF assms(1,2)], of "''x''"] assms(3)
  by (simp add: refreshRollup_def)

lemma memory_with_rolled:
  assumes "series_ok TF_1m ms" "series_ok TF_1h hs" "rolled ms hs = new" "new \<noteq> []" "series_ok TF_1h (hs @ new)"
  shows "refreshRollup memory_history_ops ''x'' (memory_with ms hs) = (memory_with ms (hs @ new), Inr (length new))"
proof -
  have "append_loop TF_1h new hs (last_option hs) = Inr (hs @ new)"
    using append_loop_ok [OF assms(2) refl, of new] assms(5) by (auto simp: series_ok_append series_ok_def)
  then show ?thesis
    using memory_hist.rollup_hours_eq [OF memory_with_ready [OF assms(1,2)], of "''x''"] assms(3,4)
    by (simp add: refreshRollup_def memory_history_ops_def memoryHistory_append_def memory_note_frame_def
        unstoredTimeframe_def held_def Let_def HISTORY_ROLLUP_TIMEFRAME_def)
qed

text \<open>The hour tier depends on when it is refreshed: a hole between two hours is seen by a refresh that reads
  both minutes, and by none of two refreshes that read one each. Each of them then stores its hour.\<close>

theorem rollup_depends_on_cadence:
  fixes m58 m60 m120 :: candle
  defines "m58 \<equiv> minute_bar 3480000 1 50" and "m60 \<equiv> minute_bar 3600000 61 70" and "m120 \<equiv> minute_bar 7200000 71 80"
  shows "refreshRollup memory_history_ops ''x'' (memory_with [m58, m60] []) = (memory_with [m58, m60] [hour_of m58], Inr 1)"
    "refreshRollup memory_history_ops ''x'' (memory_with [m58, m60, m120] [hour_of m58]) =
       (memory_with [m58, m60, m120] [hour_of m58, hour_of m60], Inr 1)"
    "refreshRollup memory_history_ops ''x'' (memory_with [m58, m60, m120] []) = (memory_with [m58, m60, m120] [], Inr 0)"
proof -
  note defs = m58_def m60_def m120_def
  have ok: "series_ok TF_1m [m58, m60]" "series_ok TF_1m [m58, m60, m120]"
    by (simp_all add: defs series_ok_def valid_instant_def MAX_EPOCH_MILLIS_def)
  have h: "series_ok TF_1h [hour_of m58]" "series_ok TF_1h ([hour_of m58] @ [hour_of m60])"
    by (simp_all add: defs series_ok_def valid_instant_def MAX_EPOCH_MILLIS_def bucket_def HISTORY_ROLLUP_TIMEFRAME_def)
  have o: "c_openInstant m58 = 3480000" "c_openInstant m60 = 3600000" "c_openInstant m120 = 7200000"
    "c_firstSequence m58 = 1" "c_lastSequence m58 = 50" "c_firstSequence m60 = 61" by (simp_all add: defs)
  have r1: "rolled [m58, m60] [] = [hour_of m58]"
    by (simp add: rolled_def rollup_window_def head_instant_def last_option_def vouched_def bucket_def Let_def o
        bar_starts_def beginsWhole_def FIRST_SEQUENCE_history_def)
  have r2: "rolled [m58, m60, m120] [hour_of m58] = [hour_of m60]"
    by (simp add: rolled_def rollup_window_def head_instant_def last_option_def vouched_def bucket_def Let_def o bar_starts_def)
  have r3: "rolled [m58, m60, m120] [] = []"
    by (rule rolled_Nil) (simp add: rollup_window_def head_instant_def last_option_def vouched_def bucket_def o)
  show "refreshRollup memory_history_ops ''x'' (memory_with [m58, m60] []) = (memory_with [m58, m60] [hour_of m58], Inr 1)"
    using memory_with_rolled [OF ok(1) _ r1] h(1) by simp
  show "refreshRollup memory_history_ops ''x'' (memory_with [m58, m60, m120] [hour_of m58]) =
       (memory_with [m58, m60, m120] [hour_of m58, hour_of m60], Inr 1)"
    using memory_with_rolled [OF ok(2) h(1) r2 _ h(2)] by simp
  show "refreshRollup memory_history_ops ''x'' (memory_with [m58, m60, m120] []) = (memory_with [m58, m60, m120] [], Inr 0)"
    by (rule memory_with_refreshed [OF ok(2) _ r3]) simp
qed

text \<open>A read looks for holes between the bars of its window: the same five minutes are withheld when the
  window begins before the hole and served, from one minute of them, when it begins inside it.\<close>

theorem read_depends_on_window:
  fixes m9 m11 m20 :: candle
  defines "m9 \<equiv> minute_bar 540000 1 10" and "m11 \<equiv> minute_bar 660000 31 40" and "m20 \<equiv> minute_bar 1200000 41 50"
  shows "readTimeframe memory_history_ops (memory_with [m9, m11, m20] []) ''x'' TF_5m 300000 900000 = Inr []"
    "readTimeframe memory_history_ops (memory_with [m9, m11, m20] []) ''x'' TF_5m 600000 900000 =
       Inr [merged_bar (timeframe TF_5m) [m11] 600000]"
proof -
  have ok: "series_ok TF_1m [m9, m11, m20]"
    by (simp add: m9_def m11_def m20_def series_ok_def valid_instant_def MAX_EPOCH_MILLIS_def)
  have o: "c_openInstant m9 = 540000" "c_openInstant m11 = 660000" "c_openInstant m20 = 1200000" "c_firstSequence m9 = 1"
    "c_lastSequence m9 = 10" "c_firstSequence m11 = 31" by (simp_all add: m9_def m11_def m20_def)
  have src: "source_of TF_5m = TF_1m" by (simp add: source_of_def nests_dvd HISTORY_ROLLUP_TIMEFRAME_def)
  have c: "isCoarserOrEqual (timeframe TF_5m) minute" by (simp add: isCoarserOrEqual_def)
  have v: "valid_instant 300000" "valid_instant 600000" "valid_instant 900000"
    "valid_instant (bucket (DURATIONS_MS TF_5m) 900000 + DURATIONS_MS TF_5m)"
    by (simp_all add: valid_instant_def MAX_EPOCH_MILLIS_def bucket_def)
  have r: "memory_history_ready (memory_with [m9, m11, m20] [])" by (rule memory_with_ready [OF ok]) simp
  have k1: "kept_bars TF_5m 300000 900000 [m9, m11, m20] = []"
    by (simp add: kept_bars_def read_window_def Let_def src bucket_def o bar_starts_def keeps_bar_def head_instant_def last_option_def)
  show "readTimeframe memory_history_ops (memory_with [m9, m11, m20] []) ''x'' TF_5m 300000 900000 = Inr []"
    using memory_hist.readTimeframe_eq [OF r v(1,3,4) c, of "''x''"] k1 by (simp add: src leading_checked_def)
  have w: "read_window TF_5m 600000 900000 [m9, m11, m20] = [m11]" by (simp add: read_window_def bucket_def o)
  have k2: "kept_bars TF_5m 600000 900000 [m9, m11, m20] = [merged_bar (timeframe TF_5m) [m11] 600000]"
    by (simp add: kept_bars_def w Let_def src bucket_def o bar_starts_def keeps_bar_def head_instant_def last_option_def)
  have "h_read memory_history_ops (memory_with [m9, m11, m20] []) ''x'' TF_1m 300000 600000 = Inr [m9]"
    using memory_hist.reads [OF r, of "''x''" TF_1m 300000 600000] o by (simp add: unless_Inr)
  then have "leading_checked memory_history_ops (memory_with [m9, m11, m20] []) ''x'' (timeframe TF_1m) (timeframe TF_5m)
      [m11] [merged_bar (timeframe TF_5m) [m11] 600000] = Inr [merged_bar (timeframe TF_5m) [m11] 600000]"
    by (simp add: leading_checked_def epochMillis_num valid_instant_def MAX_EPOCH_MILLIS_def)
  then show "readTimeframe memory_history_ops (memory_with [m9, m11, m20] []) ''x'' TF_5m 600000 900000 =
       Inr [merged_bar (timeframe TF_5m) [m11] 600000]"
    using memory_hist.readTimeframe_eq [OF r v(2,3,4) c, of "''x''"] by (simp add: src w k2)
qed

text \<open>A batch that is refused leaves its frame behind: the epoch is filed before the bars are looked at.\<close>

theorem refused_batch_leaves_frame:
  assumes "fr = \<lparr>fr_logQuantum = num 1, fr_referencePrice = num 1, fr_displayPrecision = num 2\<rparr>"
  shows "\<exists>m e. h_append memory_history_ops empty_history ''x'' TF_5m [minute_bar 60000 1 2] (Some fr) = (m, Inl e) \<and>
    h_frames memory_history_ops m ''x'' = [candle_epoch ''x'' (minute_bar 60000 1 2) fr]"
  using assms
  by (simp add: memory_history_ops_def memoryHistory_append_def memory_note_frame_def empty_history_def held_def last_option_def
      epochMillis_num valid_instant_def MAX_EPOCH_MILLIS_def unstoredTimeframe_def memoryHistory_frames_def Let_def)

text \<open>A stream that was refused as a restart behind the stored head is written by the next flush: the
  refusal is remembered as having been told.\<close>

lemma refused_recorder_is_started:
  assumes "continueAfter k r = (r', Inl e)" "hr_continuesAfter r = None"
  shows "started r' \<and> hr_closed r' = hr_closed r \<and> drain r' = (r'\<lparr>hr_closed := []\<rparr>, Inr (hr_closed r))"
  using assms by (auto simp: continueAfter_def decideFirst_def started_def drain_def Let_def split: option.splits if_splits)

text \<open>Bars drained for a flush whose append is refused are in neither the recorder nor the history.\<close>

theorem failed_flush_loses_bars:
  assumes "map_of (hs_recorders S) a = Some r" "started r" "hr_closed r \<noteq> []"
    and "\<And>s a tf cs fr. h_append ops s a tf cs fr = (s, Inl e)"
  shows "\<exists>S'. flush_asset ops (\<lambda>_ _. Inr None) a S = (S', Inl e) \<and> hs_history S' = hs_history S \<and>
    map_of (hs_recorders S') a = Some (r\<lparr>hr_closed := []\<rparr>)"
proof -
  have w: "run @ bars \<noteq> [] \<Longrightarrow> (run \<noteq> [] \<longrightarrow> fr = None) \<Longrightarrow>
      write_runs ops (\<lambda>_. Inr None) a bars run fr s = (s, Inl e)" for run bars fr s
    by (induction bars arbitrary: run fr) (auto simp: write_run_def assms(4))
  have "drain r = (r\<lparr>hr_closed := []\<rparr>, Inr (hr_closed r))" using assms(2) by (simp add: drain_def started_def)
  then show ?thesis using assms(1-3) w [of "[]" "hr_closed r" None "hs_history S"]
    by (simp add: flush_asset_def told_recorder_def Let_def update_conv')
qed

end
