(* ===== verification/Portable.thy ===== *)
theory Portable
  imports JsNumber
begin

unbundle bit_operations_syntax

text \<open>
  The portable elementary functions: packages/core/src/math/bits.ts, the bit pattern of a double,
  and packages/core/src/math/portable.ts, \<^verbatim>\<open>exp\<close>, \<^verbatim>\<open>ln\<close> and \<^verbatim>\<open>pow\<close> built from it and from
  the four rounded operations. A typed array over one buffer is the pair of conversions between
  a Number and its 64 bits; the order of the two words in memory, which the code detects, does
  not show in them. A literal is rounded once, as the language reads it.

  The lemmas show that scaling by a power of two is exact wherever its result is a double, and
  bound the exponential by directed rounding: a rounded result stays inside every interval with
  representable ends that the exact one lies in.
\<close>

section \<open>Bit patterns\<close>

definition lit :: "int \<Rightarrow> nat \<Rightarrow> jsnum" where
  "lit m e = js_of_rat (of_int m / 10 ^ e)"

text \<open>The 64 bits of the double nearest to a magnitude that is one.\<close>

definition magnitude_bits :: "rat \<Rightarrow> int" where
  "magnitude_bits x = (if x < pow2 (- 1022) then \<lfloor>x / pow2 (- 1074)\<rfloor>
     else let e = mag_exp x in (e + 1022) * 2 ^ 52 + \<lfloor>x / pow2 (e - 52)\<rfloor>)"

fun encode64 :: "jsnum \<Rightarrow> int" where
  "encode64 NaN = 0x7FF8000000000000"
| "encode64 PosInf = 0x7FF0000000000000"
| "encode64 NegInf = 0xFFF0000000000000"
| "encode64 (Fin x) = (if x < 0 then 2 ^ 63 + magnitude_bits (- x) else magnitude_bits x)"

definition decode64 :: "int \<Rightarrow> jsnum" where
  "decode64 b =
     (let negative = 2 ^ 63 \<le> b; e = b div 2 ^ 52 mod 2 ^ 11; m = b mod 2 ^ 52;
          v = (if e = 2047 then (if m = 0 then PosInf else NaN)
               else if e = 0 then Fin (of_int m * pow2 (- 1074))
               else Fin (of_int (2 ^ 52 + m) * pow2 (e - 1075))) in
      if negative then js_neg v else v)"

definition highWord :: "jsnum \<Rightarrow> int" where
  "highWord v = encode64 v div 2 ^ 32"

definition lowWord :: "jsnum \<Rightarrow> int" where
  "lowWord v = encode64 v mod 2 ^ 32"

definition fromWords :: "int \<Rightarrow> int \<Rightarrow> jsnum" where
  "fromWords high low = decode64 (high mod 2 ^ 32 * 2 ^ 32 + low mod 2 ^ 32)"

definition withHighWord :: "jsnum \<Rightarrow> int \<Rightarrow> jsnum" where
  "withHighWord v high = decode64 (high mod 2 ^ 32 * 2 ^ 32 + lowWord v)"

definition TWO_POW_1023 :: jsnum where "TWO_POW_1023 = fromWords 0x7fe00000 0"

definition TWO_POW_MINUS_1022 :: jsnum where "TWO_POW_MINUS_1022 = fromWords 0x00100000 0"

text \<open>The two loops of the scaling: \<open>Inl\<close> is a return from inside one.\<close>

function scale_up :: "jsnum \<Rightarrow> int \<Rightarrow> jsnum + jsnum \<times> int" where
  "scale_up x n = (if 1023 < n then
     (let y = js_mul x TWO_POW_1023 in if \<not> isFinite y then Inl y else scale_up y (n - 1023))
   else Inr (x, n))"
  by pat_completeness auto
termination
  by (relation "measure (\<lambda>(x, n). nat n)") auto

function scale_down :: "jsnum \<Rightarrow> int \<Rightarrow> jsnum + jsnum \<times> int" where
  "scale_down x n = (if n < - 1022 then
     (let y = js_mul x TWO_POW_MINUS_1022 in if y = Fin 0 then Inl y else scale_down y (n + 1022))
   else Inr (x, n))"
  by pat_completeness auto
termination
  by (relation "measure (\<lambda>(x, n). nat (- n))") auto

declare scale_up.simps [simp del] scale_down.simps [simp del]

definition scaled :: "jsnum \<Rightarrow> int \<Rightarrow> jsnum" where
  "scaled value exponent =
     (if \<not> isFinite value \<or> value = Fin 0 then value
      else case scale_up value exponent of Inl y \<Rightarrow> y
        | Inr (x, n) \<Rightarrow> (case scale_down x n of Inl y \<Rightarrow> y
            | Inr (x, n) \<Rightarrow> js_mul x (fromWords (push_bit 20 (n + 1023)) 0)))"

definition scaleByPowerOfTwo :: "jsnum \<Rightarrow> jsnum \<Rightarrow> jsnum result" where
  "scaleByPowerOfTwo value exponent =
     (if (isFinite value \<and> value \<noteq> Fin 0) \<and> \<not> isInteger exponent then Inl (RangeError ''Exponent'')
      else Inr (scaled value (int_of exponent)))"

section \<open>The exponential\<close>

fun js_trunc :: "jsnum \<Rightarrow> jsnum" where
  "js_trunc (Fin x) = num (if x < 0 then \<lceil>x\<rceil> else \<lfloor>x\<rfloor>)"
| "js_trunc v = v"

definition LN2_HI :: jsnum where "LN2_HI = lit 69314718036912381649 20"
definition LN2_LO :: jsnum where "LN2_LO = lit 190821492927058770002 30"
definition INV_LN2 :: jsnum where "INV_LN2 = lit 1442695040888963387 18"
definition EXP_P1 :: jsnum where "EXP_P1 = lit 166666666666666019037 21"
definition EXP_P2 :: jsnum where "EXP_P2 = lit (- 277777777770155933842) 23"
definition EXP_P3 :: jsnum where "EXP_P3 = lit 661375632143793436117 25"
definition EXP_P4 :: jsnum where "EXP_P4 = lit (- 16533902205465251539) 25"
definition EXP_P5 :: jsnum where "EXP_P5 = lit 413813679705723846039 28"
definition EXP_OVERFLOW :: jsnum where "EXP_OVERFLOW = lit 709782712893383973096 18"
definition EXP_UNDERFLOW :: jsnum where "EXP_UNDERFLOW = lit (- 74513321910194110842) 17"
definition HALF_LN2 :: jsnum where "HALF_LN2 = lit 34657359027997264 17"
definition ONE_AND_HALF_LN2 :: jsnum where "ONE_AND_HALF_LN2 = lit 10397207708399179 16"
definition TWO_POW_MINUS_28 :: jsnum where "TWO_POW_MINUS_28 = lit 3725290298461914 24"

text \<open>The reduction of the argument: \<open>(k, hi, lo)\<close> with the argument about \<open>k\<close> times the logarithm
  of two plus \<open>hi - lo\<close>.\<close>

definition reduce_exp :: "jsnum \<Rightarrow> int \<times> jsnum \<times> jsnum" where
  "reduce_exp x =
     (let absX = (if js_lt x (num 0) then js_neg x else x) in
      if js_lt absX ONE_AND_HALF_LN2 then
        (if js_lt (num 0) x then (1, js_sub x LN2_HI, LN2_LO)
         else (- 1, js_add x LN2_HI, js_neg LN2_LO))
      else
        let k = js_trunc (js_add (js_mul INV_LN2 x) (if js_lt (num 0) x then lit 5 1 else lit (- 5) 1));
            t = k in
        (int_of k, js_sub x (js_mul t LN2_HI), js_mul t LN2_LO))"

definition exp_series :: "jsnum \<Rightarrow> jsnum" where
  "exp_series r = (let t = js_mul r r in
     js_sub r (js_mul t (js_add EXP_P1 (js_mul t (js_add EXP_P2 (js_mul t (js_add EXP_P3 (js_mul t
       (js_add EXP_P4 (js_mul t EXP_P5))))))))))"

definition exp_js :: "jsnum \<Rightarrow> jsnum" where
  "exp_js x =
     (if x = NaN then NaN
      else if x = PosInf then PosInf
      else if x = NegInf then num 0
      else if js_lt EXP_OVERFLOW x then PosInf
      else if js_lt x EXP_UNDERFLOW then num 0
      else let absX = (if js_lt x (num 0) then js_neg x else x) in
        if js_lt HALF_LN2 absX then
          (let (k, hi, lo) = reduce_exp x; r = js_sub hi lo; c = exp_series r in
           if k = 0 then js_sub (num 1) (js_sub (js_div (js_mul r c) (js_sub c (num 2))) r)
           else scaled (js_sub (num 1)
             (js_sub (js_sub lo (js_div (js_mul r c) (js_sub (num 2) c))) hi)) k)
        else if js_lt absX TWO_POW_MINUS_28 then js_add (num 1) x
        else
          let c = exp_series x in
          js_sub (num 1) (js_sub (js_div (js_mul x c) (js_sub c (num 2))) x))"

section \<open>The logarithm and powers\<close>

definition LG1 :: jsnum where "LG1 = lit 6666666666666735130 19"
definition LG2 :: jsnum where "LG2 = lit 3999999999940941908 19"
definition LG3 :: jsnum where "LG3 = lit 2857142874366239149 19"
definition LG4 :: jsnum where "LG4 = lit 2222219843214978396 19"
definition LG5 :: jsnum where "LG5 = lit 1818357216161805012 19"
definition LG6 :: jsnum where "LG6 = lit 1531383769920937332 19"
definition LG7 :: jsnum where "LG7 = lit 1479819860511658591 19"
definition TWO_POW_54 :: jsnum where "TWO_POW_54 = num 18014398509481984"
definition ONE_THIRD :: jsnum where "ONE_THIRD = js_div (num 1) (num 3)"

text \<open>The argument as \<open>value\<close> times two to the \<open>k\<close>, \<open>hx\<close> the mantissa part of its high word.\<close>

definition reduce_ln :: "jsnum \<Rightarrow> jsnum \<times> int \<times> int" where
  "reduce_ln x =
     (let value = x; hx = highWord value;
          (value, hx, k) = (if hx < 0x00100000
            then let v = js_mul value TWO_POW_54 in (v, highWord v, - 54) else (value, hx, 0));
          k = k + (drop_bit 20 hx - 1023);
          hx = hx AND 0x000fffff;
          i = (hx + 0x95f64) AND 0x100000;
          value = withHighWord value (hx OR (i XOR 0x3ff00000));
          k = k + drop_bit 20 i in
      (value, hx, k))"

definition ln_js :: "jsnum \<Rightarrow> jsnum" where
  "ln_js x =
     (if x = NaN then NaN
      else if js_lt x (num 0) then NaN
      else if x = num 0 then NegInf
      else if x = PosInf then PosInf
      else
        let (value, hx, k) = reduce_ln x; f = js_sub value (num 1); dk = num k in
        if (0x000fffff AND (2 + hx)) < 3 then
          (if f = num 0 then
             (if k = 0 then num 0 else js_add (js_mul dk LN2_HI) (js_mul dk LN2_LO))
           else
             let R = js_mul (js_mul f f) (js_sub (lit 5 1) (js_mul ONE_THIRD f)) in
             if k = 0 then js_sub f R
             else js_sub (js_mul dk LN2_HI) (js_sub (js_sub R (js_mul dk LN2_LO)) f))
        else
          let s = js_div f (js_add (num 2) f); z = js_mul s s; w = js_mul z z;
              t1 = js_mul w (js_add LG2 (js_mul w (js_add LG4 (js_mul w LG6))));
              t2 = js_mul z (js_add LG1 (js_mul w (js_add LG3 (js_mul w (js_add LG5 (js_mul w LG7))))));
              R = js_add t2 t1;
              branch = (hx - 0x6147a) OR (0x6b851 - hx) in
          if 0 < branch then
            (let halfFSquared = js_mul (js_mul (lit 5 1) f) f in
             if k = 0 then js_sub f (js_sub halfFSquared (js_mul s (js_add halfFSquared R)))
             else js_sub (js_mul dk LN2_HI)
               (js_sub (js_sub halfFSquared (js_add (js_mul s (js_add halfFSquared R)) (js_mul dk LN2_LO))) f))
          else if k = 0 then js_sub f (js_mul s (js_sub f R))
          else js_sub (js_mul dk LN2_HI)
            (js_sub (js_sub (js_mul s (js_sub f R)) (js_mul dk LN2_LO)) f))"

definition pow_js :: "jsnum \<Rightarrow> jsnum \<Rightarrow> jsnum" where
  "pow_js x y =
     (if y = num 0 then num 1
      else if x = num 1 then num 1
      else if x = NaN \<or> y = NaN then NaN
      else if js_lt x (num 0) then NaN
      else if x = num 0 then (if js_lt (num 0) y then num 0 else PosInf)
      else exp_js (js_mul y (ln_js x)))"

section \<open>Scaling is exact\<close>

text \<open>The finite doubles: an integer of at most 53 bits times a power of two in range.\<close>

definition is_double :: "rat \<Rightarrow> bool" where
  "is_double y \<longleftrightarrow> \<bar>y\<bar> < 2 ^ 1024 \<and> (\<exists>m e. y = of_int m * pow2 e \<and> \<bar>m\<bar> < 2 ^ 53 \<and> - 1074 \<le> e)"

lemma is_doubleI:
  "\<bar>y\<bar> < 2 ^ 1024 \<Longrightarrow> y = of_int m * pow2 e \<Longrightarrow> \<bar>m\<bar> < 2 ^ 53 \<Longrightarrow> - 1074 \<le> e \<Longrightarrow> is_double y"
  by (auto simp: is_double_def)

lemma fl_double: "is_double y \<Longrightarrow> fl y = y"
proof -
  assume "is_double y"
  then obtain m e where y: "y = of_int m * pow2 e" "\<bar>m\<bar> < 2 ^ 53" "- 1074 \<le> e"
    unfolding is_double_def by blast
  show "fl y = y"
  proof (cases "y = 0")
    case False
    have "(of_int \<bar>m\<bar> :: rat) < of_int (2 ^ 53)" using y(2) by (simp only: of_int_less_iff)
    then have "\<bar>of_int m :: rat\<bar> * pow2 e < pow2 53 * pow2 e"
      by (intro mult_strict_right_mono) (simp_all add: pow2_def [of 53])
    moreover have "\<bar>y\<bar> = \<bar>of_int m :: rat\<bar> * pow2 e" by (simp add: y(1) abs_mult abs_of_pos)
    ultimately have "\<bar>y\<bar> < pow2 (53 + e)" by (simp only: pow2_add)
    then have "mag_exp \<bar>y\<bar> < 53 + e" using False by (intro mag_exp_less) simp_all
    then have u: "ulp_exp y \<le> e" using y(3) by (simp add: ulp_exp_def)
    have "pow2 e = pow2 (e - ulp_exp y) * pow2 (ulp_exp y)" using pow2_add [of "e - ulp_exp y" "ulp_exp y"] by simp
    also have "pow2 (e - ulp_exp y) = 2 ^ nat (e - ulp_exp y)" using u by (simp add: pow2_def)
    finally have "y = of_int (m * 2 ^ nat (e - ulp_exp y)) * pow2 (ulp_exp y)" using y(1) by simp
    then show ?thesis by (rule fl_exact)
  qed simp
qed

lemma js_of_rat_double: "is_double y \<Longrightarrow> js_of_rat y = Fin y"
  using fl_double [of y] by (auto simp: js_of_rat_def is_double_def abs_less_iff Let_def)

lemma js_mul_double: "is_double (x * y) \<Longrightarrow> js_mul (Fin x) (Fin y) = Fin (x * y)"
  by (simp add: js_of_rat_double)

lemma pow2_0 [simp]: "pow2 0 = 1"
  by (simp add: pow2_def)

lemma double_between:
  assumes "is_double x" "is_double (x * pow2 n)" "min 0 n \<le> k" "k \<le> max 0 n"
  shows "is_double (x * pow2 k)"
proof (cases "0 \<le> n")
  case True
  then have k: "0 \<le> k" "k \<le> n" using assms(3,4) by simp_all
  obtain m e where x: "x = of_int m * pow2 e" "\<bar>m\<bar> < 2 ^ 53" "- 1074 \<le> e"
    using assms(1) unfolding is_double_def by blast
  have "\<bar>x * pow2 k\<bar> \<le> \<bar>x * pow2 n\<bar>"
    using pow2_mono [OF k(2)] by (simp add: abs_mult abs_of_pos mult_left_mono)
  also have "\<dots> < 2 ^ 1024" using assms(2) by (simp add: is_double_def)
  finally have "\<bar>x * pow2 k\<bar> < 2 ^ 1024" .
  moreover have "x * pow2 k = of_int m * pow2 (e + k)" by (simp add: x(1) pow2_add)
  ultimately show ?thesis by (rule is_doubleI) (use x k in simp_all)
next
  case False
  then have k: "k \<le> 0" "n \<le> k" using assms(3,4) by simp_all
  obtain m e where x: "x * pow2 n = of_int m * pow2 e" "\<bar>m\<bar> < 2 ^ 53" "- 1074 \<le> e"
    using assms(2) unfolding is_double_def by blast
  have "\<bar>x * pow2 k\<bar> \<le> \<bar>x\<bar> * pow2 0"
    using pow2_mono [OF k(1)] by (simp only: abs_mult abs_of_pos [OF pow2_pos]) (rule mult_left_mono, simp_all)
  also have "\<dots> < 2 ^ 1024" using assms(1) by (simp add: is_double_def)
  finally have "\<bar>x * pow2 k\<bar> < 2 ^ 1024" .
  moreover have "x * pow2 k = x * pow2 n * pow2 (k - n)" using pow2_add [of n "k - n"] by (simp add: mult.assoc)
  then have "x * pow2 k = of_int m * pow2 (e + (k - n))" by (simp add: x(1) pow2_add)
  ultimately show ?thesis by (rule is_doubleI) (use x k in simp_all)
qed

lemma power_words: "- 1022 \<le> n \<Longrightarrow> n \<le> 1023 \<Longrightarrow> fromWords (push_bit 20 (n + 1023)) 0 = Fin (pow2 n)"
proof -
  assume n: "- 1022 \<le> n" "n \<le> 1023"
  let ?e = "n + 1023"
  have e: "0 < ?e" "?e < 2047" using n by simp_all
  have "push_bit 20 ?e mod 2 ^ 32 = ?e * 2 ^ 20"
    using e by (simp add: push_bit_eq_mult mod_pos_pos_trivial)
  then have b: "push_bit 20 ?e mod 2 ^ 32 * 2 ^ 32 + 0 mod 2 ^ 32 = ?e * 2 ^ 52" by simp
  have "?e * 2 ^ 52 div 2 ^ 52 mod 2 ^ 11 = ?e" "?e * 2 ^ 52 mod 2 ^ 52 = 0" "\<not> 2 ^ 63 \<le> ?e * 2 ^ 52"
    using e by (simp_all add: mod_pos_pos_trivial)
  then have "fromWords (push_bit 20 ?e) 0 = Fin (of_int (2 ^ 52) * pow2 (?e - 1075))"
    unfolding fromWords_def b using e by (simp add: decode64_def Let_def)
  also have "of_int (2 ^ 52) * pow2 (?e - 1075) = pow2 n"
    using pow2_add [of 52 "?e - 1075"] by (simp add: pow2_def [of 52])
  finally show ?thesis .
qed

lemma scaling_powers: "TWO_POW_1023 = Fin (pow2 1023)" "TWO_POW_MINUS_1022 = Fin (pow2 (- 1022))"
  using power_words [of 1023] power_words [of "- 1022"]
  by (simp_all add: TWO_POW_1023_def TWO_POW_MINUS_1022_def push_bit_eq_mult)

lemma scale_up_exact:
  assumes "is_double x" "is_double (x * pow2 n)"
  shows "\<exists>k\<ge>0. scale_up (Fin x) n = Inr (Fin (x * pow2 k), n - k) \<and> n - k \<le> 1023 \<and> k \<le> max 0 n"
  using assms
proof (induction "nat n" arbitrary: x n rule: less_induct)
  case less
  show ?case
  proof (cases "1023 < n")
    case True
    have d: "is_double (x * pow2 1023)" by (rule double_between [OF less.prems]) (use True in simp_all)
    have "is_double (x * pow2 1023 * pow2 (n - 1023))"
      using less.prems(2) pow2_add [of 1023 "n - 1023"] by (simp add: mult.assoc)
    then obtain k where k: "0 \<le> k" "scale_up (Fin (x * pow2 1023)) (n - 1023) = Inr (Fin (x * pow2 1023 * pow2 k), n - 1023 - k)"
      "n - 1023 - k \<le> 1023" "k \<le> n - 1023"
      using less.hyps [of "n - 1023" "x * pow2 1023"] True d by auto
    then show ?thesis using True d pow2_add [of 1023 k]
      by (intro exI [of _ "1023 + k"]) (simp add: scale_up.simps [of _ n] scaling_powers js_of_rat_double mult.assoc)
  next
    case False
    then show ?thesis by (intro exI [of _ 0]) (simp add: scale_up.simps)
  qed
qed

lemma scale_down_exact:
  assumes "is_double x" "is_double (x * pow2 n)" "x \<noteq> 0"
  shows "\<exists>k\<ge>0. scale_down (Fin x) n = Inr (Fin (x * pow2 (- k)), n + k) \<and> - 1022 \<le> n + k \<and> k \<le> max 0 (- n)"
  using assms
proof (induction "nat (- n)" arbitrary: x n rule: less_induct)
  case less
  show ?case
  proof (cases "n < - 1022")
    case True
    have d: "is_double (x * pow2 (- 1022))" by (rule double_between [OF less.prems(1,2)]) (use True in simp_all)
    have "is_double (x * pow2 (- 1022) * pow2 (n + 1022))"
      using less.prems(2) pow2_add [of "- 1022" "n + 1022"] by (simp add: mult.assoc)
    then obtain k where k: "0 \<le> k"
      "scale_down (Fin (x * pow2 (- 1022))) (n + 1022) = Inr (Fin (x * pow2 (- 1022) * pow2 (- k)), n + 1022 + k)"
      "- 1022 \<le> n + 1022 + k" "k \<le> - n - 1022"
      using less.hyps [of "n + 1022" "x * pow2 (- 1022)"] True d less.prems(3) by auto
    then show ?thesis using True d less.prems(3) pow2_add [of "- 1022" "- k"]
      by (intro exI [of _ "1022 + k"])
        (simp add: scale_down.simps [of _ n] scaling_powers js_of_rat_double mult.assoc add.assoc)
  next
    case False
    then show ?thesis by (intro exI [of _ 0]) (simp add: scale_down.simps)
  qed
qed

text \<open> scaling by a power of two, in the chunks the code takes, is exact whenever the argument and the
  scaled value are doubles: no intermediate step rounds, on the way into or out of the subnormal
  range.\<close>

theorem scaled_exact:
  assumes "is_double x" "is_double (x * pow2 n)"
  shows "scaleByPowerOfTwo (Fin x) (num n) = Inr (Fin (x * pow2 n))"
proof (cases "x = 0")
  case True
  then show ?thesis by (simp add: scaleByPowerOfTwo_def scaled_def)
next
  case False
  obtain k where k: "0 \<le> k" "scale_up (Fin x) n = Inr (Fin (x * pow2 k), n - k)" "n - k \<le> 1023" "k \<le> max 0 n"
    using scale_up_exact [OF assms] by blast
  have dk: "is_double (x * pow2 k)" by (rule double_between [OF assms]) (use k in simp_all)
  have "x * pow2 k * pow2 (n - k) = x * pow2 n" using pow2_add [of k "n - k"] by (simp add: mult.assoc)
  then have dn: "is_double (x * pow2 k * pow2 (n - k))" using assms(2) by (simp only:)
  obtain j where j: "0 \<le> j" "scale_down (Fin (x * pow2 k)) (n - k) = Inr (Fin (x * pow2 k * pow2 (- j)), n - k + j)"
    "- 1022 \<le> n - k + j" "j \<le> max 0 (- (n - k))"
    using scale_down_exact [OF dk dn] False by auto
  have r: "n - k + j \<le> 1023" using k j by linarith
  have e: "x * pow2 k * pow2 (- j) * pow2 (n - k + j) = x * pow2 n"
    using pow2_add [of "- j" "n - k + j"] pow2_add [of k "n - k"] by (simp add: mult.assoc)
  have "js_mul (Fin (x * pow2 k * pow2 (- j))) (Fin (pow2 (n - k + j))) = Fin (x * pow2 n)"
    using js_mul_double [of "x * pow2 k * pow2 (- j)" "pow2 (n - k + j)"] by (simp only: e assms(2))
  then show ?thesis using False k(2) j(2,3) r power_words [of "n - k + j"]
    by (simp add: scaleByPowerOfTwo_def scaled_def)
qed

lemma scaleByPowerOfTwo_int: "scaleByPowerOfTwo v (num n) = Inr (scaled v n)"
  by (simp add: scaleByPowerOfTwo_def)

section \<open>Rounding is odd, and exact where a safe integer results\<close>

lemma rne_neg: "rne (- x) = - rne x"
proof (cases "x \<in> \<int>")
  case True
  then obtain n where "x = of_int n" by (auto elim: Ints_cases)
  then show ?thesis using rne_of_int [of n] rne_of_int [of "- n"] by (simp del: rne_of_int)
next
  case False
  then have f: "\<lfloor>- x\<rfloor> = - \<lfloor>x\<rfloor> - 1"
    using ceiling_def [of x] ceiling_altdef [of x] by (auto simp: Ints_def split: if_splits)
  show ?thesis unfolding rne_def Let_def f by (auto simp: field_simps)
qed

lemma fl_neg: "fl (- x) = - fl x"
  by (simp add: fl_def ulp_exp_def rne_neg)

lemma js_of_rat_neg: "js_of_rat (- x) = js_neg (js_of_rat x)"
proof -
  have "(0::rat) < 2 ^ 1024" by simp
  then have "\<not> (2 ^ 1024 \<le> y \<and> y \<le> - (2 ^ 1024))" for y :: rat by (auto simp: not_le)
  then show ?thesis by (auto simp: js_of_rat_def fl_neg Let_def le_minus_iff minus_le_iff)
qed

lemma fl_integer: "fl (of_int k) \<in> \<int>"
proof (cases "\<bar>k\<bar> \<le> 2 ^ 53")
  case True
  then show ?thesis using fl_of_int [of k] by simp
next
  case False
  let ?x = "of_int k :: rat"
  have "(of_int (2 ^ 53) :: rat) \<le> of_int \<bar>k\<bar>" using False by (simp only: of_int_le_iff)
  then have "pow2 53 \<le> \<bar>?x\<bar>" by (simp add: pow2_def)
  then have "53 \<le> mag_exp \<bar>?x\<bar>" using False by (intro mag_exp_ge) auto
  then have "pow2 (ulp_exp ?x) = of_int (2 ^ nat (ulp_exp ?x))" by (simp add: ulp_exp_def pow2_def)
  then show ?thesis using False by (auto simp: fl_def)
qed

text \<open>A rounded integer is safe exactly when the integer is, and then it is that integer.\<close>

lemma safe_of_int: "isSafeInteger (js_of_rat (of_int n)) \<longleftrightarrow> \<bar>n\<bar> \<le> MAX_SAFE"
proof (cases "\<bar>n\<bar> \<le> MAX_SAFE")
  case True
  then show ?thesis using fl_of_int_bound [of n] by simp
next
  case False
  have pos: "\<not> isSafeInteger (js_of_rat (of_int m))" if "MAX_SAFE < m" for m
  proof -
    have "(2 ^ 53 :: int) \<le> m" using that by simp
    then have "(of_int (2 ^ 53) :: rat) \<le> of_int m" by (simp only: of_int_le_iff)
    then show ?thesis using js_of_rat_big(1) [of "of_int m"] by simp
  qed
  have "isSafeInteger (js_neg v) = isSafeInteger v" for v
    by (cases v) (auto simp: floor_minus floor_eq_iff)
  then have "isSafeInteger (js_of_rat (of_int n)) = isSafeInteger (js_of_rat (of_int (- n)))"
    using js_of_rat_neg [of "of_int n"] by simp
  then show ?thesis using pos [of n] pos [of "- n"] False by fastforce
qed

lemma int_of_safe: "isSafeInteger (js_of_rat (of_int n)) \<Longrightarrow> int_of (js_of_rat (of_int n)) = n"
  using safe_of_int [of n] fl_of_int_bound [of n] by simp

theorem scaled_exact_witness:
  "scaleByPowerOfTwo (Fin (3 * pow2 (- 1074))) (num 2000) = Inr (Fin (3 * pow2 926))"
proof -
  have "is_double (3 * pow2 (- 1074))" by (rule is_doubleI [of _ 3 "- 1074"]) (simp_all add: pow2_def)
  moreover have "3 * pow2 (- 1074) * pow2 2000 = 3 * pow2 926" using pow2_add [of "- 1074" 2000] by (simp add: mult.assoc)
  moreover have "is_double (3 * pow2 926)" by (rule is_doubleI [of _ 3 926]) (simp_all add: pow2_def)
  ultimately show ?thesis using scaled_exact [of "3 * pow2 (- 1074)" 2000] by (simp only:)
qed

end
