(* ===== verification/Sampler.thy ===== *)
theory Sampler
  imports Portable Stream
begin

text \<open>
  Samplers over a deterministic stream: packages/core/src/random/distributions.ts, and the source
  they draw from, the \<^verbatim>\<open>RandomSource\<close> interface with its two implementations: the stream of
  \<open>Stream\<close> and the stream whose booleans are inverted (packages/engine/src/mirror.ts).
  \<^verbatim>\<open>Math.sqrt\<close> is the correctly rounded square root, as the language specifies it.

  A sampler maps a source to the source after the draws and the value. The theory names what
  replay needs of one, \<open>draws\<close>: it returns for every well-formed source, its value and the position
  it stops at depend on the key, the position and the inversion of the source only, and the position
  never goes back. The property is closed under sequencing, so each sampler has it by its shape.
\<close>

lemma bindO_Inr: "bindO x f = Some (Inr b) \<longleftrightarrow> (\<exists>a. x = Some (Inr a) \<and> f a = Some (Inr b))"
  by (cases "(x, f)" rule: bindO.cases) auto

lemma bindO_assoc: "bindO (bindO x f) g = bindO x (\<lambda>a. bindO (f a) g)"
  by (cases "(x, f)" rule: bindO.cases) auto

section \<open>Sources\<close>

datatype random_source = Deterministic random_stream | SignInverting random_source

type_synonym 'a drawing = "random_source \<Rightarrow> (random_source \<times> 'a) result option"

fun delegate :: "(random_stream \<Rightarrow> (random_stream \<times> 'a) result option) \<Rightarrow> 'a drawing" where
  "delegate d (Deterministic s) = bindO (d s) (\<lambda>(s', a). Some (Inr (Deterministic s', a)))"
| "delegate d (SignInverting i) = bindO (delegate d i) (\<lambda>(i', a). Some (Inr (SignInverting i', a)))"

abbreviation src_nextFloat64 :: "jsnum drawing" where
  "src_nextFloat64 \<equiv> delegate nextFloat64"

fun src_nextBoolean :: "bool drawing" where
  "src_nextBoolean (Deterministic s) = delegate nextBoolean (Deterministic s)"
| "src_nextBoolean (SignInverting i) = bindO (src_nextBoolean i) (\<lambda>(i', b). Some (Inr (SignInverting i', \<not> b)))"

fun src_position :: "random_source \<Rightarrow> stream_cursor" where
  "src_position (Deterministic s) = position s"
| "src_position (SignInverting i) = src_position i"

fun src_seek :: "random_source \<Rightarrow> stream_cursor \<Rightarrow> random_source result" where
  "src_seek (Deterministic s) c = andThen (seek s c) (\<lambda>s'. Inr (Deterministic s'))"
| "src_seek (SignInverting i) c = andThen (src_seek i c) (\<lambda>i'. Inr (SignInverting i'))"

section \<open>Samplers\<close>

definition assertFinite :: "jsnum \<Rightarrow> unit result" where
  "assertFinite value = (if \<not> isFinite value then Inl (RangeError ''must be finite'') else Inr ())"

definition js_max :: "jsnum \<Rightarrow> jsnum \<Rightarrow> jsnum" where
  "js_max x y = (if x = NaN \<or> y = NaN then NaN else if js_lt x y then y else x)"

definition js_min :: "jsnum \<Rightarrow> jsnum \<Rightarrow> jsnum" where
  "js_min x y = (if x = NaN \<or> y = NaN then NaN else if js_lt y x then y else x)"

text \<open>The integer square root, bit by bit, and the rounded square root of a positive double: its
  quotient by the square of its unit in the last place, rounded to the nearer integer.\<close>

fun isqrt_bits :: "nat \<Rightarrow> int \<Rightarrow> int \<Rightarrow> int" where
  "isqrt_bits 0 n r = r"
| "isqrt_bits (Suc b) n r = (let r' = r + 2 ^ b in isqrt_bits b n (if r' * r' \<le> n then r' else r))"

fun js_sqrt :: "jsnum \<Rightarrow> jsnum" where
  "js_sqrt (Fin x) = (if x < 0 then NaN else if x = 0 then Fin 0
     else let u = mag_exp x div 2 - 52; q = x / pow2 (2 * u); r = isqrt_bits 54 \<lfloor>q\<rfloor> 0 in
       Fin (of_int (if (of_int r + 1 / 2) * (of_int r + 1 / 2) < q then r + 1 else r) * pow2 u))"
| "js_sqrt PosInf = PosInf"
| "js_sqrt v = NaN"

definition uniform :: "jsnum \<Rightarrow> jsnum \<Rightarrow> jsnum drawing" where
  "uniform lo hi r = bindO (Some (assertFinite lo)) (\<lambda>_. bindO (Some (assertFinite hi)) (\<lambda>_.
     if js_lt hi lo then Some (Inl (RangeError ''min <= max''))
     else bindO (src_nextFloat64 r) (\<lambda>(r', f). Some (Inr (r', js_add lo (js_mul (js_sub hi lo) f))))))"

definition uniformSymmetric :: "jsnum drawing" where
  "uniformSymmetric r = bindO (src_nextFloat64 r) (\<lambda>(r', f). Some (Inr (r', js_sub (js_mul (num 2) f) (num 1))))"

definition bernoulli :: "jsnum \<Rightarrow> bool drawing" where
  "bernoulli probability r =
     (if \<not> (js_le (num 0) probability \<and> js_le probability (num 1)) then Some (Inl (RangeError ''Probability''))
      else bindO (src_nextFloat64 r) (\<lambda>(r', f). Some (Inr (r', js_lt f probability))))"

fun total_weight :: "jsnum list \<Rightarrow> jsnum \<Rightarrow> jsnum result" where
  "total_weight [] acc = Inr acc"
| "total_weight (w # ws) acc =
     (if \<not> isFinite w \<or> js_lt w (num 0) then Inl (RangeError ''Categorical weight'')
      else total_weight ws (js_add acc w))"

fun pick_weight :: "jsnum \<Rightarrow> jsnum list \<Rightarrow> jsnum \<Rightarrow> nat \<Rightarrow> nat option" where
  "pick_weight target [] cumulative i = None"
| "pick_weight target (w # ws) cumulative i =
     (let c = js_add cumulative w in if js_lt target c then Some i else pick_weight target ws c (i + 1))"

text \<open>The last index with a positive weight.\<close>

fun last_positive :: "jsnum list \<Rightarrow> nat \<Rightarrow> nat option" where
  "last_positive [] i = None"
| "last_positive (w # ws) i = (case last_positive ws (i + 1) of Some j \<Rightarrow> Some j
     | None \<Rightarrow> (if js_lt (num 0) w then Some i else None))"

definition categorical :: "jsnum list \<Rightarrow> nat drawing" where
  "categorical weights r =
     (if weights = [] then Some (Inl (RangeError ''Categorical weights must not be empty''))
      else bindO (Some (total_weight weights (num 0))) (\<lambda>total.
        if js_le total (num 0) then Some (Inl (RangeError ''Categorical weights must sum to a positive value''))
        else bindO (src_nextFloat64 r) (\<lambda>(r', f).
          case pick_weight (js_mul f total) weights (num 0) 0 of
            Some i \<Rightarrow> Some (Inr (r', i))
          | None \<Rightarrow> (case last_positive weights 0 of
              Some i \<Rightarrow> Some (Inr (r', i))
            | None \<Rightarrow> Some (Inl (RangeError ''Categorical weights must sum to a positive value''))))))"

partial_function (option) standardNormal :: "random_source \<Rightarrow> (random_source \<times> jsnum) result option" where
  "standardNormal r0 =
     (case uniformSymmetric r0 of
        None \<Rightarrow> None
      | Some (Inl e) \<Rightarrow> Some (Inl e)
      | Some (Inr (r1, u)) \<Rightarrow>
          (case uniformSymmetric r1 of
             None \<Rightarrow> None
           | Some (Inl e) \<Rightarrow> Some (Inl e)
           | Some (Inr (r2, v)) \<Rightarrow>
               let s = js_add (js_mul u u) (js_mul v v) in
               if js_lt (num 0) s \<and> js_lt s (num 1)
               then Some (Inr (r2, js_mul u (js_sqrt (js_div (js_mul (num (- 2)) (ln_js s)) s))))
               else standardNormal r2))"

definition normal :: "jsnum \<Rightarrow> jsnum \<Rightarrow> jsnum drawing" where
  "normal mean stdDev r = bindO (Some (assertFinite mean)) (\<lambda>_.
     if \<not> js_le (num 0) stdDev \<or> \<not> isFinite stdDev then Some (Inl (RangeError ''Standard deviation''))
     else bindO (standardNormal r) (\<lambda>(r', z). Some (Inr (r', js_add mean (js_mul stdDev z)))))"

definition exponential :: "jsnum \<Rightarrow> jsnum drawing" where
  "exponential rate r =
     (if \<not> js_lt (num 0) rate \<or> \<not> isFinite rate then Some (Inl (RangeError ''Rate''))
      else bindO (src_nextFloat64 r) (\<lambda>(r', f).
        Some (Inr (r', js_div (js_neg (ln_js (js_sub (num 1) f))) rate))))"

text \<open>Marsaglia and Tsang: the inner loop draws until \<open>v\<close> is positive, the outer one until the pair
  is accepted.\<close>

partial_function (option) gamma_normal :: "jsnum \<Rightarrow> random_source \<Rightarrow> (random_source \<times> jsnum \<times> jsnum) result option" where
  "gamma_normal c r0 =
     (case standardNormal r0 of
        None \<Rightarrow> None
      | Some (Inl e) \<Rightarrow> Some (Inl e)
      | Some (Inr (r1, x)) \<Rightarrow>
          let v = js_add (num 1) (js_mul c x) in
          if js_le v (num 0) then gamma_normal c r1 else Some (Inr (r1, x, v)))"

partial_function (option) gamma_loop ::
  "jsnum \<Rightarrow> jsnum \<Rightarrow> jsnum \<Rightarrow> random_source \<Rightarrow> (random_source \<times> jsnum) result option" where
  "gamma_loop d c scale r0 =
     (case gamma_normal c r0 of
        None \<Rightarrow> None
      | Some (Inl e) \<Rightarrow> Some (Inl e)
      | Some (Inr (r1, x, v0)) \<Rightarrow>
          let v = js_mul (js_mul v0 v0) v0 in
          (case src_nextFloat64 r1 of
             None \<Rightarrow> None
           | Some (Inl e) \<Rightarrow> Some (Inl e)
           | Some (Inr (r2, u)) \<Rightarrow>
               let xSquared = js_mul x x in
               if js_lt u (js_sub (num 1) (js_mul (js_mul (lit 331 4) xSquared) xSquared))
               then Some (Inr (r2, js_mul (js_mul d v) scale))
               else if js_lt (ln_js u) (js_add (js_mul (lit 5 1) xSquared)
                   (js_mul d (js_add (js_sub (num 1) v) (ln_js v))))
               then Some (Inr (r2, js_mul (js_mul d v) scale))
               else gamma_loop d c scale r2))"

definition gamma_from_one :: "jsnum \<Rightarrow> jsnum \<Rightarrow> jsnum drawing" where
  "gamma_from_one shape scale r =
     (let d = js_sub shape (js_div (num 1) (num 3)); c = js_div (num 1) (js_sqrt (js_mul (num 9) d)) in
      gamma_loop d c scale r)"

definition gamma_guard :: "jsnum \<Rightarrow> jsnum \<Rightarrow> unit result" where
  "gamma_guard shape scale =
     (if \<not> js_lt (num 0) shape \<or> \<not> isFinite shape then Inl (RangeError ''Shape'')
      else if \<not> js_lt (num 0) scale \<or> \<not> isFinite scale then Inl (RangeError ''Scale'')
      else Inr ())"

definition MIN_VALUE :: jsnum where
  "MIN_VALUE = Fin (pow2 (- 1074))"

text \<open>A shape below one calls the sampler once more, at a shape from one up.\<close>

definition gamma :: "jsnum \<Rightarrow> jsnum \<Rightarrow> jsnum drawing" where
  "gamma shape scale r = bindO (Some (gamma_guard shape scale)) (\<lambda>_.
     if js_lt shape (num 1) then
       bindO (Some (gamma_guard (js_add shape (num 1)) scale)) (\<lambda>_.
       bindO (gamma_from_one (js_add shape (num 1)) scale r) (\<lambda>(r1, boosted).
       bindO (src_nextFloat64 r1) (\<lambda>(r2, u0). let u = (if u0 = num 0 then MIN_VALUE else u0) in
         Some (Inr (r2, js_mul boosted (pow_js u (js_div (num 1) shape)))))))
     else gamma_from_one shape scale r)"

definition chiSquared :: "jsnum \<Rightarrow> jsnum drawing" where
  "chiSquared degreesOfFreedom r =
     (if \<not> js_lt (num 0) degreesOfFreedom \<or> \<not> isFinite degreesOfFreedom
      then Some (Inl (RangeError ''Degrees of freedom''))
      else gamma (js_div degreesOfFreedom (num 2)) (num 2) r)"

definition studentT :: "jsnum \<Rightarrow> jsnum drawing" where
  "studentT degreesOfFreedom r =
     (if \<not> js_lt (num 0) degreesOfFreedom \<or> \<not> isFinite degreesOfFreedom
      then Some (Inl (RangeError ''Degrees of freedom''))
      else bindO (standardNormal r) (\<lambda>(r1, z). bindO (chiSquared degreesOfFreedom r1) (\<lambda>(r2, w).
        Some (Inr (r2, js_div z (js_sqrt (js_div w degreesOfFreedom)))))))"

definition logNormal :: "jsnum \<Rightarrow> jsnum \<Rightarrow> jsnum drawing" where
  "logNormal logMean logStdDev r =
     bindO (normal logMean logStdDev r) (\<lambda>(r', z). Some (Inr (r', exp_js z)))"

section \<open>What replay needs of a sampler\<close>

text \<open>Two streams that draw alike: same key, same position.\<close>

definition alike_stream :: "random_stream \<Rightarrow> random_stream \<Rightarrow> bool" where
  "alike_stream s t \<longleftrightarrow> stream_ok s \<and> stream_ok t \<and> st_keyWords s = st_keyWords t \<and> stream_pos s = stream_pos t"

fun alike :: "random_source \<Rightarrow> random_source \<Rightarrow> bool" where
  "alike (Deterministic s) (Deterministic t) = alike_stream s t"
| "alike (SignInverting r) (SignInverting q) = alike r q"
| "alike _ _ = False"

fun source_pos :: "random_source \<Rightarrow> int" where
  "source_pos (Deterministic s) = stream_pos s"
| "source_pos (SignInverting i) = source_pos i"

fun source_ok :: "random_source \<Rightarrow> bool" where
  "source_ok (Deterministic s) = stream_ok s"
| "source_ok (SignInverting i) = source_ok i"

text \<open>The same source further on, by at least \<open>n\<close> bytes: its key and its inversion are kept.\<close>

definition further_stream :: "int \<Rightarrow> random_stream \<Rightarrow> random_stream \<Rightarrow> bool" where
  "further_stream n s s' \<longleftrightarrow> stream_pos s + n \<le> stream_pos s' \<and> st_keyWords s' = st_keyWords s"

fun further :: "int \<Rightarrow> random_source \<Rightarrow> random_source \<Rightarrow> bool" where
  "further n (Deterministic s) (Deterministic s') = further_stream n s s'"
| "further n (SignInverting r) (SignInverting r') = further n r r'"
| "further n _ _ = False"

text \<open>\<open>draws n d\<close>: from any two sources that are alike, the sampler throws the same error, or answers
  the same value and leaves sources that are alike, at least \<open>n\<close> bytes on.\<close>

definition draws :: "int \<Rightarrow> 'a drawing \<Rightarrow> bool" where
  "draws n d \<longleftrightarrow> (\<forall>r q. alike r q \<longrightarrow>
     (\<exists>e. d r = Some (Inl e) \<and> d q = Some (Inl e)) \<or>
     (\<exists>r' q' a. d r = Some (Inr (r', a)) \<and> d q = Some (Inr (q', a)) \<and> alike r' q' \<and>
        further n r r' \<and> source_pos q' = source_pos r'))"

named_theorems draws_intros \<open>the shapes a sampler is built from\<close>

lemma alike_ok: "alike r q \<Longrightarrow> source_ok r \<and> source_ok q \<and> source_pos q = source_pos r"
  by (induction r q rule: alike.induct) (simp_all add: alike_stream_def)

lemma alike_refl: "source_ok r \<Longrightarrow> alike r r"
  by (induction r) (simp_all add: alike_stream_def)

lemma alike_sym: "alike r q \<Longrightarrow> alike q r"
  by (induction r q rule: alike.induct) (simp_all add: alike_stream_def)

lemma alike_trans: "alike r q \<Longrightarrow> alike q p \<Longrightarrow> alike r p"
proof (induction r q arbitrary: p rule: alike.induct)
  case (1 s t)
  then show ?case by (cases p) (auto simp: alike_stream_def)
next
  case (2 r q)
  then show ?case by (cases p) auto
qed simp_all

lemma source_end: "source_ok r \<Longrightarrow> source_pos r \<le> STREAM_END"
  by (induction r) (simp_all add: stream_ok_def)

lemma further_pos: "further n r r' \<Longrightarrow> source_pos r + n \<le> source_pos r'"
  by (induction n r r' rule: further.induct) (simp_all add: further_stream_def)

lemma further_refl [simp]: "further 0 r r"
  by (induction r) (simp_all add: further_stream_def)

lemma further_weaken: "further m r r' \<Longrightarrow> n \<le> m \<Longrightarrow> further n r r'"
  by (induction m r r' rule: further.induct) (simp_all add: further_stream_def)

lemma further_trans: "further m r r1 \<Longrightarrow> further n r1 r2 \<Longrightarrow> further (m + n) r r2"
proof (induction m r r1 arbitrary: r2 rule: further.induct)
  case (1 m s s')
  then show ?case by (cases r2) (auto simp: further_stream_def)
next
  case (2 m r r')
  then show ?case by (cases r2) auto
qed simp_all

lemma drawsD:
  assumes "draws n d" "alike r q"
  obtains e where "d r = Some (Inl e)" "d q = Some (Inl e)"
  | r' q' a where "d r = Some (Inr (r', a))" "d q = Some (Inr (q', a))" "alike r' q'" "further n r r'"
  using assms unfolding draws_def by blast

lemma drawsI:
  assumes "\<And>r q. alike r q \<Longrightarrow> (\<exists>e. d r = Some (Inl e) \<and> d q = Some (Inl e)) \<or>
     (\<exists>r' q' a. d r = Some (Inr (r', a)) \<and> d q = Some (Inr (q', a)) \<and> alike r' q' \<and> further n r r')"
  shows "draws n d"
  unfolding draws_def
proof (intro allI impI)
  fix r q assume "alike r q"
  from assms [OF this] show "(\<exists>e. d r = Some (Inl e) \<and> d q = Some (Inl e)) \<or>
     (\<exists>r' q' a. d r = Some (Inr (r', a)) \<and> d q = Some (Inr (q', a)) \<and> alike r' q' \<and>
        further n r r' \<and> source_pos q' = source_pos r')"
    by (elim disjE exE conjE) (auto dest: alike_ok)
qed

lemma draws_weaken:
  assumes "draws m d" "n \<le> m"
  shows "draws n d"
proof (rule drawsI)
  fix r q assume "alike r q"
  with assms(1) show "(\<exists>e. d r = Some (Inl e) \<and> d q = Some (Inl e)) \<or>
     (\<exists>r' q' a. d r = Some (Inr (r', a)) \<and> d q = Some (Inr (q', a)) \<and> alike r' q' \<and> further n r r')"
    by (cases rule: drawsD) (use further_weaken [OF _ assms(2)] in auto)
qed

lemma draws_value [draws_intros]: "draws 0 (\<lambda>r. Some (Inr (r, a)))"
  by (rule drawsI) auto

lemma draws_throw [draws_intros]: "draws n (\<lambda>r. Some (Inl e))"
  by (rule drawsI) auto

lemma draws_if [draws_intros]: "(b \<Longrightarrow> draws n d) \<Longrightarrow> (\<not> b \<Longrightarrow> draws n d') \<Longrightarrow> draws n (\<lambda>r. if b then d r else d' r)"
  by (cases b) simp_all

lemma draws_guard [draws_intros]: "(\<And>u. x = Inr u \<Longrightarrow> draws n (f u)) \<Longrightarrow> draws n (\<lambda>r. bindO (Some x) (\<lambda>u. f u r))"
  by (cases x) (simp_all add: draws_throw)

lemma draws_bind_strict:
  assumes "draws m d" "\<And>a. draws n (f a)" "0 \<le> n"
  shows "draws (m + n) (\<lambda>r. bindO (d r) (\<lambda>(r', a). f a r'))"
proof (rule drawsI)
  fix r q assume "alike r q"
  with assms(1) show "(\<exists>e. bindO (d r) (\<lambda>(r', a). f a r') = Some (Inl e) \<and> bindO (d q) (\<lambda>(r', a). f a r') = Some (Inl e)) \<or>
    (\<exists>r' q' a. bindO (d r) (\<lambda>(r', a). f a r') = Some (Inr (r', a)) \<and> bindO (d q) (\<lambda>(r', a). f a r') = Some (Inr (q', a)) \<and>
      alike r' q' \<and> further (m + n) r r')"
  proof (cases rule: drawsD)
    case (2 r' q' a)
    from assms(2) [of a] \<open>alike r' q'\<close> show ?thesis
      by (cases rule: drawsD) (use 2 in \<open>auto intro: further_trans\<close>)
  qed auto
qed

lemma draws_bind [draws_intros]:
  "draws 0 d \<Longrightarrow> (\<And>a. draws 0 (f a)) \<Longrightarrow> draws 0 (\<lambda>r. bindO (d r) (\<lambda>(r', a). f a r'))"
  using draws_bind_strict [of 0 d 0 f] by simp

lemma draws_map:
  "draws n d \<Longrightarrow> draws n (\<lambda>r. bindO (d r) (\<lambda>(r', a). Some (Inr (r', g a))))"
  using draws_bind_strict [of n d 0 "\<lambda>a r. Some (Inr (r, g a))"] by (simp add: draws_value)

text \<open>The draws of a stream, and what a sampler of booleans sees of an inverted one.\<close>

definition stream_draws :: "int \<Rightarrow> (random_stream \<Rightarrow> (random_stream \<times> 'a) result option) \<Rightarrow> bool" where
  "stream_draws n d \<longleftrightarrow> (\<forall>s t. alike_stream s t \<longrightarrow>
     (\<exists>e. d s = Some (Inl e) \<and> d t = Some (Inl e)) \<or>
     (\<exists>s' t' a. d s = Some (Inr (s', a)) \<and> d t = Some (Inr (t', a)) \<and> alike_stream s' t' \<and>
        further_stream n s s'))"

lemma stream_draws_bind:
  assumes "stream_draws m d" "\<And>a. stream_draws n (f a)"
  shows "stream_draws (m + n) (\<lambda>s. bindO (d s) (\<lambda>(s', a). f a s'))"
  unfolding stream_draws_def
proof (intro allI impI)
  fix s t assume "alike_stream s t"
  then consider e where "d s = Some (Inl e)" "d t = Some (Inl e)"
    | s' t' a where "d s = Some (Inr (s', a))" "d t = Some (Inr (t', a))" "alike_stream s' t'" "further_stream m s s'"
    using assms(1) unfolding stream_draws_def by blast
  then show "(\<exists>e. bindO (d s) (\<lambda>(s', a). f a s') = Some (Inl e) \<and> bindO (d t) (\<lambda>(s', a). f a s') = Some (Inl e)) \<or>
    (\<exists>s' t' a. bindO (d s) (\<lambda>(s', a). f a s') = Some (Inr (s', a)) \<and> bindO (d t) (\<lambda>(s', a). f a s') = Some (Inr (t', a)) \<and>
      alike_stream s' t' \<and> further_stream (m + n) s s')"
  proof cases
    case (2 s' t' a)
    then have "(\<exists>e. f a s' = Some (Inl e) \<and> f a t' = Some (Inl e)) \<or>
      (\<exists>s'' t'' b. f a s' = Some (Inr (s'', b)) \<and> f a t' = Some (Inr (t'', b)) \<and> alike_stream s'' t'' \<and>
        further_stream n s' s'')"
      using assms(2) [of a] unfolding stream_draws_def by blast
    then show ?thesis using 2 by (fastforce simp: further_stream_def)
  qed auto
qed

lemma stream_draws_value: "stream_draws 0 (\<lambda>s. Some (Inr (s, a)))"
  by (auto simp: stream_draws_def further_stream_def)

lemma stream_draws_uint32: "stream_draws 4 nextUint32"
  unfolding stream_draws_def
proof (intro allI impI)
  fix s t assume a: "alike_stream s t"
  then have ok: "stream_ok s" "stream_ok t" and e: "stream_pos t = stream_pos s" "st_keyWords t = st_keyWords s" and w: "word_at t = word_at s"
    by (auto simp: alike_stream_def word_at_def)
  show "(\<exists>e. nextUint32 s = Some (Inl e) \<and> nextUint32 t = Some (Inl e)) \<or>
    (\<exists>s' t' a. nextUint32 s = Some (Inr (s', a)) \<and> nextUint32 t = Some (Inr (t', a)) \<and> alike_stream s' t' \<and>
      further_stream 4 s s')"
  proof (cases "stream_pos s + 4 \<le> STREAM_END")
    case True
    obtain s' where s': "nextUint32 s = Some (Inr (s', word_at s))" "moved s 4 s'" by (rule nextUint32_ok [OF ok(1) True])
    obtain t' where t': "nextUint32 t = Some (Inr (t', word_at s))" "moved t 4 t'"
      by (rule nextUint32_ok [OF ok(2)]) (use True e w in simp_all)
    show ?thesis using s' t' e by (auto simp: alike_stream_def moved_def further_stream_def)
  next
    case False
    then show ?thesis using nextUint32_cases [OF ok(1)] nextUint32_cases [OF ok(2)] e by simp
  qed
qed

lemma stream_draws_float: "stream_draws 8 nextFloat64"
proof -
  have "stream_draws (4 + (4 + 0)) (\<lambda>s0. bindO (nextUint32 s0) (\<lambda>(s1, u). bindO (nextUint32 s1) (\<lambda>(s2, v).
     Some (Inr (s2, js_div (js_add (js_mul (num (drop_bit 5 u)) (num (2 ^ 26))) (num (drop_bit 6 v))) (num (2 ^ 53)))))))"
    by (intro stream_draws_bind stream_draws_uint32 stream_draws_value)
  then show ?thesis unfolding nextFloat64_def Let_def by simp
qed

lemma stream_draws_boolean: "stream_draws 4 nextBoolean"
proof -
  have "stream_draws (4 + 0) (\<lambda>s0. bindO (nextUint32 s0) (\<lambda>(s1, u). Some (Inr (s1, u AND 1 = 1))))"
    by (intro stream_draws_bind stream_draws_uint32 stream_draws_value)
  then show ?thesis unfolding nextBoolean_def by simp
qed

lemma draws_delegate: "stream_draws n d \<Longrightarrow> draws n (delegate d)"
proof (rule drawsI)
  fix r q assume d: "stream_draws n d" and "alike r q"
  from \<open>alike r q\<close> show "(\<exists>e. delegate d r = Some (Inl e) \<and> delegate d q = Some (Inl e)) \<or>
    (\<exists>r' q' a. delegate d r = Some (Inr (r', a)) \<and> delegate d q = Some (Inr (q', a)) \<and> alike r' q' \<and> further n r r')"
  proof (induction r q rule: alike.induct)
    case (1 s t)
    then show ?case using d unfolding stream_draws_def by fastforce
  next
    case (2 r q)
    then show ?case by fastforce
  qed simp_all
qed

lemma draws_float: "draws 8 src_nextFloat64"
  by (rule draws_delegate [OF stream_draws_float])

lemma draws_float_0 [draws_intros]: "draws 0 src_nextFloat64"
  by (rule draws_weaken [OF draws_float]) simp

lemma draws_boolean: "draws 4 src_nextBoolean"
proof (rule drawsI)
  fix r q assume "alike r q"
  then show "(\<exists>e. src_nextBoolean r = Some (Inl e) \<and> src_nextBoolean q = Some (Inl e)) \<or>
    (\<exists>r' q' a. src_nextBoolean r = Some (Inr (r', a)) \<and> src_nextBoolean q = Some (Inr (q', a)) \<and> alike r' q' \<and> further 4 r r')"
  proof (induction r q rule: alike.induct)
    case (1 s t)
    then show ?case using stream_draws_boolean unfolding stream_draws_def by fastforce
  next
    case (2 r q)
    then show ?case by fastforce
  qed simp_all
qed

lemma draws_boolean_0 [draws_intros]: "draws 0 src_nextBoolean"
  by (rule draws_weaken [OF draws_boolean]) simp

text \<open>A source that inverts gives the opposite boolean and is otherwise the source it wraps.\<close>

lemma inverting_boolean:
  "src_nextBoolean (SignInverting r) = map_option (map_sum id (map_prod SignInverting Not)) (src_nextBoolean r)"
  by (cases "src_nextBoolean r" rule: bindO.cases [of "(x, f)" for x f, simplified]; auto)
    

section \<open>Every sampler draws\<close>

lemma draws_symmetric: "draws 8 uniformSymmetric"
  unfolding uniformSymmetric_def by (rule draws_map [OF draws_float])

text \<open>A rejection loop whose body consumes something ends, and draws what its body draws.\<close>

lemma draws_loop:
  assumes body: "draws n body" "0 < n"
    and loop: "\<And>r. L r = bindO (body r) (\<lambda>(r', a). case decide a of None \<Rightarrow> L r' | Some b \<Rightarrow> Some (Inr (r', b)))"
  shows "draws n L"
proof (rule drawsI)
  fix r q assume "alike r q"
  then show "(\<exists>e. L r = Some (Inl e) \<and> L q = Some (Inl e)) \<or>
    (\<exists>r' q' a. L r = Some (Inr (r', a)) \<and> L q = Some (Inr (q', a)) \<and> alike r' q' \<and> further n r r')"
  proof (induction "nat (STREAM_END - source_pos r)" arbitrary: r q rule: less_induct)
    case less
    from body(1) less.prems show ?case
    proof (cases rule: drawsD)
      case (1 e)
      then show ?thesis by (simp add: loop [of r] loop [of q])
    next
      case (2 r1 q1 a)
      show ?thesis
      proof (cases "decide a")
        case None
        then have again: "L r = L r1" "L q = L q1" using 2 by (simp_all add: loop [of r] loop [of q])
        have "source_pos r < source_pos r1" "source_pos r1 \<le> STREAM_END"
          using 2 body(2) source_end [of r1] alike_ok [of r1 q1] further_pos [of n r r1] by auto
        moreover have "further n r r'" if "further n r1 r'" for r'
          using further_weaken [OF further_trans [OF 2(4) that]] body(2) by simp
        ultimately show ?thesis using less.hyps [of r1 q1] 2(3) unfolding again by fastforce
      next
        case (Some b)
        then show ?thesis using 2 by (simp add: loop [of r] loop [of q])
      qed
    qed
  qed
qed

lemma draws_standard: "draws 16 standardNormal"
proof (rule draws_loop)
  show "draws 16 (\<lambda>r. bindO (uniformSymmetric r) (\<lambda>(r1, u). bindO (uniformSymmetric r1) (\<lambda>(r2, v). Some (Inr (r2, u, v)))))"
    using draws_bind_strict [OF draws_symmetric draws_bind_strict [OF draws_symmetric draws_value]] by simp
  show "standardNormal r = bindO (bindO (uniformSymmetric r) (\<lambda>(r1, u). bindO (uniformSymmetric r1) (\<lambda>(r2, v). Some (Inr (r2, u, v)))))
    (\<lambda>(r', a). case (case a of (u, v) \<Rightarrow> let s = js_add (js_mul u u) (js_mul v v) in
        if js_lt (num 0) s \<and> js_lt s (num 1) then Some (js_mul u (js_sqrt (js_div (js_mul (num (- 2)) (ln_js s)) s))) else None)
      of None \<Rightarrow> standardNormal r' | Some b \<Rightarrow> Some (Inr (r', b)))" for r
    by (subst standardNormal.simps)
      (auto simp: Let_def split: option.split sum.split prod.split)
qed simp

lemma draws_standardNormal [draws_intros]: "draws 0 (\<lambda>r. standardNormal r)"
  by (rule draws_weaken [OF draws_standard]) simp

lemma draws_gamma_normal: "draws 16 (gamma_normal c)"
  by (rule draws_loop [OF draws_standard, where decide = "\<lambda>x. let v = js_add (num 1) (js_mul c x) in if js_le v (num 0) then None else Some (x, v)"])
    (simp, subst gamma_normal.simps, auto simp: Let_def split: option.split sum.split prod.split)

lemma draws_gamma_loop: "draws 24 (gamma_loop d c scale)"
proof (rule draws_loop)
  show "draws 24 (\<lambda>r. bindO (gamma_normal c r) (\<lambda>(r1, x, v). bindO (src_nextFloat64 r1) (\<lambda>(r2, u). Some (Inr (r2, x, v, u)))))"
    using draws_bind_strict [OF draws_gamma_normal draws_bind_strict [OF draws_float draws_value], of c "\<lambda>(x, v) u. (x, v, u)"]
    by (simp add: case_prod_unfold)
  show "gamma_loop d c scale r = bindO (bindO (gamma_normal c r) (\<lambda>(r1, x, v). bindO (src_nextFloat64 r1) (\<lambda>(r2, u). Some (Inr (r2, x, v, u)))))
    (\<lambda>(r', a). case (case a of (x, v0, u) \<Rightarrow> let v = js_mul (js_mul v0 v0) v0; xSquared = js_mul x x in
        if js_lt u (js_sub (num 1) (js_mul (js_mul (lit 331 4) xSquared) xSquared)) \<or>
           js_lt (ln_js u) (js_add (js_mul (lit 5 1) xSquared) (js_mul d (js_add (js_sub (num 1) v) (ln_js v))))
        then Some (js_mul (js_mul d v) scale) else None)
      of None \<Rightarrow> gamma_loop d c scale r' | Some b \<Rightarrow> Some (Inr (r', b)))" for r
    by (subst gamma_loop.simps)
      (auto simp: Let_def split: option.split sum.split prod.split)
qed simp

lemma draws_gamma_from_one [draws_intros]: "draws 0 (\<lambda>r. gamma_from_one shape scale r)"
  unfolding gamma_from_one_def Let_def by (rule draws_weaken [OF draws_gamma_loop]) simp

lemma draws_exponential: "draws 0 (exponential rate)"
  unfolding exponential_def [abs_def] by (intro draws_intros)

lemma draws_uniform: "draws 0 (uniform lo hi)"
  unfolding uniform_def [abs_def] by (intro draws_intros)

lemma draws_bernoulli: "draws 0 (bernoulli p)"
  unfolding bernoulli_def [abs_def] by (intro draws_intros)

lemma draws_option [draws_intros]:
  "(\<And>a. x = Some a \<Longrightarrow> draws n (f a)) \<Longrightarrow> (x = None \<Longrightarrow> draws n g) \<Longrightarrow> draws n (\<lambda>r. case x of None \<Rightarrow> g r | Some a \<Rightarrow> f a r)"
  by (cases x) simp_all

lemma draws_categorical: "draws 0 (categorical ws)"
  unfolding categorical_def [abs_def] by (intro draws_intros)

lemma draws_normal [draws_intros]: "draws 0 (normal mean stdDev)"
  unfolding normal_def [abs_def] by (intro draws_intros)

lemma draws_gamma [draws_intros]: "draws 0 (gamma shape scale)"
  unfolding gamma_def [abs_def] Let_def by (intro draws_intros)

lemma draws_chiSquared [draws_intros]: "draws 0 (chiSquared f)"
  unfolding chiSquared_def [abs_def] by (intro draws_intros)

lemma draws_studentT: "draws 0 (studentT f)"
  unfolding studentT_def [abs_def] by (intro draws_intros)

lemma draws_logNormal: "draws 0 (logNormal m s)"
  unfolding logNormal_def [abs_def] by (intro draws_intros)

section \<open>What the rejection loops return\<close>

text \<open>The answer of a rejection loop, written without the loop: the candidates drawn one after the
  other, the first one that is accepted and the value made of it; every candidate before it was
  refused. When the source has no further candidate the loop throws what drawing it throws.\<close>

fun repeated :: "'a drawing \<Rightarrow> nat \<Rightarrow> random_source \<Rightarrow> (random_source \<times> 'a list) result option" where
  "repeated d 0 r = Some (Inr (r, []))"
| "repeated d (Suc n) r = bindO (d r) (\<lambda>(r1, a). bindO (repeated d n r1) (\<lambda>(r2, as). Some (Inr (r2, a # as))))"

definition first_accepted :: "'a drawing \<Rightarrow> ('a \<Rightarrow> bool) \<Rightarrow> ('a \<Rightarrow> 'b) \<Rightarrow> random_source \<Rightarrow> (random_source \<times> 'b) result option \<Rightarrow> bool" where
  "first_accepted candidate accept value r answer \<longleftrightarrow>
     (\<exists>n r0 refused. repeated candidate n r = Some (Inr (r0, refused)) \<and> (\<forall>c \<in> set refused. \<not> accept c) \<and>
        ((\<exists>r' c. candidate r0 = Some (Inr (r', c)) \<and> accept c \<and> answer = Some (Inr (r', value c))) \<or>
         (\<exists>e. candidate r0 = Some (Inl e) \<and> answer = Some (Inl e))))"

definition symmetric_pair :: "(jsnum \<times> jsnum) drawing" where
  "symmetric_pair r = bindO (uniformSymmetric r) (\<lambda>(r1, u). bindO (uniformSymmetric r1) (\<lambda>(r2, v). Some (Inr (r2, u, v))))"

definition gamma_candidate :: "jsnum \<Rightarrow> (jsnum \<times> jsnum \<times> jsnum) drawing" where
  "gamma_candidate c r = bindO (gamma_normal c r) (\<lambda>(r1, x, v). bindO (src_nextFloat64 r1) (\<lambda>(r2, u). Some (Inr (r2, x, v, u))))"

lemma first_accepted_now:
  "candidate r = Some (Inr (r', c)) \<Longrightarrow> accept c \<Longrightarrow> first_accepted candidate accept value r (Some (Inr (r', value c)))"
  unfolding first_accepted_def by (intro exI [of _ 0] exI [of _ r] exI [of _ "[]"]) simp

lemma first_accepted_none:
  "candidate r = Some (Inl e) \<Longrightarrow> first_accepted candidate accept value r (Some (Inl e))"
  unfolding first_accepted_def by (intro exI [of _ 0] exI [of _ r] exI [of _ "[]"]) simp

lemma first_accepted_later:
  assumes "candidate r = Some (Inr (r1, c))" "\<not> accept c" "first_accepted candidate accept value r1 answer"
  shows "first_accepted candidate accept value r answer"
proof -
  from assms(3) obtain n r0 refused where "repeated candidate n r1 = Some (Inr (r0, refused))" "\<forall>c \<in> set refused. \<not> accept c"
    and "(\<exists>r' c. candidate r0 = Some (Inr (r', c)) \<and> accept c \<and> answer = Some (Inr (r', value c))) \<or>
      (\<exists>e. candidate r0 = Some (Inl e) \<and> answer = Some (Inl e))"
    unfolding first_accepted_def by blast
  then show ?thesis using assms(1,2) unfolding first_accepted_def
    by (intro exI [of _ "Suc n"] exI [of _ r0] exI [of _ "c # refused"]) simp
qed

text \<open>A loop over a body that consumes something reaches an accepted candidate or the end of the
  keystream.\<close>

lemma loop_first_accepted:
  assumes body: "draws n body" "0 < n"
    and loop: "\<And>r. L r = bindO (body r) (\<lambda>(r', a). if accept a then Some (Inr (r', value a)) else L r')"
    and "source_ok r"
  shows "first_accepted body accept value r (L r)"
  using \<open>source_ok r\<close>
proof (induction "nat (STREAM_END - source_pos r)" arbitrary: r rule: less_induct)
  case less
  from body(1) alike_refl [OF less.prems] show ?case
  proof (cases rule: drawsD)
    case (1 e)
    then show ?thesis by (simp add: loop [of r] first_accepted_none)
  next
    case (2 r1 q1 a)
    show ?thesis
    proof (cases "accept a")
      case True
      then show ?thesis using 2(1) by (simp add: loop [of r] first_accepted_now)
    next
      case False
      have ok: "source_ok r1" using alike_ok [OF 2(3)] by blast
      have "source_pos r < source_pos r1" "source_pos r1 \<le> STREAM_END"
        using body(2) source_end [OF ok] further_pos [OF 2(4)] by auto
      then have "first_accepted body accept value r1 (L r1)" using less.hyps ok by simp
      moreover have "L r = L r1" using 2(1) False by (simp add: loop [of r])
      ultimately show ?thesis using first_accepted_later [where candidate = body and accept = accept, OF 2(1)] False by simp
    qed
  qed
qed

text \<open>A draw of a fixed length: it fails exactly where the keystream has fewer bytes left.\<close>

definition takes :: "int \<Rightarrow> 'a drawing \<Rightarrow> bool" where
  "takes n d \<longleftrightarrow> (\<forall>r. source_ok r \<longrightarrow>
     (if source_pos r + n \<le> STREAM_END
      then \<exists>r' a. d r = Some (Inr (r', a)) \<and> source_ok r' \<and> source_pos r' = source_pos r + n
      else d r = Some (Inl (RangeError ''exhausted''))))"

lemma takes_bind:
  assumes "takes m d" "\<And>a. takes n (f a)" "0 \<le> n"
  shows "takes (m + n) (\<lambda>r. bindO (d r) (\<lambda>(r', a). f a r'))"
  unfolding takes_def
proof (intro allI impI)
  fix r assume ok: "source_ok r"
  show "if source_pos r + (m + n) \<le> STREAM_END
    then \<exists>r' a. bindO (d r) (\<lambda>(r', a). f a r') = Some (Inr (r', a)) \<and> source_ok r' \<and> source_pos r' = source_pos r + (m + n)
    else bindO (d r) (\<lambda>(r', a). f a r') = Some (Inl (RangeError ''exhausted''))"
  proof (cases "source_pos r + m \<le> STREAM_END")
    case True
    then obtain r1 a where "d r = Some (Inr (r1, a))" "source_ok r1" "source_pos r1 = source_pos r + m"
      using assms(1) ok unfolding takes_def by metis
    moreover then have "if source_pos r1 + n \<le> STREAM_END
      then \<exists>r' b. f a r1 = Some (Inr (r', b)) \<and> source_ok r' \<and> source_pos r' = source_pos r1 + n
      else f a r1 = Some (Inl (RangeError ''exhausted''))"
      using assms(2) [of a] unfolding takes_def by blast
    ultimately show ?thesis by (auto split: if_splits)
  next
    case False
    then have "d r = Some (Inl (RangeError ''exhausted''))" using assms(1) ok unfolding takes_def by metis
    then show ?thesis using False assms(3) by simp
  qed
qed

lemma takes_value: "takes 0 (\<lambda>r. Some (Inr (r, a)))"
  by (auto simp: takes_def dest: source_end)

lemma takes_map: "takes n d \<Longrightarrow> takes n (\<lambda>r. bindO (d r) (\<lambda>(r', a). Some (Inr (r', g a))))"
  using takes_bind [of n d 0 "\<lambda>a r. Some (Inr (r, g a))"] takes_value by fastforce

lemma float_stream_takes:
  assumes "stream_ok s"
  shows "if stream_pos s + 8 \<le> STREAM_END
    then \<exists>s' a. nextFloat64 s = Some (Inr (s', a)) \<and> stream_ok s' \<and> stream_pos s' = stream_pos s + 8
    else nextFloat64 s = Some (Inl (RangeError ''exhausted''))"
proof (cases "stream_pos s + 4 \<le> STREAM_END")
  case True
  then obtain s1 where s1: "nextUint32 s = Some (Inr (s1, word_at s))" "stream_ok s1" "stream_pos s1 = stream_pos s + 4"
    by (rule nextUint32_ok [OF assms]) (simp add: moved_def)
  show ?thesis
  proof (cases "stream_pos s1 + 4 \<le> STREAM_END")
    case True
    then obtain s2 where "nextUint32 s1 = Some (Inr (s2, word_at s1))" "stream_ok s2" "stream_pos s2 = stream_pos s1 + 4"
      by (rule nextUint32_ok [OF s1(2)]) (simp add: moved_def)
    then show ?thesis using s1 True by (simp add: nextFloat64_def Let_def)
  next
    case False
    then show ?thesis using s1 nextUint32_cases [OF s1(2)] by (simp add: nextFloat64_def Let_def)
  qed
next
  case False
  then show ?thesis using nextUint32_cases [OF assms] by (simp add: nextFloat64_def Let_def)
qed

lemma takes_float: "takes 8 src_nextFloat64"
  unfolding takes_def
proof (intro allI impI)
  fix r assume "source_ok r"
  then show "if source_pos r + 8 \<le> STREAM_END
    then \<exists>r' a. src_nextFloat64 r = Some (Inr (r', a)) \<and> source_ok r' \<and> source_pos r' = source_pos r + 8
    else src_nextFloat64 r = Some (Inl (RangeError ''exhausted''))"
  proof (induction r)
    case (Deterministic s)
    then show ?case using float_stream_takes [of s] by (auto split: if_splits)
  next
    case (SignInverting r)
    then show ?case by (auto split: if_splits)
  qed
qed

lemma takes_symmetric: "takes 8 uniformSymmetric"
  unfolding uniformSymmetric_def [abs_def] by (rule takes_map [OF takes_float])

lemma takes_pair: "takes 16 symmetric_pair"
  using takes_bind [OF takes_symmetric takes_map [OF takes_symmetric, of "\<lambda>v. (u, v)" for u]]
  unfolding symmetric_pair_def [abs_def] by simp

lemma draws_pair: "draws 16 symmetric_pair"
  using draws_bind_strict [OF draws_symmetric draws_bind_strict [OF draws_symmetric draws_value]]
  by (simp add: symmetric_pair_def [abs_def])

lemma draws_candidate: "draws 24 (gamma_candidate c)"
  using draws_bind_strict [OF draws_gamma_normal draws_bind_strict [OF draws_float draws_value], of c "\<lambda>(x, v) u. (x, v, u)"]
  by (simp add: gamma_candidate_def [abs_def] case_prod_unfold)

lemma standard_loop:
  "standardNormal r = bindO (symmetric_pair r) (\<lambda>(r', p).
     if (case p of (u, v) \<Rightarrow> let s = js_add (js_mul u u) (js_mul v v) in js_lt (num 0) s \<and> js_lt s (num 1))
     then Some (Inr (r', case p of (u, v) \<Rightarrow> let s = js_add (js_mul u u) (js_mul v v) in
       js_mul u (js_sqrt (js_div (js_mul (num (- 2)) (ln_js s)) s)))) else standardNormal r')"
  by (subst standardNormal.simps) (auto simp: symmetric_pair_def Let_def split: option.split sum.split prod.split)

lemma gamma_normal_loop:
  "gamma_normal c r = bindO (standardNormal r) (\<lambda>(r', x).
     if \<not> js_le (js_add (num 1) (js_mul c x)) (num 0) then Some (Inr (r', x, js_add (num 1) (js_mul c x))) else gamma_normal c r')"
  by (subst gamma_normal.simps) (auto simp: Let_def split: option.split sum.split prod.split)

lemma gamma_loop_loop:
  "gamma_loop d c scale r = bindO (gamma_candidate c r) (\<lambda>(r', p).
     if (case p of (x, v0, u) \<Rightarrow> let v = js_mul (js_mul v0 v0) v0; x2 = js_mul x x in
          js_lt u (js_sub (num 1) (js_mul (js_mul (lit 331 4) x2) x2)) \<or>
          js_lt (ln_js u) (js_add (js_mul (lit 5 1) x2) (js_mul d (js_add (js_sub (num 1) v) (ln_js v)))))
     then Some (Inr (r', case p of (x, v0, u) \<Rightarrow> js_mul (js_mul d (js_mul (js_mul v0 v0) v0)) scale)) else gamma_loop d c scale r')"
  by (subst gamma_loop.simps) (auto simp: gamma_candidate_def Let_def split: option.split sum.split prod.split)

text \<open>C40: the rejection loops return the first candidate their acceptance test takes, for every
  parameter and every source. \<open>standardNormal\<close> draws pairs of symmetric uniforms, passes over those
  with \<open>s = u\<^sup>2 + v\<^sup>2\<close> outside \<open>0 < s < 1\<close> and answers \<open>u * sqrt(-2 ln s / s)\<close> of the first pair
  inside; the inner gamma loop takes the first normal with \<open>1 + c x\<close> not \<open>\<le> 0\<close>, the outer one the
  first candidate that passes Marsaglia and Tsang's squeeze or their logarithmic test. A loop throws
  only what drawing a candidate throws, and a pair takes sixteen bytes and is refused exactly where
  the keystream has fewer left. From two sources at one place of one keystream every sampler,
  \<open>uniformSymmetric\<close>, \<open>bernoulli\<close> and \<open>categorical\<close> included, returns, with the same value or error,
  and stops at the same place.\<close>

theorem samplers_return:
  assumes "alike r q"
  shows "first_accepted symmetric_pair
      (\<lambda>(u, v). let s = js_add (js_mul u u) (js_mul v v) in js_lt (num 0) s \<and> js_lt s (num 1))
      (\<lambda>(u, v). let s = js_add (js_mul u u) (js_mul v v) in js_mul u (js_sqrt (js_div (js_mul (num (- 2)) (ln_js s)) s)))
      r (standardNormal r) \<and>
    (if source_pos r + 16 \<le> STREAM_END
     then \<exists>r' p. symmetric_pair r = Some (Inr (r', p)) \<and> source_pos r' = source_pos r + 16
     else symmetric_pair r = Some (Inl (RangeError ''exhausted''))) \<and>
    (\<forall>c. first_accepted standardNormal (\<lambda>x. \<not> js_le (js_add (num 1) (js_mul c x)) (num 0))
      (\<lambda>x. (x, js_add (num 1) (js_mul c x))) r (gamma_normal c r)) \<and>
    (\<forall>d c scale. first_accepted (gamma_candidate c)
      (\<lambda>(x, v0, u). let v = js_mul (js_mul v0 v0) v0; x2 = js_mul x x in
        js_lt u (js_sub (num 1) (js_mul (js_mul (lit 331 4) x2) x2)) \<or>
        js_lt (ln_js u) (js_add (js_mul (lit 5 1) x2) (js_mul d (js_add (js_sub (num 1) v) (ln_js v)))))
      (\<lambda>(x, v0, u). js_mul (js_mul d (js_mul (js_mul v0 v0) v0)) scale) r (gamma_loop d c scale r)) \<and>
    (\<forall>d \<in> {uniformSymmetric, standardNormal, uniform a b, normal a b, exponential a, gamma a b, chiSquared a, studentT a, logNormal a b}.
      (\<exists>e. d r = Some (Inl e) \<and> d q = Some (Inl e)) \<or>
      (\<exists>r' q' v. d r = Some (Inr (r', v)) \<and> d q = Some (Inr (q', v)) \<and> alike r' q')) \<and>
    ((\<exists>e. bernoulli a r = Some (Inl e) \<and> bernoulli a q = Some (Inl e)) \<or>
      (\<exists>r' q' v. bernoulli a r = Some (Inr (r', v)) \<and> bernoulli a q = Some (Inr (q', v)) \<and> alike r' q')) \<and>
    ((\<exists>e. categorical ws r = Some (Inl e) \<and> categorical ws q = Some (Inl e)) \<or>
      (\<exists>r' q' i. categorical ws r = Some (Inr (r', i)) \<and> categorical ws q = Some (Inr (q', i)) \<and> alike r' q'))"
proof (intro conjI allI)
  have ok: "source_ok r" using alike_ok [OF assms] by blast
  show "first_accepted symmetric_pair
      (\<lambda>(u, v). let s = js_add (js_mul u u) (js_mul v v) in js_lt (num 0) s \<and> js_lt s (num 1))
      (\<lambda>(u, v). let s = js_add (js_mul u u) (js_mul v v) in js_mul u (js_sqrt (js_div (js_mul (num (- 2)) (ln_js s)) s)))
      r (standardNormal r)"
    by (rule loop_first_accepted [OF draws_pair _ standard_loop ok]) simp
  show "if source_pos r + 16 \<le> STREAM_END
     then \<exists>r' p. symmetric_pair r = Some (Inr (r', p)) \<and> source_pos r' = source_pos r + 16
     else symmetric_pair r = Some (Inl (RangeError ''exhausted''))"
    using takes_pair ok unfolding takes_def by (fastforce split: if_splits)
  show "first_accepted standardNormal (\<lambda>x. \<not> js_le (js_add (num 1) (js_mul c x)) (num 0))
      (\<lambda>x. (x, js_add (num 1) (js_mul c x))) r (gamma_normal c r)" for c
    by (rule loop_first_accepted [OF draws_standard _ gamma_normal_loop ok]) simp
  show "first_accepted (gamma_candidate c)
      (\<lambda>(x, v0, u). let v = js_mul (js_mul v0 v0) v0; x2 = js_mul x x in
        js_lt u (js_sub (num 1) (js_mul (js_mul (lit 331 4) x2) x2)) \<or>
        js_lt (ln_js u) (js_add (js_mul (lit 5 1) x2) (js_mul d (js_add (js_sub (num 1) v) (ln_js v)))))
      (\<lambda>(x, v0, u). js_mul (js_mul d (js_mul (js_mul v0 v0) v0)) scale) r (gamma_loop d c scale r)" for d c scale
    by (rule loop_first_accepted [OF draws_candidate _ gamma_loop_loop ok]) simp
  have "\<forall>d \<in> {uniformSymmetric, standardNormal, uniform a b, normal a b, exponential a, gamma a b, chiSquared a, studentT a, logNormal a b}. draws 0 d"
    by (simp add: draws_weaken [OF draws_symmetric] draws_standardNormal draws_uniform draws_normal draws_exponential
        draws_gamma draws_chiSquared draws_studentT draws_logNormal)
  then show "\<forall>d \<in> {uniformSymmetric, standardNormal, uniform a b, normal a b, exponential a, gamma a b, chiSquared a, studentT a, logNormal a b}.
      (\<exists>e. d r = Some (Inl e) \<and> d q = Some (Inl e)) \<or>
      (\<exists>r' q' v. d r = Some (Inr (r', v)) \<and> d q = Some (Inr (q', v)) \<and> alike r' q')"
    using assms unfolding draws_def by blast
  show "(\<exists>e. bernoulli a r = Some (Inl e) \<and> bernoulli a q = Some (Inl e)) \<or>
      (\<exists>r' q' v. bernoulli a r = Some (Inr (r', v)) \<and> bernoulli a q = Some (Inr (q', v)) \<and> alike r' q')"
    using draws_bernoulli [of a] assms unfolding draws_def by blast
  show "(\<exists>e. categorical ws r = Some (Inl e) \<and> categorical ws q = Some (Inl e)) \<or>
      (\<exists>r' q' i. categorical ws r = Some (Inr (r', i)) \<and> categorical ws q = Some (Inr (q', i)) \<and> alike r' q')"
    using draws_categorical [of ws] assms unfolding draws_def by blast
qed

theorem samplers_return_witness:
  "\<exists>r. source_ok r \<and> first_accepted symmetric_pair
      (\<lambda>(u, v). let s = js_add (js_mul u u) (js_mul v v) in js_lt (num 0) s \<and> js_lt s (num 1))
      (\<lambda>(u, v). let s = js_add (js_mul u u) (js_mul v v) in js_mul u (js_sqrt (js_div (js_mul (num (- 2)) (ln_js s)) s)))
      r (standardNormal r)"
proof -
  obtain s where s: "source_ok (Deterministic s)" using demo_stream by auto
  from samplers_return [OF alike_refl [OF s], of "num 2" "num 3" "[num 1]"] s show ?thesis
    by (intro exI [of _ "Deterministic s"] conjI) (assumption, rule conjunct1)
qed

end
