(* ===== verification/Layers.thy ===== *)
theory Layers
  imports Sampler TimeCore
begin

text \<open>
  The layers a tick's magnitude is built from: packages/engine/src/cascade.ts (the volatility
  cascade and the magnitude drawn from it), regime.ts (the volatility regime), structure.ts (the
  compression and expansion phases), the duration coupling of hawkes.ts, floor.ts (the floor under
  the level) and modulator.ts (their composition). Every layer is a record of its fields and a
  drawing from its own source. The floor reads the layers beneath it through closures over shared
  objects; here the layers are fields of one record that the composition threads through.

  A magnitude sees elapsed time, the previous magnitude and its own source: no argument of any
  definition of this theory is a price or a sign.
\<close>

section \<open>The cascade\<close>

record magnitude_context =
  mc_intervalMs :: jsnum
  mc_previousMagnitude :: jsnum
  mc_instant :: int
  mc_sequence :: int

record cascade_config =
  cc_components :: jsnum
  cc_slowestHazardPerMs :: jsnum
  cc_hazardRatio :: jsnum
  cc_lowMultiplier :: jsnum

definition DEFAULT_CASCADE :: cascade_config where
  "DEFAULT_CASCADE = \<lparr>cc_components = num 10, cc_slowestHazardPerMs = js_div (num 1) (num (6 * 3600000)),
     cc_hazardRatio = lit 26 1, cc_lowMultiplier = lit 78 2\<rparr>"

definition MAX_CASCADE_COMPONENTS :: int where "MAX_CASCADE_COMPONENTS = 24"

text \<open>A finite number above a bound, the shape of most checks of a configuration.\<close>

definition finite_above :: "jsnum \<Rightarrow> jsnum \<Rightarrow> bool" where
  "finite_above b v \<longleftrightarrow> js_lt b v \<and> isFinite v"

definition assertCascadeConfig :: "cascade_config \<Rightarrow> unit result" where
  "assertCascadeConfig c =
     (if \<not> isInteger (cc_components c) \<or> js_lt (cc_components c) (num 1) \<or>
         js_lt (num MAX_CASCADE_COMPONENTS) (cc_components c) then Inl (RangeError ''Cascade components'')
      else if \<not> finite_above (num 0) (cc_slowestHazardPerMs c) then Inl (RangeError ''slowestHazardPerMs'')
      else if \<not> finite_above (num 1) (cc_hazardRatio c) then Inl (RangeError ''hazardRatio'')
      else if \<not> (js_lt (num 0) (cc_lowMultiplier c) \<and> js_le (cc_lowMultiplier c) (num 1))
        then Inl (RangeError ''lowMultiplier'')
      else Inr ())"

record cascade =
  ca_config :: cascade_config
  ca_multipliers :: "jsnum list"
  ca_hazards :: "jsnum list"
  ca_low :: jsnum
  ca_high :: jsnum

definition draw_multiplier :: "jsnum \<Rightarrow> jsnum \<Rightarrow> jsnum drawing" where
  "draw_multiplier low high r =
     bindO (src_nextBoolean r) (\<lambda>(r', b). Some (Inr (r', if b then high else low)))"

fun draw_multipliers :: "nat \<Rightarrow> jsnum \<Rightarrow> jsnum \<Rightarrow> jsnum list drawing" where
  "draw_multipliers 0 low high r = Some (Inr (r, []))"
| "draw_multipliers (Suc k) low high r =
     bindO (draw_multiplier low high r) (\<lambda>(r1, m).
     bindO (draw_multipliers k low high r1) (\<lambda>(r2, ms). Some (Inr (r2, m # ms))))"

definition new_VolatilityCascade :: "cascade_config \<Rightarrow> cascade drawing" where
  "new_VolatilityCascade config r = bindO (Some (assertCascadeConfig config)) (\<lambda>_.
     let low = cc_lowMultiplier config; high = js_sub (num 2) (cc_lowMultiplier config);
         components = nat (int_of (cc_components config)) in
     bindO (draw_multipliers components low high r) (\<lambda>(r', ms). Some (Inr (r',
       \<lparr>ca_config = config, ca_multipliers = ms,
        ca_hazards = map (\<lambda>k. js_mul (cc_slowestHazardPerMs config)
          (pow_js (cc_hazardRatio config) (num (int k)))) [0..<components],
        ca_low = low, ca_high = high\<rparr>))))"

fun advance_components :: "jsnum \<Rightarrow> jsnum \<Rightarrow> jsnum \<Rightarrow> jsnum list \<Rightarrow> jsnum list \<Rightarrow> jsnum \<Rightarrow>
    (jsnum list \<times> jsnum) drawing" where
  "advance_components low high intervalMs (h # hs) (m # ms) product r =
     (let switchProbability = js_sub (num 1) (exp_js (js_mul (js_neg h) intervalMs)) in
      bindO (src_nextFloat64 r) (\<lambda>(r1, u).
      bindO (if js_lt u switchProbability then draw_multiplier low high r1 else Some (Inr (r1, m))) (\<lambda>(r2, m').
      bindO (advance_components low high intervalMs hs ms (js_mul product m') r2) (\<lambda>(r3, out).
        Some (Inr (r3, (m' # fst out, snd out)))))))"
| "advance_components low high intervalMs _ _ product r = Some (Inr (r, ([], product)))"

definition cascade_advance :: "cascade \<Rightarrow> jsnum \<Rightarrow> (cascade \<times> jsnum) drawing" where
  "cascade_advance c intervalMs r =
     bindO (advance_components (ca_low c) (ca_high c) intervalMs (ca_hazards c) (ca_multipliers c) (num 1) r)
       (\<lambda>(r', out). Some (Inr (r', (c\<lparr>ca_multipliers := fst out\<rparr>, snd out))))"

definition cascade_current :: "cascade \<Rightarrow> jsnum" where
  "cascade_current c = foldl js_mul (num 1) (ca_multipliers c)"

definition hazardOf :: "cascade \<Rightarrow> nat \<Rightarrow> jsnum option" where
  "hazardOf c component = (if component < length (ca_hazards c) then Some (ca_hazards c ! component) else None)"

definition cascade_restore :: "cascade \<Rightarrow> jsnum list \<Rightarrow> cascade result" where
  "cascade_restore c multipliers =
     (if length multipliers \<noteq> length (ca_multipliers c) then Inl (RangeError ''Cascade snapshot'')
      else Inr (c\<lparr>ca_multipliers := multipliers\<rparr>))"

definition cascadeTypicalProduct :: "cascade_config \<Rightarrow> jsnum" where
  "cascadeTypicalProduct c = (let low = cc_lowMultiplier c in
     pow_js (js_mul low (js_sub (num 2) low)) (js_div (cc_components c) (num 2)))"

section \<open>The regime\<close>

datatype volatility_regime = Compressed | Normal | Elevated | Stressed

definition VOLATILITY_REGIMES :: "volatility_regime list" where
  "VOLATILITY_REGIMES = [Compressed, Normal, Elevated, Stressed]"

record regime_spec =
  rs_level :: jsnum
  rs_multiplier :: jsnum
  rs_activity :: jsnum
  rs_minimumMs :: jsnum
  rs_scaleMs :: jsnum
  rs_shape :: jsnum
  rs_transitions :: "jsnum list"

type_synonym regime_config = "volatility_regime \<Rightarrow> regime_spec"

fun REGIME_LEVELS :: "volatility_regime \<Rightarrow> jsnum" where
  "REGIME_LEVELS Compressed = lit 8 1" | "REGIME_LEVELS Normal = num 1"
| "REGIME_LEVELS Elevated = lit 124 2" | "REGIME_LEVELS Stressed = lit 16 1"

definition REGIME_ACTIVITY_SHARE :: jsnum where "REGIME_ACTIVITY_SHARE = lit 25 2"

definition relativeRegimeLevel :: "volatility_regime \<Rightarrow> jsnum" where
  "relativeRegimeLevel g = js_div (REGIME_LEVELS g) (REGIME_LEVELS Normal)"

definition splitRegimeLevel :: "jsnum \<Rightarrow> jsnum \<Rightarrow> jsnum \<Rightarrow> (jsnum \<times> jsnum) result" where
  "splitRegimeLevel level durationCoupling minimumActivity =
     (if \<not> finite_above (num 0) level then Inl (RangeError ''A regime level'')
      else let activity = js_max (pow_js level (js_mul (num 2) REGIME_ACTIVITY_SHARE)) minimumActivity in
        Inr (activity, js_mul level (pow_js activity (js_sub durationCoupling (lit 5 1)))))"

fun REGIME_DURATIONS :: "volatility_regime \<Rightarrow> jsnum \<times> jsnum" where
  "REGIME_DURATIONS Compressed = (num (30 * 60000), num (80 * 60000))"
| "REGIME_DURATIONS Normal = (num (45 * 60000), num (110 * 60000))"
| "REGIME_DURATIONS Elevated = (num (20 * 60000), num (40 * 60000))"
| "REGIME_DURATIONS Stressed = (num (10 * 60000), num (12 * 60000))"

fun REGIME_LADDER :: "volatility_regime \<Rightarrow> jsnum list" where
  "REGIME_LADDER Compressed = [num 0, num 1, num 0, num 0]"
| "REGIME_LADDER Normal = [lit 45 2, num 0, lit 55 2, num 0]"
| "REGIME_LADDER Elevated = [num 0, lit 65 2, num 0, lit 35 2]"
| "REGIME_LADDER Stressed = [num 0, num 0, num 1, num 0]"

text \<open>The check of the weights of leaving a state, with the number of states.\<close>

fun bad_weight :: "jsnum list \<Rightarrow> bool" where
  "bad_weight [] = False"
| "bad_weight (w # ws) = (\<not> js_le (num 0) w \<or> \<not> isFinite w \<or> bad_weight ws)"

definition assert_transitions :: "nat \<Rightarrow> jsnum list \<Rightarrow> unit result" where
  "assert_transitions states ws =
     (if length ws \<noteq> states then Inl (RangeError ''transition weights'')
      else if bad_weight ws then Inl (RangeError ''transition weights must be finite'')
      else if js_le (foldl js_add (num 0) ws) (num 0) then Inl (RangeError ''must be able to transition somewhere'')
      else Inr ())"

definition assert_regime :: "regime_spec \<Rightarrow> unit result" where
  "assert_regime spec =
     (if \<not> finite_above (num 0) (rs_multiplier spec) then Inl (RangeError ''multiplier'')
      else if \<not> finite_above (num 0) (rs_level spec) then Inl (RangeError ''level'')
      else if \<not> finite_above (num 0) (rs_activity spec) then Inl (RangeError ''activity'')
      else if \<not> js_le (num 0) (rs_minimumMs spec) \<or> \<not> isFinite (rs_minimumMs spec) then Inl (RangeError ''minimumMs'')
      else if \<not> finite_above (num 0) (rs_scaleMs spec) then Inl (RangeError ''scaleMs'')
      else if \<not> finite_above (num 0) (rs_shape spec) then Inl (RangeError ''shape'')
      else assert_transitions (length VOLATILITY_REGIMES) (rs_transitions spec))"

definition assertRegimeConfig :: "regime_config \<Rightarrow> unit result" where
  "assertRegimeConfig config = foldE (\<lambda>g _. assert_regime (config g)) VOLATILITY_REGIMES ()"

definition weibullSample :: "jsnum \<Rightarrow> jsnum \<Rightarrow> jsnum drawing" where
  "weibullSample scaleMs shape r = bindO (src_nextFloat64 r) (\<lambda>(r', f).
     let u = js_sub (num 1) f in
     Some (Inr (r', js_mul scaleMs (pow_js (js_neg (ln_js u)) (js_div (num 1) shape)))))"

definition MAX_TRANSITIONS_PER_TICK :: int where "MAX_TRANSITIONS_PER_TICK = 1000"

record regime_modulator =
  rm_config :: regime_config
  rm_regime :: volatility_regime
  rm_remainingMs :: jsnum
  rm_inForce :: volatility_regime

definition drawSojourn :: "regime_config \<Rightarrow> volatility_regime \<Rightarrow> jsnum drawing" where
  "drawSojourn config g r = bindO (weibullSample (rs_scaleMs (config g)) (rs_shape (config g)) r)
     (\<lambda>(r', w). Some (Inr (r', js_add (rs_minimumMs (config g)) w)))"

text \<open>The index a draw falls on, the last one when rounding leaves the draw past the sum.\<close>

definition transition_draw :: "'a list \<Rightarrow> 'a \<Rightarrow> jsnum list \<Rightarrow> 'a drawing" where
  "transition_draw states last_state weights r = (let total = foldl js_add (num 0) weights in
     bindO (src_nextFloat64 r) (\<lambda>(r', f). Some (Inr (r',
       case pick_weight (js_mul f total) weights (num 0) 0 of
         Some i \<Rightarrow> states ! i | None \<Rightarrow> last_state))))"

definition regime_transition :: "regime_config \<Rightarrow> volatility_regime \<Rightarrow> volatility_regime drawing" where
  "regime_transition config g = transition_draw VOLATILITY_REGIMES Stressed (rs_transitions (config g))"

definition new_VolatilityRegimeModulator :: "regime_config \<Rightarrow> volatility_regime \<Rightarrow> regime_modulator drawing" where
  "new_VolatilityRegimeModulator config initial r = bindO (Some (assertRegimeConfig config)) (\<lambda>_.
     bindO (drawSojourn config initial r) (\<lambda>(r', s). Some (Inr (r',
       \<lparr>rm_config = config, rm_regime = initial, rm_remainingMs = s, rm_inForce = initial\<rparr>))))"

function regime_loop :: "regime_config \<Rightarrow> int \<Rightarrow> volatility_regime \<Rightarrow> jsnum \<Rightarrow> (volatility_regime \<times> jsnum) drawing" where
  "regime_loop config guard g remainingMs r =
     (if js_le remainingMs (num 0) then
        bindO (regime_transition config g r) (\<lambda>(r1, g').
        bindO (drawSojourn config g' r1) (\<lambda>(r2, s).
          if MAX_TRANSITIONS_PER_TICK < guard + 1 then Some (Inl (RangeError ''Regime sojourns are degenerate''))
          else regime_loop config (guard + 1) g' (js_add remainingMs s) r2))
      else Some (Inr (r, (g, remainingMs))))"
  by pat_completeness auto
termination
  by (relation "measure (\<lambda>(config, guard, g, remainingMs, r). nat (MAX_TRANSITIONS_PER_TICK - guard))") auto

declare regime_loop.simps [simp del]

definition regime_advance :: "regime_modulator \<Rightarrow> magnitude_context \<Rightarrow> (regime_modulator \<times> jsnum) drawing" where
  "regime_advance m context r =
     (let multiplier = rs_multiplier (rm_config m (rm_regime m)) in
      bindO (regime_loop (rm_config m) 0 (rm_regime m) (js_sub (rm_remainingMs m) (mc_intervalMs context)) r)
        (\<lambda>(r', out). Some (Inr (r', (m\<lparr>rm_inForce := rm_regime m, rm_regime := fst out, rm_remainingMs := snd out\<rparr>,
          multiplier)))))"

definition regime_activity :: "regime_modulator \<Rightarrow> jsnum" where
  "regime_activity m = rs_activity (rm_config m (rm_regime m))"

definition levelInForce :: "regime_modulator \<Rightarrow> jsnum" where
  "levelInForce m = rs_level (rm_config m (rm_inForce m))"

record regime_snapshot =
  rn_regime :: "volatility_regime option"
  rn_remainingMs :: jsnum

text \<open>The regime named in a snapshot is \<open>None\<close> when it is not one of the four.\<close>

definition regime_restore :: "regime_modulator \<Rightarrow> regime_snapshot \<Rightarrow> regime_modulator result" where
  "regime_restore m state = (case rn_regime state of
     None \<Rightarrow> Inl (RangeError ''Unknown regime in snapshot'')
   | Some g \<Rightarrow> Inr (m\<lparr>rm_regime := g, rm_inForce := g, rm_remainingMs := rn_remainingMs state\<rparr>))"

definition DEFAULT_DURATION_COUPLING :: jsnum where "DEFAULT_DURATION_COUPLING = lit 25 2"

definition DEFAULT_REGIMES :: "regime_config result" where
  "DEFAULT_REGIMES =
     (let regime = (\<lambda>g. andThen (splitRegimeLevel (relativeRegimeLevel g) DEFAULT_DURATION_COUPLING (num 0))
        (\<lambda>(activity, multiplier). Inr \<lparr>rs_level = relativeRegimeLevel g, rs_multiplier = multiplier,
           rs_activity = activity, rs_minimumMs = fst (REGIME_DURATIONS g), rs_scaleMs = snd (REGIME_DURATIONS g),
           rs_shape = num 1, rs_transitions = REGIME_LADDER g\<rparr>)) in
      andThen (regime Compressed) (\<lambda>c. andThen (regime Normal) (\<lambda>n. andThen (regime Elevated) (\<lambda>e.
      andThen (regime Stressed) (\<lambda>s. Inr (\<lambda>g. case g of
        Compressed \<Rightarrow> c | Normal \<Rightarrow> n | Elevated \<Rightarrow> e | Stressed \<Rightarrow> s))))))"

section \<open>The structure phases\<close>

datatype structure_phase = Coil | Expansion | Neutral | Exhaustion

definition STRUCTURE_PHASES :: "structure_phase list" where
  "STRUCTURE_PHASES = [Coil, Expansion, Neutral, Exhaustion]"

record phase_spec =
  ph_multiplier :: jsnum
  ph_baseHazardPerMs :: jsnum
  ph_ageExponent :: jsnum
  ph_ageScaleMs :: jsnum
  ph_compressionSensitivity :: jsnum
  ph_transitions :: "jsnum list"

type_synonym structure_config = "structure_phase \<Rightarrow> phase_spec"

fun DEFAULT_STRUCTURE :: structure_config where
  "DEFAULT_STRUCTURE Coil = \<lparr>ph_multiplier = lit 7 1, ph_baseHazardPerMs = js_div (num 1) (num (12 * 60000)),
     ph_ageExponent = lit 16 1, ph_ageScaleMs = num (12 * 60000), ph_compressionSensitivity = lit 14 1,
     ph_transitions = [num 0, lit 75 2, lit 25 2, num 0]\<rparr>"
| "DEFAULT_STRUCTURE Expansion = \<lparr>ph_multiplier = lit 19 1, ph_baseHazardPerMs = js_div (num 1) (num (3 * 60000)),
     ph_ageExponent = lit 13 1, ph_ageScaleMs = num (3 * 60000), ph_compressionSensitivity = num 0,
     ph_transitions = [lit 15 2, num 0, lit 45 2, lit 4 1]\<rparr>"
| "DEFAULT_STRUCTURE Neutral = \<lparr>ph_multiplier = num 1, ph_baseHazardPerMs = js_div (num 1) (num (20 * 60000)),
     ph_ageExponent = lit 11 1, ph_ageScaleMs = num (20 * 60000), ph_compressionSensitivity = lit 6 1,
     ph_transitions = [lit 45 2, lit 25 2, num 0, lit 3 1]\<rparr>"
| "DEFAULT_STRUCTURE Exhaustion = \<lparr>ph_multiplier = lit 85 2, ph_baseHazardPerMs = js_div (num 1) (num (8 * 60000)),
     ph_ageExponent = lit 12 1, ph_ageScaleMs = num (8 * 60000), ph_compressionSensitivity = lit 4 1,
     ph_transitions = [lit 5 1, lit 5 2, lit 45 2, num 0]\<rparr>"

definition assert_phase :: "phase_spec \<Rightarrow> unit result" where
  "assert_phase spec =
     (if \<not> finite_above (num 0) (ph_multiplier spec) then Inl (RangeError ''multiplier'')
      else if \<not> finite_above (num 0) (ph_baseHazardPerMs spec) then Inl (RangeError ''baseHazardPerMs'')
      else if \<not> finite_above (num 0) (ph_ageScaleMs spec) then Inl (RangeError ''ageScaleMs'')
      else assert_transitions (length STRUCTURE_PHASES) (ph_transitions spec))"

definition assertStructureConfig :: "structure_config \<Rightarrow> unit result" where
  "assertStructureConfig config = foldE (\<lambda>p _. assert_phase (config p)) STRUCTURE_PHASES ()"

definition PATH_RATE_HALFLIFE_MS :: jsnum where "PATH_RATE_HALFLIFE_MS = num (30 * 60000)"

definition MAX_TIGHTNESS :: jsnum where "MAX_TIGHTNESS = num 3"

record structure_modulator =
  sm_config :: structure_config
  sm_phase :: structure_phase
  sm_multiplierInForce :: jsnum
  sm_ageMs :: jsnum
  sm_pathLength :: jsnum
  sm_averagePathRate :: jsnum

definition new_StructurePhaseModulator :: "structure_config \<Rightarrow> structure_phase \<Rightarrow> structure_modulator result" where
  "new_StructurePhaseModulator config initial = andThen (assertStructureConfig config) (\<lambda>_.
     Inr \<lparr>sm_config = config, sm_phase = initial, sm_multiplierInForce = num 1, sm_ageMs = num 0,
       sm_pathLength = num 0, sm_averagePathRate = num 0\<rparr>)"

definition phase_transition :: "structure_config \<Rightarrow> structure_phase \<Rightarrow> structure_phase drawing" where
  "phase_transition config p = transition_draw STRUCTURE_PHASES Exhaustion (ph_transitions (config p))"

text \<open>The running average of the path per unit of time, and the probability that the phase ends.\<close>

definition path_rate :: "jsnum \<Rightarrow> jsnum \<Rightarrow> jsnum \<Rightarrow> jsnum" where
  "path_rate average previousMagnitude interval =
     (let instantRate = js_div previousMagnitude interval;
          decay = exp_js (js_div (js_neg interval) PATH_RATE_HALFLIFE_MS) in
      if average = num 0 then instantRate
      else js_add (js_mul average decay) (js_mul instantRate (js_sub (num 1) decay)))"

definition phase_end_probability :: "phase_spec \<Rightarrow> jsnum \<Rightarrow> jsnum \<Rightarrow> jsnum \<Rightarrow> jsnum \<Rightarrow> jsnum" where
  "phase_end_probability spec ageMs pathLength averagePathRate interval =
     (let age = js_max (num 1) ageMs;
          ageTerm = pow_js (js_div age (ph_ageScaleMs spec)) (js_sub (ph_ageExponent spec) (num 1));
          phaseRate = js_div pathLength age;
          reference = (if js_lt (num 0) averagePathRate then averagePathRate else phaseRate);
          tightness = (if js_lt (num 0) reference then js_div phaseRate reference else num 1);
          compressionTerm = exp_js (js_mul (ph_compressionSensitivity spec)
            (js_sub (num 1) (js_min MAX_TIGHTNESS tightness)));
          hazard = js_mul (js_mul (ph_baseHazardPerMs spec) ageTerm) compressionTerm in
      js_sub (num 1) (exp_js (js_mul (js_neg (js_max (num 0) hazard)) interval)))"

definition structure_advance :: "structure_modulator \<Rightarrow> magnitude_context \<Rightarrow> (structure_modulator \<times> jsnum) drawing" where
  "structure_advance m context r =
     (let interval = js_max (num 1) (mc_intervalMs context);
          ageMs = js_add (sm_ageMs m) interval;
          pathLength = js_add (sm_pathLength m) (mc_previousMagnitude context);
          averagePathRate = path_rate (sm_averagePathRate m) (mc_previousMagnitude context) interval;
          spec = sm_config m (sm_phase m);
          multiplier = ph_multiplier spec;
          m1 = m\<lparr>sm_multiplierInForce := multiplier, sm_ageMs := ageMs, sm_pathLength := pathLength,
                 sm_averagePathRate := averagePathRate\<rparr> in
      bindO (src_nextFloat64 r) (\<lambda>(r1, u).
        if js_lt u (phase_end_probability spec ageMs pathLength averagePathRate interval) then
          bindO (phase_transition (sm_config m) (sm_phase m) r1) (\<lambda>(r2, p).
            Some (Inr (r2, (m1\<lparr>sm_phase := p, sm_ageMs := num 0, sm_pathLength := num 0\<rparr>, multiplier))))
        else Some (Inr (r1, (m1, multiplier)))))"

record structure_snapshot =
  sn_phase :: "structure_phase option"
  sn_ageMs :: jsnum
  sn_pathLength :: jsnum
  sn_averagePathRate :: jsnum

definition structure_restore :: "structure_modulator \<Rightarrow> structure_snapshot \<Rightarrow> structure_modulator result" where
  "structure_restore m state = (case sn_phase state of
     None \<Rightarrow> Inl (RangeError ''Unknown structure phase in snapshot'')
   | Some p \<Rightarrow> Inr (m\<lparr>sm_phase := p, sm_multiplierInForce := ph_multiplier (sm_config m p),
       sm_ageMs := sn_ageMs state, sm_pathLength := sn_pathLength state,
       sm_averagePathRate := sn_averagePathRate state\<rparr>))"

section \<open>Coupling, floor and composition\<close>

definition new_DurationCouplingModulator :: "jsnum \<Rightarrow> jsnum \<Rightarrow> (jsnum \<times> jsnum) result" where
  "new_DurationCouplingModulator exponent referenceIntervalMs =
     (if \<not> isFinite exponent \<or> js_lt exponent (num 0) \<or> js_lt (num 1) exponent then Inl (RangeError ''Coupling exponent'')
      else if \<not> finite_above (num 0) referenceIntervalMs then Inl (RangeError ''referenceIntervalMs'')
      else Inr (exponent, referenceIntervalMs))"

definition coupling_advance :: "jsnum \<Rightarrow> jsnum \<Rightarrow> magnitude_context \<Rightarrow> jsnum" where
  "coupling_advance exponent referenceIntervalMs context =
     (if exponent = num 0 then num 1
      else pow_js (js_div (js_max (num 1) (mc_intervalMs context)) referenceIntervalMs) exponent)"

record volatility_floor =
  vf_level :: jsnum
  vf_cascadeReference :: jsnum

definition assertVolatilityFloorConfig :: "volatility_floor \<Rightarrow> unit result" where
  "assertVolatilityFloorConfig c =
     (if \<not> finite_above (num 0) (vf_level c) then Inl (RangeError ''The volatility floor'')
      else if \<not> finite_above (num 0) (vf_cascadeReference c) then Inl (RangeError ''The cascade reference'')
      else Inr ())"

definition floor_level :: "volatility_floor \<Rightarrow> regime_modulator \<Rightarrow> cascade \<Rightarrow> structure_modulator \<Rightarrow> jsnum" where
  "floor_level c g k s = js_mul (js_mul (levelInForce g) (js_div (cascade_current k) (vf_cascadeReference c)))
     (sm_multiplierInForce s)"

definition floor_advance :: "volatility_floor \<Rightarrow> regime_modulator \<Rightarrow> cascade \<Rightarrow> structure_modulator \<Rightarrow> jsnum" where
  "floor_advance c g k s = (let level = floor_level c g k s in
     if js_le (vf_level c) level then num 1 else js_div (vf_level c) level)"

datatype modulator = RegimeModulator | StructureModulator | CouplingModulator jsnum jsnum | FloorModulator volatility_floor

text \<open>The cascade magnitude model under its stack of modulators, and the sources they draw from.\<close>

record magnitude_model =
  mm_baseVolatility :: jsnum
  mm_cascade :: cascade
  mm_regime :: regime_modulator
  mm_structure :: structure_modulator
  mm_modulators :: "modulator list"

record sources =
  so_sign :: random_source
  so_rounding :: random_source
  so_cascade :: random_source
  so_shock :: random_source
  so_arrival :: random_source
  so_regime :: random_source
  so_structure :: random_source

type_synonym 'a engine_drawing = "sources \<Rightarrow> (sources \<times> 'a) result option"

definition from_cascade :: "'a drawing \<Rightarrow> 'a engine_drawing" where
  "from_cascade d S = bindO (d (so_cascade S)) (\<lambda>(r, a). Some (Inr (S\<lparr>so_cascade := r\<rparr>, a)))"
definition from_shock :: "'a drawing \<Rightarrow> 'a engine_drawing" where
  "from_shock d S = bindO (d (so_shock S)) (\<lambda>(r, a). Some (Inr (S\<lparr>so_shock := r\<rparr>, a)))"
definition from_regime :: "'a drawing \<Rightarrow> 'a engine_drawing" where
  "from_regime d S = bindO (d (so_regime S)) (\<lambda>(r, a). Some (Inr (S\<lparr>so_regime := r\<rparr>, a)))"
definition from_structure :: "'a drawing \<Rightarrow> 'a engine_drawing" where
  "from_structure d S = bindO (d (so_structure S)) (\<lambda>(r, a). Some (Inr (S\<lparr>so_structure := r\<rparr>, a)))"
definition from_arrival :: "'a drawing \<Rightarrow> 'a engine_drawing" where
  "from_arrival d S = bindO (d (so_arrival S)) (\<lambda>(r, a). Some (Inr (S\<lparr>so_arrival := r\<rparr>, a)))"
definition from_rounding :: "'a drawing \<Rightarrow> 'a engine_drawing" where
  "from_rounding d S = bindO (d (so_rounding S)) (\<lambda>(r, a). Some (Inr (S\<lparr>so_rounding := r\<rparr>, a)))"
definition from_sign :: "'a drawing \<Rightarrow> 'a engine_drawing" where
  "from_sign d S = bindO (d (so_sign S)) (\<lambda>(r, a). Some (Inr (S\<lparr>so_sign := r\<rparr>, a)))"

definition cascade_magnitude :: "magnitude_model \<Rightarrow> magnitude_context \<Rightarrow> (magnitude_model \<times> jsnum) engine_drawing" where
  "cascade_magnitude m context S =
     bindO (from_cascade (cascade_advance (mm_cascade m) (mc_intervalMs context)) S) (\<lambda>(S1, out).
     let volatility = js_mul (mm_baseVolatility m) (snd out) in
     bindO (from_shock standardNormal S1) (\<lambda>(S2, z).
       Some (Inr (S2, (m\<lparr>mm_cascade := fst out\<rparr>, js_mul volatility (js_abs z))))))"

fun modulator_advance :: "modulator \<Rightarrow> magnitude_model \<Rightarrow> magnitude_context \<Rightarrow> (magnitude_model \<times> jsnum) engine_drawing" where
  "modulator_advance RegimeModulator m context S =
     bindO (from_regime (regime_advance (mm_regime m) context) S)
       (\<lambda>(S', out). Some (Inr (S', (m\<lparr>mm_regime := fst out\<rparr>, snd out))))"
| "modulator_advance StructureModulator m context S =
     bindO (from_structure (structure_advance (mm_structure m) context) S)
       (\<lambda>(S', out). Some (Inr (S', (m\<lparr>mm_structure := fst out\<rparr>, snd out))))"
| "modulator_advance (CouplingModulator e ref) m context S = Some (Inr (S, (m, coupling_advance e ref context)))"
| "modulator_advance (FloorModulator c) m context S =
     Some (Inr (S, (m, floor_advance c (mm_regime m) (mm_cascade m) (mm_structure m))))"

fun modulate :: "modulator list \<Rightarrow> magnitude_model \<Rightarrow> magnitude_context \<Rightarrow> jsnum \<Rightarrow> (magnitude_model \<times> jsnum) engine_drawing" where
  "modulate [] m context magnitude S = Some (Inr (S, (m, magnitude)))"
| "modulate (x # xs) m context magnitude S =
     bindO (modulator_advance x m context S) (\<lambda>(S', out).
       if \<not> finite_above (num 0) (snd out) then Some (Inl (RangeError ''non-positive multiplier''))
       else modulate xs (fst out) context (js_mul magnitude (snd out)) S')"

definition magnitude_advance :: "magnitude_model \<Rightarrow> magnitude_context \<Rightarrow> (magnitude_model \<times> jsnum) engine_drawing" where
  "magnitude_advance m context S =
     bindO (cascade_magnitude m context S) (\<lambda>(S', out). modulate (mm_modulators m) (fst out) context (snd out) S')"

text \<open>Snapshots: what a modulator keeps, in the order of the stack.\<close>

datatype modulator_snapshot = RegimeState regime_snapshot | StructureState structure_snapshot | NoState

record magnitude_snapshot =
  ms_inner :: "jsnum list"
  ms_modulators :: "modulator_snapshot list"

fun modulator_snap :: "magnitude_model \<Rightarrow> modulator \<Rightarrow> modulator_snapshot" where
  "modulator_snap m RegimeModulator = RegimeState
     \<lparr>rn_regime = Some (rm_regime (mm_regime m)), rn_remainingMs = rm_remainingMs (mm_regime m)\<rparr>"
| "modulator_snap m StructureModulator = StructureState
     \<lparr>sn_phase = Some (sm_phase (mm_structure m)), sn_ageMs = sm_ageMs (mm_structure m),
      sn_pathLength = sm_pathLength (mm_structure m), sn_averagePathRate = sm_averagePathRate (mm_structure m)\<rparr>"
| "modulator_snap m _ = NoState"

definition magnitude_snap :: "magnitude_model \<Rightarrow> magnitude_snapshot" where
  "magnitude_snap m = \<lparr>ms_inner = ca_multipliers (mm_cascade m), ms_modulators = map (modulator_snap m) (mm_modulators m)\<rparr>"

text \<open>A layer that keeps a state is given one of its own kind: a snapshot of another kind has no such
  name, and none throws a \<^verbatim>\<open>TypeError\<close>.\<close>

fun modulator_restore :: "modulator \<Rightarrow> modulator_snapshot \<Rightarrow> magnitude_model \<Rightarrow> magnitude_model result" where
  "modulator_restore RegimeModulator (RegimeState s) m =
     andThen (regime_restore (mm_regime m) s) (\<lambda>g. Inr (m\<lparr>mm_regime := g\<rparr>))"
| "modulator_restore RegimeModulator (StructureState s) m = Inl (RangeError ''Unknown regime in snapshot'')"
| "modulator_restore RegimeModulator NoState m = Inl (TypeError ''null'')"
| "modulator_restore StructureModulator (StructureState s) m =
     andThen (structure_restore (mm_structure m) s) (\<lambda>p. Inr (m\<lparr>mm_structure := p\<rparr>))"
| "modulator_restore StructureModulator (RegimeState s) m = Inl (RangeError ''Unknown structure phase in snapshot'')"
| "modulator_restore StructureModulator NoState m = Inl (TypeError ''null'')"
| "modulator_restore _ _ m = Inr m"

fun modulators_restore :: "modulator list \<Rightarrow> modulator_snapshot list \<Rightarrow> magnitude_model \<Rightarrow> magnitude_model result" where
  "modulators_restore (x # xs) (s # ss) m = andThen (modulator_restore x s m) (modulators_restore xs ss)"
| "modulators_restore _ _ m = Inr m"

definition magnitude_restore :: "magnitude_model \<Rightarrow> magnitude_snapshot \<Rightarrow> magnitude_model result" where
  "magnitude_restore m state =
     (if length (ms_modulators state) \<noteq> length (mm_modulators m) then Inl (RangeError ''modulators'')
      else andThen (cascade_restore (mm_cascade m) (ms_inner state)) (\<lambda>c.
        modulators_restore (mm_modulators m) (ms_modulators state) (m\<lparr>mm_cascade := c\<rparr>)))"

section \<open>What a run of the layers depends on\<close>

text \<open>
  Two states of the sources may be related in two ways that matter: they are at the same places of
  the same keystreams, or they differ in the sign source only. A computation \<open>tracks\<close> a relation
  when it returns from both of two related states: it throws the same error from both, or answers the
  same value and leaves related states. The property is closed under sequencing.
\<close>

definition tracks :: "(sources \<Rightarrow> sources \<Rightarrow> bool) \<Rightarrow> 'a engine_drawing \<Rightarrow> bool" where
  "tracks R d \<longleftrightarrow> (\<forall>S T. R S T \<longrightarrow>
     (\<exists>e. d S = Some (Inl e) \<and> d T = Some (Inl e)) \<or>
     (\<exists>S' T' a. d S = Some (Inr (S', a)) \<and> d T = Some (Inr (T', a)) \<and> R S' T'))"

named_theorems tracks_intros \<open>the shapes a computation over the sources is built from\<close>

lemma tracksD:
  assumes "tracks R d" "R S T"
  obtains e where "d S = Some (Inl e)" "d T = Some (Inl e)"
  | S' T' a where "d S = Some (Inr (S', a))" "d T = Some (Inr (T', a))" "R S' T'"
  using assms(1) [unfolded tracks_def, rule_format, OF assms(2)] that by metis

lemma tracks_value [tracks_intros]: "tracks R (\<lambda>S. Some (Inr (S, a)))"
  by (auto simp: tracks_def)

lemma tracks_throw [tracks_intros]: "tracks R (\<lambda>S. Some (Inl e))"
  by (auto simp: tracks_def)

lemma tracks_if [tracks_intros]:
  "(b \<Longrightarrow> tracks R d) \<Longrightarrow> (\<not> b \<Longrightarrow> tracks R d') \<Longrightarrow> tracks R (\<lambda>S. if b then d S else d' S)"
  by (cases b) simp_all

lemma tracks_guard [tracks_intros]:
  "(\<And>u. x = Inr u \<Longrightarrow> tracks R (f u)) \<Longrightarrow> tracks R (\<lambda>S. bindO (Some x) (\<lambda>u. f u S))"
  by (cases x) (simp_all add: tracks_throw)

lemma tracks_bind [tracks_intros]:
  assumes "tracks R d" "\<And>a. tracks R (f a)"
  shows "tracks R (\<lambda>S. bindO (d S) (\<lambda>(S', a). f a S'))"
  unfolding tracks_def
proof (intro allI impI)
  fix S T assume "R S T"
  with assms(1) show "(\<exists>e. bindO (d S) (\<lambda>(S', a). f a S') = Some (Inl e) \<and> bindO (d T) (\<lambda>(S', a). f a S') = Some (Inl e)) \<or>
    (\<exists>S' T' a. bindO (d S) (\<lambda>(S', a). f a S') = Some (Inr (S', a)) \<and> bindO (d T) (\<lambda>(S', a). f a S') = Some (Inr (T', a)) \<and> R S' T')"
  proof (cases rule: tracksD)
    case (2 S' T' a)
    from assms(2) [of a] \<open>R S' T'\<close> show ?thesis
      by (cases rule: tracksD) (use 2 in auto)
  qed auto
qed

text \<open>The sources of the layers, each read on its own: what a relation must allow for every
  computation that is blind to the sign to respect it.\<close>

locale blind_relation =
  fixes R :: "sources \<Rightarrow> sources \<Rightarrow> bool"
  assumes reads_cascade: "draws 0 c \<Longrightarrow> tracks R (from_cascade (c :: (cascade \<times> jsnum) drawing))"
    and reads_shock: "draws 0 d \<Longrightarrow> tracks R (from_shock (d :: jsnum drawing))"
    and reads_regime: "draws 0 g \<Longrightarrow> tracks R (from_regime (g :: (regime_modulator \<times> jsnum) drawing))"
    and reads_structure: "draws 0 p \<Longrightarrow> tracks R (from_structure (p :: (structure_modulator \<times> jsnum) drawing))"
    and reads_rounding: "draws 0 d \<Longrightarrow> tracks R (from_rounding (d :: jsnum drawing))"

text \<open>Every layer draws.\<close>

lemma draws_multiplier [draws_intros]: "draws 0 (\<lambda>r. draw_multiplier low high r)"
  unfolding draw_multiplier_def by (intro draws_intros)

lemma draws_components: "draws 0 (advance_components low high i hs ms acc)"
proof (induction hs arbitrary: ms acc)
  case Nil
  show ?case by (simp add: draws_value)
next
  case (Cons h hs)
  show ?case
  proof (cases ms)
    case Nil
    then show ?thesis by (simp add: draws_value)
  next
    case (Cons m ms')
    then show ?thesis
      unfolding Cons advance_components.simps(1) [abs_def] Let_def
      by (intro draws_intros Cons.IH)
  qed
qed

lemma draws_cascade [draws_intros]: "draws 0 (\<lambda>r. cascade_advance c i r)"
  unfolding cascade_advance_def by (intro draws_intros draws_components)

lemma draws_weibull [draws_intros]: "draws 0 (\<lambda>r. weibullSample a b r)"
  unfolding weibullSample_def Let_def by (intro draws_intros)

lemma draws_sojourn [draws_intros]: "draws 0 (\<lambda>r. drawSojourn config g r)"
  unfolding drawSojourn_def by (intro draws_intros)

lemma draws_transition [draws_intros]: "draws 0 (\<lambda>r. transition_draw ss l ws r)"
  unfolding transition_draw_def Let_def by (intro draws_intros)

lemma draws_regime_loop: "draws 0 (regime_loop config guard g rem)"
proof (induction "nat (MAX_TRANSITIONS_PER_TICK - guard)" arbitrary: guard g rem rule: less_induct)
  case less
  have "draws 0 (\<lambda>r. regime_loop config (guard + 1) g' rem' r)" if "guard < MAX_TRANSITIONS_PER_TICK" for g' rem'
    by (rule less) (use that in simp)
  then show ?case
    by (subst regime_loop.simps [abs_def], unfold regime_transition_def)
      (intro draws_intros, simp_all)
qed

lemma draws_regime [draws_intros]: "draws 0 (\<lambda>r. regime_advance m context r)"
  unfolding regime_advance_def Let_def by (intro draws_intros draws_regime_loop)

lemma draws_structure [draws_intros]: "draws 0 (\<lambda>r. structure_advance m context r)"
  unfolding structure_advance_def phase_transition_def Let_def by (intro draws_intros)

context blind_relation begin

lemma tracks_cascade [tracks_intros]: "tracks R (\<lambda>S. from_cascade (cascade_advance c i) S)"
  by (rule reads_cascade) (rule draws_cascade)

lemma tracks_shock [tracks_intros]: "tracks R (\<lambda>S. from_shock standardNormal S)"
  by (rule reads_shock) (rule draws_standardNormal)

lemma tracks_regime [tracks_intros]: "tracks R (\<lambda>S. from_regime (regime_advance m context) S)"
  by (rule reads_regime) (rule draws_regime)

lemma tracks_structure [tracks_intros]: "tracks R (\<lambda>S. from_structure (structure_advance m context) S)"
  by (rule reads_structure) (rule draws_structure)

lemma tracks_cascade_magnitude [tracks_intros]: "tracks R (\<lambda>S. cascade_magnitude m context S)"
  unfolding cascade_magnitude_def Let_def by (intro tracks_intros)

lemma tracks_modulator [tracks_intros]: "tracks R (\<lambda>S. modulator_advance x m context S)"
  by (cases x) (simp_all, (intro tracks_intros)+)

lemma tracks_modulate [tracks_intros]: "tracks R (\<lambda>S. modulate xs m context magnitude S)"
proof (induction xs arbitrary: m magnitude)
  case Nil
  show ?case by (simp add: tracks_value)
next
  case (Cons x xs)
  show ?case unfolding modulate.simps by (intro tracks_intros Cons.IH)
qed

text \<open>Whatever the layers answer, they answer from every related state of the sources.\<close>

lemma tracks_magnitude [tracks_intros]: "tracks R (\<lambda>S. magnitude_advance m context S)"
  unfolding magnitude_advance_def by (intro tracks_intros)

end

end
