(* ===== verification/Arrival.thy ===== *)
theory Arrival
  imports Layers
begin

text \<open>
  When the next tick comes: packages/engine/src/hawkes.ts, self-exciting arrivals whose baseline is
  the activity of the volatility regime, and packages/engine/src/arrival.ts, Poisson arrivals. An
  arrival model sees the interval that has elapsed, the size of the previous tick and its own
  source, and answers a whole number of milliseconds.
\<close>

record arrival_context =
  ac_elapsedSincePreviousMs :: jsnum
  ac_previousMagnitude :: jsnum
  ac_instant :: int
  ac_sequence :: int

section \<open>Self-exciting arrivals\<close>

record hawkes_config =
  hc_baseIntervalMs :: jsnum
  hc_branchingRatio :: jsnum
  hc_decayPerMs :: jsnum
  hc_referenceMagnitude :: jsnum
  hc_magnitudeAverageHalfLifeMs :: jsnum
  hc_maxIntensityMultiplier :: jsnum

definition DEFAULT_HAWKES :: hawkes_config where
  "DEFAULT_HAWKES = \<lparr>hc_baseIntervalMs = num 2500, hc_branchingRatio = lit 6 1,
     hc_decayPerMs = js_div (num 1) (num 120000), hc_referenceMagnitude = num 10,
     hc_magnitudeAverageHalfLifeMs = num (30 * 60000), hc_maxIntensityMultiplier = num 8\<rparr>"

definition assertHawkesConfig :: "hawkes_config \<Rightarrow> unit result" where
  "assertHawkesConfig c =
     (if \<not> finite_above (num 0) (hc_baseIntervalMs c) then Inl (RangeError ''baseIntervalMs'')
      else if \<not> js_le (num 0) (hc_branchingRatio c) \<or> \<not> isFinite (hc_branchingRatio c) then Inl (RangeError ''branchingRatio'')
      else if js_le (num 1) (hc_branchingRatio c) then Inl (RangeError ''branchingRatio must be below 1'')
      else if \<not> finite_above (num 0) (hc_decayPerMs c) then Inl (RangeError ''decayPerMs'')
      else if \<not> finite_above (num 0) (hc_referenceMagnitude c) then Inl (RangeError ''referenceMagnitude'')
      else if \<not> finite_above (num 0) (hc_magnitudeAverageHalfLifeMs c) then Inl (RangeError ''magnitudeAverageHalfLifeMs'')
      else if \<not> finite_above (num 1) (hc_maxIntensityMultiplier c) then Inl (RangeError ''maxIntensityMultiplier'')
      else Inr ())"

definition excitationPerEvent :: "hawkes_config \<Rightarrow> jsnum" where
  "excitationPerEvent c = js_mul (js_mul (hc_branchingRatio c) (hc_baseIntervalMs c)) (hc_decayPerMs c)"

definition LN2 :: jsnum where "LN2 = lit 6931471805599453 16"

definition MIN_REFERENCE_MAGNITUDE :: jsnum where "MIN_REFERENCE_MAGNITUDE = lit 1 9"

record hawkes =
  hk_config :: hawkes_config
  hk_excitation :: jsnum
  hk_averageMagnitude :: jsnum
  hk_observed :: bool

definition new_HawkesArrivalModel :: "hawkes_config \<Rightarrow> hawkes result" where
  "new_HawkesArrivalModel config = andThen (assertHawkesConfig config) (\<lambda>_.
     Inr \<lparr>hk_config = config,
       hk_excitation = js_div (hc_branchingRatio config) (js_sub (num 1) (hc_branchingRatio config)),
       hk_averageMagnitude = hc_referenceMagnitude config, hk_observed = False\<rparr>)"

text \<open>The activity source is \<open>None\<close> when the model was given none.\<close>

definition activity_of :: "jsnum option \<Rightarrow> jsnum result" where
  "activity_of source = (let activity = (case source of None \<Rightarrow> num 1 | Some a \<Rightarrow> a) in
     if \<not> finite_above (num 0) activity then Inl (RangeError ''Arrival activity'') else Inr activity)"

definition observe_magnitude :: "arrival_context \<Rightarrow> hawkes \<Rightarrow> hawkes" where
  "observe_magnitude context h =
     (let weight = js_sub (num 1) (exp_js (js_div
            (js_mul (js_neg (js_max (num 1) (ac_elapsedSincePreviousMs context))) LN2)
            (hc_magnitudeAverageHalfLifeMs (hk_config h)))) in
      if hk_observed h then h\<lparr>hk_averageMagnitude := js_add (hk_averageMagnitude h)
          (js_mul (js_sub (ac_previousMagnitude context) (hk_averageMagnitude h)) weight)\<rparr>
      else h\<lparr>hk_averageMagnitude := ac_previousMagnitude context, hk_observed := True\<rparr>)"

definition excite :: "arrival_context \<Rightarrow> hawkes \<Rightarrow> hawkes" where
  "excite context h =
     (let h1 = (if js_lt (num 0) (ac_elapsedSincePreviousMs context)
            then h\<lparr>hk_excitation := js_mul (hk_excitation h)
              (exp_js (js_mul (js_neg (hc_decayPerMs (hk_config h))) (ac_elapsedSincePreviousMs context)))\<rparr> else h);
          h2 = (if js_lt (num 0) (ac_previousMagnitude context) then observe_magnitude context h1 else h1);
          reference = js_max MIN_REFERENCE_MAGNITUDE (hk_averageMagnitude h2) in
      h2\<lparr>hk_excitation := js_add (hk_excitation h2)
        (js_mul (excitationPerEvent (hk_config h2)) (js_div (ac_previousMagnitude context) reference))\<rparr>)"

definition intensity :: "jsnum \<Rightarrow> hawkes \<Rightarrow> jsnum" where
  "intensity activity h = js_min (js_add activity (hk_excitation h))
     (js_mul activity (hc_maxIntensityMultiplier (hk_config h)))"

definition hawkes_nextIntervalMs :: "hawkes \<Rightarrow> jsnum option \<Rightarrow> arrival_context \<Rightarrow> (hawkes \<times> jsnum) drawing" where
  "hawkes_nextIntervalMs h activitySource context r =
     (let h' = excite context h in
      bindO (Some (activity_of activitySource)) (\<lambda>activity.
      let meanIntervalMs = js_div (hc_baseIntervalMs (hk_config h')) (intensity activity h') in
      bindO (src_nextFloat64 r) (\<lambda>(r', f). let u = js_sub (num 1) f in
        Some (Inr (r', (h', js_max (num 1) (js_floor (js_mul (js_neg (ln_js u)) meanIntervalMs))))))))"

record hawkes_snapshot =
  hn_excitation :: jsnum
  hn_averageMagnitude :: jsnum
  hn_observed :: "bool option"

definition hawkes_snap :: "hawkes \<Rightarrow> hawkes_snapshot" where
  "hawkes_snap h = \<lparr>hn_excitation = hk_excitation h, hn_averageMagnitude = hk_averageMagnitude h,
     hn_observed = Some (hk_observed h)\<rparr>"

definition hawkes_restore :: "hawkes \<Rightarrow> hawkes_snapshot \<Rightarrow> hawkes result" where
  "hawkes_restore h s =
     (if \<not> isFinite (hn_excitation s) \<or> js_lt (hn_excitation s) (num 0) then Inl (RangeError ''Invalid excitation'')
      else if \<not> isFinite (hn_averageMagnitude s) \<or> js_le (hn_averageMagnitude s) (num 0)
        then Inl (RangeError ''Invalid average magnitude'')
      else Inr (h\<lparr>hk_excitation := hn_excitation s, hk_averageMagnitude := hn_averageMagnitude s,
        hk_observed := (case hn_observed s of None \<Rightarrow> True | Some b \<Rightarrow> b)\<rparr>))"

section \<open>Poisson arrivals\<close>

definition new_PoissonArrivalModel :: "jsnum \<Rightarrow> jsnum result" where
  "new_PoissonArrivalModel meanIntervalMs =
     (if \<not> finite_above (num 0) meanIntervalMs then Inl (RangeError ''meanIntervalMs'') else Inr meanIntervalMs)"

definition poisson_nextIntervalMs :: "jsnum \<Rightarrow> jsnum drawing" where
  "poisson_nextIntervalMs meanIntervalMs r = bindO (src_nextFloat64 r) (\<lambda>(r', f).
     let raw = js_mul (js_neg (ln_js (js_sub (num 1) f))) meanIntervalMs in
     Some (Inr (r', js_max (num 1) (js_floor raw))))"

end
