(* ===== verification/Engine.thy ===== *)
theory Engine
  imports Arrival Market Label
begin

text \<open>
  The market engine: packages/engine/src/engine.ts (one tick, snapshots and their restoration),
  factory.ts (the canonical composition of streams, layers and arrivals) and mirror.ts (the run that
  compares an engine with its mirror image). An engine is a record of its fields; the streams it
  holds are one record of sources that every layer draws from by name. A throw ends the run of an
  engine: what its fields hold after one is not modelled.
\<close>

section \<open>The engine\<close>

record engine_start =
  eg_instant :: int
  eg_price :: int
  eg_sequence :: "int option"

record engine =
  en_logQuantum :: jsnum
  en_maxTicks :: "int option"
  en_sequence :: int
  en_produced :: int
  en_instant :: int
  en_price :: int
  en_previousMagnitude :: jsnum
  en_previousIntervalMs :: jsnum
  en_magnitude :: magnitude_model
  en_arrival :: hawkes
  en_sources :: sources

definition new_MarketEngine ::
    "jsnum \<Rightarrow> magnitude_model \<Rightarrow> hawkes \<Rightarrow> sources \<Rightarrow> engine_start \<Rightarrow> int option \<Rightarrow> engine" where
  "new_MarketEngine logQuantum magnitude arrival streams start maxTicks =
     \<lparr>en_logQuantum = logQuantum, en_maxTicks = maxTicks, en_sequence = (case eg_sequence start of None \<Rightarrow> 0 | Some n \<Rightarrow> n), en_produced = 0,
      en_instant = eg_instant start, en_price = eg_price start, en_previousMagnitude = num 0,
      en_previousIntervalMs = num 0, en_magnitude = magnitude, en_arrival = arrival, en_sources = streams\<rparr>"

text \<open>The interval until the tick, and the instant it ends at.\<close>

definition draw_interval :: "engine \<Rightarrow> (hawkes \<times> jsnum \<times> int) engine_drawing" where
  "draw_interval e S = bindO (Some (epochMillis (num (en_instant e)))) (\<lambda>i.
     let context = \<lparr>ac_elapsedSincePreviousMs = en_previousIntervalMs e,
           ac_previousMagnitude = en_previousMagnitude e, ac_instant = i, ac_sequence = en_sequence e\<rparr> in
     bindO (from_arrival (hawkes_nextIntervalMs (en_arrival e)
         (Some (regime_activity (mm_regime (en_magnitude e)))) context) S) (\<lambda>(S1, out).
       if \<not> isInteger (snd out) \<or> js_lt (snd out) (num 1) then Some (Inl (RangeError ''Arrival interval''))
       else bindO (Some (epochMillis (js_add (num (en_instant e)) (snd out)))) (\<lambda>tickInstant.
         Some (Inr (S1, (fst out, snd out, tickInstant))))))"

definition draw_magnitude :: "engine \<Rightarrow> jsnum \<Rightarrow> int \<Rightarrow> (magnitude_model \<times> jsnum) engine_drawing" where
  "draw_magnitude e intervalMs tickInstant S =
     (let context = \<lparr>mc_intervalMs = intervalMs, mc_previousMagnitude = en_previousMagnitude e,
           mc_instant = tickInstant, mc_sequence = en_sequence e + 1\<rparr> in
      bindO (magnitude_advance (en_magnitude e) context S) (\<lambda>(S1, out).
        if \<not> js_le (num 0) (snd out) \<or> \<not> isFinite (snd out) then Some (Inl (RangeError ''Magnitude''))
        else Some (Inr (S1, out))))"

text \<open>The lattice steps of the tick: the magnitude in quanta, rounded by a draw.\<close>

definition draw_steps :: "engine \<Rightarrow> jsnum \<Rightarrow> jsnum engine_drawing" where
  "draw_steps e quanta S = bindO (from_rounding src_nextFloat64 S)
     (\<lambda>(S1, u). Some (Inr (S1, js_floor (js_add quanta u))))"

text \<open>Everything of a tick but its direction: the layers after it, the quanta, the interval, the instant, the steps.\<close>

definition sign_blind_part ::
    "engine \<Rightarrow> (hawkes \<times> magnitude_model \<times> jsnum \<times> jsnum \<times> int \<times> jsnum) engine_drawing" where
  "sign_blind_part e S =
     bindO (draw_interval e S) (\<lambda>(S1, (arrival, intervalMs, tickInstant)).
     bindO (draw_magnitude e intervalMs tickInstant S1) (\<lambda>(S2, out).
     let quanta = js_div (snd out) (en_logQuantum e) in
     bindO (draw_steps e quanta S2) (\<lambda>(S3, steps).
       Some (Inr (S3, (arrival, fst out, quanta, intervalMs, tickInstant, steps))))))"

definition engine_tick :: "engine \<Rightarrow> (engine \<times> tick option) result option" where
  "engine_tick e =
     bindO (sign_blind_part e (en_sources e)) (\<lambda>(S1, (arrival, magnitude, quanta, intervalMs, tickInstant, steps)).
     bindO (from_sign src_nextBoolean S1) (\<lambda>(S2, up).
     let sign = (if up then num 1 else num (- 1)) in
     bindO (Some (logPrice (js_add (num (en_price e)) (js_mul sign steps)))) (\<lambda>tickPrice.
       Some (Inr (e\<lparr>en_sequence := en_sequence e + 1, en_produced := en_produced e + 1, en_instant := tickInstant,
           en_price := tickPrice, en_previousMagnitude := quanta, en_previousIntervalMs := intervalMs,
           en_magnitude := magnitude, en_arrival := arrival, en_sources := S2\<rparr>,
         Some \<lparr>instant = tickInstant, sequence = en_sequence e + 1, price = tickPrice\<rparr>)))))"

definition engine_next :: "engine \<Rightarrow> (engine \<times> tick option) result option" where
  "engine_next e =
     (case en_maxTicks e of
        Some n \<Rightarrow> if n \<le> en_produced e then Some (Inr (e, None)) else engine_tick e
      | None \<Rightarrow> engine_tick e)"

section \<open>Snapshots\<close>

record engine_snapshot =
  sp_sequence :: int
  sp_instant :: int
  sp_price :: int
  sp_previousMagnitude :: jsnum
  sp_previousIntervalMs :: "jsnum option"
  sp_magnitudeState :: magnitude_snapshot
  sp_arrivalState :: hawkes_snapshot
  sp_cursors :: "(string \<times> string) list"

definition STREAM_NAMES :: "string list" where
  "STREAM_NAMES = [''sign'', ''rounding'', ''cascade'', ''shock'', ''arrival'', ''regime'', ''structure'']"

definition engine_cursors :: "engine \<Rightarrow> (string \<times> string) list" where
  "engine_cursors e = (let S = en_sources e in
     [(''sign'', formatCursor (src_position (so_sign S))), (''rounding'', formatCursor (src_position (so_rounding S))),
      (''cascade'', formatCursor (src_position (so_cascade S))), (''shock'', formatCursor (src_position (so_shock S))),
      (''arrival'', formatCursor (src_position (so_arrival S))), (''regime'', formatCursor (src_position (so_regime S))),
      (''structure'', formatCursor (src_position (so_structure S)))])"

definition snapshot :: "engine \<Rightarrow> engine_snapshot result" where
  "snapshot e = andThen (epochMillis (num (en_instant e))) (\<lambda>i. andThen (logPrice (num (en_price e))) (\<lambda>p.
     Inr \<lparr>sp_sequence = en_sequence e, sp_instant = i, sp_price = p,
       sp_previousMagnitude = en_previousMagnitude e, sp_previousIntervalMs = Some (en_previousIntervalMs e),
       sp_magnitudeState = magnitude_snap (en_magnitude e), sp_arrivalState = hawkes_snap (en_arrival e),
       sp_cursors = engine_cursors e\<rparr>))"

text \<open>A source moved to the position a snapshot names for it.\<close>

definition seek_named :: "(string \<times> string) list \<Rightarrow> string \<Rightarrow> random_source \<Rightarrow> random_source result" where
  "seek_named cursors name r = (case map_of cursors name of
     None \<Rightarrow> Inl (RangeError ''Snapshot is missing the cursor'')
   | Some text \<Rightarrow> andThen (parseCursor text) (src_seek r))"

definition seek_sources :: "(string \<times> string) list \<Rightarrow> sources \<Rightarrow> sources result" where
  "seek_sources cursors S =
     andThen (seek_named cursors ''sign'' (so_sign S)) (\<lambda>sign.
     andThen (seek_named cursors ''rounding'' (so_rounding S)) (\<lambda>rounding.
     andThen (seek_named cursors ''cascade'' (so_cascade S)) (\<lambda>cascade.
     andThen (seek_named cursors ''shock'' (so_shock S)) (\<lambda>shock.
     andThen (seek_named cursors ''arrival'' (so_arrival S)) (\<lambda>arrival.
     andThen (seek_named cursors ''regime'' (so_regime S)) (\<lambda>regime.
     andThen (seek_named cursors ''structure'' (so_structure S)) (\<lambda>structure.
       Inr \<lparr>so_sign = sign, so_rounding = rounding, so_cascade = cascade, so_shock = shock,
         so_arrival = arrival, so_regime = regime, so_structure = structure\<rparr>)))))))"

definition restore :: "engine \<Rightarrow> engine_snapshot \<Rightarrow> engine result" where
  "restore e s =
     (if list_ex (\<lambda>name. name \<notin> set STREAM_NAMES) (map fst (sp_cursors s))
        then Inl (RangeError ''Snapshot references a stream this engine does not hold'')
      else if list_ex (\<lambda>name. map_of (sp_cursors s) name = None) STREAM_NAMES
        then Inl (RangeError ''Snapshot is missing the cursor'')
      else andThen (seek_sources (sp_cursors s) (en_sources e)) (\<lambda>S.
        andThen (magnitude_restore (en_magnitude e) (sp_magnitudeState s)) (\<lambda>m.
        andThen (hawkes_restore (en_arrival e) (sp_arrivalState s)) (\<lambda>a.
          Inr (e\<lparr>en_sequence := sp_sequence s, en_instant := sp_instant s, en_price := sp_price s,
            en_previousMagnitude := sp_previousMagnitude s,
            en_previousIntervalMs := (case sp_previousIntervalMs s of None \<Rightarrow> num 0 | Some v \<Rightarrow> v),
            en_magnitude := m, en_arrival := a, en_sources := S\<rparr>)))))"

definition logUnitsPerRelativeMove :: "jsnum \<Rightarrow> jsnum result" where
  "logUnitsPerRelativeMove relative =
     (if \<not> js_lt (num (- 1)) relative \<or> \<not> isFinite relative then Inl (RangeError ''Relative move'')
      else Inr (ln_js (js_add (num 1) relative)))"

section \<open>The canonical composition\<close>

record market_engine_config =
  me_instrument :: string
  me_logQuantum :: jsnum
  me_baseVolatility :: jsnum
  me_cascade :: cascade_config
  me_regimes :: regime_config
  me_structure :: structure_config
  me_arrival :: hawkes_config
  me_durationCoupling :: jsnum
  me_volatilityFloor :: "volatility_floor option"

record create_engine_options =
  co_config :: market_engine_config
  co_keyring :: master_keyring
  co_environment :: string
  co_keyEpoch :: jsnum
  co_start :: engine_start
  co_maxTicks :: "int option"
  co_cursors :: "string \<Rightarrow> string option"
  co_streams :: "string \<Rightarrow> random_source option"

definition engine_stream :: "hkdf \<Rightarrow> create_engine_options \<Rightarrow> string \<Rightarrow> random_source result" where
  "engine_stream hkdf opts purpose =
     andThen (case co_streams opts purpose of
         Some r \<Rightarrow> Inr r
       | None \<Rightarrow> andThen (derive hkdf (co_keyring opts) \<lparr>sl_env = co_environment opts,
             sl_asset = me_instrument (co_config opts), sl_purpose = purpose, sl_keyEpoch = co_keyEpoch opts\<rparr> None)
           (\<lambda>s. Inr (Deterministic s))) (\<lambda>r.
     case co_cursors opts purpose of None \<Rightarrow> Inr r | Some text \<Rightarrow> andThen (parseCursor text) (src_seek r))"

definition engine_streams :: "hkdf \<Rightarrow> create_engine_options \<Rightarrow> sources result" where
  "engine_streams hkdf opts = (let stream = engine_stream hkdf opts in
     andThen (stream ''sign'') (\<lambda>sign. andThen (stream ''rounding'') (\<lambda>rounding.
     andThen (stream ''cascade'') (\<lambda>cascade. andThen (stream ''shock'') (\<lambda>shock.
     andThen (stream ''arrival'') (\<lambda>arrival. andThen (stream ''regime'') (\<lambda>regime.
     andThen (stream ''structure'') (\<lambda>structure.
       Inr \<lparr>so_sign = sign, so_rounding = rounding, so_cascade = cascade, so_shock = shock,
         so_arrival = arrival, so_regime = regime, so_structure = structure\<rparr>))))))))"

text \<open>The layers are built in the order of the factory, drawing as their constructors do.\<close>

definition engine_layers :: "market_engine_config \<Rightarrow> (magnitude_model \<times> hawkes) engine_drawing" where
  "engine_layers config S0 =
     bindO (from_regime (new_VolatilityRegimeModulator (me_regimes config) Normal) S0) (\<lambda>(S1, regime).
     bindO (Some (new_StructurePhaseModulator (me_structure config) Neutral)) (\<lambda>structure.
     bindO (Some (require (finite_above (num 0) (me_baseVolatility config)) (RangeError ''baseVolatility''))) (\<lambda>_.
     bindO (from_cascade (new_VolatilityCascade (me_cascade config)) S1) (\<lambda>(S2, cascade).
     bindO (Some (new_DurationCouplingModulator (me_durationCoupling config)
         (hc_baseIntervalMs (me_arrival config)))) (\<lambda>coupling.
     bindO (Some (case me_volatilityFloor config of None \<Rightarrow> Inr []
         | Some c \<Rightarrow> andThen (assertVolatilityFloorConfig c) (\<lambda>_. Inr [FloorModulator c]))) (\<lambda>floor_stack.
     bindO (Some (new_HawkesArrivalModel (me_arrival config))) (\<lambda>arrival.
       Some (Inr (S2, (\<lparr>mm_baseVolatility = me_baseVolatility config, mm_cascade = cascade, mm_regime = regime,
          mm_structure = structure,
          mm_modulators = [RegimeModulator, StructureModulator, CouplingModulator (fst coupling) (snd coupling)] @ floor_stack\<rparr>,
         arrival))))))))))"

definition createMarketEngine :: "hkdf \<Rightarrow> create_engine_options \<Rightarrow> engine result option" where
  "createMarketEngine hkdf opts =
     bindO (Some (engine_streams hkdf opts)) (\<lambda>S0.
     bindO (engine_layers (co_config opts) S0) (\<lambda>(S, (magnitude, arrival)).
       Some (Inr (new_MarketEngine (me_logQuantum (co_config opts)) magnitude arrival S (co_start opts) (co_maxTicks opts)))))"

section \<open>The relations a run keeps\<close>

text \<open>At the same places of the same keystreams; and the same but for the direction of the coin.\<close>

definition alike_sources :: "sources \<Rightarrow> sources \<Rightarrow> bool" where
  "alike_sources S T \<longleftrightarrow> alike (so_sign S) (so_sign T) \<and> alike (so_rounding S) (so_rounding T) \<and>
     alike (so_cascade S) (so_cascade T) \<and> alike (so_shock S) (so_shock T) \<and> alike (so_arrival S) (so_arrival T) \<and>
     alike (so_regime S) (so_regime T) \<and> alike (so_structure S) (so_structure T)"

abbreviation sources_ok :: "sources \<Rightarrow> bool" where
  "sources_ok S \<equiv> alike_sources S S"

definition opposite :: "sources \<Rightarrow> sources \<Rightarrow> bool" where
  "opposite S T \<longleftrightarrow> alike_sources (S\<lparr>so_sign := SignInverting (so_sign S)\<rparr>) T"

text \<open>Every computation but the coin reads the sources one at a time.\<close>

locale blind_engine = blind_relation +
  assumes reads_arrival: "draws 0 h \<Longrightarrow> tracks R (from_arrival (h :: (hawkes \<times> jsnum) drawing))"
begin

lemma tracks_hawkes [tracks_intros]: "tracks R (\<lambda>S. from_arrival (hawkes_nextIntervalMs h a context) S)"
proof -
  have "draws 0 (\<lambda>r. hawkes_nextIntervalMs h a context r)"
    unfolding hawkes_nextIntervalMs_def Let_def by (intro draws_intros)
  then show ?thesis by (rule reads_arrival)
qed

lemma tracks_round [tracks_intros]: "tracks R (\<lambda>S. from_rounding src_nextFloat64 S)"
  by (rule reads_rounding) (rule draws_float_0)

text \<open>Everything of a tick but its direction is the same from related states, and always returns.\<close>

lemma tracks_sign_blind: "tracks R (sign_blind_part e)"
proof -
  have "tracks R (\<lambda>S. draw_interval e S)"
    unfolding draw_interval_def Let_def by (intro tracks_intros)
  moreover have "tracks R (\<lambda>S. draw_magnitude e i t S)" for i t
    unfolding draw_magnitude_def Let_def by (intro tracks_intros)
  moreover have "tracks R (\<lambda>S. draw_steps e q S)" for q
    unfolding draw_steps_def Let_def by (intro tracks_intros)
  moreover have split: "sign_blind_part e = (\<lambda>S. bindO (draw_interval e S) (\<lambda>(S1, a).
     bindO (draw_magnitude e (fst (snd a)) (snd (snd a)) S1) (\<lambda>(S2, out).
     bindO (draw_steps e (js_div (snd out) (en_logQuantum e)) S2) (\<lambda>(S3, steps).
       Some (Inr (S3, (fst a, fst out, js_div (snd out) (en_logQuantum e), fst (snd a), snd (snd a), steps)))))))"
    by (rule ext) (simp add: sign_blind_part_def Let_def case_prod_unfold)
  ultimately show ?thesis by (simp only: split) (intro tracks_intros)
qed

end

lemma reads_one:
  assumes "draws 0 d" "\<And>S T. R S T \<Longrightarrow> alike (sel S) (sel T)"
    and "\<And>S T r q. R S T \<Longrightarrow> alike r q \<Longrightarrow> further 0 (sel S) r \<Longrightarrow> R (upd r S) (upd q T)"
  shows "tracks R (\<lambda>S. bindO (d (sel S)) (\<lambda>(r, a). Some (Inr (upd r S, a))))"
  unfolding tracks_def
proof (intro allI impI)
  fix S T assume R: "R S T"
  from assms(1) assms(2) [OF R] show "(\<exists>e. bindO (d (sel S)) (\<lambda>(r, a). Some (Inr (upd r S, a))) = Some (Inl e) \<and>
      bindO (d (sel T)) (\<lambda>(r, a). Some (Inr (upd r T, a))) = Some (Inl e)) \<or>
    (\<exists>S' T' a. bindO (d (sel S)) (\<lambda>(r, a). Some (Inr (upd r S, a))) = Some (Inr (S', a)) \<and>
      bindO (d (sel T)) (\<lambda>(r, a). Some (Inr (upd r T, a))) = Some (Inr (T', a)) \<and> R S' T')"
    by (cases rule: drawsD) (use assms(3) [OF R] in auto)
qed

interpretation replay: blind_engine alike_sources
proof
  show "tracks alike_sources (from_cascade c)" if "draws 0 c" for c :: "(cascade \<times> jsnum) drawing"
    unfolding from_cascade_def by (rule reads_one [OF that]) (auto simp: alike_sources_def)
  show "tracks alike_sources (from_shock d)" if "draws 0 d" for d :: "jsnum drawing"
    unfolding from_shock_def by (rule reads_one [OF that]) (auto simp: alike_sources_def)
  show "tracks alike_sources (from_regime g)" if "draws 0 g" for g :: "(regime_modulator \<times> jsnum) drawing"
    unfolding from_regime_def by (rule reads_one [OF that]) (auto simp: alike_sources_def)
  show "tracks alike_sources (from_structure p)" if "draws 0 p" for p :: "(structure_modulator \<times> jsnum) drawing"
    unfolding from_structure_def by (rule reads_one [OF that]) (auto simp: alike_sources_def)
  show "tracks alike_sources (from_rounding d)" if "draws 0 d" for d :: "jsnum drawing"
    unfolding from_rounding_def by (rule reads_one [OF that]) (auto simp: alike_sources_def)
  show "tracks alike_sources (from_arrival h)" if "draws 0 h" for h :: "(hawkes \<times> jsnum) drawing"
    unfolding from_arrival_def by (rule reads_one [OF that]) (auto simp: alike_sources_def)
qed

interpretation mirror: blind_engine opposite
proof
  show "tracks opposite (from_cascade c)" if "draws 0 c" for c :: "(cascade \<times> jsnum) drawing"
    unfolding from_cascade_def by (rule reads_one [OF that]) (auto simp: opposite_def alike_sources_def)
  show "tracks opposite (from_shock d)" if "draws 0 d" for d :: "jsnum drawing"
    unfolding from_shock_def by (rule reads_one [OF that]) (auto simp: opposite_def alike_sources_def)
  show "tracks opposite (from_regime g)" if "draws 0 g" for g :: "(regime_modulator \<times> jsnum) drawing"
    unfolding from_regime_def by (rule reads_one [OF that]) (auto simp: opposite_def alike_sources_def)
  show "tracks opposite (from_structure p)" if "draws 0 p" for p :: "(structure_modulator \<times> jsnum) drawing"
    unfolding from_structure_def by (rule reads_one [OF that]) (auto simp: opposite_def alike_sources_def)
  show "tracks opposite (from_rounding d)" if "draws 0 d" for d :: "jsnum drawing"
    unfolding from_rounding_def by (rule reads_one [OF that]) (auto simp: opposite_def alike_sources_def)
  show "tracks opposite (from_arrival h)" if "draws 0 h" for h :: "(hawkes \<times> jsnum) drawing"
    unfolding from_arrival_def by (rule reads_one [OF that]) (auto simp: opposite_def alike_sources_def)
qed

section \<open>The price moves by a whole number of steps\<close>

lemma logPrice_of_int: "logPrice (js_of_rat (of_int n)) = (if valid_price n then Inr n else Inl (RangeError ''logPrice''))"
  using safe_of_int [of n] int_of_safe [of n] by (simp add: logPrice_def valid_price_def)

text \<open>The move of a tick is one integer, added for one side of the coin and subtracted for the other,
  or no safe price results from either.\<close>

lemma signed_move:
  fixes w :: jsnum
  defines "v \<equiv> js_floor w"
  shows "(\<exists>j. \<forall>p. logPrice (js_add (num p) (js_mul (num 1) v)) = (if valid_price (p + j) then Inr (p + j) else Inl (RangeError ''logPrice'')) \<and>
      logPrice (js_add (num p) (js_mul (num (- 1)) v)) = (if valid_price (p - j) then Inr (p - j) else Inl (RangeError ''logPrice''))) \<or>
    (\<forall>p b. logPrice (js_add (num p) (js_mul (if b then num 1 else num (- 1)) v)) = Inl (RangeError ''logPrice''))"
proof (cases w)
  case (Fin x)
  let ?k = "\<lfloor>x\<rfloor>" and ?r = "js_of_rat (of_int \<lfloor>x\<rfloor>)"
  have m: "js_mul (num 1) v = ?r" "js_mul (num (- 1)) v = js_neg ?r"
    using js_of_rat_neg [of "of_int ?k"] by (simp_all add: v_def Fin num_def)
  show ?thesis
  proof (cases ?r)
    case (Fin y)
    then have "y = fl (of_int ?k)" by (simp add: js_of_rat_def Let_def split: if_splits)
    then obtain j where y: "y = of_int j" using fl_integer [of ?k] by (auto elim: Ints_cases)
    have "js_add (num p) ?r = js_of_rat (of_int (p + j))" "js_add (num p) (js_neg ?r) = js_of_rat (of_int (p - j))" for p
      unfolding Fin y num_def by simp_all
    then show ?thesis unfolding m by (intro disjI1 exI [of _ j]) (simp only: logPrice_of_int, simp)
  next
    case PosInf
    then have "js_mul (if b then num 1 else num (- 1)) v = (if b then PosInf else NegInf)" for b using m by simp
    then show ?thesis by (intro disjI2) (simp add: num_def logPrice_def)
  next
    case NegInf
    then have "js_mul (if b then num 1 else num (- 1)) v = (if b then NegInf else PosInf)" for b using m by simp
    then show ?thesis by (intro disjI2) (simp add: num_def logPrice_def)
  next
    case NaN
    then have "js_mul (if b then num 1 else num (- 1)) v = NaN" for b using m by simp
    then show ?thesis by (intro disjI2) (simp add: num_def logPrice_def)
  qed
qed (auto simp: v_def num_def logPrice_def js_signed_inf_def)

lemma opposite_price:
  assumes "logPrice (js_add (num p) (js_mul (if b then num 1 else num (- 1)) (js_floor w))) = Inr q"
  shows "logPrice (js_add (num (2 * c - p)) (js_mul (if \<not> b then num 1 else num (- 1)) (js_floor w))) =
    (if valid_price (2 * c - q) then Inr (2 * c - q) else Inl (RangeError ''logPrice''))"
  using signed_move [of w]
proof
  assume "\<exists>j. \<forall>p. logPrice (js_add (num p) (js_mul (num 1) (js_floor w))) = (if valid_price (p + j) then Inr (p + j) else Inl (RangeError ''logPrice'')) \<and>
      logPrice (js_add (num p) (js_mul (num (- 1)) (js_floor w))) = (if valid_price (p - j) then Inr (p - j) else Inl (RangeError ''logPrice''))"
  then obtain j where j: "\<And>p. logPrice (js_add (num p) (js_mul (num 1) (js_floor w))) = (if valid_price (p + j) then Inr (p + j) else Inl (RangeError ''logPrice''))"
    "\<And>p. logPrice (js_add (num p) (js_mul (num (- 1)) (js_floor w))) = (if valid_price (p - j) then Inr (p - j) else Inl (RangeError ''logPrice''))"
    by blast
  have "q = (if b then p + j else p - j)" using assms by (cases b) (simp_all only: if_True if_False j, simp_all split: if_splits)
  then show ?thesis by (cases b) (simp_all only: if_True if_False not_True_eq_False not_False_eq_True j, simp_all add: algebra_simps)
qed (use assms in simp)

section \<open>The mirror image\<close>

text \<open>Runs of an engine: its ticks until it has produced \<open>n\<close> of them or has none left.\<close>

fun engine_run :: "nat \<Rightarrow> engine \<Rightarrow> (engine \<times> tick list) result option" where
  "engine_run 0 e = Some (Inr (e, []))"
| "engine_run (Suc n) e = bindO (engine_next e) (\<lambda>(e', t). case t of
     None \<Rightarrow> Some (Inr (e', []))
   | Some t \<Rightarrow> bindO (engine_run n e') (\<lambda>(e'', ts). Some (Inr (e'', t # ts))))"

definition reflect :: "int \<Rightarrow> tick \<Rightarrow> tick" where
  "reflect c t = t\<lparr>price := 2 * c - price t\<rparr>"

text \<open>Two engines in the same state but for the price, reflected in \<open>c\<close>, and the coin.\<close>

definition mirrored :: "int \<Rightarrow> engine \<Rightarrow> engine \<Rightarrow> bool" where
  "mirrored c e f \<longleftrightarrow> opposite (en_sources e) (en_sources f) \<and>
     f = e\<lparr>en_price := 2 * c - en_price e, en_sources := en_sources f\<rparr>"

lemma opposite_coin:
  assumes "opposite S T"
  shows "(\<exists>e. from_sign src_nextBoolean S = Some (Inl e) \<and> from_sign src_nextBoolean T = Some (Inl e)) \<or>
    (\<exists>S' T' b. from_sign src_nextBoolean S = Some (Inr (S', b)) \<and> from_sign src_nextBoolean T = Some (Inr (T', \<not> b)) \<and> opposite S' T')"
proof -
  have "alike (SignInverting (so_sign S)) (so_sign T)" using assms by (simp add: opposite_def alike_sources_def)
  then obtain q where q: "so_sign T = SignInverting q" "alike (so_sign S) q" by (cases "so_sign T") simp_all
  from draws_boolean q(2) show ?thesis
  proof (cases rule: drawsD)
    case (1 e)
    then show ?thesis using q by (simp add: from_sign_def)
  next
    case (2 r' q' a)
    then show ?thesis using q assms by (auto simp: from_sign_def opposite_def alike_sources_def)
  qed
qed

lemma sign_blind_cong:
  assumes "en_instant f = en_instant e" "en_sequence f = en_sequence e" "en_previousMagnitude f = en_previousMagnitude e"
    "en_previousIntervalMs f = en_previousIntervalMs e" "en_arrival f = en_arrival e" "en_logQuantum f = en_logQuantum e"
    "magnitude_advance (en_magnitude f) = magnitude_advance (en_magnitude e)"
    "regime_activity (mm_regime (en_magnitude f)) = regime_activity (mm_regime (en_magnitude e))"
  shows "sign_blind_part f = sign_blind_part e"
  unfolding sign_blind_part_def [abs_def] draw_interval_def draw_magnitude_def draw_steps_def assms by (rule refl)

lemma tick_parts:
  "engine_tick e = bindO (sign_blind_part e (en_sources e)) (\<lambda>(S1, a). bindO (from_sign src_nextBoolean S1) (\<lambda>(S2, up).
     bindO (Some (logPrice (js_add (num (en_price e)) (js_mul (if up then num 1 else num (- 1)) (snd (snd (snd (snd (snd a)))))))))
       (\<lambda>p. Some (Inr (e\<lparr>en_sequence := en_sequence e + 1, en_produced := en_produced e + 1,
           en_instant := fst (snd (snd (snd (snd a)))), en_price := p, en_previousMagnitude := fst (snd (snd a)),
           en_previousIntervalMs := fst (snd (snd (snd a))), en_magnitude := fst (snd a), en_arrival := fst a,
           en_sources := S2\<rparr>,
         Some \<lparr>instant = fst (snd (snd (snd (snd a)))), sequence = en_sequence e + 1, price = p\<rparr>)))))"
  by (simp add: engine_tick_def case_prod_unfold Let_def)

lemma sign_blind_steps:
  assumes "sign_blind_part e S = Some (Inr (S', a))"
  shows "\<exists>w. snd (snd (snd (snd (snd a)))) = js_floor w"
  using assms by (auto simp: sign_blind_part_def draw_steps_def Let_def bindO_Inr split: prod.splits)

lemma mirrored_tick:
  assumes "mirrored c e f" "engine_next e = Some (Inr (e', Some t))"
  shows "if valid_price (2 * c - price t)
    then \<exists>f'. engine_next f = Some (Inr (f', Some (reflect c t))) \<and> mirrored c e' f'
    else engine_next f = Some (Inl (RangeError ''logPrice''))"
proof -
  note f = assms(1) [unfolded mirrored_def, THEN conjunct2] and opp = assms(1) [unfolded mirrored_def, THEN conjunct1]
  let ?S = "en_sources e" and ?T = "en_sources f"
  have fields: "en_price f = 2 * c - en_price e" "en_sequence f = en_sequence e" "en_maxTicks f = en_maxTicks e"
    "en_produced f = en_produced e"
    by (subst f, simp)+
  have same: "sign_blind_part f = sign_blind_part e" by (rule sign_blind_cong) (subst f, simp)+
  have e: "engine_tick e = Some (Inr (e', Some t))" using assms(2) by (auto simp: engine_next_def split: option.splits if_splits)
  have g: "engine_next f = engine_tick f"
    using assms(2) by (auto simp: engine_next_def fields split: option.splits if_splits)
  from mirror.tracks_sign_blind [of e] opp show ?thesis
  proof (cases rule: tracksD)
    case (1 x)
    then show ?thesis using e by (simp add: tick_parts)
  next
    case (2 S1 T1 a)
    from opposite_coin [OF 2(3)] consider x where "from_sign src_nextBoolean S1 = Some (Inl x)"
      | S2 T2 b where "from_sign src_nextBoolean S1 = Some (Inr (S2, b))" "from_sign src_nextBoolean T1 = Some (Inr (T2, \<not> b))" "opposite S2 T2"
      by blast
    then show ?thesis
    proof cases
      case (1 x)
      then show ?thesis using e 2(1) by (simp add: tick_parts)
    next
      case coin: (2 S2 T2 b)
      obtain w where w: "snd (snd (snd (snd (snd a)))) = js_floor w" using sign_blind_steps [OF 2(1)] by blast
      let ?at = "\<lambda>p s. logPrice (js_add (num p) (js_mul s (js_floor w)))"
      let ?s = "if b then num 1 else num (- 1)" and ?s' = "if \<not> b then num 1 else num (- 1)"
      obtain q where q: "?at (en_price e) ?s = Inr q" and e': "e' = e\<lparr>en_sequence := en_sequence e + 1, en_produced := en_produced e + 1,
           en_instant := fst (snd (snd (snd (snd a)))), en_price := q, en_previousMagnitude := fst (snd (snd a)),
           en_previousIntervalMs := fst (snd (snd (snd a))), en_magnitude := fst (snd a), en_arrival := fst a,
           en_sources := S2\<rparr>" and t: "t = \<lparr>instant = fst (snd (snd (snd (snd a)))), sequence = en_sequence e + 1, price = q\<rparr>"
        using e 2(1) coin(1) unfolding tick_parts by (cases "?at (en_price e) ?s") (auto simp: w)
      note other = opposite_price [OF q, of c]
      have no: "engine_next f = Some (Inl (RangeError ''logPrice''))" if "\<not> valid_price (2 * c - q)"
        using 2(2) coin(2) other that by (simp add: g tick_parts [of f] same w fields)
      have "engine_tick f = Some (Inr (f\<lparr>en_sequence := en_sequence e + 1, en_produced := en_produced e + 1,
           en_instant := fst (snd (snd (snd (snd a)))), en_price := 2 * c - q, en_previousMagnitude := fst (snd (snd a)),
           en_previousIntervalMs := fst (snd (snd (snd a))), en_magnitude := fst (snd a), en_arrival := fst a,
           en_sources := T2\<rparr>, Some (reflect c t)))" if "valid_price (2 * c - q)"
        using 2(2) coin(2) other that by (simp add: tick_parts [of f] same w fields reflect_def t)
      moreover have "mirrored c e' (f\<lparr>en_sequence := en_sequence e + 1, en_produced := en_produced e + 1,
           en_instant := fst (snd (snd (snd (snd a)))), en_price := 2 * c - q, en_previousMagnitude := fst (snd (snd a)),
           en_previousIntervalMs := fst (snd (snd (snd a))), en_magnitude := fst (snd a), en_arrival := fst a,
           en_sources := T2\<rparr>)"
        unfolding mirrored_def e' using coin(3) by (subst f) simp
      ultimately show ?thesis using no unfolding g t by auto
    qed
  qed
qed

text \<open>A mirrored engine produces the reflected ticks.\<close>

lemma mirrored_run:
  assumes "mirrored c e f" "engine_run n e = Some (Inr (e', ts))" "\<forall>t\<in>set ts. valid_price (2 * c - price t)"
  shows "\<exists>f'. engine_run n f = Some (Inr (f', map (reflect c) ts)) \<and> mirrored c e' f'"
  using assms
proof (induction n arbitrary: e f ts e')
  case (Suc n)
  from Suc.prems(2) [simplified, unfolded bindO_Inr] obtain e1 t where e1: "engine_next e = Some (Inr (e1, t))"
    "(case t of None \<Rightarrow> Some (Inr (e1, [])) | Some t \<Rightarrow> bindO (engine_run n e1) (\<lambda>(e'', ts). Some (Inr (e'', t # ts)))) = Some (Inr (e', ts))"
    by auto
  show ?case
  proof (cases t)
    case None
    have "en_maxTicks f = en_maxTicks e" "en_produced f = en_produced e"
      using Suc.prems(1) unfolding mirrored_def by (metis engine.ext_inject engine.surjective engine.update_convs(6,11))+
    moreover have "\<exists>m. en_maxTicks e = Some m \<and> m \<le> en_produced e \<and> e1 = e"
      using e1(1) None by (auto simp: engine_next_def tick_parts bindO_Inr split: option.splits if_splits)
    ultimately show ?thesis using e1 None Suc.prems(1) by (auto simp: engine_next_def)
  next
    case (Some t')
    from e1(2) [unfolded Some, simplified, unfolded bindO_Inr] obtain e2 us where us: "engine_run n e1 = Some (Inr (e2, us))" "ts = t' # us" "e' = e2"
      by auto
    obtain f1 where f1: "engine_next f = Some (Inr (f1, Some (reflect c t')))" "mirrored c e1 f1"
      using mirrored_tick [OF Suc.prems(1), of e1 t'] e1(1) Suc.prems(3) us(2) Some by auto
    from Suc.IH [OF f1(2) us(1)] obtain f2 where "engine_run n f1 = Some (Inr (f2, map (reflect c) us))" "mirrored c e2 f2"
      using Suc.prems(3) us(2) by auto
    then show ?thesis using f1(1) us by simp
  qed
qed auto

section \<open>Ticks go forward\<close>

lemma interval_forward:
  assumes "draw_interval e S = Some (Inr (S', (a, v, i)))"
  shows "valid_instant (en_instant e) \<and> valid_instant i \<and> en_instant e < i"
proof -
  have now: "valid_instant (en_instant e)"
    using assms by (auto simp: draw_interval_def epochMillis_num split: if_splits)
  have "isInteger v \<and> \<not> js_lt v (num 1) \<and> epochMillis (js_add (num (en_instant e)) v) = Inr i"
    using assms now by (auto simp: draw_interval_def epochMillis_num bindO_Inr Let_def split: if_splits)
  then obtain k where k: "v = num k" "1 \<le> k" "epochMillis (js_add (num (en_instant e)) (num k)) = Inr i"
    using isInteger_num [of v] num_simps(8) [of "int_of v" 1] by (metis not_less)
  then have "i = en_instant e + k" "i \<le> MAX_EPOCH_MILLIS"
    using now epochMillis_sum [of "en_instant e" k] by (auto simp: valid_instant_def split: if_splits)
  with k now show ?thesis by (simp add: valid_instant_def)
qed

lemma tick_forward:
  assumes "engine_next e = Some (Inr (e', Some t))"
  shows "valid_instant (en_instant e)" "valid_instant (instant t)" "valid_price (price t)" "en_instant e < instant t"
    "sequence t = en_sequence e + 1" "en_sequence e' = sequence t" "en_instant e' = instant t" "en_price e' = price t"
    "en_maxTicks e' = en_maxTicks e"
proof -
  have "engine_tick e = Some (Inr (e', Some t))" using assms by (auto simp: engine_next_def split: option.splits if_splits)
  then obtain S1 a v i p where p: "draw_interval e (en_sources e) = Some (Inr (S1, (a, v, i)))"
    "logPrice p = Inr (price t)" "instant t = i" "sequence t = en_sequence e + 1" "en_sequence e' = sequence t"
    "en_instant e' = instant t" "en_price e' = price t" "en_maxTicks e' = en_maxTicks e"
    by (auto simp: engine_tick_def sign_blind_part_def bindO_Inr Let_def)
  with interval_forward [OF p(1)] show "valid_instant (en_instant e)" "valid_instant (instant t)" "valid_price (price t)"
    "en_instant e < instant t" "sequence t = en_sequence e + 1" "en_sequence e' = sequence t" "en_instant e' = instant t"
    "en_price e' = price t" "en_maxTicks e' = en_maxTicks e"
    by (auto simp: logPrice_Inr_iff)
qed

text \<open>From well-formed sources a step returns.\<close>

lemma engine_next_cases:
  assumes "sources_ok (en_sources e)"
  obtains x where "engine_next e = Some (Inl x)" | "engine_next e = Some (Inr (e, None))"
  | e' t where "engine_next e = Some (Inr (e', Some t))" "sources_ok (en_sources e')"
proof -
  have "(\<exists>x. engine_tick e = Some (Inl x)) \<or> (\<exists>e' t. engine_tick e = Some (Inr (e', Some t)) \<and> sources_ok (en_sources e'))"
  proof (cases rule: tracksD [OF replay.tracks_sign_blind [of e] assms])
    case (1 x)
    then show ?thesis by (simp add: tick_parts)
  next
    case (2 S T a)
    have S: "sources_ok S" using 2(1,2,3) by simp
    then have "alike (so_sign S) (so_sign S)" by (simp add: alike_sources_def)
    with draws_boolean show ?thesis
    proof (cases rule: drawsD)
      case (1 x)
      then show ?thesis using 2(1) by (simp add: tick_parts from_sign_def)
    next
      case coin: (2 r q b)
      let ?p = "logPrice (js_add (num (en_price e)) (js_mul (if b then num 1 else num (- 1)) (snd (snd (snd (snd (snd a)))))))"
      from coin have "alike r r" by simp
      then show ?thesis using 2(1) coin S by (cases ?p) (simp_all add: tick_parts from_sign_def alike_sources_def)
    qed
  qed
  moreover have "engine_next e = engine_tick e \<or> engine_next e = Some (Inr (e, None))"
    by (simp add: engine_next_def split: option.split)
  ultimately show ?thesis using that by metis
qed

text \<open>Ticks that number on from a sequence and move on from an instant.\<close>

fun ticks_after :: "int \<Rightarrow> int \<Rightarrow> tick list \<Rightarrow> bool" where
  "ticks_after n i [] = True"
| "ticks_after n i (t # ts) \<longleftrightarrow> sequence t = n + 1 \<and> i < instant t \<and> valid_instant (instant t) \<and> valid_price (price t) \<and>
     ticks_after (n + 1) (instant t) ts"

end
