(* ===== verification/MirrorTest.thy ===== *)
theory MirrorTest
  imports Engine
begin

text \<open>
  The mirror test of packages/engine/src/mirror.ts, run on engines of packages/engine/src/factory.ts:
  an engine is run to an interior tick, its snapshot restored into two fresh engines of which one has
  the coin inverted, and the two are compared tick by tick. The theorem is that the comparison of
  engines the factory builds never finds a difference, whatever the configuration, the streams and the
  interior index: the precondition of ADR-0003 as a property of the composition rather than of one run.

  \<^verbatim>\<open>signSource\<close> gives a fresh source in the same state at each call, and is one source here;
  \<^verbatim>\<open>JSON.stringify\<close> of a latent state is a parameter. Counts are taken at their value, which for a
  count above \<^verbatim>\<open>2^53\<close> a loop over a Number would not reach.
\<close>

section \<open>The harness\<close>

datatype divergence_kind = IncrementDivergence | LatentStateDivergence | IntervalDivergence

record mirror_divergence =
  dv_kind :: divergence_kind
  dv_step :: int

record mirror_result =
  mi_snapshotAt :: int
  mi_steps :: int
  mi_divergences :: "mirror_divergence list"
  mi_mirrored :: bool

datatype burn_in = BurnInTicks jsnum | InteriorRange jsnum jsnum

record mirror_options =
  mo_burnInTicks :: burn_in
  mo_compareTicks :: jsnum
  mo_interior :: "random_source option"

definition MAX_REPORTED_DIVERGENCES :: nat where "MAX_REPORTED_DIVERGENCES = 5"

definition positive_integer :: "jsnum \<Rightarrow> bool" where
  "positive_integer n \<longleftrightarrow> isInteger n \<and> \<not> js_lt n (num 1)"

definition interiorIndex :: "mirror_options \<Rightarrow> jsnum result option" where
  "interiorIndex opts = (case mo_burnInTicks opts of
     BurnInTicks n \<Rightarrow> Some (if \<not> positive_integer n then Inl (RangeError ''burnInTicks'') else Inr n)
   | InteriorRange low high \<Rightarrow>
       if \<not> positive_integer low \<or> \<not> isInteger high \<or> js_lt high low then Some (Inl (RangeError ''burnInTicks range''))
       else (case mo_interior opts of
          None \<Rightarrow> Some (Inl (RangeError ''A burnInTicks range needs an interior stream''))
        | Some r \<Rightarrow> bindO (delegate (\<lambda>s. nextBoundedUint32 s (js_add (js_sub high low) (num 1))) r)
            (\<lambda>(r', v). Some (Inr (js_add low (num v))))))"

text \<open>Run an engine to the interior point, counting its ticks.\<close>

fun run_to :: "nat \<Rightarrow> engine \<Rightarrow> (engine \<times> int) result option" where
  "run_to 0 e = Some (Inr (e, 0))"
| "run_to (Suc n) e = bindO (engine_next e) (\<lambda>(e', t). case t of
     None \<Rightarrow> Some (Inr (e', 0))
   | Some _ \<Rightarrow> bindO (run_to n e') (\<lambda>(e'', k). Some (Inr (e'', k + 1))))"

definition step_divergences ::
    "int \<Rightarrow> tick \<Rightarrow> tick \<Rightarrow> int \<Rightarrow> int \<Rightarrow> bool \<Rightarrow> mirror_divergence list" where
  "step_divergences step a b straightPrevious mirroredPrevious latentDiffers =
     (let straightDelta = js_sub (num (price a)) (num straightPrevious);
          mirroredDelta = js_sub (num (price b)) (num mirroredPrevious) in
      (if \<not> js_eq straightDelta (js_neg mirroredDelta) then [\<lparr>dv_kind = IncrementDivergence, dv_step = step\<rparr>] else []) @
      (if instant a \<noteq> instant b then [\<lparr>dv_kind = IntervalDivergence, dv_step = step\<rparr>] else []) @
      (if latentDiffers then [\<lparr>dv_kind = LatentStateDivergence, dv_step = step\<rparr>] else []))"

fun mirror_loop :: "(magnitude_snapshot \<Rightarrow> string) \<Rightarrow> nat \<Rightarrow> int \<Rightarrow> engine \<Rightarrow> engine \<Rightarrow> int \<Rightarrow> int \<Rightarrow>
    mirror_divergence list \<Rightarrow> int \<Rightarrow> (int \<times> mirror_divergence list) result option" where
  "mirror_loop stringify 0 step straight negated sp mp ds compared = Some (Inr (compared, ds))"
| "mirror_loop stringify (Suc n) step straight negated sp mp ds compared =
     bindO (engine_next straight) (\<lambda>(straight', a). bindO (engine_next negated) (\<lambda>(negated', b).
       case a of None \<Rightarrow> Some (Inr (compared, ds))
       | Some a \<Rightarrow> (case b of None \<Rightarrow> Some (Inr (compared, ds))
       | Some b \<Rightarrow> bindO (Some (snapshot straight')) (\<lambda>latentA. bindO (Some (snapshot negated')) (\<lambda>latentB.
           let ds' = ds @ step_divergences step a b sp mp
                 (stringify (sp_magnitudeState latentA) \<noteq> stringify (sp_magnitudeState latentB)) in
           if MAX_REPORTED_DIVERGENCES \<le> length ds' then Some (Inr (step, ds'))
           else mirror_loop stringify n (step + 1) straight' negated' (price a) (price b) ds' step)))))"

text \<open>The two continuations of one snapshot, and the whole test.\<close>

definition compare_continuations :: "(magnitude_snapshot \<Rightarrow> string) \<Rightarrow> engine \<Rightarrow> engine \<Rightarrow> engine_snapshot \<Rightarrow> jsnum \<Rightarrow>
    int \<Rightarrow> mirror_result result option" where
  "compare_continuations stringify straight0 negated0 s compareTicks snapshotAt =
     bindO (Some (restore straight0 s)) (\<lambda>straight.
     bindO (Some (restore negated0 s)) (\<lambda>negated.
     bindO (Some (logPrice (num (en_price straight)))) (\<lambda>sp.
     bindO (Some (logPrice (num (en_price negated)))) (\<lambda>mp.
     bindO (mirror_loop stringify (nat (int_of compareTicks)) 1 straight negated sp mp [] 0) (\<lambda>(compared, ds).
       Some (Inr \<lparr>mi_snapshotAt = snapshotAt, mi_steps = compared, mi_divergences = ds, mi_mirrored = ds = []\<rparr>))))))"

definition runMirrorTest :: "(magnitude_snapshot \<Rightarrow> string) \<Rightarrow> (random_source \<Rightarrow> engine result option) \<Rightarrow>
    random_source \<Rightarrow> mirror_options \<Rightarrow> mirror_result result option" where
  "runMirrorTest stringify build signSource opts =
     bindO (interiorIndex opts) (\<lambda>requested.
     if \<not> positive_integer (mo_compareTicks opts) then Some (Inl (RangeError ''compareTicks''))
     else bindO (build signSource) (\<lambda>origin.
     bindO (run_to (nat (int_of requested)) origin) (\<lambda>(origin', snapshotAt).
     bindO (Some (snapshot origin')) (\<lambda>s.
     bindO (build signSource) (\<lambda>straight.
     bindO (build (SignInverting signSource)) (\<lambda>negated.
       compare_continuations stringify straight negated s (mo_compareTicks opts) snapshotAt))))))"

text \<open>An engine of the factory over the sign source it is handed.\<close>

definition with_sign :: "create_engine_options \<Rightarrow> random_source \<Rightarrow> create_engine_options" where
  "with_sign opts r = opts\<lparr>co_streams := (co_streams opts)(''sign'' \<mapsto> r)\<rparr>"

definition factory_build :: "hkdf \<Rightarrow> create_engine_options \<Rightarrow> random_source \<Rightarrow> engine result option" where
  "factory_build hkdf opts signSource = createMarketEngine hkdf (with_sign opts signSource)"

section \<open>Building two engines\<close>

lemma bindO_returns: "x \<noteq> None \<Longrightarrow> (\<And>a. x = Some (Inr a) \<Longrightarrow> f a \<noteq> None) \<Longrightarrow> bindO x f \<noteq> None"
  by (cases "(x, f)" rule: bindO.cases) auto

lemma delegate_returns:
  assumes "\<And>s. stream_ok s \<Longrightarrow> d s \<noteq> None"
  shows "source_ok r \<Longrightarrow> delegate d r \<noteq> None"
proof (induction r)
  case (Deterministic s)
  then have "d s \<noteq> None" using assms by simp
  then show ?case unfolding delegate.simps by (rule bindO_returns) (simp add: case_prod_unfold)
next
  case (SignInverting r)
  then have "delegate d r \<noteq> None" by simp
  then show ?case unfolding delegate.simps by (rule bindO_returns) (simp add: case_prod_unfold)
qed

lemma interior_returns:
  assumes "\<forall>r. mo_interior opts = Some r \<longrightarrow> source_ok r"
  shows "interiorIndex opts \<noteq> None"
proof (cases "mo_burnInTicks opts")
  case (InteriorRange low high)
  show ?thesis
  proof (cases "mo_interior opts")
    case (Some r)
    let ?b = "js_add (js_sub high low) (num 1)"
    have "source_ok r" using assms Some by simp
    then have d: "delegate (\<lambda>s. nextBoundedUint32 s ?b) r \<noteq> None" by (rule delegate_returns [rotated]) (rule bounded_total)
    have "bindO (delegate (\<lambda>s. nextBoundedUint32 s ?b) r) (\<lambda>(r', v). Some (Inr (js_add low (num v)))) \<noteq> None"
      by (rule bindO_returns [OF d]) (simp add: case_prod_unfold)
    then show ?thesis by (simp only: interiorIndex_def InteriorRange Some burn_in.case option.case split: if_splits) simp
  qed (simp add: interiorIndex_def InteriorRange)
qed (simp add: interiorIndex_def)

text \<open>Two computations that throw the same error or answer related values, in sequence.\<close>

lemma rel_sum_then:
  assumes "rel_sum (=) P x y" "\<And>a b. P a b \<Longrightarrow> rel_sum (=) Q (f a) (g b)"
  shows "rel_sum (=) Q (andThen x f) (andThen y g)"
  using assms(1) by (cases rule: rel_sum.cases) (simp_all add: assms(2))

lemma rel_sum_cases:
  assumes "rel_sum (=) P x y"
  obtains e where "x = Inl e" "y = Inl e" | a b where "x = Inr a" "y = Inr b" "P a b"
  using assms by (cases rule: rel_sum.cases) auto

text \<open>Sources that are alike are moved alike, and one behind an inverter stays behind it.\<close>

lemma seek_pair: "alike r q \<Longrightarrow> rel_sum (=) alike (src_seek r c) (src_seek q c)"
proof (induction r q rule: alike.induct)
  case (1 s t)
  show ?case
  proof (cases "assertCursor (cu_blockIndex c) (num (cu_byteOffset c))")
    case (Inr u)
    then have "assertCursor (cu_blockIndex c) (num (cu_byteOffset c)) = Inr ()" by simp
    then have "0 \<le> cu_blockIndex c" "cu_blockIndex c < 2 ^ 64" "0 \<le> cu_byteOffset c" "cu_byteOffset c < 64"
      by (simp_all add: assertCursor_num)
    then show ?thesis using 1 Inr by (auto simp: seek_def alike_stream_def stream_ok_def stream_pos_def)
  qed (simp add: seek_def)
next
  case (2 r q)
  then show ?case by (auto intro: rel_sum_then)
qed auto

abbreviation turned :: "random_source \<Rightarrow> random_source \<Rightarrow> bool" where
  "turned r q \<equiv> alike (SignInverting r) q"

lemma turned_iff: "turned r q \<longleftrightarrow> (\<exists>q'. q = SignInverting q' \<and> alike r q')"
  by (cases q) auto

lemma seek_turned: "turned r q \<Longrightarrow> rel_sum (=) turned (src_seek r c) (src_seek q c)"
  unfolding turned_iff using seek_pair [of r _ c] by (fastforce elim!: rel_sum_cases)

lemma parsed_pair: "alike r q \<Longrightarrow> rel_sum (=) alike (andThen x (src_seek r)) (andThen x (src_seek q))"
  by (cases x) (simp_all add: seek_pair)

lemma parsed_turned: "turned r q \<Longrightarrow> rel_sum (=) turned (andThen x (src_seek r)) (andThen x (src_seek q))"
  by (cases x) (simp_all add: seek_turned del: alike.simps)

lemma seek_named_pair: "alike r q \<Longrightarrow> rel_sum (=) alike (seek_named cs n r) (seek_named cs n q)"
  by (simp add: seek_named_def parsed_pair split: option.split)

lemma seek_named_turned: "turned r q \<Longrightarrow> rel_sum (=) turned (seek_named cs n r) (seek_named cs n q)"
  by (simp add: seek_named_def parsed_turned del: alike.simps split: option.split)

lemma opposite_iff: "opposite S T \<longleftrightarrow> turned (so_sign S) (so_sign T) \<and> alike (so_rounding S) (so_rounding T) \<and>
    alike (so_cascade S) (so_cascade T) \<and> alike (so_shock S) (so_shock T) \<and> alike (so_arrival S) (so_arrival T) \<and>
    alike (so_regime S) (so_regime T) \<and> alike (so_structure S) (so_structure T)"
  by (simp add: opposite_def alike_sources_def)

lemma seek_sources_opposite:
  assumes "opposite S T"
  shows "rel_sum (=) opposite (seek_sources cs S) (seek_sources cs T)"
  using assms unfolding seek_sources_def opposite_iff
  by (intro rel_sum_then [OF seek_named_turned] rel_sum_then [OF seek_named_pair]) (auto simp del: alike.simps)

lemma engine_stream_ok:
  assumes "\<forall>r. co_streams opts p = Some r \<longrightarrow> source_ok r"
  shows "rel_sum (=) alike (engine_stream hkdf opts p) (engine_stream hkdf opts p)"
  unfolding engine_stream_def
proof (rule rel_sum_then)
  let ?label = "\<lparr>sl_env = co_environment opts, sl_asset = me_instrument (co_config opts), sl_purpose = p, sl_keyEpoch = co_keyEpoch opts\<rparr>"
  have "stream_ok s" if "derive hkdf (co_keyring opts) ?label None = Inr s" for s
    using that by (auto simp: derive_def andThen_Inr_iff dest: new_stream_ok(1))
  then have "rel_sum (=) alike
      (andThen (derive hkdf (co_keyring opts) ?label None) (\<lambda>s. Inr (Deterministic s)))
      (andThen (derive hkdf (co_keyring opts) ?label None) (\<lambda>s. Inr (Deterministic s)))"
    by (cases "derive hkdf (co_keyring opts) ?label None") (auto simp: alike_stream_def)
  then show "rel_sum (=) alike
      (case co_streams opts p of None \<Rightarrow> andThen (derive hkdf (co_keyring opts) ?label None) (\<lambda>s. Inr (Deterministic s)) | Some r \<Rightarrow> Inr r)
      (case co_streams opts p of None \<Rightarrow> andThen (derive hkdf (co_keyring opts) ?label None) (\<lambda>s. Inr (Deterministic s)) | Some r \<Rightarrow> Inr r)"
    using assms by (auto simp: alike_refl split: option.split)
  fix a b assume "alike a b"
  then show "rel_sum (=) alike (case co_cursors opts p of None \<Rightarrow> Inr a | Some text \<Rightarrow> andThen (parseCursor text) (src_seek a))
      (case co_cursors opts p of None \<Rightarrow> Inr b | Some text \<Rightarrow> andThen (parseCursor text) (src_seek b))"
    by (auto split: option.split intro: parsed_pair)
qed

lemma streams_opposite:
  assumes "\<forall>p r. co_streams opts p = Some r \<longrightarrow> source_ok r" "source_ok r"
  shows "rel_sum (=) opposite (engine_streams hkdf (with_sign opts r)) (engine_streams hkdf (with_sign opts (SignInverting r)))"
proof -
  have other: "rel_sum (=) alike (engine_stream hkdf (with_sign opts r) p) (engine_stream hkdf (with_sign opts (SignInverting r)) p)"
    if "p \<noteq> ''sign''" for p
  proof -
    have "engine_stream hkdf (with_sign opts q) p = engine_stream hkdf opts p" for q
      using that by (cases "co_streams opts p") (simp_all add: engine_stream_def with_sign_def)
    with engine_stream_ok [of opts p hkdf] assms(1) show ?thesis by simp
  qed
  have "turned r (SignInverting r)" using assms(2) by (simp add: alike_refl)
  then have sign: "rel_sum (=) turned (engine_stream hkdf (with_sign opts r) ''sign'')
      (engine_stream hkdf (with_sign opts (SignInverting r)) ''sign'')"
    by (auto simp: engine_stream_def with_sign_def simp del: alike.simps src_seek.simps split: option.split intro: parsed_turned)
  show ?thesis
    unfolding engine_streams_def Let_def opposite_iff
    by (intro rel_sum_then [OF sign] rel_sum_then [OF other]) (auto simp del: alike.simps)
qed

lemma draws_multipliers: "draws 0 (draw_multipliers k low high)"
proof (induction k)
  case 0
  then show ?case by (simp add: draw_multipliers.simps(1) [abs_def] draws_value)
next
  case (Suc k)
  have "draw_multipliers (Suc k) low high = (\<lambda>r. bindO (draw_multiplier low high r) (\<lambda>(r1, m).
     bindO (draw_multipliers k low high r1) (\<lambda>(r2, ms). Some (Inr (r2, m # ms)))))" by (rule ext) simp
  with Suc show ?case by (simp only:) (intro draws_intros)
qed

lemma draws_new_cascade: "draws 0 (new_VolatilityCascade config)"
  unfolding new_VolatilityCascade_def [abs_def] Let_def by (intro draws_intros draws_multipliers)

lemma draws_new_regime: "draws 0 (new_VolatilityRegimeModulator config g)"
  unfolding new_VolatilityRegimeModulator_def [abs_def] by (intro draws_intros)

lemma layers_opposite: "tracks opposite (engine_layers config)"
proof -
  have "tracks opposite (from_regime (new_VolatilityRegimeModulator c g))" for c g
    unfolding from_regime_def by (rule reads_one [OF draws_new_regime]) (auto simp: opposite_def alike_sources_def)
  moreover have "tracks opposite (from_cascade (new_VolatilityCascade c))" for c
    unfolding from_cascade_def by (rule reads_one [OF draws_new_cascade]) (auto simp: opposite_def alike_sources_def)
  ultimately show ?thesis unfolding engine_layers_def [abs_def] by (intro tracks_intros)
qed

lemma opposite_ok: "opposite S T \<Longrightarrow> sources_ok S"
  unfolding opposite_iff turned_iff alike_sources_def by (meson alike_ok alike_refl)

lemma build_opposite:
  assumes "\<forall>p r. co_streams opts p = Some r \<longrightarrow> source_ok r" "source_ok r"
  obtains x where "factory_build hkdf opts r = Some (Inl x)"
  | e T where "factory_build hkdf opts r = Some (Inr e)"
      "factory_build hkdf opts (SignInverting r) = Some (Inr (e\<lparr>en_sources := T\<rparr>))" "opposite (en_sources e) T" "en_maxTicks e = co_maxTicks opts"
proof -
  have f: "co_config (with_sign opts q) = co_config opts" "co_start (with_sign opts q) = co_start opts"
    "co_maxTicks (with_sign opts q) = co_maxTicks opts" for q
    by (simp_all add: with_sign_def)
  from streams_opposite [OF assms, of hkdf] show ?thesis
  proof (cases rule: rel_sum_cases)
    case (1 x)
    then show ?thesis by (intro that(1)) (simp add: factory_build_def createMarketEngine_def f)
  next
    case (2 S0 T0)
    from layers_opposite [of "co_config opts"] 2(3) show ?thesis
    proof (cases rule: tracksD)
      case (1 x)
      then show ?thesis using 2 by (intro that(1)) (simp add: factory_build_def createMarketEngine_def f)
    next
      case layers: (2 S T a)
      let ?e = "new_MarketEngine (me_logQuantum (co_config opts)) (fst a) (snd a) S (co_start opts) (co_maxTicks opts)"
      show ?thesis
      proof (rule that(2))
        show "factory_build hkdf opts r = Some (Inr ?e)"
          using 2 layers by (simp add: factory_build_def createMarketEngine_def f case_prod_unfold)
        show "factory_build hkdf opts (SignInverting r) = Some (Inr (?e\<lparr>en_sources := T\<rparr>))"
          using 2 layers by (simp add: factory_build_def createMarketEngine_def f case_prod_unfold new_MarketEngine_def)
        show "opposite (en_sources ?e) T" using layers by (simp add: new_MarketEngine_def)
        show "en_maxTicks ?e = co_maxTicks opts" by (simp add: new_MarketEngine_def)
      qed
    qed
  qed
qed

lemma run_to_returns:
  "sources_ok (en_sources e) \<Longrightarrow>
    (\<exists>x. run_to n e = Some (Inl x)) \<or> (\<exists>e' k. run_to n e = Some (Inr (e', k)) \<and> 0 \<le> k \<and> k \<le> int n)"
proof (induction n arbitrary: e)
  case (Suc n)
  from Suc.prems show ?case
  proof (cases rule: engine_next_cases)
    case (3 e' t)
    with Suc.IH [OF 3(2)] show ?thesis by fastforce
  qed auto
qed simp

text \<open>Restored from one snapshot, the two engines are each other's mirror image in its price.\<close>

lemma restore_opposite:
  assumes "opposite (en_sources e) T"
  obtains x where "restore e s = Inl x"
  | f g where "restore e s = Inr f" "restore (e\<lparr>en_sources := T\<rparr>) s = Inr g" "mirrored (en_price f) f g" "en_price g = en_price f" "en_maxTicks f = en_maxTicks e"
proof (cases "restore e s")
  case (Inr f)
  note r = Inr [unfolded restore_def]
  from seek_sources_opposite [OF assms, of "sp_cursors s"] show ?thesis
  proof (cases rule: rel_sum_cases)
    case (1 x)
    then show ?thesis using r by (simp split: if_splits)
  next
    case (2 S' T')
    then have "restore (e\<lparr>en_sources := T\<rparr>) s = Inr (f\<lparr>en_sources := T'\<rparr>)" "en_sources f = S'" "en_maxTicks f = en_maxTicks e"
      using r by (auto simp: restore_def andThen_Inr_iff split: if_splits)
    then show ?thesis using 2(3) Inr by (intro that(2) [of f "f\<lparr>en_sources := T'\<rparr>"]) (simp_all add: mirrored_def)
  qed
qed (rule that(1))

section \<open>The comparison\<close>

lemma no_divergence:
  assumes "price b = 2 * c - price a" "mp = 2 * c - sp" "instant b = instant a"
  shows "step_divergences step a b sp mp False = []"
proof -
  have e: "of_int (price b) - of_int mp = - (of_int (price a) - of_int sp :: rat)" using assms by simp
  have "js_sub (num (price b)) (num mp) = js_neg (js_sub (num (price a)) (num sp))"
    using js_of_rat_neg [of "of_int (price a) - of_int sp"] by (simp add: num_def js_sub_def e)
  moreover have "js_neg (js_neg x) = x" for x by (cases x) simp_all
  moreover have "js_sub (num (price a)) (num sp) \<noteq> NaN" by (simp add: num_def js_sub_def js_of_rat_def Let_def)
  then have "js_eq (js_sub (num (price a)) (num sp)) (js_sub (num (price a)) (num sp))"
    by (cases "js_sub (num (price a)) (num sp)") (simp_all add: js_eq_def)
  ultimately show ?thesis using assms(3) by (simp add: step_divergences_def)
qed

lemma mirrored_stop:
  assumes "mirrored c e f" "engine_next e = Some (Inr (e, None))"
  shows "engine_next f = Some (Inr (f, None))"
proof -
  have f: "en_maxTicks f = en_maxTicks e" "en_produced f = en_produced e"
    by (subst assms(1) [unfolded mirrored_def, THEN conjunct2], simp)+
  have "\<exists>m. en_maxTicks e = Some m \<and> m \<le> en_produced e"
    using assms(2) by (auto simp: engine_next_def tick_parts bindO_Inr split: option.splits if_splits)
  then show ?thesis by (auto simp: engine_next_def f)
qed

lemma mirrored_latent:
  assumes "mirrored c e f" "snapshot e = Inr s" "snapshot f = Inr t"
  shows "sp_magnitudeState t = sp_magnitudeState s"
proof -
  have "en_magnitude f = en_magnitude e" by (subst assms(1) [unfolded mirrored_def, THEN conjunct2]) simp
  then show ?thesis using assms(2,3) by (auto simp: snapshot_def andThen_Inr_iff)
qed

lemma mirror_loop_clean:
  assumes "mirrored c s m"
  shows "(\<exists>x. mirror_loop stringify n (k + 1) s m (en_price s) (2 * c - en_price s) [] k = Some (Inl x)) \<or>
    (\<exists>j. mirror_loop stringify n (k + 1) s m (en_price s) (2 * c - en_price s) [] k = Some (Inr (k + j, [])) \<and>
      0 \<le> j \<and> j \<le> int n \<and> (en_maxTicks s = None \<longrightarrow> j = int n))"
  using assms
proof (induction n arbitrary: s m k)
  case (Suc n)
  have "sources_ok (en_sources s)" using Suc.prems opposite_ok by (auto simp: mirrored_def)
  then show ?case
  proof (cases rule: engine_next_cases)
    case (1 x)
    then show ?thesis by simp
  next
    case 2
    moreover have "en_maxTicks s \<noteq> None"
      using 2 by (auto simp: engine_next_def tick_parts bindO_Inr split: option.splits)
    ultimately show ?thesis using mirrored_stop [OF Suc.prems] by (intro disjI2 exI [of _ 0]) simp
  next
    case (3 s' a)
    note next_s = 3(1) and m = mirrored_tick [OF Suc.prems 3(1)]
    show ?thesis
    proof (cases "valid_price (2 * c - price a)")
      case False
      then show ?thesis using m next_s by simp
    next
      case True
      with m obtain m' where m': "engine_next m = Some (Inr (m', Some (reflect c a)))" "mirrored c s' m'" by auto
      have p: "en_price s' = price a" "en_maxTicks s' = en_maxTicks s" using tick_forward [OF next_s] by simp_all
      show ?thesis
      proof (cases "snapshot s'")
        case (Inl x)
        then show ?thesis using next_s m'(1) by simp
      next
        case A: (Inr A)
        show ?thesis
        proof (cases "snapshot m'")
          case (Inl x)
          then show ?thesis using next_s m'(1) A by simp
        next
          case B: (Inr B)
          have "sp_magnitudeState B = sp_magnitudeState A" by (rule mirrored_latent [OF m'(2) A B])
          moreover have "step_divergences (k + 1) a (reflect c a) (en_price s) (2 * c - en_price s) False = []"
            by (rule no_divergence [where c = c]) (simp_all add: reflect_def)
          ultimately have step: "mirror_loop stringify (Suc n) (k + 1) s m (en_price s) (2 * c - en_price s) [] k =
              mirror_loop stringify n (k + 1 + 1) s' m' (en_price s') (2 * c - en_price s') [] (k + 1)"
            using next_s m'(1) A B p by (simp add: reflect_def MAX_REPORTED_DIVERGENCES_def)
          from Suc.IH [OF m'(2), of "k + 1"] show ?thesis
          proof (elim disjE exE conjE)
            fix j assume "mirror_loop stringify n (k + 1 + 1) s' m' (en_price s') (2 * c - en_price s') [] (k + 1) = Some (Inr (k + 1 + j, []))"
              "0 \<le> j" "j \<le> int n" "en_maxTicks s' = None \<longrightarrow> j = int n"
            then show ?thesis unfolding step using p(2) by (intro disjI2 exI [of _ "j + 1"]) simp
          qed (simp only: step, blast)
        qed
      qed
    qed
  qed
qed simp

lemma positive_int_of: "positive_integer n \<Longrightarrow> 0 \<le> int_of n"
  using isInteger_num [of n] num_simps(8) [of "int_of n" 1] unfolding positive_integer_def by (metis not_less order.trans zero_le_one)

lemma continuations_clean:
  assumes "opposite (en_sources e) T" "positive_integer n"
  shows "(\<exists>x. compare_continuations stringify e (e\<lparr>en_sources := T\<rparr>) s n k = Some (Inl x)) \<or>
    (\<exists>steps. compare_continuations stringify e (e\<lparr>en_sources := T\<rparr>) s n k =
        Some (Inr \<lparr>mi_snapshotAt = k, mi_steps = steps, mi_divergences = [], mi_mirrored = True\<rparr>) \<and>
      0 \<le> steps \<and> steps \<le> int_of n \<and> (en_maxTicks e = None \<longrightarrow> steps = int_of n))"
  using assms(1)
proof (cases rule: restore_opposite [of e T s])
  case (2 f g)
  have c: "2 * en_price f - en_price f = en_price f" by simp
  show ?thesis
  proof (cases "valid_price (en_price f)")
    case True
    with mirror_loop_clean [OF 2(3), of stringify "nat (int_of n)" 0, unfolded c] 2 positive_int_of [OF assms(2)]
    show ?thesis by (auto simp: compare_continuations_def logPrice_num)
  qed (simp add: 2 compare_continuations_def logPrice_num)
qed (simp add: compare_continuations_def)

section \<open>No configuration diverges\<close>

text \<open>C3: the mirror test of any engine the factory builds returns, and unless the engine or a check throws
  it reports no divergence: every latent state and every interval stays bit for bit the same and every
  increment is exactly negated, for every configuration, key, cursor, interior index and number of
  compared ticks. No layer of the shipped composition can observe the sign of a draw or the price.\<close>

theorem mirror_test_never_diverges:
  assumes "\<forall>p r. co_streams opts p = Some r \<longrightarrow> source_ok r" "source_ok signSource"
    and "\<forall>r. mo_interior mopts = Some r \<longrightarrow> source_ok r"
  shows "(\<exists>x. runMirrorTest stringify (factory_build hkdf opts) signSource mopts = Some (Inl x)) \<or>
    (\<exists>interior steps. runMirrorTest stringify (factory_build hkdf opts) signSource mopts =
        Some (Inr \<lparr>mi_snapshotAt = interior, mi_steps = steps, mi_divergences = [], mi_mirrored = True\<rparr>) \<and>
      0 \<le> steps \<and> steps \<le> int_of (mo_compareTicks mopts) \<and>
      (co_maxTicks opts = None \<longrightarrow> steps = int_of (mo_compareTicks mopts)))"
proof (cases "interiorIndex mopts")
  case None
  then show ?thesis using interior_returns [OF assms(3)] by simp
next
  case (Some idx)
  show ?thesis
  proof (cases idx)
    case (Inl x)
    then show ?thesis by (simp add: runMirrorTest_def Some)
  next
    case requested: (Inr requested)
    show ?thesis
    proof (cases "positive_integer (mo_compareTicks mopts)")
      case False
      then show ?thesis by (simp add: runMirrorTest_def Some requested)
    next
      case True
      note run = runMirrorTest_def Some requested True
      from assms(1,2) show ?thesis
      proof (cases rule: build_opposite [of opts signSource hkdf])
        case (1 x)
        then show ?thesis by (simp add: run)
      next
        case (2 e T)
        note build = 2
        have ok: "sources_ok (en_sources e)" using opposite_ok [OF 2(3)] .
        from run_to_returns [OF ok, of "nat (int_of requested)"] consider
          x where "run_to (nat (int_of requested)) e = Some (Inl x)"
          | e' k where "run_to (nat (int_of requested)) e = Some (Inr (e', k))" by blast
        then show ?thesis
        proof cases
          case (1 x)
          then show ?thesis using build by (simp add: run)
        next
          case origin: (2 e' k)
          show ?thesis
          proof (cases "snapshot e'")
            case (Inr s)
            note run = run Inr build origin
            from continuations_clean [OF build(3) True, of stringify s k] show ?thesis
            proof (elim disjE exE conjE)
              fix steps assume "compare_continuations stringify e (e\<lparr>en_sources := T\<rparr>) s (mo_compareTicks mopts) k =
                  Some (Inr \<lparr>mi_snapshotAt = k, mi_steps = steps, mi_divergences = [], mi_mirrored = True\<rparr>)"
                "0 \<le> steps" "steps \<le> int_of (mo_compareTicks mopts)" "en_maxTicks e = None \<longrightarrow> steps = int_of (mo_compareTicks mopts)"
              then show ?thesis by (intro disjI2 exI [of _ k] exI [of _ steps]) (simp add: run)
            qed (simp add: run)
          qed (use build origin in \<open>simp add: run\<close>)
        qed
      qed
    qed
  qed
qed

text \<open>A configuration in whole numbers, so that its checks evaluate without rounding.\<close>

abbreviation demo_config :: market_engine_config where
  "demo_config \<equiv> \<lparr>me_instrument = ''eurusd-otc'', me_logQuantum = num 1, me_baseVolatility = num 2,
     me_cascade = \<lparr>cc_components = num 3, cc_slowestHazardPerMs = num 1, cc_hazardRatio = num 2, cc_lowMultiplier = num 1\<rparr>,
     me_regimes = (\<lambda>_. \<lparr>rs_level = num 1, rs_multiplier = num 1, rs_activity = num 1, rs_minimumMs = num 1000,
        rs_scaleMs = num 60000, rs_shape = num 1, rs_transitions = [num 1, num 2, num 2, num 1]\<rparr>),
     me_structure = (\<lambda>_. \<lparr>ph_multiplier = num 1, ph_baseHazardPerMs = num 1, ph_ageExponent = num 1,
        ph_ageScaleMs = num 60000, ph_compressionSensitivity = num 0, ph_transitions = [num 1, num 1, num 1, num 2]\<rparr>),
     me_arrival = \<lparr>hc_baseIntervalMs = num 2500, hc_branchingRatio = num 0, hc_decayPerMs = num 1,
        hc_referenceMagnitude = num 10, hc_magnitudeAverageHalfLifeMs = num 60000, hc_maxIntensityMultiplier = num 8\<rparr>,
     me_durationCoupling = num 1, me_volatilityFloor = None\<rparr>"

abbreviation demo_options :: "random_source \<Rightarrow> create_engine_options" where
  "demo_options r \<equiv> \<lparr>co_config = demo_config, co_keyring = \<lparr>mk_keyId = [], mk_secret = [], mk_productionAllowed = False\<rparr>,
     co_environment = ''test'', co_keyEpoch = num 0,
     co_start = \<lparr>eg_instant = 1776000000000, eg_price = 0, eg_sequence = None\<rparr>, co_maxTicks = None,
     co_cursors = (\<lambda>_. None), co_streams = (\<lambda>_. Some r)\<rparr>"

theorem mirror_test_never_diverges_witness:
  "\<exists>r. source_ok r \<and>
    ((\<exists>x. runMirrorTest (\<lambda>_. []) (factory_build (\<lambda>_ _ _ _. []) (demo_options r)) r
        \<lparr>mo_burnInTicks = BurnInTicks (num 7), mo_compareTicks = num 9, mo_interior = None\<rparr> = Some (Inl x)) \<or>
     (\<exists>interior. runMirrorTest (\<lambda>_. []) (factory_build (\<lambda>_ _ _ _. []) (demo_options r)) r
        \<lparr>mo_burnInTicks = BurnInTicks (num 7), mo_compareTicks = num 9, mo_interior = None\<rparr> =
        Some (Inr \<lparr>mi_snapshotAt = interior, mi_steps = 9, mi_divergences = [], mi_mirrored = True\<rparr>)))"
proof -
  obtain s where s: "source_ok (Deterministic s)" using demo_stream by auto
  from mirror_test_never_diverges [of "demo_options (Deterministic s)" "Deterministic s"
      "\<lparr>mo_burnInTicks = BurnInTicks (num 7), mo_compareTicks = num 9, mo_interior = None\<rparr>"] s
  show ?thesis by (intro exI [of _ "Deterministic s"]) fastforce
qed

end
