(* ===== verification/EngineRuns.thy ===== *)
theory EngineRuns
  imports MirrorTest
begin

text \<open>
  Runs of the market engine: a snapshot restored into another engine of the same build continues
  exactly as the original would, and an engine whose coin is inverted produces the mirror image of
  its ticks, with the latent state of every layer unchanged.
\<close>

section \<open>Seeking to a snapshot\<close>

fun same_key :: "random_source \<Rightarrow> random_source \<Rightarrow> bool" where
  "same_key (Deterministic s) (Deterministic t) \<longleftrightarrow> stream_ok s \<and> stream_ok t \<and> st_keyWords t = st_keyWords s"
| "same_key (SignInverting r) q = same_key r q"
| "same_key r (SignInverting q) = same_key r q"

fun inverted :: "random_source \<Rightarrow> bool" where
  "inverted (Deterministic s) = False"
| "inverted (SignInverting r) = (\<not> inverted r)"

fun seekable :: "random_source \<Rightarrow> bool" where
  "seekable (Deterministic s) \<longleftrightarrow> stream_ok s \<and> stream_pos s < STREAM_END"
| "seekable (SignInverting r) = seekable r"

text \<open>The stream under a source, and the source with another stream under it.\<close>

fun under :: "random_source \<Rightarrow> random_stream" where
  "under (Deterministic s) = s"
| "under (SignInverting r) = under r"

fun over :: "random_source \<Rightarrow> random_stream \<Rightarrow> random_source" where
  "over (Deterministic s) t = Deterministic t"
| "over (SignInverting r) t = SignInverting (over r t)"

lemma same_key_under:
  "same_key r q \<longleftrightarrow> stream_ok (under r) \<and> stream_ok (under q) \<and> st_keyWords (under q) = st_keyWords (under r)"
  by (induction r q rule: same_key.induct) simp_all

lemma seek_formatted:
  assumes "same_key r q" "seekable r"
  shows "andThen (parseCursor (formatCursor (src_position r))) (src_seek q) =
    Inr (over q ((under q)\<lparr>st_blockIndex := st_blockIndex (under r), st_byteOffset := st_byteOffset (under r)\<rparr>)) \<and>
    stream_ok ((under q)\<lparr>st_blockIndex := st_blockIndex (under r), st_byteOffset := st_byteOffset (under r)\<rparr>)"
proof -
  let ?s = "under r"
  have p: "src_position r = position ?s" by (induction r) simp_all
  have sk: "stream_ok ?s" "stream_pos ?s < STREAM_END" using assms(2) by (induction r) simp_all
  then have b: "0 \<le> st_blockIndex ?s" "st_blockIndex ?s < 2 ^ 64" "0 \<le> st_byteOffset ?s" "st_byteOffset ?s < 64"
    by (auto simp: stream_ok_def stream_pos_def)
  then have v: "valid_cursor (position ?s)" by (simp add: valid_cursor_def position_def)
  have a: "assertCursor (st_blockIndex ?s) (num (st_byteOffset ?s)) = Inr ()" using b by (simp add: assertCursor_num)
  have s: "src_seek q (position ?s) = Inr (over q ((under q)\<lparr>st_blockIndex := st_blockIndex ?s, st_byteOffset := st_byteOffset ?s\<rparr>))" for q
    by (induction q) (use a in \<open>simp_all add: seek_def position_def\<close>)
  show ?thesis using parse_formatted [OF v] sk assms(1) s [of q]
    by (auto simp: p same_key_under stream_ok_def stream_pos_def)
qed

text \<open>Two sources of one build: one key, and both invert or neither does.\<close>

fun like :: "random_source \<Rightarrow> random_source \<Rightarrow> bool" where
  "like (Deterministic s) (Deterministic t) \<longleftrightarrow> stream_ok s \<and> stream_ok t \<and> st_keyWords t = st_keyWords s"
| "like (SignInverting r) (SignInverting q) = like r q"
| "like _ _ = False"

lemma like_same_key: "like r q \<Longrightarrow> same_key r q"
  unfolding same_key_under by (induction r q rule: like.induct) simp_all

lemma seek_alike:
  assumes "like r q" "seekable r"
  shows "\<exists>q'. andThen (parseCursor (formatCursor (src_position r))) (src_seek q) = Inr q' \<and> alike r q'"
proof -
  note s = seek_formatted [OF like_same_key [OF assms(1)] assms(2)]
  have "alike r (over q ((under q)\<lparr>st_blockIndex := st_blockIndex (under r), st_byteOffset := st_byteOffset (under r)\<rparr>))"
    using assms s [THEN conjunct2]
    by (induction r q rule: like.induct) (auto simp: alike_stream_def stream_pos_def)
  with s show ?thesis by blast
qed

lemma seek_opposite:
  assumes "like r q" "seekable r"
  shows "\<exists>q'. andThen (parseCursor (formatCursor (src_position r))) (src_seek (SignInverting q)) = Inr (SignInverting q') \<and> alike r q'"
  using seek_alike [OF assms] parse_formatted by (auto simp: andThen_Inr_iff)

section \<open>Restoring the layers\<close>

text \<open>What a layer keeps for the floor is set again before the floor reads it, whenever the floor is
  above the regime and the structure, as the factory stacks them.\<close>

definition refreshed :: "magnitude_model \<Rightarrow> magnitude_model" where
  "refreshed m = m\<lparr>mm_regime := (mm_regime m)\<lparr>rm_inForce := rm_regime (mm_regime m)\<rparr>,
     mm_structure := (mm_structure m)\<lparr>sm_multiplierInForce := num 1\<rparr>\<rparr>"

fun factory_stack :: "modulator list \<Rightarrow> bool" where
  "factory_stack (RegimeModulator # StructureModulator # CouplingModulator e r # xs) \<longleftrightarrow> (\<forall>x\<in>set xs. \<exists>c. x = FloorModulator c)"
| "factory_stack _ = False"

lemma regime_refreshed: "regime_advance (g\<lparr>rm_inForce := v\<rparr>) = regime_advance g"
  by (rule ext) (simp add: regime_advance_def [abs_def])

lemma structure_refreshed: "structure_advance (p\<lparr>sm_multiplierInForce := v\<rparr>) = structure_advance p"
  by (rule ext) (simp add: structure_advance_def [abs_def] Let_def case_prod_unfold cong: if_cong)

lemma magnitude_refreshed:
  assumes "factory_stack (mm_modulators m)"
  shows "magnitude_advance (refreshed m) context = magnitude_advance m context"
proof (rule ext)
  fix S
  obtain e r xs where st: "mm_modulators m = RegimeModulator # StructureModulator # CouplingModulator e r # xs"
    using assms by (cases "mm_modulators m" rule: factory_stack.cases) auto
  show "magnitude_advance (refreshed m) context S = magnitude_advance m context S"
    by (simp add: magnitude_advance_def cascade_magnitude_def refreshed_def st regime_refreshed structure_refreshed
        Let_def case_prod_unfold bindO_assoc cong: if_cong)
qed

text \<open>Layers built from one configuration: they differ in their latent state only.\<close>

definition same_layers :: "magnitude_model \<Rightarrow> magnitude_model \<Rightarrow> bool" where
  "same_layers m m' \<longleftrightarrow> mm_baseVolatility m' = mm_baseVolatility m \<and> mm_modulators m' = mm_modulators m \<and>
     length (ca_multipliers (mm_cascade m')) = length (ca_multipliers (mm_cascade m)) \<and>
     (mm_cascade m')\<lparr>ca_multipliers := []\<rparr> = (mm_cascade m)\<lparr>ca_multipliers := []\<rparr> \<and>
     rm_config (mm_regime m') = rm_config (mm_regime m) \<and> sm_config (mm_structure m') = sm_config (mm_structure m)"

lemma restore_floors:
  "\<forall>x\<in>set xs. \<exists>c. x = FloorModulator c \<Longrightarrow> modulators_restore xs (map (modulator_snap m) xs) m' = Inr m'"
  by (induction xs) auto

lemma magnitude_restored:
  assumes "same_layers m m'" "factory_stack (mm_modulators m)"
  shows "\<exists>m''. magnitude_restore m' (magnitude_snap m) = Inr m'' \<and> refreshed m'' = refreshed m \<and>
    mm_modulators m'' = mm_modulators m"
proof -
  obtain e r xs where st: "mm_modulators m = RegimeModulator # StructureModulator # CouplingModulator e r # xs"
    "\<forall>x\<in>set xs. \<exists>c. x = FloorModulator c"
    using assms(2) by (cases "mm_modulators m" rule: factory_stack.cases) auto
  have c: "(mm_cascade m')\<lparr>ca_multipliers := ca_multipliers (mm_cascade m)\<rparr> = mm_cascade m"
    using assms(1) unfolding same_layers_def
    by (metis cascade.surjective cascade.update_convs(2) cascade.select_convs(2) cascade.ext_inject)
  show ?thesis
    using assms(1) st restore_floors [OF st(2)] c
    by (simp add: magnitude_restore_def magnitude_snap_def cascade_restore_def regime_restore_def structure_restore_def
        same_layers_def refreshed_def)
qed

section \<open>Restoring an engine\<close>

definition like_sources :: "sources \<Rightarrow> sources \<Rightarrow> bool" where
  "like_sources S T \<longleftrightarrow> like (so_sign S) (so_sign T) \<and> like (so_rounding S) (so_rounding T) \<and>
     like (so_cascade S) (so_cascade T) \<and> like (so_shock S) (so_shock T) \<and> like (so_arrival S) (so_arrival T) \<and>
     like (so_regime S) (so_regime T) \<and> like (so_structure S) (so_structure T)"

definition seekable_sources :: "sources \<Rightarrow> bool" where
  "seekable_sources S \<longleftrightarrow> seekable (so_sign S) \<and> seekable (so_rounding S) \<and> seekable (so_cascade S) \<and>
     seekable (so_shock S) \<and> seekable (so_arrival S) \<and> seekable (so_regime S) \<and> seekable (so_structure S)"

text \<open>Two engines the factory built from one configuration, without a bound on the ticks.\<close>

definition same_build :: "engine \<Rightarrow> engine \<Rightarrow> bool" where
  "same_build e f \<longleftrightarrow> en_maxTicks e = None \<and> en_maxTicks f = None \<and> en_logQuantum f = en_logQuantum e \<and>
     same_layers (en_magnitude e) (en_magnitude f) \<and> factory_stack (mm_modulators (en_magnitude e)) \<and>
     hk_config (en_arrival f) = hk_config (en_arrival e) \<and> like_sources (en_sources e) (en_sources f)"

text \<open>A state the checks of a restoration accept.\<close>

definition restorable :: "engine \<Rightarrow> bool" where
  "restorable e \<longleftrightarrow> valid_instant (en_instant e) \<and> valid_price (en_price e) \<and> seekable_sources (en_sources e) \<and>
     finite_above (num 0) (hk_averageMagnitude (en_arrival e)) \<and>
     isFinite (hk_excitation (en_arrival e)) \<and> \<not> js_lt (hk_excitation (en_arrival e)) (num 0)"

text \<open>The same market: whatever the two engines are asked for, they answer alike.\<close>

definition same_market :: "engine \<Rightarrow> engine \<Rightarrow> bool" where
  "same_market e f \<longleftrightarrow> en_maxTicks e = None \<and> en_maxTicks f = None \<and> alike_sources (en_sources e) (en_sources f) \<and>
     en_logQuantum f = en_logQuantum e \<and> en_sequence f = en_sequence e \<and> en_instant f = en_instant e \<and>
     en_price f = en_price e \<and> en_previousMagnitude f = en_previousMagnitude e \<and>
     en_previousIntervalMs f = en_previousIntervalMs e \<and> en_arrival f = en_arrival e \<and>
     refreshed (en_magnitude f) = refreshed (en_magnitude e) \<and> factory_stack (mm_modulators (en_magnitude e)) \<and>
     factory_stack (mm_modulators (en_magnitude f))"

lemma seek_sources_alike:
  assumes "like_sources (en_sources e) T" "seekable_sources (en_sources e)"
  shows "\<exists>T'. seek_sources (engine_cursors e) T = Inr T' \<and> alike_sources (en_sources e) T'"
proof -
  let ?S = "en_sources e"
  have one: "\<exists>q'. seek_named (engine_cursors e) n q = Inr q' \<and> alike r q'"
    if "map_of (engine_cursors e) n = Some (formatCursor (src_position r))" "like r q" "seekable r" for n r q
    using seek_alike [OF that(2,3)] that(1) by (simp add: seek_named_def)
  obtain a b c d g h k where
    "seek_named (engine_cursors e) ''sign'' (so_sign T) = Inr a" "alike (so_sign ?S) a"
    "seek_named (engine_cursors e) ''rounding'' (so_rounding T) = Inr b" "alike (so_rounding ?S) b"
    "seek_named (engine_cursors e) ''cascade'' (so_cascade T) = Inr c" "alike (so_cascade ?S) c"
    "seek_named (engine_cursors e) ''shock'' (so_shock T) = Inr d" "alike (so_shock ?S) d"
    "seek_named (engine_cursors e) ''arrival'' (so_arrival T) = Inr g" "alike (so_arrival ?S) g"
    "seek_named (engine_cursors e) ''regime'' (so_regime T) = Inr h" "alike (so_regime ?S) h"
    "seek_named (engine_cursors e) ''structure'' (so_structure T) = Inr k" "alike (so_structure ?S) k"
    using one [of "''sign''" "so_sign ?S" "so_sign T"] one [of "''rounding''" "so_rounding ?S" "so_rounding T"]
      one [of "''cascade''" "so_cascade ?S" "so_cascade T"] one [of "''shock''" "so_shock ?S" "so_shock T"]
      one [of "''arrival''" "so_arrival ?S" "so_arrival T"] one [of "''regime''" "so_regime ?S" "so_regime T"]
      one [of "''structure''" "so_structure ?S" "so_structure T"] assms
    unfolding like_sources_def seekable_sources_def by (auto simp: engine_cursors_def Let_def)
  then show ?thesis by (simp add: seek_sources_def alike_sources_def)
qed

lemma cursor_names: "map fst (engine_cursors e) = STREAM_NAMES"
  by (simp add: engine_cursors_def STREAM_NAMES_def Let_def)

lemma restored_market:
  assumes "same_build e f" "restorable e"
  shows "\<exists>s f'. snapshot e = Inr s \<and> restore f s = Inr f' \<and> same_market e f'"
proof -
  obtain T where T: "seek_sources (engine_cursors e) (en_sources f) = Inr T" "alike_sources (en_sources e) T"
    using seek_sources_alike [of e "en_sources f"] assms by (auto simp: same_build_def restorable_def)
  obtain m where m: "magnitude_restore (en_magnitude f) (magnitude_snap (en_magnitude e)) = Inr m"
    "refreshed m = refreshed (en_magnitude e)" "mm_modulators m = mm_modulators (en_magnitude e)"
    using magnitude_restored assms(1) by (auto simp: same_build_def)
  have a: "hawkes_restore (en_arrival f) (hawkes_snap (en_arrival e)) = Inr (en_arrival e)"
    using assms by (cases "en_arrival e"; cases "en_arrival f";
      cases "hk_averageMagnitude (en_arrival e)")
      (auto simp: hawkes_restore_def hawkes_snap_def restorable_def same_build_def finite_above_def js_le_def js_eq_def num_def)
  have names: "\<not> list_ex (\<lambda>name. name \<notin> set STREAM_NAMES) (map fst (engine_cursors e))"
    "\<not> list_ex (\<lambda>name. map_of (engine_cursors e) name = None) STREAM_NAMES"
    unfolding cursor_names using cursor_names [of e, THEN arg_cong, of set]
    by (auto simp: list_ex_iff map_of_eq_None_iff)
  show ?thesis
    using assms T m a names
    by (simp add: snapshot_def restore_def epochMillis_num logPrice_num restorable_def same_market_def same_build_def)
qed


section \<open>One tick of the same market\<close>

lemma modulate_stack:
  "modulate xs m context x S = Some (Inr (S', (m', y))) \<Longrightarrow> mm_modulators m' = mm_modulators m"
proof (induction xs arbitrary: m x S)
  case (Cons a xs)
  from Cons.prems obtain S1 out where out: "modulator_advance a m context S = Some (Inr (S1, out))"
    "modulate xs (fst out) context (js_mul x (snd out)) S1 = Some (Inr (S', (m', y)))"
    by (auto simp: bindO_Inr split: if_splits)
  have "mm_modulators (fst out) = mm_modulators m" using out(1) by (cases a) (auto simp: bindO_Inr)
  then show ?case using Cons.IH [OF out(2)] by simp
qed simp

lemma magnitude_stack:
  "magnitude_advance m context S = Some (Inr (S', (m', y))) \<Longrightarrow> mm_modulators m' = mm_modulators m"
  by (auto simp: magnitude_advance_def cascade_magnitude_def bindO_Inr Let_def dest!: modulate_stack)

lemma sign_blind_refreshed:
  assumes "same_market e f"
  shows "sign_blind_part f = sign_blind_part e"
proof (rule sign_blind_cong)
  have r: "refreshed (en_magnitude f) = refreshed (en_magnitude e)" using assms by (simp add: same_market_def)
  show "magnitude_advance (en_magnitude f) = magnitude_advance (en_magnitude e)"
  proof (rule ext)
    fix c show "magnitude_advance (en_magnitude f) c = magnitude_advance (en_magnitude e) c"
      using magnitude_refreshed [of "en_magnitude e" c] magnitude_refreshed [of "en_magnitude f" c] r assms
      by (simp add: same_market_def)
  qed
  have "regime_activity (mm_regime (refreshed m)) = regime_activity (mm_regime m)" for m
    by (simp add: refreshed_def regime_activity_def)
  then show "regime_activity (mm_regime (en_magnitude f)) = regime_activity (mm_regime (en_magnitude e))" using r by metis
qed (use assms in \<open>simp_all add: same_market_def\<close>)

lemma sign_blind_stack:
  "sign_blind_part e S = Some (Inr (S', a)) \<Longrightarrow> mm_modulators (fst (snd a)) = mm_modulators (en_magnitude e)"
  by (auto simp: sign_blind_part_def draw_magnitude_def bindO_Inr Let_def split: if_splits dest!: magnitude_stack)

lemma same_coin:
  assumes "alike_sources S T"
  shows "(\<exists>e. from_sign src_nextBoolean S = Some (Inl e) \<and> from_sign src_nextBoolean T = Some (Inl e)) \<or>
    (\<exists>S' T' b. from_sign src_nextBoolean S = Some (Inr (S', b)) \<and> from_sign src_nextBoolean T = Some (Inr (T', b)) \<and> alike_sources S' T')"
proof -
  from assms have "alike (so_sign S) (so_sign T)" by (simp add: alike_sources_def)
  with draws_boolean show ?thesis
    by (cases rule: drawsD) (use assms in \<open>auto simp: from_sign_def alike_sources_def\<close>)
qed

lemma same_tick:
  assumes "same_market e f"
  shows "(\<exists>x. engine_next e = Some (Inl x) \<and> engine_next f = Some (Inl x)) \<or>
    (\<exists>e' f' t. engine_next e = Some (Inr (e', Some t)) \<and> engine_next f = Some (Inr (f', Some t)) \<and> same_market e' f')"
proof -
  note sm = assms [unfolded same_market_def]
  have n: "engine_next e = engine_tick e" "engine_next f = engine_tick f" using sm by (simp_all add: engine_next_def)
  have "alike_sources (en_sources e) (en_sources f)" using sm by blast
  with replay.tracks_sign_blind [of e] show ?thesis
  proof (cases rule: tracksD)
    case (1 x)
    then show ?thesis using sign_blind_refreshed [OF assms] by (simp add: n tick_parts)
  next
    case (2 S1 T1 a)
    note part = 2 sign_blind_refreshed [OF assms]
    from same_coin [OF 2(3)] show ?thesis
    proof (elim disjE exE conjE)
      fix x assume "from_sign src_nextBoolean S1 = Some (Inl x)" "from_sign src_nextBoolean T1 = Some (Inl x)"
      then show ?thesis using part by (simp add: n tick_parts)
    next
      fix S2 T2 b assume coin: "from_sign src_nextBoolean S1 = Some (Inr (S2, b))" "from_sign src_nextBoolean T1 = Some (Inr (T2, b))"
        "alike_sources S2 T2"
      show ?thesis
      proof (cases "logPrice (js_add (num (en_price e)) (js_mul (if b then num 1 else num (- 1)) (snd (snd (snd (snd (snd a)))))))")
        case (Inl x)
        then show ?thesis using part coin sm by (simp add: n tick_parts)
      next
        case (Inr p)
        then show ?thesis using part coin sm sign_blind_stack [OF 2(1)]
          by (simp add: n tick_parts same_market_def)
      qed
    qed
  qed
qed

lemma same_run:
  assumes "same_market e f"
  shows "(\<exists>x. engine_run n e = Some (Inl x) \<and> engine_run n f = Some (Inl x)) \<or>
    (\<exists>e' f' ts. engine_run n e = Some (Inr (e', ts)) \<and> engine_run n f = Some (Inr (f', ts)) \<and> same_market e' f')"
  using assms
proof (induction n arbitrary: e f)
  case (Suc n)
  from same_tick [OF Suc.prems] show ?case
  proof (elim disjE exE conjE)
    fix e' f' t assume "engine_next e = Some (Inr (e', Some t))" "engine_next f = Some (Inr (f', Some t))" "same_market e' f'"
    then show ?thesis using Suc.IH [of e' f'] by auto
  qed auto
qed simp

section \<open>What a run never changes\<close>

text \<open>Sources further on: the keys and the inversions of \<open>S0\<close> are kept.\<close>

definition further_sources :: "sources \<Rightarrow> sources \<Rightarrow> bool" where
  "further_sources S0 S \<longleftrightarrow> further 0 (so_sign S0) (so_sign S) \<and> further 0 (so_rounding S0) (so_rounding S) \<and>
     further 0 (so_cascade S0) (so_cascade S) \<and> further 0 (so_shock S0) (so_shock S) \<and>
     further 0 (so_arrival S0) (so_arrival S) \<and> further 0 (so_regime S0) (so_regime S) \<and>
     further 0 (so_structure S0) (so_structure S)"

definition kept :: "sources \<Rightarrow> sources \<Rightarrow> sources \<Rightarrow> bool" where
  "kept S0 S T \<longleftrightarrow> alike_sources S T \<and> further_sources S0 S"

lemma further_0: "further 0 a b \<Longrightarrow> further 0 b c \<Longrightarrow> further 0 a c"
  using further_trans [of 0 a b 0 c] by simp

lemmas kept_simps = kept_def alike_sources_def further_sources_def

interpretation same_keys: blind_engine "kept S0" for S0
proof
  show "tracks (kept S0) (from_cascade c)" if "draws 0 c" for c :: "(cascade \<times> jsnum) drawing"
    unfolding from_cascade_def by (rule reads_one [OF that]) (auto simp: kept_simps intro: further_0)
  show "tracks (kept S0) (from_shock d)" if "draws 0 d" for d :: "jsnum drawing"
    unfolding from_shock_def by (rule reads_one [OF that]) (auto simp: kept_simps intro: further_0)
  show "tracks (kept S0) (from_regime g)" if "draws 0 g" for g :: "(regime_modulator \<times> jsnum) drawing"
    unfolding from_regime_def by (rule reads_one [OF that]) (auto simp: kept_simps intro: further_0)
  show "tracks (kept S0) (from_structure p)" if "draws 0 p" for p :: "(structure_modulator \<times> jsnum) drawing"
    unfolding from_structure_def by (rule reads_one [OF that]) (auto simp: kept_simps intro: further_0)
  show "tracks (kept S0) (from_rounding d)" if "draws 0 d" for d :: "jsnum drawing"
    unfolding from_rounding_def by (rule reads_one [OF that]) (auto simp: kept_simps intro: further_0)
  show "tracks (kept S0) (from_arrival h)" if "draws 0 h" for h :: "(hawkes \<times> jsnum) drawing"
    unfolding from_arrival_def by (rule reads_one [OF that]) (auto simp: kept_simps intro: further_0)
qed

lemma coin_keeps: "tracks (kept S0) (from_sign src_nextBoolean)"
  unfolding from_sign_def by (rule reads_one [OF draws_boolean_0]) (auto simp: kept_simps intro: further_0)

lemma tracks_keeps:
  assumes "tracks (kept S0) d" "kept S0 S S" "d S = Some (Inr (S', a))"
  shows "kept S0 S' S'"
  using assms(1,2)
proof (cases rule: tracksD)
  case (2 T T' b)
  then show ?thesis using assms(3) by simp
qed (use assms(3) in simp)

lemma further_like: "further n r r' \<Longrightarrow> alike r r \<Longrightarrow> alike r' r' \<Longrightarrow> like r' r"
  by (induction n r r' rule: further.induct) (auto simp: further_stream_def alike_stream_def)

lemma kept_like: "kept S0 S S \<Longrightarrow> sources_ok S0 \<Longrightarrow> like_sources S S0"
  unfolding kept_simps like_sources_def by (auto intro: further_like)

text \<open>Layers of the same configuration, with a hazard for each component of the cascade.\<close>

definition fitted :: "magnitude_model \<Rightarrow> magnitude_model \<Rightarrow> bool" where
  "fitted m0 m \<longleftrightarrow> same_layers m m0 \<and> length (ca_hazards (mm_cascade m)) = length (ca_multipliers (mm_cascade m))"

lemma components_length:
  "advance_components low high i hs ms p r = Some (Inr (r', out)) \<Longrightarrow> length hs = length ms \<Longrightarrow> length (fst out) = length ms"
  by (induction low high i hs ms p r arbitrary: r' out rule: advance_components.induct)
    (auto simp: bindO_Inr Let_def split: if_splits)

lemma cascade_fitted:
  assumes "cascade_advance c i r = Some (Inr (r', out))" "length (ca_hazards c) = length (ca_multipliers c)"
  shows "length (ca_multipliers (fst out)) = length (ca_multipliers c) \<and> ca_hazards (fst out) = ca_hazards c \<and>
    (fst out)\<lparr>ca_multipliers := []\<rparr> = c\<lparr>ca_multipliers := []\<rparr>"
  using assms components_length by (auto simp: cascade_advance_def bindO_Inr)

lemma regime_config_kept: "regime_advance g context r = Some (Inr (r', out)) \<Longrightarrow> rm_config (fst out) = rm_config g"
  by (auto simp: regime_advance_def bindO_Inr Let_def)

lemma structure_config_kept: "structure_advance p context r = Some (Inr (r', out)) \<Longrightarrow> sm_config (fst out) = sm_config p"
  by (auto simp: structure_advance_def bindO_Inr Let_def split: if_splits)

lemma hawkes_config_kept: "hawkes_nextIntervalMs h a context r = Some (Inr (r', out)) \<Longrightarrow> hk_config (fst out) = hk_config h"
  by (auto simp: hawkes_nextIntervalMs_def excite_def observe_magnitude_def bindO_Inr Let_def)

lemma modulator_fitted:
  assumes "modulator_advance x m context S = Some (Inr (S', out))" "fitted m0 m"
  shows "fitted m0 (fst out)"
proof (cases x)
  case RegimeModulator
  with assms show ?thesis by (auto simp: from_regime_def bindO_Inr fitted_def same_layers_def dest!: regime_config_kept)
next
  case StructureModulator
  with assms show ?thesis by (auto simp: from_structure_def bindO_Inr fitted_def same_layers_def dest!: structure_config_kept)
qed (use assms in auto)

lemma modulate_fitted:
  "modulate xs m context magnitude S = Some (Inr (S', out)) \<Longrightarrow> fitted m0 m \<Longrightarrow> fitted m0 (fst out)"
proof (induction xs arbitrary: m magnitude S)
  case (Cons x xs)
  then obtain S1 o1 where "modulator_advance x m context S = Some (Inr (S1, o1))"
    "modulate xs (fst o1) context (js_mul magnitude (snd o1)) S1 = Some (Inr (S', out))"
    by (auto simp: bindO_Inr split: if_splits)
  with Cons modulator_fitted show ?case by blast
qed auto

lemma magnitude_fitted:
  assumes "magnitude_advance m context S = Some (Inr (S', out))" "fitted m0 m"
  shows "fitted m0 (fst out)"
proof -
  obtain S1 r1 r2 c where c: "cascade_advance (mm_cascade m) (mc_intervalMs context) r1 = Some (Inr (r2, c))"
    "modulate (mm_modulators m) (m\<lparr>mm_cascade := fst c\<rparr>) context (snd S1) (fst S1) = Some (Inr (S', out))"
    using assms(1) by (fastforce simp: magnitude_advance_def cascade_magnitude_def from_cascade_def bindO_Inr Let_def)
  have "fitted m0 (m\<lparr>mm_cascade := fst c\<rparr>)"
    using cascade_fitted [OF c(1)] assms(2) by (auto simp: fitted_def same_layers_def)
  with modulate_fitted [OF c(2)] show ?thesis .
qed

text \<open>An engine that \<open>f\<close> has grown into by producing ticks.\<close>

definition grown :: "engine \<Rightarrow> engine \<Rightarrow> bool" where
  "grown f e \<longleftrightarrow> en_maxTicks e = en_maxTicks f \<and> en_logQuantum e = en_logQuantum f \<and>
     fitted (en_magnitude f) (en_magnitude e) \<and> hk_config (en_arrival e) = hk_config (en_arrival f) \<and>
     kept (en_sources f) (en_sources e) (en_sources e)"

lemma sign_blind_fitted:
  assumes "sign_blind_part e S = Some (Inr (S', (a, m, rest)))" "fitted m0 (en_magnitude e)"
  shows "fitted m0 m \<and> hk_config a = hk_config (en_arrival e)"
  using assms
  by (auto simp: sign_blind_part_def draw_magnitude_def draw_interval_def from_arrival_def bindO_Inr Let_def split: if_splits
      dest!: magnitude_fitted [where ?m0.0 = m0] hawkes_config_kept)

lemma grown_tick:
  assumes "grown f e" "engine_next e = Some (Inr (e', t))"
  shows "grown f e'"
proof (cases "engine_next e = engine_tick e")
  case True
  with assms(2) have "engine_tick e = Some (Inr (e', t))" by simp
  then obtain S1 S2 a b where p: "sign_blind_part e (en_sources e) = Some (Inr (S1, a))"
    "from_sign src_nextBoolean S1 = Some (Inr (S2, b))" "en_sources e' = S2" "en_magnitude e' = fst (snd a)"
    "en_arrival e' = fst a" "en_maxTicks e' = en_maxTicks e" "en_logQuantum e' = en_logQuantum e"
    by (auto simp: tick_parts bindO_Inr)
  have "kept (en_sources f) S1 S1"
    by (rule tracks_keeps [OF same_keys.tracks_sign_blind _ p(1)]) (use assms(1) in \<open>simp add: grown_def\<close>)
  then have "kept (en_sources f) S2 S2" using tracks_keeps [OF coin_keeps _ p(2)] by simp
  then show ?thesis using assms(1) p sign_blind_fitted [of e "en_sources e" S1 "fst a" "fst (snd a)" "snd (snd a)" "en_magnitude f"]
    by (simp add: grown_def)
next
  case False
  then show ?thesis using assms by (auto simp: engine_next_def split: option.splits if_splits)
qed

lemma grown_run:
  "grown f e \<Longrightarrow> engine_run n e = Some (Inr (e', ts)) \<Longrightarrow> grown f e'"
proof (induction n arbitrary: e ts)
  case (Suc n)
  then obtain e1 t where e1: "engine_next e = Some (Inr (e1, t))" by (auto simp: bindO_Inr)
  with Suc have "grown f e1" by (blast intro: grown_tick)
  with e1 Suc show ?case by (cases t) (auto simp: bindO_Inr)
qed simp

lemma multipliers_length: "draw_multipliers k low high r = Some (Inr (r', ms)) \<Longrightarrow> length ms = k"
  by (induction k arbitrary: r ms) (auto simp: bindO_Inr)

text \<open>What the factory builds.\<close>

lemma created:
  assumes "createMarketEngine hkdf opts = Some (Inr f)" "\<forall>p r. co_streams opts p = Some r \<longrightarrow> source_ok r"
  shows "grown f f" "factory_stack (mm_modulators (en_magnitude f))" "sources_ok (en_sources f)"
    "en_maxTicks f = co_maxTicks opts"
proof -
  have streams: "rel_sum (=) alike_sources (engine_streams hkdf opts) (engine_streams hkdf opts)"
    unfolding engine_streams_def Let_def alike_sources_def
    by (intro rel_sum_then [OF engine_stream_ok]) (use assms(2) in auto)
  obtain S0 S m a where p: "engine_streams hkdf opts = Inr S0" "engine_layers (co_config opts) S0 = Some (Inr (S, (m, a)))"
    and f: "f = new_MarketEngine (me_logQuantum (co_config opts)) m a S (co_start opts) (co_maxTicks opts)"
    using assms(1) by (auto simp: createMarketEngine_def bindO_Inr)
  have "sources_ok S0" using streams p(1) by simp
  moreover have "tracks alike_sources (engine_layers config)" for config
  proof -
    have "tracks alike_sources (from_regime (new_VolatilityRegimeModulator c g))" for c g
      unfolding from_regime_def by (rule reads_one [OF draws_new_regime]) (auto simp: alike_sources_def)
    moreover have "tracks alike_sources (from_cascade (new_VolatilityCascade c))" for c
      unfolding from_cascade_def by (rule reads_one [OF draws_new_cascade]) (auto simp: alike_sources_def)
    ultimately show ?thesis unfolding engine_layers_def [abs_def] by (intro tracks_intros)
  qed
  ultimately have S: "sources_ok S" using p(2) by (metis tracksD option.inject sum.inject(2) sum.distinct(1) prod.inject)
  have m: "factory_stack (mm_modulators m) \<and> length (ca_hazards (mm_cascade m)) = length (ca_multipliers (mm_cascade m))"
    using p(2) by (auto simp: engine_layers_def from_cascade_def new_VolatilityCascade_def bindO_Inr andThen_Inr_iff Let_def
        split: option.splits dest!: multipliers_length)
  show "grown f f" using S m by (simp add: f new_MarketEngine_def grown_def fitted_def same_layers_def kept_def further_sources_def)
  show "factory_stack (mm_modulators (en_magnitude f))" "sources_ok (en_sources f)" "en_maxTicks f = co_maxTicks opts"
    using S m by (simp_all add: f new_MarketEngine_def)
qed

lemma grown_same_build:
  assumes "grown f e" "factory_stack (mm_modulators (en_magnitude f))" "sources_ok (en_sources f)" "en_maxTicks f = None"
  shows "same_build e f"
  using assms kept_like [of "en_sources f" "en_sources e"] by (simp add: grown_def same_build_def fitted_def same_layers_def)

text \<open>A demonstration engine: its streams start together, its configuration is in whole numbers.\<close>

lemma demo_transitions: "assert_transitions (Suc (Suc (Suc (Suc 0)))) [num 1, num 2, num 2, num 1] = Inr ()"
  "assert_transitions (Suc (Suc (Suc (Suc 0)))) [num 1, num 1, num 1, num 2] = Inr ()"
  by (simp_all add: assert_transitions_def js_add_num)

lemma demo_config_checks:
  "assertRegimeConfig (me_regimes demo_config) = Inr ()" "assertStructureConfig (me_structure demo_config) = Inr ()"
  "assertCascadeConfig (me_cascade demo_config) = Inr ()" "assertHawkesConfig (me_arrival demo_config) = Inr ()"
  by (simp_all add: assertRegimeConfig_def assert_regime_def VOLATILITY_REGIMES_def assertStructureConfig_def assert_phase_def
      STRUCTURE_PHASES_def demo_transitions assertCascadeConfig_def MAX_CASCADE_COMPONENTS_def assertHawkesConfig_def finite_above_def)

lemma demo_excitation: "js_div (num 0) (js_sub (num 1) (num 0)) = num 0"
  using fl_of_int [of 0] by (simp add: js_sub_num) (simp add: num_def js_of_rat_def)

lemma multipliers_return:
  "stream_ok s \<Longrightarrow> stream_pos s + 4 * int k \<le> STREAM_END \<Longrightarrow>
    \<exists>s' ms. draw_multipliers k low high (Deterministic s) = Some (Inr (Deterministic s', ms)) \<and> stream_ok s' \<and>
      stream_pos s' = stream_pos s + 4 * int k"
proof (induction k arbitrary: s)
  case (Suc k)
  have "stream_pos s + 4 \<le> STREAM_END" using Suc.prems by simp
  then obtain s1 where s1: "nextUint32 s = Some (Inr (s1, word_at s))" "moved s 4 s1"
    by (rule nextUint32_ok [OF Suc.prems(1)])
  then show ?case using Suc.IH [of s1] Suc.prems
    by (force simp: draw_multiplier_def nextBoolean_def moved_def)
qed simp

lemma demo_created: "\<exists>s f. stream_ok s \<and> createMarketEngine (\<lambda>_ _ _ _. []) (demo_options (Deterministic s)) = Some (Inr f) \<and> restorable f"
proof -
  obtain s where s: "stream_ok s" "stream_pos s = 252" using demo_stream by blast
  have "stream_pos s + 4 \<le> STREAM_END" using s(2) by simp
  then obtain s1 where s1: "nextUint32 s = Some (Inr (s1, word_at s))" "moved s 4 s1"
    by (rule nextUint32_ok [OF s(1)])
  then have "stream_ok s1" "stream_pos s1 + 4 \<le> STREAM_END" using s(2) by (simp_all add: moved_def)
  then obtain s2 where s2: "nextUint32 s1 = Some (Inr (s2, word_at s1))" "moved s1 4 s2"
    by (rule nextUint32_ok)
  obtain s3 ms where s3: "draw_multipliers 3 (num 1) (js_sub (num 2) (num 1)) (Deterministic s) =
      Some (Inr (Deterministic s3, ms))" "stream_ok s3" "stream_pos s3 = 264"
    using multipliers_return [OF s(1), of 3 "num 1" "js_sub (num 2) (num 1)"] s(2) by auto
  let ?S = "\<lparr>so_sign = Deterministic s, so_rounding = Deterministic s, so_cascade = Deterministic s, so_shock = Deterministic s,
    so_arrival = Deterministic s, so_regime = Deterministic s, so_structure = Deterministic s\<rparr>"
  have "engine_streams (\<lambda>_ _ _ _. []) (demo_options (Deterministic s)) = Inr ?S"
    by (simp add: engine_streams_def engine_stream_def Let_def)
  moreover obtain m a S where L: "engine_layers demo_config ?S = Some (Inr (S, (m, a)))" "seekable_sources S"
    "hk_excitation a = num 0" "hk_averageMagnitude a = num 10"
  proof -
    obtain v where v: "drawSojourn (me_regimes demo_config) Normal (Deterministic s) = Some (Inr (Deterministic s2, v))"
      using s1(1) s2(1) by (auto simp: drawSojourn_def weibullSample_def nextFloat64_def Let_def)
    have "\<exists>x. engine_layers demo_config ?S = Some (Inr x) \<and> seekable_sources (fst x) \<and>
        hk_excitation (snd (snd x)) = num 0 \<and> hk_averageMagnitude (snd (snd x)) = num 10"
      using demo_config_checks s3 s s2 s1 v demo_excitation
      by (simp add: engine_layers_def from_regime_def from_cascade_def new_VolatilityRegimeModulator_def
        new_StructurePhaseModulator_def new_VolatilityCascade_def new_DurationCouplingModulator_def new_HawkesArrivalModel_def
        finite_above_def Let_def seekable_sources_def moved_def)
    then show ?thesis using that by force
  qed
  ultimately have "createMarketEngine (\<lambda>_ _ _ _. []) (demo_options (Deterministic s)) =
      Some (Inr (new_MarketEngine (num 1) m a S \<lparr>eg_instant = 1776000000000, eg_price = 0, eg_sequence = None\<rparr> None))"
    by (simp add: createMarketEngine_def)
  moreover have "restorable (new_MarketEngine (num 1) m a S \<lparr>eg_instant = 1776000000000, eg_price = 0, eg_sequence = None\<rparr> None)"
    using L by (simp add: restorable_def new_MarketEngine_def valid_instant_def valid_price_def MAX_EPOCH_MILLIS_def finite_above_def)
  ultimately show ?thesis using s(1) by blast
qed

section \<open>What a restoration accepts\<close>

lemma position_at_end: "parseCursor (formatCursor \<lparr>cu_blockIndex = 2 ^ 64, cu_byteOffset = 0\<rparr>) \<noteq> Inr c"
proof -
  have "assertCursor (2 ^ 64) (num 0) \<noteq> Inr u" for u using assertCursor_num [of "2 ^ 64" 0] by simp
  then have "cursor (2 ^ 64) (num 0) \<noteq> Inr c" by (auto simp: cursor_def andThen_Inr_iff)
  then show ?thesis using parse_decimal [of 0 "2 ^ 64"] by simp
qed

lemma seekable_of_seek:
  assumes "source_ok r" "andThen (parseCursor (formatCursor (src_position r))) f = Inr q"
  shows "seekable r"
  using assms
proof (induction r)
  case (Deterministic s)
  show ?case
  proof (rule ccontr)
    assume "\<not> seekable (Deterministic s)"
    with Deterministic.prems(1) have p: "0 \<le> st_byteOffset s" "st_byteOffset s < 64" "64 * st_blockIndex s + st_byteOffset s = 64 * 2 ^ 64"
      by (auto simp: stream_ok_def stream_pos_def)
    define k where "k = 2 ^ 64 - st_blockIndex s"
    from p(3) have "st_byteOffset s = 64 * k" by (simp add: k_def algebra_simps)
    with p(1,2) have "st_byteOffset s = 0" by presburger
    with p(3) have "position s = \<lparr>cu_blockIndex = 2 ^ 64, cu_byteOffset = 0\<rparr>" by (simp add: position_def)
    then show False using Deterministic.prems(2) position_at_end by (auto simp: andThen_Inr_iff)
  qed
qed simp

lemma seek_sources_each:
  assumes "seek_sources cs S = Inr T"
  shows "seek_named cs ''sign'' (so_sign S) = Inr (so_sign T)" "seek_named cs ''rounding'' (so_rounding S) = Inr (so_rounding T)"
    "seek_named cs ''cascade'' (so_cascade S) = Inr (so_cascade T)" "seek_named cs ''shock'' (so_shock S) = Inr (so_shock T)"
    "seek_named cs ''arrival'' (so_arrival S) = Inr (so_arrival T)" "seek_named cs ''regime'' (so_regime S) = Inr (so_regime T)"
    "seek_named cs ''structure'' (so_structure S) = Inr (so_structure T)"
  using assms by (auto simp: seek_sources_def andThen_Inr_iff)

lemma restorable_of_restore:
  assumes "snapshot e = Inr s" "restore f s = Inr g" "sources_ok (en_sources e)"
  shows "restorable e"
proof -
  let ?cs = "engine_cursors e"
  have one: "seekable r" if "seek_named ?cs n q = Inr q'" "alike r r" "map_of ?cs n = Some (formatCursor (src_position r))" for n r q q'
    using that(1,3) seekable_of_seek [of r] alike_ok [OF that(2)] by (simp add: seek_named_def)
  have s: "valid_instant (en_instant e)" "valid_price (en_price e)" "sp_cursors s = ?cs"
    "sp_arrivalState s = hawkes_snap (en_arrival e)"
    using assms(1) by (auto simp: snapshot_def andThen_Inr_iff epochMillis_num logPrice_num split: if_splits)
  obtain S a where S: "seek_sources ?cs (en_sources f) = Inr S" "hawkes_restore (en_arrival f) (hawkes_snap (en_arrival e)) = Inr a"
    using assms(2) s(3,4) by (auto simp: restore_def andThen_Inr_iff split: if_splits)
  note each = seek_sources_each [OF S(1)] and ok = assms(3) [unfolded alike_sources_def]
  have "seekable_sources (en_sources e)"
    unfolding seekable_sources_def
    using one [OF each(1), of "so_sign (en_sources e)"] one [OF each(2), of "so_rounding (en_sources e)"]
      one [OF each(3), of "so_cascade (en_sources e)"] one [OF each(4), of "so_shock (en_sources e)"]
      one [OF each(5), of "so_arrival (en_sources e)"] one [OF each(6), of "so_regime (en_sources e)"]
      one [OF each(7), of "so_structure (en_sources e)"] ok
    by (simp add: engine_cursors_def Let_def)
  moreover have "js_lt (num 0) x" if "isFinite x" "\<not> js_le x (num 0)" for x
    using that by (cases x) (auto simp: num_def js_le_def js_eq_def)
  ultimately show ?thesis
    using s S(2) by (auto simp: restorable_def hawkes_restore_def hawkes_snap_def finite_above_def split: if_splits)
qed

text \<open>C4: a snapshot is complete. Take an engine the factory builds without a bound on its ticks, let it run
  to any point, snapshot it there, and restore the snapshot into a second engine built from the same
  options. The snapshot is taken and accepted exactly in the states \<open>restorable\<close> lists: a valid instant
  and price, no stream at the very end of its keystream, and an arrival state of finite excitation from
  zero up and finite positive average. Whenever it is accepted the two engines from then on throw the
  same error or produce the same ticks, for every number of further ticks: nothing the generator reads is
  left out of the snapshot or kept from before the restoration.\<close>

theorem restored_engine_continues:
  assumes "createMarketEngine hkdf opts = Some (Inr f)" "co_maxTicks opts = None"
    and "\<forall>p r. co_streams opts p = Some r \<longrightarrow> source_ok r"
    and "engine_run n f = Some (Inr (e, ts))"
  shows "((\<exists>s g. snapshot e = Inr s \<and> restore f s = Inr g) \<longleftrightarrow> restorable e) \<and>
    (\<forall>s g. snapshot e = Inr s \<and> restore f s = Inr g \<longrightarrow>
      (\<forall>k. (\<exists>x. engine_run k e = Some (Inl x) \<and> engine_run k g = Some (Inl x)) \<or>
           (\<exists>e' g' us. engine_run k e = Some (Inr (e', us)) \<and> engine_run k g = Some (Inr (g', us)))))"
proof -
  note c = created [OF assms(1,3)]
  have grown: "grown f e" by (rule grown_run [OF c(1) assms(4)])
  have build: "same_build e f" using grown_same_build [OF grown c(2,3)] c(4) assms(2) by simp
  have only: "restorable e" if "snapshot e = Inr s" "restore f s = Inr g" for s g
    using restorable_of_restore [OF that] grown by (simp add: grown_def kept_def)
  have "\<exists>s' g'. snapshot e = Inr s' \<and> restore f s' = Inr g' \<and> same_market e g'" if "restorable e"
    by (rule restored_market [OF build that])
  with only have "same_market e g" if "snapshot e = Inr s" "restore f s = Inr g" for s g using that by fastforce
  moreover have "(\<exists>s g. snapshot e = Inr s \<and> restore f s = Inr g) \<longleftrightarrow> restorable e"
    using only restored_market [OF build] by blast
  ultimately show ?thesis using same_run [of e] by blast
qed

theorem restored_engine_continues_witness:
  "\<exists>s f p g. createMarketEngine (\<lambda>_ _ _ _. []) (demo_options (Deterministic s)) = Some (Inr f) \<and>
    snapshot f = Inr p \<and> restore f p = Inr g \<and>
    (\<forall>k. (\<exists>x. engine_run k f = Some (Inl x) \<and> engine_run k g = Some (Inl x)) \<or>
      (\<exists>e' g' us. engine_run k f = Some (Inr (e', us)) \<and> engine_run k g = Some (Inr (g', us))))"
proof -
  obtain s f where f: "stream_ok s" "createMarketEngine (\<lambda>_ _ _ _. []) (demo_options (Deterministic s)) = Some (Inr f)" "restorable f"
    using demo_created by blast
  have "engine_run 0 f = Some (Inr (f, []))" by simp
  with restored_engine_continues [OF f(2), where n = 0] f show ?thesis by fastforce
qed

text \<open>The bound on the ticks is not part of a snapshot: an engine at its bound has none left, and the engine
  its snapshot is restored into counts from its own ticks.\<close>

lemma bound_starts_over:
  assumes "en_maxTicks f = Some n" "en_produced f < n" "restore f s = Inr g"
  shows "engine_next g = engine_tick g"
  using assms by (auto simp: restore_def andThen_Inr_iff engine_next_def split: if_splits)

lemma run_forward:
  "sources_ok (en_sources e) \<Longrightarrow> (\<exists>x. engine_run n e = Some (Inl x)) \<or>
    (\<exists>e' ts. engine_run n e = Some (Inr (e', ts)) \<and> ticks_after (en_sequence e) (en_instant e) ts \<and> length ts \<le> n \<and>
      (en_maxTicks e = None \<longrightarrow> length ts = n))"
proof (induction n arbitrary: e)
  case (Suc n)
  from Suc.prems show ?case
  proof (cases rule: engine_next_cases)
    case 2
    moreover have "en_maxTicks e \<noteq> None"
      using 2 by (auto simp: engine_next_def tick_parts bindO_Inr split: option.splits)
    ultimately show ?thesis by simp
  next
    case (3 e1 t)
    with Suc.IH [OF 3(2)] tick_forward [OF 3(1)] show ?thesis by (cases "en_maxTicks e") auto
  qed auto
qed simp

text \<open>C5: the generator returns and goes forward. From well-formed streams a run of any length ends, with an
  error or with its ticks: numbered on one by one from the engine's sequence, at valid instants that
  strictly ascend from its instant, at exact lattice prices, and as many as were asked for when the
  engine has no bound.\<close>

theorem engine_goes_forward:
  assumes "sources_ok (en_sources e)"
  shows "(\<exists>x. engine_run n e = Some (Inl x)) \<or>
    (\<exists>e' ts. engine_run n e = Some (Inr (e', ts)) \<and> ticks_after (en_sequence e) (en_instant e) ts \<and> length ts \<le> n \<and>
      (en_maxTicks e = None \<longrightarrow> length ts = n))"
  by (rule run_forward [OF assms])

theorem engine_goes_forward_witness:
  "\<exists>e. en_maxTicks e = None \<and> en_instant e = 1776000000000 \<and>
    ((\<exists>x. engine_run 5 e = Some (Inl x)) \<or>
     (\<exists>e' ts. engine_run 5 e = Some (Inr (e', ts)) \<and> ticks_after (en_sequence e) 1776000000000 ts \<and> length ts = 5))"
proof -
  obtain s f where f: "stream_ok s" "createMarketEngine (\<lambda>_ _ _ _. []) (demo_options (Deterministic s)) = Some (Inr f)"
    using demo_created by blast
  then have ok: "sources_ok (en_sources f)" "en_maxTicks f = None" using created(3,4) [OF f(2)] by simp_all
  have "en_instant f = 1776000000000" using f(2) by (auto simp: createMarketEngine_def bindO_Inr new_MarketEngine_def)
  with engine_goes_forward [OF ok(1), of 5] ok(2) show ?thesis by metis
qed

end
