(* ===== verification/Hosted.thy ===== *)
theory Hosted
  imports EngineRuns
begin

text \<open>
  A market hosted in real time: packages/runtime/src/hosted.ts. The runtime draws one tick ahead of the
  clock, holds it until it is due, publishes every due tick when it is advanced, refuses a clock that
  went back and a gap past the catch-up bound, and may retract the tick it holds. An operation returns
  the market after it with the error or the value; what the fields of an engine hold after it threw is
  not modelled, and the market keeps the engine of before the call there.
\<close>

section \<open>The market and its operations\<close>

record hosted_market =
  ho_engine :: engine
  ho_maxCatchUpMs :: jsnum
  ho_pending :: "tick option"
  ho_lastPublished :: "tick option"
  ho_lastPublishedState :: "tick option"
  ho_exhausted :: bool
  ho_floorInstant :: int
  ho_lastAdvancedAt :: "int option"
  ho_retractable :: bool
  ho_beforePending :: "engine_snapshot option"
  ho_personality :: "string option"
  ho_keyEpoch :: jsnum

type_synonym 'a hosting = "(hosted_market \<times> 'a result) option"

definition DEFAULT_MAX_CATCH_UP_MS :: jsnum where "DEFAULT_MAX_CATCH_UP_MS = num 15000"

definition new_HostedMarket :: "engine \<Rightarrow> jsnum option \<Rightarrow> bool \<Rightarrow> tick option \<Rightarrow> tick option \<Rightarrow> string option \<Rightarrow> jsnum \<Rightarrow>
    hosted_market result" where
  "new_HostedMarket e maxCatchUpMs retractable resumePending resumeLastPublished personality keyEpoch =
     andThen (snapshot e) (\<lambda>s.
     let bound = (case maxCatchUpMs of None \<Rightarrow> DEFAULT_MAX_CATCH_UP_MS | Some b \<Rightarrow> b) in
     if \<not> js_lt (num 0) bound then Inl (RangeError ''maxCatchUpMs'')
     else Inr \<lparr>ho_engine = e, ho_maxCatchUpMs = bound, ho_pending = resumePending, ho_lastPublished = None,
       ho_lastPublishedState = resumeLastPublished, ho_exhausted = False, ho_floorInstant = sp_instant s,
       ho_lastAdvancedAt = None, ho_retractable = retractable, ho_beforePending = None,
       ho_personality = personality, ho_keyEpoch = keyEpoch\<rparr>)"

definition observedUntil :: "int \<Rightarrow> hosted_market \<Rightarrow> hosted_market" where
  "observedUntil now m = (case ho_lastAdvancedAt m of
     None \<Rightarrow> m\<lparr>ho_lastAdvancedAt := Some now\<rparr>
   | Some t \<Rightarrow> if t < now then m\<lparr>ho_lastAdvancedAt := Some now\<rparr> else m)"

text \<open>Draw the next tick into the hold, remembering the engine before it when it may be retracted.\<close>

definition remember :: "hosted_market \<Rightarrow> hosted_market result" where
  "remember m = (if ho_retractable m then andThen (snapshot (ho_engine m)) (\<lambda>s. Inr (m\<lparr>ho_beforePending := Some s\<rparr>)) else Inr m)"

definition hold_next :: "hosted_market \<Rightarrow> unit hosting" where
  "hold_next m = (case remember m of
     Inl x \<Rightarrow> Some (m, Inl x)
   | Inr m1 \<Rightarrow> (case engine_next (ho_engine m1) of
       None \<Rightarrow> None
     | Some (Inl x) \<Rightarrow> Some (m1, Inl x)
     | Some (Inr (e, None)) \<Rightarrow> Some (m1\<lparr>ho_engine := e, ho_exhausted := True\<rparr>, Inr ())
     | Some (Inr (e, Some t)) \<Rightarrow> Some (m1\<lparr>ho_engine := e, ho_pending := Some t\<rparr>, Inr ())))"

definition release_tick :: "tick \<Rightarrow> hosted_market \<Rightarrow> hosted_market" where
  "release_tick t m = m\<lparr>ho_lastPublished := Some t, ho_lastPublishedState := Some t, ho_pending := None\<rparr>"

partial_function (option) publish_due :: "int \<Rightarrow> hosted_market \<Rightarrow> tick list \<Rightarrow> (hosted_market \<times> tick list result) option" where
  "publish_due now m published =
     (case ho_pending m of
        Some t \<Rightarrow> if now < instant t then Some (m, Inr published)
          else publish_due now (release_tick t m) (published @ [t])
      | None \<Rightarrow> if ho_exhausted m then Some (m, Inr published)
          else (case hold_next m of
             None \<Rightarrow> None
           | Some (m', r) \<Rightarrow> (case r of Inl x \<Rightarrow> Some (m', Inl x) | Inr _ \<Rightarrow> publish_due now m' published)))"

definition behind_since :: "hosted_market \<Rightarrow> int" where
  "behind_since m = (case ho_lastAdvancedAt m of None \<Rightarrow> ho_floorInstant m
     | Some t \<Rightarrow> if ho_floorInstant m < t then t else ho_floorInstant m)"

definition went_back :: "int \<Rightarrow> hosted_market \<Rightarrow> bool" where
  "went_back now m = (case ho_lastAdvancedAt m of None \<Rightarrow> False | Some t \<Rightarrow> now < t)"

definition clock_refused :: "int \<Rightarrow> hosted_market \<Rightarrow> js_error option" where
  "clock_refused now m = (let behind = now - behind_since m in
     if went_back now m then Some (ClockWentBackwards (the (ho_lastAdvancedAt m) - now) (the (ho_lastAdvancedAt m)))
     else if js_lt (ho_maxCatchUpMs m) (num behind) then Some (CatchUpTooLarge behind)
     else None)"

definition advanceTo :: "int \<Rightarrow> hosted_market \<Rightarrow> tick list hosting" where
  "advanceTo now m = (case clock_refused now m of
     Some x \<Rightarrow> Some (m, Inl x)
   | None \<Rightarrow> publish_due now (m\<lparr>ho_lastAdvancedAt := Some now\<rparr>) [])"

definition msUntilNextTick :: "int \<Rightarrow> hosted_market \<Rightarrow> int option" where
  "msUntilNextTick now m = (case ho_pending m of None \<Rightarrow> None | Some t \<Rightarrow> Some (max 0 (instant t - now)))"

definition prime_market :: "hosted_market \<Rightarrow> unit hosting" where
  "prime_market m = (if ho_pending m \<noteq> None \<or> ho_exhausted m then Some (m, Inr ()) else hold_next m)"

definition retractPending :: "hosted_market \<Rightarrow> hosted_market \<times> bool result" where
  "retractPending m = (case (ho_retractable m, ho_pending m, ho_beforePending m) of
     (True, Some _, Some s) \<Rightarrow> (case restore (ho_engine m) s of
        Inl x \<Rightarrow> (m, Inl x)
      | Inr e \<Rightarrow> (m\<lparr>ho_engine := e, ho_pending := None, ho_beforePending := None\<rparr>, Inr True))
   | _ \<Rightarrow> (m, Inr False))"

section \<open>Polling\<close>

lemma hold_next_fields:
  assumes "hold_next m = Some (m', r)"
  shows "ho_maxCatchUpMs m' = ho_maxCatchUpMs m" "ho_floorInstant m' = ho_floorInstant m"
    "ho_lastAdvancedAt m' = ho_lastAdvancedAt m" "ho_retractable m' = ho_retractable m"
    "ho_lastPublishedState m' = ho_lastPublishedState m"
  using assms by (auto simp: hold_next_def remember_def andThen_Inr_iff split: sum.splits option.splits if_splits prod.splits)

text \<open>The passes of the loop, and induction along them.\<close>

lemma due_hold: "ho_pending m = Some t \<Longrightarrow> now < instant t \<Longrightarrow> publish_due now m acc = Some (m, Inr acc)"
  and due_release: "ho_pending m = Some t \<Longrightarrow> \<not> now < instant t \<Longrightarrow>
    publish_due now m acc = publish_due now (release_tick t m) (acc @ [t])"
  and due_stop: "ho_pending m = None \<Longrightarrow> ho_exhausted m \<Longrightarrow> publish_due now m acc = Some (m, Inr acc)"
  and due_throw: "ho_pending m = None \<Longrightarrow> \<not> ho_exhausted m \<Longrightarrow> hold_next m = Some (m1, Inl x) \<Longrightarrow>
    publish_due now m acc = Some (m1, Inl x)"
  and due_draw: "ho_pending m = None \<Longrightarrow> \<not> ho_exhausted m \<Longrightarrow> hold_next m = Some (m1, Inr ()) \<Longrightarrow>
    publish_due now m acc = publish_due now m1 acc"
  by (simp_all add: publish_due.simps [of now m])

lemmas due_passes = due_hold due_release due_stop due_throw due_draw

lemma due_induct [consumes 1, case_names hold release stop throw draw]:
  assumes "publish_due now m acc = Some (m', r)"
    and hold: "\<And>m acc t. ho_pending m = Some t \<Longrightarrow> now < instant t \<Longrightarrow> P m acc m (Inr acc)"
    and release: "\<And>m acc t m' r. ho_pending m = Some t \<Longrightarrow> \<not> now < instant t \<Longrightarrow>
      P (release_tick t m) (acc @ [t]) m' r \<Longrightarrow> P m acc m' r"
    and stop: "\<And>m acc. ho_pending m = None \<Longrightarrow> ho_exhausted m \<Longrightarrow> P m acc m (Inr acc)"
    and throw: "\<And>m acc m1 x. ho_pending m = None \<Longrightarrow> \<not> ho_exhausted m \<Longrightarrow> hold_next m = Some (m1, Inl x) \<Longrightarrow> P m acc m1 (Inl x)"
    and draw: "\<And>m acc m1 m' r. ho_pending m = None \<Longrightarrow> \<not> ho_exhausted m \<Longrightarrow> hold_next m = Some (m1, Inr ()) \<Longrightarrow>
      P m1 acc m' r \<Longrightarrow> P m acc m' r"
  shows "P m acc m' r"
proof -
  have "now = now \<longrightarrow> P m acc (fst y) (snd y)" if "publish_due now m acc = Some y" for m acc y
  proof (rule publish_due.raw_induct [where P = "\<lambda>now' m acc y. now' = now \<longrightarrow> P m acc (fst y) (snd y)", OF _ that])
    fix rec now' m acc y
    assume ih: "\<And>now' m acc y. rec now' m acc = Some y \<Longrightarrow> now' = now \<longrightarrow> P m acc (fst y) (snd y)"
      and step: "(case ho_pending m of
        Some t \<Rightarrow> if now' < instant t then Some (m, Inr acc) else rec now' (release_tick t m) (acc @ [t])
      | None \<Rightarrow> if ho_exhausted m then Some (m, Inr acc)
          else (case hold_next m of None \<Rightarrow> None
           | Some (m', r) \<Rightarrow> (case r of Inl x \<Rightarrow> Some (m', Inl x) | Inr _ \<Rightarrow> rec now' m' acc))) = Some y"
    show "now' = now \<longrightarrow> P m acc (fst y) (snd y)"
    proof
      assume n: "now' = now"
      show "P m acc (fst y) (snd y)"
      proof (cases "ho_pending m")
        case (Some t)
        show ?thesis
        proof (cases "now < instant t")
          case True
          then have "y = (m, Inr acc)" using step Some n by simp
          then show ?thesis using hold [OF Some True] by simp
        next
          case False
          then show ?thesis using release [OF Some False] ih step Some n by simp
        qed
      next
        case None
        show ?thesis
        proof (cases "ho_exhausted m")
          case True
          then have "y = (m, Inr acc)" using step None by simp
          then show ?thesis using stop [OF None True] by simp
        next
          case False
          with step None obtain m1 r where h: "hold_next m = Some (m1, r)" by (cases "hold_next m") auto
          show ?thesis
          proof (cases r)
            case (Inl x)
            then have "y = (m1, Inl x)" using step None False h by simp
            then show ?thesis using throw [OF None False] h Inl by simp
          next
            case (Inr u)
            then show ?thesis using draw [OF None False, of m1] h ih step None False n by simp
          qed
        qed
      qed
    qed
  qed
  from this [OF assms(1)] show ?thesis by simp
qed

lemma due_fields:
  assumes "publish_due now m acc = Some (m', r)"
  shows "ho_maxCatchUpMs m' = ho_maxCatchUpMs m \<and> ho_floorInstant m' = ho_floorInstant m \<and> ho_lastAdvancedAt m' = ho_lastAdvancedAt m \<and>
    ho_retractable m' = ho_retractable m"
  using assms by (induction rule: due_induct) (auto simp: release_tick_def dest: hold_next_fields)

text \<open>The clock a market was last advanced at plays no part in what is due.\<close>

abbreviation at_clock :: "int option \<Rightarrow> hosted_market \<Rightarrow> hosted_market" where
  "at_clock c m \<equiv> m\<lparr>ho_lastAdvancedAt := c\<rparr>"

lemma hold_next_clock: "hold_next (at_clock c m) = map_option (map_prod (at_clock c) id) (hold_next m)"
proof (cases "remember m")
  case (Inl x)
  then have "remember (at_clock c m) = Inl x" by (auto simp: remember_def andThen_Inl_iff split: if_splits)
  with Inl show ?thesis by (simp add: hold_next_def)
next
  case (Inr m1)
  then have "remember (at_clock c m) = Inr (at_clock c m1)" by (auto simp: remember_def andThen_Inr_iff split: if_splits)
  with Inr show ?thesis by (auto simp: hold_next_def split: option.split sum.split)
qed

lemma due_clock:
  assumes "publish_due now m acc = Some (m', r)"
  shows "publish_due now (at_clock c m) acc = Some (at_clock c m', r)"
  using assms
proof (induction rule: due_induct)
  case (release m acc t m' r)
  have "release_tick t (at_clock c m) = at_clock c (release_tick t m)" by (simp add: release_tick_def)
  with release show ?case by (simp add: due_release)
qed (simp_all add: due_passes hold_next_clock)

text \<open>What has been published in a pass is only added to.\<close>

lemma due_acc:
  assumes "publish_due now m acc = Some (m', r)"
  shows "(\<exists>x. r = Inl x \<and> publish_due now m acc' = Some (m', Inl x)) \<or>
    (\<exists>ys. r = Inr (acc @ ys) \<and> publish_due now m acc' = Some (m', Inr (acc' @ ys)))"
  using assms
proof (induction arbitrary: acc' rule: due_induct)
  case (release m acc t m' r)
  from release(3) [of "acc' @ [t]"] release(1,2) show ?case by (auto simp: due_release)
qed (auto simp: due_passes)

text \<open>Publishing up to an instant and then up to a later one is publishing up to the later one.\<close>

lemma due_later:
  assumes "publish_due now m acc = Some (m', r)" "now \<le> later" "r = Inr xs"
  shows "publish_due later m acc = publish_due later m' xs"
  using assms(1,3)
proof (induction rule: due_induct)
  case (release m acc t m' r)
  then show ?case using assms(2) by (simp add: due_release)
qed (simp_all add: due_draw)

lemma lt_num_mono: "js_lt b (num k) \<Longrightarrow> k \<le> l \<Longrightarrow> js_lt b (num l)"
  by (cases b) (auto simp: num_def)

lemma advance_fields:
  assumes "advanceTo t m = Some (m1, Inr xs)"
  shows "ho_lastAdvancedAt m1 = Some t" "ho_floorInstant m1 = ho_floorInstant m" "ho_maxCatchUpMs m1 = ho_maxCatchUpMs m"
    "\<not> went_back t m" "behind_since m \<le> behind_since m1" "publish_due t (at_clock (Some t) m) [] = Some (m1, Inr xs)"
proof -
  have t: "clock_refused t m = None" and due: "publish_due t (at_clock (Some t) m) [] = Some (m1, Inr xs)"
    using assms by (auto simp: advanceTo_def split: option.splits)
  show "publish_due t (at_clock (Some t) m) [] = Some (m1, Inr xs)" by (rule due)
  show m1: "ho_lastAdvancedAt m1 = Some t" "ho_floorInstant m1 = ho_floorInstant m" "ho_maxCatchUpMs m1 = ho_maxCatchUpMs m"
    using due_fields [OF due] by simp_all
  show w: "\<not> went_back t m" using t by (auto simp: clock_refused_def Let_def split: if_splits)
  then show "behind_since m \<le> behind_since m1" using m1 by (auto simp: went_back_def behind_since_def split: option.splits)
qed

lemma advance_twice:
  assumes "advanceTo t m = Some (m1, Inr xs)" "advanceTo u m1 = Some (m2, Inr ys)"
    and "\<not> js_lt (ho_maxCatchUpMs m) (num (u - behind_since m))"
  shows "advanceTo u m = Some (m2, Inr (xs @ ys))"
proof -
  note t = advance_fields [OF assms(1)] and u = advance_fields [OF assms(2)]
  have tu: "t \<le> u" using t(1) u(4) by (simp add: went_back_def)
  then have fwd: "\<not> went_back u m" using t(4) by (auto simp: went_back_def split: option.splits)
  have "publish_due t (at_clock (Some u) m) [] = Some (at_clock (Some u) m1, Inr xs)"
    using due_clock [OF t(6), of "Some u"] by simp
  then have "publish_due u (at_clock (Some u) m) [] = publish_due u (at_clock (Some u) m1) xs"
    using due_later tu by blast
  also have "\<dots> = Some (m2, Inr (xs @ ys))" using due_acc [OF u(6), of xs] by auto
  finally show ?thesis using fwd assms(3) by (simp add: advanceTo_def clock_refused_def Let_def)
qed

text \<open>A market advanced at each of some clock readings in turn.\<close>

fun advance_each :: "int list \<Rightarrow> hosted_market \<Rightarrow> tick list hosting" where
  "advance_each [] m = Some (m, Inr [])"
| "advance_each (t # ts) m = (case advanceTo t m of
     None \<Rightarrow> None
   | Some (m1, r) \<Rightarrow> (case r of
       Inl x \<Rightarrow> Some (m1, Inl x)
     | Inr xs \<Rightarrow> (case advance_each ts m1 of
         None \<Rightarrow> None
       | Some (m2, q) \<Rightarrow> Some (m2, case q of Inl x \<Rightarrow> Inl x | Inr ys \<Rightarrow> Inr (xs @ ys)))))"

lemma advance_at_last:
  assumes "advance_each (ts @ [t]) m = Some (m', Inr xs)" "\<not> js_lt (ho_maxCatchUpMs m) (num (t - behind_since m))"
  shows "advanceTo t m = Some (m', Inr xs)"
  using assms
proof (induction ts arbitrary: m xs)
  case Nil
  then show ?case by (auto split: option.splits sum.splits prod.splits)
next
  case (Cons u ts)
  then obtain m1 us ys where u: "advanceTo u m = Some (m1, Inr us)" "advance_each (ts @ [t]) m1 = Some (m', Inr ys)" "xs = us @ ys"
    by (auto split: option.splits sum.splits prod.splits)
  have "\<not> js_lt (ho_maxCatchUpMs m1) (num (t - behind_since m1))"
    using lt_num_mono [of "ho_maxCatchUpMs m" "t - behind_since m1" "t - behind_since m"] advance_fields(3,5) [OF u(1)] Cons.prems(2) by auto
  with Cons.IH u(2) have "advanceTo t m1 = Some (m', Inr ys)" by blast
  from advance_twice [OF u(1) this Cons.prems(2)] u(3) show ?case by simp
qed

section \<open>A pass ends\<close>

lemma hold_next_cases:
  assumes "sources_ok (en_sources (ho_engine m))"
  obtains m1 x where "hold_next m = Some (m1, Inl x)"
  | m1 where "hold_next m = Some (m1, Inr ())" "ho_pending m1 = ho_pending m" "ho_exhausted m1"
  | m1 t where "hold_next m = Some (m1, Inr ())" "ho_pending m1 = Some t" "sources_ok (en_sources (ho_engine m1))"
      "en_instant (ho_engine m1) = instant t" "en_instant (ho_engine m) < instant t"
proof (cases "remember m")
  case (Inl x)
  then show ?thesis using that(1) by (simp add: hold_next_def)
next
  case (Inr m1)
  then have m1: "ho_engine m1 = ho_engine m" "ho_pending m1 = ho_pending m"
    by (auto simp: remember_def andThen_Inr_iff split: if_splits)
  from assms show ?thesis
  proof (cases rule: engine_next_cases)
    case (1 x)
    then show ?thesis using that(1) Inr m1 by (simp add: hold_next_def)
  next
    case 2
    then show ?thesis using that(2) Inr m1 by (simp add: hold_next_def)
  next
    case (3 e t)
    then show ?thesis using that(3) [of "m1\<lparr>ho_engine := e, ho_pending := Some t\<rparr>" t] Inr m1 tick_forward [OF 3(1)]
      by (simp add: hold_next_def)
  qed
qed

lemma due_returns:
  assumes "sources_ok (en_sources (ho_engine m))"
  shows "publish_due now m acc \<noteq> None"
proof -
  have idle: "publish_due now m acc \<noteq> None" if "ho_pending m = None" "sources_ok (en_sources (ho_engine m))" for m acc
    using that
  proof (induction "nat (now - en_instant (ho_engine m))" arbitrary: m acc rule: less_induct)
    case less
    show ?case
    proof (cases "ho_exhausted m")
      case False
      from less.prems(2) show ?thesis
      proof (cases rule: hold_next_cases)
        case (1 m1 x)
        then show ?thesis using due_throw [OF less.prems(1) False] by simp
      next
        case (2 m1)
        then show ?thesis using due_draw [OF less.prems(1) False 2(1)] less.prems(1) by (simp add: due_stop)
      next
        case (3 m1 t)
        show ?thesis
        proof (cases "now < instant t")
          case True
          then show ?thesis using due_draw [OF less.prems(1) False 3(1)] by (simp add: due_hold [OF 3(2)])
        next
          case False
          then have "publish_due now (release_tick t m1) (acc @ [t]) \<noteq> None"
            using 3 by (intro less.hyps) (auto simp: release_tick_def)
          then show ?thesis using due_draw [OF less.prems(1) \<open>\<not> ho_exhausted m\<close> 3(1)] due_release [OF 3(2) False] by simp
        qed
      qed
    qed (simp add: due_stop less.prems(1))
  qed
  show ?thesis
  proof (cases "ho_pending m")
    case (Some t)
    have "publish_due now (release_tick t m) (acc @ [t]) \<noteq> None" by (rule idle) (use assms in \<open>simp_all add: release_tick_def\<close>)
    then show ?thesis using Some by (cases "now < instant t") (simp_all add: due_hold due_release)
  qed (rule idle [OF _ assms])
qed

section \<open>The tape\<close>

lemma further_alike: "further n r q \<Longrightarrow> alike q p \<Longrightarrow> further n r p"
proof (induction n r q arbitrary: p rule: further.induct)
  case (1 n s s')
  then show ?case by (cases p) (auto simp: further_stream_def alike_stream_def)
next
  case (2 n r r')
  then show ?case by (cases p) auto
qed simp_all

lemma alike_both: "alike r q \<Longrightarrow> alike r r \<and> alike q q"
  using alike_ok alike_refl by blast

lemma kept_alike: "kept S0 S S \<Longrightarrow> alike_sources S T \<Longrightarrow> kept S0 T T"
  unfolding kept_simps by (auto dest: alike_both intro: further_alike)

lemma fitted_refreshed: "fitted m0 m \<Longrightarrow> refreshed m' = refreshed m \<Longrightarrow> fitted m0 m'"
proof -
  assume "fitted m0 m" and r: "refreshed m' = refreshed m"
  have "mm_baseVolatility m' = mm_baseVolatility m" "mm_cascade m' = mm_cascade m" "mm_modulators m' = mm_modulators m"
    "rm_config (mm_regime m') = rm_config (mm_regime m)" "sm_config (mm_structure m') = sm_config (mm_structure m)"
    using r [THEN arg_cong [where f = mm_baseVolatility]] r [THEN arg_cong [where f = mm_cascade]] r [THEN arg_cong [where f = mm_modulators]]
      r [THEN arg_cong [where f = "\<lambda>m. rm_config (mm_regime m)"]] r [THEN arg_cong [where f = "\<lambda>m. sm_config (mm_structure m)"]]
    by (simp_all add: refreshed_def)
  with \<open>fitted m0 m\<close> show ?thesis by (simp add: fitted_def same_layers_def)
qed

lemma grown_same_market: "grown f e \<Longrightarrow> same_market e g \<Longrightarrow> grown f g"
  unfolding grown_def same_market_def using fitted_refreshed kept_alike by force

lemma same_market_refl: "sources_ok (en_sources e) \<Longrightarrow> factory_stack (mm_modulators (en_magnitude e)) \<Longrightarrow> en_maxTicks e = None \<Longrightarrow> same_market e e"
  by (simp add: same_market_def)

lemma alike_sources_trans: "alike_sources S T \<Longrightarrow> alike_sources T U \<Longrightarrow> alike_sources S U"
  unfolding alike_sources_def by (blast intro: alike_trans)

lemma same_market_trans: "same_market e f \<Longrightarrow> same_market f g \<Longrightarrow> same_market e g"
  unfolding same_market_def by (auto intro: alike_sources_trans)

text \<open>Two engines grown from one are of one build.\<close>

lemma further_like2: "further m r0 r \<Longrightarrow> further n r0 q \<Longrightarrow> alike r r \<Longrightarrow> alike q q \<Longrightarrow> like r q"
proof (induction m r0 r arbitrary: q rule: further.induct)
  case (1 n s s')
  then show ?case by (cases q) (auto simp: further_stream_def alike_stream_def)
next
  case (2 n r r')
  then show ?case by (cases q) auto
qed simp_all

lemma grown_both:
  assumes "grown f e" "grown f g" "factory_stack (mm_modulators (en_magnitude f))" "en_maxTicks f = None"
  shows "same_build e g"
proof -
  have "like_sources (en_sources e) (en_sources g)"
    using assms(1,2) unfolding grown_def kept_simps like_sources_def by (auto intro: further_like2)
  moreover have "same_layers (en_magnitude e) (en_magnitude g)"
    using assms(1,2) by (auto simp: grown_def fitted_def same_layers_def)
  ultimately show ?thesis using assms by (simp add: grown_def same_build_def fitted_def same_layers_def)
qed

lemma run_snoc:
  "engine_run n f = Some (Inr (e, ts)) \<Longrightarrow> length ts = n \<Longrightarrow> engine_next e = Some (Inr (e', Some t)) \<Longrightarrow>
    engine_run (Suc n) f = Some (Inr (e', ts @ [t]))"
proof (induction n arbitrary: f ts)
  case (Suc n)
  from Suc.prems(1) obtain f1 r where f1: "engine_next f = Some (Inr (f1, r))"
    "(case r of None \<Rightarrow> Some (Inr (f1, [])) | Some t \<Rightarrow> bindO (engine_run n f1) (\<lambda>(e'', ts). Some (Inr (e'', t # ts)))) = Some (Inr (e, ts))"
    by (auto simp: bindO_Inr)
  with Suc.prems(2) obtain u us where u: "r = Some u" "engine_run n f1 = Some (Inr (e, us))" "ts = u # us"
    by (cases r) (auto simp: bindO_Inr)
  then have "engine_run (Suc n) f1 = Some (Inr (e', us @ [t]))" using Suc.IH Suc.prems(2,3) by simp
  then show ?case using f1(1) u by (subst engine_run.simps(2)) (simp del: engine_run.simps)
qed simp

definition held :: "hosted_market \<Rightarrow> tick list" where
  "held m = (case ho_pending m of None \<Rightarrow> [] | Some t \<Rightarrow> [t])"

text \<open>The market is on the tape of \<open>f\<close>: what it published and holds is the beginning of what \<open>f\<close> produces,
  its engine is where \<open>f\<close> is after producing that, and what it remembers is where \<open>f\<close> was before.\<close>

definition on_tape :: "engine \<Rightarrow> hosted_market \<Rightarrow> tick list \<Rightarrow> bool" where
  "on_tape f m tape \<longleftrightarrow> \<not> ho_exhausted m \<and> grown f (ho_engine m) \<and> (\<not> ho_retractable m \<longrightarrow> ho_beforePending m = None) \<and>
     (\<exists>e. engine_run (length (tape @ held m)) f = Some (Inr (e, tape @ held m)) \<and> same_market e (ho_engine m)) \<and>
     (\<forall>s t. ho_beforePending m = Some s \<and> ho_pending m = Some t \<longrightarrow>
        (\<exists>d d'. engine_run (length tape) f = Some (Inr (d, tape)) \<and> same_market d d' \<and> grown f d' \<and> snapshot d' = Inr s))"

lemma tape_hold:
  assumes "on_tape f m tape" "ho_pending m = None" "hold_next m = Some (m1, Inr ())"
  shows "on_tape f m1 tape"
proof -
  obtain e where e: "engine_run (length tape) f = Some (Inr (e, tape))" "same_market e (ho_engine m)"
    using assms(1,2) by (auto simp: on_tape_def held_def)
  obtain m0 g r where m0: "remember m = Inr m0" "engine_next (ho_engine m0) = Some (Inr (g, r))"
    and m1: "m1 = (case r of None \<Rightarrow> m0\<lparr>ho_engine := g, ho_exhausted := True\<rparr> | Some t \<Rightarrow> m0\<lparr>ho_engine := g, ho_pending := Some t\<rparr>)"
    using assms(3) by (auto simp: hold_next_def split: sum.splits option.splits)
  have eng: "ho_engine m0 = ho_engine m" "ho_exhausted m0 = ho_exhausted m" "ho_retractable m0 = ho_retractable m"
    "ho_retractable m \<longrightarrow> (\<exists>s. ho_beforePending m0 = Some s \<and> snapshot (ho_engine m) = Inr s)"
    "\<not> ho_retractable m \<longrightarrow> ho_beforePending m0 = ho_beforePending m"
    using m0(1) by (auto simp: remember_def andThen_Inr_iff split: if_splits)
  from same_tick [OF e(2)] m0(2) eng(1) obtain e' t where t: "r = Some t" "engine_next e = Some (Inr (e', Some t))" "same_market e' g"
    by auto
  have "engine_run (Suc (length tape)) f = Some (Inr (e', tape @ [t]))" by (rule run_snoc [OF e(1) refl t(2)])
  moreover have "grown f g"
    by (rule grown_tick [where e = "ho_engine m" and t = r]) (use m0(2) eng(1) assms(1) in \<open>simp_all add: on_tape_def\<close>)
  moreover have "\<exists>d d'. engine_run (length tape) f = Some (Inr (d, tape)) \<and> same_market d d' \<and> grown f d' \<and> snapshot d' = Inr s"
    if "ho_beforePending m0 = Some s" for s
    using e eng(4,5) assms(1) that by (cases "ho_retractable m") (auto simp: on_tape_def)
  ultimately show ?thesis using assms(1) eng(2,3,5) t(1,3) by (auto simp: on_tape_def held_def m1)
qed

lemma tape_release:
  assumes "on_tape f m tape" "ho_pending m = Some t"
  shows "on_tape f (release_tick t m) (tape @ [t])"
  using assms by (simp add: on_tape_def held_def release_tick_def)

lemma tape_due:
  assumes "publish_due now m acc = Some (m', r)"
  shows "r = Inr xs \<Longrightarrow> on_tape f m (tape @ acc) \<Longrightarrow> on_tape f m' (tape @ xs)"
  using assms
proof (induction rule: due_induct)
  case (release m acc t m' r)
  then show ?case using tape_release [of f m "tape @ acc" t] by simp
next
  case (draw m acc m1 m' r)
  then show ?case using tape_hold by blast
qed auto

lemma tape_retract:
  assumes "on_tape f m tape" "retractPending m = (m', Inr b)" "factory_stack (mm_modulators (en_magnitude f))" "en_maxTicks f = None"
  shows "on_tape f m' tape"
proof (cases b)
  case True
  then obtain s t g where s: "ho_pending m = Some t" "ho_beforePending m = Some s" "restore (ho_engine m) s = Inr g"
    "m' = m\<lparr>ho_engine := g, ho_pending := None, ho_beforePending := None\<rparr>"
    using assms(2) by (auto simp: retractPending_def split: bool.splits option.splits sum.splits)
  obtain d d' where d: "engine_run (length tape) f = Some (Inr (d, tape))" "same_market d d'" "grown f d'" "snapshot d' = Inr s"
    using assms(1) s(1,2) unfolding on_tape_def by blast
  have "same_build d' (ho_engine m)"
    using grown_both [OF d(3) _ assms(3,4)] assms(1) by (simp add: on_tape_def)
  moreover have "restorable d'"
    using restorable_of_restore [OF d(4) s(3)] d(3) by (simp add: grown_def kept_def)
  ultimately have g: "same_market d' g" using restored_market [of d' "ho_engine m"] d(4) s(3) by auto
  have "grown f g" by (rule grown_same_market [OF d(3) g])
  moreover have "same_market d g" by (rule same_market_trans [OF d(2) g])
  ultimately show ?thesis using assms(1) d(1) s(4) by (simp add: on_tape_def held_def)
next
  case False
  then have "m' = m" using assms(2) by (auto simp: retractPending_def split: bool.splits option.splits sum.splits)
  with assms(1) show ?thesis by simp
qed

text \<open>Runs of a hosted market, with the ticks it has published.\<close>

inductive hosted_reach :: "hosted_market \<Rightarrow> hosted_market \<Rightarrow> tick list \<Rightarrow> bool" for m0 where
  start: "hosted_reach m0 m0 []"
| advance: "hosted_reach m0 m tape \<Longrightarrow> advanceTo now m = Some (m', Inr xs) \<Longrightarrow> hosted_reach m0 m' (tape @ xs)"
| prime: "hosted_reach m0 m tape \<Longrightarrow> prime_market m = Some (m', Inr ()) \<Longrightarrow> hosted_reach m0 m' tape"
| retract: "hosted_reach m0 m tape \<Longrightarrow> retractPending m = (m', Inr b) \<Longrightarrow> hosted_reach m0 m' tape"
| observe: "hosted_reach m0 m tape \<Longrightarrow> hosted_reach m0 (observedUntil now m) tape"

lemma tape_clock: "on_tape f (at_clock c m) tape = on_tape f m tape"
  by (simp add: on_tape_def held_def)

lemma tape_reach:
  assumes "hosted_reach m0 m tape" "on_tape f m0 []" "factory_stack (mm_modulators (en_magnitude f))" "en_maxTicks f = None"
  shows "on_tape f m tape"
  using assms(1)
proof induction
  case start
  then show ?case by (rule assms(2))
next
  case (advance m tape now m' xs)
  then show ?case using tape_due [OF advance_fields(6) [OF advance(2)] refl, of f tape] by (simp add: tape_clock)
next
  case (prime m tape m')
  then show ?case using tape_hold by (auto simp: prime_market_def split: if_splits)
next
  case (retract m tape m' b)
  then show ?case using tape_retract assms(3,4) by blast
next
  case (observe m tape now)
  then show ?case by (auto simp: observedUntil_def tape_clock split: option.split)
qed

text \<open>Nothing is published before it is due.\<close>

lemma due_timely:
  assumes "publish_due now m acc = Some (m', r)"
  shows "r = Inr xs \<Longrightarrow> \<forall>t\<in>set acc. instant t \<le> now \<Longrightarrow> \<forall>t\<in>set xs. instant t \<le> now"
  using assms
proof (induction rule: due_induct)
  case (release m acc t m' r)
  have "instant t \<le> now" using release(2) by linarith
  then have "\<forall>u\<in>set (acc @ [t]). instant u \<le> now" using release(5) by auto
  with release(3,4) show ?case by blast
qed auto

definition timely :: "hosted_market \<Rightarrow> tick list \<Rightarrow> bool" where
  "timely m tape \<longleftrightarrow> (\<forall>t\<in>set tape. \<exists>c. ho_lastAdvancedAt m = Some c \<and> instant t \<le> c)"

lemma timely_reach: "hosted_reach m0 m tape \<Longrightarrow> timely m tape"
proof (induction rule: hosted_reach.induct)
  case (advance m tape now m' xs)
  have "\<forall>t\<in>set xs. instant t \<le> now" using due_timely [OF advance_fields(6) [OF advance(2)] refl] by simp
  with advance show ?case using advance_fields(1,4) [OF advance(2)]
    by (fastforce simp: timely_def went_back_def)
next
  case (prime m tape m')
  then show ?case by (auto simp: timely_def prime_market_def split: if_splits dest: hold_next_fields)
next
  case (retract m tape m' b)
  then show ?case by (auto simp: timely_def retractPending_def split: bool.splits option.splits sum.splits)
next
  case (observe m tape now)
  then show ?case by (force simp: timely_def observedUntil_def split: option.split)
qed (simp add: timely_def)

section \<open>The properties\<close>

text \<open>C7: what a market publishes does not depend on how often it is polled. If advancing it at some clock
  readings in turn succeeds, then advancing it once, at the last of them, publishes the same ticks and
  leaves the same market, whenever the catch-up bound allows that one advance.\<close>

theorem polling_independent:
  assumes "advance_each (ts @ [t]) m = Some (m', Inr xs)" "\<not> js_lt (ho_maxCatchUpMs m) (num (t - behind_since m))"
  shows "advanceTo t m = Some (m', Inr xs)"
  by (rule advance_at_last [OF assms])

theorem polling_independent_witness:
  "\<exists>m m'. advance_each ([50, 90] @ [120]) m = Some (m', Inr [\<lparr>instant = 100, sequence = 1, price = 7\<rparr>]) \<and>
    advanceTo 120 m = Some (m', Inr [\<lparr>instant = 100, sequence = 1, price = 7\<rparr>])"
proof -
  obtain s f where "createMarketEngine (\<lambda>_ _ _ _. []) (demo_options (Deterministic s)) = Some (Inr f)"
    using demo_created by blast
  let ?t = "\<lparr>instant = 100, sequence = 1, price = 7\<rparr>"
  let ?e = "f\<lparr>en_maxTicks := Some 0, en_produced := 0\<rparr>"
  let ?m = "\<lparr>ho_engine = ?e, ho_maxCatchUpMs = num 15000, ho_pending = Some ?t, ho_lastPublished = None,
     ho_lastPublishedState = None, ho_exhausted = False, ho_floorInstant = 40, ho_lastAdvancedAt = None,
     ho_retractable = False, ho_beforePending = None, ho_personality = None, ho_keyEpoch = num 0\<rparr>"
  have stop: "engine_next ?e = Some (Inr (?e, None))" by (simp add: engine_next_def)
  have "\<exists>m'. advance_each ([50, 90] @ [120]) ?m = Some (m', Inr [?t])"
    by (simp add: advanceTo_def clock_refused_def went_back_def behind_since_def Let_def publish_due.simps release_tick_def
        hold_next_def remember_def stop)
  then obtain m' where m': "advance_each ([50, 90] @ [120]) ?m = Some (m', Inr [?t])" by blast
  have "\<not> js_lt (ho_maxCatchUpMs ?m) (num (120 - behind_since ?m))" by (simp add: behind_since_def)
  from polling_independent [OF m' this] m' show ?thesis by blast
qed

text \<open>C6: a hosted market plays the tape of its engine. Whatever the order in which it is advanced, primed,
  told that the clock was observed, and made to retract the tick it holds, the ticks it has published
  and the one it holds are the first ticks its engine produces, none skipped, repeated or redrawn into
  another; nothing was published before its instant; and the next advance returns. The engine has no bound
  on its ticks, the market resumes without a pending tick, and the run has the calls that did not throw.\<close>

theorem hosted_market_plays_the_tape:
  assumes "createMarketEngine hkdf opts = Some (Inr f)" "co_maxTicks opts = None"
    and "\<forall>p r. co_streams opts p = Some r \<longrightarrow> source_ok r"
    and "new_HostedMarket f bound retractable None resumed personality keyEpoch = Inr m0" "hosted_reach m0 m tape"
  shows "(\<exists>e. engine_run (length (tape @ held m)) f = Some (Inr (e, tape @ held m))) \<and>
    (\<forall>t\<in>set tape. \<exists>c. ho_lastAdvancedAt m = Some c \<and> instant t \<le> c) \<and> (\<forall>now. advanceTo now m \<noteq> None)"
proof -
  note c = created [OF assms(1,3)]
  have f: "en_maxTicks f = None" using c(4) assms(2) by simp
  have "on_tape f m0 []"
    using assms(4) c(1) same_market_refl [OF c(3,2) f]
    by (auto simp: new_HostedMarket_def andThen_Inr_iff Let_def on_tape_def held_def split: if_splits)
  then have tape: "on_tape f m tape" by (rule tape_reach [OF assms(5) _ c(2) f])
  then have "sources_ok (en_sources (ho_engine m))" by (simp add: on_tape_def grown_def kept_def)
  then have "advanceTo now m \<noteq> None" for now
    using due_returns [of "at_clock (Some now) m"] by (simp add: advanceTo_def split: option.split)
  then show ?thesis using tape timely_reach [OF assms(5)] by (auto simp: on_tape_def timely_def)
qed

theorem hosted_market_plays_the_tape_witness:
  "\<exists>f m0. new_HostedMarket f None True None None None (num 0) = Inr m0 \<and>
    ((\<exists>m x. advanceTo 1776000005000 m0 = Some (m, Inl x)) \<or>
     (\<exists>m xs e. advanceTo 1776000005000 m0 = Some (m, Inr xs) \<and>
        engine_run (length (xs @ held m)) f = Some (Inr (e, xs @ held m)) \<and> (\<forall>t\<in>set xs. instant t \<le> 1776000005000)))"
proof -
  obtain s f where f: "stream_ok s" "createMarketEngine (\<lambda>_ _ _ _. []) (demo_options (Deterministic s)) = Some (Inr f)" "restorable f"
    using demo_created by blast
  then obtain m0 where m0: "new_HostedMarket f None True None None None (num 0) = Inr m0"
    by (auto simp: new_HostedMarket_def snapshot_def epochMillis_num logPrice_num restorable_def DEFAULT_MAX_CATCH_UP_MS_def Let_def)
  have opts: "co_maxTicks (demo_options (Deterministic s)) = None" "\<forall>p r. co_streams (demo_options (Deterministic s)) p = Some r \<longrightarrow> source_ok r"
    using f(1) by auto
  note tape = hosted_market_plays_the_tape [OF f(2) opts m0]
  have "advanceTo 1776000005000 m0 \<noteq> None" using tape [OF hosted_reach.start] by blast
  then obtain m r where r: "advanceTo 1776000005000 m0 = Some (m, r)" by auto
  show ?thesis
  proof (cases r)
    case (Inr xs)
    then have "hosted_reach m0 m ([] @ xs)" using hosted_reach.advance [OF hosted_reach.start] r by simp
    from tape [OF this] r Inr m0 show ?thesis using advance_fields(1) [of 1776000005000 m0 m xs] by (intro exI [of _ f] exI [of _ m0]) auto
  qed (use m0 r in blast)
qed

text \<open>A throw in the middle of a pass: the ticks released before it are recorded as published and are in
  nobody's hands.\<close>

lemma thrown_pass_loses_ticks:
  assumes "ho_pending m = Some t" "instant t \<le> now" "clock_refused now m = None" "\<not> ho_exhausted m" "\<not> ho_retractable m"
    and "engine_next (ho_engine m) = Some (Inl x)"
  shows "\<exists>m'. advanceTo now m = Some (m', Inl x) \<and> ho_lastPublishedState m' = Some t \<and> ho_pending m' = None"
proof -
  let ?m = "release_tick t (at_clock (Some now) m)"
  have "hold_next ?m = Some (?m, Inl x)" using assms(5,6) by (simp add: hold_next_def remember_def release_tick_def)
  then have "publish_due now ?m [t] = Some (?m, Inl x)" using assms(4) by (intro due_throw) (simp_all add: release_tick_def)
  moreover have "publish_due now (at_clock (Some now) m) [] = publish_due now ?m [t]"
    using due_release [of "at_clock (Some now) m" t now "[]"] assms(1,2) by simp
  ultimately show ?thesis using assms(3) by (simp add: advanceTo_def release_tick_def)
qed

end
