(* ===== verification/VenueHost.thy ===== *)
theory VenueHost
  imports Hosted
begin

text \<open>
  Every hosted market advanced together: packages/runtime/src/venue.ts. The two Maps are lists in their
  insertion order, keyed by asset id; a registered asset is opaque but for its id. What is proved is
  that hosting markets together couples none to another: one asset's throw changes nothing any other
  publishes.
\<close>

section \<open>The venue\<close>

record 'r venue =
  ve_markets :: "(string \<times> hosted_market) list"
  ve_assets :: "(string \<times> 'r) list"

text \<open>\<^verbatim>\<open>Map.set\<close>: in place when the key is there, at the end otherwise.\<close>

fun map_set :: "string \<Rightarrow> 'v \<Rightarrow> (string \<times> 'v) list \<Rightarrow> (string \<times> 'v) list" where
  "map_set k v [] = [(k, v)]"
| "map_set k v ((k', v') # xs) = (if k' = k then (k, v) # xs else (k', v') # map_set k v xs)"

definition host :: "string \<Rightarrow> 'r \<Rightarrow> hosted_market \<Rightarrow> 'r venue \<Rightarrow> 'r venue result" where
  "host i asset market v =
     (if i \<in> fst ` set (ve_markets v) then Inl (RangeError ''Duplicate asset in venue'')
      else Inr (v\<lparr>ve_markets := map_set i market (ve_markets v), ve_assets := map_set i asset (ve_assets v)\<rparr>))"

definition new_Venue :: "(string \<times> 'r \<times> hosted_market) list \<Rightarrow> 'r venue result" where
  "new_Venue markets =
     (if markets = [] then Inl (RangeError ''A venue needs at least one market'')
      else foldE (\<lambda>(i, asset, market) v. host i asset market v) markets \<lparr>ve_markets = [], ve_assets = []\<rparr>)"

definition unhost :: "string \<Rightarrow> 'r venue \<Rightarrow> 'r venue result" where
  "unhost i v =
     (if i \<notin> fst ` set (ve_markets v) then Inl (RangeError ''Unknown asset'')
      else Inr (v\<lparr>ve_markets := filter (\<lambda>x. fst x \<noteq> i) (ve_markets v), ve_assets := filter (\<lambda>x. fst x \<noteq> i) (ve_assets v)\<rparr>))"

definition marketFor :: "string \<Rightarrow> 'r venue \<Rightarrow> hosted_market result" where
  "marketFor i v = (case map_of (ve_markets v) i of None \<Rightarrow> Inl (RangeError ''Unknown asset'') | Some m \<Rightarrow> Inr m)"

definition assetFor :: "string \<Rightarrow> 'r venue \<Rightarrow> 'r option result" where
  "assetFor i v = andThen (marketFor i v) (\<lambda>_. Inr (map_of (ve_assets v) i))"

definition reopen_market :: "string \<Rightarrow> hosted_market \<Rightarrow> 'r venue \<Rightarrow> 'r venue result" where
  "reopen_market i market v =
     (if i \<notin> fst ` set (ve_markets v) then Inl (RangeError ''Unknown asset'')
      else Inr (v\<lparr>ve_markets := map_set i market (ve_markets v)\<rparr>))"

text \<open>Priming stops at the first throw, with the markets before it primed.\<close>

fun prime_all :: "(string \<times> hosted_market) list \<Rightarrow> ((string \<times> hosted_market) list \<times> unit result) option" where
  "prime_all [] = Some ([], Inr ())"
| "prime_all ((i, m) # ms) = (case prime_market m of
     None \<Rightarrow> None
   | Some (m', r) \<Rightarrow> (case r of
       Inl x \<Rightarrow> Some ((i, m') # ms, Inl x)
     | Inr _ \<Rightarrow> map_option (map_prod ((#) (i, m')) id) (prime_all ms)))"

definition prime_venue :: "'r venue \<Rightarrow> ('r venue \<times> unit result) option" where
  "prime_venue v = map_option (\<lambda>(ms, r). (v\<lparr>ve_markets := ms\<rparr>, r)) (prime_all (ve_markets v))"

text \<open>Advancing goes on past a throw, which becomes a failure of its asset.\<close>

fun advance_all :: "int \<Rightarrow> (string \<times> hosted_market) list \<Rightarrow>
    ((string \<times> hosted_market) list \<times> (string \<times> tick list) list \<times> (string \<times> js_error) list) option" where
  "advance_all now [] = Some ([], [], [])"
| "advance_all now ((i, m) # ms) = (case advanceTo now m of
     None \<Rightarrow> None
   | Some (m', r) \<Rightarrow> (case advance_all now ms of
       None \<Rightarrow> None
     | Some (ms', published, failures) \<Rightarrow> Some ((i, m') # ms',
         (case r of Inl _ \<Rightarrow> published | Inr ticks \<Rightarrow> if ticks \<noteq> [] then (i, ticks) # published else published),
         (case r of Inl x \<Rightarrow> (i, x) # failures | Inr _ \<Rightarrow> failures))))"

definition advanceDetailed :: "int \<Rightarrow> 'r venue \<Rightarrow> ('r venue \<times> (string \<times> tick list) list \<times> (string \<times> js_error) list) option" where
  "advanceDetailed now v = map_option (\<lambda>(ms, out). (v\<lparr>ve_markets := ms\<rparr>, out)) (advance_all now (ve_markets v))"

fun soonest_tick :: "int \<Rightarrow> (string \<times> hosted_market) list \<Rightarrow> int option \<Rightarrow> int option" where
  "soonest_tick now [] soonest = soonest"
| "soonest_tick now ((i, m) # ms) soonest = (case msUntilNextTick now m of
     None \<Rightarrow> soonest_tick now ms soonest
   | Some wait \<Rightarrow> soonest_tick now ms (case soonest of
       None \<Rightarrow> Some wait | Some s \<Rightarrow> if wait < s then Some wait else soonest))"

definition venue_msUntilNextTick :: "int \<Rightarrow> 'r venue \<Rightarrow> int option" where
  "venue_msUntilNextTick now v = soonest_tick now (ve_markets v) None"

section \<open>No coupling\<close>

definition venue_ok :: "'r venue \<Rightarrow> bool" where
  "venue_ok v \<longleftrightarrow> distinct (map fst (ve_markets v)) \<and> (\<forall>(i, m)\<in>set (ve_markets v). sources_ok (en_sources (ho_engine m)))"

lemma advance_returns: "sources_ok (en_sources (ho_engine m)) \<Longrightarrow> advanceTo now m \<noteq> None"
  using due_returns [of "m\<lparr>ho_lastAdvancedAt := Some now\<rparr>"] by (simp add: advanceTo_def split: option.split)

lemma advance_all_each:
  assumes "distinct (map fst ms)" "\<forall>(i, m)\<in>set ms. sources_ok (en_sources (ho_engine m))"
  shows "\<exists>ms' published failures. advance_all now ms = Some (ms', published, failures) \<and> map fst ms' = map fst ms \<and>
    fst ` set published \<subseteq> fst ` set ms \<and> fst ` set failures \<subseteq> fst ` set ms \<and>
    (\<forall>i m. map_of ms i = Some m \<longrightarrow> (\<exists>m' r. advanceTo now m = Some (m', r) \<and> map_of ms' i = Some m' \<and>
      map_of published i = (case r of Inl _ \<Rightarrow> None | Inr ticks \<Rightarrow> if ticks = [] then None else Some ticks) \<and>
      map_of failures i = (case r of Inl x \<Rightarrow> Some x | Inr _ \<Rightarrow> None)))"
  using assms
proof (induction ms)
  case (Cons a ms)
  obtain i m where a: "a = (i, m)" by (cases a)
  obtain m' r where r: "advanceTo now m = Some (m', r)" using advance_returns [of m now] Cons.prems(2) a by auto
  obtain ms' ps fs where rest: "advance_all now ms = Some (ms', ps, fs)" "map fst ms' = map fst ms"
    "fst ` set ps \<subseteq> fst ` set ms" "fst ` set fs \<subseteq> fst ` set ms"
    "\<And>j n. map_of ms j = Some n \<Longrightarrow> \<exists>m' r. advanceTo now n = Some (m', r) \<and> map_of ms' j = Some m' \<and>
      map_of ps j = (case r of Inl _ \<Rightarrow> None | Inr ticks \<Rightarrow> if ticks = [] then None else Some ticks) \<and>
      map_of fs j = (case r of Inl x \<Rightarrow> Some x | Inr _ \<Rightarrow> None)"
    using Cons.IH Cons.prems by (auto simp: a)
  have "i \<notin> fst ` set ms" using Cons.prems(1) a by simp
  then have none: "map_of ps i = None" "map_of fs i = None" using rest(3,4) by (auto simp: map_of_eq_None_iff)
  show ?case
  proof (cases r)
    case (Inl x)
    have "advance_all now (a # ms) = Some ((i, m') # ms', ps, (i, x) # fs)" using r rest(1) Inl by (simp add: a)
    then show ?thesis using rest none r Inl by (auto simp: a)
  next
    case (Inr ticks)
    have "advance_all now (a # ms) = Some ((i, m') # ms', (if ticks \<noteq> [] then (i, ticks) # ps else ps), fs)"
      using r rest(1) Inr by (simp add: a)
    then show ?thesis using rest none r Inr by (cases "ticks = []") (auto simp: a)
  qed
qed simp

text \<open>The wait of the venue is the shortest wait of its markets.\<close>

lemma soonest_from: "soonest_tick now ms (Some s) = Some (fold min (List.map_filter (\<lambda>(i, m). msUntilNextTick now m) ms) s)"
proof (induction ms arbitrary: s)
  case (Cons a ms)
  then show ?case by (cases a; cases "msUntilNextTick now (snd a)") (auto simp: List.map_filter_simps min_def)
qed (simp add: List.map_filter_simps)

lemma soonest_is_least:
  "soonest_tick now ms None = (case List.map_filter (\<lambda>(i, m). msUntilNextTick now m) ms of
     [] \<Rightarrow> None | w # ws \<Rightarrow> Some (fold min ws w))"
proof (induction ms)
  case (Cons a ms)
  then show ?case
    by (cases a; cases "msUntilNextTick now (snd a)") (auto simp: List.map_filter_simps soonest_from)
qed (simp add: List.map_filter_simps)

text \<open>C8: markets hosted together are not coupled. Advancing the venue returns, keeps every asset, and does to
  each market what advancing it alone does: its ticks are reported exactly when there are any, its throw
  becomes a failure of that asset alone, and no other asset loses or gains a tick by it.\<close>

theorem venue_isolates_markets:
  assumes "venue_ok v"
  shows "\<exists>v' published failures. advanceDetailed now v = Some (v', published, failures) \<and>
    map fst (ve_markets v') = map fst (ve_markets v) \<and> ve_assets v' = ve_assets v \<and>
    (\<forall>i m. marketFor i v = Inr m \<longrightarrow> (\<exists>m' r. advanceTo now m = Some (m', r) \<and> marketFor i v' = Inr m' \<and>
      map_of published i = (case r of Inl _ \<Rightarrow> None | Inr ticks \<Rightarrow> if ticks = [] then None else Some ticks) \<and>
      map_of failures i = (case r of Inl x \<Rightarrow> Some x | Inr _ \<Rightarrow> None)))"
proof -
  obtain ms ps fs where a: "advance_all now (ve_markets v) = Some (ms, ps, fs)" "map fst ms = map fst (ve_markets v)"
    "\<And>i m. map_of (ve_markets v) i = Some m \<Longrightarrow> \<exists>m' r. advanceTo now m = Some (m', r) \<and> map_of ms i = Some m' \<and>
      map_of ps i = (case r of Inl _ \<Rightarrow> None | Inr ticks \<Rightarrow> if ticks = [] then None else Some ticks) \<and>
      map_of fs i = (case r of Inl x \<Rightarrow> Some x | Inr _ \<Rightarrow> None)"
    using advance_all_each [of "ve_markets v" now] assms by (auto simp: venue_ok_def)
  have "\<exists>m' r. advanceTo now m = Some (m', r) \<and> marketFor i (v\<lparr>ve_markets := ms\<rparr>) = Inr m' \<and>
      map_of ps i = (case r of Inl _ \<Rightarrow> None | Inr ticks \<Rightarrow> if ticks = [] then None else Some ticks) \<and>
      map_of fs i = (case r of Inl x \<Rightarrow> Some x | Inr _ \<Rightarrow> None)" if "marketFor i v = Inr m" for i m
  proof -
    have "map_of (ve_markets v) i = Some m" using that by (simp add: marketFor_def split: option.splits)
    from a(3) [OF this] show ?thesis by (auto simp: marketFor_def)
  qed
  with a(1,2) show ?thesis
    by (intro exI [of _ "v\<lparr>ve_markets := ms\<rparr>"] exI [of _ ps] exI [of _ fs]) (simp add: advanceDetailed_def)
qed

theorem venue_isolates_markets_witness:
  "\<exists>v :: unit venue. \<exists>m. marketFor ''eurusd-otc'' v = Inr m \<and> (\<exists>v' published failures. advanceDetailed 7 v = Some (v', published, failures) \<and>
    map fst (ve_markets v') = [''eurusd-otc'', ''btcusd-otc''] \<and> (\<exists>m' r. advanceTo 7 m = Some (m', r) \<and> marketFor ''eurusd-otc'' v' = Inr m'))"
proof -
  obtain s f where f: "stream_ok s" "createMarketEngine (\<lambda>_ _ _ _. []) (demo_options (Deterministic s)) = Some (Inr f)" "restorable f"
    using demo_created by blast
  then obtain m where m: "new_HostedMarket f None True None None None (num 0) = Inr m"
    by (auto simp: new_HostedMarket_def snapshot_def epochMillis_num logPrice_num restorable_def DEFAULT_MAX_CATCH_UP_MS_def Let_def)
  then have e: "ho_engine m = f" by (auto simp: new_HostedMarket_def andThen_Inr_iff Let_def split: if_splits)
  have ok: "sources_ok (en_sources f)" using created(3) [OF f(2)] f(1) by simp
  let ?v = "\<lparr>ve_markets = [(''eurusd-otc'', m), (''btcusd-otc'', m)], ve_assets = [(''eurusd-otc'', ()), (''btcusd-otc'', ())]\<rparr>"
  have v: "venue_ok ?v" using ok e by (simp add: venue_ok_def)
  have i: "marketFor ''eurusd-otc'' ?v = Inr m" by (simp add: marketFor_def)
  obtain v' ps fs where "advanceDetailed 7 ?v = Some (v', ps, fs)" "map fst (ve_markets v') = map fst (ve_markets ?v)"
    "\<exists>m' r. advanceTo 7 m = Some (m', r) \<and> marketFor ''eurusd-otc'' v' = Inr m'"
    using venue_isolates_markets [OF v, of 7] i by blast
  with i show ?thesis by (intro exI [of _ ?v] exI [of _ m]) auto
qed

end
