(* ===== verification/Spec2Isabelle.thy ===== *)
theory Spec2Isabelle
  imports Candle Replay Label Limiter Feed TickWindow Follower Retention Publisher Anchor RecordRuns HistoryRuns VenueHost
begin

text \<open>
  The venue publishes a synthetic market: a generator draws bytes from a seekable keystream, its
  ticks are recorded, served to clients and to other nodes, committed under a signed hash chain, and
  contracts are settled against the record. This development models the generator, down to the bits of
  its logarithms, and the part of the repository that decides what is published, what is served and
  what is paid. It is a shallow embedding: each theory gives the definitions of a source file in the
  order of that file, under the names of the source (a suffix or prefix where HOL has the name), and
  then the lemmas that make the file correct.

  \<^bold>\<open>Conventions.\<close> A function that may throw, and a method that may reject its promise, is a function
  into \<open>js_error + 'a\<close> (theory \<open>Prelude\<close>); an object with mutable fields is a record passed in and
  returned, returned unchanged where the code throws before writing. A Number that a caller may
  supply unchecked is a \<open>jsnum\<close>, binary64 with its rounding (\<open>JsNumber\<close>); a sequence, an instant or a
  price whose branded type the code has already established is an \<open>int\<close>; a 32-bit operation is on
  \<open>32 word\<close>. A Map is a HOL map, or a list where its insertion order is read. Strings are char lists,
  and lists of 16-bit units where the code is about surrogates. What the code takes from outside
  src/ is a parameter: SHA-256, Ed25519 and HKDF of node:crypto, \<^verbatim>\<open>JSON.stringify\<close> of a
  latent state, \<^verbatim>\<open>localeCompare\<close>, and \<^verbatim>\<open>Math.sqrt\<close> in the exposure bound (the samplers
  use the correctly rounded root). The laws assumed of them are named (\<open>digest\<close>, \<open>ed25519\<close>), are the documented
  ones, and each theorem that rests on them has an instance where they hold.

  \<^bold>\<open>packages/core.\<close> \<open>TimeCore\<close> (time/instant.ts, timeframe.ts, clock.ts): instants, durations, the
  eleven timeframes and their buckets. \<open>Market\<close> (market/instrument.ts, tick.ts, query.ts): canonical
  prices, ticks and the binary searches. \<open>Candle\<close> (market/candle.ts): the aggregator, the tick fold
  and re-aggregation, equal on every pair of nesting timeframes. \<open>Replay\<close> (market/replay.ts): segments
  and the cursors in force. \<open>Chacha\<close> (entropy/chacha20.ts): the block function, checked on the RFC 8439
  vector. \<open>Stream\<close> (entropy/stream.ts): the seekable stream and its draws against the keystream,
  its loops with their bounds. \<open>CursorLease\<close> (entropy/lease.ts): the reserve, persist, confirm, consume
  protocol as a step relation with crashes. \<open>Label\<close> (entropy/label.ts, keyring.ts): labels and keys.

  \<open>Portable\<close> (math/bits.ts, portable.ts): the words of a double, scaling by powers of two (exact wherever
  the result is a double) and the portable exp, ln and pow. \<open>Sampler\<close> (random/distributions.ts): random
  sources and every sampler; \<open>draws\<close> is what replay needs of one, closed under sequencing and rejection, and
  \<open>first_accepted\<close> says what a rejection loop answers without the loop.

  \<^bold>\<open>packages/engine.\<close> \<open>Layers\<close> (cascade.ts, regime.ts, structure.ts, floor.ts, modulator.ts and the coupling
  of hawkes.ts): the layers that size a tick, and the locale \<open>blind_relation\<close> of a relation on the sources
  that every single draw keeps. \<open>Arrival\<close> (hawkes.ts, arrival.ts): when the next tick comes. \<open>Engine\<close>
  (engine.ts, factory.ts): one tick, snapshots, restoration, the canonical composition; \<open>sign_blind_part\<close>
  is a tick but for its coin, and the locale \<open>blind_engine\<close> proves once that it is the same from related
  sources, interpreted on sources that replay each other, on sources with the coin inverted, and (in
  \<open>EngineRuns\<close>) on sources whose keys are kept. \<open>MirrorTest\<close> (mirror.ts): the mirror test, which no
  engine of the factory can fail. \<open>EngineRuns\<close>: which states a restoration accepts (\<open>restorable\<close>), that an
  accepted one continues as the original would when the ticks have no bound, and that ticks go forward.

  \<^bold>\<open>packages/trading.\<close> \<open>Contract\<close> (contract.ts): exact payouts. \<open>Settle\<close> (settle.ts): the settlement
  rule, its refusals, and exactly when a settlement is final. \<open>Exposure\<close> (exposure.ts): per-event sums and the bound on the loss.
  \<open>Limiter\<close> (limiter.ts): the running book refines the stateless decision and holds the limit.

  \<^bold>\<open>packages/runtime.\<close> \<open>RecordLog\<close> (replication.ts, and the record part of lease.ts): the replicated
  record of an asset. \<open>LeaseStore\<close> (lease.ts, fence.ts): leases, fencing tokens and fenced writes; no
  superseded leader writes and the record never forks. \<open>Follower\<close> (follower.ts): a follower of a record
  without two seams in a row (\<open>mirrorable\<close>) mirrors a prefix of it under any interleaving of pulls and
  writes and catches up; on other records the store accepts it may stick or skip, as lemmas there show. \<open>PriceFrame\<close>
  (priceFrame.ts): what the stored integers count in. \<open>TickRecord\<close> and \<open>SqliteRecord\<close> (tickRecord.ts):
  the record in memory and in SQLite, tables and statements included; \<open>RecordTables\<close> keeps the tables well
  formed whatever is called; \<open>RecordRuns\<close> proves that over any run of writes the two answer alike, as long
  as epochs are declared only at sequences already written (\<open>run_allowed\<close>) and, for the queries by instant,
  time does not go back (\<open>timely\<close>); outside these conditions it shows them part. The candles kept for ever are history.ts and sqliteHistory.ts:
  \<open>HistoryStore\<close> and \<open>SqliteHistory\<close> (the two stores, one interface \<open>candle_history\<close> interpreted on both),
  \<open>Merge\<close> (re-aggregation as a function of the groups of bars), \<open>HistoryRecorder\<close> (which minutes of a
  stream a recorder hands out), \<open>HistoryRead\<close> (the hourly rollup and the read of any timeframe).

  \<open>Hosted\<close> (hosted.ts): a market played in real time, one tick ahead of the clock; what it publishes is the
  tape of its engine, however it is polled, primed or made to retract. \<open>VenueHost\<close> (venue.ts): markets
  advanced together, none coupled to another.

  \<^bold>\<open>apps/api.\<close> \<open>HistoryService\<close> (history.service.ts): observing, priming and flushing a recorder per
  asset, as a step relation. \<open>HistoryRuns\<close> proves of its runs that what is stored and what is served
  tells the ticks it names, and gives the runs on which it does less than its comments say.

  \<^bold>\<open>packages/distribution.\<close> \<open>TickLog\<close> holds the facts shared by the containers of ticks. \<open>Feed\<close> (feed.ts):
  publication, retention, subscription and resumption; \<open>feed_deliveries\<close> says, without the feed, what each
  live subscriber is due. \<open>Retention\<close> (retention.ts): what may be pruned.
  \<open>Commitment\<close> (commitment.ts): the Merkle tree, inclusion proofs and hash chains. \<open>Signing\<close> (signing.ts)
  and \<open>Rotation\<close> (rotation.ts, and \<^verbatim>\<open>verifySignedChain\<close> of signing.ts): signed commitments and the log of
  keys. \<open>Publisher\<close> (publisher.ts): windows closed, signed and chained, across seals and restarts.
  \<open>Anchor\<close> (anchor.ts): summaries of chains, whether one extends another, and what that does not see.

  \<^bold>\<open>packages/chart.\<close> \<open>TickWindow\<close> (window.ts, reduce.ts): the client's window and its column reduction.

  \<^bold>\<open>How the parts meet.\<close> The engine draws from sources over \<open>Stream\<close>, keyed through \<open>Label\<close>, with the
  samplers of \<open>Sampler\<close> and the functions of \<open>Portable\<close>; its ticks are those of \<open>Market\<close>; a
  hosted market plays them. The feed publishes batches that continue the record and a client's window
  resumes from the feed (the theorem of this theory); the settlement reads the record through
  \<open>Market.priceAtOrBefore\<close> and the exposure and limiter settle through \<open>Settle\<close>; the follower reads what
  the lease store lets its leader write; the publisher commits published ticks through \<open>Commitment\<close> and
  \<open>Signing\<close>, its chains are what \<open>Rotation\<close> verifies, \<open>Anchor\<close> summarises and \<open>Retention\<close> keeps. The
  history service folds the ticks of a record with the aggregator of \<open>Candle\<close>, writes them to a store
  under the frames of \<open>PriceFrame\<close>, and reads them back folded again.

  \<^bold>\<open>Bounds and termination.\<close> Recursions are structural or carry a measure, with the following exceptions that
  are \<open>partial_function (option)\<close>, so that not returning is a value: the rejection loop of
  \<^verbatim>\<open>nextBoundedUint32\<close> and the byte loop of \<^verbatim>\<open>nextBytes\<close>, which
  \<open>Stream.draws_return\<close> proves always to return because the cursor only moves forward through at most
  \<open>2 ^ 64\<close> blocks; the rejection loops of the normal and gamma samplers, which \<open>Sampler.samplers_return\<close>
  proves to return for the same reason; the publishing loop of a hosted market, which returns because
  the instants of an engine ascend; and the paging loop of \<^verbatim>\<open>prime\<close>, which \<open>HistoryService.prime_pages_all\<close>
  proves to return with every tick of the record. The regime loop is bounded by the thousand
  transitions the code allows in one tick. No definition takes fuel. Counts and sequences stay
  below \<open>2 ^ 53\<close> where a statement says so, the range in which Numbers are exact.
  \<^bold>\<open>Not modelled.\<close> The catalogue, the calibration of assets, the personalities and their registration
  (packages/engine) are tables and searches over simulated tapes, judged by statistics; the lab, the
  simulations and the guardrails are tooling over the system, not part of it. Recovery, the
  files and SQLite databases are input and output around the parts above, except where a theory is
  named for them. The controllers of apps/api and the user interface of apps/web wire the packages to
  HTTP and to a browser. Error messages are reduced to a tag that names the check. A throw ends the run
  of an engine, whose fields after it are not modelled, and one stream handed in for two purposes is two
  values here. Sinks that call back into the feed while it publishes are excluded. The accuracy of the
  portable functions, and the display of prices through them, are not treated.
\<close>

section \<open>A client of the feed\<close>

text \<open>C26: a client never has to choose between a gap and a duplicate. Its window holds a stretch of the
  published record; the sequence the window asks to resume from is one the feed serves with exactly
  the ticks the client has not seen, and the window accepts them and then holds the newest ticks of
  the whole stretch, unless more ticks went by than the feed retains.\<close>

theorem client_resumes_exactly:
  assumes "feed_run f lg" "lg a = before @ got @ rest" "got \<noteq> []" "window_run w got"
    and "0 \<le> sequence (last got)" "sequence (last got) < MAX_SAFE" "length rest \<le> fd_retainTicks f"
  shows "\<exists>s w'. resumeFrom w = Some s \<and> since f a (num s) = Inr rest \<and> window_append rest w = Inr w' \<and>
    resumeFrom w' = Some (sequence (last (got @ rest)) + 1) \<and>
    tw_ticks w' = drop (length (got @ rest) - tw_capacity w) (got @ rest)"
proof -
  have r: "resumeFrom w = Some (sequence (last got) + 1)" using resumeFrom_run [OF assms(4)] assms(3) by simp
  have s: "since f a (num (sequence (last got) + 1)) = Inr rest"
    using resume_exact [OF assms(1-3,5,6)] assms(7) by simp
  have inv: "window_inv w got" using assms(4) by (rule window_run_inv)
  have "consecutive (sequences (lg a))" using feed_run_inv [OF assms(1)] by (auto simp: feed_inv_def)
  then have "consecutive (sequences got)" "consecutive (sequences (got @ rest))"
    by (auto simp: assms(2) consecutive_append)
  then have "continues got rest" by (simp add: continues_append)
  moreover have "tw_ticks w \<noteq> [] \<and> last (tw_ticks w) = last got"
    using inv assms(3) by (cases got) (auto simp: window_inv_def window_ok_def last_drop)
  ultimately have "continues (tw_ticks w) rest" using assms(3) by (simp add: continues_def)
  then obtain w' where w': "window_append rest w = Inr w'" using window_append_ok by blast
  then have run: "window_run w' (got @ rest)" using assms(4) by (blast intro: window_run.appended)
  have "tw_capacity w' = tw_capacity w" using w' assms(3) by (auto simp: window_append_iff split: if_splits)
  with window_run_inv [OF run] resumeFrom_run [OF run] assms(3) r s w' show ?thesis by (auto simp: window_inv_def)
qed

theorem client_resumes_exactly_witness:
  "\<exists>w w'. window_append [demo_tick 1, demo_tick 2] w = Inr w' \<and> resumeFrom w' = Some 3 \<and>
    (\<exists>w''. since demo_feed ''A'' (num 3) = Inr [demo_tick 3] \<and> window_append [demo_tick 3] w' = Inr w'' \<and>
      resumeFrom w'' = Some 4)"
proof -
  obtain w where w: "new_TickWindow None = Inr w" by (simp add: new_TickWindow_def DEFAULT_WINDOW_CAPACITY_def)
  then have e: "window_run w []" by (rule window_run.fresh)
  have "tw_ticks w = []" using w by (auto simp: new_TickWindow_def split: if_splits)
  then obtain w' where w': "window_append [demo_tick 1, demo_tick 2] w = Inr w'"
    using window_append_ok [of w "[demo_tick 1, demo_tick 2]"] by (auto simp: continues_def demo_tick_def)
  with e have run: "window_run w' [demo_tick 1, demo_tick 2]" using window_run.appended by fastforce
  have seq: "sequence (demo_tick n) = n" for n by (simp add: demo_tick_def)
  have "fd_retainTicks demo_feed = 2"
    by (simp add: demo_feed_def publish_def history_of_def demo_subscribed_def demo_empty_def Let_def
      demo_tick_def sub_push_def new_subscription_def)
  with client_resumes_exactly [OF demo_feed_run, of "''A''" "[]" "[demo_tick 1, demo_tick 2]" "[demo_tick 3]" w'] run
  have "\<exists>s w''. resumeFrom w' = Some s \<and> since demo_feed ''A'' (num s) = Inr [demo_tick 3] \<and>
      window_append [demo_tick 3] w' = Inr w'' \<and> resumeFrom w'' = Some 4"
    by (auto simp: seq)
  moreover have "resumeFrom w' = Some 3" using resumeFrom_run [OF run] by (simp add: seq)
  ultimately show ?thesis using w' by auto
qed

end
